(* ===== verification/Prelude.thy ===== *)
theory Prelude
  imports Complex_Main "HOL-Library.Word" "HOL-Library.AList" "HOL-Library.Multiset"
begin

text \<open>
  Shared vocabulary of the development: JavaScript numbers and JSON values, byte strings and
  big-endian integers, results that may be an error, insertion-ordered maps, and the two
  interface locales every component uses (\<open>codec\<close> for encode/decode pairs and
  \<open>invariant_machine\<close> for objects driven by a sequence of calls).

  A JavaScript \<open>Map\<close> iterates in insertion order, and \<open>set\<close> on a present key keeps the key's
  place: this is the association list of HOL-Library's AList with \<open>AList.update\<close> and
  \<open>AList.delete\<close>; \<open>map_of\<close> is \<open>get\<close>.
\<close>

named_theorems js_simps \<open>arithmetic and comparison of JavaScript numbers\<close>
named_theorems byte_simps \<open>lengths and contents of encoded integers\<close>

section \<open>Bytes and errors\<close>

type_synonym byte = "8 word"
type_synonym bytes = "8 word list"

text \<open>Sequencing of fallible calls: an exception thrown by the first call is the result.\<close>

definition and_then :: "'e + 'a \<Rightarrow> ('a \<Rightarrow> 'e + 'b) \<Rightarrow> 'e + 'b" where
  "and_then r f = (case r of Inl e \<Rightarrow> Inl e | Inr a \<Rightarrow> f a)"

lemma and_then_simps [simp]:
  "and_then (Inl e) f = Inl e"
  "and_then (Inr a) f = f a"
  by (simp_all add: and_then_def)

lemma and_then_Inr_iff: "and_then r f = Inr b \<longleftrightarrow> (\<exists>a. r = Inr a \<and> f a = Inr b)"
  by (cases r) auto

lemma and_then_Inl_iff:
  "and_then r f = Inl e \<longleftrightarrow> r = Inl e \<or> (\<exists>a. r = Inr a \<and> f a = Inl e)"
  by (cases r) auto

section \<open>JavaScript numbers\<close>

text \<open>
  A finite double is a rational; \<open>NaN\<close> and the infinities are separate values, and every
  comparison with \<open>NaN\<close> is false. The sign of zero is not represented: no code of this
  development can observe it.
\<close>

datatype js_number = Num rat | PosInf | NegInf | NaN

fun js_less :: "js_number \<Rightarrow> js_number \<Rightarrow> bool" where
  "js_less (Num a) (Num b) = (a < b)"
| "js_less NegInf (Num b) = True"
| "js_less NegInf PosInf = True"
| "js_less (Num a) PosInf = True"
| "js_less _ _ = False"

fun js_add :: "js_number \<Rightarrow> js_number \<Rightarrow> js_number" where
  "js_add (Num a) (Num b) = Num (a + b)"
| "js_add (Num a) PosInf = PosInf"
| "js_add PosInf (Num b) = PosInf"
| "js_add PosInf PosInf = PosInf"
| "js_add (Num a) NegInf = NegInf"
| "js_add NegInf (Num b) = NegInf"
| "js_add NegInf NegInf = NegInf"
| "js_add _ _ = NaN"

text \<open>\<open>Number.isInteger\<close> and \<open>Number.isSafeInteger\<close>.\<close>

fun js_isInteger :: "js_number \<Rightarrow> bool" where
  "js_isInteger (Num r) = (of_int \<lfloor>r\<rfloor> = r)"
| "js_isInteger _ = False"

definition MAX_SAFE_INTEGER :: nat where
  "MAX_SAFE_INTEGER = 9007199254740991"

fun js_isSafeInteger :: "js_number \<Rightarrow> bool" where
  "js_isSafeInteger (Num r) = (of_int \<lfloor>r\<rfloor> = r \<and> \<bar>r\<bar> \<le> of_nat MAX_SAFE_INTEGER)"
| "js_isSafeInteger _ = False"

text \<open>
  \<open>ToUint32\<close>: truncation towards zero, then modulo \<open>2 ^ 32\<close>; \<open>NaN\<close> and the infinities
  give 0. It is what \<open>>>> 0\<close> and \<open>DataView.setUint32\<close> apply to their argument.
\<close>

fun toUint32 :: "js_number \<Rightarrow> nat" where
  "toUint32 (Num r) = nat ((if r < 0 then - \<lfloor>- r\<rfloor> else \<lfloor>r\<rfloor>) mod 2 ^ 32)"
| "toUint32 _ = 0"

text \<open>\<open>Math.floor\<close>, and division by a positive integer constant.\<close>

fun js_floor :: "js_number \<Rightarrow> js_number" where
  "js_floor (Num r) = Num (of_int \<lfloor>r\<rfloor>)"
| "js_floor x = x"

fun js_div_const :: "js_number \<Rightarrow> nat \<Rightarrow> js_number" where
  "js_div_const (Num r) k = Num (r / of_nat k)"
| "js_div_const x k = x"

definition js_nat :: "nat \<Rightarrow> js_number" where
  "js_nat n = Num (of_nat n)"

lemma js_nat_eq_iff [simp]: "js_nat m = js_nat n \<longleftrightarrow> m = n"
  by (simp add: js_nat_def)

lemma js_nat_facts [js_simps]:
  "js_less (js_nat m) (js_nat n) \<longleftrightarrow> m < n"
  "js_add (js_nat m) (js_nat n) = js_nat (m + n)"
  "js_isInteger (js_nat n)"
  "js_isSafeInteger (js_nat n) \<longleftrightarrow> n \<le> MAX_SAFE_INTEGER"
  by (simp_all add: js_nat_def)

lemma toUint32_js_nat [js_simps]: "toUint32 (js_nat n) = n mod 2 ^ 32"
  by (simp add: js_nat_def nat_mod_distrib nat_power_eq flip: of_nat_mod)

lemma js_floor_div_nat [js_simps]: "js_floor (js_div_const (js_nat n) k) = js_nat (n div k)"
proof -
  have "\<lfloor>of_nat n / (of_nat k :: rat)\<rfloor> = int (n div k)"
    by (rule floor_divide_of_nat_eq)
  then show ?thesis by (simp add: js_nat_def)
qed

lemma js_integer_nat:
  assumes "js_isInteger x" and "\<not> js_less x (js_nat 0)"
  shows "\<exists>n. x = js_nat n"
proof (cases x)
  case (Num r)
  with assms have r: "of_int \<lfloor>r\<rfloor> = r" and "0 \<le> r" by (auto simp: js_nat_def)
  then have "0 \<le> \<lfloor>r\<rfloor>" by simp
  then obtain n where "\<lfloor>r\<rfloor> = int n" by (metis nonneg_int_cases)
  with r have "r = of_nat n" by (metis of_int_of_nat_eq)
  with Num show ?thesis by (auto simp: js_nat_def)
qed (use assms in auto)

section \<open>Big-endian integers in byte strings\<close>

text \<open>
  \<open>uint32_be n\<close> is what \<open>DataView.setUint32(_, n, false)\<close> writes; \<open>getUint32 bs off\<close>
  what \<open>DataView.getUint32(off, false)\<close> reads. A read past the end throws in JavaScript:
  every use below is behind a length check, and the lemmas carry that bound.
\<close>

definition uint32_be :: "nat \<Rightarrow> bytes" where
  "uint32_be n = [of_nat (n div 2 ^ 24), of_nat (n div 2 ^ 16), of_nat (n div 2 ^ 8), of_nat n]"

definition getUint32 :: "bytes \<Rightarrow> nat \<Rightarrow> nat" where
  "getUint32 bs off =
     unat (bs ! off) * 2 ^ 24 + unat (bs ! (off + 1)) * 2 ^ 16 +
     unat (bs ! (off + 2)) * 2 ^ 8 + unat (bs ! (off + 3))"

lemma length_uint32_be [simp, byte_simps]: "length (uint32_be n) = 4"
  by (simp add: uint32_be_def)

lemma unat_of_nat_byte: "unat (of_nat n :: byte) = n mod 256"
  by (simp add: unat_of_nat take_bit_eq_mod)

lemma unat_byte_less [simp]: "unat (b :: byte) < 256"
  using unsigned_less [of b, where 'a = nat] by simp

lemma getUint32_less: "getUint32 bs off < 2 ^ 32"
proof -
  have "a < 256 \<Longrightarrow> b < 256 \<Longrightarrow> c < 256 \<Longrightarrow> d < 256 \<Longrightarrow>
      a * 2 ^ 24 + b * 2 ^ 16 + c * 2 ^ 8 + d < 2 ^ 32" for a b c d :: nat
    by simp
  then show ?thesis unfolding getUint32_def by (simp only: unat_byte_less)
qed

lemma split_base256:
  fixes n :: nat
  shows "(n div 2 ^ 24) mod 256 * 2 ^ 24 + (n div 2 ^ 16) mod 256 * 2 ^ 16 +
     (n div 2 ^ 8) mod 256 * 2 ^ 8 + n mod 256 = n mod 2 ^ 32"
  using mod_mult2_eq [of n "2 ^ 24" 256] mod_mult2_eq [of n "2 ^ 16" 256]
    mod_mult2_eq [of n "2 ^ 8" 256]
  by simp

lemma getUint32_uint32_be: "getUint32 (xs @ uint32_be n @ ys) (length xs) = n mod 2 ^ 32"
  using split_base256 [of n]
  by (simp add: getUint32_def uint32_be_def nth_append unat_of_nat_byte)

lemma byte_eq_iff: "(a :: byte) = b \<longleftrightarrow> unat a = unat b"
  by (simp add: word_unat_eq_iff)

lemma base256_digits:
  fixes a b c d :: nat
  assumes "a < 256" "b < 256" "c < 256" "d < 256"
  defines "n \<equiv> a * 2 ^ 24 + b * 2 ^ 16 + c * 2 ^ 8 + d"
  shows "n div 2 ^ 24 mod 256 = a" "n div 2 ^ 16 mod 256 = b" "n div 2 ^ 8 mod 256 = c"
    "n mod 256 = d"
proof -
  have "n div 2 ^ 24 = a" using assms by (simp add: n_def)
  then show "n div 2 ^ 24 mod 256 = a" using assms(1) by simp
  have "n div 2 ^ 16 = a * 256 + b" using assms by (simp add: n_def)
  then show "n div 2 ^ 16 mod 256 = b" using assms(2) by (simp only: mod_mult_self3 mod_less)
  have "n div 2 ^ 8 = (a * 256 + b) * 256 + c" using assms by (simp add: n_def)
  then show "n div 2 ^ 8 mod 256 = c" using assms(3) by (simp only: mod_mult_self3 mod_less)
  have "n = ((a * 256 + b) * 256 + c) * 256 + d" by (simp add: n_def)
  then show "n mod 256 = d" using assms(4) by (simp only: mod_mult_self3 mod_less)
qed

lemma uint32_be_getUint32_4:
  assumes "length bs = 4"
  shows "uint32_be (getUint32 bs 0) = bs"
proof -
  from assms obtain a b c d where bs: "bs = [a, b, c, d]"
    by (auto simp: numeral_eq_Suc length_Suc_conv)
  define n where "n = getUint32 bs 0"
  have n: "n = unat a * 2 ^ 24 + unat b * 2 ^ 16 + unat c * 2 ^ 8 + unat d"
    by (simp add: n_def bs getUint32_def)
  have "n div 2 ^ 24 mod 256 = unat a" "n div 2 ^ 16 mod 256 = unat b"
    "n div 2 ^ 8 mod 256 = unat c" "n mod 256 = unat d"
    unfolding n by (rule base256_digits; simp only: unat_byte_less)+
  then have "uint32_be n = bs"
    by (simp add: bs uint32_be_def byte_eq_iff unat_of_nat_byte)
  then show ?thesis by (simp only: n_def)
qed

lemma getUint32_take: "off + 4 \<le> n \<Longrightarrow> getUint32 (take n bs) off = getUint32 bs off"
  by (simp add: getUint32_def)

lemma getUint32_drop: "k + off + 4 \<le> length bs \<Longrightarrow> getUint32 (drop k bs) off = getUint32 bs (k + off)"
  by (simp add: getUint32_def add.assoc)

lemma uint32_be_getUint32:
  assumes "off + 4 \<le> length bs"
  shows "uint32_be (getUint32 bs off) = take 4 (drop off bs)"
proof -
  have "length (take 4 (drop off bs)) = 4" using assms by simp
  then have "uint32_be (getUint32 (take 4 (drop off bs)) 0) = take 4 (drop off bs)"
    by (rule uint32_be_getUint32_4)
  moreover have "getUint32 (take 4 (drop off bs)) 0 = getUint32 bs off"
    using assms by (simp add: getUint32_take getUint32_drop)
  ultimately show ?thesis by simp
qed

section \<open>JSON values\<close>

text \<open>
  The values \<open>JSON.parse\<close> returns. Objects keep the order of their keys; an absent property
  reads as \<open>undefined\<close>, which is \<open>None\<close> here, as is a property of a value that is no
  object. A later duplicate key wins, as it does in \<open>JSON.parse\<close>, so the list of an object
  is taken to have distinct keys. Strings are character lists.
\<close>

datatype json =
    JNull
  | JBool bool
  | JNum js_number
  | JStr string
  | JArr "json list"
  | JObj "(string \<times> json) list"

fun get_prop :: "json \<Rightarrow> string \<Rightarrow> json option" where
  "get_prop (JObj kvs) k = map_of kvs k"
| "get_prop _ k = None"

text \<open>\<open>typeof v === "object" \<and> v !== null\<close> (an array is an object too).\<close>

fun is_object :: "json \<Rightarrow> bool" where
  "is_object (JObj _) = True"
| "is_object (JArr _) = True"
| "is_object _ = False"

fun is_string :: "json option \<Rightarrow> bool" where
  "is_string (Some (JStr _)) = True"
| "is_string _ = False"

fun is_number :: "json option \<Rightarrow> bool" where
  "is_number (Some (JNum _)) = True"
| "is_number _ = False"

lemma is_string_iff: "is_string v \<longleftrightarrow> (\<exists>s. v = Some (JStr s))"
  by (cases v rule: is_string.cases) auto

lemma is_number_iff: "is_number v \<longleftrightarrow> (\<exists>n. v = Some (JNum n))"
  by (cases v rule: is_number.cases) auto

section \<open>Insertion-ordered maps\<close>

lemma map_of_update: "map_of (AList.update k v m) = (map_of m)(k \<mapsto> v)"
  by (simp add: update_conv')

lemma map_of_delete: "map_of (AList.delete k m) = (map_of m)(k := None)"
  by (simp add: delete_conv')

lemma AList_delete_length:
  "map_of m k = Some v \<Longrightarrow> distinct (map fst m) \<Longrightarrow> length (AList.delete k m) + 1 = length m"
  by (induction m) (auto simp: dest: map_of_SomeD)

lemma AList_delete_keys: "map fst (AList.delete k m) = filter (\<lambda>x. x \<noteq> k) (map fst m)"
  by (induction m) auto

lemma sum_list_AList_delete:
  "map_of m k = Some v \<Longrightarrow> distinct (map fst m) \<Longrightarrow>
     sum_list (map (\<lambda>(_, x). f x) (AList.delete k m)) + f v = sum_list (map (\<lambda>(_, x). f x) m :: int list)"
proof (induction m)
  case (Cons a m)
  then show ?case by (cases a) (auto dest: map_of_SomeD)
qed simp

lemma AList_update_new: "k \<notin> fst ` set m \<Longrightarrow> AList.update k v m = m @ [(k, v)]"
  by (induction m) auto

lemma AList_update_keys: "map_of m k = Some v \<Longrightarrow> map fst (AList.update k w m) = map fst m"
  by (induction m) auto

lemma sum_list_AList_update:
  "map_of m k = Some v \<Longrightarrow>
     sum_list (map (\<lambda>(_, x). f x) (AList.update k w m)) + f v = sum_list (map (\<lambda>(_, x). f x) m) + (f w :: 'a :: comm_monoid_add)"
  by (induction m) (auto simp: ac_simps)

lemma update_absent: "map_of m k = None \<Longrightarrow> AList.update k v m = m @ [(k, v)]"
  by (induction m) (auto split: if_splits)

lemma delete_absent: "map_of m k = None \<Longrightarrow> AList.delete k m = m"
  by (induction m) (auto split: if_splits)

lemma length_filter_delete:
  "distinct (map fst m) \<Longrightarrow> map_of m k = Some v \<Longrightarrow>
     length (filter P m) = length (filter P (AList.delete k m)) + (if P (k, v) then 1 else 0)"
proof (induction m)
  case (Cons x m)
  show ?case
  proof (cases "fst x = k")
    case True
    with Cons.prems have "map_of m k = None" by (auto simp: map_of_eq_None_iff)
    with True Cons.prems show ?thesis by (cases x) (auto simp: delete_absent)
  next
    case False
    with Cons show ?thesis by (cases x) auto
  qed
qed simp

lemma set_update_subset: "set (AList.update k v m) \<subseteq> insert (k, v) (set m)"
  by (induction m) auto

lemma length_update: "length (AList.update k v m) = (if map_of m k = None then length m + 1 else length m)"
  by (induction m) auto

lemmas omap_simps = map_of_update map_of_delete distinct_update distinct_delete

lemma distinct_keys_inj:
  "distinct (map fst m) \<Longrightarrow> (k, v) \<in> set m \<Longrightarrow> (k, w) \<in> set m \<Longrightarrow> v = w"
  by (metis map_of_is_SomeI option.inject)

lemma card_keys: "distinct (map fst m) \<Longrightarrow> card (dom (map_of m)) = length m"
  by (metis dom_map_of_conv_image_fst distinct_card length_map list.set_map)

lemma card_entries: "distinct (map fst m) \<Longrightarrow> card (set m) = length m"
  by (metis distinct_card distinct_map)

text \<open>
  \<open>Array.prototype.sort\<close> with a comparator: stable, so for a consistent comparator the result
  is the one an insertion sort gives that puts an element after those it is not less than.
\<close>

fun js_insert :: "('a \<Rightarrow> 'a \<Rightarrow> int) \<Rightarrow> 'a \<Rightarrow> 'a list \<Rightarrow> 'a list" where
  "js_insert cmp x [] = [x]"
| "js_insert cmp x (y # ys) = (if cmp x y \<le> 0 then x # y # ys else y # js_insert cmp x ys)"

definition js_sort :: "('a \<Rightarrow> 'a \<Rightarrow> int) \<Rightarrow> 'a list \<Rightarrow> 'a list" where
  "js_sort cmp xs = foldr (js_insert cmp) xs []"

lemma mset_js_insert: "mset (js_insert cmp x xs) = add_mset x (mset xs)"
  by (induction xs) auto

lemma mset_js_sort [simp]: "mset (js_sort cmp xs) = mset xs"
  by (induction xs) (simp_all add: js_sort_def mset_js_insert)

lemma set_js_sort [simp]: "set (js_sort cmp xs) = set xs"
  by (rule mset_eq_setD) simp

lemma length_js_sort [simp]: "length (js_sort cmp xs) = length xs"
  by (rule mset_eq_length) simp

lemma distinct_js_sort [simp]: "distinct (js_sort cmp xs) = distinct xs"
  by (rule mset_eq_imp_distinct_iff) simp

text \<open>
  A comparator that only answers "not after" for pairs of a transitive relation, and "after" for
  pairs of its converse, sorts by that relation, whatever it does otherwise.
\<close>

lemma js_sort_sorted:
  assumes le: "\<And>x y. cmp x y \<le> 0 \<Longrightarrow> R x y" and gt: "\<And>x y. \<not> cmp x y \<le> 0 \<Longrightarrow> R y x"
    and trans: "\<And>x y z. R x y \<Longrightarrow> R y z \<Longrightarrow> R x z"
  shows "sorted_wrt R (js_sort cmp xs)"
proof (induction xs)
  case (Cons x xs)
  have "sorted_wrt R (js_insert cmp x ys)" if "sorted_wrt R ys" for ys
    using that
  proof (induction ys)
    case (Cons y ys)
    have "z = x \<or> z \<in> set ys" if "z \<in> set (js_insert cmp x ys)" for z
      using that mset_js_insert [of cmp x ys] by (metis insert_iff set_mset_add_mset_insert set_mset_mset)
    with Cons show ?case
      by (cases "cmp x y \<le> 0") (auto intro: le trans [OF le] dest: gt)
  qed simp
  then show ?case using Cons by (simp add: js_sort_def)
qed (simp add: js_sort_def)

text \<open>The members of \<open>new Set(xs)\<close> in iteration order.\<close>

definition js_set_members :: "'a list \<Rightarrow> 'a list" where
  "js_set_members xs = rev (remdups (rev xs))"

lemma js_set_members [simp]:
  "set (js_set_members xs) = set xs" "distinct (js_set_members xs)"
  by (simp_all add: js_set_members_def)

section \<open>Interfaces\<close>

text \<open>
  An encoder and a decoder of one wire format. \<open>valid\<close> is the set of values the encoder
  takes; the law is that it accepts each of them and that the decoder gives it back.
\<close>

locale codec =
  fixes encode :: "'a \<Rightarrow> 'e + bytes"
    and decode :: "bytes \<Rightarrow> 'f + 'a"
    and valid :: "'a \<Rightarrow> bool"
  assumes round_trip: "valid a \<Longrightarrow> \<exists>bs. encode a = Inr bs \<and> decode bs = Inr a"
begin

lemma decode_encode: "valid a \<Longrightarrow> encode a = Inr bs \<Longrightarrow> decode bs = Inr a"
  using round_trip [of a] by auto

lemma encode_injective:
  "valid a \<Longrightarrow> valid b \<Longrightarrow> encode a = encode b \<Longrightarrow> a = b"
  using round_trip [of a] round_trip [of b] by auto

end

text \<open>A format in which every accepted byte string is the encoding of what it decodes to.\<close>

locale canonical_codec = codec +
  assumes canonical: "decode bs = Inr a \<Longrightarrow> valid a \<and> encode a = Inr bs"
begin

lemma decode_iff: "decode bs = Inr a \<longleftrightarrow> valid a \<and> encode a = Inr bs"
  using canonical decode_encode by blast

lemma decode_injective: "decode bs = Inr a \<Longrightarrow> decode cs = Inr a \<Longrightarrow> bs = cs"
  by (metis canonical sum.inject(2))

end

text \<open>A canonical format of a fixed width, and a header that is one such field after another.\<close>

locale fixed_codec = canonical_codec +
  fixes width :: nat
  assumes encoded_width: "encode a = Inr bs \<Longrightarrow> length bs = width"

locale two_field_header =
  A: fixed_codec encodeA decodeA validA widthA + B: fixed_codec encodeB decodeB validB widthB
  for encodeA :: "'a \<Rightarrow> 'e + bytes" and decodeA :: "bytes \<Rightarrow> 'f + 'a" and validA and widthA
  and encodeB :: "'b \<Rightarrow> 'e + bytes" and decodeB :: "bytes \<Rightarrow> 'f + 'b" and validB and widthB
begin

lemma header_round_trip:
  assumes "validA a" and "validB b"
  shows "\<exists>x y. encodeA a = Inr x \<and> encodeB b = Inr y \<and> length x = widthA \<and> length y = widthB \<and>
           decodeA x = Inr a \<and> decodeB y = Inr b"
  using A.round_trip [OF assms(1)] B.round_trip [OF assms(2)] A.encoded_width B.encoded_width
  by blast

lemma header_canonical:
  assumes "decodeA (take widthA p) = Inr a" and "decodeB (take widthB (drop widthA p)) = Inr b"
  shows "validA a \<and> validB b \<and> encodeA a = Inr (take widthA p) \<and>
    encodeB b = Inr (take widthB (drop widthA p)) \<and>
    take widthA p @ take widthB (drop widthA p) @ drop (widthA + widthB) p = p"
proof -
  have "take widthB (drop widthA p) @ drop (widthA + widthB) p = drop widthA p"
    by (metis add.commute append_take_drop_id drop_drop)
  then show ?thesis
    using A.canonical [OF assms(1)] B.canonical [OF assms(2)] by simp
qed

end

text \<open>
  An object driven by calls: a step function on its state, and an invariant that the initial
  state has and that every permitted call keeps. What holds after one call then holds after
  any sequence of permitted calls.
\<close>

fun permitted :: "('s \<Rightarrow> 'op \<Rightarrow> 's) \<Rightarrow> ('s \<Rightarrow> 'op \<Rightarrow> bool) \<Rightarrow> 's \<Rightarrow> 'op list \<Rightarrow> bool" where
  "permitted step ok s [] = True"
| "permitted step ok s (x # xs) = (ok s x \<and> permitted step ok (step s x) xs)"

lemma permitted_all [simp]: "permitted step (\<lambda>_ _. True) s xs"
  by (induction xs arbitrary: s) auto

locale invariant_machine =
  fixes step :: "'s \<Rightarrow> 'op \<Rightarrow> 's"
    and ok :: "'s \<Rightarrow> 'op \<Rightarrow> bool"
    and init :: 's
    and inv :: "'s \<Rightarrow> bool"
  assumes inv_init: "inv init"
    and inv_step: "inv s \<Longrightarrow> ok s x \<Longrightarrow> inv (step s x)"
begin

lemma inv_run_from: "inv s \<Longrightarrow> permitted step ok s xs \<Longrightarrow> inv (foldl step s xs)"
  by (induction xs arbitrary: s) (auto intro: inv_step)

lemma inv_run: "permitted step ok init xs \<Longrightarrow> inv (foldl step init xs)"
  by (rule inv_run_from [OF inv_init])

end

end
