(* ===== verification/BinaryFraming.thy ===== *)
theory BinaryFraming
  imports Prelude
begin

text \<open>
  The wire formats of \<open>packages/shared/src/binary-framing.ts\<close>: format-tagged frames, the
  encrypted envelope, upload and streamed-response chunks, and the bounded transport chunks with
  their reassembler. A byte string is a list of 8-bit words; a thrown error is a \<open>framing_error\<close>
  that keeps the class and the \<open>code\<close> and leaves out the message text.

  \<open>TextEncoder\<close>, \<open>TextDecoder\<close> and \<open>JSON\<close> belong to the host: the two JSON frame functions take
  them as arguments.
\<close>

section \<open>Format-tagged frames\<close>

datatype format_name =
  JSON | BINARY_UPLOAD | COMPRESSED_JSON | SPEECH_AUDIO | TRANSPORT_CHUNK | RESPONSE_CHUNK

fun BinaryFormat :: "format_name \<Rightarrow> byte" where
  "BinaryFormat JSON = 1"
| "BinaryFormat BINARY_UPLOAD = 2"
| "BinaryFormat COMPRESSED_JSON = 3"
| "BinaryFormat SPEECH_AUDIO = 4"
| "BinaryFormat TRANSPORT_CHUNK = 5"
| "BinaryFormat RESPONSE_CHUNK = 6"

datatype frame_code = UNKNOWN_FORMAT | INVALID_UTF8 | INVALID_JSON
datatype envelope_code = UNKNOWN_VERSION | ENVELOPE_INVALID_LENGTH | DECRYPTION_FAILED | ENVELOPE_INVALID_FORMAT
datatype upload_code = INVALID_UUID | INVALID_OFFSET | UPLOAD_INVALID_LENGTH | UPLOAD_INVALID_FORMAT
datatype chunk_code = INVALID_HEADER | INVALID_SEQUENCE | MESSAGE_TOO_LARGE

datatype framing_error =
    BinaryFrameError frame_code
  | BinaryEnvelopeError envelope_code
  | UploadChunkError upload_code
  | TransportChunkError chunk_code

definition encodeJsonBytesFrame :: "bytes \<Rightarrow> bytes" where
  "encodeJsonBytesFrame jsonBytes = BinaryFormat JSON # jsonBytes"

definition encodeJsonFrame :: "('j \<Rightarrow> string) \<Rightarrow> (string \<Rightarrow> bytes) \<Rightarrow> 'j \<Rightarrow> bytes" where
  "encodeJsonFrame stringify utf8_encode message =
     encodeJsonBytesFrame (utf8_encode (stringify message))"

definition decodeBinaryFrame :: "bytes \<Rightarrow> framing_error + byte \<times> bytes" where
  "decodeBinaryFrame bs =
     (case bs of
        [] \<Rightarrow> Inl (BinaryFrameError UNKNOWN_FORMAT)
      | format # payload \<Rightarrow>
          if format \<noteq> BinaryFormat JSON \<and> format \<noteq> BinaryFormat BINARY_UPLOAD \<and>
             format \<noteq> BinaryFormat COMPRESSED_JSON \<and> format \<noteq> BinaryFormat SPEECH_AUDIO \<and>
             format \<noteq> BinaryFormat TRANSPORT_CHUNK
          then Inl (BinaryFrameError UNKNOWN_FORMAT)
          else Inr (format, payload))"

definition decodeJsonFrame ::
  "(bytes \<Rightarrow> string option) \<Rightarrow> (string \<Rightarrow> 'j option) \<Rightarrow> bytes \<Rightarrow> framing_error + 'j" where
  "decodeJsonFrame utf8_decode parse bs =
     and_then (decodeBinaryFrame bs) (\<lambda>(format, payload).
       if format \<noteq> BinaryFormat JSON then Inl (BinaryFrameError UNKNOWN_FORMAT)
       else (case utf8_decode payload of
           None \<Rightarrow> Inl (BinaryFrameError INVALID_UTF8)
         | Some json \<Rightarrow>
             (case parse json of
                None \<Rightarrow> Inl (BinaryFrameError INVALID_JSON)
              | Some v \<Rightarrow> Inr v)))"

text \<open>The payload of a compressed frame is passed on as it is.\<close>

definition encodeCompressedJsonFrame :: "bytes \<Rightarrow> bytes" where
  "encodeCompressedJsonFrame compressedData = BinaryFormat COMPRESSED_JSON # compressedData"

definition decodeCompressedJsonFrame :: "bytes \<Rightarrow> framing_error + bytes" where
  "decodeCompressedJsonFrame bs =
     and_then (decodeBinaryFrame bs) (\<lambda>(format, payload).
       if format \<noteq> BinaryFormat COMPRESSED_JSON then Inl (BinaryFrameError UNKNOWN_FORMAT)
       else Inr payload)"

section \<open>The encrypted envelope\<close>

definition BinaryEnvelopeVersion_V1 :: byte where
  "BinaryEnvelopeVersion_V1 = 1"

definition NONCE_LENGTH :: nat where "NONCE_LENGTH = 24"
definition VERSION_LENGTH :: nat where "VERSION_LENGTH = 1"
definition MIN_BINARY_ENVELOPE_LENGTH :: nat where
  "MIN_BINARY_ENVELOPE_LENGTH = VERSION_LENGTH + NONCE_LENGTH + 16 + 1"

lemmas envelope_sizes =
  BinaryEnvelopeVersion_V1_def NONCE_LENGTH_def VERSION_LENGTH_def MIN_BINARY_ENVELOPE_LENGTH_def

record BinaryEnvelopeComponents =
  be_version :: byte
  be_nonce :: bytes
  be_ciphertext :: bytes

definition parseBinaryEnvelope :: "bytes \<Rightarrow> framing_error + BinaryEnvelopeComponents" where
  "parseBinaryEnvelope bs =
     (if length bs < MIN_BINARY_ENVELOPE_LENGTH
      then Inl (BinaryEnvelopeError ENVELOPE_INVALID_LENGTH)
      else if bs ! 0 \<noteq> BinaryEnvelopeVersion_V1 then Inl (BinaryEnvelopeError UNKNOWN_VERSION)
      else Inr \<lparr>be_version = bs ! 0, be_nonce = take NONCE_LENGTH (drop VERSION_LENGTH bs),
                be_ciphertext = drop (VERSION_LENGTH + NONCE_LENGTH) bs\<rparr>)"

definition createBinaryEnvelope :: "bytes \<Rightarrow> bytes \<Rightarrow> byte \<Rightarrow> framing_error + bytes" where
  "createBinaryEnvelope nonce ciphertext version =
     (if length nonce \<noteq> NONCE_LENGTH then Inl (BinaryEnvelopeError ENVELOPE_INVALID_LENGTH)
      else Inr (version # nonce @ ciphertext))"

definition prependFormatByte :: "byte \<Rightarrow> bytes \<Rightarrow> bytes" where
  "prependFormatByte format payload = format # payload"

definition extractFormatAndPayload :: "bytes \<Rightarrow> framing_error + byte \<times> bytes" where
  "extractFormatAndPayload decrypted =
     (case decrypted of
        [] \<Rightarrow> Inl (BinaryEnvelopeError ENVELOPE_INVALID_FORMAT)
      | format # payload \<Rightarrow>
          if format \<noteq> BinaryFormat JSON \<and> format \<noteq> BinaryFormat BINARY_UPLOAD \<and>
             format \<noteq> BinaryFormat COMPRESSED_JSON \<and> format \<noteq> BinaryFormat SPEECH_AUDIO \<and>
             format \<noteq> BinaryFormat TRANSPORT_CHUNK \<and> format \<noteq> BinaryFormat RESPONSE_CHUNK
          then Inl (BinaryEnvelopeError ENVELOPE_INVALID_FORMAT)
          else Inr (format, payload))"

section \<open>Upload identifiers and offsets\<close>

definition UUID_BYTE_LENGTH :: nat where "UUID_BYTE_LENGTH = 16"
definition OFFSET_BYTE_LENGTH :: nat where "OFFSET_BYTE_LENGTH = 8"
definition UPLOAD_CHUNK_HEADER_SIZE :: nat where
  "UPLOAD_CHUNK_HEADER_SIZE = UUID_BYTE_LENGTH + OFFSET_BYTE_LENGTH"
definition RESPONSE_CHUNK_HEADER_SIZE :: nat where
  "RESPONSE_CHUNK_HEADER_SIZE = OFFSET_BYTE_LENGTH + UUID_BYTE_LENGTH"

lemmas header_sizes =
  UUID_BYTE_LENGTH_def OFFSET_BYTE_LENGTH_def UPLOAD_CHUNK_HEADER_SIZE_def
  RESPONSE_CHUNK_HEADER_SIZE_def

text \<open>One hexadecimal digit, as \<open>Number.parseInt(_, 16)\<close> and the test's character class read it.\<close>

definition hex_value :: "char \<Rightarrow> nat option" where
  "hex_value c =
     (let n = of_char c :: nat in
      if 48 \<le> n \<and> n \<le> 57 then Some (n - 48)
      else if 97 \<le> n \<and> n \<le> 102 then Some (n - 87)
      else if 65 \<le> n \<and> n \<le> 70 then Some (n - 55)
      else None)"

text \<open>One lower-case digit of \<open>toString(16)\<close>, and two with \<open>padStart(2, "0")\<close>.\<close>

definition hex_digit :: "nat \<Rightarrow> char" where
  "hex_digit n = char_of (if n < 10 then 48 + n else 87 + n)"

definition byte_to_hex :: "byte \<Rightarrow> string" where
  "byte_to_hex b = [hex_digit (unat b div 16), hex_digit (unat b mod 16)]"

fun hex_pairs :: "string \<Rightarrow> bytes" where
  "hex_pairs (a # b # s) =
     of_nat (16 * the (hex_value a) + the (hex_value b)) # hex_pairs s"
| "hex_pairs _ = []"

definition uuidToBytes :: "string \<Rightarrow> framing_error + bytes" where
  "uuidToBytes uuid =
     (let hex = filter (\<lambda>c. c \<noteq> CHR ''-'') uuid in
      if length hex \<noteq> 32 then Inl (UploadChunkError INVALID_UUID)
      else if \<not> list_all (\<lambda>c. hex_value c \<noteq> None) hex then Inl (UploadChunkError INVALID_UUID)
      else Inr (hex_pairs hex))"

definition format_uuid :: "string \<Rightarrow> string" where
  "format_uuid hex =
     take 8 hex @ ''-'' @ take 4 (drop 8 hex) @ ''-'' @ take 4 (drop 12 hex) @ ''-'' @
     take 4 (drop 16 hex) @ ''-'' @ drop 20 hex"

definition bytesToUuid :: "bytes \<Rightarrow> framing_error + string" where
  "bytesToUuid bs =
     (if length bs \<noteq> 16 then Inl (UploadChunkError INVALID_UUID)
      else Inr (format_uuid (concat (map byte_to_hex bs))))"

text \<open>
  \<open>value / 0x100000000\<close> is exact (a power of two), and \<open>high * 0x100000000 + low\<close> is exact up to
  \<open>2 ^ 53\<close> and rounds monotonically above it, so the comparison with \<open>MAX_SAFE_INTEGER\<close> is the
  comparison of the exact values.
\<close>

definition offsetToBytes :: "js_number \<Rightarrow> framing_error + bytes" where
  "offsetToBytes v =
     (if js_less v (js_nat 0) then Inl (UploadChunkError INVALID_OFFSET)
      else if \<not> js_isInteger v then Inl (UploadChunkError INVALID_OFFSET)
      else if js_less (js_nat MAX_SAFE_INTEGER) v then Inl (UploadChunkError INVALID_OFFSET)
      else Inr (uint32_be (toUint32 (js_floor (js_div_const v 4294967296))) @
                uint32_be (toUint32 v)))"

definition bytesToOffset :: "bytes \<Rightarrow> framing_error + js_number" where
  "bytesToOffset bs =
     (if length bs \<noteq> 8 then Inl (UploadChunkError INVALID_OFFSET)
      else (let high = getUint32 bs 0; low = getUint32 bs 4;
                v = high * 4294967296 + low
            in if MAX_SAFE_INTEGER < v then Inl (UploadChunkError INVALID_OFFSET)
               else Inr (js_nat v)))"

section \<open>Upload and response chunks\<close>

record UploadChunkData =
  uc_uploadId :: string
  uc_offset :: js_number
  uc_data :: bytes

definition encodeUploadChunkPayload :: "string \<Rightarrow> js_number \<Rightarrow> bytes \<Rightarrow> framing_error + bytes" where
  "encodeUploadChunkPayload uploadId offset data =
     and_then (uuidToBytes uploadId) (\<lambda>uuidBytes.
     and_then (offsetToBytes offset) (\<lambda>offsetBytes.
       Inr (uuidBytes @ offsetBytes @ data)))"

definition encodeUploadChunkFrame :: "string \<Rightarrow> js_number \<Rightarrow> bytes \<Rightarrow> framing_error + bytes" where
  "encodeUploadChunkFrame uploadId offset data =
     and_then (uuidToBytes uploadId) (\<lambda>uuidBytes.
     and_then (offsetToBytes offset) (\<lambda>offsetBytes.
       Inr (BinaryFormat BINARY_UPLOAD # uuidBytes @ offsetBytes @ data)))"

definition decodeUploadChunkPayload :: "bytes \<Rightarrow> framing_error + UploadChunkData" where
  "decodeUploadChunkPayload payload =
     (if length payload < UPLOAD_CHUNK_HEADER_SIZE
      then Inl (UploadChunkError UPLOAD_INVALID_LENGTH)
      else
        (let uuidBytes = take UUID_BYTE_LENGTH payload;
             offsetBytes = take OFFSET_BYTE_LENGTH (drop UUID_BYTE_LENGTH payload);
             chunkData = drop UPLOAD_CHUNK_HEADER_SIZE payload
         in and_then (bytesToUuid uuidBytes) (\<lambda>uploadId.
            and_then (bytesToOffset offsetBytes) (\<lambda>offset.
              Inr \<lparr>uc_uploadId = uploadId, uc_offset = offset, uc_data = chunkData\<rparr>))))"

definition decodeUploadChunkFrame :: "bytes \<Rightarrow> framing_error + UploadChunkData" where
  "decodeUploadChunkFrame bs =
     and_then (decodeBinaryFrame bs) (\<lambda>(format, payload).
       if format \<noteq> BinaryFormat BINARY_UPLOAD then Inl (BinaryFrameError UNKNOWN_FORMAT)
       else decodeUploadChunkPayload payload)"

record ResponseChunkData =
  rc_seq :: js_number
  rc_requestId :: string
  rc_data :: bytes

definition encodeResponseChunkPayload :: "js_number \<Rightarrow> string \<Rightarrow> bytes \<Rightarrow> framing_error + bytes" where
  "encodeResponseChunkPayload seq requestId data =
     and_then (offsetToBytes seq) (\<lambda>seqBytes.
     and_then (uuidToBytes requestId) (\<lambda>uuidBytes.
       Inr (seqBytes @ uuidBytes @ data)))"

definition decodeResponseChunkPayload :: "bytes \<Rightarrow> framing_error + ResponseChunkData" where
  "decodeResponseChunkPayload payload =
     (if length payload < RESPONSE_CHUNK_HEADER_SIZE
      then Inl (UploadChunkError UPLOAD_INVALID_LENGTH)
      else
        and_then (bytesToOffset (take OFFSET_BYTE_LENGTH payload)) (\<lambda>seq.
        and_then (bytesToUuid (take UUID_BYTE_LENGTH (drop OFFSET_BYTE_LENGTH payload))) (\<lambda>rid.
          Inr \<lparr>rc_seq = seq, rc_requestId = rid,
               rc_data = drop RESPONSE_CHUNK_HEADER_SIZE payload\<rparr>)))"

section \<open>Transport chunks\<close>

definition TRANSPORT_CHUNK_MESSAGE_ID_BYTES :: nat where "TRANSPORT_CHUNK_MESSAGE_ID_BYTES = 4"
definition TRANSPORT_CHUNK_OFFSET_BYTES :: nat where "TRANSPORT_CHUNK_OFFSET_BYTES = 4"
definition TRANSPORT_CHUNK_TOTAL_BYTES :: nat where "TRANSPORT_CHUNK_TOTAL_BYTES = 4"
definition TRANSPORT_CHUNK_HEADER_SIZE :: nat where
  "TRANSPORT_CHUNK_HEADER_SIZE =
     TRANSPORT_CHUNK_MESSAGE_ID_BYTES + TRANSPORT_CHUNK_OFFSET_BYTES + TRANSPORT_CHUNK_TOTAL_BYTES"
definition TRANSPORT_CHUNK_PAYLOAD_MAX_BYTES :: nat where
  "TRANSPORT_CHUNK_PAYLOAD_MAX_BYTES = 256 * 1024"
definition TRANSPORT_REASSEMBLY_MAX_BYTES :: nat where
  "TRANSPORT_REASSEMBLY_MAX_BYTES = 64 * 1024 * 1024"

lemmas chunk_sizes =
  TRANSPORT_CHUNK_MESSAGE_ID_BYTES_def TRANSPORT_CHUNK_OFFSET_BYTES_def
  TRANSPORT_CHUNK_TOTAL_BYTES_def TRANSPORT_CHUNK_HEADER_SIZE_def
  TRANSPORT_CHUNK_PAYLOAD_MAX_BYTES_def TRANSPORT_REASSEMBLY_MAX_BYTES_def

record TransportChunkData =
  tc_messageId :: js_number
  tc_offset :: js_number
  tc_totalBytes :: js_number
  tc_data :: bytes

definition assertUint32 :: "js_number \<Rightarrow> framing_error + unit" where
  "assertUint32 v =
     (if \<not> js_isInteger v \<or> js_less v (js_nat 0) \<or> js_less (js_nat 4294967295) v
      then Inl (TransportChunkError INVALID_HEADER) else Inr ())"

definition validateTransportChunk :: "TransportChunkData \<Rightarrow> framing_error + unit" where
  "validateTransportChunk chunk =
     and_then (assertUint32 (tc_messageId chunk)) (\<lambda>_.
     and_then (assertUint32 (tc_offset chunk)) (\<lambda>_.
     and_then (assertUint32 (tc_totalBytes chunk)) (\<lambda>_.
       if tc_totalBytes chunk = js_nat 0 \<or>
          js_less (js_nat TRANSPORT_REASSEMBLY_MAX_BYTES) (tc_totalBytes chunk)
       then Inl (TransportChunkError MESSAGE_TOO_LARGE)
       else if length (tc_data chunk) = 0 \<or>
          TRANSPORT_CHUNK_PAYLOAD_MAX_BYTES < length (tc_data chunk) \<or>
          js_less (tc_totalBytes chunk)
            (js_add (tc_offset chunk) (js_nat (length (tc_data chunk))))
       then Inl (TransportChunkError INVALID_HEADER)
       else Inr ())))"

definition encodeTransportChunkFrame :: "TransportChunkData \<Rightarrow> framing_error + bytes" where
  "encodeTransportChunkFrame chunk =
     and_then (validateTransportChunk chunk) (\<lambda>_.
       Inr (BinaryFormat TRANSPORT_CHUNK #
            uint32_be (toUint32 (tc_messageId chunk)) @ uint32_be (toUint32 (tc_offset chunk)) @
            uint32_be (toUint32 (tc_totalBytes chunk)) @ tc_data chunk))"

definition decodeTransportChunkFrame :: "bytes \<Rightarrow> framing_error + TransportChunkData" where
  "decodeTransportChunkFrame frame =
     and_then (decodeBinaryFrame frame) (\<lambda>(format, payload).
       if format \<noteq> BinaryFormat TRANSPORT_CHUNK then Inl (BinaryFrameError UNKNOWN_FORMAT)
       else if length payload \<le> TRANSPORT_CHUNK_HEADER_SIZE
       then Inl (TransportChunkError INVALID_HEADER)
       else
         (let chunk =
            \<lparr>tc_messageId = js_nat (getUint32 payload 0),
             tc_offset = js_nat (getUint32 payload TRANSPORT_CHUNK_MESSAGE_ID_BYTES),
             tc_totalBytes = js_nat (getUint32 payload
               (TRANSPORT_CHUNK_MESSAGE_ID_BYTES + TRANSPORT_CHUNK_OFFSET_BYTES)),
             tc_data = drop TRANSPORT_CHUNK_HEADER_SIZE payload\<rparr>
          in and_then (validateTransportChunk chunk) (\<lambda>_. Inr chunk)))"

text \<open>The loop of the generator, from one offset on, and the generator itself.\<close>

function chunk_frames_from :: "js_number \<Rightarrow> bytes \<Rightarrow> nat \<Rightarrow> framing_error + bytes list" where
  "chunk_frames_from mid bs off =
     (if off < length bs then
        and_then (encodeTransportChunkFrame
            \<lparr>tc_messageId = mid, tc_offset = js_nat off, tc_totalBytes = js_nat (length bs),
             tc_data = take (min (off + TRANSPORT_CHUNK_PAYLOAD_MAX_BYTES) (length bs) - off)
                               (drop off bs)\<rparr>)
          (\<lambda>frame. and_then (chunk_frames_from mid bs (off + TRANSPORT_CHUNK_PAYLOAD_MAX_BYTES))
            (\<lambda>frames. Inr (frame # frames)))
      else Inr [])"
  by pat_completeness auto
termination
  by (relation "measure (\<lambda>(mid, bs, off). length bs - off)") (auto simp: chunk_sizes)

declare chunk_frames_from.simps [simp del]

definition encodeTransportChunkFrames :: "js_number \<Rightarrow> bytes \<Rightarrow> framing_error + bytes list" where
  "encodeTransportChunkFrames mid message =
     and_then (assertUint32 mid) (\<lambda>_.
       if length message = 0 \<or> TRANSPORT_REASSEMBLY_MAX_BYTES < length message
       then Inl (TransportChunkError MESSAGE_TOO_LARGE)
       else chunk_frames_from mid message 0)"

section \<open>The transport chunk reassembler\<close>

text \<open>
  The private field \<open>active\<close>. \<open>active.bytes\<close> is allocated at its full size, zero-filled, and
  filled from the left; \<open>set_at\<close> is \<open>Uint8Array.set\<close> inside the bounds (the chunk is validated,
  so \<open>offset + length\<close> never passes the end of the array).
\<close>

record active_message =
  am_messageId :: js_number
  am_receivedBytes :: nat
  am_bytes :: bytes

type_synonym reassembler = "active_message option"

definition set_at :: "nat \<Rightarrow> bytes \<Rightarrow> bytes \<Rightarrow> bytes" where
  "set_at off data bs = take off bs @ data @ drop (off + length data) bs"

definition hasPendingMessage :: "reassembler \<Rightarrow> bool" where
  "hasPendingMessage active = (active \<noteq> None)"

definition reset_reassembler :: "reassembler \<Rightarrow> reassembler" where
  "reset_reassembler active = None"

text \<open>The part of \<open>accept\<close> after the frame has been decoded and a message is active.\<close>

definition accept_chunk ::
  "active_message \<Rightarrow> TransportChunkData \<Rightarrow> reassembler \<times> (framing_error + bytes option)" where
  "accept_chunk a chunk =
     (if tc_messageId chunk \<noteq> am_messageId a \<or> tc_totalBytes chunk \<noteq> js_nat (length (am_bytes a)) \<or>
         tc_offset chunk \<noteq> js_nat (am_receivedBytes a)
      then (None, Inl (TransportChunkError INVALID_SEQUENCE))
      else
        (let bytes' = set_at (toUint32 (tc_offset chunk)) (tc_data chunk) (am_bytes a);
             received' = am_receivedBytes a + length (tc_data chunk)
         in if received' \<noteq> length bytes'
            then (Some (a\<lparr>am_bytes := bytes', am_receivedBytes := received'\<rparr>), Inr None)
            else (None, Inr (Some bytes'))))"

definition accept :: "reassembler \<Rightarrow> bytes \<Rightarrow> reassembler \<times> (framing_error + bytes option)" where
  "accept active frame =
     (case decodeTransportChunkFrame frame of
        Inl e \<Rightarrow> (None, Inl e)
      | Inr chunk \<Rightarrow>
          (case active of
             None \<Rightarrow>
               if tc_offset chunk \<noteq> js_nat 0
               then (None, Inl (TransportChunkError INVALID_SEQUENCE))
               else accept_chunk
                 \<lparr>am_messageId = tc_messageId chunk, am_receivedBytes = 0,
                  am_bytes = replicate (toUint32 (tc_totalBytes chunk)) 0\<rparr> chunk
           | Some a \<Rightarrow> accept_chunk a chunk))"

definition acceptFrame :: "reassembler \<Rightarrow> bytes \<Rightarrow> reassembler \<times> (framing_error + bytes option)" where
  "acceptFrame active frame =
     (if frame = [] \<or> hd frame \<noteq> BinaryFormat TRANSPORT_CHUNK then
        (if active \<noteq> None then (None, Inl (TransportChunkError INVALID_SEQUENCE))
         else (active, Inr (Some frame)))
      else accept active frame)"

text \<open>The results of feeding a list of physical frames, in order, and the reassembler after it.\<close>

fun accept_frames ::
  "reassembler \<Rightarrow> bytes list \<Rightarrow> reassembler \<times> (framing_error + bytes option) list" where
  "accept_frames active [] = (active, [])"
| "accept_frames active (f # fs) =
     (let (active1, r) = acceptFrame active f; (active2, rs) = accept_frames active1 fs
      in (active2, r # rs))"

section \<open>UUIDs\<close>

definition lower_hex :: "char \<Rightarrow> bool" where
  "lower_hex c = (case hex_value c of None \<Rightarrow> False | Some v \<Rightarrow> hex_digit v = c)"

text \<open>The canonical spelling: 32 lower-case digits in groups of 8-4-4-4-12.\<close>

definition canonical_uuid :: "string \<Rightarrow> bool" where
  "canonical_uuid u =
     (let hex = filter (\<lambda>c. c \<noteq> CHR ''-'') u in
      length hex = 32 \<and> list_all lower_hex hex \<and> u = format_uuid hex)"

lemma hex_value_digit: "n < 16 \<Longrightarrow> hex_value (hex_digit n) = Some n"
  by (simp add: hex_value_def hex_digit_def Let_def of_char_of)

lemma hex_digit_not_dash: "n < 16 \<Longrightarrow> hex_digit n \<noteq> CHR ''-''"
  using hex_value_digit [of n] by (auto simp: hex_value_def)

lemma hex_value_less: "hex_value c = Some v \<Longrightarrow> v < 16"
  by (auto simp: hex_value_def Let_def split: if_splits)

lemma lower_hex_iff: "lower_hex c \<longleftrightarrow> (\<exists>n<16. c = hex_digit n)"
  by (auto simp: lower_hex_def hex_value_digit dest: hex_value_less split: option.splits)

lemma byte_digits: "16 * (unat (b :: byte) div 16) + unat b mod 16 = unat b"
  by simp

lemma byte_nibbles_less: "unat (b :: byte) div 16 < 16" "unat b mod 16 < 16"
  by (rule less_mult_imp_div_less) simp_all

lemma of_nat_unat_byte: "of_nat (unat b) = (b :: byte)"
  by simp

lemma hex_pairs_bytes: "hex_pairs (concat (map byte_to_hex bs)) = bs"
proof (induction bs)
  case (Cons b bs)
  have "of_nat (16 * (unat b div 16) + unat b mod 16) = b"
    by (simp only: byte_digits of_nat_unat_byte)
  with Cons show ?case
    by (simp add: byte_to_hex_def hex_value_digit byte_nibbles_less del: of_nat_add of_nat_mult)
qed simp

lemma length_bytes_hex: "length (concat (map byte_to_hex bs)) = 2 * length bs"
  by (induction bs) (auto simp: byte_to_hex_def)

lemma lower_hex_bytes: "list_all lower_hex (concat (map byte_to_hex bs))"
  by (induction bs) (auto simp: byte_to_hex_def lower_hex_def hex_value_digit byte_nibbles_less)

lemma lower_hexD: "lower_hex c \<Longrightarrow> c \<noteq> CHR ''-'' \<and> hex_value c \<noteq> None"
  by (auto simp: lower_hex_iff hex_value_digit hex_digit_not_dash)

lemma format_uuid_pieces:
  "take 8 h @ take 4 (drop 8 h) @ take 4 (drop 12 h) @ take 4 (drop 16 h) @ drop 20 h = h"
proof -
  have "take 20 h = take 8 h @ take 4 (drop 8 h) @ take 4 (drop 12 h) @ take 4 (drop 16 h)"
    using take_add [of 8 4 h] take_add [of 12 4 h] take_add [of 16 4 h] by simp
  then show ?thesis by (metis append.assoc append_take_drop_id)
qed

lemma filter_format_uuid:
  assumes "list_all lower_hex h"
  shows "filter (\<lambda>c. c \<noteq> CHR ''-'') (format_uuid h) = h"
proof -
  have keep: "filter (\<lambda>c. c \<noteq> CHR ''-'') xs = xs" if "set xs \<subseteq> set h" for xs
    using assms that by (auto simp: list_all_iff filter_id_conv dest: lower_hexD)
  have sub: "set (take n (drop m h)) \<subseteq> set h" "set (drop m h) \<subseteq> set h" "set (take n h) \<subseteq> set h"
    for n m by (meson set_drop_subset set_take_subset subset_trans)+
  show ?thesis
    using format_uuid_pieces [of h] by (simp add: format_uuid_def keep sub)
qed

lemma bytes_of_hex_pairs:
  "even (length h) \<Longrightarrow> list_all lower_hex h \<Longrightarrow> concat (map byte_to_hex (hex_pairs h)) = h"
proof (induction h rule: hex_pairs.induct)
  case (1 a b s)
  from 1 obtain m n where a: "a = hex_digit m" "m < 16" and b: "b = hex_digit n" "n < 16"
    by (auto simp: lower_hex_iff)
  have "unat (of_nat (16 * m + n) :: byte) = 16 * m + n"
    using a(2) b(2) by (simp only: unat_of_nat_byte) simp
  moreover have "(16 * m + n) div 16 = m" "(16 * m + n) mod 16 = n" using b(2) by simp_all
  ultimately have "byte_to_hex (of_nat (16 * m + n)) = [a, b]"
    by (simp only: byte_to_hex_def a b)
  with 1 a b show ?case
    by (simp add: hex_value_digit del: of_nat_add of_nat_mult)
qed auto

lemma length_hex_pairs: "length (hex_pairs h) = length h div 2"
  by (induction h rule: hex_pairs.induct) auto

lemma uuidToBytes_length: "uuidToBytes u = Inr bs \<Longrightarrow> length bs = 16"
  by (auto simp: uuidToBytes_def Let_def length_hex_pairs split: if_splits)

lemma uuid_round_trip: "canonical_uuid u \<Longrightarrow> \<exists>bs. uuidToBytes u = Inr bs \<and> bytesToUuid bs = Inr u"
  by (auto simp: canonical_uuid_def uuidToBytes_def bytesToUuid_def Let_def length_hex_pairs
      bytes_of_hex_pairs list_all_iff dest: lower_hexD)

lemma bytesToUuid_canonical:
  assumes "bytesToUuid bs = Inr u"
  shows "canonical_uuid u \<and> uuidToBytes u = Inr bs"
proof -
  let ?h = "concat (map byte_to_hex bs)"
  from assms have bs: "length bs = 16" and u: "u = format_uuid ?h"
    by (auto simp: bytesToUuid_def split: if_splits)
  have h: "filter (\<lambda>c. c \<noteq> CHR ''-'') u = ?h"
    unfolding u by (rule filter_format_uuid [OF lower_hex_bytes])
  have len: "length ?h = 32" by (simp only: length_bytes_hex bs)
  have ok: "list_all (\<lambda>c. hex_value c \<noteq> None) ?h"
    using lower_hex_bytes [of bs] by (auto simp: list_all_iff dest: lower_hexD)
  show ?thesis
    using h len ok lower_hex_bytes [of bs] u
    by (simp only: canonical_uuid_def uuidToBytes_def Let_def hex_pairs_bytes) simp
qed

interpretation uuid: fixed_codec uuidToBytes bytesToUuid canonical_uuid UUID_BYTE_LENGTH
  by unfold_locales
    (auto simp: header_sizes uuid_round_trip bytesToUuid_canonical uuidToBytes_length)

section \<open>Offsets\<close>

definition valid_offset :: "js_number \<Rightarrow> bool" where
  "valid_offset v = (js_isSafeInteger v \<and> \<not> js_less v (js_nat 0))"

lemma js_isSafe_isInteger: "js_isSafeInteger v \<Longrightarrow> js_isInteger v"
  by (cases v) auto

lemma valid_offset_iff: "valid_offset v \<longleftrightarrow> (\<exists>n\<le>MAX_SAFE_INTEGER. v = js_nat n)"
proof
  assume v: "valid_offset v"
  then obtain n where n: "v = js_nat n"
    using js_integer_nat js_isSafe_isInteger by (auto simp: valid_offset_def)
  with v show "\<exists>n\<le>MAX_SAFE_INTEGER. v = js_nat n" by (auto simp: valid_offset_def js_simps)
qed (auto simp: valid_offset_def js_simps)

lemma offsetToBytes_js_nat:
  "offsetToBytes (js_nat n) =
     (if MAX_SAFE_INTEGER < n then Inl (UploadChunkError INVALID_OFFSET)
      else Inr (uint32_be (n div 4294967296) @ uint32_be (n mod 4294967296)))"
proof -
  have "n div 4294967296 mod 4294967296 = n div 4294967296" if "n \<le> MAX_SAFE_INTEGER"
    using that by (simp add: MAX_SAFE_INTEGER_def)
  then show ?thesis by (simp add: offsetToBytes_def js_simps)
qed

lemma offsetToBytes_Inr:
  assumes "offsetToBytes v = Inr bs"
  shows "\<exists>n\<le>MAX_SAFE_INTEGER. v = js_nat n \<and>
    bs = uint32_be (n div 4294967296) @ uint32_be (n mod 4294967296)"
proof -
  from assms have "js_isInteger v" "\<not> js_less v (js_nat 0)"
    by (auto simp: offsetToBytes_def split: if_splits)
  then obtain n where n: "v = js_nat n" using js_integer_nat by blast
  with assms show ?thesis by (auto simp: offsetToBytes_js_nat split: if_splits)
qed

lemma getUint32_pair:
  "getUint32 (uint32_be a @ uint32_be b) 0 = a mod 2 ^ 32"
  "getUint32 (uint32_be a @ uint32_be b) 4 = b mod 2 ^ 32"
  using getUint32_uint32_be [of "[]" a "uint32_be b"] getUint32_uint32_be [of "uint32_be a" b "[]"]
  by simp_all

lemma bytesToOffset_pair:
  "n \<le> MAX_SAFE_INTEGER \<Longrightarrow>
     bytesToOffset (uint32_be (n div 4294967296) @ uint32_be (n mod 4294967296)) = Inr (js_nat n)"
  by (simp add: bytesToOffset_def getUint32_pair Let_def MAX_SAFE_INTEGER_def)

lemma bytesToOffset_Inr:
  assumes "bytesToOffset bs = Inr v"
  shows "valid_offset v \<and> offsetToBytes v = Inr bs"
proof -
  define n where "n = getUint32 bs 0 * 4294967296 + getUint32 bs 4"
  from assms have len: "length bs = 8" and v: "v = js_nat n" and n: "n \<le> MAX_SAFE_INTEGER"
    by (auto simp: bytesToOffset_def Let_def n_def split: if_splits)
  have "getUint32 bs 4 < 4294967296" using getUint32_less [of bs 4] by simp
  then have "n div 4294967296 = getUint32 bs 0" "n mod 4294967296 = getUint32 bs 4"
    by (simp_all add: n_def)
  moreover have "uint32_be (getUint32 bs 0) @ uint32_be (getUint32 bs 4) = bs"
    using len uint32_be_getUint32 [of 0 bs] uint32_be_getUint32 [of 4 bs] by simp
  ultimately have "offsetToBytes v = Inr bs"
    using n by (simp add: v offsetToBytes_js_nat)
  with v n show ?thesis by (auto simp: valid_offset_iff)
qed

interpretation offset64: fixed_codec offsetToBytes bytesToOffset valid_offset OFFSET_BYTE_LENGTH
proof unfold_locales
  show "\<exists>bs. offsetToBytes v = Inr bs \<and> bytesToOffset bs = Inr v" if "valid_offset v" for v
    using that by (auto simp: valid_offset_iff offsetToBytes_js_nat bytesToOffset_pair)
  show "valid_offset v \<and> offsetToBytes v = Inr bs" if "bytesToOffset bs = Inr v" for bs v
    using that by (rule bytesToOffset_Inr)
  show "length bs = OFFSET_BYTE_LENGTH" if "offsetToBytes v = Inr bs" for v bs
    using offsetToBytes_Inr [OF that] by (auto simp: header_sizes)
qed

section \<open>Chunk payloads\<close>

text \<open>Both chunk payloads are a two-field header and data; they share the header laws.\<close>

interpretation upload_header: two_field_header
  uuidToBytes bytesToUuid canonical_uuid UUID_BYTE_LENGTH
  offsetToBytes bytesToOffset valid_offset OFFSET_BYTE_LENGTH
  by unfold_locales

interpretation response_header: two_field_header
  offsetToBytes bytesToOffset valid_offset OFFSET_BYTE_LENGTH
  uuidToBytes bytesToUuid canonical_uuid UUID_BYTE_LENGTH
  by unfold_locales

definition valid_upload :: "UploadChunkData \<Rightarrow> bool" where
  "valid_upload d = (canonical_uuid (uc_uploadId d) \<and> valid_offset (uc_offset d))"

definition encode_upload :: "UploadChunkData \<Rightarrow> framing_error + bytes" where
  "encode_upload d = encodeUploadChunkPayload (uc_uploadId d) (uc_offset d) (uc_data d)"

definition valid_response :: "ResponseChunkData \<Rightarrow> bool" where
  "valid_response d = (valid_offset (rc_seq d) \<and> canonical_uuid (rc_requestId d))"

definition encode_response :: "ResponseChunkData \<Rightarrow> framing_error + bytes" where
  "encode_response d = encodeResponseChunkPayload (rc_seq d) (rc_requestId d) (rc_data d)"

interpretation upload: canonical_codec encode_upload decodeUploadChunkPayload valid_upload
proof unfold_locales
  fix d :: UploadChunkData
  assume "valid_upload d"
  then obtain x y where "uuidToBytes (uc_uploadId d) = Inr x" "offsetToBytes (uc_offset d) = Inr y"
    "length x = 16" "length y = 8" "bytesToUuid x = Inr (uc_uploadId d)"
    "bytesToOffset y = Inr (uc_offset d)"
    using upload_header.header_round_trip [of "uc_uploadId d" "uc_offset d"]
    by (auto simp: valid_upload_def header_sizes)
  then show "\<exists>bs. encode_upload d = Inr bs \<and> decodeUploadChunkPayload bs = Inr d"
    by (simp add: encode_upload_def encodeUploadChunkPayload_def decodeUploadChunkPayload_def
        header_sizes)
next
  fix bs d
  assume d: "decodeUploadChunkPayload bs = Inr d"
  then have "bytesToUuid (take UUID_BYTE_LENGTH bs) = Inr (uc_uploadId d)"
    "bytesToOffset (take OFFSET_BYTE_LENGTH (drop UUID_BYTE_LENGTH bs)) = Inr (uc_offset d)"
    and data: "uc_data d = drop UPLOAD_CHUNK_HEADER_SIZE bs"
    by (auto simp: decodeUploadChunkPayload_def and_then_Inr_iff split: if_splits)
  from upload_header.header_canonical [OF this(1,2)] data
  show "valid_upload d \<and> encode_upload d = Inr bs"
    by (simp add: valid_upload_def encode_upload_def encodeUploadChunkPayload_def header_sizes)
qed

interpretation response: canonical_codec encode_response decodeResponseChunkPayload valid_response
proof unfold_locales
  fix d :: ResponseChunkData
  assume "valid_response d"
  then obtain x y where "offsetToBytes (rc_seq d) = Inr x" "uuidToBytes (rc_requestId d) = Inr y"
    "length x = 8" "length y = 16" "bytesToOffset x = Inr (rc_seq d)"
    "bytesToUuid y = Inr (rc_requestId d)"
    using response_header.header_round_trip [of "rc_seq d" "rc_requestId d"]
    by (auto simp: valid_response_def header_sizes)
  then show "\<exists>bs. encode_response d = Inr bs \<and> decodeResponseChunkPayload bs = Inr d"
    by (simp add: encode_response_def encodeResponseChunkPayload_def
        decodeResponseChunkPayload_def header_sizes)
next
  fix bs d
  assume d: "decodeResponseChunkPayload bs = Inr d"
  then have "bytesToOffset (take OFFSET_BYTE_LENGTH bs) = Inr (rc_seq d)"
    "bytesToUuid (take UUID_BYTE_LENGTH (drop OFFSET_BYTE_LENGTH bs)) = Inr (rc_requestId d)"
    and data: "rc_data d = drop RESPONSE_CHUNK_HEADER_SIZE bs"
    by (auto simp: decodeResponseChunkPayload_def and_then_Inr_iff split: if_splits)
  from response_header.header_canonical [OF this(1,2)] data
  show "valid_response d \<and> encode_response d = Inr bs"
    by (simp add: valid_response_def encode_response_def encodeResponseChunkPayload_def header_sizes)
qed

section \<open>The envelope\<close>

definition valid_envelope :: "BinaryEnvelopeComponents \<Rightarrow> bool" where
  "valid_envelope c =
     (be_version c = BinaryEnvelopeVersion_V1 \<and> length (be_nonce c) = NONCE_LENGTH \<and>
      17 \<le> length (be_ciphertext c))"

definition encode_envelope :: "BinaryEnvelopeComponents \<Rightarrow> framing_error + bytes" where
  "encode_envelope c = createBinaryEnvelope (be_nonce c) (be_ciphertext c) (be_version c)"

lemma envelope_split:
  "\<not> length bs < 42 \<Longrightarrow> bs ! 0 = v \<Longrightarrow> v # take 24 (drop (Suc 0) bs) @ drop 25 bs = bs"
  by (cases bs) (auto simp: numeral_eq_Suc)

interpretation envelope: canonical_codec encode_envelope parseBinaryEnvelope valid_envelope
  by unfold_locales
    (auto simp: valid_envelope_def encode_envelope_def createBinaryEnvelope_def
      parseBinaryEnvelope_def envelope_sizes envelope_split split: if_splits)

section \<open>Transport chunk frames\<close>

lemma assertUint32_Inr: "assertUint32 v = Inr () \<longleftrightarrow> (\<exists>n<2 ^ 32. v = js_nat n)"
proof
  assume v: "assertUint32 v = Inr ()"
  then have "js_isInteger v" "\<not> js_less v (js_nat 0)" by (auto simp: assertUint32_def split: if_splits)
  then obtain n where "v = js_nat n" using js_integer_nat by blast
  with v show "\<exists>n<2 ^ 32. v = js_nat n" by (auto simp: assertUint32_def js_simps split: if_splits)
qed (auto simp: assertUint32_def js_simps)

definition valid_chunk :: "TransportChunkData \<Rightarrow> bool" where
  "valid_chunk c = (validateTransportChunk c = Inr ())"

lemma valid_chunk_iff:
  "valid_chunk c \<longleftrightarrow>
     (\<exists>i off tot. tc_messageId c = js_nat i \<and> tc_offset c = js_nat off \<and>
        tc_totalBytes c = js_nat tot \<and> i < 2 ^ 32 \<and> 0 < tot \<and>
        tot \<le> TRANSPORT_REASSEMBLY_MAX_BYTES \<and> 0 < length (tc_data c) \<and>
        length (tc_data c) \<le> TRANSPORT_CHUNK_PAYLOAD_MAX_BYTES \<and> off + length (tc_data c) \<le> tot)"
  (is "?lhs \<longleftrightarrow> ?rhs")
proof
  assume ?lhs
  then have v: "validateTransportChunk c = Inr ()" by (simp add: valid_chunk_def)
  then obtain i off tot where "i < 2 ^ 32" and
    f: "tc_messageId c = js_nat i" "tc_offset c = js_nat off" "tc_totalBytes c = js_nat tot"
    by (auto simp: validateTransportChunk_def and_then_Inr_iff assertUint32_Inr)
  moreover from v f have "0 < tot \<and> tot \<le> TRANSPORT_REASSEMBLY_MAX_BYTES \<and>
     0 < length (tc_data c) \<and> length (tc_data c) \<le> TRANSPORT_CHUNK_PAYLOAD_MAX_BYTES \<and>
     off + length (tc_data c) \<le> tot"
    by (auto simp: validateTransportChunk_def and_then_Inr_iff js_simps split: if_splits)
  ultimately show ?rhs by blast
next
  assume ?rhs
  then obtain i off tot where f: "tc_messageId c = js_nat i" "tc_offset c = js_nat off"
    "tc_totalBytes c = js_nat tot" and "i < 2 ^ 32" "0 < tot"
    "tot \<le> TRANSPORT_REASSEMBLY_MAX_BYTES" "0 < length (tc_data c)"
    "length (tc_data c) \<le> TRANSPORT_CHUNK_PAYLOAD_MAX_BYTES" "off + length (tc_data c) \<le> tot"
    by blast
  note r = this
  then have "off < 2 ^ 32" "tot < 2 ^ 32" by (simp_all add: chunk_sizes)
  with r have "assertUint32 (tc_messageId c) = Inr ()" "assertUint32 (tc_offset c) = Inr ()"
    "assertUint32 (tc_totalBytes c) = Inr ()" by (auto simp: assertUint32_Inr)
  then show ?lhs using r
    by (cases "tc_data c") (simp_all add: valid_chunk_def validateTransportChunk_def js_simps)
qed

lemma getUint32_three:
  fixes a b c :: nat and d :: bytes
  defines "p \<equiv> uint32_be a @ uint32_be b @ uint32_be c @ d"
  shows "getUint32 p 0 = a mod 2 ^ 32" "getUint32 p 4 = b mod 2 ^ 32" "getUint32 p 8 = c mod 2 ^ 32"
  using getUint32_uint32_be [of "[]" a "uint32_be b @ uint32_be c @ d"]
    getUint32_uint32_be [of "uint32_be a" b "uint32_be c @ d"]
    getUint32_uint32_be [of "uint32_be a @ uint32_be b" c d]
  by (simp_all add: p_def)

lemma three_uint32_split:
  assumes "12 \<le> length p"
  shows "uint32_be (getUint32 p 0) @ uint32_be (getUint32 p 4) @ uint32_be (getUint32 p 8) @
    drop 12 p = p"
proof -
  have "drop 12 p = drop 4 (drop 8 p)" "drop 8 p = drop 4 (drop 4 p)" by simp_all
  then have "take 4 (drop 8 p) @ drop 12 p = drop 8 p" "take 4 (drop 4 p) @ drop 8 p = drop 4 p"
    by (simp_all only: append_take_drop_id)
  then show ?thesis using assms by (simp add: uint32_be_getUint32)
qed

lemma decodeTransportChunkFrame_Cons:
  "decodeTransportChunkFrame (BinaryFormat TRANSPORT_CHUNK # p) =
     (if length p \<le> TRANSPORT_CHUNK_HEADER_SIZE then Inl (TransportChunkError INVALID_HEADER)
      else and_then (validateTransportChunk
          \<lparr>tc_messageId = js_nat (getUint32 p 0), tc_offset = js_nat (getUint32 p 4),
           tc_totalBytes = js_nat (getUint32 p 8), tc_data = drop 12 p\<rparr>)
        (\<lambda>_. Inr \<lparr>tc_messageId = js_nat (getUint32 p 0), tc_offset = js_nat (getUint32 p 4),
           tc_totalBytes = js_nat (getUint32 p 8), tc_data = drop 12 p\<rparr>))"
  by (simp add: decodeTransportChunkFrame_def decodeBinaryFrame_def chunk_sizes Let_def)

lemma decodeTransportChunkFrame_Inr:
  assumes "decodeTransportChunkFrame bs = Inr c"
  shows "valid_chunk c \<and> encodeTransportChunkFrame c = Inr bs"
proof -
  from assms obtain p where bs: "bs = BinaryFormat TRANSPORT_CHUNK # p"
    by (cases bs) (auto simp: decodeTransportChunkFrame_def decodeBinaryFrame_def and_then_Inr_iff
        split: if_splits)
  with assms have c: "c = \<lparr>tc_messageId = js_nat (getUint32 p 0), tc_offset = js_nat (getUint32 p 4),
           tc_totalBytes = js_nat (getUint32 p 8), tc_data = drop 12 p\<rparr>"
    and v: "validateTransportChunk c = Inr ()" and len: "12 < length p"
    by (simp_all only: decodeTransportChunkFrame_Cons)
      (auto simp: and_then_Inr_iff chunk_sizes split: if_splits)
  have "getUint32 p 0 mod 2 ^ 32 = getUint32 p 0" "getUint32 p 4 mod 2 ^ 32 = getUint32 p 4"
    "getUint32 p 8 mod 2 ^ 32 = getUint32 p 8"
    using getUint32_less by (simp_all only: mod_less)
  then have "encodeTransportChunkFrame c = Inr bs"
    using v three_uint32_split [of p] len
    by (simp add: encodeTransportChunkFrame_def bs c toUint32_js_nat del: BinaryFormat.simps)
  with v show ?thesis by (simp add: valid_chunk_def)
qed

lemma transport_chunk_round_trip:
  assumes "valid_chunk c"
  shows "\<exists>bs. encodeTransportChunkFrame c = Inr bs \<and> decodeTransportChunkFrame bs = Inr c"
proof -
  from assms obtain i off tot where f: "tc_messageId c = js_nat i" "tc_offset c = js_nat off"
    "tc_totalBytes c = js_nat tot" and lt: "i < 2 ^ 32" "off < 2 ^ 32" "tot < 2 ^ 32"
    and d: "0 < length (tc_data c)"
    by (auto simp: valid_chunk_iff chunk_sizes)
  let ?p = "uint32_be i @ uint32_be off @ uint32_be tot @ tc_data c"
  have v: "validateTransportChunk c = Inr ()" using assms by (simp add: valid_chunk_def)
  have "encodeTransportChunkFrame c = Inr (BinaryFormat TRANSPORT_CHUNK # ?p)"
    using lt by (simp add: encodeTransportChunkFrame_def v f toUint32_js_nat del: BinaryFormat.simps)
  moreover have "decodeTransportChunkFrame (BinaryFormat TRANSPORT_CHUNK # ?p) = Inr c"
    unfolding decodeTransportChunkFrame_Cons getUint32_three using lt d v
    by (cases c) (simp add: chunk_sizes f [symmetric] mod_less)
  ultimately show ?thesis by blast
qed

interpretation chunk: canonical_codec encodeTransportChunkFrame decodeTransportChunkFrame valid_chunk
  by unfold_locales (simp_all add: transport_chunk_round_trip decodeTransportChunkFrame_Inr)

section \<open>Reassembly\<close>

lemma set_at_length: "off + length d \<le> length bs \<Longrightarrow> length (set_at off d bs) = length bs"
  by (simp add: set_at_def)

text \<open>
  What the reassembler knows while it waits: a proper prefix of a message of bounded size.
  The rest of the array is still zero.
\<close>

fun reassembler_inv :: "reassembler \<Rightarrow> bool" where
  "reassembler_inv None = True"
| "reassembler_inv (Some a) =
     (0 < am_receivedBytes a \<and> am_receivedBytes a < length (am_bytes a) \<and>
      length (am_bytes a) \<le> TRANSPORT_REASSEMBLY_MAX_BYTES \<and>
      drop (am_receivedBytes a) (am_bytes a) =
        replicate (length (am_bytes a) - am_receivedBytes a) 0)"

definition prefix_state :: "js_number \<Rightarrow> bytes \<Rightarrow> nat \<Rightarrow> active_message" where
  "prefix_state mid msg off =
     \<lparr>am_messageId = mid, am_receivedBytes = off,
      am_bytes = take off msg @ replicate (length msg - off) 0\<rparr>"

text \<open>One in-order chunk moves the state from one prefix of the message to the next.\<close>

lemma accept_chunk_prefix:
  assumes d: "d = take n (drop off msg)" and off: "off + n \<le> length msg" and lt: "off < 2 ^ 32"
  shows "accept_chunk (prefix_state mid msg off)
      \<lparr>tc_messageId = mid, tc_offset = js_nat off, tc_totalBytes = js_nat (length msg), tc_data = d\<rparr>
    = (if off + n = length msg then (None, Inr (Some msg))
       else (Some (prefix_state mid msg (off + n)), Inr None))"
proof -
  have len: "length d = n" using assms by simp
  have full: "length (am_bytes (prefix_state mid msg off)) = length msg"
    using off by (simp add: prefix_state_def)
  have fill: "set_at off d (take off msg @ replicate (length msg - off) 0) =
      take (off + n) msg @ replicate (length msg - (off + n)) 0"
    using off by (simp add: set_at_def d len take_add)
  have "toUint32 (js_nat off) = off" using lt by (simp add: js_simps)
  then show ?thesis
    using off full fill by (auto simp: accept_chunk_def prefix_state_def len Let_def)
qed

definition reassembler_at :: "js_number \<Rightarrow> bytes \<Rightarrow> nat \<Rightarrow> reassembler" where
  "reassembler_at mid msg off = (if off = 0 then None else Some (prefix_state mid msg off))"

definition chunk_at :: "js_number \<Rightarrow> bytes \<Rightarrow> nat \<Rightarrow> TransportChunkData" where
  "chunk_at mid msg off =
     \<lparr>tc_messageId = mid, tc_offset = js_nat off, tc_totalBytes = js_nat (length msg),
      tc_data = take (min (off + TRANSPORT_CHUNK_PAYLOAD_MAX_BYTES) (length msg) - off) (drop off msg)\<rparr>"

lemma valid_chunk_at:
  assumes "i < 2 ^ 32" "off < length msg" "length msg \<le> TRANSPORT_REASSEMBLY_MAX_BYTES"
  shows "valid_chunk (chunk_at (js_nat i) msg off)"
  using assms by (auto simp: valid_chunk_iff chunk_at_def chunk_sizes)

lemma encodeTransportChunkFrame_shape:
  "encodeTransportChunkFrame c = Inr f \<Longrightarrow>
     f \<noteq> [] \<and> hd f = BinaryFormat TRANSPORT_CHUNK \<and> length f = 13 + length (tc_data c)"
  by (auto simp: encodeTransportChunkFrame_def and_then_Inr_iff)

lemma acceptFrame_chunk_at:
  assumes i: "i < 2 ^ 32" and off: "off < length msg"
    and len: "length msg \<le> TRANSPORT_REASSEMBLY_MAX_BYTES"
    and f: "encodeTransportChunkFrame (chunk_at (js_nat i) msg off) = Inr f"
  shows "acceptFrame (reassembler_at (js_nat i) msg off) f =
    (if length msg \<le> off + TRANSPORT_CHUNK_PAYLOAD_MAX_BYTES then (None, Inr (Some msg))
     else (reassembler_at (js_nat i) msg (off + TRANSPORT_CHUNK_PAYLOAD_MAX_BYTES), Inr None))"
proof -
  let ?n = "min (off + TRANSPORT_CHUNK_PAYLOAD_MAX_BYTES) (length msg) - off"
  have dec: "decodeTransportChunkFrame f = Inr (chunk_at (js_nat i) msg off)"
    using valid_chunk_at [OF i off len] f by (rule chunk.decode_encode)
  have small: "off < 2 ^ 32" "length msg < 2 ^ 32" using off len by (simp_all add: chunk_sizes)
  have start: "accept (reassembler_at (js_nat i) msg off) f =
      accept_chunk (prefix_state (js_nat i) msg off) (chunk_at (js_nat i) msg off)"
    using small
    by (auto simp: accept_def dec reassembler_at_def prefix_state_def chunk_at_def toUint32_js_nat)
  have "accept_chunk (prefix_state (js_nat i) msg off) (chunk_at (js_nat i) msg off) =
      (if off + ?n = length msg then (None, Inr (Some msg))
       else (Some (prefix_state (js_nat i) msg (off + ?n)), Inr None))"
    unfolding chunk_at_def using off small by (intro accept_chunk_prefix) auto
  moreover have "off + ?n = length msg \<longleftrightarrow> length msg \<le> off + TRANSPORT_CHUNK_PAYLOAD_MAX_BYTES"
    using off by auto
  moreover have "acceptFrame (reassembler_at (js_nat i) msg off) f =
      accept (reassembler_at (js_nat i) msg off) f"
    using encodeTransportChunkFrame_shape [OF f] by (auto simp: acceptFrame_def)
  ultimately have "acceptFrame (reassembler_at (js_nat i) msg off) f =
    (if length msg \<le> off + TRANSPORT_CHUNK_PAYLOAD_MAX_BYTES then (None, Inr (Some msg))
     else (Some (prefix_state (js_nat i) msg (off + ?n)), Inr None))"
    by (simp only: start)
  then show ?thesis
    using off by (auto simp: reassembler_at_def chunk_sizes min_def)
qed

lemma chunk_frames_accepted:
  assumes "i < 2 ^ 32" "length msg \<le> TRANSPORT_REASSEMBLY_MAX_BYTES" "off < length msg"
  shows "\<exists>fs. chunk_frames_from (js_nat i) msg off = Inr fs \<and> fs \<noteq> [] \<and>
    (\<forall>f\<in>set fs. length f \<le> 1 + TRANSPORT_CHUNK_HEADER_SIZE + TRANSPORT_CHUNK_PAYLOAD_MAX_BYTES) \<and>
    accept_frames (reassembler_at (js_nat i) msg off) fs =
      (None, replicate (length fs - 1) (Inr None) @ [Inr (Some msg)])"
  using assms
proof (induction "js_nat i" msg off rule: chunk_frames_from.induct)
  case (1 msg off)
  let ?max = TRANSPORT_CHUNK_PAYLOAD_MAX_BYTES
  let ?c = "chunk_at (js_nat i) msg off"
  have "valid_chunk ?c" using "1.prems" by (intro valid_chunk_at) simp_all
  then obtain f where f: "encodeTransportChunkFrame ?c = Inr f"
    using chunk.round_trip by blast
  have step: "acceptFrame (reassembler_at (js_nat i) msg off) f =
    (if length msg \<le> off + ?max then (None, Inr (Some msg))
     else (reassembler_at (js_nat i) msg (off + ?max), Inr None))"
    using "1.prems" f by (intro acceptFrame_chunk_at) simp_all
  have unfold: "chunk_frames_from (js_nat i) msg off =
      and_then (chunk_frames_from (js_nat i) msg (off + ?max)) (\<lambda>fs. Inr (f # fs))"
    using "1.prems" f by (subst chunk_frames_from.simps) (simp add: chunk_at_def)
  have short: "length f \<le> 1 + TRANSPORT_CHUNK_HEADER_SIZE + ?max"
    using encodeTransportChunkFrame_shape [OF f] by (simp add: chunk_at_def chunk_sizes)
  show ?case
  proof (cases "length msg \<le> off + ?max")
    case True
    then have "chunk_frames_from (js_nat i) msg (off + ?max) = Inr []"
      by (subst chunk_frames_from.simps) simp
    with True unfold step short show ?thesis by (intro exI [of _ "[f]"]) simp
  next
    case False
    then obtain fs where "chunk_frames_from (js_nat i) msg (off + ?max) = Inr fs" "fs \<noteq> []"
      "\<forall>f\<in>set fs. length f \<le> 1 + TRANSPORT_CHUNK_HEADER_SIZE + ?max"
      "accept_frames (reassembler_at (js_nat i) msg (off + ?max)) fs =
        (None, replicate (length fs - 1) (Inr None) @ [Inr (Some msg)])"
      using "1.hyps" "1.prems" f by (auto simp: chunk_at_def)
    with False unfold step short show ?thesis
      by (intro exI [of _ "f # fs"]) (cases fs; simp)
  qed
qed

text \<open>Whatever frames arrive, the reassembler keeps to its bounds, and an error clears it.\<close>

lemma accept_chunk_inv:
  assumes c: "valid_chunk c" and len: "length (am_bytes a) \<le> TRANSPORT_REASSEMBLY_MAX_BYTES"
    and zero: "drop (am_receivedBytes a) (am_bytes a) =
        replicate (length (am_bytes a) - am_receivedBytes a) 0"
  shows "reassembler_inv (fst (accept_chunk a c))"
proof (cases "tc_totalBytes c = js_nat (length (am_bytes a)) \<and>
    tc_offset c = js_nat (am_receivedBytes a) \<and> tc_messageId c = am_messageId a")
  case False
  then show ?thesis by (auto simp: accept_chunk_def)
next
  case True
  with c have d: "0 < length (tc_data c)"
    "am_receivedBytes a + length (tc_data c) \<le> length (am_bytes a)"
    and rlt: "am_receivedBytes a < 2 ^ 32"
    by (auto simp: valid_chunk_iff chunk_sizes)
  let ?r = "am_receivedBytes a" and ?n = "length (tc_data c)"
  let ?bs = "set_at ?r (tc_data c) (am_bytes a)"
  have "length ?bs = length (am_bytes a)" using d by (intro set_at_length)
  moreover have "drop (?r + ?n) ?bs = drop ?n (drop ?r (am_bytes a))"
    using d by (simp add: set_at_def add.commute)
  moreover have "toUint32 (js_nat ?r) = ?r" using rlt by (simp add: js_simps)
  ultimately show ?thesis
    using True d len zero by (auto simp: accept_chunk_def Let_def)
qed

lemma acceptFrame_inv:
  assumes "reassembler_inv s" shows "reassembler_inv (fst (acceptFrame s f))"
proof (cases "decodeTransportChunkFrame f")
  case (Inl e)
  then show ?thesis by (auto simp: acceptFrame_def accept_def)
next
  case (Inr c)
  then have c: "valid_chunk c" by (rule chunk.canonical [THEN conjunct1])
  then obtain tot where tot: "tc_totalBytes c = js_nat tot" "tot \<le> TRANSPORT_REASSEMBLY_MAX_BYTES"
    by (auto simp: valid_chunk_iff)
  then have "toUint32 (tc_totalBytes c) = tot" by (simp add: js_simps chunk_sizes)
  then have "reassembler_inv (fst (accept s f))"
    using assms tot Inr by (auto simp: accept_def intro!: accept_chunk_inv [OF c] split: option.splits)
  then show ?thesis by (auto simp: acceptFrame_def)
qed

interpretation reassembler: invariant_machine
  "\<lambda>s f. fst (acceptFrame s f)" "\<lambda>_ _. True" None reassembler_inv
  by unfold_locales (simp_all add: acceptFrame_inv)

lemma accept_chunk_error: "snd (accept_chunk a c) = Inl e \<Longrightarrow> fst (accept_chunk a c) = None"
  by (simp add: accept_chunk_def Let_def split: if_splits)

lemma accept_error: "snd (accept s f) = Inl e \<Longrightarrow> fst (accept s f) = None"
  by (auto simp: accept_def dest: accept_chunk_error split: sum.splits option.splits if_splits)

lemma acceptFrame_error: "snd (acceptFrame s f) = Inl e \<Longrightarrow> fst (acceptFrame s f) = None"
  by (auto simp: acceptFrame_def dest: accept_error split: if_splits)

section \<open>Properties\<close>

text \<open>
  C1 Any message of 1 byte to 64 MiB, split by \<open>encodeTransportChunkFrames\<close> under any 32-bit
  message id, is split without an error into frames of bounded size; fed in order to an idle
  reassembler they give \<open>undefined\<close> for every frame but the last and exactly the message for
  the last one, after which the reassembler is idle again.
\<close>
theorem transport_reassembly:
  assumes "i < 2 ^ 32" and "0 < length msg" and "length msg \<le> TRANSPORT_REASSEMBLY_MAX_BYTES"
  shows "\<exists>fs. encodeTransportChunkFrames (js_nat i) msg = Inr fs \<and>
    (\<forall>f\<in>set fs. length f \<le> 1 + TRANSPORT_CHUNK_HEADER_SIZE + TRANSPORT_CHUNK_PAYLOAD_MAX_BYTES) \<and>
    accept_frames None fs = (None, replicate (length fs - 1) (Inr None) @ [Inr (Some msg)])"
proof -
  have "assertUint32 (js_nat i) = Inr ()" unfolding assertUint32_Inr using assms(1) by blast
  then have "encodeTransportChunkFrames (js_nat i) msg = chunk_frames_from (js_nat i) msg 0"
    using assms(2,3) by (cases msg) (simp_all add: encodeTransportChunkFrames_def)
  moreover have "reassembler_at (js_nat i) msg 0 = None" by (simp add: reassembler_at_def)
  ultimately show ?thesis
    using chunk_frames_accepted [OF assms(1,3,2)] by metis
qed

theorem transport_reassembly_witness:
  "\<exists>fs. encodeTransportChunkFrames (js_nat 7) [1, 2, 3] = Inr fs \<and>
    (\<forall>f\<in>set fs. length f \<le> 1 + TRANSPORT_CHUNK_HEADER_SIZE + TRANSPORT_CHUNK_PAYLOAD_MAX_BYTES) \<and>
    accept_frames None fs = (None, replicate (length fs - 1) (Inr None) @ [Inr (Some [1, 2, 3])])"
  by (rule transport_reassembly) (simp_all add: chunk_sizes)

text \<open>
  Whatever frames a peer sends, in any order and however malformed, the reassembler holds
  either nothing or a non-empty proper prefix of one message of at most 64 MiB whose missing
  part is still zero.
\<close>
theorem reassembler_bounded:
  "reassembler_inv (foldl (\<lambda>s f. fst (acceptFrame s f)) None frames)"
  by (rule reassembler.inv_run) simp

text \<open>
  A frame that makes the reassembler throw leaves it idle: no partial message survives an
  error, and the next complete message is accepted as if nothing had come before.
\<close>
theorem reassembler_error_clears:
  assumes "snd (acceptFrame s f) = Inl e"
  shows "fst (acceptFrame s f) = None"
  using assms by (rule acceptFrame_error)

theorem reassembler_error_clears_witness:
  "fst (acceptFrame None [5, 0]) = None"
  by (rule reassembler_error_clears [where e = "TransportChunkError INVALID_HEADER"])
    (simp add: acceptFrame_def accept_def decodeTransportChunkFrame_def decodeBinaryFrame_def chunk_sizes)

text \<open>
  The upload-chunk payload and the streamed-response payload are canonical: a payload decodes
  to a chunk exactly if it is the encoding of that chunk, its UUID is spelled in lower case with
  hyphens and its offset (or sequence number) is a safe non-negative integer. In particular every
  accepted payload has one decoding, and every such chunk survives the round trip.
\<close>
theorem chunk_payloads_canonical:
  "(decodeUploadChunkPayload bs = Inr d \<longleftrightarrow>
      canonical_uuid (uc_uploadId d) \<and> valid_offset (uc_offset d) \<and>
      encodeUploadChunkPayload (uc_uploadId d) (uc_offset d) (uc_data d) = Inr bs) \<and>
   (decodeResponseChunkPayload bs = Inr r \<longleftrightarrow>
      valid_offset (rc_seq r) \<and> canonical_uuid (rc_requestId r) \<and>
      encodeResponseChunkPayload (rc_seq r) (rc_requestId r) (rc_data r) = Inr bs)"
  using upload.decode_iff [of bs d] response.decode_iff [of bs r]
  by (simp add: valid_upload_def encode_upload_def valid_response_def encode_response_def)

text \<open>
  The encrypted envelope is canonical as well: parsing a byte string succeeds exactly on the
  envelopes \<open>createBinaryEnvelope\<close> makes from a version-1 byte, a 24-byte nonce and a ciphertext
  of at least 17 bytes, and gives back those components.
\<close>
theorem envelope_canonical:
  "parseBinaryEnvelope bs = Inr c \<longleftrightarrow>
     be_version c = BinaryEnvelopeVersion_V1 \<and> length (be_nonce c) = NONCE_LENGTH \<and>
     17 \<le> length (be_ciphertext c) \<and>
     createBinaryEnvelope (be_nonce c) (be_ciphertext c) (be_version c) = Inr bs"
  using envelope.decode_iff [of bs c] by (auto simp: valid_envelope_def encode_envelope_def)

text \<open>
  The plaintext decoder takes exactly the formats 1 to 5 and the decrypted-payload decoder the
  formats 1 to 6: the raw response chunk (6) is accepted inside an envelope only.
\<close>
theorem format_bytes_accepted:
  "(decodeBinaryFrame bs = Inr (f, p) \<longleftrightarrow> bs = f # p \<and> f \<in> {1, 2, 3, 4, 5}) \<and>
   (extractFormatAndPayload bs = Inr (f, p) \<longleftrightarrow>
      bs = prependFormatByte f p \<and> (f \<in> {1, 2, 3, 4, 5} \<or> f = BinaryFormat RESPONSE_CHUNK))"
  by (cases bs) (auto simp: decodeBinaryFrame_def extractFormatAndPayload_def prependFormatByte_def)

end
