(* ===== verification/RelayMux.thy ===== *)
theory RelayMux
  imports Prelude
begin

text \<open>
  The mux protocol of \<open>packages/shared/src/relay-mux.ts\<close>: the guards that recognise its JSON
  control messages, and the binary data frame that carries one circuit's payload
  (version, flags, 32-bit circuit id, payload). The messages of \<open>RelayMuxFrameError\<close> appear as
  the constructors of \<open>mux_frame_fault\<close>.
\<close>

unbundle bit_operations_syntax

section \<open>Constants and messages\<close>

definition RELAY_MUX_PROTOCOL_VERSION :: nat where "RELAY_MUX_PROTOCOL_VERSION = 1"
definition RELAY_MUX_HEADER_BYTES :: nat where "RELAY_MUX_HEADER_BYTES = 6"
definition RELAY_MUX_BINARY_FLAG :: byte where "RELAY_MUX_BINARY_FLAG = 1"

lemmas mux_constants =
  RELAY_MUX_PROTOCOL_VERSION_def RELAY_MUX_HEADER_BYTES_def RELAY_MUX_BINARY_FLAG_def

datatype RelayMuxErrorReason =
  mux_unknown_username | mux_server_offline | circuit_limit | rate_limited | invalid_request

datatype RelayMuxClosedReason = client_closed | server_closed | relay_closed

record RelayMuxDataFrame =
  df_circuitId :: js_number
  df_isBinary :: bool
  df_payload :: bytes

datatype mux_frame_fault = TooShort | UnsupportedVersion | InvalidFlags | InvalidCircuitId

datatype RelayMuxFrameError = RelayMuxFrameError mux_frame_fault "js_number option"

section \<open>Guards\<close>

fun isRelayMuxCircuitId :: "json option \<Rightarrow> bool" where
  "isRelayMuxCircuitId (Some (JNum n)) =
     (js_isSafeInteger n \<and> js_less (js_nat 0) n \<and> \<not> js_less (js_nat 4294967295) n)"
| "isRelayMuxCircuitId _ = False"

definition isRelayChannel :: "json option \<Rightarrow> bool" where
  "isRelayChannel v = (v = Some (JStr ''app'') \<or> v = Some (JStr ''speech''))"

fun is_positive_safe_integer :: "json option \<Rightarrow> bool" where
  "is_positive_safe_integer (Some (JNum n)) = (js_isSafeInteger n \<and> js_less (js_nat 0) n)"
| "is_positive_safe_integer _ = False"

definition isRelayMuxReady :: "json \<Rightarrow> bool" where
  "isRelayMuxReady v =
     (is_object v \<and> get_prop v ''type'' = Some (JStr ''mux_ready'') \<and>
      get_prop v ''protocolVersion'' = Some (JNum (js_nat RELAY_MUX_PROTOCOL_VERSION)) \<and>
      is_positive_safe_integer (get_prop v ''maxCircuits'') \<and>
      is_positive_safe_integer (get_prop v ''maxFrameBytes''))"

definition isRelayMuxOpen :: "json \<Rightarrow> bool" where
  "isRelayMuxOpen v =
     (is_object v \<and> get_prop v ''type'' = Some (JStr ''mux_open'') \<and>
      isRelayMuxCircuitId (get_prop v ''circuitId'') \<and>
      is_string (get_prop v ''username'') \<and> isRelayChannel (get_prop v ''channel''))"

definition isRelayMuxOpened :: "json \<Rightarrow> bool" where
  "isRelayMuxOpened v =
     (is_object v \<and> get_prop v ''type'' = Some (JStr ''mux_opened'') \<and>
      isRelayMuxCircuitId (get_prop v ''circuitId''))"

definition isRelayMuxError :: "json \<Rightarrow> bool" where
  "isRelayMuxError v =
     (is_object v \<and> get_prop v ''type'' = Some (JStr ''mux_error'') \<and>
      isRelayMuxCircuitId (get_prop v ''circuitId'') \<and>
      (get_prop v ''reason'' = Some (JStr ''unknown_username'') \<or>
       get_prop v ''reason'' = Some (JStr ''server_offline'') \<or>
       get_prop v ''reason'' = Some (JStr ''circuit_limit'') \<or>
       get_prop v ''reason'' = Some (JStr ''rate_limited'') \<or>
       get_prop v ''reason'' = Some (JStr ''invalid_request'')))"

definition isRelayMuxClose :: "json \<Rightarrow> bool" where
  "isRelayMuxClose v =
     (is_object v \<and> get_prop v ''type'' = Some (JStr ''mux_close'') \<and>
      isRelayMuxCircuitId (get_prop v ''circuitId''))"

definition isRelayMuxClosed :: "json \<Rightarrow> bool" where
  "isRelayMuxClosed v =
     (is_object v \<and> get_prop v ''type'' = Some (JStr ''mux_closed'') \<and>
      isRelayMuxCircuitId (get_prop v ''circuitId'') \<and>
      (get_prop v ''reason'' = Some (JStr ''client_closed'') \<or>
       get_prop v ''reason'' = Some (JStr ''server_closed'') \<or>
       get_prop v ''reason'' = Some (JStr ''relay_closed'')))"

section \<open>Data frames\<close>

definition encodeRelayMuxDataFrame ::
  "js_number \<Rightarrow> bytes \<Rightarrow> bool \<Rightarrow> RelayMuxFrameError + bytes" where
  "encodeRelayMuxDataFrame circuitId payload isBinary =
     (if \<not> isRelayMuxCircuitId (Some (JNum circuitId))
      then Inl (RelayMuxFrameError InvalidCircuitId None)
      else Inr (of_nat RELAY_MUX_PROTOCOL_VERSION #
                (if isBinary then RELAY_MUX_BINARY_FLAG else 0) #
                uint32_be (toUint32 circuitId) @ payload))"

text \<open>\<open>circuitId || undefined\<close>.\<close>

definition or_undefined :: "js_number \<Rightarrow> js_number option" where
  "or_undefined n = (if n = js_nat 0 then None else Some n)"

definition decodeRelayMuxDataFrame :: "bytes \<Rightarrow> RelayMuxFrameError + RelayMuxDataFrame" where
  "decodeRelayMuxDataFrame bs =
     (if length bs < RELAY_MUX_HEADER_BYTES then Inl (RelayMuxFrameError TooShort None)
      else
        (let circuitId = js_nat (getUint32 bs 2); flags = bs ! 1
         in if bs ! 0 \<noteq> of_nat RELAY_MUX_PROTOCOL_VERSION
            then Inl (RelayMuxFrameError UnsupportedVersion (or_undefined circuitId))
            else if flags AND NOT RELAY_MUX_BINARY_FLAG \<noteq> 0
            then Inl (RelayMuxFrameError InvalidFlags (or_undefined circuitId))
            else if \<not> isRelayMuxCircuitId (Some (JNum circuitId))
            then Inl (RelayMuxFrameError InvalidCircuitId None)
            else Inr \<lparr>df_circuitId = circuitId,
                      df_isBinary = (flags AND RELAY_MUX_BINARY_FLAG \<noteq> 0),
                      df_payload = drop RELAY_MUX_HEADER_BYTES bs\<rparr>))"

section \<open>Facts\<close>

lemma js_safe_nat:
  assumes "js_isSafeInteger n" and "js_less (js_nat 0) n"
  shows "\<exists>m. n = js_nat m \<and> 0 < m"
proof -
  have "js_isInteger n" using assms(1) by (cases n) auto
  moreover have "\<not> js_less n (js_nat 0)" using assms(2) by (cases n) (auto simp: js_nat_def)
  ultimately obtain m where "n = js_nat m" using js_integer_nat by blast
  with assms(2) show ?thesis by (auto simp: js_simps)
qed

lemma circuit_id_iff:
  "isRelayMuxCircuitId v \<longleftrightarrow> (\<exists>n. v = Some (JNum (js_nat n)) \<and> 0 < n \<and> n < 2 ^ 32)"
proof
  assume v: "isRelayMuxCircuitId v"
  then obtain n where n: "v = Some (JNum n)" by (cases v rule: isRelayMuxCircuitId.cases) auto
  with v obtain m where "n = js_nat m" using js_safe_nat by auto
  with v n show "\<exists>n. v = Some (JNum (js_nat n)) \<and> 0 < n \<and> n < 2 ^ 32" by (auto simp: js_simps)
qed (auto simp: js_simps MAX_SAFE_INTEGER_def)

lemma byte_flag_cases: "(b :: byte) AND - 2 = 0 \<longleftrightarrow> b = 0 \<or> b = 1"
proof
  assume z: "b AND - 2 = 0"
  have two: "(- 2 :: byte) = NOT 1" by simp
  have "bit b n = bit (b AND 1) n" for n
  proof (cases n)
    case (Suc m)
    have "\<not> bit (b AND NOT 1) n" using z by (simp only: two bit_0_eq) simp
    moreover have "bit (b AND NOT 1) n = bit b n"
      using Suc by (auto simp only: bit_and_iff bit_not_iff bit_1_iff possible_bit_word
          intro: bit_imp_le_length)
    ultimately have "\<not> bit b n" by blast
    then show ?thesis using Suc by (simp add: bit_and_iff bit_1_iff)
  qed (simp add: bit_and_iff bit_1_iff)
  then have "b = b AND 1" by (rule bit_eqI)
  also have "\<dots> = of_bool (odd b)" by (simp only: and_one_eq mod_2_eq_odd)
  finally show "b = 0 \<or> b = 1" by (cases "odd b") simp_all
qed auto

lemma byte_flag_set: "(b :: byte) AND - 2 = 0 \<Longrightarrow> (b AND 1 \<noteq> 0) = (b = 1)"
  by (auto simp: byte_flag_cases)

definition valid_frame :: "RelayMuxDataFrame \<Rightarrow> bool" where
  "valid_frame d = isRelayMuxCircuitId (Some (JNum (df_circuitId d)))"

definition encode_frame :: "RelayMuxDataFrame \<Rightarrow> RelayMuxFrameError + bytes" where
  "encode_frame d = encodeRelayMuxDataFrame (df_circuitId d) (df_payload d) (df_isBinary d)"

lemma decode_encoded_frame:
  assumes "0 < n" and "n < 2 ^ 32"
  shows "decodeRelayMuxDataFrame (1 # flag # uint32_be n @ p) =
    (if flag = 0 \<or> flag = 1
     then Inr \<lparr>df_circuitId = js_nat n, df_isBinary = (flag = 1), df_payload = p\<rparr>
     else Inl (RelayMuxFrameError InvalidFlags (Some (js_nat n))))"
proof -
  have "getUint32 (1 # flag # uint32_be n @ p) 2 = n"
    using getUint32_uint32_be [of "[1, flag]" n p] assms by (simp add: numeral_2_eq_2)
  moreover have "isRelayMuxCircuitId (Some (JNum (js_nat n)))" using assms circuit_id_iff by blast
  ultimately show ?thesis
    using assms byte_flag_cases [of flag]
    by (auto simp: decodeRelayMuxDataFrame_def mux_constants or_undefined_def)
qed

lemma frame_split:
  assumes "6 \<le> length bs"
  shows "bs ! 0 # bs ! 1 # uint32_be (getUint32 bs 2) @ drop 6 bs = bs"
proof -
  obtain a b cs where bs: "bs = a # b # cs" and "4 \<le> length cs"
    using assms by (cases bs; cases "tl bs") auto
  then show ?thesis using uint32_be_getUint32 [of 2 bs] by simp
qed

interpretation mux_frame: canonical_codec encode_frame decodeRelayMuxDataFrame valid_frame
proof unfold_locales
  fix d
  assume "valid_frame d"
  then obtain n where n: "df_circuitId d = js_nat n" "0 < n" "n < 2 ^ 32"
    by (auto simp: valid_frame_def circuit_id_iff)
  then show "\<exists>bs. encode_frame d = Inr bs \<and> decodeRelayMuxDataFrame bs = Inr d"
    using \<open>valid_frame d\<close> decode_encoded_frame [OF n(2,3)]
    by (cases d) (auto simp: encode_frame_def encodeRelayMuxDataFrame_def valid_frame_def
        mux_constants toUint32_js_nat)
next
  fix bs d
  assume d: "decodeRelayMuxDataFrame bs = Inr d"
  then have len: "6 \<le> length bs" and v: "bs ! 0 = 1" and fl: "bs ! 1 = 0 \<or> bs ! 1 = 1"
    and id: "isRelayMuxCircuitId (Some (JNum (js_nat (getUint32 bs 2))))"
    and fields: "d = \<lparr>df_circuitId = js_nat (getUint32 bs 2), df_isBinary = (bs ! 1 = 1),
                      df_payload = drop 6 bs\<rparr>"
    by (auto simp: decodeRelayMuxDataFrame_def mux_constants Let_def byte_flag_cases byte_flag_set
        simp del: isRelayMuxCircuitId.simps split: if_splits)
  have "toUint32 (js_nat (getUint32 bs 2)) = getUint32 bs 2"
    using getUint32_less [of bs 2] by (simp add: toUint32_js_nat)
  then have "encode_frame d = Inr (bs ! 0 # bs ! 1 # uint32_be (getUint32 bs 2) @ drop 6 bs)"
    using id v fl by (auto simp: encode_frame_def encodeRelayMuxDataFrame_def fields mux_constants
        simp del: isRelayMuxCircuitId.simps)
  then show "valid_frame d \<and> encode_frame d = Inr bs"
    using id by (simp only: frame_split [OF len]) (simp add: fields valid_frame_def
        del: isRelayMuxCircuitId.simps)
qed

lemma encode_frame_length:
  "encodeRelayMuxDataFrame c p b = Inr bs \<Longrightarrow> length bs = RELAY_MUX_HEADER_BYTES + length p"
  by (auto simp: encodeRelayMuxDataFrame_def mux_constants split: if_splits)

section \<open>Properties\<close>

text \<open>
  A byte string decodes to a mux data frame exactly if it is the encoding of that frame and
  the frame's circuit id is an integer from 1 to \<open>2 ^ 32 - 1\<close>: no two frames share an encoding,
  no accepted byte string has a second reading, and payload and text/binary flag are kept.
\<close>
theorem mux_frame_canonical:
  "decodeRelayMuxDataFrame bs = Inr d \<longleftrightarrow>
     isRelayMuxCircuitId (Some (JNum (df_circuitId d))) \<and>
     encodeRelayMuxDataFrame (df_circuitId d) (df_payload d) (df_isBinary d) = Inr bs"
  using mux_frame.decode_iff [of bs d] by (simp add: valid_frame_def encode_frame_def)

end
