(* ===== verification/RelayProtocol.thy ===== *)
theory RelayProtocol
  imports Prelude
begin

text \<open>
  The routing protocol of \<open>packages/shared/src/relay-protocol.ts\<close>: the guards that recognise a
  server's registration and a client's connect request among arbitrary JSON values, the fields
  the relay reads behind a guard, and the user-name format.
\<close>

section \<open>Channels and metadata\<close>

datatype RelayChannel = App | Speech

fun channel_name :: "RelayChannel \<Rightarrow> string" where
  "channel_name App = ''app''"
| "channel_name Speech = ''speech''"

definition DEFAULT_RELAY_CHANNEL :: RelayChannel where "DEFAULT_RELAY_CHANNEL = App"
definition SPEECH_RELAY_CHANNEL :: RelayChannel where "SPEECH_RELAY_CHANNEL = Speech"

record RelayServerCompatibilityMetadata =
  md_appVersion :: "string option"
  md_resumeProtocolVersion :: "js_number option"
  md_renderProtocolVersion :: "js_number option"
  md_remoteCompatibilityLevel :: "js_number option"
  md_capabilities :: "string list option"

section \<open>Guards\<close>

definition optional_string :: "json option \<Rightarrow> bool" where
  "optional_string v = (v = None \<or> is_string v)"

definition optional_number :: "json option \<Rightarrow> bool" where
  "optional_number v = (v = None \<or> is_number v)"

fun optional_string_array :: "json option \<Rightarrow> bool" where
  "optional_string_array None = True"
| "optional_string_array (Some (JArr vs)) = list_all (\<lambda>v. is_string (Some v)) vs"
| "optional_string_array _ = False"

definition isRelayServerRegister :: "json \<Rightarrow> bool" where
  "isRelayServerRegister msg =
     (is_object msg \<and> get_prop msg ''type'' = Some (JStr ''server_register'') \<and>
      is_string (get_prop msg ''username'') \<and> is_string (get_prop msg ''installId'') \<and>
      optional_string (get_prop msg ''appVersion'') \<and>
      optional_number (get_prop msg ''resumeProtocolVersion'') \<and>
      optional_number (get_prop msg ''renderProtocolVersion'') \<and>
      optional_number (get_prop msg ''remoteCompatibilityLevel'') \<and>
      optional_string_array (get_prop msg ''capabilities''))"

definition isRelayServerChannelRegister :: "json \<Rightarrow> bool" where
  "isRelayServerChannelRegister msg =
     (is_object msg \<and> get_prop msg ''type'' = Some (JStr ''server_register_channel'') \<and>
      get_prop msg ''channel'' = Some (JStr (channel_name SPEECH_RELAY_CHANNEL)) \<and>
      is_string (get_prop msg ''username'') \<and> is_string (get_prop msg ''installId'') \<and>
      optional_string (get_prop msg ''appVersion'') \<and>
      optional_number (get_prop msg ''resumeProtocolVersion'') \<and>
      optional_number (get_prop msg ''renderProtocolVersion'') \<and>
      optional_number (get_prop msg ''remoteCompatibilityLevel'') \<and>
      optional_string_array (get_prop msg ''capabilities''))"

definition isRelayServerRegistered :: "json \<Rightarrow> bool" where
  "isRelayServerRegistered msg =
     (is_object msg \<and> get_prop msg ''type'' = Some (JStr ''server_registered''))"

definition isRelayServerRejected :: "json \<Rightarrow> bool" where
  "isRelayServerRejected msg =
     (is_object msg \<and> get_prop msg ''type'' = Some (JStr ''server_rejected'') \<and>
      (get_prop msg ''reason'' = Some (JStr ''username_taken'') \<or>
       get_prop msg ''reason'' = Some (JStr ''invalid_username'')))"

definition isRelayClientConnect :: "json \<Rightarrow> bool" where
  "isRelayClientConnect msg =
     (is_object msg \<and> get_prop msg ''type'' = Some (JStr ''client_connect'') \<and>
      is_string (get_prop msg ''username''))"

definition isRelayClientChannelConnect :: "json \<Rightarrow> bool" where
  "isRelayClientChannelConnect msg =
     (is_object msg \<and> get_prop msg ''type'' = Some (JStr ''client_connect_channel'') \<and>
      is_string (get_prop msg ''username'') \<and>
      get_prop msg ''channel'' = Some (JStr (channel_name SPEECH_RELAY_CHANNEL)))"

definition isRelayClientConnected :: "json \<Rightarrow> bool" where
  "isRelayClientConnected msg =
     (is_object msg \<and> get_prop msg ''type'' = Some (JStr ''client_connected''))"

definition isRelayClientError :: "json \<Rightarrow> bool" where
  "isRelayClientError msg =
     (is_object msg \<and> get_prop msg ''type'' = Some (JStr ''client_error'') \<and>
      (get_prop msg ''reason'' = Some (JStr ''server_offline'') \<or>
       get_prop msg ''reason'' = Some (JStr ''unknown_username'')))"

text \<open>The fields of a message that passed its guard.\<close>

definition string_field :: "json \<Rightarrow> string \<Rightarrow> string option" where
  "string_field msg k = (case get_prop msg k of Some (JStr s) \<Rightarrow> Some s | _ \<Rightarrow> None)"

definition number_field :: "json \<Rightarrow> string \<Rightarrow> js_number option" where
  "number_field msg k = (case get_prop msg k of Some (JNum n) \<Rightarrow> Some n | _ \<Rightarrow> None)"

definition strings_field :: "json \<Rightarrow> string \<Rightarrow> string list option" where
  "strings_field msg k =
     (case get_prop msg k of
        Some (JArr vs) \<Rightarrow> Some (List.map_filter (\<lambda>v. case v of JStr s \<Rightarrow> Some s | _ \<Rightarrow> None) vs)
      | _ \<Rightarrow> None)"

definition metadata_of :: "json \<Rightarrow> RelayServerCompatibilityMetadata" where
  "metadata_of msg =
     \<lparr>md_appVersion = string_field msg ''appVersion'',
      md_resumeProtocolVersion = number_field msg ''resumeProtocolVersion'',
      md_renderProtocolVersion = number_field msg ''renderProtocolVersion'',
      md_remoteCompatibilityLevel = number_field msg ''remoteCompatibilityLevel'',
      md_capabilities = strings_field msg ''capabilities''\<rparr>"

section \<open>User names\<close>

text \<open>The character classes of \<open>USERNAME_REGEX\<close>, \<open>/^[a-z0-9][a-z0-9-]{1,30}[a-z0-9]$/\<close>.\<close>

definition lower_alnum :: "char \<Rightarrow> bool" where
  "lower_alnum c =
     (let n = of_char c :: nat in (97 \<le> n \<and> n \<le> 122) \<or> (48 \<le> n \<and> n \<le> 57))"

definition isValidRelayUsername :: "string \<Rightarrow> bool" where
  "isValidRelayUsername username =
     (case username of
        [] \<Rightarrow> False
      | first # rest \<Rightarrow>
          rest \<noteq> [] \<and>
          (let middle = butlast rest in
           lower_alnum first \<and> 1 \<le> length middle \<and> length middle \<le> 30 \<and>
           list_all (\<lambda>c. lower_alnum c \<or> c = CHR ''-'') middle \<and> lower_alnum (last rest)))"

lemma valid_username_length: "isValidRelayUsername u \<Longrightarrow> 3 \<le> length u \<and> length u \<le> 32"
  by (cases u) (auto simp: isValidRelayUsername_def Let_def)

lemma valid_username_chars:
  assumes "isValidRelayUsername u" and "c \<in> set u"
  shows "lower_alnum c \<or> c = CHR ''-''"
proof -
  from assms(1) obtain a r where u: "u = a # r" "r \<noteq> []" and "lower_alnum a"
    "list_all (\<lambda>c. lower_alnum c \<or> c = CHR ''-'') (butlast r)" "lower_alnum (last r)"
    by (cases u) (auto simp: isValidRelayUsername_def Let_def)
  moreover have "set r = insert (last r) (set (butlast r))"
    using u(2) by (metis append_butlast_last_id list.simps(15) rotate1.simps(2) set_rotate1)
  ultimately show ?thesis using assms(2) by (auto simp: list_all_iff)
qed

lemma valid_username_no_nul: "isValidRelayUsername u \<Longrightarrow> CHR 0x00 \<notin> set u"
  using valid_username_chars by (fastforce simp: lower_alnum_def)

text \<open>The four requests a relay socket may open with exclude one another.\<close>

lemma requests_exclusive:
  "isRelayServerRegister m \<Longrightarrow> \<not> isRelayServerChannelRegister m \<and>
     \<not> isRelayClientConnect m \<and> \<not> isRelayClientChannelConnect m"
  "isRelayServerChannelRegister m \<Longrightarrow> \<not> isRelayClientConnect m \<and> \<not> isRelayClientChannelConnect m"
  "isRelayClientConnect m \<Longrightarrow> \<not> isRelayClientChannelConnect m"
  by (auto simp: isRelayServerRegister_def isRelayServerChannelRegister_def
      isRelayClientConnect_def isRelayClientChannelConnect_def)

lemma string_field_iff: "is_string (get_prop m k) \<longleftrightarrow> (\<exists>s. string_field m k = Some s)"
  by (auto simp: is_string_iff string_field_def split: option.splits json.splits)

end
