(* ===== verification/UsernameRegistry.thy ===== *)
theory UsernameRegistry
  imports RelayProtocol "HOL-Library.Char_ord" "HOL-Library.List_Lexorder"
begin

text \<open>
  The user-name registry of \<open>packages/relay/src/registry.ts\<close>, a single SQLite table with the
  user name as primary key (\<open>db.ts\<close>). The table is the list of its rows. Times are milliseconds
  of the server's clock: the code stores ISO-8601 strings, whose order is the order of the times
  they spell. The cache of prepared statements is left out, it does not change a result.
\<close>

record UsernameRecord =
  ur_username :: string
  ur_install_id :: string
  ur_registered_at :: int
  ur_last_seen_at :: int

type_synonym registry = "UsernameRecord list"

definition get_username :: "registry \<Rightarrow> string \<Rightarrow> UsernameRecord option" where
  "get_username db username = List.find (\<lambda>r. ur_username r = username) db"

definition canRegister :: "registry \<Rightarrow> string \<Rightarrow> string \<Rightarrow> bool" where
  "canRegister db username installId =
     (if \<not> isValidRelayUsername username then False
      else (case get_username db username of
              None \<Rightarrow> True
            | Some row \<Rightarrow> ur_install_id row = installId))"

definition updateLastSeen :: "registry \<Rightarrow> int \<Rightarrow> string \<Rightarrow> registry" where
  "updateLastSeen db now username =
     map (\<lambda>r. if ur_username r = username then r\<lparr>ur_last_seen_at := now\<rparr> else r) db"

definition register :: "registry \<Rightarrow> int \<Rightarrow> string \<Rightarrow> string \<Rightarrow> bool \<times> registry" where
  "register db now username installId =
     (if \<not> isValidRelayUsername username then (False, db)
      else (case get_username db username of
              Some existing \<Rightarrow>
                if ur_install_id existing \<noteq> installId then (False, db)
                else (True, updateLastSeen db now username)
            | None \<Rightarrow>
                (True, db @ [\<lparr>ur_username = username, ur_install_id = installId,
                              ur_registered_at = now, ur_last_seen_at = now\<rparr>])))"

definition isRegistered :: "registry \<Rightarrow> string \<Rightarrow> bool" where
  "isRegistered db username = (get_username db username \<noteq> None)"

text \<open>
  \<open>cutoff\<close> is the present moved back by the given number of days in the host's local time zone
  (\<open>Date.setDate\<close>); the result counts the deleted rows.
\<close>

definition reclaimInactive :: "registry \<Rightarrow> int \<Rightarrow> nat \<times> registry" where
  "reclaimInactive db cutoff =
     (length (filter (\<lambda>r. ur_last_seen_at r < cutoff) db),
      filter (\<lambda>r. \<not> ur_last_seen_at r < cutoff) db)"

definition delete_username :: "registry \<Rightarrow> string \<Rightarrow> bool \<times> registry" where
  "delete_username db username =
     (0 < length (filter (\<lambda>r. ur_username r = username) db),
      filter (\<lambda>r. ur_username r \<noteq> username) db)"

definition list_usernames :: "registry \<Rightarrow> UsernameRecord list" where
  "list_usernames db = sort_key ur_username db"

definition count_usernames :: "registry \<Rightarrow> nat" where
  "count_usernames db = length db"

section \<open>Ownership\<close>

definition owner :: "registry \<Rightarrow> string \<Rightarrow> string option" where
  "owner db username = map_option ur_install_id (get_username db username)"

definition registry_inv :: "registry \<Rightarrow> bool" where
  "registry_inv db =
     (distinct (map ur_username db) \<and> list_all (\<lambda>r. isValidRelayUsername (ur_username r)) db)"

lemma get_username_Nil [simp]: "get_username [] u = None"
  by (simp add: get_username_def)

lemma get_username_Cons [simp]:
  "get_username (r # db) u = (if ur_username r = u then Some r else get_username db u)"
  by (simp add: get_username_def)

lemma get_username_append:
  "get_username (db @ db') u = (case get_username db u of None \<Rightarrow> get_username db' u | Some r \<Rightarrow> Some r)"
  by (induction db) auto

lemma get_username_None_iff: "get_username db u = None \<longleftrightarrow> u \<notin> ur_username ` set db"
  by (induction db) auto

lemma get_username_SomeD: "get_username db u = Some r \<Longrightarrow> r \<in> set db \<and> ur_username r = u"
  by (induction db) (auto split: if_splits)

lemma get_username_updateLastSeen:
  "get_username (updateLastSeen db now v) u =
     map_option (\<lambda>r. if u = v then r\<lparr>ur_last_seen_at := now\<rparr> else r) (get_username db u)"
  by (induction db) (auto simp: updateLastSeen_def)

lemma owner_updateLastSeen [simp]: "owner (updateLastSeen db now v) u = owner db u"
  by (cases "get_username db u") (auto simp: owner_def get_username_updateLastSeen)

lemma updateLastSeen_names [simp]: "map ur_username (updateLastSeen db now u) = map ur_username db"
  by (simp add: updateLastSeen_def o_def if_distrib cong: if_cong)

lemma registry_inv_updateLastSeen: "registry_inv db \<Longrightarrow> registry_inv (updateLastSeen db now u)"
  unfolding registry_inv_def list_all_iff
  by (metis (no_types, lifting) image_iff list.set_map updateLastSeen_names)

lemma register_fst: "fst (register db now u i) = canRegister db u i"
  by (simp add: register_def canRegister_def split: option.splits)

lemma owner_register:
  "owner (snd (register db now u i)) v =
     (if fst (register db now u i) \<and> v = u then Some i else owner db v)"
  by (auto simp: register_def owner_def get_username_append get_username_updateLastSeen
      option.map_comp o_def split: option.splits)

lemma registered_owner: "isRegistered db u \<longleftrightarrow> owner db u \<noteq> None"
  by (simp add: isRegistered_def owner_def)

lemma canRegister_owner: "canRegister db u i \<Longrightarrow> owner db u = None \<or> owner db u = Some i"
  by (auto simp: canRegister_def owner_def split: if_splits option.splits)

lemma registry_inv_register:
  "registry_inv db \<Longrightarrow> registry_inv (snd (register db now u i))"
  using registry_inv_updateLastSeen [of db now u] get_username_None_iff [of db u]
  by (auto simp: register_def registry_inv_def split: option.splits)

text \<open>
  What a user of the registry relies on: the answer of \<open>canRegister\<close> is the answer \<open>register\<close>
  gives, a successful registration makes the caller the owner, and no registration or refresh
  ever takes a name from the installation that owns it.
\<close>

locale username_ownership =
  fixes can_register :: "'db \<Rightarrow> string \<Rightarrow> string \<Rightarrow> bool"
    and register :: "'db \<Rightarrow> int \<Rightarrow> string \<Rightarrow> string \<Rightarrow> bool \<times> 'db"
    and touch :: "'db \<Rightarrow> int \<Rightarrow> string \<Rightarrow> 'db"
    and registered :: "'db \<Rightarrow> string \<Rightarrow> bool"
    and owner_of :: "'db \<Rightarrow> string \<Rightarrow> string option"
  assumes register_answer: "fst (register db now u i) = can_register db u i"
    and register_owner: "owner_of (snd (register db now u i)) v =
        (if fst (register db now u i) \<and> v = u then Some i else owner_of db v)"
    and can_register_owner: "can_register db u i \<Longrightarrow> owner_of db u = None \<or> owner_of db u = Some i"
    and touch_owner: "owner_of (touch db now u) v = owner_of db v"
    and registered_iff: "registered db u \<longleftrightarrow> owner_of db u \<noteq> None"
begin

lemma owner_kept: "owner_of db v = Some j \<Longrightarrow> owner_of (snd (register db now u i)) v = Some j"
  using can_register_owner [of db u i] by (auto simp: register_owner register_answer)

lemma owner_kept_run:
  "owner_of db v = Some j \<Longrightarrow>
     owner_of (foldl (\<lambda>db (now, u, i). snd (register db now u i)) db reqs) v = Some j"
  by (induction reqs arbitrary: db) (auto intro: owner_kept)

lemma other_installation_refused:
  "owner_of db u = Some j \<Longrightarrow> i \<noteq> j \<Longrightarrow> \<not> fst (register db now u i)"
  using can_register_owner [of db u i] by (auto simp: register_answer)

end

interpretation names: username_ownership canRegister register updateLastSeen isRegistered owner
  by unfold_locales
    (simp_all add: register_fst owner_register canRegister_owner registered_owner)

section \<open>Reclamation\<close>

lemma filter_get_username:
  "registry_inv db \<Longrightarrow> get_username (filter P db) u =
     (case get_username db u of Some r \<Rightarrow> if P r then Some r else None | None \<Rightarrow> None)"
proof (induction db)
  case (Cons r db)
  then have "registry_inv db" by (simp add: registry_inv_def)
  moreover have "get_username (filter P db) (ur_username r) = None"
    using Cons.prems by (auto simp: get_username_None_iff registry_inv_def)
  ultimately show ?case using Cons.IH by auto
qed simp

lemma reclaim_owner:
  "registry_inv db \<Longrightarrow> owner (snd (reclaimInactive db cutoff)) u =
     (case get_username db u of
        Some r \<Rightarrow> if ur_last_seen_at r < cutoff then None else Some (ur_install_id r)
      | None \<Rightarrow> None)"
  by (auto simp: owner_def reclaimInactive_def filter_get_username split: option.splits)

section \<open>Properties\<close>

text \<open>
  C4 First come, first served: once an installation owns a user name, no sequence of
  registrations by anyone changes the owner, and every attempt by another installation is
  refused; the owner itself is accepted again, and \<open>canRegister\<close> announces each answer.
\<close>
theorem first_come_first_served:
  assumes "owner db u = Some j" and "isValidRelayUsername u"
    and "db' = foldl (\<lambda>db (now, u, i). snd (register db now u i)) db reqs"
  shows "owner db' u = Some j \<and>
    fst (register db' now u i) = (i = j) \<and> canRegister db' u i = (i = j)"
proof -
  have own: "owner db' u = Some j"
    unfolding assms(3) using assms(1) by (rule names.owner_kept_run)
  then have "canRegister db' u j"
    using assms(2) by (auto simp: canRegister_def owner_def)
  with own show ?thesis
    using names.other_installation_refused [OF own, of i now] by (auto simp: register_fst)
qed

theorem first_come_first_served_witness:
  "owner (foldl (\<lambda>db (now, u, i). snd (register db now u i))
      (snd (register [] 5 ''alice'' ''a'')) [(6, ''alice'', ''b''), (7, ''bob'', ''b'')]) ''alice'' = Some ''a''"
proof -
  have "owner (snd (register [] 5 ''alice'' ''a'')) ''alice'' = Some ''a''"
    by (simp add: owner_def register_def isValidRelayUsername_def lower_alnum_def)
  moreover have "isValidRelayUsername ''alice''"
    by (simp add: isValidRelayUsername_def lower_alnum_def)
  ultimately show ?thesis by (rule first_come_first_served [OF _ _ refl, THEN conjunct1])
qed

text \<open>
  Reclamation frees exactly the names not seen since the cutoff: a name last seen at or after
  it keeps its owner, any other is free afterwards, the number reported is the number of rows
  deleted, and the table stays well formed.
\<close>
theorem reclaim_exactly_inactive:
  assumes "registry_inv db"
  shows "owner (snd (reclaimInactive db cutoff)) u =
      (case get_username db u of
         Some r \<Rightarrow> if ur_last_seen_at r < cutoff then None else Some (ur_install_id r)
       | None \<Rightarrow> None) \<and>
    fst (reclaimInactive db cutoff) + count_usernames (snd (reclaimInactive db cutoff)) =
      count_usernames db \<and>
    registry_inv (snd (reclaimInactive db cutoff))"
proof -
  have "length (filter P db) + length (filter (\<lambda>r. \<not> P r) db) = length db" for P
    by (rule sum_length_filter_compl)
  moreover have "registry_inv (filter P db)" for P
    using assms by (auto simp: registry_inv_def list_all_iff distinct_map_filter)
  ultimately show ?thesis
    using reclaim_owner [OF assms] by (simp add: reclaimInactive_def count_usernames_def)
qed

theorem reclaim_exactly_inactive_witness:
  "owner (snd (reclaimInactive
      [\<lparr>ur_username = ''bob'', ur_install_id = ''i'', ur_registered_at = 1, ur_last_seen_at = 3\<rparr>] 4))
      ''bob'' = None"
  using reclaim_exactly_inactive
    [of "[\<lparr>ur_username = ''bob'', ur_install_id = ''i'', ur_registered_at = 1, ur_last_seen_at = 3\<rparr>]"
      4 "''bob''"]
  by (simp add: registry_inv_def isValidRelayUsername_def lower_alnum_def)

end
