(* ===== verification/Connections.thy ===== *)
theory Connections
  imports UsernameRegistry
begin

text \<open>
  The connection manager of the relay, \<open>packages/relay/src/connections.ts\<close>: waiting server
  sockets, active server/client pairs, the lookup from either end of a pair to the pair, and the
  metadata of active servers.

  JavaScript objects compared by identity (server sockets, the \<open>key\<close> of a client endpoint, pairs)
  are natural numbers. Calls on sockets and endpoints are the effects a method returns in order;
  the code ignores what they throw. Times are milliseconds.
\<close>

section \<open>State\<close>

type_synonym ident = nat

datatype RegistrationResult = Registered | UsernameTaken | InvalidUsername

datatype ServerState = Waiting | Paired

record ActiveRelayServer =
  as_username :: string
  as_channel :: RelayChannel
  as_installId :: string
  as_connectedAt :: int
  as_state :: ServerState
  as_metadata :: RelayServerCompatibilityMetadata

datatype ConnectionResult =
    Connected ident "ActiveRelayServer option"
  | ServerOffline
  | UnknownUsername

datatype Initiator = ByServer | ByClient

datatype CloseResult =
    WaitingServerClosed "ActiveRelayServer option"
  | PairDisconnected Initiator "ActiveRelayServer option"
  | CloseNone

text \<open>\<open>pr_timer\<close> is the armed first-message timer with the user name its callback captured.\<close>

record Pair =
  pr_server :: ident
  pr_client :: ident
  pr_timer :: "string option"

datatype effect =
    ServerSend ident bytes bool
  | ClientSend ident bytes bool
  | ServerClose ident nat string
  | ClientClose ident nat string
  | SilentPairClosed string

record ConnectionManager =
  cm_waiting :: "(string \<times> ident) list"
  cm_pairs :: "(nat \<times> Pair) list"
  cm_pairLookup :: "(ident \<times> nat) list"
  cm_activeServers :: "(ident \<times> ActiveRelayServer) list"
  cm_registry :: registry
  cm_pairFirstMessageTimeoutMs :: int
  cm_nextPair :: nat

definition newConnectionManager :: "registry \<Rightarrow> int \<Rightarrow> ConnectionManager" where
  "newConnectionManager reg timeout =
     \<lparr>cm_waiting = [], cm_pairs = [], cm_pairLookup = [], cm_activeServers = [],
      cm_registry = reg, cm_pairFirstMessageTimeoutMs = timeout, cm_nextPair = 0\<rparr>"

definition SILENT_PAIR_CLOSE_REASON :: string where
  "SILENT_PAIR_CLOSE_REASON = ''No data after pairing''"

definition relayWaitKey :: "string \<Rightarrow> RelayChannel \<Rightarrow> string" where
  "relayWaitKey username channel = username @ [CHR 0x00] @ channel_name channel"

section \<open>Operations\<close>

definition registerServer ::
  "ConnectionManager \<Rightarrow> int \<Rightarrow> ident \<Rightarrow> string \<Rightarrow> string \<Rightarrow> RelayServerCompatibilityMetadata \<Rightarrow>
    RelayChannel \<Rightarrow> RegistrationResult \<times> effect list \<times> ConnectionManager" where
  "registerServer cm now ws username installId metadata channel =
     (if \<not> isValidRelayUsername username then (InvalidUsername, [], cm)
      else if \<not> canRegister (cm_registry cm) username installId then (UsernameTaken, [], cm)
      else
        let (ok, reg) = register (cm_registry cm) now username installId in
        if \<not> ok then (UsernameTaken, [], cm\<lparr>cm_registry := reg\<rparr>)
        else
          let waitingKey = relayWaitKey username channel;
              existingWaiting = map_of (cm_waiting cm) waitingKey;
              (active, effs) =
                (case existingWaiting of
                   Some old \<Rightarrow> (AList.delete old (cm_activeServers cm),
                               [ServerClose old 1000 ''Replaced by new connection''])
                 | None \<Rightarrow> (cm_activeServers cm, []))
          in (Registered, effs,
              cm\<lparr>cm_registry := reg,
                 cm_waiting := AList.update waitingKey ws (cm_waiting cm),
                 cm_activeServers := AList.update ws
                   \<lparr>as_username = username, as_channel = channel, as_installId = installId,
                    as_connectedAt = now, as_state = Waiting, as_metadata = metadata\<rparr> active\<rparr>))"

definition connectClientEndpoint ::
  "ConnectionManager \<Rightarrow> int \<Rightarrow> ident \<Rightarrow> string \<Rightarrow> RelayChannel \<Rightarrow>
    ConnectionResult \<times> ConnectionManager" where
  "connectClientEndpoint cm now client username channel =
     (if \<not> isRegistered (cm_registry cm) username then (UnknownUsername, cm)
      else
        let waitingKey = relayWaitKey username channel in
        case map_of (cm_waiting cm) waitingKey of
          None \<Rightarrow> (ServerOffline, cm)
        | Some serverWs \<Rightarrow>
            let serverInfo = map_option (\<lambda>a. a\<lparr>as_state := Paired\<rparr>)
                               (map_of (cm_activeServers cm) serverWs);
                pid = cm_nextPair cm;
                pair = \<lparr>pr_server = serverWs, pr_client = client,
                        pr_timer = (if cm_pairFirstMessageTimeoutMs cm > 0 then Some username
                                    else None)\<rparr>
            in (Connected serverWs serverInfo,
                cm\<lparr>cm_waiting := AList.delete waitingKey (cm_waiting cm),
                   cm_activeServers := (case serverInfo of
                       Some info \<Rightarrow> AList.update serverWs info (cm_activeServers cm)
                     | None \<Rightarrow> cm_activeServers cm),
                   cm_pairs := AList.update pid pair (cm_pairs cm),
                   cm_pairLookup :=
                     AList.update client pid (AList.update serverWs pid (cm_pairLookup cm)),
                   cm_registry := updateLastSeen (cm_registry cm) now username,
                   cm_nextPair := pid + 1\<rparr>))"

definition connectClient ::
  "ConnectionManager \<Rightarrow> int \<Rightarrow> ident \<Rightarrow> string \<Rightarrow> ConnectionResult \<times> ConnectionManager" where
  "connectClient cm now ws username =
     connectClientEndpoint cm now ws username DEFAULT_RELAY_CHANNEL"

text \<open>The pair a socket or an endpoint key is looked up in.\<close>

definition lookup_pair :: "ConnectionManager \<Rightarrow> ident \<Rightarrow> (nat \<times> Pair) option" where
  "lookup_pair cm k =
     (case map_of (cm_pairLookup cm) k of
        None \<Rightarrow> None
      | Some pid \<Rightarrow> map_option (\<lambda>p. (pid, p)) (map_of (cm_pairs cm) pid))"

definition clearFirstMessageTimer :: "ConnectionManager \<Rightarrow> nat \<Rightarrow> Pair \<Rightarrow> ConnectionManager" where
  "clearFirstMessageTimer cm pid pair =
     (case pr_timer pair of
        None \<Rightarrow> cm
      | Some _ \<Rightarrow> cm\<lparr>cm_pairs := AList.update pid (pair\<lparr>pr_timer := None\<rparr>) (cm_pairs cm)\<rparr>)"

definition forward ::
  "ConnectionManager \<Rightarrow> ident \<Rightarrow> bytes \<Rightarrow> bool \<Rightarrow> effect list \<times> ConnectionManager" where
  "forward cm source data isBinary =
     (case lookup_pair cm source of
        None \<Rightarrow> ([], cm)
      | Some (pid, pair) \<Rightarrow>
          ((if pr_server pair = source then [ClientSend (pr_client pair) data isBinary]
            else [ServerSend (pr_server pair) data isBinary]),
           if pr_client pair = source then clearFirstMessageTimer cm pid pair else cm))"

text \<open>\<open>key.startsWith(`${username}\0`)\<close>; an empty or missing user name matches every key.\<close>

definition findWaitingKeyForWs ::
  "ConnectionManager \<Rightarrow> ident \<Rightarrow> string option \<Rightarrow> string option" where
  "findWaitingKeyForWs cm ws username =
     (if username \<noteq> None \<and> username \<noteq> Some [] then
        map_option fst (List.find (\<lambda>(key, waitingWs). waitingWs = ws \<and>
            take (length (the username @ [CHR 0x00])) key = the username @ [CHR 0x00])
          (cm_waiting cm))
      else map_option fst (List.find (\<lambda>(key, waitingWs). waitingWs = ws) (cm_waiting cm)))"

text \<open>Both close handlers forget a pair in the same way.\<close>

definition forget_pair :: "ConnectionManager \<Rightarrow> nat \<Rightarrow> Pair \<Rightarrow> ConnectionManager" where
  "forget_pair cm pid pair =
     cm\<lparr>cm_pairs := AList.delete pid (cm_pairs cm),
        cm_pairLookup :=
          AList.delete (pr_client pair) (AList.delete (pr_server pair) (cm_pairLookup cm)),
        cm_activeServers := AList.delete (pr_server pair) (cm_activeServers cm)\<rparr>"

definition handleClose ::
  "ConnectionManager \<Rightarrow> ident \<Rightarrow> string option \<Rightarrow> CloseResult \<times> effect list \<times> ConnectionManager"
where
  "handleClose cm ws username =
     (case findWaitingKeyForWs cm ws username of
        Some waitingKey \<Rightarrow>
          (WaitingServerClosed (map_of (cm_activeServers cm) ws), [],
           cm\<lparr>cm_waiting := AList.delete waitingKey (cm_waiting cm),
              cm_activeServers := AList.delete ws (cm_activeServers cm)\<rparr>)
      | None \<Rightarrow>
          (case lookup_pair cm ws of
             Some (pid, pair) \<Rightarrow>
               (PairDisconnected (if pr_server pair = ws then ByServer else ByClient)
                  (map_of (cm_activeServers cm) (pr_server pair)),
                [if pr_server pair = ws then ClientClose (pr_client pair) 1000 ''Peer disconnected''
                 else ServerClose (pr_server pair) 1000 ''Peer disconnected''],
                forget_pair cm pid pair)
           | None \<Rightarrow> (CloseNone, [], cm)))"

definition handleClientEndpointClose ::
  "ConnectionManager \<Rightarrow> ident \<Rightarrow> CloseResult \<times> effect list \<times> ConnectionManager" where
  "handleClientEndpointClose cm clientKey =
     (case lookup_pair cm clientKey of
        None \<Rightarrow> (CloseNone, [], cm)
      | Some (pid, pair) \<Rightarrow>
          if pr_client pair \<noteq> clientKey then (CloseNone, [], cm)
          else (PairDisconnected ByClient (map_of (cm_activeServers cm) (pr_server pair)),
                [ServerClose (pr_server pair) 1000 ''Peer disconnected''],
                forget_pair cm pid pair))"

definition closeSilentPair ::
  "ConnectionManager \<Rightarrow> nat \<Rightarrow> string \<Rightarrow> effect list \<times> ConnectionManager" where
  "closeSilentPair cm pid username =
     (case map_of (cm_pairs cm) pid of
        None \<Rightarrow> ([], cm)
      | Some pair \<Rightarrow>
          let (_, effs, cm') = handleClientEndpointClose cm (pr_client pair)
          in (effs @ [ClientClose (pr_client pair) 1000 SILENT_PAIR_CLOSE_REASON,
                      SilentPairClosed username], cm'))"

text \<open>The first-message timer of a pair fires if it is still armed.\<close>

definition fire_first_message_timer ::
  "ConnectionManager \<Rightarrow> nat \<Rightarrow> effect list \<times> ConnectionManager" where
  "fire_first_message_timer cm pid =
     (case map_of (cm_pairs cm) pid of
        Some pair \<Rightarrow>
          (case pr_timer pair of Some username \<Rightarrow> closeSilentPair cm pid username | None \<Rightarrow> ([], cm))
      | None \<Rightarrow> ([], cm))"

definition isPaired :: "ConnectionManager \<Rightarrow> ident \<Rightarrow> bool" where
  "isPaired cm ws = (map_of (cm_pairLookup cm) ws \<noteq> None)"

definition isWaitingWs :: "ConnectionManager \<Rightarrow> ident \<Rightarrow> bool" where
  "isWaitingWs cm ws = list_ex (\<lambda>(_, waitingWs). waitingWs = ws) (cm_waiting cm)"

definition isWaiting :: "ConnectionManager \<Rightarrow> string \<Rightarrow> RelayChannel \<Rightarrow> bool" where
  "isWaiting cm username channel =
     (map_of (cm_waiting cm) (relayWaitKey username channel) \<noteq> None)"

definition getWaitingCount :: "ConnectionManager \<Rightarrow> nat" where
  "getWaitingCount cm = length (cm_waiting cm)"

definition getPairCount :: "ConnectionManager \<Rightarrow> nat" where
  "getPairCount cm = length (cm_pairs cm)"

definition getWaitingUsernames :: "ConnectionManager \<Rightarrow> string list" where
  "getWaitingUsernames cm =
     js_set_members (map (\<lambda>(key, _). takeWhile (\<lambda>c. c \<noteq> CHR 0x00) key) (cm_waiting cm))"

section \<open>Observability\<close>

text \<open>\<open>String.prototype.localeCompare\<close> depends on the locale: it is the parameter \<open>cmp\<close>.\<close>

definition getActiveServers ::
  "(string \<Rightarrow> string \<Rightarrow> int) \<Rightarrow> ConnectionManager \<Rightarrow> ActiveRelayServer list" where
  "getActiveServers cmp cm =
     js_sort (\<lambda>a b. if as_username a = as_username b
                    then cmp (channel_name (as_channel a)) (channel_name (as_channel b))
                    else cmp (as_username a) (as_username b))
       (map snd (cm_activeServers cm))"

definition count_in :: "('v \<times> nat) list \<Rightarrow> 'v \<Rightarrow> ('v \<times> nat) list" where
  "count_in counts v =
     AList.update v ((case map_of counts v of Some n \<Rightarrow> n | None \<Rightarrow> 0) + 1) counts"

fun js_num_cmp :: "js_number \<Rightarrow> js_number \<Rightarrow> int" where
  "js_num_cmp a b = (if js_less a b then - 1 else if js_less b a then 1 else 0)"

definition summarizeOptionalValues ::
  "('v \<Rightarrow> 'v \<Rightarrow> int) \<Rightarrow> ActiveRelayServer list \<Rightarrow> (ActiveRelayServer \<Rightarrow> 'v option) \<Rightarrow>
    ('v option \<times> nat) list" where
  "summarizeOptionalValues cmp activeServers getValue =
     js_sort (\<lambda>(va, ca) (vb, cb).
         if cb \<noteq> ca then int cb - int ca
         else case va of
           None \<Rightarrow> 1
         | Some a \<Rightarrow> (case vb of None \<Rightarrow> - 1 | Some b \<Rightarrow> cmp a b))
       (foldl (\<lambda>counts server. count_in counts (getValue server)) [] activeServers)"

definition summarizeCapabilities ::
  "(string \<Rightarrow> string \<Rightarrow> int) \<Rightarrow> ActiveRelayServer list \<Rightarrow> (string \<times> nat) list" where
  "summarizeCapabilities cmp activeServers =
     js_sort (\<lambda>(a, ca) (b, cb). if cb = ca then cmp a b else int cb - int ca)
       (foldl (\<lambda>counts server.
           foldl count_in counts
             (js_set_members (case md_capabilities (as_metadata server) of
                                Some cs \<Rightarrow> cs | None \<Rightarrow> [])))
         [] activeServers)"

record ActiveRelayServerSummary =
  sm_appVersions :: "(string option \<times> nat) list"
  sm_resumeProtocolVersions :: "(js_number option \<times> nat) list"
  sm_renderProtocolVersions :: "(js_number option \<times> nat) list"
  sm_remoteCompatibilityLevels :: "(js_number option \<times> nat) list"
  sm_capabilities :: "(string \<times> nat) list"

definition getActiveServerSummary ::
  "(string \<Rightarrow> string \<Rightarrow> int) \<Rightarrow> ConnectionManager \<Rightarrow> ActiveRelayServerSummary" where
  "getActiveServerSummary cmp cm =
     (let activeServers = getActiveServers cmp cm in
      \<lparr>sm_appVersions =
         summarizeOptionalValues cmp activeServers (\<lambda>s. md_appVersion (as_metadata s)),
       sm_resumeProtocolVersions =
         summarizeOptionalValues js_num_cmp activeServers
           (\<lambda>s. md_resumeProtocolVersion (as_metadata s)),
       sm_renderProtocolVersions =
         summarizeOptionalValues js_num_cmp activeServers
           (\<lambda>s. md_renderProtocolVersion (as_metadata s)),
       sm_remoteCompatibilityLevels =
         summarizeOptionalValues js_num_cmp activeServers
           (\<lambda>s. md_remoteCompatibilityLevel (as_metadata s)),
       sm_capabilities = summarizeCapabilities cmp activeServers\<rparr>)"

end
