(* ===== verification/ConnectionLinks.thy ===== *)
theory ConnectionLinks
  imports Connections
begin

text \<open>
  The relations between the maps of the connection manager, as predicates on plain functions:
  what every call keeps (\<open>weak_links\<close>) and what calls on fresh sockets keep
  (\<open>strong_links\<close>), with one lemma per way the maps change.
\<close>

section \<open>Keys\<close>

lemma channel_name_no_nul: "CHR 0x00 \<notin> set (channel_name c)"
  by (cases c) auto

lemma relayWaitKey_inj [simp]:
  "relayWaitKey u c = relayWaitKey u' c' \<longleftrightarrow> u = u' \<and> c = c'"
proof
  assume eq: "relayWaitKey u c = relayWaitKey u' c'"
  have last_part: "takeWhile (\<lambda>x. x \<noteq> CHR 0x00) (rev (relayWaitKey v d)) = rev (channel_name d)"
    for v d
    using channel_name_no_nul [of d] by (cases d) (auto simp: relayWaitKey_def)
  have "channel_name c = channel_name c'" using last_part [of u c] last_part [of u' c'] eq by simp
  moreover from this eq have "u = u'" by (simp add: relayWaitKey_def)
  ultimately show "u = u' \<and> c = c'" by (cases c; cases c') auto
qed simp

lemma relayWaitKey_prefix:
  "take (length (u @ [CHR 0x00])) (relayWaitKey u c) = u @ [CHR 0x00]"
  by (simp add: relayWaitKey_def)

section \<open>Links between the maps\<close>

text \<open>
  The invariants speak of the four maps as functions, \<open>W\<close> (waiting), \<open>P\<close> (pairs), \<open>L\<close> (lookup)
  and \<open>A\<close> (active servers), and of the owner \<open>R\<close> of each user name; that the keys of the maps
  are distinct is kept apart.
\<close>

definition cm_keys :: "ConnectionManager \<Rightarrow> bool" where
  "cm_keys cm =
     (distinct (map fst (cm_waiting cm)) \<and> distinct (map fst (cm_pairs cm)) \<and>
      distinct (map fst (cm_pairLookup cm)) \<and> distinct (map fst (cm_activeServers cm)))"

text \<open>
  Every lookup entry names a live pair with the looked-up identity at one of its ends, and pair
  numbers are fresh.
\<close>

definition weak_links :: "(nat \<rightharpoonup> Pair) \<Rightarrow> (ident \<rightharpoonup> nat) \<Rightarrow> nat \<Rightarrow> bool" where
  "weak_links P L n =
     ((\<forall>k pid. L k = Some pid \<longrightarrow> (\<exists>p. P pid = Some p \<and> (k = pr_server p \<or> k = pr_client p))) \<and>
      (\<forall>pid p. P pid = Some p \<longrightarrow> pid < n))"

text \<open>
  The ends of a live pair are looked up in it and in no other; a waiting server is in no pair;
  the active servers are the waiting ones and those of the live pairs, and each is run by the
  installation that owns its user name.
\<close>

definition key_of :: "ActiveRelayServer \<Rightarrow> string" where
  "key_of a = relayWaitKey (as_username a) (as_channel a)"

definition strong_links ::
  "(string \<rightharpoonup> ident) \<Rightarrow> (nat \<rightharpoonup> Pair) \<Rightarrow> (ident \<rightharpoonup> nat) \<Rightarrow> (ident \<rightharpoonup> ActiveRelayServer) \<Rightarrow>
    (string \<rightharpoonup> string) \<Rightarrow> bool" where
  "strong_links W P L A R =
     ((\<forall>pid p. P pid = Some p \<longrightarrow> L (pr_server p) = Some pid \<and> L (pr_client p) = Some pid \<and>
         pr_server p \<noteq> pr_client p \<and> (\<exists>a. A (pr_server p) = Some a \<and> as_state a = Paired)) \<and>
      (\<forall>key ws. W key = Some ws \<longrightarrow>
         L ws = None \<and> (\<exists>a. A ws = Some a \<and> as_state a = Waiting \<and> key = key_of a)) \<and>
      (\<forall>ws a. A ws = Some a \<longrightarrow> R (as_username a) = Some (as_installId a) \<and>
         (as_state a = Waiting \<longrightarrow> W (key_of a) = Some ws) \<and>
         (as_state a = Paired \<longrightarrow> (\<exists>pid p. P pid = Some p \<and> pr_server p = ws))))"

lemma strong_pairD:
  assumes "strong_links W P L A R" and "P pid = Some p"
  shows "L (pr_server p) = Some pid" "L (pr_client p) = Some pid" "pr_server p \<noteq> pr_client p"
    "\<exists>a. A (pr_server p) = Some a \<and> as_state a = Paired" "W key \<noteq> Some (pr_server p)"
    "W key \<noteq> Some (pr_client p)"
proof -
  show L: "L (pr_server p) = Some pid" "L (pr_client p) = Some pid" "pr_server p \<noteq> pr_client p"
    "\<exists>a. A (pr_server p) = Some a \<and> as_state a = Paired"
    using assms unfolding strong_links_def by blast+
  have none: "L ws = None" if "W key = Some ws" for ws
    using assms(1) that unfolding strong_links_def by blast
  show "W key \<noteq> Some (pr_server p)" using none [of "pr_server p"] L(1) by auto
  show "W key \<noteq> Some (pr_client p)" using none [of "pr_client p"] L(2) by auto
qed

lemma strong_waitD:
  assumes "strong_links W P L A R" and "W key = Some ws"
  shows "L ws = None" "\<exists>a. A ws = Some a \<and> as_state a = Waiting \<and> key = key_of a"
    "W key' = Some ws \<Longrightarrow> key' = key"
  using assms unfolding strong_links_def by (blast, blast, metis option.inject)

lemma strong_activeD:
  assumes "strong_links W P L A R" and "A ws = Some a"
  shows "R (as_username a) = Some (as_installId a)"
    "as_state a = Waiting \<Longrightarrow> W (key_of a) = Some ws"
    "as_state a = Paired \<Longrightarrow> \<exists>pid p. P pid = Some p \<and> pr_server p = ws"
  using assms unfolding strong_links_def by blast+

lemma strong_pair_eq:
  assumes "strong_links W P L A R" and "P pid = Some p" and "P pid' = Some q"
    and "{pr_server p, pr_client p} \<inter> {pr_server q, pr_client q} \<noteq> {}"
  shows "pid' = pid"
  using strong_pairD(1,2) [OF assms(1,2)] strong_pairD(1,2) [OF assms(1,3)] assms(4) by auto

lemma strongI:
  assumes "\<And>pid p. P pid = Some p \<Longrightarrow> L (pr_server p) = Some pid"
    and "\<And>pid p. P pid = Some p \<Longrightarrow> L (pr_client p) = Some pid"
    and "\<And>pid p. P pid = Some p \<Longrightarrow> pr_server p \<noteq> pr_client p"
    and "\<And>pid p. P pid = Some p \<Longrightarrow> \<exists>a. A (pr_server p) = Some a \<and> as_state a = Paired"
    and "\<And>key ws. W key = Some ws \<Longrightarrow> L ws = None"
    and "\<And>key ws. W key = Some ws \<Longrightarrow> \<exists>a. A ws = Some a \<and> as_state a = Waiting \<and> key = key_of a"
    and "\<And>ws a. A ws = Some a \<Longrightarrow> R (as_username a) = Some (as_installId a)"
    and "\<And>ws a. A ws = Some a \<Longrightarrow> as_state a = Waiting \<Longrightarrow> W (key_of a) = Some ws"
    and "\<And>ws a. A ws = Some a \<Longrightarrow> as_state a = Paired \<Longrightarrow> \<exists>pid p. P pid = Some p \<and> pr_server p = ws"
  shows "strong_links W P L A R"
  unfolding strong_links_def using assms by blast

lemma weak_forget:
  assumes "weak_links P L n" and p: "P pid = Some p"
  shows "weak_links (P(pid := None)) (L(pr_server p := None, pr_client p := None)) n"
proof -
  let ?L = "L(pr_server p := None, pr_client p := None)"
  have "\<exists>q. (P(pid := None)) i = Some q \<and> (k = pr_server q \<or> k = pr_client q)"
    if k: "?L k = Some i" for k i
  proof -
    from k have "L k = Some i" and ends: "k \<noteq> pr_server p" "k \<noteq> pr_client p"
      by (auto split: if_splits)
    then obtain q where q: "P i = Some q" "k = pr_server q \<or> k = pr_client q"
      using assms(1) unfolding weak_links_def by blast
    with ends p have "i \<noteq> pid" by auto
    with q show ?thesis by auto
  qed
  then show ?thesis using assms(1) unfolding weak_links_def by (auto split: if_splits)
qed

lemma weak_timer:
  "weak_links P L n \<Longrightarrow> P pid = Some p \<Longrightarrow> weak_links (P(pid \<mapsto> p\<lparr>pr_timer := t\<rparr>)) L n"
  unfolding weak_links_def by (auto split: if_splits) (metis option.inject)

lemma weak_add:
  assumes "weak_links P L n"
  shows "weak_links (P(n \<mapsto> \<lparr>pr_server = s, pr_client = k, pr_timer = t\<rparr>))
     (L(s \<mapsto> n, k \<mapsto> n)) (Suc n)"
proof -
  have "L k' = Some pid \<Longrightarrow> pid \<noteq> n" for k' pid
    using assms unfolding weak_links_def by fastforce
  then show ?thesis
    using assms unfolding weak_links_def by (auto simp: less_Suc_eq split: if_splits)
qed

lemma strong_timer:
  assumes S: "strong_links W P L A R" and p: "P pid = Some p"
  shows "strong_links W (P(pid \<mapsto> p\<lparr>pr_timer := t\<rparr>)) L A R"
proof -
  let ?P = "P(pid \<mapsto> p\<lparr>pr_timer := t\<rparr>)"
  have older: "\<exists>q'. P i = Some q' \<and> pr_server q' = pr_server q \<and> pr_client q' = pr_client q"
    if "?P i = Some q" for i q
    using that p by (auto split: if_splits)
  have forth: "\<exists>i q'. ?P i = Some q' \<and> pr_server q' = pr_server q" if "P i = Some q" for i q
    using that p by (cases "i = pid") auto
  show ?thesis
  proof (rule strongI)
    fix i q assume "?P i = Some q"
    from older [OF this] obtain q' where q: "P i = Some q'" and
      same: "pr_server q' = pr_server q" "pr_client q' = pr_client q" by blast
    show "L (pr_server q) = Some i" "L (pr_client q) = Some i" "pr_server q \<noteq> pr_client q"
      "\<exists>a. A (pr_server q) = Some a \<and> as_state a = Paired"
      using strong_pairD(1-4) [OF S q] unfolding same by simp_all
  next
    fix ws a assume "A ws = Some a" "as_state a = Paired"
    from strong_activeD(3) [OF S this] obtain i q where "P i = Some q" "pr_server q = ws" by blast
    with forth [of i q] show "\<exists>i q. ?P i = Some q \<and> pr_server q = ws" by auto
  qed (rule strong_waitD [OF S] strong_activeD [OF S]; assumption)+
qed

lemma strong_forget:
  assumes S: "strong_links W P L A R" and p: "P pid = Some p"
  shows "strong_links W (P(pid := None)) (L(pr_server p := None, pr_client p := None))
     (A(pr_server p := None)) R"
proof (rule strongI)
  fix i q assume "(P(pid := None)) i = Some q"
  then have q: "P i = Some q" "i \<noteq> pid" by (auto split: if_splits)
  have "pr_server q \<noteq> pr_server p \<and> pr_server q \<noteq> pr_client p \<and>
      pr_client q \<noteq> pr_server p \<and> pr_client q \<noteq> pr_client p"
    using strong_pair_eq [OF S p q(1)] q(2) by auto
  then show "(L(pr_server p := None, pr_client p := None)) (pr_server q) = Some i"
    "(L(pr_server p := None, pr_client p := None)) (pr_client q) = Some i"
    "\<exists>a. (A(pr_server p := None)) (pr_server q) = Some a \<and> as_state a = Paired"
    using strong_pairD(1,2,4) [OF S q(1)] by simp_all
  show "pr_server q \<noteq> pr_client q" by (rule strong_pairD(3) [OF S q(1)])
next
  fix key ws assume w: "W key = Some ws"
  then have "ws \<noteq> pr_server p" using strong_pairD(5) [OF S p] by auto
  then show "\<exists>a. (A(pr_server p := None)) ws = Some a \<and> as_state a = Waiting \<and> key = key_of a"
    using strong_waitD(2) [OF S w] by simp
  show "(L(pr_server p := None, pr_client p := None)) ws = None"
    using strong_waitD(1) [OF S w] by simp
next
  fix ws a assume "(A(pr_server p := None)) ws = Some a"
  then have a: "A ws = Some a" "ws \<noteq> pr_server p" by (auto split: if_splits)
  show "R (as_username a) = Some (as_installId a)" by (rule strong_activeD(1) [OF S a(1)])
  show "W (key_of a) = Some ws" if "as_state a = Waiting" by (rule strong_activeD(2) [OF S a(1) that])
  show "\<exists>i q. (P(pid := None)) i = Some q \<and> pr_server q = ws" if "as_state a = Paired"
    using strong_activeD(3) [OF S a(1) that] a(2) p by (metis fun_upd_apply option.inject)
qed

lemma strong_close_waiting:
  assumes S: "strong_links W P L A R" and w: "W key = Some ws"
  shows "strong_links (W(key := None)) P L (A(ws := None)) R"
proof (rule strongI)
  fix i q assume q: "P i = Some q"
  show "L (pr_server q) = Some i" "L (pr_client q) = Some i" "pr_server q \<noteq> pr_client q"
    by (rule strong_pairD [OF S q])+
  have "pr_server q \<noteq> ws" using strong_pairD(5) [OF S q] w by auto
  then show "\<exists>a. (A(ws := None)) (pr_server q) = Some a \<and> as_state a = Paired"
    using strong_pairD(4) [OF S q] by simp
next
  fix key' s assume "(W(key := None)) key' = Some s"
  then have k: "W key' = Some s" "key' \<noteq> key" by (auto split: if_splits)
  then have "s \<noteq> ws" using strong_waitD(3) [OF S w] by auto
  then show "\<exists>a. (A(ws := None)) s = Some a \<and> as_state a = Waiting \<and> key' = key_of a"
    using strong_waitD(2) [OF S k(1)] by simp
  show "L s = None" by (rule strong_waitD(1) [OF S k(1)])
next
  fix s a assume "(A(ws := None)) s = Some a"
  then have a: "A s = Some a" "s \<noteq> ws" by (auto split: if_splits)
  show "R (as_username a) = Some (as_installId a)" by (rule strong_activeD(1) [OF S a(1)])
  show "(W(key := None)) (key_of a) = Some s" if "as_state a = Waiting"
    using strong_activeD(2) [OF S a(1) that] a(2) w by auto
  show "\<exists>i q. P i = Some q \<and> pr_server q = s" if "as_state a = Paired"
    by (rule strong_activeD(3) [OF S a(1) that])
qed

lemma strong_connect:
  assumes S: "strong_links W P L A R" and w: "W key = Some s" and a: "A s = Some a"
    and k: "L k = None" "\<And>key. W key \<noteq> Some k" and n: "P n = None"
  shows "strong_links (W(key := None)) (P(n \<mapsto> \<lparr>pr_server = s, pr_client = k, pr_timer = t\<rparr>))
     (L(s \<mapsto> n, k \<mapsto> n)) (A(s \<mapsto> a\<lparr>as_state := Paired\<rparr>)) R" (is "strong_links ?W ?P ?L ?A R")
proof -
  have ends: "pr_server p \<noteq> s \<and> pr_client p \<noteq> s \<and> pr_server p \<noteq> k \<and> pr_client p \<noteq> k"
    if "P pid = Some p" for pid p
    using strong_pairD(1,2) [OF S that] strong_waitD(1) [OF S w] k(1) by auto
  have sk: "s \<noteq> k" using w k(2) by auto
  show ?thesis
  proof (rule strongI)
    fix i q assume q: "?P i = Some q"
    have "?L (pr_server q) = Some i \<and> ?L (pr_client q) = Some i \<and> pr_server q \<noteq> pr_client q \<and>
        (\<exists>a. ?A (pr_server q) = Some a \<and> as_state a = Paired)"
    proof (cases "i = n")
      case False
      with q have "P i = Some q" by simp
      then show ?thesis using strong_pairD(1-4) [OF S] ends by simp
    qed (use q sk in auto)
    then show "?L (pr_server q) = Some i" "?L (pr_client q) = Some i" "pr_server q \<noteq> pr_client q"
      "\<exists>a. ?A (pr_server q) = Some a \<and> as_state a = Paired" by blast+
  next
    fix key' ws assume "?W key' = Some ws"
    then have k': "W key' = Some ws" "key' \<noteq> key" by (auto split: if_splits)
    then have "ws \<noteq> s" "ws \<noteq> k" using strong_waitD(3) [OF S w] k(2) by auto
    then show "?L ws = None" "\<exists>a. ?A ws = Some a \<and> as_state a = Waiting \<and> key' = key_of a"
      using strong_waitD(1,2) [OF S k'(1)] by simp_all
  next
    fix ws b assume b: "?A ws = Some b"
    show "R (as_username b) = Some (as_installId b)"
      using b strong_activeD(1) [OF S] a by (auto split: if_splits)
    show "?W (key_of b) = Some ws" if w': "as_state b = Waiting"
    proof -
      from b w' have b': "A ws = Some b" "ws \<noteq> s" by (auto split: if_splits)
      then show ?thesis using strong_activeD(2) [OF S b'(1) w'] w by auto
    qed
    show "\<exists>i q. ?P i = Some q \<and> pr_server q = ws" if p: "as_state b = Paired"
    proof (cases "ws = s")
      case True
      then show ?thesis by (intro exI [of _ n]) simp
    next
      case False
      with b have "A ws = Some b" by simp
      from strong_activeD(3) [OF S this p] obtain i q where "P i = Some q" "pr_server q = ws" by blast
      then show ?thesis using n by (intro exI [of _ i]) auto
    qed
  qed
qed

lemma strong_idle_inactive:
  assumes S: "strong_links W P L A R" and ws: "L ws = None" "\<And>key. W key \<noteq> Some ws"
  shows "A ws = None"
proof (rule ccontr)
  assume "A ws \<noteq> None"
  then obtain a where a: "A ws = Some a" by auto
  then show False
    using strong_activeD(2,3) [OF S a] ws strong_pairD(1) [OF S]
    by (cases "as_state a") (blast, metis option.distinct(1))
qed

lemma strong_register:
  assumes S: "strong_links W P L A R" and ws: "L ws = None" "\<And>key. W key \<noteq> Some ws"
    and R: "\<And>v. R' v = (if v = as_username a then Some (as_installId a) else R v)"
      "R (as_username a) = None \<or> R (as_username a) = Some (as_installId a)"
    and new: "as_state a = Waiting"
    and A': "A' = (case W (key_of a) of Some old \<Rightarrow> A(old := None) | None \<Rightarrow> A)"
  shows "strong_links (W(key_of a \<mapsto> ws)) P L (A'(ws \<mapsto> a)) R'"
proof -
  have free: "A ws = None" by (rule strong_idle_inactive [OF S ws])
  have own: "R' (as_username b) = Some (as_installId b)" if "A s = Some b" for s b
    using strong_activeD(1) [OF S that] R by auto
  have sub: "A' s = Some b \<Longrightarrow> A s = Some b \<and> W (key_of a) \<noteq> Some s" for s b
    using A' by (auto split: option.splits if_splits)
  have sup: "A s = Some b \<Longrightarrow> W (key_of a) \<noteq> Some s \<Longrightarrow> A' s = Some b" for s b
    using A' by (auto split: option.splits)
  show ?thesis
  proof (rule strongI)
    fix pid p assume p: "P pid = Some p"
    show "L (pr_server p) = Some pid" "L (pr_client p) = Some pid" "pr_server p \<noteq> pr_client p"
      by (rule strong_pairD [OF S p])+
    obtain b where "A (pr_server p) = Some b" "as_state b = Paired"
      using strong_pairD(4) [OF S p] by blast
    moreover from this have "A' (pr_server p) = Some b" by (intro sup strong_pairD(5) [OF S p])
    moreover have "pr_server p \<noteq> ws" using strong_pairD(1) [OF S p] ws(1) by auto
    ultimately show "\<exists>b. (A'(ws \<mapsto> a)) (pr_server p) = Some b \<and> as_state b = Paired" by simp
  next
    fix key s assume k: "(W(key_of a \<mapsto> ws)) key = Some s"
    then show "L s = None" using strong_waitD(1) [OF S, of key s] ws(1) by (auto split: if_splits)
    show "\<exists>b. (A'(ws \<mapsto> a)) s = Some b \<and> as_state b = Waiting \<and> key = key_of b"
    proof (cases "key = key_of a")
      case False
      with k have w: "W key = Some s" by simp
      have "s \<noteq> ws" using w ws(2) by auto
      moreover have "W (key_of a) \<noteq> Some s" using strong_waitD(3) [OF S w] False by blast
      moreover obtain b where "A s = Some b" "as_state b = Waiting" "key = key_of b"
        using strong_waitD(2) [OF S w] by blast
      ultimately show ?thesis using sup [of s b] by simp
    qed (use k new in auto)
  next
    fix s b assume b: "(A'(ws \<mapsto> a)) s = Some b"
    show "R' (as_username b) = Some (as_installId b)"
      using b sub [of s b] own [of s b] R(1) by (cases "s = ws") auto
    show "(W(key_of a \<mapsto> ws)) (key_of b) = Some s" if "as_state b = Waiting"
    proof (cases "s = ws")
      case False
      with b have "A' s = Some b" by simp
      from sub [OF this] strong_activeD(2) [OF S _ that] show ?thesis by auto
    qed (use b in auto)
    show "\<exists>pid p. P pid = Some p \<and> pr_server p = s" if "as_state b = Paired"
    proof (rule strong_activeD(3) [OF S _ that])
      show "A s = Some b" using b that new sub [of s b] by (auto split: if_splits)
    qed
  qed
qed

end
