(* ===== verification/ConnectionLaws.thy ===== *)
theory ConnectionLaws
  imports ConnectionLinks
begin

text \<open>
  The laws of the connection manager: what every sequence of calls keeps, what a sequence keeps
  whose sockets register or connect at most once, and the contracts of the single operations.
\<close>

section \<open>Sequences of calls\<close>

datatype cm_op =
    OpRegister int ident string string RelayServerCompatibilityMetadata RelayChannel
  | OpConnect int ident string RelayChannel
  | OpForward ident bytes bool
  | OpClose ident "string option"
  | OpEndpointClose ident
  | OpTimer nat

fun cm_step :: "ConnectionManager \<Rightarrow> cm_op \<Rightarrow> ConnectionManager" where
  "cm_step cm (OpRegister now ws u i md ch) = snd (snd (registerServer cm now ws u i md ch))"
| "cm_step cm (OpConnect now k u ch) = snd (connectClientEndpoint cm now k u ch)"
| "cm_step cm (OpForward s d b) = snd (forward cm s d b)"
| "cm_step cm (OpClose ws u) = snd (snd (handleClose cm ws u))"
| "cm_step cm (OpEndpointClose k) = snd (snd (handleClientEndpointClose cm k))"
| "cm_step cm (OpTimer pid) = snd (fire_first_message_timer cm pid)"

text \<open>
  A socket takes one role once: it neither waits nor is paired when it registers or connects, and
  its close is reported with the name it registered under, if with any.
\<close>

definition idle_socket :: "ConnectionManager \<Rightarrow> ident \<Rightarrow> bool" where
  "idle_socket cm ws = (\<not> isWaitingWs cm ws \<and> \<not> isPaired cm ws)"

fun cm_ok :: "ConnectionManager \<Rightarrow> cm_op \<Rightarrow> bool" where
  "cm_ok cm (OpRegister now ws u i md ch) = idle_socket cm ws"
| "cm_ok cm (OpConnect now k u ch) = idle_socket cm k"
| "cm_ok cm (OpClose ws u) =
     (u = None \<or> u = Some [] \<or>
      (case map_of (cm_activeServers cm) ws of Some a \<Rightarrow> u = Some (as_username a) | None \<Rightarrow> True))"
| "cm_ok cm _ = True"

section \<open>Invariants\<close>

definition cm_weak :: "ConnectionManager \<Rightarrow> bool" where
  "cm_weak cm =
     (cm_keys cm \<and> weak_links (map_of (cm_pairs cm)) (map_of (cm_pairLookup cm)) (cm_nextPair cm))"

definition cm_strong :: "ConnectionManager \<Rightarrow> bool" where
  "cm_strong cm =
     (cm_weak cm \<and> strong_links (map_of (cm_waiting cm)) (map_of (cm_pairs cm))
        (map_of (cm_pairLookup cm)) (map_of (cm_activeServers cm)) (owner (cm_registry cm)))"

lemma lookup_pair_iff:
  "lookup_pair cm k = Some (pid, p) \<longleftrightarrow>
     map_of (cm_pairLookup cm) k = Some pid \<and> map_of (cm_pairs cm) pid = Some p"
  by (cases "map_of (cm_pairLookup cm) k") (auto simp: lookup_pair_def)

lemma weak_lookup_ends:
  "cm_weak cm \<Longrightarrow> lookup_pair cm k = Some (pid, p) \<Longrightarrow> k = pr_server p \<or> k = pr_client p"
  unfolding cm_weak_def weak_links_def lookup_pair_iff by (metis option.inject)

lemma weak_lookup_None:
  "cm_weak cm \<Longrightarrow> lookup_pair cm k = None \<longleftrightarrow> map_of (cm_pairLookup cm) k = None"
  unfolding cm_weak_def weak_links_def lookup_pair_def
  by (cases "map_of (cm_pairLookup cm) k") (simp, metis option.distinct(1) option.simps(5,9))

lemma weak_pair_fresh: "cm_weak cm \<Longrightarrow> map_of (cm_pairs cm) (cm_nextPair cm) = None"
  unfolding cm_weak_def weak_links_def by (metis less_irrefl not_None_eq)

lemma find_snd: "map_option fst (List.find (\<lambda>(k, v). P k v) m) = Some key \<Longrightarrow>
    distinct (map fst m) \<Longrightarrow> \<exists>v. map_of m key = Some v \<and> P key v"
  by (induction m) (auto split: if_splits simp: image_iff dest: map_of_SomeD)

lemma find_snd_None: "map_option fst (List.find (\<lambda>(k, v). P k v) m) = None \<Longrightarrow>
    map_of m key = Some v \<Longrightarrow> \<not> P key v"
  by (induction m) (auto split: if_splits)

lemma findWaitingKeyForWs_Some:
  assumes "findWaitingKeyForWs cm ws u = Some key" and "cm_keys cm"
  shows "map_of (cm_waiting cm) key = Some ws"
  using assms find_snd [where m = "cm_waiting cm" and key = key]
  unfolding findWaitingKeyForWs_def cm_keys_def by (auto split: if_splits dest!: find_snd)

text \<open>The maps after each kind of change.\<close>

lemma weak_forget_pair:
  "cm_weak cm \<Longrightarrow> map_of (cm_pairs cm) pid = Some p \<Longrightarrow> cm_weak (forget_pair cm pid p)"
  using weak_forget [of "map_of (cm_pairs cm)" "map_of (cm_pairLookup cm)" "cm_nextPair cm" pid p]
  by (simp add: cm_weak_def cm_keys_def forget_pair_def omap_simps)

lemma strong_forget_pair:
  "cm_strong cm \<Longrightarrow> map_of (cm_pairs cm) pid = Some p \<Longrightarrow> cm_strong (forget_pair cm pid p)"
  unfolding cm_strong_def
  by (intro conjI weak_forget_pair; (elim conjE)?)
    (simp_all add: forget_pair_def map_of_delete strong_forget)

lemma weak_clear_timer:
  "cm_weak cm \<Longrightarrow> map_of (cm_pairs cm) pid = Some p \<Longrightarrow> cm_weak (clearFirstMessageTimer cm pid p)"
  using weak_timer [of "map_of (cm_pairs cm)" "map_of (cm_pairLookup cm)" "cm_nextPair cm" pid p None]
  by (simp add: cm_weak_def cm_keys_def clearFirstMessageTimer_def omap_simps split: option.split)

lemma strong_clear_timer:
  "cm_strong cm \<Longrightarrow> map_of (cm_pairs cm) pid = Some p \<Longrightarrow> cm_strong (clearFirstMessageTimer cm pid p)"
  unfolding cm_strong_def
  by (intro conjI weak_clear_timer; (elim conjE)?)
    (simp_all add: clearFirstMessageTimer_def map_of_update strong_timer split: option.split)

lemma handleClientEndpointClose_cases:
  "snd (snd (handleClientEndpointClose cm k)) = cm \<or>
   (\<exists>pid p. lookup_pair cm k = Some (pid, p) \<and> pr_client p = k \<and>
      snd (snd (handleClientEndpointClose cm k)) = forget_pair cm pid p)"
  by (cases "lookup_pair cm k") (auto simp: handleClientEndpointClose_def)

lemma fire_timer_cases:
  "snd (fire_first_message_timer cm pid) = cm \<or>
   (\<exists>k. snd (fire_first_message_timer cm pid) = snd (snd (handleClientEndpointClose cm k)))"
  by (auto simp: fire_first_message_timer_def closeSilentPair_def split: option.splits prod.splits)
    (metis snd_conv)

lemma forward_cases:
  "snd (forward cm s d b) = cm \<or>
   (\<exists>pid p. lookup_pair cm s = Some (pid, p) \<and>
      snd (forward cm s d b) = clearFirstMessageTimer cm pid p)"
  by (cases "lookup_pair cm s") (auto simp: forward_def)

lemma handleClose_cases:
  "snd (snd (handleClose cm ws u)) = cm \<or>
   (\<exists>pid p. lookup_pair cm ws = Some (pid, p) \<and>
      snd (snd (handleClose cm ws u)) = forget_pair cm pid p) \<or>
   (\<exists>key. findWaitingKeyForWs cm ws u = Some key \<and>
      snd (snd (handleClose cm ws u)) =
        cm\<lparr>cm_waiting := AList.delete key (cm_waiting cm),
           cm_activeServers := AList.delete ws (cm_activeServers cm)\<rparr>)"
  by (cases "findWaitingKeyForWs cm ws u"; cases "lookup_pair cm ws") (auto simp: handleClose_def)

text \<open>Facts that hold after each handler if they hold after each kind of change.\<close>

lemma handlers_keep:
  assumes "I cm"
    and forget: "\<And>pid p. map_of (cm_pairs cm) pid = Some p \<Longrightarrow> I (forget_pair cm pid p)"
    and timer: "\<And>pid p. map_of (cm_pairs cm) pid = Some p \<Longrightarrow> I (clearFirstMessageTimer cm pid p)"
  shows "I (snd (snd (handleClientEndpointClose cm k)))" and "I (snd (fire_first_message_timer cm i))"
    and "I (snd (forward cm s d b))"
proof -
  show close: "I (snd (snd (handleClientEndpointClose cm k)))" for k
    using handleClientEndpointClose_cases [of cm k] assms(1) forget by (auto simp: lookup_pair_iff)
  show "I (snd (fire_first_message_timer cm i))"
    using fire_timer_cases [of cm i] assms(1) close by auto
  show "I (snd (forward cm s d b))"
    using forward_cases [of cm s d b] assms(1) timer by (auto simp: lookup_pair_iff)
qed

lemma handleClose_keeps:
  assumes "I cm" and "cm_keys cm"
    and forget: "\<And>pid p. map_of (cm_pairs cm) pid = Some p \<Longrightarrow> I (forget_pair cm pid p)"
    and waiting: "\<And>key. map_of (cm_waiting cm) key = Some ws \<Longrightarrow>
        I (cm\<lparr>cm_waiting := AList.delete key (cm_waiting cm),
              cm_activeServers := AList.delete ws (cm_activeServers cm)\<rparr>)"
  shows "I (snd (snd (handleClose cm ws u)))"
  using handleClose_cases [of cm ws u] assms(1) forget waiting findWaitingKeyForWs_Some [OF _ assms(2)]
  by (auto simp: lookup_pair_iff)


text \<open>What the two operations that add entries do, when they do anything.\<close>

definition new_active ::
  "int \<Rightarrow> string \<Rightarrow> string \<Rightarrow> RelayServerCompatibilityMetadata \<Rightarrow> RelayChannel \<Rightarrow> ActiveRelayServer"
where
  "new_active now u i md ch =
     \<lparr>as_username = u, as_channel = ch, as_installId = i, as_connectedAt = now,
      as_state = Waiting, as_metadata = md\<rparr>"

lemma registerServer_cases:
  obtains (refused) "fst (registerServer cm now ws u i md ch) \<noteq> Registered"
      "snd (registerServer cm now ws u i md ch) = ([], cm)"
  | (registered) A effs where "isValidRelayUsername u" "canRegister (cm_registry cm) u i"
      "registerServer cm now ws u i md ch = (Registered, effs,
         cm\<lparr>cm_registry := snd (register (cm_registry cm) now u i),
            cm_waiting := AList.update (relayWaitKey u ch) ws (cm_waiting cm),
            cm_activeServers := AList.update ws (new_active now u i md ch) A\<rparr>)"
      "A = (case map_of (cm_waiting cm) (relayWaitKey u ch) of
              Some old \<Rightarrow> AList.delete old (cm_activeServers cm) | None \<Rightarrow> cm_activeServers cm)"
proof (cases "isValidRelayUsername u \<and> canRegister (cm_registry cm) u i")
  case False
  then show ?thesis by (intro refused) (auto simp: registerServer_def)
next
  case True
  then obtain reg where reg: "register (cm_registry cm) now u i = (True, reg)"
    using register_fst [of "cm_registry cm" now u i] by (metis prod.collapse)
  show ?thesis
    by (rule registered [OF _ _ _ refl, where effs = "case map_of (cm_waiting cm) (relayWaitKey u ch) of
            Some old \<Rightarrow> [ServerClose old 1000 ''Replaced by new connection''] | None \<Rightarrow> []"])
      (use True reg in \<open>auto simp: registerServer_def Let_def new_active_def split: option.split\<close>)
qed

lemma connectClientEndpoint_cases:
  obtains (refused) "\<And>s a. fst (connectClientEndpoint cm now k u ch) \<noteq> Connected s a"
      "snd (connectClientEndpoint cm now k u ch) = cm"
  | (connected) s where "isRegistered (cm_registry cm) u"
      "map_of (cm_waiting cm) (relayWaitKey u ch) = Some s"
      "connectClientEndpoint cm now k u ch =
        (Connected s (map_option (\<lambda>a. a\<lparr>as_state := Paired\<rparr>) (map_of (cm_activeServers cm) s)),
         cm\<lparr>cm_waiting := AList.delete (relayWaitKey u ch) (cm_waiting cm),
            cm_activeServers := (case map_of (cm_activeServers cm) s of
                Some a \<Rightarrow> AList.update s (a\<lparr>as_state := Paired\<rparr>) (cm_activeServers cm)
              | None \<Rightarrow> cm_activeServers cm),
            cm_pairs := AList.update (cm_nextPair cm)
              \<lparr>pr_server = s, pr_client = k,
               pr_timer = (if cm_pairFirstMessageTimeoutMs cm > 0 then Some u else None)\<rparr>
              (cm_pairs cm),
            cm_pairLookup := AList.update k (cm_nextPair cm)
              (AList.update s (cm_nextPair cm) (cm_pairLookup cm)),
            cm_registry := updateLastSeen (cm_registry cm) now u,
            cm_nextPair := cm_nextPair cm + 1\<rparr>)"
proof (cases "isRegistered (cm_registry cm) u \<and> map_of (cm_waiting cm) (relayWaitKey u ch) \<noteq> None")
  case False
  then show ?thesis
    by (intro refused) (auto simp: connectClientEndpoint_def Let_def split: option.splits)
next
  case True
  then obtain s where s: "map_of (cm_waiting cm) (relayWaitKey u ch) = Some s" by auto
  show ?thesis
    by (rule connected [OF _ s])
      (use True s in \<open>auto simp: connectClientEndpoint_def Let_def split: option.splits\<close>)
qed

lemma weak_register:
  assumes "cm_weak cm"
  shows "cm_weak (snd (snd (registerServer cm now ws u i md ch)))"
proof (cases rule: registerServer_cases [of cm now ws u i md ch])
  case (registered A effs)
  have "distinct (map fst A)"
    using assms registered(4)
    by (auto simp: cm_weak_def cm_keys_def omap_simps split: option.splits)
  then show ?thesis
    using assms by (simp add: registered(3) cm_weak_def cm_keys_def omap_simps)
qed (use assms in simp)

lemma weak_connect:
  assumes "cm_weak cm"
  shows "cm_weak (snd (connectClientEndpoint cm now k u ch))"
proof (cases rule: connectClientEndpoint_cases [of cm now k u ch])
  case (connected s)
  have "weak_links (map_of (cm_pairs cm)) (map_of (cm_pairLookup cm)) (cm_nextPair cm)"
    using assms by (simp add: cm_weak_def)
  then show ?thesis
    using assms by (simp add: connected(3) cm_weak_def cm_keys_def omap_simps weak_add split: option.split)
qed (use assms in simp)

lemma idle_socket_iff:
  assumes "cm_keys cm"
  shows "idle_socket cm ws \<longleftrightarrow>
    map_of (cm_pairLookup cm) ws = None \<and> (\<forall>key. map_of (cm_waiting cm) key \<noteq> Some ws)"
proof -
  have "isWaitingWs cm ws \<longleftrightarrow> (\<exists>key. (key, ws) \<in> set (cm_waiting cm))"
    by (auto simp: isWaitingWs_def list_ex_iff)
  also have "\<dots> \<longleftrightarrow> (\<exists>key. map_of (cm_waiting cm) key = Some ws)"
    using assms by (simp add: cm_keys_def)
  finally show ?thesis unfolding idle_socket_def isPaired_def by auto
qed

lemma strong_keys: "cm_strong cm \<Longrightarrow> cm_keys cm"
  by (simp add: cm_strong_def cm_weak_def)

lemma strong_register_server:
  assumes inv: "cm_strong cm" and idle: "idle_socket cm ws"
  shows "cm_strong (snd (snd (registerServer cm now ws u i md ch)))"
proof (cases rule: registerServer_cases [of cm now ws u i md ch])
  case (registered A effs)
  let ?a = "new_active now u i md ch" and ?reg = "snd (register (cm_registry cm) now u i)"
  have k: "key_of ?a = relayWaitKey u ch" by (simp add: key_of_def new_active_def)
  have "strong_links ((map_of (cm_waiting cm))(key_of ?a \<mapsto> ws)) (map_of (cm_pairs cm))
      (map_of (cm_pairLookup cm)) ((map_of A)(ws \<mapsto> ?a)) (owner ?reg)"
  proof (rule strong_register)
    show "strong_links (map_of (cm_waiting cm)) (map_of (cm_pairs cm)) (map_of (cm_pairLookup cm))
        (map_of (cm_activeServers cm)) (owner (cm_registry cm))"
      using inv by (simp add: cm_strong_def)
    show "map_of (cm_pairLookup cm) ws = None" "map_of (cm_waiting cm) key \<noteq> Some ws" for key
      using idle idle_socket_iff [OF strong_keys [OF inv]] by blast+
    show "owner ?reg v = (if v = as_username ?a then Some (as_installId ?a) else owner (cm_registry cm) v)"
      for v using registered(2) by (simp add: names.register_owner names.register_answer new_active_def)
    show "owner (cm_registry cm) (as_username ?a) = None \<or>
        owner (cm_registry cm) (as_username ?a) = Some (as_installId ?a)"
      using names.can_register_owner [OF registered(2)] by (simp add: new_active_def)
    show "as_state ?a = Waiting" by (simp add: new_active_def)
    show "map_of A = (case map_of (cm_waiting cm) (key_of ?a) of
        Some old \<Rightarrow> (map_of (cm_activeServers cm))(old := None) | None \<Rightarrow> map_of (cm_activeServers cm))"
      unfolding registered(4) k by (simp add: map_of_delete split: option.split)
  qed
  then have "strong_links ((map_of (cm_waiting cm))(relayWaitKey u ch \<mapsto> ws)) (map_of (cm_pairs cm))
      (map_of (cm_pairLookup cm)) ((map_of A)(ws \<mapsto> ?a)) (owner ?reg)"
    by (simp only: k)
  moreover have "cm_weak (snd (snd (registerServer cm now ws u i md ch)))"
    using inv weak_register by (simp add: cm_strong_def)
  ultimately show ?thesis
    by (simp add: registered(3) cm_strong_def map_of_update)
qed (use inv in simp)

lemma strong_connect_client:
  assumes inv: "cm_strong cm" and idle: "idle_socket cm k"
  shows "cm_strong (snd (connectClientEndpoint cm now k u ch))"
proof (cases rule: connectClientEndpoint_cases [of cm now k u ch])
  case (connected s)
  have S: "strong_links (map_of (cm_waiting cm)) (map_of (cm_pairs cm)) (map_of (cm_pairLookup cm))
      (map_of (cm_activeServers cm)) (owner (cm_registry cm))"
    using inv by (simp add: cm_strong_def)
  obtain a where a: "map_of (cm_activeServers cm) s = Some a"
    using strong_waitD(2) [OF S connected(2)] by blast
  have "map_of (cm_pairs cm) (cm_nextPair cm) = None"
    using inv by (simp add: weak_pair_fresh cm_strong_def)
  moreover have "map_of (cm_pairLookup cm) k = None" "map_of (cm_waiting cm) key \<noteq> Some k" for key
    using idle idle_socket_iff [OF strong_keys [OF inv]] by blast+
  ultimately have "strong_links ((map_of (cm_waiting cm))(relayWaitKey u ch := None))
      ((map_of (cm_pairs cm))(cm_nextPair cm \<mapsto> \<lparr>pr_server = s, pr_client = k, pr_timer = t\<rparr>))
      ((map_of (cm_pairLookup cm))(s \<mapsto> cm_nextPair cm, k \<mapsto> cm_nextPair cm))
      ((map_of (cm_activeServers cm))(s \<mapsto> a\<lparr>as_state := Paired\<rparr>)) (owner (cm_registry cm))" for t
    by (intro strong_connect [OF S connected(2) a]) auto
  moreover have "cm_weak (snd (connectClientEndpoint cm now k u ch))"
    using inv weak_connect by (simp add: cm_strong_def)
  moreover have "owner (updateLastSeen (cm_registry cm) now u) = owner (cm_registry cm)" by auto
  ultimately show ?thesis
    by (simp add: connected(3) a cm_strong_def map_of_update map_of_delete)
qed (use inv in simp)

lemma weak_handleClose: "cm_weak cm \<Longrightarrow> cm_weak (snd (snd (handleClose cm ws u)))"
  by (rule handleClose_keeps [of cm_weak]; (rule weak_forget_pair)?; assumption?)
    (simp_all add: cm_weak_def cm_keys_def omap_simps)

lemma strong_handleClose:
  assumes "cm_strong cm"
  shows "cm_strong (snd (snd (handleClose cm ws u)))"
proof (rule handleClose_keeps [of cm_strong, OF assms strong_keys [OF assms]])
  show "cm_strong (forget_pair cm pid p)" if "map_of (cm_pairs cm) pid = Some p" for pid p
    by (rule strong_forget_pair [OF assms that])
  show "cm_strong (cm\<lparr>cm_waiting := AList.delete key (cm_waiting cm),
      cm_activeServers := AList.delete ws (cm_activeServers cm)\<rparr>)"
    if "map_of (cm_waiting cm) key = Some ws" for key
    using assms strong_close_waiting [where W = "map_of (cm_waiting cm)", OF _ that]
    by (simp add: cm_strong_def cm_weak_def cm_keys_def omap_simps)
qed

lemma cm_init: "cm_strong (newConnectionManager reg t)"
  by (simp add: cm_strong_def cm_weak_def cm_keys_def weak_links_def strong_links_def
      newConnectionManager_def)

lemma cm_weak_step: "cm_weak cm \<Longrightarrow> cm_weak (cm_step cm x)"
  by (cases x) (simp_all add: weak_register weak_connect weak_handleClose
      handlers_keep [of cm_weak] weak_forget_pair weak_clear_timer)

lemma cm_strong_step: "cm_strong cm \<Longrightarrow> cm_ok cm x \<Longrightarrow> cm_strong (cm_step cm x)"
  by (cases x) (simp_all add: strong_register_server strong_connect_client strong_handleClose
      handlers_keep [of cm_strong] strong_forget_pair strong_clear_timer)

interpretation any_calls: invariant_machine cm_step "\<lambda>_ _. True" "newConnectionManager reg t" cm_weak
  for reg t
  by unfold_locales (use cm_init in \<open>auto simp: cm_strong_def cm_weak_step\<close>)

interpretation fresh_sockets: invariant_machine cm_step cm_ok "newConnectionManager reg t" cm_strong
  for reg t
  by unfold_locales (auto simp: cm_init cm_strong_step)


section \<open>Properties\<close>

text \<open>The state of a relay whose sockets took one role each.\<close>

definition reached :: "registry \<Rightarrow> int \<Rightarrow> cm_op list \<Rightarrow> ConnectionManager \<Rightarrow> bool" where
  "reached reg t ops cm =
     (permitted cm_step cm_ok (newConnectionManager reg t) ops \<and>
      cm = foldl cm_step (newConnectionManager reg t) ops)"

lemma permitted_snoc:
  "permitted step ok s (xs @ [x]) \<longleftrightarrow> permitted step ok s xs \<and> ok (foldl step s xs) x"
  by (induction xs arbitrary: s) auto

lemma reached_step: "reached reg t ops cm \<Longrightarrow> cm_ok cm x \<Longrightarrow> reached reg t (ops @ [x]) (cm_step cm x)"
  by (simp add: reached_def permitted_snoc)

lemma reached_strong: "reached reg t ops cm \<Longrightarrow> cm_strong cm"
  using fresh_sockets.inv_run by (simp add: reached_def)

lemma strong_linksD:
  "cm_strong cm \<Longrightarrow> strong_links (map_of (cm_waiting cm)) (map_of (cm_pairs cm))
      (map_of (cm_pairLookup cm)) (map_of (cm_activeServers cm)) (owner (cm_registry cm))"
  by (simp add: cm_strong_def)

text \<open>
  C2 Isolation. When a socket is in a pair, what it sends goes to the other end of that pair and
  nowhere else, both ends find the same pair, the ends are different sockets, and no third socket
  is routed into the pair; a socket in no pair reaches nobody.
\<close>
theorem relay_isolation:
  assumes "reached reg t ops cm"
  shows "case lookup_pair cm s of
      None \<Rightarrow> fst (forward cm s d b) = []
    | Some (pid, p) \<Rightarrow>
        (s = pr_server p \<and> fst (forward cm s d b) = [ClientSend (pr_client p) d b] \<or>
         s = pr_client p \<and> fst (forward cm s d b) = [ServerSend (pr_server p) d b]) \<and>
        pr_server p \<noteq> pr_client p \<and>
        (\<forall>k. map_option fst (lookup_pair cm k) = Some pid \<longleftrightarrow> k = pr_server p \<or> k = pr_client p)"
proof (cases "lookup_pair cm s")
  case (Some r)
  obtain pid p where r: "r = (pid, p)" by (cases r)
  note S = strong_linksD [OF reached_strong [OF assms]]
  from Some r have p: "map_of (cm_pairs cm) pid = Some p" by (simp add: lookup_pair_iff)
  note pD = strong_pairD [OF S p]
  have weak: "cm_weak cm" using reached_strong [OF assms] by (simp add: cm_strong_def)
  have ends: "map_option fst (lookup_pair cm k) = Some pid \<longleftrightarrow> k = pr_server p \<or> k = pr_client p" for k
  proof
    assume "map_option fst (lookup_pair cm k) = Some pid"
    then obtain q where q: "lookup_pair cm k = Some (pid, q)" by auto
    with p have "q = p" by (auto simp: lookup_pair_iff)
    with weak_lookup_ends [OF weak q] show "k = pr_server p \<or> k = pr_client p" by simp
  qed (use pD p in \<open>auto simp: lookup_pair_def\<close>)
  with Some r pD(3) weak_lookup_ends [OF weak, of s pid p] show ?thesis
    by (auto simp: forward_def)
qed (simp add: forward_def)

text \<open>
  Accounting. The active servers are exactly the waiting ones and one for each pair, and
  every pair is found from its two ends and in no other way.
\<close>
theorem relay_accounting:
  assumes "reached reg t ops cm"
  shows "length (cm_activeServers cm) = getWaitingCount cm + getPairCount cm \<and>
    length (cm_pairLookup cm) = 2 * getPairCount cm"
proof -
  note S = strong_linksD [OF reached_strong [OF assms]]
  have keys: "cm_keys cm" and weak: "cm_weak cm"
    using reached_strong [OF assms] by (auto simp: cm_strong_def cm_weak_def)
  note dist = keys [unfolded cm_keys_def]
  let ?P = "set (cm_pairs cm)" and ?W = "set (cm_waiting cm)"
  have pair: "map_of (cm_pairs cm) i = Some p" if "(i, p) \<in> ?P" for i p
    using that dist by simp
  have same: "i = j \<and> p = q" if "(i, p) \<in> ?P" "(j, q) \<in> ?P"
    "{pr_server p, pr_client p} \<inter> {pr_server q, pr_client q} \<noteq> {}" for i j p q
    using strong_pair_eq [OF S pair [OF that(1)] pair [OF that(2)] that(3)]
      pair [OF that(1)] pair [OF that(2)] by auto
  let ?srv = "\<lambda>(i, p). pr_server p" and ?cli = "\<lambda>(i, p). pr_client p"
  have inj: "inj_on ?srv ?P" "inj_on ?cli ?P" "inj_on snd ?W"
    using same strong_waitD(3) [OF S] dist by (auto simp: inj_on_def)
  have disj: "?srv ` ?P \<inter> ?cli ` ?P = {}"
    using same strong_pairD(3) [OF S pair] by fastforce
  have L: "dom (map_of (cm_pairLookup cm)) = ?srv ` ?P \<union> ?cli ` ?P"
  proof (intro equalityI subsetI)
    fix k assume "k \<in> dom (map_of (cm_pairLookup cm))"
    then obtain i p where "lookup_pair cm k = Some (i, p)"
      using weak_lookup_None [OF weak, of k] by (cases "lookup_pair cm k") auto
    with weak_lookup_ends [OF weak this] show "k \<in> ?srv ` ?P \<union> ?cli ` ?P"
      by (force simp: lookup_pair_iff dest: map_of_SomeD)
  qed (use strong_pairD(1,2) [OF S pair] in auto)
  have A: "dom (map_of (cm_activeServers cm)) = snd ` ?W \<union> ?srv ` ?P"
  proof (intro equalityI subsetI)
    fix ws assume "ws \<in> dom (map_of (cm_activeServers cm))"
    then obtain a where a: "map_of (cm_activeServers cm) ws = Some a" by auto
    then show "ws \<in> snd ` ?W \<union> ?srv ` ?P"
      using strong_activeD(2,3) [OF S a]
      by (cases "as_state a") (force dest: map_of_SomeD)+
  next
    fix ws assume "ws \<in> snd ` ?W \<union> ?srv ` ?P"
    then show "ws \<in> dom (map_of (cm_activeServers cm))"
      using strong_waitD(2) [OF S] strong_pairD(4) [OF S pair] dist by fastforce
  qed
  have WP: "snd ` ?W \<inter> ?srv ` ?P = {}"
    using strong_pairD(5) [OF S pair] dist by fastforce
  have "card (dom (map_of (cm_pairLookup cm))) = 2 * card ?P"
    unfolding L using inj disj by (simp add: card_Un_disjoint card_image)
  moreover have "card (dom (map_of (cm_activeServers cm))) = card ?W + card ?P"
    unfolding A using inj WP by (simp add: card_Un_disjoint card_image)
  ultimately show ?thesis
    using dist by (simp add: card_keys card_entries getWaitingCount_def getPairCount_def)
qed


text \<open>
  A small concrete relay: \<open>alice\<close>'s server (socket 1) registers, a client (socket 2) connects,
  \<open>bob\<close>'s server (socket 3) waits.
\<close>

definition no_metadata :: RelayServerCompatibilityMetadata where
  "no_metadata =
     \<lparr>md_appVersion = None, md_resumeProtocolVersion = None, md_renderProtocolVersion = None,
      md_remoteCompatibilityLevel = None, md_capabilities = None\<rparr>"

definition sample_ops :: "cm_op list" where
  "sample_ops =
     [OpRegister 10 1 ''alice'' ''i1'' no_metadata App, OpConnect 11 2 ''alice'' App,
      OpRegister 12 3 ''bob'' ''i2'' no_metadata App]"

definition sample :: ConnectionManager where
  "sample = foldl cm_step (newConnectionManager [] 5000) sample_ops"

lemma sample_reached: "reached [] 5000 sample_ops sample"
proof -
  have "permitted cm_step cm_ok (newConnectionManager [] 5000) sample_ops"
    by code_simp
  then show ?thesis by (simp add: reached_def sample_def)
qed

lemma relay_isolation_witness:
  "fst (forward sample 2 [7] True) = [ServerSend 1 [7] True]"
proof -
  have "map_option (\<lambda>(_, p). (pr_server p, pr_client p)) (lookup_pair sample 2) = Some (1, 2)"
    by code_simp
  then show ?thesis
    using relay_isolation [OF sample_reached, of 2 "[7]" True] by (auto split: option.splits)
qed

lemma relay_accounting_witness:
  "length (cm_activeServers sample) = getWaitingCount sample + getPairCount sample"
  using relay_accounting [OF sample_reached] by blast

text \<open>
  C3 A client reaches the owner. In any relay whose sockets take one role each and whose closes are
  reported under the socket's own name, when the connect request of a socket without a role
  succeeds, the server it is joined to was waiting under exactly that name and channel, was
  registered by the installation that owns the name, and no longer waits; the two sockets are then
  each other's peers. (What happens when a socket registers twice is stated at the end of this
  section.)
\<close>
theorem connect_reaches_owner:
  assumes "reached reg t ops cm" and "idle_socket cm k"
    and "connectClientEndpoint cm now k u ch = (Connected s info, cm')"
  shows "isWaitingWs cm s \<and> \<not> isWaitingWs cm' s \<and> \<not> isWaiting cm' u ch \<and>
    (\<exists>a. info = Some a \<and> as_username a = u \<and> as_channel a = ch \<and> as_state a = Paired \<and>
       owner (cm_registry cm') u = Some (as_installId a)) \<and>
    fst (forward cm' k d b) = [ServerSend s d b] \<and> fst (forward cm' s d b) = [ClientSend k d b]"
proof (cases rule: connectClientEndpoint_cases [of cm now k u ch])
  case (connected s')
  have [simp]: "s' = s" using connected(3) assms(3) by simp
  note strong = reached_strong [OF assms(1)]
  note S = strong_linksD [OF strong]
  have strong': "cm_strong cm'"
    using strong_connect_client [OF strong assms(2), of now u ch] assms(3) by simp
  note S' = strong_linksD [OF strong']
  note w = connected(2) [unfolded \<open>s' = s\<close>]
  obtain a where a: "map_of (cm_activeServers cm) s = Some a" "relayWaitKey u ch = key_of a"
    using strong_waitD(2) [OF S w] by blast
  then have au: "as_username a = u" "as_channel a = ch" by (auto simp: key_of_def)
  have p: "map_of (cm_pairs cm') (cm_nextPair cm) = Some \<lparr>pr_server = s, pr_client = k,
      pr_timer = (if cm_pairFirstMessageTimeoutMs cm > 0 then Some u else None)\<rparr>"
    using connected(3) assms(3) by (auto simp: map_of_update)
  have pD: "map_of (cm_pairLookup cm') s = Some (cm_nextPair cm)"
    "map_of (cm_pairLookup cm') k = Some (cm_nextPair cm)" "s \<noteq> k"
    using strong_pairD(1-3) [OF S' p] by simp_all
  have "isWaitingWs cm s"
    using idle_socket_iff [OF strong_keys [OF strong], of s] w strong_waitD(1) [OF S w]
    by (auto simp: idle_socket_def isPaired_def)
  moreover have "\<not> isWaitingWs cm' s"
    using idle_socket_iff [OF strong_keys [OF strong'], of s] strong_pairD(5) [OF S' p]
      strong_waitD(1) [OF S'] by (auto simp: isWaitingWs_def list_ex_iff strong_keys [OF strong', unfolded cm_keys_def])
  moreover have "\<not> isWaiting cm' u ch"
    using connected(3) assms(3) by (auto simp: isWaiting_def map_of_delete)
  moreover have "info = Some (a\<lparr>as_state := Paired\<rparr>)"
    using connected(3) assms(3) a by auto
  moreover have "owner (cm_registry cm') u = Some (as_installId a)"
    using strong_activeD(1) [OF S a(1)] connected(3) assms(3) au by auto
  moreover have "fst (forward cm' k d b) = [ServerSend s d b]" "fst (forward cm' s d b) = [ClientSend k d b]"
    using pD p by (auto simp: forward_def lookup_pair_def)
  ultimately show ?thesis using au by simp
qed (use assms(3) in auto)

lemma connect_reaches_owner_witness:
  "fst (forward (snd (connectClientEndpoint sample 20 4 ''bob'' App)) 4 [1] True) = [ServerSend 3 [1] True]"
proof -
  have "(case fst (connectClientEndpoint sample 20 4 ''bob'' App) of Connected s _ \<Rightarrow> s | _ \<Rightarrow> 0) = 3"
    by code_simp
  then obtain info cm' where c: "connectClientEndpoint sample 20 4 ''bob'' App = (Connected 3 info, cm')"
    by (cases "connectClientEndpoint sample 20 4 ''bob'' App") (auto split: ConnectionResult.splits)
  have "idle_socket sample 4" by code_simp
  from connect_reaches_owner [OF sample_reached this c] show ?thesis by (simp add: c)
qed

lemma close_forgets:
  assumes strong: "cm_strong cm" and ok: "cm_ok cm (OpClose ws u)"
  shows "let (result, effs, cm') = handleClose cm ws u in
    idle_socket cm' ws \<and> map_of (cm_activeServers cm') ws = None \<and>
    (case lookup_pair cm ws of
       Some (pid, p) \<Rightarrow>
         idle_socket cm' (pr_server p) \<and> idle_socket cm' (pr_client p) \<and>
         effs = [if ws = pr_server p then ClientClose (pr_client p) 1000 ''Peer disconnected''
                 else ServerClose (pr_server p) 1000 ''Peer disconnected'']
     | None \<Rightarrow> effs = [])"
proof -
  let ?cm' = "snd (snd (handleClose cm ws u))"
  note S = strong_linksD [OF strong]
  have strong': "cm_strong ?cm'" by (rule strong_handleClose [OF strong])
  note idle' = idle_socket_iff [OF strong_keys [OF strong']]
  have idle: "idle_socket ?cm' ws \<and> (case lookup_pair cm ws of
       Some (pid, p) \<Rightarrow>
         idle_socket ?cm' (pr_server p) \<and> idle_socket ?cm' (pr_client p) \<and>
         fst (snd (handleClose cm ws u)) =
           [if ws = pr_server p then ClientClose (pr_client p) 1000 ''Peer disconnected''
            else ServerClose (pr_server p) 1000 ''Peer disconnected'']
     | None \<Rightarrow> fst (snd (handleClose cm ws u)) = [])"
  proof (cases "findWaitingKeyForWs cm ws u")
    case (Some key)
    have w: "map_of (cm_waiting cm) key = Some ws"
      by (rule findWaitingKeyForWs_Some [OF Some strong_keys [OF strong]])
    then have "lookup_pair cm ws = None" "map_of (cm_pairLookup cm) ws = None"
      using strong_waitD(1) [OF S] by (auto simp: lookup_pair_def)
    moreover have "map_of (AList.delete key (cm_waiting cm)) key' \<noteq> Some ws" for key'
      using strong_waitD(3) [OF S w, of key'] by (auto simp: map_of_delete)
    ultimately show ?thesis unfolding idle' by (simp add: handleClose_def Some)
  next
    case None
    show ?thesis
    proof (cases "lookup_pair cm ws")
      case (Some r)
      obtain pid p where r: "r = (pid, p)" by (cases r)
      with Some have p: "map_of (cm_pairs cm) pid = Some p" by (simp add: lookup_pair_iff)
      have "ws = pr_server p \<or> ws = pr_client p"
        using weak_lookup_ends strong Some r by (auto simp: cm_strong_def)
      then show ?thesis
        unfolding idle' using Some r strong_pairD(5,6) [OF S p] None
        by (auto simp: handleClose_def forget_pair_def map_of_delete)
    next
      case unpaired: None
      have weak: "cm_weak cm" using strong by (simp add: cm_strong_def)
      have "map_of (cm_waiting cm) key \<noteq> Some ws" for key
      proof
        assume w: "map_of (cm_waiting cm) key = Some ws"
        then obtain a where a: "map_of (cm_activeServers cm) ws = Some a" "key = key_of a"
          using strong_waitD(2) [OF S] by blast
        then have "u = None \<or> u = Some [] \<or> u = Some (as_username a)" using ok by auto
        with None w find_snd_None [OF _ w] relayWaitKey_prefix [of "as_username a" "as_channel a"]
        show False unfolding findWaitingKeyForWs_def a(2) key_of_def by (auto split: if_splits)
      qed
      then show ?thesis
        unfolding idle' using unpaired None weak_lookup_None [OF weak, of ws]
        by (simp add: handleClose_def)
    qed
  qed
  moreover have "map_of (cm_activeServers ?cm') ws = None"
    using idle strong_idle_inactive [OF strong_linksD [OF strong'], of ws] unfolding idle' by blast
  ultimately show ?thesis by (auto simp: Let_def split: prod.splits option.splits)
qed


text \<open>
  Closing. When a socket closes (reported with its own name, if with any), the manager forgets
  it completely; if it was in a pair, the other end is told to close and is forgotten too, and
  nothing else is sent.
\<close>
theorem close_forgets_socket:
  assumes "reached reg t ops cm" and "cm_ok cm (OpClose ws u)"
  shows "let (result, effs, cm') = handleClose cm ws u in
    idle_socket cm' ws \<and> map_of (cm_activeServers cm') ws = None \<and>
    (case lookup_pair cm ws of
       Some (pid, p) \<Rightarrow>
         idle_socket cm' (pr_server p) \<and> idle_socket cm' (pr_client p) \<and>
         effs = [if ws = pr_server p then ClientClose (pr_client p) 1000 ''Peer disconnected''
                 else ServerClose (pr_server p) 1000 ''Peer disconnected'']
     | None \<Rightarrow> effs = [])"
  by (rule close_forgets [OF reached_strong [OF assms(1)] assms(2)])

lemma close_forgets_socket_witness:
  "idle_socket (snd (snd (handleClose sample 1 (Some ''alice'')))) 2"
proof -
  have "cm_ok sample (OpClose 1 (Some ''alice''))" by code_simp
  moreover have "map_option (\<lambda>(_, p). (pr_server p, pr_client p)) (lookup_pair sample 1) = Some (1, 2)"
    by code_simp
  ultimately show ?thesis
    using close_forgets_socket [OF sample_reached, of 1 "Some ''alice''"]
    by (auto simp: Let_def split: prod.splits option.splits)
qed

text \<open>
  Silent clients. If the first-message timer of a pair fires, both ends are closed and
  forgotten and the server may register again; once the client has sent anything, the timer is
  off for good.
\<close>
theorem silent_pair_released:
  assumes "reached reg t ops cm" and "map_of (cm_pairs cm) pid = Some p"
    and "pr_timer p = Some u"
  shows "let (effs, cm') = fire_first_message_timer cm pid in
      effs = [ServerClose (pr_server p) 1000 ''Peer disconnected'',
              ClientClose (pr_client p) 1000 SILENT_PAIR_CLOSE_REASON, SilentPairClosed u] \<and>
      idle_socket cm' (pr_server p) \<and> idle_socket cm' (pr_client p) \<and>
      getPairCount cm' + 1 = getPairCount cm \<and>
      fire_first_message_timer (snd (forward cm (pr_client p) d b)) pid =
        ([], snd (forward cm (pr_client p) d b))"
proof -
  note strong = reached_strong [OF assms(1)]
  note S = strong_linksD [OF strong]
  note pD = strong_pairD [OF S assms(2)]
  have look: "lookup_pair cm (pr_client p) = Some (pid, p)"
    using pD(2) assms(2) by (simp add: lookup_pair_iff)
  have fire: "fire_first_message_timer cm pid =
      ([ServerClose (pr_server p) 1000 ''Peer disconnected'',
        ClientClose (pr_client p) 1000 SILENT_PAIR_CLOSE_REASON, SilentPairClosed u],
       forget_pair cm pid p)"
    using assms(2,3) look
    by (simp add: fire_first_message_timer_def closeSilentPair_def handleClientEndpointClose_def)
  have keys': "cm_keys (forget_pair cm pid p)"
    by (rule strong_keys [OF strong_forget_pair [OF strong assms(2)]])
  have "idle_socket (forget_pair cm pid p) (pr_server p)" "idle_socket (forget_pair cm pid p) (pr_client p)"
    unfolding idle_socket_iff [OF keys'] using pD(5,6) by (auto simp: forget_pair_def map_of_delete)
  moreover have "getPairCount (forget_pair cm pid p) + 1 = getPairCount cm"
  proof -
    have "(pid, p) \<in> set (cm_pairs cm)" by (rule map_of_SomeD [OF assms(2)])
    then have "length (AList.delete pid m) + 1 = length m"
      if "distinct (map fst m)" "(pid, p) \<in> set m" for m :: "(nat \<times> Pair) list"
      using that by (induction m) (auto simp: image_iff)
    with \<open>(pid, p) \<in> set (cm_pairs cm)\<close> strong_keys [OF strong] show ?thesis
      by (simp add: getPairCount_def forget_pair_def cm_keys_def)
  qed
  moreover have "fire_first_message_timer (snd (forward cm (pr_client p) d b)) pid =
      ([], snd (forward cm (pr_client p) d b))"
    using assms(3) look
    by (simp add: forward_def clearFirstMessageTimer_def fire_first_message_timer_def map_of_update)
  ultimately show ?thesis by (simp add: fire)
qed

lemma silent_pair_released_witness:
  "fst (fire_first_message_timer sample 0) =
     [ServerClose 1 1000 ''Peer disconnected'', ClientClose 2 1000 SILENT_PAIR_CLOSE_REASON,
      SilentPairClosed ''alice'']"
proof -
  have "map_option (\<lambda>p. (pr_server p, pr_client p, pr_timer p)) (map_of (cm_pairs sample) 0) =
      Some (1, 2, Some ''alice'')"
    by code_simp
  then obtain p where "map_of (cm_pairs sample) 0 = Some p" "pr_timer p = Some ''alice''"
    "pr_server p = 1" "pr_client p = 2" by auto
  with silent_pair_released [OF sample_reached this(1,2)] show ?thesis
    by (cases "fire_first_message_timer sample 0") simp
qed

text \<open>A waiting key begins with a user name and a NUL only if it was made from that name.\<close>

lemma relayWaitKey_prefix_iff:
  assumes "CHR 0x00 \<notin> set u" and "CHR 0x00 \<notin> set v"
  shows "take (length (v @ [CHR 0x00])) (relayWaitKey u c) = v @ [CHR 0x00] \<longleftrightarrow> u = v"
proof
  assume "take (length (v @ [CHR 0x00])) (relayWaitKey u c) = v @ [CHR 0x00]"
  then have "takeWhile (\<lambda>x. x \<noteq> CHR 0x00) (relayWaitKey u c) =
      takeWhile (\<lambda>x. x \<noteq> CHR 0x00)
        ((v @ [CHR 0x00]) @ drop (length (v @ [CHR 0x00])) (relayWaitKey u c))"
    by (metis append_take_drop_id)
  moreover have "takeWhile (\<lambda>x. x \<noteq> CHR 0x00) (w @ CHR 0x00 # r) = w" if "CHR 0x00 \<notin> set w" for w r
    using that by (induction w) auto
  ultimately show "u = v" using assms by (simp add: relayWaitKey_def)
next
  assume "u = v"
  then show "take (length (v @ [CHR 0x00])) (relayWaitKey u c) = v @ [CHR 0x00]"
    by (simp only: relayWaitKey_prefix)
qed

text \<open>Closing a socket that waits under two names removes the entry of the reported one.\<close>

lemma close_of_two_names:
  assumes keys: "cm_keys cm" and "u \<noteq> v"
    and names: "isValidRelayUsername u" "isValidRelayUsername v"
    and waits: "\<And>key. map_of (cm_waiting cm) key = Some ws \<longleftrightarrow>
      key = relayWaitKey u ch \<or> key = relayWaitKey v ch'"
  shows "findWaitingKeyForWs cm ws (Some v) = Some (relayWaitKey v ch')"
proof (cases "findWaitingKeyForWs cm ws (Some v)")
  case None
  have "v \<noteq> []" using names(2) by (auto simp: isValidRelayUsername_def)
  with None find_snd_None [OF _ iffD2 [OF waits disjI2 [OF refl]]] relayWaitKey_prefix [of v ch']
  show ?thesis unfolding findWaitingKeyForWs_def by auto
next
  case (Some key)
  have "key = relayWaitKey u ch \<or> key = relayWaitKey v ch'"
    using findWaitingKeyForWs_Some [OF Some keys] waits by blast
  moreover have "key \<noteq> relayWaitKey u ch"
  proof
    assume "key = relayWaitKey u ch"
    moreover have "v \<noteq> []" using names(2) by (auto simp: isValidRelayUsername_def)
    then have "take (length (v @ [CHR 0x00])) key = v @ [CHR 0x00]"
      using Some find_snd [where m = "cm_waiting cm" and key = key] keys
      unfolding findWaitingKeyForWs_def cm_keys_def by (auto split: if_splits dest!: find_snd)
    ultimately show False
      using relayWaitKey_prefix_iff [of u v ch] valid_username_no_nul names \<open>u \<noteq> v\<close> by blast
  qed
  ultimately show ?thesis using Some by simp
qed



section \<open>Summaries\<close>

lemma count_in_map_of:
  "map_of (count_in m v) = (map_of m)(v \<mapsto> (case map_of m v of Some n \<Rightarrow> n | None \<Rightarrow> 0) + 1)"
  by (simp add: count_in_def map_of_update)

lemma count_in_keys: "distinct (map fst m) \<Longrightarrow> distinct (map fst (count_in m v))"
  by (simp add: count_in_def distinct_update)

text \<open>\<open>counts m f\<close>: the map \<open>m\<close> holds the positive values of \<open>f\<close>.\<close>

definition counts :: "('v \<times> nat) list \<Rightarrow> ('v \<Rightarrow> nat) \<Rightarrow> bool" where
  "counts m f = (distinct (map fst m) \<and> (\<forall>v. map_of m v = (if f v = 0 then None else Some (f v))))"

lemma counts_Nil: "counts [] (\<lambda>v. 0)"
  by (simp add: counts_def)

lemma counts_step: "counts m f \<Longrightarrow> counts (count_in m v) (f(v := f v + 1))"
  unfolding counts_def by (simp only: count_in_map_of count_in_keys) (auto split: option.splits)

lemma counts_fold:
  "counts m f \<Longrightarrow> counts (foldl count_in m vs) (\<lambda>v. f v + count_list vs v)"
proof (induction vs arbitrary: m f)
  case (Cons v vs)
  from Cons.IH [OF counts_step [OF Cons.prems]]
  have "counts (foldl count_in m (v # vs)) (\<lambda>w. (f(v := f v + 1)) w + count_list vs w)" by simp
  moreover have "(\<lambda>w. (f(v := f v + 1)) w + count_list vs w) = (\<lambda>w. f w + count_list (v # vs) w)"
    by auto
  ultimately show ?case by metis
qed simp

lemma counts_mem: "counts m f \<Longrightarrow> (v, n) \<in> set m \<longleftrightarrow> n = f v \<and> 0 < n"
  unfolding counts_def by (subst map_of_eq_Some_iff [symmetric]) auto

lemma counts_js_sort: "counts m f \<Longrightarrow> (v, n) \<in> set (js_sort cmp m) \<longleftrightarrow> n = f v \<and> 0 < n"
  by (simp add: counts_mem)

lemma keys_js_sort: "distinct (map fst (js_sort cmp m)) = distinct (map fst m)"
proof -
  have "mset (map fst (js_sort cmp m)) = mset (map fst m)" by simp
  then show ?thesis by (rule mset_eq_imp_distinct_iff)
qed

lemma sum_count_fold: "sum_list (map snd (foldl count_in m vs)) = sum_list (map snd m) + length vs"
proof (induction vs arbitrary: m)
  case (Cons v vs)
  have "sum_list (map snd (count_in m v)) = sum_list (map snd m) + 1"
    unfolding count_in_def by (induction m) (auto split: option.splits)
  then show ?case using Cons by simp
qed simp

lemma summary_foldl: "foldl (\<lambda>m s. count_in m (f s)) m xs = foldl count_in m (map f xs)"
  by (induction xs arbitrary: m) auto

lemma counts_fold_sets:
  "counts m f \<Longrightarrow> (\<And>s. distinct (F s)) \<Longrightarrow>
     counts (foldl (\<lambda>m s. foldl count_in m (F s)) m xs)
       (\<lambda>c. f c + length (filter (\<lambda>s. c \<in> set (F s)) xs))"
proof (induction xs arbitrary: m f)
  case (Cons s xs)
  have once: "count_list ys c = (if c \<in> set ys then 1 else 0)" if "distinct ys" for ys and c
    using that by (induction ys) auto
  have "(\<lambda>c. f c + count_list (F s) c + length (filter (\<lambda>s. c \<in> set (F s)) xs)) =
      (\<lambda>c. f c + length (filter (\<lambda>s. c \<in> set (F s)) (s # xs)))"
    by (auto simp: once [OF Cons.prems(2)])
  with Cons.IH [OF counts_fold [OF Cons.prems(1)] Cons.prems(2), of "F s"] show ?case by simp
qed simp

text \<open>
  The compatibility summary counts every active server once: there is one bucket for each
  value that occurs (absent values share the \<open>null\<close> bucket), it holds the number of servers with
  that value, larger buckets come first, and the counts add up to the number of servers.
\<close>
theorem summary_counts:
  "distinct (map fst (summarizeOptionalValues cmp servers f)) \<and>
   ((v, n) \<in> set (summarizeOptionalValues cmp servers f) \<longleftrightarrow>
      n = length (filter (\<lambda>s. f s = v) servers) \<and> 0 < n) \<and>
   sum_list (map snd (summarizeOptionalValues cmp servers f)) = length servers \<and>
   sorted_wrt (\<lambda>a b. snd a \<ge> snd b) (summarizeOptionalValues cmp servers f)"
proof -
  let ?m = "foldl (\<lambda>m s. count_in m (f s)) [] servers"
  have c: "counts ?m (\<lambda>v. count_list (map f servers) v)"
    using counts_fold [OF counts_Nil, of "map f servers"] by (simp add: summary_foldl [where f = f])
  have "sum_list (map snd (js_sort cmp' ?m)) = sum_list (map snd ?m)" for cmp'
    by (simp only: sum_mset_sum_list [symmetric] mset_map mset_js_sort)
  moreover have "sum_list (map snd ?m) = length servers"
    by (simp add: summary_foldl [where f = f] sum_count_fold)
  moreover have "count_list (map f servers) v = length (filter (\<lambda>s. f s = v) servers)"
    by (induction servers) auto
  moreover have "distinct (map fst ?m)" using c by (simp add: counts_def)
  ultimately show ?thesis
    unfolding summarizeOptionalValues_def keys_js_sort counts_js_sort [OF c]
    by (intro conjI js_sort_sorted) (auto split: if_splits option.splits prod.splits)
qed

text \<open>
  The capability summary counts servers, not mentions: a capability listed twice by one
  server counts once, and the result lists each announced capability once with the number of
  servers announcing it, larger numbers first.
\<close>
theorem capability_counts:
  "distinct (map fst (summarizeCapabilities cmp servers)) \<and>
   ((c, n) \<in> set (summarizeCapabilities cmp servers) \<longleftrightarrow>
      n = length (filter (\<lambda>s. c \<in> set (case md_capabilities (as_metadata s) of
                                          Some cs \<Rightarrow> cs | None \<Rightarrow> [])) servers) \<and> 0 < n) \<and>
   sorted_wrt (\<lambda>a b. snd a \<ge> snd b) (summarizeCapabilities cmp servers)"
proof -
  let ?caps = "\<lambda>s. case md_capabilities (as_metadata s) of Some cs \<Rightarrow> cs | None \<Rightarrow> []"
  let ?m = "foldl (\<lambda>m s. foldl count_in m (js_set_members (?caps s))) [] servers"
  have "counts ?m (\<lambda>c. 0 + length (filter (\<lambda>s. c \<in> set (js_set_members (?caps s))) servers))"
    by (rule counts_fold_sets [OF counts_Nil]) simp
  then have c: "counts ?m (\<lambda>c. length (filter (\<lambda>s. c \<in> set (?caps s)) servers))" by simp
  moreover have "distinct (map fst ?m)" using c by (simp add: counts_def)
  ultimately show ?thesis
    unfolding summarizeCapabilities_def keys_js_sort counts_js_sort [OF c]
    by (intro conjI js_sort_sorted) (auto split: if_splits prod.splits)
qed

end
