(* ===== verification/WsHandler.thy ===== *)
theory WsHandler
  imports ConnectionLaws
begin

text \<open>
  The handler of direct relay sockets, \<open>packages/relay/src/ws-handler.ts\<close>: the state kept per
  socket, the requests a socket may open with, forwarding once it is paired, and the pings of
  waiting servers.

  State objects have an identity of their own, because a ping timer keeps the object it was
  started with after the socket's entry is deleted. \<open>JSON.parse\<close> of a text frame is the parameter
  \<open>parse\<close>, which gives no value when it throws. What a handler does to the outside is its list of
  effects; debug logging is left out.
\<close>

section \<open>State\<close>

record ConnectionState =
  st_username :: "string option"
  st_channel :: "RelayChannel option"
  st_isServer :: "bool option"
  st_paired :: bool
  st_pingInterval :: "nat option"
  st_pongTimeout :: "nat option"
  st_lastPong :: "int option"

definition newConnectionState :: ConnectionState where
  "newConnectionState =
     \<lparr>st_username = None, st_channel = None, st_isServer = None, st_paired = False,
      st_pingInterval = None, st_pongTimeout = None, st_lastPong = None\<rparr>"

datatype telemetry_event =
    EvServerRegister string string RelayServerCompatibilityMetadata
  | EvClientConnectSuccess string "string option" "RelayServerCompatibilityMetadata option"
  | EvClientConnectError string string
  | EvPairDisconnected string Initiator nat string
  | EvServerDisconnect string string ServerState nat string

datatype relay_effect =
    Endpoint effect
  | SendJson ident json
  | CloseSocket ident nat string
  | Ping ident
  | ProtocolAccepted ident
  | Record telemetry_event

text \<open>
  \<open>wh_stateOf\<close> is the weak map from sockets to state objects, \<open>wh_objects\<close> their contents;
  \<open>wh_intervals\<close> and \<open>wh_timeouts\<close> are the running timers with the socket and the state object
  their callbacks captured.
\<close>

record WsHandler =
  wh_manager :: ConnectionManager
  wh_stateOf :: "(ident \<times> nat) list"
  wh_objects :: "(nat \<times> ConnectionState) list"
  wh_intervals :: "(nat \<times> ident \<times> nat) list"
  wh_timeouts :: "(nat \<times> ident \<times> nat) list"
  wh_next :: nat

definition createWsHandler :: "ConnectionManager \<Rightarrow> WsHandler" where
  "createWsHandler cm =
     \<lparr>wh_manager = cm, wh_stateOf = [], wh_objects = [], wh_intervals = [], wh_timeouts = [],
      wh_next = 0\<rparr>"

definition object_of :: "WsHandler \<Rightarrow> nat \<Rightarrow> ConnectionState" where
  "object_of h i = (case map_of (wh_objects h) i of Some st \<Rightarrow> st | None \<Rightarrow> newConnectionState)"

definition set_object :: "nat \<Rightarrow> ConnectionState \<Rightarrow> WsHandler \<Rightarrow> WsHandler" where
  "set_object i st h = h\<lparr>wh_objects := AList.update i st (wh_objects h)\<rparr>"

definition getState :: "WsHandler \<Rightarrow> ident \<Rightarrow> nat \<times> WsHandler" where
  "getState h ws =
     (case map_of (wh_stateOf h) ws of
        Some i \<Rightarrow> (i, h)
      | None \<Rightarrow>
          (wh_next h,
           set_object (wh_next h) newConnectionState
             (h\<lparr>wh_stateOf := AList.update ws (wh_next h) (wh_stateOf h),
                wh_next := wh_next h + 1\<rparr>)))"

section \<open>Pings\<close>

definition startPingInterval :: "WsHandler \<Rightarrow> ident \<Rightarrow> nat \<Rightarrow> WsHandler" where
  "startPingInterval h ws i =
     (let t = wh_next h in
      set_object i ((object_of h i)\<lparr>st_pingInterval := Some t\<rparr>)
        (h\<lparr>wh_intervals := AList.update t (ws, i) (wh_intervals h), wh_next := t + 1\<rparr>))"

definition clearPingInterval :: "WsHandler \<Rightarrow> nat \<Rightarrow> WsHandler" where
  "clearPingInterval h i =
     (case st_pingInterval (object_of h i) of
        Some t \<Rightarrow> set_object i ((object_of h i)\<lparr>st_pingInterval := None\<rparr>)
                   (h\<lparr>wh_intervals := AList.delete t (wh_intervals h)\<rparr>)
      | None \<Rightarrow> h)"

definition clearPongTimeout :: "WsHandler \<Rightarrow> nat \<Rightarrow> WsHandler" where
  "clearPongTimeout h i =
     (case st_pongTimeout (object_of h i) of
        Some t \<Rightarrow> set_object i ((object_of h i)\<lparr>st_pongTimeout := None\<rparr>)
                   (h\<lparr>wh_timeouts := AList.delete t (wh_timeouts h)\<rparr>)
      | None \<Rightarrow> h)"

definition stopPingInterval :: "WsHandler \<Rightarrow> nat \<Rightarrow> WsHandler" where
  "stopPingInterval h i = clearPongTimeout (clearPingInterval h i) i"

definition handlePong :: "WsHandler \<Rightarrow> int \<Rightarrow> nat \<Rightarrow> WsHandler" where
  "handlePong h now i =
     clearPongTimeout (set_object i ((object_of h i)\<lparr>st_lastPong := Some now\<rparr>) h) i"

text \<open>One tick of a ping interval, and the expiry of a pong timeout.\<close>

definition ping_tick :: "WsHandler \<Rightarrow> nat \<Rightarrow> relay_effect list \<times> WsHandler" where
  "ping_tick h t =
     (case map_of (wh_intervals h) t of
        None \<Rightarrow> ([], h)
      | Some (ws, i) \<Rightarrow>
          if st_paired (object_of h i) then ([], clearPingInterval h i)
          else
            let t' = wh_next h in
            ([Ping ws],
             set_object i ((object_of h i)\<lparr>st_pongTimeout := Some t'\<rparr>)
               (h\<lparr>wh_timeouts := AList.update t' (ws, i) (wh_timeouts h), wh_next := t' + 1\<rparr>)))"

definition pong_timeout :: "WsHandler \<Rightarrow> nat \<Rightarrow> relay_effect list \<times> WsHandler" where
  "pong_timeout h t =
     (case map_of (wh_timeouts h) t of
        None \<Rightarrow> ([], h)
      | Some (ws, i) \<Rightarrow>
          ([CloseSocket ws 1000 ''Pong timeout''],
           h\<lparr>wh_timeouts := AList.delete t (wh_timeouts h)\<rparr>))"

section \<open>Messages\<close>

datatype RawData = Buffer bytes | Buffers "bytes list" | ArrayBuffer bytes

fun rawDataToBuffer :: "RawData \<Rightarrow> bytes" where
  "rawDataToBuffer (Buffer bs) = bs"
| "rawDataToBuffer (Buffers bss) = concat bss"
| "rawDataToBuffer (ArrayBuffer bs) = bs"

fun rejection :: "RegistrationResult \<Rightarrow> string" where
  "rejection UsernameTaken = ''username_taken''"
| "rejection InvalidUsername = ''invalid_username''"
| "rejection Registered = ''registered''"

fun refusal :: "ConnectionResult \<Rightarrow> string" where
  "refusal ServerOffline = ''server_offline''"
| "refusal UnknownUsername = ''unknown_username''"
| "refusal (Connected _ _) = ''connected''"

text \<open>A field of a message behind its guard; the guard makes it present.\<close>

definition field :: "json \<Rightarrow> string \<Rightarrow> string" where
  "field msg k = (case string_field msg k of Some s \<Rightarrow> s | None \<Rightarrow> [])"

definition handle_register ::
  "WsHandler \<Rightarrow> int \<Rightarrow> ident \<Rightarrow> nat \<Rightarrow> json \<Rightarrow> relay_effect list \<times> WsHandler" where
  "handle_register h now ws i msg =
     (let username = field msg ''username'';
          installId = field msg ''installId'';
          metadata = metadata_of msg;
          channel = (if isRelayServerChannelRegister msg then SPEECH_RELAY_CHANNEL
                     else DEFAULT_RELAY_CHANNEL);
          (result, effs, cm) =
            registerServer (wh_manager h) now ws username installId metadata channel;
          h = h\<lparr>wh_manager := cm\<rparr>
      in if result = Registered then
           (map Endpoint effs @
            [ProtocolAccepted ws, SendJson ws (JObj [(''type'', JStr ''server_registered'')]),
             Record (EvServerRegister username installId metadata)],
            startPingInterval
              (set_object i ((object_of h i)\<lparr>st_username := Some username,
                  st_channel := Some channel, st_isServer := Some True\<rparr>) h) ws i)
         else
           (map Endpoint effs @
            [SendJson ws (JObj [(''type'', JStr ''server_rejected''),
                                (''reason'', JStr (rejection result))]),
             CloseSocket ws 1000 (''Registration rejected: '' @ rejection result)], h))"

definition handle_connect ::
  "WsHandler \<Rightarrow> int \<Rightarrow> ident \<Rightarrow> nat \<Rightarrow> json \<Rightarrow> relay_effect list \<times> WsHandler" where
  "handle_connect h now ws i msg =
     (let username = field msg ''username'';
          channel = (if isRelayClientChannelConnect msg then SPEECH_RELAY_CHANNEL
                     else DEFAULT_RELAY_CHANNEL);
          (result, cm) = connectClientEndpoint (wh_manager h) now ws username channel;
          h = h\<lparr>wh_manager := cm\<rparr>
      in case result of
           Connected serverWs server \<Rightarrow>
             let h = set_object i ((object_of h i)\<lparr>st_username := Some username,
                        st_channel := Some channel, st_isServer := Some False,
                        st_paired := True\<rparr>) h;
                 (j, h) = getState h serverWs;
                 h = set_object j ((object_of h j)\<lparr>st_paired := True, st_channel := Some channel\<rparr>) h;
                 h = stopPingInterval h j
             in ([ProtocolAccepted ws, SendJson ws (JObj [(''type'', JStr ''client_connected'')]),
                  Record (EvClientConnectSuccess username (map_option as_installId server)
                    (map_option as_metadata server))], h)
         | refused \<Rightarrow>
             ([SendJson ws (JObj [(''type'', JStr ''client_error''),
                                  (''reason'', JStr (refusal refused))]),
               Record (EvClientConnectError username (refusal refused)),
               CloseSocket ws 1000 (''Connection failed: '' @ refusal refused)], h))"

definition onMessage ::
  "(bytes \<Rightarrow> json option) \<Rightarrow> WsHandler \<Rightarrow> int \<Rightarrow> ident \<Rightarrow> RawData \<Rightarrow> bool \<Rightarrow>
    relay_effect list \<times> WsHandler" where
  "onMessage parse h now ws data isBinary =
     (let (i, h) = getState h ws; buffer = rawDataToBuffer data in
      if st_paired (object_of h i) then
        let (effs, cm) = forward (wh_manager h) ws buffer isBinary
        in (map Endpoint effs, h\<lparr>wh_manager := cm\<rparr>)
      else if isBinary then ([], h)
      else case parse buffer of
        None \<Rightarrow> ([], h)
      | Some msg \<Rightarrow>
          if isRelayServerRegister msg \<or> isRelayServerChannelRegister msg then
            handle_register h now ws i msg
          else if isRelayClientConnect msg \<or> isRelayClientChannelConnect msg then
            handle_connect h now ws i msg
          else ([], h))"

section \<open>Other events\<close>

definition onServerClaimed :: "WsHandler \<Rightarrow> ident \<Rightarrow> WsHandler" where
  "onServerClaimed h ws =
     (let (i, h) = getState h ws in
      stopPingInterval (set_object i ((object_of h i)\<lparr>st_paired := True\<rparr>) h) i)"

definition truthy :: "string option \<Rightarrow> bool" where
  "truthy u = (u \<noteq> None \<and> u \<noteq> Some [])"

definition onClose ::
  "WsHandler \<Rightarrow> ident \<Rightarrow> nat \<Rightarrow> string \<Rightarrow> relay_effect list \<times> WsHandler" where
  "onClose h ws code reason =
     (let (i, h) = getState h ws;
          h = stopPingInterval h i;
          username = st_username (object_of h i);
          (result, effs, cm) = handleClose (wh_manager h) ws username;
          events =
            (if \<not> truthy username then []
             else case result of
               PairDisconnected initiator server \<Rightarrow>
                 EvPairDisconnected (the username) initiator code reason #
                 (case server of
                    Some a \<Rightarrow> if initiator = ByServer
                      then [EvServerDisconnect (the username) (as_installId a) Paired code reason]
                      else []
                  | None \<Rightarrow> [])
             | WaitingServerClosed (Some a) \<Rightarrow>
                 [EvServerDisconnect (the username) (as_installId a) Waiting code reason]
             | _ \<Rightarrow> [])
      in (map Endpoint effs @ map Record events,
          h\<lparr>wh_manager := cm, wh_stateOf := AList.delete ws (wh_stateOf h)\<rparr>))"

definition onPong :: "WsHandler \<Rightarrow> int \<Rightarrow> ident \<Rightarrow> WsHandler" where
  "onPong h now ws = (let (i, h) = getState h ws in handlePong h now i)"

text \<open>The events a relay without multiplexed clients reacts to.\<close>

datatype ws_event =
    Message int ident RawData bool
  | Closed ident nat string
  | Pong int ident
  | Tick nat
  | PongTimeout nat
  | FirstMessageTimer nat

fun ws_step :: "(bytes \<Rightarrow> json option) \<Rightarrow> WsHandler \<Rightarrow> ws_event \<Rightarrow> WsHandler" where
  "ws_step parse h (Message now ws data b) = snd (onMessage parse h now ws data b)"
| "ws_step parse h (Closed ws code reason) = snd (onClose h ws code reason)"
| "ws_step parse h (Pong now ws) = onPong h now ws"
| "ws_step parse h (Tick t) = snd (ping_tick h t)"
| "ws_step parse h (PongTimeout t) = snd (pong_timeout h t)"
| "ws_step parse h (FirstMessageTimer pid) =
     h\<lparr>wh_manager := snd (fire_first_message_timer (wh_manager h) pid)\<rparr>"

end
