(* ===== verification/WsHandlerLaws.thy ===== *)
theory WsHandlerLaws
  imports WsHandler
begin

text \<open>
  The laws of the socket handler: the state it keeps per socket agrees with the connection
  manager, so that the contracts of the manager hold for a relay driven through its sockets, and
  what each kind of message does.
\<close>

section \<open>The state of a socket\<close>

definition socket_state :: "WsHandler \<Rightarrow> ident \<Rightarrow> ConnectionState" where
  "socket_state h ws =
     (case map_of (wh_stateOf h) ws of Some i \<Rightarrow> object_of h i | None \<Rightarrow> newConnectionState)"

definition wh_wf :: "WsHandler \<Rightarrow> bool" where
  "wh_wf h =
     ((\<forall>ws i. map_of (wh_stateOf h) ws = Some i \<longrightarrow> i < wh_next h) \<and>
      (\<forall>ws ws' i. map_of (wh_stateOf h) ws = Some i \<longrightarrow> map_of (wh_stateOf h) ws' = Some i \<longrightarrow> ws = ws'))"

text \<open>What the manager's contracts depend on: whether a socket is marked paired, and its name.\<close>

definition core :: "WsHandler \<Rightarrow> ident \<Rightarrow> bool \<times> string option" where
  "core h ws = (st_paired (socket_state h ws), st_username (socket_state h ws))"

lemma object_of_set_object [simp]:
  "object_of (set_object i st h) j = (if j = i then st else object_of h j)"
  by (simp add: object_of_def set_object_def map_of_update)

lemma set_object_fields [simp]:
  "wh_manager (set_object i st h) = wh_manager h" "wh_stateOf (set_object i st h) = wh_stateOf h"
  "wh_next (set_object i st h) = wh_next h"
  by (simp_all add: set_object_def)

lemma object_of_update [simp]:
  "object_of (h\<lparr>wh_manager := cm\<rparr>) i = object_of h i"
  "object_of (h\<lparr>wh_stateOf := so\<rparr>) i = object_of h i"
  "object_of (h\<lparr>wh_intervals := ti\<rparr>) i = object_of h i"
  "object_of (h\<lparr>wh_timeouts := tt\<rparr>) i = object_of h i"
  "object_of (h\<lparr>wh_next := n\<rparr>) i = object_of h i"
  by (simp_all add: object_of_def)

text \<open>An update that leaves the core of every object alone, and the rest of the handler.\<close>

definition same_core :: "WsHandler \<Rightarrow> WsHandler \<Rightarrow> bool" where
  "same_core h h' =
     (wh_manager h' = wh_manager h \<and> wh_stateOf h' = wh_stateOf h \<and> wh_next h \<le> wh_next h' \<and>
      (\<forall>i. st_paired (object_of h' i) = st_paired (object_of h i) \<and>
           st_username (object_of h' i) = st_username (object_of h i)))"

lemma same_core_refl [simp]: "same_core h h"
  by (simp add: same_core_def)

lemma same_core_trans: "same_core h h' \<Longrightarrow> same_core h' h'' \<Longrightarrow> same_core h h''"
  by (auto simp: same_core_def)

lemma same_core_core:
  "same_core h h' \<Longrightarrow> core h' ws = core h ws"
  "same_core h h' \<Longrightarrow> wh_wf h \<Longrightarrow> wh_wf h'"
  "same_core h h' \<Longrightarrow> wh_manager h' = wh_manager h"
  by (auto simp: same_core_def core_def socket_state_def wh_wf_def split: option.splits)
    (metis order_less_le_trans)

lemma timers_same_core [simp]:
  "same_core h (clearPingInterval h i)" "same_core h (clearPongTimeout h i)"
  "same_core h (stopPingInterval h i)" "same_core h (handlePong h now i)"
  "same_core h (startPingInterval h ws i)" "same_core h (snd (ping_tick h t))"
  "same_core h (snd (pong_timeout h t))"
proof -
  show ping: "same_core h (clearPingInterval h i)" for h i
    by (simp add: same_core_def clearPingInterval_def split: option.split)
  show pong: "same_core h (clearPongTimeout h i)" for h i
    by (simp add: same_core_def clearPongTimeout_def split: option.split)
  show "same_core h (stopPingInterval h i)"
    unfolding stopPingInterval_def by (rule same_core_trans [OF ping pong])
  have "same_core h (set_object i ((object_of h i)\<lparr>st_lastPong := Some now\<rparr>) h)"
    by (simp add: same_core_def)
  then show "same_core h (handlePong h now i)"
    unfolding handlePong_def by (rule same_core_trans [OF _ pong])
  show "same_core h (startPingInterval h ws i)"
    by (simp add: same_core_def startPingInterval_def Let_def)
  show "same_core h (snd (pong_timeout h t))"
    by (simp add: same_core_def pong_timeout_def split: option.split prod.split)
  show "same_core h (snd (ping_tick h t))"
  proof (cases "map_of (wh_intervals h) t")
    case (Some wi)
    then show ?thesis
      using ping [of h "snd wi"]
      by (cases wi) (simp add: ping_tick_def Let_def same_core_def)
  qed (simp add: ping_tick_def)
qed

lemma getState_facts:
  assumes "wh_wf h" and "getState h ws = (i, h')"
  shows "wh_wf h'" "wh_manager h' = wh_manager h" "map_of (wh_stateOf h') ws = Some i"
    "object_of h' i = socket_state h ws" "core h' ws' = core h ws'"
proof -
  have "wh_wf h' \<and> wh_manager h' = wh_manager h \<and> map_of (wh_stateOf h') ws = Some i \<and>
    object_of h' i = socket_state h ws \<and> core h' ws' = core h ws'"
  proof (cases "map_of (wh_stateOf h) ws")
    case (Some j)
    then show ?thesis using assms by (simp add: getState_def socket_state_def)
  next
    case None
    have fresh: "map_of (wh_stateOf h) v \<noteq> Some (wh_next h)" for v
      using assms(1) by (auto simp: wh_wf_def)
    have h': "i = wh_next h" "h' = set_object (wh_next h) newConnectionState
        (h\<lparr>wh_stateOf := AList.update ws (wh_next h) (wh_stateOf h), wh_next := wh_next h + 1\<rparr>)"
      using assms(2) None by (auto simp: getState_def)
    have "wh_wf h'"
      using assms(1) fresh unfolding wh_wf_def h'
      by (auto simp: map_of_update less_Suc_eq split: if_splits)
    moreover have "core h' ws' = core h ws'"
      using None fresh [of ws'] unfolding core_def socket_state_def h'
      by (auto simp: map_of_update split: option.split)
    ultimately show ?thesis
      using None unfolding h' by (simp add: map_of_update socket_state_def)
  qed
  then show "wh_wf h'" "wh_manager h' = wh_manager h" "map_of (wh_stateOf h') ws = Some i"
    "object_of h' i = socket_state h ws" "core h' ws' = core h ws'" by blast+
qed

lemma set_object_core:
  assumes "wh_wf h" and "map_of (wh_stateOf h) ws = Some i"
  shows "core (set_object i st h) ws' =
      (if ws' = ws then (st_paired st, st_username st) else core h ws')"
    and "wh_wf (set_object i st h)"
  using assms unfolding core_def socket_state_def wh_wf_def
  by (auto split: option.splits)

lemma core_object:
  "map_of (wh_stateOf h) ws = Some i \<Longrightarrow>
     core h ws = (st_paired (object_of h i), st_username (object_of h i))"
  by (simp add: core_def socket_state_def)

lemma object_of_updates [simp]:
  "object_of (h\<lparr>wh_manager := cm, wh_stateOf := so\<rparr>) i = object_of h i"
  by (simp add: object_of_def)

lemma manager_update [simp]:
  "wh_wf (h\<lparr>wh_manager := cm\<rparr>) = wh_wf h" "core (h\<lparr>wh_manager := cm\<rparr>) ws = core h ws"
  by (simp_all add: wh_wf_def core_def socket_state_def split: option.split)


section \<open>Agreement with the manager\<close>

text \<open>What a manager call may leave of the pairs and the active servers.\<close>

definition shrinks :: "ConnectionManager \<Rightarrow> ConnectionManager \<Rightarrow> bool" where
  "shrinks cm cm' =
     ((\<forall>k. isPaired cm' k \<longrightarrow> isPaired cm k) \<and>
      (\<forall>ws a. map_of (cm_activeServers cm') ws = Some a \<longrightarrow> map_of (cm_activeServers cm) ws = Some a))"

lemma shrinks_refl [simp]: "shrinks cm cm"
  by (simp add: shrinks_def)

lemma shrinks_forget: "shrinks cm (forget_pair cm pid p)"
  by (simp add: shrinks_def forget_pair_def isPaired_def map_of_delete)

lemma shrinks_timer: "shrinks cm (clearFirstMessageTimer cm pid p)"
  by (simp add: shrinks_def clearFirstMessageTimer_def isPaired_def split: option.split)

lemma shrinks_handlers:
  "shrinks cm (snd (forward cm s d b))" "shrinks cm (snd (fire_first_message_timer cm i))"
  by (rule handlers_keep [of "shrinks cm"]; simp add: shrinks_forget shrinks_timer)+

lemma shrinks_handleClose: "cm_keys cm \<Longrightarrow> shrinks cm (snd (snd (handleClose cm ws u)))"
  by (rule handleClose_keeps [of "shrinks cm"])
    (simp_all add: shrinks_forget, simp add: shrinks_def isPaired_def map_of_delete)

definition wh_inv :: "registry \<Rightarrow> int \<Rightarrow> WsHandler \<Rightarrow> bool" where
  "wh_inv reg t h =
     (wh_wf h \<and> (\<exists>ops. reached reg t ops (wh_manager h)) \<and>
      (\<forall>ws. isPaired (wh_manager h) ws \<longrightarrow> fst (core h ws)) \<and>
      (\<forall>ws a. map_of (cm_activeServers (wh_manager h)) ws = Some a \<longrightarrow>
         snd (core h ws) = Some (as_username a)))"

lemma wh_inv_same_core: "wh_inv reg t h \<Longrightarrow> same_core h h' \<Longrightarrow> wh_inv reg t h'"
  unfolding wh_inv_def using same_core_core [of h h'] by simp

lemma wh_inv_shrinks:
  assumes "wh_inv reg t h" and "shrinks (wh_manager h) (cm_step (wh_manager h) x)"
    and "cm_ok (wh_manager h) x"
  shows "wh_inv reg t (h\<lparr>wh_manager := cm_step (wh_manager h) x\<rparr>)"
  using assms reached_step unfolding wh_inv_def shrinks_def by fastforce

lemma getState_inv:
  assumes "wh_inv reg t h" and "getState h ws = (i, h')"
  shows "wh_inv reg t h'"
  using assms getState_facts [OF _ assms(2)] unfolding wh_inv_def by auto

text \<open>The requests a socket may send, and the assumption on servers: one that waits sends no other.\<close>

definition is_request :: "json \<Rightarrow> bool" where
  "is_request msg =
     (isRelayServerRegister msg \<or> isRelayServerChannelRegister msg \<or>
      isRelayClientConnect msg \<or> isRelayClientChannelConnect msg)"

fun ws_ok :: "(bytes \<Rightarrow> json option) \<Rightarrow> WsHandler \<Rightarrow> ws_event \<Rightarrow> bool" where
  "ws_ok parse h (Message now ws data b) =
     (isWaitingWs (wh_manager h) ws \<and> \<not> b \<longrightarrow>
        (case parse (rawDataToBuffer data) of Some msg \<Rightarrow> \<not> is_request msg | None \<Rightarrow> True))"
| "ws_ok parse h _ = True"

lemma handle_register_inv:
  assumes inv: "wh_inv reg t h" and i: "map_of (wh_stateOf h) ws = Some i"
    and idle: "idle_socket (wh_manager h) ws"
  shows "wh_inv reg t (snd (handle_register h now ws i msg))"
proof -
  let ?u = "field msg ''username''" and ?md = "metadata_of msg"
    and ?in = "field msg ''installId''"
    and ?ch = "if isRelayServerChannelRegister msg then SPEECH_RELAY_CHANNEL else DEFAULT_RELAY_CHANNEL"
  let ?cm = "snd (snd (registerServer (wh_manager h) now ws ?u ?in ?md ?ch))"
  let ?x = "OpRegister now ws ?u ?in ?md ?ch"
  have wf: "wh_wf h" using inv by (simp add: wh_inv_def)
  obtain ops where ops: "reached reg t ops (wh_manager h)" using inv by (auto simp: wh_inv_def)
  have ops': "reached reg t (ops @ [?x]) ?cm"
    using reached_step [OF ops, of ?x] idle by simp
  show ?thesis
  proof (cases rule: registerServer_cases [of "wh_manager h" now ws ?u ?in ?md ?ch])
    case refused
    then show ?thesis
      using inv by (cases "registerServer (wh_manager h) now ws ?u ?in ?md ?ch")
        (auto simp: handle_register_def Let_def)
  next
    case (registered A effs)
    let ?h = "h\<lparr>wh_manager := ?cm\<rparr>"
    let ?h' = "set_object i ((object_of ?h i)\<lparr>st_username := Some ?u, st_channel := Some ?ch,
      st_isServer := Some True\<rparr>) ?h"
    have core': "core ?h' ws' = (if ws' = ws then (fst (core h ws), Some ?u) else core h ws')" for ws'
      using set_object_core(1) [of ?h ws i] wf i core_object [OF i] by simp
    have act: "map_of (cm_activeServers ?cm) ws' = Some a \<Longrightarrow>
        (if ws' = ws then as_username a = ?u else map_of (cm_activeServers (wh_manager h)) ws' = Some a)"
      for ws' a
      using registered(3,4)
      by (auto simp: map_of_update map_of_delete new_active_def split: if_splits option.splits)
    have "isPaired ?cm ws' = isPaired (wh_manager h) ws'" for ws'
      using registered(3) by (simp add: isPaired_def)
    then have "wh_inv reg t ?h'"
      using inv ops' act set_object_core(2) [of ?h ws i] wf i
      unfolding wh_inv_def core' by (auto split: if_splits)
    moreover have "snd (handle_register h now ws i msg) = startPingInterval ?h' ws i"
      using registered(3) by (simp add: handle_register_def Let_def)
    ultimately show ?thesis by (simp add: wh_inv_same_core)
  qed
qed


lemma handle_connect_inv:
  assumes inv: "wh_inv reg t h" and i: "map_of (wh_stateOf h) ws = Some i"
    and idle: "idle_socket (wh_manager h) ws"
  shows "wh_inv reg t (snd (handle_connect h now ws i msg))"
proof -
  let ?u = "field msg ''username''"
    and ?ch = "if isRelayClientChannelConnect msg then SPEECH_RELAY_CHANNEL else DEFAULT_RELAY_CHANNEL"
  let ?cm = "snd (connectClientEndpoint (wh_manager h) now ws ?u ?ch)" and ?x = "OpConnect now ws ?u ?ch"
  have wf: "wh_wf h" using inv by (simp add: wh_inv_def)
  obtain ops where ops: "reached reg t ops (wh_manager h)" using inv by (auto simp: wh_inv_def)
  have ops': "reached reg t (ops @ [?x]) ?cm"
    using reached_step [OF ops, of ?x] idle by simp
  have strong: "cm_strong (wh_manager h)" by (rule reached_strong [OF ops])
  show ?thesis
  proof (cases rule: connectClientEndpoint_cases [of "wh_manager h" now ws ?u ?ch])
    case refused
    then show ?thesis
      using inv by (cases "connectClientEndpoint (wh_manager h) now ws ?u ?ch")
        (auto simp: handle_connect_def Let_def split: ConnectionResult.split)
  next
    case (connected s)
    have "s \<noteq> ws"
      using connected(2) idle idle_socket_iff [OF strong_keys [OF strong], of ws] by auto
    have inactive: "map_of (cm_activeServers (wh_manager h)) ws = None"
      using idle idle_socket_iff [OF strong_keys [OF strong], of ws]
        strong_idle_inactive [OF strong_linksD [OF strong], of ws] by blast
    let ?h = "h\<lparr>wh_manager := ?cm\<rparr>"
    define h1 where "h1 = set_object i ((object_of ?h i)\<lparr>st_username := Some ?u,
      st_channel := Some ?ch, st_isServer := Some False, st_paired := True\<rparr>) ?h"
    have core1: "core h1 ws' = (if ws' = ws then (True, Some ?u) else core h ws')" for ws'
      using set_object_core(1) [of ?h ws i] wf i by (simp add: h1_def)
    have wf1: "wh_wf h1" using set_object_core(2) [of ?h ws i] wf i by (simp add: h1_def)
    obtain j h2 where h2: "getState h1 s = (j, h2)" by (cases "getState h1 s")
    note g = getState_facts [OF wf1 h2]
    define h3 where "h3 = set_object j ((object_of h2 j)\<lparr>st_paired := True, st_channel := Some ?ch\<rparr>) h2"
    have core3: "core h3 ws' = (if ws' = s then (True, snd (core h1 s)) else core h1 ws')" for ws'
      using set_object_core(1) [OF g(1,3)] core_object [OF g(3)] g(5) by (simp add: h3_def)
    have wf3: "wh_wf h3" using set_object_core(2) [OF g(1,3)] by (simp add: h3_def)
    have m3: "wh_manager h3 = ?cm" by (simp add: h3_def g(2) h1_def)
    have act: "\<exists>b. map_of (cm_activeServers (wh_manager h)) ws' = Some b \<and> as_username b = as_username a"
      if "map_of (cm_activeServers ?cm) ws' = Some a" for ws' a
      using that connected(3) by (auto simp: map_of_update split: if_splits option.splits)
    have pair: "isPaired ?cm ws' \<longleftrightarrow> ws' = ws \<or> ws' = s \<or> isPaired (wh_manager h) ws'" for ws'
      using connected(3) by (auto simp: isPaired_def map_of_update)
    have "wh_inv reg t h3"
      using inv ops' wf3 act pair inactive \<open>s \<noteq> ws\<close>
      unfolding wh_inv_def core3 core1 m3 by fastforce
    moreover have "snd (handle_connect h now ws i msg) = stopPingInterval h3 j"
      using connected(3) h2 by (simp add: handle_connect_def Let_def h1_def h3_def)
    ultimately show ?thesis by (simp add: wh_inv_same_core)
  qed
qed

lemma onMessage_inv:
  assumes inv: "wh_inv reg t h" and ok: "ws_ok parse h (Message now ws data b)"
  shows "wh_inv reg t (snd (onMessage parse h now ws data b))"
proof -
  obtain i h' where g: "getState h ws = (i, h')" by (cases "getState h ws")
  have wf: "wh_wf h" using inv by (simp add: wh_inv_def)
  note f = getState_facts [OF wf g]
  have inv': "wh_inv reg t h'" by (rule getState_inv [OF inv g])
  show ?thesis
  proof (cases "st_paired (object_of h' i)")
    case True
    have "wh_inv reg t (h'\<lparr>wh_manager := cm_step (wh_manager h') (OpForward ws (rawDataToBuffer data) b)\<rparr>)"
      by (rule wh_inv_shrinks [OF inv']) (simp_all add: shrinks_handlers)
    then show ?thesis using True g by (auto simp: onMessage_def Let_def split: prod.splits)
  next
    case False
    then have "\<not> isPaired (wh_manager h') ws"
      using inv' core_object [OF f(3)] by (auto simp: wh_inv_def)
    then have idle: "idle_socket (wh_manager h') ws" if "\<not> isWaitingWs (wh_manager h) ws"
      using that f(2) by (simp add: idle_socket_def)
    show ?thesis
    proof (cases "b \<or> parse (rawDataToBuffer data) = None \<or>
        \<not> is_request (the (parse (rawDataToBuffer data)))")
      case True
      then show ?thesis
        using False g inv' by (auto simp: onMessage_def Let_def is_request_def split: option.split)
    next
      case request: False
      then obtain msg where msg: "parse (rawDataToBuffer data) = Some msg" "is_request msg" by auto
      then have "\<not> isWaitingWs (wh_manager h) ws" using ok request by auto
      then show ?thesis
        using False g msg request idle handle_register_inv [OF inv' f(3)] handle_connect_inv [OF inv' f(3)]
        by (auto simp: onMessage_def Let_def is_request_def)
    qed
  qed
qed

lemma wh_inv_forget:
  assumes inv: "wh_inv reg t h" and "wh_wf h'" and m: "wh_manager h' = wh_manager h"
    and core: "\<And>ws'. ws' \<noteq> ws \<Longrightarrow> core h' ws' = core h ws'"
    and gone: "\<not> isPaired (wh_manager h) ws" "map_of (cm_activeServers (wh_manager h)) ws = None"
  shows "wh_inv reg t h'"
proof -
  have "fst (core h' ws')" if "isPaired (wh_manager h) ws'" for ws'
  proof -
    have "ws' \<noteq> ws" using that gone(1) by auto
    then show ?thesis using inv that core [of ws'] by (simp add: wh_inv_def)
  qed
  moreover have "snd (core h' ws') = Some (as_username a)"
    if "map_of (cm_activeServers (wh_manager h)) ws' = Some a" for ws' a
  proof -
    have "ws' \<noteq> ws" using that gone(2) by auto
    with inv that core [of ws'] show ?thesis unfolding wh_inv_def by metis
  qed
  ultimately show ?thesis using inv assms(2) unfolding wh_inv_def m by blast
qed

lemma onClose_inv:
  assumes inv: "wh_inv reg t h"
  shows "wh_inv reg t (snd (onClose h ws code reason))"
proof -
  obtain i h1 where g: "getState h ws = (i, h1)" by (cases "getState h ws")
  have wf: "wh_wf h" using inv by (simp add: wh_inv_def)
  define h2 where "h2 = stopPingInterval h1 i"
  have same: "same_core h1 h2" by (simp add: h2_def)
  have inv2: "wh_inv reg t h2"
    unfolding h2_def by (rule wh_inv_same_core [OF getState_inv [OF inv g]]) simp
  have i: "map_of (wh_stateOf h2) ws = Some i"
    using getState_facts(3) [OF wf g] same by (simp add: same_core_def)
  let ?u = "st_username (object_of h2 i)"
  let ?cm = "snd (snd (handleClose (wh_manager h2) ws ?u))"
  have ok: "cm_ok (wh_manager h2) (OpClose ws ?u)"
  proof (cases "map_of (cm_activeServers (wh_manager h2)) ws")
    case (Some a)
    then have "snd (core h2 ws) = Some (as_username a)" using inv2 unfolding wh_inv_def by blast
    with Some show ?thesis using core_object [OF i] by simp
  qed simp
  obtain ops where "reached reg t ops (wh_manager h2)" using inv2 by (auto simp: wh_inv_def)
  then have strong: "cm_strong (wh_manager h2)" by (rule reached_strong)
  have inv3: "wh_inv reg t (h2\<lparr>wh_manager := ?cm\<rparr>)"
    using wh_inv_shrinks [OF inv2, of "OpClose ws ?u"] ok shrinks_handleClose [OF strong_keys [OF strong]]
    by simp
  have gone: "\<not> isPaired ?cm ws" "map_of (cm_activeServers ?cm) ws = None"
    using close_forgets [OF strong ok] by (auto simp: Let_def idle_socket_def split: prod.splits)
  let ?h = "h2\<lparr>wh_manager := ?cm, wh_stateOf := AList.delete ws (wh_stateOf h2)\<rparr>"
  have "core ?h ws' = core h2 ws'" if "ws' \<noteq> ws" for ws'
    using that by (simp add: core_def socket_state_def map_of_delete split: option.split)
  moreover have "wh_wf ?h"
    using inv2 by (auto simp: wh_inv_def wh_wf_def map_of_delete)
  ultimately have "wh_inv reg t ?h"
    by (intro wh_inv_forget [OF inv3, where ws = ws]) (use gone in simp_all)
  moreover have "snd (onClose h ws code reason) = ?h"
    using g by (auto simp: onClose_def Let_def h2_def split: prod.splits)
  ultimately show ?thesis by simp
qed

lemma ws_step_inv:
  assumes "wh_inv reg t h" and "ws_ok parse h e"
  shows "wh_inv reg t (ws_step parse h e)"
proof (cases e)
  case (Message now ws data b)
  then show ?thesis using onMessage_inv assms by simp
next
  case (Pong now ws)
  obtain i h1 where g: "getState h ws = (i, h1)" by (cases "getState h ws")
  then show ?thesis
    using Pong wh_inv_same_core [OF getState_inv [OF assms(1) g]] by (simp add: onPong_def)
next
  case (FirstMessageTimer pid)
  then show ?thesis
    using wh_inv_shrinks [OF assms(1), of "OpTimer pid"] by (simp add: shrinks_handlers)
qed (use assms onClose_inv wh_inv_same_core [OF assms(1)] in simp_all)

lemma wh_inv_init: "wh_inv reg t (createWsHandler (newConnectionManager reg t))"
proof -
  have "reached reg t [] (newConnectionManager reg t)" by (simp add: reached_def)
  then show ?thesis
    by (auto simp: wh_inv_def createWsHandler_def wh_wf_def isPaired_def newConnectionManager_def
        intro!: exI [of _ "[]"])
qed

interpretation direct_relay: invariant_machine "ws_step parse" "ws_ok parse"
  "createWsHandler (newConnectionManager reg t)" "wh_inv reg t" for parse reg t
  by unfold_locales (auto simp: wh_inv_init ws_step_inv)

section \<open>Properties\<close>

text \<open>
  Transparency. Over any history of a relay in which a waiting server sends no second request,
  whatever a paired socket sends is passed on unchanged, to its peer only, with its frame type,
  even if it looks like a request to the relay.
\<close>
theorem paired_messages_forwarded:
  assumes "permitted (ws_step parse) (ws_ok parse) (createWsHandler (newConnectionManager reg t)) evs"
    and "h = foldl (ws_step parse) (createWsHandler (newConnectionManager reg t)) evs"
    and "isPaired (wh_manager h) ws"
  shows "\<exists>pid p. lookup_pair (wh_manager h) ws = Some (pid, p) \<and>
    fst (onMessage parse h now ws data b) =
      [Endpoint (if ws = pr_server p then ClientSend (pr_client p) (rawDataToBuffer data) b
                 else ServerSend (pr_server p) (rawDataToBuffer data) b)]"
proof -
  have inv: "wh_inv reg t h" using direct_relay.inv_run [OF assms(1)] assms(2) by simp
  obtain i h' where g: "getState h ws = (i, h')" by (cases "getState h ws")
  have wf: "wh_wf h" using inv by (simp add: wh_inv_def)
  note f = getState_facts [OF wf g]
  have "fst (core h ws)" using inv assms(3) unfolding wh_inv_def by blast
  then have paired: "st_paired (object_of h' i)"
    using f(5) [of ws] core_object [OF f(3)] by (metis fst_conv)
  obtain ops where "reached reg t ops (wh_manager h)" using inv by (auto simp: wh_inv_def)
  then have weak: "cm_weak (wh_manager h)" using reached_strong by (auto simp: cm_strong_def)
  then obtain pid p where l: "lookup_pair (wh_manager h) ws = Some (pid, p)"
    using assms(3) weak_lookup_None [OF weak, of ws] by (auto simp: isPaired_def)
  then show ?thesis
    using paired g f(2) by (auto simp: onMessage_def Let_def forward_def split: prod.splits)
qed

text \<open>A concrete relay: \<open>alice\<close>'s server on socket 1, a client on socket 2; one-byte frames.\<close>

fun sample_parse :: "bytes \<Rightarrow> json option" where
  "sample_parse [b] =
     (if b = 1 then Some (JObj [(''type'', JStr ''server_register''), (''username'', JStr ''alice''),
                                (''installId'', JStr ''i1'')])
      else if b = 2 then Some (JObj [(''type'', JStr ''client_connect''), (''username'', JStr ''alice'')])
      else None)"
| "sample_parse _ = None"

definition sample_events :: "ws_event list" where
  "sample_events = [Message 10 1 (Buffer [1]) False, Tick 1, Pong 11 1, Message 12 2 (Buffer [2]) False]"

definition sample_relay :: WsHandler where
  "sample_relay = foldl (ws_step sample_parse) (createWsHandler (newConnectionManager [] 5000)) sample_events"

lemma sample_permitted:
  "permitted (ws_step sample_parse) (ws_ok sample_parse) (createWsHandler (newConnectionManager [] 5000))
     sample_events"
  by code_simp

lemma paired_messages_forwarded_witness:
  "fst (onMessage sample_parse sample_relay 20 2 (Buffers [[1], [2]]) True) = [Endpoint (ServerSend 1 [1, 2] True)]"
proof -
  have "isPaired (wh_manager sample_relay) 2" by code_simp
  from paired_messages_forwarded [OF sample_permitted sample_relay_def this,
      of 20 "Buffers [[1], [2]]" True]
  obtain pid p where p: "lookup_pair (wh_manager sample_relay) 2 = Some (pid, p)"
    "fst (onMessage sample_parse sample_relay 20 2 (Buffers [[1], [2]]) True) =
      [Endpoint (if 2 = pr_server p then ClientSend (pr_client p) [1, 2] True
                 else ServerSend (pr_server p) [1, 2] True)]"
    by auto
  have "map_option (\<lambda>(_, p). (pr_server p, pr_client p)) (lookup_pair (wh_manager sample_relay) 2) = Some (1, 2)"
    by code_simp
  with p show ?thesis by simp
qed

text \<open>
  C5 Over any history of socket events in which no server that waits sends another request, once a
  socket has closed, neither the handler nor the manager knows it any more, and the books of the
  manager still balance. (Without that scope the claim is false: a server that registers twice
  leaves an entry behind, see \<open>ConnectionLaws\<close>.)
\<close>
theorem closed_socket_forgotten:
  assumes "permitted (ws_step parse) (ws_ok parse) (createWsHandler (newConnectionManager reg t)) evs"
    and "h = foldl (ws_step parse) (createWsHandler (newConnectionManager reg t)) evs"
    and "h' = snd (onClose h ws code reason)"
  shows "map_of (wh_stateOf h') ws = None \<and> idle_socket (wh_manager h') ws \<and>
    map_of (cm_activeServers (wh_manager h')) ws = None \<and> cm_strong (wh_manager h')"
proof -
  have inv: "wh_inv reg t h" using direct_relay.inv_run [OF assms(1)] assms(2) by simp
  have inv': "wh_inv reg t h'" unfolding assms(3) by (rule onClose_inv [OF inv])
  then obtain ops where ops: "reached reg t ops (wh_manager h')" by (auto simp: wh_inv_def)
  have gone: "map_of (wh_stateOf h') ws = None"
    unfolding assms(3) onClose_def by (auto simp: Let_def map_of_delete split: prod.splits)
  then have core: "core h' ws = (False, None)"
    by (simp add: core_def socket_state_def newConnectionState_def)
  have strong: "cm_strong (wh_manager h')" by (rule reached_strong [OF ops])
  have free: "\<not> isPaired (wh_manager h') ws" "map_of (cm_activeServers (wh_manager h')) ws = None"
    using inv' core unfolding wh_inv_def by (auto dest: spec [of _ ws])
  moreover have "map_of (cm_waiting (wh_manager h')) key \<noteq> Some ws" for key
    using strong_waitD(2) [OF strong_linksD [OF strong]] free(2) by fastforce
  ultimately have "idle_socket (wh_manager h') ws"
    unfolding idle_socket_iff [OF strong_keys [OF strong]] by (simp add: isPaired_def)
  with gone free strong show ?thesis by simp
qed

lemma closed_socket_forgotten_witness:
  "idle_socket (wh_manager (snd (onClose sample_relay 1 1006 ''gone''))) 1"
  using closed_socket_forgotten [OF sample_permitted sample_relay_def refl] by blast

text \<open>
  Every request is answered once, in the protocol's own terms: a socket that is not yet paired
  and sends a registration gets one \<open>server_registered\<close> or \<open>server_rejected\<close>, a connect request one
  \<open>client_connected\<close> or \<open>client_error\<close>, and the socket is closed exactly when the answer is a
  refusal.
\<close>
theorem requests_answered:
  assumes "\<not> st_paired (socket_state h ws)" and "parse (rawDataToBuffer data) = Some msg"
    and "is_request msg"
  shows "\<exists>reply. filter (\<lambda>e. case e of SendJson _ _ \<Rightarrow> True | _ \<Rightarrow> False)
        (fst (onMessage parse h now ws data False)) = [SendJson ws reply] \<and>
    (if isRelayServerRegister msg \<or> isRelayServerChannelRegister msg
     then isRelayServerRegistered reply \<noteq> isRelayServerRejected reply
     else isRelayClientConnected reply \<noteq> isRelayClientError reply) \<and>
    ((\<exists>code why. CloseSocket ws code why \<in> set (fst (onMessage parse h now ws data False))) \<longleftrightarrow>
       isRelayServerRejected reply \<or> isRelayClientError reply)"
proof -
  obtain i h' where g: "getState h ws = (i, h')" by (cases "getState h ws")
  have o: "object_of h' i = socket_state h ws"
    using g by (auto simp: getState_def socket_state_def split: option.splits)
  note guards = isRelayServerRegistered_def isRelayServerRejected_def isRelayClientConnected_def
    isRelayClientError_def
  have no_close: "filter (\<lambda>e. case e of SendJson _ _ \<Rightarrow> True | _ \<Rightarrow> False) (map Endpoint effs) = []"
    "CloseSocket ws c why \<notin> set (map Endpoint effs)" for effs c why
    by (induction effs) auto
  show ?thesis
  proof (cases "isRelayServerRegister msg \<or> isRelayServerChannelRegister msg")
    case True
    obtain r effs cm where r: "registerServer (wh_manager h') now ws (field msg ''username'')
        (field msg ''installId'') (metadata_of msg) (if isRelayServerChannelRegister msg
          then SPEECH_RELAY_CHANNEL else DEFAULT_RELAY_CHANNEL) = (r, effs, cm)"
      by (metis prod_cases3)
    have "onMessage parse h now ws data False = handle_register h' now ws i msg"
      using assms True g o by (simp add: onMessage_def Let_def)
    then show ?thesis
      using True r no_close by (cases r) (auto simp: handle_register_def Let_def guards)
  next
    case False
    then have c: "onMessage parse h now ws data False = handle_connect h' now ws i msg"
      using assms g o by (simp add: onMessage_def Let_def is_request_def)
    obtain r cm where r: "connectClientEndpoint (wh_manager h') now ws (field msg ''username'')
        (if isRelayClientChannelConnect msg then SPEECH_RELAY_CHANNEL else DEFAULT_RELAY_CHANNEL) = (r, cm)"
      by (cases "connectClientEndpoint (wh_manager h') now ws (field msg ''username'')
        (if isRelayClientChannelConnect msg then SPEECH_RELAY_CHANNEL else DEFAULT_RELAY_CHANNEL)")
    show ?thesis
      unfolding c using False r
      by (cases r) (auto simp: handle_connect_def Let_def guards split: prod.split)
  qed
qed

lemma requests_answered_witness:
  "\<exists>reply. isRelayServerRegistered reply \<noteq> isRelayServerRejected reply"
proof -
  let ?msg = "JObj [(''type'', JStr ''server_register''), (''username'', JStr ''alice''),
    (''installId'', JStr ''i1'')]"
  have "\<not> st_paired (socket_state (createWsHandler (newConnectionManager [] 0)) 1)" by code_simp
  moreover have "sample_parse (rawDataToBuffer (Buffer [1])) = Some ?msg" by simp
  moreover have "is_request ?msg" and "isRelayServerRegister ?msg" by code_simp+
  ultimately show ?thesis
    using requests_answered [of "createWsHandler (newConnectionManager [] 0)" 1 sample_parse "Buffer [1]" ?msg 5]
    by auto
qed

end
