(* ===== verification/MuxHandler.thy ===== *)
theory MuxHandler
  imports WsHandlerLaws RelayMux
begin

text \<open>
  The handler of multiplexed client sockets, \<open>packages/relay/src/mux-handler.ts\<close>: many logical
  circuits share one physical socket, each circuit is a client endpoint of the connection manager,
  frames from servers are queued per circuit and drained round robin, and the coordinator counts
  circuits and open attempts.

  A session is known by its physical socket. The endpoint callbacks the manager calls (\<open>send\<close>,
  \<open>close\<close>) are the last thing each of its operations does, so they run here on the effects the
  operation returns (\<open>deliver\<close>). The state of the physical socket that the code reads is part of the
  session: whether it is open, and whether a send throws; \<open>bufferedAmount\<close>, read before each send of
  a drain, is the parameter \<open>buffered\<close>. Timers are the flags of the armed ones.
\<close>

section \<open>State\<close>

definition POLICY_CLOSE_CODE :: nat where "POLICY_CLOSE_CODE = 1008"
definition NORMAL_CLOSE_CODE :: nat where "NORMAL_CLOSE_CODE = 1000"
definition RATE_WINDOW_MS :: int where "RATE_WINDOW_MS = 60000"
definition MAX_INVALID_MESSAGES :: nat where "MAX_INVALID_MESSAGES = 3"

record MuxCircuit =
  mc_endpoint :: ident
  mc_id :: js_number
  mc_queuedBytes :: int
  mc_queue :: "bytes list"
  mc_username :: string

record MuxConfig =
  cfg_muxMaxCircuitsPerSocket :: int
  cfg_muxMaxCircuitsPerIp :: int
  cfg_muxOpenAttemptsPerMinutePerSocket :: int
  cfg_muxOpenAttemptsPerMinutePerIp :: int
  cfg_muxOpenAttemptsPerMinutePerIpUsername :: int
  cfg_muxMaxFrameBytes :: int
  cfg_muxMaxQueuedBytesPerCircuit :: int
  cfg_muxMaxQueuedBytesPerSocket :: int
  cfg_muxBufferedAmountHighWaterBytes :: int

record RelayMuxSession =
  ss_clientIp :: string
  ss_openAttempts :: "int list"
  ss_circuits :: "(js_number \<times> MuxCircuit) list"
  ss_circuitOrder :: "js_number list"
  ss_drainCursor :: nat
  ss_queuedBytes :: int
  ss_invalidMessages :: nat
  ss_idleTimer :: bool
  ss_drainImmediate :: bool
  ss_drainTimer :: bool
  ss_closed :: bool
  ss_protocolAccepted :: bool
  ss_open :: bool
  ss_sendThrows :: bool

text \<open>
  \<open>mx_endpoints\<close> are the closures handed to the connection manager: endpoint key to session and
  circuit id.
\<close>

record RelayMuxCoordinator =
  mx_config :: MuxConfig
  mx_manager :: ConnectionManager
  mx_sessions :: "(ident \<times> RelayMuxSession) list"
  mx_endpoints :: "(ident \<times> ident \<times> js_number) list"
  mx_circuitsByIp :: "(string \<times> int) list"
  mx_ipAttempts :: "(string \<times> int list) list"
  mx_ipUsernameAttempts :: "(string \<times> int list) list"
  mx_openedTotal :: nat
  mx_errorsByReason :: "RelayMuxErrorReason \<Rightarrow> nat"
  mx_closedByReason :: "RelayMuxClosedReason \<Rightarrow> nat"

datatype mux_event =
    MuxSocketOpened string
  | MuxSocketClosed string nat string
  | MuxCircuitOpened string js_number string
  | MuxCircuitClosed string js_number string RelayMuxClosedReason
  | MuxCircuitError string js_number "string option" RelayMuxErrorReason

datatype mux_effect =
    ToEndpoint effect
  | SendControl ident json
  | SendFrame ident bytes
  | CloseMux ident nat string
  | MuxProtocolAccepted ident
  | ServerClaimed ident
  | MuxRecord mux_event
  | RelayRecord telemetry_event

definition createMuxHandler :: "MuxConfig \<Rightarrow> ConnectionManager \<Rightarrow> RelayMuxCoordinator" where
  "createMuxHandler cfg cm =
     \<lparr>mx_config = cfg, mx_manager = cm, mx_sessions = [], mx_endpoints = [], mx_circuitsByIp = [],
      mx_ipAttempts = [], mx_ipUsernameAttempts = [], mx_openedTotal = 0,
      mx_errorsByReason = (\<lambda>_. 0), mx_closedByReason = (\<lambda>_. 0)\<rparr>"

fun error_reason :: "RelayMuxErrorReason \<Rightarrow> string" where
  "error_reason mux_unknown_username = ''unknown_username''"
| "error_reason mux_server_offline = ''server_offline''"
| "error_reason circuit_limit = ''circuit_limit''"
| "error_reason rate_limited = ''rate_limited''"
| "error_reason invalid_request = ''invalid_request''"

fun closed_reason :: "RelayMuxClosedReason \<Rightarrow> string" where
  "closed_reason client_closed = ''client_closed''"
| "closed_reason server_closed = ''server_closed''"
| "closed_reason relay_closed = ''relay_closed''"

definition session_of :: "RelayMuxCoordinator \<Rightarrow> ident \<Rightarrow> RelayMuxSession option" where
  "session_of mx ws = map_of (mx_sessions mx) ws"

definition set_session :: "ident \<Rightarrow> RelayMuxSession \<Rightarrow> RelayMuxCoordinator \<Rightarrow> RelayMuxCoordinator" where
  "set_session ws s mx = mx\<lparr>mx_sessions := AList.update ws s (mx_sessions mx)\<rparr>"

section \<open>Sending\<close>

definition sendControl ::
  "ident \<Rightarrow> json \<Rightarrow> RelayMuxSession \<Rightarrow> mux_effect list \<times> RelayMuxSession" where
  "sendControl ws message s =
     (if ss_closed s \<or> \<not> ss_open s then ([], s)
      else if ss_sendThrows s then
        ([CloseMux ws POLICY_CLOSE_CODE ''Mux control send failed''], s\<lparr>ss_open := False\<rparr>)
      else ([SendControl ws message], s))"

definition mux_ready :: "MuxConfig \<Rightarrow> json" where
  "mux_ready cfg = JObj
     [(''type'', JStr ''mux_ready''),
      (''protocolVersion'', JNum (js_nat RELAY_MUX_PROTOCOL_VERSION)),
      (''maxCircuits'', JNum (Num (of_int (cfg_muxMaxCircuitsPerSocket cfg)))),
      (''maxFrameBytes'', JNum (Num (of_int (cfg_muxMaxFrameBytes cfg))))]"

definition mux_opened :: "js_number \<Rightarrow> json" where
  "mux_opened circuitId = JObj [(''type'', JStr ''mux_opened''), (''circuitId'', JNum circuitId)]"

definition mux_error :: "js_number \<Rightarrow> RelayMuxErrorReason \<Rightarrow> json" where
  "mux_error circuitId reason = JObj
     [(''type'', JStr ''mux_error''), (''circuitId'', JNum circuitId),
      (''reason'', JStr (error_reason reason))]"

definition mux_closed :: "js_number \<Rightarrow> RelayMuxClosedReason \<Rightarrow> json" where
  "mux_closed circuitId reason = JObj
     [(''type'', JStr ''mux_closed''), (''circuitId'', JNum circuitId),
      (''reason'', JStr (closed_reason reason))]"

definition recordInvalid :: "ident \<Rightarrow> RelayMuxSession \<Rightarrow> mux_effect list \<times> RelayMuxSession" where
  "recordInvalid ws s =
     (let n = ss_invalidMessages s + 1; s = s\<lparr>ss_invalidMessages := n\<rparr> in
      if n \<ge> MAX_INVALID_MESSAGES
      then ([CloseMux ws POLICY_CLOSE_CODE ''Repeated invalid mux messages''], s\<lparr>ss_open := False\<rparr>)
      else ([], s))"

definition sendError ::
  "ident \<Rightarrow> RelayMuxSession \<Rightarrow> js_number \<Rightarrow> RelayMuxErrorReason \<Rightarrow> string option \<Rightarrow>
    RelayMuxCoordinator \<Rightarrow> mux_effect list \<times> RelayMuxCoordinator" where
  "sendError ws s circuitId reason username mx =
     (let mx = mx\<lparr>mx_errorsByReason :=
                 (mx_errorsByReason mx)(reason := mx_errorsByReason mx reason + 1)\<rparr>;
          (effs, s) = sendControl ws (mux_error circuitId reason) s
      in (effs @ [MuxRecord (MuxCircuitError (ss_clientIp s) circuitId username reason)] @
          (if reason = mux_server_offline \<or> reason = mux_unknown_username
           then [RelayRecord (EvClientConnectError
                   (case username of Some u \<Rightarrow> u | None \<Rightarrow> ''unknown'') (error_reason reason))]
           else []),
          set_session ws s mx))"

section \<open>The coordinator\<close>

definition prune_list :: "int \<Rightarrow> int list \<Rightarrow> int list" where
  "prune_list cutoff attempts = dropWhile (\<lambda>t. t \<le> cutoff) attempts"

definition prune_map :: "int \<Rightarrow> (string \<times> int list) list \<Rightarrow> (string \<times> int list) list" where
  "prune_map cutoff m =
     filter (\<lambda>(_, attempts). attempts \<noteq> []) (map (\<lambda>(k, attempts). (k, prune_list cutoff attempts)) m)"

definition pruneAttempts :: "int \<Rightarrow> RelayMuxCoordinator \<Rightarrow> RelayMuxCoordinator" where
  "pruneAttempts now mx =
     (let cutoff = now - RATE_WINDOW_MS in
      mx\<lparr>mx_ipAttempts := prune_map cutoff (mx_ipAttempts mx),
         mx_ipUsernameAttempts := prune_map cutoff (mx_ipUsernameAttempts mx),
         mx_sessions := map (\<lambda>(ws, s). (ws, s\<lparr>ss_openAttempts := prune_list cutoff (ss_openAttempts s)\<rparr>))
                          (mx_sessions mx)\<rparr>)"

definition getAttempts :: "(string \<times> int list) list \<Rightarrow> string \<Rightarrow> int list" where
  "getAttempts m key = (case map_of m key of Some attempts \<Rightarrow> attempts | None \<Rightarrow> [])"

text \<open>\<open>recordBoundedAttempt\<close> pushes the attempt and answers whether the limit is respected.\<close>

definition recordBoundedAttempt :: "int list \<Rightarrow> int \<Rightarrow> int \<Rightarrow> int list \<times> bool" where
  "recordBoundedAttempt attempts now limit =
     (let attempts = attempts @ [now] in (attempts, int (length attempts) \<le> limit))"

definition circuits_of_ip :: "RelayMuxCoordinator \<Rightarrow> string \<Rightarrow> int" where
  "circuits_of_ip mx ip = (case map_of (mx_circuitsByIp mx) ip of Some n \<Rightarrow> n | None \<Rightarrow> 0)"

definition canOpen ::
  "RelayMuxCoordinator \<Rightarrow> int \<Rightarrow> ident \<Rightarrow> string \<Rightarrow> RelayMuxErrorReason option \<times> RelayMuxCoordinator"
where
  "canOpen mx now ws username =
     (let mx = pruneAttempts now mx; cfg = mx_config mx in
      case session_of mx ws of
        None \<Rightarrow> (Some invalid_request, mx)
      | Some s \<Rightarrow>
        if int (length (ss_circuits s)) \<ge> cfg_muxMaxCircuitsPerSocket cfg then (Some circuit_limit, mx)
        else if circuits_of_ip mx (ss_clientIp s) \<ge> cfg_muxMaxCircuitsPerIp cfg
        then (Some circuit_limit, mx)
        else
          let (attempts, ok) =
                recordBoundedAttempt (ss_openAttempts s) now (cfg_muxOpenAttemptsPerMinutePerSocket cfg);
              mx = set_session ws (s\<lparr>ss_openAttempts := attempts\<rparr>) mx
          in if \<not> ok then (Some rate_limited, mx)
          else
            let ip = ss_clientIp s;
                (attempts, ok) =
                  recordBoundedAttempt (getAttempts (mx_ipAttempts mx) ip) now
                    (cfg_muxOpenAttemptsPerMinutePerIp cfg);
                mx = mx\<lparr>mx_ipAttempts := AList.update ip attempts (mx_ipAttempts mx)\<rparr>
            in if \<not> ok then (Some rate_limited, mx)
            else
              let key = ip @ [CHR 0x00] @ username;
                  (attempts, ok) =
                    recordBoundedAttempt (getAttempts (mx_ipUsernameAttempts mx) key) now
                      (cfg_muxOpenAttemptsPerMinutePerIpUsername cfg);
                  mx = mx\<lparr>mx_ipUsernameAttempts :=
                            AList.update key attempts (mx_ipUsernameAttempts mx)\<rparr>
              in (if \<not> ok then Some rate_limited else None, mx))"

definition circuitOpened :: "string \<Rightarrow> RelayMuxCoordinator \<Rightarrow> RelayMuxCoordinator" where
  "circuitOpened ip mx =
     mx\<lparr>mx_openedTotal := mx_openedTotal mx + 1,
        mx_circuitsByIp := AList.update ip (circuits_of_ip mx ip + 1) (mx_circuitsByIp mx)\<rparr>"

definition circuitClosed ::
  "string \<Rightarrow> RelayMuxClosedReason \<Rightarrow> RelayMuxCoordinator \<Rightarrow> RelayMuxCoordinator" where
  "circuitClosed ip reason mx =
     (let remaining = (case map_of (mx_circuitsByIp mx) ip of Some n \<Rightarrow> n | None \<Rightarrow> 1) - 1 in
      mx\<lparr>mx_closedByReason := (mx_closedByReason mx)(reason := mx_closedByReason mx reason + 1),
         mx_circuitsByIp := (if remaining > 0 then AList.update ip remaining (mx_circuitsByIp mx)
                             else AList.delete ip (mx_circuitsByIp mx))\<rparr>)"

record RelayMuxStatus =
  rs_physicalSockets :: nat
  rs_liveCircuits :: int
  rs_openedTotal :: nat
  rs_errorsByReason :: "RelayMuxErrorReason \<Rightarrow> nat"
  rs_closedByReason :: "RelayMuxClosedReason \<Rightarrow> nat"

definition getStatus :: "RelayMuxCoordinator \<Rightarrow> RelayMuxStatus" where
  "getStatus mx =
     \<lparr>rs_physicalSockets = length (mx_sessions mx),
      rs_liveCircuits = foldl (+) 0 (map snd (mx_circuitsByIp mx)),
      rs_openedTotal = mx_openedTotal mx, rs_errorsByReason = mx_errorsByReason mx,
      rs_closedByReason = mx_closedByReason mx\<rparr>"

section \<open>Circuits\<close>

definition clear_circuit :: "js_number \<Rightarrow> MuxCircuit \<Rightarrow> RelayMuxSession \<Rightarrow> RelayMuxSession" where
  "clear_circuit circuitId circuit s =
     s\<lparr>ss_circuits := AList.delete circuitId (ss_circuits s),
       ss_circuitOrder := filter (\<lambda>id. id \<noteq> circuitId) (ss_circuitOrder s),
       ss_queuedBytes := ss_queuedBytes s - mc_queuedBytes circuit\<rparr>"

definition closeCircuit ::
  "ident \<Rightarrow> js_number \<Rightarrow> RelayMuxClosedReason \<Rightarrow> bool \<Rightarrow> bool \<Rightarrow> RelayMuxCoordinator \<Rightarrow>
    mux_effect list \<times> RelayMuxCoordinator" where
  "closeCircuit ws circuitId reason notifyClient closeServer mx =
     (case session_of mx ws of
        None \<Rightarrow> ([], mx)
      | Some s \<Rightarrow>
        case map_of (ss_circuits s) circuitId of
          None \<Rightarrow> ([], mx)
        | Some circuit \<Rightarrow>
          let s = clear_circuit circuitId circuit s;
              (result, closing, cm) =
                (if closeServer then handleClientEndpointClose (mx_manager mx) (mc_endpoint circuit)
                 else (CloseNone, [], mx_manager mx));
              events = (case result of
                          PairDisconnected _ _ \<Rightarrow>
                            [RelayRecord (EvPairDisconnected (mc_username circuit) ByClient
                               NORMAL_CLOSE_CODE (closed_reason reason))]
                        | _ \<Rightarrow> []);
              (notice, s) =
                (if notifyClient \<and> \<not> ss_closed s then sendControl ws (mux_closed circuitId reason) s
                 else ([], s));
              s = (if ss_circuits s = [] \<and> \<not> ss_closed s then s\<lparr>ss_idleTimer := True\<rparr> else s)
          in (map ToEndpoint closing @ events @ notice @
              [MuxRecord (MuxCircuitClosed (ss_clientIp s) circuitId (mc_username circuit) reason)],
              set_session ws s
                (circuitClosed (ss_clientIp s) reason (mx\<lparr>mx_manager := cm\<rparr>))))"

definition scheduleDrain :: "bool \<Rightarrow> RelayMuxSession \<Rightarrow> RelayMuxSession" where
  "scheduleDrain delayed s =
     (if ss_closed s \<or> ss_drainImmediate s \<or> ss_drainTimer s then s
      else if delayed then s\<lparr>ss_drainTimer := True\<rparr> else s\<lparr>ss_drainImmediate := True\<rparr>)"

definition queueServerFrame ::
  "ident \<Rightarrow> js_number \<Rightarrow> bytes \<Rightarrow> bool \<Rightarrow> RelayMuxCoordinator \<Rightarrow>
    mux_effect list \<times> RelayMuxCoordinator" where
  "queueServerFrame ws circuitId data isBinary mx =
     (let cfg = mx_config mx in
      case session_of mx ws of
        None \<Rightarrow> ([], mx)
      | Some s \<Rightarrow>
        case map_of (ss_circuits s) circuitId of
          None \<Rightarrow> ([], mx)
        | Some circuit \<Rightarrow>
          if ss_closed s then ([], mx)
          else if int (length data) > cfg_muxMaxFrameBytes cfg
          then closeCircuit ws circuitId relay_closed True True mx
          else
            case encodeRelayMuxDataFrame circuitId data isBinary of
              Inl _ \<Rightarrow> ([], mx)
            | Inr encoded \<Rightarrow>
              let n = int (length encoded) in
              if mc_queuedBytes circuit + n > cfg_muxMaxQueuedBytesPerCircuit cfg \<or>
                 ss_queuedBytes s + n > cfg_muxMaxQueuedBytesPerSocket cfg
              then closeCircuit ws circuitId relay_closed True True mx
              else
                ([], set_session ws
                   (scheduleDrain False
                      (s\<lparr>ss_circuits := AList.update circuitId
                            (circuit\<lparr>mc_queue := mc_queue circuit @ [encoded],
                                     mc_queuedBytes := mc_queuedBytes circuit + n\<rparr>) (ss_circuits s),
                         ss_queuedBytes := ss_queuedBytes s + n\<rparr>)) mx))"

text \<open>
  What the manager tells an endpoint: for an endpoint of a circuit the closure runs, all else is
  an effect on a socket of its own.
\<close>

fun deliver :: "effect \<Rightarrow> RelayMuxCoordinator \<Rightarrow> mux_effect list \<times> RelayMuxCoordinator" where
  "deliver (ClientSend key data isBinary) mx =
     (case map_of (mx_endpoints mx) key of
        Some (ws, circuitId) \<Rightarrow> queueServerFrame ws circuitId data isBinary mx
      | None \<Rightarrow> ([ToEndpoint (ClientSend key data isBinary)], mx))"
| "deliver (ClientClose key code reason) mx =
     (case map_of (mx_endpoints mx) key of
        Some (ws, circuitId) \<Rightarrow> closeCircuit ws circuitId server_closed True False mx
      | None \<Rightarrow> ([ToEndpoint (ClientClose key code reason)], mx))"
| "deliver e mx = ([ToEndpoint e], mx)"

fun deliver_all :: "effect list \<Rightarrow> RelayMuxCoordinator \<Rightarrow> mux_effect list \<times> RelayMuxCoordinator" where
  "deliver_all [] mx = ([], mx)"
| "deliver_all (e # es) mx =
     (let (effs, mx) = deliver e mx; (effs', mx) = deliver_all es mx in (effs @ effs', mx))"

definition openCircuit ::
  "int \<Rightarrow> ident \<Rightarrow> ident \<Rightarrow> js_number \<Rightarrow> string \<Rightarrow> RelayChannel \<Rightarrow> RelayMuxCoordinator \<Rightarrow>
    mux_effect list \<times> RelayMuxCoordinator" where
  "openCircuit now ws endpointKey circuitId username channel mx =
     (case session_of mx ws of
        None \<Rightarrow> ([], mx)
      | Some s \<Rightarrow>
        if map_of (ss_circuits s) circuitId \<noteq> None
        then sendError ws s circuitId invalid_request (Some username) mx
        else
          let (refusal, mx) = canOpen mx now ws username;
              s = (case session_of mx ws of Some s \<Rightarrow> s | None \<Rightarrow> s)
          in case refusal of
            Some reason \<Rightarrow> sendError ws s circuitId reason (Some username) mx
          | None \<Rightarrow>
            let (result, cm) = connectClientEndpoint (mx_manager mx) now endpointKey username channel;
                mx = mx\<lparr>mx_manager := cm\<rparr>
            in case result of
              UnknownUsername \<Rightarrow> sendError ws s circuitId mux_unknown_username (Some username) mx
            | ServerOffline \<Rightarrow> sendError ws s circuitId mux_server_offline (Some username) mx
            | Connected serverWs server \<Rightarrow>
              let circuit = \<lparr>mc_endpoint = endpointKey, mc_id = circuitId, mc_queuedBytes = 0,
                             mc_queue = [], mc_username = username\<rparr>;
                  accepted = (if ss_protocolAccepted s then [] else [MuxProtocolAccepted ws]);
                  s = s\<lparr>ss_circuits := AList.update circuitId circuit (ss_circuits s),
                        ss_circuitOrder := ss_circuitOrder s @ [circuitId],
                        ss_idleTimer := False, ss_protocolAccepted := True\<rparr>;
                  mx = circuitOpened (ss_clientIp s)
                         (mx\<lparr>mx_endpoints := AList.update endpointKey (ws, circuitId) (mx_endpoints mx)\<rparr>);
                  (notice, s) = sendControl ws (mux_opened circuitId) s
              in ([ServerClaimed serverWs] @ accepted @ notice @
                  [RelayRecord (EvClientConnectSuccess username (map_option as_installId server)
                     (map_option as_metadata server)),
                   MuxRecord (MuxCircuitOpened (ss_clientIp s) circuitId username)],
                  set_session ws s mx))"

section \<open>Draining\<close>

text \<open>The first circuit with a queued frame, from the cursor on and around.\<close>

definition has_queued :: "RelayMuxSession \<Rightarrow> js_number \<Rightarrow> bool" where
  "has_queued s circuitId =
     (case map_of (ss_circuits s) circuitId of Some c \<Rightarrow> mc_queue c \<noteq> [] | None \<Rightarrow> False)"

definition nextQueuedCircuit :: "RelayMuxSession \<Rightarrow> js_number option \<times> RelayMuxSession" where
  "nextQueuedCircuit s =
     (let order = ss_circuitOrder s; n = length order in
      case List.find (\<lambda>offset. has_queued s (order ! ((ss_drainCursor s + offset) mod n))) [0..<n] of
        Some offset \<Rightarrow>
          (let index = (ss_drainCursor s + offset) mod n
           in (Some (order ! index), s\<lparr>ss_drainCursor := (index + 1) mod n\<rparr>))
      | None \<Rightarrow> (None, s))"

definition dequeue_frame :: "js_number \<Rightarrow> MuxCircuit \<Rightarrow> RelayMuxSession \<Rightarrow> RelayMuxSession" where
  "dequeue_frame circuitId circuit s =
     (let n = int (length (hd (mc_queue circuit))) in
      s\<lparr>ss_circuits := AList.update circuitId
           (circuit\<lparr>mc_queue := tl (mc_queue circuit), mc_queuedBytes := mc_queuedBytes circuit - n\<rparr>)
           (ss_circuits s),
        ss_queuedBytes := ss_queuedBytes s - n\<rparr>)"

definition queued_frames :: "RelayMuxSession \<Rightarrow> nat" where
  "queued_frames s = sum_list (map (\<lambda>(_, c). length (mc_queue c)) (ss_circuits s))"

lemma nextQueuedCircuit_Some:
  assumes "nextQueuedCircuit s = (Some circuitId, s')"
  shows "has_queued s circuitId" "circuitId \<in> set (ss_circuitOrder s)" "\<exists>k. s' = s\<lparr>ss_drainCursor := k\<rparr>"
proof -
  let ?o = "ss_circuitOrder s"
  obtain offset where o: "List.find (\<lambda>offset. has_queued s (?o ! ((ss_drainCursor s + offset) mod length ?o)))
      [0..<length ?o] = Some offset"
    and id: "circuitId = ?o ! ((ss_drainCursor s + offset) mod length ?o)"
    and s': "s' = s\<lparr>ss_drainCursor := ((ss_drainCursor s + offset) mod length ?o + 1) mod length ?o\<rparr>"
    using assms by (auto simp: nextQueuedCircuit_def Let_def split: option.splits)
  from o have "has_queued s (?o ! ((ss_drainCursor s + offset) mod length ?o))" and "offset < length ?o"
    by (auto simp: find_Some_iff)
  moreover from this have "?o ! ((ss_drainCursor s + offset) mod length ?o) \<in> set ?o"
    by (intro nth_mem mod_less_divisor) auto
  ultimately show "has_queued s circuitId" "circuitId \<in> set ?o" "\<exists>k. s' = s\<lparr>ss_drainCursor := k\<rparr>"
    using id s' by auto
qed

lemma dequeue_frame_decreases:
  assumes "map_of (ss_circuits s) circuitId = Some c" and "mc_queue c \<noteq> []"
  shows "queued_frames (dequeue_frame circuitId c s) < queued_frames s"
proof -
  let ?c = "c\<lparr>mc_queue := tl (mc_queue c),
    mc_queuedBytes := mc_queuedBytes c - int (length (hd (mc_queue c)))\<rparr>"
  have "queued_frames (dequeue_frame circuitId c s) + length (mc_queue c) =
      queued_frames s + length (mc_queue ?c)"
    using sum_list_AList_update [OF assms(1), of "\<lambda>c. length (mc_queue c)" ?c]
    by (simp only: queued_frames_def dequeue_frame_def Let_def) simp
  then show ?thesis using assms(2) by (cases "mc_queue c") auto
qed

lemma drain_step_decreases:
  assumes "(Some circuitId, s') = nextQueuedCircuit s"
    and "map_of (ss_circuits s') circuitId = Some c" and "mc_queue c \<noteq> []"
  shows "queued_frames (dequeue_frame circuitId c s') < queued_frames s"
proof -
  obtain k where "s' = s\<lparr>ss_drainCursor := k\<rparr>" using nextQueuedCircuit_Some(3) [OF assms(1) [symmetric]] by blast
  then have "queued_frames s' = queued_frames s" by (simp add: queued_frames_def)
  with dequeue_frame_decreases [OF assms(2,3)] show ?thesis by simp
qed

text \<open>
  The loop of \<open>drain\<close>, with the number of the iteration for \<open>buffered\<close>. The last component says
  that a send threw and the loop returned.
\<close>

function drain_loop ::
  "MuxConfig \<Rightarrow> (nat \<Rightarrow> int) \<Rightarrow> nat \<Rightarrow> ident \<Rightarrow> RelayMuxSession \<Rightarrow>
    mux_effect list \<times> RelayMuxSession \<times> bool" where
  "drain_loop cfg buffered i ws s =
     (if \<not> (ss_queuedBytes s > 0 \<and> buffered i \<le> cfg_muxBufferedAmountHighWaterBytes cfg)
      then ([], s, False)
      else
        case nextQueuedCircuit s of
          (None, s) \<Rightarrow> ([], s, False)
        | (Some circuitId, s) \<Rightarrow>
          case map_of (ss_circuits s) circuitId of
            None \<Rightarrow> ([], s, False)
          | Some circuit \<Rightarrow>
            if mc_queue circuit = [] then ([], s, False)
            else
              let frame = hd (mc_queue circuit); s = dequeue_frame circuitId circuit s in
              if ss_sendThrows s
              then ([CloseMux ws POLICY_CLOSE_CODE ''Mux send failed''], s\<lparr>ss_open := False\<rparr>, True)
              else
                let (effs, s, failed) = drain_loop cfg buffered (i + 1) ws s
                in (SendFrame ws frame # effs, s, failed))"
  by pat_completeness auto
termination
  by (relation "measure (\<lambda>(_, _, _, _, s). queued_frames s)") (auto intro: drain_step_decreases)

definition drain ::
  "MuxConfig \<Rightarrow> (nat \<Rightarrow> int) \<Rightarrow> ident \<Rightarrow> RelayMuxSession \<Rightarrow> mux_effect list \<times> RelayMuxSession" where
  "drain cfg buffered ws s =
     (if ss_closed s \<or> \<not> ss_open s then ([], s)
      else
        let (effs, s, failed) = drain_loop cfg buffered 0 ws s
        in (effs, if \<not> failed \<and> ss_queuedBytes s > 0 then scheduleDrain True s else s))"

section \<open>Events of a mux socket\<close>

text \<open>
  The constructor of a session and the coordinator's \<open>open\<close>; the physical socket has just been
  accepted.
\<close>

definition mux_onOpen ::
  "ident \<Rightarrow> string \<Rightarrow> RelayMuxCoordinator \<Rightarrow> mux_effect list \<times> RelayMuxCoordinator" where
  "mux_onOpen ws clientIp mx =
     (let s = \<lparr>ss_clientIp = clientIp, ss_openAttempts = [], ss_circuits = [], ss_circuitOrder = [],
               ss_drainCursor = 0, ss_queuedBytes = 0, ss_invalidMessages = 0, ss_idleTimer = False,
               ss_drainImmediate = False, ss_drainTimer = False, ss_closed = False,
               ss_protocolAccepted = False, ss_open = True, ss_sendThrows = False\<rparr>;
          (ready, s) = sendControl ws (mux_ready (mx_config mx)) s;
          s = s\<lparr>ss_idleTimer := True\<rparr>
      in (ready @ [MuxRecord (MuxSocketOpened clientIp)], set_session ws s mx))"

definition handleData ::
  "ident \<Rightarrow> bytes \<Rightarrow> RelayMuxSession \<Rightarrow> RelayMuxCoordinator \<Rightarrow>
    mux_effect list \<times> RelayMuxCoordinator" where
  "handleData ws buffer s mx =
     (case decodeRelayMuxDataFrame buffer of
        Inl (RelayMuxFrameError _ circuitId) \<Rightarrow>
          let (told, mx) =
                (case circuitId of
                   Some cid \<Rightarrow> if isRelayMuxCircuitId (Some (JNum cid))
                               then sendError ws s cid invalid_request None mx else ([], mx)
                 | None \<Rightarrow> ([], mx));
              s = (case session_of mx ws of Some s \<Rightarrow> s | None \<Rightarrow> s);
              (effs, s) = recordInvalid ws s
          in (told @ effs, set_session ws s mx)
      | Inr frame \<Rightarrow>
          case map_of (ss_circuits s) (df_circuitId frame) of
            None \<Rightarrow>
              let (told, mx) = sendError ws s (df_circuitId frame) invalid_request None mx;
                  s = (case session_of mx ws of Some s \<Rightarrow> s | None \<Rightarrow> s);
                  (effs, s) = recordInvalid ws s
              in (told @ effs, set_session ws s mx)
          | Some circuit \<Rightarrow>
              if int (length (df_payload frame)) > cfg_muxMaxFrameBytes (mx_config mx)
              then closeCircuit ws (df_circuitId frame) relay_closed True True mx
              else
                let (effs, cm) = forward (mx_manager mx) (mc_endpoint circuit) (df_payload frame)
                                   (df_isBinary frame)
                in deliver_all effs (mx\<lparr>mx_manager := cm\<rparr>))"

text \<open>Fields of a control message behind its guard.\<close>

definition circuit_field :: "json \<Rightarrow> js_number" where
  "circuit_field msg = (case number_field msg ''circuitId'' of Some n \<Rightarrow> n | None \<Rightarrow> NaN)"

definition channel_field :: "json \<Rightarrow> RelayChannel" where
  "channel_field msg = (if get_prop msg ''channel'' = Some (JStr ''speech'') then Speech else App)"

definition mux_onMessage ::
  "(bytes \<Rightarrow> json option) \<Rightarrow> int \<Rightarrow> ident \<Rightarrow> ident \<Rightarrow> RawData \<Rightarrow> bool \<Rightarrow> RelayMuxCoordinator \<Rightarrow>
    mux_effect list \<times> RelayMuxCoordinator" where
  "mux_onMessage parse now ws endpointKey data isBinary mx =
     (case session_of mx ws of
        None \<Rightarrow> ([], mx)
      | Some s \<Rightarrow>
        if ss_closed s then ([], mx)
        else if isBinary then handleData ws (rawDataToBuffer data) s mx
        else case parse (rawDataToBuffer data) of
          None \<Rightarrow> let (effs, s) = recordInvalid ws s in (effs, set_session ws s mx)
        | Some message \<Rightarrow>
          if isRelayMuxOpen message then
            openCircuit now ws endpointKey (circuit_field message) (field message ''username'')
              (channel_field message) mx
          else if isRelayMuxClose message then
            if map_of (ss_circuits s) (circuit_field message) = None then
              let (told, mx) = sendError ws s (circuit_field message) invalid_request None mx;
                  s = (case session_of mx ws of Some s \<Rightarrow> s | None \<Rightarrow> s);
                  (effs, s) = recordInvalid ws s
              in (told @ effs, set_session ws s mx)
            else closeCircuit ws (circuit_field message) client_closed True True mx
          else
            let (told, mx) =
                  (if isRelayMuxCircuitId (get_prop message ''circuitId'')
                   then sendError ws s (circuit_field message) invalid_request None mx else ([], mx));
                s = (case session_of mx ws of Some s \<Rightarrow> s | None \<Rightarrow> s);
                (effs, s) = recordInvalid ws s
            in (told @ effs, set_session ws s mx))"

fun close_circuits ::
  "ident \<Rightarrow> js_number list \<Rightarrow> RelayMuxCoordinator \<Rightarrow> mux_effect list \<times> RelayMuxCoordinator" where
  "close_circuits ws [] mx = ([], mx)"
| "close_circuits ws (circuitId # ids) mx =
     (let (effs, mx) = closeCircuit ws circuitId relay_closed False True mx;
          (effs', mx) = close_circuits ws ids mx
      in (effs @ effs', mx))"

definition mux_onClose ::
  "ident \<Rightarrow> nat \<Rightarrow> string \<Rightarrow> RelayMuxCoordinator \<Rightarrow> mux_effect list \<times> RelayMuxCoordinator" where
  "mux_onClose ws code reason mx =
     (case session_of mx ws of
        None \<Rightarrow> ([], mx)
      | Some s \<Rightarrow>
        if ss_closed s then ([], mx)
        else
          let s' = s\<lparr>ss_closed := True, ss_idleTimer := False, ss_drainImmediate := False,
                     ss_drainTimer := False\<rparr>;
              (effs, mx) = close_circuits ws (map fst (ss_circuits s)) (set_session ws s' mx)
          in (effs @ [MuxRecord (MuxSocketClosed (ss_clientIp s) code reason)],
              mx\<lparr>mx_sessions := AList.delete ws (mx_sessions mx)\<rparr>))"

text \<open>Timers: an idle socket is closed, a scheduled drain runs.\<close>

definition idle_timeout :: "ident \<Rightarrow> RelayMuxCoordinator \<Rightarrow> mux_effect list \<times> RelayMuxCoordinator" where
  "idle_timeout ws mx =
     (case session_of mx ws of
        None \<Rightarrow> ([], mx)
      | Some s \<Rightarrow>
        if \<not> ss_idleTimer s then ([], mx)
        else if ss_circuits s = [] then
          ([CloseMux ws POLICY_CLOSE_CODE ''Idle mux connection''],
           set_session ws (s\<lparr>ss_idleTimer := False, ss_open := False\<rparr>) mx)
        else ([], set_session ws (s\<lparr>ss_idleTimer := False\<rparr>) mx))"

definition drain_timeout ::
  "(nat \<Rightarrow> int) \<Rightarrow> ident \<Rightarrow> RelayMuxCoordinator \<Rightarrow> mux_effect list \<times> RelayMuxCoordinator" where
  "drain_timeout buffered ws mx =
     (case session_of mx ws of
        None \<Rightarrow> ([], mx)
      | Some s \<Rightarrow>
        if ss_drainImmediate s \<or> ss_drainTimer s then
          let (effs, s) = drain (mx_config mx) buffered ws
                            (s\<lparr>ss_drainImmediate := False, ss_drainTimer := False\<rparr>)
          in (effs, set_session ws s mx)
        else ([], mx))"

section \<open>The mux relay as a machine\<close>

text \<open>
  \<open>FromManager\<close> is any call of the connection manager from elsewhere (a direct socket, a server, a
  first-message timer) with the callbacks it triggers; \<open>SocketState\<close> is a change of the physical
  socket that the code can only observe.
\<close>

fun cm_effects :: "ConnectionManager \<Rightarrow> cm_op \<Rightarrow> effect list" where
  "cm_effects cm (OpRegister now ws u i md ch) = fst (snd (registerServer cm now ws u i md ch))"
| "cm_effects cm (OpConnect now k u ch) = []"
| "cm_effects cm (OpForward s d b) = fst (forward cm s d b)"
| "cm_effects cm (OpClose ws u) = fst (snd (handleClose cm ws u))"
| "cm_effects cm (OpEndpointClose k) = fst (snd (handleClientEndpointClose cm k))"
| "cm_effects cm (OpTimer pid) = fst (fire_first_message_timer cm pid)"

datatype mux_op =
    MuxOpened ident string
  | MuxMessage int ident ident RawData bool
  | MuxClosed ident nat string
  | IdleTimeout ident
  | DrainTimeout "nat \<Rightarrow> int" ident
  | SocketState ident bool bool
  | FromManager cm_op

fun mux_step ::
  "(bytes \<Rightarrow> json option) \<Rightarrow> RelayMuxCoordinator \<Rightarrow> mux_op \<Rightarrow> mux_effect list \<times> RelayMuxCoordinator"
where
  "mux_step parse mx (MuxOpened ws ip) = mux_onOpen ws ip mx"
| "mux_step parse mx (MuxMessage now ws k data b) = mux_onMessage parse now ws k data b mx"
| "mux_step parse mx (MuxClosed ws code reason) = mux_onClose ws code reason mx"
| "mux_step parse mx (IdleTimeout ws) = idle_timeout ws mx"
| "mux_step parse mx (DrainTimeout buffered ws) = drain_timeout buffered ws mx"
| "mux_step parse mx (SocketState ws opn throws) =
     ([], case session_of mx ws of
            Some s \<Rightarrow> set_session ws (s\<lparr>ss_open := opn, ss_sendThrows := throws\<rparr>) mx
          | None \<Rightarrow> mx)"
| "mux_step parse mx (FromManager x) =
     deliver_all (cm_effects (mx_manager mx) x) (mx\<lparr>mx_manager := cm_step (mx_manager mx) x\<rparr>)"

end
