(* ===== verification/MuxHandlerLaws.thy ===== *)
theory MuxHandlerLaws
  imports MuxHandler "HOL-Library.Code_Target_Nat" "HOL-Library.Code_Target_Int"
begin

text \<open>
  The laws of the multiplexed relay: the byte counters of every session and circuit are the bytes
  really queued and stay within the configured bounds, and the coordinator's books agree with the
  circuits that live; then what draining sends.
\<close>

declare map_of_eq_Some_iff [simp del]

section \<open>Views\<close>

text \<open>The part of a session the books speak of.\<close>

definition view :: "RelayMuxSession \<Rightarrow> string \<times> (js_number \<times> MuxCircuit) list \<times> js_number list \<times> int" where
  "view s = (ss_clientIp s, ss_circuits s, ss_circuitOrder s, ss_queuedBytes s)"

definition views :: "RelayMuxCoordinator \<Rightarrow> (ident \<times> string \<times> (js_number \<times> MuxCircuit) list \<times> js_number list \<times> int) list"
where "views mx = map (\<lambda>(ws, s). (ws, view s)) (mx_sessions mx)"

definition same_books :: "RelayMuxCoordinator \<Rightarrow> RelayMuxCoordinator \<Rightarrow> bool" where
  "same_books mx mx' =
     (views mx' = views mx \<and> mx_config mx' = mx_config mx \<and>
      mx_circuitsByIp mx' = mx_circuitsByIp mx \<and> mx_openedTotal mx' = mx_openedTotal mx \<and>
      mx_closedByReason mx' = mx_closedByReason mx)"

lemma same_books_refl [simp]: "same_books mx mx"
  by (simp add: same_books_def)

lemma same_books_trans: "same_books mx mx' \<Longrightarrow> same_books mx' mx'' \<Longrightarrow> same_books mx mx''"
  by (simp add: same_books_def)

lemma views_map_of: "map_of (views mx) ws = map_option view (session_of mx ws)"
  by (simp add: views_def session_of_def map_of_map)

lemma same_books_session:
  "same_books mx mx' \<Longrightarrow> map_option view (session_of mx' ws) = map_option view (session_of mx ws)"
  by (simp add: same_books_def flip: views_map_of)

lemma session_of_set [simp]:
  "session_of (set_session ws s mx) ws' = (if ws' = ws then Some s else session_of mx ws')"
  by (simp add: session_of_def set_session_def map_of_update)

lemma set_session_fields [simp]:
  "mx_config (set_session ws s mx) = mx_config mx" "mx_manager (set_session ws s mx) = mx_manager mx"
  "mx_circuitsByIp (set_session ws s mx) = mx_circuitsByIp mx"
  "mx_openedTotal (set_session ws s mx) = mx_openedTotal mx"
  "mx_closedByReason (set_session ws s mx) = mx_closedByReason mx"
  "mx_endpoints (set_session ws s mx) = mx_endpoints mx"
  by (simp_all add: set_session_def)

lemma map_update_same:
  "map_of m k = Some v \<Longrightarrow> f w = f v \<Longrightarrow>
     map (\<lambda>(k, v). (k, f v)) (AList.update k w m) = map (\<lambda>(k, v). (k, f v)) m"
  by (induction m) auto

lemma same_books_set_session:
  "session_of mx ws = Some s \<Longrightarrow> view s' = view s \<Longrightarrow> same_books mx (set_session ws s' mx)"
  unfolding same_books_def views_def session_of_def
  by (simp add: set_session_def map_update_same)

lemma view_updates [simp]:
  "view (s\<lparr>ss_open := a\<rparr>) = view s" "view (s\<lparr>ss_sendThrows := a\<rparr>) = view s"
  "view (s\<lparr>ss_invalidMessages := n\<rparr>) = view s" "view (s\<lparr>ss_idleTimer := a\<rparr>) = view s"
  "view (s\<lparr>ss_drainImmediate := a\<rparr>) = view s" "view (s\<lparr>ss_drainTimer := a\<rparr>) = view s"
  "view (s\<lparr>ss_openAttempts := l\<rparr>) = view s" "view (s\<lparr>ss_closed := a\<rparr>) = view s"
  "view (s\<lparr>ss_drainCursor := n\<rparr>) = view s" "view (s\<lparr>ss_protocolAccepted := a\<rparr>) = view s"
  by (simp_all add: view_def)

lemma view_sendControl [simp]: "view (snd (sendControl ws m s)) = view s"
  by (simp add: sendControl_def)

lemma view_recordInvalid [simp]: "view (snd (recordInvalid ws s)) = view s"
  by (simp add: recordInvalid_def Let_def)

lemma view_scheduleDrain [simp]: "view (scheduleDrain d s) = view s"
  by (simp add: scheduleDrain_def)

lemma same_books_sendError:
  "session_of mx ws = Some s \<Longrightarrow> same_books mx (snd (sendError ws s c r u mx))"
  using same_books_set_session [of mx ws s "snd (sendControl ws (mux_error c r) s)"]
  by (auto simp: sendError_def Let_def same_books_def views_def set_session_def split: prod.splits)

lemma session_sendError:
  "session_of mx ws = Some s \<Longrightarrow> \<exists>s'. session_of (snd (sendError ws s c r u mx)) ws = Some s' \<and> view s' = view s"
  using view_sendControl [of ws "mux_error c r" s]
  by (cases "sendControl ws (mux_error c r) s") (simp add: sendError_def Let_def)

lemma same_books_prune: "same_books mx (pruneAttempts now mx)"
  by (auto simp: same_books_def pruneAttempts_def Let_def views_def)

lemma same_books_canOpen:
  "same_books mx (snd (canOpen mx now ws u))"
proof -
  let ?mx = "pruneAttempts now mx"
  have "same_books ?mx (snd (canOpen mx now ws u))"
  proof (cases "session_of ?mx ws")
    case (Some s)
    have "same_books ?mx (set_session ws (s\<lparr>ss_openAttempts := l\<rparr>) ?mx)" for l
      by (rule same_books_set_session [OF Some]) simp
    then show ?thesis
      using Some by (auto simp: canOpen_def Let_def same_books_def views_def recordBoundedAttempt_def)
  qed (simp add: canOpen_def Let_def)
  then show ?thesis by (rule same_books_trans [OF same_books_prune])
qed

lemma canOpen_None:
  assumes "canOpen mx now ws u = (None, mx')" and "session_of mx ws = Some s"
  shows "int (length (ss_circuits s)) < cfg_muxMaxCircuitsPerSocket (mx_config mx)"
    "circuits_of_ip mx (ss_clientIp s) < cfg_muxMaxCircuitsPerIp (mx_config mx)"
proof -
  let ?mx = "pruneAttempts now mx"
  have "map_option view (session_of ?mx ws) = Some (view s)"
    using same_books_session [OF same_books_prune] assms(2) by simp
  then obtain s' where s': "session_of ?mx ws = Some s'" "view s' = view s" by auto
  have "mx_config ?mx = mx_config mx" "mx_circuitsByIp ?mx = mx_circuitsByIp mx"
    using same_books_prune [of mx now] by (auto simp: same_books_def)
  then show "int (length (ss_circuits s)) < cfg_muxMaxCircuitsPerSocket (mx_config mx)"
    "circuits_of_ip mx (ss_clientIp s) < cfg_muxMaxCircuitsPerIp (mx_config mx)"
    using assms(1) s' by (auto simp: canOpen_def Let_def view_def circuits_of_ip_def split: if_splits prod.splits)
qed

section \<open>Books\<close>

definition bytes_of :: "bytes list \<Rightarrow> int" where
  "bytes_of q = sum_list (map (\<lambda>f. int (length f)) q)"

definition circuit_ok :: "MuxConfig \<Rightarrow> js_number \<Rightarrow> MuxCircuit \<Rightarrow> bool" where
  "circuit_ok cfg cid c =
     (mc_id c = cid \<and> mc_queuedBytes c = bytes_of (mc_queue c) \<and>
      mc_queuedBytes c \<le> max 0 (cfg_muxMaxQueuedBytesPerCircuit cfg) \<and>
      list_all (\<lambda>f. \<exists>p b. encodeRelayMuxDataFrame cid p b = Inr f \<and>
                  int (length p) \<le> cfg_muxMaxFrameBytes cfg) (mc_queue c))"

definition session_ok :: "MuxConfig \<Rightarrow> RelayMuxSession \<Rightarrow> bool" where
  "session_ok cfg s =
     (distinct (map fst (ss_circuits s)) \<and> ss_circuitOrder s = map fst (ss_circuits s) \<and>
      (\<forall>cid c. map_of (ss_circuits s) cid = Some c \<longrightarrow> circuit_ok cfg cid c) \<and>
      ss_queuedBytes s = sum_list (map (\<lambda>(_, c). mc_queuedBytes c) (ss_circuits s)) \<and>
      ss_queuedBytes s \<le> max 0 (cfg_muxMaxQueuedBytesPerSocket cfg) \<and>
      int (length (ss_circuits s)) \<le> max 0 (cfg_muxMaxCircuitsPerSocket cfg))"

lemma session_ok_view: "view s' = view s \<Longrightarrow> session_ok cfg s' = session_ok cfg s"
  by (simp add: view_def session_ok_def)

text \<open>The circuits that live, of one address and of all.\<close>

definition live :: "RelayMuxCoordinator \<Rightarrow> string \<Rightarrow> int" where
  "live mx ip = sum_list (map (\<lambda>(_, s). if ss_clientIp s = ip then int (length (ss_circuits s)) else 0)
     (mx_sessions mx))"

definition live_total :: "RelayMuxCoordinator \<Rightarrow> int" where
  "live_total mx = sum_list (map (\<lambda>(_, s). int (length (ss_circuits s))) (mx_sessions mx))"

definition closed_total :: "RelayMuxCoordinator \<Rightarrow> nat" where
  "closed_total mx = mx_closedByReason mx client_closed + mx_closedByReason mx server_closed +
     mx_closedByReason mx relay_closed"

definition mux_inv :: "MuxConfig \<Rightarrow> RelayMuxCoordinator \<Rightarrow> bool" where
  "mux_inv cfg mx =
     (mx_config mx = cfg \<and> distinct (map fst (mx_sessions mx)) \<and>
      (\<forall>ws s. session_of mx ws = Some s \<longrightarrow> session_ok cfg s) \<and>
      distinct (map fst (mx_circuitsByIp mx)) \<and>
      (\<forall>ip n. map_of (mx_circuitsByIp mx) ip = Some n \<longrightarrow> 0 < n) \<and>
      (\<forall>ip. circuits_of_ip mx ip = live mx ip) \<and>
      (\<forall>ip. live mx ip \<le> max 0 (cfg_muxMaxCircuitsPerIp cfg)) \<and>
      int (mx_openedTotal mx) = live_total mx + int (closed_total mx))"

lemma live_views:
  "live mx ip = sum_list (map (\<lambda>(_, ip', cs, _). if ip' = ip then int (length cs) else 0) (views mx))"
  "live_total mx = sum_list (map (\<lambda>(_, ip', cs, _). int (length cs)) (views mx))"
proof -
  have "map (\<lambda>(_, s). if ss_clientIp s = ip then int (length (ss_circuits s)) else 0) m =
      map (\<lambda>(_, ip', cs, _). if ip' = ip then int (length cs) else 0) (map (\<lambda>(ws, s). (ws, view s)) m)"
    "map (\<lambda>(_, s). int (length (ss_circuits s))) m =
      map (\<lambda>(_, ip', cs, _). int (length cs)) (map (\<lambda>(ws, s). (ws, view s)) m)"
    for m :: "(ident \<times> RelayMuxSession) list"
    by (induction m) (auto simp: view_def)
  then show "live mx ip = sum_list (map (\<lambda>(_, ip', cs, _). if ip' = ip then int (length cs) else 0) (views mx))"
    "live_total mx = sum_list (map (\<lambda>(_, ip', cs, _). int (length cs)) (views mx))"
    unfolding live_def live_total_def views_def by (simp_all only:)
qed

lemma mux_inv_same_books:
  assumes "mux_inv cfg mx" and "same_books mx mx'"
  shows "mux_inv cfg mx'"
proof -
  have "map fst (mx_sessions mx') = map fst (mx_sessions mx)"
  proof -
    have keys: "map fst (views m) = map fst (mx_sessions m)" for m
      by (simp add: views_def o_def case_prod_unfold)
    from assms(2) have "map fst (views mx') = map fst (views mx)" by (simp add: same_books_def)
    then show ?thesis by (simp only: keys)
  qed
  moreover have "session_ok cfg s'" if "session_of mx' ws = Some s'" for ws s'
  proof -
    from that same_books_session [OF assms(2), of ws]
    obtain s where "session_of mx ws = Some s" "view s = view s'" by (cases "session_of mx ws") auto
    then show ?thesis using assms(1) session_ok_view [of s s' cfg] by (auto simp: mux_inv_def)
  qed
  moreover have "live mx' = live mx" "live_total mx' = live_total mx"
    using assms(2) by (auto simp: live_views same_books_def fun_eq_iff)
  moreover have "circuits_of_ip mx' = circuits_of_ip mx" "closed_total mx' = closed_total mx"
    using assms(2) by (auto simp: circuits_of_ip_def closed_total_def same_books_def fun_eq_iff)
  ultimately show ?thesis using assms by (simp add: mux_inv_def same_books_def)
qed

text \<open>Replacing a session by one of the same address.\<close>

lemma live_set_session:
  assumes "session_of mx ws = Some s" and "ss_clientIp s' = ss_clientIp s"
  shows "live (set_session ws s' mx) ip = live mx ip +
      (if ip = ss_clientIp s then int (length (ss_circuits s')) - int (length (ss_circuits s)) else 0)"
    and "live_total (set_session ws s' mx) =
      live_total mx + int (length (ss_circuits s')) - int (length (ss_circuits s))"
  using assms
    sum_list_AList_update [of "mx_sessions mx" ws s "\<lambda>s. if ss_clientIp s = ip then int (length (ss_circuits s)) else 0" s']
    sum_list_AList_update [of "mx_sessions mx" ws s "\<lambda>s. int (length (ss_circuits s))" s']
  by (auto simp: live_def live_total_def set_session_def session_of_def split: if_splits)

lemma mux_inv_set_session:
  assumes "mux_inv cfg mx" and "session_of mx ws = Some s" and "ss_clientIp s' = ss_clientIp s"
    and "length (ss_circuits s') = length (ss_circuits s)" and "session_ok cfg s'"
  shows "mux_inv cfg (set_session ws s' mx)"
proof -
  have "distinct (map fst (mx_sessions (set_session ws s' mx)))"
    using assms(1) by (simp add: mux_inv_def set_session_def distinct_update)
  moreover have "circuits_of_ip (set_session ws s' mx) ip = circuits_of_ip mx ip"
    "closed_total (set_session ws s' mx) = closed_total mx" for ip
    by (simp_all add: circuits_of_ip_def closed_total_def)
  ultimately show ?thesis
    using assms live_set_session [OF assms(2,3)] by (simp add: mux_inv_def)
qed

section \<open>Closing and opening circuits\<close>

lemma circuit_bytes_nonneg: "circuit_ok cfg cid c \<Longrightarrow> 0 \<le> mc_queuedBytes c"
  by (auto simp: circuit_ok_def bytes_of_def intro!: sum_list_nonneg)

lemma session_ok_clear:
  assumes "session_ok cfg s" and "map_of (ss_circuits s) cid = Some c"
  shows "session_ok cfg (clear_circuit cid c s)"
    and "length (ss_circuits (clear_circuit cid c s)) + 1 = length (ss_circuits s)"
    and "ss_clientIp (clear_circuit cid c s) = ss_clientIp s"
proof -
  have dist: "distinct (map fst (ss_circuits s))" using assms(1) by (simp add: session_ok_def)
  note len = AList_delete_length [OF assms(2) dist]
  have "sum_list (map (\<lambda>(_, c). mc_queuedBytes c) (AList.delete cid (ss_circuits s))) =
      ss_queuedBytes s - mc_queuedBytes c"
    using sum_list_AList_delete [OF assms(2) dist, of mc_queuedBytes] assms(1) by (simp add: session_ok_def)
  moreover have "0 \<le> mc_queuedBytes c"
    using assms circuit_bytes_nonneg unfolding session_ok_def by blast
  ultimately show "session_ok cfg (clear_circuit cid c s)"
    using assms len dist unfolding session_ok_def clear_circuit_def
    by (simp add: distinct_delete map_of_delete AList_delete_keys)
  show "length (ss_circuits (clear_circuit cid c s)) + 1 = length (ss_circuits s)"
    using len by (simp add: clear_circuit_def)
qed (simp add: clear_circuit_def)

lemma circuits_of_ip_closed:
  assumes "circuits_of_ip mx ip = n" and "0 < n" and "distinct (map fst (mx_circuitsByIp mx))"
    and "\<forall>ip n. map_of (mx_circuitsByIp mx) ip = Some n \<longrightarrow> 0 < n"
  shows "circuits_of_ip (circuitClosed ip r mx) ip' = (if ip' = ip then n - 1 else circuits_of_ip mx ip')"
    "distinct (map fst (mx_circuitsByIp (circuitClosed ip r mx)))"
    "\<forall>i n. map_of (mx_circuitsByIp (circuitClosed ip r mx)) i = Some n \<longrightarrow> 0 < n"
    "int (closed_total (circuitClosed ip r mx)) = int (closed_total mx) + 1"
proof -
  have n: "map_of (mx_circuitsByIp mx) ip = Some n"
    using assms(1,2) by (auto simp: circuits_of_ip_def split: option.splits)
  have one: "\<not> 1 < n \<Longrightarrow> n = 1" using assms(2) by simp
  from n show "circuits_of_ip (circuitClosed ip r mx) ip' = (if ip' = ip then n - 1 else circuits_of_ip mx ip')"
    "distinct (map fst (mx_circuitsByIp (circuitClosed ip r mx)))"
    "\<forall>i n. map_of (mx_circuitsByIp (circuitClosed ip r mx)) i = Some n \<longrightarrow> 0 < n"
    using assms(2-4) one
    by (auto simp: circuits_of_ip_def circuitClosed_def Let_def omap_simps)
  show "int (closed_total (circuitClosed ip r mx)) = int (closed_total mx) + 1"
    by (cases r) (auto simp: closed_total_def circuitClosed_def Let_def)
qed

lemma mux_inv_closed:
  assumes inv: "mux_inv cfg mx" and s: "session_of mx ws = Some s"
    and c: "map_of (ss_circuits s) cid = Some c"
    and s': "view s' = view (clear_circuit cid c s)"
  shows "mux_inv cfg (set_session ws s' (circuitClosed (ss_clientIp s) r (mx\<lparr>mx_manager := cm\<rparr>)))"
proof -
  let ?mx = "mx\<lparr>mx_manager := cm\<rparr>"
  let ?cl = "circuitClosed (ss_clientIp s) r ?mx"
  have ok: "session_ok cfg s" using inv s by (simp add: mux_inv_def)
  note clear = session_ok_clear [OF ok c]
  have ok': "session_ok cfg s'" using clear(1) session_ok_view [OF s'] by simp
  have ip': "ss_clientIp s' = ss_clientIp s" and len': "length (ss_circuits s') + 1 = length (ss_circuits s)"
    using s' clear(2,3) by (auto simp: view_def)
  have sess: "mx_sessions ?cl = mx_sessions mx" "mx_config ?cl = mx_config mx"
    "mx_openedTotal ?cl = mx_openedTotal mx"
    by (simp_all add: circuitClosed_def Let_def)
  then have s_cl: "session_of ?cl ws' = session_of mx ws'" and live_cl: "live ?cl ip = live mx ip"
    "live_total ?cl = live_total mx" for ws' ip
    by (simp_all add: session_of_def live_def live_total_def)
  have pos: "0 < live mx (ss_clientIp s)"
  proof -
    have "live (set_session ws s' mx) (ss_clientIp s) = live mx (ss_clientIp s) - 1"
      using live_set_session(1) [OF s ip', of "ss_clientIp s"] len' by simp
    moreover have "0 \<le> live (set_session ws s' mx) (ss_clientIp s)"
      unfolding live_def by (intro sum_list_nonneg) auto
    ultimately show ?thesis by simp
  qed
  have books: "circuits_of_ip ?mx (ss_clientIp s) = live mx (ss_clientIp s)"
    "distinct (map fst (mx_circuitsByIp ?mx))"
    "\<forall>ip n. map_of (mx_circuitsByIp ?mx) ip = Some n \<longrightarrow> 0 < n"
    using inv unfolding mux_inv_def circuits_of_ip_def by simp_all
  note closed = circuits_of_ip_closed [OF books(1) pos books(2,3)]
  have l: "live (set_session ws s' ?cl) ip = live mx ip - (if ip = ss_clientIp s then 1 else 0)"
    "live_total (set_session ws s' ?cl) = live_total mx - 1" for ip
    using live_set_session [of ?cl ws s s'] s ip' len' by (auto simp: s_cl live_cl)
  have c_ip: "circuits_of_ip (set_session ws s' ?cl) ip = circuits_of_ip ?cl ip"
    "closed_total (set_session ws s' ?cl) = closed_total ?cl" for ip
    by (simp_all add: circuits_of_ip_def closed_total_def)
  have "closed_total ?mx = closed_total mx" "circuits_of_ip ?mx = circuits_of_ip mx"
    by (simp_all add: closed_total_def circuits_of_ip_def fun_eq_iff)
  moreover have "distinct (map fst (mx_sessions (set_session ws s' ?cl)))"
    using inv by (simp add: set_session_def sess distinct_update mux_inv_def)
  moreover have "circuits_of_ip mx ip = live mx ip" "live mx ip \<le> max 0 (cfg_muxMaxCircuitsPerIp cfg)"
    "mx_config mx = cfg" "int (mx_openedTotal mx) = live_total mx + int (closed_total mx)" for ip
    using inv by (simp_all add: mux_inv_def)
  moreover have "session_ok cfg t" if "session_of (set_session ws s' ?cl) ws' = Some t" for ws' t
    using that ok' inv s_cl unfolding mux_inv_def by (auto split: if_splits)
  moreover have "live mx (ss_clientIp s) - 1 \<le> max 0 (cfg_muxMaxCircuitsPerIp cfg)"
  proof -
    have "live mx (ss_clientIp s) \<le> max 0 (cfg_muxMaxCircuitsPerIp cfg)"
      using inv unfolding mux_inv_def by blast
    then show ?thesis by linarith
  qed
  ultimately show ?thesis
    using closed(2,3) unfolding mux_inv_def
    by (simp add: c_ip l closed(1,4) sess)
qed

lemma mux_inv_closeCircuit:
  assumes inv: "mux_inv cfg mx"
  shows "mux_inv cfg (snd (closeCircuit ws cid r notify srv mx))"
proof (cases "session_of mx ws")
  case (Some s)
  show ?thesis
  proof (cases "map_of (ss_circuits s) cid")
    case c: (Some c)
    let ?s = "clear_circuit cid c s"
    let ?t = "if notify \<and> \<not> ss_closed s then snd (sendControl ws (mux_closed cid r) ?s) else ?s"
    let ?u = "if ss_circuits ?t = [] \<and> \<not> ss_closed ?t then ?t\<lparr>ss_idleTimer := True\<rparr> else ?t"
    have ip: "ss_clientIp ?u = ss_clientIp s"
      by (simp add: clear_circuit_def sendControl_def)
    have v: "view ?u = view ?s" by simp
    have "ss_closed ?s = ss_closed s" by (simp add: clear_circuit_def)
    let ?cm = "if srv then snd (snd (handleClientEndpointClose (mx_manager mx) (mc_endpoint c)))
      else mx_manager mx"
    have "snd (closeCircuit ws cid r notify srv mx) =
        set_session ws ?u (circuitClosed (ss_clientIp ?u) r (mx\<lparr>mx_manager := ?cm\<rparr>))"
      using Some c \<open>ss_closed ?s = ss_closed s\<close>
      by (cases srv; cases notify; cases "ss_closed s")
        (simp_all add: closeCircuit_def Let_def case_prod_unfold)
    then show ?thesis
      using mux_inv_closed [OF inv Some c v] unfolding ip by simp
  qed (use Some inv in \<open>simp add: closeCircuit_def\<close>)
qed (use inv in \<open>simp add: closeCircuit_def\<close>)

lemma circuit_ok_new: "circuit_ok cfg cid \<lparr>mc_endpoint = k, mc_id = cid, mc_queuedBytes = 0, mc_queue = [], mc_username = u\<rparr>"
  by (simp add: circuit_ok_def bytes_of_def)

lemma mux_inv_opened:
  assumes inv: "mux_inv cfg mx" and s: "session_of mx ws = Some s"
    and new: "map_of (ss_circuits s) cid = None"
    and room: "int (length (ss_circuits s)) < cfg_muxMaxCircuitsPerSocket cfg"
      "circuits_of_ip mx (ss_clientIp s) < cfg_muxMaxCircuitsPerIp cfg"
    and s': "view s' = (ss_clientIp s, AList.update cid
        \<lparr>mc_endpoint = k, mc_id = cid, mc_queuedBytes = 0, mc_queue = [], mc_username = u\<rparr> (ss_circuits s),
        ss_circuitOrder s @ [cid], ss_queuedBytes s)"
  shows "mux_inv cfg (set_session ws s' (circuitOpened (ss_clientIp s)
     (mx\<lparr>mx_manager := cm, mx_endpoints := ep\<rparr>)))"
proof -
  let ?c = "\<lparr>mc_endpoint = k, mc_id = cid, mc_queuedBytes = 0, mc_queue = [], mc_username = u\<rparr>"
  let ?mx = "mx\<lparr>mx_manager := cm, mx_endpoints := ep\<rparr>"
  let ?op = "circuitOpened (ss_clientIp s) ?mx"
  have fresh: "cid \<notin> fst ` set (ss_circuits s)" using new by (simp add: map_of_eq_None_iff)
  then have app: "AList.update cid ?c (ss_circuits s) = ss_circuits s @ [(cid, ?c)]"
    by (rule AList_update_new)
  have fields: "ss_clientIp s' = ss_clientIp s" "ss_circuits s' = ss_circuits s @ [(cid, ?c)]"
    "ss_circuitOrder s' = ss_circuitOrder s @ [cid]" "ss_queuedBytes s' = ss_queuedBytes s"
    using s' by (simp_all add: view_def app)
  have ok: "session_ok cfg s" using inv s by (simp add: mux_inv_def)
  have ok': "session_ok cfg s'"
    using ok room(1) fresh circuit_ok_new [of cfg cid k u] unfolding session_ok_def fields
    by (auto simp: map_add_Some_iff split: if_splits)
  have sess: "mx_sessions ?op = mx_sessions mx" "mx_config ?op = mx_config mx"
    "mx_openedTotal ?op = mx_openedTotal mx + 1"
    by (simp_all add: circuitOpened_def)
  then have s_op: "session_of ?op ws' = session_of mx ws'" and live_op: "live ?op ip = live mx ip"
    "live_total ?op = live_total mx" for ws' ip
    by (simp_all add: session_of_def live_def live_total_def)
  have l: "live (set_session ws s' ?op) ip = live mx ip + (if ip = ss_clientIp s then 1 else 0)"
    "live_total (set_session ws s' ?op) = live_total mx + 1" for ip
    using live_set_session [of ?op ws s s'] s by (auto simp: s_op live_op fields)
  have c_ip: "circuits_of_ip (set_session ws s' ?op) ip =
      circuits_of_ip mx ip + (if ip = ss_clientIp s then 1 else 0)" for ip
    by (simp add: circuits_of_ip_def circuitOpened_def map_of_update)
  have c_total: "closed_total (set_session ws s' ?op) = closed_total mx"
    by (simp add: closed_total_def circuitOpened_def)
  have books: "circuits_of_ip mx ip = live mx ip" "live mx ip \<le> max 0 (cfg_muxMaxCircuitsPerIp cfg)"
    "mx_config mx = cfg" "int (mx_openedTotal mx) = live_total mx + int (closed_total mx)" for ip
    using inv by (simp_all add: mux_inv_def)
  have "live mx ip + (if ip = ss_clientIp s then 1 else 0) \<le> max 0 (cfg_muxMaxCircuitsPerIp cfg)" for ip
    using books(1,2) [of ip] room(2) by (auto simp: max_def)
  moreover have "distinct (map fst (mx_sessions (set_session ws s' ?op)))"
    using inv by (simp add: set_session_def sess distinct_update mux_inv_def)
  moreover have "session_ok cfg t" if "session_of (set_session ws s' ?op) ws' = Some t" for ws' t
    using that ok' inv s_op unfolding mux_inv_def by (auto split: if_splits)
  moreover have "distinct (map fst (mx_circuitsByIp ?op))"
    using inv by (simp add: circuitOpened_def distinct_update mux_inv_def)
  moreover have "0 < n" if "map_of (mx_circuitsByIp ?op) ip = Some n" for ip n
  proof -
    have "0 \<le> circuits_of_ip mx (ss_clientIp s)"
      unfolding books(1) live_def by (intro sum_list_nonneg) auto
    moreover have "\<forall>ip n. map_of (mx_circuitsByIp mx) ip = Some n \<longrightarrow> 0 < n"
      using inv unfolding mux_inv_def by blast
    ultimately show ?thesis
      using that by (auto simp: circuitOpened_def map_of_update circuits_of_ip_def split: if_splits)
  qed
  ultimately show ?thesis
    unfolding mux_inv_def by (simp add: c_ip l c_total sess books)
qed

lemma mux_inv_openCircuit:
  assumes inv: "mux_inv cfg mx"
  shows "mux_inv cfg (snd (openCircuit now ws k cid u ch mx))"
proof (cases "session_of mx ws")
  case (Some s)
  show ?thesis
  proof (cases "map_of (ss_circuits s) cid")
    case None
    obtain r mx1 where can: "canOpen mx now ws u = (r, mx1)" by (cases "canOpen mx now ws u")
    have same: "same_books mx mx1" using same_books_canOpen [of mx now ws u] can by simp
    have inv1: "mux_inv cfg mx1" by (rule mux_inv_same_books [OF inv same])
    have "map_option view (session_of mx1 ws) = Some (view s)"
      using same_books_session [OF same, of ws] Some by simp
    then obtain t where t: "session_of mx1 ws = Some t" "view t = view s" by auto
    have err: "mux_inv cfg (snd (sendError ws t cid r (Some u) (mx1\<lparr>mx_manager := cm\<rparr>)))" for r cm
    proof -
      have same2: "same_books mx1 (mx1\<lparr>mx_manager := cm\<rparr>)" by (simp add: same_books_def views_def)
      have "session_of (mx1\<lparr>mx_manager := cm\<rparr>) ws = Some t" using t by (simp add: session_of_def)
      from same_books_sendError [OF this] show ?thesis
        by (rule mux_inv_same_books [OF mux_inv_same_books [OF inv1 same2]])
    qed
    show ?thesis
    proof (cases r)
      case (Some reason)
      then show ?thesis
        using \<open>session_of mx ws = Some s\<close> None can t err [of reason "mx_manager mx1"]
        by (simp add: openCircuit_def)
    next
      case none: None
      obtain res cm where c: "connectClientEndpoint (mx_manager mx1) now k u ch = (res, cm)"
        by (cases "connectClientEndpoint (mx_manager mx1) now k u ch")
      show ?thesis
      proof (cases res)
        case (Connected srv info)
        have room: "int (length (ss_circuits t)) < cfg_muxMaxCircuitsPerSocket cfg"
          "circuits_of_ip mx1 (ss_clientIp t) < cfg_muxMaxCircuitsPerIp cfg"
          using canOpen_None [OF can [unfolded none] Some] t(2) same inv
          by (auto simp: mux_inv_def view_def circuits_of_ip_def same_books_def)
        have new: "map_of (ss_circuits t) cid = None" using None t(2) by (simp add: view_def)
        let ?c = "\<lparr>mc_endpoint = k, mc_id = cid, mc_queuedBytes = 0, mc_queue = [], mc_username = u\<rparr>"
        define t1 where "t1 = t\<lparr>ss_circuits := AList.update cid ?c (ss_circuits t),
          ss_circuitOrder := ss_circuitOrder t @ [cid], ss_idleTimer := False, ss_protocolAccepted := True\<rparr>"
        have t1: "view t1 = (ss_clientIp t, AList.update cid ?c (ss_circuits t),
            ss_circuitOrder t @ [cid], ss_queuedBytes t)" "ss_clientIp t1 = ss_clientIp t"
          by (simp_all add: view_def t1_def)
        have v: "view (snd (sendControl ws (mux_opened cid) t1)) = (ss_clientIp t,
            AList.update cid ?c (ss_circuits t), ss_circuitOrder t @ [cid], ss_queuedBytes t)"
          by (simp add: t1)
        have "snd (openCircuit now ws k cid u ch mx) = set_session ws (snd (sendControl ws (mux_opened cid) t1))
            (circuitOpened (ss_clientIp t) (mx1\<lparr>mx_manager := cm,
               mx_endpoints := AList.update k (ws, cid) (mx_endpoints mx1)\<rparr>))"
          using Some None can t none c Connected
          by (simp add: openCircuit_def Let_def case_prod_unfold flip: t1_def)
        then show ?thesis using mux_inv_opened [OF inv1 t(1) new room v] by simp
      qed (use Some None can t none c err in \<open>simp_all add: openCircuit_def\<close>)
    qed
  next
    case c: (Some c)
    then show ?thesis
      using Some mux_inv_same_books [OF inv same_books_sendError [OF Some]]
      by (simp add: openCircuit_def)
  qed
qed (use inv in \<open>simp add: openCircuit_def\<close>)

section \<open>Queueing and draining\<close>

lemma sum_update_queued:
  "map_of (ss_circuits s) cid = Some c \<Longrightarrow>
     sum_list (map (\<lambda>(_, c). mc_queuedBytes c) (AList.update cid c' (ss_circuits s))) =
       sum_list (map (\<lambda>(_, c). mc_queuedBytes c) (ss_circuits s)) + mc_queuedBytes c' - mc_queuedBytes c"
  using sum_list_AList_update [of "ss_circuits s" cid c mc_queuedBytes c'] by simp

lemma session_ok_update:
  assumes "session_ok cfg s" and "map_of (ss_circuits s) cid = Some c" and "circuit_ok cfg cid c'"
    and "ss_circuits s' = AList.update cid c' (ss_circuits s)" "ss_circuitOrder s' = ss_circuitOrder s"
    "ss_queuedBytes s' = ss_queuedBytes s + mc_queuedBytes c' - mc_queuedBytes c"
    and "ss_queuedBytes s' \<le> max 0 (cfg_muxMaxQueuedBytesPerSocket cfg)"
  shows "session_ok cfg s'" "length (ss_circuits s') = length (ss_circuits s)"
proof -
  have keys: "map fst (ss_circuits s') = map fst (ss_circuits s)"
    using assms(2,4) AList_update_keys by simp
  then show len: "length (ss_circuits s') = length (ss_circuits s)" by (metis length_map)
  have "ss_queuedBytes s' = sum_list (map (\<lambda>(_, c). mc_queuedBytes c) (ss_circuits s'))"
    using assms(1,6) sum_update_queued [OF assms(2), of c'] by (simp add: assms(4) session_ok_def)
  moreover have "circuit_ok cfg i d" if "map_of (ss_circuits s') i = Some d" for i d
    using that assms(1,3) unfolding assms(4) session_ok_def by (auto simp: map_of_update split: if_splits)
  ultimately show "session_ok cfg s'"
    using assms(1,5,7) keys len by (simp add: session_ok_def)
qed

lemma mux_inv_queueServerFrame:
  assumes inv: "mux_inv cfg mx"
  shows "mux_inv cfg (snd (queueServerFrame ws cid data b mx))"
proof (cases "session_of mx ws")
  case (Some s)
  show ?thesis
  proof (cases "map_of (ss_circuits s) cid")
    case c: (Some c)
    note ops = queueServerFrame_def Let_def
    have cfg: "mx_config mx = cfg" using inv by (simp add: mux_inv_def)
    consider (skip) "ss_closed s" | (big) "\<not> ss_closed s" "int (length data) > cfg_muxMaxFrameBytes cfg"
      | (bad) e where "\<not> ss_closed s" "\<not> int (length data) > cfg_muxMaxFrameBytes cfg"
          "encodeRelayMuxDataFrame cid data b = Inl e"
      | (frame) f where "\<not> ss_closed s" "\<not> int (length data) > cfg_muxMaxFrameBytes cfg"
          "encodeRelayMuxDataFrame cid data b = Inr f"
      by (cases "encodeRelayMuxDataFrame cid data b") blast+
    then show ?thesis
    proof cases
      case (frame f)
      let ?n = "int (length f)"
      show ?thesis
      proof (cases "mc_queuedBytes c + ?n > cfg_muxMaxQueuedBytesPerCircuit cfg \<or>
          ss_queuedBytes s + ?n > cfg_muxMaxQueuedBytesPerSocket cfg")
        case True
        then show ?thesis
          using Some c frame cfg mux_inv_closeCircuit [OF inv] by (simp add: ops)
      next
        case room: False
        let ?c = "c\<lparr>mc_queue := mc_queue c @ [f], mc_queuedBytes := mc_queuedBytes c + ?n\<rparr>"
        let ?s = "s\<lparr>ss_circuits := AList.update cid ?c (ss_circuits s), ss_queuedBytes := ss_queuedBytes s + ?n\<rparr>"
        have ok: "session_ok cfg s" using inv Some by (simp add: mux_inv_def)
        then have "circuit_ok cfg cid c" using c unfolding session_ok_def by blast
        then have c': "circuit_ok cfg cid ?c"
          using frame room unfolding circuit_ok_def by (auto simp: bytes_of_def)
        have u: "session_ok cfg ?s" "length (ss_circuits ?s) = length (ss_circuits s)"
          by (rule session_ok_update [OF ok c c']; use room in \<open>simp add: le_max_iff_disj\<close>)+
        let ?t = "scheduleDrain False ?s"
        have v: "view ?t = view ?s" by simp
        have "mux_inv cfg (set_session ws ?t mx)"
        proof (rule mux_inv_set_session [OF inv Some])
          show "ss_clientIp ?t = ss_clientIp s" "length (ss_circuits ?t) = length (ss_circuits s)"
            using v u(2) by (auto simp: view_def)
          show "session_ok cfg ?t" using session_ok_view [OF v] u(1) by simp
        qed
        then show ?thesis using Some c frame cfg room by (simp add: ops)
      qed
    qed (use Some c cfg inv mux_inv_closeCircuit [OF inv] in \<open>simp_all add: ops\<close>)
  qed (use Some inv in \<open>simp add: queueServerFrame_def\<close>)
qed (use inv in \<open>simp add: queueServerFrame_def\<close>)

lemma mux_inv_deliver: "mux_inv cfg mx \<Longrightarrow> mux_inv cfg (snd (deliver e mx))"
  by (cases e) (auto simp: mux_inv_queueServerFrame mux_inv_closeCircuit split: option.split)

lemma mux_inv_deliver_all: "mux_inv cfg mx \<Longrightarrow> mux_inv cfg (snd (deliver_all es mx))"
proof (induction es arbitrary: mx)
  case (Cons e es)
  from Cons.IH [OF mux_inv_deliver [OF Cons.prems, of e]] show ?case
    by (simp add: case_prod_unfold Let_def)
qed simp

lemma nextQueuedCircuit_view: "view (snd (nextQueuedCircuit s)) = view s"
  by (auto simp: nextQueuedCircuit_def Let_def split: option.split)

lemma session_ok_dequeue:
  assumes "session_ok cfg s" and "map_of (ss_circuits s) cid = Some c" and "mc_queue c \<noteq> []"
  shows "session_ok cfg (dequeue_frame cid c s)"
    and "length (ss_circuits (dequeue_frame cid c s)) = length (ss_circuits s)"
proof -
  obtain f q where q: "mc_queue c = f # q" using assms(3) by (cases "mc_queue c") auto
  let ?c = "c\<lparr>mc_queue := q, mc_queuedBytes := mc_queuedBytes c - int (length f)\<rparr>"
  have "circuit_ok cfg cid c" using assms(1,2) unfolding session_ok_def by blast
  then have c': "circuit_ok cfg cid ?c" using q by (auto simp: circuit_ok_def bytes_of_def)
  show "session_ok cfg (dequeue_frame cid c s)"
    and "length (ss_circuits (dequeue_frame cid c s)) = length (ss_circuits s)"
    by (rule session_ok_update [OF assms(1,2) c'];
        use assms(1) q in \<open>simp add: dequeue_frame_def Let_def session_ok_def\<close>)+
qed

lemma drain_loop_ok:
  "session_ok cfg s \<Longrightarrow> drain_loop cfg buffered i ws s = (effs, s', failed) \<Longrightarrow>
     session_ok cfg s' \<and> ss_clientIp s' = ss_clientIp s \<and> length (ss_circuits s') = length (ss_circuits s)"
proof (induction cfg buffered i ws s arbitrary: effs s' failed rule: drain_loop.induct)
  case (1 cfg buffered i ws s)
  show ?case
  proof (cases "ss_queuedBytes s > 0 \<and> buffered i \<le> cfg_muxBufferedAmountHighWaterBytes cfg")
    case True
    obtain r t where n: "nextQueuedCircuit s = (r, t)" by (cases "nextQueuedCircuit s")
    have v: "view t = view s" using nextQueuedCircuit_view [of s] n by simp
    have ok: "session_ok cfg t" using 1(2) session_ok_view [OF v] by simp
    have same: "ss_clientIp t = ss_clientIp s" "length (ss_circuits t) = length (ss_circuits s)"
      using v by (auto simp: view_def)
    show ?thesis
    proof (cases "\<exists>cid c. r = Some cid \<and> map_of (ss_circuits t) cid = Some c \<and> mc_queue c \<noteq> []")
      case False
      then have "s' = t"
        using True n 1(3) by (subst (asm) drain_loop.simps) (auto split: option.splits if_splits)
      then show ?thesis using ok same by simp
    next
      case found: True
      then obtain cid c where c: "r = Some cid" "map_of (ss_circuits t) cid = Some c" "mc_queue c \<noteq> []"
        by blast
      note dq = session_ok_dequeue [OF ok c(2,3)]
      have ip: "ss_clientIp (dequeue_frame cid c t) = ss_clientIp t"
        by (simp add: dequeue_frame_def Let_def)
      show ?thesis
      proof (cases "ss_sendThrows (dequeue_frame cid c t)")
        case throws: True
        then have "s' = (dequeue_frame cid c t)\<lparr>ss_open := False\<rparr>"
          using True n 1(3) c by (subst (asm) drain_loop.simps) simp
        then show ?thesis using dq ip same session_ok_view [of s' "dequeue_frame cid c t" cfg] by simp
      next
        case sent: False
        obtain e t' f where rec: "drain_loop cfg buffered (i + 1) ws (dequeue_frame cid c t) = (e, t', f)"
          by (metis prod_cases3)
        then have "s' = t'"
          using True n 1(3) c sent by (subst (asm) drain_loop.simps) simp
        then show ?thesis
          using 1(1) [OF _ n [symmetric] c(1) c(2) _ refl refl _ dq(1) rec] True c sent dq(2) ip same by simp
      qed
    qed
  qed (use 1(2,3) in \<open>subst (asm) drain_loop.simps, auto\<close>)
qed

lemma mux_inv_drain_timeout:
  assumes inv: "mux_inv cfg mx"
  shows "mux_inv cfg (snd (drain_timeout buffered ws mx))"
proof (cases "session_of mx ws")
  case (Some s)
  let ?s = "s\<lparr>ss_drainImmediate := False, ss_drainTimer := False\<rparr>"
  have v: "view ?s = view s" by simp
  have ok: "session_ok cfg ?s" using inv Some session_ok_view [OF v] by (simp add: mux_inv_def)
  obtain effs t failed where l: "drain_loop cfg buffered 0 ws ?s = (effs, t, failed)"
    by (metis prod_cases3)
  note loop = drain_loop_ok [OF ok l]
  have cfg: "mx_config mx = cfg" using inv by (simp add: mux_inv_def)
  have "mux_inv cfg (set_session ws u mx)" if "view u = view t \<or> view u = view ?s" for u
  proof (rule mux_inv_set_session [OF inv Some])
    show "ss_clientIp u = ss_clientIp s" "length (ss_circuits u) = length (ss_circuits s)"
      using that loop by (auto simp: view_def)
    show "session_ok cfg u" using that loop ok session_ok_view by blast
  qed
  then show ?thesis
    using Some inv l cfg by (simp add: drain_timeout_def drain_def Let_def)
qed (use inv in \<open>simp add: drain_timeout_def\<close>)

section \<open>Every event keeps the books\<close>

lemma mux_inv_recordInvalid:
  assumes "mux_inv cfg mx" and "session_of mx ws = Some s"
  shows "mux_inv cfg (set_session ws (snd (recordInvalid ws s)) mx)"
  by (rule mux_inv_same_books [OF assms(1) same_books_set_session [OF assms(2)]]) simp

text \<open>Telling the client about a bad message and counting it.\<close>

lemma mux_inv_told_invalid:
  assumes inv: "mux_inv cfg mx" and s: "session_of mx ws = Some s"
    and mx': "mx' = mx \<or> mx' = snd (sendError ws s cid r u mx)"
  shows "mux_inv cfg (set_session ws (snd (recordInvalid ws
     (case session_of mx' ws of Some t \<Rightarrow> t | None \<Rightarrow> s))) mx')"
proof -
  have inv': "mux_inv cfg mx'"
    using mx' inv mux_inv_same_books [OF inv same_books_sendError [OF s]] by auto
  obtain t where "session_of mx' ws = Some t"
    using mx' s session_sendError [OF s] by blast
  with mux_inv_recordInvalid [OF inv' this] show ?thesis by simp
qed

lemma mux_inv_handleData:
  assumes inv: "mux_inv cfg mx" and s: "session_of mx ws = Some s"
  shows "mux_inv cfg (snd (handleData ws buffer s mx))"
proof (cases "decodeRelayMuxDataFrame buffer")
  case (Inl e)
  obtain f cid where e: "e = RelayMuxFrameError f cid" by (cases e)
  let ?told = "case cid of
      Some c \<Rightarrow> if isRelayMuxCircuitId (Some (JNum c)) then sendError ws s c invalid_request None mx else ([], mx)
    | None \<Rightarrow> ([], mx)"
  have "\<exists>c. snd ?told = mx \<or> snd ?told = snd (sendError ws s c invalid_request None mx)"
    by (cases cid) auto
  then have "mux_inv cfg (set_session ws (snd (recordInvalid ws
      (case session_of (snd ?told) ws of Some t \<Rightarrow> t | None \<Rightarrow> s))) (snd ?told))"
    using mux_inv_told_invalid [OF inv s] by blast
  then show ?thesis
    by (simp add: handleData_def Let_def case_prod_unfold Inl e)
next
  case (Inr frame)
  show ?thesis
  proof (cases "map_of (ss_circuits s) (df_circuitId frame)")
    case None
    let ?mx = "snd (sendError ws s (df_circuitId frame) invalid_request None mx)"
    have "mux_inv cfg (set_session ws (snd (recordInvalid ws
        (case session_of ?mx ws of Some t \<Rightarrow> t | None \<Rightarrow> s))) ?mx)"
      using mux_inv_told_invalid [OF inv s] by blast
    then show ?thesis
      using Inr None by (simp add: handleData_def Let_def case_prod_unfold)
  next
    case (Some c)
    have "mux_inv cfg (mx\<lparr>mx_manager := cm\<rparr>)" for cm
      by (rule mux_inv_same_books [OF inv]) (simp add: same_books_def views_def)
    then show ?thesis
      using Inr Some mux_inv_closeCircuit [OF inv] mux_inv_deliver_all
      by (simp add: handleData_def Let_def case_prod_unfold)
  qed
qed

lemma mux_inv_onMessage:
  assumes inv: "mux_inv cfg mx"
  shows "mux_inv cfg (snd (mux_onMessage parse now ws k data b mx))"
proof (cases "session_of mx ws")
  case (Some s)
  show ?thesis
  proof (cases "ss_closed s \<or> b \<or> parse (rawDataToBuffer data) = None")
    case True
    then show ?thesis
      using Some inv mux_inv_handleData [OF inv Some] mux_inv_recordInvalid [OF inv Some]
      by (auto simp: mux_onMessage_def Let_def case_prod_unfold split: option.split)
  next
    case False
    then obtain msg where msg: "parse (rawDataToBuffer data) = Some msg" by auto
    have told: "mux_inv cfg (set_session ws (snd (recordInvalid ws
        (case session_of mx' ws of Some t \<Rightarrow> t | None \<Rightarrow> s))) mx')"
      if "mx' = mx \<or> mx' = snd (sendError ws s (circuit_field msg) invalid_request None mx)" for mx'
      by (rule mux_inv_told_invalid [OF inv Some that])
    show ?thesis
      using False Some msg told inv mux_inv_openCircuit [OF inv] mux_inv_closeCircuit [OF inv]
      by (simp add: mux_onMessage_def Let_def case_prod_unfold)
  qed
qed (use inv in \<open>simp add: mux_onMessage_def\<close>)

lemma closeCircuit_session:
  assumes "session_of mx ws = Some s"
  shows "\<exists>t. session_of (snd (closeCircuit ws cid r n srv mx)) ws = Some t \<and>
    ss_circuits t = AList.delete cid (ss_circuits s)"
proof (cases "map_of (ss_circuits s) cid")
  case None
  then have "AList.delete cid (ss_circuits s) = ss_circuits s" by (simp add: map_of_eq_None_iff)
  then show ?thesis using assms None by (simp add: closeCircuit_def)
next
  case (Some c)
  have keep: "ss_circuits (snd (sendControl ws m t)) = ss_circuits t" for m t
    by (simp add: sendControl_def)
  have "ss_circuits (clear_circuit cid c s) = AList.delete cid (ss_circuits s)"
    by (simp add: clear_circuit_def)
  then show ?thesis
    using assms Some by (simp add: closeCircuit_def Let_def case_prod_unfold keep)
qed

lemma close_circuits_session:
  "session_of mx ws = Some s \<Longrightarrow> \<exists>t. session_of (snd (close_circuits ws ids mx)) ws = Some t \<and>
     map fst (ss_circuits t) = filter (\<lambda>x. x \<notin> set ids) (map fst (ss_circuits s))"
proof (induction ids arbitrary: mx s)
  case (Cons cid ids)
  obtain t where t: "session_of (snd (closeCircuit ws cid relay_closed False True mx)) ws = Some t"
    "ss_circuits t = AList.delete cid (ss_circuits s)"
    using closeCircuit_session [OF Cons.prems] by blast
  have f: "filter (\<lambda>x. x \<notin> set ids) (filter (\<lambda>x. x \<noteq> cid) ks) = filter (\<lambda>x. x \<notin> set (cid # ids)) ks" for ks
    by (induction ks) auto
  from Cons.IH [OF t(1)] show ?case
    by (simp add: case_prod_unfold Let_def t(2) AList_delete_keys f)
qed simp

lemma mux_inv_close_circuits: "mux_inv cfg mx \<Longrightarrow> mux_inv cfg (snd (close_circuits ws ids mx))"
proof (induction ids arbitrary: mx)
  case (Cons cid ids)
  from Cons.IH [OF mux_inv_closeCircuit [OF Cons.prems]] show ?case
    by (simp add: case_prod_unfold Let_def)
qed simp

lemma mux_inv_forget_session:
  assumes inv: "mux_inv cfg mx" and s: "session_of mx ws = Some s" and e: "ss_circuits s = []"
  shows "mux_inv cfg (mx\<lparr>mx_sessions := AList.delete ws (mx_sessions mx)\<rparr>)" (is "mux_inv cfg ?mx")
proof -
  have dist: "distinct (map fst (mx_sessions mx))" using inv by (simp add: mux_inv_def)
  note s' = s [unfolded session_of_def]
  have "live ?mx ip = live mx ip" "live_total ?mx = live_total mx" for ip
    using sum_list_AList_delete [OF s' dist, of "\<lambda>s. if ss_clientIp s = ip then int (length (ss_circuits s)) else 0"]
      sum_list_AList_delete [OF s' dist, of "\<lambda>s. int (length (ss_circuits s))"] e
    by (auto simp: live_def live_total_def split: if_splits)
  moreover have "circuits_of_ip ?mx = circuits_of_ip mx" "closed_total ?mx = closed_total mx"
    by (simp_all add: circuits_of_ip_def closed_total_def fun_eq_iff)
  moreover have "\<forall>ws' t. session_of ?mx ws' = Some t \<longrightarrow> session_ok cfg t"
  proof (intro allI impI)
    fix ws' t assume "session_of ?mx ws' = Some t"
    then have "session_of mx ws' = Some t"
      by (auto simp: session_of_def map_of_delete split: if_splits)
    then show "session_ok cfg t" using inv unfolding mux_inv_def by blast
  qed
  ultimately show ?thesis using inv dist by (simp add: mux_inv_def distinct_delete)
qed

lemma mux_inv_onClose:
  assumes inv: "mux_inv cfg mx"
  shows "mux_inv cfg (snd (mux_onClose ws code reason mx))"
proof (cases "session_of mx ws")
  case (Some s)
  let ?s = "s\<lparr>ss_closed := True, ss_idleTimer := False, ss_drainImmediate := False, ss_drainTimer := False\<rparr>"
  let ?mx = "set_session ws ?s mx"
  have inv1: "mux_inv cfg ?mx"
    by (rule mux_inv_same_books [OF inv same_books_set_session [OF Some]]) simp
  obtain t where t: "session_of (snd (close_circuits ws (map fst (ss_circuits s)) ?mx)) ws = Some t"
    "map fst (ss_circuits t) = filter (\<lambda>x. x \<notin> set (map fst (ss_circuits s))) (map fst (ss_circuits s))"
    using close_circuits_session [of ?mx ws ?s "map fst (ss_circuits s)"] by auto
  then have "ss_circuits t = []" by (simp add: filter_empty_conv)
  from mux_inv_forget_session [OF mux_inv_close_circuits [OF inv1] t(1) this] show ?thesis
    using Some inv by (simp add: mux_onClose_def Let_def case_prod_unfold)
qed (use inv in \<open>simp add: mux_onClose_def\<close>)

lemma mux_inv_onOpen:
  assumes inv: "mux_inv cfg mx" and new: "session_of mx ws = None"
  shows "mux_inv cfg (snd (mux_onOpen ws ip mx))"
proof -
  obtain s where s: "snd (mux_onOpen ws ip mx) = set_session ws s mx" "ss_circuits s = []"
    "ss_circuitOrder s = []" "ss_queuedBytes s = 0"
    by (auto simp: mux_onOpen_def Let_def sendControl_def)
  have "ws \<notin> fst ` set (mx_sessions mx)" using new by (simp add: session_of_def map_of_eq_None_iff)
  then have app: "mx_sessions (set_session ws s mx) = mx_sessions mx @ [(ws, s)]"
    by (simp add: set_session_def AList_update_new)
  have "live (set_session ws s mx) = live mx" "live_total (set_session ws s mx) = live_total mx"
    by (simp_all add: live_def live_total_def app s fun_eq_iff)
  moreover have "circuits_of_ip (set_session ws s mx) = circuits_of_ip mx"
    "closed_total (set_session ws s mx) = closed_total mx"
    by (simp_all add: circuits_of_ip_def closed_total_def fun_eq_iff)
  moreover have "session_ok cfg s" by (simp add: session_ok_def s)
  moreover have "distinct (map fst (mx_sessions (set_session ws s mx)))"
    using inv by (simp add: set_session_def distinct_update mux_inv_def)
  ultimately show ?thesis using inv unfolding s(1) by (simp add: mux_inv_def)
qed

text \<open>A physical socket opens one session.\<close>

fun mux_ok :: "RelayMuxCoordinator \<Rightarrow> mux_op \<Rightarrow> bool" where
  "mux_ok mx (MuxOpened ws ip) = (session_of mx ws = None)"
| "mux_ok mx _ = True"

lemma mux_inv_step:
  assumes inv: "mux_inv cfg mx" and ok: "mux_ok mx x"
  shows "mux_inv cfg (snd (mux_step parse mx x))"
proof (cases x)
  case (MuxOpened ws ip)
  then show ?thesis using mux_inv_onOpen [OF inv] ok by simp
next
  case (IdleTimeout ws)
  have "mux_inv cfg (set_session ws t mx)" if "session_of mx ws = Some s" "view t = view s" for s t
    by (rule mux_inv_same_books [OF inv same_books_set_session [OF that]])
  then show ?thesis using IdleTimeout inv by (auto simp: idle_timeout_def split: option.split)
next
  case (SocketState ws opn throws)
  have "mux_inv cfg (set_session ws t mx)" if "session_of mx ws = Some s" "view t = view s" for s t
    by (rule mux_inv_same_books [OF inv same_books_set_session [OF that]])
  then show ?thesis using SocketState inv by (auto split: option.split)
next
  case (FromManager y)
  have "mux_inv cfg (mx\<lparr>mx_manager := cm\<rparr>)" for cm
    by (rule mux_inv_same_books [OF inv]) (simp add: same_books_def views_def)
  then show ?thesis using FromManager mux_inv_deliver_all by simp
qed (use inv in \<open>simp_all add: mux_inv_onMessage mux_inv_onClose mux_inv_drain_timeout\<close>)

lemma mux_inv_init: "mux_inv cfg (createMuxHandler cfg cm)"
  by (simp add: mux_inv_def createMuxHandler_def session_of_def circuits_of_ip_def live_def
      live_total_def closed_total_def)

interpretation mux_relay: invariant_machine "\<lambda>mx x. snd (mux_step parse mx x)" mux_ok
  "createMuxHandler cfg cm" "mux_inv cfg" for parse cfg cm
  by unfold_locales (auto simp: mux_inv_init mux_inv_step)

section \<open>What a drain sends\<close>

text \<open>The circuit a frame on the wire belongs to.\<close>

definition frame_circuit :: "bytes \<Rightarrow> js_number option" where
  "frame_circuit f = (case decodeRelayMuxDataFrame f of Inr d \<Rightarrow> Some (df_circuitId d) | Inl _ \<Rightarrow> None)"

lemma frame_circuit_encoded:
  assumes "encodeRelayMuxDataFrame cid p b = Inr f"
  shows "frame_circuit f = Some cid"
proof -
  let ?d = "\<lparr>df_circuitId = cid, df_isBinary = b, df_payload = p\<rparr>"
  have "valid_frame ?d"
    using assms by (auto simp: valid_frame_def encodeRelayMuxDataFrame_def split: if_splits)
  moreover have "encode_frame ?d = Inr f" using assms by (simp add: encode_frame_def)
  ultimately have "decodeRelayMuxDataFrame f = Inr ?d" by (rule mux_frame.decode_encode)
  then show ?thesis by (simp add: frame_circuit_def)
qed

lemma queued_frame_circuit:
  assumes "session_ok cfg s" and "map_of (ss_circuits s) cid = Some c" and "f \<in> set (mc_queue c)"
  shows "frame_circuit f = Some cid"
proof -
  have "circuit_ok cfg cid c" using assms(1,2) unfolding session_ok_def by blast
  then show ?thesis using assms(3) frame_circuit_encoded by (auto simp: circuit_ok_def list_all_iff)
qed

definition queue_of :: "RelayMuxSession \<Rightarrow> js_number \<Rightarrow> bytes list" where
  "queue_of s cid = (case map_of (ss_circuits s) cid of Some c \<Rightarrow> mc_queue c | None \<Rightarrow> [])"

lemma queue_of_dequeue:
  "map_of (ss_circuits s) cid = Some c \<Longrightarrow>
     queue_of (dequeue_frame cid c s) cid' = (if cid' = cid then tl (mc_queue c) else queue_of s cid')"
  by (simp add: queue_of_def dequeue_frame_def Let_def map_of_update)

lemma has_queued_queue_of: "has_queued s cid \<longleftrightarrow> queue_of s cid \<noteq> []"
  by (simp add: has_queued_def queue_of_def split: option.split)

lemma queue_of_view: "view t = view s \<Longrightarrow> queue_of t = queue_of s"
  by (simp add: view_def queue_of_def fun_eq_iff)

text \<open>One round of the loop, when no send throws.\<close>

lemma drain_loop_step:
  assumes "drain_loop cfg buffered i ws s = (effs, s', failed)" and "\<not> ss_sendThrows s"
  obtains (stop) "effs = []" "view s' = view s" "failed = False"
  | (send) cid t c rest where "ss_queuedBytes s > 0" "buffered i \<le> cfg_muxBufferedAmountHighWaterBytes cfg"
      "nextQueuedCircuit s = (Some cid, t)" "view t = view s" "\<not> ss_sendThrows t"
      "map_of (ss_circuits t) cid = Some c" "mc_queue c \<noteq> []"
      "effs = SendFrame ws (hd (mc_queue c)) # rest"
      "drain_loop cfg buffered (i + 1) ws (dequeue_frame cid c t) = (rest, s', failed)"
proof -
  obtain r t where n: "nextQueuedCircuit s = (r, t)" by (cases "nextQueuedCircuit s")
  have v: "view t = view s" using nextQueuedCircuit_view [of s] n by simp
  have th: "\<not> ss_sendThrows t"
    using n assms(2) by (auto simp: nextQueuedCircuit_def Let_def split: option.splits)
  have th': "ss_sendThrows (dequeue_frame cid c t) = ss_sendThrows t" for cid c
    by (simp add: dequeue_frame_def Let_def)
  show ?thesis
  proof (cases "ss_queuedBytes s > 0 \<and> buffered i \<le> cfg_muxBufferedAmountHighWaterBytes cfg \<and>
      (\<exists>cid c. r = Some cid \<and> map_of (ss_circuits t) cid = Some c \<and> mc_queue c \<noteq> [])")
    case False
    then have "effs = [] \<and> (s' = s \<or> s' = t) \<and> failed = False"
      using assms(1) n by (subst (asm) drain_loop.simps) (auto split: option.splits if_splits)
    then show ?thesis using stop v by auto
  next
    case True
    then obtain cid c where c: "r = Some cid" "map_of (ss_circuits t) cid = Some c" "mc_queue c \<noteq> []"
      by blast
    obtain e t' f where rec: "drain_loop cfg buffered (i + 1) ws (dequeue_frame cid c t) = (e, t', f)"
      by (metis prod_cases3)
    then have "effs = SendFrame ws (hd (mc_queue c)) # e \<and> s' = t' \<and> failed = f"
      using True n assms(1) c th th' by (subst (asm) drain_loop.simps) simp
    then show ?thesis using send [of cid t c e] True n c v th rec by simp
  qed
qed

lemma drain_loop_throws:
  "\<not> ss_sendThrows t \<Longrightarrow> \<not> ss_sendThrows (dequeue_frame cid c t)"
  by (simp add: dequeue_frame_def Let_def)

lemma drain_loop_fifo:
  assumes "session_ok cfg s" and "\<not> ss_sendThrows s"
    and "drain_loop cfg buffered i ws s = (effs, s', failed)"
  shows "failed = False \<and> (\<exists>fs. effs = map (SendFrame ws) fs \<and>
    (\<forall>cid. filter (\<lambda>f. frame_circuit f = Some cid) fs @ queue_of s' cid = queue_of s cid))"
  using assms
proof (induction "queued_frames s" arbitrary: s effs i rule: less_induct)
  case less
  from less.prems(3,2) show ?case
  proof (cases rule: drain_loop_step)
    case stop
    then show ?thesis using queue_of_view [OF stop(2)] by (intro conjI exI [of _ "[]"]) simp_all
  next
    case (send cid t c rest)
    have ok: "session_ok cfg t" using less.prems(1) session_ok_view [OF send(4)] by simp
    have "queued_frames (dequeue_frame cid c t) < queued_frames s"
      by (rule drain_step_decreases [OF send(3) [symmetric] send(6,7)])
    from less.hyps [OF this session_ok_dequeue(1) [OF ok send(6,7)] drain_loop_throws [OF send(5)] send(9)]
    obtain fs where fs: "failed = False" "rest = map (SendFrame ws) fs"
      "\<And>i. filter (\<lambda>f. frame_circuit f = Some i) fs @ queue_of s' i = queue_of (dequeue_frame cid c t) i"
      by blast
    have hd: "frame_circuit (hd (mc_queue c)) = Some cid"
      by (rule queued_frame_circuit [OF ok send(6)]) (simp add: send(7))
    have "filter (\<lambda>f. frame_circuit f = Some i) (hd (mc_queue c) # fs) @ queue_of s' i = queue_of s i" for i
    proof (cases "i = cid")
      case True
      have "queue_of t cid = mc_queue c" using send(6) by (simp add: queue_of_def)
      then have "queue_of s cid = mc_queue c" using queue_of_view [OF send(4)] by simp
      then show ?thesis using True fs(3) [of i] hd send(7) queue_of_dequeue [OF send(6), of i] by simp
    next
      case False
      then show ?thesis
        using fs(3) [of i] hd queue_of_dequeue [OF send(6), of i] queue_of_view [OF send(4)] by simp
    qed
    then show ?thesis using fs(1,2) send(8) by (intro conjI exI [of _ "hd (mc_queue c) # fs"]) simp_all
  qed
qed

text \<open>How many circuits come before \<open>cid\<close> from the cursor on and around.\<close>

definition turns :: "RelayMuxSession \<Rightarrow> js_number \<Rightarrow> nat" where
  "turns s cid = (LEAST d. d < length (ss_circuitOrder s) \<and>
     ss_circuitOrder s ! ((ss_drainCursor s + d) mod length (ss_circuitOrder s)) = cid)"

lemma turns_exists:
  assumes "cid \<in> set (ss_circuitOrder s)"
  shows "\<exists>d < length (ss_circuitOrder s).
    ss_circuitOrder s ! ((ss_drainCursor s + d) mod length (ss_circuitOrder s)) = cid"
proof -
  let ?n = "length (ss_circuitOrder s)"
  from assms obtain j where j: "j < ?n" "ss_circuitOrder s ! j = cid" by (auto simp: in_set_conv_nth)
  let ?d = "(j + ?n - ss_drainCursor s mod ?n) mod ?n"
  have "(ss_drainCursor s + ?d) mod ?n = (ss_drainCursor s mod ?n + (j + ?n - ss_drainCursor s mod ?n)) mod ?n"
    by (simp add: mod_simps)
  also have "ss_drainCursor s mod ?n + (j + ?n - ss_drainCursor s mod ?n) = j + ?n"
  proof -
    have "ss_drainCursor s mod ?n < ?n" using j(1) by (intro mod_less_divisor) linarith
    then show ?thesis by simp
  qed
  finally have "(ss_drainCursor s + ?d) mod ?n = j" using j(1) by simp
  moreover have "?d < ?n" using j(1) by (intro mod_less_divisor) linarith
  ultimately show ?thesis using j(2) by (intro exI [of _ ?d]) simp
qed

lemma turns_props:
  assumes "cid \<in> set (ss_circuitOrder s)"
  shows "turns s cid < length (ss_circuitOrder s)"
    "ss_circuitOrder s ! ((ss_drainCursor s + turns s cid) mod length (ss_circuitOrder s)) = cid"
  using LeastI_ex [of "\<lambda>d. d < length (ss_circuitOrder s) \<and>
     ss_circuitOrder s ! ((ss_drainCursor s + d) mod length (ss_circuitOrder s)) = cid"]
    turns_exists [OF assms] unfolding turns_def by blast+

lemma find_upt_least:
  "List.find P [0..<n] = Some k \<Longrightarrow> d < n \<Longrightarrow> P d \<Longrightarrow> k \<le> d"
  by (auto simp: find_Some_iff) (metis add_0 diff_zero leI length_upt nth_upt)

lemma next_turn:
  assumes n: "nextQueuedCircuit s = (Some cid, t)" and q: "has_queued s i"
    and mem: "i \<in> set (ss_circuitOrder s)" and ne: "i \<noteq> cid"
  shows "turns t i < turns s i"
proof -
  let ?o = "ss_circuitOrder s" and ?n = "length (ss_circuitOrder s)"
  obtain k where k: "List.find (\<lambda>d. has_queued s (?o ! ((ss_drainCursor s + d) mod ?n))) [0..<?n] = Some k"
    and cid: "cid = ?o ! ((ss_drainCursor s + k) mod ?n)"
    and t: "t = s\<lparr>ss_drainCursor := ((ss_drainCursor s + k) mod ?n + 1) mod ?n\<rparr>"
    using n by (auto simp: nextQueuedCircuit_def Let_def split: option.splits)
  note tp = turns_props [OF mem]
  have "k \<le> turns s i" by (rule find_upt_least [OF k tp(1)]) (simp add: tp(2) q)
  moreover have "k \<noteq> turns s i" using tp(2) cid ne by auto
  ultimately have lt: "k < turns s i" by simp
  let ?d = "turns s i - k - 1"
  have "((ss_drainCursor s + k) mod ?n + 1 + ?d) mod ?n = (ss_drainCursor s + turns s i) mod ?n"
  proof -
    have "ss_drainCursor s + k + 1 + ?d = ss_drainCursor s + turns s i" using lt by simp
    moreover have "((ss_drainCursor s + k) mod ?n + 1 + ?d) mod ?n = (ss_drainCursor s + k + 1 + ?d) mod ?n"
      by (metis add.assoc mod_add_left_eq)
    ultimately show ?thesis by (simp only:)
  qed
  moreover have "(ss_drainCursor t + ?d) mod ?n = ((ss_drainCursor s + k) mod ?n + 1 + ?d) mod ?n"
  proof -
    have "ss_drainCursor t = ((ss_drainCursor s + k) mod ?n + 1) mod ?n" by (simp add: t)
    then show ?thesis by (simp only: mod_add_left_eq [of "(ss_drainCursor s + k) mod ?n + 1" ?n ?d])
  qed
  moreover have "ss_circuitOrder t = ?o" by (simp add: t)
  moreover have "?d < ?n" using tp(1) by simp
  ultimately have "?d < length (ss_circuitOrder t) \<and>
      ss_circuitOrder t ! ((ss_drainCursor t + ?d) mod length (ss_circuitOrder t)) = i"
    using tp(2) by (simp only:)
  then have "turns t i \<le> ?d" unfolding turns_def by (intro Least_le)
  then show ?thesis using lt by simp
qed

lemma drain_loop_fair:
  assumes "session_ok cfg s" and "\<not> ss_sendThrows s"
    and "drain_loop cfg buffered i ws s = (map (SendFrame ws) fs, s', failed)"
    and "has_queued s cid" and "turns s cid < length fs"
  shows "\<exists>f \<in> set (take (Suc (turns s cid)) fs). frame_circuit f = Some cid"
  using assms
proof (induction "queued_frames s" arbitrary: s fs i rule: less_induct)
  case less
  from less.prems(3,2) show ?case
  proof (cases rule: drain_loop_step)
    case (send cid' t c rest)
    then obtain fs' where fs: "fs = hd (mc_queue c) # fs'" "rest = map (SendFrame ws) fs'"
      by (cases fs) auto
    have ok: "session_ok cfg t" using less.prems(1) session_ok_view [OF send(4)] by simp
    have hd: "frame_circuit (hd (mc_queue c)) = Some cid'"
      by (rule queued_frame_circuit [OF ok send(6)]) (simp add: send(7))
    show ?thesis
    proof (cases "cid = cid'")
      case True
      then show ?thesis using fs(1) hd by simp
    next
      case False
      let ?d = "dequeue_frame cid' c t"
      have order: "ss_circuitOrder s = map fst (ss_circuits s)"
        using less.prems(1) by (simp add: session_ok_def)
      have mem: "cid \<in> set (ss_circuitOrder s)"
        using less.prems(4) unfolding order has_queued_def
        by (auto split: option.splits dest!: map_of_SomeD intro: rev_image_eqI)
      have fewer: "turns t cid < turns s cid"
        by (rule next_turn [OF send(3) less.prems(4) mem False])
      have "turns ?d cid = turns t cid" by (simp add: turns_def dequeue_frame_def Let_def)
      moreover have "has_queued ?d cid"
        using less.prems(4) False queue_of_view [OF send(4)] queue_of_dequeue [OF send(6), of cid]
        unfolding has_queued_queue_of by simp
      moreover have "queued_frames ?d < queued_frames s"
        by (rule drain_step_decreases [OF send(3) [symmetric] send(6,7)])
      ultimately have "\<exists>f \<in> set (take (Suc (turns t cid)) fs'). frame_circuit f = Some cid"
        using less.hyps [of ?d "i + 1" fs'] session_ok_dequeue(1) [OF ok send(6,7)]
          drain_loop_throws [OF send(5)] send(9) fs less.prems(5) fewer by simp
      then obtain f where f: "f \<in> set (take (Suc (turns t cid)) fs')" "frame_circuit f = Some cid"
        by blast
      have "set (take (Suc (turns t cid)) fs') \<subseteq> set (take (turns s cid) fs')"
        using fewer by (intro set_take_subset_set_take) simp
      then show ?thesis using f fs(1) by auto
    qed
  qed (use less.prems(5) in simp)
qed

section \<open>Properties\<close>

definition mux_reached ::
  "(bytes \<Rightarrow> json option) \<Rightarrow> MuxConfig \<Rightarrow> ConnectionManager \<Rightarrow> mux_op list \<Rightarrow> RelayMuxCoordinator \<Rightarrow> bool"
where
  "mux_reached parse cfg cm ops mx =
     (permitted (\<lambda>mx x. snd (mux_step parse mx x)) mux_ok (createMuxHandler cfg cm) ops \<and>
      mx = foldl (\<lambda>mx x. snd (mux_step parse mx x)) (createMuxHandler cfg cm) ops)"

lemma mux_reached_inv: "mux_reached parse cfg cm ops mx \<Longrightarrow> mux_inv cfg mx"
  unfolding mux_reached_def using mux_relay.inv_run by blast

text \<open>
  C7 Bounded memory. Whatever clients, servers and timers do, the bytes a mux session counts are
  the bytes it holds, no session holds more than its bound, no circuit more than its own, no
  session has more circuits than allowed, and every queued frame belongs to the circuit it is
  queued for.
\<close>
theorem mux_memory_bounded:
  assumes "mux_reached parse cfg cm ops mx" and "session_of mx ws = Some s"
  shows "ss_queuedBytes s = (\<Sum>(_, c) \<leftarrow> ss_circuits s. \<Sum>f \<leftarrow> mc_queue c. int (length f)) \<and>
    ss_queuedBytes s \<le> max 0 (cfg_muxMaxQueuedBytesPerSocket cfg) \<and>
    int (length (ss_circuits s)) \<le> max 0 (cfg_muxMaxCircuitsPerSocket cfg) \<and>
    (\<forall>(cid, c) \<in> set (ss_circuits s).
       (\<Sum>f \<leftarrow> mc_queue c. int (length f)) \<le> max 0 (cfg_muxMaxQueuedBytesPerCircuit cfg) \<and>
       (\<forall>f \<in> set (mc_queue c). frame_circuit f = Some cid))"
proof -
  have ok: "session_ok cfg s"
    using mux_reached_inv [OF assms(1)] assms(2) unfolding mux_inv_def by blast
  have c: "circuit_ok cfg cid c \<and> map_of (ss_circuits s) cid = Some c" if "(cid, c) \<in> set (ss_circuits s)" for cid c
    using ok that unfolding session_ok_def by (metis map_of_is_SomeI)
  have "map (\<lambda>(_, c). mc_queuedBytes c) (ss_circuits s) = map (\<lambda>(_, c). bytes_of (mc_queue c)) (ss_circuits s)"
    using c by (intro map_cong) (auto simp: circuit_ok_def)
  moreover have "ss_queuedBytes s = (\<Sum>(_, c) \<leftarrow> ss_circuits s. mc_queuedBytes c)"
    using ok by (simp add: session_ok_def)
  ultimately have "ss_queuedBytes s = (\<Sum>(_, c) \<leftarrow> ss_circuits s. bytes_of (mc_queue c))"
    by (simp only:)
  moreover have "bytes_of (mc_queue c) \<le> max 0 (cfg_muxMaxQueuedBytesPerCircuit cfg) \<and>
      (\<forall>f \<in> set (mc_queue c). frame_circuit f = Some cid)" if "(cid, c) \<in> set (ss_circuits s)" for cid c
    using c [OF that] queued_frame_circuit [OF ok] by (auto simp: circuit_ok_def)
  moreover have "ss_queuedBytes s \<le> max 0 (cfg_muxMaxQueuedBytesPerSocket cfg)"
    "int (length (ss_circuits s)) \<le> max 0 (cfg_muxMaxCircuitsPerSocket cfg)"
    using ok by (simp_all add: session_ok_def)
  ultimately show ?thesis unfolding bytes_of_def by blast
qed

text \<open>
  C8 The coordinator's books. For every client address the number of live circuits is the one
  counted and respects the per-address limit, the status reports the circuits that live, and
  every circuit ever opened is either live or counted once among the closed ones.
\<close>
theorem mux_books_balance:
  assumes "mux_reached parse cfg cm ops mx"
  shows "circuits_of_ip mx ip = live mx ip \<and> live mx ip \<le> max 0 (cfg_muxMaxCircuitsPerIp cfg) \<and>
    rs_liveCircuits (getStatus mx) = live_total mx \<and>
    int (rs_openedTotal (getStatus mx)) = rs_liveCircuits (getStatus mx) +
      int (rs_closedByReason (getStatus mx) client_closed + rs_closedByReason (getStatus mx) server_closed +
           rs_closedByReason (getStatus mx) relay_closed)"
proof -
  have inv: "mux_inv cfg mx" by (rule mux_reached_inv [OF assms])
  have dist: "distinct (map fst (mx_circuitsByIp mx))" and books: "circuits_of_ip mx i = live mx i" for i
    using inv by (simp_all add: mux_inv_def)
  let ?K = "fst ` set (mx_circuitsByIp mx)" and ?len = "\<lambda>s. int (length (ss_circuits s))"
  have swap: "(\<Sum>i\<in>?K. \<Sum>(_, s) \<leftarrow> m. if ss_clientIp s = i then ?len s else 0) =
      (\<Sum>(_, s) \<leftarrow> m. if ss_clientIp s \<in> ?K then ?len s else 0)" for m :: "(ident \<times> RelayMuxSession) list"
    by (induction m) (auto simp: sum.distrib sum.delta' split: prod.splits)
  have "foldl (+) 0 (map snd (mx_circuitsByIp mx)) = sum_list (map snd (mx_circuitsByIp mx))"
  proof -
    have "foldl (+) a xs = a + sum_list xs" for a :: int and xs
      by (induction xs arbitrary: a) auto
    then show ?thesis by simp
  qed
  also have "\<dots> = (\<Sum>i\<in>?K. circuits_of_ip mx i)"
  proof -
    have "(\<Sum>(i, n) \<leftarrow> mx_circuitsByIp mx. n) = (\<Sum>x\<in>set (mx_circuitsByIp mx). snd x)"
      using dist by (simp add: sum_list_distinct_conv_sum_set distinct_map case_prod_unfold)
    also have "\<dots> = (\<Sum>x\<in>set (mx_circuitsByIp mx). circuits_of_ip mx (fst x))"
      using dist by (intro sum.cong) (auto simp: circuits_of_ip_def dest: map_of_is_SomeI)
    also have "\<dots> = (\<Sum>i\<in>?K. circuits_of_ip mx i)"
      using dist by (simp add: sum.reindex distinct_map)
    finally show ?thesis by (simp add: case_prod_unfold)
  qed
  also have "\<dots> = (\<Sum>(_, s) \<leftarrow> mx_sessions mx. if ss_clientIp s \<in> ?K then ?len s else 0)"
    using swap [of "mx_sessions mx"] by (simp add: books live_def)
  also have "\<dots> = live_total mx"
  proof -
    have "?len s = 0" if "(ws, s) \<in> set (mx_sessions mx)" "ss_clientIp s \<notin> ?K" for ws s
    proof -
      have "live mx (ss_clientIp s) = 0"
        using that(2) unfolding books [symmetric] circuits_of_ip_def
        by (simp add: map_of_eq_None_iff [THEN iffD2])
      moreover have "?len s \<le> live mx (ss_clientIp s)"
        unfolding live_def using that(1)
        by (intro member_le_sum_list) (auto intro: rev_image_eqI)
      ultimately show ?thesis by simp
    qed
    then show ?thesis
      unfolding live_total_def by (intro arg_cong [where f = sum_list] map_cong) auto
  qed
  finally have "rs_liveCircuits (getStatus mx) = live_total mx" by (simp add: getStatus_def)
  then show ?thesis
    using inv by (simp add: mux_inv_def getStatus_def closed_total_def)
qed

text \<open>
  A small relay: \<open>alice\<close>'s server waits on socket 1, a browser (socket 10) opens circuit 5 to it,
  and the server sends one frame. A text frame of one byte is one of the messages below.
\<close>

fun sample_mux_parse :: "bytes \<Rightarrow> json option" where
  "sample_mux_parse [b] =
     (if b = 1 then Some (JObj [(''type'', JStr ''mux_open''), (''circuitId'', JNum (js_nat 5)),
                                (''username'', JStr ''alice''), (''channel'', JStr ''app'')])
      else None)"
| "sample_mux_parse _ = None"

definition sample_cfg :: MuxConfig where
  "sample_cfg =
     \<lparr>cfg_muxMaxCircuitsPerSocket = 5, cfg_muxMaxCircuitsPerIp = 20,
      cfg_muxOpenAttemptsPerMinutePerSocket = 20, cfg_muxOpenAttemptsPerMinutePerIp = 60,
      cfg_muxOpenAttemptsPerMinutePerIpUsername = 6, cfg_muxMaxFrameBytes = 4,
      cfg_muxMaxQueuedBytesPerCircuit = 100, cfg_muxMaxQueuedBytesPerSocket = 100,
      cfg_muxBufferedAmountHighWaterBytes = 10\<rparr>"

definition sample_mux_ops :: "mux_op list" where
  "sample_mux_ops =
     [FromManager (OpRegister 1 1 ''alice'' ''i'' no_metadata App), MuxOpened 10 ''ip'',
      MuxMessage 2 10 100 (Buffer [1]) False, FromManager (OpForward 1 [7, 8] True)]"

definition sample_mux :: RelayMuxCoordinator where
  "sample_mux = foldl (\<lambda>mx x. snd (mux_step sample_mux_parse mx x))
     (createMuxHandler sample_cfg (newConnectionManager [] 0)) sample_mux_ops"

lemma sample_mux_reached:
  "mux_reached sample_mux_parse sample_cfg (newConnectionManager [] 0) sample_mux_ops sample_mux"
proof -
  have "permitted (\<lambda>mx x. snd (mux_step sample_mux_parse mx x)) mux_ok
      (createMuxHandler sample_cfg (newConnectionManager [] 0)) sample_mux_ops"
    by code_simp
  then show ?thesis by (simp add: mux_reached_def sample_mux_def)
qed

lemma sample_mux_session:
  "\<exists>s. session_of sample_mux 10 = Some s \<and> ss_queuedBytes s = 8 \<and> ss_drainImmediate s \<and>
     ss_open s \<and> \<not> ss_closed s \<and> \<not> ss_sendThrows s"
proof -
  have "(case session_of sample_mux 10 of
      Some s \<Rightarrow> ss_queuedBytes s = 8 \<and> ss_drainImmediate s \<and> ss_open s \<and> \<not> ss_closed s \<and> \<not> ss_sendThrows s
    | None \<Rightarrow> False)"
    by code_simp
  then show ?thesis by (auto split: option.splits)
qed

lemma mux_memory_bounded_witness:
  "\<exists>s. session_of sample_mux 10 = Some s \<and> ss_queuedBytes s = 8 \<and>
     (\<Sum>(_, c) \<leftarrow> ss_circuits s. \<Sum>f \<leftarrow> mc_queue c. int (length f)) = 8"
proof -
  obtain s where "session_of sample_mux 10 = Some s" "ss_queuedBytes s = 8"
    using sample_mux_session by blast
  with mux_memory_bounded [OF sample_mux_reached this(1)] show ?thesis by simp
qed

lemma mux_books_balance_witness: "circuits_of_ip sample_mux ''ip'' = live sample_mux ''ip''"
  using mux_books_balance [OF sample_mux_reached] by blast

text \<open>
  Draining keeps order and is fair. When a drain runs and no send throws, it sends whole queued
  frames only; for every circuit, the frames sent for it followed by those still queued are the
  frames that were queued, in order; and when it sends at least as many frames as there are
  circuits, every circuit that had something to send is served.
\<close>
theorem mux_drain_order:
  assumes "mux_reached parse cfg cm ops mx" and "session_of mx ws = Some s"
    and "ss_drainImmediate s \<or> ss_drainTimer s" and "ss_open s" "\<not> ss_closed s" "\<not> ss_sendThrows s"
    and "drain_timeout buffered ws mx = (effs, mx')"
  shows "\<exists>fs s'. effs = map (SendFrame ws) fs \<and> session_of mx' ws = Some s' \<and>
    (\<forall>cid. filter (\<lambda>f. frame_circuit f = Some cid) fs @ queue_of s' cid = queue_of s cid) \<and>
    (\<forall>cid. queue_of s cid \<noteq> [] \<longrightarrow> length (ss_circuits s) \<le> length fs \<longrightarrow>
       Some cid \<in> frame_circuit ` set (take (length (ss_circuits s)) fs))"
proof -
  let ?s = "s\<lparr>ss_drainImmediate := False, ss_drainTimer := False\<rparr>"
  have inv: "mux_inv cfg mx" by (rule mux_reached_inv [OF assms(1)])
  have v: "view ?s = view s" by simp
  have ok: "session_ok cfg ?s" using inv assms(2) session_ok_view [OF v] by (simp add: mux_inv_def)
  obtain effs' t failed where l: "drain_loop cfg buffered 0 ws ?s = (effs', t, failed)"
    by (metis prod_cases3)
  have th: "\<not> ss_sendThrows ?s" using assms(6) by simp
  from drain_loop_fifo [OF ok th l] obtain fs where fs: "failed = False" "effs' = map (SendFrame ws) fs"
    "\<And>cid. filter (\<lambda>f. frame_circuit f = Some cid) fs @ queue_of t cid = queue_of ?s cid" by blast
  have cfg: "mx_config mx = cfg" using inv by (simp add: mux_inv_def)
  let ?t = "if ss_queuedBytes t > 0 then scheduleDrain True t else t"
  have m: "effs = effs'" "mx' = set_session ws ?t mx"
    using assms(2-5,7) l fs(1) cfg by (auto simp: drain_timeout_def drain_def Let_def)
  have "queue_of ?t = queue_of t" "queue_of ?s = queue_of s"
    using queue_of_view [OF view_scheduleDrain, of True t] queue_of_view [OF v] by auto
  moreover have "Some cid \<in> frame_circuit ` set (take (length (ss_circuits s)) fs)"
    if q: "queue_of s cid \<noteq> []" and many: "length (ss_circuits s) \<le> length fs" for cid
  proof -
    have q': "has_queued ?s cid" using q \<open>queue_of ?s = queue_of s\<close> by (simp add: has_queued_queue_of)
    have order: "ss_circuitOrder ?s = map fst (ss_circuits ?s)" using ok by (simp add: session_ok_def)
    have "cid \<in> set (ss_circuitOrder ?s)"
      using q' unfolding order has_queued_def
      by (auto split: option.splits dest!: map_of_SomeD intro: rev_image_eqI)
    from turns_props(1) [OF this] order have n: "turns ?s cid < length (ss_circuits s)" by simp
    then obtain f where f: "f \<in> set (take (Suc (turns ?s cid)) fs)" "frame_circuit f = Some cid"
      using drain_loop_fair [OF ok th l [unfolded fs(2)] q'] many by auto
    moreover have "set (take (Suc (turns ?s cid)) fs) \<subseteq> set (take (length (ss_circuits s)) fs)"
      using n by (intro set_take_subset_set_take) simp
    ultimately have "f \<in> set (take (length (ss_circuits s)) fs)" by blast
    then show ?thesis by (intro image_eqI [of _ _ f]) (simp_all add: f(2))
  qed
  moreover have "effs = map (SendFrame ws) fs" "session_of mx' ws = Some ?t"
    by (simp_all add: m fs(2))
  ultimately show ?thesis
    using fs(3) by (intro exI [of _ fs] exI [of _ ?t] conjI allI impI) simp_all
qed

lemma mux_drain_order_witness:
  "\<exists>fs. fst (drain_timeout (\<lambda>_. 0) 10 sample_mux) = map (SendFrame 10) fs"
proof -
  obtain s where "session_of sample_mux 10 = Some s" "ss_drainImmediate s" "ss_open s" "\<not> ss_closed s"
    "\<not> ss_sendThrows s"
    using sample_mux_session by blast
  then show ?thesis
    using mux_drain_order [OF sample_mux_reached, of 10 s "\<lambda>_. 0"] by (metis prod.collapse)
qed

text \<open>The defaults of \<open>loadConfig\<close> in \<open>packages/relay/src/config.ts\<close>.\<close>

definition default_mux_config :: MuxConfig where
  "default_mux_config =
     \<lparr>cfg_muxMaxCircuitsPerSocket = 5, cfg_muxMaxCircuitsPerIp = 20,
      cfg_muxOpenAttemptsPerMinutePerSocket = 20, cfg_muxOpenAttemptsPerMinutePerIp = 60,
      cfg_muxOpenAttemptsPerMinutePerIpUsername = 6, cfg_muxMaxFrameBytes = 2 * 1024 * 1024,
      cfg_muxMaxQueuedBytesPerCircuit = 2 * 1024 * 1024,
      cfg_muxMaxQueuedBytesPerSocket = 8 * 1024 * 1024,
      cfg_muxBufferedAmountHighWaterBytes = 1024 * 1024\<rparr>"

text \<open>
  C9 The largest frame cannot be delivered. Under the default limits a server frame within the
  announced \<open>maxFrameBytes\<close> but less than the six header bytes below it never fits the circuit's
  queue, even an empty one: the circuit is closed instead.
\<close>
theorem full_size_frame_closes_circuit:
  assumes "mux_reached parse default_mux_config cm ops mx" and "session_of mx ws = Some s"
    and "\<not> ss_closed s" and "map_of (ss_circuits s) cid = Some c"
    and "isRelayMuxCircuitId (Some (JNum cid))"
    and "int (length data) \<le> cfg_muxMaxFrameBytes default_mux_config"
    and "int (length data) + 6 > cfg_muxMaxFrameBytes default_mux_config"
  shows "queueServerFrame ws cid data b mx = closeCircuit ws cid relay_closed True True mx"
proof -
  have inv: "mux_inv default_mux_config mx" by (rule mux_reached_inv [OF assms(1)])
  then have "circuit_ok default_mux_config cid c"
    using assms(2,4) unfolding mux_inv_def session_ok_def by blast
  then have "0 \<le> mc_queuedBytes c" by (rule circuit_bytes_nonneg)
  moreover obtain f where f: "encodeRelayMuxDataFrame cid data b = Inr f"
    using assms(5) by (auto simp: encodeRelayMuxDataFrame_def)
  moreover have "length f = 6 + length data"
    using encode_frame_length [OF f] by (simp add: mux_constants)
  moreover have "mx_config mx = default_mux_config" using inv by (simp add: mux_inv_def)
  ultimately show ?thesis
    using assms(2-4,6,7) by (simp add: queueServerFrame_def Let_def default_mux_config_def)
qed

definition default_mux :: RelayMuxCoordinator where
  "default_mux = foldl (\<lambda>mx x. snd (mux_step sample_mux_parse mx x))
     (createMuxHandler default_mux_config (newConnectionManager [] 0)) (butlast sample_mux_ops)"

lemma full_size_frame_closes_circuit_witness:
  "queueServerFrame 10 (js_nat 5) (replicate (2 * 1024 * 1024) 0) True default_mux =
     closeCircuit 10 (js_nat 5) relay_closed True True default_mux"
proof -
  have "permitted (\<lambda>mx x. snd (mux_step sample_mux_parse mx x)) mux_ok
      (createMuxHandler default_mux_config (newConnectionManager [] 0)) (butlast sample_mux_ops)"
    by code_simp
  then have r: "mux_reached sample_mux_parse default_mux_config (newConnectionManager [] 0)
      (butlast sample_mux_ops) default_mux"
    by (simp add: mux_reached_def default_mux_def)
  have "(case session_of default_mux 10 of
      Some s \<Rightarrow> \<not> ss_closed s \<and> map_of (ss_circuits s) (js_nat 5) \<noteq> None | None \<Rightarrow> False)"
    by code_simp
  then obtain s c where "session_of default_mux 10 = Some s" "\<not> ss_closed s"
    "map_of (ss_circuits s) (js_nat 5) = Some c" by (auto split: option.splits)
  moreover have "isRelayMuxCircuitId (Some (JNum (js_nat 5)))" by code_simp
  ultimately show ?thesis
    by (intro full_size_frame_closes_circuit [OF r])
      (simp_all add: default_mux_config_def)
qed

section \<open>Open attempts\<close>

lemma prune_list_sorted: "sorted l \<Longrightarrow> prune_list w l = filter (\<lambda>x. w < x) l"
proof (induction l)
  case (Cons x l)
  then show ?case
    by (cases "x \<le> w") (auto simp: prune_list_def intro!: filter_True [symmetric])
qed (simp add: prune_list_def)

text \<open>The attempts of one key, as \<open>canOpen\<close> prunes, records and judges them one after the other.\<close>

fun admitted :: "int \<Rightarrow> int list \<Rightarrow> int list \<Rightarrow> int list" where
  "admitted limit attempts [] = []"
| "admitted limit attempts (now # later) =
     (let (attempts, ok) = recordBoundedAttempt (prune_list (now - RATE_WINDOW_MS) attempts) now limit
      in (if ok then [now] else []) @ admitted limit attempts later)"

definition window_bounded :: "int \<Rightarrow> int list \<Rightarrow> bool" where
  "window_bounded limit past =
     (\<forall>t \<in> set past. int (length (filter (\<lambda>x. t - RATE_WINDOW_MS < x \<and> x \<le> t) past)) \<le> limit)"

lemma admitted_window:
  assumes "sorted ts" and "sorted attempts"
    and "\<And>x t. x \<in> set attempts \<union> set past \<Longrightarrow> t \<in> set ts \<Longrightarrow> x \<le> t"
    and "\<And>t. t \<in> set ts \<Longrightarrow> start \<le> t - RATE_WINDOW_MS"
    and "\<And>w. start \<le> w \<Longrightarrow> length (filter (\<lambda>x. w < x) past) \<le> length (filter (\<lambda>x. w < x) attempts)"
    and "window_bounded limit past"
  shows "window_bounded limit (past @ admitted limit attempts ts)"
  using assms
proof (induction ts arbitrary: attempts past start)
  case (Cons now ts)
  let ?cut = "now - RATE_WINDOW_MS"
  let ?kept = "filter (\<lambda>x. ?cut < x) attempts"
  let ?past = "if int (length ?kept) + 1 \<le> limit then past @ [now] else past"
  have run: "past @ admitted limit attempts (now # ts) = ?past @ admitted limit (?kept @ [now]) ts"
    using prune_list_sorted [OF Cons.prems(2)] by (simp add: recordBoundedAttempt_def Let_def)
  have more: "length (filter (\<lambda>x. w < x) (past @ [now])) \<le> length (filter (\<lambda>x. w < x) (?kept @ [now]))"
    if "?cut \<le> w" for w
  proof -
    have "filter (\<lambda>x. w < x) ?kept = filter (\<lambda>x. w < x) attempts"
      using that by (auto intro!: filter_cong)
    moreover have "length (filter (\<lambda>x. w < x) past) \<le> length (filter (\<lambda>x. w < x) attempts)"
      using Cons.prems(4) [of now] that by (intro Cons.prems(5)) simp
    ultimately show ?thesis by simp
  qed
  have bounded: "window_bounded limit ?past"
  proof (cases "int (length ?kept) + 1 \<le> limit")
    case True
    have "length (filter (\<lambda>x. ?cut < x \<and> x \<le> now) l) \<le> length (filter (\<lambda>x. ?cut < x) l)" for l
      by (induction l) auto
    then have "length (filter (\<lambda>x. ?cut < x \<and> x \<le> now) (past @ [now])) \<le>
        length (filter (\<lambda>x. ?cut < x) (past @ [now]))"
      by blast
    also have "\<dots> \<le> length (?kept @ [now])"
      using more [of ?cut] length_filter_le [of "\<lambda>x. ?cut < x" "?kept @ [now]"] by linarith
    finally have here: "int (length (filter (\<lambda>x. ?cut < x \<and> x \<le> now) (past @ [now]))) \<le> limit"
      using True by simp
    have "int (length (filter (\<lambda>x. t - RATE_WINDOW_MS < x \<and> x \<le> t) (past @ [now]))) \<le> limit"
      if t: "t \<in> set (past @ [now])" for t
    proof (cases "t = now")
      case False
      then have "t \<in> set past" "t < now" using t Cons.prems(3) [of t now] by auto
      then show ?thesis using Cons.prems(6) by (simp add: window_bounded_def)
    qed (use here in simp)
    then show ?thesis using True by (simp add: window_bounded_def)
  qed (use Cons.prems(6) in simp)
  have "window_bounded limit (?past @ admitted limit (?kept @ [now]) ts)"
  proof (rule Cons.IH)
    show "sorted ts" using Cons.prems(1) by simp
    show "sorted (?kept @ [now])"
      using Cons.prems(2,3) by (auto simp: sorted_append sorted_wrt_filter)
    show "x \<le> t" if "x \<in> set (?kept @ [now]) \<union> set ?past" "t \<in> set ts" for x t
      using that Cons.prems(1,3) by (auto split: if_splits)
    show "?cut \<le> t - RATE_WINDOW_MS" if "t \<in> set ts" for t using that Cons.prems(1) by simp
    show "length (filter (\<lambda>x. w < x) ?past) \<le> length (filter (\<lambda>x. w < x) (?kept @ [now]))"
      if "?cut \<le> w" for w
      using more [OF that] by (auto split: if_splits)
    show "window_bounded limit ?past" by (rule bounded)
  qed
  then show ?case by (simp only: run)
qed simp

text \<open>
  The open limits hold over every minute, not only over fixed intervals: of any sequence of
  attempts under one key, judged as \<open>canOpen\<close> judges them on a clock that does not run backwards,
  at most \<open>limit\<close> are admitted within the 60 seconds up to any admitted one.
\<close>
theorem open_attempts_limited:
  assumes "sorted ts" and "t \<in> set (admitted limit [] ts)"
  shows "int (length (filter (\<lambda>x. t - RATE_WINDOW_MS < x \<and> x \<le> t) (admitted limit [] ts))) \<le> limit"
proof -
  have "window_bounded limit ([] @ admitted limit [] ts)"
  proof (cases ts)
    case (Cons now later)
    show ?thesis
      by (rule admitted_window [where start = "now - RATE_WINDOW_MS"])
        (use assms(1) Cons in \<open>auto simp: window_bounded_def\<close>)
  qed (simp add: window_bounded_def)
  then show ?thesis using assms(2) by (simp add: window_bounded_def)
qed

lemma open_attempts_limited_witness:
  "length (filter (\<lambda>x. 70000 - RATE_WINDOW_MS < x \<and> x \<le> 70000) (admitted 2 [] [0, 1, 2, 70000])) \<le> 2"
proof -
  have "sorted [0, 1, 2, 70000 :: int]" by simp
  moreover have "70000 \<in> set (admitted 2 [] [0, 1, 2, 70000])"
    by (simp add: recordBoundedAttempt_def prune_list_def RATE_WINDOW_MS_def)
  ultimately show ?thesis using open_attempts_limited [of "[0, 1, 2, 70000]" 70000 2] by simp
qed

end
