(* ===== verification/Limiters.thy ===== *)
theory Limiters
  imports Connections
begin

text \<open>
  Admission limits: the cap on unauthenticated sockets per client address
  (\<open>packages/relay/src/unauthenticated-limiter.ts\<close>) and the fixed-window request limiter of the
  push broker (\<open>packages/push-broker/src/rate-limiter.ts\<close>).

  Both keep a JavaScript \<open>Map\<close>, an insertion-ordered association list here. Both are driven by
  calls and interpret \<open>invariant_machine\<close>. Clock readings are arguments (\<open>Date.now\<close> is an integer
  number of milliseconds).
\<close>

declare map_of_eq_Some_iff [simp del]

section \<open>Unauthenticated connections\<close>

text \<open>
  A tracked socket maps to its address and to whether its timeout is still pending. The
  \<open>WeakMap\<close> never drops a socket that can still be released.
\<close>

record UnauthenticatedConnectionLimiter =
  ul_limitPerIp :: int
  ul_countsByIp :: "(string \<times> int) list"
  ul_socketsByWs :: "(ident \<times> string \<times> bool) list"

definition newUnauthenticatedConnectionLimiter :: "int \<Rightarrow> UnauthenticatedConnectionLimiter" where
  "newUnauthenticatedConnectionLimiter limit =
     \<lparr>ul_limitPerIp = limit, ul_countsByIp = [], ul_socketsByWs = []\<rparr>"

definition count_or :: "int \<Rightarrow> (string \<times> int) list \<Rightarrow> string \<Rightarrow> int" where
  "count_or d m ip = (case map_of m ip of Some n \<Rightarrow> n | None \<Rightarrow> d)"

definition canAccept :: "UnauthenticatedConnectionLimiter \<Rightarrow> string \<Rightarrow> bool" where
  "canAccept l ip = (ul_limitPerIp l \<le> 0 \<or> count_or 0 (ul_countsByIp l) ip < ul_limitPerIp l)"

definition track :: "ident \<Rightarrow> string \<Rightarrow> UnauthenticatedConnectionLimiter \<Rightarrow> UnauthenticatedConnectionLimiter" where
  "track ws ip l =
     (if ul_limitPerIp l \<le> 0 then l
      else l\<lparr>ul_countsByIp := AList.update ip (count_or 0 (ul_countsByIp l) ip + 1) (ul_countsByIp l),
             ul_socketsByWs := AList.update ws (ip, True) (ul_socketsByWs l)\<rparr>)"

definition release :: "ident \<Rightarrow> UnauthenticatedConnectionLimiter \<Rightarrow> UnauthenticatedConnectionLimiter" where
  "release ws l =
     (case map_of (ul_socketsByWs l) ws of
        None \<Rightarrow> l
      | Some (ip, _) \<Rightarrow>
          (let nextCount = count_or 1 (ul_countsByIp l) ip - 1
           in l\<lparr>ul_socketsByWs := AList.delete ws (ul_socketsByWs l),
                ul_countsByIp :=
                  (if nextCount > 0 then AList.update ip nextCount (ul_countsByIp l)
                   else AList.delete ip (ul_countsByIp l))\<rparr>))"

text \<open>
  The timeout of a socket fires: the socket is closed with code 1008, and stays counted until its
  close event releases it. The first component is the sockets closed.
\<close>

definition unauthenticated_timeout ::
  "ident \<Rightarrow> UnauthenticatedConnectionLimiter \<Rightarrow> (ident \<times> nat) list \<times> UnauthenticatedConnectionLimiter"
where
  "unauthenticated_timeout ws l =
     (case map_of (ul_socketsByWs l) ws of
        Some (ip, True) \<Rightarrow> ([(ws, 1008)], l\<lparr>ul_socketsByWs := AList.update ws (ip, False) (ul_socketsByWs l)\<rparr>)
      | _ \<Rightarrow> ([], l))"

text \<open>
  The upgrade handler of \<open>packages/relay/src/server.ts\<close>: an address over its cap is refused, any
  other socket is tracked at once.
\<close>

definition admit_upgrade :: "ident \<Rightarrow> string \<Rightarrow> UnauthenticatedConnectionLimiter \<Rightarrow> bool \<times> UnauthenticatedConnectionLimiter" where
  "admit_upgrade ws ip l = (if canAccept l ip then (True, track ws ip l) else (False, l))"

datatype limiter_op = Upgrade ident string | Release ident | Timeout ident

fun limiter_step :: "UnauthenticatedConnectionLimiter \<Rightarrow> limiter_op \<Rightarrow> UnauthenticatedConnectionLimiter" where
  "limiter_step l (Upgrade ws ip) = snd (admit_upgrade ws ip l)"
| "limiter_step l (Release ws) = release ws l"
| "limiter_step l (Timeout ws) = snd (unauthenticated_timeout ws l)"

text \<open>Each socket is a new object: it is upgraded once.\<close>

fun limiter_ok :: "UnauthenticatedConnectionLimiter \<Rightarrow> limiter_op \<Rightarrow> bool" where
  "limiter_ok l (Upgrade ws ip) = (map_of (ul_socketsByWs l) ws = None)"
| "limiter_ok l _ = True"

text \<open>The abstract view: the sockets tracked for an address.\<close>

definition tracked :: "UnauthenticatedConnectionLimiter \<Rightarrow> string \<Rightarrow> ident list" where
  "tracked l ip = map fst (filter (\<lambda>(ws, i, _). i = ip) (ul_socketsByWs l))"

definition limiter_inv :: "int \<Rightarrow> UnauthenticatedConnectionLimiter \<Rightarrow> bool" where
  "limiter_inv limit l =
     (ul_limitPerIp l = limit \<and> distinct (map fst (ul_socketsByWs l)) \<and>
      (limit \<le> 0 \<longrightarrow> ul_socketsByWs l = []) \<and>
      (\<forall>ip. map_of (ul_countsByIp l) ip =
        (if tracked l ip = [] then None else Some (int (length (tracked l ip))))) \<and>
      (\<forall>ip. 0 < limit \<longrightarrow> int (length (tracked l ip)) \<le> limit))"

lemma count_or_tracked:
  "limiter_inv limit l \<Longrightarrow> count_or 0 (ul_countsByIp l) ip = int (length (tracked l ip))"
  by (simp add: limiter_inv_def count_or_def)

lemma canAccept_iff:
  "limiter_inv limit l \<Longrightarrow> canAccept l ip \<longleftrightarrow> limit \<le> 0 \<or> int (length (tracked l ip)) < limit"
  by (simp add: canAccept_def count_or_tracked) (simp add: limiter_inv_def)

lemma tracked_release:
  assumes "distinct (map fst (ul_socketsByWs l))" and "map_of (ul_socketsByWs l) ws = Some (i, p)"
  shows "length (tracked l ip) =
    length (filter (\<lambda>(w, i, _). i = ip) (AList.delete ws (ul_socketsByWs l))) + (if i = ip then 1 else 0)"
  using length_filter_delete [OF assms, of "\<lambda>(w, i, _). i = ip"] by (simp add: tracked_def)

lemma limiter_inv_track:
  assumes "limiter_inv limit l" and "map_of (ul_socketsByWs l) ws = None" and "canAccept l ip"
  shows "limiter_inv limit (track ws ip l)"
proof (cases "limit \<le> 0")
  case True
  with assms show ?thesis by (simp add: limiter_inv_def track_def)
next
  case False
  with assms(1) have lim: "\<not> ul_limitPerIp l \<le> 0" by (simp add: limiter_inv_def)
  have t: "tracked (track ws ip l) i = tracked l i @ (if i = ip then [ws] else [])" for i
    using lim by (simp add: track_def tracked_def update_absent [OF assms(2)])
  have "int (length (tracked l ip)) < limit"
    using assms(1,3) False by (simp add: canAccept_iff)
  then show ?thesis
    using assms(1,2) lim count_or_tracked [OF assms(1), of ip]
    by (auto simp: limiter_inv_def t omap_simps) (auto simp: track_def omap_simps)
qed

lemma limiter_inv_release:
  assumes inv: "limiter_inv limit l"
  shows "limiter_inv limit (release ws l)"
proof (cases "map_of (ul_socketsByWs l) ws")
  case None
  with inv show ?thesis by (simp add: release_def)
next
  case (Some e)
  obtain i p where e: "e = (i, p)" by (cases e)
  have dist: "distinct (map fst (ul_socketsByWs l))" using inv by (simp add: limiter_inv_def)
  note len = tracked_release [OF dist Some [unfolded e]]
  have cnt: "count_or 1 (ul_countsByIp l) i = int (length (tracked l i))"
    using inv len [of i] by (auto simp: limiter_inv_def count_or_def)
  have t: "length (tracked l ip) = length (tracked (release ws l) ip) + (if i = ip then 1 else 0)" for ip
    using len [of ip] Some e by (simp add: release_def tracked_def Let_def)
  have m: "map_of (ul_countsByIp (release ws l)) =
      (map_of (ul_countsByIp l))(i := (if tracked (release ws l) i = [] then None
         else Some (int (length (tracked (release ws l) i)))))"
    using Some e cnt t [of i] by (auto simp: release_def Let_def omap_simps)
  have "map_of (ul_countsByIp (release ws l)) ip =
      (if tracked (release ws l) ip = [] then None else Some (int (length (tracked (release ws l) ip))))" for ip
  proof (cases "ip = i")
    case False
    then have "length (tracked l ip) = length (tracked (release ws l) ip)" using t [of ip] by simp
    moreover from this have "tracked l ip = [] \<longleftrightarrow> tracked (release ws l) ip = []" by (metis length_0_conv)
    ultimately show ?thesis using False inv unfolding limiter_inv_def m by simp
  qed (simp add: m)
  moreover have "int (length (tracked (release ws l) ip)) \<le> limit" if "0 < limit" for ip
    using inv t [of ip] that unfolding limiter_inv_def by (smt (verit) of_nat_le_iff le_add1)
  moreover have "ul_limitPerIp (release ws l) = limit" "distinct (map fst (ul_socketsByWs (release ws l)))"
    "limit \<le> 0 \<longrightarrow> ul_socketsByWs (release ws l) = []"
    using inv Some e by (auto simp: release_def Let_def omap_simps limiter_inv_def)
  ultimately show ?thesis by (simp add: limiter_inv_def)
qed

lemma tracked_timeout: "tracked (snd (unauthenticated_timeout ws l)) ip = tracked l ip"
proof -
  have "map_of m ws = Some (i, True) \<Longrightarrow> distinct (map fst m) \<Longrightarrow>
      map fst (filter (\<lambda>(w, i, _). i = ip) (AList.update ws (i, False) m)) =
      map fst (filter (\<lambda>(w, i, _). i = ip) m)" for i and m :: "(ident \<times> string \<times> bool) list"
    by (induction m) auto
  then have "map_of m ws = Some (i, True) \<Longrightarrow>
      map fst (filter (\<lambda>(w, i, _). i = ip) (AList.update ws (i, False) m)) =
      map fst (filter (\<lambda>(w, i, _). i = ip) m)" for i and m :: "(ident \<times> string \<times> bool) list"
    by (induction m) auto
  then show ?thesis
    by (auto simp: unauthenticated_timeout_def tracked_def split: option.split bool.split)
qed

lemma limiter_inv_timeout: "limiter_inv limit l \<Longrightarrow> limiter_inv limit (snd (unauthenticated_timeout ws l))"
  unfolding limiter_inv_def tracked_timeout
  by (auto simp: unauthenticated_timeout_def omap_simps split: option.split bool.split)

interpretation unauthenticated: invariant_machine limiter_step limiter_ok
  "newUnauthenticatedConnectionLimiter limit" "limiter_inv limit"
proof
  show "limiter_inv limit (newUnauthenticatedConnectionLimiter limit)"
    by (simp add: limiter_inv_def newUnauthenticatedConnectionLimiter_def tracked_def)
  show "limiter_inv limit l \<Longrightarrow> limiter_ok l x \<Longrightarrow> limiter_inv limit (limiter_step l x)" for l x
    by (cases x)
       (auto simp: admit_upgrade_def limiter_inv_track limiter_inv_release limiter_inv_timeout)
qed

text \<open>The sockets of a history: which were upgraded from an address and are not released yet.\<close>

fun unreleased :: "UnauthenticatedConnectionLimiter \<Rightarrow> limiter_op list \<Rightarrow> (ident \<times> string) set \<Rightarrow> (ident \<times> string) set" where
  "unreleased l [] S = S"
| "unreleased l (x # xs) S =
     unreleased (limiter_step l x) xs
       (case x of
          Upgrade ws ip \<Rightarrow> if fst (admit_upgrade ws ip l) then insert (ws, ip) S else S
        | Release ws \<Rightarrow> {(w, i) \<in> S. w \<noteq> ws}
        | Timeout ws \<Rightarrow> S)"

definition sockets_of :: "UnauthenticatedConnectionLimiter \<Rightarrow> (ident \<times> string) set" where
  "sockets_of l = {(ws, ip). ws \<in> set (tracked l ip)}"

lemma sockets_of_map:
  "distinct (map fst (ul_socketsByWs l)) \<Longrightarrow>
     sockets_of l = {(ws, ip). \<exists>p. map_of (ul_socketsByWs l) ws = Some (ip, p)}"
  unfolding sockets_of_def tracked_def by (force simp: map_of_eq_Some_iff)

lemma unreleased_tracked:
  assumes "0 < limit" and "limiter_inv limit l" and "permitted limiter_step limiter_ok l xs"
  shows "unreleased l xs (sockets_of l) = sockets_of (foldl limiter_step l xs)"
  using assms(2-)
proof (induction xs arbitrary: l)
  case (Cons x xs)
  have inv': "limiter_inv limit (limiter_step l x)"
    using Cons.prems by (auto intro: unauthenticated.inv_step)
  have lim: "\<not> ul_limitPerIp l \<le> 0" using Cons.prems assms(1) by (simp add: limiter_inv_def)
  have dist: "distinct (map fst (ul_socketsByWs l))" "distinct (map fst (ul_socketsByWs (limiter_step l x)))"
    using Cons.prems(1) inv' by (simp_all add: limiter_inv_def)
  have step: "sockets_of (limiter_step l x) = (case x of
          Upgrade ws ip \<Rightarrow> if fst (admit_upgrade ws ip l) then insert (ws, ip) (sockets_of l) else sockets_of l
        | Release ws \<Rightarrow> {(w, i) \<in> sockets_of l. w \<noteq> ws}
        | Timeout ws \<Rightarrow> sockets_of l)"
  proof (cases x)
    case (Upgrade ws ip)
    then show ?thesis
      using Cons.prems(2) dist lim
      by (auto simp: admit_upgrade_def track_def sockets_of_map map_of_update split: if_splits)
  next
    case (Release ws)
    then show ?thesis
      using dist unfolding sockets_of_map [OF dist(1)] sockets_of_map [OF dist(2)]
      by (auto simp: release_def Let_def map_of_delete split: option.splits if_splits)
  next
    case (Timeout ws)
    then show ?thesis by (simp add: sockets_of_def tracked_timeout)
  qed
  have "unreleased l (x # xs) (sockets_of l) = unreleased (limiter_step l x) xs (sockets_of (limiter_step l x))"
    by (simp only: unreleased.simps step)
  also have "\<dots> = sockets_of (foldl limiter_step (limiter_step l x) xs)"
    using Cons.prems by (intro Cons.IH inv') simp
  finally show ?case by simp
qed simp

text \<open>
  C10 The cap on unauthenticated sockets. Over any history of upgrades, releases and timeouts, an
  address never has more admitted and unreleased sockets than the limit, and the next socket from
  it is admitted exactly if it has fewer: the counts neither leak nor forget a socket.
\<close>
theorem unauthenticated_sockets_capped:
  assumes "0 < limit"
    and "permitted limiter_step limiter_ok (newUnauthenticatedConnectionLimiter limit) xs"
    and "l = foldl limiter_step (newUnauthenticatedConnectionLimiter limit) xs"
    and "S = {ws. (ws, ip) \<in> unreleased (newUnauthenticatedConnectionLimiter limit) xs {}}"
  shows "finite S \<and> int (card S) \<le> limit \<and> (canAccept l ip \<longleftrightarrow> int (card S) < limit)"
proof -
  let ?l0 = "newUnauthenticatedConnectionLimiter limit"
  have inv: "limiter_inv limit l" unfolding assms(3) by (rule unauthenticated.inv_run [OF assms(2)])
  have "sockets_of ?l0 = {}" by (simp add: sockets_of_def tracked_def newUnauthenticatedConnectionLimiter_def)
  with unreleased_tracked [OF assms(1) unauthenticated.inv_init assms(2)]
  have S: "S = set (tracked l ip)" by (simp add: assms(3,4) sockets_of_def)
  have "distinct (tracked l ip)"
    using inv unfolding limiter_inv_def tracked_def by (metis distinct_map_filter)
  then have "card S = length (tracked l ip)" by (simp add: S distinct_card)
  with inv assms(1) show ?thesis by (simp add: S canAccept_iff) (simp add: limiter_inv_def)
qed

definition sample_upgrades :: "limiter_op list" where
  "sample_upgrades = [Upgrade 1 ''a'', Upgrade 2 ''a'', Upgrade 3 ''a'', Release 1, Timeout 2]"

lemma unauthenticated_sockets_capped_witness:
  "\<exists>S. S = {ws. (ws, ''a'') \<in> unreleased (newUnauthenticatedConnectionLimiter 2) sample_upgrades {}} \<and>
     int (card S) \<le> 2 \<and>
     canAccept (foldl limiter_step (newUnauthenticatedConnectionLimiter 2) sample_upgrades) ''a'' = (int (card S) < 2)"
proof -
  have "permitted limiter_step limiter_ok (newUnauthenticatedConnectionLimiter 2) sample_upgrades"
    by code_simp
  from unauthenticated_sockets_capped [OF _ this refl refl] show ?thesis by simp
qed

section \<open>Fixed-window rate limiter\<close>

record WindowEntry =
  we_window :: int
  we_count :: int

record RateLimitResult =
  allowed :: bool
  retryAfterSeconds :: int

record FixedWindowRateLimiter =
  rl_entries :: "(string \<times> WindowEntry) list"
  rl_limit :: int
  rl_windowMs :: int
  rl_maxEntries :: int

fun int_of_js :: "js_number \<Rightarrow> int" where
  "int_of_js (Num r) = \<lfloor>r\<rfloor>"
| "int_of_js _ = 0"

definition positive_integer :: "js_number \<Rightarrow> bool" where
  "positive_integer x = (js_isInteger x \<and> \<not> js_less x (js_nat 1))"

definition newFixedWindowRateLimiter ::
  "js_number \<Rightarrow> js_number \<Rightarrow> js_number option \<Rightarrow> string + FixedWindowRateLimiter"
where
  "newFixedWindowRateLimiter limit windowMs maxEntries =
     (if \<not> positive_integer limit then Inl ''Rate limit must be a positive integer''
      else if \<not> positive_integer windowMs then Inl ''Rate-limit window must be a positive integer''
      else if (case maxEntries of Some m \<Rightarrow> \<not> positive_integer m | None \<Rightarrow> False)
      then Inl ''Rate-limit capacity must be a positive integer''
      else Inr \<lparr>rl_entries = [], rl_limit = int_of_js limit, rl_windowMs = int_of_js windowMs,
                rl_maxEntries = (case maxEntries of Some m \<Rightarrow> int_of_js m | None \<Rightarrow> 10000)\<rparr>)"

text \<open>The loop of \<open>remember\<close>: while there are too many entries, the oldest one goes.\<close>

fun evict :: "int \<Rightarrow> (string \<times> WindowEntry) list \<Rightarrow> (string \<times> WindowEntry) list" where
  "evict maxEntries [] = []"
| "evict maxEntries (e # es) =
     (if int (length (e # es)) > maxEntries then evict maxEntries es else e # es)"

definition remember :: "string \<Rightarrow> WindowEntry \<Rightarrow> FixedWindowRateLimiter \<Rightarrow> FixedWindowRateLimiter" where
  "remember key entry l =
     l\<lparr>rl_entries := evict (rl_maxEntries l) (AList.update key entry (AList.delete key (rl_entries l)))\<rparr>"

text \<open>\<open>Math.ceil(x / k)\<close> of an integer is \<open>- (- x div k)\<close>.\<close>

definition consume :: "string \<Rightarrow> int \<Rightarrow> FixedWindowRateLimiter \<Rightarrow> RateLimitResult \<times> FixedWindowRateLimiter" where
  "consume key now l =
     (let window = now div rl_windowMs l;
          ok = \<lparr>allowed = True, retryAfterSeconds = 0\<rparr>;
          start = (ok, remember key \<lparr>we_window = window, we_count = 1\<rparr> l)
      in case map_of (rl_entries l) key of
           None \<Rightarrow> start
         | Some existing \<Rightarrow>
             if we_window existing \<noteq> window then start
             else
               let retry = max 1 (- (- ((window + 1) * rl_windowMs l - now) div 1000))
               in if we_count existing \<ge> rl_limit l
                  then (\<lparr>allowed = False, retryAfterSeconds = retry\<rparr>, remember key existing l)
                  else (ok, remember key \<lparr>we_window = window, we_count = we_count existing + 1\<rparr> l))"

definition rl_size :: "FixedWindowRateLimiter \<Rightarrow> nat" where
  "rl_size l = length (rl_entries l)"

text \<open>A sequence of requests, each a clock reading and a key, and which of them are allowed.\<close>

definition consume_step :: "FixedWindowRateLimiter \<Rightarrow> int \<times> string \<Rightarrow> FixedWindowRateLimiter" where
  "consume_step l x = snd (consume (snd x) (fst x) l)"

fun decisions :: "FixedWindowRateLimiter \<Rightarrow> (int \<times> string) list \<Rightarrow> bool list" where
  "decisions l [] = []"
| "decisions l (x # xs) = allowed (fst (consume (snd x) (fst x) l)) # decisions (consume_step l x) xs"

lemma evict_drop: "evict cap es = drop (length es - nat cap) es"
  by (induction es) (auto simp: drop_Cons' Suc_diff_le split: if_splits)

lemma evict_fits: "int (length es) \<le> cap \<Longrightarrow> evict cap es = es"
  by (cases es) auto

lemma length_evict: "0 \<le> cap \<Longrightarrow> int (length (evict cap es)) \<le> cap"
  by (simp add: evict_drop)

lemma set_evict: "set (evict cap es) \<subseteq> set es"
  by (simp add: evict_drop set_drop_subset)

lemma distinct_evict: "distinct (map fst es) \<Longrightarrow> distinct (map fst (evict cap es))"
  by (simp add: evict_drop flip: drop_map)

lemma remember_entries:
  "rl_entries (remember k e l) = evict (rl_maxEntries l) (AList.delete k (rl_entries l) @ [(k, e)])"
  by (simp add: remember_def update_absent map_of_delete)

lemma remember_fields [simp]:
  "rl_limit (remember k e l) = rl_limit l" "rl_windowMs (remember k e l) = rl_windowMs l"
  "rl_maxEntries (remember k e l) = rl_maxEntries l"
  by (simp_all add: remember_def)

definition rl_inv :: "FixedWindowRateLimiter \<Rightarrow> FixedWindowRateLimiter \<Rightarrow> bool" where
  "rl_inv l0 l =
     (rl_limit l = rl_limit l0 \<and> rl_windowMs l = rl_windowMs l0 \<and> rl_maxEntries l = rl_maxEntries l0 \<and>
      0 < rl_limit l0 \<and> 0 < rl_windowMs l0 \<and> 0 < rl_maxEntries l0 \<and>
      distinct (map fst (rl_entries l)) \<and> int (length (rl_entries l)) \<le> rl_maxEntries l0 \<and>
      (\<forall>(k, e) \<in> set (rl_entries l). 1 \<le> we_count e \<and> we_count e \<le> rl_limit l0))"

lemma rl_inv_entry:
  "rl_inv l0 l \<Longrightarrow> map_of (rl_entries l) k = Some e \<Longrightarrow> 1 \<le> we_count e \<and> we_count e \<le> rl_limit l0"
  unfolding rl_inv_def by (auto dest: map_of_SomeD)

lemma rl_inv_remember:
  assumes inv: "rl_inv l0 l" and e: "1 \<le> we_count e" "we_count e \<le> rl_limit l0"
  shows "rl_inv l0 (remember k e l)"
proof -
  let ?es = "AList.delete k (rl_entries l) @ [(k, e)]"
  have "distinct (map fst ?es)" using inv by (auto simp: rl_inv_def AList.delete_eq distinct_map_filter)
  moreover have "\<forall>(k, e) \<in> set ?es. 1 \<le> we_count e \<and> we_count e \<le> rl_limit l0"
    using inv e by (auto simp: rl_inv_def AList.delete_eq)
  ultimately show ?thesis
    using inv set_evict [of "rl_maxEntries l" ?es]
    by (auto simp: rl_inv_def remember_entries distinct_evict length_evict)
qed

text \<open>What a call remembers for its key: a new window, the old entry, or one more request.\<close>

definition next_entry :: "FixedWindowRateLimiter \<Rightarrow> int \<times> string \<Rightarrow> WindowEntry" where
  "next_entry l x =
     (let w = fst x div rl_windowMs l
      in case map_of (rl_entries l) (snd x) of
           None \<Rightarrow> \<lparr>we_window = w, we_count = 1\<rparr>
         | Some old \<Rightarrow>
             if we_window old \<noteq> w then \<lparr>we_window = w, we_count = 1\<rparr>
             else if we_count old \<ge> rl_limit l then old
             else \<lparr>we_window = w, we_count = we_count old + 1\<rparr>)"

lemma consume_step_entry: "consume_step l x = remember (snd x) (next_entry l x) l"
  by (simp add: consume_step_def consume_def next_entry_def Let_def split: option.split)

lemma allowed_iff:
  "allowed (fst (consume k now l)) \<longleftrightarrow>
     \<not> (\<exists>e. map_of (rl_entries l) k = Some e \<and> we_window e = now div rl_windowMs l \<and> rl_limit l \<le> we_count e)"
  by (simp add: consume_def Let_def split: option.split)

lemma rl_inv_consume:
  assumes "rl_inv l0 l"
  shows "rl_inv l0 (consume_step l x)"
proof -
  have "1 \<le> we_count (next_entry l x) \<and> we_count (next_entry l x) \<le> rl_limit l0"
    using rl_inv_entry [OF assms, of "snd x"] assms
    by (fastforce simp: next_entry_def Let_def rl_inv_def split: option.split)
  then show ?thesis by (simp add: consume_step_entry rl_inv_remember [OF assms])
qed

lemma positive_integer_int: "positive_integer x \<Longrightarrow> 0 < int_of_js x"
  by (cases x) (auto simp: positive_integer_def js_nat_def less_floor_iff not_less)

lemma rl_inv_init: "newFixedWindowRateLimiter limit windowMs maxEntries = Inr l \<Longrightarrow> rl_inv l l"
  by (auto simp: newFixedWindowRateLimiter_def rl_inv_def positive_integer_int less_imp_le
      split: if_splits option.splits)

interpretation rate_limiter: invariant_machine consume_step "\<lambda>_ _. True" l0
    "\<lambda>l. rl_inv l0 l0 \<longrightarrow> rl_inv l0 l"
  for l0
  by unfold_locales (auto intro: rl_inv_consume)

text \<open>
  The reference: how many of the earlier requests of a key fall into a window. The limiter agrees
  with it as long as it never had to forget a key.
\<close>

definition hits :: "int \<Rightarrow> (int \<times> string) list \<Rightarrow> string \<Rightarrow> int \<Rightarrow> int" where
  "hits windowMs past k w = int (length (filter (\<lambda>(t, k'). k' = k \<and> t div windowMs = w) past))"

definition remembers :: "(int \<times> string) list \<Rightarrow> FixedWindowRateLimiter \<Rightarrow> bool" where
  "remembers past l =
     (set (map fst (rl_entries l)) = snd ` set past \<and> distinct (map fst (rl_entries l)) \<and>
      (\<forall>k e. map_of (rl_entries l) k = Some e \<longrightarrow>
         we_count e = min (rl_limit l) (hits (rl_windowMs l) past k (we_window e)) \<and>
         (\<forall>(t, k') \<in> set past. k' = k \<longrightarrow> t div rl_windowMs l \<le> we_window e) \<and>
         (\<exists>t. (t, k) \<in> set past \<and> t div rl_windowMs l = we_window e)))"

lemma hits_append [simp]:
  "hits m (past @ [x]) k w = hits m past k w + (if snd x = k \<and> fst x div m = w then 1 else 0)"
  by (cases x) (simp add: hits_def)

lemma hits_none: "\<forall>(t, k') \<in> set past. k' = k \<longrightarrow> t div m \<noteq> w \<Longrightarrow> hits m past k w = 0"
  by (auto simp: hits_def filter_empty_conv)

lemma remembers_size:
  assumes "remembers past l"
  shows "length (rl_entries l) = card (snd ` set past)"
  using assms unfolding remembers_def by (metis distinct_card length_map)

lemma remember_fits:
  assumes "remembers past l" and "int (card (snd ` set (past @ [x]))) \<le> rl_maxEntries l"
  shows "rl_entries (remember (snd x) e l) = AList.delete (snd x) (rl_entries l) @ [(snd x, e)]"
proof -
  let ?es = "AList.delete (snd x) (rl_entries l) @ [(snd x, e)]"
  have "distinct (map fst ?es)" and "set (map fst ?es) = snd ` set (past @ [x])"
    using assms(1) unfolding remembers_def map_append AList_delete_keys by (auto simp del: list.set_map)
  then have "length ?es = card (snd ` set (past @ [x]))" by (metis distinct_card length_map)
  with assms(2) show ?thesis unfolding remember_entries by (intro evict_fits) simp
qed

lemma remembers_known:
  assumes "remembers past l" and "(t, k) \<in> set past"
  shows "\<exists>e. map_of (rl_entries l) k = Some e"
proof -
  have "k \<in> fst ` set (rl_entries l)"
    using assms unfolding remembers_def by (metis image_eqI list.set_map snd_conv)
  then show ?thesis by (metis map_of_eq_None_iff not_None_eq)
qed

lemma remembers_entry:
  assumes "remembers past l" and "map_of (rl_entries l) k = Some e"
  shows "we_count e = min (rl_limit l) (hits (rl_windowMs l) past k (we_window e))"
    and "(t, k) \<in> set past \<Longrightarrow> t div rl_windowMs l \<le> we_window e"
    and "\<exists>t. (t, k) \<in> set past \<and> t div rl_windowMs l = we_window e"
  using assms unfolding remembers_def by blast+

lemma hits_positive: "0 < hits m past k w \<Longrightarrow> \<exists>t. (t, k) \<in> set past \<and> t div m = w"
  by (rule ccontr) (use hits_none [of past k m w] in fastforce)

text \<open>The entry of a key is full for a window exactly if the window has had its share.\<close>

lemma remembers_full:
  assumes R: "remembers past l" and "0 < rl_limit l" and mono: "\<And>t k. (t, k) \<in> set past \<Longrightarrow> t div rl_windowMs l \<le> w"
  shows "(\<exists>e. map_of (rl_entries l) k = Some e \<and> we_window e = w \<and> rl_limit l \<le> we_count e)
    \<longleftrightarrow> rl_limit l \<le> hits (rl_windowMs l) past k w"
proof
  assume "\<exists>e. map_of (rl_entries l) k = Some e \<and> we_window e = w \<and> rl_limit l \<le> we_count e"
  then show "rl_limit l \<le> hits (rl_windowMs l) past k w" using remembers_entry(1) [OF R] by fastforce
next
  assume full: "rl_limit l \<le> hits (rl_windowMs l) past k w"
  with assms(2) obtain t where t: "(t, k) \<in> set past" "t div rl_windowMs l = w"
    using hits_positive [of "rl_windowMs l" past k w] by auto
  obtain e where e: "map_of (rl_entries l) k = Some e" using remembers_known [OF R t(1)] by blast
  have "we_window e \<le> w" using remembers_entry(3) [OF R e] mono by metis
  moreover have "w \<le> we_window e" using remembers_entry(2) [OF R e t(1)] t(2) by simp
  ultimately have "we_window e = w" by simp
  with e full show "\<exists>e. map_of (rl_entries l) k = Some e \<and> we_window e = w \<and> rl_limit l \<le> we_count e"
    using remembers_entry(1) [OF R e] by auto
qed

lemma remembers_step:
  assumes R: "remembers past l" and inv: "rl_inv l0 l"
    and fits: "int (card (snd ` set (past @ [x]))) \<le> rl_maxEntries l"
    and time: "\<forall>(t, k) \<in> set past. t \<le> fst x"
  shows "remembers (past @ [x]) (consume_step l x)"
proof -
  let ?k = "snd x" and ?w = "fst x div rl_windowMs l" and ?e = "next_entry l x"
  note es = remember_fits [OF R fits, of ?e]
  have keys: "set (map fst (rl_entries (consume_step l x))) = snd ` set (past @ [x])"
    "distinct (map fst (rl_entries (consume_step l x)))"
    using R unfolding consume_step_entry es remembers_def map_append AList_delete_keys
    by (auto simp del: list.set_map)
  have get: "map_of (rl_entries (consume_step l x)) = (map_of (rl_entries l))(?k \<mapsto> ?e)"
    by (auto simp: consume_step_entry es map_of_delete map_add_def split: option.split)
  have fields: "rl_limit (consume_step l x) = rl_limit l" "rl_windowMs (consume_step l x) = rl_windowMs l"
    by (simp_all add: consume_step_entry)
  have mono: "t div rl_windowMs l \<le> ?w" if "(t, k) \<in> set past" for t k
    using time that inv by (auto simp: rl_inv_def intro!: zdiv_mono1)
  have lim: "1 \<le> rl_limit l" using inv by (simp add: rl_inv_def)
  have "we_window ?e = ?w"
    by (simp add: next_entry_def Let_def split: option.split)
  moreover have "we_count ?e = min (rl_limit l) (hits (rl_windowMs l) (past @ [x]) ?k ?w)"
  proof (cases "map_of (rl_entries l) ?k")
    case None
    then have "hits (rl_windowMs l) past ?k ?w = 0"
      using remembers_known [OF R, of _ ?k] by (intro hits_none) fastforce
    with None lim show ?thesis by (simp add: next_entry_def Let_def)
  next
    case (Some old)
    then have old: "we_count old = min (rl_limit l) (hits (rl_windowMs l) past ?k (we_window old))"
      "\<And>t. (t, ?k) \<in> set past \<Longrightarrow> t div rl_windowMs l \<le> we_window old"
      "\<exists>t. (t, ?k) \<in> set past \<and> t div rl_windowMs l = we_window old"
      using remembers_entry [OF R Some] by blast+
    show ?thesis
    proof (cases "we_window old = ?w")
      case True
      with Some old(1) show ?thesis by (auto simp: next_entry_def Let_def)
    next
      case False
      with old(3) mono have "we_window old < ?w" by force
      with old(2) have "hits (rl_windowMs l) past ?k ?w = 0" by (intro hits_none) force
      with Some False lim show ?thesis by (simp add: next_entry_def Let_def)
    qed
  qed
  moreover have "hits (rl_windowMs l) (past @ [x]) k w = hits (rl_windowMs l) past k w" if "k \<noteq> ?k" for k w
    using that by simp
  moreover have "\<forall>(t, k') \<in> set (past @ [x]). k' = ?k \<longrightarrow> t div rl_windowMs l \<le> ?w"
    using mono by auto
  moreover have "(fst x, ?k) \<in> set (past @ [x])" by simp
  ultimately show ?thesis
    using R keys unfolding remembers_def get fields by (auto split: if_splits)
qed

lemma decisions_spec:
  assumes "remembers past l" and "rl_inv l0 l" and "sorted (map fst (past @ xs))"
    and "int (card (snd ` set (past @ xs))) \<le> rl_maxEntries l" and "i < length xs"
  shows "decisions l xs ! i \<longleftrightarrow>
    hits (rl_windowMs l) (past @ take i xs) (snd (xs ! i)) (fst (xs ! i) div rl_windowMs l) < rl_limit l"
  using assms
proof (induction xs arbitrary: past l i)
  case (Cons x xs)
  have time: "\<forall>(t, k) \<in> set past. t \<le> fst x" using Cons.prems(3) by (auto simp: sorted_append)
  have "card (snd ` set (past @ [x])) \<le> card (snd ` set (past @ x # xs))" by (intro card_mono) auto
  with Cons.prems(4) have fits: "int (card (snd ` set (past @ [x]))) \<le> rl_maxEntries l" by linarith
  note R = remembers_step [OF Cons.prems(1,2) fits time]
  show ?case
  proof (cases i)
    case 0
    have "t div rl_windowMs l \<le> fst x div rl_windowMs l" if "(t, k) \<in> set past" for t k
      using time that Cons.prems(2) by (auto simp: rl_inv_def intro!: zdiv_mono1)
    moreover have "0 < rl_limit l" using Cons.prems(2) by (simp add: rl_inv_def)
    ultimately have "(\<exists>e. map_of (rl_entries l) (snd x) = Some e \<and>
        we_window e = fst x div rl_windowMs l \<and> rl_limit l \<le> we_count e)
      \<longleftrightarrow> rl_limit l \<le> hits (rl_windowMs l) past (snd x) (fst x div rl_windowMs l)"
      by (intro remembers_full [OF Cons.prems(1)])
    with 0 show ?thesis by (auto simp: allowed_iff)
  next
    case (Suc j)
    have "rl_windowMs (consume_step l x) = rl_windowMs l" "rl_limit (consume_step l x) = rl_limit l"
      "rl_maxEntries (consume_step l x) = rl_maxEntries l"
      by (simp_all add: consume_step_entry)
    with Suc Cons.IH [OF R rl_inv_consume [OF Cons.prems(2)]] Cons.prems show ?thesis by simp
  qed
qed simp

section \<open>Properties of the rate limiter\<close>

text \<open>
  The fixed-window limiter admits first come, first served. As long as no more keys are in use
  than it may remember, on a clock that does not run backwards, a request is allowed exactly if
  fewer than \<open>limit\<close> earlier requests of its key fell into its window.
\<close>
theorem rate_limit_first_come:
  assumes "newFixedWindowRateLimiter limit windowMs maxEntries = Inr l"
    and "sorted (map fst xs)" and "int (card (snd ` set xs)) \<le> rl_maxEntries l" and "i < length xs"
  shows "decisions l xs ! i \<longleftrightarrow>
    int (length (filter (\<lambda>(t, k). k = snd (xs ! i) \<and> t div rl_windowMs l = fst (xs ! i) div rl_windowMs l)
      (take i xs))) < rl_limit l"
proof -
  have "remembers [] l"
    using assms(1) by (auto simp: newFixedWindowRateLimiter_def remembers_def split: if_splits)
  from decisions_spec [OF this rl_inv_init [OF assms(1)], of xs i] assms(2-)
  show ?thesis by (simp add: hits_def)
qed

definition sample_requests :: "(int \<times> string) list" where
  "sample_requests = [(5, ''a''), (6, ''a''), (6, ''b''), (7, ''a''), (10, ''a'')]"

lemma rate_limit_first_come_witness:
  "\<exists>l. newFixedWindowRateLimiter (js_nat 2) (js_nat 10) None = Inr l \<and> rl_limit l = 2 \<and>
     \<not> decisions l sample_requests ! 3 \<and> decisions l sample_requests ! 4"
proof -
  obtain l where l: "newFixedWindowRateLimiter (js_nat 2) (js_nat 10) None = Inr l"
    "rl_limit l = 2" "rl_windowMs l = 10" "rl_maxEntries l = 10000"
    by (simp add: newFixedWindowRateLimiter_def positive_integer_def js_nat_def)
  have xs: "sorted (map fst sample_requests)" "int (card (snd ` set sample_requests)) \<le> rl_maxEntries l"
    "3 < length sample_requests" "4 < length sample_requests"
    using card_length [of "map snd sample_requests"] by (simp_all add: sample_requests_def l)
  show ?thesis
    using rate_limit_first_come [OF l(1) xs(1,2,3)] rate_limit_first_come [OF l(1) xs(1,2,4)]
    by (intro exI [of _ l]) (simp add: l sample_requests_def)
qed

lemma ceil_div_bounds:
  fixes x m :: int
  assumes "0 < m"
  shows "x \<le> - (- x div m) * m" "- (- x div m) * m < x + m"
  using mult_div_mod_eq [of m "- x"] pos_mod_bound [OF assms, of "- x"] pos_mod_sign [OF assms, of "- x"]
  by (simp_all only: mult.commute [of _ m] mult_minus_right)

text \<open>
  Bounded memory and an honest \<open>retryAfterSeconds\<close>. After any requests at any times the limiter
  remembers at most \<open>maxEntries\<close> keys. A refusal asks the caller to wait at least a second and no
  more than the window rounded up; waiting that long always leads past the window, and the same
  key asking again then (with no other request in between) is allowed.
\<close>
theorem refusal_tells_when_to_retry:
  assumes "newFixedWindowRateLimiter limit windowMs maxEntries = Inr l0"
    and "l = foldl consume_step l0 xs" and "consume key now l = (r, l')" and "\<not> allowed r"
    and "later \<ge> now + 1000 * retryAfterSeconds r"
  shows "int (rl_size l) \<le> rl_maxEntries l0 \<and>
    1 \<le> retryAfterSeconds r \<and> 1000 * retryAfterSeconds r < max 1001 (rl_windowMs l0 + 1000) \<and>
    now div rl_windowMs l0 < later div rl_windowMs l0 \<and> allowed (fst (consume key later l'))"
proof -
  let ?m = "rl_windowMs l0" and ?r = "retryAfterSeconds r"
  let ?rest = "(now div ?m + 1) * ?m - now"
  have inv: "rl_inv l0 l"
    using rate_limiter.inv_run [of l0 xs] rl_inv_init [OF assms(1)] by (simp add: assms(2))
  then have m: "0 < ?m" "rl_windowMs l = ?m" by (simp_all add: rl_inv_def)
  obtain e where e: "map_of (rl_entries l) key = Some e" "we_window e = now div ?m" "l' = remember key e l"
    and r: "?r = max 1 (- (- ?rest div 1000))"
    using assms(3,4) m(2) unfolding consume_def
    by (auto simp: Let_def split: option.splits if_splits)
  have rest: "0 < ?rest" "?rest \<le> ?m"
    using pos_mod_bound [OF m(1), of now] pos_mod_sign [OF m(1), of now] mult_div_mod_eq [of ?m now]
    by (simp_all only: mult.commute [of _ ?m] distrib_left)
  have "?rest \<le> 1000 * ?r" "1000 * ?r < max 1001 (?m + 1000)"
    using ceil_div_bounds [of 1000 ?rest] rest unfolding r by linarith+
  moreover from this assms(5) have "(now div ?m + 1) * ?m \<le> later" by simp
  then have next_window: "now div ?m < later div ?m"
    using m(1) by (smt (verit) nonzero_mult_div_cancel_right zdiv_mono1)
  moreover have "map_of (rl_entries l') key = Some e \<or> map_of (rl_entries l') key = None"
  proof -
    have "(key, f) \<in> set (rl_entries l') \<Longrightarrow> f = e" for f
      using set_evict [of "rl_maxEntries l"] unfolding e(3) remember_entries
      by (auto simp: AList.delete_eq dest!: subsetD [OF set_evict])
    then show ?thesis by (metis map_of_SomeD not_None_eq)
  qed
  then have "allowed (fst (consume key later l'))"
    unfolding allowed_iff using e(2,3) m(2) next_window by auto
  moreover have "1 \<le> ?r" by (simp add: r)
  moreover have "int (rl_size l) \<le> rl_maxEntries l0" using inv by (simp add: rl_inv_def rl_size_def)
  ultimately show ?thesis by simp
qed

lemma refusal_tells_when_to_retry_witness:
  "\<exists>l r l'. newFixedWindowRateLimiter (js_nat 1) (js_nat 60000) None = Inr l \<and>
     consume ''a'' 500 (consume_step l (0, ''a'')) = (r, l') \<and> retryAfterSeconds r = 60 \<and>
     allowed (fst (consume ''a'' 60500 l'))"
proof -
  obtain l where l: "newFixedWindowRateLimiter (js_nat 1) (js_nat 60000) None = Inr l"
    "l = \<lparr>rl_entries = [], rl_limit = 1, rl_windowMs = 60000, rl_maxEntries = 10000\<rparr>"
    by (simp add: newFixedWindowRateLimiter_def positive_integer_def js_nat_def)
  let ?c = "consume ''a'' 500 (foldl consume_step l [(0, ''a'')])"
  have "\<not> allowed (fst ?c)" "retryAfterSeconds (fst ?c) = 60"
    by (simp_all add: l(2) consume_step_def consume_def remember_def)
  moreover from this have "60500 \<ge> 500 + 1000 * retryAfterSeconds (fst ?c)" by simp
  ultimately show ?thesis
    using refusal_tells_when_to_retry [OF l(1) refl surjective_pairing, of "''a''" 500 "[(0, ''a'')]" 60500] l(1)
    by (intro exI [of _ l] exI [of _ "fst ?c"] exI [of _ "snd ?c"]) simp
qed

end
