(* ===== verification/IdentityLimits.thy ===== *)
theory IdentityLimits
  imports Prelude
begin

text \<open>
  The limits of the server's identity service
  (\<open>packages/server/src/identity-service/limits.ts\<close>): the work budget, the token buckets, and the
  bounded reading of a JSON request body.

  Clock readings (\<open>performance.now\<close>, in milliseconds) and token counts are rationals: the
  arithmetic is exact here, where the code rounds to doubles. Awaiting a promise is not modelled;
  what \<open>identityServiceWait\<close> settles to is an input of the body reader.
\<close>

declare map_of_eq_Some_iff [simp del]

record IdentityServiceError =
  ise_code :: string
  ise_message :: string
  ise_status :: nat

section \<open>Work budget\<close>

record IdentityServiceWorkBudget =
  wb_count :: int
  wb_maximum :: int

text \<open>
  \<open>run\<close> in two steps: the admission, which happens at the call, and the \<open>finally\<close> clause, which
  runs when the admitted work settles.
\<close>

definition run_begin :: "IdentityServiceWorkBudget \<Rightarrow> IdentityServiceError option \<times> IdentityServiceWorkBudget" where
  "run_begin b =
     (if wb_count b \<ge> wb_maximum b
      then (Some \<lparr>ise_code = ''capacity'', ise_message = ''Identity Service work capacity reached'', ise_status = 503\<rparr>, b)
      else (None, b\<lparr>wb_count := wb_count b + 1\<rparr>))"

definition run_finally :: "IdentityServiceWorkBudget \<Rightarrow> IdentityServiceWorkBudget" where
  "run_finally b = b\<lparr>wb_count := wb_count b - 1\<rparr>"

text \<open>Callers by identity: \<open>Begin w\<close> is a call, \<open>Settle w\<close> the end of its work if it was admitted.\<close>

datatype work_op = Begin nat | Settle nat

fun work_step :: "IdentityServiceWorkBudget \<times> nat set \<Rightarrow> work_op \<Rightarrow> IdentityServiceWorkBudget \<times> nat set" where
  "work_step (b, running) (Begin w) =
     (case run_begin b of (None, b') \<Rightarrow> (b', insert w running) | (Some _, b') \<Rightarrow> (b', running))"
| "work_step (b, running) (Settle w) = (run_finally b, running - {w})"

fun work_ok :: "IdentityServiceWorkBudget \<times> nat set \<Rightarrow> work_op \<Rightarrow> bool" where
  "work_ok (b, running) (Begin w) = (w \<notin> running)"
| "work_ok (b, running) (Settle w) = (w \<in> running)"

fun work_inv :: "int \<Rightarrow> IdentityServiceWorkBudget \<times> nat set \<Rightarrow> bool" where
  "work_inv m (b, running) =
     (wb_maximum b = m \<and> finite running \<and> wb_count b = int (card running) \<and> wb_count b \<le> max 0 m)"

interpretation work_budget: invariant_machine work_step work_ok
  "(\<lparr>wb_count = 0, wb_maximum = m\<rparr>, {})" "work_inv m"
proof
  fix s x
  assume inv: "work_inv m s" and ok: "work_ok s x"
  obtain b running where s: "s = (b, running)" by (cases s)
  show "work_inv m (work_step s x)"
  proof (cases x)
    case (Begin w)
    with inv ok show ?thesis by (simp add: s run_begin_def)
  next
    case (Settle w)
    with inv ok have "finite running" "w \<in> running" by (simp_all add: s)
    then have "int (card (running - {w})) = int (card running) - 1"
      using card_Suc_Diff1 [of running w] by linarith
    with Settle inv ok show ?thesis by (simp add: s run_finally_def)
  qed
qed simp

text \<open>
  The work budget. Over any calls and completions the budget counts exactly the work that runs,
  never lets more than its maximum run, and refuses a call exactly when that much runs already.
\<close>
theorem work_budget_exact:
  assumes "permitted work_step work_ok (\<lparr>wb_count = 0, wb_maximum = m\<rparr>, {}) ops"
    and "foldl work_step (\<lparr>wb_count = 0, wb_maximum = m\<rparr>, {}) ops = (b, running)"
  shows "finite running \<and> int (card running) \<le> max 0 m \<and> wb_count b = int (card running) \<and>
    (fst (run_begin b) \<noteq> None \<longleftrightarrow> m \<le> int (card running))"
proof -
  have "work_inv m (b, running)" using work_budget.inv_run [OF assms(1)] assms(2) by simp
  then show ?thesis by (auto simp: run_begin_def)
qed

lemma work_budget_exact_witness:
  "\<exists>b running. foldl work_step (\<lparr>wb_count = 0, wb_maximum = 1\<rparr>, {}) [Begin 1, Begin 2, Settle 1] = (b, running) \<and>
     wb_count b = int (card running) \<and> fst (run_begin b) = None"
proof -
  let ?ops = "[Begin 1, Begin 2, Settle 1]" and ?s = "(\<lparr>wb_count = 0, wb_maximum = 1\<rparr>, {})"
  have "permitted work_step work_ok ?s ?ops" by (simp add: run_begin_def)
  moreover have "foldl work_step ?s ?ops = (\<lparr>wb_count = 0, wb_maximum = 1\<rparr>, {})"
    by (simp add: run_begin_def run_finally_def)
  ultimately show ?thesis using work_budget_exact [of 1 ?ops] by fastforce
qed

section \<open>Token buckets\<close>

record Bucket =
  bk_tokens :: rat
  bk_at :: rat

record IdentityServiceLimiter =
  il_keys :: "(string \<times> Bucket) list"
  il_global :: Bucket
  il_globalRate :: rat
  il_globalBurst :: rat
  il_keyRate :: rat
  il_keyBurst :: rat

definition newIdentityServiceLimiter :: "rat \<Rightarrow> rat \<Rightarrow> rat \<Rightarrow> rat \<Rightarrow> rat \<Rightarrow> IdentityServiceLimiter" where
  "newIdentityServiceLimiter globalRate globalBurst keyRate keyBurst now =
     \<lparr>il_keys = [], il_global = \<lparr>bk_tokens = globalBurst, bk_at = now\<rparr>, il_globalRate = globalRate,
      il_globalBurst = globalBurst, il_keyRate = keyRate, il_keyBurst = keyBurst\<rparr>"

definition refill :: "rat \<Rightarrow> rat \<Rightarrow> rat \<Rightarrow> Bucket \<Rightarrow> rat" where
  "refill rate burst now b = min burst (bk_tokens b + max 0 (now - bk_at b) * rate / 60000)"

definition rate_limited :: "string \<Rightarrow> IdentityServiceError" where
  "rate_limited msg = \<lparr>ise_code = ''rate_limited'', ise_message = msg, ise_status = 429\<rparr>"

definition take_token :: "rat \<Rightarrow> rat \<Rightarrow> rat \<Rightarrow> Bucket \<Rightarrow> IdentityServiceError option \<times> Bucket" where
  "take_token rate burst now b =
     (let tokens = refill rate burst now b
      in if tokens < 1
         then (Some (rate_limited ''Identity Service request rate exceeded''), \<lparr>bk_tokens = tokens, bk_at = now\<rparr>)
         else (None, \<lparr>bk_tokens = tokens - 1, bk_at = now\<rparr>))"

definition reclaim_keys :: "rat \<Rightarrow> (string \<times> Bucket) list \<Rightarrow> (string \<times> Bucket) list" where
  "reclaim_keys now keys =
     (if length keys \<ge> 1024 then filter (\<lambda>(_, entry). \<not> now - bk_at entry \<ge> 600000) keys else keys)"

definition admit :: "string \<Rightarrow> rat \<Rightarrow> IdentityServiceLimiter \<Rightarrow> IdentityServiceError option \<times> IdentityServiceLimiter" where
  "admit key now l =
     (case take_token (il_globalRate l) (il_globalBurst l) now (il_global l) of
        (Some e, g) \<Rightarrow> (Some e, l\<lparr>il_global := g\<rparr>)
      | (None, g) \<Rightarrow>
          (let l = l\<lparr>il_global := g\<rparr>;
               keys = (if map_of (il_keys l) key = None then reclaim_keys now (il_keys l) else il_keys l)
           in if map_of (il_keys l) key = None \<and> length keys \<ge> 1024
              then (Some (rate_limited ''Identity Service limiter identity capacity reached''), l\<lparr>il_keys := keys\<rparr>)
              else
                (let bucket = (case map_of (il_keys l) key of Some b \<Rightarrow> b
                               | None \<Rightarrow> \<lparr>bk_tokens = il_keyBurst l, bk_at = now\<rparr>);
                     (e, b) = take_token (il_keyRate l) (il_keyBurst l) now bucket
                 in (e, l\<lparr>il_keys := AList.update key b keys\<rparr>))))"

text \<open>
  A token bucket over any state: \<open>level s now\<close> is what the bucket would hold after refilling at
  \<open>now\<close>. A step costs one token per counted admission and never adds one; waiting adds at most
  \<open>rate\<close> tokens a minute. Then no interval admits more than a burst and what it refilled.
\<close>

fun admissions :: "('s \<Rightarrow> 'x \<Rightarrow> 's) \<Rightarrow> ('s \<Rightarrow> 'x \<Rightarrow> bool) \<Rightarrow> 's \<Rightarrow> 'x list \<Rightarrow> 'x list" where
  "admissions step admits s [] = []"
| "admissions step admits s (x # xs) = (if admits s x then [x] else []) @ admissions step admits (step s x) xs"

locale token_bucket =
  fixes step :: "'s \<Rightarrow> rat \<times> 'k \<Rightarrow> 's"
    and admits :: "'s \<Rightarrow> rat \<times> 'k \<Rightarrow> bool"
    and counted :: "'k \<Rightarrow> bool"
    and level :: "'s \<Rightarrow> rat \<Rightarrow> rat"
    and sound :: "'s \<Rightarrow> bool"
    and burst :: rat and rate :: rat
  assumes sound_step: "sound s \<Longrightarrow> sound (step s x)"
    and level_bounds: "sound s \<Longrightarrow> 0 \<le> level s now \<and> level s now \<le> burst"
    and level_step: "sound s \<Longrightarrow>
      level (step s (now, k)) now + (if counted k \<and> admits s (now, k) then 1 else 0) \<le> level s now"
    and level_wait: "sound s \<Longrightarrow> now \<le> later \<Longrightarrow> level s later \<le> level s now + (later - now) * rate / 60000"
begin

lemma admissions_level:
  assumes "sound s" and "sorted (map fst xs)" and "\<And>x. x \<in> set xs \<Longrightarrow> start \<le> fst x \<and> fst x \<le> finish"
    and "start \<le> finish"
  shows "of_nat (length (filter (\<lambda>y. counted (snd y)) (admissions step admits s xs))) \<le> level s start + (finish - start) * rate / 60000"
  using assms
proof (induction xs arbitrary: s start)
  case Nil
  from level_bounds [OF Nil.prems(1), of finish] level_wait [OF Nil.prems(1,4)]
  show ?case by simp
next
  case (Cons x xs)
  obtain now k where x: "x = (now, k)" by (cases x)
  have now: "start \<le> now" "now \<le> finish" using Cons.prems(3) [of x] by (simp_all add: x)
  have "of_nat (length (filter (\<lambda>y. counted (snd y)) (admissions step admits (step s x) xs)))
      \<le> level (step s x) now + (finish - now) * rate / 60000"
    using Cons.prems now by (intro Cons.IH sound_step) (auto simp: x)
  moreover have "level (step s x) now + (if counted k \<and> admits s x then 1 else 0) \<le> level s now"
    unfolding x by (rule level_step [OF Cons.prems(1)])
  moreover have "level s now \<le> level s start + (now - start) * rate / 60000"
    by (rule level_wait [OF Cons.prems(1) now(1)])
  ultimately show ?case by (auto simp: x field_simps split: if_splits)
qed

theorem rate_bound:
  assumes "sound s" and "sorted (map fst xs)" and "\<And>x. x \<in> set xs \<Longrightarrow> start \<le> fst x \<and> fst x \<le> finish"
    and "start \<le> finish"
  shows "of_nat (length (filter (\<lambda>y. counted (snd y)) (admissions step admits s xs))) \<le> burst + (finish - start) * rate / 60000"
  using admissions_level [OF assms] level_bounds [OF assms(1), of start] by linarith

end

text \<open>The limiter as such a system: requests are clock readings with keys.\<close>

definition admit_step :: "IdentityServiceLimiter \<Rightarrow> rat \<times> string \<Rightarrow> IdentityServiceLimiter" where
  "admit_step l x = snd (admit (snd x) (fst x) l)"

definition admit_ok :: "IdentityServiceLimiter \<Rightarrow> rat \<times> string \<Rightarrow> bool" where
  "admit_ok l x = (fst (admit (snd x) (fst x) l) = None)"

definition bucket_ok :: "rat \<Rightarrow> Bucket \<Rightarrow> bool" where
  "bucket_ok burst b = (0 \<le> bk_tokens b \<and> bk_tokens b \<le> burst)"

definition il_sound :: "IdentityServiceLimiter \<Rightarrow> IdentityServiceLimiter \<Rightarrow> bool" where
  "il_sound l0 l =
     (il_globalRate l = il_globalRate l0 \<and> il_globalBurst l = il_globalBurst l0 \<and>
      il_keyRate l = il_keyRate l0 \<and> il_keyBurst l = il_keyBurst l0 \<and>
      0 \<le> il_globalRate l0 \<and> 0 \<le> il_globalBurst l0 \<and> 0 \<le> il_keyRate l0 \<and> 0 \<le> il_keyBurst l0 \<and>
      il_keyBurst l0 \<le> 10 * il_keyRate l0 \<and>
      bucket_ok (il_globalBurst l0) (il_global l) \<and> length (il_keys l) \<le> 1024 \<and> distinct (map fst (il_keys l)) \<and>
      (\<forall>(k, b) \<in> set (il_keys l). bucket_ok (il_keyBurst l0) b))"

lemma refill_bounds: "bucket_ok burst b \<Longrightarrow> 0 \<le> rate \<Longrightarrow> 0 \<le> refill rate burst now b \<and> refill rate burst now b \<le> burst"
  by (auto simp: refill_def bucket_ok_def)

lemma refill_wait:
  assumes "0 \<le> rate" and "now \<le> later"
  shows "refill rate burst later b \<le> refill rate burst now b + (later - now) * rate / 60000"
proof -
  have "max 0 (later - bk_at b) \<le> max 0 (now - bk_at b) + (later - now)" using assms(2) by simp
  then have "max 0 (later - bk_at b) * rate \<le> (max 0 (now - bk_at b) + (later - now)) * rate"
    using assms(1) by (rule mult_right_mono)
  then have *: "max 0 (later - bk_at b) * rate / 60000 \<le> max 0 (now - bk_at b) * rate / 60000 + (later - now) * rate / 60000"
    by (simp add: field_simps)
  moreover have "0 \<le> (later - now) * rate / 60000" using assms by simp
  ultimately show ?thesis unfolding refill_def by linarith
qed

lemma take_token_ok:
  assumes "take_token rate burst now b = (e, b')" and "bucket_ok burst b" and "0 \<le> rate"
  shows "bucket_ok burst b' \<and> refill rate burst now b' + (if e = None then 1 else 0) = refill rate burst now b"
proof -
  let ?t = "refill rate burst now b"
  have t: "0 \<le> ?t" "?t \<le> burst" using refill_bounds [OF assms(2,3)] by simp_all
  have now: "u \<le> burst \<Longrightarrow> refill rate burst now \<lparr>bk_tokens = u, bk_at = now\<rparr> = u" for u
    by (simp add: refill_def)
  show ?thesis
  proof (cases "?t < 1")
    case True
    with assms(1) t now [of ?t] show ?thesis by (auto simp: take_token_def bucket_ok_def)
  next
    case False
    with assms(1) t now [of "?t - 1"] show ?thesis by (auto simp: take_token_def bucket_ok_def)
  qed
qed

lemma il_sound_key: "il_sound l0 l \<Longrightarrow> map_of (il_keys l) k = Some b \<Longrightarrow> bucket_ok (il_keyBurst l0) b"
  unfolding il_sound_def by (auto dest: map_of_SomeD)

lemma reclaim_keys_subset: "set (reclaim_keys now ks) \<subseteq> set ks"
  by (auto simp: reclaim_keys_def)

lemma reclaim_keys_distinct: "distinct (map fst ks) \<Longrightarrow> distinct (map fst (reclaim_keys now ks))"
  by (simp add: reclaim_keys_def distinct_map_filter)

text \<open>The cases of \<open>admit\<close>, with what each does to the two buckets.\<close>

lemma admit_cases [consumes 1, case_names refused full known fresh]:
  assumes "admit key now l = (r, l')"
  obtains g e where "take_token (il_globalRate l) (il_globalBurst l) now (il_global l) = (Some e, g)"
      "r = Some e" "l' = l\<lparr>il_global := g\<rparr>"
  | g e where "take_token (il_globalRate l) (il_globalBurst l) now (il_global l) = (None, g)"
      "map_of (il_keys l) key = None" "length (reclaim_keys now (il_keys l)) \<ge> 1024"
      "r = Some e" "l' = l\<lparr>il_global := g, il_keys := reclaim_keys now (il_keys l)\<rparr>"
  | g b b' where "take_token (il_globalRate l) (il_globalBurst l) now (il_global l) = (None, g)"
      "map_of (il_keys l) key = Some b" "take_token (il_keyRate l) (il_keyBurst l) now b = (r, b')"
      "l' = l\<lparr>il_global := g, il_keys := AList.update key b' (il_keys l)\<rparr>"
  | g b' where "take_token (il_globalRate l) (il_globalBurst l) now (il_global l) = (None, g)"
      "map_of (il_keys l) key = None" "length (reclaim_keys now (il_keys l)) < 1024"
      "take_token (il_keyRate l) (il_keyBurst l) now \<lparr>bk_tokens = il_keyBurst l, bk_at = now\<rparr> = (r, b')"
      "l' = l\<lparr>il_global := g, il_keys := AList.update key b' (reclaim_keys now (il_keys l))\<rparr>"
proof -
  obtain refusal g where t: "take_token (il_globalRate l) (il_globalBurst l) now (il_global l) = (refusal, g)"
    by fastforce
  show thesis
  proof (cases refusal)
    case (Some e)
    with assms t show thesis by (intro that(1)) (auto simp: admit_def)
  next
    case None
    note t = t [unfolded None]
    show thesis
    proof (cases "map_of (il_keys l) key")
      case (Some b)
      with assms t show thesis
        by (intro that(3) [of g b "snd (take_token (il_keyRate l) (il_keyBurst l) now b)"])
           (auto simp: admit_def Let_def case_prod_unfold)
    next
      case None
      show thesis
      proof (cases "length (reclaim_keys now (il_keys l)) \<ge> 1024")
        case True
        with assms t None show thesis by (intro that(2)) (auto simp: admit_def Let_def)
      next
        case False
        with assms t None show thesis
          by (intro that(4) [of g "snd (take_token (il_keyRate l) (il_keyBurst l) now
                \<lparr>bk_tokens = il_keyBurst l, bk_at = now\<rparr>)"])
             (auto simp: admit_def Let_def case_prod_unfold)
      qed
    qed
  qed
qed

lemma il_sound_set_keys:
  assumes "il_sound l0 l" and "bucket_ok (il_globalBurst l0) g" and "length ks \<le> 1024" and "distinct (map fst ks)"
    and "\<And>k b. (k, b) \<in> set ks \<Longrightarrow> bucket_ok (il_keyBurst l0) b"
  shows "il_sound l0 (l\<lparr>il_global := g, il_keys := ks\<rparr>)"
  using assms unfolding il_sound_def by auto

lemma il_sound_reclaimed:
  assumes "il_sound l0 l"
  shows "length (reclaim_keys now (il_keys l)) \<le> 1024" "distinct (map fst (reclaim_keys now (il_keys l)))"
    "(k, b) \<in> set (reclaim_keys now (il_keys l)) \<Longrightarrow> bucket_ok (il_keyBurst l0) b"
  using assms reclaim_keys_subset [of now "il_keys l"] reclaim_keys_distinct [of "il_keys l" now]
    le_trans [OF length_filter_le, of "il_keys l" 1024]
  unfolding il_sound_def by (auto simp: reclaim_keys_def)

lemma il_sound_updated:
  assumes "il_sound l0 l" and "bucket_ok (il_globalBurst l0) g" and "bucket_ok (il_keyBurst l0) b'"
    and "length ks \<le> 1024" and "distinct (map fst ks)" and "map_of ks k = None \<longrightarrow> length ks < 1024"
    and "\<And>k b. (k, b) \<in> set ks \<Longrightarrow> bucket_ok (il_keyBurst l0) b"
  shows "il_sound l0 (l\<lparr>il_global := g, il_keys := AList.update k b' ks\<rparr>)"
  using assms set_update_subset [of k b' ks]
  by (intro il_sound_set_keys) (auto simp: length_update distinct_update)

lemma global_taken:
  assumes "il_sound l0 l" and "take_token (il_globalRate l) (il_globalBurst l) now (il_global l) = (e, g)"
  shows "bucket_ok (il_globalBurst l0) g \<and>
    refill (il_globalRate l0) (il_globalBurst l0) now g + (if e = None then 1 else 0) =
    refill (il_globalRate l0) (il_globalBurst l0) now (il_global l)"
  using assms by (intro take_token_ok) (auto simp: il_sound_def)

lemma key_taken:
  assumes "il_sound l0 l" and "take_token (il_keyRate l) (il_keyBurst l) now b = (e, b')" and "bucket_ok (il_keyBurst l0) b"
  shows "bucket_ok (il_keyBurst l0) b' \<and>
    refill (il_keyRate l0) (il_keyBurst l0) now b' + (if e = None then 1 else 0) =
    refill (il_keyRate l0) (il_keyBurst l0) now b"
  using assms by (intro take_token_ok) (auto simp: il_sound_def)

lemma fresh_bucket_ok: "il_sound l0 l \<Longrightarrow> bucket_ok (il_keyBurst l0) \<lparr>bk_tokens = il_keyBurst l, bk_at = now\<rparr>"
  by (simp add: il_sound_def bucket_ok_def)

lemma il_sound_admit:
  assumes s: "il_sound l0 l"
  shows "il_sound l0 (admit_step l (now, key))"
proof -
  obtain r l' where a: "admit key now l = (r, l')" by fastforce
  from a have "il_sound l0 l'"
  proof (cases rule: admit_cases)
    case (refused g e)
    with s global_taken [OF s refused(1)] show ?thesis by (simp add: il_sound_def)
  next
    case (full g e)
    with s global_taken [OF s full(1)] show ?thesis by (simp add: il_sound_set_keys il_sound_reclaimed)
  next
    case (known g b b')
    have "il_sound l0 (l\<lparr>il_global := g, il_keys := AList.update key b' (il_keys l)\<rparr>)"
      using s global_taken [OF s known(1)] key_taken [OF s known(3) il_sound_key [OF s known(2)]] known(2)
      by (intro il_sound_updated) (auto simp: il_sound_def)
    with known show ?thesis by simp
  next
    case (fresh g b')
    have "il_sound l0 (l\<lparr>il_global := g, il_keys := AList.update key b' (reclaim_keys now (il_keys l))\<rparr>)"
      using s global_taken [OF s fresh(1)] key_taken [OF s fresh(4) fresh_bucket_ok [OF s]] fresh(3)
        il_sound_reclaimed [OF s]
      by (intro il_sound_updated) auto
    with fresh show ?thesis by simp
  qed
  with a show ?thesis by (simp add: admit_step_def)
qed

definition key_level :: "IdentityServiceLimiter \<Rightarrow> string \<Rightarrow> IdentityServiceLimiter \<Rightarrow> rat \<Rightarrow> rat" where
  "key_level l0 k l now =
     (case map_of (il_keys l) k of None \<Rightarrow> il_keyBurst l0 | Some b \<Rightarrow> refill (il_keyRate l0) (il_keyBurst l0) now b)"

text \<open>A key idle for ten minutes has a full bucket, so forgetting it changes nothing.\<close>

lemma idle_key_full:
  assumes "il_sound l0 l" and "bucket_ok (il_keyBurst l0) b" and "now - bk_at b \<ge> 600000"
  shows "refill (il_keyRate l0) (il_keyBurst l0) now b = il_keyBurst l0"
proof -
  have "600000 * il_keyRate l0 \<le> max 0 (now - bk_at b) * il_keyRate l0"
    using assms by (intro mult_right_mono) (auto simp: il_sound_def)
  then have "10 * il_keyRate l0 \<le> max 0 (now - bk_at b) * il_keyRate l0 / 60000" by (simp add: field_simps)
  moreover have "il_keyBurst l0 \<le> 10 * il_keyRate l0" using assms(1) by (simp add: il_sound_def)
  ultimately show ?thesis using assms(2) unfolding refill_def bucket_ok_def by simp
qed

lemma map_of_reclaimed:
  assumes "distinct (map fst ks)"
  shows "map_of (reclaim_keys now ks) k = map_of ks k \<or>
    (map_of (reclaim_keys now ks) k = None \<and> (\<exists>b. map_of ks k = Some b \<and> now - bk_at b \<ge> 600000))"
proof -
  have "map_of (filter (\<lambda>(_, e). P e) ks) k = (case map_of ks k of Some b \<Rightarrow> if P b then Some b else None | None \<Rightarrow> None)"
    for P :: "Bucket \<Rightarrow> bool"
    using assms
  proof (induction ks)
    case (Cons x ks)
    then have "fst x = k \<Longrightarrow> map_of ks k = None" by (auto simp: map_of_eq_None_iff)
    with Cons show ?case by (cases x) auto
  qed simp
  then show ?thesis by (auto simp: reclaim_keys_def split: option.split)
qed

lemma key_level_reclaimed:
  assumes "il_sound l0 l"
  shows "key_level l0 k (l\<lparr>il_global := g, il_keys := reclaim_keys now (il_keys l)\<rparr>) now = key_level l0 k l now"
proof -
  have "distinct (map fst (il_keys l))" using assms by (simp add: il_sound_def)
  from map_of_reclaimed [OF this, of now k] idle_key_full [OF assms il_sound_key [OF assms], of k _ now]
  show ?thesis by (auto simp: key_level_def)
qed

lemma key_level_updated:
  "key_level l0 k (l\<lparr>il_global := g, il_keys := AList.update key b ks\<rparr>) now =
     (if k = key then refill (il_keyRate l0) (il_keyBurst l0) now b
      else key_level l0 k (l\<lparr>il_global := g, il_keys := ks\<rparr>) now)"
  by (simp add: key_level_def map_of_update)

lemma key_level_admit:
  assumes s: "il_sound l0 l"
  shows "key_level l0 k (admit_step l (now, key)) now + (if key = k \<and> admit_ok l (now, key) then 1 else 0)
    \<le> key_level l0 k l now"
proof -
  obtain r l' where a: "admit key now l = (r, l')" by fastforce
  from a have "key_level l0 k l' now + (if key = k \<and> r = None then 1 else 0) \<le> key_level l0 k l now"
  proof (cases rule: admit_cases)
    case (refused g e)
    then show ?thesis by (simp add: key_level_def)
  next
    case (full g e)
    then show ?thesis by (simp add: key_level_reclaimed [OF s])
  next
    case (known g b b')
    with key_taken [OF s known(3) il_sound_key [OF s known(2)]]
    show ?thesis by (auto simp: key_level_updated) (auto simp: key_level_def)
  next
    case (fresh g b')
    have "refill (il_keyRate l0) (il_keyBurst l0) now \<lparr>bk_tokens = il_keyBurst l, bk_at = now\<rparr> = il_keyBurst l0"
      using s by (simp add: il_sound_def refill_def)
    with fresh key_taken [OF s fresh(4) fresh_bucket_ok [OF s]]
    show ?thesis by (auto simp: key_level_updated key_level_reclaimed [OF s]) (auto simp: key_level_def)
  qed
  with a show ?thesis by (simp add: admit_step_def admit_ok_def)
qed

interpretation global_bucket: token_bucket admit_step admit_ok "\<lambda>_. True"
    "\<lambda>l now. refill (il_globalRate l0) (il_globalBurst l0) now (il_global l)"
    "il_sound l0" "il_globalBurst l0" "il_globalRate l0"
  for l0
proof
  fix l now later and x :: "rat \<times> string" and k :: string
  assume s: "il_sound l0 l"
  show "il_sound l0 (admit_step l x)" using il_sound_admit [OF s] by (cases x) simp
  show "0 \<le> refill (il_globalRate l0) (il_globalBurst l0) now (il_global l) \<and>
      refill (il_globalRate l0) (il_globalBurst l0) now (il_global l) \<le> il_globalBurst l0"
    using s by (intro refill_bounds) (auto simp: il_sound_def)
  show "now \<le> later \<Longrightarrow> refill (il_globalRate l0) (il_globalBurst l0) later (il_global l)
      \<le> refill (il_globalRate l0) (il_globalBurst l0) now (il_global l) + (later - now) * il_globalRate l0 / 60000"
    using s by (intro refill_wait) (auto simp: il_sound_def)
  obtain r l' where a: "admit k now l = (r, l')" by fastforce
  from a have "refill (il_globalRate l0) (il_globalBurst l0) now (il_global l') + (if r = None then 1 else 0)
      \<le> refill (il_globalRate l0) (il_globalBurst l0) now (il_global l)"
    by (cases rule: admit_cases) (use global_taken [OF s, of now] in \<open>fastforce split: if_splits\<close>)+
  with a show "refill (il_globalRate l0) (il_globalBurst l0) now (il_global (admit_step l (now, k))) +
      (if True \<and> admit_ok l (now, k) then 1 else 0)
      \<le> refill (il_globalRate l0) (il_globalBurst l0) now (il_global l)"
    by (simp add: admit_step_def admit_ok_def)
qed

interpretation key_bucket: token_bucket admit_step admit_ok "\<lambda>key. key = k" "key_level l0 k"
    "il_sound l0" "il_keyBurst l0" "il_keyRate l0"
  for l0 k
proof
  fix l now later and x :: "rat \<times> string" and key :: string
  assume s: "il_sound l0 l"
  show "il_sound l0 (admit_step l x)" by (rule global_bucket.sound_step [OF s])
  show "0 \<le> key_level l0 k l now \<and> key_level l0 k l now \<le> il_keyBurst l0"
    using s refill_bounds [OF il_sound_key [OF s]] by (auto simp: key_level_def il_sound_def split: option.split)
  show "key_level l0 k (admit_step l (now, key)) now + (if key = k \<and> admit_ok l (now, key) then 1 else 0)
      \<le> key_level l0 k l now"
    by (rule key_level_admit [OF s])
  show "now \<le> later \<Longrightarrow> key_level l0 k l later \<le> key_level l0 k l now + (later - now) * il_keyRate l0 / 60000"
    using s by (auto simp: key_level_def il_sound_def refill_wait split: option.split)
qed

section \<open>Properties of the limiter\<close>

lemma il_sound_reached:
  assumes "l0 = newIdentityServiceLimiter globalRate globalBurst keyRate keyBurst now0"
    and "0 \<le> globalRate" "0 \<le> globalBurst" "0 \<le> keyRate" "0 \<le> keyBurst" "keyBurst \<le> 10 * keyRate"
  shows "il_sound l0 (foldl admit_step l0 xs)"
proof -
  have "il_sound l0 l0" using assms by (simp add: newIdentityServiceLimiter_def il_sound_def bucket_ok_def)
  moreover have "il_sound l0 l \<Longrightarrow> il_sound l0 (foldl admit_step l xs)" for l
    by (induction xs arbitrary: l) (auto intro: global_bucket.sound_step)
  ultimately show ?thesis by blast
qed

text \<open>
  C11 The identity service's rates. After any earlier requests, whatever is asked between \<open>start\<close>
  and \<open>finish\<close> on a clock that does not run backwards, the admissions altogether are at most the
  global burst and what the global rate refills meanwhile; the same holds for every single key,
  even though the limiter forgets idle keys (it forgets them only when their bucket is full again,
  provided ten minutes refill a key's burst, as all limiters of the service are set up); and never
  more than 1024 keys are remembered.
\<close>
theorem admission_rate_bounded:
  assumes "l0 = newIdentityServiceLimiter globalRate globalBurst keyRate keyBurst now0"
    and "0 \<le> globalRate" "0 \<le> globalBurst" "0 \<le> keyRate" "0 \<le> keyBurst" "keyBurst \<le> 10 * keyRate"
    and "sorted (map fst xs)" "\<And>x. x \<in> set xs \<Longrightarrow> start \<le> fst x \<and> fst x \<le> finish" "start \<le> finish"
    and "l = foldl admit_step l0 earlier" and "A = admissions admit_step admit_ok l xs"
  shows "of_nat (length A) \<le> globalBurst + (finish - start) * globalRate / 60000 \<and>
    of_nat (length (filter (\<lambda>x. snd x = key) A)) \<le> keyBurst + (finish - start) * keyRate / 60000 \<and>
    length (il_keys (foldl admit_step l xs)) \<le> 1024"
proof -
  have sound: "il_sound l0 (foldl admit_step l0 ys)" for ys
    by (rule il_sound_reached [OF assms(1-6)])
  have fields: "il_globalBurst l0 = globalBurst" "il_globalRate l0 = globalRate" "il_keyBurst l0 = keyBurst"
    "il_keyRate l0 = keyRate"
    by (simp_all add: assms(1) newIdentityServiceLimiter_def)
  show ?thesis
    using global_bucket.rate_bound [OF sound [of earlier] assms(7-9)]
      key_bucket.rate_bound [OF sound [of earlier] assms(7-9), of key] sound [of "earlier @ xs"]
    by (simp add: assms(10,11) fields) (simp add: il_sound_def)
qed

text \<open>The limiter of logins (\<open>packages/server/src/identity-service/auth.ts\<close>): 64 a minute, 6 per key.\<close>

definition loginRate :: "rat \<Rightarrow> IdentityServiceLimiter" where
  "loginRate now = newIdentityServiceLimiter 64 8 6 3 now"

lemma admission_rate_bounded_witness:
  "of_nat (length (filter (\<lambda>x. snd x = ''a'') (admissions admit_step admit_ok (loginRate 0)
     [(1, ''a''), (2, ''b''), (2, ''a''), (30000, ''a'')]))) \<le> (6 :: rat)"
  using admission_rate_bounded [OF loginRate_def, of "[(1, ''a''), (2, ''b''), (2, ''a''), (30000, ''a'')]"
      0 30000 "loginRate 0" 0 "[]" _ "''a''"]
  by simp

lemma refill_one: "bucket_ok burst b \<Longrightarrow> 1 \<le> burst \<Longrightarrow> 0 < rate \<Longrightarrow> bk_at b + 60000 / rate \<le> now \<Longrightarrow> 1 \<le> refill rate burst now b"
proof -
  assume b: "bucket_ok burst b" "1 \<le> burst" "0 < rate" "bk_at b + 60000 / rate \<le> now"
  have "60000 / rate * rate \<le> max 0 (now - bk_at b) * rate"
    using b by (intro mult_right_mono) auto
  then have "1 \<le> max 0 (now - bk_at b) * rate / 60000" using b(3) by simp
  then have "1 \<le> bk_tokens b + max 0 (now - bk_at b) * rate / 60000"
    using b(1) unfolding bucket_ok_def by linarith
  then show ?thesis using b(2) unfolding refill_def by linarith
qed

text \<open>
  Waiting helps. After any requests, a key that asks again one refill period after its last
  attempt, when the whole service has not been asked for one global period, is admitted; so is a
  new key, if fewer than 1024 keys have been active in the last ten minutes.
\<close>
theorem patient_key_admitted:
  assumes "l0 = newIdentityServiceLimiter globalRate globalBurst keyRate keyBurst now0"
    and "0 < globalRate" "1 \<le> globalBurst" "0 < keyRate" "1 \<le> keyBurst" "keyBurst \<le> 10 * keyRate"
    and "l = foldl admit_step l0 earlier"
    and "bk_at (il_global l) + 60000 / globalRate \<le> now"
    and "case map_of (il_keys l) key of
           Some b \<Rightarrow> bk_at b + 60000 / keyRate \<le> now
         | None \<Rightarrow> length (filter (\<lambda>(_, b). now - bk_at b < 600000) (il_keys l)) < 1024"
  shows "fst (admit key now l) = None"
proof -
  have s: "il_sound l0 l" unfolding assms(7) using assms(2-6) by (intro il_sound_reached [OF assms(1)]) auto
  have fields: "il_globalBurst l = globalBurst" "il_globalRate l = globalRate" "il_keyBurst l = keyBurst"
    "il_keyRate l = keyRate" and global: "bucket_ok globalBurst (il_global l)"
    using s by (simp_all add: assms(1) newIdentityServiceLimiter_def il_sound_def)
  have g: "fst (take_token (il_globalRate l) (il_globalBurst l) now (il_global l)) = None"
    using refill_one [OF global assms(3,2,8)] by (simp add: take_token_def fields)
  obtain r l' where a: "admit key now l = (r, l')" by fastforce
  from a have "r = None"
  proof (cases rule: admit_cases)
    case (refused g e)
    with g show ?thesis by simp
  next
    case (full g e)
    have "length (reclaim_keys now (il_keys l)) < 1024"
      using full(2) assms(9) by (auto simp: reclaim_keys_def not_le)
    with full show ?thesis by simp
  next
    case (known g b b')
    have "bucket_ok keyBurst b" using il_sound_key [OF s known(2)] s fields by (simp add: il_sound_def)
    from refill_one [OF this assms(5,4), of now] assms(9) known(2)
    have "1 \<le> refill keyRate keyBurst now b" by simp
    with known(3) show ?thesis by (simp add: take_token_def fields Let_def)
  next
    case (fresh g b')
    then show ?thesis using assms(5) by (simp add: take_token_def fields refill_def)
  qed
  with a show ?thesis by simp
qed

lemma patient_key_admitted_witness:
  "fst (admit ''a'' 10000 (foldl admit_step (loginRate 0) [(0, ''a''), (0, ''a''), (0, ''a''), (0, ''a'')])) = None"
  by (rule patient_key_admitted [OF loginRate_def _ _ _ _ _ refl])
     (simp_all add: loginRate_def newIdentityServiceLimiter_def admit_step_def admit_def take_token_def refill_def
        reclaim_keys_def Let_def)

section \<open>Request bodies\<close>

text \<open>
  What one awaited read gives: a chunk, the end of the body, or an error (the cancellation that
  \<open>identityServiceWait\<close> rejects with, or a failure of the stream).
\<close>

datatype read_outcome = Chunk bytes | EndOfBody | ReadThrows IdentityServiceError

definition invalid_body :: "string \<Rightarrow> IdentityServiceError" where
  "invalid_body msg = \<lparr>ise_code = ''invalid_request'', ise_message = msg, ise_status = 400\<rparr>"

definition cancelled :: IdentityServiceError where
  "cancelled = \<lparr>ise_code = ''cancelled'', ise_message = ''Identity Service request cancelled'', ise_status = 503\<rparr>"

fun read_chunks :: "nat \<Rightarrow> read_outcome list \<Rightarrow> bytes list \<Rightarrow> nat \<Rightarrow> IdentityServiceError + bytes list" where
  "read_chunks maximum [] chunks n = Inr chunks"
| "read_chunks maximum (EndOfBody # reads) chunks n = Inr chunks"
| "read_chunks maximum (ReadThrows e # reads) chunks n = Inl e"
| "read_chunks maximum (Chunk v # reads) chunks n =
     (let n' = n + length v
      in if n' > maximum then Inl (invalid_body ''Identity Service request body exceeds its byte limit'')
         else read_chunks maximum reads (chunks @ [v]) n')"

definition identityServiceJson ::
  "(bytes \<Rightarrow> json option) \<Rightarrow> nat \<Rightarrow> read_outcome list option \<Rightarrow> IdentityServiceError + json"
where
  "identityServiceJson parse maximum body =
     (case body of
        None \<Rightarrow> Inl (invalid_body ''A JSON request body is required'')
      | Some reads \<Rightarrow>
          and_then (read_chunks maximum reads [] 0)
            (\<lambda>chunks. case parse (concat chunks) of
               Some v \<Rightarrow> Inr v
             | None \<Rightarrow> Inl (invalid_body ''Invalid JSON request body'')))"

lemma read_chunks_prefix:
  "read_chunks m (map Chunk cs @ reads) chunks n =
     (if n + length (concat cs) \<le> m \<or> cs = [] then read_chunks m reads (chunks @ cs) (n + length (concat cs))
      else Inl (invalid_body ''Identity Service request body exceeds its byte limit''))"
  by (induction cs arbitrary: chunks n) (auto simp: Let_def add.assoc)

text \<open>
  Request bodies. A body that arrives in any pieces within the limit is parsed as the
  concatenation of the pieces; as soon as the pieces exceed the limit the request is refused,
  whatever would follow; and a read that fails or is cancelled first makes the request fail with
  its error.
\<close>
theorem request_body_limited:
  "identityServiceJson parse m (Some (map Chunk cs @ EndOfBody # reads)) =
     (if length (concat cs) \<le> m
      then (case parse (concat cs) of Some v \<Rightarrow> Inr v | None \<Rightarrow> Inl (invalid_body ''Invalid JSON request body''))
      else Inl (invalid_body ''Identity Service request body exceeds its byte limit'')) \<and>
   identityServiceJson parse m (Some (map Chunk cs @ reads)) =
     (if m < length (concat cs) then Inl (invalid_body ''Identity Service request body exceeds its byte limit'')
      else identityServiceJson parse m (Some (map Chunk [concat cs] @ reads))) \<and>
   identityServiceJson parse m (Some (map Chunk cs @ ReadThrows e # reads)) =
     (if length (concat cs) \<le> m then Inl e
      else Inl (invalid_body ''Identity Service request body exceeds its byte limit''))"
proof -
  have join: "and_then (read_chunks m rs (a @ cs) n) (\<lambda>c. f (concat c)) =
      and_then (read_chunks m rs (a @ [concat cs]) n) (\<lambda>c. f (concat c))"
    for rs a n and f :: "bytes \<Rightarrow> IdentityServiceError + json"
  proof (induction rs arbitrary: n cs a)
    case (Cons r rs)
    have "read_chunks m rs ((a @ cs) @ [v]) k = read_chunks m rs (a @ (cs @ [v])) k" for v k by simp
    show ?case
    proof (cases r)
      case (Chunk v)
      have "and_then (read_chunks m rs ((a @ cs) @ [v]) k) (\<lambda>c. f (concat c)) =
          and_then (read_chunks m rs ((a @ [concat cs]) @ [v]) k) (\<lambda>c. f (concat c))" for k
        using Cons.IH [of a "cs @ [v]" k] Cons.IH [of a "[concat cs, v]" k] by simp
      then show ?thesis by (simp add: Chunk Let_def)
    qed simp_all
  qed simp
  show ?thesis
    using join [of reads "[]"] by (auto simp: identityServiceJson_def read_chunks_prefix split: option.split)
qed

end
