(* ===== verification/ParentChain.thy ===== *)
theory ParentChain
  imports Prelude
begin

text \<open>
  Ordering of transcript rows by their parent chain (\<open>packages/shared/src/dag.ts\<close>).

  A row is any record that extends \<open>DagOrderable\<close>; the rest of it is the type parameter, as in
  the code. \<open>undefined\<close> and \<open>null\<close> are both \<open>None\<close>: the code does not tell them apart. The
  recursive closure \<open>emit\<close> is \<open>emit_all\<close> on its list of dependents, with the two mutable
  collections and the result threaded as a record.
\<close>

section \<open>Rows\<close>

record DagOrderable =
  do_uuid :: "string option"
  do_id :: "string option"
  do_parentUuid :: "string option"

definition getDagId :: "'a DagOrderable_scheme \<Rightarrow> string" where
  "getDagId item =
     (case do_uuid item of Some u \<Rightarrow> u
      | None \<Rightarrow> (case do_id item of Some i \<Rightarrow> i | None \<Rightarrow> ''''))"

text \<open>A parent that is missing or the empty string counts as none.\<close>

definition parent :: "'a DagOrderable_scheme \<Rightarrow> string option" where
  "parent item = (case do_parentUuid item of Some p \<Rightarrow> if p = '''' then None else Some p | None \<Rightarrow> None)"

definition ids_of :: "'a DagOrderable_scheme list \<Rightarrow> string set" where
  "ids_of items = getDagId ` set items"

section \<open>The code\<close>

fun needs_scan :: "string set \<Rightarrow> string set \<Rightarrow> 'a DagOrderable_scheme list \<Rightarrow> bool" where
  "needs_scan ids seen [] = False"
| "needs_scan ids seen (item # items) =
     ((case parent item of Some p \<Rightarrow> p \<in> ids \<and> p \<notin> seen | None \<Rightarrow> False) \<or>
      needs_scan ids (insert (getDagId item) seen) items)"

definition needsReorder :: "'a DagOrderable_scheme list \<Rightarrow> bool" where
  "needsReorder items = needs_scan (ids_of items) {} items"

record 'a ordering =
  od_result :: "'a DagOrderable_scheme list"
  od_emitted :: "string set"
  od_waiting :: "(string \<times> 'a DagOrderable_scheme list) list"

text \<open>The body of \<open>emit\<close> up to its loop: the dependents it goes on with, and the new state.\<close>

definition emit_step :: "'a DagOrderable_scheme \<Rightarrow> 'a ordering \<Rightarrow> 'a DagOrderable_scheme list \<times> 'a ordering" where
  "emit_step item s =
     (let i = getDagId item
      in if i = '''' then ([], s\<lparr>od_result := od_result s @ [item]\<rparr>)
         else if i \<in> od_emitted s then ([], s)
         else
           (let s = s\<lparr>od_emitted := insert i (od_emitted s), od_result := od_result s @ [item]\<rparr>
            in case map_of (od_waiting s) i of
                 None \<Rightarrow> ([], s)
               | Some waiting \<Rightarrow> (waiting, s\<lparr>od_waiting := AList.delete i (od_waiting s)\<rparr>)))"

definition waiting_rows :: "'a ordering \<Rightarrow> 'a DagOrderable_scheme list" where
  "waiting_rows s = concat (map snd (od_waiting s))"

lemma waiting_rows_delete:
  "map_of m k = Some ws \<Longrightarrow> length (concat (map snd (AList.delete k m))) + length ws \<le> length (concat (map snd m))"
proof (induction m)
  case (Cons x m)
  have "length (concat (map snd (AList.delete k m))) \<le> length (concat (map snd m))"
    by (induction m) auto
  with Cons show ?case by (cases x) auto
qed simp

lemma emit_step_waiting:
  "emit_step item s = (deps, s') \<Longrightarrow> length (waiting_rows s') + length deps \<le> length (waiting_rows s)"
  by (auto simp: emit_step_def waiting_rows_def Let_def waiting_rows_delete split: if_splits option.splits)

function emit_all :: "'a DagOrderable_scheme list \<Rightarrow> 'a ordering \<Rightarrow> 'a ordering" where
  "emit_all [] s = s"
| "emit_all (item # items) s =
     emit_all items (case emit_step item s of (deps, s') \<Rightarrow> emit_all deps s')"
  by pat_completeness auto

lemma emit_all_waiting: "emit_all_dom (items, s) \<Longrightarrow> length (waiting_rows (emit_all items s)) \<le> length (waiting_rows s)"
proof (induction items s rule: emit_all.pinduct)
  case (2 item items s)
  obtain deps s' where e: "emit_step item s = (deps, s')" by fastforce
  with 2 emit_step_waiting [OF e] show ?case by (auto simp: emit_all.psimps)
qed (simp add: emit_all.psimps)

termination emit_all
proof (relation "measure (\<lambda>(items, s). length (waiting_rows s) + length items)", goal_cases)
  case (2 item items s deps s')
  from emit_step_waiting [OF 2 [symmetric]] show ?case by (simp add: less_Suc_eq_le)
next
  case (3 item items s)
  obtain deps s' where e: "emit_step item s = (deps, s')" by fastforce
  with 3 emit_all_waiting [of deps s'] emit_step_waiting [OF e] show ?case by auto
qed simp

definition emit :: "'a DagOrderable_scheme \<Rightarrow> 'a ordering \<Rightarrow> 'a ordering" where
  "emit item s = emit_all [item] s"

definition postpone :: "string \<Rightarrow> 'a DagOrderable_scheme \<Rightarrow> 'a ordering \<Rightarrow> 'a ordering" where
  "postpone p item s =
     (let waiting = (case map_of (od_waiting s) p of Some ws \<Rightarrow> ws | None \<Rightarrow> [])
      in s\<lparr>od_waiting := AList.update p (waiting @ [item]) (od_waiting s)\<rparr>)"

definition blocked :: "string set \<Rightarrow> 'a DagOrderable_scheme \<Rightarrow> string set \<Rightarrow> bool" where
  "blocked ids item emitted = (case parent item of Some p \<Rightarrow> p \<in> ids \<and> p \<notin> emitted | None \<Rightarrow> False)"

fun place_rows :: "string set \<Rightarrow> 'a DagOrderable_scheme list \<Rightarrow> 'a ordering \<Rightarrow> 'a ordering" where
  "place_rows ids [] s = s"
| "place_rows ids (item # items) s =
     place_rows ids items
       (if blocked ids item (od_emitted s) then postpone (the (parent item)) item s else emit item s)"

fun append_stranded :: "'a DagOrderable_scheme list \<Rightarrow> 'a ordering \<Rightarrow> 'a ordering" where
  "append_stranded [] s = s"
| "append_stranded (item # items) s =
     append_stranded items
       (if getDagId item \<noteq> '''' \<and> getDagId item \<notin> od_emitted s then emit item s else s)"

definition orderByParentChain :: "'a DagOrderable_scheme list \<Rightarrow> 'a DagOrderable_scheme list" where
  "orderByParentChain items =
     (if length items \<le> 1 then items
      else if \<not> needsReorder items then items
      else
        (let s = place_rows (ids_of items) items \<lparr>od_result = [], od_emitted = {}, od_waiting = []\<rparr>;
             s = (if od_waiting s \<noteq> [] then append_stranded items s else s)
         in od_result s))"

section \<open>Every row once\<close>

definition nameless :: "'a DagOrderable_scheme \<Rightarrow> bool" where
  "nameless x = (getDagId x = '''')"

definition unique_ids :: "'a DagOrderable_scheme list \<Rightarrow> bool" where
  "unique_ids rows = distinct (map getDagId (filter (\<lambda>x. \<not> nameless x) rows))"

lemma unique_ids_eq:
  assumes "unique_ids rows" and "x \<in> set rows" "y \<in> set rows" "getDagId x = getDagId y" "\<not> nameless x"
  shows "x = y"
proof -
  have "x \<in> set (filter (\<lambda>x. \<not> nameless x) rows)" "y \<in> set (filter (\<lambda>x. \<not> nameless x) rows)"
    using assms by (auto simp: nameless_def)
  with assms(1,4) show ?thesis unfolding unique_ids_def distinct_map by (meson inj_onD)
qed

text \<open>
  The state of the loops, of which the rows \<open>N\<close> have been seen: each is in the result or waits
  for a row that is not emitted yet; the rows without an id are counted by \<open>E\<close>.
\<close>

definition placing ::
  "'a DagOrderable_scheme list \<Rightarrow> 'a DagOrderable_scheme multiset \<Rightarrow> 'a DagOrderable_scheme set \<Rightarrow> 'a ordering \<Rightarrow> bool"
where
  "placing rows E N s =
     (set (od_result s) \<subseteq> set rows \<and> set (waiting_rows s) \<subseteq> set rows \<and>
      unique_ids (od_result s) \<and>
      od_emitted s = getDagId ` {x \<in> set (od_result s). \<not> nameless x} \<and>
      mset (filter nameless (od_result s)) + mset (filter nameless (waiting_rows s)) = E \<and>
      N \<subseteq> set (od_result s) \<union> set (waiting_rows s) \<and>
      distinct (map fst (od_waiting s)) \<and>
      (\<forall>(p, ws) \<in> set (od_waiting s). p \<in> ids_of rows \<and> p \<noteq> '''' \<and> p \<notin> od_emitted s \<and>
         (\<forall>x \<in> set ws. parent x = Some p)))"

lemma mset_waiting_delete:
  "distinct (map fst m) \<Longrightarrow> map_of m k = Some ws \<Longrightarrow>
     mset (concat (map snd m)) = mset ws + mset (concat (map snd (AList.delete k m)))"
proof (induction m)
  case (Cons x m)
  show ?case
  proof (cases "fst x = k")
    case True
    with Cons.prems have "map_of m k = None" by (auto simp: map_of_eq_None_iff)
    with True Cons.prems show ?thesis by (cases x) (simp add: delete_absent)
  next
    case False
    with Cons show ?thesis by (cases x) simp
  qed
qed simp

lemma mset_waiting_postpone:
  "mset (waiting_rows (postpone p x s)) = add_mset x (mset (waiting_rows s))"
proof -
  have "mset (concat (map snd (AList.update p (ws @ [x]) m))) = add_mset x (mset (concat (map snd m)))"
    if "ws = (case map_of m p of Some ws \<Rightarrow> ws | None \<Rightarrow> [])" for m ws
    using that by (induction m) auto
  then show ?thesis by (simp add: postpone_def waiting_rows_def Let_def)
qed

lemma placing_mono: "placing rows E N s \<Longrightarrow> N' \<subseteq> N \<Longrightarrow> placing rows E N' s"
  by (auto simp: placing_def)

lemma emit_step_named:
  "\<not> nameless x \<Longrightarrow> getDagId x \<notin> od_emitted s \<Longrightarrow>
     emit_step x s = ((case map_of (od_waiting s) (getDagId x) of Some ws \<Rightarrow> ws | None \<Rightarrow> []),
       s\<lparr>od_emitted := insert (getDagId x) (od_emitted s), od_result := od_result s @ [x],
         od_waiting := AList.delete (getDagId x) (od_waiting s)\<rparr>)"
  by (auto simp: emit_step_def nameless_def Let_def delete_absent split: option.split)

lemma placing_emit_step:
  assumes P: "placing rows E N s" and rows: "unique_ids rows" "x \<in> set rows" and e: "emit_step x s = (deps, s')"
  shows "\<exists>E'. placing rows E' (insert x N - set deps) s' \<and> set deps \<subseteq> set rows \<and>
    E' + mset (filter nameless deps) = E + mset (filter nameless [x])"
proof (cases "nameless x")
  case True
  then have "deps = []" "s' = s\<lparr>od_result := od_result s @ [x]\<rparr>"
    using e by (auto simp: emit_step_def nameless_def)
  with P rows True show ?thesis
    by (intro exI [of _ "add_mset x E"]) (auto simp: placing_def unique_ids_def waiting_rows_def)
next
  case named: False
  show ?thesis
  proof (cases "getDagId x \<in> od_emitted s")
    case True
    then obtain y where "y \<in> set (od_result s)" "getDagId y = getDagId x"
      using P by (auto simp: placing_def)
    then have "x \<in> set (od_result s)"
      using unique_ids_eq [OF rows(1,2), of y] P named by (auto simp: placing_def)
    moreover have "deps = []" "s' = s" using e True named by (auto simp: emit_step_def nameless_def)
    ultimately show ?thesis using P named by (intro exI [of _ E]) (auto simp: placing_def)
  next
    case False
    note e = e [unfolded emit_step_named [OF named False], symmetric, simplified]
    define m where "m = od_waiting s"
    have dist: "distinct (map fst m)" using P by (simp add: placing_def m_def)
    have w: "mset (waiting_rows s) = mset deps + mset (waiting_rows s')"
    proof (cases "map_of m (getDagId x)")
      case None
      then show ?thesis using e by (simp add: waiting_rows_def m_def delete_absent)
    next
      case (Some ws)
      then show ?thesis using e mset_waiting_delete [OF dist Some] by (simp add: waiting_rows_def m_def)
    qed
    then have ws: "set (waiting_rows s) = set deps \<union> set (waiting_rows s')" by (metis set_mset_mset set_mset_union)
    have "mset (filter nameless (waiting_rows s)) = mset (filter nameless deps) + mset (filter nameless (waiting_rows s'))"
      using arg_cong [OF w, of "filter_mset nameless"] by simp
    moreover have "getDagId x \<notin> getDagId ` {y \<in> set (od_result s). \<not> nameless y}"
      using P False by (simp add: placing_def)
    moreover have s': "od_result s' = od_result s @ [x]" "od_emitted s' = insert (getDagId x) (od_emitted s)"
      "od_waiting s' = AList.delete (getDagId x) m"
      using e by (simp_all add: m_def)
    have "placing rows (mset (filter nameless (od_result s')) + mset (filter nameless (waiting_rows s')))
        (insert x N - set deps) s'"
      unfolding placing_def
    proof (intro conjI)
      show "set (od_result s') \<subseteq> set rows" using P rows(2) by (simp add: placing_def s')
      show "set (waiting_rows s') \<subseteq> set rows" using P ws by (auto simp: placing_def)
      have "unique_ids (od_result s)" using P by (simp add: placing_def)
      then show "unique_ids (od_result s')"
        using named \<open>getDagId x \<notin> getDagId ` _\<close> by (simp add: s' unique_ids_def)
      have "od_emitted s = getDagId ` {x \<in> set (od_result s). \<not> nameless x}" using P by (simp add: placing_def)
      then show "od_emitted s' = getDagId ` {x \<in> set (od_result s'). \<not> nameless x}"
        using named by (auto simp: s')
      have "N \<subseteq> set (od_result s) \<union> set (waiting_rows s)" using P by (simp add: placing_def)
      then show "insert x N - set deps \<subseteq> set (od_result s') \<union> set (waiting_rows s')"
        using ws by (auto simp: s')
      show "distinct (map fst (od_waiting s'))" using dist by (simp add: s' distinct_delete)
      have "\<forall>(p, ws) \<in> set m. p \<in> ids_of rows \<and> p \<noteq> '''' \<and> p \<notin> od_emitted s \<and> (\<forall>x \<in> set ws. parent x = Some p)"
        using P unfolding placing_def m_def by blast
      then show "\<forall>(p, ws) \<in> set (od_waiting s'). p \<in> ids_of rows \<and> p \<noteq> '''' \<and> p \<notin> od_emitted s' \<and>
          (\<forall>x \<in> set ws. parent x = Some p)"
        unfolding s' by (auto simp: AList.delete_eq)
    qed simp
    moreover have "mset (filter nameless (od_result s')) + mset (filter nameless (waiting_rows s')) + mset (filter nameless deps)
        = E + mset (filter nameless [x])"
      using P named \<open>mset (filter nameless (waiting_rows s)) = _\<close> by (auto simp: placing_def s')
    moreover have "set deps \<subseteq> set rows" using P ws by (auto simp: placing_def)
    ultimately show ?thesis by blast
  qed
qed

lemma placing_emit_all:
  assumes "placing rows E N s" and "unique_ids rows" and "set xs \<subseteq> set rows"
  shows "placing rows (E + mset (filter nameless xs)) (N \<union> set xs) (emit_all xs s)"
  using assms
proof (induction xs s arbitrary: E N rule: emit_all.induct)
  case (2 x xs s)
  obtain deps s' where e: "emit_step x s = (deps, s')" by fastforce
  from placing_emit_step [OF "2.prems"(1,2) _ e] "2.prems"(3) obtain E'
    where E': "placing rows E' (insert x N - set deps) s'" "set deps \<subseteq> set rows"
      "E' + mset (filter nameless deps) = E + mset (filter nameless [x])" by auto
  from "2.IH"(1) [OF e [symmetric] E'(1) "2.prems"(2) E'(2)]
  have "placing rows (E + mset (filter nameless [x])) (insert x N) (emit_all deps s')"
    unfolding E'(3) by (rule placing_mono) auto
  then have "placing rows (E + mset (filter nameless [x])) (insert x N) (case emit_step x s of (deps, s') \<Rightarrow> emit_all deps s')"
    by (simp add: e)
  from "2.IH"(2) [OF this "2.prems"(2)] "2.prems"(3) show ?case
    by (cases "nameless x") (simp_all add: union_commute)
qed simp

lemma placing_postpone:
  assumes P: "placing rows E N s" and "x \<in> set rows" and "blocked (ids_of rows) x (od_emitted s)"
  shows "placing rows (E + mset (filter nameless [x])) (insert x N) (postpone (the (parent x)) x s)"
proof -
  obtain p where p: "parent x = Some p" "p \<in> ids_of rows" "p \<notin> od_emitted s"
    using assms(3) by (auto simp: blocked_def split: option.splits)
  then have "p \<noteq> ''''" by (auto simp: parent_def split: option.splits if_splits)
  let ?s = "postpone p x s" and ?ws = "(case map_of (od_waiting s) p of Some ws \<Rightarrow> ws | None \<Rightarrow> [])"
  have w: "mset (waiting_rows ?s) = add_mset x (mset (waiting_rows s))" by (rule mset_waiting_postpone)
  then have ws: "set (waiting_rows ?s) = insert x (set (waiting_rows s))"
    by (metis set_mset_add_mset_insert set_mset_mset)
  have f: "od_result ?s = od_result s" "od_emitted ?s = od_emitted s"
    "od_waiting ?s = AList.update p (?ws @ [x]) (od_waiting s)"
    by (simp_all add: postpone_def Let_def)
  have old: "\<forall>(p, ws) \<in> set (od_waiting s). p \<in> ids_of rows \<and> p \<noteq> '''' \<and> p \<notin> od_emitted s \<and>
      (\<forall>x \<in> set ws. parent x = Some p)"
    using P unfolding placing_def by blast
  have "parent y = Some p" if "y \<in> set ?ws" for y
  proof (cases "map_of (od_waiting s) p")
    case (Some ws)
    with old that show ?thesis using map_of_SomeD [OF Some] by auto
  qed (use that in simp)
  then have "\<forall>y \<in> set (?ws @ [x]). parent y = Some p" using p(1) by auto
  moreover note set_update_subset [of p "?ws @ [x]" "od_waiting s"]  ultimately have new: "\<forall>(p, ws) \<in> set (od_waiting ?s). p \<in> ids_of rows \<and> p \<noteq> '''' \<and> p \<notin> od_emitted ?s \<and>
      (\<forall>x \<in> set ws. parent x = Some p)"
    using old p(2,3) \<open>p \<noteq> ''''\<close> unfolding f by blast
  have "mset (filter nameless (waiting_rows ?s)) = mset (filter nameless [x]) + mset (filter nameless (waiting_rows s))"
    using arg_cong [OF w, of "filter_mset nameless"] by simp
  then have "mset (filter nameless (od_result ?s)) + mset (filter nameless (waiting_rows ?s)) = E + mset (filter nameless [x])"
    using P by (auto simp: placing_def f)
  then show ?thesis
    using P assms(2) ws new unfolding placing_def p(1) option.sel f by (auto simp: distinct_update)
qed

lemma emit_all_emitted:
  "od_emitted s \<subseteq> od_emitted (emit_all xs s) \<and> (\<forall>x \<in> set xs. \<not> nameless x \<longrightarrow> getDagId x \<in> od_emitted (emit_all xs s))"
proof (induction xs s rule: emit_all.induct)
  case (2 x xs s)
  obtain deps s' where e: "emit_step x s = (deps, s')" by fastforce
  then have "od_emitted s \<subseteq> od_emitted s'" "\<not> nameless x \<longrightarrow> getDagId x \<in> od_emitted s'"
    by (auto simp: emit_step_def nameless_def Let_def split: if_splits option.splits)
  with "2.IH"(1) [OF e [symmetric]] "2.IH"(2) show ?case by (auto simp: e)
qed simp

lemma placing_emit:
  "placing rows E N s \<Longrightarrow> unique_ids rows \<Longrightarrow> x \<in> set rows \<Longrightarrow>
     placing rows (E + mset (filter nameless [x])) (insert x N) (emit x s)"
  using placing_emit_all [of rows E N s "[x]"] by (simp add: emit_def)

lemma placing_place_rows:
  assumes "placing rows E N s" and "unique_ids rows" and "set xs \<subseteq> set rows"
  shows "placing rows (E + mset (filter nameless xs)) (N \<union> set xs) (place_rows (ids_of rows) xs s)"
  using assms
proof (induction xs arbitrary: E N s)
  case (Cons x xs)
  let ?s = "if blocked (ids_of rows) x (od_emitted s) then postpone (the (parent x)) x s else emit x s"
  have "placing rows (E + mset (filter nameless [x])) (insert x N) ?s"
    using Cons.prems placing_postpone [OF Cons.prems(1), of x] placing_emit [OF Cons.prems(1,2), of x] by auto
  from Cons.IH [OF this Cons.prems(2)] Cons.prems(3) show ?case
    by (cases "nameless x") (simp_all add: union_commute)
qed simp

lemma placing_append_stranded:
  assumes "placing rows E N s" and "unique_ids rows" and "set xs \<subseteq> set rows"
  shows "placing rows E N (append_stranded xs s) \<and> od_emitted s \<subseteq> od_emitted (append_stranded xs s) \<and>
    (\<forall>x \<in> set xs. \<not> nameless x \<longrightarrow> getDagId x \<in> od_emitted (append_stranded xs s))"
  using assms
proof (induction xs arbitrary: s)
  case (Cons x xs)
  let ?s = "if getDagId x \<noteq> '''' \<and> getDagId x \<notin> od_emitted s then emit x s else s"
  have "placing rows E N ?s"
    using Cons.prems placing_mono [OF placing_emit [OF Cons.prems(1,2), of x], of N]
    by (cases "nameless x") (auto simp: nameless_def)
  note IH = Cons.IH [OF this Cons.prems(2)]
  have "od_emitted s \<subseteq> od_emitted ?s \<and> (\<not> nameless x \<longrightarrow> getDagId x \<in> od_emitted ?s)"
    using emit_all_emitted [of s "[x]"] by (auto simp: emit_def nameless_def)
  with IH Cons.prems(3) show ?case by auto
qed simp

definition start_ordering :: "'a ordering" where
  "start_ordering = \<lparr>od_result = [], od_emitted = {}, od_waiting = []\<rparr>"

lemma placing_start: "placing rows {#} {} start_ordering"
  by (simp add: placing_def start_ordering_def waiting_rows_def unique_ids_def)

lemma placed_all:
  assumes "unique_ids rows"
  shows "placing rows (mset (filter nameless rows)) (set rows) (place_rows (ids_of rows) rows start_ordering)"
  using placing_place_rows [OF placing_start assms, of rows] by simp

text \<open>Nothing waits once every row that has an id is emitted; the result then has every row once.\<close>

lemma placing_complete:
  assumes P: "placing rows (mset (filter nameless rows)) (set rows) s" and "unique_ids rows" and "od_waiting s = []"
  shows "mset (od_result s) = mset rows"
proof -
  have w: "waiting_rows s = []" using assms(3) by (simp add: waiting_rows_def)
  let ?named = "filter (\<lambda>x. \<not> nameless x)"
  have "set (od_result s) = set rows" using P by (auto simp: placing_def w)
  moreover have "distinct (?named (od_result s))" "distinct (?named rows)"
    using P assms(2) by (auto simp: placing_def unique_ids_def distinct_map)
  ultimately have "mset (?named (od_result s)) = mset (?named rows)"
    by (intro set_eq_iff_mset_eq_distinct [THEN iffD1]) auto
  moreover have "mset (filter nameless (od_result s)) = mset (filter nameless rows)"
    using P unfolding placing_def w by simp
  ultimately show ?thesis by (metis mset_filter multiset_partition)
qed

lemma stranded_complete:
  assumes P: "placing rows E N s" and "unique_ids rows"
  shows "od_waiting (append_stranded rows s) = []"
proof -
  let ?s = "append_stranded rows s"
  have A: "placing rows E N ?s" "\<forall>x \<in> set rows. \<not> nameless x \<longrightarrow> getDagId x \<in> od_emitted ?s"
    using placing_append_stranded [OF P assms(2) subset_refl] by blast+
  have "(p, ws) \<notin> set (od_waiting ?s)" for p ws
  proof
    assume "(p, ws) \<in> set (od_waiting ?s)"
    with A(1) have "p \<in> ids_of rows" "p \<noteq> ''''" "p \<notin> od_emitted ?s" unfolding placing_def by blast+
    with A(2) show False by (auto simp: ids_of_def nameless_def)
  qed
  then show ?thesis by (metis list.set_intros(1) neq_Nil_conv surj_pair)
qed

lemma order_cases:
  obtains (kept) "orderByParentChain rows = rows" "length rows \<le> 1 \<or> \<not> needsReorder rows"
  | (placed) s where "orderByParentChain rows = od_result s" "s = place_rows (ids_of rows) rows start_ordering"
      "od_waiting s = []"
  | (stranded) s where "orderByParentChain rows = od_result (append_stranded rows s)"
      "s = place_rows (ids_of rows) rows start_ordering" "od_waiting s \<noteq> []"
proof (cases "length rows \<le> 1 \<or> \<not> needsReorder rows")
  case True
  then show ?thesis by (intro kept) (auto simp: orderByParentChain_def)
next
  case False
  let ?s = "place_rows (ids_of rows) rows start_ordering"
  have "orderByParentChain rows = od_result (if od_waiting ?s \<noteq> [] then append_stranded rows ?s else ?s)"
    using False by (simp add: orderByParentChain_def start_ordering_def Let_def)
  then show ?thesis by (cases "od_waiting ?s = []") (auto intro: placed stranded)
qed
lemma order_permutes: "unique_ids rows \<Longrightarrow> mset (orderByParentChain rows) = mset rows"
proof (cases rule: order_cases [of rows])
  case (placed s)
  assume u: "unique_ids rows"
  show ?thesis using placing_complete [OF placed_all [OF u] u] placed by auto
next
  case (stranded s)
  assume u: "unique_ids rows"
  have "placing rows (mset (filter nameless rows)) (set rows) (append_stranded rows s)"
    using placing_append_stranded [OF placed_all [OF u] u subset_refl] stranded(2) by auto
  then show ?thesis
    using placing_complete [OF _ u] stranded_complete [OF placed_all [OF u] u] stranded(1,2) by auto
qed simp

section \<open>Parents first\<close>

lemma blocked_mono: "blocked ids x (insert '''' emitted') \<Longrightarrow> emitted \<subseteq> emitted' \<Longrightarrow> blocked ids x emitted"
  by (auto simp: blocked_def split: option.splits)

lemma blocked_blank: "blocked ids x (insert '''' seen) = blocked ids x seen"
  by (auto simp: blocked_def parent_def split: option.splits)

lemma needs_scan_snoc:
  "needs_scan ids seen (xs @ [x]) \<longleftrightarrow> needs_scan ids seen xs \<or> blocked ids x (seen \<union> ids_of xs)"
  by (induction xs arbitrary: seen) (auto simp: blocked_def ids_of_def split: option.splits)

lemma blocked_emitted:
  assumes "placing rows E N s"
  shows "blocked ids x (ids_of (od_result s)) = blocked ids x (od_emitted s)"
proof -
  have "insert '''' (ids_of (od_result s)) = insert '''' (od_emitted s)"
    using assms by (auto simp: placing_def ids_of_def nameless_def)
  then show ?thesis by (metis blocked_blank)
qed

lemma emit_step_deps:
  assumes "placing rows E N s" and "emit_step x s = (deps, s')" and "y \<in> set deps"
  shows "parent y = Some (getDagId x) \<and> getDagId x \<in> od_emitted s'"
proof -
  have "\<not> nameless x" "getDagId x \<notin> od_emitted s"
    using assms(2,3) by (auto simp: emit_step_def nameless_def Let_def split: if_splits)
  note e = assms(2) [unfolded emit_step_named [OF this], symmetric, simplified]
  have d: "deps = (case map_of (od_waiting s) (getDagId x) of Some ws \<Rightarrow> ws | None \<Rightarrow> [])" using e by simp
  obtain ws where ws: "map_of (od_waiting s) (getDagId x) = Some ws" "y \<in> set ws"
    using assms(3) unfolding d by (cases "map_of (od_waiting s) (getDagId x)") auto
  have "\<forall>(p, ws) \<in> set (od_waiting s). \<forall>x \<in> set ws. parent x = Some p"
    using assms(1) unfolding placing_def by blast
  with map_of_SomeD [OF ws(1)] ws(2) have "parent y = Some (getDagId x)" by blast
  moreover have "getDagId x \<in> od_emitted s'" using e by auto
  ultimately show ?thesis by simp
qed

lemma emit_all_ordered:
  assumes "placing rows E N s" and "unique_ids rows" and "set xs \<subseteq> set rows"
    and "\<not> needs_scan (ids_of rows) {} (od_result s)" and "\<forall>x \<in> set xs. \<not> blocked (ids_of rows) x (od_emitted s)"
  shows "\<not> needs_scan (ids_of rows) {} (od_result (emit_all xs s))"
  using assms
proof (induction xs s arbitrary: E N rule: emit_all.induct)
  case (2 x xs s)
  obtain deps s' where e: "emit_step x s = (deps, s')" by fastforce
  let ?t = "emit_all deps s'"
  from placing_emit_step [OF "2.prems"(1,2) _ e] "2.prems"(3) obtain E'
    where P: "placing rows E' (insert x N - set deps) s'" "set deps \<subseteq> set rows" by auto
  have "od_result s' = od_result s \<or> od_result s' = od_result s @ [x]"
    using e by (auto simp: emit_step_def Let_def split: if_splits option.splits)
  then have "\<not> needs_scan (ids_of rows) {} (od_result s')"
    using "2.prems"(4,5) blocked_emitted [OF "2.prems"(1), of "ids_of rows" x]
    by (auto simp: needs_scan_snoc)
  moreover have "\<forall>y \<in> set deps. \<not> blocked (ids_of rows) y (od_emitted s')"
    using emit_step_deps [OF "2.prems"(1) e] by (auto simp: blocked_def)
  ultimately have t: "\<not> needs_scan (ids_of rows) {} (od_result ?t)"
    by (rule "2.IH"(1) [OF e [symmetric] P(1) "2.prems"(2) P(2)])
  have "od_emitted s \<subseteq> od_emitted s'"
    using e by (auto simp: emit_step_def Let_def split: if_splits option.splits)
  then have "od_emitted s \<subseteq> od_emitted ?t" using emit_all_emitted [of s' deps] by blast
  then have "\<forall>y \<in> set xs. \<not> blocked (ids_of rows) y (od_emitted ?t)"
    using "2.prems"(5) by (auto simp: blocked_def split: option.splits)
  then show ?case
    using "2.IH"(2) [of _ "insert x N - set deps \<union> set deps"] placing_emit_all [OF P(1) "2.prems"(2) P(2)] "2.prems"(2,3) t
    by (auto simp: e)
qed simp

lemma place_rows_ordered:
  assumes "placing rows E N s" and "unique_ids rows" and "set xs \<subseteq> set rows"
    and "\<not> needs_scan (ids_of rows) {} (od_result s)"
  shows "\<not> needs_scan (ids_of rows) {} (od_result (place_rows (ids_of rows) xs s))"
  using assms
proof (induction xs arbitrary: E N s)
  case (Cons x xs)
  show ?case
  proof (cases "blocked (ids_of rows) x (od_emitted s)")
    case True
    have "\<not> needs_scan (ids_of rows) {} (od_result (postpone (the (parent x)) x s))"
      using Cons.prems(4) by (simp add: postpone_def Let_def)
    with True Cons.IH [OF placing_postpone [OF Cons.prems(1) _ True] Cons.prems(2)] Cons.prems(3) show ?thesis by simp
  next
    case False
    have "\<not> needs_scan (ids_of rows) {} (od_result (emit x s))"
      using emit_all_ordered [OF Cons.prems(1,2), of "[x]"] Cons.prems(3,4) False by (simp add: emit_def)
    with False Cons.IH [OF placing_emit [OF Cons.prems(1,2)] Cons.prems(2)] Cons.prems(3) show ?thesis by simp
  qed
qed simp

text \<open>Each row is related to its parent; if no chain of parents closes, nothing is left waiting.\<close>

definition parent_edges :: "'a DagOrderable_scheme list \<Rightarrow> (string \<times> string) set" where
  "parent_edges rows = {(p, getDagId x) | p x. x \<in> set rows \<and> parent x = Some p}"

lemma acyclic_no_waiting:
  assumes P: "placing rows E (set rows) s" and "acyclic (parent_edges rows)"
  shows "od_waiting s = []"
proof (rule ccontr)
  assume "od_waiting s \<noteq> []"
  let ?K = "fst ` set (od_waiting s)"
  have "parent_edges rows \<subseteq> (\<lambda>x. (the (parent x), getDagId x)) ` set rows"
    by (force simp: parent_edges_def)
  then have "finite (parent_edges rows)" by (rule finite_subset) simp
  then have "wf (parent_edges rows)" using assms(2) by (rule finite_acyclic_wf)
  moreover obtain k where "k \<in> ?K" using \<open>od_waiting s \<noteq> []\<close> by (metis image_eqI list.set_intros(1) neq_Nil_conv)
  ultimately obtain p where p: "p \<in> ?K" "\<And>q. (q, p) \<in> parent_edges rows \<Longrightarrow> q \<notin> ?K"
    by (metis wfE_min)
  have entries: "\<forall>(p, ws) \<in> set (od_waiting s). p \<in> ids_of rows \<and> p \<noteq> '''' \<and> p \<notin> od_emitted s \<and>
      (\<forall>x \<in> set ws. parent x = Some p)"
    using P unfolding placing_def by blast
  with p(1) obtain y where y: "y \<in> set rows" "getDagId y = p" "p \<noteq> ''''" "p \<notin> od_emitted s"
    by (auto simp: ids_of_def)
  moreover have "od_emitted s = getDagId ` {x \<in> set (od_result s). \<not> nameless x}"
    and "set rows \<subseteq> set (od_result s) \<union> set (waiting_rows s)"
    using P unfolding placing_def by blast+
  ultimately have "y \<in> set (waiting_rows s)" by (auto simp: nameless_def)
  then obtain q ws where "(q, ws) \<in> set (od_waiting s)" "y \<in> set ws"
    by (auto simp: waiting_rows_def)
  moreover from this entries have "parent y = Some q" by blast
  ultimately have "(q, p) \<in> parent_edges rows" "q \<in> ?K"
    using y(1,2) by (auto simp: parent_edges_def intro: rev_image_eqI)
  with p(2) show False by blast
qed

lemma self_parent_edge: "needsReorder [x] \<Longrightarrow> \<not> acyclic (parent_edges [x])"
proof -
  assume "needsReorder [x]"
  then have "parent x = Some (getDagId x)" by (auto simp: needsReorder_def ids_of_def split: option.splits)
  then have "(getDagId x, getDagId x) \<in> parent_edges [x]" by (simp add: parent_edges_def)
  then show ?thesis by (meson acyclic_def r_into_trancl)
qed

lemma order_parents_first:
  assumes "unique_ids rows" and "acyclic (parent_edges rows)"
  shows "\<not> needs_scan (ids_of rows) {} (orderByParentChain rows)"
proof (cases rule: order_cases [of rows])
  case kept
  then show ?thesis
    using assms(2) self_parent_edge
    by (cases rows rule: remdups_adj.cases) (auto simp: needsReorder_def)
next
  case (placed s)
  then show ?thesis
    using place_rows_ordered [OF placing_start assms(1) subset_refl] by (simp add: start_ordering_def)
next
  case (stranded s)
  with acyclic_no_waiting [OF placed_all [OF assms(1)] assms(2)] show ?thesis by simp
qed

section \<open>Rows that need not move\<close>

text \<open>The rows whose parent is absent, or stands before them and need not move itself.\<close>

fun in_place :: "string set \<Rightarrow> string set \<Rightarrow> 'a DagOrderable_scheme list \<Rightarrow> 'a DagOrderable_scheme list" where
  "in_place ids placed [] = []"
| "in_place ids placed (x # xs) =
     (if blocked ids x placed then in_place ids placed xs
      else x # in_place ids (insert (getDagId x) placed) xs)"

lemma set_in_place: "set (in_place ids placed xs) \<subseteq> set xs"
proof (induction xs arbitrary: placed)
  case (Cons x xs)
  from Cons [of placed] Cons [of "insert (getDagId x) placed"] show ?case by auto
qed simp

lemma in_place_ordered: "\<not> needs_scan ids seen xs \<Longrightarrow> in_place ids seen xs = xs"
  by (induction xs arbitrary: seen) (auto simp: blocked_def split: option.splits)

lemma mset_emit_step:
  "emit_step x s = (deps, s') \<Longrightarrow> set deps \<subseteq> set (waiting_rows s) \<and> set (waiting_rows s') \<subseteq> set (waiting_rows s) \<and>
     (od_result s' = od_result s \<or> od_result s' = od_result s @ [x])"
  by (force simp: emit_step_def Let_def waiting_rows_def AList.delete_eq split: if_splits option.splits
      dest: map_of_SomeD)

text \<open>Emitting rows outside \<open>K\<close>, while only such rows wait, adds nothing of \<open>K\<close> to the result.\<close>

lemma emit_all_movers:
  assumes "set xs \<inter> K = {}" and "set (waiting_rows s) \<inter> K = {}"
  shows "filter (\<lambda>x. x \<in> K) (od_result (emit_all xs s)) = filter (\<lambda>x. x \<in> K) (od_result s) \<and>
    set (waiting_rows (emit_all xs s)) \<inter> K = {} \<and>
    set (od_result (emit_all xs s)) \<union> set (waiting_rows (emit_all xs s)) \<subseteq>
      set (od_result s) \<union> set (waiting_rows s) \<union> set xs"
  using assms
proof (induction xs s rule: emit_all.induct)
  case (2 x xs s)
  obtain deps s' where e: "emit_step x s = (deps, s')" by fastforce
  note m = mset_emit_step [OF e]
  have "x \<notin> K" "set deps \<inter> K = {}" "set (waiting_rows s') \<inter> K = {}" using "2.prems" m by auto
  note IH1 = "2.IH"(1) [OF e [symmetric] this(2,3)]
  have "set xs \<inter> K = {}" using "2.prems"(1) by simp
  note IH2 = "2.IH"(2) [OF this, unfolded e prod.case]
  have "filter (\<lambda>x. x \<in> K) (od_result s') = filter (\<lambda>x. x \<in> K) (od_result s)" using m \<open>x \<notin> K\<close> by auto
  moreover have "set (od_result s') \<union> set (waiting_rows s') \<union> set deps \<subseteq> insert x (set (od_result s) \<union> set (waiting_rows s))"
    using m by auto
  ultimately show ?case using IH1 IH2 by (simp add: e) blast
qed simp

lemma emit_all_result_mono: "set (od_result s) \<subseteq> set (od_result (emit_all xs s))"
proof (induction xs s rule: emit_all.induct)
  case (2 x xs s)
  obtain deps s' where e: "emit_step x s = (deps, s')" by fastforce
  with mset_emit_step [OF e] "2.IH" show ?case by (fastforce simp: e)
qed simp

lemma emit_fresh:
  assumes "nameless x \<or> getDagId x \<notin> od_emitted s" and "set (waiting_rows s) \<inter> K = {}"
  shows "filter (\<lambda>x. x \<in> K) (od_result (emit x s)) = filter (\<lambda>x. x \<in> K) (od_result s @ [x]) \<and>
    set (waiting_rows (emit x s)) \<inter> K = {} \<and>
    set (od_result (emit x s)) \<union> set (waiting_rows (emit x s)) \<subseteq> insert x (set (od_result s) \<union> set (waiting_rows s))"
proof -
  obtain deps s' where e: "emit_step x s = (deps, s')" by fastforce
  note m = mset_emit_step [OF e]
  have r: "od_result s' = od_result s @ [x]"
    using e assms(1) by (auto simp: emit_step_def nameless_def Let_def split: if_splits option.splits)
  have "set deps \<inter> K = {}" "set (waiting_rows s') \<inter> K = {}" using assms(2) m by auto
  from emit_all_movers [OF this] m r show ?thesis by (simp add: emit_def e) blast
qed

lemma postpone_rows:
  "od_result (postpone p x s) = od_result s" "od_emitted (postpone p x s) = od_emitted s"
  "set (waiting_rows (postpone p x s)) = insert x (set (waiting_rows s))"
proof -
  show "set (waiting_rows (postpone p x s)) = insert x (set (waiting_rows s))"
    using mset_waiting_postpone [of p x s] by (metis set_mset_add_mset_insert set_mset_mset)
qed (simp_all add: postpone_def Let_def)

lemma place_rows_in_place:
  assumes "placing rows E N s" and "unique_ids rows" and "set xs \<subseteq> set rows" and "distinct xs"
    and "set xs \<inter> (set (od_result s) \<union> set (waiting_rows s)) = {}" and "set (waiting_rows s) \<inter> K = {}"
    and "K \<inter> set xs = set (in_place (ids_of rows) placed xs)" and "placed \<subseteq> insert '''' (od_emitted s)"
  shows "filter (\<lambda>x. x \<in> K) (od_result (place_rows (ids_of rows) xs s)) =
    filter (\<lambda>x. x \<in> K) (od_result s) @ in_place (ids_of rows) placed xs \<and>
    set (waiting_rows (place_rows (ids_of rows) xs s)) \<inter> K = {}"
  using assms
proof (induction xs arbitrary: E N s placed)
  case (Cons x xs)
  let ?b = "blocked (ids_of rows) x" and ?p = "postpone (the (parent x)) x s" and ?ip = "in_place (ids_of rows)"
  have x: "x \<in> set rows" "x \<notin> set xs" "x \<notin> set (od_result s)" "x \<notin> set (waiting_rows s)"
    and xs: "set xs \<subseteq> set rows" "distinct xs" using Cons.prems(3-5) by auto
  have fresh: "nameless x \<or> getDagId x \<notin> od_emitted s"
  proof (rule ccontr)
    assume "\<not> ?thesis"
    then obtain y where "y \<in> set (od_result s)" "getDagId y = getDagId x" "\<not> nameless x"
      using Cons.prems(1) by (auto simp: placing_def)
    then show False using unique_ids_eq [OF Cons.prems(2) x(1), of y] Cons.prems(1) x(3) by (auto simp: placing_def)
  qed
  have emitted: "?b (od_emitted s) \<Longrightarrow> ?b placed"
    using Cons.prems(8) by (auto simp: blocked_def parent_def split: option.splits if_splits)
  note P = placing_emit [OF Cons.prems(1,2) x(1)] and E = emit_fresh [OF fresh Cons.prems(6)]
  show ?case
  proof (cases "?b placed")
    case True
    then have ip: "?ip placed (x # xs) = ?ip placed xs" by simp
    then have K: "x \<notin> K" "K \<inter> set xs = set (?ip placed xs)"
      using Cons.prems(7) x(2) set_in_place [of "ids_of rows" placed xs] by auto
    show ?thesis
    proof (cases "?b (od_emitted s)")
      case True
      have "set xs \<inter> (set (od_result ?p) \<union> set (waiting_rows ?p)) = {}" "set (waiting_rows ?p) \<inter> K = {}"
        "placed \<subseteq> insert '''' (od_emitted ?p)"
        using Cons.prems(5,6,8) x(2) K(1) by (auto simp: postpone_rows)
      from Cons.IH [OF placing_postpone [OF Cons.prems(1) x(1) True] Cons.prems(2) xs this(1,2) K(2) this(3)]
      show ?thesis using True ip by (simp add: postpone_rows)
    next
      case False
      have "set xs \<inter> (set (od_result (emit x s)) \<union> set (waiting_rows (emit x s))) = {}"
        "placed \<subseteq> insert '''' (od_emitted (emit x s))"
        using Cons.prems(5,8) x(2) E emit_all_emitted [of s "[x]"] by (auto simp: emit_def)
      from Cons.IH [OF P Cons.prems(2) xs this(1) _ K(2) this(2)] E False ip K(1) show ?thesis by simp
    qed
  next
    case False
    let ?q = "insert (getDagId x) placed"
    have ip: "?ip placed (x # xs) = x # ?ip ?q xs" using False by simp
    then have K: "x \<in> K" "K \<inter> set xs = set (?ip ?q xs)"
      using Cons.prems(7) x(2) set_in_place [of "ids_of rows" ?q xs] by auto
    have "set xs \<inter> (set (od_result (emit x s)) \<union> set (waiting_rows (emit x s))) = {}"
      "?q \<subseteq> insert '''' (od_emitted (emit x s))"
      using Cons.prems(5,8) x(2) E emit_all_emitted [of s "[x]"] by (auto simp: emit_def nameless_def)
    from Cons.IH [OF P Cons.prems(2) xs this(1) _ K(2) this(2)] E False emitted ip K(1) show ?thesis by auto
  qed
qed simp

lemma append_stranded_in_place:
  assumes "placing rows E N s" and "unique_ids rows" and "set xs \<subseteq> set rows"
    and "set (waiting_rows s) \<inter> K = {}" and "K \<subseteq> set (od_result s)"
  shows "filter (\<lambda>x. x \<in> K) (od_result (append_stranded xs s)) = filter (\<lambda>x. x \<in> K) (od_result s)"
  using assms
proof (induction xs arbitrary: E N s)
  case (Cons x xs)
  show ?case
  proof (cases "getDagId x \<noteq> '''' \<and> getDagId x \<notin> od_emitted s")
    case True
    then have "x \<notin> K" using Cons.prems(1,5) by (auto simp: placing_def nameless_def)
    moreover from True have "nameless x \<or> getDagId x \<notin> od_emitted s" by simp
    note E = emit_fresh [OF this Cons.prems(4)]
    have "K \<subseteq> set (od_result (emit x s))"
      using Cons.prems(5) emit_all_result_mono [of s "[x]"] by (auto simp: emit_def)
    then have "filter (\<lambda>x. x \<in> K) (od_result (append_stranded xs (emit x s))) = filter (\<lambda>x. x \<in> K) (od_result (emit x s))"
      using Cons.prems(3) E by (intro Cons.IH [OF placing_emit [OF Cons.prems(1,2)] Cons.prems(2)]) auto
    ultimately show ?thesis using True E by simp
  next
    case False
    with Cons.IH [OF Cons.prems(1,2) _ Cons.prems(4,5)] Cons.prems(3) show ?thesis by auto
  qed
qed simp

lemma order_in_place:
  assumes "unique_ids rows" and "distinct rows" and "K = set (in_place (ids_of rows) {} rows)"
  shows "filter (\<lambda>x. x \<in> K) (orderByParentChain rows) = in_place (ids_of rows) {} rows"
proof -
  let ?s = "place_rows (ids_of rows) rows start_ordering"
  have F: "filter (\<lambda>x. x \<in> K) (od_result ?s) = in_place (ids_of rows) {} rows" "set (waiting_rows ?s) \<inter> K = {}"
    using place_rows_in_place [OF placing_start assms(1) subset_refl assms(2), of K "{}"]
      set_in_place [of "ids_of rows" "{}" rows] assms(3)
    by (auto simp: start_ordering_def waiting_rows_def)
  show ?thesis
  proof (cases rule: order_cases [of rows])
    case kept
    have "filter (\<lambda>x. x \<in> K) rows = in_place (ids_of rows) {} rows"
    proof (cases "needsReorder rows")
      case False
      then show ?thesis using in_place_ordered [of "ids_of rows" "{}" rows] assms(3) by (simp add: needsReorder_def)
    next
      case True
      with kept(2) show ?thesis using assms(3) by (cases rows rule: remdups_adj.cases) auto
    qed
    with kept(1) show ?thesis by simp
  next
    case (placed s)
    with F show ?thesis by simp
  next
    case (stranded s)
    have P: "placing rows (mset (filter nameless rows)) (set rows) ?s" by (rule placed_all [OF assms(1)])
    have K: "K \<subseteq> set (od_result ?s)" using F(1) assms(3) by (metis filter_is_subset)
    from append_stranded_in_place [OF P assms(1) subset_refl F(2) K] F(1) stranded show ?thesis by simp
  qed
qed

section \<open>Properties\<close>

text \<open>
  C14 No row is lost, doubled or needlessly moved. If no id occurs twice, the result has exactly
  the rows of the input, even when parents form a cycle; and the rows whose parent is absent, or
  precedes them without having moved itself, keep their order.
\<close>
theorem reorder_keeps_rows:
  assumes "unique_ids rows"
  shows "mset (orderByParentChain rows) = mset rows \<and>
    (distinct rows \<longrightarrow>
      filter (\<lambda>x. x \<in> set (in_place (ids_of rows) {} rows)) (orderByParentChain rows) =
      in_place (ids_of rows) {} rows)"
  using order_permutes [OF assms] order_in_place [OF assms _ refl] by blast

text \<open>
  C15 Parents come first. If no id occurs twice and no chain of parents closes, every row of the
  result whose parent is among the rows stands after it, so ordering again changes nothing.
\<close>
theorem parents_come_first:
  assumes "unique_ids rows" and "acyclic (parent_edges rows)"
    and "orderByParentChain rows = before @ x # after" and "parent x = Some p" and "p \<in> ids_of rows"
  shows "p \<in> ids_of before \<and> \<not> needsReorder (orderByParentChain rows) \<and>
    orderByParentChain (orderByParentChain rows) = orderByParentChain rows"
proof -
  have ordered: "\<not> needs_scan (ids_of rows) {} (orderByParentChain rows)"
    by (rule order_parents_first [OF assms(1,2)])
  have "\<not> needs_scan ids seen (as @ bs) \<Longrightarrow> \<not> needs_scan ids seen as" for ids seen and as bs :: "'a DagOrderable_scheme list"
    by (induction as arbitrary: seen) auto
  with ordered have "\<not> needs_scan (ids_of rows) {} (before @ [x])" unfolding assms(3) by (metis append_Cons append_Nil append_assoc)
  then have "p \<in> ids_of before" using assms(4,5) by (auto simp: needs_scan_snoc blocked_def)
  moreover have "ids_of (orderByParentChain rows) = ids_of rows"
    using order_permutes [OF assms(1)] unfolding ids_of_def by (metis set_mset_mset)
  then have "\<not> needsReorder (orderByParentChain rows)" using ordered by (simp add: needsReorder_def)
  ultimately show ?thesis by (simp add: orderByParentChain_def [of "orderByParentChain rows"])
qed

definition row :: "string \<Rightarrow> string option \<Rightarrow> DagOrderable" where
  "row i p = \<lparr>do_uuid = Some i, do_id = None, do_parentUuid = p\<rparr>"

definition sample_rows :: "DagOrderable list" where
  "sample_rows = [row ''c'' (Some ''b''), row ''x'' None, row ''b'' (Some ''a''), row ''a'' (Some ''gone'')]"

lemma sample_unique: "unique_ids sample_rows"
  by code_simp

lemma sample_ordered:
  "orderByParentChain sample_rows = [row ''x'' None] @ row ''a'' (Some ''gone'') # [row ''b'' (Some ''a''), row ''c'' (Some ''b'')]"
  by code_simp

lemma reorder_keeps_rows_witness:
  "mset (orderByParentChain sample_rows) = mset sample_rows \<and> length (in_place (ids_of sample_rows) {} sample_rows) = 2"
  using reorder_keeps_rows [OF sample_unique] by (intro conjI) (blast, code_simp)

lemma parents_come_first_witness:
  "''b'' \<in> ids_of [row ''x'' None, row ''a'' (Some ''gone''), row ''b'' (Some ''a'')]"
proof -
  have "parent_edges sample_rows \<subseteq> {(''b'', ''c''), (''a'', ''b''), (''gone'', ''a'')}"
    by (auto simp: parent_edges_def sample_rows_def row_def parent_def getDagId_def)
  moreover have "wf {(''b'', ''c''), (''a'', ''b''), (''gone'', ''a'')}"
    by (rule wf_subset [OF wf_measure [of "\<lambda>i. if i = ''gone'' then 0 else if i = ''a'' then 1 else if i = ''b'' then 2 else 3"]]) auto
  ultimately have "acyclic (parent_edges sample_rows)" by (metis wf_acyclic acyclic_subset)
  then show ?thesis
    using parents_come_first [OF sample_unique, of "[row ''x'' None, row ''a'' (Some ''gone''), row ''b'' (Some ''a'')]"
        "row ''c'' (Some ''b'')" "[]" "''b''"] sample_ordered
    by (simp add: ids_of_def sample_rows_def row_def parent_def getDagId_def)
qed

end
