(* ===== verification/SessionDag.thy ===== *)
theory SessionDag
  imports Prelude "HOL-Library.List_Lexorder" "HOL-Library.Char_ord"
begin

text \<open>
  The active branch of a JSONL transcript (\<open>packages/server/src/sessions/dag.ts\<close>, with
  \<open>getLogicalParentUuid\<close> and \<open>getMessageContent\<close> of
  \<open>packages/shared/src/claude-sdk-schema/guards.ts\<close>).

  A row is the JSON value of its line. Fields that the schema types as strings read as absent when
  they are not strings. A \<open>null\<close> block inside a content array, which the schema excludes (the code
  would throw), counts as a block of no type. Strings are compared lexicographically by character,
  as JavaScript's \<open><\<close> does.
\<close>

declare map_of_eq_Some_iff [simp del]

section \<open>Fields of a row\<close>

definition str_prop :: "json \<Rightarrow> string \<Rightarrow> string option" where
  "str_prop v k = (case get_prop v k of Some (JStr s) \<Rightarrow> Some s | _ \<Rightarrow> None)"

text \<open>The value of a string where it is tested for truth: \<open>undefined\<close>, \<open>null\<close> and \<open>""\<close> fail.\<close>

definition truthy_str :: "string option \<Rightarrow> string option" where
  "truthy_str s = (case s of Some x \<Rightarrow> if x = '''' then None else Some x | None \<Rightarrow> None)"

lemma truthy_str_Some [simp]: "truthy_str s = Some x \<longleftrightarrow> s = Some x \<and> x \<noteq> ''''"
  by (auto simp: truthy_str_def split: option.splits)

lemma truthy_str_None: "truthy_str s = None \<longleftrightarrow> s = None \<or> s = Some []"
  by (auto simp: truthy_str_def split: option.splits)

definition getObjectField :: "json \<Rightarrow> string \<Rightarrow> json option" where
  "getObjectField v k = (case get_prop v k of Some (JObj kvs) \<Rightarrow> Some (JObj kvs) | _ \<Rightarrow> None)"

definition getStringField :: "json option \<Rightarrow> string \<Rightarrow> string option" where
  "getStringField v k = (case v of Some o' \<Rightarrow> str_prop o' k | None \<Rightarrow> None)"

fun last_string :: "json list \<Rightarrow> string option" where
  "last_string [] = None"
| "last_string (v # vs) =
     (case last_string vs of Some s \<Rightarrow> Some s
      | None \<Rightarrow> (case v of JStr s \<Rightarrow> Some s | _ \<Rightarrow> None))"

definition getLastStringField :: "json option \<Rightarrow> string \<Rightarrow> string option" where
  "getLastStringField v k =
     (case v of
        Some o' \<Rightarrow> (case get_prop o' k of Some (JArr xs) \<Rightarrow> last_string xs | _ \<Rightarrow> None)
      | None \<Rightarrow> None)"

definition isCompactBoundary :: "json \<Rightarrow> bool" where
  "isCompactBoundary entry =
     (str_prop entry ''type'' = Some ''system'' \<and> str_prop entry ''subtype'' = Some ''compact_boundary'')"

definition getLogicalParentUuid :: "json \<Rightarrow> string option" where
  "getLogicalParentUuid entry =
     (if \<not> isCompactBoundary entry then None
      else case truthy_str (str_prop entry ''logicalParentUuid'') of
        Some l \<Rightarrow> Some l
      | None \<Rightarrow>
          (case get_prop entry ''compactMetadata'' of
             None \<Rightarrow> None
           | Some metadata \<Rightarrow>
               if \<not> is_object metadata then None
               else case truthy_str (getStringField (getObjectField metadata ''preservedSegment'') ''tailUuid'') of
                 Some t \<Rightarrow> Some t
               | None \<Rightarrow>
                   (let m = getObjectField metadata ''preservedMessages''
                    in case getLastStringField m ''uuids'' of
                         Some u \<Rightarrow> Some u
                       | None \<Rightarrow> getLastStringField m ''allUuids'')))"

definition is_conversation :: "json \<Rightarrow> bool" where
  "is_conversation entry = (str_prop entry ''type'' \<in> {Some ''user'', Some ''assistant''})"

definition getMessageContent :: "json \<Rightarrow> json option" where
  "getMessageContent entry =
     (if is_conversation entry
      then (case get_prop entry ''message'' of Some m \<Rightarrow> get_prop m ''content'' | None \<Rightarrow> None)
      else None)"

section \<open>Indexing\<close>

record DagNode =
  dn_uuid :: string
  dn_parentUuid :: "string option"
  dn_lineIndex :: nat
  dn_raw :: json

record DagIndex =
  ix_nodes :: "(string \<times> DagNode) list"
  ix_children :: "(string option \<times> string list) list"

definition is_progress :: "json \<Rightarrow> bool" where
  "is_progress entry = (str_prop entry ''type'' = Some ''progress'')"

definition collectProgressUuids :: "json list \<Rightarrow> string set" where
  "collectProgressUuids messages =
     set (List.map_filter (\<lambda>msg. if is_progress msg then truthy_str (str_prop msg ''uuid'') else None) messages)"

definition children_of :: "DagIndex \<Rightarrow> string option \<Rightarrow> string list" where
  "children_of ix p = (case map_of (ix_children ix) p of Some cs \<Rightarrow> cs | None \<Rightarrow> [])"

text \<open>One turn of the indexing loop; \<open>buildDag\<close> leaves progress rows out, the sibling search does not.\<close>

definition index_row :: "bool \<Rightarrow> nat \<Rightarrow> json \<Rightarrow> DagIndex \<Rightarrow> DagIndex" where
  "index_row skipProgress lineIndex raw ix =
     (case truthy_str (str_prop raw ''uuid'') of
        None \<Rightarrow> ix
      | Some uuid \<Rightarrow>
          if skipProgress \<and> is_progress raw then ix
          else
            (let parentUuid = str_prop raw ''parentUuid'';
                 node = \<lparr>dn_uuid = uuid, dn_parentUuid = parentUuid, dn_lineIndex = lineIndex, dn_raw = raw\<rparr>
             in \<lparr>ix_nodes = AList.update uuid node (ix_nodes ix),
                 ix_children = AList.update parentUuid (children_of ix parentUuid @ [uuid]) (ix_children ix)\<rparr>))"

fun index_from :: "bool \<Rightarrow> nat \<Rightarrow> json list \<Rightarrow> DagIndex \<Rightarrow> DagIndex" where
  "index_from skipProgress i [] ix = ix"
| "index_from skipProgress i (raw # rows) ix =
     index_from skipProgress (Suc i) rows (index_row skipProgress i raw ix)"

definition index_rows :: "bool \<Rightarrow> json list \<Rightarrow> DagIndex" where
  "index_rows skipProgress messages = index_from skipProgress 0 messages \<lparr>ix_nodes = [], ix_children = []\<rparr>"

section \<open>Walking to the root\<close>

definition better_fallback :: "nat \<Rightarrow> string set \<Rightarrow> DagNode option \<Rightarrow> DagNode \<Rightarrow> DagNode option" where
  "better_fallback beforeLineIndex excludeUuids best node =
     (if dn_lineIndex node \<ge> beforeLineIndex \<or> dn_uuid node \<in> excludeUuids then best
      else case best of
        None \<Rightarrow> Some node
      | Some b \<Rightarrow> if dn_lineIndex node > dn_lineIndex b then Some node else Some b)"

definition findFallbackParentByLineIndex ::
  "nat \<Rightarrow> (string \<times> DagNode) list \<Rightarrow> string set \<Rightarrow> DagNode option" where
  "findFallbackParentByLineIndex beforeLineIndex nodeMap excludeUuids =
     foldl (better_fallback beforeLineIndex excludeUuids) None (map snd nodeMap)"

text \<open>The parent a walk looks for: \<open>parentUuid\<close>, or else the logical parent of a compaction.\<close>

definition next_uuid :: "DagNode \<Rightarrow> string option" where
  "next_uuid node =
     (case truthy_str (dn_parentUuid node) of
        Some p \<Rightarrow> Some p
      | None \<Rightarrow> truthy_str (getLogicalParentUuid (dn_raw node)))"

definition has_node :: "(string \<times> DagNode) list \<Rightarrow> string \<Rightarrow> bool" where
  "has_node nodeMap u = (map_of nodeMap u \<noteq> None)"

definition candidate :: "nat \<Rightarrow> string set \<Rightarrow> DagNode \<Rightarrow> bool" where
  "candidate i ex n = (dn_lineIndex n < i \<and> dn_uuid n \<notin> ex)"

fun best_of :: "nat \<Rightarrow> string set \<Rightarrow> DagNode set \<Rightarrow> DagNode option \<Rightarrow> bool" where
  "best_of i ex N None = (\<forall>n \<in> N. \<not> candidate i ex n)"
| "best_of i ex N (Some b) =
     (b \<in> N \<and> candidate i ex b \<and> (\<forall>n \<in> N. candidate i ex n \<longrightarrow> dn_lineIndex n \<le> dn_lineIndex b))"

lemma best_of_step: "best_of i ex N b \<Longrightarrow> best_of i ex (insert n N) (better_fallback i ex b n)"
  by (cases b) (auto simp: better_fallback_def candidate_def not_le)

lemma fallback_best: "best_of i ex (snd ` set m) (findFallbackParentByLineIndex i m ex)"
proof -
  have "best_of i ex (set ns) (foldl (better_fallback i ex) None ns)" for ns
  proof (induction ns rule: rev_induct)
    case (snoc n ns)
    from best_of_step [OF this, of n] show ?case by simp
  qed simp
  from this [of "map snd m"] show ?thesis by (simp add: findFallbackParentByLineIndex_def)
qed

lemma fallback_node:
  assumes "findFallbackParentByLineIndex i m ex = Some n"
  shows "n \<in> snd ` set m" "dn_lineIndex n < i" "dn_uuid n \<notin> ex"
  using fallback_best [of i ex m] assms by (auto simp: candidate_def)

text \<open>
  The loop of \<open>walkBranchLength\<close>. Every turn marks a node of the map that was not marked before,
  so it ends.
\<close>

definition length_next :: "(string \<times> DagNode) list \<Rightarrow> string set \<Rightarrow> DagNode \<Rightarrow> string set \<Rightarrow> string option" where
  "length_next nodeMap progress node visited =
     (case next_uuid node of
        None \<Rightarrow> None
      | Some u \<Rightarrow>
          if \<not> has_node nodeMap u \<and> (truthy_str (getLogicalParentUuid (dn_raw node)) \<noteq> None \<or> u \<in> progress)
          then map_option dn_uuid (findFallbackParentByLineIndex (dn_lineIndex node) nodeMap visited)
          else Some u)"

lemma marked_decreases: "x \<in> A \<Longrightarrow> x \<notin> v \<Longrightarrow> finite A \<Longrightarrow> card (A - insert x v) < card (A - v)"
  by (intro psubset_card_mono) auto

function walk_length ::
  "(string \<times> DagNode) list \<Rightarrow> string set \<Rightarrow> string option \<Rightarrow> string set \<Rightarrow> nat"
where
  "walk_length nodeMap progress None visited = 0"
| "walk_length nodeMap progress (Some u) visited =
     (if u = '''' \<or> u \<in> visited then 0
      else case map_of nodeMap u of
        None \<Rightarrow> 0
      | Some node \<Rightarrow>
          (if is_conversation (dn_raw node) then 1 else 0) +
          walk_length nodeMap progress (length_next nodeMap progress node (insert u visited)) (insert u visited))"
  by pat_completeness auto
termination
proof (relation "measure (\<lambda>(m, _, _, visited). card (fst ` set m - visited))", goal_cases)
  case (2 m progress u visited node)
  then have "u \<in> fst ` set m" "u \<notin> visited" by (auto dest: map_of_SomeD intro: rev_image_eqI)
  then show ?case using marked_decreases [of u "fst ` set m" visited] by simp
qed simp

definition walkBranchLength :: "string \<Rightarrow> (string \<times> DagNode) list \<Rightarrow> string set \<Rightarrow> nat" where
  "walkBranchLength tipUuid nodeMap progress = walk_length nodeMap progress (Some tipUuid) {}"

text \<open>The loop of \<open>buildDag\<close> that collects the active branch.\<close>

definition branch_next :: "(string \<times> DagNode) list \<Rightarrow> string set \<Rightarrow> DagNode \<Rightarrow> string set \<Rightarrow> DagNode option" where
  "branch_next nodeMap progress node visited =
     (case next_uuid node of
        None \<Rightarrow> None
      | Some u \<Rightarrow>
          (case map_of nodeMap u of
             Some n \<Rightarrow> Some n
           | None \<Rightarrow>
               if (case truthy_str (getLogicalParentUuid (dn_raw node)) of
                     Some l \<Rightarrow> \<not> has_node nodeMap l | None \<Rightarrow> False) \<or> u \<in> progress
               then findFallbackParentByLineIndex (dn_lineIndex node) nodeMap visited
               else None))"

lemma branch_next_node: "branch_next m progress node visited = Some n \<Longrightarrow> n \<in> snd ` set m"
  by (auto simp: branch_next_def fallback_node dest!: map_of_SomeD intro: rev_image_eqI split: option.splits if_splits)

function walk_branch ::
  "(string \<times> DagNode) list \<Rightarrow> string set \<Rightarrow> DagNode option \<Rightarrow> string set \<Rightarrow> DagNode list \<Rightarrow> DagNode list"
where
  "walk_branch nodeMap progress None visited branch = branch"
| "walk_branch nodeMap progress (Some node) visited branch =
     (if dn_uuid node \<in> visited then branch
      else walk_branch nodeMap progress
             (branch_next nodeMap progress node (insert (dn_uuid node) visited))
             (insert (dn_uuid node) visited) (node # branch))"
  by pat_completeness auto
termination
proof (relation "measure (\<lambda>(m, _, cur, visited, _). card (dn_uuid ` snd ` set m - visited) +
    (case cur of Some n \<Rightarrow> if n \<in> snd ` set m then 0 else 1 | None \<Rightarrow> 0))", goal_cases)
  case (2 m progress node visited branch)
  let ?N = "snd ` set m" and ?v = "insert (dn_uuid node) visited"
  let ?next = "branch_next m progress node ?v"
  have nxt: "(case ?next of Some n \<Rightarrow> if n \<in> ?N then 0 else 1 | None \<Rightarrow> (0 :: nat)) = 0"
    using branch_next_node [of m progress node ?v] by (simp split: option.split)
  have "dn_uuid ` ?N - ?v \<subseteq> dn_uuid ` ?N - visited" by auto
  then have le: "card (dn_uuid ` ?N - ?v) \<le> card (dn_uuid ` ?N - visited)" by (intro card_mono) auto
  show ?case
  proof (cases "node \<in> ?N")
    case True
    then have "card (dn_uuid ` ?N - ?v) < card (dn_uuid ` ?N - visited)"
      using 2 by (intro marked_decreases) auto
    with nxt True show ?thesis by simp
  next
    case False
    with le nxt show ?thesis by simp
  qed
qed simp

section \<open>The active branch\<close>

definition getTipTimestamp :: "DagNode \<Rightarrow> string" where
  "getTipTimestamp node = (case str_prop (dn_raw node) ''timestamp'' of Some t \<Rightarrow> t | None \<Rightarrow> '''')"

definition newest_timestamp :: "DagNode list \<Rightarrow> string" where
  "newest_timestamp tips =
     foldl (\<lambda>m node. if getTipTimestamp node > m then getTipTimestamp node else m) '''' tips"

definition longer_tip :: "DagNode \<times> nat \<Rightarrow> DagNode \<times> nat \<Rightarrow> DagNode \<times> nat" where
  "longer_tip best current =
     (if snd current > snd best then current
      else if snd current = snd best \<and> dn_lineIndex (fst current) > dn_lineIndex (fst best) then current
      else best)"

definition selectTipByTimestampThenLength :: "DagNode list \<Rightarrow> (DagNode \<Rightarrow> nat) \<Rightarrow> DagNode option" where
  "selectTipByTimestampThenLength tips computeLength =
     (if tips = [] then None
      else case filter (\<lambda>node. getTipTimestamp node = newest_timestamp tips) tips of
        [] \<Rightarrow> None
      | [node] \<Rightarrow> Some node
      | node # nodes \<Rightarrow>
          Some (fst (foldl longer_tip (node, computeLength node) (map (\<lambda>n. (n, computeLength n)) nodes))))"

record DagResult =
  dr_activeBranch :: "DagNode list"
  dr_activeBranchUuids :: "string set"
  dr_tip :: "DagNode option"
  dr_hasBranches :: bool

definition dag_tips :: "DagIndex \<Rightarrow> DagNode list" where
  "dag_tips ix = filter (\<lambda>node. children_of ix (Some (dn_uuid node)) = []) (map snd (ix_nodes ix))"

definition buildDag :: "json list \<Rightarrow> DagResult" where
  "buildDag messages =
     (let ix = index_rows True messages;
          progress = collectProgressUuids messages;
          tips = dag_tips ix;
          tip = selectTipByTimestampThenLength tips (\<lambda>node. walkBranchLength (dn_uuid node) (ix_nodes ix) progress);
          branch = walk_branch (ix_nodes ix) progress tip {} []
      in \<lparr>dr_activeBranch = branch, dr_activeBranchUuids = set (map dn_uuid branch), dr_tip = tip,
          dr_hasBranches = length tips > 1\<rparr>)"

section \<open>Tool calls\<close>

definition content_blocks :: "json \<Rightarrow> json list" where
  "content_blocks entry = (case getMessageContent entry of Some (JArr blocks) \<Rightarrow> blocks | _ \<Rightarrow> [])"

definition tool_use_id :: "json \<Rightarrow> string option" where
  "tool_use_id block =
     (if str_prop block ''type'' = Some ''tool_use'' then truthy_str (str_prop block ''id'') else None)"

definition tool_result_id :: "json \<Rightarrow> string option" where
  "tool_result_id block =
     (if str_prop block ''type'' = Some ''tool_result'' then truthy_str (str_prop block ''tool_use_id'') else None)"

definition collectAllToolResultIds :: "json list \<Rightarrow> string set" where
  "collectAllToolResultIds messages =
     set (concat (map (\<lambda>msg. List.map_filter tool_result_id (content_blocks msg)) messages))"

definition branch_tool_uses :: "DagNode list \<Rightarrow> string set" where
  "branch_tool_uses activeBranch =
     set (concat (map (\<lambda>node. List.map_filter tool_use_id (content_blocks (dn_raw node))) activeBranch))"

definition findOrphanedToolUses :: "DagNode list \<Rightarrow> string set \<Rightarrow> string set" where
  "findOrphanedToolUses activeBranch allToolResultIds =
     Set.filter (\<lambda>i. i \<notin> allToolResultIds) (branch_tool_uses activeBranch)"

record SiblingToolResult =
  sr_raw :: json
  sr_toolUseIds :: "string list"
  sr_parentUuid :: string

definition sibling_tool_result :: "string set \<Rightarrow> string set \<Rightarrow> json \<Rightarrow> SiblingToolResult option" where
  "sibling_tool_result activeBranchUuids activeToolUseIds msg =
     (case truthy_str (str_prop msg ''uuid'') of
        None \<Rightarrow> None
      | Some uuid \<Rightarrow>
          if uuid \<in> activeBranchUuids then None
          else
            (let matching = filter (\<lambda>i. i \<in> activeToolUseIds) (List.map_filter tool_result_id (content_blocks msg))
             in if matching = [] then None
                else Some \<lparr>sr_raw = msg, sr_toolUseIds = matching,
                           sr_parentUuid = (case str_prop msg ''parentUuid'' of Some p \<Rightarrow> p | None \<Rightarrow> '''')\<rparr>))"

definition findSiblingToolResults :: "DagNode list \<Rightarrow> json list \<Rightarrow> SiblingToolResult list" where
  "findSiblingToolResults activeBranch allMessages =
     List.map_filter (sibling_tool_result (set (map dn_uuid activeBranch)) (branch_tool_uses activeBranch)) allMessages"
section \<open>Sibling branches\<close>

record SiblingToolBranch =
  sb_branchPoint :: string
  sb_nodes :: "DagNode list"
  sb_completedToolUseIds :: "string list"

text \<open>The breadth-first walk over a subtree; each turn marks a node or shortens the queue.\<close>

function subtree_nodes :: "DagIndex \<Rightarrow> string list \<Rightarrow> string set \<Rightarrow> DagNode list \<Rightarrow> DagNode list" where
  "subtree_nodes ix [] visited nodes = nodes"
| "subtree_nodes ix (uuid # queue) visited nodes =
     (if uuid = '''' \<or> uuid \<in> visited then subtree_nodes ix queue visited nodes
      else case map_of (ix_nodes ix) uuid of
        None \<Rightarrow> subtree_nodes ix queue (insert uuid visited) nodes
      | Some node \<Rightarrow>
          subtree_nodes ix (queue @ filter (\<lambda>c. c \<notin> insert uuid visited) (children_of ix (Some uuid)))
            (insert uuid visited) (nodes @ [node]))"
  by pat_completeness auto
termination
proof (relation "measures [\<lambda>(ix, _, visited, _). card (fst ` set (ix_nodes ix) - visited), \<lambda>(_, queue, _, _). length queue]",
    goal_cases)
  case (3 ix uuid queue visited nodes)
  then have "fst ` set (ix_nodes ix) - insert uuid visited = fst ` set (ix_nodes ix) - visited"
    by (auto simp: map_of_eq_None_iff)
  then show ?case by simp
next
  case (4 ix uuid queue visited nodes node)
  then have "uuid \<in> fst ` set (ix_nodes ix)" "uuid \<notin> visited" by (auto dest: map_of_SomeD intro: rev_image_eqI)
  then show ?case using marked_decreases [of uuid "fst ` set (ix_nodes ix)" visited] by simp
qed simp_all

fun successor_types :: "DagNode list \<Rightarrow> (string \<times> string option) list \<Rightarrow> (string \<times> string option) list" where
  "successor_types (a # b # branch) m =
     successor_types (b # branch) (AList.update (dn_uuid a) (str_prop (dn_raw b) ''type'') m)"
| "successor_types _ m = m"

definition sibling_starts :: "DagIndex \<Rightarrow> DagNode list \<Rightarrow> (string \<times> string) list" where
  "sibling_starts ix activeBranch =
     concat (map (\<lambda>node. map (Pair (dn_uuid node))
       (filter (\<lambda>c. c \<notin> set (map dn_uuid activeBranch)) (children_of ix (Some (dn_uuid node))))) activeBranch)"

definition by_line :: "DagNode \<Rightarrow> DagNode \<Rightarrow> int" where
  "by_line a b = int (dn_lineIndex a) - int (dn_lineIndex b)"

definition sibling_branch ::
  "DagIndex \<Rightarrow> DagNode list \<Rightarrow> string set \<Rightarrow> string \<times> string \<Rightarrow> SiblingToolBranch option"
where
  "sibling_branch ix activeBranch allToolResultIds start =
     (let nodes = subtree_nodes ix [snd start] {} []
      in if list_ex (\<lambda>node. dn_uuid node \<in> set (map dn_uuid activeBranch)) nodes then None
         else
           (let completed = filter (\<lambda>i. i \<in> allToolResultIds)
                  (concat (map (\<lambda>node. List.map_filter tool_use_id (content_blocks (dn_raw node))) nodes));
                orphaned = map_of (successor_types activeBranch []) (fst start) = Some (Some ''system'') \<and>
                  list_ex (\<lambda>node. is_conversation (dn_raw node)) nodes
            in if completed \<noteq> [] \<or> orphaned
               then Some \<lparr>sb_branchPoint = fst start, sb_nodes = js_sort by_line nodes,
                          sb_completedToolUseIds = completed\<rparr>
               else None))"

definition findSiblingToolBranches :: "DagNode list \<Rightarrow> json list \<Rightarrow> SiblingToolBranch list" where
  "findSiblingToolBranches activeBranch allMessages =
     (if activeBranch = [] then []
      else
        (let ix = index_rows False allMessages
         in List.map_filter (sibling_branch ix activeBranch (collectAllToolResultIds allMessages))
              (sibling_starts ix activeBranch)))"

section \<open>What the index holds\<close>

definition index_wf :: "DagIndex \<Rightarrow> bool" where
  "index_wf ix =
     (distinct (map fst (ix_nodes ix)) \<and>
      (\<forall>(k, n) \<in> set (ix_nodes ix). dn_uuid n = k \<and> k \<noteq> '''') \<and>
      (\<forall>p. \<forall>c \<in> set (children_of ix p). has_node (ix_nodes ix) c))"

lemma index_wf_insert:
  assumes wf: "index_wf ix" and "dn_uuid n = u" "u \<noteq> ''''"
  shows "index_wf \<lparr>ix_nodes = AList.update u n (ix_nodes ix),
    ix_children = AList.update p (children_of ix p @ [u]) (ix_children ix)\<rparr>" (is "index_wf ?ix")
  unfolding index_wf_def
proof (intro conjI allI ballI)
  show "distinct (map fst (ix_nodes ?ix))" using wf by (simp add: index_wf_def distinct_update)
  show "case x of (k, n) \<Rightarrow> dn_uuid n = k \<and> k \<noteq> ''''" if "x \<in> set (ix_nodes ?ix)" for x
    using that wf assms(2,3) set_update_subset [of u n "ix_nodes ix"] unfolding index_wf_def by auto
  show "has_node (ix_nodes ?ix) c" if "c \<in> set (children_of ?ix q)" for c q
  proof (cases "c = u")
    case False
    then have "c \<in> set (children_of ix q) \<or> c \<in> set (children_of ix p)"
      using that by (auto simp: children_of_def map_of_update split: if_splits)
    then have "has_node (ix_nodes ix) c" using wf unfolding index_wf_def by blast
    then show ?thesis by (simp add: has_node_def map_of_update)
  qed (simp add: has_node_def map_of_update)
qed

definition row_node :: "string \<Rightarrow> nat \<Rightarrow> json \<Rightarrow> DagNode" where
  "row_node u i raw = \<lparr>dn_uuid = u, dn_parentUuid = str_prop raw ''parentUuid'', dn_lineIndex = i, dn_raw = raw\<rparr>"

lemma index_row_cases:
  obtains (skipped) "index_row b i raw ix = ix"
  | (added) u where "str_prop raw ''uuid'' = Some u" "u \<noteq> ''''"
      "index_row b i raw ix =
        \<lparr>ix_nodes = AList.update u (row_node u i raw) (ix_nodes ix),
         ix_children = AList.update (str_prop raw ''parentUuid'') (children_of ix (str_prop raw ''parentUuid'') @ [u]) (ix_children ix)\<rparr>"
proof (cases "truthy_str (str_prop raw ''uuid'')")
  case None
  then show ?thesis by (intro skipped) (simp add: index_row_def)
next
  case (Some u)
  show ?thesis
  proof (cases "b \<and> is_progress raw")
    case True
    then show ?thesis by (intro skipped) (simp add: index_row_def Some)
  next
    case False
    then have "index_row b i raw ix =
        \<lparr>ix_nodes = AList.update u (row_node u i raw) (ix_nodes ix),
         ix_children = AList.update (str_prop raw ''parentUuid'') (children_of ix (str_prop raw ''parentUuid'') @ [u]) (ix_children ix)\<rparr>"
      by (auto simp: index_row_def Some row_node_def Let_def)
    with Some show ?thesis by (intro added [of u]) simp_all
  qed
qed

lemma index_wf_row: "index_wf ix \<Longrightarrow> index_wf (index_row b i raw ix)"
  by (cases rule: index_row_cases [of b i raw ix]) (simp_all add: index_wf_insert row_node_def)

lemma index_wf_rows: "index_wf (index_rows b messages)"
proof -
  have "index_wf ix \<Longrightarrow> index_wf (index_from b i rows ix)" for i rows ix
    by (induction rows arbitrary: i ix) (simp_all add: index_wf_row)
  moreover have "index_wf \<lparr>ix_nodes = [], ix_children = []\<rparr>" by (simp add: index_wf_def children_of_def)
  ultimately show ?thesis by (simp add: index_rows_def)
qed

lemma node_key: "index_wf ix \<Longrightarrow> n \<in> snd ` set (ix_nodes ix) \<longleftrightarrow> map_of (ix_nodes ix) (dn_uuid n) = Some n"
proof
  assume wf: "index_wf ix" and "n \<in> snd ` set (ix_nodes ix)"
  then obtain k where k: "(k, n) \<in> set (ix_nodes ix)" by auto
  with wf have "dn_uuid n = k" unfolding index_wf_def by blast
  with k wf show "map_of (ix_nodes ix) (dn_uuid n) = Some n"
    unfolding index_wf_def by (metis map_of_is_SomeI)
next
  assume "map_of (ix_nodes ix) (dn_uuid n) = Some n"
  then show "n \<in> snd ` set (ix_nodes ix)" by (metis map_of_SomeD image_eqI snd_conv)
qed

lemma map_of_node_uuid: "index_wf ix \<Longrightarrow> map_of (ix_nodes ix) u = Some n \<Longrightarrow> dn_uuid n = u \<and> u \<noteq> ''''"
  unfolding index_wf_def by (auto dest: map_of_SomeD)

text \<open>Every node is a row of the transcript, at its line.\<close>

definition row_at :: "json list \<Rightarrow> DagNode \<Rightarrow> bool" where
  "row_at messages n =
     (dn_lineIndex n < length messages \<and> dn_raw n = messages ! dn_lineIndex n \<and>
      str_prop (dn_raw n) ''uuid'' = Some (dn_uuid n) \<and> dn_parentUuid n = str_prop (dn_raw n) ''parentUuid'')"

lemma index_rows_at:
  assumes "n \<in> snd ` set (ix_nodes (index_rows b messages))"
  shows "row_at messages n"
proof -
  have "\<lbrakk>\<forall>n \<in> snd ` set (ix_nodes ix). row_at messages n; messages = prev @ rows\<rbrakk> \<Longrightarrow>
      \<forall>n \<in> snd ` set (ix_nodes (index_from b (length prev) rows ix)). row_at messages n" for rows ix prev
  proof (induction rows arbitrary: ix prev)
    case (Cons raw rows)
    have "\<forall>n \<in> snd ` set (ix_nodes (index_row b (length prev) raw ix)). row_at messages n"
    proof (cases rule: index_row_cases [of b "length prev" raw ix])
      case skipped
      with Cons.prems(1) show ?thesis by simp
    next
      case (added u)
      have "row_at messages (row_node u (length prev) raw)"
        using Cons.prems(2) added(1) by (simp add: row_at_def row_node_def)
      with Cons.prems(1) show ?thesis
        unfolding added(3) by (auto dest!: subsetD [OF set_update_subset])
    qed
    from Cons.IH [OF this, of "prev @ [raw]"] Cons.prems(2) show ?case by simp
  qed simp
  from this [of "\<lparr>ix_nodes = [], ix_children = []\<rparr>" "[]" messages] assms show ?thesis
    by (auto simp: index_rows_def)
qed

section \<open>The walk\<close>

text \<open>
  A parent \<open>u\<close> that is not in the map is bridged if it was a progress row, or if the row is a
  compaction whose logical parent is not in the map either.
\<close>

definition bridged :: "(string \<times> DagNode) list \<Rightarrow> string set \<Rightarrow> DagNode \<Rightarrow> string \<Rightarrow> bool" where
  "bridged nodeMap progress n u =
     (u \<in> progress \<or>
      (\<exists>l. getLogicalParentUuid (dn_raw n) = Some l \<and> l \<noteq> [] \<and> map_of nodeMap l = None))"

text \<open>One link of the branch: \<open>a\<close> is what \<open>b\<close> names as its parent, or stands in for a missing one.\<close>

definition linked :: "(string \<times> DagNode) list \<Rightarrow> string set \<Rightarrow> DagNode \<Rightarrow> DagNode \<Rightarrow> bool" where
  "linked nodeMap progress a b =
     (case next_uuid b of
        None \<Rightarrow> False
      | Some u \<Rightarrow>
          map_of nodeMap u = Some a \<or>
          map_of nodeMap u = None \<and> bridged nodeMap progress b u \<and> dn_lineIndex a < dn_lineIndex b)"

lemma branch_next_linked: "branch_next m progress b visited = Some a \<Longrightarrow> linked m progress a b"
  by (auto simp: branch_next_def linked_def bridged_def has_node_def fallback_node split: option.splits if_splits)

text \<open>
  Where a branch may start: at a row that names no parent; at one whose parent the branch already
  holds (the links form a cycle); at one whose parent is missing and not bridged; or at one whose
  parent is bridged while every earlier row is in the branch already.
\<close>

definition starts_branch :: "(string \<times> DagNode) list \<Rightarrow> string set \<Rightarrow> DagNode list \<Rightarrow> bool" where
  "starts_branch nodeMap progress branch =
     (case next_uuid (hd branch) of
        None \<Rightarrow> True
      | Some u \<Rightarrow>
          (case map_of nodeMap u of
             Some n \<Rightarrow> dn_uuid n \<in> dn_uuid ` set branch
           | None \<Rightarrow>
               bridged nodeMap progress (hd branch) u \<longrightarrow>
               (\<forall>n \<in> snd ` set nodeMap. dn_lineIndex n < dn_lineIndex (hd branch) \<longrightarrow>
                  dn_uuid n \<in> dn_uuid ` set branch)))"

lemma walk_branch_chain:
  assumes "\<And>b bs. branch = b # bs \<Longrightarrow> (case cur of Some c \<Rightarrow> linked m progress c b | None \<Rightarrow> True)"
    and "visited = set (map dn_uuid branch)" and "distinct (map dn_uuid branch)"
    and "successively (linked m progress) branch"
  shows "distinct (map dn_uuid (walk_branch m progress cur visited branch)) \<and>
    successively (linked m progress) (walk_branch m progress cur visited branch) \<and>
    (branch \<noteq> [] \<longrightarrow> walk_branch m progress cur visited branch \<noteq> [] \<and>
       last (walk_branch m progress cur visited branch) = last branch)"
  using assms
proof (induction m progress cur visited branch rule: walk_branch.induct)
  case (2 m progress node visited branch)
  show ?case
  proof (cases "dn_uuid node \<in> visited")
    case False
    let ?v = "insert (dn_uuid node) visited"
    have "successively (linked m progress) (node # branch)"
      using "2.prems"(1,4) by (cases branch) auto
    moreover have "(case branch_next m progress node ?v of Some c \<Rightarrow> linked m progress c b | None \<Rightarrow> True)"
      if "node # branch = b # bs" for b bs
      using that branch_next_linked [of m progress node ?v] by (auto split: option.split)
    moreover have "?v = set (map dn_uuid (node # branch))" "distinct (map dn_uuid (node # branch))"
      using "2.prems"(2,3) False by auto
    ultimately have "distinct (map dn_uuid (walk_branch m progress (branch_next m progress node ?v) ?v (node # branch))) \<and>
        successively (linked m progress) (walk_branch m progress (branch_next m progress node ?v) ?v (node # branch)) \<and>
        (node # branch \<noteq> [] \<longrightarrow> walk_branch m progress (branch_next m progress node ?v) ?v (node # branch) \<noteq> [] \<and>
          last (walk_branch m progress (branch_next m progress node ?v) ?v (node # branch)) = last (node # branch))"
      using "2.IH" [OF False] by blast
    then show ?thesis using False by auto
  qed (use "2.prems" in simp)
qed simp

lemma walk_branch_nodes:
  "(case cur of Some c \<Rightarrow> c \<in> snd ` set m | None \<Rightarrow> True) \<Longrightarrow>
     set (walk_branch m progress cur visited branch) \<subseteq> snd ` set m \<union> set branch"
proof (induction m progress cur visited branch rule: walk_branch.induct)
  case (2 m progress node visited branch)
  show ?case
  proof (cases "dn_uuid node \<in> visited")
    case False
    let ?v = "insert (dn_uuid node) visited"
    have "(case branch_next m progress node ?v of Some c \<Rightarrow> c \<in> snd ` set m | None \<Rightarrow> True)"
      using branch_next_node [of m progress node ?v] by (simp split: option.split)
    from "2.IH" [OF False this] "2.prems" False show ?thesis by auto
  qed simp
qed simp

text \<open>The walk stops at a row without a parent to follow, or where it would run into itself.\<close>

lemma walk_branch_root:
  assumes "visited = set (map dn_uuid branch)" and "cur \<noteq> None \<or> branch \<noteq> []"
    and "branch \<noteq> [] \<Longrightarrow> cur = branch_next m progress (hd branch) visited"
    and "walk_branch m progress cur visited branch = oldest # rest"
  shows "branch_next m progress oldest (dn_uuid ` set (oldest # rest)) = None \<or>
    (\<exists>n \<in> set (oldest # rest). map_option dn_uuid (branch_next m progress oldest (dn_uuid ` set (oldest # rest))) = Some (dn_uuid n))"
  using assms
proof (induction m progress cur visited branch rule: walk_branch.induct)
  case (1 m progress visited branch)
  then show ?case by simp
next
  case (2 m progress node visited branch)
  show ?case
  proof (cases "dn_uuid node \<in> visited")
    case True
    then have b: "branch = oldest # rest" using "2.prems"(4) by simp
    then have "branch_next m progress oldest (dn_uuid ` set (oldest # rest)) = Some node"
      using "2.prems"(1,3) by simp
    moreover obtain n where "n \<in> set (oldest # rest)" "dn_uuid node = dn_uuid n"
      using True "2.prems"(1) b by auto
    ultimately show ?thesis by auto
  next
    case False
    with "2.IH" [OF False] "2.prems" show ?thesis by simp
  qed
qed

lemma walk_branch_starts:
  assumes "walk_branch m progress (Some t) {} [] = branch" and "branch \<noteq> []"
  shows "starts_branch m progress branch"
proof -
  let ?n = "hd branch" and ?ids = "dn_uuid ` set branch"
  have b: "walk_branch m progress (Some t) {} [] = ?n # tl branch" "?n # tl branch = branch"
    using assms by simp_all
  have stop: "branch_next m progress ?n ?ids = None \<or>
      (\<exists>n. branch_next m progress ?n ?ids = Some n \<and> dn_uuid n \<in> ?ids)"
    using walk_branch_root [OF _ _ _ b(1)] unfolding b(2) by force
  show ?thesis
  proof (cases "next_uuid ?n")
    case None
    then show ?thesis by (simp add: starts_branch_def)
  next
    case (Some u)
    show ?thesis
    proof (cases "map_of m u")
      case (Some n)
      with stop \<open>next_uuid ?n = Some u\<close> show ?thesis by (auto simp: starts_branch_def branch_next_def)
    next
      case None
      have "branch_next m progress ?n ?ids = findFallbackParentByLineIndex (dn_lineIndex ?n) m ?ids"
        if "bridged m progress ?n u"
        using that None Some by (auto simp: branch_next_def bridged_def has_node_def truthy_str_None split: option.splits)
      then have "findFallbackParentByLineIndex (dn_lineIndex ?n) m ?ids = None" if "bridged m progress ?n u"
        using that stop fallback_node(3) [of "dn_lineIndex ?n" m ?ids]
        by (cases "findFallbackParentByLineIndex (dn_lineIndex ?n) m ?ids") auto
      then have "\<forall>n \<in> snd ` set m. \<not> candidate (dn_lineIndex ?n) ?ids n" if "bridged m progress ?n u"
        using that fallback_best [of "dn_lineIndex ?n" ?ids m] by simp
      then show ?thesis using None Some unfolding starts_branch_def candidate_def by simp
    qed
  qed
qed

section \<open>Choosing the tip\<close>

lemma newest_timestamp: "t \<in> set tips \<Longrightarrow> getTipTimestamp t \<le> newest_timestamp tips"
  and newest_attained: "tips \<noteq> [] \<Longrightarrow> \<exists>t \<in> set tips. getTipTimestamp t = newest_timestamp tips"
proof -
  let ?f = "\<lambda>m node. if getTipTimestamp node > m then getTipTimestamp node else m"
  have up: "m \<le> foldl ?f m ts \<and> (\<forall>t \<in> set ts. getTipTimestamp t \<le> foldl ?f m ts) \<and>
      (foldl ?f m ts = m \<or> (\<exists>t \<in> set ts. getTipTimestamp t = foldl ?f m ts))" for ts m
  proof (induction ts arbitrary: m)
    case (Cons t ts)
    from Cons [of "?f m t"] show ?case by (auto split: if_splits intro: order.trans dest: order.strict_implies_order)
  qed simp
  show "t \<in> set tips \<Longrightarrow> getTipTimestamp t \<le> newest_timestamp tips"
    using up [of "''''" tips] by (simp add: newest_timestamp_def)
  assume "tips \<noteq> []"
  then obtain t where t: "t \<in> set tips" by (cases tips) auto
  show "\<exists>t \<in> set tips. getTipTimestamp t = newest_timestamp tips"
  proof (cases "newest_timestamp tips = ''''")
    case True
    then have "getTipTimestamp t \<le> ''''" using up [of "''''" tips] t by (simp add: newest_timestamp_def)
    then have "getTipTimestamp t = ''''" by simp
    with True t show ?thesis by auto
  next
    case False
    then show ?thesis using up [of "''''" tips] by (auto simp: newest_timestamp_def)
  qed
qed

definition tip_le :: "DagNode \<times> nat \<Rightarrow> DagNode \<times> nat \<Rightarrow> bool" where
  "tip_le a b = (snd a < snd b \<or> snd a = snd b \<and> dn_lineIndex (fst a) \<le> dn_lineIndex (fst b))"

lemma tip_le_trans: "tip_le a b \<Longrightarrow> tip_le b c \<Longrightarrow> tip_le a c"
  by (auto simp: tip_le_def)

lemma longer_tip_fold:
  "foldl longer_tip b xs \<in> insert b (set xs) \<and> (\<forall>x \<in> insert b (set xs). tip_le x (foldl longer_tip b xs))"
proof (induction xs arbitrary: b)
  case (Cons x xs)
  have "longer_tip b x \<in> {b, x}" "tip_le b (longer_tip b x)" "tip_le x (longer_tip b x)"
    by (auto simp: longer_tip_def tip_le_def)
  with Cons [of "longer_tip b x"] show ?case by (auto intro: tip_le_trans)
qed (simp add: tip_le_def)

lemma select_tip:
  assumes "selectTipByTimestampThenLength tips f = Some t"
  shows "t \<in> set tips" "getTipTimestamp t = newest_timestamp tips"
    "t' \<in> set tips \<Longrightarrow> getTipTimestamp t' = newest_timestamp tips \<Longrightarrow> tip_le (t', f t') (t, f t)"
proof -
  let ?c = "filter (\<lambda>node. getTipTimestamp node = newest_timestamp tips) tips"
  have "t \<in> set ?c \<and> (\<forall>t' \<in> set ?c. tip_le (t', f t') (t, f t))"
  proof (cases ?c rule: remdups_adj.cases)
    case (3 x y zs)
    let ?p = "foldl longer_tip (x, f x) (map (\<lambda>n. (n, f n)) (y # zs))"
    have "tips \<noteq> []" using 3 by auto
    with assms 3 have t: "t = fst ?p" by (simp add: selectTipByTimestampThenLength_def)
    have p: "?p \<in> insert (x, f x) (set (map (\<lambda>n. (n, f n)) (y # zs)))"
      "\<And>q. q \<in> insert (x, f x) (set (map (\<lambda>n. (n, f n)) (y # zs))) \<Longrightarrow> tip_le q ?p"
      using longer_tip_fold [of "(x, f x)" "map (\<lambda>n. (n, f n)) (y # zs)"] by blast+
    from p(1) have "t \<in> set (x # y # zs)" "?p = (t, f t)" unfolding t by auto
    moreover have "tip_le (t', f t') ?p" if "t' \<in> set (x # y # zs)" for t'
      using p(2) [of "(t', f t')"] that by auto
    ultimately show ?thesis unfolding 3 by metis
  qed (use assms in \<open>auto simp: selectTipByTimestampThenLength_def tip_le_def split: if_splits\<close>)
  then show "t \<in> set tips" "getTipTimestamp t = newest_timestamp tips"
    "t' \<in> set tips \<Longrightarrow> getTipTimestamp t' = newest_timestamp tips \<Longrightarrow> tip_le (t', f t') (t, f t)"
    by auto
qed

lemma select_tip_None: "selectTipByTimestampThenLength tips f = None \<longleftrightarrow> tips = []"
proof
  assume none: "selectTipByTimestampThenLength tips f = None"
  show "tips = []"
  proof (rule ccontr)
    assume "tips \<noteq> []"
    with newest_attained [OF this] none show False
      by (auto simp: selectTipByTimestampThenLength_def filter_empty_conv split: list.splits)
  qed
qed (simp add: selectTipByTimestampThenLength_def)

text \<open>The children of a row are the rows that name it as their parent.\<close>

definition counts_as_row :: "bool \<Rightarrow> json \<Rightarrow> bool" where
  "counts_as_row skipProgress raw = (truthy_str (str_prop raw ''uuid'') \<noteq> None \<and> \<not> (skipProgress \<and> is_progress raw))"

lemma index_row_children:
  "c \<in> set (children_of (index_row b i raw ix) p) \<longleftrightarrow>
     c \<in> set (children_of ix p) \<or>
     counts_as_row b raw \<and> str_prop raw ''uuid'' = Some c \<and> str_prop raw ''parentUuid'' = p"
  by (auto simp: index_row_def counts_as_row_def children_of_def map_of_update Let_def truthy_str_def
      split: option.splits if_splits)

lemma children_exact:
  "c \<in> set (children_of (index_rows b messages) p) \<longleftrightarrow>
     (\<exists>raw \<in> set messages. counts_as_row b raw \<and> str_prop raw ''uuid'' = Some c \<and> str_prop raw ''parentUuid'' = p)"
proof -
  have "c \<in> set (children_of (index_from b i rows ix) p) \<longleftrightarrow> c \<in> set (children_of ix p) \<or>
      (\<exists>raw \<in> set rows. counts_as_row b raw \<and> str_prop raw ''uuid'' = Some c \<and> str_prop raw ''parentUuid'' = p)"
    for i rows ix
    by (induction rows arbitrary: i ix) (auto simp: index_row_children)
  then show ?thesis by (simp add: index_rows_def children_of_def)
qed

lemma index_not_progress:
  assumes "n \<in> snd ` set (ix_nodes (index_rows True messages))"
  shows "\<not> is_progress (dn_raw n)"
proof -
  have step: "\<forall>n \<in> snd ` set (ix_nodes ix). \<not> is_progress (dn_raw n) \<Longrightarrow>
      \<forall>n \<in> snd ` set (ix_nodes (index_row True i raw ix)). \<not> is_progress (dn_raw n)" for i raw ix
    by (cases "truthy_str (str_prop raw ''uuid'')"; cases "is_progress raw")
       (auto simp: index_row_def Let_def simp del: truthy_str_Some dest!: subsetD [OF set_update_subset])
  have "\<forall>n \<in> snd ` set (ix_nodes ix). \<not> is_progress (dn_raw n) \<Longrightarrow>
      \<forall>n \<in> snd ` set (ix_nodes (index_from True i rows ix)). \<not> is_progress (dn_raw n)" for i rows ix
  proof (induction rows arbitrary: i ix)
    case (Cons raw rows)
    from Cons.IH [OF step [OF Cons.prems]] show ?case by simp
  qed simp
  from this [of "\<lparr>ix_nodes = [], ix_children = []\<rparr>"] assms show ?thesis by (auto simp: index_rows_def)
qed

section \<open>Properties of the active branch\<close>

lemma tip_node:
  assumes "dr_tip (buildDag messages) = Some t"
  shows "t \<in> snd ` set (ix_nodes (index_rows True messages))" "t \<in> set (dag_tips (index_rows True messages))"
  using select_tip(1) assms by (force simp: buildDag_def Let_def dag_tips_def)+

lemma walk_branch_ends:
  "walk_branch m progress (Some t) {} [] \<noteq> [] \<and> last (walk_branch m progress (Some t) {} []) = t \<and>
   starts_branch m progress (walk_branch m progress (Some t) {} [])"
proof -
  let ?c = "branch_next m progress t {dn_uuid t}"
  have c: "case ?c of Some c \<Rightarrow> linked m progress c t | None \<Rightarrow> True"
    using branch_next_linked by (simp split: option.split)
  have "[t] \<noteq> [] \<longrightarrow> walk_branch m progress ?c {dn_uuid t} [t] \<noteq> [] \<and> last (walk_branch m progress ?c {dn_uuid t} [t]) = last [t]"
  proof (rule walk_branch_chain [THEN conjunct2, THEN conjunct2])
    show "[t] = b # bs \<Longrightarrow> (case ?c of Some c \<Rightarrow> linked m progress c b | None \<Rightarrow> True)" for b bs
      using c by blast
  qed simp_all
  then have "walk_branch m progress (Some t) {} [] \<noteq> [] \<and> last (walk_branch m progress (Some t) {} []) = t" by simp
  moreover from this have "starts_branch m progress (walk_branch m progress (Some t) {} [])"
    using walk_branch_starts [of m progress t] by simp
  ultimately show ?thesis by blast
qed


text \<open>
  The length that breaks ties is the length of the branch that will be shown: it counts the user
  and assistant rows of the branch, provided compaction rows have no \<open>parentUuid\<close> of their own
  (they carry a logical parent instead).
\<close>
theorem branch_length_exact:
  assumes "dr_tip (buildDag messages) = Some t"
    and "\<And>m. m \<in> set messages \<Longrightarrow> isCompactBoundary m \<Longrightarrow> truthy_str (str_prop m ''parentUuid'') = None"
  shows "walkBranchLength (dn_uuid t) (ix_nodes (index_rows True messages)) (collectProgressUuids messages) =
    length (filter (\<lambda>n. is_conversation (dn_raw n)) (dr_activeBranch (buildDag messages)))"
proof -
  let ?ix = "index_rows True messages" and ?p = "collectProgressUuids messages"
  let ?m = "ix_nodes ?ix" and ?conv = "\<lambda>n. is_conversation (dn_raw n)"
  note wf = index_wf_rows [of True messages]
  have logical: "truthy_str (dn_parentUuid n) \<noteq> None \<Longrightarrow> getLogicalParentUuid (dn_raw n) = None" if "n \<in> snd ` set ?m" for n
  proof -
    have "row_at messages n" using that by (rule index_rows_at)
    then show "truthy_str (dn_parentUuid n) \<noteq> None \<Longrightarrow> getLogicalParentUuid (dn_raw n) = None"
      using assms(2) [of "dn_raw n"] by (auto simp: row_at_def getLogicalParentUuid_def truthy_str_None)
  qed
  have nxt: "length_next ?m ?p n v = map_option dn_uuid (branch_next ?m ?p n v) \<or>
      (branch_next ?m ?p n v = None \<and> (\<exists>u. length_next ?m ?p n v = Some u \<and> \<not> has_node ?m u))"
    if n: "n \<in> snd ` set ?m" for n v
  proof (cases "next_uuid n")
    case None
    then show ?thesis by (simp add: length_next_def branch_next_def)
  next
    case (Some u)
    show ?thesis
    proof (cases "map_of ?m u")
      case (Some a)
      with map_of_node_uuid [OF wf Some] \<open>next_uuid n = Some u\<close> show ?thesis
        by (simp add: length_next_def branch_next_def has_node_def)
    next
      case None
      have absent: "\<not> has_node ?m u" using None by (simp add: has_node_def)
      show ?thesis
      proof (cases "truthy_str (getLogicalParentUuid (dn_raw n))")
        case None
        then show ?thesis
          using absent \<open>map_of ?m u = None\<close> \<open>next_uuid n = Some u\<close>
          by (simp add: length_next_def branch_next_def del: truthy_str_Some)
      next
        case (Some l)
        then have "truthy_str (dn_parentUuid n) = None" using logical [OF n] by (cases "truthy_str (dn_parentUuid n)") auto
        then have "u = l" using Some \<open>next_uuid n = Some u\<close> by (simp add: next_uuid_def del: truthy_str_Some)
        have c: "(case truthy_str (getLogicalParentUuid (dn_raw n)) of Some l \<Rightarrow> \<not> has_node ?m l | None \<Rightarrow> False)"
          "truthy_str (getLogicalParentUuid (dn_raw n)) \<noteq> None"
          using absent \<open>u = l\<close> unfolding Some by simp_all
        then show ?thesis
          using absent \<open>map_of ?m u = None\<close> \<open>next_uuid n = Some u\<close>
          unfolding length_next_def branch_next_def by (simp del: truthy_str_Some not_None_eq)
      qed
    qed
  qed
  have main: "(case cur of Some c \<Rightarrow> c \<in> snd ` set m | None \<Rightarrow> True) \<Longrightarrow> m = ?m \<Longrightarrow> p = ?p \<Longrightarrow>
      length (filter ?conv (walk_branch m p cur v b)) = walk_length m p (map_option dn_uuid cur) v + length (filter ?conv b)"
    for m p cur v b
  proof (induction m p cur v b rule: walk_branch.induct)
    case (2 m p n v b)
    then have n: "map_of m (dn_uuid n) = Some n" using node_key [OF wf] by simp
    have "dn_uuid n \<noteq> ''''" using map_of_node_uuid [OF wf, of "dn_uuid n"] n "2.prems"(2) by simp
    show ?case
    proof (cases "dn_uuid n \<in> v")
      case False
      let ?v = "insert (dn_uuid n) v"
      have "(case branch_next m p n ?v of Some c \<Rightarrow> c \<in> snd ` set m | None \<Rightarrow> True)"
        using branch_next_node [of m p n ?v] by (simp split: option.split)
      note IH = "2.IH" [OF False this "2.prems"(2,3)]
      have "walk_length m p (map_option dn_uuid (branch_next m p n ?v)) ?v = walk_length m p (length_next m p n ?v) ?v"
        using nxt [of n ?v] "2.prems" by (auto simp: has_node_def)
      with IH n False \<open>dn_uuid n \<noteq> ''''\<close> show ?thesis by simp
    qed simp
  qed simp
  have "t \<in> snd ` set ?m" by (rule tip_node(1) [OF assms(1)])
  from main [of ?m "Some t" ?p "{}" "[]"] this assms(1) show ?thesis
    by (simp add: buildDag_def Let_def walkBranchLength_def)
qed

section \<open>Properties of the tool calls\<close>

definition child_edges :: "DagIndex \<Rightarrow> (string \<times> string) set" where
  "child_edges ix = {(u, c). c \<in> set (children_of ix (Some u))}"

definition walked :: "DagIndex \<Rightarrow> string list \<Rightarrow> string set \<Rightarrow> DagNode list \<Rightarrow> bool" where
  "walked ix queue visited nodes =
     ((\<forall>q \<in> set queue. has_node (ix_nodes ix) q) \<and> visited = dn_uuid ` set nodes \<and> distinct (map dn_uuid nodes) \<and>
      set nodes \<subseteq> snd ` set (ix_nodes ix) \<and> child_edges ix `` visited \<subseteq> visited \<union> set queue)"

lemma subtree_nodes_walked:
  assumes "index_wf ix" and "walked ix queue visited nodes"
  shows "walked ix [] (dn_uuid ` set (subtree_nodes ix queue visited nodes)) (subtree_nodes ix queue visited nodes) \<and>
    visited \<union> set queue \<subseteq> dn_uuid ` set (subtree_nodes ix queue visited nodes) \<and>
    dn_uuid ` set (subtree_nodes ix queue visited nodes) \<subseteq> visited \<union> (child_edges ix)\<^sup>* `` set queue"
  using assms
proof (induction ix queue visited nodes rule: subtree_nodes.induct)
  case (2 ix u queue visited nodes)
  have node: "has_node (ix_nodes ix) u" using "2.prems"(2) by (simp add: walked_def)
  then obtain n where n: "map_of (ix_nodes ix) u = Some n" by (auto simp: has_node_def)
  have u: "dn_uuid n = u" "u \<noteq> ''''" using map_of_node_uuid [OF "2.prems"(1) n] by simp_all
  show ?case
  proof (cases "u \<in> visited")
    case True
    then have "visited \<union> set (u # queue) = visited \<union> set queue" by auto
    moreover have "child_edges ix `` visited \<subseteq> visited \<union> set (u # queue)" using "2.prems"(2) unfolding walked_def by blast
    ultimately have "child_edges ix `` visited \<subseteq> visited \<union> set queue" by (simp only:)
    then have "walked ix queue visited nodes" using "2.prems"(2) unfolding walked_def by (meson list.set_intros(2))
    from "2.IH"(1) [OF _ "2.prems"(1) this] True
    have IH: "walked ix [] (dn_uuid ` set (subtree_nodes ix queue visited nodes)) (subtree_nodes ix queue visited nodes)"
      "visited \<union> set queue \<subseteq> dn_uuid ` set (subtree_nodes ix queue visited nodes)"
      "dn_uuid ` set (subtree_nodes ix queue visited nodes) \<subseteq> visited \<union> (child_edges ix)\<^sup>* `` set queue"
      by blast+
    moreover have "subtree_nodes ix (u # queue) visited nodes = subtree_nodes ix queue visited nodes" using True by simp
    ultimately show ?thesis using True by auto
  next
    case False
    let ?v = "insert u visited" and ?cs = "filter (\<lambda>c. c \<notin> insert u visited) (children_of ix (Some u))"
    have cs: "set ?cs \<subseteq> child_edges ix `` {u}" "child_edges ix `` {u} \<subseteq> ?v \<union> set ?cs"
      by (auto simp: child_edges_def)
    have "\<forall>c \<in> set ?cs. has_node (ix_nodes ix) c" using "2.prems"(1) by (auto simp: index_wf_def)
    moreover have "n \<in> snd ` set (ix_nodes ix)" using n by (metis map_of_SomeD image_eqI snd_conv)
    moreover have "child_edges ix `` ?v \<subseteq> ?v \<union> set (queue @ ?cs)"
    proof -
      have "child_edges ix `` visited \<subseteq> visited \<union> set (u # queue)" using "2.prems"(2) unfolding walked_def by blast
      moreover have "child_edges ix `` ?v = child_edges ix `` {u} \<union> child_edges ix `` visited" by blast
      ultimately show ?thesis using cs(2) unfolding set_append list.set by blast
    qed
    ultimately have "walked ix (queue @ ?cs) ?v (nodes @ [n])"
      using "2.prems"(2) False u(1) unfolding walked_def by (simp add: ball_Un Ball_def)
    from "2.IH"(3) [OF _ n "2.prems"(1) this] False u
    have IH: "walked ix [] (dn_uuid ` set (subtree_nodes ix (queue @ ?cs) ?v (nodes @ [n]))) (subtree_nodes ix (queue @ ?cs) ?v (nodes @ [n]))"
      "?v \<union> set (queue @ ?cs) \<subseteq> dn_uuid ` set (subtree_nodes ix (queue @ ?cs) ?v (nodes @ [n]))"
      "dn_uuid ` set (subtree_nodes ix (queue @ ?cs) ?v (nodes @ [n])) \<subseteq> ?v \<union> (child_edges ix)\<^sup>* `` set (queue @ ?cs)"
      by blast+
    have "(child_edges ix)\<^sup>* `` set ?cs \<subseteq> (child_edges ix)\<^sup>* `` {u}"
      using cs(1) by (auto intro: converse_rtrancl_into_rtrancl)
    then have "?v \<union> (child_edges ix)\<^sup>* `` set (queue @ ?cs) \<subseteq> visited \<union> (child_edges ix)\<^sup>* `` set (u # queue)"
      by auto
    moreover have "subtree_nodes ix (u # queue) visited nodes = subtree_nodes ix (queue @ ?cs) ?v (nodes @ [n])"
      using n False u by simp
    ultimately show ?thesis using IH by auto
  qed
qed (simp add: walked_def)

text \<open>The walk from one row collects exactly its subtree.\<close>

lemma subtree_exact:
  assumes "index_wf ix" and "has_node (ix_nodes ix) start"
  shows "dn_uuid ` set (subtree_nodes ix [start] {} []) = {v. (start, v) \<in> (child_edges ix)\<^sup>*}"
    and "distinct (map dn_uuid (subtree_nodes ix [start] {} []))"
    and "set (subtree_nodes ix [start] {} []) \<subseteq> snd ` set (ix_nodes ix)"
proof -
  define R where "R = subtree_nodes ix [start] {} []"
  have "walked ix [start] {} []" using assms(2) by (simp add: walked_def)
  from subtree_nodes_walked [OF assms(1) this, folded R_def]
  have w: "walked ix [] (dn_uuid ` set R) R" "start \<in> dn_uuid ` set R"
    "dn_uuid ` set R \<subseteq> {v. (start, v) \<in> (child_edges ix)\<^sup>*}" by auto
  then have closed: "child_edges ix `` (dn_uuid ` set R) \<subseteq> dn_uuid ` set R" by (simp add: walked_def)
  have "(start, v) \<in> (child_edges ix)\<^sup>* \<Longrightarrow> v \<in> dn_uuid ` set R" for v
    by (induction rule: rtrancl_induct) (use w(2) closed in blast)+
  with w(3) have "dn_uuid ` set R = {v. (start, v) \<in> (child_edges ix)\<^sup>*}" by blast
  moreover have "distinct (map dn_uuid R)" "set R \<subseteq> snd ` set (ix_nodes ix)" using w(1) by (simp_all add: walked_def)
  ultimately show "dn_uuid ` set (subtree_nodes ix [start] {} []) = {v. (start, v) \<in> (child_edges ix)\<^sup>*}"
    and "distinct (map dn_uuid (subtree_nodes ix [start] {} []))"
    and "set (subtree_nodes ix [start] {} []) \<subseteq> snd ` set (ix_nodes ix)"
    unfolding R_def by blast+
qed

lemma set_map_filter: "set (List.map_filter f xs) = {y. \<exists>x \<in> set xs. f x = Some y}"
  by (induction xs) (auto simp: List.map_filter_simps split: option.split)

lemma in_map_filter: "y \<in> set (List.map_filter f xs) \<longleftrightarrow> (\<exists>x \<in> set xs. f x = Some y)"
  by (simp add: set_map_filter)

lemma sibling_start:
  "(p, s) \<in> set (sibling_starts ix B) \<longleftrightarrow>
     p \<in> dn_uuid ` set B \<and> s \<in> set (children_of ix (Some p)) \<and> s \<notin> dn_uuid ` set B"
  by (auto simp: sibling_starts_def)

definition tool_uses_of :: "json \<Rightarrow> string set" where
  "tool_uses_of raw = {i. \<exists>block \<in> set (content_blocks raw). tool_use_id block = Some i}"

definition tool_results_of :: "json \<Rightarrow> string set" where
  "tool_results_of raw = {i. \<exists>block \<in> set (content_blocks raw). tool_result_id block = Some i}"

lemma all_tool_results: "collectAllToolResultIds messages = (\<Union>m \<in> set messages. tool_results_of m)"
  by (auto simp: collectAllToolResultIds_def tool_results_of_def set_map_filter)

lemma branch_tool_uses: "branch_tool_uses B = (\<Union>n \<in> set B. tool_uses_of (dn_raw n))"
  by (auto simp: branch_tool_uses_def tool_uses_of_def set_map_filter)

text \<open>
  Orphaned tool calls. A call is reported as orphaned exactly if it occurs on the active branch
  and no row of the whole transcript, on whatever branch, holds its result; and a row off the
  branch is offered as a late result exactly if it holds a result for a call on the branch.
\<close>
theorem tool_calls_exact:
  "findOrphanedToolUses B (collectAllToolResultIds messages) =
     (\<Union>n \<in> set B. tool_uses_of (dn_raw n)) - (\<Union>m \<in> set messages. tool_results_of m) \<and>
   sr_raw ` set (findSiblingToolResults B messages) =
     {m \<in> set messages. (\<exists>u. str_prop m ''uuid'' = Some u \<and> u \<noteq> '''' \<and> u \<notin> dn_uuid ` set B) \<and>
        tool_results_of m \<inter> (\<Union>n \<in> set B. tool_uses_of (dn_raw n)) \<noteq> {}}"
proof
  show "findOrphanedToolUses B (collectAllToolResultIds messages) =
      (\<Union>n \<in> set B. tool_uses_of (dn_raw n)) - (\<Union>m \<in> set messages. tool_results_of m)"
    by (auto simp: findOrphanedToolUses_def branch_tool_uses all_tool_results)
  have matching: "filter (\<lambda>i. i \<in> A) (List.map_filter tool_result_id (content_blocks m)) = [] \<longleftrightarrow> tool_results_of m \<inter> A = {}"
    for m A
    by (auto simp: filter_empty_conv set_map_filter tool_results_of_def)
  have result: "sibling_tool_result U A m = Some r \<Longrightarrow> sr_raw r = m \<and> (\<exists>u. str_prop m ''uuid'' = Some u \<and> u \<noteq> '''' \<and> u \<notin> U) \<and>
      tool_results_of m \<inter> A \<noteq> {}" for U A m r
    by (cases "truthy_str (str_prop m ''uuid'')") (auto simp: sibling_tool_result_def Let_def matching split: if_splits)
  have given: "\<exists>r. sibling_tool_result U A m = Some r"
    if "str_prop m ''uuid'' = Some u" "u \<noteq> ''''" "u \<notin> U" "tool_results_of m \<inter> A \<noteq> {}" for U A m u
    using that by (simp add: sibling_tool_result_def Let_def matching truthy_str_def)
  show "sr_raw ` set (findSiblingToolResults B messages) =
     {m \<in> set messages. (\<exists>u. str_prop m ''uuid'' = Some u \<and> u \<noteq> '''' \<and> u \<notin> dn_uuid ` set B) \<and>
        tool_results_of m \<inter> (\<Union>n \<in> set B. tool_uses_of (dn_raw n)) \<noteq> {}}" (is "?L = ?R")
  proof (intro set_eqI iffI)
    fix m
    assume "m \<in> ?L"
    then obtain m' r where r: "m' \<in> set messages" "m = sr_raw r"
      "sibling_tool_result (dn_uuid ` set B) (branch_tool_uses B) m' = Some r"
      by (auto simp: findSiblingToolResults_def set_map_filter)
    from result [OF r(3)] r(1,2) show "m \<in> ?R" by (auto simp: branch_tool_uses)
  next
    fix m
    assume "m \<in> ?R"
    then obtain u where u: "m \<in> set messages" "str_prop m ''uuid'' = Some u" "u \<noteq> ''''" "u \<notin> dn_uuid ` set B"
      "tool_results_of m \<inter> branch_tool_uses B \<noteq> {}"
      by (auto simp: branch_tool_uses)
    from given [OF u(2-5)] obtain r where r: "sibling_tool_result (dn_uuid ` set B) (branch_tool_uses B) m = Some r" by blast
    then have "r \<in> set (findSiblingToolResults B messages)"
      using u(1) by (auto simp: findSiblingToolResults_def set_map_filter)
    with result [OF r] show "m \<in> ?L" by (metis image_eqI)
  qed
qed

section \<open>Properties of the sibling branches\<close>

text \<open>Parent links of the transcript, and the rows that hang below one of them.\<close>

definition row_edges :: "json list \<Rightarrow> (string \<times> string) set" where
  "row_edges messages = {(p, c). \<exists>raw \<in> set messages. truthy_str (str_prop raw ''uuid'') = Some c \<and> str_prop raw ''parentUuid'' = Some p}"

definition rows_below :: "json list \<Rightarrow> string \<Rightarrow> DagNode set" where
  "rows_below messages s =
     {n \<in> snd ` set (ix_nodes (index_rows False messages)). (s, dn_uuid n) \<in> (row_edges messages)\<^sup>*}"

definition completed_calls :: "json list \<Rightarrow> DagNode set \<Rightarrow> string set" where
  "completed_calls messages N = (\<Union>n \<in> N. tool_uses_of (dn_raw n)) \<inter> (\<Union>m \<in> set messages. tool_results_of m)"

text \<open>The branch goes on from \<open>p\<close> through a row the provider wrote for itself.\<close>

definition bookkeeping_fork :: "DagNode list \<Rightarrow> string \<Rightarrow> bool" where
  "bookkeeping_fork B p = (\<exists>i. Suc i < length B \<and> dn_uuid (B ! i) = p \<and> str_prop (dn_raw (B ! Suc i)) ''type'' = Some ''system'')"

lemma successor_types_step: "map_of (successor_types B m) p = Some v \<Longrightarrow>
    map_of m p = Some v \<or> (\<exists>i. Suc i < length B \<and> dn_uuid (B ! i) = p \<and> v = str_prop (dn_raw (B ! Suc i)) ''type'')"
proof (induction B m rule: successor_types.induct)
  case (1 a b branch m)
  from "1.IH" "1.prems" have "map_of (AList.update (dn_uuid a) (str_prop (dn_raw b) ''type'') m) p = Some v \<or>
    (\<exists>i. Suc i < length (b # branch) \<and> dn_uuid ((b # branch) ! i) = p \<and> v = str_prop (dn_raw ((b # branch) ! Suc i)) ''type'')"
    by simp
  then show ?case
  proof
    assume "map_of (AList.update (dn_uuid a) (str_prop (dn_raw b) ''type'') m) p = Some v"
    then show ?thesis by (cases "dn_uuid a = p") (auto simp: map_of_update)
  next
    assume "\<exists>i. Suc i < length (b # branch) \<and> dn_uuid ((b # branch) ! i) = p \<and> v = str_prop (dn_raw ((b # branch) ! Suc i)) ''type''"
    then obtain i where "Suc (Suc i) < length (a # b # branch)" "dn_uuid ((a # b # branch) ! Suc i) = p"
      "v = str_prop (dn_raw ((a # b # branch) ! Suc (Suc i))) ''type''" by auto
    then show ?thesis by blast
  qed
qed auto

lemma successor_types_kept: "p \<notin> dn_uuid ` set (butlast B) \<Longrightarrow> map_of (successor_types B m) p = map_of m p"
  by (induction B m rule: successor_types.induct) (auto simp: map_of_update)

lemma successor_types_at: "\<lbrakk>distinct (map dn_uuid B); Suc i < length B\<rbrakk> \<Longrightarrow>
    map_of (successor_types B m) (dn_uuid (B ! i)) = Some (str_prop (dn_raw (B ! Suc i)) ''type'')"
proof (induction B m arbitrary: i rule: successor_types.induct)
  case (1 a b branch m)
  show ?case
  proof (cases i)
    case 0
    have "dn_uuid a \<notin> dn_uuid ` set (butlast (b # branch))" using "1.prems"(1) by (auto dest: in_set_butlastD)
    from successor_types_kept [OF this] show ?thesis using 0 by (simp add: map_of_update)
  next
    case (Suc j)
    with "1.IH" [of j] "1.prems" show ?thesis by simp
  qed
qed auto

lemma successor_types_exact:
  assumes "distinct (map dn_uuid B)"
  shows "map_of (successor_types B []) p = Some (Some ''system'') \<longleftrightarrow> bookkeeping_fork B p"
proof
  assume "map_of (successor_types B []) p = Some (Some ''system'')"
  from successor_types_step [OF this] show "bookkeeping_fork B p" unfolding bookkeeping_fork_def by force
next
  assume "bookkeeping_fork B p"
  with successor_types_at [OF assms, of _ "[]"] show "map_of (successor_types B []) p = Some (Some ''system'')"
    by (auto simp: bookkeeping_fork_def)
qed

lemma row_edges_index: "child_edges (index_rows False messages) = row_edges messages"
  unfolding child_edges_def row_edges_def children_exact by (auto simp: counts_as_row_def)

lemma subtree_rows:
  assumes "has_node (ix_nodes (index_rows False messages)) s"
  defines "N \<equiv> subtree_nodes (index_rows False messages) [s] {} []"
  shows "set N = rows_below messages s" "distinct (map dn_uuid N)" "distinct (map dn_lineIndex N)"
proof -
  note sub = subtree_exact [OF index_wf_rows assms(1), folded N_def, unfolded row_edges_index]
  show "distinct (map dn_uuid N)" by (rule sub(2))
  have key: "map_of (ix_nodes (index_rows False messages)) (dn_uuid n) = Some n"
    if "n \<in> snd ` set (ix_nodes (index_rows False messages))" for n
    using that node_key [OF index_wf_rows] by blast
  show "set N = rows_below messages s"
  proof (intro set_eqI iffI)
    fix n
    assume "n \<in> rows_below messages s"
    then have n: "n \<in> snd ` set (ix_nodes (index_rows False messages))" "dn_uuid n \<in> dn_uuid ` set N"
      by (simp_all add: rows_below_def sub(1))
    then obtain n' where "n' \<in> set N" "dn_uuid n' = dn_uuid n" by auto
    with sub(3) key key [OF n(1)] show "n \<in> set N" by (metis option.inject subsetD)
  next
    show "n \<in> rows_below messages s" if "n \<in> set N" for n
      using that sub(1,3) by (auto simp: rows_below_def)
  qed
  have "inj_on dn_lineIndex (set N)"
  proof (rule inj_onI)
    fix a b
    assume ab: "a \<in> set N" "b \<in> set N" "dn_lineIndex a = dn_lineIndex b"
    then have "row_at messages a" "row_at messages b" using sub(3) index_rows_at by blast+
    with ab(3) have "dn_uuid a = dn_uuid b" unfolding row_at_def by (metis option.inject)
    with ab(1,2) sub(2) show "a = b" by (simp add: distinct_map inj_on_def)
  qed
  with sub(2) show "distinct (map dn_lineIndex N)" by (simp add: distinct_map)
qed

lemma by_line_sorted: "distinct (map dn_lineIndex N) \<Longrightarrow> sorted_wrt (\<lambda>a b. dn_lineIndex a < dn_lineIndex b) (js_sort by_line N)"
proof -
  assume d: "distinct (map dn_lineIndex N)"
  have "sorted_wrt (\<lambda>a b. dn_lineIndex a \<le> dn_lineIndex b) (js_sort by_line N)"
    by (rule js_sort_sorted) (auto simp: by_line_def)
  moreover have "distinct (map dn_lineIndex (js_sort by_line N))"
    using d by (simp add: distinct_map)
  ultimately have "sorted_wrt (<) (map dn_lineIndex (js_sort by_line N))"
    unfolding strict_sorted_iff by (simp only: sorted_wrt_map)
  then show ?thesis unfolding sorted_wrt_map .
qed

lemma completed_list:
  "set (filter (\<lambda>i. i \<in> collectAllToolResultIds messages)
     (concat (map (\<lambda>node. List.map_filter tool_use_id (content_blocks (dn_raw node))) N))) = completed_calls messages (set N)"
  by (auto simp: completed_calls_def all_tool_results tool_uses_of_def set_map_filter)

lemma sibling_branch_exact:
  assumes "distinct (map dn_uuid B)" and "has_node (ix_nodes (index_rows False messages)) s"
  shows "sibling_branch (index_rows False messages) B (collectAllToolResultIds messages) (p, s) = Some b \<Longrightarrow>
      sb_branchPoint b = p \<and> set (sb_nodes b) = rows_below messages s \<and>
      sorted_wrt (\<lambda>x y. dn_lineIndex x < dn_lineIndex y) (sb_nodes b) \<and>
      set (sb_completedToolUseIds b) = completed_calls messages (set (sb_nodes b))"
    and "sibling_branch (index_rows False messages) B (collectAllToolResultIds messages) (p, s) \<noteq> None \<longleftrightarrow>
      dn_uuid ` rows_below messages s \<inter> dn_uuid ` set B = {} \<and>
      (completed_calls messages (rows_below messages s) \<noteq> {} \<or>
       bookkeeping_fork B p \<and> (\<exists>n \<in> rows_below messages s. is_conversation (dn_raw n)))"
proof -
  define N where "N = subtree_nodes (index_rows False messages) [s] {} []"
  define C where "C = filter (\<lambda>i. i \<in> collectAllToolResultIds messages)
     (concat (map (\<lambda>node. List.map_filter tool_use_id (content_blocks (dn_raw node))) N))"
  note sub = subtree_rows [OF assms(2), folded N_def]
  have C: "set C = completed_calls messages (set N)" unfolding C_def by (rule completed_list)
  have branch: "sibling_branch (index_rows False messages) B (collectAllToolResultIds messages) (p, s) =
    (if dn_uuid ` set N \<inter> dn_uuid ` set B \<noteq> {} then None
     else if C \<noteq> [] \<or> bookkeeping_fork B p \<and> (\<exists>n \<in> set N. is_conversation (dn_raw n))
     then Some \<lparr>sb_branchPoint = p, sb_nodes = js_sort by_line N, sb_completedToolUseIds = C\<rparr> else None)"
    unfolding sibling_branch_def Let_def fst_conv snd_conv N_def [symmetric] C_def [symmetric]
      successor_types_exact [OF assms(1)]
    by (auto simp: list_ex_iff)
  from branch sub(1) C by_line_sorted [OF sub(3)]
  show "sibling_branch (index_rows False messages) B (collectAllToolResultIds messages) (p, s) = Some b \<Longrightarrow>
      sb_branchPoint b = p \<and> set (sb_nodes b) = rows_below messages s \<and>
      sorted_wrt (\<lambda>x y. dn_lineIndex x < dn_lineIndex y) (sb_nodes b) \<and>
      set (sb_completedToolUseIds b) = completed_calls messages (set (sb_nodes b))"
    by (auto split: if_splits)
  from branch sub(1) C
  show "sibling_branch (index_rows False messages) B (collectAllToolResultIds messages) (p, s) \<noteq> None \<longleftrightarrow>
      dn_uuid ` rows_below messages s \<inter> dn_uuid ` set B = {} \<and>
      (completed_calls messages (rows_below messages s) \<noteq> {} \<or>
       bookkeeping_fork B p \<and> (\<exists>n \<in> rows_below messages s. is_conversation (dn_raw n)))"
    by (cases "C = []") auto
qed

text \<open>
  C13 Sibling branches. The branches that are offered beside the active one are exactly the complete
  subtrees that hang off a row of it by a row that is not on it, share no row with it, and hold
  either a tool call whose result is somewhere in the transcript or, where the active branch goes
  on through a row of the provider's own bookkeeping, a conversation row. Each lists its rows once, in the order of
  the transcript, and names exactly the completed calls of these rows.
\<close>
theorem sibling_branches_exact:
  assumes "distinct (map dn_uuid B)"
  shows "(\<lambda>b. (sb_branchPoint b, set (sb_nodes b))) ` set (findSiblingToolBranches B messages) =
      {(p, rows_below messages s) | p s.
         p \<in> dn_uuid ` set B \<and> (p, s) \<in> row_edges messages \<and> s \<notin> dn_uuid ` set B \<and>
         dn_uuid ` rows_below messages s \<inter> dn_uuid ` set B = {} \<and>
         (completed_calls messages (rows_below messages s) \<noteq> {} \<or>
          bookkeeping_fork B p \<and> (\<exists>n \<in> rows_below messages s. is_conversation (dn_raw n)))} \<and>
    (\<forall>b \<in> set (findSiblingToolBranches B messages).
       sorted_wrt (\<lambda>x y. dn_lineIndex x < dn_lineIndex y) (sb_nodes b) \<and>
       (\<forall>n \<in> set (sb_nodes b). row_at messages n) \<and>
       set (sb_completedToolUseIds b) = completed_calls messages (set (sb_nodes b)))"
proof -
  let ?ix = "index_rows False messages" and ?F = "sibling_branch (index_rows False messages) B (collectAllToolResultIds messages)"
  have start: "(p, s) \<in> set (sibling_starts ?ix B) \<longleftrightarrow>
      p \<in> dn_uuid ` set B \<and> (p, s) \<in> row_edges messages \<and> s \<notin> dn_uuid ` set B" for p s
    unfolding sibling_start by (simp add: row_edges_index [symmetric] child_edges_def)
  have node: "has_node (ix_nodes ?ix) s" if "(p, s) \<in> set (sibling_starts ?ix B)" for p s
    using that index_wf_rows [of False messages] unfolding sibling_start index_wf_def by blast
  have found: "b \<in> set (findSiblingToolBranches B messages) \<longleftrightarrow> (\<exists>p s. (p, s) \<in> set (sibling_starts ?ix B) \<and> ?F (p, s) = Some b)" for b
  proof (cases "B = []")
    case False
    then show ?thesis by (auto simp: findSiblingToolBranches_def Let_def in_map_filter)
  qed (simp add: findSiblingToolBranches_def sibling_starts_def)
  note exact = sibling_branch_exact [OF assms node]
  have rows: "row_at messages n" if "n \<in> rows_below messages s" for n s
    using that index_rows_at by (auto simp: rows_below_def)
  define offered where "offered p s \<longleftrightarrow> p \<in> dn_uuid ` set B \<and> (p, s) \<in> row_edges messages \<and> s \<notin> dn_uuid ` set B \<and>
      dn_uuid ` rows_below messages s \<inter> dn_uuid ` set B = {} \<and>
      (completed_calls messages (rows_below messages s) \<noteq> {} \<or>
       bookkeeping_fork B p \<and> (\<exists>n \<in> rows_below messages s. is_conversation (dn_raw n)))" for p s
  have offered: "offered p s \<longleftrightarrow> (p, s) \<in> set (sibling_starts ?ix B) \<and> ?F (p, s) \<noteq> None" for p s
    using exact(2) [of p s] start [of p s] unfolding offered_def by blast
  have one: "\<exists>p s. offered p s \<and> sb_branchPoint b = p \<and> set (sb_nodes b) = rows_below messages s"
    and each: "sorted_wrt (\<lambda>x y. dn_lineIndex x < dn_lineIndex y) (sb_nodes b) \<and> (\<forall>n \<in> set (sb_nodes b). row_at messages n) \<and>
         set (sb_completedToolUseIds b) = completed_calls messages (set (sb_nodes b))"
    if b: "b \<in> set (findSiblingToolBranches B messages)" for b
  proof -
    from b found obtain p s where ps: "(p, s) \<in> set (sibling_starts ?ix B)" "?F (p, s) = Some b" by blast
    then have "offered p s" by (simp add: offered)
    with exact(1) [OF ps] show "\<exists>p s. offered p s \<and> sb_branchPoint b = p \<and> set (sb_nodes b) = rows_below messages s"
      by blast
    from exact(1) [OF ps] rows show "sorted_wrt (\<lambda>x y. dn_lineIndex x < dn_lineIndex y) (sb_nodes b) \<and>
      (\<forall>n \<in> set (sb_nodes b). row_at messages n) \<and> set (sb_completedToolUseIds b) = completed_calls messages (set (sb_nodes b))"
      by blast
  qed
  have all: "\<exists>b \<in> set (findSiblingToolBranches B messages). (sb_branchPoint b, set (sb_nodes b)) = (p, rows_below messages s)"
    if "offered p s" for p s
    using that exact(1) [of p s] found unfolding offered by (metis option.exhaust)
  have "(\<lambda>b. (sb_branchPoint b, set (sb_nodes b))) ` set (findSiblingToolBranches B messages) =
      {(p, rows_below messages s) | p s. offered p s}" (is "?f ` ?R = ?O")
  proof (intro set_eqI iffI)
    show "x \<in> ?O" if "x \<in> ?f ` ?R" for x using that one by blast
    show "x \<in> ?f ` ?R" if x: "x \<in> ?O" for x
    proof -
      from x obtain p s where "offered p s" "x = (p, rows_below messages s)" by blast
      with all [of p s] show ?thesis by (metis (no_types, lifting) image_eqI)
    qed
  qed
  with each show ?thesis unfolding offered_def by blast
qed

section \<open>A sample transcript\<close>

definition sample_row :: "string \<Rightarrow> string \<Rightarrow> string option \<Rightarrow> string \<Rightarrow> json list \<Rightarrow> json" where
  "sample_row uuid kind parent time content =
     JObj [(''uuid'', JStr uuid), (''type'', JStr kind),
       (''parentUuid'', case parent of Some p \<Rightarrow> JStr p | None \<Rightarrow> JNull), (''timestamp'', JStr time),
       (''message'', JObj [(''content'', JArr content)])]"

definition sample_use :: "string \<Rightarrow> json" where
  "sample_use i = JObj [(''type'', JStr ''tool_use''), (''id'', JStr i)]"

definition sample_result :: "string \<Rightarrow> json" where
  "sample_result i = JObj [(''type'', JStr ''tool_result''), (''tool_use_id'', JStr i)]"

definition sample_transcript :: "json list" where
  "sample_transcript =
     [sample_row ''u1'' ''user'' None ''1'' [],
      sample_row ''a1'' ''assistant'' (Some ''u1'') ''2'' [sample_use ''t1''],
      sample_row ''a2'' ''assistant'' (Some ''a1'') ''3'' [sample_use ''t2''],
      sample_row ''r1'' ''user'' (Some ''a1'') ''4'' [sample_result ''t1''],
      sample_row ''r2'' ''user'' (Some ''a2'') ''5'' [sample_result ''t2''],
      sample_row ''e1'' ''assistant'' (Some ''r1'') ''6'' []]"

lemma sample_branch: "map dn_uuid (dr_activeBranch (buildDag sample_transcript)) = [''u1'', ''a1'', ''r1'', ''e1'']"
  by code_simp
lemma sample_siblings: "map (\<lambda>b. (sb_branchPoint b, map dn_uuid (sb_nodes b), sb_completedToolUseIds b)) (findSiblingToolBranches (dr_activeBranch (buildDag sample_transcript)) sample_transcript) = [(''a1'', [''a2'', ''r2''], [''t2''])]"
  by code_simp

lemma sample_tip: "map_option dn_uuid (dr_tip (buildDag sample_transcript)) = Some ''e1''"
  by code_simp

lemma sample_no_boundary: "list_all (\<lambda>m. \<not> isCompactBoundary m) sample_transcript"
  by code_simp


theorem branch_length_exact_witness:
  "walkBranchLength ''e1'' (ix_nodes (index_rows True sample_transcript)) (collectProgressUuids sample_transcript) =
     length (filter (\<lambda>n. is_conversation (dn_raw n)) (dr_activeBranch (buildDag sample_transcript)))"
proof -
  obtain t where t: "dr_tip (buildDag sample_transcript) = Some t" "dn_uuid t = ''e1''" using sample_tip by auto
  have "\<not> isCompactBoundary m" if "m \<in> set sample_transcript" for m
    using that sample_no_boundary by (simp add: list_all_iff)
  then show ?thesis using branch_length_exact [OF t(1)] t(2) by metis
qed

theorem sibling_branches_exact_witness:
  "\<exists>b \<in> set (findSiblingToolBranches (dr_activeBranch (buildDag sample_transcript)) sample_transcript).
     sb_branchPoint b = ''a1'' \<and> map dn_uuid (sb_nodes b) = [''a2'', ''r2''] \<and>
     completed_calls sample_transcript (set (sb_nodes b)) = {''t2''} \<and>
     list_all (row_at sample_transcript) (sb_nodes b)"
proof -
  have "distinct (map dn_uuid (dr_activeBranch (buildDag sample_transcript)))" unfolding sample_branch by simp
  note exact = sibling_branches_exact [OF this, of sample_transcript, THEN conjunct2]
  obtain b where "findSiblingToolBranches (dr_activeBranch (buildDag sample_transcript)) sample_transcript = [b]"
    "sb_branchPoint b = ''a1''" "map dn_uuid (sb_nodes b) = [''a2'', ''r2'']" "sb_completedToolUseIds b = [''t2'']"
    using sample_siblings by auto
  with exact show ?thesis by (simp add: list_all_iff)
qed

text \<open>
  The assumption on compaction rows is needed: for a compaction row that does name a parent, a missing
  one, beside a logical parent that is there, the length counts the rows before it and the branch
  does not show them.
\<close>

definition boundary_transcript :: "json list" where
  "boundary_transcript =
     [sample_row ''u1'' ''user'' None ''1'' [],
      JObj [(''uuid'', JStr ''b1''), (''type'', JStr ''system''), (''subtype'', JStr ''compact_boundary''),
        (''parentUuid'', JStr ''gone''), (''logicalParentUuid'', JStr ''u1''), (''timestamp'', JStr ''2'')]]"

lemma branch_length_differs:
  "walkBranchLength ''b1'' (ix_nodes (index_rows True boundary_transcript)) (collectProgressUuids boundary_transcript) = 1"
  "map dn_uuid (dr_activeBranch (buildDag boundary_transcript)) = [''b1'']"
  by code_simp+

end
