(* ===== verification/WorkerQueue.thy ===== *)
theory WorkerQueue
  imports Prelude
begin

text \<open>
  The queue of session launches that wait for a free worker
  (packages/server/src/supervisor/WorkerQueue.ts): every operation of the class, with the events it
  emits. A launch carries a payload the queue never looks at (the message, the permission mode,
  the model settings). What \<open>randomUUID\<close> returns and the clock are arguments; \<open>stamp i\<close> is what the
  clock shows at its \<open>i\<close>-th reading in an operation. A promise is named by the id of its request.

  The locale \<open>fifo\<close> states what a client may rely on, and derives from it that requests leave in the
  order they came in; the queue of the code is an instance.
\<close>

section \<open>Data\<close>

datatype QueuedRequestType = NewSession | ResumeSession

datatype QueuedRequestResult = Started string | Cancelled string

record 'p launch =
  la_type :: QueuedRequestType
  la_projectPath :: string
  la_projectId :: string
  la_sessionId :: "string option"
  la_creationFence :: "string option"
  la_authorizeCreation :: bool
  la_onStarted :: bool
  la_onFailed :: bool
  la_onRetryableFailure :: bool
  la_payload :: 'p

record 'p QueuedRequest = "'p launch" +
  qr_id :: string
  qr_queuedAt :: nat

record QueuedRequestInfo =
  qi_id :: string
  qi_type :: QueuedRequestType
  qi_projectId :: string
  qi_sessionId :: "string option"
  qi_position :: nat
  qi_queuedAt :: nat

datatype EnqueueResult = QueueFull int | Enqueued string nat

definition isQueueFullError :: "EnqueueResult \<Rightarrow> bool" where
  "isQueueFullError result = (case result of QueueFull _ \<Rightarrow> True | Enqueued _ _ \<Rightarrow> False)"

datatype removal = BecauseStarted | BecauseCancelled

datatype queue_event =
    RequestAdded string "string option" string nat nat
  | RequestRemoved string "string option" removal nat
  | PositionChanged string "string option" nat nat

text \<open>What an operation does to the outside: events on the bus, promises settled, hooks called.\<close>

datatype effect =
    Emit queue_event
  | Resolve string QueuedRequestResult
  | CallStarted string string
  | CallFailed string string
  | CallRetryable string string

record 'p WorkerQueue =
  wq_queue :: "'p QueuedRequest list"
  wq_eventBus :: bool
  wq_maxQueueSize :: int

definition newWorkerQueue :: "bool \<Rightarrow> int option \<Rightarrow> 'p WorkerQueue" where
  "newWorkerQueue eventBus maxQueueSize =
     \<lparr>wq_queue = [], wq_eventBus = eventBus,
      wq_maxQueueSize = (case maxQueueSize of Some m \<Rightarrow> m | None \<Rightarrow> 0)\<rparr>"

section \<open>Events\<close>

definition bus_emit :: "'p WorkerQueue \<Rightarrow> queue_event \<Rightarrow> effect list" where
  "bus_emit wq e = (if wq_eventBus wq then [Emit e] else [])"

definition emitQueueAdded :: "(nat \<Rightarrow> nat) \<Rightarrow> 'p QueuedRequest \<Rightarrow> nat \<Rightarrow> 'p WorkerQueue \<Rightarrow> effect list" where
  "emitQueueAdded stamp r position wq =
     bus_emit wq (RequestAdded (qr_id r) (la_sessionId r) (la_projectId r) position (stamp 1))"

definition emitQueueRemoved :: "(nat \<Rightarrow> nat) \<Rightarrow> 'p QueuedRequest \<Rightarrow> removal \<Rightarrow> 'p WorkerQueue \<Rightarrow> effect list" where
  "emitQueueRemoved stamp r reason wq =
     bus_emit wq (RequestRemoved (qr_id r) (la_sessionId r) reason (stamp 0))"

definition emitPositionUpdates :: "(nat \<Rightarrow> nat) \<Rightarrow> 'p WorkerQueue \<Rightarrow> effect list" where
  "emitPositionUpdates stamp wq =
     concat (map (\<lambda>(i, r). bus_emit wq (PositionChanged (qr_id r) (la_sessionId r) (i + 1) (stamp (i + 1))))
       (enumerate 0 (wq_queue wq)))"

section \<open>Operations\<close>

definition queue_entry :: "string \<Rightarrow> nat \<Rightarrow> 'p launch \<Rightarrow> 'p QueuedRequest" where
  "queue_entry queueId now params = launch.extend params \<lparr>qr_id = queueId, qr_queuedAt = now\<rparr>"

definition enqueue ::
  "string \<Rightarrow> (nat \<Rightarrow> nat) \<Rightarrow> 'p launch \<Rightarrow> 'p WorkerQueue \<Rightarrow> EnqueueResult \<times> 'p WorkerQueue \<times> effect list"
where
  "enqueue queueId stamp params wq =
     (if wq_maxQueueSize wq > 0 \<and> int (length (wq_queue wq)) \<ge> wq_maxQueueSize wq
      then (QueueFull (wq_maxQueueSize wq), wq, [])
      else
        (let request = queue_entry queueId (stamp 0) params;
             wq' = wq\<lparr>wq_queue := wq_queue wq @ [request]\<rparr>;
             position = length (wq_queue wq')
         in (Enqueued queueId position, wq', emitQueueAdded stamp request position wq')))"

definition dequeue ::
  "(nat \<Rightarrow> nat) \<Rightarrow> 'p WorkerQueue \<Rightarrow> 'p QueuedRequest option \<times> 'p WorkerQueue \<times> effect list"
where
  "dequeue stamp wq =
     (case wq_queue wq of
        [] \<Rightarrow> (None, wq, [])
      | request # rest \<Rightarrow>
          (let wq' = wq\<lparr>wq_queue := rest\<rparr> in (Some request, wq', emitPositionUpdates stamp wq')))"

definition find_index :: "('a \<Rightarrow> bool) \<Rightarrow> 'a list \<Rightarrow> nat option" where
  "find_index P xs = find (\<lambda>i. P (xs ! i)) [0..<length xs]"

definition cancel :: "(nat \<Rightarrow> nat) \<Rightarrow> string \<Rightarrow> 'p WorkerQueue \<Rightarrow> bool \<times> 'p WorkerQueue \<times> effect list" where
  "cancel stamp queueId wq =
     (case find_index (\<lambda>r. qr_id r = queueId) (wq_queue wq) of
        None \<Rightarrow> (False, wq, [])
      | Some index \<Rightarrow>
          (let removed = wq_queue wq ! index;
               wq' = wq\<lparr>wq_queue := take index (wq_queue wq) @ drop (Suc index) (wq_queue wq)\<rparr>;
               reason = ''User cancelled''
           in (True, wq',
               [Resolve (qr_id removed) (Cancelled reason)] @
               emitQueueRemoved stamp removed BecauseCancelled wq' @
               emitPositionUpdates stamp wq' @
               (if la_onFailed removed then [CallFailed (qr_id removed) reason] else []))))"

definition findBySessionId :: "string \<Rightarrow> 'p WorkerQueue \<Rightarrow> 'p QueuedRequest option" where
  "findBySessionId sessionId wq = find (\<lambda>r. la_sessionId r = Some sessionId) (wq_queue wq)"

definition findById :: "string \<Rightarrow> 'p WorkerQueue \<Rightarrow> 'p QueuedRequest option" where
  "findById queueId wq = find (\<lambda>r. qr_id r = queueId) (wq_queue wq)"

definition findByCreationAttempt :: "string \<Rightarrow> 'p WorkerQueue \<Rightarrow> 'p QueuedRequest option" where
  "findByCreationAttempt attemptId wq = find (\<lambda>r. la_creationFence r = Some attemptId) (wq_queue wq)"

definition getQueueInfo :: "'p WorkerQueue \<Rightarrow> QueuedRequestInfo list" where
  "getQueueInfo wq =
     map (\<lambda>(i, r). \<lparr>qi_id = qr_id r, qi_type = la_type r, qi_projectId = la_projectId r,
        qi_sessionId = la_sessionId r, qi_position = i + 1, qi_queuedAt = qr_queuedAt r\<rparr>)
       (enumerate 0 (wq_queue wq))"

definition getPosition :: "string \<Rightarrow> 'p WorkerQueue \<Rightarrow> nat option" where
  "getPosition queueId wq =
     (case find_index (\<lambda>r. qr_id r = queueId) (wq_queue wq) of Some index \<Rightarrow> Some (index + 1) | None \<Rightarrow> None)"

definition peek :: "'p WorkerQueue \<Rightarrow> 'p QueuedRequest option" where
  "peek wq = (case wq_queue wq of [] \<Rightarrow> None | r # _ \<Rightarrow> Some r)"

definition queue_length :: "'p WorkerQueue \<Rightarrow> nat" where
  "queue_length wq = length (wq_queue wq)"

definition isEmpty :: "'p WorkerQueue \<Rightarrow> bool" where
  "isEmpty wq = (queue_length wq = 0)"

section \<open>Histories\<close>

datatype 'p queue_op =
    Enqueue string "nat \<Rightarrow> nat" "'p launch"
  | Dequeue "nat \<Rightarrow> nat"
  | Cancel "nat \<Rightarrow> nat" string

definition queue_step :: "'p WorkerQueue \<Rightarrow> 'p queue_op \<Rightarrow> 'p WorkerQueue" where
  "queue_step wq x =
     (case x of
        Enqueue i stamp l \<Rightarrow> fst (snd (enqueue i stamp l wq))
      | Dequeue stamp \<Rightarrow> fst (snd (dequeue stamp wq))
      | Cancel stamp i \<Rightarrow> fst (snd (cancel stamp i wq)))"

definition queue_effects :: "'p WorkerQueue \<Rightarrow> 'p queue_op \<Rightarrow> effect list" where
  "queue_effects wq x =
     (case x of
        Enqueue i stamp l \<Rightarrow> snd (snd (enqueue i stamp l wq))
      | Dequeue stamp \<Rightarrow> snd (snd (dequeue stamp wq))
      | Cancel stamp i \<Rightarrow> snd (snd (cancel stamp i wq)))"

text \<open>The ids an operation accepts, hands out and cancels, by its result.\<close>

definition queue_came :: "'p WorkerQueue \<Rightarrow> 'p queue_op \<Rightarrow> string list" where
  "queue_came wq x =
     (case x of Enqueue i stamp l \<Rightarrow> (case fst (enqueue i stamp l wq) of Enqueued j _ \<Rightarrow> [j] | QueueFull _ \<Rightarrow> []) | _ \<Rightarrow> [])"

definition queue_left :: "'p WorkerQueue \<Rightarrow> 'p queue_op \<Rightarrow> string list" where
  "queue_left wq x =
     (case x of Dequeue stamp \<Rightarrow> (case fst (dequeue stamp wq) of Some r \<Rightarrow> [qr_id r] | None \<Rightarrow> []) | _ \<Rightarrow> [])"

definition queue_gone :: "'p WorkerQueue \<Rightarrow> 'p queue_op \<Rightarrow> string list" where
  "queue_gone wq x = (case x of Cancel stamp i \<Rightarrow> (if fst (cancel stamp i wq) then [i] else []) | _ \<Rightarrow> [])"

text \<open>What the steps of a history give, in order.\<close>

fun collect :: "('s \<Rightarrow> 'op \<Rightarrow> 's) \<Rightarrow> ('s \<Rightarrow> 'op \<Rightarrow> 'a list) \<Rightarrow> 's \<Rightarrow> 'op list \<Rightarrow> 'a list" where
  "collect step f s [] = []"
| "collect step f s (x # xs) = f s x @ collect step f (step s x) xs"

lemma collect_snoc [simp]: "collect step f s (xs @ [x]) = collect step f s xs @ f (foldl step s xs) x"
  by (induction xs arbitrary: s) simp_all

section \<open>What a queue promises\<close>

text \<open>
  A machine that keeps a list of waiting ids: a step lets some in at the end, takes some from the
  front, and drops some that wait.
\<close>

locale fifo =
  fixes step :: "'s \<Rightarrow> 'op \<Rightarrow> 's" and init :: 's
    and waiting :: "'s \<Rightarrow> 'i list"
    and came left gone :: "'s \<Rightarrow> 'op \<Rightarrow> 'i list"
  assumes empty: "waiting init = []"
    and moves: "distinct (waiting s @ came s x) \<Longrightarrow>
      left s x @ waiting (step s x) = filter (\<lambda>i. i \<notin> set (gone s x)) (waiting s @ came s x)"
    and dropped: "set (gone s x) \<subseteq> set (waiting s)"
begin

definition state_after :: "'op list \<Rightarrow> 's" where
  "state_after xs = foldl step init xs"

lemma in_order:
  assumes "distinct (collect step came init xs)"
  shows "collect step left init xs @ waiting (state_after xs) =
      filter (\<lambda>i. i \<notin> set (collect step gone init xs)) (collect step came init xs)" (is "?L xs @ _ = filter _ (?C xs)")
    and "set (collect step gone init xs) \<subseteq> set (collect step came init xs)"
proof -
  have "set (collect step gone init xs) \<subseteq> set (?C xs) \<and>
    ?L xs @ waiting (state_after xs) = filter (\<lambda>i. i \<notin> set (collect step gone init xs)) (?C xs)"
    using assms
  proof (induction xs rule: rev_induct)
    case (snoc x xs)
    let ?s = "state_after xs" and ?G = "set (collect step gone init xs)"
    let ?W = "waiting ?s" and ?c = "came ?s x" and ?g = "set (gone ?s x)"
    from snoc have d: "distinct (?C xs)" "distinct ?c" "set (?C xs) \<inter> set ?c = {}"
      and IH: "?G \<subseteq> set (?C xs)" "?L xs @ ?W = filter (\<lambda>i. i \<notin> ?G) (?C xs)" by (simp_all add: state_after_def)
    have LW: "distinct (?L xs @ ?W)" "set (?L xs @ ?W) \<subseteq> set (?C xs)" unfolding IH(2) using d(1) by auto
    then have "distinct (?W @ ?c)" using d(2,3) by auto
    note moved = moves [OF this]
    have g: "?g \<subseteq> set ?W" by (rule dropped)
    have keep: "filter (\<lambda>i. i \<notin> ?g) (?L xs) = ?L xs" "filter (\<lambda>i. i \<notin> ?G) ?c = ?c"
      using g LW(1) IH(1) d(3) by (auto simp: filter_id_conv)
    have "filter (\<lambda>i. i \<notin> ?G \<union> ?g) (?C xs @ ?c) = filter (\<lambda>i. i \<notin> ?g) (filter (\<lambda>i. i \<notin> ?G) (?C xs @ ?c))"
      by (simp add: conj_commute)
    also have "\<dots> = filter (\<lambda>i. i \<notin> ?g) (?L xs @ ?W @ ?c)" using IH(2) keep(2) by (simp flip: append_assoc)
    also have "\<dots> = ?L xs @ left ?s x @ waiting (step ?s x)" using keep(1) moved by simp
    finally have "?L xs @ left ?s x @ waiting (step ?s x) = filter (\<lambda>i. i \<notin> ?G \<union> ?g) (?C xs @ ?c)" ..
    moreover have "?G \<union> ?g \<subseteq> set (?C xs @ ?c)" using IH(1) g LW(2) by auto
    ultimately show ?case by (simp add: state_after_def)
  qed (simp add: state_after_def empty)
  then show "?L xs @ waiting (state_after xs) = filter (\<lambda>i. i \<notin> set (collect step gone init xs)) (?C xs)"
    and "set (collect step gone init xs) \<subseteq> set (?C xs)" by blast+
qed

lemma waiting_distinct: "distinct (collect step came init xs) \<Longrightarrow> distinct (waiting (state_after xs))"
  using in_order(1) [of xs] by (metis distinct_append distinct_filter)

end

section \<open>The queue keeps the promise\<close>

lemma find_index_Some:
  "find_index P xs = Some i \<longleftrightarrow> i < length xs \<and> P (xs ! i) \<and> (\<forall>j < i. \<not> P (xs ! j))"
proof -
  have "find (\<lambda>i. P (xs ! i)) [0..<length xs] = Some i \<longleftrightarrow>
      (\<exists>k < length xs. P (xs ! k) \<and> i = k \<and> (\<forall>j < k. \<not> P (xs ! j)))"
    unfolding find_Some_iff by auto
  then show ?thesis by (auto simp: find_index_def)
qed

lemma find_index_None: "find_index P xs = None \<longleftrightarrow> (\<forall>x \<in> set xs. \<not> P x)"
  by (auto simp: find_index_def find_None_iff all_set_conv_all_nth)

lemma remove_nth:
  assumes "i < length xs" and "distinct (map f xs)"
  shows "take i xs @ drop (Suc i) xs = filter (\<lambda>x. f x \<noteq> f (xs ! i)) xs"
proof -
  have xs: "xs = take i xs @ xs ! i # drop (Suc i) xs" using assms(1) by (simp add: id_take_nth_drop)
  have "distinct (map f (take i xs @ xs ! i # drop (Suc i) xs))" using assms(2) xs by simp
  then have "filter (\<lambda>x. f x \<noteq> f (xs ! i)) (take i xs) = take i xs"
    "filter (\<lambda>x. f x \<noteq> f (xs ! i)) (drop (Suc i) xs) = drop (Suc i) xs"
    by (auto simp: filter_id_conv) (metis image_eqI)+
  moreover have "filter P xs = filter P (take i xs) @ filter P (xs ! i # drop (Suc i) xs)" for P
    using xs by (metis filter_append)
  ultimately show ?thesis by simp
qed

definition waiting_ids :: "'p WorkerQueue \<Rightarrow> string list" where
  "waiting_ids wq = map qr_id (wq_queue wq)"

lemma queue_entry_id [simp]: "qr_id (queue_entry i now l) = i"
  by (simp add: queue_entry_def launch.defs)

lemma cancel_waiting:
  assumes "distinct (waiting_ids wq)"
  shows "wq_queue (fst (snd (cancel stamp i wq))) = filter (\<lambda>r. qr_id r \<noteq> i) (wq_queue wq)"
    and "fst (cancel stamp i wq) \<longleftrightarrow> i \<in> set (waiting_ids wq)"
proof -
  have "wq_queue (fst (snd (cancel stamp i wq))) = filter (\<lambda>r. qr_id r \<noteq> i) (wq_queue wq) \<and>
    (fst (cancel stamp i wq) \<longleftrightarrow> i \<in> set (waiting_ids wq))"
  proof (cases "find_index (\<lambda>r. qr_id r = i) (wq_queue wq)")
    case None
    then have absent: "\<forall>r \<in> set (wq_queue wq). qr_id r \<noteq> i" by (simp add: find_index_None)
    with None show ?thesis by (auto simp: cancel_def waiting_ids_def filter_id_conv)
  next
    case (Some k)
    then have k: "k < length (wq_queue wq)" "qr_id (wq_queue wq ! k) = i" by (simp_all add: find_index_Some)
    from remove_nth [OF k(1), of qr_id] assms k(2)
    have "take k (wq_queue wq) @ drop (Suc k) (wq_queue wq) = filter (\<lambda>r. qr_id r \<noteq> i) (wq_queue wq)"
      by (simp add: waiting_ids_def)
    moreover have "i \<in> set (waiting_ids wq)" using k by (auto simp: waiting_ids_def)
    ultimately show ?thesis using Some by (simp add: cancel_def Let_def)
  qed
  then show "wq_queue (fst (snd (cancel stamp i wq))) = filter (\<lambda>r. qr_id r \<noteq> i) (wq_queue wq)"
    and "fst (cancel stamp i wq) \<longleftrightarrow> i \<in> set (waiting_ids wq)" by blast+
qed

lemma queue_moves:
  assumes "distinct (waiting_ids wq @ queue_came wq x)"
  shows "queue_left wq x @ waiting_ids (queue_step wq x) =
    filter (\<lambda>i. i \<notin> set (queue_gone wq x)) (waiting_ids wq @ queue_came wq x)"
proof (cases x)
  case (Enqueue i stamp l)
  then show ?thesis
    by (simp add: queue_left_def queue_step_def queue_gone_def queue_came_def enqueue_def waiting_ids_def Let_def)
next
  case (Dequeue stamp)
  then show ?thesis
    by (simp add: queue_left_def queue_step_def queue_gone_def queue_came_def dequeue_def waiting_ids_def Let_def
        split: list.split)
next
  case (Cancel stamp i)
  have d: "distinct (waiting_ids wq)" using assms by simp
  have "map qr_id (filter (\<lambda>r. qr_id r \<noteq> i) (wq_queue wq)) = filter (\<lambda>j. j \<noteq> i) (waiting_ids wq)"
    by (simp add: waiting_ids_def filter_map comp_def)
  moreover have "i \<notin> set (waiting_ids wq) \<Longrightarrow> filter (\<lambda>j. j \<noteq> i) (waiting_ids wq) = waiting_ids wq"
    by (auto simp: filter_id_conv)
  ultimately show ?thesis using Cancel cancel_waiting [OF d, of stamp i]
    by (auto simp: queue_left_def queue_step_def queue_gone_def queue_came_def waiting_ids_def [of "fst _"])
qed

interpretation worker_queue: fifo queue_step "newWorkerQueue bus limit" waiting_ids queue_came queue_left queue_gone
proof
  show "waiting_ids (newWorkerQueue bus limit) = []" by (simp add: newWorkerQueue_def waiting_ids_def)
  show "set (queue_gone wq x) \<subseteq> set (waiting_ids wq)" for wq :: "'a WorkerQueue" and x
    by (cases x) (auto simp: queue_gone_def cancel_def waiting_ids_def find_index_Some Let_def split: option.splits)
qed (rule queue_moves)

section \<open>Announced positions\<close>

text \<open>A client of the event bus that keeps the last position it was told of every request.\<close>

fun observe :: "(string \<Rightarrow> nat option) \<Rightarrow> effect \<Rightarrow> (string \<Rightarrow> nat option)" where
  "observe m (Emit (RequestAdded i _ _ p _)) = m(i \<mapsto> p)"
| "observe m (Emit (PositionChanged i _ p _)) = m(i \<mapsto> p)"
| "observe m (Emit (RequestRemoved i _ _ _)) = m(i := None)"
| "observe m (Resolve _ _) = m"
| "observe m (CallStarted _ _) = m"
| "observe m (CallFailed _ _) = m"
| "observe m (CallRetryable _ _) = m"

fun positions :: "string list \<Rightarrow> string \<Rightarrow> nat option" where
  "positions [] i = None"
| "positions (j # ids) i = (if j = i then Some 1 else map_option Suc (positions ids i))"

lemma find_index_Cons: "find_index P (x # xs) = (if P x then Some 0 else map_option Suc (find_index P xs))"
proof (cases "P x")
  case False
  show ?thesis
  proof (cases "find_index P xs")
    case None
    with False have "find_index P (x # xs) = None" by (simp add: find_index_None)
    with None False show ?thesis by simp
  next
    case (Some n)
    with False have "find_index P (x # xs) = Some (Suc n)"
      by (auto simp: find_index_Some nth_Cons split: nat.split)
    with Some False show ?thesis by simp
  qed
qed (simp add: find_index_Some)

lemma positions_find_index: "positions (map f xs) i = map_option Suc (find_index (\<lambda>x. f x = i) xs)"
  by (induction xs) (simp_all add: find_index_Cons find_index_None option.map_comp)

lemma getPosition_positions: "getPosition i wq = positions (waiting_ids wq) i"
  by (simp add: getPosition_def positions_find_index waiting_ids_def split: option.split)

lemma positions_None: "positions ids i = None \<longleftrightarrow> i \<notin> set ids"
  by (induction ids) auto

lemma positions_snoc: "i \<notin> set ids \<Longrightarrow> positions (ids @ [i]) = (positions ids)(i \<mapsto> Suc (length ids))"
  by (induction ids) auto

lemma observe_updates:
  assumes "wq_eventBus wq" and "distinct (map qr_id q)"
  shows "foldl observe m (concat (map (\<lambda>(i, r). bus_emit wq (PositionChanged (qr_id r) (la_sessionId r) (i + 1) (stamp (i + 1)))) (enumerate k q)))
    = m ++ (\<lambda>i. map_option (\<lambda>n. k + n) (positions (map qr_id q) i))"
  using assms(2)
proof (induction q arbitrary: k m)
  case (Cons r q)
  have absent: "positions (map qr_id q) (qr_id r) = None" using Cons.prems by (simp add: positions_None)
  let ?updates = "\<lambda>k q. concat (map (\<lambda>(i, r). bus_emit wq (PositionChanged (qr_id r) (la_sessionId r) (i + 1) (stamp (i + 1)))) (enumerate k q))"
  have "foldl observe m (?updates k (r # q)) = foldl observe (m(qr_id r \<mapsto> Suc k)) (?updates (Suc k) q)"
    using assms(1) by (simp add: bus_emit_def)
  also have "\<dots> = m(qr_id r \<mapsto> Suc k) ++ (\<lambda>i. map_option (\<lambda>n. Suc k + n) (positions (map qr_id q) i))"
    by (rule Cons.IH) (use Cons.prems in simp)
  also have "\<dots> = m ++ (\<lambda>i. map_option (\<lambda>n. k + n) (positions (map qr_id (r # q)) i))"
  proof
    fix i
    show "(m(qr_id r \<mapsto> Suc k) ++ (\<lambda>i. map_option (\<lambda>n. Suc k + n) (positions (map qr_id q) i))) i =
        (m ++ (\<lambda>i. map_option (\<lambda>n. k + n) (positions (map qr_id (r # q)) i))) i"
      using absent by (cases "i = qr_id r"; cases "positions (map qr_id q) i") (auto simp: map_add_def)
  qed
  finally show ?case .
qed simp
lemma observe_positions:
  "wq_eventBus wq \<Longrightarrow> distinct (waiting_ids wq) \<Longrightarrow>
   foldl observe m (emitPositionUpdates stamp wq) = m ++ positions (waiting_ids wq)"
  using observe_updates [of wq "wq_queue wq" m stamp 0]
  by (simp add: emitPositionUpdates_def waiting_ids_def option.map_ident)

lemma observe_enqueue:
  assumes "wq_eventBus wq" and "i \<notin> set (waiting_ids wq)" and "fst (enqueue i stamp l wq) = Enqueued j p"
  shows "foldl observe (m ++ positions (waiting_ids wq)) (snd (snd (enqueue i stamp l wq))) =
    m ++ positions (waiting_ids (fst (snd (enqueue i stamp l wq))))"
proof -
  have "waiting_ids (fst (snd (enqueue i stamp l wq))) = waiting_ids wq @ [i]"
    using assms(3) by (auto simp: enqueue_def waiting_ids_def Let_def split: if_splits)
  moreover have "m ++ positions (waiting_ids wq @ [i]) = (m ++ positions (waiting_ids wq))(i \<mapsto> Suc (length (waiting_ids wq)))"
    using assms(2) by (simp add: positions_snoc)
  moreover have "snd (snd (enqueue i stamp l wq)) = emitQueueAdded stamp (queue_entry i (stamp 0) l) (Suc (length (waiting_ids wq))) (fst (snd (enqueue i stamp l wq)))"
    "wq_eventBus (fst (snd (enqueue i stamp l wq)))"
    using assms(1,3) by (auto simp: enqueue_def Let_def waiting_ids_def split: if_splits)
  ultimately show ?thesis by (simp add: emitQueueAdded_def bus_emit_def)
qed

lemma observe_dequeue:
  assumes "wq_eventBus wq" and "distinct (waiting_ids wq)" and "fst (dequeue stamp wq) = Some r"
  shows "foldl observe (m ++ positions (waiting_ids wq)) (snd (snd (dequeue stamp wq))) =
    m(qr_id r \<mapsto> 1) ++ positions (waiting_ids (fst (snd (dequeue stamp wq))))"
proof -
  obtain rest where q: "wq_queue wq = r # rest" using assms(3) by (auto simp: dequeue_def Let_def split: list.splits)
  let ?wq = "wq\<lparr>wq_queue := rest\<rparr>"
  have d: "distinct (waiting_ids ?wq)" "qr_id r \<notin> set (waiting_ids ?wq)" "waiting_ids wq = qr_id r # waiting_ids ?wq"
    using assms(2) q by (simp_all add: waiting_ids_def)
  have absent: "positions (waiting_ids ?wq) (qr_id r) = None" using d(2) by (simp add: positions_None)
  have "m ++ positions (qr_id r # waiting_ids ?wq) ++ positions (waiting_ids ?wq) = m(qr_id r \<mapsto> 1) ++ positions (waiting_ids ?wq)"
  proof
    fix i
    show "(m ++ positions (qr_id r # waiting_ids ?wq) ++ positions (waiting_ids ?wq)) i = (m(qr_id r \<mapsto> 1) ++ positions (waiting_ids ?wq)) i"
      using absent by (cases "i = qr_id r"; cases "positions (waiting_ids ?wq) i") (simp_all add: map_add_def)
  qed
  then show ?thesis using observe_positions [of ?wq] assms(1) d q by (simp add: dequeue_def Let_def)
qed

lemma observe_cancel:
  assumes "wq_eventBus wq" and "distinct (waiting_ids wq)" and "fst (cancel stamp i wq)"
  shows "foldl observe (m ++ positions (waiting_ids wq)) (snd (snd (cancel stamp i wq))) =
    m(i := None) ++ positions (waiting_ids (fst (snd (cancel stamp i wq))))"
proof -
  let ?wq = "fst (snd (cancel stamp i wq))"
  obtain k where k: "find_index (\<lambda>r. qr_id r = i) (wq_queue wq) = Some k"
    using assms(3) by (auto simp: cancel_def split: option.splits)
  then have id: "qr_id (wq_queue wq ! k) = i" by (simp add: find_index_Some)
  have bus: "wq_eventBus ?wq" using k assms(1) by (simp add: cancel_def Let_def)
  have "waiting_ids ?wq = filter (\<lambda>j. j \<noteq> i) (waiting_ids wq)"
    using cancel_waiting(1) [OF assms(2)] by (simp add: waiting_ids_def filter_map comp_def)
  then have d: "distinct (waiting_ids ?wq)" "set (waiting_ids ?wq) = set (waiting_ids wq) - {i}"
    using assms(2) by auto
  have "foldl observe (m ++ positions (waiting_ids wq)) (snd (snd (cancel stamp i wq))) =
      foldl observe ((m ++ positions (waiting_ids wq))(i := None)) (emitPositionUpdates stamp ?wq)"
    using k id assms(1) by (simp add: cancel_def Let_def emitQueueRemoved_def bus_emit_def)
  also have "\<dots> = (m ++ positions (waiting_ids wq))(i := None) ++ positions (waiting_ids ?wq)"
    by (rule observe_positions [OF bus d(1)])
  also have "\<dots> = m(i := None) ++ positions (waiting_ids ?wq)"
  proof
    fix j
    have "positions (waiting_ids ?wq) j = None \<Longrightarrow> j \<noteq> i \<Longrightarrow> positions (waiting_ids wq) j = None"
      using d(2) by (simp add: positions_None)
    moreover have "positions (waiting_ids ?wq) i = None" using d(2) by (simp add: positions_None)
    moreover have "positions (waiting_ids ?wq) j = None \<or> (\<exists>p. positions (waiting_ids ?wq) j = Some p)" by auto
    ultimately show "((m ++ positions (waiting_ids wq))(i := None) ++ positions (waiting_ids ?wq)) j = (m(i := None) ++ positions (waiting_ids ?wq)) j"
      by (cases "j = i") (auto simp: map_add_def)
  qed
  finally show ?thesis .
qed

lemma queue_config [simp]:
  "wq_eventBus (queue_step wq x) = wq_eventBus wq" "wq_maxQueueSize (queue_step wq x) = wq_maxQueueSize wq"
  by (cases x; simp add: queue_step_def enqueue_def dequeue_def cancel_def Let_def split: list.split option.split)+

lemma queue_config_run [simp]:
  "wq_eventBus (foldl queue_step wq xs) = wq_eventBus wq" "wq_maxQueueSize (foldl queue_step wq xs) = wq_maxQueueSize wq"
  by (induction xs rule: rev_induct) simp_all

lemma queue_effects_None:
  assumes "queue_came wq x = []" "queue_left wq x = []" "queue_gone wq x = []"
  shows "queue_effects wq x = []" "queue_step wq x = wq"
  using assms
  by (cases x; auto simp: queue_came_def queue_left_def queue_gone_def queue_effects_def queue_step_def
      enqueue_def dequeue_def cancel_def Let_def split: if_splits list.splits option.splits)+

lemma queue_observed:
  assumes "wq_eventBus wq" and "distinct (waiting_ids wq @ queue_came wq x)"
  shows "foldl observe (m ++ positions (waiting_ids wq)) (queue_effects wq x) =
    (\<lambda>i. if i \<in> set (queue_left wq x) then Some 1 else if i \<in> set (queue_gone wq x) then None else m i) ++
    positions (waiting_ids (queue_step wq x))"
proof (cases "queue_came wq x = [] \<and> queue_left wq x = [] \<and> queue_gone wq x = []")
  case True
  then show ?thesis using queue_effects_None [of wq x] by simp
next
  case False
  show ?thesis
  proof (cases x)
    case (Enqueue i stamp l)
    with False obtain j p where j: "fst (enqueue i stamp l wq) = Enqueued j p"
      by (auto simp: queue_came_def queue_left_def queue_gone_def split: EnqueueResult.splits)
    then have "j = i" by (auto simp: enqueue_def Let_def split: if_splits)
    with Enqueue j assms(2) have "i \<notin> set (waiting_ids wq)" by (simp add: queue_came_def)
    from observe_enqueue [OF assms(1) this j] Enqueue show ?thesis
      by (simp add: queue_effects_def queue_step_def queue_left_def queue_gone_def)
  next
    case (Dequeue stamp)
    with False obtain r where r: "fst (dequeue stamp wq) = Some r"
      by (auto simp: queue_came_def queue_left_def queue_gone_def split: option.splits)
    have "(\<lambda>i. if i \<in> set (queue_left wq x) then Some 1 else if i \<in> set (queue_gone wq x) then None else m i) = m(qr_id r \<mapsto> 1)"
      using Dequeue r by (auto simp: queue_left_def queue_gone_def)
    with observe_dequeue [OF assms(1) _ r] assms(2) Dequeue show ?thesis
      by (simp add: queue_effects_def queue_step_def)
  next
    case (Cancel stamp i)
    with False have c: "fst (cancel stamp i wq)"
      by (auto simp: queue_came_def queue_left_def queue_gone_def split: if_splits)
    have "(\<lambda>j. if j \<in> set (queue_left wq x) then Some 1 else if j \<in> set (queue_gone wq x) then None else m j) = m(i := None)"
      using Cancel c by (auto simp: queue_left_def queue_gone_def)
    with observe_cancel [OF assms(1) _ c] assms(2) Cancel show ?thesis
      by (simp add: queue_effects_def queue_step_def)
  qed
qed

lemma queue_within_limit:
  assumes "wq_maxQueueSize wq > 0" and "int (length (wq_queue wq)) \<le> wq_maxQueueSize wq"
  shows "int (length (wq_queue (queue_step wq x))) \<le> wq_maxQueueSize wq"
  using assms
  by (cases x) (auto simp: queue_step_def enqueue_def dequeue_def cancel_def Let_def split: list.splits option.splits)

lemma queue_length_bounded:
  assumes "limit = Some m" and "m > 0"
  shows "int (queue_length (foldl queue_step (newWorkerQueue bus limit) xs)) \<le> m \<and>
    wq_maxQueueSize (foldl queue_step (newWorkerQueue bus limit :: 'p WorkerQueue) xs) = m"
proof -
  have config: "wq_maxQueueSize (newWorkerQueue bus limit :: 'p WorkerQueue) = m" using assms by (simp add: newWorkerQueue_def)
  have "int (length (wq_queue (foldl queue_step (newWorkerQueue bus limit :: 'p WorkerQueue) xs))) \<le> m" for xs
  proof (induction xs rule: rev_induct)
    case Nil
    then show ?case using assms by (simp add: newWorkerQueue_def)
  next
    case (snoc x xs)
    with queue_within_limit [of "foldl queue_step (newWorkerQueue bus limit) xs" x] config assms show ?case by simp
  qed
  then show ?thesis using config by (simp add: queue_length_def)
qed

lemma queue_announced:
  assumes "wq_eventBus wq0" and wq0: "wq0 = newWorkerQueue bus limit"
    and "distinct (collect queue_step queue_came wq0 xs)"
  shows "foldl observe Map.empty (collect queue_step queue_effects wq0 xs) =
    (\<lambda>i. if i \<in> set (collect queue_step queue_left wq0 xs) then Some 1 else None) ++
    positions (waiting_ids (foldl queue_step wq0 xs))"
  using assms(3)
proof (induction xs rule: rev_induct)
  case Nil
  then show ?case by (simp add: wq0 newWorkerQueue_def waiting_ids_def map_add_def)
next
  case (snoc x xs)
  let ?wq = "foldl queue_step wq0 xs" and ?L = "collect queue_step queue_left wq0 xs"
    and ?C = "collect queue_step queue_came wq0 xs"
  from snoc.prems have d: "distinct ?C" "distinct (queue_came ?wq x)" "set ?C \<inter> set (queue_came ?wq x) = {}"
    by simp_all
  note o' = worker_queue.in_order [OF d(1) [unfolded wq0], unfolded worker_queue.state_after_def, folded wq0]
  have "distinct (?L @ waiting_ids ?wq)" "set (waiting_ids ?wq) \<subseteq> set ?C"
    using o'(1) d(1) by (metis distinct_filter) (metis o'(1) filter_is_subset set_append Un_subset_iff)
  then have w: "distinct (waiting_ids ?wq @ queue_came ?wq x)" and g: "set (queue_gone ?wq x) \<inter> set ?L = {}"
    using d(2,3) worker_queue.dropped [of ?wq x] by auto
  have bus: "wq_eventBus ?wq" using assms(1) by simp
  have "(\<lambda>i. if i \<in> set (queue_left ?wq x) then Some 1 else if i \<in> set (queue_gone ?wq x) then None
      else if i \<in> set ?L then Some 1 else None) = (\<lambda>i. if i \<in> set (?L @ queue_left ?wq x) then Some (1::nat) else None)"
    using g by (intro ext) auto
  then show ?case
    unfolding collect_snoc foldl_append foldl.simps snoc.IH [OF d(1)] queue_observed [OF bus w] by simp
qed

text \<open>
  C16 The worker queue refines a FIFO queue that its clients can follow. Over any history of
  operations with fresh ids, the requests handed out, followed by those still waiting, are the
  accepted ones without the cancelled ones, in the order of their acceptance; a positive limit is
  never exceeded, and a request is refused exactly when the limit is reached; and a client that
  only listens to the events knows the exact position of every waiting request (and still shows
  position 1 for one that has been handed out, until its removal is announced).
\<close>
theorem worker_queue_refines_fifo:
  assumes "wq0 = newWorkerQueue bus limit" and "wq = foldl queue_step wq0 xs"
    and "distinct (collect queue_step queue_came wq0 xs)"
  shows "collect queue_step queue_left wq0 xs @ waiting_ids wq =
      filter (\<lambda>i. i \<notin> set (collect queue_step queue_gone wq0 xs)) (collect queue_step queue_came wq0 xs) \<and>
    (\<forall>m > 0. limit = Some m \<longrightarrow> int (queue_length wq) \<le> m \<and>
      (isQueueFullError (fst (enqueue i stamp l wq)) \<longleftrightarrow> int (queue_length wq) = m)) \<and>
    (bus \<longrightarrow> foldl observe Map.empty (collect queue_step queue_effects wq0 xs) =
      (\<lambda>i. if i \<in> set (collect queue_step queue_left wq0 xs) then Some 1 else None) ++ (\<lambda>i. getPosition i wq))"
proof (intro conjI allI impI)
  show "collect queue_step queue_left wq0 xs @ waiting_ids wq =
      filter (\<lambda>i. i \<notin> set (collect queue_step queue_gone wq0 xs)) (collect queue_step queue_came wq0 xs)"
    using worker_queue.in_order(1) assms unfolding worker_queue.state_after_def by blast
  show "int (queue_length wq) \<le> m" if "0 < m" "limit = Some m" for m
    using queue_length_bounded [OF that(2,1)] assms(1,2) by blast
  show "isQueueFullError (fst (enqueue i stamp l wq)) \<longleftrightarrow> int (queue_length wq) = m" if "0 < m" "limit = Some m" for m
    using queue_length_bounded [OF that(2,1), of bus xs] assms(1,2) that(1)
    by (auto simp: enqueue_def isQueueFullError_def queue_length_def Let_def)
  show "foldl observe Map.empty (collect queue_step queue_effects wq0 xs) =
      (\<lambda>i. if i \<in> set (collect queue_step queue_left wq0 xs) then Some 1 else None) ++ (\<lambda>i. getPosition i wq)" if bus
    unfolding getPosition_positions assms(2)
    by (rule queue_announced [OF _ assms(1,3)]) (use that assms(1) in \<open>simp add: newWorkerQueue_def\<close>)
qed

definition sample_launch :: "nat launch" where
  "sample_launch = \<lparr>la_type = NewSession, la_projectPath = ''/p'', la_projectId = ''p'', la_sessionId = None,
     la_creationFence = None, la_authorizeCreation = False, la_onStarted = False, la_onFailed = True,
     la_onRetryableFailure = False, la_payload = 0\<rparr>"

definition sample_ops :: "nat queue_op list" where
  "sample_ops =
     [Enqueue ''a'' (\<lambda>_. 0) sample_launch, Enqueue ''b'' (\<lambda>_. 0) sample_launch, Enqueue ''c'' (\<lambda>_. 0) sample_launch,
      Enqueue ''d'' (\<lambda>_. 0) sample_launch, Dequeue (\<lambda>_. 0), Cancel (\<lambda>_. 0) ''b'']"

lemma sample_history:
  "collect queue_step queue_came (newWorkerQueue True (Some 3)) sample_ops = [''a'', ''b'', ''c'']"
  "collect queue_step queue_left (newWorkerQueue True (Some 3)) sample_ops = [''a'']"
  "collect queue_step queue_gone (newWorkerQueue True (Some 3)) sample_ops = [''b'']"
  by code_simp+

theorem worker_queue_refines_fifo_witness:
  "waiting_ids (foldl queue_step (newWorkerQueue True (Some 3)) sample_ops) = [''c''] \<and>
   foldl observe Map.empty (collect queue_step queue_effects (newWorkerQueue True (Some 3)) sample_ops) ''c'' = Some 1 \<and>
   foldl observe Map.empty (collect queue_step queue_effects (newWorkerQueue True (Some 3)) sample_ops) ''b'' = None"
proof -
  have "distinct (collect queue_step queue_came (newWorkerQueue True (Some 3)) sample_ops)"
    unfolding sample_history by simp
  note fifo = worker_queue_refines_fifo [OF refl refl this]
  then have waiting: "waiting_ids (foldl queue_step (newWorkerQueue True (Some 3)) sample_ops) = [''c'']"
    unfolding sample_history by simp
  with fifo show ?thesis unfolding sample_history getPosition_positions by (simp add: map_add_def)
qed

end
