(* ===== verification/WorkerPool.thy ===== *)
theory WorkerPool
  imports WorkerQueue
begin

declare map_of_eq_Some_iff [simp del]

text \<open>
  Admission of sessions to the worker pool (the worker pool methods of
  packages/server/src/supervisor/Supervisor.ts, the admission parts of \<open>startSession\<close>,
  \<open>resumeSession\<close>, \<open>startSavedSessionOnce\<close> and \<open>runCreationAttempt\<close> with its two callers, the launch
  of a saved session and the copy of a transcript, and \<open>processQueue\<close>), over the queue of WorkerQueue.

  The code is asynchronous. A step of the model is what runs between two suspension points; what is
  suspended is part of the state (\<open>sv_calls\<close>, one entry per suspended invocation, and \<open>sv_microtasks\<close>,
  the scheduled calls of \<open>processQueue\<close>). How long an invocation stays suspended and how a provider
  start ends is not in the code: they are the events of a history, in any order.
\<close>

section \<open>Data\<close>

datatype ProcessState = InTurn | Idle nat | WaitingInput | Terminated

datatype 'p call =
    QueueStart "'p QueuedRequest" bool "string option"
  | QueueCallback
  | SavedStart bool "string option"
  | PlainStart "string option"
  | Activating
  | PreemptingPlain string
  | PreemptingSaved string string string "'p launch"
  | Preempted string string "'p launch"
  | Copying

text \<open>
  A start that waits for its provider: whether it holds a creation slot (\<open>pendingCreationStarts\<close>), and
  the process it has registered, if any. A preemption: the victim, and how it goes on. A transcript
  copy (clone, fork or handoff) inside \<open>runCreationAttempt\<close>: it holds a slot and registers no process.
\<close>

record 'p Supervisor =
  sv_workerQueue :: "'p WorkerQueue"
  sv_processes :: "(string \<times> ProcessState) list"
  sv_pendingCreationStarts :: nat
  sv_maxWorkers :: int
  sv_idlePreemptThresholdMs :: int
  sv_calls :: "(nat \<times> 'p call) list"
  sv_nextCall :: nat
  sv_microtasks :: nat

datatype response =
    NoResponse
  | Pending nat
  | NewlyQueued string nat
  | AlreadyQueued string nat
  | RefusedFull int
  | Thrown

definition newSupervisor :: "bool \<Rightarrow> int option \<Rightarrow> int \<Rightarrow> int \<Rightarrow> 'p Supervisor" where
  "newSupervisor bus maxQueueSize maxWorkers threshold =
     \<lparr>sv_workerQueue = newWorkerQueue bus maxQueueSize, sv_processes = [], sv_pendingCreationStarts = 0,
      sv_maxWorkers = maxWorkers, sv_idlePreemptThresholdMs = threshold, sv_calls = [], sv_nextCall = 0,
      sv_microtasks = 0\<rparr>"

section \<open>Capacity\<close>

definition isAtCapacity :: "'p Supervisor \<Rightarrow> bool" where
  "isAtCapacity s = (if sv_maxWorkers s \<le> 0 then False else int (length (sv_processes s)) \<ge> sv_maxWorkers s)"

definition isAtCreationCapacity :: "'p Supervisor \<Rightarrow> bool" where
  "isAtCreationCapacity s =
     (sv_pendingCreationStarts s \<ge> 16 \<or>
      (sv_maxWorkers s > 0 \<and> int (length (sv_processes s) + sv_pendingCreationStarts s) \<ge> sv_maxWorkers s))"

fun better_victim :: "nat \<Rightarrow> int \<Rightarrow> string option \<times> int \<Rightarrow> string \<times> ProcessState \<Rightarrow> string option \<times> int" where
  "better_victim now threshold (oldest, oldestIdleTime) (pid, Idle since) =
     (let idleMs = int now - int since
      in if idleMs \<ge> threshold \<and> idleMs > oldestIdleTime then (Some pid, idleMs) else (oldest, oldestIdleTime))"
| "better_victim now threshold best _ = best"

definition findPreemptableWorker :: "nat \<Rightarrow> 'p Supervisor \<Rightarrow> string option" where
  "findPreemptableWorker now s =
     fst (foldl (better_victim now (sv_idlePreemptThresholdMs s)) (None, 0) (sv_processes s))"

section \<open>Suspended invocations\<close>

definition begin_call :: "'p call \<Rightarrow> 'p Supervisor \<Rightarrow> 'p Supervisor" where
  "begin_call c s = s\<lparr>sv_calls := sv_calls s @ [(sv_nextCall s, c)], sv_nextCall := Suc (sv_nextCall s)\<rparr>"

definition end_call :: "nat \<Rightarrow> 'p Supervisor \<Rightarrow> 'p Supervisor" where
  "end_call i s = s\<lparr>sv_calls := AList.delete i (sv_calls s)\<rparr>"

definition set_call :: "nat \<Rightarrow> 'p call \<Rightarrow> 'p Supervisor \<Rightarrow> 'p Supervisor" where
  "set_call i c s = s\<lparr>sv_calls := AList.update i c (sv_calls s)\<rparr>"

section \<open>The queue\<close>

definition queued_failed ::
  "nat \<Rightarrow> 'p QueuedRequest \<Rightarrow> string \<Rightarrow> bool \<Rightarrow> 'p Supervisor \<Rightarrow> 'p Supervisor \<times> effect list"
where
  "queued_failed now r reason retryable s =
     (begin_call QueueCallback s,
      bus_emit (sv_workerQueue s) (RequestRemoved (qr_id r) (la_sessionId r) BecauseCancelled now) @
      [Resolve (qr_id r) (Cancelled reason)] @
      (if retryable \<and> la_creationFence r = None
       then (if la_onRetryableFailure r then [CallRetryable (qr_id r) reason] else [])
       else (if la_onFailed r then [CallFailed (qr_id r) reason] else [])))"

definition queued_started ::
  "nat \<Rightarrow> 'p QueuedRequest \<Rightarrow> string \<Rightarrow> 'p Supervisor \<Rightarrow> 'p Supervisor \<times> effect list"
where
  "queued_started now r pid s =
     (begin_call QueueCallback s,
      bus_emit (sv_workerQueue s) (RequestRemoved (qr_id r) (la_sessionId r) BecauseStarted now) @
      [Resolve (qr_id r) (Started pid)] @
      (if la_onStarted r then [CallStarted (qr_id r) pid] else []))"

text \<open>One turn of the loop of \<open>processQueue\<close>, up to where it waits.\<close>

definition processQueue_turn :: "(nat \<Rightarrow> nat) \<Rightarrow> 'p Supervisor \<Rightarrow> 'p Supervisor \<times> effect list" where
  "processQueue_turn stamp s =
     (if isEmpty (sv_workerQueue s) \<or> isAtCreationCapacity s then (s, [])
      else case dequeue stamp (sv_workerQueue s) of
        (None, wq, effects) \<Rightarrow> (s\<lparr>sv_workerQueue := wq\<rparr>, effects)
      | (Some r, wq, effects) \<Rightarrow>
          (let s = s\<lparr>sv_workerQueue := wq\<rparr>
           in if la_creationFence r \<noteq> None then
                (if \<not> la_authorizeCreation r then
                   (case queued_failed (stamp 0) r ''Queued creation lacks current authority'' False s of
                      (s, effects') \<Rightarrow> (s, effects @ effects'))
                 else
                   (begin_call (QueueStart r True None)
                      (s\<lparr>sv_pendingCreationStarts := Suc (sv_pendingCreationStarts s)\<rparr>), effects))
              else (begin_call (QueueStart r False None) s, effects)))"

definition unregisterProcess :: "(nat \<Rightarrow> nat) \<Rightarrow> string \<Rightarrow> 'p Supervisor \<Rightarrow> 'p Supervisor \<times> effect list" where
  "unregisterProcess stamp pid s =
     (if pid \<notin> fst ` set (sv_processes s) then (s, [])
      else processQueue_turn stamp (s\<lparr>sv_processes := AList.delete pid (sv_processes s)\<rparr>))"

section \<open>Admission\<close>

definition put_in_queue ::
  "string \<Rightarrow> (nat \<Rightarrow> nat) \<Rightarrow> 'p launch \<Rightarrow> 'p Supervisor \<Rightarrow> 'p Supervisor \<times> effect list \<times> response"
where
  "put_in_queue queueId stamp l s =
     (case enqueue queueId stamp l (sv_workerQueue s) of
        (QueueFull m, wq, effects) \<Rightarrow> (s\<lparr>sv_workerQueue := wq\<rparr>, effects, RefusedFull m)
      | (Enqueued i position, wq, effects) \<Rightarrow> (s\<lparr>sv_workerQueue := wq\<rparr>, effects, NewlyQueued i position))"

definition go_on :: "'p call \<Rightarrow> 'p Supervisor \<Rightarrow> 'p Supervisor \<times> effect list \<times> response" where
  "go_on c s = (begin_call c s, [], Pending (sv_nextCall s))"

definition startSession ::
  "string \<Rightarrow> (nat \<Rightarrow> nat) \<Rightarrow> bool \<Rightarrow> nat \<Rightarrow> 'p launch \<Rightarrow> 'p Supervisor \<Rightarrow> 'p Supervisor \<times> effect list \<times> response"
where
  "startSession queueId stamp gateway now l s =
     (if isAtCapacity s then
        (case findPreemptableWorker now s of
           Some victim \<Rightarrow> go_on (PreemptingPlain victim) s
         | None \<Rightarrow>
             if gateway \<and> \<not> la_onFailed l then (s, [], RefusedFull (sv_maxWorkers s))
             else put_in_queue queueId stamp
               (l\<lparr>la_type := NewSession, la_sessionId := None, la_creationFence := None, la_authorizeCreation := False\<rparr>) s)
      else go_on (PlainStart None) s)"

definition resumeSession ::
  "string \<Rightarrow> (nat \<Rightarrow> nat) \<Rightarrow> nat \<Rightarrow> string \<Rightarrow> 'p launch \<Rightarrow> 'p Supervisor \<Rightarrow> 'p Supervisor \<times> effect list \<times> response"
where
  "resumeSession queueId stamp now sessionId l s =
     (case findBySessionId sessionId (sv_workerQueue s) of
        Some r \<Rightarrow>
          (s, [], AlreadyQueued (qr_id r) (case getPosition (qr_id r) (sv_workerQueue s) of Some p \<Rightarrow> p | None \<Rightarrow> 1))
      | None \<Rightarrow>
          if isAtCapacity s \<and> findPreemptableWorker now s = None
          then put_in_queue queueId stamp
            (l\<lparr>la_type := ResumeSession, la_sessionId := Some sessionId, la_creationFence := None,
               la_authorizeCreation := False, la_onStarted := False, la_onFailed := False, la_onRetryableFailure := False\<rparr>) s
          else go_on Activating s)"

text \<open>The callback of \<open>startActivation\<close> in \<open>resumeSession\<close>.\<close>

definition activate :: "nat \<Rightarrow> 'p Supervisor \<Rightarrow> 'p Supervisor \<times> effect list \<times> response" where
  "activate now s =
     (if isAtCapacity s then
        (case findPreemptableWorker now s of
           Some victim \<Rightarrow> go_on (PreemptingPlain victim) s
         | None \<Rightarrow> (s, [], Thrown))
      else go_on (PlainStart None) s)"

definition startSavedSessionOnce ::
  "string \<Rightarrow> (nat \<Rightarrow> nat) \<Rightarrow> string \<Rightarrow> 'p launch \<Rightarrow> 'p Supervisor \<Rightarrow> 'p Supervisor \<times> effect list \<times> response"
where
  "startSavedSessionOnce queueId stamp attemptId l s =
     (case findByCreationAttempt attemptId (sv_workerQueue s) of
        Some r \<Rightarrow>
          (s, [], AlreadyQueued (qr_id r) (case getPosition (qr_id r) (sv_workerQueue s) of Some p \<Rightarrow> p | None \<Rightarrow> 0))
      | None \<Rightarrow>
          if isAtCreationCapacity s
          then put_in_queue queueId stamp
            (l\<lparr>la_type := NewSession, la_sessionId := None, la_creationFence := Some attemptId, la_authorizeCreation := True,
               la_onRetryableFailure := False\<rparr>) s
          else go_on (SavedStart True None) (s\<lparr>sv_pendingCreationStarts := Suc (sv_pendingCreationStarts s)\<rparr>))"

text \<open>Where \<open>startSession\<close> makes room for a saved creation before it dispatches it.\<close>

definition startCreation ::
  "string \<Rightarrow> (nat \<Rightarrow> nat) \<Rightarrow> string \<Rightarrow> nat \<Rightarrow> 'p launch \<Rightarrow> 'p Supervisor \<Rightarrow> 'p Supervisor \<times> effect list \<times> response"
where
  "startCreation queueId stamp attemptId now l s =
     (if isAtCreationCapacity s \<and> sv_pendingCreationStarts s < 16 then
        (case findPreemptableWorker now s of
           Some victim \<Rightarrow> go_on (PreemptingSaved victim queueId attemptId l) s
         | None \<Rightarrow> startSavedSessionOnce queueId stamp attemptId l s)
      else startSavedSessionOnce queueId stamp attemptId l s)"

text \<open>
  The second caller of \<open>runCreationAttempt\<close>, which copies a transcript: it takes a creation slot
  without looking at \<open>isAtCreationCapacity\<close>.
\<close>

definition startCopy :: "'p Supervisor \<Rightarrow> 'p Supervisor \<times> effect list \<times> response" where
  "startCopy s = go_on Copying (s\<lparr>sv_pendingCreationStarts := Suc (sv_pendingCreationStarts s)\<rparr>)"

definition cancelQueuedRequest :: "(nat \<Rightarrow> nat) \<Rightarrow> string \<Rightarrow> 'p Supervisor \<Rightarrow> bool \<times> 'p Supervisor \<times> effect list" where
  "cancelQueuedRequest stamp queueId s =
     (case cancel stamp queueId (sv_workerQueue s) of
        (found, wq, effects) \<Rightarrow> (found, s\<lparr>sv_workerQueue := wq\<rparr>, effects))"

definition getWorkerPoolStatus :: "'p Supervisor \<Rightarrow> nat \<times> int \<times> nat" where
  "getWorkerPoolStatus s = (length (sv_processes s), sv_maxWorkers s, queue_length (sv_workerQueue s))"

section \<open>Histories\<close>

datatype outcome = Succeeded | Failed string bool

text \<open>
  Calls of the operations, and what ends a suspension: the provider start of an invocation registers
  its process, gives its creation slot back, ends; a callback returns; a victim has been aborted.
  An event that does not fit the state changes nothing.
\<close>

datatype 'p pool_event =
    StartSession string "nat \<Rightarrow> nat" bool nat "'p launch"
  | ResumeSessionBy string "nat \<Rightarrow> nat" nat string "'p launch"
  | Activate nat nat
  | StartCreation string "nat \<Rightarrow> nat" string nat "'p launch"
  | Aborted nat "nat \<Rightarrow> nat"
  | GoOn nat "nat \<Rightarrow> nat"
  | Registered nat string ProcessState
  | SlotFreed nat
  | Settled nat nat outcome
  | CallbackDone nat "nat \<Rightarrow> nat"
  | Microtask "nat \<Rightarrow> nat"
  | Unregister string "nat \<Rightarrow> nat"
  | StateChanged string ProcessState
  | CancelQueued string "nat \<Rightarrow> nat"
  | StartCopy

definition without_response :: "'p Supervisor \<times> effect list \<Rightarrow> 'p Supervisor \<times> effect list \<times> response" where
  "without_response x = (fst x, snd x, NoResponse)"

definition victim_aborted :: "nat \<Rightarrow> (nat \<Rightarrow> nat) \<Rightarrow> 'p Supervisor \<Rightarrow> 'p Supervisor \<times> effect list \<times> response" where
  "victim_aborted i stamp s =
     (case map_of (sv_calls s) i of
        Some (PreemptingPlain victim) \<Rightarrow>
          (case unregisterProcess stamp victim (end_call i s) of (s, effects) \<Rightarrow> (begin_call (PlainStart None) s, effects, NoResponse))
      | Some (PreemptingSaved victim queueId attemptId l) \<Rightarrow>
          (case unregisterProcess stamp victim (end_call i s) of
             (s, effects) \<Rightarrow> (begin_call (Preempted queueId attemptId l) s, effects, NoResponse))
      | _ \<Rightarrow> (s, [], NoResponse))"

definition register_started :: "nat \<Rightarrow> string \<Rightarrow> ProcessState \<Rightarrow> 'p Supervisor \<Rightarrow> 'p Supervisor" where
  "register_started i pid st s =
     (let s' = s\<lparr>sv_processes := AList.update pid st (sv_processes s)\<rparr>
      in case map_of (sv_calls s) i of
           Some (QueueStart r slot None) \<Rightarrow>
             if la_creationFence r = None \<or> slot then set_call i (QueueStart r slot (Some pid)) s' else s
         | Some (SavedStart True None) \<Rightarrow> set_call i (SavedStart True (Some pid)) s'
         | Some (PlainStart None) \<Rightarrow> set_call i (PlainStart (Some pid)) s'
         | _ \<Rightarrow> s)"

text \<open>The \<open>finally\<close> block of \<open>runCreationAttempt\<close>.\<close>

definition slot_freed :: "nat \<Rightarrow> 'p Supervisor \<Rightarrow> 'p Supervisor" where
  "slot_freed i s =
     (let s' = s\<lparr>sv_pendingCreationStarts := sv_pendingCreationStarts s - 1, sv_microtasks := Suc (sv_microtasks s)\<rparr>
      in case map_of (sv_calls s) i of
           Some (QueueStart r True p) \<Rightarrow> set_call i (QueueStart r False p) s'
         | Some (SavedStart True p) \<Rightarrow> set_call i (SavedStart False p) s'
         | Some Copying \<Rightarrow> end_call i s'
         | _ \<Rightarrow> s)"

definition start_settled :: "nat \<Rightarrow> nat \<Rightarrow> outcome \<Rightarrow> 'p Supervisor \<Rightarrow> 'p Supervisor \<times> effect list" where
  "start_settled i now result s =
     (case map_of (sv_calls s) i of
        Some (QueueStart r False p) \<Rightarrow>
          (case result of
             Succeeded \<Rightarrow> (case p of Some pid \<Rightarrow> queued_started now r pid (end_call i s) | None \<Rightarrow> (s, []))
           | Failed reason retryable \<Rightarrow> queued_failed now r reason retryable (end_call i s))
      | Some (SavedStart False p) \<Rightarrow> (end_call i s, [])
      | Some (PlainStart p) \<Rightarrow> (end_call i s, [])
      | _ \<Rightarrow> (s, []))"

definition pool_step :: "'p Supervisor \<Rightarrow> 'p pool_event \<Rightarrow> 'p Supervisor \<times> effect list \<times> response" where
  "pool_step s e =
     (case e of
        StartSession queueId stamp gateway now l \<Rightarrow> startSession queueId stamp gateway now l s
      | ResumeSessionBy queueId stamp now sessionId l \<Rightarrow> resumeSession queueId stamp now sessionId l s
      | Activate i now \<Rightarrow>
          (if map_of (sv_calls s) i = Some Activating then activate now (end_call i s) else (s, [], NoResponse))
      | StartCreation queueId stamp attemptId now l \<Rightarrow> startCreation queueId stamp attemptId now l s
      | Aborted i stamp \<Rightarrow> victim_aborted i stamp s
      | GoOn i stamp \<Rightarrow>
          (case map_of (sv_calls s) i of
             Some (Preempted queueId attemptId l) \<Rightarrow> startSavedSessionOnce queueId stamp attemptId l (end_call i s)
           | _ \<Rightarrow> (s, [], NoResponse))
      | Registered i pid st \<Rightarrow> (register_started i pid st s, [], NoResponse)
      | SlotFreed i \<Rightarrow> (slot_freed i s, [], NoResponse)
      | Settled i now result \<Rightarrow> without_response (start_settled i now result s)
      | CallbackDone i stamp \<Rightarrow>
          (if map_of (sv_calls s) i = Some QueueCallback
           then without_response (processQueue_turn stamp (end_call i s)) else (s, [], NoResponse))
      | Microtask stamp \<Rightarrow>
          (if sv_microtasks s > 0
           then without_response (processQueue_turn stamp (s\<lparr>sv_microtasks := sv_microtasks s - 1\<rparr>))
           else (s, [], NoResponse))
      | Unregister pid stamp \<Rightarrow> without_response (unregisterProcess stamp pid s)
      | StateChanged pid st \<Rightarrow>
          (if pid \<in> fst ` set (sv_processes s)
           then (s\<lparr>sv_processes := AList.update pid st (sv_processes s)\<rparr>, [], NoResponse) else (s, [], NoResponse))
      | CancelQueued queueId stamp \<Rightarrow> without_response (snd (cancelQueuedRequest stamp queueId s))
      | StartCopy \<Rightarrow> startCopy s)"

definition pool_run :: "'p Supervisor \<Rightarrow> 'p pool_event list \<Rightarrow> 'p Supervisor" where
  "pool_run s es = foldl (\<lambda>s e. fst (pool_step s e)) s es"

definition pool_effects :: "'p Supervisor \<Rightarrow> 'p pool_event list \<Rightarrow> effect list" where
  "pool_effects s es = collect (\<lambda>s e. fst (pool_step s e)) (\<lambda>s e. fst (snd (pool_step s e))) s es"

text \<open>A new process has an id of its own.\<close>

definition fresh_process :: "'p Supervisor \<Rightarrow> 'p pool_event \<Rightarrow> bool" where
  "fresh_process s e = (case e of Registered i pid st \<Rightarrow> pid \<notin> fst ` set (sv_processes s) | _ \<Rightarrow> True)"

section \<open>Counting suspended invocations\<close>

definition weight :: "('p call \<Rightarrow> 'a) \<Rightarrow> 'p Supervisor \<Rightarrow> 'a :: comm_monoid_add" where
  "weight w s = sum_list (map (\<lambda>(_, c). w c) (sv_calls s))"

definition call_ids :: "'p Supervisor \<Rightarrow> nat list" where
  "call_ids s = map fst (sv_calls s)"

definition calls_wf :: "'p Supervisor \<Rightarrow> bool" where
  "calls_wf s = (distinct (call_ids s) \<and> (\<forall>i \<in> set (call_ids s). i < sv_nextCall s))"

lemma weight_begin [simp]: "weight w (begin_call c s) = weight w s + w c"
  by (simp add: weight_def begin_call_def)

lemma weight_set: "map_of (sv_calls s) i = Some c \<Longrightarrow> weight w (set_call i d s) + w c = weight w s + w d"
  unfolding weight_def set_call_def by (simp add: sum_list_AList_update)

lemma weight_end: "map_of (sv_calls s) i = Some c \<Longrightarrow> calls_wf s \<Longrightarrow> weight w (end_call i s) + w c = weight w s"
proof -
  have "map_of m i = Some c \<Longrightarrow> distinct (map fst m) \<Longrightarrow>
      sum_list (map (\<lambda>(_, c). w c) (AList.delete i m)) + w c = sum_list (map (\<lambda>(_, c). w c) m)" for m
    by (induction m) (auto simp: ac_simps dest: map_of_SomeD)
  then show "map_of (sv_calls s) i = Some c \<Longrightarrow> calls_wf s \<Longrightarrow> weight w (end_call i s) + w c = weight w s"
    unfolding weight_def end_call_def calls_wf_def call_ids_def by simp
qed

lemma weight_other [simp]:
  "weight w (s\<lparr>sv_workerQueue := q\<rparr>) = weight w s" "weight w (s\<lparr>sv_processes := ps\<rparr>) = weight w s"
  "weight w (s\<lparr>sv_pendingCreationStarts := n\<rparr>) = weight w s" "weight w (s\<lparr>sv_microtasks := k\<rparr>) = weight w s"
  by (simp_all add: weight_def)

lemma weight_call: "map_of (sv_calls s) i = Some c \<Longrightarrow> w c \<le> (weight w s :: nat)"
  unfolding weight_def by (force dest: map_of_SomeD intro: member_le_sum_list)

lemma call_fields [simp]:
  "sv_workerQueue (begin_call c s) = sv_workerQueue s" "sv_processes (begin_call c s) = sv_processes s"
  "sv_pendingCreationStarts (begin_call c s) = sv_pendingCreationStarts s" "sv_maxWorkers (begin_call c s) = sv_maxWorkers s"
  "sv_microtasks (begin_call c s) = sv_microtasks s"
  "sv_workerQueue (end_call i s) = sv_workerQueue s" "sv_processes (end_call i s) = sv_processes s"
  "sv_pendingCreationStarts (end_call i s) = sv_pendingCreationStarts s" "sv_maxWorkers (end_call i s) = sv_maxWorkers s"
  "sv_microtasks (end_call i s) = sv_microtasks s"
  "sv_workerQueue (set_call i c s) = sv_workerQueue s" "sv_processes (set_call i c s) = sv_processes s"
  "sv_pendingCreationStarts (set_call i c s) = sv_pendingCreationStarts s" "sv_maxWorkers (set_call i c s) = sv_maxWorkers s"
  "sv_microtasks (set_call i c s) = sv_microtasks s"
  by (simp_all add: begin_call_def end_call_def set_call_def)

lemma call_ids_simps:
  "call_ids (begin_call c s) = call_ids s @ [sv_nextCall s]" "call_ids (end_call i s) = filter (\<lambda>j. j \<noteq> i) (call_ids s)"
  "map_of (sv_calls s) i = Some d \<Longrightarrow> call_ids (set_call i c s) = call_ids s"
  "sv_nextCall (begin_call c s) = Suc (sv_nextCall s)" "sv_nextCall (end_call i s) = sv_nextCall s"
  "sv_nextCall (set_call i c s) = sv_nextCall s"
  by (simp_all add: call_ids_def begin_call_def end_call_def set_call_def AList_delete_keys AList_update_keys)

lemma calls_wf_begin [simp]: "calls_wf s \<Longrightarrow> calls_wf (begin_call c s)"
  by (auto simp: calls_wf_def call_ids_simps less_Suc_eq)

lemma calls_wf_end [simp]: "calls_wf s \<Longrightarrow> calls_wf (end_call i s)"
  by (simp add: calls_wf_def call_ids_simps)

lemma calls_wf_set: "calls_wf s \<Longrightarrow> map_of (sv_calls s) i = Some c \<Longrightarrow> calls_wf (set_call i d s)"
  by (simp add: calls_wf_def call_ids_simps)
lemma calls_wf_other [simp]:
  "calls_wf (s\<lparr>sv_workerQueue := q\<rparr>) = calls_wf s" "calls_wf (s\<lparr>sv_processes := ps\<rparr>) = calls_wf s"
  "calls_wf (s\<lparr>sv_pendingCreationStarts := n\<rparr>) = calls_wf s" "calls_wf (s\<lparr>sv_microtasks := k\<rparr>) = calls_wf s"
  by (simp_all add: calls_wf_def call_ids_def)

text \<open>
  What a step comes down to. Every event is one of these: the queue alone changes; invocations and
  processes change, but not the queue; or one of these followed by a turn of the queue.
\<close>

definition starting_ids :: "'p call \<Rightarrow> string multiset" where
  "starting_ids c = (case c of QueueStart r _ _ \<Rightarrow> {#qr_id r#} | _ \<Rightarrow> {#})"

lemma starting_ids_simps [simp]:
  "starting_ids (QueueStart r slot p) = {#qr_id r#}" "starting_ids QueueCallback = {#}" "starting_ids (SavedStart slot p) = {#}"
  "starting_ids (PlainStart p) = {#}" "starting_ids Activating = {#}" "starting_ids (PreemptingPlain victim) = {#}"
  "starting_ids (PreemptingSaved victim queueId attemptId l) = {#}" "starting_ids (Preempted queueId attemptId l) = {#}"
  "starting_ids Copying = {#}"
  by (simp_all add: starting_ids_def)

definition held :: "'p Supervisor \<Rightarrow> string multiset" where
  "held s = mset (waiting_ids (sv_workerQueue s)) + weight starting_ids s"

fun resolves :: "effect \<Rightarrow> string option" where
  "resolves (Resolve i _) = Some i"
| "resolves _ = None"

definition resolved :: "effect list \<Rightarrow> string multiset" where
  "resolved effects = mset (List.map_filter resolves effects)"

definition newly_queued :: "response \<Rightarrow> string list" where
  "newly_queued x = (case x of NewlyQueued i _ \<Rightarrow> [i] | _ \<Rightarrow> [])"

lemma resolved_simps [simp]:
  "resolved [] = {#}" "resolved (xs @ ys) = resolved xs + resolved ys"
  "resolved (Resolve i x # xs) = add_mset i (resolved xs)" "resolved (Emit e # xs) = resolved xs"
  "resolved (CallStarted i p # xs) = resolved xs" "resolved (CallFailed i y # xs) = resolved xs"
  "resolved (CallRetryable i y # xs) = resolved xs"
  by (simp_all add: resolved_def List.map_filter_def)

lemma resolved_bus [simp]: "resolved (bus_emit wq e) = {#}"
  by (simp add: bus_emit_def)

lemma resolved_updates [simp]: "resolved (emitPositionUpdates stamp wq) = {#}"
proof -
  have "resolved (concat (map (\<lambda>(i, r). bus_emit wq (PositionChanged (qr_id r) (la_sessionId r) (i + 1) (stamp (i + 1)))) xs)) = {#}" for xs
    by (induction xs) auto
  then show ?thesis by (simp add: emitPositionUpdates_def)
qed

lemma held_turn:
  "processQueue_turn stamp s = (s', effects) \<Longrightarrow> held s' + resolved effects = held s"
  by (auto simp: processQueue_turn_def dequeue_def held_def waiting_ids_def queued_failed_def Let_def isEmpty_def
      split: if_splits list.splits)

lemma turn_calls: "processQueue_turn stamp s = (s', effects) \<Longrightarrow> calls_wf s \<Longrightarrow> calls_wf s'"
  by (auto simp: processQueue_turn_def dequeue_def queued_failed_def Let_def split: if_splits list.splits)

section \<open>No request is lost\<close>

definition accounts :: "'p Supervisor \<Rightarrow> 'p Supervisor \<times> effect list \<times> response \<Rightarrow> bool" where
  "accounts s x =
     (calls_wf (fst x) \<and> held (fst x) + resolved (fst (snd x)) = held s + mset (newly_queued (snd (snd x))))"

lemma accounts_unchanged [simp]: "calls_wf s \<Longrightarrow> accounts s (s, [], NoResponse)" "calls_wf s \<Longrightarrow> accounts s (s, [], Thrown)"
  "calls_wf s \<Longrightarrow> accounts s (s, [], RefusedFull m)" "calls_wf s \<Longrightarrow> accounts s (s, [], AlreadyQueued i p)"
  by (simp_all add: accounts_def newly_queued_def)

lemma accounts_go_on: "calls_wf s \<Longrightarrow> starting_ids c = {#} \<Longrightarrow> accounts s (go_on c s)"
  by (simp add: accounts_def go_on_def newly_queued_def held_def)

lemma accounts_put: "calls_wf s \<Longrightarrow> accounts s (put_in_queue queueId stamp l s)"
  by (auto simp: accounts_def put_in_queue_def enqueue_def newly_queued_def held_def waiting_ids_def emitQueueAdded_def Let_def
      split: if_splits)

lemma held_end: "map_of (sv_calls s) i = Some c \<Longrightarrow> calls_wf s \<Longrightarrow> held (end_call i s) + starting_ids c = held s"
  using weight_end [of s i c starting_ids] by (simp add: held_def add.assoc)

lemma held_set: "map_of (sv_calls s) i = Some c \<Longrightarrow> starting_ids d = starting_ids c \<Longrightarrow> held (set_call i d s) = held s"
  using weight_set [of s i c starting_ids d] by (simp add: held_def)

lemma held_other [simp]:
  "held (s\<lparr>sv_processes := ps\<rparr>) = held s" "held (s\<lparr>sv_pendingCreationStarts := n\<rparr>) = held s"
  "held (s\<lparr>sv_microtasks := k\<rparr>) = held s" "held (begin_call c s) = held s + starting_ids c"
  by (simp_all add: held_def add.assoc)

lemma accounts_turn: "calls_wf s' \<Longrightarrow> held s' = held s \<Longrightarrow> accounts s (without_response (processQueue_turn stamp s'))"
  by (cases "processQueue_turn stamp s'")
     (simp add: accounts_def without_response_def newly_queued_def held_turn turn_calls)

lemma accounts_unregister: "calls_wf s' \<Longrightarrow> held s' = held s \<Longrightarrow> accounts s (without_response (unregisterProcess stamp pid s'))"
  by (simp add: unregisterProcess_def accounts_turn)
     (simp add: accounts_def without_response_def newly_queued_def)

lemma accounts_saved: "calls_wf s \<Longrightarrow> accounts s (startSavedSessionOnce queueId stamp attemptId l s)"
  using accounts_go_on [of "s\<lparr>sv_pendingCreationStarts := Suc (sv_pendingCreationStarts s)\<rparr>" "SavedStart True None"]
  by (simp add: startSavedSessionOnce_def accounts_put accounts_def [of _ "go_on _ _"] split: option.split)

lemma accounts_settled: "calls_wf s \<Longrightarrow> accounts s (without_response (start_settled i now result s))"
  by (auto simp: accounts_def without_response_def start_settled_def newly_queued_def queued_started_def queued_failed_def
      split: option.split call.split bool.split outcome.split dest!: held_end)

lemma mset_without_nth: "k < length xs \<Longrightarrow> add_mset (xs ! k) (mset (take k xs @ drop (Suc k) xs)) = mset xs"
  by (metis add_mset_add_single id_take_nth_drop mset_append mset.simps(2) union_mset_add_mset_right)

lemma accounts_cancel: "calls_wf s \<Longrightarrow> accounts s (without_response (snd (cancelQueuedRequest stamp queueId s)))"
proof (cases "find_index (\<lambda>r. qr_id r = queueId) (wq_queue (sv_workerQueue s))")
  case (Some k)
  assume wf: "calls_wf s"
  let ?q = "wq_queue (sv_workerQueue s)"
  have "k < length ?q" using Some by (simp add: find_index_Some)
  then have "add_mset (qr_id (?q ! k)) (mset (map qr_id (take k ?q @ drop (Suc k) ?q))) = mset (map qr_id ?q)"
    using mset_without_nth [of k "map qr_id ?q"] by (simp add: take_map drop_map)
  with wf Some show ?thesis
    by (simp add: accounts_def without_response_def cancelQueuedRequest_def cancel_def Let_def newly_queued_def held_def waiting_ids_def
        emitQueueRemoved_def)
qed (simp add: accounts_def without_response_def cancelQueuedRequest_def cancel_def newly_queued_def)

lemma accounts_register: "calls_wf s \<Longrightarrow> accounts s (register_started i pid st s, [], NoResponse)"
  by (auto simp: accounts_def register_started_def newly_queued_def Let_def held_set calls_wf_set
      split: option.split call.split bool.split)

lemma accounts_slot: "calls_wf s \<Longrightarrow> accounts s (slot_freed i s, [], NoResponse)"
  using held_end [of "s\<lparr>sv_pendingCreationStarts := sv_pendingCreationStarts s - Suc 0, sv_microtasks := Suc (sv_microtasks s)\<rparr>" i Copying]
  by (auto simp: accounts_def slot_freed_def newly_queued_def Let_def held_set calls_wf_set
      split: option.split call.split bool.split)

lemma accounts_copy: "calls_wf s \<Longrightarrow> accounts s (startCopy s)"
  using accounts_go_on [of "s\<lparr>sv_pendingCreationStarts := Suc (sv_pendingCreationStarts s)\<rparr>" Copying]
  by (simp add: startCopy_def accounts_def)

lemma accounts_victim:
  assumes "calls_wf s"
  shows "accounts s (victim_aborted i stamp s)"
proof -
  have again: "accounts s (case unregisterProcess stamp victim (end_call i s) of (s, effects) \<Rightarrow> (begin_call c s, effects, NoResponse))"
    if "map_of (sv_calls s) i = Some d" "starting_ids d = {#}" "starting_ids c = {#}" for victim c d
  proof -
    have "held (end_call i s) = held s" using held_end [OF that(1) assms] that(2) by simp
    then have "accounts s (without_response (unregisterProcess stamp victim (end_call i s)))"
      using accounts_unregister [of "end_call i s" s] assms by simp
    then show ?thesis using that(3)
      by (cases "unregisterProcess stamp victim (end_call i s)") (simp add: accounts_def without_response_def)
  qed
  show ?thesis
  proof (cases "map_of (sv_calls s) i")
    case (Some d)
    show ?thesis
    proof (cases d)
      case (PreemptingPlain victim)
      have "accounts s (case unregisterProcess stamp victim (end_call i s) of
          (s, effects) \<Rightarrow> (begin_call (PlainStart None) s, effects, NoResponse))"
        by (rule again [OF Some]) (simp_all add: PreemptingPlain)
      with Some PreemptingPlain show ?thesis by (simp only: victim_aborted_def option.case call.case)
    next
      case (PreemptingSaved victim queueId attemptId l)
      have "accounts s (case unregisterProcess stamp victim (end_call i s) of
          (s, effects) \<Rightarrow> (begin_call (Preempted queueId attemptId l) s, effects, NoResponse))"
        by (rule again [OF Some]) (simp_all add: PreemptingSaved)
      with Some PreemptingSaved show ?thesis by (simp only: victim_aborted_def option.case call.case)
    qed (simp_all add: victim_aborted_def Some assms)
  qed (simp add: victim_aborted_def assms)
qed

lemma accounts_shift: "held s' = held s \<Longrightarrow> accounts s' x \<Longrightarrow> accounts s x"
  by (simp add: accounts_def)

lemma accounts_step:
  assumes wf: "calls_wf s"
  shows "accounts s (pool_step s e)"
proof (cases e)
  case (StartSession queueId stamp gateway now l)
  then show ?thesis using wf
    by (simp add: pool_step_def startSession_def accounts_put accounts_go_on split: option.split)
next
  case (ResumeSessionBy queueId stamp now sessionId l)
  then show ?thesis using wf
    by (simp add: pool_step_def resumeSession_def accounts_put accounts_go_on split: option.split)
next
  case (Activate i now)
  show ?thesis
  proof (cases "map_of (sv_calls s) i = Some Activating")
    case True
    have "accounts (end_call i s) (activate now (end_call i s))" using wf
      by (simp add: activate_def accounts_go_on split: option.split)
    moreover have "held (end_call i s) = held s" using held_end [OF True wf] by simp
    ultimately have "accounts s (activate now (end_call i s))" using accounts_shift by blast
    then show ?thesis using Activate True by (simp add: pool_step_def)
  qed (simp add: pool_step_def Activate wf)
next
  case (StartCreation queueId stamp attemptId now l)
  then show ?thesis using wf
    by (simp add: pool_step_def startCreation_def accounts_saved accounts_go_on split: option.split)
next
  case (GoOn i stamp)
  have "accounts s (startSavedSessionOnce queueId stamp attemptId l (end_call i s))"
    if "map_of (sv_calls s) i = Some (Preempted queueId attemptId l)" for queueId attemptId l
  proof (rule accounts_shift)
    show "held (end_call i s) = held s" using held_end [OF that wf] by simp
    show "accounts (end_call i s) (startSavedSessionOnce queueId stamp attemptId l (end_call i s))"
      by (rule accounts_saved) (simp add: wf)
  qed
  then show ?thesis using GoOn wf by (simp add: pool_step_def split: option.split call.split)
next
  case (CallbackDone i stamp)
  show ?thesis
  proof (cases "map_of (sv_calls s) i = Some QueueCallback")
    case True
    have "held (end_call i s) = held s" using held_end [OF True wf] by simp
    then show ?thesis using CallbackDone True wf by (simp add: pool_step_def accounts_turn)
  qed (simp add: pool_step_def CallbackDone wf)
next
  case (StateChanged pid st)
  have "accounts s (s\<lparr>sv_processes := ps\<rparr>, [], NoResponse)" for ps
    by (simp add: accounts_def newly_queued_def wf)
  then show ?thesis using wf by (simp add: pool_step_def StateChanged)
next
  case (Microtask stamp)
  then show ?thesis using wf by (simp add: pool_step_def accounts_turn)
next
  case (Unregister pid stamp)
  then show ?thesis using wf by (simp add: pool_step_def accounts_unregister)
next
  case (CancelQueued queueId stamp)
  then show ?thesis using wf by (simp add: pool_step_def accounts_cancel)
next
  case (Settled i now result)
  then show ?thesis using wf by (simp add: pool_step_def accounts_settled)
next
  case (SlotFreed i)
  then show ?thesis using wf by (simp add: pool_step_def accounts_slot)
next
  case (Registered i pid st)
  then show ?thesis using wf by (simp add: pool_step_def accounts_register)
next
  case StartCopy
  then show ?thesis using wf by (simp add: pool_step_def accounts_copy)
next
  case (Aborted i stamp)
  then show ?thesis using wf by (simp add: pool_step_def accounts_victim)
qed

lemma passed_on: "a' + r = a + n \<Longrightarrow> a + x = c \<Longrightarrow> a' + (x + r) = c + (n :: 'i multiset)"
  by (metis add.assoc add.commute)

definition pool_accepted :: "'p Supervisor \<Rightarrow> 'p pool_event list \<Rightarrow> string list" where
  "pool_accepted s es = collect (\<lambda>s e. fst (pool_step s e)) (\<lambda>s e. newly_queued (snd (snd (pool_step s e)))) s es"

interpretation pool_calls: invariant_machine "\<lambda>s e. fst (pool_step s e)" "\<lambda>_ _. True"
    "newSupervisor bus limit maxWorkers threshold" calls_wf
proof
  show "calls_wf (newSupervisor bus limit maxWorkers threshold)" by (simp add: newSupervisor_def calls_wf_def call_ids_def)
  show "calls_wf (fst (pool_step s e))" if "calls_wf s" for s :: "'a Supervisor" and e
    using accounts_step [OF that, of e] by (simp add: accounts_def)
qed

text \<open>
  C17 No queued launch is lost and none is answered twice. After any history of the worker pool, with
  whatever interleaving of starts, failures, preemptions and cancellations, every request that was
  ever queued is in exactly one place: it waits in the queue, a turn of the queue is starting it, or
  its promise has been settled, once.
\<close>
theorem no_request_lost:
  "mset (pool_accepted (newSupervisor bus limit maxWorkers threshold) es) =
     mset (waiting_ids (sv_workerQueue (pool_run (newSupervisor bus limit maxWorkers threshold) es))) +
     weight starting_ids (pool_run (newSupervisor bus limit maxWorkers threshold) es) +
     resolved (pool_effects (newSupervisor bus limit maxWorkers threshold) es)"
proof -
  let ?s0 = "newSupervisor bus limit maxWorkers threshold"
  have "held (pool_run ?s0 es) + resolved (pool_effects ?s0 es) = mset (pool_accepted ?s0 es)"
  proof (induction es rule: rev_induct)
    case Nil
    show ?case by (simp add: pool_run_def pool_effects_def pool_accepted_def held_def waiting_ids_def weight_def
        newSupervisor_def newWorkerQueue_def)
  next
    case (snoc e es)
    let ?s = "pool_run ?s0 es"
    let ?s' = "fst (pool_step ?s e)" and ?r = "resolved (fst (snd (pool_step ?s e)))"
    have "accounts ?s (pool_step ?s e)" by (rule accounts_step) (simp add: pool_run_def pool_calls.inv_run)
    then have "held ?s' + ?r = held ?s + mset (newly_queued (snd (snd (pool_step ?s e))))" by (simp add: accounts_def)
    from passed_on [OF this snoc] show ?case by (simp add: pool_run_def pool_effects_def pool_accepted_def)
  qed
  then show ?thesis by (simp add: held_def)
qed

section \<open>The queue never stalls\<close>

definition slot_held :: "'p call \<Rightarrow> nat" where
  "slot_held c = (case c of QueueStart _ slot _ \<Rightarrow> of_bool slot | SavedStart slot _ \<Rightarrow> of_bool slot | Copying \<Rightarrow> 1 | _ \<Rightarrow> 0)"

text \<open>The slots of launches, which are only given out below the limit; copies take theirs without asking.\<close>

definition launching :: "'p call \<Rightarrow> nat" where
  "launching c = (case c of QueueStart _ slot _ \<Rightarrow> of_bool slot | SavedStart slot _ \<Rightarrow> of_bool slot | _ \<Rightarrow> 0)"

text \<open>Invocations of \<open>processQueue\<close> that will take another turn.\<close>

definition serving :: "'p call \<Rightarrow> nat" where
  "serving c = (case c of QueueStart _ _ _ \<Rightarrow> 1 | QueueCallback \<Rightarrow> 1 | _ \<Rightarrow> 0)"

lemma call_weights [simp]:
  "slot_held (QueueStart r slot p) = of_bool slot" "slot_held QueueCallback = 0" "slot_held (SavedStart slot p) = of_bool slot"
  "slot_held (PlainStart p) = 0" "slot_held Activating = 0" "slot_held (PreemptingPlain victim) = 0"
  "slot_held (PreemptingSaved victim queueId attemptId l) = 0" "slot_held (Preempted queueId attemptId l) = 0"
  "serving (QueueStart r slot p) = 1" "serving QueueCallback = 1" "serving (SavedStart slot p) = 0"
  "serving (PlainStart p) = 0" "serving Activating = 0" "serving (PreemptingPlain victim) = 0"
  "serving (PreemptingSaved victim queueId attemptId l) = 0" "serving (Preempted queueId attemptId l) = 0"
  "slot_held Copying = 1" "serving Copying = 0"
  "launching (QueueStart r slot p) = of_bool slot" "launching QueueCallback = 0" "launching (SavedStart slot p) = of_bool slot"
  "launching (PlainStart p) = 0" "launching Activating = 0" "launching (PreemptingPlain victim) = 0"
  "launching (PreemptingSaved victim queueId attemptId l) = 0" "launching (Preempted queueId attemptId l) = 0"
  "launching Copying = 0"
  by (simp_all add: slot_held_def serving_def launching_def)

lemma weight_mono: "(\<And>c. w c \<le> (v c :: nat)) \<Longrightarrow> weight w s \<le> weight v s"
  unfolding weight_def by (rule sum_list_mono) auto

lemma launching_held: "launching c \<le> slot_held c"
  by (cases c) auto

lemma launching_le: "weight launching s \<le> weight slot_held s"
  by (rule weight_mono [OF launching_held])

definition slots_ok :: "'p Supervisor \<Rightarrow> bool" where
  "slots_ok s = (calls_wf s \<and> sv_pendingCreationStarts s = weight slot_held s \<and> weight launching s \<le> 16)"

definition flows :: "'p Supervisor \<Rightarrow> bool" where
  "flows s = (\<not> isEmpty (sv_workerQueue s) \<longrightarrow> isAtCreationCapacity s \<or> sv_microtasks s > 0 \<or> weight serving s > 0)"

lemma at_capacity: "isAtCapacity s \<Longrightarrow> isAtCreationCapacity s"
  by (auto simp: isAtCapacity_def isAtCreationCapacity_def split: if_splits)

lemma creation_capacity_other [simp]:
  "isAtCreationCapacity (s\<lparr>sv_workerQueue := q\<rparr>) = isAtCreationCapacity s"
  "isAtCreationCapacity (s\<lparr>sv_microtasks := k\<rparr>) = isAtCreationCapacity s"
  "isAtCreationCapacity (begin_call c s) = isAtCreationCapacity s"
  "isAtCreationCapacity (end_call i s) = isAtCreationCapacity s"
  "isAtCreationCapacity (set_call i c s) = isAtCreationCapacity s"
  by (simp_all add: isAtCreationCapacity_def)

lemma slots_turn: "slots_ok s \<Longrightarrow> slots_ok (fst (processQueue_turn stamp s)) \<and> flows (fst (processQueue_turn stamp s))"
  using launching_le [of s]
  by (auto simp: slots_ok_def flows_def processQueue_turn_def dequeue_def queued_failed_def Let_def isEmpty_def queue_length_def
      isAtCreationCapacity_def split: list.splits)

definition sound :: "'p Supervisor \<Rightarrow> bool" where
  "sound s = (slots_ok s \<and> flows s)"

lemma sound_turn: "slots_ok s \<Longrightarrow> sound (fst (processQueue_turn stamp s))"
  using slots_turn unfolding sound_def by blast

lemma sound_go_on: "sound s \<Longrightarrow> slot_held c = 0 \<Longrightarrow> sound (begin_call c s)"
  using launching_held [of c]
  by (auto simp: sound_def slots_ok_def flows_def)

lemma sound_put: "sound s \<Longrightarrow> isAtCreationCapacity s \<Longrightarrow> sound (fst (put_in_queue queueId stamp l s))"
  by (auto simp: sound_def slots_ok_def flows_def put_in_queue_def split: prod.split EnqueueResult.split)

lemma sound_end:
  assumes "sound s" "map_of (sv_calls s) i = Some c" "slot_held c = 0" "serving c = 0"
  shows "sound (end_call i s)"
  using assms weight_end [OF assms(2), of slot_held] weight_end [OF assms(2), of launching] weight_end [OF assms(2), of serving]
  by (auto simp: sound_def slots_ok_def flows_def)

lemma slots_end: "slots_ok s \<Longrightarrow> map_of (sv_calls s) i = Some c \<Longrightarrow> slot_held c = 0 \<Longrightarrow> slots_ok (end_call i s)"
  using weight_end [of s i c slot_held] weight_end [of s i c launching] by (auto simp: slots_ok_def)

lemma sound_slots: "sound s \<Longrightarrow> slots_ok s"
  by (simp add: sound_def)

lemma slots_other [simp]:
  "slots_ok (s\<lparr>sv_workerQueue := q\<rparr>) = slots_ok s" "slots_ok (s\<lparr>sv_processes := ps\<rparr>) = slots_ok s"
  "slots_ok (s\<lparr>sv_microtasks := k\<rparr>) = slots_ok s"
  by (simp_all add: slots_ok_def)

lemma sound_processes:
  "sound s \<Longrightarrow> length ps \<ge> length (sv_processes s) \<Longrightarrow> sound (s\<lparr>sv_processes := ps\<rparr>)"
  by (auto simp: sound_def flows_def isAtCreationCapacity_def)

lemma sound_unregister: "sound s \<Longrightarrow> sound (fst (unregisterProcess stamp pid s))"
  by (simp add: unregisterProcess_def sound_turn sound_slots)

lemma sound_saved: "sound s \<Longrightarrow> sound (fst (startSavedSessionOnce queueId stamp attemptId l s))"
proof (cases "findByCreationAttempt attemptId (sv_workerQueue s) = None \<and> \<not> isAtCreationCapacity s")
  case True
  assume "sound s"
  moreover have "sv_pendingCreationStarts s < 16" using True by (simp add: isAtCreationCapacity_def)
  ultimately show ?thesis using True launching_le [of s]
    by (auto simp: startSavedSessionOnce_def go_on_def sound_def slots_ok_def flows_def isAtCreationCapacity_def)
qed (auto simp: startSavedSessionOnce_def sound_put split: option.split)

lemma sound_set:
  assumes "sound s" "map_of (sv_calls s) i = Some c" "slot_held d = slot_held c" "launching d = launching c" "serving d = serving c"
  shows "sound (set_call i d s)"
  using assms weight_set [OF assms(2), of slot_held d] weight_set [OF assms(2), of launching d] weight_set [OF assms(2), of serving d]
  by (auto simp: sound_def slots_ok_def flows_def calls_wf_set)

lemma sound_register: "sound s \<Longrightarrow> sound (register_started i pid st s)"
proof -
  assume s: "sound s"
  let ?s = "s\<lparr>sv_processes := AList.update pid st (sv_processes s)\<rparr>"
  have "sound ?s" using s by (rule sound_processes) (simp add: length_update)
  note set = sound_set [OF this]
  show ?thesis
    by (auto simp: register_started_def Let_def s intro!: set split: option.split call.split bool.split)
qed

lemma slots_freed: "slots_ok s \<Longrightarrow> slots_ok (slot_freed i s)"
proof -
  assume s: "slots_ok s"
  have freed: "slots_ok (set_call i d (s\<lparr>sv_pendingCreationStarts := sv_pendingCreationStarts s - Suc 0, sv_microtasks := Suc (sv_microtasks s)\<rparr>))"
    if c: "map_of (sv_calls s) i = Some c" "slot_held c = 1" "slot_held d = 0" for c d
  proof -
    have "weight slot_held (set_call i d s) + 1 = weight slot_held s"
      using weight_set [OF c(1), of slot_held d] c(2,3) by simp
    moreover have "weight launching (set_call i d s) \<le> weight launching s"
      using weight_set [OF c(1), of launching d] launching_held [of d] c(3) by simp
    moreover have "weight w (set_call i d (s\<lparr>sv_pendingCreationStarts := n, sv_microtasks := k\<rparr>)) = weight w (set_call i d s)"
      for w :: "'a call \<Rightarrow> nat" and n k by (simp add: weight_def set_call_def)
    ultimately show ?thesis using s c(1)
      by (auto simp: slots_ok_def intro!: calls_wf_set [of _ _ c])
  qed
  have copied: "slots_ok (end_call i (s\<lparr>sv_pendingCreationStarts := sv_pendingCreationStarts s - Suc 0, sv_microtasks := Suc (sv_microtasks s)\<rparr>))"
    if c: "map_of (sv_calls s) i = Some Copying"
  proof -
    let ?t = "s\<lparr>sv_pendingCreationStarts := sv_pendingCreationStarts s - Suc 0, sv_microtasks := Suc (sv_microtasks s)\<rparr>"
    have "map_of (sv_calls ?t) i = Some Copying" "calls_wf ?t" using c s by (simp_all add: slots_ok_def)
    from weight_end [OF this, of slot_held] weight_end [OF this, of launching] s show ?thesis
      by (auto simp: slots_ok_def)
  qed
  show ?thesis
    by (auto simp: slot_freed_def Let_def s intro!: freed copied split: option.split call.split bool.split)
qed

lemma sound_slot_freed: "sound s \<Longrightarrow> sound (slot_freed i s)"
  using slots_freed [of s i]
  by (auto simp: sound_def slot_freed_def flows_def Let_def split: option.split call.split bool.split)
lemma sound_settled: "sound s \<Longrightarrow> sound (fst (start_settled i now result s))"
proof -
  assume s: "sound s"
  have again: "sound (begin_call QueueCallback (end_call i s))"
    if c: "map_of (sv_calls s) i = Some (QueueStart r False p)" for r p
    using slots_end [OF sound_slots [OF s] c] by (simp add: sound_def flows_def) (simp add: slots_ok_def)
  show ?thesis
  proof (cases "map_of (sv_calls s) i")
    case (Some c)
    show ?thesis
    proof (cases c)
      case (QueueStart r slot p)
      with Some again [of r p] s show ?thesis
        by (cases slot)
           (auto simp: start_settled_def queued_started_def queued_failed_def split: outcome.split option.split)
    next
      case (SavedStart slot p)
      with Some s sound_end [OF s Some] show ?thesis by (cases slot) (simp_all add: start_settled_def)
    next
      case (PlainStart p)
      with Some sound_end [OF s Some] show ?thesis by (simp add: start_settled_def)
    qed (simp_all add: start_settled_def Some s)
  qed (simp add: start_settled_def s)
qed

lemma sound_victim: "sound s \<Longrightarrow> sound (fst (victim_aborted i stamp s))"
proof -
  assume s: "sound s"
  have again: "sound (fst (case unregisterProcess stamp victim (end_call i s) of (s, effects) \<Rightarrow> (begin_call c s, effects, NoResponse)))"
    if "map_of (sv_calls s) i = Some d" "slot_held d = 0" "serving d = 0" "slot_held c = 0" for victim c d
  proof -
    have "sound (fst (unregisterProcess stamp victim (end_call i s)))"
      by (rule sound_unregister [OF sound_end [OF s that(1-3)]])
    from sound_go_on [OF this that(4)] show ?thesis by (simp add: case_prod_unfold)
  qed
  show ?thesis
  proof (cases "map_of (sv_calls s) i")
    case (Some d)
    show ?thesis
    proof (cases d)
      case (PreemptingPlain victim)
      with Some again [OF Some, of "PlainStart None" victim] show ?thesis
        by (simp only: victim_aborted_def option.case call.case call_weights simp_thms)
    next
      case (PreemptingSaved victim queueId attemptId l)
      with Some again [OF Some, of "Preempted queueId attemptId l" victim] show ?thesis
        by (simp only: victim_aborted_def option.case call.case call_weights simp_thms)
    qed (simp_all add: victim_aborted_def Some s)
  qed (simp add: victim_aborted_def s)
qed

lemma sound_cancel: "sound s \<Longrightarrow> sound (fst (snd (cancelQueuedRequest stamp queueId s)))"
proof -
  have "\<not> isEmpty (fst (snd (cancel stamp queueId wq))) \<Longrightarrow> \<not> isEmpty wq" for wq :: "'a WorkerQueue"
    by (auto simp: cancel_def isEmpty_def queue_length_def Let_def split: option.splits)
  then show "sound s \<Longrightarrow> ?thesis"
    by (auto simp: cancelQueuedRequest_def sound_def flows_def split: prod.split)
qed

lemma sound_copy: "sound s \<Longrightarrow> sound (fst (startCopy s))"
  by (auto simp: startCopy_def go_on_def sound_def slots_ok_def flows_def isAtCreationCapacity_def)

lemma sound_step:
  assumes s: "sound s"
  shows "sound (fst (pool_step s e))"
proof (cases e)
  case (StartSession queueId stamp gateway now l)
  with s show ?thesis
    by (simp add: pool_step_def startSession_def go_on_def sound_put sound_go_on at_capacity split: option.split)
next
  case (ResumeSessionBy queueId stamp now sessionId l)
  with s show ?thesis
    by (simp add: pool_step_def resumeSession_def go_on_def sound_put sound_go_on at_capacity split: option.split)
next
  case (Activate i now)
  show ?thesis
  proof (cases "map_of (sv_calls s) i = Some Activating")
    case True
    from sound_end [OF s True] have "sound (end_call i s)" by simp
    then have "sound (fst (activate now (end_call i s)))"
      by (simp add: activate_def go_on_def sound_go_on split: option.split)
    with Activate True show ?thesis by (simp add: pool_step_def)
  qed (simp add: pool_step_def Activate s)
next
  case (StartCreation queueId stamp attemptId now l)
  with s show ?thesis
    by (simp add: pool_step_def startCreation_def go_on_def sound_saved sound_go_on split: option.split)
next
  case (GoOn i stamp)
  have "sound (fst (startSavedSessionOnce queueId stamp attemptId l (end_call i s)))"
    if "map_of (sv_calls s) i = Some (Preempted queueId attemptId l)" for queueId attemptId l
    using sound_end [OF s that] sound_saved by simp
  with GoOn s show ?thesis by (simp add: pool_step_def split: option.split call.split)
next
  case (CallbackDone i stamp)
  have "sound (fst (processQueue_turn stamp (end_call i s)))" if "map_of (sv_calls s) i = Some QueueCallback"
    using sound_turn [OF slots_end [OF sound_slots [OF s] that]] by simp
  with CallbackDone s show ?thesis by (simp add: pool_step_def without_response_def)
next
  case (Microtask stamp)
  have "sound (fst (processQueue_turn stamp (s\<lparr>sv_microtasks := k\<rparr>)))" for k
    using s by (simp add: sound_turn sound_slots)
  with Microtask s show ?thesis by (simp add: pool_step_def without_response_def)
next
  case (StateChanged pid st)
  have "sound (s\<lparr>sv_processes := AList.update pid st (sv_processes s)\<rparr>)"
    using s by (rule sound_processes) (simp add: length_update)
  with StateChanged s show ?thesis by (simp add: pool_step_def)
qed (use s in \<open>simp_all add: pool_step_def without_response_def sound_victim sound_register sound_slot_freed sound_settled
    sound_unregister sound_cancel sound_copy\<close>)

interpretation worker_pool: invariant_machine "\<lambda>s e. fst (pool_step s e)" "\<lambda>_ _. True"
    "newSupervisor bus limit maxWorkers threshold" sound
proof
  show "sound (newSupervisor bus limit maxWorkers threshold)"
    by (simp add: sound_def slots_ok_def flows_def calls_wf_def call_ids_def newSupervisor_def newWorkerQueue_def isEmpty_def
        queue_length_def weight_def)
qed (rule sound_step)

text \<open>
  C18 The queue never stalls. After any history, either nothing waits, or creation is at capacity, or
  some invocation of \<open>processQueue\<close> is under way or scheduled and will look at the queue again. The
  creation slots counted are those that suspended launches and transcript copies hold; launches never
  hold more than 16 of them (copies take a slot without asking, so that all together can be more).
\<close>
theorem queue_never_stalls:
  "(isEmpty (sv_workerQueue (pool_run (newSupervisor bus limit maxWorkers threshold) es)) \<or>
    isAtCreationCapacity (pool_run (newSupervisor bus limit maxWorkers threshold) es) \<or>
    sv_microtasks (pool_run (newSupervisor bus limit maxWorkers threshold) es) > 0 \<or>
    weight serving (pool_run (newSupervisor bus limit maxWorkers threshold) es) > 0) \<and>
   sv_pendingCreationStarts (pool_run (newSupervisor bus limit maxWorkers threshold) es) =
     weight slot_held (pool_run (newSupervisor bus limit maxWorkers threshold) es) \<and>
   weight launching (pool_run (newSupervisor bus limit maxWorkers threshold) es) \<le> 16"
proof -
  have "sound (pool_run (newSupervisor bus limit maxWorkers threshold) es)"
    unfolding pool_run_def by (rule worker_pool.inv_run) simp
  then show ?thesis by (auto simp: sound_def flows_def slots_ok_def)
qed

section \<open>The limit on workers\<close>

definition unregistered :: "'p call \<Rightarrow> nat" where
  "unregistered c = (case c of QueueStart _ True None \<Rightarrow> 1 | SavedStart True None \<Rightarrow> 1 | _ \<Rightarrow> 0)"

text \<open>Invocations that start a provider without a creation slot.\<close>

definition unsaved :: "'p call \<Rightarrow> nat" where
  "unsaved c =
     (case c of QueueStart r _ _ \<Rightarrow> of_bool (la_creationFence r = None) | PlainStart _ \<Rightarrow> 1 | Activating \<Rightarrow> 1
      | PreemptingPlain _ \<Rightarrow> 1 | _ \<Rightarrow> 0)"

lemma limit_weights [simp]:
  "unregistered (QueueStart r slot p) = of_bool (slot \<and> p = None)" "unregistered QueueCallback = 0"
  "unregistered (SavedStart slot p) = of_bool (slot \<and> p = None)" "unregistered (PlainStart p) = 0" "unregistered Activating = 0"
  "unregistered (PreemptingPlain victim) = 0" "unregistered (PreemptingSaved victim queueId attemptId l) = 0"
  "unregistered (Preempted queueId attemptId l) = 0"
  "unsaved (QueueStart r slot p) = of_bool (la_creationFence r = None)" "unsaved QueueCallback = 0" "unsaved (SavedStart slot p) = 0"
  "unsaved (PlainStart p) = 1" "unsaved Activating = 1" "unsaved (PreemptingPlain victim) = 1"
  "unsaved (PreemptingSaved victim queueId attemptId l) = 0" "unsaved (Preempted queueId attemptId l) = 0"
  "unregistered Copying = 0" "unsaved Copying = 0"
  by (simp_all add: unregistered_def unsaved_def split: option.split bool.split)

lemma unregistered_held: "unregistered c \<le> slot_held c"
  by (cases c) auto

lemma turn_maxWorkers [simp]: "sv_maxWorkers (fst (processQueue_turn stamp s)) = sv_maxWorkers s"
  by (auto simp: processQueue_turn_def dequeue_def queued_failed_def Let_def split: list.split)

lemma operations_maxWorkers [simp]:
  "sv_maxWorkers (fst (unregisterProcess stamp pid s)) = sv_maxWorkers s"
  "sv_maxWorkers (fst (put_in_queue queueId stamp l s)) = sv_maxWorkers s"
  "sv_maxWorkers (fst (go_on c s)) = sv_maxWorkers s"
  by (simp_all add: unregisterProcess_def put_in_queue_def go_on_def split: prod.split EnqueueResult.split)

lemma step_maxWorkers: "sv_maxWorkers (fst (pool_step s e)) = sv_maxWorkers s"
proof -
  have saved: "sv_maxWorkers (fst (startSavedSessionOnce queueId stamp attemptId l s)) = sv_maxWorkers s" for queueId stamp attemptId l s
    by (simp add: startSavedSessionOnce_def split: option.split)
  have settled: "sv_maxWorkers (fst (start_settled i now result s)) = sv_maxWorkers s" for i now result s
    by (auto simp: start_settled_def queued_started_def queued_failed_def split: option.split call.split bool.split outcome.split)
  show ?thesis
    by (cases e)
       (auto simp: pool_step_def startSession_def resumeSession_def activate_def startCreation_def victim_aborted_def
         register_started_def slot_freed_def startCopy_def cancelQueuedRequest_def without_response_def saved settled case_prod_unfold Let_def
         split: option.split call.split bool.split)
qed

definition fits :: "'p Supervisor \<Rightarrow> bool" where
  "fits s =
     (sv_maxWorkers s > 0 \<and> slots_ok s \<and> weight unsaved s = 0 \<and>
      (\<forall>r \<in> set (wq_queue (sv_workerQueue s)). la_creationFence r \<noteq> None) \<and>
      int (length (sv_processes s) + weight unregistered s) \<le> sv_maxWorkers s)"

lemma room_for_one:
  assumes "slots_ok s" "sv_maxWorkers s > 0" "\<not> isAtCreationCapacity s"
  shows "int (length (sv_processes s) + Suc (weight unregistered s)) \<le> sv_maxWorkers s"
proof -
  have "weight unregistered s \<le> sv_pendingCreationStarts s"
    using assms(1) weight_mono [OF unregistered_held, where s = s] by (simp add: slots_ok_def)
  then show ?thesis using assms(2,3) by (simp add: isAtCreationCapacity_def)
qed

lemma fits_turn:
  assumes "fits s"
  shows "fits (fst (processQueue_turn stamp s))"
proof (cases "isEmpty (sv_workerQueue s) \<or> isAtCreationCapacity s")
  case False
  then obtain r rest where q: "wq_queue (sv_workerQueue s) = r # rest"
    by (cases "wq_queue (sv_workerQueue s)") (auto simp: isEmpty_def queue_length_def)
  have "slots_ok (fst (processQueue_turn stamp s))" using assms slots_turn [of s] by (simp add: fits_def)
  moreover have "int (length (sv_processes s) + Suc (weight unregistered s)) \<le> sv_maxWorkers s"
    using assms False room_for_one [of s] by (simp add: fits_def)
  ultimately show ?thesis using assms False q
    by (auto simp: fits_def processQueue_turn_def dequeue_def queued_failed_def Let_def)
qed (simp add: processQueue_turn_def assms)

lemma fits_end:
  assumes "fits s" "map_of (sv_calls s) i = Some c" "slot_held c = 0"
  shows "fits (end_call i s)"
  using assms weight_end [OF assms(2), of unsaved] weight_end [OF assms(2), of unregistered] slots_end [of s i c]
  by (auto simp: fits_def slots_ok_def)

lemma fits_begin: "fits s \<Longrightarrow> slot_held c = 0 \<Longrightarrow> unsaved c = 0 \<Longrightarrow> fits (begin_call c s)"
  using unregistered_held [of c] launching_held [of c] by (simp add: fits_def slots_ok_def)

lemma fits_saved:
  assumes "fits s"
  shows "fits (fst (startSavedSessionOnce queueId stamp attemptId l s))"
proof (cases "findByCreationAttempt attemptId (sv_workerQueue s) = None \<and> \<not> isAtCreationCapacity s")
  case True
  have "int (length (sv_processes s) + Suc (weight unregistered s)) \<le> sv_maxWorkers s"
    using assms True room_for_one [of s] by (simp add: fits_def)
  moreover have "sv_pendingCreationStarts s < 16" using True by (simp add: isAtCreationCapacity_def)
  ultimately show ?thesis using assms True launching_le [of s]
    by (auto simp: startSavedSessionOnce_def go_on_def fits_def slots_ok_def)
next
  case False
  then show ?thesis using assms
    by (auto simp: startSavedSessionOnce_def put_in_queue_def enqueue_def fits_def queue_entry_def launch.defs Let_def
        split: option.split)
qed

lemma fits_unregister: "fits s \<Longrightarrow> fits (fst (unregisterProcess stamp pid s))"
proof -
  assume "fits s"
  then have "fits (s\<lparr>sv_processes := AList.delete pid (sv_processes s)\<rparr>)"
    using length_delete_le [of pid "sv_processes s"] by (simp add: fits_def)
  with \<open>fits s\<close> show ?thesis by (simp add: unregisterProcess_def fits_turn)
qed

lemma fits_processes: "fits s \<Longrightarrow> length ps = length (sv_processes s) \<Longrightarrow> fits (s\<lparr>sv_processes := ps\<rparr>)"
  by (simp add: fits_def)

lemma no_unsaved_call: "fits s \<Longrightarrow> map_of (sv_calls s) i = Some c \<Longrightarrow> unsaved c = 0"
  using weight_call [of s i c unsaved] by (simp add: fits_def)

lemma fits_register:
  assumes f: "fits s"
  shows "fits (register_started i pid st s)"
proof -
  have set: "fits (set_call i d (s\<lparr>sv_processes := AList.update pid st (sv_processes s)\<rparr>))"
    if c: "map_of (sv_calls s) i = Some c" "unregistered c = 1" "unregistered d = 0" "slot_held d = slot_held c"
      "launching d = launching c" "unsaved d = unsaved c" for c d
  proof -
    let ?s = "s\<lparr>sv_processes := AList.update pid st (sv_processes s)\<rparr>"
    have at: "map_of (sv_calls ?s) i = Some c" using c(1) by simp
    from weight_set [OF at, of unregistered d] weight_set [OF at, of slot_held d] weight_set [OF at, of launching d]
      weight_set [OF at, of unsaved d] c
      calls_wf_set [of ?s i c d] at f
    show ?thesis by (auto simp: fits_def slots_ok_def length_update)
  qed
  show ?thesis
  proof (cases "map_of (sv_calls s) i")
    case (Some c)
    with no_unsaved_call [OF f Some] set [OF Some] f show ?thesis
      by (cases c) (auto simp: register_started_def split: option.split bool.split)
  qed (simp add: register_started_def f)
qed

lemma fits_slot_freed:
  assumes f: "fits s"
  shows "fits (slot_freed i s)"
proof -
  have slots: "slots_ok (slot_freed i s)" using f slots_freed [of s i] by (simp add: fits_def)
  have set: "weight unsaved (set_call i d s) = 0 \<and>
      int (length (sv_processes s)) + int (weight unregistered (set_call i d s)) \<le> sv_maxWorkers s"
    if c: "map_of (sv_calls s) i = Some c" "unregistered d = 0" "unsaved d = unsaved c" for c d
    using weight_set [OF c(1), of unregistered d] weight_set [OF c(1), of unsaved d] c f by (simp add: fits_def)
  have other: "weight w (set_call i d (s\<lparr>sv_pendingCreationStarts := n, sv_microtasks := k\<rparr>)) = weight w (set_call i d s)"
    for w :: "'a call \<Rightarrow> nat" and d n k by (simp add: weight_def set_call_def)
  have copied: "weight unsaved (end_call i s) = 0 \<and>
      int (length (sv_processes s)) + int (weight unregistered (end_call i s)) \<le> sv_maxWorkers s"
    if c: "map_of (sv_calls s) i = Some Copying"
    using weight_end [OF c, of unregistered] weight_end [OF c, of unsaved] f by (simp add: fits_def slots_ok_def)
  have other': "weight w (end_call i (s\<lparr>sv_pendingCreationStarts := n, sv_microtasks := k\<rparr>)) = weight w (end_call i s)"
    for w :: "'a call \<Rightarrow> nat" and n k by (simp add: weight_def end_call_def)
  show ?thesis
  proof (cases "map_of (sv_calls s) i")
    case (Some c)
    with set [OF Some] copied f slots show ?thesis
      by (cases c) (auto simp: other' slot_freed_def Let_def fits_def other split: bool.split if_splits)
  qed (simp add: slot_freed_def f)
qed

lemma fits_settled:
  assumes f: "fits s"
  shows "fits (fst (start_settled i now result s))"
proof (cases "map_of (sv_calls s) i")
  case (Some c)
  show ?thesis
  proof (cases c)
    case (QueueStart r slot p)
    show ?thesis
    proof (cases slot)
      case False
      have "fits (begin_call QueueCallback (end_call i s))"
        using fits_begin [OF fits_end [OF f Some], of QueueCallback] QueueStart False by simp
      with Some QueueStart False f show ?thesis
        by (simp add: start_settled_def queued_started_def queued_failed_def split: outcome.split option.split)
    qed (simp add: start_settled_def Some QueueStart f)
  next
    case (SavedStart slot p)
    with Some f fits_end [OF f Some] show ?thesis by (cases slot) (simp_all add: start_settled_def)
  next
    case (PlainStart p)
    with no_unsaved_call [OF f Some] show ?thesis by simp
  qed (simp_all add: start_settled_def Some f)
qed (simp add: start_settled_def f)

lemma fits_victim:
  assumes f: "fits s"
  shows "fits (fst (victim_aborted i stamp s))"
proof (cases "map_of (sv_calls s) i")
  case (Some d)
  show ?thesis
  proof (cases d)
    case (PreemptingSaved victim queueId attemptId l)
    have "fits (fst (unregisterProcess stamp victim (end_call i s)))"
      using fits_unregister [OF fits_end [OF f Some]] PreemptingSaved by simp
    then have "fits (begin_call (Preempted queueId attemptId l) (fst (unregisterProcess stamp victim (end_call i s))))"
      by (simp add: fits_begin)
    with Some PreemptingSaved show ?thesis by (simp add: victim_aborted_def case_prod_unfold)
  next
    case (PreemptingPlain victim)
    with no_unsaved_call [OF f Some] show ?thesis by simp
  qed (simp_all add: victim_aborted_def Some f)
qed (simp add: victim_aborted_def f)

lemma fits_cancel: "fits s \<Longrightarrow> fits (fst (snd (cancelQueuedRequest stamp queueId s)))"
proof -
  have "set (wq_queue (fst (snd (cancel stamp queueId wq)))) \<subseteq> set (wq_queue wq)" for wq :: "'a WorkerQueue"
    by (auto simp: cancel_def Let_def dest: in_set_takeD in_set_dropD split: option.splits)
  from this [of "sv_workerQueue s"] show "fits s \<Longrightarrow> ?thesis"
    by (cases "cancel stamp queueId (sv_workerQueue s)") (auto simp: cancelQueuedRequest_def fits_def)
qed

lemma fits_copy: "fits s \<Longrightarrow> fits (fst (startCopy s))"
  by (simp add: startCopy_def go_on_def fits_def slots_ok_def)

text \<open>Histories in which sessions only start as saved creations.\<close>

definition saved_creation :: "'p Supervisor \<Rightarrow> 'p pool_event \<Rightarrow> bool" where
  "saved_creation s e = (case e of StartSession _ _ _ _ _ \<Rightarrow> False | ResumeSessionBy _ _ _ _ _ \<Rightarrow> False | _ \<Rightarrow> True)"

lemma fits_step:
  assumes f: "fits s" and ok: "saved_creation s e"
  shows "fits (fst (pool_step s e))"
proof (cases e)
  case (Activate i now)
  with no_unsaved_call [OF f, of i Activating] f show ?thesis by (auto simp: pool_step_def)
next
  case (StartCreation queueId stamp attemptId now l)
  with f show ?thesis
    by (simp add: pool_step_def startCreation_def go_on_def fits_saved fits_begin split: option.split)
next
  case (GoOn i stamp)
  have "fits (fst (startSavedSessionOnce queueId stamp attemptId l (end_call i s)))"
    if "map_of (sv_calls s) i = Some (Preempted queueId attemptId l)" for queueId attemptId l
    using fits_end [OF f that] fits_saved by simp
  with GoOn f show ?thesis by (simp add: pool_step_def split: option.split call.split)
next
  case (CallbackDone i stamp)
  have "fits (fst (processQueue_turn stamp (end_call i s)))" if "map_of (sv_calls s) i = Some QueueCallback"
    using fits_turn [OF fits_end [OF f that]] by simp
  with CallbackDone f show ?thesis by (simp add: pool_step_def without_response_def)
next
  case (Microtask stamp)
  have "fits (s\<lparr>sv_microtasks := k\<rparr>)" for k using f by (simp add: fits_def)
  with Microtask f show ?thesis by (simp add: pool_step_def without_response_def fits_turn)
next
  case (StateChanged pid st)
  have "pid \<in> fst ` set (sv_processes s) \<Longrightarrow> fits (s\<lparr>sv_processes := AList.update pid st (sv_processes s)\<rparr>)"
    using f by (intro fits_processes) (auto simp: length_update map_of_eq_None_iff)
  with StateChanged f show ?thesis by (simp add: pool_step_def)
qed (use f ok in \<open>simp_all add: pool_step_def without_response_def saved_creation_def fits_victim fits_register fits_slot_freed
    fits_settled fits_unregister fits_cancel fits_copy\<close>)

interpretation saved_pool: invariant_machine "\<lambda>s e. fst (pool_step s e)" saved_creation
    "newSupervisor bus limit (1 + int n) threshold" fits
proof
  have "sound (newSupervisor bus limit (1 + int n) threshold :: 'a Supervisor)" by (rule worker_pool.inv_init)
  then show "fits (newSupervisor bus limit (1 + int n) threshold :: 'a Supervisor)"
    by (simp add: fits_def sound_def) (simp add: newSupervisor_def newWorkerQueue_def weight_def)
qed (rule fits_step)

text \<open>
  C19 Saved creations respect the limit on workers. With a positive \<open>maxWorkers\<close>, over any history in
  which sessions start only as saved creations, directly or through the queue, with preemptions,
  transcript copies and failures in any order, the registered processes and the starts that will still register one are
  never more than \<open>maxWorkers\<close>.
\<close>
theorem saved_starts_within_limit:
  assumes "permitted (\<lambda>s e. fst (pool_step s e)) saved_creation (newSupervisor bus limit maxWorkers threshold) es"
    and "maxWorkers > 0"
  shows "int (length (sv_processes (pool_run (newSupervisor bus limit maxWorkers threshold) es)) +
      weight unregistered (pool_run (newSupervisor bus limit maxWorkers threshold) es)) \<le> maxWorkers"
proof -
  have n: "maxWorkers = 1 + int (nat (maxWorkers - 1))" using assms(2) by simp
  have "fits (pool_run (newSupervisor bus limit maxWorkers threshold) es)"
    unfolding pool_run_def using saved_pool.inv_run [of bus limit "nat (maxWorkers - 1)" threshold es] assms(1) n by simp
  moreover have "sv_maxWorkers (pool_run (newSupervisor bus limit maxWorkers threshold) es) = maxWorkers"
    unfolding pool_run_def
    by (induction es rule: rev_induct) (simp_all add: step_maxWorkers, simp add: newSupervisor_def)
  ultimately show ?thesis by (simp add: fits_def)
qed

definition sample_creations :: "nat pool_event list" where
  "sample_creations =
     [StartCreation ''q1'' (\<lambda>_. 0) ''t1'' 0 sample_launch, StartCreation ''q2'' (\<lambda>_. 0) ''t2'' 0 sample_launch,
      Registered 0 ''a'' InTurn, SlotFreed 0, Settled 0 1 Succeeded, Microtask (\<lambda>_. 2), Unregister ''a'' (\<lambda>_. 3),
      Registered 1 ''b'' InTurn]"

theorem saved_starts_within_limit_witness:
  "map fst (sv_processes (pool_run (newSupervisor True None 1 10) sample_creations)) = [''b''] \<and>
   int (length (sv_processes (pool_run (newSupervisor True None 1 10) sample_creations)) +
     weight unregistered (pool_run (newSupervisor True None 1 10) sample_creations)) \<le> 1"
proof
  show "map fst (sv_processes (pool_run (newSupervisor True None 1 10) sample_creations)) = [''b'']" by code_simp
  have "permitted (\<lambda>s e. fst (pool_step s e)) saved_creation (newSupervisor True None 1 10) sample_creations"
    by (simp add: sample_creations_def saved_creation_def)
  from saved_starts_within_limit [OF this] show "int (length (sv_processes (pool_run (newSupervisor True None 1 10) sample_creations)) +
     weight unregistered (pool_run (newSupervisor True None 1 10) sample_creations)) \<le> 1" by simp
qed

section \<open>Where the limit is not kept\<close>

text \<open>Sessions that are started one after the other, and providers that register their processes.\<close>

definition racing_starts :: "(string \<times> (nat \<Rightarrow> nat) \<times> bool \<times> nat \<times> 'p launch) list \<Rightarrow> 'p pool_event list" where
  "racing_starts starts = map (\<lambda>(queueId, stamp, gateway, now, l). StartSession queueId stamp gateway now l) starts"

fun registrations :: "nat \<Rightarrow> string list \<Rightarrow> 'p pool_event list" where
  "registrations i [] = []"
| "registrations i (pid # pids) = Registered i pid InTurn # registrations (Suc i) pids"

lemma pool_run_simps [simp]:
  "pool_run s [] = s" "pool_run s (e # es) = pool_run (fst (pool_step s e)) es"
  "pool_run s (es @ fs) = pool_run (pool_run s es) fs"
  by (simp_all add: pool_run_def)

lemma run_maxWorkers: "sv_maxWorkers (pool_run s es) = sv_maxWorkers s"
  by (induction es arbitrary: s) (simp_all add: step_maxWorkers)

lemma update_new: "k \<notin> fst ` set m \<Longrightarrow> AList.update k v m = m @ [(k, v)]"
  by (induction m) auto

lemma racing_calls:
  "\<not> isAtCapacity s \<Longrightarrow> pool_run s (racing_starts starts) =
     s\<lparr>sv_calls := sv_calls s @ map (\<lambda>i. (i, PlainStart None)) [sv_nextCall s..<sv_nextCall s + length starts],
       sv_nextCall := sv_nextCall s + length starts\<rparr>"
proof (induction starts arbitrary: s)
  case Nil
  then show ?case by (simp add: racing_starts_def)
next
  case (Cons x starts)
  obtain queueId stamp gateway now l where x: "x = (queueId, stamp, gateway, now, l)" by (cases x)
  have "fst (pool_step s (StartSession queueId stamp gateway now l)) = begin_call (PlainStart None) s"
    using Cons.prems by (simp add: pool_step_def startSession_def go_on_def)
  moreover have "\<not> isAtCapacity (begin_call (PlainStart None) s)" using Cons.prems by (auto simp: isAtCapacity_def split: if_splits)
  ultimately show ?case
    using Cons.IH [of "begin_call (PlainStart None) s"]
    by (simp add: racing_starts_def x begin_call_def upt_conv_Cons del: upt_Suc)
qed

lemma registered_processes:
  assumes "\<And>j. j \<in> {i..<i + length pids} \<Longrightarrow> map_of (sv_calls s) j = Some (PlainStart None)"
    and "distinct pids" and "set pids \<inter> fst ` set (sv_processes s) = {}"
  shows "sv_processes (pool_run s (registrations i pids)) = sv_processes s @ map (\<lambda>pid. (pid, InTurn)) pids"
  using assms
proof (induction pids arbitrary: i s)
  case (Cons pid pids)
  let ?s = "set_call i (PlainStart (Some pid)) (s\<lparr>sv_processes := sv_processes s @ [(pid, InTurn)]\<rparr>)"
  have at: "map_of (sv_calls s) i = Some (PlainStart None)" using Cons.prems(1) [of i] by simp
  then have step: "fst (pool_step s (Registered i pid InTurn)) = ?s"
    using Cons.prems(3) by (simp add: pool_step_def register_started_def update_new)
  have "map_of (sv_calls ?s) j = Some (PlainStart None)" if "j \<in> {Suc i..<Suc i + length pids}" for j
    using Cons.prems(1) [of j] that by (simp add: set_call_def map_of_update)
  moreover have "set pids \<inter> fst ` set (sv_processes ?s) = {}" using Cons.prems(2,3) by auto
  ultimately have "sv_processes (pool_run ?s (registrations (Suc i) pids)) = sv_processes ?s @ map (\<lambda>pid. (pid, InTurn)) pids"
    using Cons.IH [of "Suc i" ?s] Cons.prems(2) by simp
  then show ?case by (simp add: step)
qed simp

text \<open>
  C20 Starts without a saved creation race past the limit on workers. In any reachable state with room
  for a worker, however many sessions are started before the first of their providers registers its
  process, all of them become workers: nothing is reserved between the check of the capacity and the
  registration. So with more starts than there is room for, the workers are more than \<open>maxWorkers\<close>.
\<close>
theorem worker_limit_exceeded:
  assumes "s = pool_run (newSupervisor bus limit maxWorkers threshold) es" and "\<not> isAtCapacity s"
    and "length pids = length starts" and "distinct pids" and "set pids \<inter> fst ` set (sv_processes s) = {}"
    and "t = pool_run s (racing_starts starts @ registrations (sv_nextCall s) pids)"
  shows "sv_processes t = sv_processes s @ map (\<lambda>pid. (pid, InTurn)) pids \<and>
    length (sv_processes t) = length (sv_processes s) + length starts \<and>
    sv_maxWorkers t = maxWorkers \<and>
    (int (length starts) > maxWorkers - int (length (sv_processes s)) \<longrightarrow> int (length (sv_processes t)) > sv_maxWorkers t)"
proof -
  let ?r = "pool_run s (racing_starts starts)"
  have wf: "calls_wf s" unfolding assms(1) pool_run_def by (rule pool_calls.inv_run) simp
  note r = racing_calls [OF assms(2), of starts]
  have "map_of (sv_calls ?r) j = Some (PlainStart None)" if j: "j \<in> {sv_nextCall s..<sv_nextCall s + length pids}" for j
  proof -
    have "map_of (sv_calls s) j = None"
      using wf j by (fastforce simp: calls_wf_def call_ids_def map_of_eq_None_iff)
    moreover have "map_of (map (\<lambda>i. (i, PlainStart None)) [sv_nextCall s..<sv_nextCall s + length starts]) j = Some (PlainStart None)"
      using j assms(3) by (simp add: map_of_map_restrict)
    ultimately show ?thesis by (simp add: r map_add_Some_iff)
  qed
  moreover have "sv_processes ?r = sv_processes s" by (simp add: r)
  ultimately have t: "sv_processes t = sv_processes s @ map (\<lambda>pid. (pid, InTurn)) pids"
    using registered_processes [of "sv_nextCall s" pids ?r] assms(4,5,6) by simp
  moreover have "sv_maxWorkers t = maxWorkers" using assms(1,6) by (simp add: run_maxWorkers newSupervisor_def)
  ultimately show ?thesis using assms(3) by simp
qed

definition one_worker :: "nat pool_event list" where
  "one_worker = racing_starts [(''q1'', \<lambda>_. 0, False, 0, sample_launch), (''q2'', \<lambda>_. 0, False, 0, sample_launch)] @
     registrations 0 [''a'', ''b'']"

theorem worker_limit_exceeded_witness:
  "map fst (sv_processes (pool_run (newSupervisor True None 1 10) one_worker)) = [''a'', ''b''] \<and>
   int (length (sv_processes (pool_run (newSupervisor True None 1 10) one_worker))) >
     sv_maxWorkers (pool_run (newSupervisor True None 1 10) one_worker)"
proof -
  let ?s = "newSupervisor True None 1 10 :: nat Supervisor"
  have s: "?s = pool_run ?s []" by simp
  have room: "\<not> isAtCapacity ?s" "sv_processes ?s = []" "sv_nextCall ?s = 0" by code_simp+
  from worker_limit_exceeded [OF s room(1) _ _ _ refl, of "[''a'', ''b'']"
      "[(''q1'', \<lambda>_. 0, False, 0, sample_launch), (''q2'', \<lambda>_. 0, False, 0, sample_launch)]"] room(2,3)
  show ?thesis by (simp add: one_worker_def)
qed

lemma distinct_processes: "distinct (map fst (sv_processes s)) \<Longrightarrow> distinct (map fst (sv_processes (fst (pool_step s e))))"
proof -
  assume d: "distinct (map fst (sv_processes s))"
  have turn: "sv_processes (fst (processQueue_turn stamp s)) = sv_processes s" for stamp and s :: "'a Supervisor"
    by (auto simp: processQueue_turn_def dequeue_def queued_failed_def Let_def split: list.split)
  have put: "sv_processes (fst (put_in_queue queueId stamp l s)) = sv_processes s" for queueId stamp l and s :: "'a Supervisor"
    by (simp add: put_in_queue_def split: prod.split EnqueueResult.split)
  have gone: "distinct (map fst (sv_processes s)) \<Longrightarrow> distinct (map fst (sv_processes (fst (unregisterProcess stamp pid s))))"
    for stamp pid and s :: "'a Supervisor"
    by (simp add: unregisterProcess_def turn distinct_delete)
  have saved: "sv_processes (fst (startSavedSessionOnce queueId stamp attemptId l s)) = sv_processes s"
    for queueId stamp attemptId l and s :: "'a Supervisor"
    by (simp add: startSavedSessionOnce_def put go_on_def split: option.split)
  have settled: "sv_processes (fst (start_settled i now result s)) = sv_processes s" for i now result
    by (auto simp: start_settled_def queued_started_def queued_failed_def split: option.split call.split bool.split outcome.split)
  show ?thesis using d
    by (cases e)
       (auto simp: pool_step_def startSession_def resumeSession_def activate_def startCreation_def victim_aborted_def startCopy_def
         register_started_def slot_freed_def cancelQueuedRequest_def without_response_def put turn saved settled case_prod_unfold
         go_on_def Let_def distinct_update gone
         split: option.split call.split bool.split)
qed

text \<open>
  A preemption lets a queued request in and then starts its own session beside it: with all workers
  taken, no creation slot out and an unsaved request at the head of the queue, the abort of the victim
  is followed by two starts, and the workers end up one more than \<open>maxWorkers\<close>.
\<close>
theorem preempting_exceeds_limit:
  assumes "s = pool_run (newSupervisor bus limit maxWorkers threshold) es" and "maxWorkers > 0"
    and "int (length (sv_processes s)) = maxWorkers" and "sv_pendingCreationStarts s = 0"
    and "map_of (sv_calls s) i = Some (PreemptingPlain victim)" and "victim \<in> fst ` set (sv_processes s)"
    and "wq_queue (sv_workerQueue s) = r # rest" and "la_creationFence r = None"
    and "a \<noteq> b" and "{a, b} \<inter> fst ` set (sv_processes s) = {}"
  shows "int (length (sv_processes (pool_run s
      [Aborted i stamp, Registered (sv_nextCall s) a InTurn, Registered (Suc (sv_nextCall s)) b InTurn]))) = maxWorkers + 1"
proof -
  let ?e = "end_call i s" and ?n = "sv_nextCall s"
  let ?ps = "AList.delete victim (sv_processes s)"
  have wf: "calls_wf ?e" unfolding assms(1) pool_run_def by (rule calls_wf_end [OF pool_calls.inv_run]) simp
  have "distinct (map fst (sv_processes s))"
    unfolding assms(1) by (induction es rule: rev_induct) (simp_all add: distinct_processes, simp add: newSupervisor_def)
  moreover have "distinct (map fst m) \<Longrightarrow> victim \<in> fst ` set m \<Longrightarrow> length (AList.delete victim m) + 1 = length m"
    for m :: "(string \<times> ProcessState) list"
    by (induction m) (auto simp: image_iff)
  ultimately have len: "length ?ps + 1 = length (sv_processes s)" using assms(6) by blast
  have max: "sv_maxWorkers s = maxWorkers" using assms(1) by (simp add: run_maxWorkers newSupervisor_def)
  obtain wq effs where dq: "dequeue stamp (sv_workerQueue s) = (Some r, wq, effs)"
    using assms(7) by (simp add: dequeue_def Let_def)
  let ?t = "s\<lparr>sv_workerQueue := wq, sv_processes := ?ps,
      sv_calls := sv_calls ?e @ [(?n, QueueStart r False None), (Suc ?n, PlainStart None)], sv_nextCall := Suc (Suc ?n)\<rparr>"
  have "fst (unregisterProcess stamp victim ?e) =
      begin_call (QueueStart r False None) (?e\<lparr>sv_processes := ?ps, sv_workerQueue := wq\<rparr>)"
    using assms(3,4,6,7,8) len max dq
    by (simp add: unregisterProcess_def processQueue_turn_def isAtCreationCapacity_def isEmpty_def queue_length_def Let_def)
  then have t: "fst (pool_step s (Aborted i stamp)) = ?t"
    using assms(5) by (simp add: pool_step_def victim_aborted_def case_prod_unfold begin_call_def end_call_def)
  have fresh: "map_of (sv_calls ?e) ?n = None" "map_of (sv_calls ?e) (Suc ?n) = None"
    using wf by (fastforce simp: calls_wf_def call_ids_def map_of_eq_None_iff end_call_def)+
  have names: "a \<notin> fst ` set ?ps" "b \<notin> fst ` set ?ps" using assms(10) by (auto simp: AList.delete_eq)
  have calls: "map_of (sv_calls ?t) ?n = Some (QueueStart r False None)" "map_of (sv_calls ?t) (Suc ?n) = Some (PlainStart None)"
    using fresh by (simp_all add: map_add_def)
  let ?u = "set_call ?n (QueueStart r False (Some a)) (?t\<lparr>sv_processes := ?ps @ [(a, InTurn)]\<rparr>)"
  have "fst (pool_step ?t (Registered ?n a InTurn)) = ?u"
    using calls(1) names(1) assms(8) by (simp add: pool_step_def register_started_def update_new del: map_of_append)
  moreover have "map_of (sv_calls ?u) (Suc ?n) = Some (PlainStart None)"
    using calls(2) by (simp add: set_call_def map_of_update del: map_of_append)
  then have "sv_processes (fst (pool_step ?u (Registered (Suc ?n) b InTurn))) = ?ps @ [(a, InTurn), (b, InTurn)]"
    using names(2) assms(9) by (simp add: pool_step_def register_started_def update_new)
  ultimately show ?thesis using len assms(3) by (simp add: t)
qed

definition preempting_start :: "nat pool_event list" where
  "preempting_start =
     [StartSession ''q1'' (\<lambda>_. 0) False 0 sample_launch, Registered 0 ''a'' InTurn, Settled 0 0 Succeeded,
      StartSession ''q2'' (\<lambda>_. 0) False 5 sample_launch, StateChanged ''a'' (Idle 10),
      StartSession ''q3'' (\<lambda>_. 0) False 30 sample_launch]"

theorem preempting_exceeds_limit_witness:
  "int (length (sv_processes (pool_run (newSupervisor True None 1 10)
     (preempting_start @ [Aborted 1 (\<lambda>_. 0), Registered 2 ''b'' InTurn, Registered 3 ''c'' InTurn])))) = 2"
proof -
  let ?s = "pool_run (newSupervisor True None 1 10) preempting_start"
  have s: "map fst (sv_processes ?s) = [''a'']" "sv_pendingCreationStarts ?s = 0" "sv_nextCall ?s = 2"
    "map_of (sv_calls ?s) 1 = Some (PreemptingPlain ''a'')" "map la_creationFence (wq_queue (sv_workerQueue ?s)) = [None]"
    by code_simp+
  from s(5) obtain r where r: "wq_queue (sv_workerQueue ?s) = r # []" "la_creationFence r = None"
    by (cases "wq_queue (sv_workerQueue ?s)") auto
  obtain st where "sv_processes ?s = [(''a'', st)]"
    using s(1) by (cases "sv_processes ?s") auto
  then have p: "length (sv_processes ?s) = 1" "fst ` set (sv_processes ?s) = {''a''}" by simp_all
  from preempting_exceeds_limit [OF refl _ _ s(2) s(4) _ r, of "''b''" "''c''" "\<lambda>_. 0"] p s(3)
  show ?thesis by simp
qed

section \<open>Preemption\<close>

lemma better_victim_found:
  assumes "0 \<le> idle" and "foldl (better_victim now threshold) (best, idle) ps = (best', idle')"
  shows "idle \<le> idle' \<and> (\<forall>(pid, st) \<in> set ps. \<forall>t. st = Idle t \<longrightarrow> int now - int t < threshold \<or> int now - int t \<le> idle') \<and>
    (best' = best \<and> idle' = idle \<or>
     (\<exists>pid t. best' = Some pid \<and> (pid, Idle t) \<in> set ps \<and> idle' = int now - int t \<and> idle' \<ge> threshold \<and> idle' > idle))"
  using assms
proof (induction ps arbitrary: best idle)
  case (Cons p ps)
  obtain pid st where p: "p = (pid, st)" by (cases p)
  obtain b i where bi: "better_victim now threshold (best, idle) p = (b, i)" by fastforce
  have step: "idle \<le> i \<and> (\<forall>t. st = Idle t \<longrightarrow> int now - int t < threshold \<or> int now - int t \<le> i) \<and>
      (b = best \<and> i = idle \<or> (\<exists>t. b = Some pid \<and> st = Idle t \<and> i = int now - int t \<and> i \<ge> threshold \<and> i > idle))"
    using bi p by (cases st) (auto simp: Let_def split: if_splits)
  have "foldl (better_victim now threshold) (b, i) ps = (best', idle')" using Cons.prems(2) bi by simp
  from Cons.IH [OF _ this] step Cons.prems(1) have IH: "i \<le> idle'"
    "\<forall>(pid, st) \<in> set ps. \<forall>t. st = Idle t \<longrightarrow> int now - int t < threshold \<or> int now - int t \<le> idle'"
    "best' = b \<and> idle' = i \<or> (\<exists>pid t. best' = Some pid \<and> (pid, Idle t) \<in> set ps \<and> idle' = int now - int t \<and> idle' \<ge> threshold \<and> idle' > i)"
    by simp_all
  have "\<forall>t. st = Idle t \<longrightarrow> int now - int t < threshold \<or> int now - int t \<le> idle'" using step IH(1) by fastforce
  with IH(2) have "\<forall>(pid, st) \<in> set (p # ps). \<forall>t. st = Idle t \<longrightarrow> int now - int t < threshold \<or> int now - int t \<le> idle'"
    using p by simp
  moreover have "best' = best \<and> idle' = idle \<or>
     (\<exists>pid t. best' = Some pid \<and> (pid, Idle t) \<in> set (p # ps) \<and> idle' = int now - int t \<and> idle' \<ge> threshold \<and> idle' > idle)"
    using IH(1,3) step p by fastforce
  ultimately show ?case using step IH(1) by simp
qed simp

text \<open>
  Preemption takes the worker that has been idle longest. A victim is an idle process, idle for at
  least the threshold, and no process has been idle longer; without a victim no process has been
  idle for that long (or only from this very millisecond on). A process that works or waits for an
  answer is never preempted.
\<close>
theorem preempts_longest_idle:
  "case findPreemptableWorker now s of
     Some pid \<Rightarrow> \<exists>since. (pid, Idle since) \<in> set (sv_processes s) \<and> int now - int since \<ge> sv_idlePreemptThresholdMs s \<and> since < now \<and>
       {t. \<exists>q. (q, Idle t) \<in> set (sv_processes s) \<and> int now - int t \<ge> sv_idlePreemptThresholdMs s} \<subseteq> {since..}
   | None \<Rightarrow> {t. \<exists>q. (q, Idle t) \<in> set (sv_processes s) \<and> int now - int t \<ge> sv_idlePreemptThresholdMs s} \<subseteq> {now..}"
proof -
  obtain best idle where r: "foldl (better_victim now (sv_idlePreemptThresholdMs s)) (None, 0) (sv_processes s) = (best, idle)"
    by fastforce
  from better_victim_found [OF _ r] have
    all: "\<forall>(pid, st) \<in> set (sv_processes s). \<forall>t. st = Idle t \<longrightarrow> int now - int t < sv_idlePreemptThresholdMs s \<or> int now - int t \<le> idle"
    and best: "best = None \<and> idle = 0 \<or> (\<exists>pid t. best = Some pid \<and> (pid, Idle t) \<in> set (sv_processes s) \<and> idle = int now - int t \<and>
      idle \<ge> sv_idlePreemptThresholdMs s \<and> idle > 0)" by simp_all
  from best show ?thesis
  proof
    assume none: "best = None \<and> idle = 0"
    with all have "{t. \<exists>q. (q, Idle t) \<in> set (sv_processes s) \<and> int now - int t \<ge> sv_idlePreemptThresholdMs s} \<subseteq> {now..}" by fastforce
    then show ?thesis using none r by (simp add: findPreemptableWorker_def)
  next
    assume "\<exists>pid t. best = Some pid \<and> (pid, Idle t) \<in> set (sv_processes s) \<and> idle = int now - int t \<and>
      idle \<ge> sv_idlePreemptThresholdMs s \<and> idle > 0"
    then obtain pid t where v: "best = Some pid" "(pid, Idle t) \<in> set (sv_processes s)" "idle = int now - int t"
      "idle \<ge> sv_idlePreemptThresholdMs s" "idle > 0" by blast
    have "{t. \<exists>q. (q, Idle t) \<in> set (sv_processes s) \<and> int now - int t \<ge> sv_idlePreemptThresholdMs s} \<subseteq> {t..}"
      using all v(3) by fastforce
    then show ?thesis using v r by (auto simp: findPreemptableWorker_def)
  qed
qed

end
