(* ===== verification/JsStrings.thy ===== *)
theory JsStrings
  imports Prelude "HOL-Library.Char_ord"
begin

text \<open>
  The string operations of JavaScript the components use, on strings of code units below 256 (what
  HTTP headers and the configuration hold): \<open>trim\<close>, \<open>split\<close> on one character, \<open>join\<close>, \<open>toLowerCase\<close> of ASCII
  letters, \<open>parseInt\<close> with radix 10 and the digit classes of regular expressions.
\<close>

definition js_space :: "char \<Rightarrow> bool" where
  "js_space c = (of_char c \<in> ({9, 10, 11, 12, 13, 32, 160} :: nat set))"

definition js_trim :: "string \<Rightarrow> string" where
  "js_trim s = rev (dropWhile js_space (rev (dropWhile js_space s)))"

fun js_split :: "char \<Rightarrow> string \<Rightarrow> string list" where
  "js_split d [] = [[]]"
| "js_split d (c # s) =
     (if c = d then [] # js_split d s
      else (case js_split d s of [] \<Rightarrow> [[c]] | p # ps \<Rightarrow> (c # p) # ps))"

fun js_join :: "char \<Rightarrow> string list \<Rightarrow> string" where
  "js_join d [] = []"
| "js_join d [p] = p"
| "js_join d (p # ps) = p @ d # js_join d ps"

definition is_digit :: "char \<Rightarrow> bool" where
  "is_digit c = (48 \<le> (of_char c :: nat) \<and> (of_char c :: nat) \<le> 57)"

definition digit_value :: "char \<Rightarrow> nat" where
  "digit_value c = of_char c - 48"

definition decimal :: "string \<Rightarrow> nat" where
  "decimal s = foldl (\<lambda>n c. 10 * n + digit_value c) 0 s"

definition to_lower :: "char \<Rightarrow> char" where
  "to_lower c = (if 65 \<le> (of_char c :: nat) \<and> (of_char c :: nat) \<le> 90 then char_of (of_char c + 32 :: nat) else c)"

definition starts_with :: "string \<Rightarrow> string \<Rightarrow> bool" where
  "starts_with p s = (take (length p) s = p)"

definition ends_with :: "string \<Rightarrow> string \<Rightarrow> bool" where
  "ends_with p s = (length p \<le> length s \<and> drop (length s - length p) s = p)"

text \<open>The string before and after the first occurrence of a nonempty one.\<close>

fun cut_at :: "string \<Rightarrow> string \<Rightarrow> (string \<times> string) option" where
  "cut_at sub [] = None"
| "cut_at sub (c # s) =
     (if starts_with sub (c # s) then Some ([], drop (length sub) (c # s))
      else map_option (\<lambda>(a, b). (c # a, b)) (cut_at sub s))"

definition js_trimStart :: "string \<Rightarrow> string" where
  "js_trimStart s = dropWhile js_space s"

text \<open>\<open>Number.parseInt(s, 10)\<close>: white space, a sign, and the longest run of digits; \<open>None\<close> is \<open>NaN\<close>.\<close>

definition parseInt10 :: "string \<Rightarrow> int option" where
  "parseInt10 s =
     (let t = dropWhile js_space s;
          (negative, u) = (case t of c # r \<Rightarrow> if c = CHR ''-'' then (True, r) else if c = CHR ''+'' then (False, r) else (False, t)
                                   | [] \<Rightarrow> (False, t));
          ds = takeWhile is_digit u
      in if ds = [] then None else Some (if negative then - int (decimal ds) else int (decimal ds)))"

section \<open>Splitting\<close>

lemma js_split_not_Nil [simp]: "js_split d s \<noteq> []"
  by (induction s) (auto split: list.split)

lemma js_split_none: "d \<notin> set s \<Longrightarrow> js_split d s = [s]"
  by (induction s) auto

lemma js_split_append: "js_split d (s @ d # t) = js_split d s @ js_split d t"
proof (induction s)
  case (Cons c s)
  obtain p ps where "js_split d s = p # ps" by (cases "js_split d s") auto
  with Cons show ?case by simp
qed simp

lemma js_join_split: "js_join d (js_split d s) = s"
proof (induction s)
  case (Cons c s)
  obtain p ps where p: "js_split d s = p # ps" by (cases "js_split d s") auto
  with Cons show ?case by (cases ps) auto
qed simp

lemma js_split_join: "ps \<noteq> [] \<Longrightarrow> (\<And>p. p \<in> set ps \<Longrightarrow> d \<notin> set p) \<Longrightarrow> js_split d (js_join d ps) = ps"
  by (induction d ps rule: js_join.induct) (simp_all add: js_split_append js_split_none)

lemma js_split_free: "p \<in> set (js_split d s) \<Longrightarrow> d \<notin> set p"
proof (induction s arbitrary: p)
  case (Cons c s)
  obtain q qs where "js_split d s = q # qs" by (cases "js_split d s") auto
  with Cons show ?case by (auto split: if_splits)
qed simp

lemma split_at: "c \<notin> set xs \<Longrightarrow> c \<notin> set ys \<Longrightarrow> xs @ c # as = ys @ c # bs \<Longrightarrow> xs = ys \<and> as = bs"
proof -
  assume "c \<notin> set xs" "c \<notin> set ys" and eq: "xs @ c # as = ys @ c # bs"
  have first: "takeWhile (\<lambda>x. x \<noteq> c) (zs @ c # ws) = zs" if "c \<notin> set zs" for zs ws
    using that by (induction zs) auto
  from first [OF \<open>c \<notin> set xs\<close>] first [OF \<open>c \<notin> set ys\<close>] eq show ?thesis by (metis append_same_eq list.inject same_append_eq)
qed

section \<open>Trimming\<close>

lemma js_trim_id: "s = [] \<or> \<not> js_space (hd s) \<and> \<not> js_space (last s) \<Longrightarrow> js_trim s = s"
proof (cases "s = []")
  case False
  assume "s = [] \<or> \<not> js_space (hd s) \<and> \<not> js_space (last s)"
  with False have "dropWhile js_space s = s" "dropWhile js_space (rev s) = rev s"
    by (simp_all add: dropWhile_eq_self_iff hd_rev)
  then show ?thesis by (simp add: js_trim_def)
qed (simp add: js_trim_def)

lemma js_trim_subset: "set (js_trim s) \<subseteq> set s"
  unfolding js_trim_def by (metis set_dropWhileD set_rev subsetI)

lemma ends_with_iff: "ends_with p s \<longleftrightarrow> (\<exists>x. s = x @ p)"
  by (auto simp: ends_with_def) (metis append_take_drop_id)

lemma cut_at_Some: "cut_at sub s = Some (a, b) \<Longrightarrow> s = a @ sub @ b"
proof (induction s arbitrary: a)
  case (Cons c s)
  show ?case
  proof (cases "starts_with sub (c # s)")
    case True
    then have "take (length sub) (c # s) = sub" by (simp add: starts_with_def)
    with True Cons.prems show ?thesis by (metis Pair_inject append_Nil append_take_drop_id cut_at.simps(2) option.inject)
  next
    case False
    with Cons.prems obtain a' where "a = c # a'" "cut_at sub s = Some (a', b)" by auto
    with Cons.IH show ?thesis by simp
  qed
qed simp

section \<open>Decimal numbers\<close>

fun show_nat :: "nat \<Rightarrow> string" where
  "show_nat n = (if n < 10 then [char_of (48 + n)] else show_nat (n div 10) @ [char_of (48 + n mod 10)])"

declare show_nat.simps [simp del]

lemma digit_char: "n < 10 \<Longrightarrow> is_digit (char_of (48 + n)) \<and> digit_value (char_of (48 + n)) = n"
  by (simp add: is_digit_def digit_value_def)

lemma show_nat_digits: "list_all is_digit (show_nat n)"
  by (induction n rule: show_nat.induct) (subst show_nat.simps, simp add: digit_char)

lemma decimal_snoc: "decimal (s @ [c]) = 10 * decimal s + digit_value c"
  by (simp add: decimal_def)

lemma decimal_show: "decimal (show_nat n) = n"
proof (induction n rule: show_nat.induct)
  case (1 n)
  show ?case
  proof (cases "n < 10")
    case True
    then show ?thesis by (subst show_nat.simps) (simp add: decimal_def digit_char)
  next
    case False
    then show ?thesis using 1 digit_char [of "n mod 10"] by (subst show_nat.simps) (simp add: decimal_snoc)
  qed
qed

section \<open>What parseInt reads\<close>

text \<open>
  A text that starts with a number, as \<open>parseInt\<close> understands it: blanks and a sign may come first,
  and what follows the digits is ignored.
\<close>

definition leading_number :: "string \<Rightarrow> int \<Rightarrow> bool" where
  "leading_number s k =
     (\<exists>blanks sign ds trailing. s = blanks @ sign @ ds @ trailing \<and> list_all js_space blanks \<and>
        sign \<in> {[], ''+'', ''-''} \<and> ds \<noteq> [] \<and> list_all is_digit ds \<and>
        (trailing = [] \<or> \<not> is_digit (hd trailing)) \<and>
        k = (if sign = ''-'' then - int (decimal ds) else int (decimal ds)))"

lemma digit_not_space: "is_digit c \<Longrightarrow> \<not> js_space c"
  by (auto simp: is_digit_def js_space_def)

lemma parseInt10_leading: "parseInt10 s = Some k \<longleftrightarrow> leading_number s k"
proof
  assume read: "parseInt10 s = Some k"
  define t where "t = dropWhile js_space s"
  define sign where "sign = (if t \<noteq> [] \<and> hd t \<in> {CHR ''+'', CHR ''-''} then [hd t] else [])"
  define u where "u = drop (length sign) t"
  define ds where "ds = takeWhile is_digit u"
  have t: "t = sign @ u" by (cases t) (auto simp: sign_def u_def)
  have u: "u = ds @ dropWhile is_digit u" by (simp add: ds_def)
  have "(case t of c # r \<Rightarrow> if c = CHR ''-'' then (True, r) else if c = CHR ''+'' then (False, r) else (False, t)
      | [] \<Rightarrow> (False, t)) = (sign = ''-'', u)"
    by (cases t) (auto simp: sign_def u_def)
  then have k: "ds \<noteq> []" "k = (if sign = ''-'' then - int (decimal ds) else int (decimal ds))"
    using read by (auto simp: parseInt10_def t_def [symmetric] ds_def [symmetric] Let_def split: if_splits)
  have "s = takeWhile js_space s @ sign @ ds @ dropWhile is_digit u"
    using t u by (metis t_def takeWhile_dropWhile_id)
  moreover have "list_all js_space (takeWhile js_space s)" "list_all is_digit ds"
    by (auto simp: list_all_iff ds_def dest: set_takeWhileD)
  moreover have "dropWhile is_digit u = [] \<or> \<not> is_digit (hd (dropWhile is_digit u))"
    using hd_dropWhile by blast
  moreover have "sign \<in> {[], ''+'', ''-''}" by (auto simp: sign_def)
  ultimately show "leading_number s k" unfolding leading_number_def using k by blast
next
  assume "leading_number s k"
  then obtain blanks sign ds trailing where s: "s = blanks @ sign @ ds @ trailing"
    and parts: "list_all js_space blanks" "sign \<in> {[], ''+'', ''-''}" "ds \<noteq> []" "list_all is_digit ds"
      "trailing = [] \<or> \<not> is_digit (hd trailing)"
    and k: "k = (if sign = ''-'' then - int (decimal ds) else int (decimal ds))"
    unfolding leading_number_def by blast
  obtain d ds' where d: "ds = d # ds'" "is_digit d" using parts(3,4) by (cases ds) auto
  have drop: "dropWhile js_space (blanks @ c # r) = c # r" if "\<not> js_space c" for c r
    using that parts(1) by (induction blanks) auto
  have "dropWhile js_space s = sign @ ds @ trailing"
    using parts(2) drop [of "hd (sign @ ds)" "tl (sign @ ds) @ trailing"] digit_not_space [OF d(2)]
    by (auto simp: s d(1) js_space_def)
  moreover have "takeWhile is_digit (ds @ trailing) = ds"
    using parts(4,5) by (cases trailing) (auto simp: list_all_iff takeWhile_append2)
  moreover have "d \<noteq> CHR ''-''" "d \<noteq> CHR ''+''" using d(2) by (auto simp: is_digit_def)
  ultimately show "parseInt10 s = Some k"
    using parts(2) k d by (auto simp: parseInt10_def Let_def)
qed

lemma parseInt10_digits: "list_all is_digit ds \<Longrightarrow> ds \<noteq> [] \<Longrightarrow> parseInt10 ds = Some (int (decimal ds))"
  unfolding parseInt10_leading leading_number_def
  by (intro exI [of _ "[]"] exI [of _ ds]) simp

end
