(* ===== verification/ClientIp.thy ===== *)
theory ClientIp
  imports JsStrings "HOL-Library.Code_Target_Nat" "HOL-Library.Code_Target_Int"
begin

unbundle bit_operations_syntax

text \<open>
  The address of a client behind trusted proxies (packages/relay/src/client-ip.ts): the parsers of
  addresses and CIDR blocks, the match of an address against the trusted proxies, and the walk
  through \<open>X-Forwarded-For\<close>. Addresses are natural numbers, as the code's \<open>bigint\<close>s.
\<close>

record TrustedProxy =
  tp_v6 :: bool
  tp_netBig :: nat
  tp_maskBits :: nat

record ip_address =
  ip_big :: nat
  ip_v6 :: bool

section \<open>Addresses\<close>

definition ipv4_part :: "string \<Rightarrow> bool" where
  "ipv4_part p = (length p \<in> {1..3} \<and> list_all is_digit p)"

fun ipv4_parts :: "nat \<Rightarrow> string list \<Rightarrow> nat option" where
  "ipv4_parts big [] = Some big"
| "ipv4_parts big (p # ps) =
     (if \<not> ipv4_part p then None
      else if decimal p > 255 then None
      else ipv4_parts (push_bit 8 big OR decimal p) ps)"

definition parseIpV4 :: "string \<Rightarrow> ip_address option" where
  "parseIpV4 s =
     (let parts = js_split CHR ''.'' s
      in if length parts \<noteq> 4 then None
         else map_option (\<lambda>big. \<lparr>ip_big = big, ip_v6 = False\<rparr>) (ipv4_parts 0 parts))"

definition hex_digit :: "char \<Rightarrow> bool" where
  "hex_digit c = (is_digit c \<or> to_lower c \<in> set ''abcdef'')"

definition hex_value :: "char \<Rightarrow> nat" where
  "hex_value c = (if is_digit c then digit_value c else of_char (to_lower c) - 87)"

definition hexadecimal :: "string \<Rightarrow> nat" where
  "hexadecimal s = foldl (\<lambda>n c. 16 * n + hex_value c) 0 s"

fun ipv6_parts :: "nat \<Rightarrow> string list \<Rightarrow> nat option" where
  "ipv6_parts big [] = Some big"
| "ipv6_parts big (p # ps) =
     (if \<not> (length p \<in> {1..4} \<and> list_all hex_digit p) then None
      else ipv6_parts (push_bit 16 big OR hexadecimal p) ps)"

text \<open>The string before and after the first \<open>::\<close>.\<close>

fun split_double_colon :: "string \<Rightarrow> (string \<times> string) option" where
  "split_double_colon [] = None"
| "split_double_colon (c # s) =
     (if c = CHR '':'' \<and> s \<noteq> [] \<and> hd s = CHR '':'' then Some ([], tl s)
      else map_option (\<lambda>(a, b). (c # a, b)) (split_double_colon s))"

definition parseIpV6 :: "string \<Rightarrow> ip_address option" where
  "parseIpV6 s =
     (case split_double_colon s of
        None \<Rightarrow>
          (let parts = js_split CHR '':'' s
           in if length parts \<noteq> 8 then None
              else map_option (\<lambda>big. \<lparr>ip_big = big, ip_v6 = True\<rparr>) (ipv6_parts 0 parts))
      | Some (head, tail) \<Rightarrow>
          (let headParts = (if head = [] then [] else js_split CHR '':'' head);
               tailParts = (if tail = [] then [] else js_split CHR '':'' tail);
               missing = 8 - int (length headParts) - int (length tailParts)
           in if missing < 0 then None
              else map_option (\<lambda>big. \<lparr>ip_big = big, ip_v6 = True\<rparr>)
                (ipv6_parts 0 (headParts @ replicate (nat missing) ''0'' @ tailParts))))"

text \<open>An IPv4-mapped address: the prefix \<open>::ffff:\<close> and four groups of one to three digits.\<close>

definition mapped_ipv4 :: "string \<Rightarrow> string option" where
  "mapped_ipv4 s =
     (let parts = js_split CHR ''.'' (drop 7 s)
      in if map to_lower (take 7 s) = ''::ffff:'' \<and> length parts = 4 \<and> list_all ipv4_part parts
         then Some (drop 7 s) else None)"

definition parseIp :: "string \<Rightarrow> ip_address option" where
  "parseIp s =
     (let stripped = takeWhile (\<lambda>c. c \<noteq> CHR ''%'') s
      in case mapped_ipv4 stripped of
           Some v4 \<Rightarrow> parseIpV4 v4
         | None \<Rightarrow> if CHR '':'' \<in> set stripped then parseIpV6 stripped else parseIpV4 stripped)"

section \<open>Trusted proxies\<close>

definition total_bits :: "bool \<Rightarrow> nat" where
  "total_bits v6 = (if v6 then 128 else 32)"

definition net_mask :: "bool \<Rightarrow> nat \<Rightarrow> nat" where
  "net_mask v6 maskBits =
     (if maskBits = 0 then 0 else push_bit (total_bits v6 - maskBits) (push_bit maskBits 1 - 1))"

definition parseCidr :: "string \<Rightarrow> TrustedProxy option" where
  "parseCidr spec =
     (let ipPart = takeWhile (\<lambda>c. c \<noteq> CHR ''/'') spec;
          maskPart = (if CHR ''/'' \<in> set spec then Some (tl (dropWhile (\<lambda>c. c \<noteq> CHR ''/'') spec)) else None)
      in case parseIp ipPart of
           None \<Rightarrow> None
         | Some ip \<Rightarrow>
             (case (case maskPart of None \<Rightarrow> Some (int (total_bits (ip_v6 ip))) | Some m \<Rightarrow> parseInt10 m) of
                None \<Rightarrow> None
              | Some maskBits \<Rightarrow>
                  if maskBits < 0 \<or> maskBits > int (total_bits (ip_v6 ip)) then None
                  else Some \<lparr>tp_v6 = ip_v6 ip, tp_netBig = ip_big ip AND net_mask (ip_v6 ip) (nat maskBits),
                             tp_maskBits = nat maskBits\<rparr>))"

definition parseTrustedProxies :: "string option \<Rightarrow> TrustedProxy list" where
  "parseTrustedProxies input =
     (case input of
        None \<Rightarrow> []
      | Some s \<Rightarrow>
          if s = '''' then []
          else List.map_filter parseCidr (filter (\<lambda>spec. spec \<noteq> '''') (map js_trim (js_split CHR '','' s))))"

definition net_matches :: "ip_address \<Rightarrow> TrustedProxy \<Rightarrow> bool" where
  "net_matches ip net =
     (tp_v6 net = ip_v6 ip \<and> ip_big ip AND net_mask (tp_v6 net) (tp_maskBits net) = tp_netBig net)"

definition ipMatchesAny :: "string \<Rightarrow> TrustedProxy list \<Rightarrow> bool" where
  "ipMatchesAny ip nets =
     (case parseIp ip of None \<Rightarrow> False | Some parsed \<Rightarrow> list_ex (net_matches parsed) nets)"

section \<open>The client's address\<close>

datatype header = Absent | One string | Many "string list"

definition header_chain :: "header \<Rightarrow> string option" where
  "header_chain h = (case h of Absent \<Rightarrow> None | One s \<Rightarrow> Some s | Many ss \<Rightarrow> Some (js_join CHR '','' ss))"

definition forwarded_entries :: "string \<Rightarrow> string list" where
  "forwarded_entries chain = filter (\<lambda>s. s \<noteq> '''') (map js_trim (js_split CHR '','' chain))"

definition getClientIp :: "string option \<Rightarrow> header \<Rightarrow> TrustedProxy list \<Rightarrow> string" where
  "getClientIp remoteAddress h trustedProxies =
     (let peer = (case remoteAddress of Some a \<Rightarrow> a | None \<Rightarrow> ''unknown'')
      in if trustedProxies = [] then peer
         else if \<not> ipMatchesAny peer trustedProxies then peer
         else case header_chain h of
           None \<Rightarrow> peer
         | Some chain \<Rightarrow>
             if chain = '''' then peer
             else (case find (\<lambda>candidate. \<not> ipMatchesAny candidate trustedProxies) (rev (forwarded_entries chain)) of
                     Some candidate \<Rightarrow> candidate
                   | None \<Rightarrow> peer))"

section \<open>Bits\<close>

lemma push_or: "d < 2 ^ k \<Longrightarrow> push_bit k n OR d = n * 2 ^ k + (d :: nat)"
proof -
  assume "d < 2 ^ k"
  then have d: "take_bit k d = d" by (simp add: take_bit_nat_eq_self_iff)
  have "push_bit k n AND take_bit k d = 0" by (rule bit_eqI) (simp add: bit_simps)
  then have "push_bit k n OR d = push_bit k n + d" unfolding d by (simp add: disjunctive_add_eq_or)
  then show ?thesis by (simp add: push_bit_eq_mult)
qed

lemma and_net_mask:
  assumes "m \<le> total_bits v6" and "a < 2 ^ total_bits v6"
  shows "a AND net_mask v6 m = push_bit (total_bits v6 - m) (drop_bit (total_bits v6 - m) a)"
proof (cases "m = 0")
  case True
  then show ?thesis using assms(2) by (simp add: net_mask_def drop_bit_eq_div)
next
  case False
  let ?h = "total_bits v6 - m"
  have "push_bit m 1 - 1 = (mask m :: nat)" by (simp add: mask_eq_exp_minus_1 push_bit_eq_mult)
  then have "a AND net_mask v6 m = a AND push_bit ?h (mask m)" using False by (simp add: net_mask_def)
  also have "\<dots> = push_bit ?h (take_bit m (drop_bit ?h a))"
    by (rule bit_eqI) (auto simp: bit_simps)
  also have "take_bit m (drop_bit ?h a) = drop_bit ?h a"
  proof -
    have "a < 2 ^ (?h + m)" using assms by simp
    then show ?thesis by (simp add: take_bit_nat_eq_self_iff drop_bit_eq_div power_add less_mult_imp_div_less ac_simps)
  qed
  finally show ?thesis .
qed

lemma same_network:
  assumes "m \<le> total_bits v6" "a < 2 ^ total_bits v6" "b < 2 ^ total_bits v6"
  shows "a AND net_mask v6 m = b AND net_mask v6 m \<longleftrightarrow>
    a div 2 ^ (total_bits v6 - m) = b div 2 ^ (total_bits v6 - m)"
  unfolding and_net_mask [OF assms(1,2)] and_net_mask [OF assms(1,3)]
  by (simp add: push_bit_eq_mult drop_bit_eq_div)

section \<open>The addresses that are read\<close>

lemma ipv4_parts_bound: "ipv4_parts big ps = Some r \<Longrightarrow> big < 2 ^ k \<Longrightarrow> r < 2 ^ (k + 8 * length ps)"
proof (induction ps arbitrary: big k)
  case (Cons p ps)
  then have d: "decimal p < 2 ^ 8" and rest: "ipv4_parts (push_bit 8 big OR decimal p) ps = Some r"
    by (auto split: if_splits)
  have "push_bit 8 big OR decimal p < 2 ^ (k + 8)"
    using push_or [OF d, of big] d Cons.prems(2) by (simp add: power_add)
  from Cons.IH [OF rest this] show ?case by (simp add: ac_simps)
qed simp

lemma hex_digit_value_less: "hex_digit c \<Longrightarrow> hex_value c < 16"
  by (auto simp: hex_digit_def hex_value_def is_digit_def digit_value_def)

lemma hexadecimal_less: "list_all hex_digit s \<Longrightarrow> hexadecimal s < 16 ^ length s"
proof (induction s rule: rev_induct)
  case (snoc c s)
  then have "hexadecimal s < 16 ^ length s" "hex_value c < 16" by (simp_all add: hex_digit_value_less)
  then show ?case by (simp add: hexadecimal_def)
qed (simp add: hexadecimal_def)

lemma ipv6_parts_bound: "ipv6_parts big ps = Some r \<Longrightarrow> big < 2 ^ k \<Longrightarrow> r < 2 ^ (k + 16 * length ps)"
proof (induction ps arbitrary: big k)
  case (Cons p ps)
  then have p: "length p \<le> 4" "list_all hex_digit p" and rest: "ipv6_parts (push_bit 16 big OR hexadecimal p) ps = Some r"
    by (auto split: if_splits)
  have "hexadecimal p < 16 ^ length p" using p(2) by (rule hexadecimal_less)
  also have "\<dots> \<le> 16 ^ 4" using p(1) by (rule power_increasing) simp
  finally have d: "hexadecimal p < 2 ^ 16" by simp
  have "push_bit 16 big OR hexadecimal p < 2 ^ (k + 16)"
    using push_or [OF d, of big] d Cons.prems(2) by (simp add: power_add)
  from Cons.IH [OF rest this] show ?case by (simp add: ac_simps)
qed simp

lemma parseIpV4_bound: "parseIpV4 s = Some ip \<Longrightarrow> \<not> ip_v6 ip \<and> ip_big ip < 2 ^ 32"
  using ipv4_parts_bound [of 0 "js_split CHR ''.'' s" _ 0]
  by (auto simp: parseIpV4_def Let_def split: if_splits)

lemma parseIpV6_bound: "parseIpV6 s = Some ip \<Longrightarrow> ip_v6 ip \<and> ip_big ip < 2 ^ 128"
proof -
  assume p: "parseIpV6 s = Some ip"
  have bound: "ip_v6 ip \<and> ip_big ip < 2 ^ 128"
    if "map_option (\<lambda>big. \<lparr>ip_big = big, ip_v6 = True\<rparr>) (ipv6_parts 0 parts) = Some ip" "length parts = 8" for parts
    using that ipv6_parts_bound [of 0 parts "ip_big ip" 0] by auto
  show ?thesis
  proof (cases "split_double_colon s")
    case None
    with p bound [of "js_split CHR '':'' s"] show ?thesis by (simp add: parseIpV6_def Let_def split: if_splits)
  next
    case (Some x)
    obtain head tail where x: "x = (head, tail)" by (cases x)
    define H where "H = (if head = [] then [] else js_split CHR '':'' head)"
    define T where "T = (if tail = [] then [] else js_split CHR '':'' tail)"
    let ?m = "8 - int (length H) - int (length T)"
    have "parseIpV6 s = (if ?m < 0 then None
        else map_option (\<lambda>big. \<lparr>ip_big = big, ip_v6 = True\<rparr>) (ipv6_parts 0 (H @ replicate (nat ?m) ''0'' @ T)))"
      by (simp add: parseIpV6_def Some x H_def T_def Let_def)
    with p have "\<not> ?m < 0"
      and "map_option (\<lambda>big. \<lparr>ip_big = big, ip_v6 = True\<rparr>) (ipv6_parts 0 (H @ replicate (nat ?m) ''0'' @ T)) = Some ip"
      by (metis option.distinct(1))+
    then show ?thesis by (intro bound) auto
  qed
qed

lemma parseIp_bound: "parseIp s = Some ip \<Longrightarrow> ip_big ip < 2 ^ total_bits (ip_v6 ip)"
  by (auto simp: parseIp_def total_bits_def Let_def dest: parseIpV4_bound parseIpV6_bound split: option.splits if_splits)

section \<open>Which addresses are trusted\<close>

text \<open>
  What a configuration entry means, stated without the code's readers: it is an address, or an
  address, a slash and a text that starts with a number of leading bits (\<open>leading_number\<close>: like
  \<open>parseInt\<close>, the code accepts white space and a sign before that number and ignores whatever
  follows its digits, so \<open>10.0.0.0/8x\<close> names the block \<open>10.0.0.0/8\<close>).
\<close>

definition names_block :: "string \<Rightarrow> ip_address \<times> nat \<Rightarrow> bool" where
  "names_block spec block =
     (\<exists>addr. CHR ''/'' \<notin> set addr \<and> parseIp addr = Some (fst block) \<and>
        (spec = addr \<and> snd block = total_bits (ip_v6 (fst block)) \<or>
         (\<exists>mask. spec = addr @ CHR ''/'' # mask \<and> leading_number mask (int (snd block)) \<and>
            snd block \<le> total_bits (ip_v6 (fst block)))))"

text \<open>The block as the code reads it: its address and how many leading bits count.\<close>

definition cidr_block :: "string \<Rightarrow> (ip_address \<times> nat) option" where
  "cidr_block spec =
     (case parseIp (takeWhile (\<lambda>c. c \<noteq> CHR ''/'') spec) of
        None \<Rightarrow> None
      | Some ip \<Rightarrow>
          (let bits = (if CHR ''/'' \<in> set spec
                       then parseInt10 (tl (dropWhile (\<lambda>c. c \<noteq> CHR ''/'') spec)) else Some (int (total_bits (ip_v6 ip))))
           in case bits of
                None \<Rightarrow> None
              | Some m \<Rightarrow> if 0 \<le> m \<and> m \<le> int (total_bits (ip_v6 ip)) then Some (ip, nat m) else None))"

definition in_block :: "ip_address \<Rightarrow> ip_address \<times> nat \<Rightarrow> bool" where
  "in_block a block =
     (ip_v6 a = ip_v6 (fst block) \<and>
      ip_big a div 2 ^ (total_bits (ip_v6 a) - snd block) = ip_big (fst block) div 2 ^ (total_bits (ip_v6 a) - snd block))"

lemma cidr_block_names: "cidr_block spec = Some block \<longleftrightarrow> names_block spec block"
proof (cases "CHR ''/'' \<in> set spec")
  case True
  then obtain addr mask where spec: "spec = addr @ CHR ''/'' # mask" "CHR ''/'' \<notin> set addr"
    by (meson split_list_first)
  have uniq: "addr' = addr \<and> mask' = mask"
    if "spec = addr' @ CHR ''/'' # mask'" "CHR ''/'' \<notin> set addr'" for addr' mask'
    using split_at [OF that(2) spec(2) trans [OF that(1) [symmetric] spec(1)]] .
  have "takeWhile (\<lambda>c. c \<noteq> CHR ''/'') spec = addr \<and> dropWhile (\<lambda>c. c \<noteq> CHR ''/'') spec = CHR ''/'' # mask"
    using spec(2) unfolding spec(1) by (induction addr) auto
  then have "cidr_block spec = Some block \<longleftrightarrow> parseIp addr = Some (fst block) \<and>
      parseInt10 mask = Some (int (snd block)) \<and> snd block \<le> total_bits (ip_v6 (fst block))"
    using True by (cases block) (auto simp: cidr_block_def Let_def split: option.splits)
  also have "\<dots> \<longleftrightarrow> names_block spec block"
    unfolding names_block_def parseInt10_leading using uniq spec True by blast
  finally show ?thesis .
next
  case False
  then have "takeWhile (\<lambda>c. c \<noteq> CHR ''/'') spec = spec" by (auto simp: takeWhile_eq_all_conv)
  then have "cidr_block spec = map_option (\<lambda>ip. (ip, total_bits (ip_v6 ip))) (parseIp spec)"
    unfolding cidr_block_def using False by (simp only:) (simp split: option.split)
  moreover have "names_block spec block \<longleftrightarrow> parseIp spec = Some (fst block) \<and> snd block = total_bits (ip_v6 (fst block))"
    unfolding names_block_def using False by fastforce
  ultimately show ?thesis by (cases block) auto
qed

lemma cidr_block_bound:
  "cidr_block spec = Some (b, m) \<Longrightarrow> m \<le> total_bits (ip_v6 b) \<and> ip_big b < 2 ^ total_bits (ip_v6 b)"
  by (auto simp: cidr_block_def Let_def dest: parseIp_bound split: option.splits if_splits)

lemma parseCidr_block:
  "parseCidr spec = map_option (\<lambda>(b, m). \<lparr>tp_v6 = ip_v6 b, tp_netBig = ip_big b AND net_mask (ip_v6 b) m, tp_maskBits = m\<rparr>)
     (cidr_block spec)"
  by (auto simp: parseCidr_def cidr_block_def Let_def split: option.split)

lemma net_matches_block:
  assumes "cidr_block spec = Some (b, m)" and "parseIp s = Some a"
  shows "net_matches a \<lparr>tp_v6 = ip_v6 b, tp_netBig = ip_big b AND net_mask (ip_v6 b) m, tp_maskBits = m\<rparr> \<longleftrightarrow> in_block a (b, m)"
proof (cases "ip_v6 a = ip_v6 b")
  case True
  with same_network [of m "ip_v6 a" "ip_big a" "ip_big b"] cidr_block_bound [OF assms(1)] parseIp_bound [OF assms(2)]
  show ?thesis by (simp add: net_matches_def in_block_def)
qed (auto simp: net_matches_def in_block_def)

lemma block_not_blank: "cidr_block '''' = None"
  by code_simp

text \<open>
  C22 The trusted proxies are exactly those configured. Whatever the comma-separated configuration
  holds, an address counts as trusted exactly if one of the blocks its entries name has the same
  address family and agrees with it in all leading bits the block names. Entries that name no block
  have no effect: those without an address that \<open>parseIp\<close> reads, and those with a slash that is not
  followed by a number of bits the family has. What follows that number is ignored, although the
  comment of \<open>parseTrustedProxies\<close> says that malformed entries are dropped.
\<close>
theorem trusted_proxies_exact:
  "ipMatchesAny ip (parseTrustedProxies (Some cfg)) \<longleftrightarrow>
     (\<exists>a. parseIp ip = Some a \<and> (\<exists>spec \<in> set (js_split CHR '','' cfg). \<exists>block. names_block (js_trim spec) block \<and> in_block a block))"
proof -
  have mem: "net \<in> set (parseTrustedProxies (Some cfg)) \<longleftrightarrow>
      (\<exists>spec \<in> set (js_split CHR '','' cfg). parseCidr (js_trim spec) = Some net)" for net
  proof (cases "cfg = ''''")
    case True
    have "parseCidr (js_trim '''') = None" by (simp add: parseCidr_block block_not_blank js_trim_def)
    with True show ?thesis by (simp add: parseTrustedProxies_def)
  next
    case False
    have "parseCidr '''' = None" by (simp add: parseCidr_block block_not_blank)
    with False show ?thesis
      by (force simp: parseTrustedProxies_def List.map_filter_def image_iff)
  qed
  have "list_ex (net_matches a) (parseTrustedProxies (Some cfg)) \<longleftrightarrow>
      (\<exists>spec \<in> set (js_split CHR '','' cfg). \<exists>block. cidr_block (js_trim spec) = Some block \<and> in_block a block)"
    if a: "parseIp ip = Some a" for a
  proof
    assume "list_ex (net_matches a) (parseTrustedProxies (Some cfg))"
    then obtain net where n: "net \<in> set (parseTrustedProxies (Some cfg))" "net_matches a net" by (auto simp only: list_ex_iff)
    with mem obtain spec where net: "net_matches a net" "spec \<in> set (js_split CHR '','' cfg)" "parseCidr (js_trim spec) = Some net"
      by blast
    then obtain b m where "cidr_block (js_trim spec) = Some (b, m)"
      "net = \<lparr>tp_v6 = ip_v6 b, tp_netBig = ip_big b AND net_mask (ip_v6 b) m, tp_maskBits = m\<rparr>"
      by (auto simp: parseCidr_block)
    with net_matches_block [OF this(1) a] net(1,2)
    show "\<exists>spec \<in> set (js_split CHR '','' cfg). \<exists>block. cidr_block (js_trim spec) = Some block \<and> in_block a block" by blast
  next
    assume "\<exists>spec \<in> set (js_split CHR '','' cfg). \<exists>block. cidr_block (js_trim spec) = Some block \<and> in_block a block"
    then obtain spec b m where spec: "spec \<in> set (js_split CHR '','' cfg)" "cidr_block (js_trim spec) = Some (b, m)" "in_block a (b, m)"
      by auto
    from net_matches_block [OF spec(2) a] spec(3)
    have "net_matches a \<lparr>tp_v6 = ip_v6 b, tp_netBig = ip_big b AND net_mask (ip_v6 b) m, tp_maskBits = m\<rparr>" by blast
    moreover have "parseCidr (js_trim spec) = Some \<lparr>tp_v6 = ip_v6 b, tp_netBig = ip_big b AND net_mask (ip_v6 b) m, tp_maskBits = m\<rparr>"
      using spec(2) by (simp add: parseCidr_block)
    ultimately show "list_ex (net_matches a) (parseTrustedProxies (Some cfg))" unfolding list_ex_iff using spec(1) mem by blast
  qed
  then show ?thesis unfolding cidr_block_names [symmetric] by (auto simp: ipMatchesAny_def split: option.split)
qed

section \<open>Forwarded addresses\<close>

lemma forwarded_join:
  "ps \<noteq> [] \<Longrightarrow> (\<And>p. p \<in> set ps \<Longrightarrow> CHR '','' \<notin> set p) \<Longrightarrow>
   forwarded_entries (js_join CHR '','' ps) = filter (\<lambda>s. s \<noteq> '''') (map js_trim ps)"
  by (simp add: forwarded_entries_def js_split_join)

lemma find_rev_last: "P x \<Longrightarrow> (\<And>y. y \<in> set ys \<Longrightarrow> \<not> P y) \<Longrightarrow> find P (rev (xs @ x # ys)) = Some x"
proof -
  assume x: "P x" and ys: "\<And>y. y \<in> set ys \<Longrightarrow> \<not> P y"
  have "find P (zs @ x # ws) = Some x" if "\<forall>z \<in> set zs. \<not> P z" for zs ws
    using that x by (induction zs) auto
  from this [of "rev ys" "rev xs"] ys show ?thesis by simp
qed

text \<open>
  C21 A client cannot forge its address. The address of an untrusted peer is that of its socket,
  whatever headers it sends. Behind trusted proxies it is the last address of the forwarding chain
  that is not itself a trusted proxy, whatever was written to its left; and the result never is the
  address of a trusted proxy, other than the peer's own.
\<close>
theorem client_ip_not_forgeable:
  assumes "ipMatchesAny proxy nets" and "\<not> ipMatchesAny peer nets"
    and "list_all (\<lambda>p. CHR '','' \<notin> set p) (spoofed @ client # proxies)"
    and "js_trim client \<noteq> ''''" and "\<not> ipMatchesAny (js_trim client) nets"
    and "list_all (\<lambda>p. ipMatchesAny (js_trim p) nets) proxies"
  shows "getClientIp (Some peer) h nets = peer \<and>
    getClientIp (Some proxy) (One (js_join CHR '','' (spoofed @ client # proxies))) nets = js_trim client \<and>
    (getClientIp (Some any) h nets = any \<or> \<not> ipMatchesAny (getClientIp (Some any) h nets) nets)"
proof (intro conjI)
  show "getClientIp (Some peer) h nets = peer" using assms(2) by (simp add: getClientIp_def)
  have nets: "nets \<noteq> []" using assms(1) by (auto simp: ipMatchesAny_def split: option.splits)
  let ?chain = "js_join CHR '','' (spoofed @ client # proxies)" and ?new = "\<lambda>s. \<not> ipMatchesAny s nets"
  have entries: "forwarded_entries ?chain = filter (\<lambda>s. s \<noteq> '''') (map js_trim spoofed) @ js_trim client #
      filter (\<lambda>s. s \<noteq> '''') (map js_trim proxies)"
  proof (subst forwarded_join)
    show "CHR '','' \<notin> set p" if "p \<in> set (spoofed @ client # proxies)" for p
      using that assms(3) unfolding list_all_iff by blast
  qed (simp_all add: assms(4))
  have "find ?new (rev (forwarded_entries ?chain)) = Some (js_trim client)"
    unfolding entries by (rule find_rev_last) (use assms(5,6) in \<open>auto simp: list_all_iff\<close>)
  moreover have "?chain \<noteq> ''''"
  proof
    assume "?chain = ''''"
    then have "forwarded_entries ?chain = []" by (simp add: forwarded_entries_def js_trim_def)
    then show False by (simp add: entries)
  qed
  ultimately show "getClientIp (Some proxy) (One ?chain) nets = js_trim client"
    using assms(1) nets by (simp add: getClientIp_def header_chain_def)
  show "getClientIp (Some any) h nets = any \<or> ?new (getClientIp (Some any) h nets)"
    by (auto simp: getClientIp_def find_Some_iff Let_def split: option.splits)
qed

lemma sample_proxies:
  "ipMatchesAny ''10.1.2.3'' (parseTrustedProxies (Some ''10.0.0.0/8, fd00::/8''))"
  "\<not> ipMatchesAny ''203.0.113.9'' (parseTrustedProxies (Some ''10.0.0.0/8, fd00::/8''))"
  "ipMatchesAny (js_trim '' fd12::1'') (parseTrustedProxies (Some ''10.0.0.0/8, fd00::/8''))"
  "js_trim '' 203.0.113.9'' = ''203.0.113.9''"
  by code_simp+

theorem client_ip_not_forgeable_witness:
  "getClientIp (Some ''10.1.2.3'') (One ''127.0.0.1, 203.0.113.9, fd12::1'') (parseTrustedProxies (Some ''10.0.0.0/8, fd00::/8'')) =
     ''203.0.113.9''"
proof -
  have comma: "list_all (\<lambda>p. CHR '','' \<notin> set p) ([''127.0.0.1''] @ '' 203.0.113.9'' # ['' fd12::1''])" by simp
  have client: "js_trim '' 203.0.113.9'' \<noteq> ''''"
    "\<not> ipMatchesAny (js_trim '' 203.0.113.9'') (parseTrustedProxies (Some ''10.0.0.0/8, fd00::/8''))"
    using sample_proxies(2,4) by simp_all
  have "list_all (\<lambda>p. ipMatchesAny (js_trim p) (parseTrustedProxies (Some ''10.0.0.0/8, fd00::/8''))) ['' fd12::1'']"
    using sample_proxies(3) by simp
  from client_ip_not_forgeable [OF sample_proxies(1,2) comma client this]
  have "getClientIp (Some ''10.1.2.3'') (One (js_join CHR '','' ([''127.0.0.1''] @ '' 203.0.113.9'' # ['' fd12::1''])))
    (parseTrustedProxies (Some ''10.0.0.0/8, fd00::/8'')) = js_trim '' 203.0.113.9''" by blast  then show ?thesis unfolding sample_proxies(4) js_join.simps append.simps .
qed

end
