(* ===== verification/OriginPolicy.thy ===== *)
theory OriginPolicy
  imports JsStrings
begin

text \<open>
  Which web origins may use the relay (packages/relay/src/origin-policy.ts): the parser of the
  configured list, the check of an \<open>Origin\<close> header and the CORS answer. The constructor \<open>new URL\<close> of
  the runtime is the parameter \<open>url\<close>, \<open>None\<close> where it throws.
\<close>

section \<open>Data\<close>

definition DEFAULT_RELAY_ALLOWED_ORIGINS :: "string list" where
  "DEFAULT_RELAY_ALLOWED_ORIGINS =
     [''https://yepanywhere.com'', ''https://*.yepanywhere.com'', ''https://ya.graehl.org'',
      ''chrome-extension://dgeameddpnggdeenoekpiaacfghdodch'']"

datatype RelayAllowedOriginRule =
    Exact (rule_origin: string)
  | Wildcard (rule_protocol: string) (rule_suffix: string) (rule_port: string)

record RelayAllowedOriginPolicy =
  op_allowAll :: bool
  op_rules :: "RelayAllowedOriginRule list"
  op_invalidEntries :: "string list"

record parsed_url =
  ul_protocol :: string
  ul_username :: string
  ul_password :: string
  ul_pathname :: string
  ul_search :: string
  ul_hash :: string
  ul_origin :: string
  ul_hostname :: string
  ul_port :: string

record ParsedHttpOrigin =
  po_origin :: string
  po_protocol :: string
  po_hostname :: string
  po_port :: string

section \<open>Origins and rules\<close>

definition isHttpProtocol :: "string \<Rightarrow> bool" where
  "isHttpProtocol protocol = (protocol = ''http:'' \<or> protocol = ''https:'')"

definition normalizePort :: "string \<Rightarrow> string \<Rightarrow> string" where
  "normalizePort protocol port =
     (if (protocol = ''http:'' \<and> port = ''80'') \<or> (protocol = ''https:'' \<and> port = ''443'') then '''' else port)"

definition parseHttpOrigin :: "(string \<Rightarrow> parsed_url option) \<Rightarrow> string \<Rightarrow> ParsedHttpOrigin option" where
  "parseHttpOrigin url value =
     (case url value of
        None \<Rightarrow> None
      | Some u \<Rightarrow>
          if \<not> isHttpProtocol (ul_protocol u) then None
          else if ul_username u \<noteq> '''' \<or> ul_password u \<noteq> '''' \<or> ul_pathname u \<noteq> ''/'' \<or> ul_search u \<noteq> '''' \<or> ul_hash u \<noteq> ''''
          then None
          else Some \<lparr>po_origin = ul_origin u, po_protocol = ul_protocol u, po_hostname = map to_lower (ul_hostname u),
                     po_port = ul_port u\<rparr>)"

definition lower_or_digit :: "char \<Rightarrow> bool" where
  "lower_or_digit c = (c \<in> set ''abcdefghijklmnopqrstuvwxyz'' \<or> is_digit c)"

definition valid_label :: "string \<Rightarrow> bool" where
  "valid_label label =
     (label \<noteq> '''' \<and> length label \<le> 63 \<and>
      lower_or_digit (hd label) \<and> lower_or_digit (last label) \<and> list_all (\<lambda>c. lower_or_digit c \<or> c = CHR ''-'') label)"

definition isValidHostname :: "string \<Rightarrow> bool" where
  "isValidHostname hostname =
     (if hostname = '''' \<or> length hostname > 253 then False else list_all valid_label (js_split CHR ''.'' hostname))"

text \<open>The groups of the regular expression for a wildcard rule: protocol, host suffix and port.\<close>

definition wildcard_groups :: "string \<Rightarrow> (string \<times> string \<times> string option) option" where
  "wildcard_groups value =
     (case (if starts_with ''http://*.'' value then Some (''http'', drop 9 value)
            else if starts_with ''https://*.'' value then Some (''https'', drop 10 value) else None) of
        None \<Rightarrow> None
      | Some (protocol, rest) \<Rightarrow>
          (let host = takeWhile (\<lambda>c. c \<notin> set ''/:?#'') rest; after = dropWhile (\<lambda>c. c \<notin> set ''/:?#'') rest
           in if host = '''' then None
              else (case after of
                      [] \<Rightarrow> Some (protocol, host, None)
                    | c # port \<Rightarrow>
                        if c = CHR '':'' \<and> length port \<in> {1..5} \<and> list_all is_digit port
                        then Some (protocol, host, Some port) else None)))"

definition parseWildcardRule :: "string \<Rightarrow> RelayAllowedOriginRule option" where
  "parseWildcardRule value =
     (case wildcard_groups value of
        None \<Rightarrow> None
      | Some (p, host, port) \<Rightarrow>
          (let protocol = p @ '':''; hostnameSuffix = map to_lower host; portValue = (case port of Some v \<Rightarrow> v | None \<Rightarrow> '''')
           in if \<not> isValidHostname hostnameSuffix then None
              else if portValue \<noteq> '''' \<and>
                (case parseInt10 portValue of None \<Rightarrow> True | Some n \<Rightarrow> n < 1 \<or> n > 65535) then None
              else Some (Wildcard protocol hostnameSuffix (normalizePort protocol portValue))))"

definition isChromeExtensionOrigin :: "string \<Rightarrow> bool" where
  "isChromeExtensionOrigin value =
     (starts_with ''chrome-extension://'' value \<and> length (drop 19 value) = 32 \<and>
      list_all (\<lambda>c. c \<in> set ''abcdefghijklmnop'') (drop 19 value))"

definition parseRule :: "(string \<Rightarrow> parsed_url option) \<Rightarrow> string \<Rightarrow> RelayAllowedOriginRule option" where
  "parseRule url value =
     (if isChromeExtensionOrigin value then Some (Exact value)
      else case parseWildcardRule value of
        Some wildcard \<Rightarrow> Some wildcard
      | None \<Rightarrow> (case parseHttpOrigin url value of None \<Rightarrow> None | Some exact \<Rightarrow> Some (Exact (po_origin exact))))"

definition ruleKey :: "RelayAllowedOriginRule \<Rightarrow> string" where
  "ruleKey rule =
     (case rule of
        Exact origin \<Rightarrow> ''exact:'' @ origin
      | Wildcard protocol suffix port \<Rightarrow> ''wildcard:'' @ protocol @ ''//*.'' @ suffix @ '':'' @ port)"

section \<open>The policy\<close>

definition getEntries :: "string option \<Rightarrow> string list \<Rightarrow> string list" where
  "getEntries value defaults =
     (case value of
        None \<Rightarrow> defaults
      | Some v \<Rightarrow>
          if js_trim v = '''' then defaults
          else filter (\<lambda>e. e \<noteq> '''') (map js_trim (js_split CHR '','' v)))"

fun collect_rules ::
  "(string \<Rightarrow> parsed_url option) \<Rightarrow> string set \<Rightarrow> string list \<Rightarrow> RelayAllowedOriginRule list \<times> string list"
where
  "collect_rules url seen [] = ([], [])"
| "collect_rules url seen (entry # entries) =
     (case parseRule url entry of
        None \<Rightarrow> (case collect_rules url seen entries of (rules, invalid) \<Rightarrow> (rules, entry # invalid))
      | Some rule \<Rightarrow>
          if ruleKey rule \<in> seen then collect_rules url seen entries
          else (case collect_rules url (insert (ruleKey rule) seen) entries of (rules, invalid) \<Rightarrow> (rule # rules, invalid)))"

definition parseRelayAllowedOrigins ::
  "(string \<Rightarrow> parsed_url option) \<Rightarrow> string option \<Rightarrow> string list \<Rightarrow> RelayAllowedOriginPolicy"
where
  "parseRelayAllowedOrigins url value defaults =
     (let entries = getEntries value defaults
      in if ''*'' \<in> set entries then \<lparr>op_allowAll = True, op_rules = [], op_invalidEntries = []\<rparr>
         else (case collect_rules url {} entries of
                 (rules, invalid) \<Rightarrow> \<lparr>op_allowAll = False, op_rules = rules, op_invalidEntries = invalid\<rparr>))"

definition rule_allows :: "ParsedHttpOrigin \<Rightarrow> RelayAllowedOriginRule \<Rightarrow> bool" where
  "rule_allows parsed rule =
     (case rule of
        Exact origin \<Rightarrow> po_origin parsed = origin
      | Wildcard protocol suffix port \<Rightarrow>
          if po_protocol parsed \<noteq> protocol \<or> po_port parsed \<noteq> port then False
          else po_hostname parsed \<noteq> suffix \<and> ends_with (CHR ''.'' # suffix) (po_hostname parsed))"

definition isRelayOriginAllowed ::
  "(string \<Rightarrow> parsed_url option) \<Rightarrow> string option \<Rightarrow> RelayAllowedOriginPolicy \<Rightarrow> bool"
where
  "isRelayOriginAllowed url origin policy =
     (case origin of
        None \<Rightarrow> True
      | Some value \<Rightarrow>
          (let trimmedOrigin = js_trim value
           in if trimmedOrigin = '''' then False
              else if op_allowAll policy then True
              else if isChromeExtensionOrigin trimmedOrigin
              then list_ex (\<lambda>rule. rule = Exact trimmedOrigin) (op_rules policy)
              else (case parseHttpOrigin url trimmedOrigin of
                      None \<Rightarrow> False
                    | Some parsed \<Rightarrow> list_ex (rule_allows parsed) (op_rules policy))))"

definition getRelayCorsAllowOrigin ::
  "(string \<Rightarrow> parsed_url option) \<Rightarrow> string \<Rightarrow> RelayAllowedOriginPolicy \<Rightarrow> string option"
where
  "getRelayCorsAllowOrigin url origin policy =
     (let trimmedOrigin = js_trim origin
      in if trimmedOrigin = '''' then None
         else if op_allowAll policy then Some ''*''
         else if isRelayOriginAllowed url (Some trimmedOrigin) policy then Some trimmedOrigin else None)"

section \<open>Keys\<close>

definition wf_rule :: "RelayAllowedOriginRule \<Rightarrow> bool" where
  "wf_rule rule =
     (case rule of Exact _ \<Rightarrow> True | Wildcard protocol suffix port \<Rightarrow> isHttpProtocol protocol \<and> CHR '':'' \<notin> set suffix)"

lemma hostname_no_colon: "isValidHostname h \<Longrightarrow> CHR '':'' \<notin> set h"
proof
  assume v: "isValidHostname h" and c: "CHR '':'' \<in> set h"
  have "set h \<subseteq> set (js_join CHR ''.'' (js_split CHR ''.'' h))" by (simp add: js_join_split)
  also have "\<dots> \<subseteq> insert CHR ''.'' (\<Union> (set ` set (js_split CHR ''.'' h)))"
  proof -
    have "set (js_join d ps) \<subseteq> insert d (\<Union> (set ` set ps))" for d ps by (induction d ps rule: js_join.induct) auto
    then show ?thesis .
  qed
  finally obtain l where l: "l \<in> set (js_split CHR ''.'' h)" "CHR '':'' \<in> set l" using c by auto
  with v have "valid_label l" by (auto simp: isValidHostname_def list_all_iff split: if_splits)
  with l(2) have "lower_or_digit CHR '':'' \<or> CHR '':'' = CHR ''-''" by (auto simp: valid_label_def list_all_iff)
  then show False by (simp add: lower_or_digit_def is_digit_def)
qed

lemma wildcard_protocol: "wildcard_groups value = Some (p, host, port) \<Longrightarrow> p \<in> {''http'', ''https''}"
  by (auto simp: wildcard_groups_def Let_def split: option.splits if_splits list.splits)

lemma parseWildcardRule_wf: "parseWildcardRule value = Some r \<Longrightarrow> wf_rule r"
proof -
  assume "parseWildcardRule value = Some r"
  then obtain p host port q where g: "wildcard_groups value = Some (p, host, port)"
    and h: "isValidHostname (map to_lower host)" and r: "r = Wildcard (p @ '':'') (map to_lower host) q"
    by (auto simp: parseWildcardRule_def Let_def split: option.splits prod.splits if_splits)
  from wildcard_protocol [OF g] hostname_no_colon [OF h] show "wf_rule r"
    unfolding r wf_rule_def isHttpProtocol_def by (auto simp del: set_map)
qed

lemma parseRule_wf: "parseRule url value = Some r \<Longrightarrow> wf_rule r"
  by (auto simp: parseRule_def parseWildcardRule_wf wf_rule_def [of "Exact _"] split: if_splits option.splits)

lemma ruleKey_inj:
  assumes "wf_rule r" "wf_rule r'" "ruleKey r = ruleKey r'"
  shows "r = r'"
proof (cases r)
  case (Exact origin)
  with assms(3) show ?thesis by (cases r') (simp_all add: ruleKey_def)
next
  case w: (Wildcard protocol suffix port)
  show ?thesis
  proof (cases r')
    case (Exact origin)
    with w assms(3) show ?thesis by (simp add: ruleKey_def)
  next
    case w': (Wildcard protocol' suffix' port')
    from w w' assms have key: "protocol @ ''//*.'' @ suffix @ '':'' @ port = protocol' @ ''//*.'' @ suffix' @ '':'' @ port'"
      and p: "protocol \<in> {''http:'', ''https:''}" "protocol' \<in> {''http:'', ''https:''}"
      and s: "CHR '':'' \<notin> set suffix" "CHR '':'' \<notin> set suffix'"
      by (auto simp: ruleKey_def wf_rule_def isHttpProtocol_def)
    from key p have "protocol = protocol'" by auto
    with key have "suffix @ CHR '':'' # port = suffix' @ CHR '':'' # port'" by simp
    from split_at [OF s this] \<open>protocol = protocol'\<close> w w' show ?thesis by simp
  qed
qed

lemma collect_rules_set:
  "(\<And>r. ruleKey r \<in> seen \<Longrightarrow> wf_rule r \<Longrightarrow> r \<in> R) \<Longrightarrow>
   set (fst (collect_rules url seen entries)) \<union> R = {r. \<exists>e \<in> set entries. parseRule url e = Some r} \<union> R"
proof (induction entries arbitrary: seen R)
  case (Cons entry entries)
  show ?case
  proof (cases "parseRule url entry")
    case None
    with Cons.IH [of seen R, OF Cons.prems] show ?thesis by (cases "collect_rules url seen entries") simp
  next
    case (Some rule)
    note wf = parseRule_wf [OF Some]
    show ?thesis
    proof (cases "ruleKey rule \<in> seen")
      case True
      then have "rule \<in> R" using Cons.prems wf by blast
      with True Some Cons.IH [OF Cons.prems] show ?thesis by auto
    next
      case False
      have "r \<in> insert rule R" if "ruleKey r \<in> insert (ruleKey rule) seen" "wf_rule r" for r
        using that Cons.prems ruleKey_inj [OF _ wf] by blast
      from Cons.IH [OF this]
      have "set (fst (collect_rules url (insert (ruleKey rule) seen) entries)) \<union> insert rule R =
          {r. \<exists>e \<in> set entries. parseRule url e = Some r} \<union> insert rule R" .
      with False Some show ?thesis by (auto split: prod.split)
    qed
  qed
qed simp

lemma policy_rules:
  assumes "''*'' \<notin> set (getEntries value defaults)"
  shows "r \<in> set (op_rules (parseRelayAllowedOrigins url value defaults)) \<longleftrightarrow>
    (\<exists>e. e \<in> set (getEntries value defaults) \<and> parseRule url e = Some r)"
  using collect_rules_set [of "{}" "{}" url "getEntries value defaults"] assms
  by (auto simp: parseRelayAllowedOrigins_def split: prod.split)

lemma js_trim_idem [simp]: "js_trim (js_trim s) = js_trim s"
proof (rule js_trim_id)
  let ?u = "dropWhile js_space s"
  show "js_trim s = [] \<or> \<not> js_space (hd (js_trim s)) \<and> \<not> js_space (last (js_trim s))"
  proof (cases "js_trim s = []")
    case False
    have l: "\<not> js_space (last (js_trim s))"
      using False hd_dropWhile [of js_space "rev ?u"] by (simp add: js_trim_def last_rev)
    obtain v where v: "?u = js_trim s @ v"
      unfolding js_trim_def by (metis rev_append rev_rev_ident takeWhile_dropWhile_id)
    with False have "?u \<noteq> []" "hd (js_trim s) = hd ?u" by (auto simp: hd_append)
    with l show ?thesis using hd_dropWhile [of js_space s] by metis
  qed simp
qed

section \<open>Who is allowed\<close>

text \<open>
  The spelling of a wildcard entry: a scheme, \<open>://*.\<close>, a host name and perhaps a port of one to five
  digits between 1 and 65535. The host name is compared in lower case; the port as it is written,
  except that the port a scheme implies is dropped.
\<close>

definition wildcard_entry :: "string \<Rightarrow> string \<Rightarrow> string \<Rightarrow> string \<Rightarrow> bool" where
  "wildcard_entry entry protocol suffix port =
     (isHttpProtocol protocol \<and>
      (\<exists>host written. entry = protocol @ ''//*.'' @ host @ written \<and>
         list_all (\<lambda>c. c \<notin> set ''/:?#'') host \<and> suffix = map to_lower host \<and> isValidHostname suffix \<and>
         (written = [] \<and> port = [] \<or>
          (\<exists>ds. written = CHR '':'' # ds \<and> length ds \<in> {1..5} \<and> list_all is_digit ds \<and>
             decimal ds \<in> {1..65535} \<and> port = normalizePort protocol ds))))"

lemma starts_with_iff: "starts_with p s \<longleftrightarrow> (\<exists>x. s = p @ x)"
  unfolding starts_with_def by (metis append_eq_conv_conj append_take_drop_id)

lemma wildcard_scheme:
  "(if starts_with ''http://*.'' v then Some (''http'', drop 9 v)
    else if starts_with ''https://*.'' v then Some (''https'', drop 10 v) else None) = Some (p, rest) \<longleftrightarrow>
   p \<in> {''http'', ''https''} \<and> v = p @ ''://*.'' @ rest"
  by (auto simp: starts_with_iff)

lemma while_not: "list_all P xs \<Longrightarrow> ys = [] \<or> \<not> P (hd ys) \<Longrightarrow> takeWhile P (xs @ ys) = xs \<and> dropWhile P (xs @ ys) = ys"
  by (cases ys) (induction xs; simp)+

lemma wildcard_groups_iff:
  "wildcard_groups value = Some (p, host, port) \<longleftrightarrow>
     p \<in> {''http'', ''https''} \<and> host \<noteq> [] \<and> list_all (\<lambda>c. c \<notin> set ''/:?#'') host \<and>
     (\<exists>written. value = p @ ''://*.'' @ host @ written \<and>
        (port = None \<and> written = [] \<or>
         (\<exists>ds. port = Some ds \<and> written = CHR '':'' # ds \<and> length ds \<in> {1..5} \<and> list_all is_digit ds)))"
  (is "?code \<longleftrightarrow> ?spec")
proof
  let ?P = "\<lambda>c. c \<notin> set ''/:?#''"
  assume ?code
  then obtain rest where rest: "p \<in> {''http'', ''https''} \<and> value = p @ ''://*.'' @ rest"
    and read: "(let host = takeWhile ?P rest; after = dropWhile ?P rest
           in if host = '''' then None
              else (case after of
                      [] \<Rightarrow> Some (p, host, None)
                    | c # port \<Rightarrow>
                        if c = CHR '':'' \<and> length port \<in> {1..5} \<and> list_all is_digit port
                        then Some (p, host, Some port) else None)) = Some (p, host, port)"
    unfolding wildcard_groups_def wildcard_scheme [symmetric]
    by (auto simp del: not_Cons_self split: option.splits prod.splits if_splits list.splits simp: Let_def)
  then have host: "host = takeWhile ?P rest" "host \<noteq> []"
    and after: "dropWhile ?P rest = [] \<and> port = None \<or>
      (\<exists>ds. dropWhile ?P rest = CHR '':'' # ds \<and> port = Some ds \<and> length ds \<in> {1..5} \<and> list_all is_digit ds)"
    by (auto simp: Let_def split: if_splits list.splits)
  moreover have "list_all ?P host" unfolding host(1) by (auto simp: list_all_iff dest: set_takeWhileD)
  moreover have "rest = host @ dropWhile ?P rest" by (simp add: host(1))
  ultimately show ?spec using rest by metis
next
  let ?P = "\<lambda>c. c \<notin> set ''/:?#''"
  assume ?spec
  then obtain written where v: "p \<in> {''http'', ''https''} \<and> value = p @ ''://*.'' @ host @ written"
    and h: "host \<noteq> []" "list_all ?P host"
    and w: "port = None \<and> written = [] \<or>
      (\<exists>ds. port = Some ds \<and> written = CHR '':'' # ds \<and> length ds \<in> {1..5} \<and> list_all is_digit ds)" by blast
  have "takeWhile ?P (host @ written) = host" "dropWhile ?P (host @ written) = written"
    using while_not [OF h(2), of written] w by auto
  with v [folded wildcard_scheme] h(1) w show ?code
    by (auto simp: wildcard_groups_def Let_def)
qed

lemma isValidHostname_not_Nil: "isValidHostname (map f host) \<Longrightarrow> host \<noteq> []"
  by (auto simp: isValidHostname_def)

lemma parseWildcardRule_iff:
  "parseWildcardRule e = Some r \<longleftrightarrow> (\<exists>protocol suffix port. r = Wildcard protocol suffix port \<and> wildcard_entry e protocol suffix port)"
proof
  assume "parseWildcardRule e = Some r"
  then obtain p host port where g: "wildcard_groups e = Some (p, host, port)"
    and h: "isValidHostname (map to_lower host)"
    and port: "\<not> (case port of Some v \<Rightarrow> v | None \<Rightarrow> '''') \<noteq> '''' \<or>
      (\<exists>n. parseInt10 (case port of Some v \<Rightarrow> v | None \<Rightarrow> '''') = Some n \<and> 1 \<le> n \<and> n \<le> 65535)"
    and r: "r = Wildcard (p @ '':'') (map to_lower host) (normalizePort (p @ '':'') (case port of Some v \<Rightarrow> v | None \<Rightarrow> ''''))"
    by (auto simp: parseWildcardRule_def Let_def not_less split: option.splits prod.splits if_splits)
  from g obtain written where w: "p \<in> {''http'', ''https''}" "list_all (\<lambda>c. c \<notin> set ''/:?#'') host"
      "e = p @ ''://*.'' @ host @ written"
      "port = None \<and> written = [] \<or>
         (\<exists>ds. port = Some ds \<and> written = CHR '':'' # ds \<and> length ds \<in> {1..5} \<and> list_all is_digit ds)"
    unfolding wildcard_groups_iff by blast
  have "isHttpProtocol (p @ '':'')" using w(1) by (auto simp: isHttpProtocol_def)
  moreover have "written = [] \<and> normalizePort (p @ '':'') (case port of Some v \<Rightarrow> v | None \<Rightarrow> '''') = [] \<or>
      (\<exists>ds. written = CHR '':'' # ds \<and> length ds \<in> {1..5} \<and> list_all is_digit ds \<and> decimal ds \<in> {1..65535} \<and>
         normalizePort (p @ '':'') (case port of Some v \<Rightarrow> v | None \<Rightarrow> '''') = normalizePort (p @ '':'') ds)"
    using w(4)
  proof
    assume "\<exists>ds. port = Some ds \<and> written = CHR '':'' # ds \<and> length ds \<in> {1..5} \<and> list_all is_digit ds"
    then obtain ds where ds: "port = Some ds" "written = CHR '':'' # ds" "length ds \<in> {1..5}" "list_all is_digit ds" by blast
    then have "ds \<noteq> []" by auto
    with port ds parseInt10_digits [OF ds(4)] have "decimal ds \<in> {1..65535}" by auto
    with ds show ?thesis by auto
  qed (simp add: normalizePort_def)
  moreover have "e = (p @ '':'') @ ''//*.'' @ host @ written" using w(3) by simp
  ultimately show "\<exists>protocol suffix port. r = Wildcard protocol suffix port \<and> wildcard_entry e protocol suffix port"
    unfolding wildcard_entry_def r using w(2) h by blast
next
  assume "\<exists>protocol suffix port. r = Wildcard protocol suffix port \<and> wildcard_entry e protocol suffix port"
  then obtain protocol suffix port host written where r: "r = Wildcard protocol suffix port"
    and p: "isHttpProtocol protocol" and e: "e = protocol @ ''//*.'' @ host @ written"
    and h: "list_all (\<lambda>c. c \<notin> set ''/:?#'') host" "suffix = map to_lower host" "isValidHostname suffix"
    and w: "written = [] \<and> port = [] \<or>
      (\<exists>ds. written = CHR '':'' # ds \<and> length ds \<in> {1..5} \<and> list_all is_digit ds \<and>
             decimal ds \<in> {1..65535} \<and> port = normalizePort protocol ds)"
    unfolding wildcard_entry_def by blast
  obtain q where q: "protocol = q @ '':''" "q \<in> {''http'', ''https''}" using p by (auto simp: isHttpProtocol_def)
  have e': "e = q @ ''://*.'' @ host @ written" using e q(1) by simp
  note ne = isValidHostname_not_Nil [OF h(3) [unfolded h(2)]]
  from w show "parseWildcardRule e = Some r"
  proof
    assume w: "written = [] \<and> port = []"
    have "wildcard_groups e = Some (q, host, None)"
      unfolding wildcard_groups_iff using q(2) ne h(1) e' w by blast
    then show ?thesis using r h(2,3) w q(1) by (simp add: parseWildcardRule_def normalizePort_def)
  next
    assume "\<exists>ds. written = CHR '':'' # ds \<and> length ds \<in> {1..5} \<and> list_all is_digit ds \<and>
             decimal ds \<in> {1..65535} \<and> port = normalizePort protocol ds"
    then obtain ds where ds: "written = CHR '':'' # ds" "length ds \<in> {1..5}" "list_all is_digit ds"
        "decimal ds \<in> {1..65535}" "port = normalizePort protocol ds" by blast
    have "wildcard_groups e = Some (q, host, Some ds)"
      unfolding wildcard_groups_iff using q(2) ne h(1) e' ds by blast
    moreover have "parseInt10 ds = Some (int (decimal ds))" using parseInt10_digits [OF ds(3)] ds(2) by (cases ds) simp_all
    ultimately show ?thesis using r h(2,3) ds(4,5) q(1) by (simp add: parseWildcardRule_def Let_def)
  qed
qed

lemma parseRule_wildcard:
  "parseRule url e = Some (Wildcard protocol suffix port) \<longleftrightarrow> wildcard_entry e protocol suffix port"
proof (cases "isChromeExtensionOrigin e")
  case True
  then have "\<not> wildcard_entry e protocol suffix port"
    by (auto simp: isChromeExtensionOrigin_def starts_with_iff wildcard_entry_def isHttpProtocol_def)
  with True show ?thesis by (simp add: parseRule_def)
next
  case False
  have "parseWildcardRule e = Some (Wildcard protocol suffix port) \<longleftrightarrow> wildcard_entry e protocol suffix port"
    unfolding parseWildcardRule_iff by simp
  with False show ?thesis by (auto simp: parseRule_def split: option.splits)
qed

text \<open>What one configured entry allows.\<close>

definition entry_allows :: "(string \<Rightarrow> parsed_url option) \<Rightarrow> string \<Rightarrow> string \<Rightarrow> bool" where
  "entry_allows url entry origin =
     (if isChromeExtensionOrigin origin then parseRule url entry = Some (Exact origin)
      else (\<exists>p. parseHttpOrigin url origin = Some p \<and>
        (parseRule url entry = Some (Exact (po_origin p)) \<or>
         (\<exists>suffix sub. wildcard_entry entry (po_protocol p) suffix (po_port p) \<and>
            po_hostname p = sub @ CHR ''.'' # suffix))))"

lemma rule_allows_iff:
  "rule_allows p rule \<longleftrightarrow> rule = Exact (po_origin p) \<or>
     (\<exists>suffix sub. rule = Wildcard (po_protocol p) suffix (po_port p) \<and> po_hostname p = sub @ CHR ''.'' # suffix)"
proof (cases rule)
  case (Wildcard protocol suffix port)
  have "sub @ CHR ''.'' # suffix \<noteq> suffix" for sub by (metis append_Cons append_self_conv2 append_assoc append_eq_append_conv2 not_Cons_self2 append_Nil2 list.distinct(1) append_is_Nil_conv same_append_eq append_same_eq)
  then show ?thesis using Wildcard by (auto simp: rule_allows_def ends_with_iff)
qed (auto simp: rule_allows_def)

text \<open>The rules are those of the entries in their order, without repetitions of a rule.\<close>

lemma js_set_members_Cons: "js_set_members (x # xs) = x # filter (\<lambda>y. y \<noteq> x) (js_set_members xs)"
proof -
  have "remdups (ys @ [x]) = filter (\<lambda>y. y \<noteq> x) (remdups ys) @ [x]" for ys by (induction ys) auto
  then show ?thesis by (simp add: js_set_members_def rev_filter)
qed

lemma collect_rules_order:
  assumes "\<And>r. wf_rule r \<Longrightarrow> ruleKey r \<in> seen \<longleftrightarrow> r \<in> R"
  shows "collect_rules url seen entries =
    (filter (\<lambda>r. r \<notin> R) (js_set_members (List.map_filter (parseRule url) entries)),
     filter (\<lambda>e. parseRule url e = None) entries)"
  using assms
proof (induction entries arbitrary: seen R)
  case (Cons entry entries)
  show ?case
  proof (cases "parseRule url entry")
    case None
    with Cons.IH [OF Cons.prems] show ?thesis by (simp add: List.map_filter_simps)
  next
    case (Some rule)
    note wf = parseRule_wf [OF Some]
    show ?thesis
    proof (cases "rule \<in> R")
      case True
      then have "filter (\<lambda>r. r \<notin> R) (js_set_members (rule # rules)) = filter (\<lambda>r. r \<notin> R) (js_set_members rules)" for rules
        by (auto simp: js_set_members_Cons intro: filter_cong)
      with True Some Cons.IH [OF Cons.prems] Cons.prems [OF wf] show ?thesis
        by (simp add: List.map_filter_simps)
    next
      case False
      have "ruleKey r \<in> insert (ruleKey rule) seen \<longleftrightarrow> r \<in> insert rule R" if "wf_rule r" for r
        using Cons.prems [OF that] ruleKey_inj [OF that wf] by auto
      from Cons.IH [OF this] False Some Cons.prems [OF wf] show ?thesis
        by (simp add: List.map_filter_simps js_set_members_Cons conj_commute)
    qed
  qed
qed (simp add: List.map_filter_simps js_set_members_def)

text \<open>
  C23 The relay's origin policy. An \<open>Origin\<close> is allowed exactly if the configured list holds a star or
  an entry that allows it: the same extension origin, the same http(s) origin, or a wildcard
  \<open>scheme://*.suffix:port\<close> of its scheme, whose port (as it is written, the one the scheme implies
  dropped) is that of the origin and whose suffix is a proper parent of its host name. The CORS
  answer is the trimmed origin (or the star) exactly for allowed origins. Without a star, the rules
  of the policy are those of the valid entries, in their order and each once, and the invalid
  entries are reported in order. (A port written with leading zeros, as in \<open>:0443\<close>, is kept that way
  and never is the port of an origin.)
\<close>
theorem origin_policy_exact:
  "isRelayOriginAllowed url (Some origin) (parseRelayAllowedOrigins url value defaults) =
     (js_trim origin \<noteq> '''' \<and> (''*'' \<in> set (getEntries value defaults) \<or>
        (\<exists>e. e \<in> set (getEntries value defaults) \<and> entry_allows url e (js_trim origin)))) \<and>
   getRelayCorsAllowOrigin url origin (parseRelayAllowedOrigins url value defaults) =
     (if \<not> isRelayOriginAllowed url (Some origin) (parseRelayAllowedOrigins url value defaults) then None
      else Some (if ''*'' \<in> set (getEntries value defaults) then ''*'' else js_trim origin)) \<and>
   parseRelayAllowedOrigins url value defaults =
     (if ''*'' \<in> set (getEntries value defaults) then \<lparr>op_allowAll = True, op_rules = [], op_invalidEntries = []\<rparr>
      else \<lparr>op_allowAll = False,
            op_rules = js_set_members (List.map_filter (parseRule url) (getEntries value defaults)),
            op_invalidEntries = filter (\<lambda>e. parseRule url e = None) (getEntries value defaults)\<rparr>)"
proof (cases "''*'' \<in> set (getEntries value defaults)")
  case True
  then show ?thesis by (simp add: isRelayOriginAllowed_def getRelayCorsAllowOrigin_def parseRelayAllowedOrigins_def Let_def)
next
  case False
  let ?policy = "parseRelayAllowedOrigins url value defaults" and ?t = "js_trim origin"
  have all: "\<not> op_allowAll ?policy" using False by (simp add: parseRelayAllowedOrigins_def split: prod.split)
  have some: "list_ex P (op_rules ?policy) \<longleftrightarrow> (\<exists>e r. e \<in> set (getEntries value defaults) \<and> parseRule url e = Some r \<and> P r)" for P
    using policy_rules [OF False] unfolding list_ex_iff by blast
  have rules: "(\<exists>e r. e \<in> set (getEntries value defaults) \<and> parseRule url e = Some r \<and> rule_allows p r) \<longleftrightarrow>
      (\<exists>e. e \<in> set (getEntries value defaults) \<and> (parseRule url e = Some (Exact (po_origin p)) \<or>
         (\<exists>suffix sub. parseRule url e = Some (Wildcard (po_protocol p) suffix (po_port p)) \<and>
            po_hostname p = sub @ CHR ''.'' # suffix)))" for p
    unfolding rule_allows_iff by blast
  have "isRelayOriginAllowed url (Some origin) ?policy \<longleftrightarrow>
      ?t \<noteq> '''' \<and> (\<exists>e. e \<in> set (getEntries value defaults) \<and> entry_allows url e ?t)"
    using all unfolding entry_allows_def parseRule_wildcard [symmetric, of _ _ _ _ url]
    by (simp add: isRelayOriginAllowed_def Let_def some split: option.split) (use rules in blast)
  moreover have "getRelayCorsAllowOrigin url origin ?policy =
      (if \<not> isRelayOriginAllowed url (Some origin) ?policy then None else Some ?t)"
    using all by (auto simp: getRelayCorsAllowOrigin_def Let_def) (simp_all add: isRelayOriginAllowed_def Let_def)
  moreover have "?policy = \<lparr>op_allowAll = False,
      op_rules = js_set_members (List.map_filter (parseRule url) (getEntries value defaults)),
      op_invalidEntries = filter (\<lambda>e. parseRule url e = None) (getEntries value defaults)\<rparr>"
    using False collect_rules_order [of "{}" "{}" url "getEntries value defaults"]
    by (simp add: parseRelayAllowedOrigins_def Let_def)
  ultimately show ?thesis using False by simp
qed

end
