(* ===== verification/Pagination.thy ===== *)
theory Pagination
  imports JsStrings
begin

declare map_of_eq_Some_iff [simp del]

text \<open>
  The pages of a transcript (packages/server/src/sessions/pagination.ts): what counts as a user turn,
  the rows after a known row, the tail from a compaction boundary or from a user turn, and their
  intersection. A message is a JSON object; \<open>Date.parse\<close> is the parameter \<open>date\<close>, \<open>None\<close> for \<open>NaN\<close>.
\<close>

section \<open>Messages\<close>

definition field_string :: "json \<Rightarrow> string \<Rightarrow> string option" where
  "field_string m k = (case get_prop m k of Some (JStr s) \<Rightarrow> Some s | _ \<Rightarrow> None)"

definition getMessageId :: "json \<Rightarrow> string option" where
  "getMessageId m = (case field_string m ''uuid'' of Some u \<Rightarrow> Some u | None \<Rightarrow> field_string m ''id'')"

definition isCompactBoundary :: "json \<Rightarrow> bool" where
  "isCompactBoundary m = (field_string m ''type'' = Some ''system'' \<and> field_string m ''subtype'' = Some ''compact_boundary'')"

definition inner_content :: "json \<Rightarrow> json option" where
  "inner_content m = (case get_prop m ''message'' of Some r \<Rightarrow> get_prop r ''content'' | None \<Rightarrow> None)"

definition getMessageText :: "json \<Rightarrow> string option" where
  "getMessageText m = (case inner_content m of Some (JStr s) \<Rightarrow> Some s | _ \<Rightarrow> field_string m ''content'')"

definition getMessageContentArray :: "json \<Rightarrow> json list option" where
  "getMessageContentArray m =
     (case (case inner_content m of None \<Rightarrow> get_prop m ''content'' | Some JNull \<Rightarrow> get_prop m ''content'' | Some c \<Rightarrow> Some c) of
        Some (JArr blocks) \<Rightarrow> Some blocks
      | _ \<Rightarrow> None)"

definition text_block :: "json \<Rightarrow> string" where
  "text_block block =
     (if field_string block ''type'' = Some ''text'' then (case field_string block ''text'' of Some t \<Rightarrow> t | None \<Rightarrow> '''') else '''')"

definition newline :: char where
  "newline = char_of (10 :: nat)"

definition getTextContent :: "json \<Rightarrow> string option" where
  "getTextContent m =
     (case getMessageText m of
        Some t \<Rightarrow> Some t
      | None \<Rightarrow>
          (case getMessageContentArray m of
             None \<Rightarrow> None
           | Some content \<Rightarrow>
               (let textBlocks = filter (\<lambda>t. t \<noteq> '''') (map text_block content)
                in if textBlocks \<noteq> [] then Some (js_join newline textBlocks) else None)))"

definition hasOnlyToolResultContent :: "json \<Rightarrow> bool" where
  "hasOnlyToolResultContent m =
     (case getMessageContentArray m of
        None \<Rightarrow> False
      | Some content \<Rightarrow> content \<noteq> [] \<and> list_all (\<lambda>block. field_string block ''type'' = Some ''tool_result'') content)"

definition field_true :: "json \<Rightarrow> string \<Rightarrow> bool" where
  "field_true m k = (get_prop m k = Some (JBool True))"

definition isSlashCommandSkillBody :: "json \<Rightarrow> bool" where
  "isSlashCommandSkillBody m =
     (field_true m ''isMeta'' \<and>
      (case getTextContent m of Some t \<Rightarrow> starts_with ''Base directory for this skill:'' (js_trimStart t) | None \<Rightarrow> False))"

text \<open>\<open>s.replace(/<t>[\\s\\S]*?<\\/t>/g, "")\<close>: every piece from an opening tag to the next closing one goes.\<close>

lemma cut_at_shorter: "cut_at sub s = Some (a, b) \<Longrightarrow> sub \<noteq> '''' \<Longrightarrow> length b < length s"
  by (drule cut_at_Some) (cases sub; simp)

definition open_tag :: "string \<Rightarrow> string" where
  "open_tag t = ''<'' @ t @ ''>''"

definition close_tag :: "string \<Rightarrow> string" where
  "close_tag t = ''</'' @ t @ ''>''"

function strip_tag :: "string \<Rightarrow> string \<Rightarrow> string" where
  "strip_tag t s =
     (case cut_at (open_tag t) s of
        None \<Rightarrow> s
      | Some (before, rest) \<Rightarrow>
          (case cut_at (close_tag t) rest of None \<Rightarrow> s | Some (_, after) \<Rightarrow> before @ strip_tag t after))"
  by pat_completeness auto
termination
proof (relation "measure (\<lambda>(t, s). length s)", goal_cases)
  case (2 t s x before rest y z after)
  then have "length rest < length s" "length after < length rest"
    by (auto intro: cut_at_shorter simp: open_tag_def close_tag_def)
  then show ?case by simp
qed simp

declare strip_tag.simps [simp del]

definition enclosed :: "string \<Rightarrow> string \<Rightarrow> bool" where
  "enclosed t s =
     (starts_with (open_tag t) s \<and> ends_with (close_tag t) (drop (length (open_tag t)) s))"

definition isLocalCommandTranscriptText :: "string \<Rightarrow> bool" where
  "isLocalCommandTranscriptText text =
     (let trimmed = js_trim text;
          commandNameMatch =
            (case cut_at (open_tag ''command-name'') trimmed of
               None \<Rightarrow> False | Some (_, rest) \<Rightarrow> cut_at (close_tag ''command-name'') rest \<noteq> None);
          commandRemainder =
            js_trim (strip_tag ''command-args'' (strip_tag ''command-message'' (strip_tag ''command-name'' trimmed)))
      in enclosed ''local-command-caveat'' trimmed \<or> enclosed ''local-command-stdout'' trimmed \<or>
         (commandNameMatch \<and> commandRemainder = ''''))"

definition isSyntheticUserTurn :: "json \<Rightarrow> bool" where
  "isSyntheticUserTurn m =
     (if field_true m ''isSynthetic'' then True
      else if field_true m ''isCompactSummary'' then True
      else if hasOnlyToolResultContent m then True
      else if isSlashCommandSkillBody m then True
      else (case getMessageText m of Some t \<Rightarrow> isLocalCommandTranscriptText t | None \<Rightarrow> False))"

definition rewoundGroupIdOf :: "json \<Rightarrow> string option" where
  "rewoundGroupIdOf m = field_string m ''rewoundGroupId''"

definition message_role :: "json \<Rightarrow> string option" where
  "message_role m =
     (case field_string m ''role'' of
        Some r \<Rightarrow> Some r
      | None \<Rightarrow> (case get_prop m ''message'' of Some r \<Rightarrow> field_string r ''role'' | None \<Rightarrow> None))"

definition isUserTurn :: "json \<Rightarrow> bool" where
  "isUserTurn m =
     ((field_string m ''type'' = Some ''user'' \<or> message_role m = Some ''user'') \<and> \<not> isSyntheticUserTurn m \<and>
      rewoundGroupIdOf m = None)"

section \<open>After a known row\<close>

definition first_index :: "('a \<Rightarrow> bool) \<Rightarrow> 'a list \<Rightarrow> nat option" where
  "first_index P xs = find (\<lambda>i. P (xs ! i)) [0..<length xs]"

definition row_date :: "(string \<Rightarrow> int option) \<Rightarrow> json \<Rightarrow> string \<Rightarrow> int option" where
  "row_date date m k = (case field_string m k of Some s \<Rightarrow> date s | None \<Rightarrow> None)"

definition collectLateDeliveredQueueEntries :: "(string \<Rightarrow> int option) \<Rightarrow> json list \<Rightarrow> nat \<Rightarrow> json list" where
  "collectLateDeliveredQueueEntries date messages anchorIndex =
     (case row_date date (messages ! anchorIndex) ''timestamp'' of
        None \<Rightarrow> []
      | Some anchorTimestamp \<Rightarrow>
          filter (\<lambda>m. case row_date date m ''queueDeliveredAt'' of Some d \<Rightarrow> d > anchorTimestamp | None \<Rightarrow> False)
            (take anchorIndex messages))"

definition sliceAfterMessageIdWithMatch ::
  "(string \<Rightarrow> int option) \<Rightarrow> json list \<Rightarrow> string option \<Rightarrow> json list \<times> bool"
where
  "sliceAfterMessageIdWithMatch date messages afterMessageId =
     (case afterMessageId of
        None \<Rightarrow> (messages, False)
      | Some a \<Rightarrow>
          if a = '''' then (messages, False)
          else (case first_index (\<lambda>m. getMessageId m = Some a) messages of
                  None \<Rightarrow> (messages, False)
                | Some index \<Rightarrow> (collectLateDeliveredQueueEntries date messages index @ drop (index + 1) messages, True)))"

definition sliceAfterMessageId :: "(string \<Rightarrow> int option) \<Rightarrow> json list \<Rightarrow> string option \<Rightarrow> json list" where
  "sliceAfterMessageId date messages afterMessageId = fst (sliceAfterMessageIdWithMatch date messages afterMessageId)"

section \<open>Rewound groups\<close>

text \<open>The loop of \<open>windowStartOutsideRewoundGroups\<close>; a group seen twice ends it.\<close>

function window_start :: "json list \<Rightarrow> nat \<Rightarrow> string option \<Rightarrow> string set \<Rightarrow> nat" where
  "window_start messages start None seen = start"
| "window_start messages start (Some g) seen =
     (if g \<in> seen then start
      else case first_index (\<lambda>m. rewoundGroupIdOf m = Some g) messages of
        None \<Rightarrow> start
      | Some firstIdx \<Rightarrow>
          window_start messages (min start firstIdx) (field_string (messages ! firstIdx) ''rewoundParentGroupId'') (insert g seen))"
  by pat_completeness auto

definition group_ids :: "json list \<Rightarrow> string set" where
  "group_ids messages = {g. \<exists>m \<in> set messages. rewoundGroupIdOf m = Some g}"

lemma finite_group_ids [simp]: "finite (group_ids messages)"
proof -
  have "group_ids messages \<subseteq> (\<lambda>m. the (rewoundGroupIdOf m)) ` set messages" by (force simp: group_ids_def)
  then show ?thesis by (rule finite_subset) simp
qed

lemma first_index_Some:
  "first_index P xs = Some i \<longleftrightarrow> i < length xs \<and> P (xs ! i) \<and> (\<forall>j < i. \<not> P (xs ! j))"
proof -
  have "find (\<lambda>i. P (xs ! i)) [0..<length xs] = Some i \<longleftrightarrow>
      (\<exists>k < length xs. P (xs ! k) \<and> i = k \<and> (\<forall>j < k. \<not> P (xs ! j)))"
    unfolding find_Some_iff by auto
  then show ?thesis by (auto simp: first_index_def)
qed

lemma first_index_None: "first_index P xs = None \<longleftrightarrow> (\<forall>x \<in> set xs. \<not> P x)"
  by (auto simp: first_index_def find_None_iff all_set_conv_all_nth)

lemma first_index_group: "first_index (\<lambda>m. rewoundGroupIdOf m = Some g) messages = Some i \<Longrightarrow> g \<in> group_ids messages"
  by (auto simp: first_index_Some group_ids_def)

termination window_start
proof (relation "measure (\<lambda>(messages, _, _, seen). card (group_ids messages - seen))", goal_cases)
  case (2 messages start g seen firstIdx)
  then have "g \<in> group_ids messages - seen" by (simp add: first_index_group)
  then have "group_ids messages - insert g seen \<subset> group_ids messages - seen" by auto
  then show ?case by (simp add: psubset_card_mono)
qed simp

definition windowStartOutsideRewoundGroups :: "json list \<Rightarrow> nat \<Rightarrow> nat" where
  "windowStartOutsideRewoundGroups messages startIdx =
     window_start messages startIdx
       (if startIdx < length messages then rewoundGroupIdOf (messages ! startIdx) else None) {}"

section \<open>Pages\<close>

datatype truncation = CompactBoundary | UserTurn

record PaginationInfo =
  pi_hasOlderMessages :: bool
  pi_totalMessageCount :: nat
  pi_returnedMessageCount :: nat
  pi_truncatedBeforeMessageId :: "string option"
  pi_totalCompactions :: nat
  pi_totalUserTurns :: "nat option"
  pi_truncatedBy :: "truncation option"

record SliceResult =
  sl_messages :: "json list"
  sl_pagination :: PaginationInfo

definition first_id :: "json list \<Rightarrow> string option" where
  "first_id messages = (case messages of [] \<Rightarrow> None | m # _ \<Rightarrow> getMessageId m)"

definition indices :: "('a \<Rightarrow> bool) \<Rightarrow> 'a list \<Rightarrow> nat list" where
  "indices P xs = filter (\<lambda>i. P (xs ! i)) [0..<length xs]"

text \<open>\<open>xs[i] ?? 0\<close> for an index that may lie outside.\<close>

definition at_or_zero :: "nat list \<Rightarrow> int \<Rightarrow> nat" where
  "at_or_zero xs i = (if 0 \<le> i \<and> i < int (length xs) then xs ! nat i else 0)"

definition before_cursor :: "json list \<Rightarrow> string option \<Rightarrow> json list" where
  "before_cursor messages beforeMessageId =
     (case beforeMessageId of
        None \<Rightarrow> messages
      | Some b \<Rightarrow>
          if b = '''' then messages
          else (case first_index (\<lambda>m. getMessageId m = Some b) messages of
                  None \<Rightarrow> [] | Some idx \<Rightarrow> if idx > 0 then take idx messages else []))"

definition sliceAtCompactBoundaries :: "json list \<Rightarrow> int \<Rightarrow> string option \<Rightarrow> SliceResult" where
  "sliceAtCompactBoundaries messages tailCompactions beforeMessageId =
     (let totalMessageCount = length messages;
          workingMessages = before_cursor messages beforeMessageId;
          compactIndices = indices isCompactBoundary workingMessages;
          totalCompactions = length compactIndices
      in if int (length compactIndices) < tailCompactions then
           \<lparr>sl_messages = workingMessages,
            sl_pagination = \<lparr>pi_hasOlderMessages = False, pi_totalMessageCount = totalMessageCount,
              pi_returnedMessageCount = length workingMessages, pi_truncatedBeforeMessageId = None,
              pi_totalCompactions = totalCompactions, pi_totalUserTurns = None, pi_truncatedBy = None\<rparr>\<rparr>
         else
           (let sliceFromIdx = windowStartOutsideRewoundGroups workingMessages
                  (at_or_zero compactIndices (int (length compactIndices) - tailCompactions));
                slicedMessages = drop sliceFromIdx workingMessages
            in \<lparr>sl_messages = slicedMessages,
                sl_pagination = \<lparr>pi_hasOlderMessages = True, pi_totalMessageCount = totalMessageCount,
                  pi_returnedMessageCount = length slicedMessages, pi_truncatedBeforeMessageId = first_id slicedMessages,
                  pi_totalCompactions = totalCompactions, pi_totalUserTurns = None, pi_truncatedBy = None\<rparr>\<rparr>))"

definition sliceAtUserTurnBoundary :: "json list \<Rightarrow> int \<Rightarrow> string option \<Rightarrow> SliceResult" where
  "sliceAtUserTurnBoundary messages tailTurns fromMessageId =
     (let totalMessageCount = length messages;
          userTurnIndices = indices isUserTurn messages;
          totalCompactions = length (indices isCompactBoundary messages);
          totalUserTurns = length userTurnIndices;
          sliceFrom = (case fromMessageId of
                         Some f \<Rightarrow>
                           if f \<noteq> '''' then first_index (\<lambda>m. getMessageId m = Some f) messages
                           else if int totalUserTurns > tailTurns
                           then Some (at_or_zero userTurnIndices (int totalUserTurns - tailTurns)) else Some 0
                       | None \<Rightarrow>
                           if int totalUserTurns > tailTurns
                           then Some (at_or_zero userTurnIndices (int totalUserTurns - tailTurns)) else Some 0)
      in case sliceFrom of
           None \<Rightarrow>
             \<lparr>sl_messages = [],
              sl_pagination = \<lparr>pi_hasOlderMessages = False, pi_totalMessageCount = totalMessageCount,
                pi_returnedMessageCount = 0, pi_truncatedBeforeMessageId = None, pi_totalCompactions = totalCompactions,
                pi_totalUserTurns = Some totalUserTurns, pi_truncatedBy = Some UserTurn\<rparr>\<rparr>
         | Some i \<Rightarrow>
             (let sliceFromIdx = windowStartOutsideRewoundGroups messages i; slicedMessages = drop sliceFromIdx messages
              in \<lparr>sl_messages = slicedMessages,
                  sl_pagination = \<lparr>pi_hasOlderMessages = sliceFromIdx > 0, pi_totalMessageCount = totalMessageCount,
                    pi_returnedMessageCount = length slicedMessages,
                    pi_truncatedBeforeMessageId = (if sliceFromIdx > 0 then first_id slicedMessages else None),
                    pi_totalCompactions = totalCompactions, pi_totalUserTurns = Some totalUserTurns,
                    pi_truncatedBy = Some UserTurn\<rparr>\<rparr>))"

definition sliceAtCompactAndUserTurnBoundaries :: "json list \<Rightarrow> int \<Rightarrow> int \<Rightarrow> string option \<Rightarrow> SliceResult" where
  "sliceAtCompactAndUserTurnBoundaries messages tailCompactions tailTurns fromMessageId =
     (let compactSlice = sliceAtCompactBoundaries messages tailCompactions None;
          turnSlice = sliceAtUserTurnBoundary messages tailTurns fromMessageId;
          turnSelectorMissing = (fromMessageId \<noteq> None \<and> sl_messages turnSlice = []);
          turnWins = (\<not> turnSelectorMissing \<and> length (sl_messages turnSlice) < length (sl_messages compactSlice));
          selected = (if turnWins then turnSlice else compactSlice);
          hasOlderMessages = pi_hasOlderMessages (sl_pagination selected);
          firstId = first_id (sl_messages selected)
      in \<lparr>sl_messages = sl_messages selected,
          sl_pagination = \<lparr>pi_hasOlderMessages = hasOlderMessages, pi_totalMessageCount = length messages,
            pi_returnedMessageCount = length (sl_messages selected),
            pi_truncatedBeforeMessageId =
              (if hasOlderMessages \<and> (case firstId of Some f \<Rightarrow> f \<noteq> '''' | None \<Rightarrow> False) then firstId else None),
            pi_totalCompactions = pi_totalCompactions (sl_pagination compactSlice),
            pi_totalUserTurns = pi_totalUserTurns (sl_pagination turnSlice),
            pi_truncatedBy = (if hasOlderMessages then Some (if turnWins then UserTurn else CompactBoundary) else None)\<rparr>\<rparr>)"

section \<open>Windows do not open inside a rewound group\<close>

text \<open>The group that encloses a group, as the row that opens it says.\<close>

definition group_start :: "json list \<Rightarrow> string \<Rightarrow> nat option" where
  "group_start messages g = first_index (\<lambda>m. rewoundGroupIdOf m = Some g) messages"

definition parent_group :: "json list \<Rightarrow> string \<Rightarrow> string option" where
  "parent_group messages g =
     (case group_start messages g of Some i \<Rightarrow> field_string (messages ! i) ''rewoundParentGroupId'' | None \<Rightarrow> None)"

definition enclosing :: "json list \<Rightarrow> (string \<times> string) set" where
  "enclosing messages = {(g, h). parent_group messages g = Some h}"

definition start_covers :: "json list \<Rightarrow> nat \<Rightarrow> string set \<Rightarrow> bool" where
  "start_covers messages start G = (\<forall>g \<in> G. \<forall>k. group_start messages g = Some k \<longrightarrow> start \<le> k)"

lemma window_start_spec:
  assumes "start_covers messages start seen"
    and "enclosing messages `` seen \<subseteq> seen \<union> set_option cur"
  shows "window_start messages start cur seen \<le> start \<and>
    start_covers messages (window_start messages start cur seen) ((enclosing messages)\<^sup>* `` (seen \<union> set_option cur)) \<and>
    (window_start messages start cur seen = start \<or>
     (\<exists>g \<in> (enclosing messages)\<^sup>* `` set_option cur. group_start messages g = Some (window_start messages start cur seen)))"
  using assms
proof (induction messages start cur seen rule: window_start.induct)
  case (1 messages start seen)
  have "(enclosing messages)\<^sup>* `` seen = seen" using "1.prems"(2) by (intro Image_closed_trancl) simp
  with "1.prems"(1) show ?case by simp
next
  case (2 messages start g seen)
  have first: "first_index (\<lambda>m. rewoundGroupIdOf m = Some g) messages = group_start messages g" by (simp add: group_start_def)
  show ?case
  proof (cases "g \<in> seen")
    case True
    then have "(enclosing messages)\<^sup>* `` (seen \<union> {g}) = seen"
      using "2.prems"(2) Image_closed_trancl [of "enclosing messages" seen] by (simp add: insert_absorb)
    with True "2.prems"(1) show ?thesis by simp
  next
    case False
    show ?thesis
    proof (cases "group_start messages g")
      case None
      then have "enclosing messages `` {g} = {}" by (auto simp: enclosing_def parent_group_def)
      with "2.prems"(2) have "enclosing messages `` (seen \<union> {g}) \<subseteq> seen \<union> {g}" by auto
      then have "(enclosing messages)\<^sup>* `` (seen \<union> {g}) = seen \<union> {g}" by (rule Image_closed_trancl)
      moreover have "start_covers messages start (seen \<union> {g})" using "2.prems"(1) None by (auto simp: start_covers_def)
      ultimately show ?thesis using False None first by simp
    next
      case (Some k)
      let ?p = "field_string (messages ! k) ''rewoundParentGroupId''" and ?s = "min start k"
      have p: "parent_group messages g = ?p" using Some by (simp add: parent_group_def)
      have c: "start_covers messages ?s (insert g seen)" using "2.prems"(1) Some by (auto simp: start_covers_def)
      have e: "enclosing messages `` insert g seen \<subseteq> insert g seen \<union> set_option ?p"
        using "2.prems"(2) p by (auto simp: enclosing_def)
      let ?w = "window_start messages ?s ?p (insert g seen)"
      from "2.IH" [OF False, of k] Some c e first
      have IH: "?w \<le> ?s" "start_covers messages ?w ((enclosing messages)\<^sup>* `` (insert g seen \<union> set_option ?p))"
        "?w = ?s \<or> (\<exists>h \<in> (enclosing messages)\<^sup>* `` set_option ?p. group_start messages h = Some ?w)" by simp_all
      have w: "window_start messages start (Some g) seen = ?w" using False Some first by simp
      have "start_covers messages ?w ((enclosing messages)\<^sup>* `` (seen \<union> {g}))"
        using IH(2) by (auto simp: start_covers_def)
      moreover have "?w = start \<or> (\<exists>h \<in> (enclosing messages)\<^sup>* `` {g}. group_start messages h = Some ?w)"
        using IH(3)
      proof
        assume "?w = ?s"
        then show ?thesis using Some by (cases "start \<le> k") (auto simp: min_def)
      next
        assume "\<exists>h \<in> (enclosing messages)\<^sup>* `` set_option ?p. group_start messages h = Some ?w"
        then obtain q h where q: "?p = Some q" "(q, h) \<in> (enclosing messages)\<^sup>*" "group_start messages h = Some ?w" by auto
        have "(g, q) \<in> enclosing messages" using p q(1) by (simp add: enclosing_def)
        then have "(g, h) \<in> (enclosing messages)\<^sup>*" using q(2) by (rule converse_rtrancl_into_rtrancl)
        with q(3) show ?thesis by blast
      qed
      ultimately show ?thesis using IH(1) w by simp
    qed
  qed
qed

text \<open>
  C25 A page never opens inside a rewound group. The start of a window is moved back, at most to the
  header of a group that encloses its first row, directly or through other groups, and far enough
  that the headers of all these groups are in the window, even when the groups name each other in a
  circle.
\<close>
theorem window_opens_outside_groups:
  assumes "startIdx < length messages" and "start = windowStartOutsideRewoundGroups messages startIdx"
    and "rewoundGroupIdOf (messages ! startIdx) = Some g0"
  shows "start \<le> startIdx \<and>
    (\<forall>g k. (g0, g) \<in> (enclosing messages)\<^sup>* \<and> group_start messages g = Some k \<longrightarrow> start \<le> k) \<and>
    (start = startIdx \<or> (\<exists>g. (g0, g) \<in> (enclosing messages)\<^sup>* \<and> group_start messages g = Some start))"
  using window_start_spec [of messages startIdx "{}" "Some g0"] assms
  by (auto simp: windowStartOutsideRewoundGroups_def start_covers_def)

text \<open>A transcript whose last row lies in a group inside another group.\<close>

definition sample_row :: "string \<Rightarrow> (string \<times> string) list \<Rightarrow> json" where
  "sample_row uuid rest = JObj (map (\<lambda>(k, v). (k, JStr v)) ((''uuid'', uuid) # rest))"

definition sample_transcript :: "json list" where
  "sample_transcript =
     [sample_row ''a'' [(''type'', ''user'')],
      sample_row ''b'' [(''rewoundGroupId'', ''outer'')],
      sample_row ''c'' [(''type'', ''system''), (''subtype'', ''compact_boundary'')],
      sample_row ''d'' [(''rewoundGroupId'', ''inner''), (''rewoundParentGroupId'', ''outer'')],
      sample_row ''e'' [(''rewoundGroupId'', ''inner'')],
      sample_row ''f'' [(''type'', ''system''), (''subtype'', ''compact_boundary'')]]"

theorem window_opens_outside_groups_witness:
  "rewoundGroupIdOf (sample_transcript ! 4) = Some ''inner'' \<and>
   windowStartOutsideRewoundGroups sample_transcript 4 = 1 \<and>
   windowStartOutsideRewoundGroups sample_transcript 4 \<le> 4"
proof -
  have inner: "rewoundGroupIdOf (sample_transcript ! 4) = Some ''inner''" and start: "windowStartOutsideRewoundGroups sample_transcript 4 = 1"
    and 4: "4 < length sample_transcript" by code_simp+
  from window_opens_outside_groups [OF 4 refl inner] inner start show ?thesis by blast
qed

lemma window_start_le: "windowStartOutsideRewoundGroups messages i \<le> i"
  using window_start_spec [of messages i "{}" "if i < length messages then rewoundGroupIdOf (messages ! i) else None"]
  by (simp add: windowStartOutsideRewoundGroups_def start_covers_def)

section \<open>Pages fit together\<close>

lemma indices_less: "i \<in> set (indices P xs) \<Longrightarrow> i < length xs"
  by (simp add: indices_def)

lemma compact_page:
  assumes "tailCompactions > 0"
  obtains k where "sl_messages (sliceAtCompactBoundaries messages tailCompactions before) = drop k (before_cursor messages before)"
    and "pi_hasOlderMessages (sl_pagination (sliceAtCompactBoundaries messages tailCompactions before)) \<Longrightarrow>
      k < length (before_cursor messages before) \<and>
      pi_truncatedBeforeMessageId (sl_pagination (sliceAtCompactBoundaries messages tailCompactions before)) =
        first_id (drop k (before_cursor messages before))"
    and "\<not> pi_hasOlderMessages (sl_pagination (sliceAtCompactBoundaries messages tailCompactions before)) \<Longrightarrow> k = 0"
proof -
  let ?w = "before_cursor messages before" and ?r = "sliceAtCompactBoundaries messages tailCompactions before"
  let ?ci = "indices isCompactBoundary ?w"
  let ?k = "windowStartOutsideRewoundGroups ?w (at_or_zero ?ci (int (length ?ci) - tailCompactions))"
  show thesis
  proof (cases "int (length ?ci) < tailCompactions")
    case True
    then show thesis by (intro that [of 0]) (simp_all add: sliceAtCompactBoundaries_def Let_def)
  next
    case False
    then have "?ci ! nat (int (length ?ci) - tailCompactions) \<in> set ?ci" using assms by (intro nth_mem) linarith
    from indices_less [OF this] have "at_or_zero ?ci (int (length ?ci) - tailCompactions) < length ?w"
      using False assms by (simp add: at_or_zero_def)
    then have "?k < length ?w" using window_start_le [of ?w] by (meson le_less_trans)
    with False show thesis by (intro that [of ?k]) (simp_all add: sliceAtCompactBoundaries_def Let_def)
  qed
qed

text \<open>A reader that asks for the page before the first row it has, until there is none.\<close>

fun load_older :: "json list \<Rightarrow> int \<Rightarrow> nat \<Rightarrow> SliceResult \<Rightarrow> json list \<Rightarrow> json list option" where
  "load_older messages tailCompactions 0 page got = None"
| "load_older messages tailCompactions (Suc n) page got =
     (if \<not> pi_hasOlderMessages (sl_pagination page) then Some got
      else
        (let older = sliceAtCompactBoundaries messages tailCompactions (pi_truncatedBeforeMessageId (sl_pagination page))
         in load_older messages tailCompactions n older (sl_messages older @ got)))"

definition identified :: "json list \<Rightarrow> bool" where
  "identified messages = (distinct (map getMessageId messages) \<and> list_all (\<lambda>m. getMessageId m \<notin> {None, Some ''''}) messages)"

lemma before_cursor_first:
  assumes "identified (front @ m # rest)"
  shows "before_cursor (front @ m # rest) (getMessageId m) = front"
proof -
  obtain i where i: "getMessageId m = Some i" "i \<noteq> ''''" using assms by (auto simp: identified_def)
  have "first_index (\<lambda>x. getMessageId x = Some i) (front @ m # rest) = Some (length front)"
    unfolding first_index_Some
  proof (intro conjI allI impI)
    show "getMessageId ((front @ m # rest) ! j) \<noteq> Some i" if "j < length front" for j
    proof -
      have "(front @ m # rest) ! j \<in> set front" using that by (simp add: nth_append)
      with assms i(1) show ?thesis by (force simp: identified_def)
    qed
  qed (simp_all add: i(1))
  with i show ?thesis by (simp add: before_cursor_def)
qed

lemma load_older_complete:
  assumes "tailCompactions > 0" and "identified messages"
  shows "\<lbrakk>messages = front @ got; n > 0;
     if pi_hasOlderMessages (sl_pagination page)
     then n > length front + 1 \<and> got \<noteq> [] \<and> pi_truncatedBeforeMessageId (sl_pagination page) = first_id got else front = []\<rbrakk> \<Longrightarrow>
     load_older messages tailCompactions n page got = Some messages"
proof (induction n arbitrary: front got page)
  case (Suc n)
  show ?case
  proof (cases "pi_hasOlderMessages (sl_pagination page)")
    case False
    with Suc.prems show ?thesis by simp
  next
    case True
    with Suc.prems(3) obtain m rest where got: "got = m # rest"
      "pi_truncatedBeforeMessageId (sl_pagination page) = getMessageId m" by (cases got) (auto simp: first_id_def)
    let ?older = "sliceAtCompactBoundaries messages tailCompactions (getMessageId m)"
    have cursor: "before_cursor messages (getMessageId m) = front"
      using before_cursor_first [of front m rest] assms(2) Suc.prems(1) got(1) by simp
    obtain k where k: "sl_messages ?older = drop k front"
      "pi_hasOlderMessages (sl_pagination ?older) \<Longrightarrow> k < length front \<and>
        pi_truncatedBeforeMessageId (sl_pagination ?older) = first_id (drop k front)"
      "\<not> pi_hasOlderMessages (sl_pagination ?older) \<Longrightarrow> k = 0"
      by (rule compact_page [OF assms(1), of messages "getMessageId m"]) (auto simp: cursor)
    have "load_older messages tailCompactions n ?older (sl_messages ?older @ got) = Some messages"
    proof (cases "pi_hasOlderMessages (sl_pagination ?older)")
      case True
      with k(2) have less: "k < length front" "pi_truncatedBeforeMessageId (sl_pagination ?older) = first_id (drop k front)"
        by simp_all
      have first: "first_id (drop k front @ got) = first_id (drop k front)"
        using less(1) by (cases "drop k front") (auto simp: first_id_def)
      show ?thesis
        by (rule Suc.IH [of "take k front"]) (use k(1) less first True Suc.prems \<open>pi_hasOlderMessages (sl_pagination page)\<close> in
          \<open>simp_all add: got(1)\<close>)
    next
      case False
      with k(1,3) have "sl_messages ?older = front" by simp
      with False show ?thesis
        by (intro Suc.IH [of "[]"]) (use Suc.prems True in simp_all)
    qed
    with True got show ?thesis by (simp add: Let_def)
  qed
qed simp

text \<open>
  C24 The pages of a transcript fit together. If every row has an id of its own, a reader that loads
  the last page and then, again and again, the page before the first row it has, stops after
  finitely many requests and then has the whole transcript, every row once and in order.
\<close>
theorem transcript_loads_completely:
  assumes "tailCompactions > 0" and "identified messages"
  shows "load_older messages tailCompactions (length messages + 2) (sliceAtCompactBoundaries messages tailCompactions None)
      (sl_messages (sliceAtCompactBoundaries messages tailCompactions None)) = Some messages"
proof -
  let ?page = "sliceAtCompactBoundaries messages tailCompactions None"
  obtain k where k: "sl_messages ?page = drop k messages"
    "pi_hasOlderMessages (sl_pagination ?page) \<Longrightarrow> k < length messages \<and>
      pi_truncatedBeforeMessageId (sl_pagination ?page) = first_id (drop k messages)"
    "\<not> pi_hasOlderMessages (sl_pagination ?page) \<Longrightarrow> k = 0"
    by (rule compact_page [OF assms(1), of messages None]) (auto simp: before_cursor_def)
  show ?thesis
    by (rule load_older_complete [OF assms, of "take k messages"]) (use k in auto)
qed

theorem transcript_loads_completely_witness:
  "length (sl_messages (sliceAtCompactBoundaries sample_transcript 1 None)) = 1 \<and>
   load_older sample_transcript 1 8 (sliceAtCompactBoundaries sample_transcript 1 None)
     (sl_messages (sliceAtCompactBoundaries sample_transcript 1 None)) = Some sample_transcript"
proof -
  have 1: "identified sample_transcript" and 2: "length (sl_messages (sliceAtCompactBoundaries sample_transcript 1 None)) = 1"
    and 3: "length sample_transcript + 2 = 8" by code_simp+
  from transcript_loads_completely [OF zero_less_one 1, unfolded 3] 2 show ?thesis by (rule conjI [rotated])
qed

text \<open>
  Both selectors together never widen the page. The page is the shorter of the two suffixes,
  except that a row to start from that is not in the transcript is ignored; so it always lies within
  what the compaction boundaries allow.
\<close>
theorem selectors_intersect:
  "let page = sliceAtCompactAndUserTurnBoundaries messages tailCompactions tailTurns fromMessageId;
       compactPage = sl_messages (sliceAtCompactBoundaries messages tailCompactions None);
       turnPage = sl_messages (sliceAtUserTurnBoundary messages tailTurns fromMessageId)
   in sl_messages page = drop (length messages - length (sl_messages page)) messages \<and>
      length (sl_messages page) =
        (if fromMessageId \<noteq> None \<and> turnPage = [] then length compactPage else min (length turnPage) (length compactPage)) \<and>
      pi_returnedMessageCount (sl_pagination page) = length (sl_messages page)"
proof -
  define page where "page = sliceAtCompactAndUserTurnBoundaries messages tailCompactions tailTurns fromMessageId"
  define compactPage where "compactPage = sl_messages (sliceAtCompactBoundaries messages tailCompactions None)"
  define turnPage where "turnPage = sl_messages (sliceAtUserTurnBoundary messages tailTurns fromMessageId)"
  have suffix: "xs = drop (length messages - length xs) messages" if "xs = drop k messages" for xs k
    using that by (cases "k \<le> length messages") simp_all
  have "\<exists>k. compactPage = drop k messages"
    unfolding compactPage_def sliceAtCompactBoundaries_def Let_def before_cursor_def by (auto intro: exI [of _ 0])
  moreover have "turnPage = [] \<or> (\<exists>k. turnPage = drop k messages)"
    unfolding turnPage_def sliceAtUserTurnBoundary_def Let_def by (auto split: option.split)
  then have "\<exists>k. turnPage = drop k messages" by (metis drop_all order_refl)
  ultimately have "compactPage = drop (length messages - length compactPage) messages" "turnPage = drop (length messages - length turnPage) messages"
    using suffix by blast+
  moreover have "sl_messages page = (if \<not> (fromMessageId \<noteq> None \<and> turnPage = []) \<and> length turnPage < length compactPage
      then turnPage else compactPage)"
    "pi_returnedMessageCount (sl_pagination page) = length (sl_messages page)"
    by (simp_all add: page_def compactPage_def turnPage_def sliceAtCompactAndUserTurnBoundaries_def Let_def)
  ultimately show ?thesis by (simp add: min_def Let_def flip: page_def compactPage_def turnPage_def)
qed

end
