(* ===== verification/GlossaryTrie.thy ===== *)
theory GlossaryTrie
  imports Prelude "HOL-Library.Sublist" "HOL-Library.Monad_Syntax"
begin

text \<open>
  The glossary's matching automaton (packages/shared/src/glossary/compiler.ts, \<open>buildTrie\<close>): a trie
  over the normalized forms of all terms, whose nodes are linked in breadth-first order to the node
  of their longest proper suffix and inherit its outputs. A code point is a natural number, a node
  the index of the array it is kept in. The loops over failure links and over the queue are partial
  functions, \<open>None\<close> for a loop that does not end; that they end is proved.
\<close>

section \<open>Longest suffixes\<close>

text \<open>The longest suffix of a word that is in a set, the empty word if none is.\<close>

fun longest_in :: "'a list set \<Rightarrow> 'a list \<Rightarrow> 'a list" where
  "longest_in W [] = []"
| "longest_in W (x # xs) = (if x # xs \<in> W then x # xs else longest_in W xs)"

definition prefix_closed :: "'a list set \<Rightarrow> bool" where
  "prefix_closed W \<longleftrightarrow> [] \<in> W \<and> (\<forall>u c. u @ [c] \<in> W \<longrightarrow> u \<in> W)"

lemma longest_in_suffix: "suffix (longest_in W w) w"
  by (induction w) (auto simp: suffix_Cons)

lemma longest_in_mem: "[] \<in> W \<Longrightarrow> longest_in W w \<in> W"
  by (induction w) auto

lemma longest_in_id: "w \<in> W \<Longrightarrow> longest_in W w = w"
  by (cases w) auto

lemma suffix_longest_in: "suffix v w \<Longrightarrow> v \<in> W \<Longrightarrow> suffix v (longest_in W w)"
proof (induction w)
  case (Cons x w)
  then show ?case by (cases "v = x # w") (auto simp: suffix_Cons)
qed simp

lemma longest_in_length: "length (longest_in W w) \<le> length w"
  using longest_in_suffix by (rule suffix_length_le)

lemma longest_in_snoc:
  assumes "prefix_closed W"
  shows "longest_in W (w @ [c]) = longest_in W (longest_in W w @ [c])"
proof (induction w)
  case (Cons x w)
  have "x # w \<in> W" if "x # w @ [c] \<in> W" using that assms by (metis append_Cons prefix_closed_def)
  with Cons show ?case by auto
qed simp

section \<open>Nodes\<close>

type_synonym code_point = nat

record GlossaryArtifactNode =
  nd_failure :: nat
  nd_outputs :: "nat list"
  nd_transitions :: "(code_point \<times> nat) list"

definition newNode :: GlossaryArtifactNode where
  "newNode = \<lparr>nd_failure = 0, nd_outputs = [], nd_transitions = []\<rparr>"

text \<open>\<open>nodes[s]?.transitions[c]\<close> and \<open>nodes[s]?.failure ?? 0\<close>.\<close>

definition transition :: "GlossaryArtifactNode list \<Rightarrow> nat \<Rightarrow> code_point \<Rightarrow> nat option" where
  "transition nodes s c = (if s < length nodes then map_of (nd_transitions (nodes ! s)) c else None)"

definition failure_of :: "GlossaryArtifactNode list \<Rightarrow> nat \<Rightarrow> nat" where
  "failure_of nodes s = (if s < length nodes then nd_failure (nodes ! s) else 0)"

definition outputs_of :: "GlossaryArtifactNode list \<Rightarrow> nat \<Rightarrow> nat list" where
  "outputs_of nodes s = (if s < length nodes then nd_outputs (nodes ! s) else [])"

text \<open>Terms are entered one code point at a time; \<open>None\<close> when there would be too many states.\<close>

fun insert_form ::
  "nat \<Rightarrow> GlossaryArtifactNode list \<Rightarrow> nat \<Rightarrow> code_point list \<Rightarrow> (GlossaryArtifactNode list \<times> nat) option"
where
  "insert_form maxStates nodes state [] = Some (nodes, state)"
| "insert_form maxStates nodes state (char # cs) =
     (case transition nodes state char of
        Some existing \<Rightarrow> insert_form maxStates nodes existing cs
      | None \<Rightarrow>
          if length nodes \<ge> maxStates then None
          else
            (let nextState = length nodes;
                 node = nodes ! state
             in insert_form maxStates
                  ((nodes @ [newNode])[state := node\<lparr>nd_transitions := nd_transitions node @ [(char, nextState)]\<rparr>])
                  nextState cs))"

fun insert_forms ::
  "nat \<Rightarrow> GlossaryArtifactNode list \<Rightarrow> nat \<Rightarrow> code_point list list \<Rightarrow> GlossaryArtifactNode list option"
where
  "insert_forms maxStates nodes terminalIndex [] = Some nodes"
| "insert_forms maxStates nodes terminalIndex (form # forms) =
     (case insert_form maxStates nodes 0 form of
        None \<Rightarrow> None
      | Some (nodes', state) \<Rightarrow>
          insert_forms maxStates
            (nodes'[state := (nodes' ! state)\<lparr>nd_outputs := nd_outputs (nodes' ! state) @ [terminalIndex]\<rparr>])
            (Suc terminalIndex) forms)"

text \<open>
  \<open>Object.entries\<close> lists the keys that are digits first, in ascending order, then the others as they
  were added.
\<close>

definition digit_key :: "code_point \<Rightarrow> bool" where
  "digit_key c = (48 \<le> c \<and> c \<le> 57)"

definition object_entries :: "(code_point \<times> nat) list \<Rightarrow> (code_point \<times> nat) list" where
  "object_entries kvs = sort_key fst (filter (digit_key \<circ> fst) kvs) @ filter (Not \<circ> digit_key \<circ> fst) kvs"

partial_function (option) follow_failures :: "GlossaryArtifactNode list \<Rightarrow> nat \<Rightarrow> code_point \<Rightarrow> nat option" where
  "follow_failures nodes failure char =
     (if failure \<noteq> 0 \<and> transition nodes failure char = None
      then follow_failures nodes (failure_of nodes failure) char
      else Some failure)"

definition link_child ::
  "nat \<Rightarrow> code_point \<times> nat \<Rightarrow> GlossaryArtifactNode list \<Rightarrow> GlossaryArtifactNode list option"
where
  "link_child nodeFailure entry nodes =
     (case entry of (char, child) \<Rightarrow>
        do {
          failure \<leftarrow> follow_failures nodes nodeFailure char;
          let fallback = transition nodes failure char;
          let link = (case fallback of Some f \<Rightarrow> if f \<noteq> child then f else 0 | None \<Rightarrow> 0);
          let linked = nodes[child := (nodes ! child)\<lparr>nd_failure := link\<rparr>];
          let inherited = outputs_of linked link;
          Some (if inherited \<noteq> []
                then linked[child := (linked ! child)\<lparr>nd_outputs := nd_outputs (linked ! child) @ inherited\<rparr>]
                else linked)
        })"

fun link_children ::
  "nat \<Rightarrow> (code_point \<times> nat) list \<Rightarrow> GlossaryArtifactNode list \<Rightarrow> GlossaryArtifactNode list option"
where
  "link_children nodeFailure [] nodes = Some nodes"
| "link_children nodeFailure (entry # entries) nodes =
     do { nodes' \<leftarrow> link_child nodeFailure entry nodes; link_children nodeFailure entries nodes' }"

partial_function (option) link_nodes ::
  "nat list \<Rightarrow> GlossaryArtifactNode list \<Rightarrow> GlossaryArtifactNode list option"
where
  "link_nodes queue nodes =
     (case queue of
        [] \<Rightarrow> Some nodes
      | state # rest \<Rightarrow>
          if state < length nodes
          then
            (let node = nodes ! state; entries = object_entries (nd_transitions node)
             in Option.bind (link_children (nd_failure node) entries nodes)
                  (\<lambda>nodes'. link_nodes (rest @ map snd entries) nodes'))
          else link_nodes rest nodes)"

declare follow_failures.simps [code] link_nodes.simps [code]

text \<open>\<open>None\<close> is the loop that does not end, \<open>Some None\<close> the diagnostic \<open>too-many-trie-states\<close>.\<close>

definition buildTrie :: "code_point list list \<Rightarrow> nat \<Rightarrow> GlossaryArtifactNode list option option" where
  "buildTrie forms maxStates =
     (case insert_forms maxStates [newNode] 0 forms of
        None \<Rightarrow> Some None
      | Some nodes \<Rightarrow> map_option Some (link_nodes (map snd (object_entries (nd_transitions (nodes ! 0)))) nodes))"

section \<open>The words of the nodes\<close>

text \<open>A labelling of the nodes with words: children extend the word of their node by one code point.\<close>

definition trie_words :: "GlossaryArtifactNode list \<Rightarrow> (nat \<Rightarrow> code_point list) \<Rightarrow> bool" where
  "trie_words nodes word \<longleftrightarrow>
     nodes \<noteq> [] \<and> word 0 = [] \<and> inj_on word {..<length nodes} \<and>
     (\<forall>s < length nodes. \<forall>c t. transition nodes s c = Some t \<longleftrightarrow> t < length nodes \<and> word t = word s @ [c]) \<and>
     (\<forall>t < length nodes. t \<noteq> 0 \<longrightarrow> (\<exists>s < length nodes. \<exists>c. word t = word s @ [c])) \<and>
     (\<forall>s < length nodes. distinct (map fst (nd_transitions (nodes ! s))))"

abbreviation words :: "GlossaryArtifactNode list \<Rightarrow> (nat \<Rightarrow> code_point list) \<Rightarrow> code_point list set" where
  "words nodes word \<equiv> word ` {..<length nodes}"

lemma transition_word:
  "trie_words nodes word \<Longrightarrow> s < length nodes \<Longrightarrow>
     transition nodes s c = Some t \<longleftrightarrow> t < length nodes \<and> word t = word s @ [c]"
  by (simp add: trie_words_def)

lemma transition_None_word:
  assumes "trie_words nodes word" and "s < length nodes"
  shows "transition nodes s c = None \<longleftrightarrow> word s @ [c] \<notin> words nodes word"
proof (cases "transition nodes s c")
  case None
  then have "word t \<noteq> word s @ [c]" if "t < length nodes" for t
    using transition_word [OF assms, of c t] that by simp
  with None show ?thesis by fastforce
next
  case (Some t)
  with transition_word [OF assms, of c t] show ?thesis by (metis image_eqI lessThan_iff option.distinct(1))
qed

lemma word_root: "trie_words nodes word \<Longrightarrow> word 0 = []"
  by (simp add: trie_words_def)

lemma words_length: "trie_words nodes word \<Longrightarrow> 0 < length nodes"
  by (simp add: trie_words_def)

lemma word_inj:
  "trie_words nodes word \<Longrightarrow> s < length nodes \<Longrightarrow> t < length nodes \<Longrightarrow> word s = word t \<longleftrightarrow> s = t"
  by (auto simp: trie_words_def inj_on_def)

lemma word_Nil: "trie_words nodes word \<Longrightarrow> s < length nodes \<Longrightarrow> word s = [] \<longleftrightarrow> s = 0"
  using word_inj [of nodes word s 0] words_length [of nodes word] word_root [of nodes word] by auto

lemma word_parent:
  assumes "trie_words nodes word" and "t < length nodes" and "t \<noteq> 0"
  obtains s c where "s < length nodes" and "transition nodes s c = Some t" and "word t = word s @ [c]"
proof -
  from assms obtain s c where "s < length nodes" "word t = word s @ [c]" unfolding trie_words_def by blast
  with that transition_word [OF assms(1), of s c t] assms(2) show thesis by blast
qed

lemma words_closed:
  assumes "trie_words nodes word"
  shows "prefix_closed (words nodes word)"
  unfolding prefix_closed_def
proof (intro conjI allI impI)
  show "[] \<in> words nodes word" using assms by (auto simp: trie_words_def intro!: image_eqI [of _ _ 0])
  show "u \<in> words nodes word" if "u @ [c] \<in> words nodes word" for u c
  proof -
    from that obtain t where t: "t < length nodes" "word t = u @ [c]" by auto
    with word_Nil [OF assms t(1)] have "t \<noteq> 0" using assms word_root by fastforce
    then obtain s d where "s < length nodes" "word t = word s @ [d]" using word_parent [OF assms t(1)] by blast
    with t(2) show ?thesis by auto
  qed
qed

lemma transition_same:
  assumes "map nd_transitions nodes' = map nd_transitions nodes"
  shows "transition nodes' = transition nodes"
proof (intro ext)
  have len: "length nodes' = length nodes" using assms by (rule map_eq_imp_length_eq)
  have "nd_transitions (nodes' ! s) = nd_transitions (nodes ! s)" if "s < length nodes" for s
    using that len arg_cong [OF assms, of "\<lambda>xs. xs ! s"] by simp
  then show "transition nodes' s c = transition nodes s c" for s c by (simp add: transition_def len)
qed

lemma update_same_transitions:
  assumes "nd_transitions y = nd_transitions (xs ! i)"
  shows "map nd_transitions (xs[i := y]) = map nd_transitions xs"
proof (cases "i < length xs")
  case True
  then have "nd_transitions y = map nd_transitions xs ! i" using assms by simp
  then show ?thesis by (simp add: map_update)
qed (simp add: list_update_beyond)

lemma trie_words_same:
  assumes "map nd_transitions nodes' = map nd_transitions nodes"
  shows "trie_words nodes' word = trie_words nodes word"
proof -
  have len: "length nodes' = length nodes" using assms by (rule map_eq_imp_length_eq)
  have "nd_transitions (nodes' ! s) = nd_transitions (nodes ! s)" if "s < length nodes" for s
    using that len arg_cong [OF assms, of "\<lambda>xs. xs ! s"] by simp
  then have "(\<forall>s < length nodes. distinct (map fst (nd_transitions (nodes' ! s)))) \<longleftrightarrow>
      (\<forall>s < length nodes. distinct (map fst (nd_transitions (nodes ! s))))" by simp
  moreover have "nodes' = [] \<longleftrightarrow> nodes = []" using len by (metis length_0_conv)
  ultimately show ?thesis unfolding trie_words_def transition_same [OF assms] len by argo
qed

section \<open>Entering the terms\<close>

definition extended ::
  "GlossaryArtifactNode list \<Rightarrow> (nat \<Rightarrow> code_point list) \<Rightarrow> GlossaryArtifactNode list \<Rightarrow> (nat \<Rightarrow> code_point list) \<Rightarrow> bool"
where
  "extended nodes word nodes' word' \<longleftrightarrow>
     length nodes \<le> length nodes' \<and> (\<forall>s < length nodes. word' s = word s) \<and>
     (\<forall>s. outputs_of nodes' s = outputs_of nodes s) \<and> (\<forall>s. failure_of nodes' s = failure_of nodes s)"

lemma extended_trans:
  "extended a u b v \<Longrightarrow> extended b v c w \<Longrightarrow> extended a u c w"
  by (auto simp: extended_def)

lemma add_node:
  assumes "trie_words nodes word" and "state < length nodes" and "transition nodes state char = None"
    and nodes': "nodes' = (nodes @ [newNode])[state := (nodes ! state)\<lparr>nd_transitions := nd_transitions (nodes ! state) @ [(char, length nodes)]\<rparr>]"
    and word': "word' = word(length nodes := word state @ [char])"
  shows "trie_words nodes' word'" and "extended nodes word nodes' word'"
    and "words nodes' word' = insert (word state @ [char]) (words nodes word)"
proof -
  let ?n = "length nodes"
  have len: "length nodes' = Suc ?n" by (simp add: nodes')
  have newW: "word state @ [char] \<notin> words nodes word" using assms(3) transition_None_word [OF assms(1,2)] by simp
  have new: "word t \<noteq> word state @ [char]" if "t < ?n" for t
    using assms(3) transition_None_word [OF assms(1,2), of char] that by (metis image_eqI lessThan_iff)
  have nth: "nodes' ! s = (if s = state then (nodes ! state)\<lparr>nd_transitions := nd_transitions (nodes ! state) @ [(char, ?n)]\<rparr>
      else if s < ?n then nodes ! s else newNode)" if "s < Suc ?n" for s
    using that assms(2) by (auto simp: nodes' nth_list_update nth_append less_Suc_eq)
  have fresh: "char \<notin> fst ` set (nd_transitions (nodes ! state))"
    using assms(2,3) by (simp add: transition_def map_of_eq_None_iff)
  have trans: "transition nodes' s c =
      (if s = state \<and> c = char then Some ?n else if s < ?n then transition nodes s c else None)" for s c
  proof (cases "s < Suc ?n")
    case True
    have "map_of (nd_transitions (nodes ! state)) char = None" using fresh by (simp add: map_of_eq_None_iff)
    moreover have "map_of (nd_transitions (nodes ! state) @ [(char, ?n)]) c =
        (case map_of (nd_transitions (nodes ! state)) c of Some t \<Rightarrow> Some t | None \<Rightarrow> if c = char then Some ?n else None)"
      by (simp add: map_add_def split: option.split)
    ultimately show ?thesis
      using True assms(2) nth [OF True] by (auto simp: transition_def len newNode_def split: option.splits)
  qed (use assms(2) in \<open>auto simp: transition_def len\<close>)
  show "trie_words nodes' word'"
    unfolding trie_words_def
  proof (intro conjI allI impI)
    show "nodes' \<noteq> []" "word' 0 = []" using assms(2) word_root [OF assms(1)] by (auto simp: nodes' word')
    have "inj_on word' {..<?n}" using assms(1) by (simp add: trie_words_def word' inj_on_def)
    moreover have "word' ?n \<notin> word' ` ({..<?n} - {?n})" by (rule notI, erule imageE) (use new in \<open>force simp: word'\<close>)
    ultimately show "inj_on word' {..<length nodes'}" unfolding len lessThan_Suc inj_on_insert ..
    fix s assume s: "s < length nodes'"
    show "transition nodes' s c = Some t \<longleftrightarrow> t < length nodes' \<and> word' t = word' s @ [c]" for c t
    proof (cases "s < ?n")
      case True
      have "word' ?n = word s @ [c] \<longleftrightarrow> s = state \<and> c = char"
        using word_inj [OF assms(1) True assms(2)] unfolding word' by auto
      moreover have "word' t = word s @ [c] \<longleftrightarrow> \<not> (s = state \<and> c = char) \<and> word t = word s @ [c]" if "t < ?n"
        using that new [OF that] unfolding word' by auto
      moreover have "word' s = word s" using True by (simp add: word')
      moreover have "t < Suc ?n \<longleftrightarrow> t < ?n \<or> t = ?n" by (rule less_Suc_eq)
      ultimately show ?thesis
        unfolding trans len using True transition_word [OF assms(1) True, of c t] by (smt (verit) less_irrefl option.inject)
    next
      case False
      then have "s = ?n" using s len by simp
      moreover have "word t \<noteq> word state @ [char, c]" if "t < ?n" for t
      proof
        assume "word t = word state @ [char, c]"
        then have "word t = (word state @ [char]) @ [c]" by simp
        then have "(word state @ [char]) @ [c] \<in> words nodes word" using that by (metis image_eqI lessThan_iff)
        then have "word state @ [char] \<in> words nodes word" using words_closed [OF assms(1)] prefix_closed_def by metis
        with newW show False ..
      qed
      ultimately show ?thesis using assms(2) by (auto simp: trans len word' less_Suc_eq)
    qed
    show "distinct (map fst (nd_transitions (nodes' ! s)))"
      using s assms(1,2) fresh nth [of s] by (auto simp: len trie_words_def newNode_def less_Suc_eq)
    assume "s \<noteq> 0"
    show "\<exists>p < length nodes'. \<exists>c. word' s = word' p @ [c]"
    proof (cases "s < ?n")
      case True
      with \<open>s \<noteq> 0\<close> assms(1) obtain p c where "p < ?n" "word s = word p @ [c]" unfolding trie_words_def by blast
      with True show ?thesis by (intro exI [of _ p]) (auto simp: word' len)
    qed (use s assms(2) in \<open>auto simp: word' len intro!: exI [of _ state]\<close>)
  qed
  show "extended nodes word nodes' word'"
    using assms(2) nth by (auto simp: extended_def len word' outputs_of_def failure_of_def newNode_def less_Suc_eq)
  show "words nodes' word' = insert (word state @ [char]) (words nodes word)"
    by (auto simp: len word' lessThan_Suc image_iff)
qed

lemma insert_form_words:
  "\<lbrakk>trie_words nodes word; state < length nodes; insert_form m nodes state form = Some (nodes', state')\<rbrakk> \<Longrightarrow>
   \<exists>word'. trie_words nodes' word' \<and> extended nodes word nodes' word' \<and> state' < length nodes' \<and>
     word' state' = word state @ form \<and>
     words nodes' word' = words nodes word \<union> {word state @ u | u. prefix u form}"
proof (induction m nodes state form arbitrary: word rule: insert_form.induct)
  case (1 m nodes state)
  then show ?case by (intro exI [of _ word]) (auto simp: extended_def)
next
  case (2 m nodes state char cs)
  have prefixes: "{w @ u | u. prefix u (char # cs)} = insert w {(w @ [char]) @ u | u. prefix u cs}" for w
    by (auto simp: prefix_Cons)
  show ?case
  proof (cases "transition nodes state char")
    case (Some t)
    with transition_word [OF 2(3,4)] have t: "t < length nodes" "word t = word state @ [char]" by auto
    from "2.IH"(2) [OF Some "2.prems"(1) t(1)] "2.prems"(3) Some obtain word' where
      "trie_words nodes' word'" "extended nodes word nodes' word'" "state' < length nodes'" "word' state' = word t @ cs"
      "words nodes' word' = words nodes word \<union> {word t @ u | u. prefix u cs}" by auto
    with t "2.prems"(2) show ?thesis by (intro exI [of _ word']) (auto simp: prefixes)
  next
    case None
    let ?nodes = "(nodes @ [newNode])[state := (nodes ! state)\<lparr>nd_transitions := nd_transitions (nodes ! state) @ [(char, length nodes)]\<rparr>]"
    let ?word = "word(length nodes := word state @ [char])"
    note added = add_node [OF "2.prems"(1,2) None refl refl]
    have room: "\<not> m \<le> length nodes" and rest: "insert_form m ?nodes (length nodes) cs = Some (nodes', state')"
      using "2.prems"(3) None by (auto simp: Let_def split: if_splits)
    have "length nodes < length ?nodes" by simp
    from "2.IH"(1) [OF None room refl refl added(1) this rest] obtain word' where
      w: "trie_words nodes' word'" "extended ?nodes ?word nodes' word'" "state' < length nodes'"
      "word' state' = (word state @ [char]) @ cs"
      "words nodes' word' = words ?nodes ?word \<union> {(word state @ [char]) @ u | u. prefix u cs}"
      unfolding fun_upd_same by blast
    have "words nodes' word' = words nodes word \<union> {word state @ u | u. prefix u (char # cs)}"
      unfolding w(5) added(3) prefixes using "2.prems"(2) by auto
    with w(1,3,4) extended_trans [OF added(2) w(2)] show ?thesis by (intro exI [of _ word']) simp
  qed
qed

definition own_outputs :: "GlossaryArtifactNode list \<Rightarrow> (nat \<Rightarrow> code_point list) \<Rightarrow> code_point list list \<Rightarrow> nat \<Rightarrow> nat \<Rightarrow> bool" where
  "own_outputs nodes word forms k s \<longleftrightarrow> (\<forall>i. i \<in> set (outputs_of nodes s) \<longleftrightarrow> i < k \<and> i < length forms \<and> forms ! i = word s)"

definition form_prefixes :: "code_point list list \<Rightarrow> code_point list set" where
  "form_prefixes forms = insert [] {u. \<exists>f \<in> set forms. prefix u f}"

lemma insert_forms_words:
  "\<lbrakk>trie_words nodes word; insert_forms m nodes k (drop k forms) = Some nodes'; k \<le> length forms;
    words nodes word = form_prefixes (take k forms); \<forall>s < length nodes. own_outputs nodes word forms k s;
    \<forall>s. failure_of nodes s = 0\<rbrakk> \<Longrightarrow>
   \<exists>word'. trie_words nodes' word' \<and> words nodes' word' = form_prefixes forms \<and>
     (\<forall>s < length nodes'. own_outputs nodes' word' forms (length forms) s) \<and> (\<forall>s. failure_of nodes' s = 0)"
proof (induction "drop k forms" arbitrary: nodes word k)
  case Nil
  then have "k = length forms" by simp
  with Nil show ?case by auto
next
  case (Cons f fs)
  have k: "k < length forms" "f = forms ! k" "fs = drop (Suc k) forms"
    using Cons.hyps(2) by (metis drop_eq_Nil list.distinct(1) not_less, metis nth_via_drop, metis drop_Suc list.sel(3) tl_drop)
  from Cons.prems(2) obtain mid st where mid: "insert_form m nodes 0 f = Some (mid, st)"
    and rest: "insert_forms m (mid[st := (mid ! st)\<lparr>nd_outputs := nd_outputs (mid ! st) @ [k]\<rparr>]) (Suc k) fs = Some nodes'"
    unfolding Cons.hyps(2) [symmetric] by (auto split: option.splits)
  let ?next = "mid[st := (mid ! st)\<lparr>nd_outputs := nd_outputs (mid ! st) @ [k]\<rparr>]"
  have root: "0 < length nodes" using words_length [OF Cons.prems(1)] by simp
  from insert_form_words [OF Cons.prems(1) root mid] obtain w where
    w: "trie_words mid w" "extended nodes word mid w" "st < length mid" "w st = f"
    "words mid w = words nodes word \<union> {u. prefix u f}" using word_root [OF Cons.prems(1)] by auto
  have same: "map nd_transitions ?next = map nd_transitions mid"
    by (rule update_same_transitions) simp
  have trie: "trie_words ?next w" using w(1) trie_words_same [OF same] by simp
  have outs: "outputs_of ?next s = (if s = st then outputs_of mid s @ [k] else outputs_of mid s)" for s
    using w(3) by (simp add: outputs_of_def nth_list_update)
  have fails: "failure_of ?next s = 0" for s
  proof -
    have "failure_of mid s = 0" using w(2) Cons.prems(6) by (simp add: extended_def)
    then show ?thesis using w(3) by (auto simp: failure_of_def nth_list_update split: if_splits)
  qed
  have own: "own_outputs ?next w forms (Suc k) s" if s: "s < length ?next" for s
    unfolding own_outputs_def
  proof
    fix i
    have old: "i \<in> set (outputs_of mid s) \<longleftrightarrow> i < k \<and> i < length forms \<and> forms ! i = w s"
    proof (cases "s < length nodes")
      case True
      with Cons.prems(5) w(2) show ?thesis by (auto simp: own_outputs_def extended_def)
    next
      case False
      then have none: "outputs_of mid s = []" using w(2) by (simp add: extended_def outputs_of_def)
      have "w s \<notin> words nodes word"
      proof
        assume "w s \<in> words nodes word"
        then obtain t where t: "t < length nodes" "w s = word t" by auto
        with w(2) have "w s = w t" "t < length mid" by (auto simp: extended_def)
        with word_inj [OF w(1)] s False t(1) show False by auto
      qed
      then have "forms ! i \<noteq> w s" if "i < k" "i < length forms"
        using that Cons.prems(4) by (auto simp: form_prefixes_def in_set_conv_nth)
      with none show ?thesis by auto
    qed
    have "w s = f \<longleftrightarrow> s = st" using word_inj [OF w(1) _ w(3)] s w(4) by auto
    with old k show "i \<in> set (outputs_of ?next s) \<longleftrightarrow> i < Suc k \<and> i < length forms \<and> forms ! i = w s"
      unfolding outs by (auto simp: less_Suc_eq)
  qed
  have "words ?next w = form_prefixes (take (Suc k) forms)"
    using w(5) Cons.prems(4) k(1,2) by (auto simp: form_prefixes_def take_Suc_conv_app_nth)
  from Cons.hyps(1) [OF k(3) trie _ _ this] rest own fails k show ?case by simp
qed

lemma initial_trie:
  assumes "insert_forms m [newNode] 0 forms = Some nodes"
  obtains word where "trie_words nodes word" and "words nodes word = form_prefixes forms"
    and "\<forall>s < length nodes. own_outputs nodes word forms (length forms) s" and "\<forall>s. failure_of nodes s = 0"
proof -
  have "trie_words [newNode] (\<lambda>_. [])" by (auto simp: trie_words_def transition_def newNode_def inj_on_def)
  moreover have "words [newNode] (\<lambda>_. []) = form_prefixes (take 0 forms)" by (auto simp: form_prefixes_def)
  moreover have "\<forall>s < length [newNode]. own_outputs [newNode] (\<lambda>_. []) forms 0 s"
    by (simp add: own_outputs_def outputs_of_def newNode_def)
  moreover have "\<forall>s. failure_of [newNode] s = 0" by (simp add: failure_of_def newNode_def)
  ultimately show thesis
    using insert_forms_words [of "[newNode]" "\<lambda>_. []" m 0 forms nodes] assms that by auto
qed

section \<open>Linking the nodes\<close>

text \<open>
  A node is linked when its failure is the node of its longest proper suffix and its outputs are all
  the forms that end there; before that it has no failure and only the form that is its own word.
\<close>

definition linked_node ::
  "GlossaryArtifactNode list \<Rightarrow> (nat \<Rightarrow> code_point list) \<Rightarrow> code_point list list \<Rightarrow> nat \<Rightarrow> bool"
where
  "linked_node nodes word forms s \<longleftrightarrow>
     failure_of nodes s < length nodes \<and> word (failure_of nodes s) = longest_in (words nodes word) (tl (word s)) \<and>
     (\<forall>i. i \<in> set (outputs_of nodes s) \<longleftrightarrow> i < length forms \<and> suffix (forms ! i) (word s))"

definition fresh_node ::
  "GlossaryArtifactNode list \<Rightarrow> (nat \<Rightarrow> code_point list) \<Rightarrow> code_point list list \<Rightarrow> nat \<Rightarrow> bool"
where
  "fresh_node nodes word forms s \<longleftrightarrow>
     failure_of nodes s = 0 \<and> own_outputs nodes word forms (length forms) s"

lemma fresh_linked:
  assumes "trie_words nodes word" and "fresh_node nodes word forms s" and "length (word s) \<le> 1"
    and "[] \<notin> set forms"
  shows "linked_node nodes word forms s"
proof -
  have "tl (word s) = []" using assms(3) by (cases "word s") auto
  moreover have "suffix f (word s) \<longleftrightarrow> f = word s" if "f \<in> set forms" for f
  proof -
    have "f \<noteq> []" using that assms(4) by auto
    then show ?thesis using assms(3) by (cases "word s") (auto simp: suffix_Cons)
  qed
  ultimately show ?thesis
    using assms(2) words_length [OF assms(1)] word_root [OF assms(1)]
    by (auto simp: linked_node_def fresh_node_def own_outputs_def)
qed

text \<open>Following failures from a node finds the longest suffix that the code point extends.\<close>

definition target :: "GlossaryArtifactNode list \<Rightarrow> (nat \<Rightarrow> code_point list) \<Rightarrow> nat \<Rightarrow> code_point \<Rightarrow> code_point list" where
  "target nodes word g c = (case transition nodes g c of Some f \<Rightarrow> word f | None \<Rightarrow> [])"

lemma follow_failures_longest:
  assumes "trie_words nodes word"
  shows "\<lbrakk>s < length nodes; \<forall>t < length nodes. length (word t) \<le> length (word s) \<longrightarrow> linked_node nodes word forms t\<rbrakk> \<Longrightarrow>
    \<exists>g < length nodes. follow_failures nodes s c = Some g \<and> (g = 0 \<or> transition nodes g c \<noteq> None) \<and>
      length (word g) \<le> length (word s) \<and> target nodes word g c = longest_in (words nodes word) (word s @ [c])"
proof (induction "length (word s)" arbitrary: s rule: less_induct)
  case less
  let ?W = "words nodes word"
  show ?case
  proof (cases "s \<noteq> 0 \<and> transition nodes s c = None")
    case False
    have "follow_failures nodes s c = Some s" using False by (subst follow_failures.simps) auto
    moreover have "target nodes word s c = longest_in ?W (word s @ [c])"
    proof (cases "transition nodes s c")
      case None
      then have "word s = []" using False word_root [OF assms] by auto
      with None transition_None_word [OF assms less.prems(1), of c] show ?thesis by (simp add: target_def)
    next
      case (Some t)
      with transition_word [OF assms less.prems(1)] have "t < length nodes" "word t = word s @ [c]" by auto
      then have "word s @ [c] \<in> ?W" by (metis image_eqI lessThan_iff)
      with Some \<open>word t = word s @ [c]\<close> show ?thesis by (simp add: target_def longest_in_id)
    qed
    ultimately show ?thesis using False less.prems(1) by auto
  next
    case True
    let ?f = "failure_of nodes s"
    have link: "linked_node nodes word forms s" using less.prems by simp
    obtain x u where w: "word s = x # u" using True word_Nil [OF assms less.prems(1)] by (cases "word s") auto
    from link w have f: "?f < length nodes" "word ?f = longest_in ?W u" by (simp_all add: linked_node_def)
    then have shorter: "length (word ?f) < length (word s)" using longest_in_length [of ?W u] w by simp
    then have "\<forall>t < length nodes. length (word t) \<le> length (word ?f) \<longrightarrow> linked_node nodes word forms t"
      using less.prems(2) by auto
    from less.hyps [OF shorter f(1) this] obtain g where g: "g < length nodes" "follow_failures nodes ?f c = Some g"
      "g = 0 \<or> transition nodes g c \<noteq> None" "length (word g) \<le> length (word ?f)"
      "target nodes word g c = longest_in ?W (word ?f @ [c])" by blast
    have "word s @ [c] \<notin> ?W" using True transition_None_word [OF assms less.prems(1)] by simp
    then have "longest_in ?W (word s @ [c]) = longest_in ?W (u @ [c])" using w by simp
    then have "target nodes word g c = longest_in ?W (word s @ [c])"
      using g(5) f(2) longest_in_snoc [OF words_closed [OF assms], of u c] by simp
    moreover have "follow_failures nodes s c = Some g" using True g(2) by (subst follow_failures.simps) simp
    ultimately show ?thesis using g(1,3,4) shorter by (intro exI [of _ g]) auto
  qed
qed

lemma link_child_spec:
  assumes "trie_words nodes word" and "form_prefixes forms \<subseteq> words nodes word" and "[] \<notin> set forms"
    and "x < length nodes" and "x \<noteq> 0" and "transition nodes x c = Some child"
    and "\<forall>t < length nodes. length (word t) \<le> length (word x) \<longrightarrow> linked_node nodes word forms t"
    and "fresh_node nodes word forms child"
  obtains nodes' where "link_child (failure_of nodes x) (c, child) nodes = Some nodes'"
    and "map nd_transitions nodes' = map nd_transitions nodes" and "\<forall>t. t \<noteq> child \<longrightarrow> nodes' ! t = nodes ! t"
    and "linked_node nodes' word forms child"
proof -
  let ?W = "words nodes word" and ?f = "failure_of nodes x"
  from assms(6) transition_word [OF assms(1,4)] have child: "child < length nodes" "word child = word x @ [c]" by auto
  obtain y u where w: "word x = y # u" using assms(4,5) word_Nil [OF assms(1)] by (cases "word x") auto
  have "linked_node nodes word forms x" using assms(4,7) by simp
  with w have f: "?f < length nodes" "word ?f = longest_in ?W u" by (simp_all add: linked_node_def)
  then have shorter: "length (word ?f) < length (word x)" using longest_in_length [of ?W u] w by simp
  then have "\<forall>t < length nodes. length (word t) \<le> length (word ?f) \<longrightarrow> linked_node nodes word forms t"
    using assms(7) by auto
  from follow_failures_longest [OF assms(1) f(1) this, of c] obtain g where
    g: "g < length nodes" "follow_failures nodes ?f c = Some g" "length (word g) \<le> length (word ?f)"
      "target nodes word g c = longest_in ?W (word ?f @ [c])" by blast
  have long: "longest_in ?W (word ?f @ [c]) = longest_in ?W (tl (word child))"
    using longest_in_snoc [OF words_closed [OF assms(1)], of u c] f(2) child(2) w by simp
  define link where "link = (case transition nodes g c of Some t \<Rightarrow> if t \<noteq> child then t else 0 | None \<Rightarrow> 0)"
  have link: "link < length nodes" "word link = longest_in ?W (tl (word child))" "length (word link) \<le> length (word x)"
  proof -
    have "link < length nodes \<and> word link = target nodes word g c \<and> length (word link) \<le> length (word x)"
    proof (cases "transition nodes g c")
      case None
      then show ?thesis using words_length [OF assms(1)] word_root [OF assms(1)] by (simp add: link_def target_def)
    next
      case (Some t)
      with transition_word [OF assms(1) g(1)] have t: "t < length nodes" "word t = word g @ [c]" by auto
      with child(2) g(3) shorter have "length (word t) < length (word child)" by simp
      then have "t \<noteq> child" by auto
      with Some t g(3) shorter show ?thesis by (simp add: link_def target_def)
    qed
    then show "link < length nodes" "length (word link) \<le> length (word x)"
      and "word link = longest_in ?W (tl (word child))" unfolding g(4) long by blast+
  qed
  have final: "linked_node nodes word forms link" using link(1,3) assms(7) by simp
  have "link \<noteq> child" using link(3) child(2) by auto
  define node where "node = (nodes ! child)\<lparr>nd_failure := link, nd_outputs := nd_outputs (nodes ! child) @ outputs_of nodes link\<rparr>"
  let ?nodes = "nodes[child := node]"
  have outs: "outputs_of (nodes[child := z]) link = outputs_of nodes link" for z
    using \<open>link \<noteq> child\<close> by (simp add: outputs_of_def)
  have result: "link_child ?f (c, child) nodes = Some ?nodes"
    using g(2) child(1) outs by (simp add: link_child_def Let_def node_def flip: link_def)
  have same: "map nd_transitions ?nodes = map nd_transitions nodes"
    by (rule update_same_transitions) (simp add: node_def)
  have "i \<in> set (outputs_of nodes child) \<union> set (outputs_of nodes link) \<longleftrightarrow>
      i < length forms \<and> suffix (forms ! i) (word child)" for i
  proof -
    have "suffix v (word child) \<longleftrightarrow> v = word child \<or> suffix v (word link)" if v: "v \<in> set forms" for v
    proof -
      have "v \<in> ?W" using v assms(2) by (auto simp: form_prefixes_def)
      have "suffix v (word child) \<longleftrightarrow> v = word child \<or> suffix v (tl (word child))"
        using child(2) w by (auto simp: suffix_Cons)
      also have "suffix v (tl (word child)) \<longleftrightarrow> suffix v (word link)"
        unfolding link(2) using \<open>v \<in> ?W\<close> suffix_longest_in longest_in_suffix suffix_order.trans by metis
      finally show ?thesis .
    qed
    moreover have "i \<in> set (outputs_of nodes child) \<longleftrightarrow> i < length forms \<and> forms ! i = word child"
      using assms(8) by (auto simp: fresh_node_def own_outputs_def)
    ultimately show ?thesis using final by (auto simp: linked_node_def)
  qed
  then have "linked_node ?nodes word forms child"
    using child(1) link by (simp add: linked_node_def node_def failure_of_def outputs_of_def)
  with result same that show thesis by simp
qed

lemma linked_node_same:
  assumes "map nd_transitions nodes' = map nd_transitions nodes" and "nodes' ! s = nodes ! s"
  shows "linked_node nodes' word forms s = linked_node nodes word forms s"
    and "fresh_node nodes' word forms s = fresh_node nodes word forms s"
proof -
  have "length nodes' = length nodes" using assms(1) by (rule map_eq_imp_length_eq)
  then show "linked_node nodes' word forms s = linked_node nodes word forms s"
    and "fresh_node nodes' word forms s = fresh_node nodes word forms s"
    using assms(2) by (simp_all add: linked_node_def fresh_node_def own_outputs_def failure_of_def outputs_of_def)
qed

lemma link_children_spec:
  assumes "trie_words nodes word" and "form_prefixes forms \<subseteq> words nodes word" and "[] \<notin> set forms"
    and "x < length nodes" and "x \<noteq> 0"
  shows "\<lbrakk>\<forall>(c, child) \<in> set entries. transition nodes x c = Some child; distinct (map snd entries);
      \<forall>t < length nodes. length (word t) \<le> length (word x) \<longrightarrow> linked_node nodes word forms t;
      \<forall>child \<in> snd ` set entries. fresh_node nodes word forms child\<rbrakk> \<Longrightarrow>
    \<exists>nodes'. link_children (nd_failure (nodes ! x)) entries nodes = Some nodes' \<and>
      map nd_transitions nodes' = map nd_transitions nodes \<and> (\<forall>t. t \<notin> snd ` set entries \<longrightarrow> nodes' ! t = nodes ! t) \<and>
      (\<forall>child \<in> snd ` set entries. linked_node nodes' word forms child)"
  using assms
proof (induction entries arbitrary: nodes)
  case (Cons e es)
  obtain c child where e: "e = (c, child)" by (cases e)
  have f: "nd_failure (nodes ! x) = failure_of nodes x" using Cons.prems(8) by (simp add: failure_of_def)
  have child: "transition nodes x c = Some child" "fresh_node nodes word forms child" using Cons.prems(1,4) e by auto
  then have len: "length (word child) = Suc (length (word x))" using transition_word [OF Cons.prems(5,8)] by auto
  have trans_es: "\<forall>(c, child) \<in> set es. transition nodes x c = Some child" using Cons.prems(1) by simp
  obtain n1 where n1: "link_child (failure_of nodes x) (c, child) nodes = Some n1"
    "map nd_transitions n1 = map nd_transitions nodes" "\<forall>t. t \<noteq> child \<longrightarrow> n1 ! t = nodes ! t" "linked_node n1 word forms child"
    by (rule link_child_spec [OF Cons.prems(5-9) child(1) Cons.prems(3) child(2)])
  note same = linked_node_same [OF n1(2)] and len1 = map_eq_imp_length_eq [OF n1(2)]
  have "x \<noteq> child" using len by auto
  then have "n1 ! x = nodes ! x" using n1(3) by simp
  have 1: "\<forall>t < length n1. length (word t) \<le> length (word x) \<longrightarrow> linked_node n1 word forms t"
  proof (intro allI impI)
    fix t assume "t < length n1" "length (word t) \<le> length (word x)"
    then show "linked_node n1 word forms t"
      using Cons.prems(3) len len1 n1(3) same(1) [of t] by (cases "t = child") auto
  qed
  have 2: "\<forall>ch \<in> snd ` set es. fresh_node n1 word forms ch"
  proof
    fix ch assume ch: "ch \<in> snd ` set es"
    then have "ch \<noteq> child" using Cons.prems(2) e by auto
    with n1(3) same(2) [of ch] ch Cons.prems(4) show "fresh_node n1 word forms ch" by auto
  qed
  obtain n2 where n2: "link_children (nd_failure (n1 ! x)) es n1 = Some n2" "map nd_transitions n2 = map nd_transitions n1"
    "\<forall>t. t \<notin> snd ` set es \<longrightarrow> n2 ! t = n1 ! t" "\<forall>ch \<in> snd ` set es. linked_node n2 word forms ch"
    using Cons.IH [of n1] 1 2 trans_es Cons.prems(2,5-9) len1 transition_same [OF n1(2)] trie_words_same [OF n1(2)] by auto
  have "child \<notin> snd ` set es" using Cons.prems(2) e by simp
  then have "linked_node n2 word forms child" using n2(2,3) n1(4) linked_node_same(1) [of n2 n1 child] by simp
  with n1 n2 e f \<open>n1 ! x = nodes ! x\<close> show ?case by auto
qed auto

lemma set_object_entries [simp]: "set (object_entries kvs) = set kvs"
  by (auto simp: object_entries_def)

lemma mset_object_entries: "mset (object_entries kvs) = mset kvs"
proof -
  have "filter (Not \<circ> digit_key \<circ> fst) kvs = filter (\<lambda>x. \<not> (digit_key \<circ> fst) x) kvs" by (simp add: comp_def)
  then show ?thesis unfolding object_entries_def by (simp add: multiset_partition [symmetric])
qed

lemma entries_of_node:
  assumes "trie_words nodes word" and "s < length nodes"
  shows "\<forall>(c, child) \<in> set (object_entries (nd_transitions (nodes ! s))). transition nodes s c = Some child"
    and "snd ` set (object_entries (nd_transitions (nodes ! s))) = {t. \<exists>c. transition nodes s c = Some t}"
    and "distinct (map snd (object_entries (nd_transitions (nodes ! s))))"
proof -
  let ?kvs = "nd_transitions (nodes ! s)"
  have d: "distinct (map fst ?kvs)" using assms by (simp add: trie_words_def)
  have t: "transition nodes s c = Some child \<longleftrightarrow> (c, child) \<in> set ?kvs" for c child
    using d assms(2) by (simp add: transition_def)
  show 1: "\<forall>(c, child) \<in> set (object_entries ?kvs). transition nodes s c = Some child" using t by auto
  show "snd ` set (object_entries ?kvs) = {t. \<exists>c. transition nodes s c = Some t}" using t by (force simp: image_iff)
  have "inj_on snd (set ?kvs)"
  proof (rule inj_onI)
    fix a b assume ab: "a \<in> set ?kvs" "b \<in> set ?kvs" "snd a = snd b"
    then have "transition nodes s (fst a) = Some (snd a)" "transition nodes s (fst b) = Some (snd a)" using t by (metis prod.collapse)+
    then have "word s @ [fst a] = word s @ [fst b]" using transition_word [OF assms] by metis
    with ab(3) show "a = b" by (simp add: prod_eq_iff)
  qed
  then have "distinct (map snd ?kvs)" using d by (simp add: distinct_map)
  moreover have "mset (map snd (object_entries ?kvs)) = mset (map snd ?kvs)" by (simp add: mset_object_entries)
  ultimately show "distinct (map snd (object_entries ?kvs))" by (metis mset_eq_imp_distinct_iff)
qed

text \<open>
  The queue holds, in the order of their depth, the nodes that are linked but whose children are
  not; \<open>P\<close> are the nodes whose children are linked too, the root among them.
\<close>

definition breadth_first ::
  "code_point list list \<Rightarrow> GlossaryArtifactNode list \<Rightarrow> (nat \<Rightarrow> code_point list) \<Rightarrow> nat set \<Rightarrow> nat list \<Rightarrow> bool"
where
  "breadth_first forms nodes word P queue \<longleftrightarrow>
     P \<subseteq> {..<length nodes} \<and> 0 \<in> P \<and> set queue \<subseteq> {..<length nodes} - P \<and> distinct queue \<and>
     (\<forall>s < length nodes. \<forall>c t. transition nodes s c = Some t \<longrightarrow> (t \<in> P \<union> set queue \<longleftrightarrow> s \<in> P)) \<and>
     (\<forall>t \<in> P \<union> set queue. linked_node nodes word forms t) \<and>
     (\<forall>t < length nodes. t \<notin> P \<union> set queue \<longrightarrow> fresh_node nodes word forms t) \<and>
     sorted (map (length \<circ> word) queue) \<and>
     (\<forall>x rest. queue = x # rest \<longrightarrow>
        (\<forall>q \<in> set queue. length (word q) \<le> Suc (length (word x))) \<and>
        (\<forall>t < length nodes. length (word t) < length (word x) \<longrightarrow> t \<in> P))"

lemma breadth_firstD:
  assumes "breadth_first forms nodes word P queue"
  shows "t \<in> P \<union> set queue \<Longrightarrow> linked_node nodes word forms t"
    and "t < length nodes \<Longrightarrow> t \<notin> P \<union> set queue \<Longrightarrow> fresh_node nodes word forms t"
    and "s < length nodes \<Longrightarrow> transition nodes s c = Some t \<Longrightarrow> t \<in> P \<union> set queue \<longleftrightarrow> s \<in> P"
  using assms unfolding breadth_first_def by (metis, metis, metis)

lemma breadth_first_level:
  assumes "trie_words nodes word" and "breadth_first forms nodes word P (x # rest)"
    and "t < length nodes" and "length (word t) \<le> length (word x)"
  shows "t \<in> P \<union> set (x # rest)"
proof (cases "t = 0")
  case False
  then obtain s c where s: "s < length nodes" "transition nodes s c = Some t" "word t = word s @ [c]"
    using word_parent [OF assms(1,3)] by blast
  then have "length (word s) < length (word x)" using assms(4) by simp
  with s(1) assms(2) have "s \<in> P" by (auto simp: breadth_first_def)
  with s(1,2) assms(2) show ?thesis unfolding breadth_first_def by blast
qed (use assms(2) in \<open>simp add: breadth_first_def\<close>)

lemma breadth_first_step:
  assumes "trie_words nodes word" and "form_prefixes forms \<subseteq> words nodes word" and "[] \<notin> set forms"
    and "breadth_first forms nodes word P (x # rest)"
  obtains nodes' where
    "link_children (nd_failure (nodes ! x)) (object_entries (nd_transitions (nodes ! x))) nodes = Some nodes'"
    and "map nd_transitions nodes' = map nd_transitions nodes"
    and "breadth_first forms nodes' word (insert x P) (rest @ map snd (object_entries (nd_transitions (nodes ! x))))"
proof -
  let ?es = "object_entries (nd_transitions (nodes ! x))" and ?n = "length nodes"
  let ?C = "snd ` set ?es" and ?Q = "rest @ map snd (object_entries (nd_transitions (nodes ! x)))"
  from assms(4) have x: "x < ?n" "x \<notin> P" "0 \<in> P" "x \<notin> set rest" by (auto simp: breadth_first_def)
  have "x \<noteq> 0"
  proof
    assume "x = 0"
    with x(2,3) show False by simp
  qed
  note entries = entries_of_node [OF assms(1) x(1)]
  have C: "t < ?n" "word t = word x @ [c]" "t \<notin> P \<union> set (x # rest)" if "transition nodes x c = Some t" for c t
  proof -
    show "t < ?n" "word t = word x @ [c]" using transition_word [OF assms(1) x(1)] that by auto
    have "t \<in> P \<union> set (x # rest) \<longleftrightarrow> x \<in> P" by (rule breadth_firstD(3) [OF assms(4) x(1) that])
    with x(2) show "t \<notin> P \<union> set (x # rest)" by blast
  qed
  have level: "linked_node nodes word forms t" if "t < ?n" "length (word t) \<le> length (word x)" for t
    by (rule breadth_firstD(1) [OF assms(4) breadth_first_level [OF assms(1,4) that]])
  have fresh: "\<forall>child \<in> ?C. fresh_node nodes word forms child"
    unfolding entries(2) using C(1,3) breadth_firstD(2) [OF assms(4)] by blast
  obtain nodes' where n: "link_children (nd_failure (nodes ! x)) ?es nodes = Some nodes'"
    "map nd_transitions nodes' = map nd_transitions nodes" "\<forall>t. t \<notin> ?C \<longrightarrow> nodes' ! t = nodes ! t"
    "\<forall>child \<in> ?C. linked_node nodes' word forms child"
    using link_children_spec [OF assms(1-3) x(1) \<open>x \<noteq> 0\<close> entries(1,3) _ fresh] level by blast
  note same = linked_node_same [OF n(2)] and len = map_eq_imp_length_eq [OF n(2)]
  have kept: "linked_node nodes' word forms t = linked_node nodes word forms t"
    "fresh_node nodes' word forms t = fresh_node nodes word forms t" if "t \<notin> ?C" for t
    using n(3) that same [of t] by auto
  have depth: "length (word t) = Suc (length (word x))" if "t \<in> ?C" for t using that C(2) unfolding entries(2) by auto
  have rest: "length (word x) \<le> length (word t)" "length (word t) \<le> Suc (length (word x))" if "t \<in> set rest" for t
    using assms(4) that by (auto simp: breadth_first_def)
  have "breadth_first forms nodes' word (insert x P) ?Q"
    unfolding breadth_first_def len transition_same [OF n(2)]
  proof (intro conjI)
    show "insert x P \<subseteq> {..<?n}" "0 \<in> insert x P" using assms(4) x by (auto simp: breadth_first_def)
    have "?C \<subseteq> {..<?n} - insert x P" using C unfolding entries(2) by auto
    then show "set ?Q \<subseteq> {..<?n} - insert x P" using assms(4) by (auto simp: breadth_first_def)
    have "set rest \<inter> ?C = {}" using C(3) unfolding entries(2) by auto
    then show "distinct ?Q" using assms(4) entries(3) by (auto simp: breadth_first_def)
    show "\<forall>s < ?n. \<forall>c t. transition nodes s c = Some t \<longrightarrow> (t \<in> insert x P \<union> set ?Q \<longleftrightarrow> s \<in> insert x P)"
    proof (intro allI impI)
      fix s c t assume s: "s < ?n" "transition nodes s c = Some t"
      then have t: "t < ?n" "word t = word s @ [c]" using transition_word [OF assms(1)] by auto
      have "t \<in> P \<union> set (x # rest) \<longleftrightarrow> s \<in> P" by (rule breadth_firstD(3) [OF assms(4) s])
      moreover have "t \<in> ?C \<longleftrightarrow> s = x"
      proof
        assume "t \<in> ?C"
        then obtain d where "word t = word x @ [d]" using C(2) unfolding entries(2) by auto
        with t(2) have "word s = word x" by (metis append1_eq_conv)
        then show "s = x" by (rule word_inj [OF assms(1) s(1) x(1), THEN iffD1])
      next
        assume "s = x"
        with s(2) show "t \<in> ?C" unfolding entries(2) by blast
      qed
      moreover have "s = x \<Longrightarrow> t \<noteq> x" using t(2) by auto
      ultimately show "t \<in> insert x P \<union> set ?Q \<longleftrightarrow> s \<in> insert x P" by auto
    qed
    show "\<forall>t \<in> insert x P \<union> set ?Q. linked_node nodes' word forms t"
    proof
      fix t assume t: "t \<in> insert x P \<union> set ?Q"
      show "linked_node nodes' word forms t"
      proof (cases "t \<in> ?C")
        case True
        with n(4) show ?thesis by blast
      next
        case False
        with t have "t \<in> P \<union> set (x # rest)" by auto
        from breadth_firstD(1) [OF assms(4) this] kept(1) [OF False] show ?thesis by simp
      qed
    qed
    show "\<forall>t < ?n. t \<notin> insert x P \<union> set ?Q \<longrightarrow> fresh_node nodes' word forms t"
    proof (intro allI impI)
      fix t assume t: "t < ?n" "t \<notin> insert x P \<union> set ?Q"
      then have "t \<notin> ?C" "t \<notin> P \<union> set (x # rest)" by auto
      from breadth_firstD(2) [OF assms(4) t(1) this(2)] kept(2) [OF this(1)]
      show "fresh_node nodes' word forms t" by simp
    qed
    show "sorted (map (length \<circ> word) ?Q)"
    proof -
      have "map (length \<circ> word) (map snd ?es) = replicate (length ?es) (Suc (length (word x)))"
        by (rule replicate_eqI) (use depth in force)+
      moreover have "sorted (map (length \<circ> word) rest)" using assms(4) by (simp add: breadth_first_def)
      ultimately show ?thesis using rest(2) by (auto simp: sorted_append map_append)
    qed
    show "\<forall>y ys. ?Q = y # ys \<longrightarrow> (\<forall>q \<in> set ?Q. length (word q) \<le> Suc (length (word y))) \<and>
        (\<forall>t < ?n. length (word t) < length (word y) \<longrightarrow> t \<in> insert x P)"
    proof (intro allI impI conjI ballI)
      fix y ys assume Q: "?Q = y # ys"
      then have y: "y \<in> set ?Q" by simp
      then have ylen: "length (word x) \<le> length (word y)" "length (word y) \<le> Suc (length (word x))"
        using rest depth by force+
      show "length (word q) \<le> Suc (length (word y))" if "q \<in> set ?Q" for q
        using that rest depth ylen(1) by force
      fix t assume t: "t < ?n" "length (word t) < length (word y)"
      then have "t \<in> P \<union> set (x # rest)" using breadth_first_level [OF assms(1,4)] ylen(2) by simp
      moreover have "t \<notin> set rest"
      proof
        assume "t \<in> set rest"
        then obtain r rs where "rest = r # rs" by (cases rest) auto
        with Q have "y = r" by simp
        moreover have "length (word r) \<le> length (word t)"
          using assms(4) \<open>t \<in> set rest\<close> \<open>rest = r # rs\<close> by (auto simp: breadth_first_def)
        ultimately show False using t(2) by simp
      qed
      ultimately show "t \<in> insert x P" by auto
    qed
  qed
  with n(1,2) that show thesis by blast
qed

lemma link_nodes_linked:
  assumes "[] \<notin> set forms"
  shows "\<lbrakk>trie_words nodes word; form_prefixes forms \<subseteq> words nodes word; breadth_first forms nodes word P queue\<rbrakk> \<Longrightarrow>
    \<exists>nodes'. link_nodes queue nodes = Some nodes' \<and> map nd_transitions nodes' = map nd_transitions nodes \<and>
      (\<forall>t < length nodes'. linked_node nodes' word forms t)"
proof (induction "card ({..<length nodes} - P)" arbitrary: nodes P queue rule: less_induct)
  case less
  show ?case
  proof (cases queue)
    case Nil
    have "t \<in> P" if "t < length nodes" for t
      using that
    proof (induction "length (word t)" arbitrary: t rule: less_induct)
      case (less t)
      show ?case
      proof (cases "t = 0")
        case False
        then obtain s c where "s < length nodes" "transition nodes s c = Some t" "word t = word s @ [c]"
          using word_parent [OF \<open>trie_words nodes word\<close> less.prems] by blast
        moreover from this less.hyps [of s] have "s \<in> P" by simp
        ultimately show ?thesis using \<open>breadth_first forms nodes word P queue\<close> Nil unfolding breadth_first_def by force
      qed (use \<open>breadth_first forms nodes word P queue\<close> in \<open>simp add: breadth_first_def\<close>)
    qed
    with less.prems(3) Nil have "\<forall>t < length nodes. linked_node nodes word forms t" by (simp add: breadth_first_def)
    moreover have "link_nodes queue nodes = Some nodes" using Nil by (subst link_nodes.simps) simp
    ultimately show ?thesis by simp
  next
    case (Cons x rest)
    with less.prems(3) have x: "x < length nodes" "x \<notin> P" "P \<subseteq> {..<length nodes}" by (auto simp: breadth_first_def)
    obtain mid where mid: "link_children (nd_failure (nodes ! x)) (object_entries (nd_transitions (nodes ! x))) nodes = Some mid"
      "map nd_transitions mid = map nd_transitions nodes"
      "breadth_first forms mid word (insert x P) (rest @ map snd (object_entries (nd_transitions (nodes ! x))))"
      by (rule breadth_first_step [OF less.prems(1,2) assms less.prems(3) [unfolded Cons]])
    have "{..<length nodes} - insert x P \<subset> {..<length nodes} - P" using x by auto
    then have smaller: "card ({..<length mid} - insert x P) < card ({..<length nodes} - P)"
      by (simp add: psubset_card_mono map_eq_imp_length_eq [OF mid(2)])
    have "trie_words mid word" "form_prefixes forms \<subseteq> words mid word"
      using less.prems(1,2) trie_words_same [OF mid(2)] map_eq_imp_length_eq [OF mid(2)] by simp_all
    from less.hyps [OF smaller this mid(3)] mid(1,2) x(1) Cons show ?thesis
      by (subst link_nodes.simps) (auto simp: Let_def)
  qed
qed

lemma link_nodes_trie:
  assumes "insert_forms m [newNode] 0 forms = Some nodes" and "[] \<notin> set forms"
  shows "\<exists>nodes' word. link_nodes (map snd (object_entries (nd_transitions (nodes ! 0)))) nodes = Some nodes' \<and>
    trie_words nodes' word \<and> words nodes' word = form_prefixes forms \<and> (\<forall>t < length nodes'. linked_node nodes' word forms t) \<and>
    length nodes' = length nodes"
proof -
  obtain word where w: "trie_words nodes word" "words nodes word = form_prefixes forms"
    "\<forall>s < length nodes. own_outputs nodes word forms (length forms) s" "\<forall>s. failure_of nodes s = 0"
    by (rule initial_trie [OF assms(1)])
  let ?Q = "map snd (object_entries (nd_transitions (nodes ! 0)))"
  have n: "0 < length nodes" using words_length [OF w(1)] by simp
  note entries = entries_of_node [OF w(1) n]
  have root: "word 0 = []" by (rule word_root [OF w(1)])
  have child: "t < length nodes" "length (word t) = 1" "t \<noteq> 0" if "t \<in> set ?Q" for t
  proof -
    from that obtain c where "transition nodes 0 c = Some t" using entries(2) by auto
    then have t: "t < length nodes" "word t = [c]" using transition_word [OF w(1) n] root by auto
    then show "t < length nodes" "length (word t) = 1" by simp_all
    show "t \<noteq> 0"
    proof
      assume "t = 0"
      with t(2) root show False by simp
    qed
  qed
  have fresh: "fresh_node nodes word forms t" if "t < length nodes" for t using w(3,4) that by (simp add: fresh_node_def)
  have "breadth_first forms nodes word {0} ?Q"
    unfolding breadth_first_def
  proof (intro conjI)
    show "{0} \<subseteq> {..<length nodes}" "0 \<in> {0 :: nat}" using n by simp_all
    show "set ?Q \<subseteq> {..<length nodes} - {0}" by (rule subsetI) (use child(1,3) in blast)
    show "distinct ?Q" by (rule entries(3))
    show "\<forall>s < length nodes. \<forall>c t. transition nodes s c = Some t \<longrightarrow> (t \<in> {0} \<union> set ?Q \<longleftrightarrow> s \<in> {0})"
    proof (intro allI impI)
      fix s c t assume s: "s < length nodes" "transition nodes s c = Some t"
      then have t: "word t = word s @ [c]" using transition_word [OF w(1)] by auto
      have "t \<in> set ?Q \<longleftrightarrow> s = 0"
      proof
        assume "t \<in> set ?Q"
        then have "length (word t) = 1" by (rule child(2))
        with t word_Nil [OF w(1) s(1)] show "s = 0" by simp
      next
        assume "s = 0"
        with s(2) show "t \<in> set ?Q" using entries(2) by auto
      qed
      moreover have "t \<noteq> 0"
      proof
        assume "t = 0"
        with t root show False by simp
      qed
      ultimately show "t \<in> {0} \<union> set ?Q \<longleftrightarrow> s \<in> {0}" by simp
    qed
    show "\<forall>t \<in> {0} \<union> set ?Q. linked_node nodes word forms t"
    proof
      fix t assume t: "t \<in> {0} \<union> set ?Q"
      then have "t < length nodes \<and> length (word t) \<le> 1"
      proof
        assume "t \<in> set ?Q"
        from child(1,2) [OF this] show ?thesis by simp
      qed (use n root in simp)
      then show "linked_node nodes word forms t" using fresh_linked [OF w(1) fresh _ assms(2)] by blast
    qed
    show "\<forall>t < length nodes. t \<notin> {0} \<union> set ?Q \<longrightarrow> fresh_node nodes word forms t" using fresh by simp
    have "map (length \<circ> word) ?Q = replicate (length ?Q) 1" by (rule replicate_eqI) (use child(2) in auto)
    then show "sorted (map (length \<circ> word) ?Q)" by simp
    show "\<forall>x rest. ?Q = x # rest \<longrightarrow> (\<forall>q \<in> set ?Q. length (word q) \<le> Suc (length (word x))) \<and>
        (\<forall>t < length nodes. length (word t) < length (word x) \<longrightarrow> t \<in> {0})"
    proof (intro allI impI)
      fix x rest assume "?Q = x # rest"
      then have "x \<in> set ?Q" by simp
      then have "length (word x) = 1" by (rule child(2))
      then show "(\<forall>q \<in> set ?Q. length (word q) \<le> Suc (length (word x))) \<and>
          (\<forall>t < length nodes. length (word t) < length (word x) \<longrightarrow> t \<in> {0})"
        using child(2) word_Nil [OF w(1)] by auto
    qed
  qed
  from link_nodes_linked [OF assms(2) w(1) _ this] w(2) obtain nodes' where
    "link_nodes ?Q nodes = Some nodes'" "map nd_transitions nodes' = map nd_transitions nodes"
    "\<forall>t < length nodes'. linked_node nodes' word forms t" by blast
  moreover from this(2) have "trie_words nodes' word" "words nodes' word = form_prefixes forms" "length nodes' = length nodes"
    using w(1,2) trie_words_same map_eq_imp_length_eq by metis+
  ultimately show ?thesis by blast
qed

section \<open>How many states\<close>

lemma form_prefixes_list: "form_prefixes forms = set ([] # concat (map prefixes forms))"
  by (auto simp: form_prefixes_def)

lemma finite_form_prefixes: "finite (form_prefixes forms)"
  by (simp add: form_prefixes_list)

lemma card_words: "trie_words nodes word \<Longrightarrow> card (words nodes word) = length nodes"
  by (simp add: trie_words_def card_image)

lemma insert_form_full:
  "\<lbrakk>trie_words nodes word; state < length nodes; insert_form m nodes state form = None; finite A;
    words nodes word \<union> {word state @ u | u. prefix u form} \<subseteq> A\<rbrakk> \<Longrightarrow> m < card A"
proof (induction m nodes state form arbitrary: word rule: insert_form.induct)
  case (2 m nodes state char cs)
  have sub: "{(word state @ [char]) @ u | u. prefix u cs} \<subseteq> A" "word state @ [char] \<in> A" "words nodes word \<subseteq> A"
    using "2.prems"(5) by auto
  show ?case
  proof (cases "transition nodes state char")
    case (Some t)
    with transition_word [OF "2.prems"(1,2)] have t: "t < length nodes" "word t = word state @ [char]" by auto
    show ?thesis by (rule "2.IH"(2) [OF Some "2.prems"(1) t(1) _ "2.prems"(4)]) (use "2.prems"(3) Some sub t(2) in auto)
  next
    case None
    let ?nodes = "(nodes @ [newNode])[state := (nodes ! state)\<lparr>nd_transitions := nd_transitions (nodes ! state) @ [(char, length nodes)]\<rparr>]"
    note added = add_node [OF "2.prems"(1,2) None refl refl]
    show ?thesis
    proof (cases "m \<le> length nodes")
      case True
      have "word state @ [char] \<notin> words nodes word" using None transition_None_word [OF "2.prems"(1,2)] by simp
      then have "card (insert (word state @ [char]) (words nodes word)) = Suc (length nodes)"
        using card_words [OF "2.prems"(1)] by simp
      moreover have "card (insert (word state @ [char]) (words nodes word)) \<le> card A"
        using sub "2.prems"(4) by (intro card_mono) auto
      ultimately show ?thesis using True by simp
    next
      case False
      have len: "length nodes < length ?nodes" by simp
      have rest: "insert_form m ?nodes (length nodes) cs = None" using "2.prems"(3) None False by (simp add: Let_def)
      have "words ?nodes (word(length nodes := word state @ [char])) \<union>
          {(word(length nodes := word state @ [char])) (length nodes) @ u | u. prefix u cs} \<subseteq> A"
        unfolding added(3) fun_upd_same using sub by blast
      then show ?thesis by (rule "2.IH"(1) [OF None False refl refl added(1) len rest "2.prems"(4)])
    qed
  qed
qed simp

lemma insert_form_length:
  "insert_form m nodes state form = Some (nodes', state') \<Longrightarrow> length nodes' \<le> max m (length nodes)"
proof (induction form arbitrary: nodes state)
  case (Cons c cs)
  show ?case
  proof (cases "transition nodes state c")
    case (Some t)
    with Cons show ?thesis by simp
  next
    case None
    with Cons.prems have "length nodes < m" by (auto split: if_splits)
    let ?nodes = "(nodes @ [newNode])[state := (nodes ! state)\<lparr>nd_transitions := nd_transitions (nodes ! state) @ [(c, length nodes)]\<rparr>]"
    from None Cons.prems \<open>length nodes < m\<close> have "insert_form m ?nodes (length nodes) cs = Some (nodes', state')" by (simp add: Let_def)
    from Cons.IH [OF this] \<open>length nodes < m\<close> show ?thesis by simp
  qed
qed simp

lemma insert_forms_length:
  "insert_forms m nodes k forms = Some nodes' \<Longrightarrow> length nodes' \<le> max m (length nodes)"
proof (induction forms arbitrary: nodes k)
  case (Cons f fs)
  from Cons.prems obtain mid st where "insert_form m nodes 0 f = Some (mid, st)" and
    rest: "insert_forms m (mid[st := (mid ! st)\<lparr>nd_outputs := nd_outputs (mid ! st) @ [k]\<rparr>]) (Suc k) fs = Some nodes'"
    by (auto split: option.splits)
  then have "length mid \<le> max m (length nodes)" by (auto dest: insert_form_length)
  with Cons.IH [OF rest] show ?case by simp
qed simp

lemma insert_forms_full:
  "\<lbrakk>trie_words nodes word; insert_forms m nodes k forms = None; finite A; words nodes word \<union> form_prefixes forms \<subseteq> A\<rbrakk> \<Longrightarrow>
   m < card A"
proof (induction forms arbitrary: nodes word k)
  case (Cons f fs)
  have root: "0 < length nodes" "word 0 = []" using words_length [OF Cons.prems(1)] word_root [OF Cons.prems(1)] by simp_all
  have sub: "words nodes word \<subseteq> A" "{word 0 @ u | u. prefix u f} \<subseteq> A" "form_prefixes fs \<subseteq> A"
    using Cons.prems(4) root(2) by (auto simp: form_prefixes_def)
  show ?case
  proof (cases "insert_form m nodes 0 f")
    case None
    show ?thesis by (rule insert_form_full [OF Cons.prems(1) root(1) None Cons.prems(3)]) (use sub in blast)
  next
    case (Some r)
    obtain mid st where r: "r = (mid, st)" by (cases r)
    let ?next = "mid[st := (mid ! st)\<lparr>nd_outputs := nd_outputs (mid ! st) @ [k]\<rparr>]"
    from insert_form_words [OF Cons.prems(1) root(1) Some [unfolded r]] obtain w where
      w: "trie_words mid w" "words mid w = words nodes word \<union> {word 0 @ u | u. prefix u f}" by blast
    have same: "map nd_transitions ?next = map nd_transitions mid" by (rule update_same_transitions) simp
    have trie: "trie_words ?next w" using w(1) trie_words_same [OF same] by simp
    have "words ?next w \<union> form_prefixes fs \<subseteq> A" using sub w(2) by simp
    from Cons.IH [OF trie _ Cons.prems(3) this] Some r Cons.prems(2) show ?thesis by simp
  qed
qed simp

text \<open>The result of \<open>buildTrie\<close>: it always ends, and fails exactly if the forms need too many states.\<close>

lemma buildTrie_cases:
  assumes "[] \<notin> set forms" and "m > 0"
  shows "if card (form_prefixes forms) \<le> m
    then \<exists>nodes word. buildTrie forms m = Some (Some nodes) \<and> trie_words nodes word \<and>
      words nodes word = form_prefixes forms \<and> (\<forall>t < length nodes. linked_node nodes word forms t)
    else buildTrie forms m = Some None"
proof (cases "insert_forms m [newNode] 0 forms")
  case None
  have "trie_words [newNode] (\<lambda>_. [])" by (auto simp: trie_words_def transition_def newNode_def inj_on_def)
  moreover have "words [newNode] (\<lambda>_. []) \<union> form_prefixes forms \<subseteq> form_prefixes forms" by (auto simp: form_prefixes_def)
  ultimately have "m < card (form_prefixes forms)" using insert_forms_full [OF _ None finite_form_prefixes] by blast
  with None show ?thesis by (simp add: buildTrie_def)
next
  case (Some nodes)
  from link_nodes_trie [OF Some assms(1)] obtain nodes' word where
    n: "link_nodes (map snd (object_entries (nd_transitions (nodes ! 0)))) nodes = Some nodes'" "trie_words nodes' word"
      "words nodes' word = form_prefixes forms" "\<forall>t < length nodes'. linked_node nodes' word forms t"
      "length nodes' = length nodes" by blast
  have "card (form_prefixes forms) = length nodes" using card_words [OF n(2)] n(3,5) by simp
  with insert_forms_length [OF Some] assms(2) have "card (form_prefixes forms) \<le> m" by simp
  with Some n show ?thesis by (auto simp: buildTrie_def)
qed

section \<open>Scanning\<close>

text \<open>One code point of the text (packages/shared/src/glossary/matcher.ts, the head of the loop).\<close>

definition next_state :: "GlossaryArtifactNode list \<Rightarrow> nat \<Rightarrow> code_point \<Rightarrow> nat option" where
  "next_state nodes state char =
     do {
       state \<leftarrow> follow_failures nodes state char;
       Some (case transition nodes state char of
               Some t \<Rightarrow> t
             | None \<Rightarrow> (case transition nodes 0 char of Some t \<Rightarrow> t | None \<Rightarrow> 0))
     }"

fun scan :: "GlossaryArtifactNode list \<Rightarrow> nat \<Rightarrow> code_point list \<Rightarrow> nat option" where
  "scan nodes state [] = Some state"
| "scan nodes state (char # cs) = do { state' \<leftarrow> next_state nodes state char; scan nodes state' cs }"

lemma scan_append: "scan nodes s (u @ v) = do { t \<leftarrow> scan nodes s u; scan nodes t v }"
proof (induction u arbitrary: s)
  case (Cons c u)
  then show ?case by (cases "next_state nodes s c") simp_all
qed simp

lemma next_state_longest:
  assumes "trie_words nodes word" and "\<forall>t < length nodes. linked_node nodes word forms t" and "s < length nodes"
  obtains t where "next_state nodes s c = Some t" and "t < length nodes"
    and "word t = longest_in (words nodes word) (word s @ [c])"
proof -
  from follow_failures_longest [OF assms(1,3), of forms c] assms(2) obtain g where
    g: "g < length nodes" "follow_failures nodes s c = Some g" "g = 0 \<or> transition nodes g c \<noteq> None"
      "target nodes word g c = longest_in (words nodes word) (word s @ [c])" by blast
  show thesis
  proof (cases "transition nodes g c")
    case None
    with g words_length [OF assms(1)] word_root [OF assms(1)] show thesis
      by (intro that [of 0]) (auto simp: next_state_def target_def)
  next
    case (Some t)
    with transition_word [OF assms(1) g(1), of c t] have "t < length nodes" by simp
    with Some g(2,4) show thesis by (intro that [of t]) (simp_all add: next_state_def target_def)
  qed
qed

lemma scan_longest:
  assumes "trie_words nodes word" and "\<forall>t < length nodes. linked_node nodes word forms t"
  shows "\<exists>s. scan nodes 0 w = Some s \<and> s < length nodes \<and> word s = longest_in (words nodes word) w"
proof (induction w rule: rev_induct)
  case Nil
  then show ?case using words_length [OF assms(1)] word_root [OF assms(1)] by simp
next
  case (snoc c w)
  then obtain s where s: "scan nodes 0 w = Some s" "s < length nodes" "word s = longest_in (words nodes word) w" by blast
  obtain t where t: "next_state nodes s c = Some t" "t < length nodes" "word t = longest_in (words nodes word) (word s @ [c])"
    by (rule next_state_longest [OF assms s(2)])
  from t(3) have "word t = longest_in (words nodes word) (w @ [c])"
    unfolding s(3) using longest_in_snoc [OF words_closed [OF assms(1)], of w c] by simp
  with s(1) t(1,2) show ?case by (simp add: scan_append)
qed

lemma scan_outputs:
  assumes "trie_words nodes word" and "\<forall>t < length nodes. linked_node nodes word forms t"
    and "form_prefixes forms \<subseteq> words nodes word"
  obtains s where "scan nodes 0 w = Some s" and "s < length nodes"
    and "\<And>i. i \<in> set (outputs_of nodes s) \<longleftrightarrow> i < length forms \<and> suffix (forms ! i) w"
proof -
  obtain s where s: "scan nodes 0 w = Some s" "s < length nodes" "word s = longest_in (words nodes word) w"
    using scan_longest [OF assms(1,2)] by blast
  have "suffix f (word s) \<longleftrightarrow> suffix f w" if "f \<in> set forms" for f
  proof -
    have "f \<in> words nodes word" using that assms(3) by (auto simp: form_prefixes_def)
    then show ?thesis unfolding s(3) by (metis suffix_longest_in longest_in_suffix suffix_order.trans)
  qed
  with assms(2) s(1,2) show thesis by (intro that [of s]) (auto simp: linked_node_def)
qed

text \<open>
  C27 The glossary automaton is exact. If no form is empty, building it always ends; it fails exactly
  if the forms have more distinct prefixes than states are allowed; and otherwise, after reading any
  text from the root, the outputs of the state that is reached are exactly the forms that end there.
\<close>
theorem trie_finds_every_form:
  assumes "[] \<notin> set forms" and "maxStates > 0"
  shows "if card (form_prefixes forms) > maxStates then buildTrie forms maxStates = Some None
    else \<exists>nodes. buildTrie forms maxStates = Some (Some nodes) \<and>
      (\<forall>w. \<exists>s. scan nodes 0 w = Some s \<and>
         set (outputs_of nodes s) = {i. i < length forms \<and> suffix (forms ! i) w})"
proof (cases "card (form_prefixes forms) \<le> maxStates")
  case True
  with buildTrie_cases [OF assms] obtain nodes word where n: "buildTrie forms maxStates = Some (Some nodes)"
    "trie_words nodes word" "words nodes word = form_prefixes forms" "\<forall>t < length nodes. linked_node nodes word forms t"
    by auto
  have "\<exists>s. scan nodes 0 w = Some s \<and> set (outputs_of nodes s) = {i. i < length forms \<and> suffix (forms ! i) w}" for w
    by (rule scan_outputs [OF n(2,4), of w]) (use n(3) in auto)
  with True n(1) show ?thesis by auto
next
  case False
  with buildTrie_cases [OF assms] show ?thesis by simp
qed

theorem trie_finds_every_form_witness:
  "\<exists>nodes s. buildTrie [[104, 101], [115, 104, 101]] 10 = Some (Some nodes) \<and> scan nodes 0 [117, 115, 104, 101] = Some s \<and>
     set (outputs_of nodes s) = {0, 1}"
proof -
  let ?forms = "[[104, 101], [115, 104, 101]] :: code_point list list"
  have "card (form_prefixes ?forms) \<le> length ([] # concat (map prefixes ?forms))"
    unfolding form_prefixes_list by (rule card_length)
  then have few: "\<not> card (form_prefixes ?forms) > 10" by simp
  have occ: "{i. i < length ?forms \<and> suffix (?forms ! i) [117, 115, 104, 101]} = {0, 1}"
    by (auto simp: less_Suc_eq numeral_2_eq_2 suffix_Cons)
  have "[] \<notin> set ?forms" "(10 :: nat) > 0" by simp_all
  from trie_finds_every_form [OF this] few obtain nodes where n: "buildTrie ?forms 10 = Some (Some nodes)"
    and nodes: "\<forall>w. \<exists>s. scan nodes 0 w = Some s \<and> set (outputs_of nodes s) = {i. i < length ?forms \<and> suffix (?forms ! i) w}"
    unfolding if_not_P [OF few] by blast
  from nodes obtain s where "scan nodes 0 [117, 115, 104, 101] = Some s" and
    "set (outputs_of nodes s) = {i. i < length ?forms \<and> suffix (?forms ! i) [117, 115, 104, 101]}" by blast
  with n show ?thesis unfolding occ by blast
qed

end
