(* ===== verification/SpanIndex.thy ===== *)
theory SpanIndex
  imports Prelude
begin

unbundle bit_operations_syntax

text \<open>
  The index of selected spans of the glossary matcher (packages/shared/src/glossary/matcher.ts,
  \<open>SelectedSpanIndex\<close>): a binary indexed tree over the segments between all boundaries, kept in an
  array of unsigned 32-bit counters. The locale \<open>span_index\<close> states what the matcher relies on.
\<close>

section \<open>The tree\<close>

text \<open>\<open>treeIndex & -treeIndex\<close>\<close>

definition lowbit :: "nat \<Rightarrow> nat" where
  "lowbit i = nat (int i AND - int i)"

lemma lowbit_even: "lowbit (2 * i) = 2 * lowbit i"
proof -
  have "int (2 * i) AND - int (2 * i) = 2 * (int i AND - int i)"
  proof -
    have "- (2 * int i) div 2 = - int i" by presburger
    then show ?thesis using and_int_rec [of "2 * int i" "- (2 * int i)"] by simp
  qed
  then show ?thesis by (simp add: lowbit_def nat_mult_distrib)
qed

lemma lowbit_odd: "lowbit (Suc (2 * i)) = 1"
proof -
  have "int (Suc (2 * i)) AND - int (Suc (2 * i)) = 1 + 2 * (int i AND NOT (int i))"
  proof -
    have "(- 1 - 2 * int i) div 2 = - int i - 1" by presburger
    then show ?thesis using and_int_rec [of "1 + 2 * int i" "- (1 + 2 * int i)"] by (simp add: not_int_def)
  qed
  then show ?thesis by (simp add: lowbit_def)
qed

lemma lowbit_bounds: "0 < i \<Longrightarrow> 0 < lowbit i \<and> lowbit i \<le> i"
proof (induction i rule: less_induct)
  case (less i)
  show ?case
  proof (cases "even i")
    case True
    then obtain k where "i = 2 * k" by blast
    with less show ?thesis by (simp add: lowbit_even)
  next
    case False
    then obtain k where "i = Suc (2 * k)" by (metis oddE Suc_eq_plus1)
    then show ?thesis by (simp add: lowbit_odd)
  qed
qed

lemma lowbit_pos: "0 < lowbit (Suc i)"
  using lowbit_bounds [of "Suc i"] by simp

text \<open>
  A node covers the segments from \<open>i - lowbit i\<close> to \<open>i\<close>; the next node that covers what \<open>i\<close> covers is
  \<open>i + lowbit i\<close>.
\<close>

lemma lowbit_next:
  "0 < i \<Longrightarrow> i < j \<Longrightarrow> j - lowbit j < i \<longleftrightarrow> j - lowbit j < i + lowbit i \<and> i + lowbit i \<le> j"
proof (induction i arbitrary: j rule: less_induct)
  case (less i)
  have j: "lowbit j \<le> j" "0 < lowbit j" using lowbit_bounds [of j] less.prems by simp_all
  show ?case
  proof (cases "even i")
    case True
    then obtain a where a: "i = 2 * a" "0 < a" using less.prems by (metis dvdE mult_0_right not_gr_zero)
    show ?thesis
    proof (cases "even j")
      case True
      then obtain b where b: "j = 2 * b" by blast
      have "a < b" using less.prems a b by simp
      have "lowbit b \<le> b" using lowbit_bounds [of b] \<open>a < b\<close> by simp
      with less.IH [of a b] a b \<open>a < b\<close> show ?thesis by (simp add: lowbit_even) linarith
    next
      case False
      then obtain b where b: "j = Suc (2 * b)" by (metis oddE Suc_eq_plus1)
      have "\<not> 2 * a + 2 * lowbit a \<le> Suc (2 * b) \<or> \<not> 2 * b < 2 * a + 2 * lowbit a" by presburger
      moreover have "\<not> 2 * b < 2 * a" using a b less.prems by simp
      ultimately show ?thesis using a b by (auto simp: lowbit_even lowbit_odd)
    qed
  next
    case False
    then obtain a where a: "i = Suc (2 * a)" by (metis oddE Suc_eq_plus1)
    show ?thesis
    proof (cases "even j")
      case True
      then obtain b where b: "j = 2 * b" by blast
      have "a < b" using less.prems a b by simp
      have "lowbit b \<le> b" using lowbit_bounds [of b] \<open>a < b\<close> by simp
      then have "2 * b - lowbit (2 * b) = 2 * (b - lowbit b)" by (simp add: lowbit_even)
      moreover have "2 * (b - lowbit b) < Suc (2 * a) \<longleftrightarrow> 2 * (b - lowbit b) < Suc (Suc (2 * a))" by presburger
      ultimately show ?thesis using a b \<open>a < b\<close> by (simp add: lowbit_odd)
    next
      case False
      then obtain b where b: "j = Suc (2 * b)" by (metis oddE Suc_eq_plus1)
      with a less.prems show ?thesis by (simp add: lowbit_odd)
    qed
  qed
qed

text \<open>The loop of \<open>addSegment\<close> with \<open>treeIndex = Suc index\<close>, and that of \<open>prefixSum\<close>.\<close>

function addSegment :: "nat list \<Rightarrow> nat \<Rightarrow> nat list" where
  "addSegment occupied index =
     (if Suc index < length occupied
      then addSegment (occupied[Suc index := (occupied ! Suc index + 1) mod 2 ^ 32]) (index + lowbit (Suc index))
      else occupied)"
  by pat_completeness auto
termination
  by (relation "measure (\<lambda>(occupied, index). length occupied - index)") (use lowbit_pos in \<open>auto intro: diff_less_mono2\<close>)

function prefixSum :: "nat list \<Rightarrow> nat \<Rightarrow> nat" where
  "prefixSum occupied endIndex =
     (if endIndex > 0
      then (if endIndex < length occupied then occupied ! endIndex else 0) + prefixSum occupied (endIndex - lowbit endIndex)
      else 0)"
  by pat_completeness auto
termination
  by (relation "measure snd") (use lowbit_bounds in auto)

declare addSegment.simps [simp del] prefixSum.simps [simp del]

lemma length_addSegment [simp]: "length (addSegment t k) = length t"
proof (induction t k rule: addSegment.induct)
  case (1 t k)
  then show ?case by (subst addSegment.simps) simp
qed

lemma nth_addSegment:
  "\<lbrakk>j < length t; 0 < j; list_all (\<lambda>x. x < 2 ^ 32) t\<rbrakk> \<Longrightarrow>
    addSegment t k ! j = (if j - lowbit j \<le> k \<and> k < j then (t ! j + 1) mod 2 ^ 32 else t ! j)"
proof (induction t k rule: addSegment.induct)
  case (1 t k)
  let ?i = "Suc k" and ?t = "t[Suc k := (t ! Suc k + 1) mod 2 ^ 32]"
  have low: "0 < lowbit ?i" by (rule lowbit_pos)
  show ?case
  proof (cases "?i < length t")
    case False
    then show ?thesis using "1.prems" by (subst addSegment.simps) simp
  next
    case True
    have "list_all (\<lambda>x. x < 2 ^ 32) ?t" using "1.prems"(3) True by (auto simp: list_all_length nth_list_update)
    with "1.IH" [OF True] "1.prems"
    have IH: "addSegment t k ! j =
        (if j - lowbit j \<le> k + lowbit ?i \<and> k + lowbit ?i < j then (?t ! j + 1) mod 2 ^ 32 else ?t ! j)"
      using True by (subst addSegment.simps) simp
    have lj: "0 < lowbit j" "lowbit j \<le> j" using lowbit_bounds "1.prems"(2) by simp_all
    consider "j < ?i" | "j = ?i" | "?i < j" by linarith
    then show ?thesis
    proof cases
      case 1
      with IH show ?thesis by simp
    next
      case 2
      then have "j - lowbit j \<le> k" using lj by simp
      with 2 IH True low show ?thesis by simp
    next
      case 3
      have "?t ! j = t ! j" using 3 by simp
      moreover have "j - lowbit j \<le> k \<longleftrightarrow> j - lowbit j \<le> k + lowbit ?i \<and> k + lowbit ?i < j"
        using lowbit_next [of ?i j] 3 by auto
      ultimately show ?thesis using IH 3 by auto
    qed
  qed
qed

section \<open>What the tree holds\<close>

definition holds_counts :: "nat list \<Rightarrow> (nat \<Rightarrow> nat) \<Rightarrow> bool" where
  "holds_counts t cnt \<longleftrightarrow>
     (\<forall>i < length t. 0 < i \<longrightarrow> t ! i = (\<Sum>j = i - lowbit i..<i. cnt j)) \<and> list_all (\<lambda>x. x < 2 ^ 32) t"

lemma prefixSum_counts:
  "holds_counts t cnt \<Longrightarrow> e < length t \<Longrightarrow> prefixSum t e = (\<Sum>j < e. cnt j)"
proof (induction t e rule: prefixSum.induct)
  case (1 t e)
  show ?case
  proof (cases "e = 0")
    case True
    then show ?thesis by (subst prefixSum.simps) simp
  next
    case False
    then have low: "0 < lowbit e" "lowbit e \<le> e" using lowbit_bounds by simp_all
    have "prefixSum t e = t ! e + prefixSum t (e - lowbit e)" using False 1(3) by (subst prefixSum.simps) simp
    also have "\<dots> = (\<Sum>j = e - lowbit e..<e. cnt j) + (\<Sum>j < e - lowbit e. cnt j)"
      using 1 False low by (simp add: holds_counts_def)
    also have "\<dots> = (\<Sum>j < e. cnt j)"
      using sum.atLeastLessThan_concat [of 0 "e - lowbit e" e cnt] by (simp add: lessThan_atLeast0 add.commute)
    finally show ?thesis .
  qed
qed

lemma addSegment_0: "addSegment t k ! 0 = t ! 0"
proof (induction t k rule: addSegment.induct)
  case (1 t k)
  then show ?case by (subst addSegment.simps) simp
qed

lemma addSegment_counts:
  assumes "holds_counts t cnt" and "cnt k = 0" and "\<forall>j. cnt j \<le> 1" and "length t \<le> 2 ^ 32"
  shows "holds_counts (addSegment t k) (cnt(k := 1))"
proof -
  have step: "(cnt(k := 1)) j = cnt j + (if j = k then 1 else 0)" for j using assms(2) by simp
  have cnt: "(\<Sum>j = i - lowbit i..<i. (cnt(k := 1)) j) =
      (\<Sum>j = i - lowbit i..<i. cnt j) + (if i - lowbit i \<le> k \<and> k < i then 1 else 0)" for i
    unfolding step sum.distrib by simp
  have small: "(\<Sum>j = i - lowbit i..<i. (cnt(k := 1)) j) < 2 ^ 32" if "i < length t" for i
  proof -
    have "(\<Sum>j = i - lowbit i..<i. (cnt(k := 1)) j) \<le> (\<Sum>j = i - lowbit i..<i. 1)"
      by (intro sum_mono) (use assms(3) in simp)
    then show ?thesis using that assms(4) by simp
  qed
  have entry: "addSegment t k ! i = (\<Sum>j = i - lowbit i..<i. (cnt(k := 1)) j)" if "i < length t" "0 < i" for i
  proof -
    have "t ! i = (\<Sum>j = i - lowbit i..<i. cnt j)" and "list_all (\<lambda>x. x < 2 ^ 32) t"
      using assms(1) that by (simp_all add: holds_counts_def)
    then show ?thesis using nth_addSegment [OF that, of k] small [OF that(1)] unfolding cnt by auto
  qed
  show ?thesis
    unfolding holds_counts_def list_all_length length_addSegment
  proof (intro conjI allI impI)
    fix i assume i: "i < length t"
    show "addSegment t k ! i < 2 ^ 32"
    proof (cases "i = 0")
      case True
      with assms(1) i show ?thesis by (simp add: addSegment_0 holds_counts_def list_all_length)
    next
      case False
      with entry [OF i] small [OF i] show ?thesis by simp
    qed
  qed (rule entry)
qed

section \<open>The index of spans\<close>

record SelectedSpanIndex =
  si_boundaries :: "nat list"
  si_occupiedSegments :: "nat list"

text \<open>\<open>boundaryIndexes.get\<close>; the map holds the boundaries of all candidates.\<close>

definition boundaryIndex :: "SelectedSpanIndex \<Rightarrow> nat \<Rightarrow> nat option" where
  "boundaryIndex index b = map_of (zip (si_boundaries index) [0..<length (si_boundaries index)]) b"

definition newSelectedSpanIndex :: "(nat \<times> nat) list \<Rightarrow> SelectedSpanIndex" where
  "newSelectedSpanIndex spans =
     (let boundaries = sort (remdups (concat (map (\<lambda>(s, e). [s, e]) spans)))
      in \<lparr>si_boundaries = boundaries, si_occupiedSegments = replicate (length boundaries + 1) 0\<rparr>)"

definition prefix_sum :: "SelectedSpanIndex \<Rightarrow> nat option \<Rightarrow> nat" where
  "prefix_sum index e = (case e of Some i \<Rightarrow> prefixSum (si_occupiedSegments index) i | None \<Rightarrow> 0)"

definition span_overlaps :: "SelectedSpanIndex \<Rightarrow> nat \<Rightarrow> nat \<Rightarrow> bool" where
  "span_overlaps index s e = (prefix_sum index (boundaryIndex index e) > prefix_sum index (boundaryIndex index s))"

definition span_add :: "SelectedSpanIndex \<Rightarrow> nat \<Rightarrow> nat \<Rightarrow> SelectedSpanIndex" where
  "span_add index s e =
     (case (boundaryIndex index s, boundaryIndex index e) of
        (Some i, Some j) \<Rightarrow> index\<lparr>si_occupiedSegments := foldl addSegment (si_occupiedSegments index) [i..<j]\<rparr>
      | _ \<Rightarrow> index)"

section \<open>What the matcher relies on\<close>

definition clash :: "nat \<times> nat \<Rightarrow> nat \<times> nat \<Rightarrow> bool" where
  "clash a b = (fst a < snd b \<and> fst b < snd a)"

text \<open>Taking candidates in order, skipping those that overlap one taken before.\<close>

fun greedy ::
  "('i \<Rightarrow> nat \<Rightarrow> nat \<Rightarrow> bool) \<Rightarrow> ('i \<Rightarrow> nat \<Rightarrow> nat \<Rightarrow> 'i) \<Rightarrow> ('c \<Rightarrow> nat \<times> nat) \<Rightarrow> 'i \<Rightarrow> 'c list \<Rightarrow> 'c list"
where
  "greedy overlaps add sp index [] = []"
| "greedy overlaps add sp index (c # cs) =
     (if overlaps index (fst (sp c)) (snd (sp c)) then greedy overlaps add sp index cs
      else c # greedy overlaps add sp (add index (fst (sp c)) (snd (sp c))) cs)"

locale span_index =
  fixes overlaps :: "'i \<Rightarrow> nat \<Rightarrow> nat \<Rightarrow> bool"
    and add :: "'i \<Rightarrow> nat \<Rightarrow> nat \<Rightarrow> 'i"
    and boundary :: "'i \<Rightarrow> nat \<Rightarrow> bool"
    and holds :: "'i \<Rightarrow> (nat \<times> nat) list \<Rightarrow> bool"
  assumes overlaps_iff: "\<lbrakk>holds x spans; boundary x s; boundary x e; s < e\<rbrakk> \<Longrightarrow>
      overlaps x s e \<longleftrightarrow> list_ex (clash (s, e)) spans"
    and add_holds: "\<lbrakk>holds x spans; boundary x s; boundary x e; s < e; \<not> overlaps x s e\<rbrakk> \<Longrightarrow>
      holds (add x s e) ((s, e) # spans)"
    and add_boundary: "boundary (add x s e) b = boundary x b"
begin

definition fits :: "'i \<Rightarrow> nat \<times> nat \<Rightarrow> bool" where
  "fits x p \<longleftrightarrow> boundary x (fst p) \<and> boundary x (snd p) \<and> fst p < snd p"

lemma fits_add [simp]: "fits (add x s e) p = fits x p"
  by (simp add: fits_def add_boundary)

lemma greedy_subset: "set (greedy overlaps add sp x cs) \<subseteq> set cs"
  by (induction cs arbitrary: x) auto

lemma greedy_clash_iff:
  "holds x spans \<Longrightarrow> fits x p \<Longrightarrow> overlaps x (fst p) (snd p) \<longleftrightarrow> (\<exists>q \<in> set spans. clash p q)"
  using overlaps_iff [of x spans "fst p" "snd p"] by (auto simp: fits_def list_ex_iff)

lemma greedy_disjoint:
  "\<lbrakk>holds x spans; \<forall>c \<in> set cs. fits x (sp c)\<rbrakk> \<Longrightarrow>
   (\<forall>c \<in> set (greedy overlaps add sp x cs). \<forall>q \<in> set spans. \<not> clash (sp c) q) \<and>
   sorted_wrt (\<lambda>c c'. \<not> clash (sp c) (sp c')) (greedy overlaps add sp x cs)"
proof (induction cs arbitrary: x spans)
  case (Cons c cs)
  note iff = greedy_clash_iff [OF Cons.prems(1), of "sp c"]
  show ?case
  proof (cases "overlaps x (fst (sp c)) (snd (sp c))")
    case True
    with Cons show ?thesis by simp
  next
    case False
    let ?x = "add x (fst (sp c)) (snd (sp c))"
    have "holds ?x (sp c # spans)" using Cons.prems False add_holds [of x spans "fst (sp c)" "snd (sp c)"]
      by (simp add: fits_def)
    from Cons.IH [OF this] Cons.prems(2) have
      IH: "\<forall>d \<in> set (greedy overlaps add sp ?x cs). \<not> clash (sp d) (sp c) \<and> (\<forall>q \<in> set spans. \<not> clash (sp d) q)"
        "sorted_wrt (\<lambda>c c'. \<not> clash (sp c) (sp c')) (greedy overlaps add sp ?x cs)" by auto
    have "\<forall>q \<in> set spans. \<not> clash (sp c) q" using iff False Cons.prems(2) by simp
    with IH False show ?thesis by (auto simp: clash_def)
  qed
qed simp

lemma greedy_complete:
  "\<lbrakk>holds x spans; \<forall>c \<in> set cs. fits x (sp c); sorted_wrt R cs; c \<in> set cs\<rbrakk> \<Longrightarrow>
   c \<in> set (greedy overlaps add sp x cs) \<or> (\<exists>q \<in> set spans. clash (sp c) q) \<or>
   (\<exists>d \<in> set (greedy overlaps add sp x cs). R d c \<and> clash (sp c) (sp d))"
proof (induction cs arbitrary: x spans)
  case (Cons a cs)
  note iff = greedy_clash_iff [OF Cons.prems(1), of "sp a"]
  show ?case
  proof (cases "overlaps x (fst (sp a)) (snd (sp a))")
    case True
    with Cons iff show ?thesis by auto
  next
    case False
    let ?x = "add x (fst (sp a)) (snd (sp a))"
    have h: "holds ?x (sp a # spans)" using Cons.prems False add_holds [of x spans "fst (sp a)" "snd (sp a)"]
      by (simp add: fits_def)
    show ?thesis
    proof (cases "c = a")
      case False
      with Cons.prems have "c \<in> set cs" "sorted_wrt R cs" "\<forall>c \<in> set cs. fits ?x (sp c)" "R a c" by auto
      from Cons.IH [OF h this(3,2,1)] \<open>R a c\<close> \<open>\<not> overlaps x (fst (sp a)) (snd (sp a))\<close> show ?thesis by auto
    qed (use False in simp)
  qed
qed simp

end

section \<open>The tree provides it\<close>

definition covered :: "nat list \<Rightarrow> (nat \<times> nat) list \<Rightarrow> nat \<Rightarrow> nat" where
  "covered B spans j = (if j < length B \<and> (\<exists>p \<in> set spans. fst p \<le> B ! j \<and> B ! j < snd p) then 1 else 0)"

definition index_holds :: "SelectedSpanIndex \<Rightarrow> (nat \<times> nat) list \<Rightarrow> bool" where
  "index_holds index spans \<longleftrightarrow>
     (let B = si_boundaries index
      in sorted_wrt (<) B \<and> length (si_occupiedSegments index) = length B + 1 \<and> length B < 2 ^ 32 \<and>
         (\<forall>p \<in> set spans. fst p \<in> set B \<and> snd p \<in> set B \<and> fst p < snd p) \<and>
         holds_counts (si_occupiedSegments index) (covered B spans))"

definition is_boundary :: "SelectedSpanIndex \<Rightarrow> nat \<Rightarrow> bool" where
  "is_boundary index b = (b \<in> set (si_boundaries index))"

lemma boundaryIndex_nth:
  assumes "sorted_wrt (<) (si_boundaries x)" and "b \<in> set (si_boundaries x)"
  obtains i where "boundaryIndex x b = Some i" and "i < length (si_boundaries x)" and "si_boundaries x ! i = b"
proof -
  obtain i where i: "i < length (si_boundaries x)" "si_boundaries x ! i = b" using assms(2) by (auto simp: in_set_conv_nth)
  have "distinct (si_boundaries x)" using assms(1) by (simp add: strict_sorted_iff)
  then have "map_of (zip (si_boundaries x) [0..<length (si_boundaries x)]) (si_boundaries x ! i) = Some i"
    using i(1) by (intro map_of_is_SomeI) (auto simp: set_zip)
  with i that show thesis by (simp add: boundaryIndex_def)
qed

lemma strict_nth_less_iff:
  "sorted_wrt (<) (B :: nat list) \<Longrightarrow> i < length B \<Longrightarrow> j < length B \<Longrightarrow> B ! i < B ! j \<longleftrightarrow> i < j"
  by (metis less_asym' linorder_neqE_nat sorted_wrt_nth_less)

lemma strict_nth_le_iff:
  "sorted_wrt (<) (B :: nat list) \<Longrightarrow> i < length B \<Longrightarrow> j < length B \<Longrightarrow> B ! i \<le> B ! j \<longleftrightarrow> i \<le> j"
  using strict_nth_less_iff [of B j i] by (simp add: linorder_not_less [symmetric])

lemma span_overlaps_iff:
  assumes "index_holds x spans" and "is_boundary x s" and "is_boundary x e" and "s < e"
  shows "span_overlaps x s e \<longleftrightarrow> list_ex (clash (s, e)) spans"
proof -
  let ?B = "si_boundaries x" and ?cnt = "covered (si_boundaries x) spans"
  from assms(1) have B: "sorted_wrt (<) ?B" "length (si_occupiedSegments x) = length ?B + 1"
    "\<forall>p \<in> set spans. fst p \<in> set ?B \<and> snd p \<in> set ?B \<and> fst p < snd p" "holds_counts (si_occupiedSegments x) ?cnt"
    by (simp_all add: index_holds_def Let_def)
  obtain i where i: "boundaryIndex x s = Some i" "i < length ?B" "?B ! i = s"
    by (rule boundaryIndex_nth [OF B(1)]) (use assms(2) in \<open>auto simp: is_boundary_def\<close>)
  obtain j where j: "boundaryIndex x e = Some j" "j < length ?B" "?B ! j = e"
    by (rule boundaryIndex_nth [OF B(1)]) (use assms(3) in \<open>auto simp: is_boundary_def\<close>)
  have "i < j" using strict_nth_less_iff [OF B(1) i(2) j(2)] i(3) j(3) assms(4) by simp
  then have "(\<Sum>k < j. ?cnt k) = (\<Sum>k < i. ?cnt k) + (\<Sum>k = i..<j. ?cnt k)"
    using sum.atLeastLessThan_concat [of 0 i j ?cnt] by (simp add: lessThan_atLeast0)
  then have "span_overlaps x s e \<longleftrightarrow> (\<Sum>k = i..<j. ?cnt k) > 0"
    using i(1,2) j(1,2) B(2) prefixSum_counts [OF B(4)] by (simp add: span_overlaps_def prefix_sum_def)
  also have "\<dots> \<longleftrightarrow> (\<exists>k \<in> {i..<j}. ?cnt k > 0)" by (auto simp: sum_eq_0_iff simp flip: neq0_conv)
  also have "\<dots> \<longleftrightarrow> (\<exists>p \<in> set spans. \<exists>k \<in> {i..<j}. fst p \<le> ?B ! k \<and> ?B ! k < snd p)"
    using j(2) by (auto simp: covered_def split: if_splits)
  also have "\<dots> \<longleftrightarrow> (\<exists>p \<in> set spans. clash (s, e) p)"
  proof (intro bex_cong refl iffI)
    fix p assume p: "p \<in> set spans"
    {
      assume "\<exists>k \<in> {i..<j}. fst p \<le> ?B ! k \<and> ?B ! k < snd p"
      then obtain k where k: "i \<le> k" "k < j" "fst p \<le> ?B ! k" "?B ! k < snd p" by auto
      then have "s \<le> ?B ! k" "?B ! k < e"
        using strict_nth_le_iff [OF B(1) i(2), of k] strict_nth_less_iff [OF B(1) _ j(2), of k] i(3) j(2,3) by auto
      with k show "clash (s, e) p" by (simp add: clash_def)
    next
      assume c: "clash (s, e) p"
      let ?m = "max s (fst p)"
      have "?m \<in> set ?B" using B(3) p assms(2) by (auto simp: is_boundary_def max_def)
      then obtain k where k: "k < length ?B" "?B ! k = ?m" by (auto simp: in_set_conv_nth)
      have "?m < e" "?m < snd p" using c B(3) p assms(4) by (auto simp: clash_def)
      then have "i \<le> k" "k < j"
        using strict_nth_le_iff [OF B(1) i(2) k(1)] strict_nth_less_iff [OF B(1) k(1) j(2)] i(3) j(3) k(2) by auto
      with k(2) \<open>?m < snd p\<close> show "\<exists>k \<in> {i..<j}. fst p \<le> ?B ! k \<and> ?B ! k < snd p" by (intro bexI [of _ k]) auto
    }
  qed
  finally show ?thesis by (simp add: list_ex_iff)
qed

lemma foldl_addSegment_counts:
  "\<lbrakk>holds_counts t cnt; \<forall>k. cnt k \<le> 1; \<forall>k \<in> {i..<j}. cnt k = 0; length t \<le> 2 ^ 32\<rbrakk> \<Longrightarrow>
   length (foldl addSegment t [i..<j]) = length t \<and>
   holds_counts (foldl addSegment t [i..<j]) (\<lambda>k. if i \<le> k \<and> k < j then 1 else cnt k)"
proof (induction j)
  case 0
  then show ?case by (simp add: if_distrib)
next
  case (Suc j)
  show ?case
  proof (cases "i \<le> j")
    case False
    then have "(\<lambda>k. if i \<le> k \<and> k < Suc j then 1 else cnt k) = cnt" by (auto simp: fun_eq_iff)
    with False Suc.prems show ?thesis by simp
  next
    case True
    let ?t = "foldl addSegment t [i..<j]" and ?cnt = "\<lambda>k. if i \<le> k \<and> k < j then 1 else cnt k"
    from Suc have IH: "length ?t = length t" "holds_counts ?t ?cnt" by simp_all
    have "?cnt j = 0" "\<forall>k. ?cnt k \<le> 1" using Suc.prems(2,3) True by simp_all
    from addSegment_counts [OF IH(2) this] IH(1) Suc.prems(4) have "holds_counts (addSegment ?t j) (?cnt(j := 1))" by simp
    moreover have "?cnt(j := 1) = (\<lambda>k. if i \<le> k \<and> k < Suc j then 1 else cnt k)" using True by (auto simp: fun_eq_iff)
    ultimately show ?thesis using True IH(1) by simp
  qed
qed

lemma span_add_holds:
  assumes "index_holds x spans" and "is_boundary x s" and "is_boundary x e" and "s < e" and "\<not> span_overlaps x s e"
  shows "index_holds (span_add x s e) ((s, e) # spans)"
proof -
  let ?B = "si_boundaries x" and ?cnt = "covered (si_boundaries x) spans" and ?t = "si_occupiedSegments x"
  from assms(1) have B: "sorted_wrt (<) ?B" "length ?t = length ?B + 1" "length ?B < 2 ^ 32"
    "\<forall>p \<in> set spans. fst p \<in> set ?B \<and> snd p \<in> set ?B \<and> fst p < snd p" "holds_counts ?t ?cnt"
    by (simp_all add: index_holds_def Let_def)
  obtain i where i: "boundaryIndex x s = Some i" "i < length ?B" "?B ! i = s"
    by (rule boundaryIndex_nth [OF B(1)]) (use assms(2) in \<open>auto simp: is_boundary_def\<close>)
  obtain j where j: "boundaryIndex x e = Some j" "j < length ?B" "?B ! j = e"
    by (rule boundaryIndex_nth [OF B(1)]) (use assms(3) in \<open>auto simp: is_boundary_def\<close>)
  have "\<forall>p \<in> set spans. \<not> clash (s, e) p" using span_overlaps_iff [OF assms(1-4)] assms(5) by (auto simp: list_ex_iff)
  have in_range: "i \<le> k \<and> k < j \<longleftrightarrow> k < length ?B \<and> s \<le> ?B ! k \<and> ?B ! k < e" for k
    using strict_nth_le_iff [OF B(1) i(2), of k] strict_nth_less_iff [OF B(1) _ j(2), of k] i(3) j(2,3) by auto
  have free: "\<forall>k \<in> {i..<j}. ?cnt k = 0"
  proof
    fix k assume "k \<in> {i..<j}"
    then have "s \<le> ?B ! k" "?B ! k < e" using in_range [of k] by auto
    with \<open>\<forall>p \<in> set spans. \<not> clash (s, e) p\<close> show "?cnt k = 0" by (force simp: covered_def clash_def)
  qed
  have "\<forall>k. ?cnt k \<le> 1" by (simp add: covered_def)
  from foldl_addSegment_counts [OF B(5) this free] B(2,3)
  have t: "length (foldl addSegment ?t [i..<j]) = length ?t"
    "holds_counts (foldl addSegment ?t [i..<j]) (\<lambda>k. if i \<le> k \<and> k < j then 1 else ?cnt k)" by simp_all
  have "(\<lambda>k. if i \<le> k \<and> k < j then 1 else ?cnt k) = covered ?B ((s, e) # spans)"
    unfolding in_range by (auto simp: covered_def fun_eq_iff)
  with t B i(1) j(1) assms(2-4) show ?thesis
    by (simp add: index_holds_def Let_def span_add_def is_boundary_def)
qed

interpretation selected_spans: span_index span_overlaps span_add is_boundary index_holds
proof
  show "is_boundary (span_add x s e) b = is_boundary x b" for x s e b
    by (simp add: is_boundary_def span_add_def split: option.split)
qed (rule span_overlaps_iff span_add_holds; assumption)+

lemma zero_counts: "holds_counts (replicate n 0) (covered B [])"
  by (simp add: holds_counts_def covered_def list_all_length)

lemma zero_counts_Cons: "holds_counts (0 # replicate n 0) (covered B [])"
  using zero_counts [of "Suc n" B] by simp

lemma new_index_holds:
  assumes "2 * length spans < 2 ^ 32"
  shows "index_holds (newSelectedSpanIndex spans) []"
    and "p \<in> set spans \<Longrightarrow> is_boundary (newSelectedSpanIndex spans) (fst p) \<and> is_boundary (newSelectedSpanIndex spans) (snd p)"
proof -
  let ?all = "concat (map (\<lambda>(s, e). [s, e]) spans)"
  have "length ?all = 2 * length spans" by (induction spans) auto
  then have "length (remdups ?all) < 2 ^ 32" using assms length_remdups_leq [of ?all] by simp
  then show "index_holds (newSelectedSpanIndex spans) []"
    by (simp add: index_holds_def newSelectedSpanIndex_def Let_def strict_sorted_iff zero_counts_Cons del: set_concat)
  have "set ?all = (\<Union>p \<in> set spans. {fst p, snd p})" by (induction spans) auto
  then show "p \<in> set spans \<Longrightarrow> is_boundary (newSelectedSpanIndex spans) (fst p) \<and> is_boundary (newSelectedSpanIndex spans) (snd p)"
    unfolding is_boundary_def newSelectedSpanIndex_def Let_def by (simp del: set_concat) blast
qed

end
