(* ===== verification/GlossaryMatcher.thy ===== *)
theory GlossaryMatcher
  imports GlossaryTrie SpanIndex "HOL-Library.Product_Lexorder" "HOL-Library.Code_Target_Nat" "HOL-Library.Code_Target_Int"
begin

text \<open>
  Matching of glossary terms in a text (packages/shared/src/glossary/normalization.ts and matcher.ts):
  the text is normalized to code points that remember the span they come from, run through the
  automaton, and of the occurrences found the best that do not overlap are kept. A text is a list of
  UTF-16 code units. What the host knows of Unicode is the record \<open>unicode\<close>.
\<close>

section \<open>Normalization\<close>

record unicode =
  u_segments :: "nat list \<Rightarrow> (nat \<times> nat list) list"
  u_nfkc :: "nat list \<Rightarrow> code_point list"
  u_lower :: "code_point list \<Rightarrow> code_point list"
  u_white :: "nat list \<Rightarrow> bool"
  u_space :: "code_point \<Rightarrow> bool"
  u_space_or_punctuation :: "code_point \<Rightarrow> bool"

record NormalizedGlossarySource =
  ns_chars :: "code_point list"
  ns_ends :: "nat list"
  ns_starts :: "nat list"

definition isAscii :: "nat list \<Rightarrow> bool" where
  "isAscii source = list_all (\<lambda>c. \<not> c > 127) source"

definition ascii_white :: "nat \<Rightarrow> bool" where
  "ascii_white c = (c = 32 \<or> 9 \<le> c \<and> c \<le> 13)"

definition ascii_fold :: "bool \<Rightarrow> nat \<Rightarrow> code_point" where
  "ascii_fold foldCase c = (if foldCase \<and> 65 \<le> c \<and> c \<le> 90 then c + 32 else c)"

text \<open>The loop of \<open>normalizeAsciiSource\<close>: a code point with its start and end for each entry of the arrays.\<close>

fun ascii_chars :: "bool \<Rightarrow> nat \<Rightarrow> nat option \<Rightarrow> nat list \<Rightarrow> (code_point \<times> nat \<times> nat) list" where
  "ascii_chars foldCase index whitespaceStart [] =
     (case whitespaceStart of None \<Rightarrow> [] | Some w \<Rightarrow> [(32, w, index)])"
| "ascii_chars foldCase index whitespaceStart (c # cs) =
     (if ascii_white c
      then ascii_chars foldCase (Suc index) (Some (case whitespaceStart of None \<Rightarrow> index | Some w \<Rightarrow> w)) cs
      else (case whitespaceStart of None \<Rightarrow> [] | Some w \<Rightarrow> [(32, w, index)]) @
        (ascii_fold foldCase c, index, Suc index) # ascii_chars foldCase (Suc index) None cs)"

definition source_of :: "(code_point \<times> nat \<times> nat) list \<Rightarrow> NormalizedGlossarySource" where
  "source_of entries =
     \<lparr>ns_chars = map fst entries, ns_ends = map (\<lambda>(_, _, e). e) entries, ns_starts = map (\<lambda>(_, s, _). s) entries\<rparr>"

definition normalizeAsciiSource :: "nat list \<Rightarrow> bool \<Rightarrow> NormalizedGlossarySource" where
  "normalizeAsciiSource source foldCase = source_of (ascii_chars foldCase 0 None source)"

definition normalizeGrapheme :: "unicode \<Rightarrow> nat list \<Rightarrow> bool \<Rightarrow> code_point list" where
  "normalizeGrapheme u grapheme foldCase =
     (let normalized = u_nfkc u grapheme
      in if foldCase then map (\<lambda>c. if c = 0x3C2 then 0x3C3 else c) (u_lower u normalized) else normalized)"

definition flush_whitespace :: "(nat \<times> nat) option \<Rightarrow> (code_point \<times> nat \<times> nat) list" where
  "flush_whitespace w = (case w of None \<Rightarrow> [] | Some (s, e) \<Rightarrow> [(32, s, e)])"

fun grapheme_chars ::
  "unicode \<Rightarrow> bool \<Rightarrow> (nat \<times> nat) option \<Rightarrow> (nat \<times> nat list) list \<Rightarrow> (code_point \<times> nat \<times> nat) list"
where
  "grapheme_chars u foldCase w [] = flush_whitespace w"
| "grapheme_chars u foldCase w ((start, segment) # parts) =
     (let e = start + length segment
      in if u_white u segment
         then grapheme_chars u foldCase (Some (case w of None \<Rightarrow> start | Some (s, _) \<Rightarrow> s, e)) parts
         else flush_whitespace w @ map (\<lambda>c. (c, start, e)) (normalizeGrapheme u segment foldCase) @
           grapheme_chars u foldCase None parts)"

definition normalizeGlossarySourceWithCase :: "unicode \<Rightarrow> nat list \<Rightarrow> bool \<Rightarrow> NormalizedGlossarySource" where
  "normalizeGlossarySourceWithCase u source foldCase =
     (if isAscii source then normalizeAsciiSource source foldCase
      else source_of (grapheme_chars u foldCase None (u_segments u source)))"

definition normalizeGlossarySource :: "unicode \<Rightarrow> nat list \<Rightarrow> NormalizedGlossarySource" where
  "normalizeGlossarySource u source = normalizeGlossarySourceWithCase u source True"

definition trim_code_points :: "unicode \<Rightarrow> code_point list \<Rightarrow> code_point list" where
  "trim_code_points u cs = rev (dropWhile (u_space u) (rev (dropWhile (u_space u) cs)))"

definition normalizeGlossaryText :: "unicode \<Rightarrow> nat list \<Rightarrow> code_point list" where
  "normalizeGlossaryText u source = trim_code_points u (ns_chars (normalizeGlossarySource u source))"

definition normalizeGlossaryCaseText :: "unicode \<Rightarrow> nat list \<Rightarrow> code_point list" where
  "normalizeGlossaryCaseText u source = trim_code_points u (ns_chars (normalizeGlossarySourceWithCase u source False))"

section \<open>Matching\<close>

record GlossaryArtifactTerminal =
  gt_caseSensitiveForms :: "code_point list list option"
  gt_codePointLength :: nat
  gt_definitionText :: "nat list"
  gt_normalizedForm :: "code_point list"
  gt_requiredBoldCodePoints :: nat
  gt_glossaryOrder :: nat
  gt_rowOrder :: nat
  gt_alternativeOrder :: nat

record GlossaryArtifact =
  ga_nodes :: "GlossaryArtifactNode list"
  ga_terminals :: "GlossaryArtifactTerminal list"

record GlossaryMatch =
  gm_definitionText :: "nat list"
  gm_end :: nat
  gm_start :: nat
  gm_terminalIndex :: nat

record Candidate = GlossaryMatch +
  cd_alternativeOrder :: nat
  cd_glossaryOrder :: nat
  cd_requiredBoldCodePoints :: nat
  cd_rowOrder :: nat
  cd_visibleCodePoints :: nat

definition isBoundary :: "unicode \<Rightarrow> code_point option \<Rightarrow> bool" where
  "isBoundary u char =
     (case char of None \<Rightarrow> True | Some c \<Rightarrow> c \<notin> {0x2D, 0x2010, 0x2011} \<and> u_space_or_punctuation u c)"

text \<open>\<open>chars[i]\<close>, \<open>undefined\<close> outside the array.\<close>

definition at_index :: "'a list \<Rightarrow> int \<Rightarrow> 'a option" where
  "at_index xs i = (if 0 \<le> i \<and> i < int (length xs) then Some (xs ! nat i) else None)"

text \<open>\<open>Array.from(text).length\<close>: a surrogate pair counts once.\<close>

fun code_points :: "nat list \<Rightarrow> nat" where
  "code_points (a # b # cs) =
     (if 0xD800 \<le> a \<and> a < 0xDC00 \<and> 0xDC00 \<le> b \<and> b < 0xE000 then Suc (code_points cs) else Suc (code_points (b # cs)))"
| "code_points [a] = 1"
| "code_points [] = 0"

definition candidate :: "nat list \<Rightarrow> GlossaryArtifactTerminal \<Rightarrow> nat \<Rightarrow> nat \<Rightarrow> nat \<Rightarrow> Candidate" where
  "candidate source terminal terminalIndex start e =
     \<lparr>gm_definitionText = gt_definitionText terminal, gm_end = e, gm_start = start, gm_terminalIndex = terminalIndex,
      cd_alternativeOrder = gt_alternativeOrder terminal, cd_glossaryOrder = gt_glossaryOrder terminal,
      cd_requiredBoldCodePoints = gt_requiredBoldCodePoints terminal, cd_rowOrder = gt_rowOrder terminal,
      cd_visibleCodePoints = code_points (take (e - start) (drop start source))\<rparr>"

definition case_form_ok :: "unicode \<Rightarrow> GlossaryArtifactTerminal \<Rightarrow> nat list \<Rightarrow> bool" where
  "case_form_ok u terminal matchedText =
     (case gt_caseSensitiveForms terminal of
        None \<Rightarrow> True
      | Some forms \<Rightarrow> forms = [] \<or> normalizeGlossaryCaseText u matchedText \<in> set forms)"

definition candidate_at ::
  "unicode \<Rightarrow> nat list \<Rightarrow> GlossaryArtifact \<Rightarrow> NormalizedGlossarySource \<Rightarrow> nat \<Rightarrow> nat \<Rightarrow> Candidate option"
where
  "candidate_at u source artifact normalized index terminalIndex =
     (case at_index (ga_terminals artifact) (int terminalIndex) of
        None \<Rightarrow> None
      | Some terminal \<Rightarrow>
          (let normalizedStart = int index - int (gt_codePointLength terminal) + 1
           in if normalizedStart < 0 then None
              else if \<not> isBoundary u (at_index (ns_chars normalized) (normalizedStart - 1)) \<or>
                      \<not> isBoundary u (at_index (ns_chars normalized) (int index + 1)) then None
              else (case (at_index (ns_starts normalized) normalizedStart, at_index (ns_ends normalized) (int index)) of
                      (Some start, Some e) \<Rightarrow>
                        if case_form_ok u terminal (take (e - start) (drop start source))
                        then Some (candidate source terminal terminalIndex start e) else None
                    | _ \<Rightarrow> None)))"

fun collect_candidates ::
  "unicode \<Rightarrow> nat list \<Rightarrow> GlossaryArtifact \<Rightarrow> NormalizedGlossarySource \<Rightarrow> nat \<Rightarrow> nat \<Rightarrow> code_point list \<Rightarrow> Candidate list option"
where
  "collect_candidates u source artifact normalized state index [] = Some []"
| "collect_candidates u source artifact normalized state index (char # cs) =
     do {
       state' \<leftarrow> next_state (ga_nodes artifact) state char;
       rest \<leftarrow> collect_candidates u source artifact normalized state' (Suc index) cs;
       Some (List.map_filter (candidate_at u source artifact normalized index) (outputs_of (ga_nodes artifact) state') @ rest)
     }"

text \<open>The comparison of candidates; it orders them as their keys do.\<close>

fun first_nonzero :: "int list \<Rightarrow> int" where
  "first_nonzero [] = 0"
| "first_nonzero (d # ds) = (if d \<noteq> 0 then d else first_nonzero ds)"

definition compareCandidatePrecedence :: "Candidate \<Rightarrow> Candidate \<Rightarrow> int" where
  "compareCandidatePrecedence l r =
     first_nonzero
       [int (cd_visibleCodePoints r) - int (cd_visibleCodePoints l),
        int (cd_requiredBoldCodePoints r) - int (cd_requiredBoldCodePoints l),
        int (cd_glossaryOrder l) - int (cd_glossaryOrder r),
        int (cd_rowOrder l) - int (cd_rowOrder r),
        int (cd_alternativeOrder l) - int (cd_alternativeOrder r),
        int (gm_start l) - int (gm_start r),
        int (gm_end l) - int (gm_end r)]"

definition candidate_key :: "Candidate \<Rightarrow> int \<times> int \<times> nat \<times> nat \<times> nat \<times> nat \<times> nat" where
  "candidate_key c =
     (- int (cd_visibleCodePoints c), - int (cd_requiredBoldCodePoints c), cd_glossaryOrder c, cd_rowOrder c,
      cd_alternativeOrder c, gm_start c, gm_end c)"

lemma first_nonzero_le: "first_nonzero (d # ds) \<le> 0 \<longleftrightarrow> d < 0 \<or> d = 0 \<and> first_nonzero ds \<le> 0"
  by auto

lemma pair_le: "((a, b) :: 'a :: linorder \<times> 'b :: linorder) \<le> (c, d) \<longleftrightarrow> a < c \<or> a = c \<and> b \<le> d"
  by (auto simp: less_eq_prod_def)

lemma compare_key: "compareCandidatePrecedence l r \<le> 0 \<longleftrightarrow> candidate_key l \<le> candidate_key r"
  unfolding compareCandidatePrecedence_def candidate_key_def first_nonzero_le pair_le first_nonzero.simps(1)
  by (simp add: le_less eq_commute [of "cd_visibleCodePoints l"] eq_commute [of "cd_requiredBoldCodePoints l"])

definition span_of :: "'a GlossaryMatch_scheme \<Rightarrow> nat \<times> nat" where
  "span_of m = (gm_start m, gm_end m)"

definition matchGlossaryText :: "unicode \<Rightarrow> nat list \<Rightarrow> GlossaryArtifact \<Rightarrow> GlossaryMatch list option" where
  "matchGlossaryText u source artifact =
     (if source = [] \<or> ga_nodes artifact = [] \<or> ga_terminals artifact = [] then Some []
      else
        (let normalized = normalizeGlossarySource u source
         in map_option
              (\<lambda>found.
                 (let candidates = sort_key candidate_key found;
                      selected = greedy span_overlaps span_add span_of (newSelectedSpanIndex (map span_of candidates)) candidates
                  in map GlossaryMatch.truncate (sort_key span_of selected)))
              (collect_candidates u source artifact normalized 0 0 (ns_chars normalized))))"

section \<open>Spans\<close>

text \<open>Entries whose spans follow each other without gaps from one offset to another.\<close>

fun tiles :: "nat \<Rightarrow> (code_point \<times> nat \<times> nat) list \<Rightarrow> nat \<Rightarrow> bool" where
  "tiles a [] b = (a = b)"
| "tiles a ((c, s, e) # es) b = (s = a \<and> s < e \<and> tiles e es b)"

definition entries_ok :: "(code_point \<times> nat \<times> nat) list \<Rightarrow> bool" where
  "entries_ok es \<longleftrightarrow>
     sorted_wrt (\<lambda>x y. fst (snd x) \<le> fst (snd y) \<and> snd (snd x) \<le> snd (snd y)) es \<and> (\<forall>x \<in> set es. fst (snd x) < snd (snd x))"

definition spans_ok :: "NormalizedGlossarySource \<Rightarrow> bool" where
  "spans_ok ns \<longleftrightarrow>
     length (ns_starts ns) = length (ns_chars ns) \<and> length (ns_ends ns) = length (ns_chars ns) \<and>
     (\<forall>j < length (ns_chars ns). \<forall>i \<le> j. ns_starts ns ! i < ns_ends ns ! j)"

lemma entries_spans_ok:
  assumes "entries_ok es"
  shows "spans_ok (source_of es)"
  unfolding spans_ok_def
proof (intro conjI allI impI)
  fix j i assume "j < length (ns_chars (source_of es))" "i \<le> j"
  then have ij: "j < length es" "i \<le> j" by (simp_all add: source_of_def)
  obtain c s e where i: "es ! i = (c, s, e)" by (cases "es ! i")
  obtain c' s' e' where j: "es ! j = (c', s', e')" by (cases "es ! j")
  have "s < e" using assms ij i nth_mem [of i es] unfolding entries_ok_def by fastforce
  moreover have "e \<le> e'"
  proof (cases "i = j")
    case False
    with ij have "i < j" by simp
    from sorted_wrt_nth_less [OF _ this ij(1)] assms i j show ?thesis unfolding entries_ok_def by fastforce
  qed (use i j in simp)
  ultimately show "ns_starts (source_of es) ! i < ns_ends (source_of es) ! j" using ij i j by (simp add: source_of_def)
qed (simp_all add: source_of_def)

lemma tiles_append: "tiles a (xs @ ys) b \<longleftrightarrow> (\<exists>m. tiles a xs m \<and> tiles m ys b)"
  by (induction a xs b rule: tiles.induct) auto

lemma tiles_le: "tiles a es b \<Longrightarrow> a \<le> b"
  by (induction a es b rule: tiles.induct) auto

lemma tiles_bounds: "tiles a es b \<Longrightarrow> x \<in> set es \<Longrightarrow> a \<le> fst (snd x) \<and> fst (snd x) < snd (snd x) \<and> a < snd (snd x)"
  by (induction a es b rule: tiles.induct) force+

lemma tiles_entries_ok: "tiles a es b \<Longrightarrow> entries_ok es"
proof (induction a es b rule: tiles.induct)
  case (2 a c s e es b)
  then have IH: "entries_ok es" "tiles e es b" "s < e" by simp_all
  have "s \<le> fst (snd x) \<and> e \<le> snd (snd x)" if "x \<in> set es" for x
    using tiles_bounds [OF IH(2) that] IH(3) by simp
  with IH show ?case by (auto simp: entries_ok_def)
qed (simp add: entries_ok_def)

lemma ascii_tiles:
  "(\<forall>w. ws = Some w \<longrightarrow> w < i) \<Longrightarrow>
   tiles (case ws of None \<Rightarrow> i | Some w \<Rightarrow> w) (ascii_chars f i ws cs) (i + length cs)"
proof (induction f i ws cs rule: ascii_chars.induct)
  case (1 f i ws)
  then show ?case by (cases ws) auto
next
  case (2 f i ws c cs)
  then show ?case by (cases ws) (auto simp: less_Suc_eq)
qed

text \<open>What the host's segmenter promises: the segments are not empty and make up the text.\<close>

fun segments_tile :: "nat \<Rightarrow> (nat \<times> nat list) list \<Rightarrow> nat list \<Rightarrow> bool" where
  "segments_tile a [] source = (source = [])"
| "segments_tile a ((start, segment) # parts) source =
     (start = a \<and> segment \<noteq> [] \<and> (\<exists>rest. source = segment @ rest \<and> segments_tile (a + length segment) parts rest))"

definition proper_segmenter :: "unicode \<Rightarrow> bool" where
  "proper_segmenter u \<longleftrightarrow> (\<forall>source. segments_tile 0 (u_segments u source) source)"

text \<open>
  Where the host has no segmenter the code has its own, which keeps combining marks, joined
  characters and the letters of a Hangul syllable together; it keeps that promise.
\<close>

datatype hangul = HL | HV | HT | HLV | HLVT

definition hangulClass :: "code_point \<Rightarrow> hangul option" where
  "hangulClass c =
     (if 0x1100 \<le> c \<and> c \<le> 0x115F \<or> 0xA960 \<le> c \<and> c \<le> 0xA97C then Some HL
      else if 0x1160 \<le> c \<and> c \<le> 0x11A7 \<or> 0xD7B0 \<le> c \<and> c \<le> 0xD7C6 then Some HV
      else if 0x11A8 \<le> c \<and> c \<le> 0x11FF \<or> 0xD7CB \<le> c \<and> c \<le> 0xD7FB then Some HT
      else if 0xAC00 \<le> c \<and> c \<le> 0xD7A3 then Some (if (c - 0xAC00) mod 28 = 0 then HLV else HLVT)
      else None)"

text \<open>The characters a \<open>for\<close> loop over a string sees, each with its code units.\<close>

fun characters :: "nat list \<Rightarrow> nat list list" where
  "characters (a # b # cs) =
     (if 0xD800 \<le> a \<and> a < 0xDC00 \<and> 0xDC00 \<le> b \<and> b < 0xE000 then [a, b] # characters cs else [a] # characters (b # cs))"
| "characters [a] = [[a]]"
| "characters [] = []"

definition codePointAt :: "nat list \<Rightarrow> code_point" where
  "codePointAt char = (case char of [a, b] \<Rightarrow> (a - 0xD800) * 0x400 + (b - 0xDC00) + 0x10000 | _ \<Rightarrow> hd char)"

definition joins_hangul :: "hangul option \<Rightarrow> hangul option \<Rightarrow> bool" where
  "joins_hangul p c =
     (p = Some HL \<and> (c = Some HL \<or> c = Some HV \<or> c = Some HLV \<or> c = Some HLVT) \<or>
      (p = Some HLV \<or> p = Some HV) \<and> (c = Some HV \<or> c = Some HT) \<or>
      (p = Some HLVT \<or> p = Some HT) \<and> c = Some HT)"

fun fallback_loop ::
  "(nat list \<Rightarrow> bool) \<Rightarrow> nat list \<Rightarrow> nat \<Rightarrow> nat list option \<Rightarrow> nat list list \<Rightarrow> (nat \<times> nat list) list"
where
  "fallback_loop mark current currentIndex previous [] = (if current \<noteq> [] then [(currentIndex, current)] else [])"
| "fallback_loop mark current currentIndex previous (char # cs) =
     (let charIndex = currentIndex + length current;
          joinsHangul = joins_hangul (case previous of Some p \<Rightarrow> hangulClass (codePointAt p) | None \<Rightarrow> None) (hangulClass (codePointAt char));
          joinsCurrent = (length current > 0 \<and> (mark char \<or> char = [0x200D] \<or> previous = Some [0x200D] \<or> joinsHangul))
      in if \<not> joinsCurrent \<and> current \<noteq> []
         then (currentIndex, current) # fallback_loop mark char charIndex (Some char) cs
         else fallback_loop mark (current @ char) (if current = [] then charIndex else currentIndex) (Some char) cs)"

definition fallbackGraphemes :: "(nat list \<Rightarrow> bool) \<Rightarrow> nat list \<Rightarrow> (nat \<times> nat list) list" where
  "fallbackGraphemes mark source = fallback_loop mark [] 0 None (characters source)"

lemma concat_characters: "concat (characters source) = source"
  by (induction source rule: characters.induct) auto

lemma characters_nonempty: "[] \<notin> set (characters source)"
  by (induction source rule: characters.induct) auto

lemma fallback_loop_tiles:
  "[] \<notin> set cs \<Longrightarrow> segments_tile i (fallback_loop mark current i previous cs) (current @ concat cs)"
proof (induction cs arbitrary: current i previous)
  case (Cons char cs)
  then have char: "char \<noteq> []" "[] \<notin> set cs" by auto
  have "segments_tile i ((i, current) # fallback_loop mark char (i + length current) (Some char) cs) (current @ char @ concat cs)"
    if "current \<noteq> []" using that Cons.IH [OF char(2)] by simp
  moreover have "segments_tile i (fallback_loop mark (current @ char) i (Some char) cs) (current @ char @ concat cs)"
    using Cons.IH [OF char(2), of i "current @ char"] by simp
  ultimately show ?case by (auto simp: Let_def)
qed simp

lemma fallback_proper: "u_segments u = fallbackGraphemes mark \<Longrightarrow> proper_segmenter u"
  using fallback_loop_tiles [OF characters_nonempty, of 0 mark "[]" None]
  by (simp add: proper_segmenter_def fallbackGraphemes_def concat_characters)

lemma grapheme_entries_ok:
  "\<lbrakk>segments_tile a parts source; \<forall>s e. w = Some (s, e) \<longrightarrow> s < e \<and> e = a\<rbrakk> \<Longrightarrow>
   entries_ok (grapheme_chars u f w parts) \<and>
   (\<forall>x \<in> set (grapheme_chars u f w parts). (case w of None \<Rightarrow> a | Some (s, _) \<Rightarrow> s) \<le> fst (snd x) \<and> a \<le> snd (snd x))"
proof (induction u f w parts arbitrary: a source rule: grapheme_chars.induct)
  case (1 u f w)
  then show ?case by (auto simp: entries_ok_def flush_whitespace_def split: option.split)
next
  case (2 u f w start segment parts)
  from "2.prems"(1) obtain rest where seg: "start = a" "segment \<noteq> []" "segments_tile (a + length segment) parts rest" by auto
  show ?case
  proof (cases "u_white u segment")
    case True
    let ?w = "Some (case w of None \<Rightarrow> start | Some (s, _) \<Rightarrow> s, start + length segment)"
    have "\<forall>s e. ?w = Some (s, e) \<longrightarrow> s < e \<and> e = a + length segment"
      using "2.prems"(2) seg(1,2) by (auto split: option.splits intro: trans_less_add1)
    from "2.IH"(1) [OF refl True seg(3) this] True seg(1) show ?thesis by (auto simp: Let_def split: option.splits)
  next
    case False
    let ?rest = "grapheme_chars u f None parts" and ?here = "map (\<lambda>c. (c, start, start + length segment)) (normalizeGrapheme u segment f)"
    have IH: "entries_ok ?rest" "\<forall>x \<in> set ?rest. a + length segment \<le> fst (snd x) \<and> a + length segment \<le> snd (snd x)"
      using "2.IH"(2) [OF refl False seg(3)] by auto
    have here: "entries_ok ?here" using seg(2) by (auto simp: entries_ok_def sorted_wrt_map sorted_wrt_true)
    have flush: "entries_ok (flush_whitespace w)" "\<forall>x \<in> set (flush_whitespace w). fst (snd x) < a \<and> snd (snd x) = a"
      using "2.prems"(2) by (auto simp: entries_ok_def flush_whitespace_def split: option.splits)
    have chars: "grapheme_chars u f w ((start, segment) # parts) = flush_whitespace w @ ?here @ ?rest"
      using False by (simp add: Let_def)
    have "\<forall>x \<in> set ?here. fst (snd x) = a \<and> snd (snd x) = a + length segment" using seg(1) by auto
    then have "entries_ok (flush_whitespace w @ ?here @ ?rest)"
      using IH here flush unfolding entries_ok_def sorted_wrt_append by fastforce
    moreover have "(case w of None \<Rightarrow> a | Some (s, _) \<Rightarrow> s) \<le> fst (snd x) \<and> a \<le> snd (snd x)"
      if "x \<in> set (flush_whitespace w @ ?here @ ?rest)" for x
      using that IH(2) seg(1) "2.prems"(2) by (fastforce simp: flush_whitespace_def split: option.splits)
    ultimately show ?thesis unfolding chars by blast
  qed
qed

lemma normalized_spans_ok: "proper_segmenter u \<Longrightarrow> spans_ok (normalizeGlossarySource u source)"
proof -
  assume u: "proper_segmenter u"
  have "entries_ok (ascii_chars True 0 None source)" using ascii_tiles [of None 0 True source] tiles_entries_ok by auto
  moreover have "entries_ok (grapheme_chars u True None (u_segments u source))"
    using grapheme_entries_ok [of 0 "u_segments u source" source None u True] u by (simp add: proper_segmenter_def)
  ultimately show ?thesis
    by (simp add: normalizeGlossarySource_def normalizeGlossarySourceWithCase_def normalizeAsciiSource_def entries_spans_ok)
qed

section \<open>Occurrences\<close>

text \<open>
  An occurrence of a term: its normalized form somewhere in the normalized text, between boundaries,
  the text it comes from written as the term demands.
\<close>

definition glossary_occurrence :: "unicode \<Rightarrow> nat list \<Rightarrow> GlossaryArtifact \<Rightarrow> Candidate \<Rightarrow> bool" where
  "glossary_occurrence u source art c \<longleftrightarrow>
     (\<exists>t pre post.
        (let ns = normalizeGlossarySource u source; terminal = ga_terminals art ! t; form = gt_normalizedForm terminal;
             start = ns_starts ns ! length pre; e = ns_ends ns ! (length pre + length form - 1)
         in t < length (ga_terminals art) \<and> ns_chars ns = pre @ form @ post \<and>
            isBoundary u (if pre = [] then None else Some (last pre)) \<and> isBoundary u (if post = [] then None else Some (hd post)) \<and>
            case_form_ok u terminal (take (e - start) (drop start source)) \<and> c = candidate source terminal t start e))"

definition artifact_ok :: "nat \<Rightarrow> GlossaryArtifact \<Rightarrow> bool" where
  "artifact_ok maxStates art \<longleftrightarrow>
     maxStates > 0 \<and> buildTrie (map gt_normalizedForm (ga_terminals art)) maxStates = Some (Some (ga_nodes art)) \<and>
     (\<forall>terminal \<in> set (ga_terminals art). gt_normalizedForm terminal \<noteq> [] \<and>
        gt_codePointLength terminal = length (gt_normalizedForm terminal))"

lemma artifact_trie:
  assumes "artifact_ok m art"
  obtains word where "trie_words (ga_nodes art) word"
    and "\<forall>t < length (ga_nodes art). linked_node (ga_nodes art) word (map gt_normalizedForm (ga_terminals art)) t"
    and "form_prefixes (map gt_normalizedForm (ga_terminals art)) \<subseteq> words (ga_nodes art) word"
proof -
  have "[] \<notin> set (map gt_normalizedForm (ga_terminals art))" "m > 0" using assms by (auto simp: artifact_ok_def)
  from buildTrie_cases [OF this] assms that show thesis by (auto simp: artifact_ok_def split: if_splits)
qed

text \<open>What one reported output of the automaton contributes.\<close>

lemma candidate_at_iff:
  assumes "spans_ok ns" and "t < length (ga_terminals art)" and "ns_chars ns = before @ char # rest"
    and "suffix form (before @ [char])" and "form = gt_normalizedForm (ga_terminals art ! t)" and "form \<noteq> []"
    and "gt_codePointLength (ga_terminals art ! t) = length form"
  shows "candidate_at u source art ns (length before) t = Some c \<longleftrightarrow>
    (\<exists>pre. before @ [char] = pre @ form \<and> isBoundary u (if pre = [] then None else Some (last pre)) \<and>
       isBoundary u (if rest = [] then None else Some (hd rest)) \<and>
       case_form_ok u (ga_terminals art ! t)
         (take (ns_ends ns ! (length pre + length form - 1) - ns_starts ns ! length pre) (drop (ns_starts ns ! length pre) source)) \<and>
       c = candidate source (ga_terminals art ! t) t (ns_starts ns ! length pre) (ns_ends ns ! (length pre + length form - 1)))"
proof -
  obtain pre where pre: "before @ [char] = pre @ form" using assms(4) by (auto simp: suffix_def)
  have uniq: "before @ [char] = pre' @ form \<longleftrightarrow> pre' = pre" for pre' using pre by auto
  have len: "length before + 1 = length pre + length form" using arg_cong [OF pre, of length] by simp
  have k: "length pre + length form - 1 = length before" using len by simp
  have start: "int (length before) - int (gt_codePointLength (ga_terminals art ! t)) + 1 = int (length pre)"
    using len assms(7) by simp
  have chars: "ns_chars ns = pre @ form @ rest" using assms(3) pre by (metis append.assoc append_Cons append_Nil)
  have total: "length (ns_chars ns) = length pre + length form + length rest" using chars by simp
  have left: "at_index (ns_chars ns) (int (length pre) - 1) = (if pre = [] then None else Some (last pre))"
  proof (cases pre rule: rev_cases)
    case (snoc ys y)
    then show ?thesis using chars by (simp add: at_index_def nth_append)
  qed (simp add: at_index_def)
  have right: "at_index (ns_chars ns) (int (length before) + 1) = (if rest = [] then None else Some (hd rest))"
    using assms(3) by (cases rest) (auto simp: at_index_def nth_append nat_add_distrib)
  have starts: "at_index (ns_starts ns) (int (length pre)) = Some (ns_starts ns ! length pre)"
    "at_index (ns_ends ns) (int (length before)) = Some (ns_ends ns ! length before)"
  proof -
    have "length pre < length (ns_chars ns)" "length before < length (ns_chars ns)"
      using total len assms(6) by (simp_all add: assms(3) flip: length_greater_0_conv)
    then show "at_index (ns_starts ns) (int (length pre)) = Some (ns_starts ns ! length pre)"
      "at_index (ns_ends ns) (int (length before)) = Some (ns_ends ns ! length before)"
      using assms(1) by (simp_all add: at_index_def spans_ok_def)
  qed
  show ?thesis
  proof -
    have here: "at_index (ga_terminals art) (int t) = Some (ga_terminals art ! t)" using assms(2) by (simp add: at_index_def)
    have one: "(\<exists>pre'. pre' = pre \<and> P pre') \<longleftrightarrow> P pre" for P by blast
    show ?thesis
      unfolding candidate_at_def here option.case Let_def start left right starts prod.case uniq one k
      by (simp only: if_split [of "\<lambda>x. x = Some c"] option.inject) (auto dest: sym)
  qed
qed

lemma collect_spec:
  assumes "artifact_ok m art" and "spans_ok ns"
  shows "\<lbrakk>ns_chars ns = before @ cs; scan (ga_nodes art) 0 before = Some state\<rbrakk> \<Longrightarrow>
    \<exists>found. collect_candidates u source art ns state (length before) cs = Some found \<and>
      (\<forall>c. c \<in> set found \<longleftrightarrow> (\<exists>a char b t. cs = a @ char # b \<and> t < length (ga_terminals art) \<and>
         suffix (gt_normalizedForm (ga_terminals art ! t)) (before @ a @ [char]) \<and>
         candidate_at u source art ns (length before + length a) t = Some c))"
proof (induction cs arbitrary: before state)
  case (Cons char cs)
  obtain word where w: "trie_words (ga_nodes art) word"
    "\<forall>t < length (ga_nodes art). linked_node (ga_nodes art) word (map gt_normalizedForm (ga_terminals art)) t"
    "form_prefixes (map gt_normalizedForm (ga_terminals art)) \<subseteq> words (ga_nodes art) word" by (rule artifact_trie [OF assms(1)])
  obtain s where s: "scan (ga_nodes art) 0 (before @ [char]) = Some s"
    "\<And>i. i \<in> set (outputs_of (ga_nodes art) s) \<longleftrightarrow> i < length (ga_terminals art) \<and>
      suffix (map gt_normalizedForm (ga_terminals art) ! i) (before @ [char])"
    by (rule scan_outputs [OF w, of "before @ [char]"]) auto
  then have step: "next_state (ga_nodes art) state char = Some s" using Cons.prems(2) by (auto simp: scan_append bind_eq_Some_conv)
  from Cons.IH [of "before @ [char]" s] Cons.prems(1) s(1) obtain found where
    found: "collect_candidates u source art ns s (Suc (length before)) cs = Some found"
      "\<And>c. c \<in> set found \<longleftrightarrow> (\<exists>a ch b t. cs = a @ ch # b \<and> t < length (ga_terminals art) \<and>
         suffix (gt_normalizedForm (ga_terminals art ! t)) (before @ char # a @ [ch]) \<and>
         candidate_at u source art ns (Suc (length before + length a)) t = Some c)" by auto
  let ?here = "List.map_filter (candidate_at u source art ns (length before)) (outputs_of (ga_nodes art) s)"
  have "c \<in> set ?here \<longleftrightarrow> (\<exists>t < length (ga_terminals art). suffix (gt_normalizedForm (ga_terminals art ! t)) (before @ [char]) \<and>
      candidate_at u source art ns (length before) t = Some c)" for c
    using s(2) by (auto simp: List.map_filter_def image_iff)
  moreover have split: "(\<exists>a ch b t. char # cs = a @ ch # b \<and> P a ch t) \<longleftrightarrow>
      (\<exists>t. P [] char t) \<or> (\<exists>a ch b t. cs = a @ ch # b \<and> P (char # a) ch t)" for P
    by (auto simp: Cons_eq_append_conv)
  ultimately show ?case
    using found step unfolding split by (intro exI [of _ "?here @ found"]) simp
qed simp

lemma all_occurrences:
  assumes "artifact_ok m art" and "proper_segmenter u"
  shows "\<exists>found. collect_candidates u source art (normalizeGlossarySource u source) 0 0 (ns_chars (normalizeGlossarySource u source)) =
    Some found \<and> (\<forall>c. c \<in> set found \<longleftrightarrow> glossary_occurrence u source art c)"
proof -
  let ?ns = "normalizeGlossarySource u source"
  have ok: "spans_ok ?ns" by (rule normalized_spans_ok [OF assms(2)])
  obtain found where found: "collect_candidates u source art ?ns 0 0 (ns_chars ?ns) = Some found"
    "\<And>c. c \<in> set found \<longleftrightarrow> (\<exists>a char b t. ns_chars ?ns = a @ char # b \<and> t < length (ga_terminals art) \<and>
         suffix (gt_normalizedForm (ga_terminals art ! t)) (a @ [char]) \<and> candidate_at u source art ?ns (length a) t = Some c)"
    using collect_spec [OF assms(1) ok, of "[]" "ns_chars ?ns" 0 u source] by auto
  have form: "gt_normalizedForm (ga_terminals art ! t) \<noteq> []"
    "gt_codePointLength (ga_terminals art ! t) = length (gt_normalizedForm (ga_terminals art ! t))"
    if "t < length (ga_terminals art)" for t using that assms(1) by (auto simp: artifact_ok_def)
  have "c \<in> set found \<longleftrightarrow> glossary_occurrence u source art c" for c
  proof
    assume "c \<in> set found"
    then obtain a char b t where c: "ns_chars ?ns = a @ char # b" "t < length (ga_terminals art)"
      "suffix (gt_normalizedForm (ga_terminals art ! t)) (a @ [char])" "candidate_at u source art ?ns (length a) t = Some c"
      using found(2) by blast
    from c(4) candidate_at_iff [OF ok c(2,1,3) refl form [OF c(2)], of u source c] c(1) obtain pre where
      "a @ [char] = pre @ gt_normalizedForm (ga_terminals art ! t)" and
      rest: "isBoundary u (if pre = [] then None else Some (last pre))" "isBoundary u (if b = [] then None else Some (hd b))"
      "case_form_ok u (ga_terminals art ! t)
         (take (ns_ends ?ns ! (length pre + length (gt_normalizedForm (ga_terminals art ! t)) - 1) - ns_starts ?ns ! length pre)
           (drop (ns_starts ?ns ! length pre) source))"
      "c = candidate source (ga_terminals art ! t) t (ns_starts ?ns ! length pre)
         (ns_ends ?ns ! (length pre + length (gt_normalizedForm (ga_terminals art ! t)) - 1))" by blast
    then have "ns_chars ?ns = pre @ gt_normalizedForm (ga_terminals art ! t) @ b"
      using c(1) by (metis append.assoc append_Cons append_Nil)
    with rest c(2) show "glossary_occurrence u source art c" unfolding glossary_occurrence_def Let_def by blast
  next
    assume "glossary_occurrence u source art c"
    then obtain t pre post where c: "t < length (ga_terminals art)" "ns_chars ?ns = pre @ gt_normalizedForm (ga_terminals art ! t) @ post"
      "isBoundary u (if pre = [] then None else Some (last pre))" "isBoundary u (if post = [] then None else Some (hd post))"
      "case_form_ok u (ga_terminals art ! t)
         (take (ns_ends ?ns ! (length pre + length (gt_normalizedForm (ga_terminals art ! t)) - 1) - ns_starts ?ns ! length pre)
           (drop (ns_starts ?ns ! length pre) source))"
      "c = candidate source (ga_terminals art ! t) t (ns_starts ?ns ! length pre)
         (ns_ends ?ns ! (length pre + length (gt_normalizedForm (ga_terminals art ! t)) - 1))"
      unfolding glossary_occurrence_def Let_def by blast
    obtain f char where f: "gt_normalizedForm (ga_terminals art ! t) = f @ [char]"
      using form(1) [OF c(1)] by (metis rev_exhaust)
    then have chars: "ns_chars ?ns = (pre @ f) @ char # post" using c(2) by simp
    have suf: "suffix (gt_normalizedForm (ga_terminals art ! t)) ((pre @ f) @ [char])" using f by (simp add: suffix_def)
    have "candidate_at u source art ?ns (length (pre @ f)) t = Some c"
      unfolding candidate_at_iff [OF ok c(1) chars suf refl form [OF c(1)]]
      by (rule exI [of _ pre]) (use c(3-6) f in simp)
    with chars suf c(1) show "c \<in> set found" using found(2) by blast
  qed
  with found(1) show ?thesis by blast
qed

section \<open>What is matched\<close>

lemma occurrence_span:
  assumes "glossary_occurrence u source art c" and "spans_ok (normalizeGlossarySource u source)" and "artifact_ok m art"
  shows "gm_start c < gm_end c"
proof -
  let ?ns = "normalizeGlossarySource u source"
  obtain t pre post where c: "t < length (ga_terminals art)" "ns_chars ?ns = pre @ gt_normalizedForm (ga_terminals art ! t) @ post"
    "gm_start c = ns_starts ?ns ! length pre" "gm_end c = ns_ends ?ns ! (length pre + length (gt_normalizedForm (ga_terminals art ! t)) - 1)"
    using assms(1) unfolding glossary_occurrence_def Let_def by (auto simp: candidate_def)
  have "gt_normalizedForm (ga_terminals art ! t) \<noteq> []" using assms(3) c(1) by (auto simp: artifact_ok_def)
  then have "length pre \<le> length pre + length (gt_normalizedForm (ga_terminals art ! t)) - 1"
    "length pre + length (gt_normalizedForm (ga_terminals art ! t)) - 1 < length (ns_chars ?ns)"
    by (simp_all add: c(2) flip: length_greater_0_conv)
  with assms(2) show ?thesis by (simp add: c(3,4) spans_ok_def)
qed

text \<open>Spans that do not overlap, sorted by their start, follow each other.\<close>

lemma sorted_disjoint:
  assumes "sorted_wrt (\<lambda>a b. \<not> clash (f a) (f b)) xs" and "\<forall>x \<in> set xs. fst (f x) < snd (f x)"
  shows "sorted_wrt (\<lambda>a b. snd (f a) \<le> fst (f b)) (sort_key f xs)"
proof -
  have pair: "\<not> clash (f a) (f b)" if "a \<in># mset xs" "b \<in># mset xs - {#a#}" for a b
    using assms(1) that
  proof (induction xs)
    case (Cons x xs)
    have sym: "clash (f p) (f q) \<Longrightarrow> clash (f q) (f p)" for p q by (auto simp: clash_def)
    show ?case
    proof (cases "x = a")
      case True
      with Cons.prems show ?thesis by simp
    next
      case False
      then have a: "a \<in># mset xs" using Cons.prems(2) by auto
      show ?thesis
      proof (cases "b = x")
        case True
        with Cons.prems(1) a sym show ?thesis by auto
      next
        case False
        then have "b \<in># mset xs - {#a#}" using Cons.prems(3) \<open>x \<noteq> a\<close> by auto
        with Cons.IH Cons.prems(1) a show ?thesis by simp
      qed
    qed
  qed simp
  let ?ys = "sort_key f xs"
  have "snd (f (?ys ! i)) \<le> fst (f (?ys ! j))" if ij: "i < j" "j < length ?ys" for i j
  proof -
    let ?a = "?ys ! i" and ?b = "?ys ! j"
    have "f ?a \<le> f ?b" using ij sorted_nth_mono [of "map f ?ys" i j] by simp
    obtain front behind where ys: "?ys = front @ ?a # behind" "length front = i"
      using ij id_take_nth_drop [of i ?ys] by (metis length_take less_trans min.absorb2 nat_less_le)
    have "?b = behind ! (j - Suc i)" "j - Suc i < length behind"
      using ij ys(2) arg_cong [OF ys(1), of "\<lambda>zs. zs ! j"] arg_cong [OF ys(1), of length] by (simp_all add: nth_append)
    then have "?b \<in> set behind" by simp
    moreover have m: "mset xs = mset front + add_mset ?a (mset behind)"
      using arg_cong [OF ys(1), of mset] by simp
    ultimately have "\<not> clash (f ?a) (f ?b)" using pair [of ?a ?b] unfolding m by simp
    moreover have "?a \<in> set xs" "?b \<in> set xs" using m \<open>?b \<in> set behind\<close> by (simp_all flip: set_mset_mset)
    ultimately show ?thesis using assms(2) \<open>f ?a \<le> f ?b\<close> by (auto simp: clash_def less_eq_prod_def)
  qed
  then show ?thesis by (simp add: sorted_wrt_iff_nth_less)
qed

text \<open>
  C26 Glossary matching. With the automaton built from the terms, matching a text always ends. The
  matches, in the order of the text and never overlapping, are occurrences of terms; and an
  occurrence that is not matched overlaps a match that is at least as long and takes precedence over
  it, or is equal to it in precedence. Occurrences are found in the normalized text, between word
  boundaries, and reported by the span of the original text they come from.
\<close>
theorem glossary_matches_exact:
  assumes "artifact_ok maxStates art" and "proper_segmenter u"
    and "\<forall>found. collect_candidates u source art (normalizeGlossarySource u source) 0 0 (ns_chars (normalizeGlossarySource u source)) =
      Some found \<longrightarrow> length found < 2 ^ 31"
  shows "\<exists>ms. matchGlossaryText u source art = Some ms \<and>
    (\<forall>x \<in> set ms. \<exists>c. glossary_occurrence u source art c \<and> x = GlossaryMatch.truncate c) \<and>
    sorted_wrt (\<lambda>a b. gm_end a \<le> gm_start b) ms \<and>
    (\<forall>c. glossary_occurrence u source art c \<longrightarrow>
      (\<exists>d. glossary_occurrence u source art d \<and> GlossaryMatch.truncate d \<in> set ms \<and> clash (span_of c) (span_of d) \<and>
         compareCandidatePrecedence d c \<le> 0 \<and> cd_visibleCodePoints c \<le> cd_visibleCodePoints d))"
proof -
  let ?ns = "normalizeGlossarySource u source"
  have ok: "spans_ok ?ns" by (rule normalized_spans_ok [OF assms(2)])
  obtain found where found: "collect_candidates u source art ?ns 0 0 (ns_chars ?ns) = Some found"
    "\<And>c. c \<in> set found \<longleftrightarrow> glossary_occurrence u source art c" using all_occurrences [OF assms(1,2)] by blast
  define cands where "cands = sort_key candidate_key found"
  define index where "index = newSelectedSpanIndex (map span_of cands)"
  define sel where "sel = greedy span_overlaps span_add span_of index cands"
  have occ: "c \<in> set cands \<longleftrightarrow> glossary_occurrence u source art c" for c using found(2) by (simp add: cands_def)
  have "2 * length (map span_of cands) < 2 ^ 32" using assms(3) found(1) by (simp add: cands_def)
  note index = new_index_holds [OF this, folded index_def]
  have fits: "\<forall>c \<in> set cands. selected_spans.fits index (span_of c)"
  proof
    fix c assume c: "c \<in> set cands"
    then have "span_of c \<in> set (map span_of cands)" by simp
    from index(2) [OF this] occurrence_span [OF _ ok assms(1), of c] c
    show "selected_spans.fits index (span_of c)" by (simp add: selected_spans.fits_def span_of_def occ)
  qed
  have sorted: "sorted_wrt (\<lambda>d c. candidate_key d \<le> candidate_key c) cands"
    unfolding cands_def using sorted_sort_key [of candidate_key found] by (simp add: sorted_map)
  note disjoint = selected_spans.greedy_disjoint [OF index(1) fits, folded sel_def]
  have span: "\<forall>c \<in> set sel. fst (span_of c) < snd (span_of c)"
    using selected_spans.greedy_subset [of span_of index cands] occ occurrence_span [OF _ ok assms(1)]
    by (auto simp: sel_def span_of_def)
  let ?ms = "map GlossaryMatch.truncate (sort_key span_of sel)"
  have result: "matchGlossaryText u source art = Some ?ms"
  proof (cases "source = [] \<or> ga_nodes art = [] \<or> ga_terminals art = []")
    case True
    have "found = []"
    proof (rule ccontr)
      assume "found \<noteq> []"
      then obtain c where "glossary_occurrence u source art c" using found(2) by (cases found) auto
      then obtain t pre post where t: "t < length (ga_terminals art)"
        "ns_chars ?ns = pre @ gt_normalizedForm (ga_terminals art ! t) @ post"
        unfolding glossary_occurrence_def Let_def by blast
      moreover have "ns_chars ?ns = []" if "source = []"
        using that by (simp add: normalizeGlossarySource_def normalizeGlossarySourceWithCase_def isAscii_def normalizeAsciiSource_def source_of_def)
      moreover have "ga_nodes art \<noteq> []" by (rule artifact_trie [OF assms(1)]) (auto dest: words_length)
      ultimately show False using True assms(1) by (fastforce simp: artifact_ok_def)
    qed
    with True show ?thesis by (simp add: matchGlossaryText_def sel_def cands_def)
  next
    case False
    with found(1) show ?thesis by (simp add: matchGlossaryText_def Let_def sel_def cands_def index_def)
  qed
  show ?thesis
  proof (intro exI conjI)
    show "matchGlossaryText u source art = Some ?ms" by (rule result)
    show "\<forall>x \<in> set ?ms. \<exists>c. glossary_occurrence u source art c \<and> x = GlossaryMatch.truncate c"
      using selected_spans.greedy_subset [of span_of index cands] occ by (auto simp: sel_def)
    have "sorted_wrt (\<lambda>a b. snd (span_of a) \<le> fst (span_of b)) (sort_key span_of sel)"
      by (rule sorted_disjoint) (use disjoint span in auto)
    then show "sorted_wrt (\<lambda>a b. gm_end a \<le> gm_start b) ?ms" by (simp add: sorted_wrt_map span_of_def GlossaryMatch.truncate_def)
    show "\<forall>c. glossary_occurrence u source art c \<longrightarrow>
        (\<exists>d. glossary_occurrence u source art d \<and> GlossaryMatch.truncate d \<in> set ?ms \<and> clash (span_of c) (span_of d) \<and>
           compareCandidatePrecedence d c \<le> 0 \<and> cd_visibleCodePoints c \<le> cd_visibleCodePoints d)"
    proof (intro allI impI)
      fix c assume "glossary_occurrence u source art c"
      then have c: "c \<in> set cands" "gm_start c < gm_end c" using occ occurrence_span [OF _ ok assms(1)] by simp_all
      have "\<exists>d \<in> set sel. candidate_key d \<le> candidate_key c \<and> clash (span_of c) (span_of d)"
        using selected_spans.greedy_complete [OF index(1) fits sorted c(1), folded sel_def]
      proof (elim disjE)
        assume "c \<in> set sel"
        with c(2) show ?thesis by (intro bexI [of _ c]) (simp_all add: clash_def span_of_def)
      qed auto
      then obtain d where d: "d \<in> set sel" "candidate_key d \<le> candidate_key c" "clash (span_of c) (span_of d)" by blast
      then have "glossary_occurrence u source art d"
        using selected_spans.greedy_subset [of span_of index cands] occ by (auto simp: sel_def)
      moreover have "cd_visibleCodePoints c \<le> cd_visibleCodePoints d"
        using d(2) by (auto simp: candidate_key_def less_eq_prod_def)
      ultimately show "\<exists>d. glossary_occurrence u source art d \<and> GlossaryMatch.truncate d \<in> set ?ms \<and> clash (span_of c) (span_of d) \<and>
          compareCandidatePrecedence d c \<le> 0 \<and> cd_visibleCodePoints c \<le> cd_visibleCodePoints d"
        using d by (intro exI [of _ d]) (simp add: compare_key)
    qed
  qed
qed

section \<open>A glossary of two terms\<close>

definition sample_unicode :: unicode where
  "sample_unicode = \<lparr>u_segments = \<lambda>source. zip [0..<length source] (map (\<lambda>c. [c]) source), u_nfkc = id, u_lower = id,
     u_white = \<lambda>s. s = [32], u_space = \<lambda>c. c = 32, u_space_or_punctuation = \<lambda>c. c = 32 \<or> c = 46\<rparr>"

definition sample_term :: "code_point list \<Rightarrow> GlossaryArtifactTerminal" where
  "sample_term form = \<lparr>gt_caseSensitiveForms = Some [], gt_codePointLength = length form, gt_definitionText = [],
     gt_normalizedForm = form, gt_requiredBoldCodePoints = 0, gt_glossaryOrder = 0, gt_rowOrder = 0, gt_alternativeOrder = 0\<rparr>"

text \<open>The terms ``ab'' and ``ab c'', and the text ``AB  c. ab''.\<close>

definition sample_artifact :: GlossaryArtifact where
  "sample_artifact =
     (let terms = map sample_term [[97, 98], [97, 98, 32, 99]]
      in \<lparr>ga_nodes = (case buildTrie (map gt_normalizedForm terms) 10 of Some (Some nodes) \<Rightarrow> nodes | _ \<Rightarrow> []), ga_terminals = terms\<rparr>)"

definition sample_source :: "nat list" where
  "sample_source = [65, 66, 32, 32, 99, 46, 32, 97, 98]"

lemma sample_segmenter: "proper_segmenter sample_unicode"
proof -
  have "segments_tile a (zip [a..<a + length cs] (map (\<lambda>c. [c]) cs)) cs" for a and cs :: "nat list"
  proof (induction cs arbitrary: a)
    case (Cons c cs)
    have "[a..<a + length (c # cs)] = a # [Suc a..<Suc a + length cs]" by (simp add: upt_conv_Cons del: upt_Suc)
    with Cons.IH [of "Suc a"] show ?case by (simp del: upt_Suc)
  qed simp
  from this [of 0] show ?thesis by (simp add: proper_segmenter_def sample_unicode_def)
qed

theorem glossary_matches_exact_witness:
  "\<exists>ms. matchGlossaryText sample_unicode sample_source sample_artifact = Some ms \<and> map span_of ms = [(0, 5), (7, 9)] \<and>
     sorted_wrt (\<lambda>a b. gm_end a \<le> gm_start b) ms"
proof -
  have ok: "artifact_ok 10 sample_artifact" by code_simp
  have "case_option True (\<lambda>found. length found < 2 ^ 31)
      (collect_candidates sample_unicode sample_source sample_artifact (normalizeGlossarySource sample_unicode sample_source) 0 0
        (ns_chars (normalizeGlossarySource sample_unicode sample_source)))" by code_simp
  then have few: "\<forall>found. collect_candidates sample_unicode sample_source sample_artifact
      (normalizeGlossarySource sample_unicode sample_source) 0 0
      (ns_chars (normalizeGlossarySource sample_unicode sample_source)) = Some found \<longrightarrow> length found < 2 ^ 31" by auto
  have spans: "map_option (map span_of) (matchGlossaryText sample_unicode sample_source sample_artifact) = Some [(0, 5), (7, 9)]"
    by code_simp
  from glossary_matches_exact [OF ok sample_segmenter few] obtain ms where
    "matchGlossaryText sample_unicode sample_source sample_artifact = Some ms" "sorted_wrt (\<lambda>a b. gm_end a \<le> gm_start b) ms" by blast
  with spans show ?thesis by simp
qed

end
