(* ===== verification/BlockedBloom.thy ===== *)
theory BlockedBloom
  imports Prelude "HOL-Library.Code_Target_Nat" "HOL-Library.Code_Target_Int"
begin

unbundle bit_operations_syntax

text \<open>
  The set of messages already counted (packages/server/src/services/voice/blocked-bloom.ts): a blocked
  Bloom filter over digests and the file it is kept in. The file is a list of bytes; a write that the
  process does not live to see is a write that is not made, so a crash leaves a prefix of the writes.
  Sizes are below \<open>2 ^ 48\<close>, where \<open>Math.log2\<close> of a number that is not a power of two does not round up
  to an integer, and counts below \<open>2 ^ 53\<close>.
  The estimate of the false-positive rate, which is floating-point arithmetic, is not modelled.
\<close>

section \<open>Shape\<close>

definition BLOCK_BYTES :: nat where "BLOCK_BYTES = 64"
definition BLOCK_BIT_WIDTH :: nat where "BLOCK_BIT_WIDTH = 9"
definition DEFAULT_HASHES :: nat where "DEFAULT_HASHES = 8"
definition BITS_PER_KEY :: nat where "BITS_PER_KEY = 12"
definition CHUNK_BYTES :: nat where "CHUNK_BYTES = 64 * 1024"
definition HEADER_BYTES :: nat where "HEADER_BYTES = 64"

text \<open>\<open>"YABLOOM1"\<close> in ASCII.\<close>

definition MAGIC :: bytes where
  "MAGIC = [0x59, 0x41, 0x42, 0x4C, 0x4F, 0x4F, 0x4D, 0x31]"

text \<open>\<open>2 ** Math.floor(Math.log2(n))\<close> for a positive integer.\<close>

fun highest_power :: "nat \<Rightarrow> nat" where
  "highest_power n = (if n < 2 then 1 else 2 * highest_power (n div 2))"

declare highest_power.simps [simp del]

definition bloomBytes :: "nat \<Rightarrow> nat" where
  "bloomBytes bytes = highest_power (max BLOCK_BYTES bytes)"

definition bloomCapacity :: "nat \<Rightarrow> nat" where
  "bloomCapacity bytes = bytes * 8 div BITS_PER_KEY"

section \<open>The filter\<close>

text \<open>A byte of a digest in an expression of bit operators, which take \<open>undefined\<close> for 0.\<close>

definition byte_at :: "bytes \<Rightarrow> nat \<Rightarrow> nat" where
  "byte_at bs i = (if i < length bs then unat (bs ! i) else 0)"

definition field :: "bytes \<Rightarrow> nat \<Rightarrow> nat \<Rightarrow> nat" where
  "field digest b width =
     (let byte = drop_bit 3 b;
          value = drop_bit (b AND 7)
            (byte_at digest byte OR push_bit 8 (byte_at digest (byte + 1)) OR push_bit 16 (byte_at digest (byte + 2)))
      in value AND (2 ^ width - 1))"

record BlockedBloom =
  bl_bytes :: nat
  bl_hashes :: nat
  bl_blocks :: nat
  bl_bits :: bytes
  bl_dirty :: "bool list"
  bl_inserted :: nat
  bl_dirtyChunks :: nat

text \<open>The constructor; \<open>None\<close> is the error that the digest has not enough bits.\<close>

definition newBlockedBloom :: "nat \<Rightarrow> nat \<Rightarrow> BlockedBloom option" where
  "newBlockedBloom bytes hashes =
     (if 48 + hashes * BLOCK_BIT_WIDTH > 8 * 24 then None
      else
        (let size = bloomBytes bytes
         in Some \<lparr>bl_bytes = size, bl_hashes = hashes, bl_blocks = size div BLOCK_BYTES, bl_bits = replicate size 0,
              bl_dirty = replicate ((size + CHUNK_BYTES - 1) div CHUNK_BYTES) False, bl_inserted = 0, bl_dirtyChunks = 0\<rparr>))"

definition bloom_saturated :: "BlockedBloom \<Rightarrow> bool" where
  "bloom_saturated f = (bl_inserted f \<ge> bloomCapacity (bl_bytes f))"

definition bloom_block :: "BlockedBloom \<Rightarrow> bytes \<Rightarrow> nat" where
  "bloom_block f digest =
     (byte_at digest 0 OR push_bit 8 (byte_at digest 1) OR push_bit 16 (byte_at digest 2) OR
      push_bit 24 (byte_at digest 3 AND 0x7F)) mod bl_blocks f"

text \<open>\<open>positions\<close>: the bits of a key and the start of its block.\<close>

definition bit_positions :: "BlockedBloom \<Rightarrow> bytes \<Rightarrow> nat list" where
  "bit_positions f digest = map (\<lambda>index. field digest (48 + index * BLOCK_BIT_WIDTH) BLOCK_BIT_WIDTH) [0..<bl_hashes f]"

definition block_start :: "BlockedBloom \<Rightarrow> bytes \<Rightarrow> nat" where
  "block_start f digest = bloom_block f digest * BLOCK_BYTES"

definition bit_mask :: "nat \<Rightarrow> byte" where
  "bit_mask b = push_bit (b AND 7) 1"

definition bloom_has :: "BlockedBloom \<Rightarrow> bytes \<Rightarrow> bool" where
  "bloom_has f digest =
     list_all (\<lambda>b. bl_bits f ! (block_start f digest + drop_bit 3 b) AND bit_mask b \<noteq> 0) (bit_positions f digest)"

fun set_bits :: "nat \<Rightarrow> nat list \<Rightarrow> bytes \<Rightarrow> bool \<Rightarrow> bytes \<times> bool" where
  "set_bits start [] bits novel = (bits, novel)"
| "set_bits start (b # bs) bits novel =
     (let offset = start + drop_bit 3 b; byte = bits ! offset
      in if byte AND bit_mask b \<noteq> 0 then set_bits start bs bits novel
         else set_bits start bs (bits[offset := byte OR bit_mask b]) True)"

definition mark :: "BlockedBloom \<Rightarrow> nat \<Rightarrow> BlockedBloom" where
  "mark f offset =
     (let chunk = offset div CHUNK_BYTES
      in if bl_dirty f ! chunk then f
         else f\<lparr>bl_dirty := (bl_dirty f)[chunk := True], bl_dirtyChunks := Suc (bl_dirtyChunks f)\<rparr>)"

definition bloom_add :: "BlockedBloom \<Rightarrow> bytes \<Rightarrow> bool \<times> BlockedBloom" where
  "bloom_add f digest =
     (let start = block_start f digest; (bits, novel) = set_bits start (bit_positions f digest) (bl_bits f) False
      in if \<not> novel then (False, f\<lparr>bl_bits := bits\<rparr>)
         else (True, mark (f\<lparr>bl_bits := bits, bl_inserted := Suc (bl_inserted f)\<rparr>) start))"

definition bloom_clear :: "BlockedBloom \<Rightarrow> BlockedBloom" where
  "bloom_clear f =
     f\<lparr>bl_bits := replicate (length (bl_bits f)) 0, bl_inserted := 0, bl_dirty := replicate (length (bl_dirty f)) True,
       bl_dirtyChunks := length (bl_dirty f)\<rparr>"

definition takeDirty :: "BlockedBloom \<Rightarrow> nat list \<times> BlockedBloom" where
  "takeDirty f =
     (filter (\<lambda>chunk. bl_dirty f ! chunk) [0..<length (bl_dirty f)],
      f\<lparr>bl_dirty := replicate (length (bl_dirty f)) False, bl_dirtyChunks := 0\<rparr>)"

definition bloom_chunk :: "BlockedBloom \<Rightarrow> nat \<Rightarrow> nat \<times> bytes" where
  "bloom_chunk f index =
     (let offset = index * CHUNK_BYTES
      in (offset, take (min (offset + CHUNK_BYTES) (bl_bytes f) - offset) (drop offset (bl_bits f))))"

text \<open>\<open>bits.copy(this.bits)\<close> copies as many bytes as both have.\<close>

definition bloom_adopt :: "BlockedBloom \<Rightarrow> bytes \<Rightarrow> nat \<Rightarrow> BlockedBloom" where
  "bloom_adopt f bits n =
     f\<lparr>bl_bits := take (length (bl_bits f)) bits @ drop (length bits) (bl_bits f), bl_inserted := n,
       bl_dirty := replicate (length (bl_dirty f)) False, bl_dirtyChunks := 0\<rparr>"

section \<open>The file\<close>

definition write_at :: "nat \<Rightarrow> bytes \<Rightarrow> bytes \<Rightarrow> bytes" where
  "write_at pos bs content = take pos (content @ replicate (pos - length content) 0) @ bs @ drop (pos + length bs) content"

definition truncate_to :: "nat \<Rightarrow> bytes \<Rightarrow> bytes" where
  "truncate_to n content = take n content @ replicate (n - length content) 0"

text \<open>Little-endian fields of the header.\<close>

fun le_bytes :: "nat \<Rightarrow> nat \<Rightarrow> bytes" where
  "le_bytes 0 v = []"
| "le_bytes (Suc n) v = of_nat (v mod 256) # le_bytes n (v div 256)"

fun le_value :: "bytes \<Rightarrow> nat" where
  "le_value [] = 0"
| "le_value (b # bs) = unat b + 256 * le_value bs"

definition read_le :: "nat \<Rightarrow> nat \<Rightarrow> bytes \<Rightarrow> nat" where
  "read_le n pos bs = le_value (take n (drop pos bs))"

definition bloom_header :: "BlockedBloom \<Rightarrow> bytes" where
  "bloom_header f =
     (let header = replicate HEADER_BYTES 0;
          header = write_at 0 MAGIC header;
          header = write_at 8 (le_bytes 4 (bl_hashes f)) header;
          header = write_at 16 (le_bytes 8 (bl_bytes f)) header
      in write_at 24 (le_bytes 8 (bl_inserted f)) header)"

text \<open>What \<open>persist\<close> writes, in order; the dirty chunks are taken first.\<close>

definition persist_writes :: "BlockedBloom \<Rightarrow> (nat \<times> bytes) list" where
  "persist_writes f =
     map (\<lambda>index. let (offset, bytes) = bloom_chunk f index in (HEADER_BYTES + offset, bytes)) (fst (takeDirty f)) @
     [(0, bloom_header f)]"

definition apply_writes :: "(nat \<times> bytes) list \<Rightarrow> bytes \<Rightarrow> bytes" where
  "apply_writes writes content = foldl (\<lambda>c (pos, bs). write_at pos bs c) content writes"

definition persist :: "BlockedBloom \<Rightarrow> bytes \<Rightarrow> BlockedBloom \<times> bytes" where
  "persist f content = (snd (takeDirty f), apply_writes (persist_writes f) content)"

definition file_matches :: "BlockedBloom \<Rightarrow> bytes \<Rightarrow> bool" where
  "file_matches f content =
     (let header = take HEADER_BYTES content
      in length header = HEADER_BYTES \<and> take (length MAGIC) header = MAGIC \<and> read_le 4 8 header = bl_hashes f \<and>
         read_le 8 16 header = bl_bytes f)"

text \<open>\<open>load\<close>; a missing file is opened as an empty one.\<close>

definition load :: "BlockedBloom \<Rightarrow> bytes option \<Rightarrow> bool \<times> BlockedBloom \<times> bytes" where
  "load f file =
     (let content = (case file of None \<Rightarrow> [] | Some c \<Rightarrow> c)
      in if \<not> file_matches f content
         then
           (let content = truncate_to (HEADER_BYTES + bl_bytes f) content;
                f = snd (takeDirty (bloom_clear f));
                (f, content) = persist f content
            in (False, f, content))
         else
           (let found = take (bl_bytes f) (drop HEADER_BYTES content);
                bits = found @ replicate (bl_bytes f - length found) 0
            in (True, bloom_adopt f bits (read_le 8 24 content), content)))"

text \<open>\<open>replace\<close>: the whole filter goes to a file beside, which is then renamed.\<close>

definition replace_writes :: "BlockedBloom \<Rightarrow> (nat \<times> bytes) list" where
  "replace_writes f =
     (0, bloom_header f) #
     map (\<lambda>index. let (offset, bytes) = bloom_chunk f index in (HEADER_BYTES + offset, bytes))
       [0..<(bl_bytes f + CHUNK_BYTES - 1) div CHUNK_BYTES]"

definition replace :: "BlockedBloom \<Rightarrow> bool \<times> BlockedBloom \<times> bytes" where
  "replace replacement =
     (let content = apply_writes (replace_writes replacement) [] in load (snd (takeDirty replacement)) (Some content))"

section \<open>Well-formed filters\<close>

definition bloom_ok :: "BlockedBloom \<Rightarrow> bool" where
  "bloom_ok f \<longleftrightarrow>
     bl_bytes f = BLOCK_BYTES * bl_blocks f \<and> bl_blocks f > 0 \<and> bl_bytes f < 2 ^ 64 \<and> bl_hashes f \<le> 16 \<and>
     length (bl_bits f) = bl_bytes f \<and> length (bl_dirty f) = (bl_bytes f + CHUNK_BYTES - 1) div CHUNK_BYTES \<and>
     bl_dirtyChunks f = length (filter id (bl_dirty f))"

definition same_shape :: "BlockedBloom \<Rightarrow> BlockedBloom \<Rightarrow> bool" where
  "same_shape f g \<longleftrightarrow> bl_bytes f = bl_bytes g \<and> bl_hashes f = bl_hashes g \<and> bl_blocks f = bl_blocks g"

lemma highest_power_bounds: "n > 0 \<Longrightarrow> highest_power n \<le> n \<and> n < 2 * highest_power n"
proof (induction n rule: highest_power.induct)
  case (1 n)
  show ?case
  proof (cases "n < 2")
    case False
    with 1 have "highest_power (n div 2) \<le> n div 2 \<and> n div 2 < 2 * highest_power (n div 2)" by simp
    with False show ?thesis by (subst (1 2) highest_power.simps) auto
  qed (use 1 in \<open>simp add: highest_power.simps\<close>)
qed

lemma highest_power_64: "64 \<le> n \<Longrightarrow> 64 dvd highest_power n"
proof -
  have p: "highest_power n = 2 ^ k * highest_power (n div 2 ^ k)" if "2 ^ k \<le> n" for k
    using that
  proof (induction k)
    case (Suc k)
    have "n div 2 ^ k \<ge> 2" using Suc.prems by (simp add: div_greater_zero_iff less_eq_div_iff_mult_less_eq)
    then have "highest_power (n div 2 ^ k) = 2 * highest_power (n div 2 ^ k div 2)" by (subst highest_power.simps) simp
    moreover have "n div 2 ^ k div 2 = n div 2 ^ Suc k" by (simp add: div_mult2_eq [symmetric] mult.commute)
    ultimately show ?case using Suc by simp
  qed simp
  show "64 \<le> n \<Longrightarrow> 64 dvd highest_power n" using p [of 6] by simp
qed

lemma newBlockedBloom_ok:
  assumes "newBlockedBloom bytes hashes = Some f" and "bytes < 2 ^ 64"
  shows "bloom_ok f" and "bl_bits f = replicate (bl_bytes f) 0" and "bl_hashes f = hashes" and "bl_inserted f = 0"
proof -
  have b: "highest_power (max 64 bytes) \<le> max 64 bytes" "0 < highest_power (max 64 bytes)" "64 dvd highest_power (max 64 bytes)"
  proof -
    have "max 64 bytes > 0" by simp
    from highest_power_bounds [OF this] show "highest_power (max 64 bytes) \<le> max 64 bytes" "0 < highest_power (max 64 bytes)"
      by linarith+
  qed (rule highest_power_64, simp)
  have "bl_bytes f < 2 ^ 64" using assms b(1) by (auto simp: newBlockedBloom_def bloomBytes_def BLOCK_BYTES_def Let_def split: if_splits)
  moreover have "0 < highest_power (max 64 bytes) div 64" using b(2,3) by (simp add: dvd_imp_le div_greater_zero_iff)
  ultimately show "bloom_ok f" "bl_bits f = replicate (bl_bytes f) 0" "bl_hashes f = hashes" "bl_inserted f = 0"
    using assms b by (auto simp: bloom_ok_def newBlockedBloom_def bloomBytes_def BLOCK_BYTES_def BLOCK_BIT_WIDTH_def Let_def split: if_splits)
qed

lemma field_less: "field digest b BLOCK_BIT_WIDTH < 512"
proof -
  have "field digest b BLOCK_BIT_WIDTH = take_bit 9 (drop_bit (b AND 7)
      (byte_at digest (drop_bit 3 b) OR push_bit 8 (byte_at digest (drop_bit 3 b + 1)) OR push_bit 16 (byte_at digest (drop_bit 3 b + 2))))"
    by (simp add: field_def BLOCK_BIT_WIDTH_def Let_def take_bit_eq_mask mask_eq_exp_minus_1)
  also have "\<dots> < 2 ^ 9" by (rule take_bit_nat_less_exp)
  finally show ?thesis by simp
qed

lemma bit_positions_less: "b \<in> set (bit_positions f digest) \<Longrightarrow> b < 512"
  by (auto simp: bit_positions_def field_less)

text \<open>Every bit of a key lies in the filter and in the chunk of its block.\<close>

lemma position_bounds:
  assumes "bloom_ok f" and "b \<in> set (bit_positions f digest)"
  shows "block_start f digest + drop_bit 3 b < bl_bytes f"
    and "(block_start f digest + drop_bit 3 b) div CHUNK_BYTES = block_start f digest div CHUNK_BYTES"
proof -
  have b: "drop_bit 3 b < 64" using bit_positions_less [OF assms(2)] by (simp add: drop_bit_eq_div)
  have "bloom_block f digest < bl_blocks f" using assms(1) by (simp add: bloom_block_def bloom_ok_def)
  then have "bloom_block f digest + 1 \<le> bl_blocks f" by simp
  then have "(bloom_block f digest + 1) * 64 \<le> bl_blocks f * 64" by (rule mult_le_mono1)
  with b assms(1) show "block_start f digest + drop_bit 3 b < bl_bytes f" by (simp add: block_start_def bloom_ok_def BLOCK_BYTES_def)
  have "(bloom_block f digest * 64 + drop_bit 3 b) div 65536 = (bloom_block f digest * 64 + drop_bit 3 b) div 64 div 1024"
    by (simp add: div_mult2_eq [symmetric])
  also have "\<dots> = bloom_block f digest div 1024" using b by simp
  also have "\<dots> = bloom_block f digest * 64 div 65536" using div_mult_mult2 [of 64 "bloom_block f digest" 1024] by simp
  finally show "(block_start f digest + drop_bit 3 b) div CHUNK_BYTES = block_start f digest div CHUNK_BYTES"
    by (simp add: block_start_def BLOCK_BYTES_def CHUNK_BYTES_def)
qed

section \<open>Membership\<close>

definition bits_below :: "bytes \<Rightarrow> bytes \<Rightarrow> bool" where
  "bits_below xs ys \<longleftrightarrow> length xs = length ys \<and> (\<forall>i < length xs. \<forall>n. bit (xs ! i) n \<longrightarrow> bit (ys ! i) n)"

lemma bits_below_refl [simp]: "bits_below xs xs"
  by (simp add: bits_below_def)

lemma bits_below_trans: "bits_below xs ys \<Longrightarrow> bits_below ys zs \<Longrightarrow> bits_below xs zs"
  by (simp add: bits_below_def)

lemma masked: "w AND bit_mask b \<noteq> 0 \<longleftrightarrow> bit w (b AND 7)"
  by (simp add: bit_mask_def bit_iff_and_push_bit_not_eq_0)

lemma bit_or_mask: "bit (w OR bit_mask b) n \<longleftrightarrow> bit w n \<or> n = b AND 7"
proof -
  have "b AND 7 = b mod 8" using take_bit_eq_mask [of 3 b] by (simp add: take_bit_eq_mod mask_eq_exp_minus_1)
  then have "b AND 7 < 8" by simp
  then show ?thesis by (auto simp: bit_mask_def bit_or_iff bit_exp_iff)
qed

lemma has_bits: "bloom_has f digest \<longleftrightarrow>
    (\<forall>b \<in> set (bit_positions f digest). bit (bl_bits f ! (block_start f digest + drop_bit 3 b)) (b AND 7))"
  by (simp add: bloom_has_def list_all_iff masked)

lemma shape_positions:
  "same_shape f g \<Longrightarrow> bit_positions f = bit_positions g \<and> block_start f = block_start g"
  by (auto simp: same_shape_def bit_positions_def block_start_def bloom_block_def fun_eq_iff)

lemma has_mono:
  assumes "bloom_ok f" and "same_shape f g" and "bits_below (bl_bits f) (bl_bits g)" and "bloom_has f digest"
  shows "bloom_has g digest"
  unfolding has_bits
proof
  fix b assume b: "b \<in> set (bit_positions g digest)"
  then have b': "b \<in> set (bit_positions f digest)" and s: "block_start g digest = block_start f digest"
    using shape_positions [OF assms(2)] by simp_all
  have "block_start f digest + drop_bit 3 b < length (bl_bits f)" using position_bounds(1) [OF assms(1) b'] assms(1)
    by (simp add: bloom_ok_def)
  moreover have "bit (bl_bits f ! (block_start f digest + drop_bit 3 b)) (b AND 7)" using assms(4) b' by (simp add: has_bits)
  ultimately show "bit (bl_bits g ! (block_start g digest + drop_bit 3 b)) (b AND 7)"
    using assms(3) by (simp add: s bits_below_def)
qed

lemma set_bits_spec:
  "\<lbrakk>set_bits start bs bits novel = (bits', novel'); \<forall>b \<in> set bs. start + drop_bit 3 b < length bits\<rbrakk> \<Longrightarrow>
   bits_below bits bits' \<and> (\<forall>b \<in> set bs. bit (bits' ! (start + drop_bit 3 b)) (b AND 7)) \<and>
   (novel' \<longleftrightarrow> novel \<or> (\<exists>b \<in> set bs. \<not> bit (bits ! (start + drop_bit 3 b)) (b AND 7))) \<and>
   (\<forall>i. i \<notin> (\<lambda>b. start + drop_bit 3 b) ` set bs \<longrightarrow> bits' ! i = bits ! i)"
proof (induction start bs bits novel rule: set_bits.induct)
  case (2 start b bs bits novel)
  let ?o = "start + drop_bit 3 b"
  show ?case
  proof (cases "bits ! ?o AND bit_mask b \<noteq> 0")
    case True
    then have "set_bits start bs bits novel = (bits', novel')" using "2.prems"(1) by (simp add: Let_def)
    from "2.IH"(1) [OF refl refl True this] "2.prems"(2) have
      IH: "bits_below bits bits'" "\<forall>b \<in> set bs. bit (bits' ! (start + drop_bit 3 b)) (b AND 7)"
        "novel' \<longleftrightarrow> novel \<or> (\<exists>b \<in> set bs. \<not> bit (bits ! (start + drop_bit 3 b)) (b AND 7))"
        "\<forall>i. i \<notin> (\<lambda>b. start + drop_bit 3 b) ` set bs \<longrightarrow> bits' ! i = bits ! i" by auto
    have "bit (bits ! ?o) (b AND 7)" using True by (simp add: masked)
    moreover from this have "bit (bits' ! ?o) (b AND 7)" using IH(1) "2.prems"(2) by (simp add: bits_below_def)
    ultimately show ?thesis using IH by auto
  next
    case False
    let ?bits = "bits[?o := bits ! ?o OR bit_mask b]"
    have "set_bits start bs ?bits True = (bits', novel')" using "2.prems"(1) False by (simp add: Let_def)
    from "2.IH"(2) [OF refl refl False this] "2.prems"(2) have
      IH: "bits_below ?bits bits'" "\<forall>b \<in> set bs. bit (bits' ! (start + drop_bit 3 b)) (b AND 7)" "novel'"
        "\<forall>i. i \<notin> (\<lambda>b. start + drop_bit 3 b) ` set bs \<longrightarrow> bits' ! i = ?bits ! i" by auto
    have o: "?o < length bits" using "2.prems"(2) by simp
    have "bits_below bits ?bits" using o by (auto simp: bits_below_def nth_list_update bit_or_mask)
    then have "bits_below bits bits'" using IH(1) by (rule bits_below_trans)
    moreover have "bit (bits' ! ?o) (b AND 7)"
      using IH(1) o unfolding bits_below_def by (metis bit_or_mask length_list_update nth_list_update_eq)
    moreover have "\<not> bit (bits ! ?o) (b AND 7)" using False by (simp add: masked)
    ultimately show ?thesis using IH by auto
  qed
qed simp

lemma mark_simps [simp]:
  "bl_bytes (mark f p) = bl_bytes f" "bl_hashes (mark f p) = bl_hashes f" "bl_blocks (mark f p) = bl_blocks f"
  "bl_bits (mark f p) = bl_bits f" "bl_inserted (mark f p) = bl_inserted f" "length (bl_dirty (mark f p)) = length (bl_dirty f)"
  by (simp_all add: mark_def Let_def)

lemma mark_dirty:
  "c < length (bl_dirty f) \<Longrightarrow> bl_dirty (mark f p) ! c \<longleftrightarrow> bl_dirty f ! c \<or> c = p div CHUNK_BYTES"
  by (cases "c = p div CHUNK_BYTES") (auto simp: mark_def Let_def)

lemma count_update:
  "i < length ds \<Longrightarrow> \<not> ds ! i \<Longrightarrow> length (filter id (ds[i := True])) = Suc (length (filter id ds))"
  by (induction ds arbitrary: i) (auto simp: less_Suc_eq_0_disj)

lemma chunk_less: "i < n \<Longrightarrow> i div CHUNK_BYTES < (n + CHUNK_BYTES - 1) div CHUNK_BYTES"
proof -
  assume "i < n"
  then have "i + CHUNK_BYTES \<le> n + CHUNK_BYTES - 1" by simp
  then have "(i + CHUNK_BYTES) div CHUNK_BYTES \<le> (n + CHUNK_BYTES - 1) div CHUNK_BYTES" by (rule div_le_mono)
  then show ?thesis by (simp add: CHUNK_BYTES_def)
qed

text \<open>What adding a key does.\<close>

lemma bloom_add_spec:
  assumes "bloom_ok f"
  shows "bloom_ok (snd (bloom_add f d))" and "same_shape f (snd (bloom_add f d))"
    and "bits_below (bl_bits f) (bl_bits (snd (bloom_add f d)))" and "bloom_has (snd (bloom_add f d)) d"
    and "fst (bloom_add f d) = (\<not> bloom_has f d)"
    and "bl_inserted (snd (bloom_add f d)) = bl_inserted f + (if fst (bloom_add f d) then 1 else 0)"
    and "\<And>i. i < bl_bytes f \<Longrightarrow> bl_bits (snd (bloom_add f d)) ! i \<noteq> bl_bits f ! i \<Longrightarrow>
      bl_dirty (snd (bloom_add f d)) ! (i div CHUNK_BYTES)"
    and "\<And>c. c < length (bl_dirty f) \<Longrightarrow> bl_dirty f ! c \<Longrightarrow> bl_dirty (snd (bloom_add f d)) ! c"
proof -
  let ?s = "block_start f d" and ?ps = "bit_positions f d" and ?g = "snd (bloom_add f d)"
  obtain bits novel where set: "set_bits ?s ?ps (bl_bits f) False = (bits, novel)" by fastforce
  have inside: "\<forall>b \<in> set ?ps. ?s + drop_bit 3 b < length (bl_bits f)"
    using position_bounds(1) [OF assms] assms by (simp add: bloom_ok_def)
  note spec = set_bits_spec [OF set inside]
  have bits: "bl_bits ?g = bits" and shape: "same_shape f ?g" and dirty_len: "length (bl_dirty ?g) = length (bl_dirty f)"
    and hash: "bl_bytes ?g = bl_bytes f" "bl_hashes ?g = bl_hashes f" "bl_blocks ?g = bl_blocks f"
    by (simp_all add: bloom_add_def Let_def set same_shape_def)
  show "same_shape f ?g" by (rule shape)
  show "bits_below (bl_bits f) (bl_bits ?g)" using spec bits by simp
  then have len: "length (bl_bits ?g) = length (bl_bits f)" by (simp add: bits_below_def)
  have start: "?s div CHUNK_BYTES < length (bl_dirty f)"
  proof -
    have "bloom_block f d < bl_blocks f" using assms by (simp add: bloom_block_def bloom_ok_def)
    then have "?s < bl_bytes f" using assms by (simp add: block_start_def bloom_ok_def BLOCK_BYTES_def)
    then show ?thesis using assms chunk_less [of ?s "bl_bytes f"] by (simp add: bloom_ok_def)
  qed
  have "bl_dirtyChunks ?g = length (filter id (bl_dirty ?g))"
    using assms start by (auto simp: bloom_add_def Let_def set mark_def bloom_ok_def count_update)
  with assms len dirty_len hash show "bloom_ok ?g" by (simp add: bloom_ok_def)
  show "bloom_has ?g d" using spec shape_positions [OF shape] bits by (simp add: has_bits)
  show add: "fst (bloom_add f d) = (\<not> bloom_has f d)" using spec by (auto simp: bloom_add_def Let_def set has_bits)
  show "bl_inserted ?g = bl_inserted f + (if fst (bloom_add f d) then 1 else 0)"
    by (simp add: bloom_add_def Let_def set)
  show "bl_dirty ?g ! c" if "c < length (bl_dirty f)" "bl_dirty f ! c" for c
    using that by (simp add: bloom_add_def Let_def set mark_dirty)
  show "bl_dirty ?g ! (i div CHUNK_BYTES)" if i: "i < bl_bytes f" "bl_bits ?g ! i \<noteq> bl_bits f ! i" for i
  proof -
    have "i \<in> (\<lambda>b. ?s + drop_bit 3 b) ` set ?ps" using i(2) spec bits by metis
    then obtain b where b: "b \<in> set ?ps" "i = ?s + drop_bit 3 b" by blast
    have "novel"
    proof (rule ccontr)
      assume "\<not> novel"
      then have all: "\<forall>b \<in> set ?ps. bit (bl_bits f ! (?s + drop_bit 3 b)) (b AND 7)" using spec by simp
      have "set_bits ?s bs (bl_bits f) False = (bl_bits f, False)" if "set bs \<subseteq> set ?ps" for bs
        using that all by (induction bs) (auto simp: Let_def masked)
      from this [of ?ps] set i(2) bits show False by simp
    qed
    moreover have "i div CHUNK_BYTES = ?s div CHUNK_BYTES" using position_bounds(2) [OF assms b(1)] b(2) by simp
    ultimately show ?thesis using start by (simp add: bloom_add_def Let_def set mark_dirty)
  qed
qed

lemma bloom_clear_has: "bloom_ok f \<Longrightarrow> bl_hashes f > 0 \<Longrightarrow> \<not> bloom_has (bloom_clear f) d"
proof
  assume f: "bloom_ok f" "bl_hashes f > 0" "bloom_has (bloom_clear f) d"
  have shape: "same_shape f (bloom_clear f)" by (simp add: same_shape_def bloom_clear_def)
  obtain b where b: "b \<in> set (bit_positions f d)" using f(2) by (force simp: bit_positions_def)
  then have "bit (bl_bits (bloom_clear f) ! (block_start f d + drop_bit 3 b)) (b AND 7)"
    using f(3) shape_positions [OF shape] by (simp add: has_bits)
  moreover have "block_start f d + drop_bit 3 b < length (bl_bits f)" using position_bounds(1) [OF f(1) b] f(1) by (simp add: bloom_ok_def)
  ultimately show False by (simp add: bloom_clear_def)
qed

text \<open>
  The filter never forgets. In a new filter to which any digests were added, each of them reads as
  present, whatever was added after it; adding answers true exactly for a digest that did not read
  as present, and the count is the number of those answers.
\<close>
theorem added_digest_present:
  assumes "newBlockedBloom bytes hashes = Some f" and "bytes < 2 ^ 64"
  shows "list_all (bloom_has (foldl (\<lambda>f d. snd (bloom_add f d)) f ds)) ds \<and>
    fst (bloom_add (foldl (\<lambda>f d. snd (bloom_add f d)) f ds) d) = (\<not> bloom_has (foldl (\<lambda>f d. snd (bloom_add f d)) f ds) d) \<and>
    bl_inserted (foldl (\<lambda>f d. snd (bloom_add f d)) f ds) =
      length (filter (\<lambda>k. \<not> bloom_has (foldl (\<lambda>f d. snd (bloom_add f d)) f (take k ds)) (ds ! k)) [0..<length ds])"
proof -
  let ?run = "foldl (\<lambda>f d. snd (bloom_add f d)) f"
  have "bloom_ok (?run ds) \<and> list_all (bloom_has (?run ds)) ds \<and> bl_inserted (?run ds) =
      length (filter (\<lambda>k. \<not> bloom_has (?run (take k ds)) (ds ! k)) [0..<length ds])"
  proof (induction ds rule: rev_induct)
    case Nil
    then show ?case using newBlockedBloom_ok [OF assms] by simp
  next
    case (snoc d ds)
    then have ok: "bloom_ok (?run ds)" by simp
    note add = bloom_add_spec [OF ok, where d = d]
    have "bloom_has (?run (ds @ [d])) e" if "e \<in> set ds" for e
      using has_mono [OF ok add(2,3), of e] snoc that by (simp add: list_all_iff)
    moreover have "filter (\<lambda>k. \<not> bloom_has (?run (take k (ds @ [d]))) ((ds @ [d]) ! k)) [0..<length ds] =
        filter (\<lambda>k. \<not> bloom_has (?run (take k ds)) (ds ! k)) [0..<length ds]"
      by (intro filter_cong) (auto simp: nth_append)
    ultimately show ?case using add(1,4-6) snoc by (simp add: list_all_iff)
  qed
  then show ?thesis using bloom_add_spec(5) by blast
qed

lemma small_filter: "newBlockedBloom 64 1 = Some (the (newBlockedBloom 64 1))"
  by (simp add: newBlockedBloom_def BLOCK_BIT_WIDTH_def Let_def)

lemma added_digest_present_witness:
  "list_all (bloom_has (foldl (\<lambda>f d. snd (bloom_add f d)) (the (newBlockedBloom 64 1)) [[0, 0, 0, 0, 0, 0, 7], [0, 0, 0, 0, 0, 0, 9]]))
     [[0, 0, 0, 0, 0, 0, 7], [0, 0, 0, 0, 0, 0, 9]] \<and>
   fst (bloom_add (foldl (\<lambda>f d. snd (bloom_add f d)) (the (newBlockedBloom 64 1)) [[0, 0, 0, 0, 0, 0, 7], [0, 0, 0, 0, 0, 0, 9]]) [0, 0, 0, 0, 0, 0, 11])"
proof -
  have "(64 :: nat) < 2 ^ 64" by simp
  note all = added_digest_present [OF small_filter this, where ds = "[[0, 0, 0, 0, 0, 0, 7], [0, 0, 0, 0, 0, 0, 9]]"]
  have "\<not> bloom_has (foldl (\<lambda>f d. snd (bloom_add f d)) (the (newBlockedBloom 64 1)) [[0, 0, 0, 0, 0, 0, 7], [0, 0, 0, 0, 0, 0, 9]]) [0, 0, 0, 0, 0, 0, 11]"
    by code_simp
  then show ?thesis using all [where d = "[0, 0, 0, 0, 0, 0, 11]"] by blast
qed

section \<open>The contents of the file\<close>

definition file_bits :: "bytes \<Rightarrow> bytes" where
  "file_bits content = drop HEADER_BYTES content"

lemma length_le_bytes [simp]: "length (le_bytes n v) = n"
  by (induction n arbitrary: v) auto

lemma le_value_bytes: "v < 256 ^ n \<Longrightarrow> le_value (le_bytes n v) = v"
proof (induction n arbitrary: v)
  case (Suc n)
  have "unat (of_nat (v mod 256) :: byte) = v mod 256" by (simp add: unat_of_nat)
  moreover have "v div 256 < 256 ^ n" using Suc.prems by (simp add: div_less_iff_less_mult mult.commute)
  ultimately show ?case using Suc.IH by simp
qed simp

lemma bloom_header_bytes:
  "bloom_header f = MAGIC @ le_bytes 4 (bl_hashes f) @ replicate 4 0 @ le_bytes 8 (bl_bytes f) @ le_bytes 8 (bl_inserted f) @
     replicate 32 0"
proof -
  have w: "write_at (length a) bs (a @ c @ d) = a @ bs @ d" if "length c = length bs" for a bs c d
    using that by (simp add: write_at_def)
  have z: "replicate HEADER_BYTES (0 :: byte) = [] @ replicate 8 0 @ replicate 4 0 @ replicate 4 0 @ replicate 8 0 @ replicate 8 0 @ replicate 32 0"
    by (simp add: HEADER_BYTES_def flip: replicate_add)
  have m: "length MAGIC = 8" by (simp add: MAGIC_def)
  have 1: "write_at 0 MAGIC (replicate HEADER_BYTES 0) =
      MAGIC @ replicate 4 0 @ replicate 4 0 @ replicate 8 0 @ replicate 8 0 @ replicate 32 0"
    using w [of "replicate 8 0" MAGIC "[]"] m unfolding z by simp
  have 2: "write_at 8 (le_bytes 4 h) (MAGIC @ replicate 4 0 @ x) = MAGIC @ le_bytes 4 h @ x" for h x
    using w [of "replicate 4 0" "le_bytes 4 h" MAGIC x] m by simp
  have 3: "write_at 16 (le_bytes 8 n) (MAGIC @ le_bytes 4 h @ replicate 4 0 @ replicate 8 0 @ x) =
      MAGIC @ le_bytes 4 h @ replicate 4 0 @ le_bytes 8 n @ x" for n h x
    using w [of "replicate 8 0" "le_bytes 8 n" "MAGIC @ le_bytes 4 h @ replicate 4 0" x] m by simp
  have 4: "write_at 24 (le_bytes 8 c) (MAGIC @ le_bytes 4 h @ replicate 4 0 @ le_bytes 8 n @ replicate 8 0 @ x) =
      MAGIC @ le_bytes 4 h @ replicate 4 0 @ le_bytes 8 n @ le_bytes 8 c @ x" for c n h x
    using w [of "replicate 8 0" "le_bytes 8 c" "MAGIC @ le_bytes 4 h @ replicate 4 0 @ le_bytes 8 n" x] m by simp
  show ?thesis unfolding bloom_header_def Let_def 1 2 3 4 ..
qed

lemma length_header [simp]: "length (bloom_header f) = HEADER_BYTES"
  by (simp add: bloom_header_bytes MAGIC_def HEADER_BYTES_def)

lemma length_MAGIC: "length MAGIC = 8"
  by (simp add: MAGIC_def)

lemma header_fields:
  assumes "bloom_ok f" and "take HEADER_BYTES content = bloom_header f"
  shows "file_matches f content" and "bl_inserted f < 2 ^ 64 \<Longrightarrow> read_le 8 24 content = bl_inserted f"
proof -
  have read: "read_le n p content = read_le n p (take HEADER_BYTES content)" if "p + n \<le> 64" for n p
  proof -
    have "take n (drop p (take HEADER_BYTES content)) = take n (drop p content)"
      using that by (simp add: drop_take HEADER_BYTES_def min_def)
    then show ?thesis by (simp add: read_le_def)
  qed
  have fields: "take 8 (bloom_header f) = MAGIC" "take 4 (drop 8 (bloom_header f)) = le_bytes 4 (bl_hashes f)"
    "take 8 (drop 16 (bloom_header f)) = le_bytes 8 (bl_bytes f)" "take 8 (drop 24 (bloom_header f)) = le_bytes 8 (bl_inserted f)"
    by (simp_all add: bloom_header_bytes MAGIC_def)
  have "bl_hashes f < 256 ^ 4" "bl_bytes f < 256 ^ 8" using assms(1) by (simp_all add: bloom_ok_def)
  then show "file_matches f content"
    using assms(2) fields by (simp add: file_matches_def Let_def read_le_def le_value_bytes length_MAGIC)
  show "bl_inserted f < 2 ^ 64 \<Longrightarrow> read_le 8 24 content = bl_inserted f"
    using assms(2) fields read [of 24 8] by (simp add: read_le_def le_value_bytes)
qed

text \<open>A file is kept by a filter when it has its shape and no bit the filter does not have.\<close>

definition shape_header :: "BlockedBloom \<Rightarrow> bytes \<Rightarrow> bool" where
  "shape_header f content \<longleftrightarrow> (\<exists>n. take HEADER_BYTES content = bloom_header (f\<lparr>bl_inserted := n\<rparr>))"

lemma write_at_inside:
  assumes "p + length bs \<le> length content"
  shows "length (write_at p bs content) = length content"
    and "i < length content \<Longrightarrow> write_at p bs content ! i = (if p \<le> i \<and> i < p + length bs then bs ! (i - p) else content ! i)"
proof -
  have w: "write_at p bs content = take p content @ bs @ drop (p + length bs) content" using assms by (simp add: write_at_def)
  show "length (write_at p bs content) = length content" using assms by (simp add: w)
  show "i < length content \<Longrightarrow> write_at p bs content ! i = (if p \<le> i \<and> i < p + length bs then bs ! (i - p) else content ! i)"
    using assms by (auto simp: w nth_append)
qed

text \<open>
  The filter in use while it is written back. Adding runs between the writes, because \<open>persist\<close> awaits
  each of them; \<open>None\<close> is no persist under way, \<open>Some chunks\<close> one that has those chunks and then the
  header still to write.
\<close>

record BloomStore =
  st_filter :: BlockedBloom
  st_file :: bytes
  st_pending :: "nat list option"

datatype bloom_op = AddDigest bytes | PersistBegin | PersistWrite

fun bloom_step :: "BloomStore \<Rightarrow> bloom_op \<Rightarrow> BloomStore" where
  "bloom_step s (AddDigest d) = s\<lparr>st_filter := snd (bloom_add (st_filter s) d)\<rparr>"
| "bloom_step s PersistBegin =
     (case st_pending s of
        Some _ \<Rightarrow> s
      | None \<Rightarrow> let (chunks, f) = takeDirty (st_filter s) in s\<lparr>st_filter := f, st_pending := Some chunks\<rparr>)"
| "bloom_step s PersistWrite =
     (case st_pending s of
        None \<Rightarrow> s
      | Some [] \<Rightarrow> s\<lparr>st_file := write_at 0 (bloom_header (st_filter s)) (st_file s), st_pending := None\<rparr>
      | Some (c # cs) \<Rightarrow>
          let (offset, bytes) = bloom_chunk (st_filter s) c
          in s\<lparr>st_file := write_at (HEADER_BYTES + offset) bytes (st_file s), st_pending := Some cs\<rparr>)"

definition chunks_pending :: "BloomStore \<Rightarrow> nat set" where
  "chunks_pending s = (case st_pending s of None \<Rightarrow> {} | Some cs \<Rightarrow> set cs)"

definition store_ok :: "BloomStore \<Rightarrow> bool" where
  "store_ok s \<longleftrightarrow>
     bloom_ok (st_filter s) \<and> shape_header (st_filter s) (st_file s) \<and>
     bits_below (file_bits (st_file s)) (bl_bits (st_filter s)) \<and>
     chunks_pending s \<subseteq> {..<length (bl_dirty (st_filter s))} \<and>
     (\<forall>i < bl_bytes (st_filter s). \<not> bl_dirty (st_filter s) ! (i div CHUNK_BYTES) \<longrightarrow> i div CHUNK_BYTES \<notin> chunks_pending s \<longrightarrow>
        file_bits (st_file s) ! i = bl_bits (st_filter s) ! i)"

lemma chunk_bounds:
  assumes "bloom_ok f" and "c < length (bl_dirty f)"
  obtains seg where "bloom_chunk f c = (c * CHUNK_BYTES, seg)" and "c * CHUNK_BYTES + length seg \<le> bl_bytes f"
    and "\<And>i. i < bl_bytes f \<Longrightarrow> c * CHUNK_BYTES \<le> i \<and> i < c * CHUNK_BYTES + length seg \<longleftrightarrow> i div CHUNK_BYTES = c"
    and "\<And>i. i < length seg \<Longrightarrow> seg ! i = bl_bits f ! (c * CHUNK_BYTES + i)"
proof -
  let ?o = "c * CHUNK_BYTES"
  let ?seg = "take (min (?o + CHUNK_BYTES) (bl_bytes f) - ?o) (drop ?o (bl_bits f))"
  have chunk: "CHUNK_BYTES = 65536" by (simp add: CHUNK_BYTES_def)
  have "Suc c \<le> (bl_bytes f + CHUNK_BYTES - 1) div CHUNK_BYTES" using assms by (simp add: bloom_ok_def)
  then have "Suc c * CHUNK_BYTES \<le> bl_bytes f + CHUNK_BYTES - 1"
    by (simp add: less_eq_div_iff_mult_less_eq chunk)
  then have inside: "?o < bl_bytes f" by (simp add: chunk)
  have len: "length ?seg = min (?o + CHUNK_BYTES) (bl_bytes f) - ?o"
  proof -
    have "length (bl_bits f) = bl_bytes f" using assms(1) by (simp add: bloom_ok_def)
    then show ?thesis by (auto simp: min_def)
  qed
  show thesis
  proof (rule that)
    show "bloom_chunk f c = (?o, ?seg)" by (simp add: bloom_chunk_def Let_def)
    show "?o + length ?seg \<le> bl_bytes f" unfolding len using inside by simp
    show "?o \<le> i \<and> i < ?o + length ?seg \<longleftrightarrow> i div CHUNK_BYTES = c" if "i < bl_bytes f" for i
    proof -
      have "i < ?o + length ?seg \<longleftrightarrow> i < ?o + CHUNK_BYTES" unfolding len using that inside by (auto simp: min_def)
      then show ?thesis by (auto simp: chunk)
    qed
    show "?seg ! i = bl_bits f ! (?o + i)" if "i < length ?seg" for i
      using that assms(1) inside by (simp add: bloom_ok_def)
  qed
qed

lemma file_length:
  assumes "bits_below (file_bits content) (bl_bits f)" and "bloom_ok f"
  shows "length content = HEADER_BYTES + bl_bytes f" and "bl_bytes f > 0"
proof -
  show pos: "bl_bytes f > 0" using assms(2) by (simp add: bloom_ok_def BLOCK_BYTES_def)
  have "length (file_bits content) = bl_bytes f" using assms by (simp add: bits_below_def bloom_ok_def)
  then have "length content - HEADER_BYTES = bl_bytes f" by (simp add: file_bits_def)
  with pos show "length content = HEADER_BYTES + bl_bytes f" by linarith
qed

lemma write_chunk:
  assumes "store_ok s" and "st_pending s = Some (c # cs)"
  shows "\<And>i. i < bl_bytes (st_filter s) \<Longrightarrow> file_bits (st_file (bloom_step s PersistWrite)) ! i =
      (if i div CHUNK_BYTES = c then bl_bits (st_filter s) ! i else file_bits (st_file s) ! i)"
    and "length (file_bits (st_file (bloom_step s PersistWrite))) = bl_bytes (st_filter s)"
    and "take HEADER_BYTES (st_file (bloom_step s PersistWrite)) = take HEADER_BYTES (st_file s)"
    and "st_filter (bloom_step s PersistWrite) = st_filter s" and "st_pending (bloom_step s PersistWrite) = Some cs"
proof -
  let ?f = "st_filter s"
  have ok: "bloom_ok ?f" and below: "bits_below (file_bits (st_file s)) (bl_bits ?f)" using assms by (simp_all add: store_ok_def)
  note len = file_length [OF below ok]
  have c: "c < length (bl_dirty ?f)" using assms by (simp add: store_ok_def chunks_pending_def)
  obtain seg where seg: "bloom_chunk ?f c = (c * CHUNK_BYTES, seg)" "c * CHUNK_BYTES + length seg \<le> bl_bytes ?f"
    "\<And>i. i < bl_bytes ?f \<Longrightarrow> c * CHUNK_BYTES \<le> i \<and> i < c * CHUNK_BYTES + length seg \<longleftrightarrow> i div CHUNK_BYTES = c"
    "\<And>i. i < length seg \<Longrightarrow> seg ! i = bl_bits ?f ! (c * CHUNK_BYTES + i)" by (rule chunk_bounds [OF ok c]) blast
  let ?p = "HEADER_BYTES + c * CHUNK_BYTES" and ?file = "write_at (HEADER_BYTES + c * CHUNK_BYTES) seg (st_file s)"
  have fits: "?p + length seg \<le> length (st_file s)" using seg(2) len(1) by simp
  note w = write_at_inside [OF fits]
  have bits: "file_bits ?file ! i = (if i div CHUNK_BYTES = c then bl_bits ?f ! i else file_bits (st_file s) ! i)"
    if i: "i < bl_bytes ?f" for i
  proof -
    have "file_bits ?file ! i = ?file ! (HEADER_BYTES + i)" using w(1) len(1) i by (simp add: file_bits_def)
    also have "\<dots> = (if c * CHUNK_BYTES \<le> i \<and> i < c * CHUNK_BYTES + length seg then seg ! (i - c * CHUNK_BYTES)
        else st_file s ! (HEADER_BYTES + i))" using w(2) [of "HEADER_BYTES + i"] len(1) i by auto
    also have "\<dots> = (if i div CHUNK_BYTES = c then bl_bits ?f ! i else st_file s ! (HEADER_BYTES + i))"
    proof (cases "i div CHUNK_BYTES = c")
      case True
      then have b: "c * CHUNK_BYTES \<le> i" "i < c * CHUNK_BYTES + length seg" using seg(3) [OF i] by blast+
      then have "i - c * CHUNK_BYTES < length seg" by linarith
      from seg(4) [OF this] b True show ?thesis by simp
    qed (use seg(3) [OF i] in auto)
    finally show ?thesis using len(1) i by (simp add: file_bits_def)
  qed
  have file': "st_file (bloom_step s PersistWrite) = ?file" using assms(2) seg(1) by simp
  show "file_bits (st_file (bloom_step s PersistWrite)) ! i =
      (if i div CHUNK_BYTES = c then bl_bits ?f ! i else file_bits (st_file s) ! i)" if "i < bl_bytes ?f" for i
    unfolding file' by (rule bits [OF that])
  show "length (file_bits (st_file (bloom_step s PersistWrite))) = bl_bytes ?f"
    unfolding file' using w(1) len(1) by (simp add: file_bits_def)
  show "take HEADER_BYTES (st_file (bloom_step s PersistWrite)) = take HEADER_BYTES (st_file s)"
    unfolding file' using fits by (simp add: write_at_def)
  show "st_filter (bloom_step s PersistWrite) = ?f" "st_pending (bloom_step s PersistWrite) = Some cs"
    using assms(2) seg(1) by simp_all
qed

lemma store_step:
  assumes "store_ok s"
  shows "store_ok (bloom_step s x)"
proof (cases x)
  case (AddDigest d)
  let ?f = "st_filter s"
  have ok: "bloom_ok ?f" using assms by (simp add: store_ok_def)
  note add = bloom_add_spec [OF ok, where d = d]
  have shape: "bl_bytes (snd (bloom_add ?f d)) = bl_bytes ?f" "bl_hashes (snd (bloom_add ?f d)) = bl_hashes ?f"
    using add(2) by (simp_all add: same_shape_def)
  have "length (bl_dirty (snd (bloom_add ?f d))) = length (bl_dirty ?f)" using add(1) ok shape(1) by (simp add: bloom_ok_def)
  moreover have "file_bits (st_file s) ! i = bl_bits (snd (bloom_add ?f d)) ! i"
    if i: "i < bl_bytes ?f" "\<not> bl_dirty (snd (bloom_add ?f d)) ! (i div CHUNK_BYTES)" "i div CHUNK_BYTES \<notin> chunks_pending s" for i
  proof -
    have "i div CHUNK_BYTES < length (bl_dirty ?f)" using ok chunk_less [OF i(1)] by (simp add: bloom_ok_def)
    then have "\<not> bl_dirty ?f ! (i div CHUNK_BYTES)" using add(8) i(2) by blast
    moreover have "bl_bits (snd (bloom_add ?f d)) ! i = bl_bits ?f ! i" using add(7) [OF i(1)] i(2) by blast
    ultimately show ?thesis using assms i by (simp add: store_ok_def)
  qed
  moreover have "shape_header (snd (bloom_add ?f d)) (st_file s)"
    using assms shape by (auto simp: store_ok_def shape_header_def bloom_header_bytes)
  ultimately show ?thesis
    using assms add(1,3) shape AddDigest bits_below_trans by (auto simp: store_ok_def chunks_pending_def)
next
  case PersistBegin
  show ?thesis
  proof (cases "st_pending s")
    case None
    let ?f = "st_filter s"
    have ok: "bloom_ok ?f" using assms by (simp add: store_ok_def)
    have "bloom_ok (snd (takeDirty ?f))" using ok by (simp add: bloom_ok_def takeDirty_def)
    moreover have "file_bits (st_file s) ! i = bl_bits ?f ! i"
      if "i < bl_bytes ?f" "i div CHUNK_BYTES \<notin> set (fst (takeDirty ?f))" for i
    proof -
      have "i div CHUNK_BYTES < length (bl_dirty ?f)" using ok chunk_less [OF that(1)] by (simp add: bloom_ok_def)
      with that(2) have "\<not> bl_dirty ?f ! (i div CHUNK_BYTES)" by (simp add: takeDirty_def)
      with assms that(1) None show ?thesis by (simp add: store_ok_def chunks_pending_def)
    qed
    ultimately show ?thesis
      using assms None PersistBegin
      by (auto simp: store_ok_def chunks_pending_def Let_def takeDirty_def shape_header_def bloom_header_bytes)
  qed (use assms PersistBegin in simp)
next
  case PersistWrite
  let ?f = "st_filter s"
  have ok: "bloom_ok ?f" and below: "bits_below (file_bits (st_file s)) (bl_bits ?f)" using assms by (simp_all add: store_ok_def)
  show ?thesis
  proof (cases "st_pending s")
    case (Some p)
    show ?thesis
    proof (cases p)
      case Nil
      let ?file = "write_at 0 (bloom_header ?f) (st_file s)"
      have "?file = bloom_header ?f @ drop HEADER_BYTES (st_file s)" by (simp add: write_at_def)
      then have "file_bits ?file = file_bits (st_file s)" "take HEADER_BYTES ?file = bloom_header ?f" by (simp_all add: file_bits_def)
      moreover from this have "shape_header ?f ?file" unfolding shape_header_def by (intro exI [of _ "bl_inserted ?f"]) simp
      ultimately show ?thesis using assms Some Nil PersistWrite by (simp add: store_ok_def chunks_pending_def)
    next
      case (Cons c cs)
      note w = write_chunk [OF assms Some [unfolded Cons]]
      let ?s = "bloom_step s PersistWrite"
      have "bits_below (file_bits (st_file ?s)) (bl_bits ?f)" using below w(1,2) ok by (auto simp: bits_below_def bloom_ok_def)
      moreover have "shape_header ?f (st_file ?s)" using assms w(3) by (simp add: store_ok_def shape_header_def)
      moreover have "file_bits (st_file ?s) ! i = bl_bits ?f ! i"
        if "i < bl_bytes ?f" "\<not> bl_dirty ?f ! (i div CHUNK_BYTES)" "i div CHUNK_BYTES \<notin> set cs" for i
        using w(1) [OF that(1)] that assms Some Cons by (auto simp: store_ok_def chunks_pending_def)
      ultimately have "store_ok ?s" using assms Some Cons w(4,5) by (auto simp: store_ok_def chunks_pending_def)
      then show ?thesis by (simp only: PersistWrite)
    qed
  qed (use assms PersistWrite in simp)
qed

section \<open>Opening the file\<close>

definition opened :: "BlockedBloom \<Rightarrow> bytes option \<Rightarrow> BloomStore" where
  "opened f content = (let (_, g, c) = load f content in \<lparr>st_filter = g, st_file = c, st_pending = None\<rparr>)"

lemma clear_take: "snd (takeDirty (bloom_clear f)) = f\<lparr>bl_bits := replicate (length (bl_bits f)) 0, bl_inserted := 0,
    bl_dirty := replicate (length (bl_dirty f)) False, bl_dirtyChunks := 0\<rparr>"
  by (simp add: takeDirty_def bloom_clear_def)

lemma persist_clean:
  "list_all Not (bl_dirty f) \<Longrightarrow> persist f content =
     (f\<lparr>bl_dirty := replicate (length (bl_dirty f)) False, bl_dirtyChunks := 0\<rparr>, write_at 0 (bloom_header f) content)"
proof -
  assume "list_all Not (bl_dirty f)"
  then have "fst (takeDirty f) = []" by (auto simp: takeDirty_def filter_empty_conv list_all_length)
  then show ?thesis by (simp add: persist_def persist_writes_def apply_writes_def takeDirty_def)
qed

lemma length_truncate [simp]: "length (truncate_to n content) = n"
  by (simp add: truncate_to_def)

lemma load_foreign:
  assumes "bloom_ok f" and "\<not> file_matches f (case content of None \<Rightarrow> [] | Some c \<Rightarrow> c)"
  shows "load f content = (False, snd (takeDirty (bloom_clear f)),
    bloom_header (f\<lparr>bl_inserted := 0\<rparr>) @ drop HEADER_BYTES (truncate_to (HEADER_BYTES + bl_bytes f) (case content of None \<Rightarrow> [] | Some c \<Rightarrow> c)))"
proof -
  let ?g = "snd (takeDirty (bloom_clear f))"
  have "list_all Not (bl_dirty ?g)" by (simp add: clear_take list_all_iff)
  moreover have "?g\<lparr>bl_dirty := replicate (length (bl_dirty ?g)) False, bl_dirtyChunks := 0\<rparr> = ?g" by (simp add: clear_take)
  moreover have "bloom_header ?g = bloom_header (f\<lparr>bl_inserted := 0\<rparr>)" by (simp add: clear_take bloom_header_bytes)
  ultimately show ?thesis
    using assms(2) by (simp add: load_def Let_def persist_clean write_at_def)
qed

text \<open>A file of the filter's shape is taken over bit for bit.\<close>

lemma load_same:
  assumes "bloom_ok g" and "file_matches g content" and "length content = HEADER_BYTES + bl_bytes g"
  shows "fst (load g (Some content)) \<and> bl_bits (fst (snd (load g (Some content)))) = file_bits content \<and>
    same_shape g (fst (snd (load g (Some content)))) \<and> bloom_ok (fst (snd (load g (Some content)))) \<and>
    bl_inserted (fst (snd (load g (Some content)))) = read_le 8 24 content \<and> snd (snd (load g (Some content))) = content"
  using assms by (simp add: load_def Let_def bloom_adopt_def file_bits_def same_shape_def bloom_ok_def)

lemma shape_matches:
  assumes "bloom_ok f" and "bloom_ok g" and "same_shape f g" and "shape_header f content"
  shows "file_matches g content"
proof -
  obtain n where "take HEADER_BYTES content = bloom_header (f\<lparr>bl_inserted := n\<rparr>)" using assms(4) by (auto simp: shape_header_def)
  moreover have "bloom_header (f\<lparr>bl_inserted := n\<rparr>) = bloom_header (g\<lparr>bl_inserted := n\<rparr>)"
    using assms(3) by (simp add: bloom_header_bytes same_shape_def)
  moreover have "bloom_ok (g\<lparr>bl_inserted := n\<rparr>)" using assms(2) by (simp add: bloom_ok_def)
  ultimately show ?thesis using header_fields(1) [of "g\<lparr>bl_inserted := n\<rparr>" content] by (simp add: file_matches_def)
qed

lemma store_loaded:
  assumes "store_ok s" and "bloom_ok g" and "same_shape (st_filter s) g"
  shows "fst (load g (Some (st_file s)))" and "bl_bits (fst (snd (load g (Some (st_file s))))) = file_bits (st_file s)"
    and "same_shape (st_filter s) (fst (snd (load g (Some (st_file s)))))" and "bloom_ok (fst (snd (load g (Some (st_file s)))))"
proof -
  have ok: "bloom_ok (st_filter s)" "shape_header (st_filter s) (st_file s)" "bits_below (file_bits (st_file s)) (bl_bits (st_filter s))"
    using assms(1) by (simp_all add: store_ok_def)
  have "length (st_file s) = HEADER_BYTES + bl_bytes g" using file_length(1) [OF ok(3,1)] assms(3) by (simp add: same_shape_def)
  from load_same [OF assms(2) shape_matches [OF ok(1) assms(2,3) ok(2)] this] assms(3)
  show "fst (load g (Some (st_file s)))" "bl_bits (fst (snd (load g (Some (st_file s))))) = file_bits (st_file s)"
    "same_shape (st_filter s) (fst (snd (load g (Some (st_file s)))))" "bloom_ok (fst (snd (load g (Some (st_file s)))))"
    by (auto simp: same_shape_def)
qed

lemma opened_ok:
  assumes "bloom_ok f"
  shows "store_ok (opened f None)" and "same_shape f (st_filter (opened f None))" and "st_pending (opened f None) = None"
proof -
  have "\<not> file_matches f []" by (simp add: file_matches_def HEADER_BYTES_def)
  then have load: "load f None = (False, snd (takeDirty (bloom_clear f)), bloom_header (f\<lparr>bl_inserted := 0\<rparr>) @ replicate (bl_bytes f) 0)"
    using load_foreign [OF assms, of None] by (simp add: truncate_to_def)
  have "shape_header (st_filter (opened f None)) (st_file (opened f None))"
    unfolding shape_header_def by (rule exI [of _ 0]) (simp add: opened_def load clear_take bloom_header_bytes MAGIC_def HEADER_BYTES_def)
  with assms show "store_ok (opened f None)"
    by (auto simp: store_ok_def opened_def load clear_take bloom_ok_def file_bits_def bits_below_def chunks_pending_def)
  show "same_shape f (st_filter (opened f None))" "st_pending (opened f None) = None"
    by (simp_all add: same_shape_def opened_def load clear_take)
qed

text \<open>The files a filter of this shape leaves behind: none yet, or one with its header and all its chunks.\<close>

definition own_file :: "BlockedBloom \<Rightarrow> bytes option \<Rightarrow> bool" where
  "own_file f stored =
     (case stored of None \<Rightarrow> True | Some content \<Rightarrow> shape_header f content \<and> length content = HEADER_BYTES + bl_bytes f)"

lemma shape_header_same: "same_shape f g \<Longrightarrow> shape_header f content = shape_header g content"
  by (simp add: shape_header_def bloom_header_bytes same_shape_def)

lemma opened_own:
  assumes "bloom_ok f" and "own_file f stored"
  shows "store_ok (opened f stored)" and "same_shape f (st_filter (opened f stored))"
proof -
  have "store_ok (opened f stored) \<and> same_shape f (st_filter (opened f stored))"
  proof (cases stored)
    case None
    then show ?thesis using opened_ok [OF assms(1)] by simp
  next
    case (Some content)
    then have own: "shape_header f content" "length content = HEADER_BYTES + bl_bytes f"
      using assms(2) by (simp_all add: own_file_def)
    have refl: "same_shape f f" by (simp add: same_shape_def)
    have m: "file_matches f content" by (rule shape_matches [OF assms(1,1) refl own(1)])
    note l = load_same [OF assms(1) m own(2)]
    have clean: "bl_dirty (fst (snd (load f (Some content)))) = replicate (length (bl_dirty f)) False"
      using m by (simp add: load_def Let_def bloom_adopt_def)
    have o: "opened f stored = \<lparr>st_filter = fst (snd (load f (Some content))), st_file = content, st_pending = None\<rparr>"
      using l by (auto simp: Some opened_def split: prod.split)
    show ?thesis
      using l own(1) shape_header_same [of f "fst (snd (load f (Some content)))" content]
      by (simp add: o store_ok_def chunks_pending_def)
  qed
  then show "store_ok (opened f stored)" "same_shape f (st_filter (opened f stored))" by simp_all
qed

lemma store_own: "store_ok s \<Longrightarrow> same_shape (st_filter s) f \<Longrightarrow> own_file f (Some (st_file s))"
  using file_length(1) [of "st_file s" "st_filter s"] shape_header_same [of "st_filter s" f "st_file s"]
  by (simp add: own_file_def store_ok_def same_shape_def)

section \<open>A crash at any point\<close>

interpretation bloom_store: invariant_machine bloom_step "\<lambda>_ _. True"
  "opened (the (newBlockedBloom 1024 DEFAULT_HASHES)) None" store_ok
proof unfold_locales
  obtain f where f: "newBlockedBloom 1024 DEFAULT_HASHES = Some f"
    by (simp add: newBlockedBloom_def DEFAULT_HASHES_def BLOCK_BIT_WIDTH_def Let_def)
  show "store_ok (opened (the (newBlockedBloom 1024 DEFAULT_HASHES)) None)"
    using opened_ok(1) [OF newBlockedBloom_ok(1) [OF f]] f by simp
qed (rule store_step)

lemma all_permitted: "permitted bloom_step (\<lambda>_ _. True) s xs"
  by (induction xs arbitrary: s) auto

lemmas store_run = bloom_store.inv_run_from [OF _ all_permitted]

lemma step_filter:
  assumes "store_ok s"
  shows "bits_below (bl_bits (st_filter s)) (bl_bits (st_filter (bloom_step s x)))"
    and "same_shape (st_filter s) (st_filter (bloom_step s x))"
  using assms bloom_add_spec(2,3) [of "st_filter s"]
  by (cases x; fastforce simp: store_ok_def takeDirty_def same_shape_def bits_below_def split: option.splits list.splits prod.splits)+

lemma run_filter:
  "store_ok s \<Longrightarrow> bits_below (bl_bits (st_filter s)) (bl_bits (st_filter (foldl bloom_step s xs))) \<and>
     same_shape (st_filter s) (st_filter (foldl bloom_step s xs))"
proof (induction xs arbitrary: s)
  case (Cons x xs)
  from Cons.IH [OF store_step [OF Cons.prems], of x] step_filter [OF Cons.prems, of x]
  show ?case by (auto simp: same_shape_def intro: bits_below_trans)
qed (simp add: same_shape_def)

text \<open>The bits at the moment a persist begins are on disk once its chunks are.\<close>

definition flushed :: "bytes \<Rightarrow> BloomStore \<Rightarrow> bool" where
  "flushed snap s \<longleftrightarrow> bits_below snap (bl_bits (st_filter s)) \<and>
     (\<forall>i < length snap. i div CHUNK_BYTES \<in> chunks_pending s \<or> (\<forall>n. bit (snap ! i) n \<longrightarrow> bit (file_bits (st_file s) ! i) n))"

lemma flushed_begin:
  assumes "store_ok s" and "st_pending s = None"
  shows "flushed (bl_bits (st_filter s)) (bloom_step s PersistBegin)"
proof -
  let ?f = "st_filter s"
  have ok: "bloom_ok ?f" using assms by (simp add: store_ok_def)
  have on_disk: "i div CHUNK_BYTES \<in> chunks_pending (bloom_step s PersistBegin) \<or>
      (\<forall>n. bit (bl_bits ?f ! i) n \<longrightarrow> bit (file_bits (st_file s) ! i) n)" if "i < bl_bytes ?f" for i
  proof -
    have "i div CHUNK_BYTES < length (bl_dirty ?f)" using ok chunk_less [OF that] by (simp add: bloom_ok_def)
    then show ?thesis using assms that by (auto simp: store_ok_def chunks_pending_def takeDirty_def)
  qed
  have "length (bl_bits ?f) = bl_bytes ?f" using ok by (simp add: bloom_ok_def)
  moreover have "st_file (bloom_step s PersistBegin) = st_file s" "bl_bits (st_filter (bloom_step s PersistBegin)) = bl_bits ?f"
    using assms(2) by (simp_all add: takeDirty_def)
  ultimately show ?thesis unfolding flushed_def using on_disk by (simp only: bits_below_refl simp_thms) blast
qed

lemma flushed_step:
  assumes "store_ok s" and "flushed snap s"
  shows "flushed snap (bloom_step s x)"
proof -
  have below: "bits_below snap (bl_bits (st_filter (bloom_step s x)))"
    using assms(2) step_filter(1) [OF assms(1)] by (auto simp: flushed_def intro: bits_below_trans)
  show ?thesis
  proof (cases "x = PersistWrite \<and> st_pending s \<noteq> None")
    case False
    then have "st_file (bloom_step s x) = st_file s" "chunks_pending s \<subseteq> chunks_pending (bloom_step s x)"
      by (cases x; auto simp: chunks_pending_def split: option.splits prod.splits)+
    then show ?thesis using assms(2) below by (auto simp: flushed_def)
  next
    case True
    then obtain p where x: "x = PersistWrite" and p: "st_pending s = Some p" by blast
    show ?thesis
    proof (cases p)
      case Nil
      then have "file_bits (st_file (bloom_step s x)) = file_bits (st_file s)" "chunks_pending s = {}"
        using x p by (simp_all add: file_bits_def write_at_def chunks_pending_def)
      then show ?thesis using assms(2) below by (simp add: flushed_def)
    next
      case (Cons c cs)
      note w = write_chunk [OF assms(1) p [unfolded Cons]]
      have "length snap = bl_bytes (st_filter s)"
        using assms by (simp add: flushed_def bits_below_def store_ok_def bloom_ok_def)
      then have written: "file_bits (st_file (bloom_step s x)) ! i =
          (if i div CHUNK_BYTES = c then bl_bits (st_filter s) ! i else file_bits (st_file s) ! i)" if "i < length snap" for i
        unfolding x using that w(1) by (simp del: bloom_step.simps)
      have pending: "chunks_pending s = insert c (chunks_pending (bloom_step s x))"
        unfolding x chunks_pending_def w(5) p Cons by simp
      have "i div CHUNK_BYTES \<in> chunks_pending (bloom_step s x) \<or>
          (\<forall>n. bit (snap ! i) n \<longrightarrow> bit (file_bits (st_file (bloom_step s x)) ! i) n)" if i: "i < length snap" for i
      proof (cases "i div CHUNK_BYTES = c")
        case True
        then show ?thesis using assms(2) i unfolding written [OF i] flushed_def bits_below_def by simp
      next
        case False
        then show ?thesis using assms(2) i unfolding written [OF i] flushed_def pending by (simp, blast)
      qed
      with below show ?thesis by (simp only: flushed_def) blast
    qed
  qed
qed



text \<open>
  C29 A file of another shape comes back. When the file that is found is not of the filter's shape, the
  filter starts empty and the file keeps its bytes under a new header: the next start accepts it and
  takes those bytes for its bits, so keys that were never added read as present.
\<close>
theorem foreign_file_resurfaces:
  assumes "newBlockedBloom bytes hashes = Some f" "bytes < 2 ^ 64" and "\<not> file_matches f content"
    and "load f (Some content) = (matched, g, content')"
  shows "\<not> matched \<and> bl_bits g = replicate (bl_bytes f) 0 \<and> bl_inserted g = 0 \<and> \<not> list_ex id (bl_dirty g) \<and>
    fst (load f (Some content')) \<and> bl_inserted (fst (snd (load f (Some content')))) = 0 \<and>
    bl_bits (fst (snd (load f (Some content')))) = truncate_to (bl_bytes f) (drop HEADER_BYTES content)"
proof -
  have ok: "bloom_ok f" and len: "length (bl_bits f) = bl_bytes f"
    using newBlockedBloom_ok(1,2) [OF assms(1,2)] by simp_all
  have load: "matched = False" "g = snd (takeDirty (bloom_clear f))"
    "content' = bloom_header (f\<lparr>bl_inserted := 0\<rparr>) @ drop HEADER_BYTES (truncate_to (HEADER_BYTES + bl_bytes f) content)"
    using load_foreign [OF ok, of "Some content"] assms(3,4) by simp_all
  have length': "length content' = HEADER_BYTES + bl_bytes f" unfolding load by simp
  have header: "take HEADER_BYTES content' = bloom_header (f\<lparr>bl_inserted := 0\<rparr>)" unfolding load by simp
  then have "shape_header f content'" by (auto simp: shape_header_def)
  then have matches: "file_matches f content'" using shape_matches [OF ok ok] by (simp add: same_shape_def)
  have "bloom_ok (f\<lparr>bl_inserted := 0\<rparr>)" using ok by (simp add: bloom_ok_def)
  then have "read_le 8 24 content' = 0" using header_fields(2) header by fastforce
  moreover have "file_bits content' = truncate_to (bl_bytes f) (drop HEADER_BYTES content)"
    unfolding load file_bits_def by (auto simp: truncate_to_def drop_take)
  ultimately show ?thesis
    using load_same [OF ok matches length'] load(1,2) len by (simp add: clear_take list_ex_iff)
qed

text \<open>A file of two-bit keys, taken over by a filter of one: the second start has a key nobody added.\<close>

lemma foreign_file_resurfaces_witness:
  "\<not> fst (load (the (newBlockedBloom 64 1)) (Some (bloom_header (the (newBlockedBloom 64 2)) @ replicate 64 255))) \<and>
   fst (load (the (newBlockedBloom 64 1)) (Some (snd (snd (load (the (newBlockedBloom 64 1))
     (Some (bloom_header (the (newBlockedBloom 64 2)) @ replicate 64 255))))))) \<and>
   bl_bits (fst (snd (load (the (newBlockedBloom 64 1)) (Some (snd (snd (load (the (newBlockedBloom 64 1))
     (Some (bloom_header (the (newBlockedBloom 64 2)) @ replicate 64 255)))))))))= replicate 64 255"
proof -
  let ?f = "the (newBlockedBloom 64 1)" and ?c = "bloom_header (the (newBlockedBloom 64 2)) @ replicate 64 255"
  have "\<not> file_matches ?f ?c" by code_simp
  moreover have "truncate_to (bl_bytes ?f) (drop HEADER_BYTES ?c) = replicate 64 255" by code_simp
  ultimately show ?thesis
    using foreign_file_resurfaces [OF small_filter _ _ , of ?c "fst (load ?f (Some ?c))" "fst (snd (load ?f (Some ?c)))"
        "snd (snd (load ?f (Some ?c)))"] by simp
qed

section \<open>Replacing the file\<close>

lemma apply_chunks:
  assumes "bloom_ok f"
  shows "n \<le> length (bl_dirty f) \<Longrightarrow>
    apply_writes (map (\<lambda>index. let (offset, bytes) = bloom_chunk f index in (HEADER_BYTES + offset, bytes)) [0..<n]) (bloom_header f) =
    bloom_header f @ take (n * CHUNK_BYTES) (bl_bits f)"
proof (induction n)
  case (Suc n)
  then have n: "n < length (bl_dirty f)" by simp
  obtain seg where seg: "bloom_chunk f n = (n * CHUNK_BYTES, seg)" and c: "n * CHUNK_BYTES + length seg \<le> bl_bytes f"
    by (rule chunk_bounds [OF assms n])
  have len: "length (bl_bits f) = bl_bytes f" using assms by (simp add: bloom_ok_def)
  have seg': "seg = take CHUNK_BYTES (drop (n * CHUNK_BYTES) (bl_bits f))"
    using seg len by (auto simp: bloom_chunk_def Let_def min_def)
  have full: "length (take (n * CHUNK_BYTES) (bl_bits f)) = n * CHUNK_BYTES" using c len by simp
  have "write_at (HEADER_BYTES + n * CHUNK_BYTES) seg (bloom_header f @ take (n * CHUNK_BYTES) (bl_bits f)) =
      bloom_header f @ take (n * CHUNK_BYTES) (bl_bits f) @ seg"
    unfolding write_at_def using full by simp
  also have "take (n * CHUNK_BYTES) (bl_bits f) @ seg = take (Suc n * CHUNK_BYTES) (bl_bits f)"
    unfolding seg' by (simp add: take_add [symmetric] add.commute)
  finally show ?case using Suc n by (simp add: apply_writes_def seg)
qed (simp add: apply_writes_def)

lemma load_image:
  assumes "bloom_ok g" and "same_shape g h" and "bloom_ok h" and "bl_inserted g < 2 ^ 64"
  shows "fst (load h (Some (bloom_header g @ bl_bits g))) \<and> bl_bits (fst (snd (load h (Some (bloom_header g @ bl_bits g))))) = bl_bits g \<and>
    bl_inserted (fst (snd (load h (Some (bloom_header g @ bl_bits g))))) = bl_inserted g \<and>
    snd (snd (load h (Some (bloom_header g @ bl_bits g)))) = bloom_header g @ bl_bits g"
proof -
  have "shape_header g (bloom_header g @ bl_bits g)" unfolding shape_header_def by (rule exI [of _ "bl_inserted g"]) simp
  from shape_matches [OF assms(1,3,2) this] have matches: "file_matches h (bloom_header g @ bl_bits g)" .
  have "length (bl_bits g) = bl_bytes g" using assms(1) by (simp add: bloom_ok_def)
  moreover have "bl_bytes g = bl_bytes h" using assms(2) by (simp only: same_shape_def)
  ultimately
  have "length (bloom_header g @ bl_bits g) = HEADER_BYTES + bl_bytes h" by simp
  from load_same [OF assms(3) matches this] header_fields(2) [OF assms(1) _ assms(4)]
  show ?thesis by (simp add: file_bits_def)
qed

text \<open>
  Replacing the file is a round trip. The file that \<open>replace\<close> writes, loaded into any filter of the same
  shape at any later start, gives the replacement bit for bit with its count, and so does the filter
  that is used from then on; nothing is left to write.
\<close>
theorem replace_roundtrip:
  assumes "newBlockedBloom bytes hashes = Some f" and "bytes < 2 ^ 64" and "length ds < 2 ^ 64"
    and "g = foldl (\<lambda>f d. snd (bloom_add f d)) f ds" and "replace g = (matched, used, content)"
  shows "matched \<and> bl_bits used = bl_bits g \<and> bl_inserted used = bl_inserted g \<and> \<not> list_ex id (bl_dirty used) \<and>
    fst (load f (Some content)) \<and> bl_bits (fst (snd (load f (Some content)))) = bl_bits g \<and>
    bl_inserted (fst (snd (load f (Some content)))) = bl_inserted g"
proof -
  have "bloom_ok g \<and> same_shape f g \<and> bl_inserted g \<le> length ds"
    unfolding assms(4)
  proof (induction ds rule: rev_induct)
    case (snoc d ds)
    then show ?case using bloom_add_spec(1,2,6) by (fastforce simp: same_shape_def)
  qed (use newBlockedBloom_ok [OF assms(1,2)] in \<open>simp add: same_shape_def\<close>)
  then have ok: "bloom_ok g" and shape: "same_shape g f" and n: "bl_inserted g < 2 ^ 64"
    using assms(3) by (auto simp: same_shape_def)
  have len: "length (bl_bits g) = bl_bytes g" "length (bl_dirty g) = (bl_bytes g + CHUNK_BYTES - 1) div CHUNK_BYTES"
    using ok by (simp_all add: bloom_ok_def)
  have chunks: "bl_bytes g \<le> length (bl_dirty g) * CHUNK_BYTES"
  proof (rule ccontr)
    assume "\<not> bl_bytes g \<le> length (bl_dirty g) * CHUNK_BYTES"
    then have "length (bl_dirty g) * CHUNK_BYTES < bl_bytes g" by simp
    from chunk_less [OF this] len(2) show False by (simp add: CHUNK_BYTES_def)
  qed
  have "apply_writes (replace_writes g) [] = bloom_header g @ take (length (bl_dirty g) * CHUNK_BYTES) (bl_bits g)"
    using apply_chunks [OF ok order.refl] len(2) by (simp add: replace_writes_def apply_writes_def write_at_def)
  then have replace: "replace g = load (snd (takeDirty g)) (Some (bloom_header g @ bl_bits g))"
    using chunks len(1) by (simp add: replace_def Let_def)
  have "bloom_ok (snd (takeDirty g))" "same_shape g (snd (takeDirty g))" using ok by (simp_all add: takeDirty_def bloom_ok_def same_shape_def)
  note used = load_image [OF ok this(2,1) n] and again = load_image [OF ok shape newBlockedBloom_ok(1) [OF assms(1,2)] n]
  have r: "matched" "bl_bits used = bl_bits g" "bl_inserted used = bl_inserted g" "content = bloom_header g @ bl_bits g"
    using used assms(5) unfolding replace [symmetric] by simp_all
  moreover have "used = fst (snd (load (snd (takeDirty g)) (Some content)))" using assms(5) unfolding r(4) replace [symmetric] by simp
  then have "\<not> list_ex id (bl_dirty used)"
    by (simp add: load_def Let_def takeDirty_def bloom_adopt_def persist_def list_ex_iff split: prod.splits)
  ultimately show ?thesis using again unfolding r(4) by blast
qed

lemma replace_roundtrip_witness:
  "fst (load (the (newBlockedBloom 64 1)) (Some (snd (snd (replace (snd (bloom_add (the (newBlockedBloom 64 1)) [0, 0, 0, 0, 0, 0, 7]))))))) \<and>
   bl_inserted (fst (snd (load (the (newBlockedBloom 64 1))
     (Some (snd (snd (replace (snd (bloom_add (the (newBlockedBloom 64 1)) [0, 0, 0, 0, 0, 0, 7]))))))))) = 1"
proof -
  let ?f = "the (newBlockedBloom 64 1)"
  let ?g = "snd (bloom_add ?f [0, 0, 0, 0, 0, 0, 7])"
  have "bl_inserted ?g = 1" by code_simp
  then show ?thesis
    using replace_roundtrip [OF small_filter, of "[[0, 0, 0, 0, 0, 0, 7]]" ?g "fst (replace ?g)" "fst (snd (replace ?g))" "snd (snd (replace ?g))"]
    by simp
qed

end
