(* ===== verification/SingleFlight.thy ===== *)
theory SingleFlight
  imports Prelude
begin

text \<open>
  The cache of values computed from a versioned source (server/src/lib/sourceVersionedSingleFlight.ts).
  A call of \<open>run\<close> that starts work is a flight; between its awaits other calls run, so each flight has a
  phase and each continuation is an operation of its own. Entries are objects that the continuations
  hold, so the map goes from keys to entry numbers and a heap from these to entries. What the caller
  supplies (\<open>compute\<close>, \<open>isCurrent\<close>) answers by the operations \<open>Compute\<close> and \<open>CurrentAnswer\<close>.
\<close>

section \<open>State\<close>

record 'v RetainedValue =
  rv_version :: string
  rv_value :: 'v
  rv_bytes :: nat
  rv_lastAccess :: nat

record 'v WorkEntry =
  we_generation :: nat
  we_retained :: "'v RetainedValue option"
  we_inFlights :: "nat list"

datatype WorkStatus = StComputed | StHit | StJoined

datatype 'v WorkResult =
    Completed WorkStatus string 'v bool
  | Stale string "(string \<times> 'v) option"

text \<open>How a promise settles.\<close>

datatype 'v Settled = Resolved "'v WorkResult" | Rejected

text \<open>
  A flight computes; then \<open>isStale\<close> awaits \<open>isCurrent\<close>; then it has its verdict, which the continuation
  reads one microtask later; then \<open>finally\<close> is to run. \<open>None\<close> is a computation that failed.
\<close>

datatype 'v Phase =
    Computing
  | Asking "'v option"
  | Judged "'v option" bool
  | Settling "'v Settled"

record ('k, 'v) InFlight =
  if_key :: 'k
  if_entry :: nat
  if_version :: string
  if_generation :: nat
  if_previous :: "(string \<times> 'v) option"
  if_phase :: "'v Phase"
  if_joined :: "nat list"

record ('k, 'v) SingleFlight =
  sf_entries :: "('k \<times> nat) list"
  sf_heap :: "nat \<Rightarrow> 'v WorkEntry"
  sf_nextEntry :: nat
  sf_flights :: "nat \<rightharpoonup> ('k, 'v) InFlight"
  sf_accessSequence :: nat
  sf_retainedBytes :: int
  sf_cacheHits :: nat
  sf_acceptedPeeks :: nat
  sf_joinedCalls :: nat
  sf_workStarts :: nat
  sf_staleCompletions :: nat
  sf_unretainedCompletions :: nat
  sf_failures :: nat
  sf_evictions :: nat
  sf_answers :: "(nat \<times> 'v Settled) list"

text \<open>
  The options. \<open>None\<close> as the budget is \<open>Infinity\<close>; the estimate is what \<open>measureValue\<close> rounds up to, or
  \<open>None\<close> where it throws.
\<close>

record 'v FlightOptions =
  op_maxRetainedBytes :: "nat option"
  op_measureValue :: "'v \<Rightarrow> nat option"
  op_shouldRetain :: "'v \<Rightarrow> bool"
  op_acceptUnretainedWhenStale :: bool

definition newSingleFlight :: "('k, 'v) SingleFlight" where
  "newSingleFlight =
     \<lparr>sf_entries = [], sf_heap = (\<lambda>_. \<lparr>we_generation = 0, we_retained = None, we_inFlights = []\<rparr>), sf_nextEntry = 0,
      sf_flights = Map.empty, sf_accessSequence = 0, sf_retainedBytes = 0, sf_cacheHits = 0, sf_acceptedPeeks = 0,
      sf_joinedCalls = 0, sf_workStarts = 0, sf_staleCompletions = 0, sf_unretainedCompletions = 0, sf_failures = 0,
      sf_evictions = 0, sf_answers = []\<rparr>"

section \<open>Entries\<close>

definition set_entry :: "nat \<Rightarrow> ('v WorkEntry \<Rightarrow> 'v WorkEntry) \<Rightarrow> ('k, 'v) SingleFlight \<Rightarrow> ('k, 'v) SingleFlight" where
  "set_entry e f s = s\<lparr>sf_heap := (sf_heap s)(e := f (sf_heap s e))\<rparr>"

definition getOrCreateEntry :: "'k \<Rightarrow> ('k, 'v) SingleFlight \<Rightarrow> nat \<times> ('k, 'v) SingleFlight" where
  "getOrCreateEntry key s =
     (case map_of (sf_entries s) key of
        Some e \<Rightarrow> (e, s)
      | None \<Rightarrow>
          let e = sf_nextEntry s
          in (e, s\<lparr>sf_entries := sf_entries s @ [(key, e)], sf_nextEntry := Suc e,
                 sf_heap := (sf_heap s)(e := \<lparr>we_generation = 0, we_retained = None, we_inFlights = []\<rparr>)\<rparr>))"

definition releaseRetained :: "nat \<Rightarrow> ('k, 'v) SingleFlight \<Rightarrow> ('k, 'v) SingleFlight" where
  "releaseRetained e s =
     (case we_retained (sf_heap s e) of
        None \<Rightarrow> s
      | Some r \<Rightarrow> set_entry e (\<lambda>w. w\<lparr>we_retained := None\<rparr>) (s\<lparr>sf_retainedBytes := sf_retainedBytes s - int (rv_bytes r)\<rparr>))"

text \<open>The entry leaves the map when nothing is in flight on it.\<close>

definition drop_idle :: "'k \<Rightarrow> nat \<Rightarrow> ('k, 'v) SingleFlight \<Rightarrow> ('k, 'v) SingleFlight" where
  "drop_idle key e s =
     (if we_inFlights (sf_heap s e) = [] then s\<lparr>sf_entries := AList.delete key (sf_entries s)\<rparr> else s)"

definition older_entry :: "('k, 'v) SingleFlight \<Rightarrow> ('k \<times> nat) option \<Rightarrow> 'k \<times> nat \<Rightarrow> ('k \<times> nat) option" where
  "older_entry s oldest candidate =
     (case we_retained (sf_heap s (snd candidate)) of
        None \<Rightarrow> oldest
      | Some retained \<Rightarrow>
          (case Option.bind oldest (\<lambda>(_, e). we_retained (sf_heap s e)) of
             None \<Rightarrow> Some candidate
           | Some oldestRetained \<Rightarrow> if rv_lastAccess retained < rv_lastAccess oldestRetained then Some candidate else oldest))"

definition oldest_entry :: "('k, 'v) SingleFlight \<Rightarrow> ('k \<times> nat) option" where
  "oldest_entry s = foldl (older_entry s) None (sf_entries s)"

definition evict :: "'k \<times> nat \<Rightarrow> ('k, 'v) SingleFlight \<Rightarrow> ('k, 'v) SingleFlight" where
  "evict oldest s =
     (let s = drop_idle (fst oldest) (snd oldest) (releaseRetained (snd oldest) s)
      in s\<lparr>sf_evictions := Suc (sf_evictions s)\<rparr>)"

definition over_budget :: "nat option \<Rightarrow> int \<Rightarrow> bool" where
  "over_budget budget n = (case budget of None \<Rightarrow> False | Some b \<Rightarrow> n > int b)"

lemma oldest_entry_mem:
  "oldest_entry s = Some c \<Longrightarrow> c \<in> set (sf_entries s) \<and> we_retained (sf_heap s (snd c)) \<noteq> None"
proof -
  have "foldl (older_entry s) acc xs = Some c \<Longrightarrow>
      acc = Some c \<or> c \<in> set xs \<and> we_retained (sf_heap s (snd c)) \<noteq> None" for acc xs
    by (induction xs arbitrary: acc) (auto simp: older_entry_def split: option.splits if_splits)
  from this [of None "sf_entries s"] show "oldest_entry s = Some c \<Longrightarrow> ?thesis" by (simp add: oldest_entry_def)
qed

definition retained_count :: "('k, 'v) SingleFlight \<Rightarrow> nat" where
  "retained_count s = length (filter (\<lambda>(_, e). we_retained (sf_heap s e) \<noteq> None) (sf_entries s))"

lemma release_heap:
  "we_retained (sf_heap (releaseRetained e s) e') = (if e' = e then None else we_retained (sf_heap s e'))"
  "we_inFlights (sf_heap (releaseRetained e s) e') = we_inFlights (sf_heap s e')"
  "we_generation (sf_heap (releaseRetained e s) e') = we_generation (sf_heap s e')"
  by (auto simp: releaseRetained_def set_entry_def split: option.splits)

lemma release_same [simp]:
  "sf_entries (releaseRetained e s) = sf_entries s" "sf_flights (releaseRetained e s) = sf_flights s"
  "sf_nextEntry (releaseRetained e s) = sf_nextEntry s" "sf_answers (releaseRetained e s) = sf_answers s"
  "sf_accessSequence (releaseRetained e s) = sf_accessSequence s"
  by (auto simp: releaseRetained_def set_entry_def split: option.splits)

lemma drop_idle_same [simp]:
  "sf_heap (drop_idle k e s) = sf_heap s" "sf_flights (drop_idle k e s) = sf_flights s"
  "sf_nextEntry (drop_idle k e s) = sf_nextEntry s" "sf_answers (drop_idle k e s) = sf_answers s"
  "sf_accessSequence (drop_idle k e s) = sf_accessSequence s" "sf_retainedBytes (drop_idle k e s) = sf_retainedBytes s"
  by (simp_all add: drop_idle_def)

lemma filter_fewer:
  "\<forall>x \<in> set xs. P x \<longrightarrow> Q x \<Longrightarrow> x \<in> set xs \<Longrightarrow> Q x \<Longrightarrow> \<not> P x \<Longrightarrow> length (filter P xs) < length (filter Q xs)"
proof (induction xs)
  case (Cons y ys)
  have "length (filter P zs) \<le> length (filter Q zs)" if "\<forall>x \<in> set zs. P x \<longrightarrow> Q x" for zs
    using that by (induction zs) auto
  with Cons show ?case by (auto simp: less_Suc_eq_le)
qed simp

lemma evict_fewer:
  assumes "c \<in> set (sf_entries s)" and "we_retained (sf_heap s (snd c)) \<noteq> None"
  shows "retained_count (evict c s) < retained_count s"
proof -
  let ?P = "\<lambda>(_, e). we_retained (sf_heap (releaseRetained (snd c) s) e) \<noteq> None"
  have "length (filter ?P (AList.delete (fst c) xs)) \<le> length (filter ?P xs)" for xs
    by (induction xs) (auto simp: AList.delete_eq)
  then have "retained_count (evict c s) \<le> length (filter ?P (sf_entries s))"
    by (simp add: retained_count_def evict_def Let_def drop_idle_def)
  also have "\<dots> < retained_count s"
    unfolding retained_count_def using assms by (intro filter_fewer [where x = c]) (auto simp: release_heap)
  finally show ?thesis .
qed

function trimToBudget :: "nat option \<Rightarrow> ('k, 'v) SingleFlight \<Rightarrow> ('k, 'v) SingleFlight" where
  "trimToBudget budget s =
     (if over_budget budget (sf_retainedBytes s)
      then (case oldest_entry s of None \<Rightarrow> s | Some oldest \<Rightarrow> trimToBudget budget (evict oldest s))
      else s)"
  by pat_completeness auto

termination
  by (relation "measure (\<lambda>(_, s). retained_count s)") (auto dest!: oldest_entry_mem intro!: evict_fewer)

declare trimToBudget.simps [simp del]

section \<open>Calls\<close>

definition accepted :: "'v WorkEntry \<Rightarrow> (string \<times> 'v) option" where
  "accepted w = map_option (\<lambda>r. (rv_version r, rv_value r)) (we_retained w)"

definition set_flight :: "nat \<Rightarrow> ('k, 'v) InFlight \<Rightarrow> ('k, 'v) SingleFlight \<Rightarrow> ('k, 'v) SingleFlight" where
  "set_flight f g s = s\<lparr>sf_flights := (sf_flights s)(f \<mapsto> g)\<rparr>"

definition same_work :: "('k, 'v) SingleFlight \<Rightarrow> string \<Rightarrow> nat \<Rightarrow> nat \<Rightarrow> bool" where
  "same_work s version generation f =
     (case sf_flights s f of
        None \<Rightarrow> False
      | Some candidate \<Rightarrow> if_version candidate = version \<and> if_generation candidate = generation)"

definition join_or_start :: "nat \<Rightarrow> 'k \<Rightarrow> string \<Rightarrow> nat \<Rightarrow> nat \<Rightarrow> ('k, 'v) SingleFlight \<Rightarrow> ('k, 'v) SingleFlight" where
  "join_or_start call key version e generation s =
     (case find (same_work s version generation) (we_inFlights (sf_heap s e)) of
        Some existing \<Rightarrow>
          (let s = s\<lparr>sf_joinedCalls := Suc (sf_joinedCalls s)\<rparr>
           in case sf_flights s existing of
                None \<Rightarrow> s
              | Some g \<Rightarrow> set_flight existing (g\<lparr>if_joined := if_joined g @ [call]\<rparr>) s)
      | None \<Rightarrow>
          (let s = s\<lparr>sf_workStarts := Suc (sf_workStarts s)\<rparr>;
               inFlight = \<lparr>if_key = key, if_entry = e, if_version = version, if_generation = generation,
                 if_previous = accepted (sf_heap s e), if_phase = Computing, if_joined = []\<rparr>
           in set_entry e (\<lambda>w. w\<lparr>we_inFlights := we_inFlights w @ [call]\<rparr>) (set_flight call inFlight s)))"

text \<open>\<open>run\<close>, with the number of the call whose promise it returns.\<close>

definition run :: "nat \<Rightarrow> 'k \<Rightarrow> string \<Rightarrow> ('k, 'v) SingleFlight \<Rightarrow> ('k, 'v) SingleFlight" where
  "run call key version s =
     (let (e, s) = getOrCreateEntry key s; entry = sf_heap s e; generation = we_generation entry
      in case we_retained entry of
           Some r \<Rightarrow> if rv_version r = version
             then
               (let access = Suc (sf_accessSequence s);
                    s = s\<lparr>sf_cacheHits := Suc (sf_cacheHits s), sf_accessSequence := access,
                          sf_answers := sf_answers s @ [(call, Resolved (Completed StHit version (rv_value r) True))]\<rparr>
                in set_entry e (\<lambda>w. w\<lparr>we_retained := Some (r\<lparr>rv_lastAccess := access\<rparr>)\<rparr>) s)
             else join_or_start call key version e generation s
         | None \<Rightarrow> join_or_start call key version e generation s)"

section \<open>Continuations\<close>

text \<open>The first test of \<open>isStale\<close>, before it awaits \<open>isCurrent\<close>.\<close>

definition begin_check :: "nat \<Rightarrow> ('k, 'v) InFlight \<Rightarrow> 'v option \<Rightarrow> ('k, 'v) SingleFlight \<Rightarrow> ('k, 'v) SingleFlight" where
  "begin_check f g result s =
     (if we_generation (sf_heap s (if_entry g)) \<noteq> if_generation g
      then set_flight f (g\<lparr>if_phase := Judged result True\<rparr>) s
      else set_flight f (g\<lparr>if_phase := Asking result\<rparr>) s)"

definition compute_done :: "nat \<Rightarrow> 'v option \<Rightarrow> ('k, 'v) SingleFlight \<Rightarrow> ('k, 'v) SingleFlight" where
  "compute_done f result s =
     (case sf_flights s f of
        None \<Rightarrow> s
      | Some g \<Rightarrow>
          if if_phase g \<noteq> Computing then s
          else
            (let s = (case result of None \<Rightarrow> s\<lparr>sf_failures := Suc (sf_failures s)\<rparr> | Some _ \<Rightarrow> s)
             in begin_check f g result s))"

text \<open>What \<open>isCurrent\<close> answers; \<open>None\<close> is that it rejects.\<close>

definition current_answer :: "nat \<Rightarrow> bool option \<Rightarrow> ('k, 'v) SingleFlight \<Rightarrow> ('k, 'v) SingleFlight" where
  "current_answer f answer s =
     (case sf_flights s f of
        None \<Rightarrow> s
      | Some g \<Rightarrow>
          (case if_phase g of
             Asking result \<Rightarrow>
               (case answer of
                  Some current \<Rightarrow>
                    set_flight f (g\<lparr>if_phase := Judged result (\<not> current \<or> we_generation (sf_heap s (if_entry g)) \<noteq> if_generation g)\<rparr>) s
                | None \<Rightarrow>
                    (let s = (case result of None \<Rightarrow> s | Some _ \<Rightarrow> s\<lparr>sf_failures := Suc (sf_failures s)\<rparr>)
                     in set_flight f (g\<lparr>if_phase := Settling Rejected\<rparr>) s))
           | _ \<Rightarrow> s))"

definition staleResult :: "('k, 'v) InFlight \<Rightarrow> ('k, 'v) SingleFlight \<Rightarrow> 'v WorkResult" where
  "staleResult g s = Stale (if_version g) (accepted (sf_heap s (if_entry g)))"

definition settle_with :: "nat \<Rightarrow> ('k, 'v) InFlight \<Rightarrow> 'v Settled \<Rightarrow> ('k, 'v) SingleFlight \<Rightarrow> ('k, 'v) SingleFlight" where
  "settle_with f g r s = set_flight f (g\<lparr>if_phase := Settling r\<rparr>) s"

definition retain :: "'v FlightOptions \<Rightarrow> nat \<Rightarrow> ('k, 'v) InFlight \<Rightarrow> 'v \<Rightarrow> nat \<Rightarrow> ('k, 'v) SingleFlight \<Rightarrow> ('k, 'v) SingleFlight" where
  "retain opts f g value bytes s =
     (let access = Suc (sf_accessSequence s);
          retained = \<lparr>rv_version = if_version g, rv_value = value, rv_bytes = bytes, rv_lastAccess = access\<rparr>;
          s = set_entry (if_entry g) (\<lambda>w. w\<lparr>we_retained := Some retained\<rparr>) (s\<lparr>sf_accessSequence := access\<rparr>);
          s = trimToBudget (op_maxRetainedBytes opts) (s\<lparr>sf_retainedBytes := sf_retainedBytes s + int bytes\<rparr>)
      in settle_with f g
           (Resolved (Completed StComputed (if_version g) value (we_retained (sf_heap s (if_entry g)) = Some retained))) s)"

definition continue_value ::
    "'v FlightOptions \<Rightarrow> nat \<Rightarrow> ('k, 'v) InFlight \<Rightarrow> 'v \<Rightarrow> bool \<Rightarrow> ('k, 'v) SingleFlight \<Rightarrow> ('k, 'v) SingleFlight" where
  "continue_value opts f g value stale s =
     (let shouldRetain = op_shouldRetain opts value;
          unretained = Resolved (Completed StComputed (if_version g) value False)
      in if stale then
           (if \<not> shouldRetain \<and> op_acceptUnretainedWhenStale opts
            then settle_with f g unretained (s\<lparr>sf_unretainedCompletions := Suc (sf_unretainedCompletions s)\<rparr>)
            else settle_with f g (Resolved (staleResult g s)) (s\<lparr>sf_staleCompletions := Suc (sf_staleCompletions s)\<rparr>))
         else
           (let s = releaseRetained (if_entry g) s
            in if \<not> shouldRetain
               then settle_with f g unretained (s\<lparr>sf_unretainedCompletions := Suc (sf_unretainedCompletions s)\<rparr>)
               else
                 (case op_measureValue opts value of
                    None \<Rightarrow> settle_with f g Rejected (s\<lparr>sf_failures := Suc (sf_failures s)\<rparr>)
                  | Some bytes \<Rightarrow> retain opts f g value bytes s)))"

definition continue :: "'v FlightOptions \<Rightarrow> nat \<Rightarrow> ('k, 'v) SingleFlight \<Rightarrow> ('k, 'v) SingleFlight" where
  "continue opts f s =
     (case sf_flights s f of
        None \<Rightarrow> s
      | Some g \<Rightarrow>
          (case if_phase g of
             Judged (Some value) stale \<Rightarrow> continue_value opts f g value stale s
           | Judged None stale \<Rightarrow>
               if stale
               then settle_with f g (Resolved (staleResult g s)) (s\<lparr>sf_staleCompletions := Suc (sf_staleCompletions s)\<rparr>)
               else settle_with f g Rejected s
           | _ \<Rightarrow> s))"

text \<open>What a joined call is answered.\<close>

definition joined_result :: "'v Settled \<Rightarrow> 'v Settled" where
  "joined_result r =
     (case r of
        Resolved (Completed StComputed version value retained) \<Rightarrow> Resolved (Completed StJoined version value retained)
      | _ \<Rightarrow> r)"

text \<open>\<open>finally\<close>, and the promises that settle by it.\<close>

definition finish :: "nat \<Rightarrow> ('k, 'v) SingleFlight \<Rightarrow> ('k, 'v) SingleFlight" where
  "finish f s =
     (case sf_flights s f of
        None \<Rightarrow> s
      | Some g \<Rightarrow>
          (case if_phase g of
             Settling r \<Rightarrow>
               (let e = if_entry g;
                    s = set_entry e (\<lambda>w. w\<lparr>we_inFlights := filter (\<lambda>x. x \<noteq> f) (we_inFlights w)\<rparr>) s;
                    s = (if we_retained (sf_heap s e) = None then drop_idle (if_key g) e s else s)
                in s\<lparr>sf_flights := (sf_flights s)(f := None),
                     sf_answers := sf_answers s @ (f, r) # map (\<lambda>c. (c, joined_result r)) (if_joined g)\<rparr>)
           | _ \<Rightarrow> s))"

section \<open>The other methods\<close>

definition getAccepted :: "'k \<Rightarrow> ('k, 'v) SingleFlight \<Rightarrow> (string \<times> 'v) option \<times> ('k, 'v) SingleFlight" where
  "getAccepted key s =
     (case Option.bind (map_of (sf_entries s) key) (\<lambda>e. map_option (Pair e) (we_retained (sf_heap s e))) of
        None \<Rightarrow> (None, s)
      | Some (e, r) \<Rightarrow>
          (let access = Suc (sf_accessSequence s);
               s = s\<lparr>sf_acceptedPeeks := Suc (sf_acceptedPeeks s), sf_accessSequence := access\<rparr>
           in (Some (rv_version r, rv_value r), set_entry e (\<lambda>w. w\<lparr>we_retained := Some (r\<lparr>rv_lastAccess := access\<rparr>)\<rparr>) s)))"

definition invalidate_entry :: "'k \<times> nat \<Rightarrow> ('k, 'v) SingleFlight \<Rightarrow> ('k, 'v) SingleFlight" where
  "invalidate_entry c s =
     drop_idle (fst c) (snd c)
       (releaseRetained (snd c) (set_entry (snd c) (\<lambda>w. w\<lparr>we_generation := Suc (we_generation w)\<rparr>) s))"

definition invalidate :: "'k \<Rightarrow> ('k, 'v) SingleFlight \<Rightarrow> ('k, 'v) SingleFlight" where
  "invalidate key s = (case map_of (sf_entries s) key of None \<Rightarrow> s | Some e \<Rightarrow> invalidate_entry (key, e) s)"

definition clear :: "('k, 'v) SingleFlight \<Rightarrow> ('k, 'v) SingleFlight" where
  "clear s = foldl (\<lambda>s c. invalidate_entry c s) s (sf_entries s)"

datatype ('k, 'v) Operation =
    Run nat 'k string
  | Compute nat "'v option"
  | CurrentAnswer nat "bool option"
  | Continue nat
  | Finish nat
  | GetAccepted 'k
  | Invalidate 'k
  | Clear

fun flight_step :: "'v FlightOptions \<Rightarrow> ('k, 'v) SingleFlight \<Rightarrow> ('k, 'v) Operation \<Rightarrow> ('k, 'v) SingleFlight" where
  "flight_step opts s (Run call key version) = run call key version s"
| "flight_step opts s (Compute f result) = compute_done f result s"
| "flight_step opts s (CurrentAnswer f answer) = current_answer f answer s"
| "flight_step opts s (Continue f) = continue opts f s"
| "flight_step opts s (Finish f) = finish f s"
| "flight_step opts s (GetAccepted key) = snd (getAccepted key s)"
| "flight_step opts s (Invalidate key) = invalidate key s"
| "flight_step opts s Clear = clear s"

section \<open>The books\<close>

definition entry_bytes :: "('k, 'v) SingleFlight \<Rightarrow> nat \<Rightarrow> int" where
  "entry_bytes s e = (case we_retained (sf_heap s e) of None \<Rightarrow> 0 | Some r \<Rightarrow> int (rv_bytes r))"

text \<open>The map, the heap and the flights agree; \<open>hot\<close> is an entry in use by the operation at hand.\<close>

definition linked :: "('k, 'v) SingleFlight \<Rightarrow> bool" where
  "linked s \<longleftrightarrow>
     distinct (map fst (sf_entries s)) \<and> distinct (map snd (sf_entries s)) \<and>
     (\<forall>c \<in> set (sf_entries s). snd c < sf_nextEntry s) \<and>
     sf_retainedBytes s = (\<Sum>c \<leftarrow> sf_entries s. entry_bytes s (snd c)) \<and>
     (\<forall>f g. sf_flights s f = Some g \<longrightarrow> (if_key g, if_entry g) \<in> set (sf_entries s) \<and> f \<in> set (we_inFlights (sf_heap s (if_entry g)))) \<and>
     (\<forall>c \<in> set (sf_entries s). \<forall>f \<in> set (we_inFlights (sf_heap s (snd c))). \<exists>g. sf_flights s f = Some g \<and> if_entry g = snd c)"

definition no_idle :: "('k, 'v) SingleFlight \<Rightarrow> bool" where
  "no_idle s \<longleftrightarrow>
     (\<forall>c \<in> set (sf_entries s). we_retained (sf_heap s (snd c)) \<noteq> None \<or> we_inFlights (sf_heap s (snd c)) \<noteq> [])"

lemma linkedD:
  assumes "linked s"
  shows "distinct (map fst (sf_entries s))" and "distinct (map snd (sf_entries s))"
    and "\<And>c. c \<in> set (sf_entries s) \<Longrightarrow> snd c < sf_nextEntry s"
    and "sf_retainedBytes s = (\<Sum>c \<leftarrow> sf_entries s. entry_bytes s (snd c))"
    and "\<And>f g. sf_flights s f = Some g \<Longrightarrow> (if_key g, if_entry g) \<in> set (sf_entries s)"
    and "\<And>f g. sf_flights s f = Some g \<Longrightarrow> f \<in> set (we_inFlights (sf_heap s (if_entry g)))"
    and "\<And>c f. c \<in> set (sf_entries s) \<Longrightarrow> f \<in> set (we_inFlights (sf_heap s (snd c))) \<Longrightarrow> \<exists>g. sf_flights s f = Some g \<and> if_entry g = snd c"
  using assms unfolding linked_def by blast+

lemma entry_unique:
  assumes "linked s" and "c \<in> set (sf_entries s)" and "d \<in> set (sf_entries s)" and "snd c = snd d"
  shows "c = d"
  using linkedD(2) [OF assms(1)] assms(2-4) by (simp add: distinct_map inj_on_def)

text \<open>A sum over the entries when one of them changes.\<close>

lemma sum_change:
  fixes h :: "nat \<Rightarrow> int"
  assumes "distinct (map snd xs)" and "c \<in> set xs" and "\<And>e. e \<noteq> snd c \<Longrightarrow> h' e = h e"
  shows "(\<Sum>x \<leftarrow> xs. h' (snd x)) = (\<Sum>x \<leftarrow> xs. h (snd x)) - h (snd c) + h' (snd c)"
  using assms
proof (induction xs)
  case (Cons x xs)
  show ?case
  proof (cases "x = c")
    case True
    then have "snd c \<notin> snd ` set xs" using Cons.prems(1) by auto
    then have "h' (snd y) = h (snd y)" if "y \<in> set xs" for y using Cons.prems(3) that by (metis imageI)
    then have "map (\<lambda>x. h' (snd x)) xs = map (\<lambda>x. h (snd x)) xs" by simp
    then show ?thesis using True by (simp del: map_eq_conv)
  next
    case False
    then have c: "c \<in> set xs" using Cons.prems(2) by simp
    then have "snd x \<noteq> snd c" using Cons.prems(1) by force
    then have "h' (snd x) = h (snd x)" by (rule Cons.prems(3))
    then show ?thesis using Cons.IH [OF _ c Cons.prems(3)] Cons.prems(1) by simp
  qed
qed simp

lemma sum_delete:
  fixes h :: "nat \<Rightarrow> int"
  assumes "distinct (map fst xs)" and "c \<in> set xs"
  shows "(\<Sum>x \<leftarrow> AList.delete (fst c) xs. h (snd x)) = (\<Sum>x \<leftarrow> xs. h (snd x)) - h (snd c)"
  using assms
proof (induction xs)
  case (Cons x xs)
  show ?case
  proof (cases "x = c")
    case True
    then have "AList.delete (fst c) xs = xs" using Cons.prems(1) by (auto simp: AList.delete_eq filter_id_conv image_iff)
    then show ?thesis using True by (simp add: AList.delete_eq split_beta)
  next
    case False
    then have "fst x \<noteq> fst c" using Cons.prems by (auto simp: image_iff)
    then show ?thesis using Cons False by (auto simp: AList.delete_eq)
  qed
qed simp

lemma linked_entry:
  assumes "linked s" and "c \<in> set (sf_entries s)" and "\<And>w. we_inFlights (f w) = we_inFlights w"
    and "n = (case we_retained (f (sf_heap s (snd c))) of None \<Rightarrow> 0 | Some r \<Rightarrow> int (rv_bytes r)) - entry_bytes s (snd c)"
  shows "linked (set_entry (snd c) f (s\<lparr>sf_retainedBytes := sf_retainedBytes s + n\<rparr>))"
proof -
  let ?s = "set_entry (snd c) f (s\<lparr>sf_retainedBytes := sf_retainedBytes s + n\<rparr>)"
  have "(\<Sum>x \<leftarrow> sf_entries s. entry_bytes ?s (snd x)) =
      (\<Sum>x \<leftarrow> sf_entries s. entry_bytes s (snd x)) - entry_bytes s (snd c) + entry_bytes ?s (snd c)"
    by (rule sum_change [OF linkedD(2) [OF assms(1)] assms(2)]) (simp add: entry_bytes_def set_entry_def)
  moreover have "entry_bytes ?s (snd c) = n + entry_bytes s (snd c)" unfolding assms(4) by (simp add: entry_bytes_def set_entry_def)
  ultimately have "sf_retainedBytes ?s = (\<Sum>x \<leftarrow> sf_entries ?s. entry_bytes ?s (snd x))"
    using linkedD(4) [OF assms(1)] by (simp add: set_entry_def)
  moreover have "we_inFlights (sf_heap ?s e) = we_inFlights (sf_heap s e)" for e by (simp add: set_entry_def assms(3))
  ultimately show ?thesis using assms(1) unfolding linked_def by (simp add: set_entry_def)
qed

lemma linked_counters [simp]:
  "linked (s\<lparr>sf_accessSequence := n\<rparr>) = linked s" "linked (s\<lparr>sf_cacheHits := n\<rparr>) = linked s"
  "linked (s\<lparr>sf_acceptedPeeks := n\<rparr>) = linked s" "linked (s\<lparr>sf_joinedCalls := n\<rparr>) = linked s"
  "linked (s\<lparr>sf_workStarts := n\<rparr>) = linked s" "linked (s\<lparr>sf_staleCompletions := n\<rparr>) = linked s"
  "linked (s\<lparr>sf_unretainedCompletions := n\<rparr>) = linked s" "linked (s\<lparr>sf_failures := n\<rparr>) = linked s"
  "linked (s\<lparr>sf_evictions := n\<rparr>) = linked s" "linked (s\<lparr>sf_answers := as\<rparr>) = linked s"
  by (simp_all add: linked_def entry_bytes_def)

lemma linked_release:
  assumes "linked s" and "c \<in> set (sf_entries s)"
  shows "linked (releaseRetained (snd c) s)"
proof (cases "we_retained (sf_heap s (snd c))")
  case (Some r)
  then have "releaseRetained (snd c) s =
      set_entry (snd c) (\<lambda>w. w\<lparr>we_retained := None\<rparr>) (s\<lparr>sf_retainedBytes := sf_retainedBytes s + (- int (rv_bytes r))\<rparr>)"
    by (simp add: releaseRetained_def)
  also have "linked \<dots>" using Some by (intro linked_entry [OF assms]) (simp_all add: entry_bytes_def)
  finally show ?thesis .
qed (use assms in \<open>simp add: releaseRetained_def\<close>)

lemma linked_drop:
  assumes "linked s" and "c \<in> set (sf_entries s)" and "we_retained (sf_heap s (snd c)) = None"
  shows "linked (drop_idle (fst c) (snd c) s)"
proof (cases "we_inFlights (sf_heap s (snd c)) = []")
  case True
  let ?s = "s\<lparr>sf_entries := AList.delete (fst c) (sf_entries s)\<rparr>"
  note l = linkedD [OF assms(1)]
  have "(\<Sum>x \<leftarrow> AList.delete (fst c) (sf_entries s). entry_bytes s (snd x)) = sf_retainedBytes s"
    using sum_delete [OF l(1) assms(2), of "entry_bytes s"] l(4) assms(3) by (simp add: entry_bytes_def)
  moreover have "(if_key g, if_entry g) \<in> set (AList.delete (fst c) (sf_entries s))" if g: "sf_flights s f = Some g" for f g
  proof -
    have "(if_key g, if_entry g) \<noteq> c" using l(6) [OF g] True by auto
    then have "if_key g \<noteq> fst c" using l(1) l(5) [OF g] assms(2) by (metis eq_key_imp_eq_value prod.collapse)
    then show ?thesis using l(5) [OF g] by (simp add: AList.delete_eq)
  qed
  moreover have "distinct (map fst (AList.delete (fst c) (sf_entries s)))" "distinct (map snd (AList.delete (fst c) (sf_entries s)))"
    using l(1,2) by (simp_all add: AList.delete_eq distinct_map_filter)
  moreover have "set (AList.delete (fst c) (sf_entries s)) \<subseteq> set (sf_entries s)" by (auto simp: AList.delete_eq)
  ultimately have "linked ?s" using l(3,6,7) unfolding linked_def by (auto simp: entry_bytes_def)
  then show ?thesis using True by (simp add: drop_idle_def)
qed (use assms in \<open>simp add: drop_idle_def\<close>)

lemma linked_set_flight:
  assumes "linked s" and "sf_flights s f = Some g" and "if_key g' = if_key g" and "if_entry g' = if_entry g"
  shows "linked (set_flight f g' s)"
proof -
  note l = linkedD [OF assms(1)]
  have "entry_bytes (set_flight f g' s) = entry_bytes s" by (simp add: fun_eq_iff entry_bytes_def set_flight_def)
  then show ?thesis
    using l assms(2-4) unfolding linked_def by (simp add: set_flight_def) (metis option.inject)
qed

text \<open>What an operation on one entry leaves alone.\<close>

lemma evict_spec:
  assumes "linked s" and "c \<in> set (sf_entries s)"
  shows "linked (evict c s)" and "no_idle s \<Longrightarrow> no_idle (evict c s)" and "set (sf_entries (evict c s)) \<subseteq> set (sf_entries s)"
    and "sf_flights (evict c s) = sf_flights s" and "sf_answers (evict c s) = sf_answers s" and "sf_accessSequence (evict c s) = sf_accessSequence s"
    and "we_inFlights (sf_heap (evict c s) e) = we_inFlights (sf_heap s e)"
    and "we_generation (sf_heap (evict c s) e) = we_generation (sf_heap s e)"
    and "we_retained (sf_heap (evict c s) e) \<in> {None, we_retained (sf_heap s e)}"
proof -
  have "we_retained (sf_heap (releaseRetained (snd c) s) (snd c)) = None" by (simp add: release_heap)
  then show "linked (evict c s)" using linked_drop [OF linked_release [OF assms]] assms(2) by (simp add: evict_def Let_def)
  show "no_idle (evict c s)" if "no_idle s"
    unfolding no_idle_def
  proof
    fix d assume d: "d \<in> set (sf_entries (evict c s))"
    have sub: "d \<in> set (sf_entries s)" using d by (auto simp: evict_def Let_def drop_idle_def AList.delete_eq split: if_splits)
    show "we_retained (sf_heap (evict c s) (snd d)) \<noteq> None \<or> we_inFlights (sf_heap (evict c s) (snd d)) \<noteq> []"
    proof (cases "snd d = snd c")
      case True
      then have "d = c" using entry_unique [OF assms(1) sub assms(2)] by simp
      with d have "we_inFlights (sf_heap s (snd d)) \<noteq> []"
        by (auto simp: evict_def Let_def drop_idle_def release_heap AList.delete_eq split: if_splits)
      then show ?thesis by (simp add: evict_def Let_def release_heap)
    next
      case False
      then show ?thesis using that sub by (auto simp: no_idle_def evict_def Let_def release_heap)
    qed
  qed
  show "set (sf_entries (evict c s)) \<subseteq> set (sf_entries s)" by (auto simp: evict_def Let_def drop_idle_def AList.delete_eq)
  show "sf_flights (evict c s) = sf_flights s" "sf_answers (evict c s) = sf_answers s" "sf_accessSequence (evict c s) = sf_accessSequence s"
    "we_inFlights (sf_heap (evict c s) e) = we_inFlights (sf_heap s e)"
    "we_generation (sf_heap (evict c s) e) = we_generation (sf_heap s e)"
    "we_retained (sf_heap (evict c s) e) \<in> {None, we_retained (sf_heap s e)}"
    by (simp_all add: evict_def Let_def release_heap)
qed

lemma oldest_entry_None: "oldest_entry s = None \<Longrightarrow> c \<in> set (sf_entries s) \<Longrightarrow> we_retained (sf_heap s (snd c)) = None"
proof -
  have "foldl (older_entry s) acc xs = None \<Longrightarrow> acc = None \<and> (\<forall>c \<in> set xs. we_retained (sf_heap s (snd c)) = None)" for acc xs
  proof (induction xs arbitrary: acc)
    case (Cons x xs)
    then have "older_entry s acc x = None" and rest: "\<forall>c \<in> set xs. we_retained (sf_heap s (snd c)) = None" by (metis foldl_Cons)+
    then have "acc = None \<and> we_retained (sf_heap s (snd x)) = None"
      by (auto simp: older_entry_def split: option.splits if_splits)
    with rest show ?case by simp
  qed simp
  from this [of None "sf_entries s"] show "oldest_entry s = None \<Longrightarrow> c \<in> set (sf_entries s) \<Longrightarrow> ?thesis" by (simp add: oldest_entry_def)
qed

lemma trim_spec:
  assumes "linked s"
  shows "linked (trimToBudget budget s) \<and> (no_idle s \<longrightarrow> no_idle (trimToBudget budget s)) \<and>
    \<not> over_budget budget (sf_retainedBytes (trimToBudget budget s)) \<and> sf_flights (trimToBudget budget s) = sf_flights s \<and>
    sf_answers (trimToBudget budget s) = sf_answers s \<and> set (sf_entries (trimToBudget budget s)) \<subseteq> set (sf_entries s) \<and>
    (\<forall>e. we_inFlights (sf_heap (trimToBudget budget s) e) = we_inFlights (sf_heap s e) \<and>
       we_generation (sf_heap (trimToBudget budget s) e) = we_generation (sf_heap s e) \<and>
       we_retained (sf_heap (trimToBudget budget s) e) \<in> {None, we_retained (sf_heap s e)})"
  using assms
proof (induction budget s rule: trimToBudget.induct)
  case (1 budget s)
  show ?case
  proof (cases "over_budget budget (sf_retainedBytes s)")
    case False
    then show ?thesis using 1 by (simp add: trimToBudget.simps)
  next
    case over: True
    show ?thesis
    proof (cases "oldest_entry s")
      case None
      then have "entry_bytes s (snd c) = 0" if "c \<in> set (sf_entries s)" for c
        using oldest_entry_None [OF None that] by (simp add: entry_bytes_def)
      then have "sf_retainedBytes s = (\<Sum>c \<leftarrow> sf_entries s. 0)" unfolding linkedD(4) [OF 1(2)] by (intro arg_cong [of _ _ sum_list] map_cong) auto
      then show ?thesis using over by (simp add: over_budget_def split: option.splits)
    next
      case (Some c)
      then have c: "c \<in> set (sf_entries s)" using oldest_entry_mem by blast
      have eq: "trimToBudget budget s = trimToBudget budget (evict c s)" using over Some by (simp add: trimToBudget.simps [of budget s])
      note e = evict_spec [OF 1(2) c]
      note ih = 1(1) [OF over Some e(1)]
      have kept: "we_retained (sf_heap (trimToBudget budget (evict c s)) x) \<in> {None, we_retained (sf_heap s x)}" for x
        using conjunct2 [OF conjunct2 [OF spec [OF conjunct2 [OF conjunct2 [OF conjunct2 [OF conjunct2 [OF conjunct2 [OF conjunct2 [OF ih]]]]]], of x]]]
          e(9) [of x] by auto
      show ?thesis
        unfolding eq using ih e(2,3) kept unfolding e(4,5,7,8) by (intro conjI allI; (elim conjE)?; (simp only: simp_thms)?; blast)
    qed
  qed
qed

definition books :: "'v FlightOptions \<Rightarrow> ('k, 'v) SingleFlight \<Rightarrow> bool" where
  "books opts s \<longleftrightarrow> linked s \<and> no_idle s \<and> \<not> over_budget (op_maxRetainedBytes opts) (sf_retainedBytes s)"

lemma booksD:
  assumes "books opts s"
  shows "linked s" and "no_idle s" and "\<not> over_budget (op_maxRetainedBytes opts) (sf_retainedBytes s)"
  using assms by (simp_all add: books_def)

lemma over_budget_mono: "over_budget b m \<Longrightarrow> m \<le> n \<Longrightarrow> over_budget b n"
  by (auto simp: over_budget_def split: option.splits)

lemma books_counters [simp]:
  "books opts (s\<lparr>sf_accessSequence := n\<rparr>) = books opts s" "books opts (s\<lparr>sf_cacheHits := n\<rparr>) = books opts s"
  "books opts (s\<lparr>sf_acceptedPeeks := n\<rparr>) = books opts s" "books opts (s\<lparr>sf_joinedCalls := n\<rparr>) = books opts s"
  "books opts (s\<lparr>sf_workStarts := n\<rparr>) = books opts s" "books opts (s\<lparr>sf_staleCompletions := n\<rparr>) = books opts s"
  "books opts (s\<lparr>sf_unretainedCompletions := n\<rparr>) = books opts s" "books opts (s\<lparr>sf_failures := n\<rparr>) = books opts s"
  "books opts (s\<lparr>sf_evictions := n\<rparr>) = books opts s" "books opts (s\<lparr>sf_answers := as\<rparr>) = books opts s"
  by (simp_all add: books_def no_idle_def)

lemma books_set_flight:
  assumes "books opts s" and "sf_flights s f = Some g" and "if_key g' = if_key g" and "if_entry g' = if_entry g"
  shows "books opts (set_flight f g' s)"
  using assms linked_set_flight [OF _ assms(2-4)] by (simp add: books_def no_idle_def set_flight_def)

lemmas books_phase = books_set_flight [where g' = "g\<lparr>if_phase := p\<rparr>" for g p, simplified]

text \<open>Changing an entry without its bytes.\<close>

lemma linked_same_bytes:
  assumes "linked s" and "c \<in> set (sf_entries s)" and "\<And>w. we_inFlights (h w) = we_inFlights w"
    and "map_option rv_bytes (we_retained (h (sf_heap s (snd c)))) = map_option rv_bytes (we_retained (sf_heap s (snd c)))"
  shows "linked (set_entry (snd c) h s)"
proof -
  have "(case we_retained (h (sf_heap s (snd c))) of None \<Rightarrow> 0 | Some r \<Rightarrow> int (rv_bytes r)) = entry_bytes s (snd c)"
    using assms(4) by (auto simp: entry_bytes_def split: option.splits)
  then have "linked (set_entry (snd c) h (s\<lparr>sf_retainedBytes := sf_retainedBytes s + 0\<rparr>))"
    by (intro linked_entry [OF assms(1-3)]) simp_all
  then show ?thesis by simp
qed

lemma books_same_bytes:
  assumes "books opts s" and "c \<in> set (sf_entries s)" and "\<And>w. we_inFlights (h w) = we_inFlights w"
    and "map_option rv_bytes (we_retained (h (sf_heap s (snd c)))) = map_option rv_bytes (we_retained (sf_heap s (snd c)))"
  shows "books opts (set_entry (snd c) h s)"
proof -
  have "we_retained (h (sf_heap s (snd c))) \<noteq> None \<longleftrightarrow> we_retained (sf_heap s (snd c)) \<noteq> None"
    using assms(4) by (metis option.map_disc_iff)
  then have "no_idle (set_entry (snd c) h s)" using booksD(2) [OF assms(1)] assms(3) by (auto simp: no_idle_def set_entry_def)
  moreover have "linked (set_entry (snd c) h s)" by (rule linked_same_bytes [OF booksD(1) [OF assms(1)] assms(2-4)])
  ultimately show ?thesis using booksD(3) [OF assms(1)] by (simp add: books_def set_entry_def)
qed

lemma release_bytes: "sf_retainedBytes (releaseRetained e s) \<le> sf_retainedBytes s"
  by (simp add: releaseRetained_def set_entry_def split: option.splits)

lemma books_release:
  assumes "books opts s" and "c \<in> set (sf_entries s)" and "we_inFlights (sf_heap s (snd c)) \<noteq> []"
  shows "books opts (releaseRetained (snd c) s)"
proof -
  have "no_idle (releaseRetained (snd c) s)"
    using booksD(2) [OF assms(1)] assms(3) by (auto simp: no_idle_def release_heap)
  then show ?thesis
    using linked_release [OF booksD(1) [OF assms(1)] assms(2)] booksD(3) [OF assms(1)] over_budget_mono [OF _ release_bytes]
    by (auto simp: books_def)
qed

lemma books_drop:
  assumes "linked s" and "c \<in> set (sf_entries s)" and "we_retained (sf_heap s (snd c)) = None"
    and "\<And>d. d \<in> set (sf_entries s) \<Longrightarrow> d \<noteq> c \<Longrightarrow> we_retained (sf_heap s (snd d)) \<noteq> None \<or> we_inFlights (sf_heap s (snd d)) \<noteq> []"
    and "\<not> over_budget (op_maxRetainedBytes opts) (sf_retainedBytes s)"
  shows "books opts (drop_idle (fst c) (snd c) s)"
proof -
  have "we_inFlights (sf_heap s (snd d)) \<noteq> [] \<or> we_retained (sf_heap s (snd d)) \<noteq> None"
    if "d \<in> set (sf_entries (drop_idle (fst c) (snd c) s))" for d
  proof (cases "d = c")
    case True
    then show ?thesis using that by (auto simp: drop_idle_def AList.delete_eq split: if_splits)
  next
    case False
    have "d \<in> set (sf_entries s)" using that by (auto simp: drop_idle_def AList.delete_eq split: if_splits)
    then show ?thesis using assms(4) False by blast
  qed
  then have "no_idle (drop_idle (fst c) (snd c) s)" by (auto simp: no_idle_def)
  then show ?thesis using linked_drop [OF assms(1-3)] assms(5) by (simp add: books_def)
qed

lemma invalidate_entry_books:
  assumes "books opts s" and "c \<in> set (sf_entries s)"
  shows "books opts (invalidate_entry c s)" and "\<And>d. d \<in> set (sf_entries s) \<Longrightarrow> d \<noteq> c \<Longrightarrow> d \<in> set (sf_entries (invalidate_entry c s))"
proof -
  let ?s = "set_entry (snd c) (\<lambda>w. w\<lparr>we_generation := Suc (we_generation w)\<rparr>) s"
  have s: "books opts ?s" by (rule books_same_bytes [OF assms]) simp_all
  have c: "c \<in> set (sf_entries ?s)" using assms(2) by (simp add: set_entry_def)
  note l = linked_release [OF booksD(1) [OF s] c]
  show "books opts (invalidate_entry c s)"
    unfolding invalidate_entry_def
  proof (rule books_drop [OF l])
    show "c \<in> set (sf_entries (releaseRetained (snd c) ?s))" using c by simp
    show "we_retained (sf_heap (releaseRetained (snd c) ?s) (snd c)) = None" by (simp add: release_heap)
    show "\<not> over_budget (op_maxRetainedBytes opts) (sf_retainedBytes (releaseRetained (snd c) ?s))"
      using booksD(3) [OF s] over_budget_mono [OF _ release_bytes] by blast
    fix d assume d: "d \<in> set (sf_entries (releaseRetained (snd c) ?s))" "d \<noteq> c"
    then have "snd d \<noteq> snd c" using entry_unique [OF booksD(1) [OF s] _ c, of d] by (simp only: release_same) blast
    then show "we_retained (sf_heap (releaseRetained (snd c) ?s) (snd d)) \<noteq> None \<or> we_inFlights (sf_heap (releaseRetained (snd c) ?s) (snd d)) \<noteq> []"
      using d booksD(2) [OF s] by (auto simp: release_heap no_idle_def)
  qed
  show "d \<in> set (sf_entries (invalidate_entry c s))" if "d \<in> set (sf_entries s)" "d \<noteq> c" for d
  proof -
    have "fst d \<noteq> fst c" using that assms(2) linkedD(1) [OF booksD(1) [OF assms(1)]] by (metis eq_key_imp_eq_value prod.collapse)
    then show ?thesis using that by (auto simp: invalidate_entry_def drop_idle_def set_entry_def AList.delete_eq)
  qed
qed

lemma clear_books: "books opts s \<Longrightarrow> books opts (clear s)"
proof -
  have "books opts (foldl (\<lambda>s c. invalidate_entry c s) s xs)" if "books opts s" "set xs \<subseteq> set (sf_entries s)" "distinct xs" for xs
    using that
  proof (induction xs arbitrary: s)
    case (Cons x xs)
    then have x: "x \<in> set (sf_entries s)" by simp
    have "y \<in> set (sf_entries (invalidate_entry x s))" if "y \<in> set xs" for y
      using invalidate_entry_books(2) [OF Cons.prems(1) x, of y] that Cons.prems(2,3) by auto
    then show ?case using Cons.IH [OF invalidate_entry_books(1) [OF Cons.prems(1) x]] Cons.prems(3) by (simp add: subsetI)
  qed simp
  then show "books opts s \<Longrightarrow> ?thesis" using linkedD(2) [OF booksD(1)] distinct_map unfolding clear_def by blast
qed

text \<open>The entry of a call.\<close>

lemma getOrCreate_spec:
  assumes "linked s" and "getOrCreateEntry key s = (e, s')"
  shows "linked s'" and "(key, e) \<in> set (sf_entries s')" and "sf_flights s' = sf_flights s" and "sf_answers s' = sf_answers s"
    and "sf_retainedBytes s' = sf_retainedBytes s" and "no_idle s \<Longrightarrow> no_idle s' \<or> we_retained (sf_heap s' e) = None"
    and "\<And>d. no_idle s \<Longrightarrow> d \<in> set (sf_entries s') \<Longrightarrow> d \<noteq> (key, e) \<Longrightarrow>
      we_retained (sf_heap s' (snd d)) \<noteq> None \<or> we_inFlights (sf_heap s' (snd d)) \<noteq> []"
proof -
  note l = linkedD [OF assms(1)]
  have "linked s' \<and> (key, e) \<in> set (sf_entries s') \<and> sf_flights s' = sf_flights s \<and> sf_answers s' = sf_answers s \<and>
    sf_retainedBytes s' = sf_retainedBytes s \<and> (no_idle s \<longrightarrow> no_idle s' \<or> we_retained (sf_heap s' e) = None) \<and>
    (\<forall>d \<in> set (sf_entries s'). no_idle s \<longrightarrow> d \<noteq> (key, e) \<longrightarrow>
      we_retained (sf_heap s' (snd d)) \<noteq> None \<or> we_inFlights (sf_heap s' (snd d)) \<noteq> [])"
  proof (cases "map_of (sf_entries s) key")
    case (Some e')
    then have "e' = e" "s' = s" using assms(2) by (simp_all add: getOrCreateEntry_def)
    then show ?thesis using Some map_of_SomeD assms(1) by (fastforce simp: no_idle_def)
  next
    case None
    then have e: "e = sf_nextEntry s" and s': "s' = s\<lparr>sf_entries := sf_entries s @ [(key, e)], sf_nextEntry := Suc e,
        sf_heap := (sf_heap s)(e := \<lparr>we_generation = 0, we_retained = None, we_inFlights = []\<rparr>)\<rparr>"
      using assms(2) by (auto simp: getOrCreateEntry_def Let_def)
    have key: "key \<notin> fst ` set (sf_entries s)" using None by (simp add: map_of_eq_None_iff)
    have e_new: "snd c \<noteq> e" if "c \<in> set (sf_entries s)" for c using l(3) [OF that] e by simp
    then have other: "sf_heap s' (snd c) = sf_heap s (snd c)" if "c \<in> set (sf_entries s)" for c using that by (simp add: s')
    have "map (\<lambda>c. entry_bytes s' (snd c)) (sf_entries s) = map (\<lambda>c. entry_bytes s (snd c)) (sf_entries s)"
      using other by (simp add: entry_bytes_def)
    moreover have "entry_bytes s' e = 0" by (simp add: entry_bytes_def s')
    ultimately have "sf_retainedBytes s' = (\<Sum>c \<leftarrow> sf_entries s'. entry_bytes s' (snd c))"
      using l(4) by (simp add: s' del: map_eq_conv)
    moreover have "distinct (map snd (sf_entries s'))" using l(2) e_new by (auto simp: s')
    moreover have "distinct (map fst (sf_entries s'))" using l(1) key by (simp add: s')
    moreover have "(if_key g, if_entry g) \<in> set (sf_entries s') \<and> f \<in> set (we_inFlights (sf_heap s' (if_entry g)))"
      if g: "sf_flights s' f = Some g" for f g
      using l(5,6) [of f g] other [of "(if_key g, if_entry g)"] g by (simp add: s')
    moreover have "\<exists>g. sf_flights s' f = Some g \<and> if_entry g = snd c"
      if "c \<in> set (sf_entries s')" "f \<in> set (we_inFlights (sf_heap s' (snd c)))" for c f
      using that l(7) [of c f] other [of c] by (auto simp: s')
    moreover have "snd c < sf_nextEntry s'" if "c \<in> set (sf_entries s')" for c using that l(3) [of c] e by (auto simp: s')
    ultimately have "linked s'" unfolding linked_def by blast
    moreover have "we_retained (sf_heap s' (snd d)) \<noteq> None \<or> we_inFlights (sf_heap s' (snd d)) \<noteq> []"
      if "no_idle s" "d \<in> set (sf_entries s')" "d \<noteq> (key, e)" for d
      using that other [of d] by (auto simp: s' no_idle_def)
    ultimately show ?thesis by (auto simp: s')
  qed
  then show "linked s'" "(key, e) \<in> set (sf_entries s')" "sf_flights s' = sf_flights s" "sf_answers s' = sf_answers s"
    "sf_retainedBytes s' = sf_retainedBytes s" "no_idle s \<Longrightarrow> no_idle s' \<or> we_retained (sf_heap s' e) = None"
    "\<And>d. no_idle s \<Longrightarrow> d \<in> set (sf_entries s') \<Longrightarrow> d \<noteq> (key, e) \<Longrightarrow>
      we_retained (sf_heap s' (snd d)) \<noteq> None \<or> we_inFlights (sf_heap s' (snd d)) \<noteq> []" by simp_all
qed

lemma run_books:
  assumes "books opts s" and "sf_flights s call = None"
  shows "books opts (run call key version s)"
proof -
  obtain e s1 where get: "getOrCreateEntry key s = (e, s1)" by fastforce
  note g = getOrCreate_spec [OF booksD(1) [OF assms(1)] get]
  have idle: "no_idle s" and budget: "\<not> over_budget (op_maxRetainedBytes opts) (sf_retainedBytes s1)"
    using booksD(2,3) [OF assms(1)] g(5) by simp_all
  have join: "books opts (join_or_start call key version e (we_generation (sf_heap s1 e)) s1)"
  proof (cases "find (same_work s1 version (we_generation (sf_heap s1 e))) (we_inFlights (sf_heap s1 e))")
    case (Some existing)
    then obtain i where i: "i < length (we_inFlights (sf_heap s1 e))" "existing = we_inFlights (sf_heap s1 e) ! i"
      unfolding find_Some_iff by blast
    then have "existing \<in> set (we_inFlights (sf_heap s1 e))" by simp
    then obtain fl where fl: "sf_flights s1 existing = Some fl" using linkedD(7) [OF g(1,2)] by fastforce
    have "we_retained (sf_heap s1 (snd d)) \<noteq> None \<or> we_inFlights (sf_heap s1 (snd d)) \<noteq> []" if "d \<in> set (sf_entries s1)" for d
      using g(7) [OF idle that] i by (cases "d = (key, e)") auto
    then have "books opts s1" using g(1) budget by (simp add: books_def no_idle_def)
    then have "books opts (s1\<lparr>sf_joinedCalls := Suc (sf_joinedCalls s1)\<rparr>)" by simp
    from books_set_flight [OF this, of existing fl "fl\<lparr>if_joined := if_joined fl @ [call]\<rparr>"]
    show ?thesis using Some fl by (simp add: join_or_start_def Let_def)
  next
    case None
    let ?fl = "\<lparr>if_key = key, if_entry = e, if_version = version, if_generation = we_generation (sf_heap s1 e),
      if_previous = accepted (sf_heap s1 e), if_phase = Computing, if_joined = []\<rparr>"
    let ?s = "set_entry e (\<lambda>w. w\<lparr>we_inFlights := we_inFlights w @ [call]\<rparr>) (set_flight call ?fl s1)"
    note l = linkedD [OF g(1)]
    have new: "sf_flights s1 call = None" using assms(2) g(3) by simp
    have "entry_bytes ?s = entry_bytes s1" by (simp add: fun_eq_iff entry_bytes_def set_entry_def set_flight_def)
    then have "sf_retainedBytes ?s = (\<Sum>c \<leftarrow> sf_entries ?s. entry_bytes ?s (snd c))" using l(4) by (simp add: set_entry_def set_flight_def)
    moreover have "(if_key h, if_entry h) \<in> set (sf_entries ?s) \<and> f \<in> set (we_inFlights (sf_heap ?s (if_entry h)))"
      if "sf_flights ?s f = Some h" for f h
      using that l(5,6) [of f h] g(2) by (auto simp: set_entry_def set_flight_def split: if_splits)
    moreover have "\<exists>h. sf_flights ?s f = Some h \<and> if_entry h = snd c"
      if c: "c \<in> set (sf_entries ?s)" "f \<in> set (we_inFlights (sf_heap ?s (snd c)))" for c f
    proof (cases "f = call")
      case True
      have "call \<notin> set (we_inFlights (sf_heap s1 (snd c)))" using l(7) [of c call] c(1) new by (auto simp: set_entry_def set_flight_def)
      then have "snd c = e" using c(2) True by (auto simp: set_entry_def set_flight_def split: if_splits)
      then show ?thesis using True by (simp add: set_entry_def set_flight_def)
    next
      case False
      then show ?thesis using l(7) [of c f] c by (auto simp: set_entry_def set_flight_def split: if_splits)
    qed
    ultimately have "linked ?s" using l(1-3) unfolding linked_def by (simp add: set_entry_def set_flight_def)
    moreover have "no_idle ?s"
      unfolding no_idle_def
    proof
      fix d assume d: "d \<in> set (sf_entries ?s)"
      show "we_retained (sf_heap ?s (snd d)) \<noteq> None \<or> we_inFlights (sf_heap ?s (snd d)) \<noteq> []"
      proof (cases "snd d = e")
        case False
        then have "d \<noteq> (key, e)" by auto
        then show ?thesis using g(7) [OF idle, of d] d False by (auto simp: set_entry_def set_flight_def)
      qed (simp add: set_entry_def set_flight_def)
    qed
    ultimately have "books opts ?s" using budget by (simp add: books_def set_entry_def set_flight_def)
    then have "books opts (?s\<lparr>sf_workStarts := Suc (sf_workStarts s1)\<rparr>)" by simp
    moreover have "join_or_start call key version e (we_generation (sf_heap s1 e)) s1 = ?s\<lparr>sf_workStarts := Suc (sf_workStarts s1)\<rparr>"
      using None by (simp add: join_or_start_def Let_def set_entry_def set_flight_def)
    ultimately show ?thesis by simp
  qed
  show ?thesis
  proof (cases "we_retained (sf_heap s1 e)")
    case None
    then show ?thesis using join by (simp add: run_def get Let_def)
  next
    case (Some r)
    then have s1: "books opts s1" using g(1,6) [OF ] idle budget by (auto simp: books_def)
    have "books opts (set_entry (snd (key, e)) (\<lambda>w. w\<lparr>we_retained := Some (r\<lparr>rv_lastAccess := n\<rparr>)\<rparr>)
        (s1\<lparr>sf_cacheHits := a, sf_accessSequence := n, sf_answers := as\<rparr>))" for n a as
      by (rule books_same_bytes) (use s1 g(2) Some in simp_all)
    then show ?thesis using join Some by (simp add: run_def get Let_def)
  qed
qed

lemma getAccepted_books:
  assumes "books opts s"
  shows "books opts (snd (getAccepted key s))"
proof (cases "Option.bind (map_of (sf_entries s) key) (\<lambda>e. map_option (Pair e) (we_retained (sf_heap s e)))")
  case (Some p)
  then obtain e r where er: "map_of (sf_entries s) key = Some e" "we_retained (sf_heap s e) = Some r" "p = (e, r)"
    by (auto simp: Option.bind_eq_Some_conv)
  have "books opts (set_entry (snd (key, e)) (\<lambda>w. w\<lparr>we_retained := Some (r\<lparr>rv_lastAccess := n\<rparr>)\<rparr>)
      (s\<lparr>sf_acceptedPeeks := a, sf_accessSequence := n\<rparr>))" for n a
    by (rule books_same_bytes) (use assms er map_of_SomeD [OF er(1)] in simp_all)
  then show ?thesis using Some er(3) by (simp add: getAccepted_def Let_def)
qed (use assms in \<open>simp add: getAccepted_def\<close>)

lemma finish_books:
  assumes "books opts s"
  shows "books opts (finish f s)"
proof (cases "\<exists>g r. sf_flights s f = Some g \<and> if_phase g = Settling r")
  case False
  then show ?thesis using assms by (auto simp: finish_def split: option.splits Phase.splits)
next
  case True
  then obtain g r where g: "sf_flights s f = Some g" "if_phase g = Settling r" by blast
  let ?e = "if_entry g"
  let ?c = "(if_key g, ?e)"
  let ?s = "set_entry ?e (\<lambda>w. w\<lparr>we_inFlights := filter (\<lambda>x. x \<noteq> f) (we_inFlights w)\<rparr>) (s\<lparr>sf_flights := (sf_flights s)(f := None)\<rparr>)"
  note l = linkedD [OF booksD(1) [OF assms]]
  have c: "?c \<in> set (sf_entries s)" using l(5) [OF g(1)] .
  have "entry_bytes ?s = entry_bytes s" by (simp add: fun_eq_iff entry_bytes_def set_entry_def)
  moreover have "(if_key h, if_entry h) \<in> set (sf_entries s) \<and> x \<in> set (we_inFlights (sf_heap ?s (if_entry h)))"
    if "sf_flights ?s x = Some h" for x h
    using that l(5,6) [of x h] by (auto simp: set_entry_def split: if_splits)
  moreover have "\<exists>h. sf_flights ?s x = Some h \<and> if_entry h = snd d"
    if d: "d \<in> set (sf_entries s)" "x \<in> set (we_inFlights (sf_heap ?s (snd d)))" for d x
  proof -
    have "x \<noteq> f" using d l(7) [OF d(1), of x] g(1) by (auto simp: set_entry_def split: if_splits)
    then show ?thesis using l(7) [OF d(1), of x] d(2) by (auto simp: set_entry_def split: if_splits)
  qed
  ultimately have linked: "linked ?s" using l(1-4) unfolding linked_def by (simp add: set_entry_def)
  have others: "we_retained (sf_heap ?s (snd d)) \<noteq> None \<or> we_inFlights (sf_heap ?s (snd d)) \<noteq> []"
    if "d \<in> set (sf_entries s)" "d \<noteq> ?c" for d
  proof -
    have "snd d \<noteq> ?e" using entry_unique [OF booksD(1) [OF assms] that(1) c] that(2) by auto
    then show ?thesis using booksD(2) [OF assms] that(1) by (auto simp: no_idle_def set_entry_def)
  qed
  have budget: "\<not> over_budget (op_maxRetainedBytes opts) (sf_retainedBytes ?s)" using booksD(3) [OF assms] by (simp add: set_entry_def)
  have "books opts (if we_retained (sf_heap ?s ?e) = None then drop_idle (if_key g) ?e ?s else ?s)"
  proof (cases "we_retained (sf_heap ?s ?e) = None")
    case True
    then show ?thesis using books_drop [OF linked, of ?c] c others budget by (simp add: set_entry_def)
  next
    case False
    have "no_idle ?s" unfolding no_idle_def using others False c by (fastforce simp: set_entry_def)
    then have "books opts ?s" using linked budget by (simp add: books_def)
    then show ?thesis unfolding if_not_P [OF False] .
  qed
  then have "books opts ((if we_retained (sf_heap ?s ?e) = None then drop_idle (if_key g) ?e ?s else ?s)\<lparr>sf_answers := as\<rparr>)" for as by simp
  moreover have "finish f s = (if we_retained (sf_heap ?s ?e) = None then drop_idle (if_key g) ?e ?s else ?s)
      \<lparr>sf_answers := sf_answers s @ (f, r) # map (\<lambda>c. (c, joined_result r)) (if_joined g)\<rparr>"
    using g by (cases s) (simp add: finish_def Let_def set_entry_def drop_idle_def)
  ultimately show ?thesis by simp
qed

lemma settle_books:
  assumes "books opts s" and "sf_flights s f = Some g"
  shows "books opts (settle_with f g r s)"
  unfolding settle_with_def by (rule books_set_flight [OF assms]) simp_all

lemma compute_done_books: "books opts s \<Longrightarrow> books opts (compute_done f result s)"
  by (auto simp: compute_done_def begin_check_def Let_def split: option.splits intro!: books_set_flight)

lemma current_answer_books: "books opts s \<Longrightarrow> books opts (current_answer f answer s)"
  by (auto simp: current_answer_def Let_def split: option.splits Phase.splits intro!: books_set_flight)

lemma set_entry_simps [simp]:
  "sf_entries (set_entry e h s) = sf_entries s" "sf_flights (set_entry e h s) = sf_flights s" "sf_answers (set_entry e h s) = sf_answers s"
  "sf_heap (set_entry e h s) e' = (if e' = e then h (sf_heap s e) else sf_heap s e')"
  "sf_retainedBytes (set_entry e h s) = sf_retainedBytes s" "sf_nextEntry (set_entry e h s) = sf_nextEntry s"
  by (simp_all add: set_entry_def)

lemma set_flight_simps [simp]:
  "sf_entries (set_flight f g s) = sf_entries s" "sf_flights (set_flight f g s) = (sf_flights s)(f \<mapsto> g)"
  "sf_answers (set_flight f g s) = sf_answers s" "sf_heap (set_flight f g s) = sf_heap s"
  by (simp_all add: set_flight_def)

lemma settle_simps [simp]:
  "sf_entries (settle_with f g r s) = sf_entries s" "sf_answers (settle_with f g r s) = sf_answers s" "sf_heap (settle_with f g r s) = sf_heap s"
  "sf_flights (settle_with f g r s) = (sf_flights s)(f \<mapsto> g\<lparr>if_phase := Settling r\<rparr>)"
  by (simp_all add: settle_with_def)

definition retained_state :: "('k, 'v) InFlight \<Rightarrow> 'v \<Rightarrow> nat \<Rightarrow> ('k, 'v) SingleFlight \<Rightarrow> ('k, 'v) SingleFlight" where
  "retained_state g value bytes s =
     set_entry (if_entry g) (\<lambda>w. w\<lparr>we_retained := Some \<lparr>rv_version = if_version g, rv_value = value, rv_bytes = bytes,
         rv_lastAccess = Suc (sf_accessSequence s)\<rparr>\<rparr>)
       (s\<lparr>sf_accessSequence := Suc (sf_accessSequence s)\<rparr>)\<lparr>sf_retainedBytes := sf_retainedBytes s + int bytes\<rparr>"

lemma retained_state_ok:
  assumes "books opts s" and "sf_flights s f = Some g" and "we_retained (sf_heap s (if_entry g)) = None"
  shows "linked (retained_state g value bytes s)" and "no_idle (retained_state g value bytes s)"
    and "\<exists>kept. retain opts f g value bytes s = settle_with f g (Resolved (Completed StComputed (if_version g) value kept))
      (trimToBudget (op_maxRetainedBytes opts) (retained_state g value bytes s))"
proof -
  let ?c = "(if_key g, if_entry g)"
  let ?h = "\<lambda>w. w\<lparr>we_retained := Some \<lparr>rv_version = if_version g, rv_value = value, rv_bytes = bytes,
    rv_lastAccess = Suc (sf_accessSequence s)\<rparr>\<rparr>"
  have c: "?c \<in> set (sf_entries s)" by (rule linkedD(5) [OF booksD(1) [OF assms(1)] assms(2)])
  have "linked (set_entry (snd ?c) ?h (s\<lparr>sf_retainedBytes := sf_retainedBytes s + int bytes\<rparr>))"
    by (rule linked_entry [OF booksD(1) [OF assms(1)] c]) (use assms(3) in \<open>simp_all add: entry_bytes_def\<close>)
  then have "linked (set_entry (snd ?c) ?h (s\<lparr>sf_retainedBytes := sf_retainedBytes s + int bytes\<rparr>)
      \<lparr>sf_accessSequence := Suc (sf_accessSequence s)\<rparr>)" by simp
  then show "linked (retained_state g value bytes s)" by (cases s) (simp add: retained_state_def set_entry_def)
  show "no_idle (retained_state g value bytes s)"
    using booksD(2) [OF assms(1)] by (auto simp: no_idle_def retained_state_def)
  show "\<exists>kept. retain opts f g value bytes s = settle_with f g (Resolved (Completed StComputed (if_version g) value kept))
      (trimToBudget (op_maxRetainedBytes opts) (retained_state g value bytes s))"
    by (rule exI) (simp add: retain_def retained_state_def Let_def)
qed

lemma retain_books:
  assumes "books opts s" and "sf_flights s f = Some g" and "we_retained (sf_heap s (if_entry g)) = None"
  shows "books opts (retain opts f g value bytes s)"
proof -
  let ?t = "trimToBudget (op_maxRetainedBytes opts) (retained_state g value bytes s)"
  have "books opts ?t" "sf_flights ?t f = Some g"
    using trim_spec [OF retained_state_ok(1) [OF assms], of "op_maxRetainedBytes opts"] retained_state_ok(2) [OF assms] assms(2)
    by (simp_all add: books_def retained_state_def set_entry_def)
  then show ?thesis using retained_state_ok(3) [OF assms] settle_books by metis
qed

lemma continue_books:
  assumes "books opts s"
  shows "books opts (continue opts f s)"
proof (cases "\<exists>g result stale. sf_flights s f = Some g \<and> if_phase g = Judged result stale")
  case False
  then show ?thesis using assms by (auto simp: continue_def split: option.splits Phase.splits)
next
  case True
  then obtain g result stale where g: "sf_flights s f = Some g" "if_phase g = Judged result stale" by blast
  note l = linkedD [OF booksD(1) [OF assms]]
  have rel: "books opts (releaseRetained (if_entry g) s)"
    using books_release [OF assms l(5) [OF g(1)]] l(6) [OF g(1)] by (metis empty_iff list.set(1) snd_conv)
  have set: "books opts (settle_with f g r t)" if "books opts t" "sf_flights t = sf_flights s" for r t
    using settle_books [OF that(1)] that(2) g(1) by simp
  have val: "books opts (continue_value opts f g v st s)" for v st
    using assms rel retain_books [OF rel] g(1)
    by (auto simp: continue_value_def Let_def release_heap split: option.splits intro!: set)
  show ?thesis
    using g val set [OF assms] set [of "s\<lparr>sf_staleCompletions := Suc (sf_staleCompletions s)\<rparr>"] assms
    by (cases result) (auto simp: continue_def)
qed

definition fresh_call :: "('k, 'v) SingleFlight \<Rightarrow> ('k, 'v) Operation \<Rightarrow> bool" where
  "fresh_call s x = (case x of Run call _ _ \<Rightarrow> sf_flights s call = None | _ \<Rightarrow> True)"

lemma step_books: "books opts s \<Longrightarrow> fresh_call s x \<Longrightarrow> books opts (flight_step opts s x)"
proof (cases x)
  case (Invalidate key)
  then show "books opts s \<Longrightarrow> ?thesis"
    by (auto simp: invalidate_def split: option.splits intro: invalidate_entry_books dest: map_of_SomeD)
qed (simp_all add: fresh_call_def run_books compute_done_books current_answer_books continue_books finish_books getAccepted_books clear_books)

lemma books_new: "books opts newSingleFlight"
  by (simp add: books_def linked_def no_idle_def newSingleFlight_def over_budget_def split: option.splits)

interpretation flight_books: invariant_machine "flight_step opts" fresh_call newSingleFlight "books opts" for opts
  by unfold_locales (simp_all add: books_new step_books)

section \<open>What one operation changes\<close>

definition invalidates :: "'k \<Rightarrow> ('k, 'v) Operation \<Rightarrow> bool" where
  "invalidates key x = (case x of Invalidate k \<Rightarrow> k = key | Clear \<Rightarrow> True | _ \<Rightarrow> False)"

text \<open>Between the operations on one flight that its continuations make, only its phase changes.\<close>

lemma retain_spec:
  assumes "books opts s" and "sf_flights s f = Some g" and "we_retained (sf_heap s (if_entry g)) = None"
  shows "\<exists>kept. sf_flights (retain opts f g value bytes s) = (sf_flights s)(f \<mapsto>
      g\<lparr>if_phase := Settling (Resolved (Completed StComputed (if_version g) value kept))\<rparr>)"
    and "sf_answers (retain opts f g value bytes s) = sf_answers s"
    and "set (sf_entries (retain opts f g value bytes s)) \<subseteq> set (sf_entries s)"
    and "we_generation (sf_heap (retain opts f g value bytes s) e) = we_generation (sf_heap s e)"
    and "we_retained (sf_heap (retain opts f g value bytes s) e) = Some r \<Longrightarrow>
      we_retained (sf_heap s e) = Some r \<or> e = if_entry g \<and> rv_version r = if_version g \<and> rv_value r = value"
proof -
  let ?t = "trimToBudget (op_maxRetainedBytes opts) (retained_state g value bytes s)"
  have t: "sf_flights ?t = sf_flights s" "sf_answers ?t = sf_answers s" "set (sf_entries ?t) \<subseteq> set (sf_entries s)"
    "we_generation (sf_heap ?t e) = we_generation (sf_heap s e)"
    "we_retained (sf_heap ?t e) = Some r \<Longrightarrow>
       we_retained (sf_heap s e) = Some r \<or> e = if_entry g \<and> rv_version r = if_version g \<and> rv_value r = value" for e r
  proof -
    have "linked (retained_state g value bytes s)" by (rule retained_state_ok(1) [OF assms])
    note t = trim_spec [OF this, of "op_maxRetainedBytes opts"]
    show "sf_flights ?t = sf_flights s" "sf_answers ?t = sf_answers s" "set (sf_entries ?t) \<subseteq> set (sf_entries s)"
      "we_generation (sf_heap ?t e) = we_generation (sf_heap s e)" using t by (auto simp: retained_state_def)
    have "we_retained (sf_heap ?t e) \<in> {None, we_retained (sf_heap (retained_state g value bytes s) e)}" using t by blast
    then show "we_retained (sf_heap ?t e) = Some r \<Longrightarrow>
       we_retained (sf_heap s e) = Some r \<or> e = if_entry g \<and> rv_version r = if_version g \<and> rv_value r = value"
      by (auto simp: retained_state_def split: if_splits)
  qed
  obtain kept where eq: "retain opts f g value bytes s =
      settle_with f g (Resolved (Completed StComputed (if_version g) value kept)) ?t" using retained_state_ok(3) [OF assms] by blast
  show "\<exists>kept. sf_flights (retain opts f g value bytes s) = (sf_flights s)(f \<mapsto>
      g\<lparr>if_phase := Settling (Resolved (Completed StComputed (if_version g) value kept))\<rparr>)" unfolding eq using t(1) by auto
  show "sf_answers (retain opts f g value bytes s) = sf_answers s" "set (sf_entries (retain opts f g value bytes s)) \<subseteq> set (sf_entries s)"
    "we_generation (sf_heap (retain opts f g value bytes s) e) = we_generation (sf_heap s e)" unfolding eq using t(2-4) by simp_all
  show "we_retained (sf_heap (retain opts f g value bytes s) e) = Some r \<Longrightarrow>
      we_retained (sf_heap s e) = Some r \<or> e = if_entry g \<and> rv_version r = if_version g \<and> rv_value r = value"
    unfolding eq using t(5) by simp
qed

text \<open>A flight's promise is fulfilled with the value it computed, for the version it was started with.\<close>

definition fair_result :: "('k, 'v) InFlight \<Rightarrow> 'v option \<Rightarrow> 'v Settled \<Rightarrow> bool" where
  "fair_result g result r \<longleftrightarrow>
     (\<forall>st version v kept. r = Resolved (Completed st version v kept) \<longrightarrow> version = if_version g \<and> result = Some v)"

text \<open>The continuation settles its flight, and retains a value only on a verdict that it is not stale.\<close>

lemma continue_spec:
  assumes "books opts s" and "sf_flights s f = Some g" and "if_phase g = Judged result stale"
  shows "\<exists>r. sf_flights (continue opts f s) = (sf_flights s)(f \<mapsto> g\<lparr>if_phase := Settling r\<rparr>) \<and> fair_result g result r"
    and "sf_answers (continue opts f s) = sf_answers s" and "set (sf_entries (continue opts f s)) \<subseteq> set (sf_entries s)"
    and "we_generation (sf_heap (continue opts f s) e) = we_generation (sf_heap s e)"
    and "we_retained (sf_heap (continue opts f s) e) = Some r \<Longrightarrow> we_retained (sf_heap s e) = Some r \<or>
      e = if_entry g \<and> \<not> stale \<and> rv_version r = if_version g \<and> result = Some (rv_value r)"
proof -
  have rel: "books opts (releaseRetained (if_entry g) s)"
    using books_release [OF assms(1) linkedD(5) [OF booksD(1) [OF assms(1)] assms(2)]] linkedD(6) [OF booksD(1) [OF assms(1)] assms(2)]
    by (metis empty_iff list.set(1) snd_conv)
  have "we_retained (sf_heap (releaseRetained (if_entry g) s) (if_entry g)) = None" by (simp add: release_heap)
  note ret = retain_spec [OF rel _ this, of f, simplified, OF assms(2)]
  note defs = continue_def continue_value_def Let_def staleResult_def
  let ?r = "case if_phase (the (sf_flights (continue opts f s) f)) of Settling r \<Rightarrow> r | _ \<Rightarrow> Rejected"
  have "sf_flights (continue opts f s) = (sf_flights s)(f \<mapsto> g\<lparr>if_phase := Settling ?r\<rparr>) \<and> fair_result g result ?r"
  proof (cases result)
    case None
    then show ?thesis using assms(2,3) by (simp add: defs fair_result_def)
  next
    case (Some v)
    show ?thesis
    proof (cases "\<not> stale \<and> op_shouldRetain opts v \<and> op_measureValue opts v \<noteq> None")
      case True
      then obtain bytes where "op_measureValue opts v = Some bytes" by blast
      with True Some have "continue opts f s = retain opts f g v bytes (releaseRetained (if_entry g) s)" using assms(2,3) by (simp add: defs)
      then show ?thesis using ret(1) [of v bytes] Some by (auto simp: fair_result_def)
    next
      case False
      then show ?thesis using Some assms(2,3)
        by (cases stale; cases "op_shouldRetain opts v"; cases "op_acceptUnretainedWhenStale opts") (simp_all add: defs fair_result_def)
    qed
  qed
  then show "\<exists>r. sf_flights (continue opts f s) = (sf_flights s)(f \<mapsto> g\<lparr>if_phase := Settling r\<rparr>) \<and> fair_result g result r" by blast
  show "sf_answers (continue opts f s) = sf_answers s" "set (sf_entries (continue opts f s)) \<subseteq> set (sf_entries s)"
    "we_generation (sf_heap (continue opts f s) e) = we_generation (sf_heap s e)"
    using assms(2,3) ret(2,3,4) by (simp_all add: defs release_heap split: option.splits)
  show "we_retained (sf_heap s e) = Some r \<or> e = if_entry g \<and> \<not> stale \<and> rv_version r = if_version g \<and> result = Some (rv_value r)"
    if "we_retained (sf_heap (continue opts f s) e) = Some r"
  proof -
    have "we_retained (sf_heap s e) = Some r \<or> e = if_entry g \<and> rv_version r = if_version g \<and> rv_value r = v"
      if "we_retained (sf_heap (retain opts f g v bytes (releaseRetained (if_entry g) s)) e) = Some r" for v bytes
      using ret(5) [OF that] by (auto simp: release_heap split: if_splits)
    then show ?thesis using that assms(2,3) by (auto simp: defs release_heap split: option.splits if_splits)
  qed
qed

text \<open>What any operation does to the flights.\<close>

lemma join_or_start_flights:
  "sf_flights (join_or_start call key version e gen s) f = Some g' \<Longrightarrow> sf_flights s call = None \<Longrightarrow>
     (\<exists>g. sf_flights s f = Some g \<and> (g' = g \<or> g' = g\<lparr>if_joined := if_joined g @ [call]\<rparr> \<and> if_version g = version \<and> if_generation g = gen \<and>
        f \<in> set (we_inFlights (sf_heap s e)))) \<or>
     f = call \<and> if_key g' = key \<and> if_entry g' = e \<and> if_version g' = version \<and> if_generation g' = gen \<and>
       if_phase g' = Computing \<and> if_joined g' = [] \<and> (\<forall>x \<in> set (we_inFlights (sf_heap s e)). \<not> same_work s version gen x)"
  by (auto simp: join_or_start_def Let_def same_work_def find_None_iff find_Some_iff split: option.splits if_splits)

lemma run_cases:
  obtains (hit) e s1 r where "getOrCreateEntry key s = (e, s1)" "we_retained (sf_heap s1 e) = Some r" "rv_version r = version"
      "run call key version s = set_entry e (\<lambda>w. w\<lparr>we_retained := Some (r\<lparr>rv_lastAccess := Suc (sf_accessSequence s1)\<rparr>)\<rparr>)
        (s1\<lparr>sf_cacheHits := Suc (sf_cacheHits s1), sf_accessSequence := Suc (sf_accessSequence s1),
          sf_answers := sf_answers s1 @ [(call, Resolved (Completed StHit version (rv_value r) True))]\<rparr>)"
  | (work) e s1 where "getOrCreateEntry key s = (e, s1)" "run call key version s = join_or_start call key version e (we_generation (sf_heap s1 e)) s1"
proof -
  obtain e s1 where get: "getOrCreateEntry key s = (e, s1)" by fastforce
  show thesis
  proof (cases "\<exists>r. we_retained (sf_heap s1 e) = Some r \<and> rv_version r = version")
    case True
    then show ?thesis using hit [OF get] by (auto simp: run_def get Let_def)
  next
    case False
    then show ?thesis using work [OF get] by (auto simp: run_def get Let_def split: option.splits)
  qed
qed

lemma getOrCreate_heap:
  assumes "linked s" and "getOrCreateEntry key s = (e, s1)"
  shows "c \<in> set (sf_entries s) \<Longrightarrow> sf_heap s1 (snd c) = sf_heap s (snd c)" and "set (sf_entries s1) = insert (key, e) (set (sf_entries s))"
    and "(key, e) \<notin> set (sf_entries s) \<Longrightarrow> we_retained (sf_heap s1 e) = None \<and> we_inFlights (sf_heap s1 e) = []"
proof -
  show "sf_heap s1 (snd c) = sf_heap s (snd c)" if "c \<in> set (sf_entries s)"
    using assms(2) linkedD(3) [OF assms(1) that] by (auto simp: getOrCreateEntry_def Let_def split: option.splits)
  show "set (sf_entries s1) = insert (key, e) (set (sf_entries s))"
    "(key, e) \<notin> set (sf_entries s) \<Longrightarrow> we_retained (sf_heap s1 e) = None \<and> we_inFlights (sf_heap s1 e) = []"
    using assms(2) by (auto simp: getOrCreateEntry_def Let_def split: option.splits dest: map_of_SomeD)
qed

text \<open>The phases of flight \<open>f\<close>; \<open>valid\<close> is that its entry has not been invalidated.\<close>

inductive phase_step :: "('k, 'v) Operation \<Rightarrow> nat \<Rightarrow> bool \<Rightarrow> ('k, 'v) InFlight \<Rightarrow> 'v Phase \<Rightarrow> bool" where
  asks: "if_phase g = Computing \<Longrightarrow> phase_step (Compute f result) f valid g (Asking result)"
| outdated: "if_phase g = Computing \<Longrightarrow> phase_step (Compute f result) f valid g (Judged result True)"
| current: "if_phase g = Asking result \<Longrightarrow> valid \<Longrightarrow> phase_step (CurrentAnswer f (Some True)) f valid g (Judged result False)"
| stale: "if_phase g = Asking result \<Longrightarrow> phase_step (CurrentAnswer f answer) f valid g (Judged result True)"
| rejects: "if_phase g = Asking result \<Longrightarrow> phase_step (CurrentAnswer f None) f valid g (Settling Rejected)"
| settles: "if_phase g = Judged result st \<Longrightarrow> fair_result g result r \<Longrightarrow> phase_step (Continue f) f valid g (Settling r)"

inductive_cases phase_stepE: "phase_step x f valid g p"

lemma phase_verdict: "if_phase g = Asking result \<Longrightarrow> phase_step (CurrentAnswer f (Some b)) f valid g (Judged result (b \<longrightarrow> \<not> valid))"
  by (cases b; cases valid) (auto intro: phase_step.intros)

lemma invalidate_entry_simps [simp]:
  "sf_flights (invalidate_entry c s) = sf_flights s" "sf_answers (invalidate_entry c s) = sf_answers s"
  "we_generation (sf_heap (invalidate_entry c s) e) = (if e = snd c then Suc (we_generation (sf_heap s e)) else we_generation (sf_heap s e))"
  "we_retained (sf_heap (invalidate_entry c s) e) = (if e = snd c then None else we_retained (sf_heap s e))"
  by (auto simp: invalidate_entry_def release_heap)

lemma invalidate_entries: "set (sf_entries (invalidate_entry c s)) \<subseteq> set (sf_entries s)"
  by (auto simp: invalidate_entry_def drop_idle_def AList.delete_eq)

lemma clear_spec:
  assumes "distinct (map snd (sf_entries s))"
  shows "sf_flights (clear s) = sf_flights s" and "sf_answers (clear s) = sf_answers s" and "set (sf_entries (clear s)) \<subseteq> set (sf_entries s)"
    and "we_generation (sf_heap (clear s) e) = (if e \<in> snd ` set (sf_entries s) then Suc (we_generation (sf_heap s e)) else we_generation (sf_heap s e))"
    and "we_retained (sf_heap (clear s) e) = (if e \<in> snd ` set (sf_entries s) then None else we_retained (sf_heap s e))"
proof -
  have "sf_flights (foldl (\<lambda>s c. invalidate_entry c s) s xs) = sf_flights s \<and> sf_answers (foldl (\<lambda>s c. invalidate_entry c s) s xs) = sf_answers s \<and>
      set (sf_entries (foldl (\<lambda>s c. invalidate_entry c s) s xs)) \<subseteq> set (sf_entries s) \<and>
      we_generation (sf_heap (foldl (\<lambda>s c. invalidate_entry c s) s xs) e) =
        (if e \<in> snd ` set xs then Suc (we_generation (sf_heap s e)) else we_generation (sf_heap s e)) \<and>
      we_retained (sf_heap (foldl (\<lambda>s c. invalidate_entry c s) s xs) e) = (if e \<in> snd ` set xs then None else we_retained (sf_heap s e))"
    if "distinct (map snd xs)" for xs
    using that
  proof (induction xs arbitrary: s)
    case (Cons x xs)
    then show ?case using invalidate_entries [of x s] by auto
  qed simp
  from this [OF assms] show "sf_flights (clear s) = sf_flights s" "sf_answers (clear s) = sf_answers s" "set (sf_entries (clear s)) \<subseteq> set (sf_entries s)"
    "we_generation (sf_heap (clear s) e) = (if e \<in> snd ` set (sf_entries s) then Suc (we_generation (sf_heap s e)) else we_generation (sf_heap s e))"
    "we_retained (sf_heap (clear s) e) = (if e \<in> snd ` set (sf_entries s) then None else we_retained (sf_heap s e))"
    unfolding clear_def by blast+
qed

lemma finish_spec:
  "sf_flights (finish f s) f' = Some g \<Longrightarrow> sf_flights s f' = Some g"
  "we_generation (sf_heap (finish f s) e) = we_generation (sf_heap s e)" "we_retained (sf_heap (finish f s) e) = we_retained (sf_heap s e)"
  "set (sf_entries (finish f s)) \<subseteq> set (sf_entries s)"
  by (auto simp: finish_def Let_def drop_idle_def AList.delete_eq split: option.splits Phase.splits if_splits)

lemma step_flights:
  assumes "books opts s" and "fresh_call s x" and "sf_flights (flight_step opts s x) f = Some g'"
  shows "(\<exists>g. sf_flights s f = Some g \<and>
      (g' = g \<or> (\<exists>c. x = Run c (if_key g) (if_version g) \<and> g' = g\<lparr>if_joined := if_joined g @ [c]\<rparr>) \<or>
       (\<exists>p. g' = g\<lparr>if_phase := p\<rparr> \<and> phase_step x f (we_generation (sf_heap s (if_entry g)) = if_generation g) g p))) \<or>
    x = Run f (if_key g') (if_version g') \<and> sf_flights s f = None \<and> if_phase g' = Computing \<and> if_joined g' = [] \<and>
      if_generation g' = we_generation (sf_heap (flight_step opts s x) (if_entry g'))"
proof (cases x)
  case (Run call key version)
  have new: "sf_flights s call = None" using assms(2) Run by (simp add: fresh_call_def)
  show ?thesis
  proof (cases rule: run_cases [of key s version call])
    case (hit e s1 r)
    then show ?thesis using assms(3) Run getOrCreate_spec(3) [OF booksD(1) [OF assms(1)] hit(1)] by simp
  next
    case (work e s1)
    note g = getOrCreate_spec [OF booksD(1) [OF assms(1)] work(1)]
    have "sf_flights (join_or_start call key version e (we_generation (sf_heap s1 e)) s1) f = Some g'" "sf_flights s1 call = None"
      using assms(3) Run work(2) new g(3) by simp_all
    from join_or_start_flights [OF this] consider
        (old) "sf_flights s1 f = Some g'"
      | (joined) h where "sf_flights s1 f = Some h" "g' = h\<lparr>if_joined := if_joined h @ [call]\<rparr>" "if_version h = version"
          "f \<in> set (we_inFlights (sf_heap s1 e))"
      | (started) "f = call" "if_key g' = key" "if_entry g' = e" "if_version g' = version" "if_generation g' = we_generation (sf_heap s1 e)"
          "if_phase g' = Computing" "if_joined g' = []" by blast
    then show ?thesis
    proof cases
      case joined
      have "if_entry h = e" using linkedD(7) [OF g(1,2), of f] joined(1,4) by simp
      then have "if_key h = key" using entry_unique [OF g(1) linkedD(5) [OF g(1) joined(1)] g(2)] by simp
      then show ?thesis using joined Run g(3) by auto
    next
      case started
      have "we_generation (sf_heap (run call key version s) e) = we_generation (sf_heap s1 e)"
        unfolding work(2) by (auto simp: join_or_start_def Let_def split: option.splits)
      then show ?thesis using started Run new by simp
    qed (use g(3) in simp)
  qed
next
  case (Compute c result)
  then show ?thesis using assms(3)
    by (auto simp: compute_done_def begin_check_def Let_def split: option.splits if_splits intro: phase_step.intros)
next
  case (CurrentAnswer c answer)
  show ?thesis
  proof (cases "\<exists>h result. sf_flights s c = Some h \<and> if_phase h = Asking result")
    case True
    then obtain h result where h: "sf_flights s c = Some h" "if_phase h = Asking result" by blast
    let ?p = "case answer of None \<Rightarrow> Settling Rejected
      | Some b \<Rightarrow> Judged result (b \<longrightarrow> we_generation (sf_heap s (if_entry h)) \<noteq> if_generation h)"
    have "phase_step x c (we_generation (sf_heap s (if_entry h)) = if_generation h) h ?p"
      unfolding CurrentAnswer using h(2) by (cases answer) (simp_all add: phase_verdict rejects)
    moreover have "sf_flights (current_answer c answer s) = (sf_flights s)(c \<mapsto> h\<lparr>if_phase := ?p\<rparr>)"
      using h by (simp add: current_answer_def Let_def split: option.splits)
    ultimately show ?thesis using assms(3) CurrentAnswer h(1) by (cases "f = c") auto
  next
    case False
    then show ?thesis using assms(3) CurrentAnswer by (auto simp: current_answer_def split: option.splits Phase.splits)
  qed
next
  case (Continue c)
  show ?thesis
  proof (cases "\<exists>h result st. sf_flights s c = Some h \<and> if_phase h = Judged result st")
    case True
    then obtain h result st where h: "sf_flights s c = Some h" "if_phase h = Judged result st" by blast
    from continue_spec(1) [OF assms(1) this] obtain r where
      "sf_flights (continue opts c s) = (sf_flights s)(c \<mapsto> h\<lparr>if_phase := Settling r\<rparr>)" "fair_result h result r" by blast
    then show ?thesis using assms(3) Continue h by (auto split: if_splits intro: phase_step.intros)
  next
    case False
    then show ?thesis using assms(3) Continue by (auto simp: continue_def split: option.splits Phase.splits)
  qed
next
  case (Finish c)
  then show ?thesis using assms(3) finish_spec(1) [of c s f g'] by simp
next
  case (GetAccepted key)
  then show ?thesis using assms(3) by (auto simp: getAccepted_def Let_def split: option.splits)
next
  case (Invalidate key)
  then show ?thesis using assms(3) by (auto simp: invalidate_def split: option.splits)
next
  case Clear
  then show ?thesis using assms(3) clear_spec(1) [OF linkedD(2) [OF booksD(1) [OF assms(1)]]] by simp
qed

text \<open>What any operation does to an entry that is in the map after it.\<close>

lemma phase_only [simp]:
  "sf_heap (compute_done f result s) = sf_heap s" "sf_entries (compute_done f result s) = sf_entries s"
  "sf_heap (current_answer f answer s) = sf_heap s" "sf_entries (current_answer f answer s) = sf_entries s"
  "sf_answers (compute_done f result s) = sf_answers s" "sf_answers (current_answer f answer s) = sf_answers s"
  by (auto simp: compute_done_def begin_check_def current_answer_def Let_def split: option.splits Phase.splits)

lemma join_or_start_simps [simp]:
  "sf_entries (join_or_start call key version e gen s) = sf_entries s" "sf_answers (join_or_start call key version e gen s) = sf_answers s"
  "we_generation (sf_heap (join_or_start call key version e gen s) e') = we_generation (sf_heap s e')"
  "we_retained (sf_heap (join_or_start call key version e gen s) e') = we_retained (sf_heap s e')"
  by (auto simp: join_or_start_def Let_def split: option.splits)

lemma getAccepted_simps:
  "sf_entries (snd (getAccepted key s)) = sf_entries s" "sf_answers (snd (getAccepted key s)) = sf_answers s"
  "we_generation (sf_heap (snd (getAccepted key s)) e) = we_generation (sf_heap s e)"
  "we_retained (sf_heap (snd (getAccepted key s)) e) = Some r' \<Longrightarrow>
     \<exists>r. we_retained (sf_heap s e) = Some r \<and> rv_version r' = rv_version r \<and> rv_value r' = rv_value r"
  by (auto simp: getAccepted_def Let_def Option.bind_eq_Some_conv split: option.splits if_splits)

lemma map_of_entry: "linked s \<Longrightarrow> (k, e) \<in> set (sf_entries s) \<Longrightarrow> map_of (sf_entries s) k = Some e"
  by (simp add: linkedD(1))

lemma step_generation:
  assumes "books opts s" and "(k, e) \<in> set (sf_entries s)"
  shows "we_generation (sf_heap (flight_step opts s x) e) = (if invalidates k x then Suc (we_generation (sf_heap s e)) else we_generation (sf_heap s e))"
proof (cases x)
  case (Run call key version)
  have "we_generation (sf_heap (run call key version s) e) = we_generation (sf_heap s e)"
  proof (cases rule: run_cases [of key s version call])
    case (hit e' s1 r)
    then show ?thesis using getOrCreate_heap(1) [OF booksD(1) [OF assms(1)] hit(1) assms(2)] by auto
  next
    case (work e' s1)
    then show ?thesis using getOrCreate_heap(1) [OF booksD(1) [OF assms(1)] work(1) assms(2)] by simp
  qed
  then show ?thesis using Run by (simp add: invalidates_def)
next
  case (Continue c)
  have "we_generation (sf_heap (continue opts c s) e) = we_generation (sf_heap s e)"
  proof (cases "\<exists>h result st. sf_flights s c = Some h \<and> if_phase h = Judged result st")
    case True
    then show ?thesis using continue_spec(4) [OF assms(1)] by blast
  qed (auto simp: continue_def split: option.splits Phase.splits)
  then show ?thesis using Continue by (simp add: invalidates_def)
next
  case (Invalidate key)
  show ?thesis
  proof (cases "key = k")
    case True
    then show ?thesis using Invalidate map_of_entry [OF booksD(1) [OF assms(1)] assms(2)] by (simp add: invalidates_def invalidate_def)
  next
    case False
    have "e' \<noteq> e" if "map_of (sf_entries s) key = Some e'" for e'
      using entry_unique [OF booksD(1) [OF assms(1)] map_of_SomeD [OF that] assms(2)] False by auto
    then show ?thesis using Invalidate False by (auto simp: invalidates_def invalidate_def split: option.splits)
  qed
next
  case Clear
  have "e \<in> snd ` set (sf_entries s)" using assms(2) by force
  then show ?thesis using Clear clear_spec(4) [OF linkedD(2) [OF booksD(1) [OF assms(1)]]] by (simp add: invalidates_def)
qed (simp_all add: invalidates_def finish_spec getAccepted_simps)

lemma step_retained:
  assumes "books opts s" and "(k, e) \<in> set (sf_entries (flight_step opts s x))"
    and "we_retained (sf_heap (flight_step opts s x) e) = Some r'"
  shows "(\<exists>r. (k, e) \<in> set (sf_entries s) \<and> we_retained (sf_heap s e) = Some r \<and> rv_version r' = rv_version r \<and> rv_value r' = rv_value r \<and>
      \<not> invalidates k x) \<or>
    (\<exists>f g. x = Continue f \<and> sf_flights s f = Some g \<and> if_key g = k \<and> if_phase g = Judged (Some (rv_value r')) False \<and>
      rv_version r' = if_version g)"
proof (cases x)
  case (Run call key version)
  have "(k, e) \<in> set (sf_entries s) \<and> (\<exists>r. we_retained (sf_heap s e) = Some r \<and> rv_version r' = rv_version r \<and> rv_value r' = rv_value r)"
  proof (cases rule: run_cases [of key s version call])
    case (hit e' s1 r)
    note h = getOrCreate_heap [OF booksD(1) [OF assms(1)] hit(1)]
    have "(k, e) \<in> set (sf_entries s1)" using assms(2) Run hit(4) by simp
    moreover have "(key, e') \<in> set (sf_entries s)" using h(3) hit(2) by fastforce
    ultimately have k: "(k, e) \<in> set (sf_entries s)" using h(2) by auto
    then show ?thesis using assms(3) Run hit(2,4) h(1) [OF k] by (auto split: if_splits)
  next
    case (work e' s1)
    note h = getOrCreate_heap [OF booksD(1) [OF assms(1)] work(1)]
    have ret: "we_retained (sf_heap s1 e) = Some r'" and ent: "(k, e) \<in> set (sf_entries s1)"
      using assms(2,3) Run work(2) by simp_all
    then have k: "(k, e) \<in> set (sf_entries s)" using h(2,3) by (cases "(k, e) = (key, e')") auto
    then show ?thesis using ret h(1) [OF k] by simp
  qed
  then show ?thesis using Run by (auto simp: invalidates_def)
next
  case (Continue c)
  show ?thesis
  proof (cases "\<exists>h result st. sf_flights s c = Some h \<and> if_phase h = Judged result st")
    case True
    then obtain h result st where h: "sf_flights s c = Some h" "if_phase h = Judged result st" by blast
    note spec = continue_spec [OF assms(1) h]
    have k: "(k, e) \<in> set (sf_entries s)" using assms(2) Continue spec(3) by auto
    consider "we_retained (sf_heap s e) = Some r'" | "e = if_entry h" "\<not> st" "rv_version r' = if_version h" "result = Some (rv_value r')"
      using spec(5) [of e r'] assms(3) Continue by auto
    then show ?thesis
    proof cases
      case 2
      then have "if_key h = k" using entry_unique [OF booksD(1) [OF assms(1)] linkedD(5) [OF booksD(1) [OF assms(1)] h(1)] k] by simp
      with 2 h Continue show ?thesis by auto
    qed (use k Continue in \<open>auto simp: invalidates_def\<close>)
  next
    case False
    then show ?thesis using assms(2,3) Continue by (auto simp: continue_def invalidates_def split: option.splits Phase.splits)
  qed
next
  case (Finish c)
  then have "(k, e) \<in> set (sf_entries s)" "we_retained (sf_heap s e) = Some r'"
    using assms(2,3) finish_spec(3) [of c s e] finish_spec(4) [of c s] by auto
  then show ?thesis using Finish by (simp add: invalidates_def)
next
  case (Invalidate key)
  show ?thesis
  proof (cases "map_of (sf_entries s) key")
    case (Some e')
    then have k: "(k, e) \<in> set (sf_entries s)" using assms(2) Invalidate Some invalidate_entries [of "(key, e')" s]
      by (auto simp: invalidate_def)
    have "e \<noteq> e'" and ret: "we_retained (sf_heap s e) = Some r'" using assms(3) Invalidate Some by (auto simp: invalidate_def split: if_splits)
    then have "key \<noteq> k" using Some map_of_entry [OF booksD(1) [OF assms(1)] k] by auto
    then show ?thesis using k ret Invalidate by (auto simp: invalidates_def)
  next
    case None
    then have "key \<noteq> k" using assms(2) Invalidate map_of_entry [OF booksD(1) [OF assms(1)], of k e] by (auto simp: invalidate_def)
    then show ?thesis using assms(2,3) Invalidate None by (auto simp: invalidate_def invalidates_def)
  qed
next
  case Clear
  note c = clear_spec [OF linkedD(2) [OF booksD(1) [OF assms(1)]]]
  have "e \<in> snd ` set (sf_entries s)" using assms(2) Clear c(3) by force
  then show ?thesis using assms(3) Clear c(5) by simp
next
  case (GetAccepted key)
  then show ?thesis using assms(2,3) getAccepted_simps(1,4) [of key s] by (auto simp: invalidates_def)
qed (use assms in \<open>simp_all add: invalidates_def\<close>)

section \<open>Every call is answered once\<close>

definition run_calls :: "('k, 'v) Operation list \<Rightarrow> nat list" where
  "run_calls xs = concat (map (\<lambda>x. case x of Run call _ _ \<Rightarrow> [call] | _ \<Rightarrow> []) xs)"

definition history :: "'v FlightOptions \<Rightarrow> ('k, 'v) Operation list \<Rightarrow> ('k, 'v) SingleFlight" where
  "history opts xs = foldl (flight_step opts) newSingleFlight xs"

text \<open>The calls whose promise depends on a flight: the one that started it and those that joined it.\<close>

definition callers :: "('k, 'v) SingleFlight \<Rightarrow> nat \<Rightarrow> nat list" where
  "callers s f = (case sf_flights s f of None \<Rightarrow> [] | Some g \<Rightarrow> f # if_joined g)"

definition placed :: "nat list \<Rightarrow> ('k, 'v) SingleFlight \<Rightarrow> bool" where
  "placed calls s \<longleftrightarrow>
     distinct (map fst (sf_answers s)) \<and> (\<forall>f. distinct (callers s f)) \<and>
     (\<forall>f f'. f \<noteq> f' \<longrightarrow> set (callers s f) \<inter> set (callers s f') = {}) \<and>
     (\<forall>f. set (callers s f) \<inter> fst ` set (sf_answers s) = {}) \<and>
     set calls = fst ` set (sf_answers s) \<union> (\<Union>f. set (callers s f))"

lemma placedD:
  assumes "placed calls s"
  shows "distinct (map fst (sf_answers s))" and "\<And>f. distinct (callers s f)"
    and "\<And>f f' c. c \<in> set (callers s f) \<Longrightarrow> c \<in> set (callers s f') \<Longrightarrow> f = f'"
    and "\<And>f c. c \<in> set (callers s f) \<Longrightarrow> c \<notin> fst ` set (sf_answers s)"
    and "set calls = fst ` set (sf_answers s) \<union> (\<Union>f. set (callers s f))"
proof -
  have apart: "\<forall>f f'. f \<noteq> f' \<longrightarrow> set (callers s f) \<inter> set (callers s f') = {}"
    and open_calls: "\<forall>f. set (callers s f) \<inter> fst ` set (sf_answers s) = {}" using assms by (simp_all add: placed_def)
  show "distinct (map fst (sf_answers s))" "\<And>f. distinct (callers s f)"
    "set calls = fst ` set (sf_answers s) \<union> (\<Union>f. set (callers s f))" using assms by (simp_all add: placed_def)
  show "f = f'" if "c \<in> set (callers s f)" "c \<in> set (callers s f')" for f f' c using apart that by (metis disjoint_iff)
  show "c \<notin> fst ` set (sf_answers s)" if "c \<in> set (callers s f)" for f c using open_calls that by (metis disjoint_iff)
qed

lemma placed_same:
  assumes "placed calls s" and "callers t = callers s" and "sf_answers t = sf_answers s"
  shows "placed calls t"
  using assms by (simp add: placed_def)

lemma placed_answer:
  assumes "placed calls s" and "call \<notin> set calls" and "callers t = callers s" and "sf_answers t = sf_answers s @ [(call, a)]"
  shows "placed (call # calls) t"
  using assms placedD(5) [OF assms(1)] by (auto simp: placed_def)

lemma placed_caller:
  assumes "placed calls s" and "call \<notin> set calls" and "callers t = (callers s)(f := callers s f @ [call])" and "sf_answers t = sf_answers s"
  shows "placed (call # calls) t"
proof -
  note p = placedD [OF assms(1)]
  have new: "call \<notin> set (callers s f')" "call \<notin> fst ` set (sf_answers s)" for f' using p(5) assms(2) by auto
  have "set (callers t f) \<inter> set (callers t f') = {}" if "f \<noteq> f'" for f f'
    using p(3) [of _ f f'] that new unfolding assms(3) by (auto split: if_splits)
  moreover have "distinct (callers t f')" for f' using p(2) new unfolding assms(3) by simp
  moreover have "set (callers t f') \<inter> fst ` set (sf_answers s) = {}" for f' using p(4) new unfolding assms(3) by auto
  moreover have "set (call # calls) = fst ` set (sf_answers s) \<union> (\<Union>f. set (callers t f))" using p(5) unfolding assms(3) by (auto split: if_splits)
  ultimately show ?thesis using p(1) assms(4) by (simp add: placed_def)
qed

lemma placed_finish:
  assumes "placed calls s" and "callers t = (callers s)(f := [])" and "map fst (sf_answers t) = map fst (sf_answers s) @ callers s f"
  shows "placed calls t"
proof -
  note p = placedD [OF assms(1)]
  have answers: "fst ` set (sf_answers t) = fst ` set (sf_answers s) \<union> set (callers s f)"
    using arg_cong [OF assms(3), of set] by simp
  have "distinct (map fst (sf_answers t))" unfolding assms(3) using p(1,2) p(4) [of _ f] by auto
  moreover have "set (callers t f') \<inter> fst ` set (sf_answers t) = {}" for f'
    unfolding answers assms(2) using p(4) [of _ f'] p(3) [of _ f' f] by (auto split: if_splits)
  moreover have "set (callers t f1) \<inter> set (callers t f2) = {}" if "f1 \<noteq> f2" for f1 f2
    using p(3) [of _ f1 f2] that unfolding assms(2) by (auto split: if_splits)
  moreover have "distinct (callers t f')" for f' using p(2) unfolding assms(2) by simp
  moreover have "set calls = fst ` set (sf_answers t) \<union> (\<Union>f. set (callers t f))"
    unfolding answers p(5) assms(2) by (auto split: if_splits)
  ultimately show ?thesis by (simp add: placed_def)
qed

lemma callers_set_flight: "callers (set_flight f g s) = (callers s)(f := f # if_joined g)"
  by (auto simp: callers_def)

lemma callers_phase: "sf_flights t = (sf_flights s)(f \<mapsto> g\<lparr>if_phase := p\<rparr>) \<Longrightarrow> sf_flights s f = Some g \<Longrightarrow> callers t = callers s"
  by (auto simp: callers_def)

lemma placed_step:
  assumes "books opts s" and "placed calls s" and "\<And>call k v. x = Run call k v \<Longrightarrow> call \<notin> set calls"
  shows "fresh_call s x" and "placed (run_calls [x] @ calls) (flight_step opts s x)"
proof -
  have unused: "sf_flights s call = None" if "call \<notin> set calls" for call
  proof (rule ccontr)
    assume "sf_flights s call \<noteq> None"
    then have "call \<in> set (callers s call)" by (auto simp: callers_def)
    then show False using placedD(5) [OF assms(2)] that by auto
  qed
  show "fresh_call s x" using unused assms(3) by (auto simp: fresh_call_def split: Operation.splits)
  show "placed (run_calls [x] @ calls) (flight_step opts s x)"
  proof (cases x)
    case (Run call key version)
    then have new: "call \<notin> set calls" using assms(3) by blast
    have "placed (call # calls) (run call key version s)"
    proof (cases rule: run_cases [of key s version call])
      case (hit e s1 r)
      note g = getOrCreate_spec(3,4) [OF booksD(1) [OF assms(1)] hit(1)]
      show ?thesis by (rule placed_answer [OF assms(2) new]) (use hit(4) g in \<open>simp_all add: callers_def fun_eq_iff\<close>)
    next
      case (work e s1)
      note g = getOrCreate_spec [OF booksD(1) [OF assms(1)] work(1)]
      show ?thesis
      proof (cases "find (same_work s1 version (we_generation (sf_heap s1 e))) (we_inFlights (sf_heap s1 e))")
        case (Some existing)
        then have "same_work s1 version (we_generation (sf_heap s1 e)) existing" by (auto simp: find_Some_iff)
        then obtain h where h: "sf_flights s1 existing = Some h" by (auto simp: same_work_def split: option.splits)
        show ?thesis
          by (rule placed_caller [OF assms(2) new, of _ existing])
            (use work(2) Some h g(3,4) in \<open>simp_all add: join_or_start_def callers_def fun_eq_iff\<close>)
      next
        case None
        show ?thesis
          by (rule placed_caller [OF assms(2) new, of _ call])
            (use work(2) None g(3,4) unused [OF new] in \<open>simp_all add: join_or_start_def callers_def fun_eq_iff\<close>)
      qed
    qed
    then show ?thesis using Run by (simp add: run_calls_def)
  next
    case (Finish f)
    show ?thesis
    proof (cases "\<exists>g r. sf_flights s f = Some g \<and> if_phase g = Settling r")
      case True
      then obtain g r where g: "sf_flights s f = Some g" "if_phase g = Settling r" by blast
      then have "callers (finish f s) = (callers s)(f := [])" "map fst (sf_answers (finish f s)) = map fst (sf_answers s) @ callers s f"
        by (auto simp: finish_def Let_def callers_def fun_eq_iff comp_def)
      then show ?thesis using placed_finish [OF assms(2)] Finish by (simp add: run_calls_def)
    next
      case False
      then have "finish f s = s" by (auto simp: finish_def split: option.splits Phase.splits)
      then show ?thesis using assms(2) Finish by (simp add: run_calls_def)
    qed
  next
    case (Compute f result)
    have "callers (compute_done f result s) = callers s"
      by (auto simp: compute_done_def begin_check_def Let_def callers_def fun_eq_iff split: option.splits)
    then have "placed calls (compute_done f result s)" by (rule placed_same [OF assms(2)]) simp
    then show ?thesis using Compute by (simp add: run_calls_def)
  next
    case (CurrentAnswer f answer)
    have "callers (current_answer f answer s) = callers s"
      by (auto simp: current_answer_def Let_def callers_def fun_eq_iff split: option.splits Phase.splits)
    then have "placed calls (current_answer f answer s)" by (rule placed_same [OF assms(2)]) simp
    then show ?thesis using CurrentAnswer by (simp add: run_calls_def)
  next
    case (Continue f)
    show ?thesis
    proof (cases "\<exists>h result st. sf_flights s f = Some h \<and> if_phase h = Judged result st")
      case True
      then obtain h result st where h: "sf_flights s f = Some h" "if_phase h = Judged result st" by blast
      have "callers (continue opts f s) = callers s" using continue_spec(1) [OF assms(1) h] callers_phase h(1) by blast
      then show ?thesis using placed_same [OF assms(2)] continue_spec(2) [OF assms(1) h] Continue by (simp add: run_calls_def)
    next
      case False
      then have "continue opts f s = s" by (auto simp: continue_def split: option.splits Phase.splits)
      then show ?thesis using assms(2) Continue by (simp add: run_calls_def)
    qed
  next
    case (GetAccepted key)
    have "callers (snd (getAccepted key s)) = callers s" by (auto simp: getAccepted_def Let_def callers_def split: option.splits)
    then have "placed calls (snd (getAccepted key s))" by (rule placed_same [OF assms(2)]) (simp add: getAccepted_simps)
    then show ?thesis using GetAccepted by (simp add: run_calls_def)
  next
    case (Invalidate key)
    have "callers (invalidate key s) = callers s" "sf_answers (invalidate key s) = sf_answers s"
      by (auto simp: invalidate_def callers_def split: option.splits)
    then have "placed calls (invalidate key s)" by (rule placed_same [OF assms(2)])
    then show ?thesis using Invalidate by (simp add: run_calls_def)
  next
    case Clear
    have "placed calls (clear s)"
      by (rule placed_same [OF assms(2)]) (use clear_spec(1,2) [OF linkedD(2) [OF booksD(1) [OF assms(1)]]] in \<open>simp_all add: callers_def fun_eq_iff\<close>)
    with Clear show ?thesis by (simp add: run_calls_def)
  qed
qed

lemma permitted_extend: "permitted step ok s (xs @ [x]) \<longleftrightarrow> permitted step ok s xs \<and> ok (foldl step s xs) x"
  by (induction xs arbitrary: s) auto

lemma history_placed:
  assumes "distinct (run_calls xs)"
  shows "books opts (history opts xs) \<and> placed (run_calls xs) (history opts xs) \<and> permitted (flight_step opts) fresh_call newSingleFlight xs"
  using assms
proof (induction xs rule: rev_induct)
  case Nil
  have "placed [] newSingleFlight" by (simp add: placed_def callers_def newSingleFlight_def)
  then show ?case by (simp add: history_def books_new run_calls_def)
next
  case (snoc x xs)
  then have ih: "books opts (history opts xs)" "placed (run_calls xs) (history opts xs)" "permitted (flight_step opts) fresh_call newSingleFlight xs"
    and new: "\<And>call k v. x = Run call k v \<Longrightarrow> call \<notin> set (run_calls xs)"
    by (auto simp: run_calls_def)
  note p = placed_step [OF ih(1,2) new]
  have "history opts (xs @ [x]) = flight_step opts (history opts xs) x" by (simp add: history_def)
  moreover have "placed (run_calls (xs @ [x])) (flight_step opts (history opts xs) x)"
    using p(2) by (simp add: placed_def run_calls_def Un_commute)
  moreover have "permitted (flight_step opts) fresh_call newSingleFlight (xs @ [x])"
    using ih(3) p(1) by (simp add: permitted_extend history_def)
  ultimately show ?case using step_books [OF ih(1) p(1)] by simp
qed

section \<open>Where values come from\<close>

definition undisturbed :: "'k \<Rightarrow> ('k, 'v) Operation list \<Rightarrow> bool" where
  "undisturbed key xs = list_all (\<lambda>x. \<not> invalidates key x) xs"

text \<open>What the operations since the start of flight \<open>f\<close> must have been for it to be in a phase.\<close>

fun phase_history :: "nat \<Rightarrow> 'k \<Rightarrow> string \<Rightarrow> ('k, 'v) Operation list \<Rightarrow> 'v Phase \<Rightarrow> bool" where
  "phase_history f key version xs (Asking (Some v)) = (Compute f (Some v) \<in> set xs)"
| "phase_history f key version xs (Judged (Some v) True) = (Compute f (Some v) \<in> set xs)"
| "phase_history f key version xs (Judged (Some v) False) =
     (\<exists>as bs. xs = as @ CurrentAnswer f (Some True) # bs \<and> Compute f (Some v) \<in> set as \<and> undisturbed key as)"
| "phase_history f key version xs (Settling (Resolved (Completed st version' v kept))) =
     (version' = version \<and> Compute f (Some v) \<in> set xs)"
| "phase_history f key version xs p = True"

definition flight_history :: "('k, 'v) Operation list \<Rightarrow> ('k, 'v) SingleFlight \<Rightarrow> nat \<Rightarrow> ('k, 'v) InFlight \<Rightarrow> bool" where
  "flight_history xs s f g \<longleftrightarrow>
     if_generation g \<le> we_generation (sf_heap s (if_entry g)) \<and>
     (\<exists>as bs. xs = as @ Run f (if_key g) (if_version g) # bs \<and>
        (we_generation (sf_heap s (if_entry g)) = if_generation g \<longrightarrow> undisturbed (if_key g) bs) \<and>
        phase_history f (if_key g) (if_version g) bs (if_phase g)) \<and>
     (\<forall>c \<in> set (if_joined g). Run c (if_key g) (if_version g) \<in> set xs)"

lemma phase_history_mono: "phase_history f key version xs p \<Longrightarrow> phase_history f key version (xs @ ys) p"
proof (induction f key version xs p rule: phase_history.induct)
  case (3 f key version xs v)
  then obtain as bs where "xs = as @ CurrentAnswer f (Some True) # bs" "Compute f (Some v) \<in> set as" "undisturbed key as" by auto
  then have "xs @ ys = as @ CurrentAnswer f (Some True) # (bs @ ys)" by simp
  then show ?case using \<open>Compute f (Some v) \<in> set as\<close> \<open>undisturbed key as\<close> unfolding phase_history.simps by blast
qed auto

lemma phase_history_step:
  assumes "phase_history f (if_key g) (if_version g) xs (if_phase g)" and "phase_step x f valid g p" and "valid \<Longrightarrow> undisturbed (if_key g) xs"
  shows "phase_history f (if_key g) (if_version g) (xs @ [x]) p"
  using assms(2)
proof cases
  case (asks result)
  then show ?thesis by (cases result) auto
next
  case (outdated result)
  then show ?thesis by (cases result) auto
next
  case (current result)
  have split: "xs @ [x] = xs @ CurrentAnswer f (Some True) # []" using current(1) by simp
  show ?thesis
  proof (cases result)
    case (Some v)
    then have "Compute f (Some v) \<in> set xs" using assms(1) current(3) by simp
    then show ?thesis using assms(3) current(4) split unfolding current(2) Some phase_history.simps by blast
  qed (use current(2) in simp)
next
  case (stale result answer)
  then show ?thesis using assms(1) by (cases result) auto
next
  case (settles result st r)
  show ?thesis
  proof (cases "\<exists>s' version v kept. r = Resolved (Completed s' version v kept)")
    case True
    then obtain s' version v kept where r: "r = Resolved (Completed s' version v kept)" by blast
    then have v: "version = if_version g" "result = Some v" using settles(4) by (simp_all add: fair_result_def)
    have "Compute f (Some v) \<in> set xs" using assms(1) settles(3) v(2) by (cases st) auto
    then show ?thesis using v(1) settles(2) r by simp
  next
    case False
    then consider "r = Rejected" | a b where "r = Resolved (Stale a b)" by (metis Settled.exhaust WorkResult.exhaust)
    then show ?thesis using settles(2) by cases simp_all
  qed
qed simp_all

lemma flight_history_step:
  assumes "books opts s" and "fresh_call s x" and "\<And>f g. sf_flights s f = Some g \<Longrightarrow> flight_history xs s f g"
    and "sf_flights (flight_step opts s x) f = Some g'"
  shows "flight_history (xs @ [x]) (flight_step opts s x) f g'"
  using step_flights [OF assms(1,2,4)]
proof (elim disjE exE conjE)
  let ?s = "flight_step opts s x"
  have keep: "if_generation g \<le> we_generation (sf_heap ?s (if_entry g)) \<and>
      (\<exists>as bs. xs @ [x] = as @ Run f (if_key g) (if_version g) # bs @ [x] \<and>
        (we_generation (sf_heap ?s (if_entry g)) = if_generation g \<longrightarrow> undisturbed (if_key g) (bs @ [x])) \<and>
        (we_generation (sf_heap s (if_entry g)) = if_generation g \<longrightarrow> undisturbed (if_key g) bs) \<and>
        phase_history f (if_key g) (if_version g) bs (if_phase g)) \<and>
      (\<forall>c \<in> set (if_joined g). Run c (if_key g) (if_version g) \<in> set xs)" if g: "sf_flights s f = Some g" for g
  proof -
    have h: "flight_history xs s f g" by (rule assms(3) [OF g])
    have gen: "we_generation (sf_heap ?s (if_entry g)) =
        (if invalidates (if_key g) x then Suc (we_generation (sf_heap s (if_entry g))) else we_generation (sf_heap s (if_entry g)))"
      by (rule step_generation [OF assms(1) linkedD(5) [OF booksD(1) [OF assms(1)] g]])
    from h obtain as bs where "xs = as @ Run f (if_key g) (if_version g) # bs"
      "we_generation (sf_heap s (if_entry g)) = if_generation g \<longrightarrow> undisturbed (if_key g) bs"
      "phase_history f (if_key g) (if_version g) bs (if_phase g)" unfolding flight_history_def by blast
    moreover have "if_generation g \<le> we_generation (sf_heap s (if_entry g))" using h by (simp add: flight_history_def)
    moreover have "\<forall>c \<in> set (if_joined g). Run c (if_key g) (if_version g) \<in> set xs" using h by (simp add: flight_history_def)
    ultimately show ?thesis unfolding gen by (auto simp: undisturbed_def)
  qed
  {
    fix g assume g: "sf_flights s f = Some g" "g' = g"
    then show ?thesis using keep [OF g(1)] phase_history_mono unfolding flight_history_def g(2) by fastforce
  next
    fix g c assume g: "sf_flights s f = Some g" "x = Run c (if_key g) (if_version g)" "g' = g\<lparr>if_joined := if_joined g @ [c]\<rparr>"
    then show ?thesis using keep [OF g(1)] phase_history_mono unfolding flight_history_def g(3) by fastforce
  next
    fix g p assume g: "sf_flights s f = Some g" "g' = g\<lparr>if_phase := p\<rparr>"
      and p: "phase_step x f (we_generation (sf_heap s (if_entry g)) = if_generation g) g p"
    from keep [OF g(1)] obtain as bs where "if_generation g \<le> we_generation (sf_heap ?s (if_entry g))"
      "xs @ [x] = as @ Run f (if_key g) (if_version g) # bs @ [x]"
      "we_generation (sf_heap ?s (if_entry g)) = if_generation g \<longrightarrow> undisturbed (if_key g) (bs @ [x])"
      "we_generation (sf_heap s (if_entry g)) = if_generation g \<longrightarrow> undisturbed (if_key g) bs"
      "phase_history f (if_key g) (if_version g) bs (if_phase g)"
      "\<forall>c \<in> set (if_joined g). Run c (if_key g) (if_version g) \<in> set xs" by blast
    moreover from this have "phase_history f (if_key g) (if_version g) (bs @ [x]) p" using phase_history_step [OF _ p] by blast
    ultimately show ?thesis unfolding flight_history_def g(2) by auto
  next
    assume x: "x = Run f (if_key g') (if_version g')" "if_phase g' = Computing" "if_joined g' = []"
      "if_generation g' = we_generation (sf_heap ?s (if_entry g'))"
    then show ?thesis by (simp add: flight_history_def undisturbed_def exI [of _ xs] exI [of _ "[]"])
  }
qed

text \<open>
  A value is published by a flight for its key and version that computed it, found its source current
  while the key had not been invalidated since its start, and continued; after that the key has not
  been invalidated either. Between the verdict and the continuation (\<open>ds\<close>) nothing is promised.
\<close>

definition published :: "('k, 'v) Operation list \<Rightarrow> 'k \<Rightarrow> string \<Rightarrow> 'v \<Rightarrow> bool" where
  "published xs key version v \<longleftrightarrow>
     (\<exists>f as bs ds es. xs = as @ Run f key version # bs @ CurrentAnswer f (Some True) # ds @ Continue f # es \<and>
        Compute f (Some v) \<in> set bs \<and> undisturbed key bs \<and> undisturbed key es)"

definition traced :: "('k, 'v) Operation list \<Rightarrow> ('k, 'v) SingleFlight \<Rightarrow> bool" where
  "traced xs s \<longleftrightarrow>
     (\<forall>f g. sf_flights s f = Some g \<longrightarrow> flight_history xs s f g) \<and>
     (\<forall>(k, e) \<in> set (sf_entries s). \<forall>r. we_retained (sf_heap s e) = Some r \<longrightarrow> published xs k (rv_version r) (rv_value r)) \<and>
     (\<forall>c st version v kept. (c, Resolved (Completed st version v kept)) \<in> set (sf_answers s) \<longrightarrow>
        (\<exists>key f. Run c key version \<in> set xs \<and> Run f key version \<in> set xs \<and> Compute f (Some v) \<in> set xs))"

lemma published_later: "published xs k version v \<Longrightarrow> \<not> invalidates k x \<Longrightarrow> published (xs @ [x]) k version v"
proof -
  assume "published xs k version v" "\<not> invalidates k x"
  then obtain f as bs ds es where "xs = as @ Run f k version # bs @ CurrentAnswer f (Some True) # ds @ Continue f # es"
    "Compute f (Some v) \<in> set bs" "undisturbed k bs" "undisturbed k (es @ [x])" by (auto simp: published_def undisturbed_def)
  moreover from this have "xs @ [x] = as @ Run f k version # bs @ CurrentAnswer f (Some True) # ds @ Continue f # (es @ [x])" by simp
  ultimately show ?thesis unfolding published_def by blast
qed

lemma retained_traced:
  assumes "books opts s" and "traced xs s" and "(k, e) \<in> set (sf_entries (flight_step opts s x))"
    and "we_retained (sf_heap (flight_step opts s x) e) = Some r'"
  shows "published (xs @ [x]) k (rv_version r') (rv_value r')"
  using step_retained [OF assms(1,3,4)]
proof (elim disjE exE conjE)
  fix r assume "(k, e) \<in> set (sf_entries s)" "we_retained (sf_heap s e) = Some r" "rv_version r' = rv_version r" "rv_value r' = rv_value r"
    "\<not> invalidates k x"
  then show ?thesis using assms(2) published_later by (fastforce simp: traced_def)
next
  fix f g assume g: "x = Continue f" "sf_flights s f = Some g" "if_key g = k" "if_phase g = Judged (Some (rv_value r')) False"
    "rv_version r' = if_version g"
  then have "flight_history xs s f g" using assms(2) by (simp add: traced_def)
  then obtain as bs where "xs = as @ Run f k (if_version g) # bs" "phase_history f k (if_version g) bs (if_phase g)"
    using g(3) unfolding flight_history_def by blast
  then obtain as bs ds where "xs = as @ Run f k (if_version g) # bs @ CurrentAnswer f (Some True) # ds"
    "Compute f (Some (rv_value r')) \<in> set bs" "undisturbed k bs" using g(4) by auto
  then have "xs @ [x] = as @ Run f k (if_version g) # bs @ CurrentAnswer f (Some True) # ds @ Continue f # []" using g(1) by simp
  moreover have "undisturbed k []" by (simp add: undisturbed_def)
  ultimately show ?thesis
    using \<open>Compute f (Some (rv_value r')) \<in> set bs\<close> \<open>undisturbed k bs\<close> unfolding published_def g(5) by blast
qed

lemma traced_answer:
  assumes "traced xs s" and "(c, Resolved (Completed st version v kept)) \<in> set (sf_answers s)"
  obtains key f where "Run c key version \<in> set xs" "Run f key version \<in> set xs" "Compute f (Some v) \<in> set xs"
proof -
  have "\<forall>c st version v kept. (c, Resolved (Completed st version v kept)) \<in> set (sf_answers s) \<longrightarrow>
      (\<exists>key f. Run c key version \<in> set xs \<and> Run f key version \<in> set xs \<and> Compute f (Some v) \<in> set xs)"
    using assms(1) unfolding traced_def by (elim conjE)
  then have "\<exists>key f. Run c key version \<in> set xs \<and> Run f key version \<in> set xs \<and> Compute f (Some v) \<in> set xs"
    using assms(2) by blast
  then show thesis using that by blast
qed

lemma answers_traced:
  assumes "books opts s" and "fresh_call s x" and "traced xs s"
    and "(c, Resolved (Completed st version v kept)) \<in> set (sf_answers (flight_step opts s x))"
  shows "\<exists>key f. Run c key version \<in> set (xs @ [x]) \<and> Run f key version \<in> set (xs @ [x]) \<and> Compute f (Some v) \<in> set (xs @ [x])"
proof (cases "(c, Resolved (Completed st version v kept)) \<in> set (sf_answers s)")
  case True
  from traced_answer [OF assms(3) this] show ?thesis by (metis Un_iff set_append)
next
  case False
  show ?thesis
  proof (cases x)
    case (Run call key w)
    show ?thesis
    proof (cases rule: run_cases [of key s w call])
      case (hit e s1 r)
      note h = getOrCreate_heap [OF booksD(1) [OF assms(1)] hit(1)] and g = getOrCreate_spec(4) [OF booksD(1) [OF assms(1)] hit(1)]
      have new: "c = call" "version = w" "v = rv_value r" using assms(4) False Run hit(4) g by auto
      have k: "(key, e) \<in> set (sf_entries s)" using h(3) hit(2) by fastforce
      then have "published xs key (rv_version r) (rv_value r)" using assms(3) hit(2) h(1) [OF k] by (fastforce simp: traced_def)
      then obtain f where "Run f key w \<in> set xs" "Compute f (Some (rv_value r)) \<in> set xs" unfolding published_def hit(3) by fastforce
      then show ?thesis using new Run by auto
    next
      case (work e s1)
      then show ?thesis using assms(4) False Run getOrCreate_spec(4) [OF booksD(1) [OF assms(1)] work(1)] by simp
    qed
  next
    case (Finish f)
    then obtain g r where g: "sf_flights s f = Some g" "if_phase g = Settling r"
      and a: "(c, Resolved (Completed st version v kept)) \<in> set ((f, r) # map (\<lambda>c. (c, joined_result r)) (if_joined g))"
      using assms(4) False by (auto simp: finish_def Let_def split: option.splits Phase.splits if_splits)
    then obtain st' where r: "r = Resolved (Completed st' version v kept)"
      by (auto simp: joined_result_def split: Settled.splits WorkResult.splits WorkStatus.splits)
    have c: "c = f \<or> c \<in> set (if_joined g)" using a by auto
    have "flight_history xs s f g" using assms(3) g(1) by (simp add: traced_def)
    then show ?thesis using c g(2) r unfolding flight_history_def by fastforce
  next
    case (Continue f)
    show ?thesis
    proof (cases "\<exists>h result st. sf_flights s f = Some h \<and> if_phase h = Judged result st")
      case True
      then show ?thesis using assms(4) False Continue continue_spec(2) [OF assms(1)] by auto
    next
      case False': False
      then have "continue opts f s = s" by (auto simp: continue_def split: option.splits Phase.splits)
      then show ?thesis using assms(4) False Continue by simp
    qed
  next
    case (Invalidate key)
    then show ?thesis using assms(4) False by (auto simp: invalidate_def split: option.splits)
  next
    case Clear
    then show ?thesis using assms(4) False clear_spec(2) [OF linkedD(2) [OF booksD(1) [OF assms(1)]]] by simp
  qed (use assms(4) False in \<open>simp_all add: getAccepted_simps\<close>)
qed

lemma history_traced:
  assumes "distinct (run_calls xs)"
  shows "traced xs (history opts xs)"
  using assms
proof (induction xs rule: rev_induct)
  case Nil
  show ?case by (simp add: history_def traced_def newSingleFlight_def)
next
  case (snoc x xs)
  then have d: "distinct (run_calls xs)" by (simp add: run_calls_def)
  have p: "books opts (history opts xs)" "fresh_call (history opts xs) x"
    using history_placed [OF d] history_placed [OF snoc.prems] by (simp_all add: permitted_extend history_def)
  have t: "traced xs (history opts xs)" by (rule snoc.IH [OF d])
  have "history opts (xs @ [x]) = flight_step opts (history opts xs) x" by (simp add: history_def)
  moreover have "flight_history (xs @ [x]) (flight_step opts (history opts xs) x) f g"
    if "sf_flights (flight_step opts (history opts xs) x) f = Some g" for f g
    using flight_history_step [OF p _ that] t by (simp add: traced_def)
  ultimately show ?case
    using retained_traced [OF p(1) t] answers_traced [OF p t] unfolding traced_def by auto
qed

section \<open>Statistics\<close>

record SingleFlightStats =
  stats_trackedKeys :: nat
  stats_retainedEntries :: nat
  stats_retainedBytes :: int
  stats_inFlight :: nat

text \<open>The part of \<open>getStats\<close> that is computed from the entries; the rest are the counters.\<close>

definition getStats :: "('k, 'v) SingleFlight \<Rightarrow> SingleFlightStats" where
  "getStats s =
     \<lparr>stats_trackedKeys = length (sf_entries s),
      stats_retainedEntries = length (filter (\<lambda>c. we_retained (sf_heap s (snd c)) \<noteq> None) (sf_entries s)),
      stats_retainedBytes = sf_retainedBytes s,
      stats_inFlight = sum_list (map (\<lambda>c. length (we_inFlights (sf_heap s (snd c)))) (sf_entries s))\<rparr>"

lemma tracked_keys:
  "(\<And>c. c \<in> set cs \<Longrightarrow> we_retained (h c) \<noteq> None \<or> we_inFlights (h c) \<noteq> []) \<Longrightarrow>
   length cs \<le> length (filter (\<lambda>c. we_retained (h c) \<noteq> None) cs) + sum_list (map (\<lambda>c. length (we_inFlights (h c))) cs)"
proof (induction cs)
  case (Cons c cs)
  have "we_retained (h c) \<noteq> None \<or> length (we_inFlights (h c)) > 0" using Cons.prems [of c] by simp
  moreover have "length cs \<le> length (filter (\<lambda>c. we_retained (h c) \<noteq> None) cs) + sum_list (map (\<lambda>c. length (we_inFlights (h c))) cs)"
    by (rule Cons.IH) (use Cons.prems in simp)
  ultimately show ?case by (cases "we_inFlights (h c)") auto
qed simp

text \<open>
  The cache keeps its books. Whatever the order of calls, continuations, invalidations and clears, the
  bytes it reports are those of the values it retains and within the budget, a tracked key has a
  retained value or work in flight (so keys do not pile up), and the entry a flight holds is the one
  the map has for its key.
\<close>
theorem flight_books_balance:
  assumes "distinct (run_calls xs)"
  shows "sf_retainedBytes (history opts xs) = (\<Sum>c \<leftarrow> sf_entries (history opts xs). entry_bytes (history opts xs) (snd c)) \<and>
    \<not> over_budget (op_maxRetainedBytes opts) (stats_retainedBytes (getStats (history opts xs))) \<and>
    stats_trackedKeys (getStats (history opts xs)) \<le>
      stats_retainedEntries (getStats (history opts xs)) + stats_inFlight (getStats (history opts xs)) \<and>
    (sf_flights (history opts xs) f = Some g \<longrightarrow> map_of (sf_entries (history opts xs)) (if_key g) = Some (if_entry g))"
proof -
  have b: "books opts (history opts xs)" using history_placed [OF assms] by blast
  note l = linkedD [OF booksD(1) [OF b]]
  have "length (sf_entries (history opts xs)) \<le>
      length (filter (\<lambda>c. we_retained (sf_heap (history opts xs) (snd c)) \<noteq> None) (sf_entries (history opts xs))) +
      sum_list (map (\<lambda>c. length (we_inFlights (sf_heap (history opts xs) (snd c)))) (sf_entries (history opts xs)))"
    using booksD(2) [OF b] by (intro tracked_keys) (simp add: no_idle_def)
  then show ?thesis using l(4) booksD(3) [OF b] map_of_entry [OF booksD(1) [OF b] l(5)] by (auto simp: getStats_def)
qed

text \<open>
  C31 Every call is answered at most once and none is forgotten: a call that was made has its answer, or
  is one of the callers of exactly one flight that is still to settle.
\<close>
theorem every_call_placed:
  assumes "distinct (run_calls xs)"
  shows "distinct (map fst (sf_answers (history opts xs))) \<and>
    (c \<in> set (run_calls xs) \<longleftrightarrow>
       c \<in> fst ` set (sf_answers (history opts xs)) \<or> (\<exists>f. c \<in> set (callers (history opts xs) f))) \<and>
    \<not> (c \<in> fst ` set (sf_answers (history opts xs)) \<and> c \<in> set (callers (history opts xs) f)) \<and>
    (f \<noteq> f' \<longrightarrow> \<not> (c \<in> set (callers (history opts xs) f) \<and> c \<in> set (callers (history opts xs) f')))"
proof -
  have p: "placed (run_calls xs) (history opts xs)" using history_placed [OF assms] by blast
  note d = placedD [OF p]
  have "c \<in> set (run_calls xs) \<longleftrightarrow>
      c \<in> fst ` set (sf_answers (history opts xs)) \<or> (\<exists>f. c \<in> set (callers (history opts xs) f))" unfolding d(5) by blast
  then show ?thesis using d(1) d(3) [of c f f'] d(4) [of c f] by blast
qed

text \<open>
  C30 Nobody is given the wrong value. A value that the cache has accepted for a key and version was
  published: a flight for that key and version computed it; the verdict of \<open>isStale\<close> was that its
  source is current, and the key had not been invalidated between the start of the flight and that
  verdict; and the key has not been invalidated since the continuation that retained the value. (An
  invalidation between the verdict and that continuation, a microtask later, is not noticed: that
  window is left open here, as \<open>invalidation_overtaken\<close> shows it must be.) And the value a call is
  answered was computed by a flight for the key and version that the call asked for.
\<close>
theorem values_match_requests:
  assumes "distinct (run_calls xs)"
  shows "(fst (getAccepted key (history opts xs)) = Some (version, v) \<longrightarrow> published xs key version v) \<and>
    ((c, Resolved (Completed st version v kept)) \<in> set (sf_answers (history opts xs)) \<longrightarrow>
       (\<exists>key f. Run c key version \<in> set xs \<and> Run f key version \<in> set xs \<and> Compute f (Some v) \<in> set xs))"
proof -
  have t: "traced xs (history opts xs)" by (rule history_traced [OF assms])
  have "published xs key version v" if found: "fst (getAccepted key (history opts xs)) = Some (version, v)"
  proof -
    obtain e r where "map_of (sf_entries (history opts xs)) key = Some e" "we_retained (sf_heap (history opts xs) e) = Some r"
      "rv_version r = version" "rv_value r = v"
      using found by (auto simp: getAccepted_def Let_def Option.bind_eq_Some_conv split: option.splits)
    then show ?thesis using t map_of_SomeD unfolding traced_def by fastforce
  qed
  then show ?thesis using traced_answer [OF t] by metis
qed

text \<open>
  An invalidation can come too late. The verdict that a computed value is not stale is read one
  microtask after it is reached: when the key is invalidated in between, the value computed before the
  invalidation is retained after it and given to later calls.
\<close>
theorem invalidation_overtaken:
  "fst (getAccepted ''key'' (history \<lparr>op_maxRetainedBytes = None, op_measureValue = Some, op_shouldRetain = (\<lambda>_. True),
       op_acceptUnretainedWhenStale = False\<rparr>
     [Run 0 ''key'' ''v1'', Compute 0 (Some 7), CurrentAnswer 0 (Some True), Invalidate ''key'', Continue 0, Finish 0])) = Some (''v1'', 7)"
  by code_simp

section \<open>Work is shared\<close>

lemma started_work_is_new:
  assumes "books opts s" and "fresh_call s x" and "sf_flights s f = None" and "sf_flights (flight_step opts s x) f = Some g'"
    and "sf_flights s f2 = Some h" and "if_entry h = if_entry g'"
  shows "\<not> (if_version h = if_version g' \<and> if_generation h = if_generation g')"
proof -
  obtain k v where x: "x = Run f k v" using step_flights [OF assms(1,2,4)] assms(3) by auto
  show ?thesis
  proof (cases rule: run_cases [of k s v f])
    case (hit e s1 r)
    then show ?thesis using assms(3,4) x getOrCreate_spec(3) [OF booksD(1) [OF assms(1)] hit(1)] by simp
  next
    case (work e s1)
    note g = getOrCreate_spec [OF booksD(1) [OF assms(1)] work(1)]
    have "sf_flights (join_or_start f k v e (we_generation (sf_heap s1 e)) s1) f = Some g'" using assms(4) x work(2) by simp
    from join_or_start_flights [OF this] have "if_entry g' = e" "if_version g' = v" "if_generation g' = we_generation (sf_heap s1 e)"
      and all: "\<forall>y \<in> set (we_inFlights (sf_heap s1 e)). \<not> same_work s1 v (we_generation (sf_heap s1 e)) y"
      using assms(3) g(3) by auto
    moreover have "f2 \<in> set (we_inFlights (sf_heap s1 e))" using linkedD(6) [OF g(1), of f2 h] assms(5,6) g(3) calculation(1) by simp
    ultimately show ?thesis using all assms(5) g(3) unfolding same_work_def by fastforce
  qed
qed

definition work_id :: "('k, 'v) InFlight \<Rightarrow> nat \<times> string \<times> nat" where
  "work_id g = (if_entry g, if_version g, if_generation g)"

lemma step_work_id:
  assumes "books opts s" and "fresh_call s x" and "sf_flights (flight_step opts s x) f = Some g'"
  shows "(\<exists>g. sf_flights s f = Some g \<and> work_id g' = work_id g) \<or> sf_flights s f = None \<and> (\<exists>k v. x = Run f k v)"
  using step_flights [OF assms] by (auto simp: work_id_def)

lemma history_single:
  assumes "distinct (run_calls xs)"
  shows "sf_flights (history opts xs) f = Some g \<Longrightarrow> sf_flights (history opts xs) f' = Some g' \<Longrightarrow> work_id g = work_id g' \<Longrightarrow> f = f'"
  using assms
proof (induction xs arbitrary: f g f' g' rule: rev_induct)
  case Nil
  then show ?case by (simp add: history_def newSingleFlight_def)
next
  case (snoc x xs)
  then have d: "distinct (run_calls xs)" by (simp add: run_calls_def)
  let ?s = "history opts xs"
  have p: "books opts ?s" "fresh_call ?s x"
    using history_placed [OF d] history_placed [OF snoc.prems(4)] by (simp_all add: permitted_extend history_def)
  have step: "history opts (xs @ [x]) = flight_step opts ?s x" by (simp add: history_def)
  note f = snoc.prems(1,2) [unfolded step]
  consider (old) h h' where "sf_flights ?s f = Some h" "work_id g = work_id h" "sf_flights ?s f' = Some h'" "work_id g' = work_id h'"
    | (left) h' where "sf_flights ?s f = None" "sf_flights ?s f' = Some h'" "work_id g' = work_id h'"
    | (right) h where "sf_flights ?s f' = None" "sf_flights ?s f = Some h" "work_id g = work_id h"
    | (new) "f = f'"
    using step_work_id [OF p f(1)] step_work_id [OF p f(2)] by blast
  then show ?case
  proof cases
    case old
    then show ?thesis using snoc.IH [OF old(1,3)] snoc.prems(3) d by simp
  next
    case left
    then show ?thesis using started_work_is_new [OF p left(1) f(1) left(2)] snoc.prems(3) by (simp add: work_id_def)
  next
    case right
    then show ?thesis using started_work_is_new [OF p right(1) f(2) right(2)] snoc.prems(3) by (simp add: work_id_def)
  qed
qed

text \<open>
  Work is not done twice. At any time two flights for the same key differ in the version of the source
  or were separated by an invalidation of the key: a call that asks for what is being computed joins it.
\<close>
theorem work_is_coalesced:
  assumes "distinct (run_calls xs)" and "sf_flights (history opts xs) f = Some g" and "sf_flights (history opts xs) f' = Some g'"
    and "if_key g = if_key g'" and "if_version g = if_version g'" and "f \<noteq> f'"
  shows "if_generation g \<noteq> if_generation g'"
proof
  assume "if_generation g = if_generation g'"
  have b: "books opts (history opts xs)" using history_placed [OF assms(1)] by blast
  note l = linkedD(5) [OF booksD(1) [OF b]]
  have "if_entry g = if_entry g'"
    using map_of_entry [OF booksD(1) [OF b] l [OF assms(2)]] map_of_entry [OF booksD(1) [OF b] l [OF assms(3)]] assms(4) by simp
  then show False
    using history_single [OF assms(1-3)] assms(5,6) \<open>if_generation g = if_generation g'\<close> by (simp add: work_id_def)
qed

section \<open>Examples\<close>

definition sample_options :: "nat FlightOptions" where
  "sample_options = \<lparr>op_maxRetainedBytes = Some 10, op_measureValue = Some, op_shouldRetain = (\<lambda>_. True), op_acceptUnretainedWhenStale = False\<rparr>"

text \<open>Two calls share a flight, a third is for a key whose value does not fit beside the first.\<close>

definition sample_history :: "(string, nat) Operation list" where
  "sample_history =
     [Run 0 ''a'' ''v1'', Run 1 ''a'' ''v1'', Compute 0 (Some 7), CurrentAnswer 0 (Some True), Continue 0, Finish 0,
      Run 2 ''b'' ''v1'', Compute 2 (Some 8), CurrentAnswer 2 (Some True), Continue 2, Run 3 ''b'' ''v2'']"

lemma sample_calls: "distinct (run_calls sample_history)"
  by code_simp

lemma sample_answers: "sf_answers (history sample_options sample_history) =
    [(0, Resolved (Completed StComputed ''v1'' 7 True)), (1, Resolved (Completed StJoined ''v1'' 7 True))]"
  by code_simp

lemma sample_flights:
  "map_option if_key (sf_flights (history sample_options sample_history) 2) = Some ''b''"
  "map_option if_key (sf_flights (history sample_options sample_history) 3) = Some ''b''"
  "sf_evictions (history sample_options sample_history) = 1"
  by code_simp+

lemma flight_books_balance_witness:
  "\<not> over_budget (Some 10) (stats_retainedBytes (getStats (history sample_options sample_history))) \<and>
   stats_trackedKeys (getStats (history sample_options sample_history)) = 1 \<and>
   map_option if_entry (sf_flights (history sample_options sample_history) 3) = map_of (sf_entries (history sample_options sample_history)) ''b''"
proof -
  obtain g where g: "sf_flights (history sample_options sample_history) 3 = Some g" "if_key g = ''b''" using sample_flights(2) by auto
  have "op_maxRetainedBytes sample_options = Some 10" by (simp add: sample_options_def)
  moreover have "stats_trackedKeys (getStats (history sample_options sample_history)) = 1" by code_simp
  ultimately show ?thesis using flight_books_balance [OF sample_calls, of sample_options 3 g] g by simp
qed

lemma every_call_placed_witness:
  "distinct (map fst (sf_answers (history sample_options sample_history))) \<and>
   3 \<notin> fst ` set (sf_answers (history sample_options sample_history)) \<and> (\<exists>f. 3 \<in> set (callers (history sample_options sample_history) f))"
proof -
  have "3 \<in> set (run_calls sample_history)" by code_simp
  moreover have "3 \<notin> fst ` set (sf_answers (history sample_options sample_history))" unfolding sample_answers by simp
  ultimately show ?thesis using every_call_placed [OF sample_calls, where opts = sample_options and c = 3 and f = 0 and f' = 0] by blast
qed

lemma values_match_requests_witness:
  "published sample_history ''b'' ''v1'' 8 \<and>
   (\<exists>key f. Run 1 key ''v1'' \<in> set sample_history \<and> Run f key ''v1'' \<in> set sample_history \<and> Compute f (Some 7) \<in> set sample_history)"
proof -
  have "fst (getAccepted ''b'' (history sample_options sample_history)) = Some (''v1'', 8)" by code_simp
  moreover have "(1, Resolved (Completed StJoined ''v1'' 7 True)) \<in> set (sf_answers (history sample_options sample_history))"
    unfolding sample_answers by simp
  ultimately show ?thesis
    using values_match_requests [OF sample_calls, of "''b''" sample_options "''v1''" 8 1 StJoined True]
      values_match_requests [OF sample_calls, of "''b''" sample_options "''v1''" 7 1 StJoined True] by blast
qed

lemma work_is_coalesced_witness:
  "map_option if_generation (sf_flights (history sample_options [Run 0 ''a'' ''v1'', Invalidate ''a'', Run 1 ''a'' ''v1'']) 0) = Some 0 \<and>
   map_option if_generation (sf_flights (history sample_options [Run 0 ''a'' ''v1'', Invalidate ''a'', Run 1 ''a'' ''v1'']) 1) \<noteq> Some 0"
proof -
  let ?h = "history sample_options [Run 0 ''a'' ''v1'', Invalidate ''a'', Run 1 ''a'' ''v1'']"
  have "map_option (\<lambda>g. (if_key g, if_version g, if_generation g)) (sf_flights ?h 0) = Some (''a'', ''v1'', 0)"
    "map_option (\<lambda>g. (if_key g, if_version g)) (sf_flights ?h 1) = Some (''a'', ''v1'')" by code_simp+
  then obtain g g' where g: "sf_flights ?h 0 = Some g" "if_key g = ''a''" "if_version g = ''v1''" "if_generation g = 0"
    "sf_flights ?h 1 = Some g'" "if_key g' = ''a''" "if_version g' = ''v1''" by auto
  have "distinct (run_calls [Run 0 ''a'' ''v1'', Invalidate ''a'', Run 1 ''a'' ''v1'' :: (string, nat) Operation])" by code_simp
  from work_is_coalesced [OF this g(1,5)] g show ?thesis by simp
qed

end
