(* ===== verification/LinearRegexParser.thy ===== *)
theory LinearRegexParser
  imports Prelude "HOL-Library.Code_Target_Nat"
begin

text \<open>
  The parser of linear regular expressions (packages/shared/src/linear-regex.ts, class
  LinearRegexParser). Strings are lists of UTF-16 code units, written as numbers; the parser's index is
  the rest of the source still to read. The methods that call each other take fuel, and \<open>None\<close> is
  running out of it, which \<open>parse\<close> is proved never to do.
\<close>

section \<open>Patterns\<close>

type_synonym code_unit = nat
type_synonym character_matcher = "code_unit \<Rightarrow> bool"

datatype pattern_node =
    EmptyNode
  | CharacterNode character_matcher
  | StartNode
  | EndNode
  | Concatenate pattern_node pattern_node
  | Alternate pattern_node pattern_node
  | Repeat pattern_node nat bool

abbreviation ch :: "char \<Rightarrow> code_unit" where
  "ch c \<equiv> of_char c"

definition is_ascii_digit :: "code_unit \<Rightarrow> bool" where
  "is_ascii_digit c \<longleftrightarrow> 48 \<le> c \<and> c \<le> 57"

definition is_ascii_letter :: "code_unit \<Rightarrow> bool" where
  "is_ascii_letter c \<longleftrightarrow> 65 \<le> c \<and> c \<le> 90 \<or> 97 \<le> c \<and> c \<le> 122"

definition ascii_word :: "code_unit \<Rightarrow> bool" where
  "ascii_word c \<longleftrightarrow> is_ascii_letter c \<or> is_ascii_digit c \<or> c = 95"

text \<open>The class \<open>\s\<close> of JavaScript.\<close>

definition whitespace :: "code_unit \<Rightarrow> bool" where
  "whitespace c \<longleftrightarrow>
     9 \<le> c \<and> c \<le> 13 \<or> c = 32 \<or> c = 160 \<or> c = 5760 \<or> 8192 \<le> c \<and> c \<le> 8202 \<or> c = 8232 \<or> c = 8233 \<or> c = 8239 \<or>
     c = 8287 \<or> c = 12288 \<or> c = 65279"

definition hex_digit :: "code_unit \<Rightarrow> bool" where
  "hex_digit c \<longleftrightarrow> is_ascii_digit c \<or> 65 \<le> c \<and> c \<le> 70 \<or> 97 \<le> c \<and> c \<le> 102"

definition hex_digit_value :: "code_unit \<Rightarrow> nat" where
  "hex_digit_value c = (if is_ascii_digit c then c - 48 else if c \<le> 70 then c - 55 else c - 87)"

section \<open>Escapes and character classes\<close>

text \<open>A result, or the message of the error thrown.\<close>

type_synonym 'a parsed = "string + 'a \<times> code_unit list"

record ClassAtom =
  ca_literal :: "code_unit option"
  ca_matches :: character_matcher

definition literalEscape :: "code_unit \<Rightarrow> ClassAtom" where
  "literalEscape literal = \<lparr>ca_literal = Some literal, ca_matches = (\<lambda>candidate. candidate = literal)\<rparr>"

definition class_escape :: "character_matcher \<Rightarrow> ClassAtom" where
  "class_escape m = \<lparr>ca_literal = None, ca_matches = m\<rparr>"

definition readHexEscape :: "nat \<Rightarrow> code_unit list \<Rightarrow> code_unit parsed" where
  "readHexEscape n rest =
     (let digits = take n rest
      in if length digits \<noteq> n \<or> list_ex (\<lambda>d. \<not> hex_digit d) digits then Inl ''Invalid hexadecimal escape''
         else Inr (foldl (\<lambda>value d. 16 * value + hex_digit_value d) 0 digits, drop n rest))"

definition parseEscape :: "bool \<Rightarrow> code_unit list \<Rightarrow> ClassAtom parsed" where
  "parseEscape inCharacterClass source =
     (case source of
        [] \<Rightarrow> Inl ''Trailing regular expression escape''
      | escaped # rest \<Rightarrow>
          if escaped = ch CHR ''d'' then Inr (class_escape is_ascii_digit, rest)
          else if escaped = ch CHR ''D'' then Inr (class_escape (\<lambda>c. c < 48 \<or> c > 57), rest)
          else if escaped = ch CHR ''s'' then Inr (class_escape whitespace, rest)
          else if escaped = ch CHR ''S'' then Inr (class_escape (\<lambda>c. \<not> whitespace c), rest)
          else if escaped = ch CHR ''w'' then Inr (class_escape ascii_word, rest)
          else if escaped = ch CHR ''W'' then Inr (class_escape (\<lambda>c. \<not> ascii_word c), rest)
          else if escaped = ch CHR ''n'' then Inr (literalEscape 10, rest)
          else if escaped = ch CHR ''r'' then Inr (literalEscape 13, rest)
          else if escaped = ch CHR ''t'' then Inr (literalEscape 9, rest)
          else if escaped = ch CHR ''f'' then Inr (literalEscape 12, rest)
          else if escaped = ch CHR ''v'' then Inr (literalEscape 11, rest)
          else if escaped = ch CHR ''b'' then
            (if inCharacterClass then Inr (literalEscape 8, rest) else Inl ''Word-boundary assertions are not supported'')
          else if escaped = ch CHR ''x'' then and_then (readHexEscape 2 rest) (\<lambda>(c, rest). Inr (literalEscape c, rest))
          else if escaped = ch CHR ''u'' then and_then (readHexEscape 4 rest) (\<lambda>(c, rest). Inr (literalEscape c, rest))
          else if escaped = ch CHR ''0'' then
            (case rest of
               c # _ \<Rightarrow> if is_ascii_digit c then Inl ''Octal escapes are not supported'' else Inr (literalEscape 0, rest)
             | [] \<Rightarrow> Inr (literalEscape 0, rest))
          else if is_ascii_letter escaped \<or> is_ascii_digit escaped then Inl ''Backreferences and named escapes are not supported''
          else Inr (literalEscape escaped, rest))"

definition parseClassAtom :: "code_unit list \<Rightarrow> ClassAtom parsed" where
  "parseClassAtom source =
     (case source of
        [] \<Rightarrow> Inl ''Unclosed character class''
      | character # rest \<Rightarrow> if character = ch CHR 0x5C then parseEscape True rest else Inr (literalEscape character, rest))"

lemma readHexEscape_rest: "readHexEscape n source = Inr (c, rest) \<Longrightarrow> length rest \<le> length source"
  by (auto simp: readHexEscape_def Let_def split: if_splits)

lemma parseEscape_rest: "parseEscape b source = Inr (a, rest) \<Longrightarrow> length rest < length source"
  by (auto simp: parseEscape_def and_then_Inr_iff split: list.splits if_splits dest: readHexEscape_rest)

lemma parseClassAtom_rest: "parseClassAtom source = Inr (a, rest) \<Longrightarrow> length rest < length source"
  by (auto simp: parseClassAtom_def split: list.splits if_splits dest: parseEscape_rest)

definition any_matcher :: "bool \<Rightarrow> character_matcher list \<Rightarrow> character_matcher" where
  "any_matcher negate matchers = (\<lambda>c. if negate then \<not> list_ex (\<lambda>m. m c) matchers else list_ex (\<lambda>m. m c) matchers)"

definition peek :: "code_unit list \<Rightarrow> code_unit option" where
  "peek source = (case source of [] \<Rightarrow> None | c # _ \<Rightarrow> Some c)"

text \<open>The loop of \<open>parseCharacterClass\<close>.\<close>

function class_loop :: "bool \<Rightarrow> bool \<Rightarrow> character_matcher list \<Rightarrow> code_unit list \<Rightarrow> pattern_node parsed" where
  "class_loop negate first matchers source =
     (if source = [] then Inl ''Unclosed character class''
      else if peek source = Some (ch CHR '']'') \<and> \<not> first then Inr (CharacterNode (any_matcher negate matchers), tl source)
      else
        (case parseClassAtom source of
           Inl e \<Rightarrow> Inl e
         | Inr (start, rest) \<Rightarrow>
             if ca_literal start \<noteq> None \<and> peek rest = Some (ch CHR ''-'') \<and> peek (tl rest) \<noteq> Some (ch CHR '']'')
             then
               (case parseClassAtom (tl rest) of
                  Inl e \<Rightarrow> Inl e
                | Inr (end', rest') \<Rightarrow>
                    (case (ca_literal start, ca_literal end') of
                       (Some firstCode, Some lastCode) \<Rightarrow>
                         if firstCode > lastCode then Inl ''Character-class range is reversed''
                         else class_loop negate False (matchers @ [\<lambda>code. code \<ge> firstCode \<and> code \<le> lastCode]) rest'
                     | _ \<Rightarrow> Inl ''Character-class ranges require literal endpoints''))
             else class_loop negate False (matchers @ [ca_matches start]) rest))"
  by pat_completeness auto

termination
proof (relation "measure (\<lambda>(_, _, _, source). length source)")
  fix negate :: bool and first :: bool and matchers :: "character_matcher list" and source :: "code_unit list"
    and p start rest p' end' rest' pair firstCode lastCode and a b :: "code_unit option"
  assume "parseClassAtom source = Inr p" "(start, rest) = p" "parseClassAtom (tl rest) = Inr p'" "(end', rest') = p'"
  then have "parseClassAtom source = Inr (start, rest)" "parseClassAtom (tl rest) = Inr (end', rest')" by simp_all
  from parseClassAtom_rest [OF this(1)] parseClassAtom_rest [OF this(2)] have "length rest' < length source" by simp
  then show "((negate, False, matchers @ [\<lambda>code. firstCode \<le> code \<and> code \<le> lastCode], rest'), negate, first, matchers, source)
      \<in> measure (\<lambda>(_, _, _, source). length source)" by simp
qed (auto dest: parseClassAtom_rest)

declare class_loop.simps [simp del]

definition parseCharacterClass :: "code_unit list \<Rightarrow> pattern_node parsed" where
  "parseCharacterClass source =
     (if peek source = Some (ch CHR ''^'') then class_loop True True [] (tl source) else class_loop False True [] source)"

lemma class_loop_rest: "class_loop negate first matchers source = Inr (node, rest) \<Longrightarrow> length rest < length source"
proof (induction negate first matchers source rule: class_loop.induct)
  case (1 negate first matchers source)
  have atoms: "length r < length s" if "parseClassAtom s = Inr (a, r)" for a r s using that by (rule parseClassAtom_rest)
  consider (closed) "source \<noteq> []" "rest = tl source"
    | (range) start r end' r' firstCode lastCode where "parseClassAtom source = Inr (start, r)" "parseClassAtom (tl r) = Inr (end', r')"
        "class_loop negate False (matchers @ [\<lambda>code. code \<ge> firstCode \<and> code \<le> lastCode]) r' = Inr (node, rest)"
        "source \<noteq> []" "\<not> (peek source = Some (ch CHR '']'') \<and> \<not> first)"
        "ca_literal start \<noteq> None \<and> peek r = Some (ch CHR ''-'') \<and> peek (tl r) \<noteq> Some (ch CHR '']'')"
        "ca_literal start = Some firstCode" "ca_literal end' = Some lastCode" "\<not> firstCode > lastCode"
    | (single) start r where "parseClassAtom source = Inr (start, r)"
        "class_loop negate False (matchers @ [ca_matches start]) r = Inr (node, rest)"
        "source \<noteq> []" "\<not> (peek source = Some (ch CHR '']'') \<and> \<not> first)"
        "\<not> (ca_literal start \<noteq> None \<and> peek r = Some (ch CHR ''-'') \<and> peek (tl r) \<noteq> Some (ch CHR '']''))"
    using "1.prems" by (subst (asm) class_loop.simps) (auto split: if_splits sum.splits prod.splits option.splits)
  then show ?case
  proof cases
    case range
    have "length rest < length r'" by (rule 1(1) [OF range(4,5,1) refl range(6,2) refl refl range(7,8,9,3)])
    then show ?thesis using atoms [OF range(1)] atoms [OF range(2)] by simp
  next
    case single
    have "length rest < length r" by (rule 1(2) [OF single(3,4,1) refl single(5,2)])
    then show ?thesis using atoms [OF single(1)] by simp
  qed simp
qed

section \<open>Patterns of patterns\<close>

definition parsed_bind :: "'a parsed option \<Rightarrow> ('a \<times> code_unit list \<Rightarrow> 'b parsed option) \<Rightarrow> 'b parsed option" where
  "parsed_bind r f = (case r of None \<Rightarrow> None | Some (Inl e) \<Rightarrow> Some (Inl e) | Some (Inr x) \<Rightarrow> f x)"

definition is_quantifier :: "code_unit option \<Rightarrow> bool" where
  "is_quantifier c \<longleftrightarrow> c = Some (ch CHR ''*'') \<or> c = Some (ch CHR ''+'') \<or> c = Some (ch CHR ''?'')"

text \<open>The quantifier after an atom.\<close>

definition quantify :: "pattern_node \<Rightarrow> code_unit list \<Rightarrow> pattern_node parsed" where
  "quantify atom source =
     (let quantifier = peek source
      in if \<not> is_quantifier quantifier
         then (if quantifier = Some (ch CHR ''{'') then Inl ''Braced quantifiers are not supported'' else Inr (atom, source))
         else
           (let rest = tl source;
                node = Repeat atom (if quantifier = Some (ch CHR ''+'') then 1 else 0) (quantifier = Some (ch CHR ''?''));
                rest = (if peek rest = Some (ch CHR ''?'') then tl rest else rest)
            in if is_quantifier (peek rest) then Inl ''Invalid quantifier sequence'' else Inr (node, rest)))"

fun parseAlternation :: "nat \<Rightarrow> code_unit list \<Rightarrow> pattern_node parsed option"
  and parseAlternatives :: "nat \<Rightarrow> pattern_node \<Rightarrow> code_unit list \<Rightarrow> pattern_node parsed option"
  and parseSequence :: "nat \<Rightarrow> pattern_node \<Rightarrow> code_unit list \<Rightarrow> pattern_node parsed option"
  and parseQuantifiedAtom :: "nat \<Rightarrow> code_unit list \<Rightarrow> pattern_node parsed option"
  and parseAtom :: "nat \<Rightarrow> code_unit list \<Rightarrow> pattern_node parsed option" where
  "parseAlternation 0 source = None"
| "parseAlternation (Suc n) source = parsed_bind (parseSequence n EmptyNode source) (\<lambda>(node, rest). parseAlternatives n node rest)"
| "parseAlternatives 0 node source = None"
| "parseAlternatives (Suc n) node source =
     (if peek source = Some (ch CHR ''|'')
      then parsed_bind (parseSequence n EmptyNode (tl source)) (\<lambda>(right, rest). parseAlternatives n (Alternate node right) rest)
      else Some (Inr (node, source)))"
| "parseSequence 0 node source = None"
| "parseSequence (Suc n) node source =
     (if source \<noteq> [] \<and> peek source \<noteq> Some (ch CHR '')'') \<and> peek source \<noteq> Some (ch CHR ''|'')
      then parsed_bind (parseQuantifiedAtom n source) (\<lambda>(next, rest).
        parseSequence n (case node of EmptyNode \<Rightarrow> next | _ \<Rightarrow> Concatenate node next) rest)
      else Some (Inr (node, source)))"
| "parseQuantifiedAtom 0 source = None"
| "parseQuantifiedAtom (Suc n) source = parsed_bind (parseAtom n source) (\<lambda>(atom, rest). Some (quantify atom rest))"
| "parseAtom 0 source = None"
| "parseAtom (Suc n) source =
     (case source of
        [] \<Rightarrow> Some (Inl ''Missing regular expression atom'')
      | character # rest \<Rightarrow>
          if character = ch CHR ''.'' then Some (Inr (CharacterNode (\<lambda>_. True), rest))
          else if character = ch CHR ''^'' then Some (Inr (StartNode, rest))
          else if character = ch CHR ''$'' then Some (Inr (EndNode, rest))
          else if character = ch CHR ''['' then Some (parseCharacterClass rest)
          else if character = ch CHR ''('' then
            (if peek rest = Some (ch CHR ''?'') \<and> peek (tl rest) \<noteq> Some (ch CHR '':'')
             then Some (Inl ''Lookarounds and inline flags are not supported'')
             else
               parsed_bind (parseAlternation n (if peek rest = Some (ch CHR ''?'') then tl (tl rest) else rest)) (\<lambda>(child, rest).
                 if peek rest \<noteq> Some (ch CHR '')'') then Some (Inl ''Unclosed regular expression group'')
                 else Some (Inr (child, tl rest))))
          else if character = ch CHR 0x5C then
            Some (and_then (parseEscape False rest) (\<lambda>(escaped, rest). Inr (CharacterNode (ca_matches escaped), rest)))
          else if is_quantifier (Some character) \<or> character = ch CHR ''{'' \<or> character = ch CHR ''}'' then
            Some (Inl ''Unsupported regular expression syntax'')
          else Some (Inr (CharacterNode (\<lambda>candidate. candidate = character), rest)))"

text \<open>\<open>parse\<close>: the whole source must be read.\<close>

definition parse_fuel :: "code_unit list \<Rightarrow> nat" where
  "parse_fuel source = 5 * length source + 5"

definition parse :: "code_unit list \<Rightarrow> (string + pattern_node) option" where
  "parse source =
     map_option (\<lambda>r. and_then r (\<lambda>(node, rest). if rest \<noteq> [] then Inl ''Unsupported linear regular expression'' else Inr node))
       (parseAlternation (parse_fuel source) source)"

section \<open>Parsing ends\<close>

definition returns :: "(code_unit list \<Rightarrow> bool) \<Rightarrow> 'a parsed option \<Rightarrow> bool" where
  "returns P r \<longleftrightarrow> (\<exists>x. r = Some x \<and> (\<forall>y rest. x = Inr (y, rest) \<longrightarrow> P rest))"

lemma returns_bind:
  "returns P r \<Longrightarrow> (\<And>y rest. P rest \<Longrightarrow> returns Q (f (y, rest))) \<Longrightarrow> returns Q (parsed_bind r f)"
  by (auto simp: returns_def parsed_bind_def split: sum.splits)

lemma returns_Some [simp]: "returns P (Some (Inl e))" "returns P (Some (Inr (y, rest))) = P rest"
  by (auto simp: returns_def)

lemma quantify_rest: "quantify atom source = Inr (node, rest) \<Longrightarrow> length rest \<le> length source"
  by (auto simp: quantify_def Let_def split: if_splits)

lemma parseCharacterClass_rest: "parseCharacterClass source = Inr (node, rest) \<Longrightarrow> length rest \<le> length source"
  by (auto simp: parseCharacterClass_def split: if_splits dest!: class_loop_rest)

lemma peek_Some: "peek source = Some c \<Longrightarrow> source \<noteq> []"
  by (auto simp: peek_def)

lemma parser_returns:
  shows "5 * length source + 4 \<le> n \<Longrightarrow> returns (\<lambda>rest. length rest \<le> length source) (parseAlternation n source)"
    and "5 * length source + 1 \<le> n \<Longrightarrow> returns (\<lambda>rest. length rest \<le> length source) (parseAlternatives n node source)"
    and "5 * length source + 3 \<le> n \<Longrightarrow> returns (\<lambda>rest. length rest \<le> length source) (parseSequence n node source)"
    and "5 * length source + 2 \<le> n \<Longrightarrow> source \<noteq> [] \<Longrightarrow> returns (\<lambda>rest. length rest < length source) (parseQuantifiedAtom n source)"
    and "5 * length source + 1 \<le> n \<Longrightarrow> source \<noteq> [] \<Longrightarrow> returns (\<lambda>rest. length rest < length source) (parseAtom n source)"
proof (induction n arbitrary: source node)
  case (Suc n)
  {
    case 1
    have "returns (\<lambda>rest. length rest \<le> length source) (parseSequence n EmptyNode source)" using 1 by (intro Suc.IH) simp
    moreover have "returns (\<lambda>r. length r \<le> length source) (parseAlternatives n node rest)" if "length rest \<le> length source" for node rest
    proof -
      have "returns (\<lambda>r. length r \<le> length rest) (parseAlternatives n node rest)" using 1 that by (intro Suc.IH) simp
      then show ?thesis using that by (fastforce simp: returns_def)
    qed
    ultimately show ?case by (auto intro: returns_bind)
  next
    case 2
    show ?case
    proof (cases "peek source = Some (ch CHR ''|'')")
      case True
      then obtain c s where s: "source = c # s" using peek_Some by (cases source) auto
      have "returns (\<lambda>rest. length rest \<le> length s) (parseSequence n EmptyNode s)" using 2 s by (intro Suc.IH) simp
      moreover have "returns (\<lambda>r. length r \<le> length source) (parseAlternatives n node rest)" if "length rest \<le> length s" for node rest
      proof -
        have "returns (\<lambda>r. length r \<le> length rest) (parseAlternatives n node rest)" using 2 that s by (intro Suc.IH) simp
        then show ?thesis using that s by (fastforce simp: returns_def)
      qed
      ultimately show ?thesis using True s by (auto intro: returns_bind)
    qed simp
  next
    case 3
    show ?case
    proof (cases "source \<noteq> [] \<and> peek source \<noteq> Some (ch CHR '')'') \<and> peek source \<noteq> Some (ch CHR ''|'')")
      case True
      have "returns (\<lambda>rest. length rest < length source) (parseQuantifiedAtom n source)" using 3 True by (intro Suc.IH) simp_all
      moreover have "returns (\<lambda>r. length r \<le> length source) (parseSequence n node rest)" if "length rest < length source" for node rest
      proof -
        have "returns (\<lambda>r. length r \<le> length rest) (parseSequence n node rest)" using 3 that by (intro Suc.IH) simp
        then show ?thesis using that by (fastforce simp: returns_def)
      qed
      ultimately show ?thesis using True by (auto intro: returns_bind)
    qed auto
  next
    case 4
    have "returns (\<lambda>rest. length rest < length source) (parseAtom n source)" using 4 by (intro Suc.IH) simp_all
    moreover have "returns (\<lambda>r. length r < length source) (Some (quantify atom rest))" if "length rest < length source" for atom rest
      using that by (auto simp: returns_def dest!: quantify_rest)
    ultimately show ?case by (auto intro: returns_bind)
  next
    case 5
    then obtain c s where s: "source = c # s" by (cases source) auto
    have group: "returns (\<lambda>rest. length rest \<le> length s') (parseAlternation n s')" if "length s' \<le> length s" for s'
      using 5 that s by (intro Suc.IH) simp
    have "returns (\<lambda>r. length r < length source) (parsed_bind (parseAlternation n (if peek s = Some (ch CHR ''?'') then tl (tl s) else s))
        (\<lambda>(child, rest). if peek rest \<noteq> Some (ch CHR '')'') then Some (Inl ''Unclosed regular expression group'')
          else Some (Inr (child, tl rest))))"
      using s by (intro returns_bind [OF group]) (auto split: if_splits)
    moreover have "returns (\<lambda>r. length r < length source) (Some (parseCharacterClass s))"
      "returns (\<lambda>r. length r < length source)
        (Some (and_then (parseEscape False s) (\<lambda>(escaped, rest). Inr (CharacterNode (ca_matches escaped), rest))))"
      using s by (auto simp: returns_def and_then_Inr_iff dest!: parseCharacterClass_rest parseEscape_rest)
    ultimately show ?case using s by (simp del: returns_Some) (simp add: returns_def)
  }
qed simp_all

text \<open>
  The parser always ends: for every source it gives a pattern or throws one of its errors. The recursion
  needs no more calls within each other than five for each code unit of the source and five more.
\<close>
theorem parser_ends: "\<exists>result. parse source = Some result"
  using parser_returns(1) [of source "parse_fuel source"] by (auto simp: parse_def parse_fuel_def returns_def)

end
