(* ===== verification/LinearRegex.thy ===== *)
theory LinearRegex
  imports LinearRegexParser
begin

text \<open>
  The automaton of a linear regular expression and its simulation (packages/shared/src/linear-regex.ts,
  \<open>compilePattern\<close> and \<open>compileLinearWholeRegex\<close>), compared with what the pattern denotes.
\<close>

section \<open>What a pattern denotes\<close>

text \<open>The pattern matches the part of the input from one position to another.\<close>

fun node_matches :: "code_unit list \<Rightarrow> pattern_node \<Rightarrow> nat \<Rightarrow> nat \<Rightarrow> bool" where
  "node_matches input EmptyNode i j = (i = j)"
| "node_matches input (CharacterNode m) i j = (i < length input \<and> m (input ! i) \<and> j = Suc i)"
| "node_matches input StartNode i j = (i = j \<and> i = 0)"
| "node_matches input EndNode i j = (i = j \<and> i = length input)"
| "node_matches input (Concatenate l r) i j = (\<exists>k. node_matches input l i k \<and> node_matches input r k j)"
| "node_matches input (Alternate l r) i j = (node_matches input l i j \<or> node_matches input r i j)"
| "node_matches input (Repeat child minimum optional) i j =
     (if optional then i = j \<or> node_matches input child i j
      else if minimum = 1 then (node_matches input child)\<^sup>+\<^sup>+ i j
      else (node_matches input child)\<^sup>*\<^sup>* i j)"

section \<open>The automaton\<close>

datatype StateKind = CharacterState | EpsilonState | SplitState | StartState | EndState | MatchState

record PatternState =
  ps_kind :: StateKind
  ps_matches :: "character_matcher option"
  ps_out :: "nat option"
  ps_out1 :: "nat option"

datatype outlet = Out | Out1

type_synonym patch_reference = "nat \<times> outlet"

definition set_output :: "patch_reference \<Rightarrow> nat \<Rightarrow> PatternState list \<Rightarrow> PatternState list" where
  "set_output ref target states =
     states[fst ref := (case snd ref of Out \<Rightarrow> (states ! fst ref)\<lparr>ps_out := Some target\<rparr>
        | Out1 \<Rightarrow> (states ! fst ref)\<lparr>ps_out1 := Some target\<rparr>)]"

definition patch :: "patch_reference list \<Rightarrow> nat \<Rightarrow> PatternState list \<Rightarrow> PatternState list" where
  "patch references target states = foldl (\<lambda>states ref. set_output ref target states) states references"

definition plain_state :: "StateKind \<Rightarrow> PatternState" where
  "plain_state kind = \<lparr>ps_kind = kind, ps_matches = None, ps_out = None, ps_out1 = None\<rparr>"

text \<open>\<open>compile\<close>: the start of the fragment, its open outputs and the states so far.\<close>

fun compile :: "pattern_node \<Rightarrow> PatternState list \<Rightarrow> nat \<times> patch_reference list \<times> PatternState list" where
  "compile EmptyNode states = (length states, [(length states, Out)], states @ [plain_state EpsilonState])"
| "compile (CharacterNode m) states =
     (length states, [(length states, Out)], states @ [(plain_state CharacterState)\<lparr>ps_matches := Some m\<rparr>])"
| "compile StartNode states = (length states, [(length states, Out)], states @ [plain_state StartState])"
| "compile EndNode states = (length states, [(length states, Out)], states @ [plain_state EndState])"
| "compile (Concatenate l r) states =
     (let (lstart, lpending, states) = compile l states;
          (rstart, rpending, states) = compile r states
      in (lstart, rpending, patch lpending rstart states))"
| "compile (Alternate l r) states =
     (let (lstart, lpending, states) = compile l states;
          (rstart, rpending, states) = compile r states;
          state = (plain_state SplitState)\<lparr>ps_out := Some lstart, ps_out1 := Some rstart\<rparr>
      in (length states, lpending @ rpending, states @ [state]))"
| "compile (Repeat child minimum optional) states =
     (let (start, pending, states) = compile child states;
          state = length states;
          states = states @ [(plain_state SplitState)\<lparr>ps_out := Some start\<rparr>]
      in if optional then (state, pending @ [(state, Out1)], states)
         else (if minimum = 1 then start else state, [(state, Out1)], patch pending state states))"

definition compilePattern :: "pattern_node \<Rightarrow> nat \<times> PatternState list" where
  "compilePattern pattern =
     (let (start, pending, states) = compile pattern []; match = length states
      in (start, patch pending match (states @ [plain_state MatchState])))"

section \<open>The simulation\<close>

record Matcher =
  ma_seen :: "nat list"
  ma_generation :: nat

text \<open>\<open>None\<close> is the exception that reading a missing state would throw.\<close>

definition state_outputs :: "PatternState \<Rightarrow> nat \<Rightarrow> nat \<Rightarrow> nat list" where
  "state_outputs state position inputLength =
     (case ps_kind state of
        EpsilonState \<Rightarrow> (case ps_out state of None \<Rightarrow> [] | Some q \<Rightarrow> [q])
      | SplitState \<Rightarrow> (case ps_out state of None \<Rightarrow> [] | Some q \<Rightarrow> [q]) @ (case ps_out1 state of None \<Rightarrow> [] | Some q \<Rightarrow> [q])
      | StartState \<Rightarrow> if position = 0 then (case ps_out state of None \<Rightarrow> [] | Some q \<Rightarrow> [q]) else []
      | EndState \<Rightarrow> if position = inputLength then (case ps_out state of None \<Rightarrow> [] | Some q \<Rightarrow> [q]) else []
      | _ \<Rightarrow> [])"

definition is_active :: "PatternState \<Rightarrow> bool" where
  "is_active state \<longleftrightarrow> ps_kind state = CharacterState \<or> ps_kind state = MatchState"

lemma unseen_less:
  "q < length seen \<Longrightarrow> seen ! q \<noteq> g \<Longrightarrow> length (filter (\<lambda>x. x \<noteq> g) (seen[q := g])) < length (filter (\<lambda>x. x \<noteq> g) seen)"
proof (induction seen arbitrary: q)
  case (Cons a seen)
  then show ?case by (cases q) auto
qed simp

text \<open>The loop over the stack, which is written with its top first.\<close>

function closure_loop ::
    "PatternState list \<Rightarrow> nat \<Rightarrow> nat \<Rightarrow> nat \<Rightarrow> nat list \<Rightarrow> nat list \<Rightarrow> nat list \<Rightarrow> (nat list \<times> nat list) option" where
  "closure_loop states generation position inputLength seen active stack =
     (case stack of
        [] \<Rightarrow> Some (active, seen)
      | q # stack \<Rightarrow>
          if q < length seen \<and> seen ! q = generation then closure_loop states generation position inputLength seen active stack
          else if q \<ge> length states \<or> q \<ge> length seen then None
          else
            (let seen = seen[q := generation]; state = states ! q
             in if is_active state then closure_loop states generation position inputLength seen (active @ [q]) stack
                else closure_loop states generation position inputLength seen active
                  (rev (state_outputs state position inputLength) @ stack)))"
  by pat_completeness auto

termination
proof (relation "(\<lambda>(_, generation, _, _, seen, _, _). length (filter (\<lambda>x. x \<noteq> generation) seen)) <*mlex*>
    measure (\<lambda>(_, _, _, _, _, _, stack). length stack)")
qed (auto simp: mlex_prod_def unseen_less)

declare closure_loop.simps [simp del]

definition closure ::
    "PatternState list \<Rightarrow> nat list \<Rightarrow> nat \<Rightarrow> nat \<Rightarrow> Matcher \<Rightarrow> (nat list \<times> Matcher) option" where
  "closure states seeds position inputLength m =
     (let generation = Suc (ma_generation m);
          (seen, generation) = (if generation = 0xffffffff then (map (\<lambda>_. 0) (ma_seen m), 1) else (ma_seen m, generation))
      in map_option (\<lambda>(active, seen). (active, \<lparr>ma_seen = seen, ma_generation = generation\<rparr>))
           (closure_loop states generation position inputLength seen [] (rev seeds)))"

definition seeds_of :: "PatternState list \<Rightarrow> code_unit \<Rightarrow> nat list \<Rightarrow> nat list" where
  "seeds_of states character active =
     concat (map (\<lambda>q. let state = states ! q
        in if ps_kind state = CharacterState \<and> (case ps_matches state of None \<Rightarrow> False | Some m \<Rightarrow> m character)
           then (case ps_out state of None \<Rightarrow> [] | Some out \<Rightarrow> [out]) else []) active)"

text \<open>The loop over the input from a position, with the states active there.\<close>

fun match_loop ::
    "PatternState list \<Rightarrow> nat \<Rightarrow> nat \<Rightarrow> code_unit list \<Rightarrow> nat list \<Rightarrow> Matcher \<Rightarrow> (bool \<times> Matcher) option" where
  "match_loop states inputLength position [] active m = Some (list_ex (\<lambda>q. ps_kind (states ! q) = MatchState) active, m)"
| "match_loop states inputLength position (character # rest) active m =
     (let seeds = seeds_of states character active
      in if seeds = [] then Some (False, m)
         else Option.bind (closure states seeds (Suc position) inputLength m) (\<lambda>(active, m).
           match_loop states inputLength (Suc position) rest active m))"

record LinearRegex =
  lr_start :: nat
  lr_states :: "PatternState list"
  lr_max :: nat

text \<open>\<open>compileLinearWholeRegex\<close>: the function it returns keeps \<open>seen\<close> and \<open>generation\<close> from call to call.\<close>

definition compileLinearWholeRegex :: "code_unit list \<Rightarrow> nat \<Rightarrow> (string + LinearRegex \<times> Matcher) option" where
  "compileLinearWholeRegex source maxInputCodeUnits =
     map_option (\<lambda>r. and_then r (\<lambda>pattern.
       let (start, states) = compilePattern pattern
       in Inr (\<lparr>lr_start = start, lr_states = states, lr_max = maxInputCodeUnits\<rparr>,
            \<lparr>ma_seen = replicate (length states) 0, ma_generation = 0\<rparr>))) (parse source)"

definition test_input :: "LinearRegex \<Rightarrow> Matcher \<Rightarrow> code_unit list \<Rightarrow> (bool \<times> Matcher) option" where
  "test_input re m input =
     (if length input > lr_max re then Some (False, m)
      else Option.bind (closure (lr_states re) [lr_start re] 0 (length input) m) (\<lambda>(active, m).
        match_loop (lr_states re) (length input) 0 input active m))"

section \<open>The automaton as a graph\<close>

text \<open>An edge taken without reading, one that reads a character, and a step between configurations.\<close>

definition eps_edge :: "PatternState list \<Rightarrow> nat \<Rightarrow> nat \<Rightarrow> nat \<Rightarrow> nat \<Rightarrow> bool" where
  "eps_edge states inputLength position q q' \<longleftrightarrow> list_ex ((=) q') (state_outputs (states ! q) position inputLength)"

definition char_edge :: "PatternState list \<Rightarrow> code_unit \<Rightarrow> nat \<Rightarrow> nat \<Rightarrow> bool" where
  "char_edge states c q q' \<longleftrightarrow> list_ex ((=) q') (seeds_of states c [q])"

definition config_step :: "PatternState list \<Rightarrow> code_unit list \<Rightarrow> nat \<times> nat \<Rightarrow> nat \<times> nat \<Rightarrow> bool" where
  "config_step states input c c' \<longleftrightarrow>
     snd c' = snd c \<and> eps_edge states (length input) (snd c) (fst c) (fst c') \<or>
     snd c' = Suc (snd c) \<and> snd c < length input \<and> char_edge states (input ! snd c) (fst c) (fst c')"

definition inside :: "nat set \<Rightarrow> (nat \<times> nat \<Rightarrow> nat \<times> nat \<Rightarrow> bool) \<Rightarrow> nat \<times> nat \<Rightarrow> nat \<times> nat \<Rightarrow> bool" where
  "inside Q E c c' \<longleftrightarrow> fst c \<in> Q \<and> E c c'"

text \<open>The states \<open>Q\<close> read what \<open>M\<close> denotes between entering at \<open>st\<close> and leaving to \<open>x\<close>.\<close>

definition fragment ::
    "(nat \<times> nat \<Rightarrow> nat \<times> nat \<Rightarrow> bool) \<Rightarrow> nat set \<Rightarrow> nat \<Rightarrow> nat \<Rightarrow> (nat \<Rightarrow> nat \<Rightarrow> bool) \<Rightarrow> bool" where
  "fragment E Q st x M \<longleftrightarrow>
     st \<in> Q \<and> x \<notin> Q \<and> (\<forall>c c'. inside Q E c c' \<longrightarrow> fst c' \<in> insert x Q) \<and>
     (\<forall>i j. (inside Q E)\<^sup>*\<^sup>* (st, i) (x, j) \<longleftrightarrow> M i j)"

lemma inside_mono: "(inside Q E)\<^sup>*\<^sup>* c c' \<Longrightarrow> Q \<subseteq> Q' \<Longrightarrow> (inside Q' E)\<^sup>*\<^sup>* c c'"
  by (rule rtranclp_mono [THEN predicate2D, rotated]) (auto simp: inside_def)

lemma inside_first: "inside Q E c c' \<Longrightarrow> (inside Q E)\<^sup>*\<^sup>* c' d \<Longrightarrow> (inside Q E)\<^sup>*\<^sup>* c d"
  by (rule converse_rtranclp_into_rtranclp)

lemma inside_last: "(inside Q E)\<^sup>*\<^sup>* c c' \<Longrightarrow> inside Q E c' d \<Longrightarrow> (inside Q E)\<^sup>*\<^sup>* c d"
  by (rule rtranclp.rtrancl_into_rtrancl)

lemma fragment_in: "fragment E Q st x M \<Longrightarrow> st \<in> Q"
  and fragment_out: "fragment E Q st x M \<Longrightarrow> x \<notin> Q"
  and fragment_step: "fragment E Q st x M \<Longrightarrow> fst c \<in> Q \<Longrightarrow> E c c' \<Longrightarrow> fst c' = x \<or> fst c' \<in> Q"
  and fragment_paths: "fragment E Q st x M \<Longrightarrow> (inside Q E)\<^sup>*\<^sup>* (st, i) (x, j) \<longleftrightarrow> M i j"
  unfolding fragment_def inside_def by blast+

text \<open>A path through a fragment has not left it, or has read what the fragment denotes.\<close>

lemma fragment_along:
  assumes "fragment E Q st x M" "(inside Q E)\<^sup>*\<^sup>* (st, i) c" "fst c \<in> Q" "E c c'"
  shows "fst c' \<in> Q \<and> (inside Q E)\<^sup>*\<^sup>* (st, i) c' \<or> fst c' = x \<and> M i (snd c')"
proof -
  have path: "(inside Q E)\<^sup>*\<^sup>* (st, i) c'" using assms(2,3,4) by (auto simp: inside_def intro: rtranclp.rtrancl_into_rtrancl)
  consider "fst c' = x" | "fst c' \<in> Q" using fragment_step [OF assms(1,3,4)] by blast
  then show ?thesis
  proof cases
    case 1
    then have "c' = (x, snd c')" by (metis prod.collapse)
    then have "(inside Q E)\<^sup>*\<^sup>* (st, i) (x, snd c')" using path by simp
    then show ?thesis using 1 fragment_paths [OF assms(1)] by simp
  qed (simp add: path)
qed

lemma fragment_single:
  assumes "\<And>i c'. E (st, i) c' \<longleftrightarrow> fst c' = x \<and> M i (snd c')" "st \<noteq> x"
  shows "fragment E {st} st x M"
proof -
  have leave: "fst c' = x" if "inside {st} E c c'" for c c' using that assms(1) by (cases c) (auto simp: inside_def)
  have "(inside {st} E)\<^sup>*\<^sup>* (st, i) c \<Longrightarrow> c = (st, i) \<or> fst c = x \<and> M i (snd c)" for i c
    by (induction rule: rtranclp_induct) (use assms in \<open>auto simp: inside_def\<close>)
  moreover have "(inside {st} E)\<^sup>*\<^sup>* (st, i) (x, j)" if "M i j" for i j
    by (rule r_into_rtranclp) (use that assms in \<open>simp add: inside_def\<close>)
  ultimately have "(inside {st} E)\<^sup>*\<^sup>* (st, i) (x, j) \<longleftrightarrow> M i j" for i j using assms(2) by fastforce
  then show ?thesis using assms(2) leave by (auto simp: fragment_def)
qed

lemma fragment_concat:
  assumes l: "fragment E Q1 s1 s2 M1" and r: "fragment E Q2 s2 x M2" and dis: "Q1 \<inter> Q2 = {}" "x \<notin> Q1"
  shows "fragment E (Q1 \<union> Q2) s1 x (\<lambda>i j. \<exists>k. M1 i k \<and> M2 k j)"
proof -
  let ?Q = "Q1 \<union> Q2"
  have s2: "s2 \<in> Q2" and x2: "x \<notin> Q2" using r by (auto dest: fragment_in fragment_out)
  have sound: "(inside ?Q E)\<^sup>*\<^sup>* (s1, i) c \<Longrightarrow>
      fst c \<in> Q1 \<and> (inside Q1 E)\<^sup>*\<^sup>* (s1, i) c \<or> fst c \<in> insert x Q2 \<and> (\<exists>k. M1 i k \<and> (inside Q2 E)\<^sup>*\<^sup>* (s2, k) c)" for i c
  proof (induction rule: rtranclp_induct)
    case base
    show ?case using l by (auto dest: fragment_in)
  next
    case (step c c')
    have E: "E c c'" and c: "fst c \<in> ?Q" using step.hyps(2) by (auto simp: inside_def)
    show ?case
    proof (cases "fst c \<in> Q1")
      case True
      then have "(inside Q1 E)\<^sup>*\<^sup>* (s1, i) c" using step.IH dis by auto
      from fragment_along [OF l this True E] show ?thesis using s2 by (cases c') auto
    next
      case False
      then obtain k where k: "M1 i k" "(inside Q2 E)\<^sup>*\<^sup>* (s2, k) c" and q: "fst c \<in> Q2" using step.IH c by auto
      then have "(inside Q2 E)\<^sup>*\<^sup>* (s2, k) c'" using E by (auto simp: inside_def intro: rtranclp.rtrancl_into_rtrancl)
      then show ?thesis using k(1) fragment_step [OF r q E] by auto
    qed
  qed
  have complete: "(inside ?Q E)\<^sup>*\<^sup>* (s1, i) (x, j)" if "M1 i k" "M2 k j" for i j k
  proof -
    have "(inside ?Q E)\<^sup>*\<^sup>* (s1, i) (s2, k)" using that(1) fragment_paths [OF l, of i k] by (auto intro: inside_mono)
    also have "(inside ?Q E)\<^sup>*\<^sup>* (s2, k) (x, j)" using that(2) fragment_paths [OF r, of k j] by (auto intro: inside_mono)
    finally show ?thesis .
  qed
  have "(inside ?Q E)\<^sup>*\<^sup>* (s1, i) (x, j) \<longleftrightarrow> (\<exists>k. M1 i k \<and> M2 k j)" for i j
    using sound [of i "(x, j)"] complete [of i _ j] dis(2) fragment_paths [OF r] by auto
  moreover have "fst c' \<in> insert x ?Q" if "inside ?Q E c c'" for c c'
    using that s2 fragment_step [OF l, of c c'] fragment_step [OF r, of c c'] by (auto simp: inside_def)
  ultimately show ?thesis using dis x2 l by (auto simp: fragment_def)
qed

lemma fragment_alternate:
  assumes l: "fragment E Q1 s1 x M1" and r: "fragment E Q2 s2 x M2" and dis: "Q1 \<inter> Q2 = {}" "st \<notin> Q1" "st \<notin> Q2" "st \<noteq> x"
    and E: "\<And>i c'. E (st, i) c' \<longleftrightarrow> c' = (s1, i) \<or> c' = (s2, i)"
  shows "fragment E (Q1 \<union> Q2 \<union> {st}) st x (\<lambda>i j. M1 i j \<or> M2 i j)"
proof -
  let ?Q = "Q1 \<union> Q2 \<union> {st}"
  note ins = fragment_in [OF l] fragment_in [OF r] fragment_out [OF l] fragment_out [OF r]
  have sound: "(inside ?Q E)\<^sup>*\<^sup>* (st, i) c \<Longrightarrow> c = (st, i) \<or> fst c \<in> Q1 \<and> (inside Q1 E)\<^sup>*\<^sup>* (s1, i) c \<or>
      fst c \<in> Q2 \<and> (inside Q2 E)\<^sup>*\<^sup>* (s2, i) c \<or> fst c = x \<and> (M1 i (snd c) \<or> M2 i (snd c))" for i c
  proof (induction rule: rtranclp_induct)
    case (step c c')
    have e: "E c c'" and q: "fst c \<in> ?Q" using step.hyps(2) by (auto simp: inside_def)
    from step.IH consider "c = (st, i)" | "fst c \<in> Q1" "(inside Q1 E)\<^sup>*\<^sup>* (s1, i) c" | "fst c \<in> Q2" "(inside Q2 E)\<^sup>*\<^sup>* (s2, i) c"
      | "fst c = x" by blast
    then show ?case
    proof cases
      case 1
      then show ?thesis using e E ins by auto
    next
      case 2
      from fragment_along [OF l 2(2,1) e] show ?thesis by auto
    next
      case 3
      from fragment_along [OF r 3(2,1) e] show ?thesis by auto
    next
      case 4
      then show ?thesis using q ins dis by auto
    qed
  qed simp
  have first: "inside ?Q E (st, i) (s1, i)" "inside ?Q E (st, i) (s2, i)" for i using E by (auto simp: inside_def)
  have "(inside ?Q E)\<^sup>*\<^sup>* (st, i) (x, j)" if "M1 i j \<or> M2 i j" for i j
    using that
  proof
    assume "M1 i j"
    then have "(inside ?Q E)\<^sup>*\<^sup>* (s1, i) (x, j)" using fragment_paths [OF l, of i j] by (auto intro: inside_mono)
    then show ?thesis by (rule inside_first [OF first(1)])
  next
    assume "M2 i j"
    then have "(inside ?Q E)\<^sup>*\<^sup>* (s2, i) (x, j)" using fragment_paths [OF r, of i j] by (auto intro: inside_mono)
    then show ?thesis by (rule inside_first [OF first(2)])
  qed
  then have "(inside ?Q E)\<^sup>*\<^sup>* (st, i) (x, j) \<longleftrightarrow> M1 i j \<or> M2 i j" for i j using sound [of i "(x, j)"] ins dis(4) by auto
  moreover have "fst c' \<in> insert x ?Q" if "inside ?Q E c c'" for c c'
    using that E [of "snd c" c'] ins fragment_step [OF l, of c c'] fragment_step [OF r, of c c'] by (cases c) (auto simp: inside_def)
  ultimately show ?thesis using dis ins by (auto simp: fragment_def)
qed

lemma fragment_optional:
  assumes l: "fragment E Q s1 x M" and dis: "st \<notin> Q" "st \<noteq> x" and E: "\<And>i c'. E (st, i) c' \<longleftrightarrow> c' = (s1, i) \<or> c' = (x, i)"
  shows "fragment E (Q \<union> {st}) st x (\<lambda>i j. i = j \<or> M i j)"
proof -
  let ?Q = "Q \<union> {st}"
  note ins = fragment_in [OF l] fragment_out [OF l]
  have sound: "(inside ?Q E)\<^sup>*\<^sup>* (st, i) c \<Longrightarrow> c = (st, i) \<or> fst c \<in> Q \<and> (inside Q E)\<^sup>*\<^sup>* (s1, i) c \<or>
      fst c = x \<and> (i = snd c \<or> M i (snd c))" for i c
  proof (induction rule: rtranclp_induct)
    case (step c c')
    have e: "E c c'" and q: "fst c \<in> ?Q" using step.hyps(2) by (auto simp: inside_def)
    from step.IH consider "c = (st, i)" | "fst c \<in> Q" "(inside Q E)\<^sup>*\<^sup>* (s1, i) c" | "fst c = x" by blast
    then show ?case
    proof cases
      case 1
      then show ?thesis using e E ins by auto
    next
      case 2
      from fragment_along [OF l 2(2,1) e] show ?thesis by auto
    next
      case 3
      then show ?thesis using q ins dis by auto
    qed
  qed simp
  have first: "inside ?Q E (st, i) (s1, i)" "inside ?Q E (st, i) (x, i)" for i using E by (auto simp: inside_def)
  have "(inside ?Q E)\<^sup>*\<^sup>* (st, i) (x, j)" if "i = j \<or> M i j" for i j
    using that
  proof
    assume "M i j"
    then have "(inside ?Q E)\<^sup>*\<^sup>* (s1, i) (x, j)" using fragment_paths [OF l, of i j] by (auto intro: inside_mono)
    then show ?thesis by (rule inside_first [OF first(1)])
  qed (use first in auto)
  then have "(inside ?Q E)\<^sup>*\<^sup>* (st, i) (x, j) \<longleftrightarrow> i = j \<or> M i j" for i j using sound [of i "(x, j)"] ins dis by auto
  moreover have "fst c' \<in> insert x ?Q" if "inside ?Q E c c'" for c c'
    using that E [of "snd c" c'] ins fragment_step [OF l, of c c'] by (cases c) (auto simp: inside_def)
  ultimately show ?thesis using dis ins by (auto simp: fragment_def)
qed

text \<open>A loop: from its split, and from its body.\<close>

lemma fragment_loop:
  assumes l: "fragment E Q s1 st M" and dis: "x \<notin> Q" "st \<noteq> x" and E: "\<And>i c'. E (st, i) c' \<longleftrightarrow> c' = (s1, i) \<or> c' = (x, i)"
  shows "fragment E (Q \<union> {st}) st x M\<^sup>*\<^sup>*" "fragment E (Q \<union> {st}) s1 x M\<^sup>+\<^sup>+"
proof -
  let ?Q = "Q \<union> {st}"
  note ins = fragment_in [OF l] fragment_out [OF l]
  have sound: "c = (st, i) \<or> fst c \<in> Q \<and> (inside Q E)\<^sup>*\<^sup>* (s1, i) c \<Longrightarrow> (inside ?Q E)\<^sup>*\<^sup>* c c' \<Longrightarrow>
      (\<exists>k. M\<^sup>*\<^sup>* i k \<and> c' = (st, k) \<and> (fst c \<in> Q \<longrightarrow> M\<^sup>+\<^sup>+ i k)) \<or>
      (\<exists>k. M\<^sup>*\<^sup>* i k \<and> fst c' \<in> Q \<and> (inside Q E)\<^sup>*\<^sup>* (s1, k) c') \<or> fst c' = x \<and> M\<^sup>*\<^sup>* i (snd c') \<and> (fst c \<in> Q \<longrightarrow> M\<^sup>+\<^sup>+ i (snd c'))" for i c c'
  proof (rotate_tac 1, induction rule: rtranclp_induct)
    case base
    then show ?case using ins by auto
  next
    case (step c' c'')
    have e: "E c' c''" and q: "fst c' \<in> ?Q" using step.hyps(2) by (auto simp: inside_def)
    from step.IH [OF step.prems] consider k where "M\<^sup>*\<^sup>* i k" "c' = (st, k)" "fst c \<in> Q \<longrightarrow> M\<^sup>+\<^sup>+ i k"
      | k where "M\<^sup>*\<^sup>* i k" "fst c' \<in> Q" "(inside Q E)\<^sup>*\<^sup>* (s1, k) c'" | "fst c' = x" by blast
    then show ?case
    proof cases
      case 1
      then show ?thesis using e E ins by auto
    next
      case 2
      from fragment_along [OF l 2(3,2) e] show ?thesis
      proof
        assume "fst c'' = st \<and> M k (snd c'')"
        then have "c'' = (st, snd c'')" "M\<^sup>+\<^sup>+ i (snd c'')" using 2(1) by (auto simp: prod_eq_iff)
        then show ?thesis by (metis tranclp_into_rtranclp)
      qed (use 2(1) in auto)
    next
      case 3
      then show ?thesis using q ins dis by auto
    qed
  qed
  have first: "inside ?Q E (st, i) (s1, i)" "inside ?Q E (st, i) (x, i)" for i using E by (auto simp: inside_def)
  have body: "(inside ?Q E)\<^sup>*\<^sup>* (s1, i) (st, j)" if "M i j" for i j
    using that fragment_paths [OF l, of i j] by (auto intro: inside_mono)
  have round: "(inside ?Q E)\<^sup>*\<^sup>* (st, i) (st, j)" if "M i j" for i j
    by (rule inside_first [OF first(1) body [OF that]])
  have rounds: "M\<^sup>*\<^sup>* i j \<Longrightarrow> (inside ?Q E)\<^sup>*\<^sup>* (st, i) (st, j)" for i j
    by (induction rule: rtranclp_induct) (simp, rule rtranclp_trans, assumption, erule round)
  have leave: "(inside ?Q E)\<^sup>*\<^sup>* (st, i) (x, j)" if "M\<^sup>*\<^sup>* i j" for i j
    by (rule inside_last [OF rounds [OF that] first(2)])
  have "(inside ?Q E)\<^sup>*\<^sup>* (st, i) (x, j) \<longleftrightarrow> M\<^sup>*\<^sup>* i j" for i j
    using sound [of "(st, i)" i "(x, j)"] leave ins dis by auto
  moreover have "(inside ?Q E)\<^sup>*\<^sup>* (s1, i) (x, j) \<longleftrightarrow> M\<^sup>+\<^sup>+ i j" for i j
  proof
    show "M\<^sup>+\<^sup>+ i j" if "(inside ?Q E)\<^sup>*\<^sup>* (s1, i) (x, j)"
      using sound [of "(s1, i)" i "(x, j)"] that ins dis by auto
    assume "M\<^sup>+\<^sup>+ i j"
    then obtain k where k: "M i k" "M\<^sup>*\<^sup>* k j" by (blast dest: tranclpD)
    show "(inside ?Q E)\<^sup>*\<^sup>* (s1, i) (x, j)" by (rule rtranclp_trans [OF body [OF k(1)] leave [OF k(2)]])
  qed
  moreover have "fst c' \<in> insert x ?Q" if "inside ?Q E c c'" for c c'
    using that E [of "snd c" c'] ins fragment_step [OF l, of c c'] by (cases c) (auto simp: inside_def)
  ultimately show "fragment E (Q \<union> {st}) st x M\<^sup>*\<^sup>*" "fragment E (Q \<union> {st}) s1 x M\<^sup>+\<^sup>+"
    using dis ins by (auto simp: fragment_def)
qed

section \<open>The automaton of a pattern\<close>

definition set_outlet :: "outlet \<Rightarrow> nat \<Rightarrow> PatternState \<Rightarrow> PatternState" where
  "set_outlet which target s = (case which of Out \<Rightarrow> s\<lparr>ps_out := Some target\<rparr> | Out1 \<Rightarrow> s\<lparr>ps_out1 := Some target\<rparr>)"

lemma set_outlet_kind [simp]: "ps_kind (set_outlet which target s) = ps_kind s"
  by (simp add: set_outlet_def split: outlet.splits)

lemma patch_simps [simp]:
  "patch [] target states = states"
  "patch (r # refs) target states = patch refs target (states[fst r := set_outlet (snd r) target (states ! fst r)])"
  "patch (refs @ refs') target states = patch refs' target (patch refs target states)"
  by (simp_all add: patch_def set_output_def set_outlet_def)

lemma length_patch [simp]: "length (patch refs target states) = length states"
  by (induction refs arbitrary: states) simp_all

lemma nth_patch:
  "q < length states \<Longrightarrow>
     patch refs target states ! q = foldl (\<lambda>s r. set_outlet (snd r) target s) (states ! q) (filter (\<lambda>r. fst r = q) refs)"
  by (induction refs arbitrary: states) (auto simp: nth_list_update)

lemma patch_outside: "q < length states \<Longrightarrow> q \<notin> fst ` set refs \<Longrightarrow> patch refs target states ! q = states ! q"
proof -
  assume q: "q < length states" "q \<notin> fst ` set refs"
  then have "filter (\<lambda>r. fst r = q) refs = []" by (auto simp: filter_empty_conv)
  then show ?thesis using nth_patch [OF q(1)] by simp
qed

lemma patch_local:
  "q < length states \<Longrightarrow> q < length states' \<Longrightarrow> states ! q = states' ! q \<Longrightarrow> patch refs target states ! q = patch refs target states' ! q"
  by (simp add: nth_patch)

definition pending_in :: "nat \<Rightarrow> nat \<Rightarrow> patch_reference list \<Rightarrow> bool" where
  "pending_in lo hi refs \<longleftrightarrow> list_all (\<lambda>r. lo \<le> fst r \<and> fst r < hi) refs"

lemma pending_in_simps [simp]:
  "pending_in lo hi []" "pending_in lo hi (r # refs) \<longleftrightarrow> lo \<le> fst r \<and> fst r < hi \<and> pending_in lo hi refs"
  "pending_in lo hi (refs @ refs') \<longleftrightarrow> pending_in lo hi refs \<and> pending_in lo hi refs'"
  by (auto simp: pending_in_def)

lemma pending_in_mono: "pending_in lo hi refs \<Longrightarrow> lo' \<le> lo \<Longrightarrow> hi \<le> hi' \<Longrightarrow> pending_in lo' hi' refs"
  by (auto simp: pending_in_def list_all_iff)

lemma patch_elsewhere:
  "pending_in lo hi refs \<Longrightarrow> q < lo \<or> hi \<le> q \<Longrightarrow> q < length states \<Longrightarrow> patch refs target states ! q = states ! q"
  by (rule patch_outside) (auto simp: pending_in_def list_all_iff)

text \<open>A fragment is built after the states already there, and its open outputs are its own.\<close>

lemma compile_extends:
  "compile node states = (st, pending, states') \<Longrightarrow>
     length states \<le> st \<and> st < length states' \<and> (\<forall>q < length states. states' ! q = states ! q) \<and>
     pending_in (length states) (length states') pending"
proof (induction node arbitrary: states st pending states')
  case (Concatenate l r)
  obtain ls lp S1 where l: "compile l states = (ls, lp, S1)" by (cases "compile l states")
  obtain rs rp S2 where r: "compile r S1 = (rs, rp, S2)" by (cases "compile r S1")
  note IH = Concatenate.IH(1) [OF l] Concatenate.IH(2) [OF r]
  have eq: "st = ls" "pending = rp" "states' = patch lp rs S2" using Concatenate.prems l r by auto
  have "states' ! q = states ! q" if "q < length states" for q
    unfolding eq by (subst patch_elsewhere [OF IH(1) [THEN conjunct2, THEN conjunct2, THEN conjunct2]]) (use IH that in auto)
  then show ?case using IH eq by (auto elim: pending_in_mono)
next
  case (Alternate l r)
  obtain ls lp S1 where l: "compile l states = (ls, lp, S1)" by (cases "compile l states")
  obtain rs rp S2 where r: "compile r S1 = (rs, rp, S2)" by (cases "compile r S1")
  note IH = Alternate.IH(1) [OF l] Alternate.IH(2) [OF r]
  note IH' = IH(1) [THEN conjunct2, THEN conjunct2, THEN conjunct2, THEN pending_in_mono]
    IH(2) [THEN conjunct2, THEN conjunct2, THEN conjunct2, THEN pending_in_mono]
  have "pending_in (length states) (Suc (length S2)) lp" "pending_in (length states) (Suc (length S2)) rp"
    by (rule IH'; use IH in simp)+
  then show ?case using IH Alternate.prems l r by (auto simp: Let_def nth_append)
next
  case (Repeat child minimum optional)
  obtain cs p S1 where c: "compile child states = (cs, p, S1)" by (cases "compile child states")
  note IH = Repeat.IH [OF c]
  let ?sp = "(plain_state SplitState)\<lparr>ps_out := Some cs\<rparr>"
  have "patch p t (S1 @ [?sp]) ! q = states ! q" if "q < length states" for q t
    by (subst patch_elsewhere [OF IH [THEN conjunct2, THEN conjunct2, THEN conjunct2]]) (use IH that in \<open>auto simp: nth_append\<close>)
  moreover have "pending_in (length states) (Suc (length S1)) p"
    by (rule IH [THEN conjunct2, THEN conjunct2, THEN conjunct2, THEN pending_in_mono]) auto
  ultimately show ?case using IH Repeat.prems c by (auto simp: Let_def nth_append split: if_splits)
qed (auto simp: nth_append)

lemmas compile_pending = compile_extends [THEN conjunct2, THEN conjunct2, THEN conjunct2]

lemma config_step_silent:
  assumes "states ! q = s" "ps_kind s \<in> {EpsilonState, SplitState, StartState, EndState}"
  shows "config_step states input (q, i) c' \<longleftrightarrow> snd c' = i \<and> list_ex ((=) (fst c')) (state_outputs s i (length input))"
proof -
  have "\<not> char_edge states c q q'" for c q' using assms by (auto simp: char_edge_def seeds_of_def)
  then show ?thesis using assms(1) by (simp add: config_step_def eps_edge_def)
qed

lemma config_step_character:
  assumes "states ! q = s" "ps_kind s = CharacterState" "ps_matches s = Some m" "ps_out s = Some x"
  shows "config_step states input (q, i) c' \<longleftrightarrow> c' = (x, Suc i) \<and> i < length input \<and> m (input ! i)"
proof -
  have "char_edge states c q q' \<longleftrightarrow> m c \<and> q' = x" for c q' using assms by (simp add: char_edge_def seeds_of_def)
  moreover have "\<not> eps_edge states L p q q'" for L p q' using assms by (simp add: eps_edge_def state_outputs_def)
  ultimately show ?thesis by (auto simp: config_step_def prod_eq_iff)
qed

lemma config_step_split:
  assumes "states ! q = s" "ps_kind s = SplitState" "ps_out s = Some a" "ps_out1 s = Some b"
  shows "config_step states input (q, i) c' \<longleftrightarrow> c' = (a, i) \<or> c' = (b, i)"
  by (cases c') (use assms in \<open>auto simp: config_step_silent [OF assms(1)] state_outputs_def\<close>)

text \<open>What compiling a node promises of any table that holds its states with the open outputs patched.\<close>

definition compiled :: "code_unit list \<Rightarrow> pattern_node \<Rightarrow> bool" where
  "compiled input node \<longleftrightarrow> (\<forall>states st pending states' table x. compile node states = (st, pending, states') \<longrightarrow>
     (\<forall>q. length states \<le> q \<and> q < length states' \<longrightarrow> table ! q = patch pending x states' ! q) \<longrightarrow>
     x \<notin> {length states..<length states'} \<longrightarrow>
     fragment (config_step table input) {length states..<length states'} st x (node_matches input node))"

lemma compiledI:
  assumes "\<And>states st pending states' table x. compile node states = (st, pending, states') \<Longrightarrow>
    \<forall>q. length states \<le> q \<and> q < length states' \<longrightarrow> table ! q = patch pending x states' ! q \<Longrightarrow>
    x \<notin> {length states..<length states'} \<Longrightarrow>
    fragment (config_step table input) {length states..<length states'} st x (node_matches input node)"
  shows "compiled input node"
  using assms unfolding compiled_def by blast

lemma compiledD:
  "compiled input node \<Longrightarrow> compile node states = (st, pending, states') \<Longrightarrow>
   \<forall>q. length states \<le> q \<and> q < length states' \<longrightarrow> table ! q = patch pending x states' ! q \<Longrightarrow>
   x \<notin> {length states..<length states'} \<Longrightarrow>
   fragment (config_step table input) {length states..<length states'} st x (node_matches input node)"
  unfolding compiled_def by blast

lemma compiled_empty:
  "compiled input EmptyNode"
proof (rule compiledI)
  fix states st pending states' table x
  assume prems: "compile EmptyNode states = (st, pending, states')"
    "\<forall>q. length states \<le> q \<and> q < length states' \<longrightarrow> table ! q = patch pending x states' ! q"
    "x \<notin> {length states..<length states'}"
  from prems have "table ! length states = (plain_state EpsilonState)\<lparr>ps_out := Some x\<rparr>" by (auto simp: set_outlet_def)
  from config_step_silent [OF this] have "fragment (config_step table input) {length states} (length states) x (node_matches input EmptyNode)"
    by (intro fragment_single) (use prems in \<open>auto simp: plain_state_def state_outputs_def\<close>)
  then show "fragment (config_step table input) {length states..<length states'} st x (node_matches input EmptyNode)" using prems by (auto simp del: node_matches.simps simp: atLeastLessThanSuc)
qed

lemma compiled_character:
  "compiled input (CharacterNode m)"
proof (rule compiledI)
  fix states st pending states' table x
  assume prems: "compile (CharacterNode m) states = (st, pending, states')"
    "\<forall>q. length states \<le> q \<and> q < length states' \<longrightarrow> table ! q = patch pending x states' ! q"
    "x \<notin> {length states..<length states'}"
  from prems have "table ! length states = (plain_state CharacterState)\<lparr>ps_matches := Some m, ps_out := Some x\<rparr>" by (auto simp: set_outlet_def)
  from config_step_character [OF this] have "fragment (config_step table input) {length states} (length states) x (node_matches input (CharacterNode m))"
    by (intro fragment_single) (use prems in \<open>auto simp: plain_state_def prod_eq_iff\<close>)
  then show "fragment (config_step table input) {length states..<length states'} st x (node_matches input (CharacterNode m))" using prems by (auto simp del: node_matches.simps simp: atLeastLessThanSuc)
qed

lemma compiled_start:
  "compiled input StartNode"
proof (rule compiledI)
  fix states st pending states' table x
  assume prems: "compile StartNode states = (st, pending, states')"
    "\<forall>q. length states \<le> q \<and> q < length states' \<longrightarrow> table ! q = patch pending x states' ! q"
    "x \<notin> {length states..<length states'}"
  from prems have "table ! length states = (plain_state StartState)\<lparr>ps_out := Some x\<rparr>" by (auto simp: set_outlet_def)
  from config_step_silent [OF this] have "fragment (config_step table input) {length states} (length states) x (node_matches input StartNode)"
    by (intro fragment_single) (use prems in \<open>auto simp: plain_state_def state_outputs_def\<close>)
  then show "fragment (config_step table input) {length states..<length states'} st x (node_matches input StartNode)" using prems by (auto simp del: node_matches.simps simp: atLeastLessThanSuc)
qed

lemma compiled_end:
  "compiled input EndNode"
proof (rule compiledI)
  fix states st pending states' table x
  assume prems: "compile EndNode states = (st, pending, states')"
    "\<forall>q. length states \<le> q \<and> q < length states' \<longrightarrow> table ! q = patch pending x states' ! q"
    "x \<notin> {length states..<length states'}"
  from prems have "table ! length states = (plain_state EndState)\<lparr>ps_out := Some x\<rparr>" by (auto simp: set_outlet_def)
  from config_step_silent [OF this] have "fragment (config_step table input) {length states} (length states) x (node_matches input EndNode)"
    by (intro fragment_single) (use prems in \<open>auto simp: plain_state_def state_outputs_def\<close>)
  then show "fragment (config_step table input) {length states..<length states'} st x (node_matches input EndNode)" using prems by (auto simp del: node_matches.simps simp: atLeastLessThanSuc)
qed

lemma compiled_concatenate:
  assumes "compiled input l" "compiled input r"
  shows "compiled input (Concatenate l r)"
proof (rule compiledI)
  fix states st pending states' table x
  assume prems: "compile (Concatenate l r) states = (st, pending, states')"
    "\<forall>q. length states \<le> q \<and> q < length states' \<longrightarrow> table ! q = patch pending x states' ! q"
    "x \<notin> {length states..<length states'}"
  obtain ls lp S1 where l: "compile l states = (ls, lp, S1)" by (cases "compile l states")
  obtain rs rp S2 where r: "compile r S1 = (rs, rp, S2)" by (cases "compile r S1")
  note el = compile_extends [OF l] and er = compile_extends [OF r]
  have eq: "st = ls" "pending = rp" "states' = patch lp rs S2" using prems(1) l r by auto
  have tab: "table ! q = patch rp x (patch lp rs S2) ! q" if "length states \<le> q" "q < length S2" for q
    using prems(2) that eq by simp
  have "fragment (config_step table input) {length states..<length S1} ls rs (node_matches input l)"
  proof (rule compiledD [OF assms(1) l])
    show "\<forall>q. length states \<le> q \<and> q < length S1 \<longrightarrow> table ! q = patch lp rs S1 ! q"
    proof safe
      fix q assume q: "length states \<le> q" "q < length S1"
      have "table ! q = patch rp x (patch lp rs S2) ! q" using tab [of q] q er by simp
      also have "\<dots> = patch lp rs S2 ! q" using q er by (intro patch_elsewhere [OF compile_pending [OF r]]) auto
      also have "\<dots> = patch lp rs S1 ! q" using q er by (intro patch_local) auto
      finally show "table ! q = patch lp rs S1 ! q" .
    qed
  qed (use er in auto)
  moreover have "fragment (config_step table input) {length S1..<length S2} rs x (node_matches input r)"
  proof (rule compiledD [OF assms(2) r])
    show "\<forall>q. length S1 \<le> q \<and> q < length S2 \<longrightarrow> table ! q = patch rp x S2 ! q"
    proof safe
      fix q assume q: "length S1 \<le> q" "q < length S2"
      have "patch lp rs S2 ! q = S2 ! q" using q el by (intro patch_elsewhere [OF compile_pending [OF l]]) auto
      then have "patch rp x (patch lp rs S2) ! q = patch rp x S2 ! q" using q by (intro patch_local) auto
      then show "table ! q = patch rp x S2 ! q" using tab [of q] q el by auto
    qed
  qed (use prems(3) el eq in auto)
  ultimately have "fragment (config_step table input) ({length states..<length S1} \<union> {length S1..<length S2}) ls x
      (\<lambda>i j. \<exists>k. node_matches input l i k \<and> node_matches input r k j)"
    by (rule fragment_concat) (use prems(3) eq er in auto)
  moreover have "{length states..<length S1} \<union> {length S1..<length S2} = {length states..<length states'}" using el er eq by auto
  moreover have "node_matches input (Concatenate l r) = (\<lambda>i j. \<exists>k. node_matches input l i k \<and> node_matches input r k j)"
    by (intro ext) simp
  ultimately show "fragment (config_step table input) {length states..<length states'} st x (node_matches input (Concatenate l r))" using eq by simp
qed

lemma compiled_alternate:
  assumes "compiled input l" "compiled input r"
  shows "compiled input (Alternate l r)"
proof (rule compiledI)
  fix states st pending states' table x
  assume prems: "compile (Alternate l r) states = (st, pending, states')"
    "\<forall>q. length states \<le> q \<and> q < length states' \<longrightarrow> table ! q = patch pending x states' ! q"
    "x \<notin> {length states..<length states'}"
  obtain ls lp S1 where l: "compile l states = (ls, lp, S1)" by (cases "compile l states")
  obtain rs rp S2 where r: "compile r S1 = (rs, rp, S2)" by (cases "compile r S1")
  note el = compile_extends [OF l] and er = compile_extends [OF r]
  let ?sp = "(plain_state SplitState)\<lparr>ps_out := Some ls, ps_out1 := Some rs\<rparr>"
  have eq: "st = length S2" "pending = lp @ rp" "states' = S2 @ [?sp]" using prems(1) l r by (auto simp: Let_def)
  have tab: "table ! q = patch rp x (patch lp x (S2 @ [?sp])) ! q" if "length states \<le> q" "q \<le> length S2" for q
    using prems(2) that eq by simp
  have "fragment (config_step table input) {length states..<length S1} ls x (node_matches input l)"
  proof (rule compiledD [OF assms(1) l])
    show "\<forall>q. length states \<le> q \<and> q < length S1 \<longrightarrow> table ! q = patch lp x S1 ! q"
    proof safe
      fix q assume q: "length states \<le> q" "q < length S1"
      have "table ! q = patch rp x (patch lp x (S2 @ [?sp])) ! q" using tab [of q] q er by simp
      also have "\<dots> = patch lp x (S2 @ [?sp]) ! q" using q er by (intro patch_elsewhere [OF compile_pending [OF r]]) auto
      also have "\<dots> = patch lp x S1 ! q" using q er by (intro patch_local) (auto simp: nth_append)
      finally show "table ! q = patch lp x S1 ! q" .
    qed
  qed (use er eq prems(3) in auto)
  moreover have "fragment (config_step table input) {length S1..<length S2} rs x (node_matches input r)"
  proof (rule compiledD [OF assms(2) r])
    show "\<forall>q. length S1 \<le> q \<and> q < length S2 \<longrightarrow> table ! q = patch rp x S2 ! q"
    proof safe
      fix q assume q: "length S1 \<le> q" "q < length S2"
      have "patch lp x (S2 @ [?sp]) ! q = (S2 @ [?sp]) ! q" using q el by (intro patch_elsewhere [OF compile_pending [OF l]]) auto
      then have "patch rp x (patch lp x (S2 @ [?sp])) ! q = patch rp x S2 ! q" using q by (intro patch_local) (auto simp: nth_append)
      then show "table ! q = patch rp x S2 ! q" using tab [of q] q el by auto
    qed
  qed (use prems(3) el eq in auto)
  moreover have "table ! length S2 = ?sp"
  proof -
    have "patch rp x (patch lp x (S2 @ [?sp])) ! length S2 = patch lp x (S2 @ [?sp]) ! length S2"
      using er by (intro patch_elsewhere [OF compile_pending [OF r]]) auto
    also have "\<dots> = ?sp" using el er by (subst patch_elsewhere [OF compile_pending [OF l]]) auto
    finally show ?thesis using tab [of "length S2"] el er by auto
  qed
  ultimately have "fragment (config_step table input) ({length states..<length S1} \<union> {length S1..<length S2} \<union> {length S2}) (length S2) x
      (\<lambda>i j. node_matches input l i j \<or> node_matches input r i j)"
    by (intro fragment_alternate config_step_split) (use prems(3) eq el er in \<open>auto simp: plain_state_def\<close>)
  moreover have "{length states..<length S1} \<union> {length S1..<length S2} \<union> {length S2} = {length states..<length states'}"
    using el er eq by auto
  moreover have "node_matches input (Alternate l r) = (\<lambda>i j. node_matches input l i j \<or> node_matches input r i j)"
    by (intro ext) simp
  ultimately show "fragment (config_step table input) {length states..<length states'} st x (node_matches input (Alternate l r))" using eq by simp
qed

lemma compiled_repeat:
  assumes "compiled input child"
  shows "compiled input (Repeat child minimum optional)"
proof (rule compiledI)
  fix states st pending states' table x
  assume prems: "compile (Repeat child minimum optional) states = (st, pending, states')"
    "\<forall>q. length states \<le> q \<and> q < length states' \<longrightarrow> table ! q = patch pending x states' ! q"
    "x \<notin> {length states..<length states'}"
  obtain cs p S1 where c: "compile child states = (cs, p, S1)" by (cases "compile child states")
  note ec = compile_extends [OF c]
  let ?sp = "(plain_state SplitState)\<lparr>ps_out := Some cs\<rparr>"
  define exit where "exit = (if optional then x else length S1)"
  have len: "length states' = Suc (length S1)" using prems(1) c by (auto simp: Let_def split: if_splits)
  have states': "patch pending x states' = patch [(length S1, Out1)] x (patch p exit (S1 @ [?sp]))"
    using prems(1) c by (auto simp: Let_def exit_def split: if_splits)
  have tab: "table ! q = patch [(length S1, Out1)] x (patch p exit (S1 @ [?sp])) ! q" if "length states \<le> q" "q \<le> length S1" for q
    using prems(2) that len states' by simp
  have f: "fragment (config_step table input) {length states..<length S1} cs exit (node_matches input child)"
  proof (rule compiledD [OF assms c])
    show "\<forall>q. length states \<le> q \<and> q < length S1 \<longrightarrow> table ! q = patch p exit S1 ! q"
    proof safe
      fix q assume q: "length states \<le> q" "q < length S1"
      have "table ! q = patch p exit (S1 @ [?sp]) ! q" using tab [of q] q by simp
      also have "\<dots> = patch p exit S1 ! q" using q by (intro patch_local) (auto simp: nth_append)
      finally show "table ! q = patch p exit S1 ! q" .
    qed
  qed (use prems(3) len in \<open>auto simp: exit_def\<close>)
  have "patch p exit (S1 @ [?sp]) ! length S1 = ?sp" using ec by (subst patch_elsewhere [OF compile_pending [OF c]]) auto
  then have "table ! length S1 = ?sp\<lparr>ps_out1 := Some x\<rparr>" using tab [of "length S1"] ec by (auto simp: set_outlet_def)
  then have split: "config_step table input (length S1, i) c' \<longleftrightarrow> c' = (cs, i) \<or> c' = (x, i)" for i c'
    by (rule config_step_split) (auto simp: plain_state_def)
  have Q: "{length states..<length S1} \<union> {length S1} = {length states..<length states'}" using len ec by auto
  have x: "x \<notin> {length states..<length S1}" "length S1 \<noteq> x" using prems(3) len ec by auto
  show "fragment (config_step table input) {length states..<length states'} st x (node_matches input (Repeat child minimum optional))"
  proof (cases optional)
    case True
    have "fragment (config_step table input) ({length states..<length S1} \<union> {length S1}) (length S1) x
        (\<lambda>i j. i = j \<or> node_matches input child i j)"
      by (rule fragment_optional) (use f True x split in \<open>auto simp: exit_def\<close>)
    moreover have "node_matches input (Repeat child minimum optional) = (\<lambda>i j. i = j \<or> node_matches input child i j)"
      using True by (intro ext) simp
    ultimately show ?thesis using Q True prems(1) c by (auto simp: Let_def)
  next
    case False
    have f': "fragment (config_step table input) {length states..<length S1} cs (length S1) (node_matches input child)"
      using f False by (simp add: exit_def)
    note loops = fragment_loop [OF f' x split]
    have "node_matches input (Repeat child minimum optional) =
        (if minimum = 1 then (node_matches input child)\<^sup>+\<^sup>+ else (node_matches input child)\<^sup>*\<^sup>*)"
      using False by (intro ext) simp
    then show ?thesis using loops Q False prems(1) c by (auto simp: Let_def)
  qed
qed

lemma every_node_compiled: "compiled input node"
  by (induction node)
    (simp_all add: compiled_empty compiled_character compiled_start compiled_end compiled_concatenate compiled_alternate compiled_repeat)

lemmas compile_fragment = compiledD [OF every_node_compiled]

section \<open>The simulation is the reachability of the automaton\<close>

lemma eps_edge_iff: "eps_edge states L p q q' \<longleftrightarrow> q' \<in> set (state_outputs (states ! q) p L)"
  by (auto simp: eps_edge_def list_ex_iff)

lemma seeds_of_iff: "q' \<in> set (seeds_of states c active) \<longleftrightarrow> (\<exists>q \<in> set active. char_edge states c q q')"
  by (auto simp: char_edge_def seeds_of_def list_ex_iff)

lemma seeds_of_char_edge: "char_edge states c q q' \<Longrightarrow> is_active (states ! q)"
  by (auto simp: char_edge_def seeds_of_def is_active_def Let_def split: if_splits)

lemma eps_edge_inactive: "eps_edge states L p q q' \<Longrightarrow> \<not> is_active (states ! q)"
  by (auto simp: eps_edge_def state_outputs_def is_active_def)

definition marked :: "nat list \<Rightarrow> nat \<Rightarrow> nat set" where
  "marked seen generation = {q. q < length seen \<and> seen ! q = generation}"

lemma marked_update [simp]: "q < length seen \<Longrightarrow> marked (seen[q := g]) g = insert q (marked seen g)"
  by (auto simp: marked_def nth_list_update)

text \<open>The marked states grow by all that the stack reaches; the active ones among them are recorded.\<close>

lemma closure_loop_spec:
  assumes "length seen = length states" "set stack \<subseteq> {..<length states}"
    "\<forall>q q'. eps_edge states L p q q' \<longrightarrow> q < length states \<longrightarrow> q' < length states"
    "\<forall>q q'. q \<in> marked seen g \<longrightarrow> eps_edge states L p q q' \<longrightarrow> q' \<in> marked seen g \<union> set stack"
  shows "\<exists>active' seen'. closure_loop states g p L seen active stack = Some (active', seen') \<and>
    length seen' = length seen \<and> set seen' \<subseteq> insert g (set seen) \<and> marked seen g \<union> set stack \<subseteq> marked seen' g \<and>
    (\<forall>q q'. q \<in> marked seen' g \<longrightarrow> eps_edge states L p q q' \<longrightarrow> q' \<in> marked seen' g) \<and>
    (\<forall>q \<in> marked seen' g. q \<in> marked seen g \<or> (\<exists>r \<in> set stack. (eps_edge states L p)\<^sup>*\<^sup>* r q)) \<and>
    set active' = set active \<union> {q \<in> marked seen' g - marked seen g. is_active (states ! q)}"
  using assms
proof (induction states g p L seen active stack rule: closure_loop.induct)
  case (1 states g p L seen active stack)
  note edges = "1.prems"(3)
  show ?case
  proof (cases stack)
    case Nil
    then show ?thesis using "1.prems" by (auto simp: closure_loop.simps [of _ _ _ _ _ _ "[]"])
  next
    case (Cons q rest)
    have q: "q < length seen" "q < length states" using "1.prems"(1,2) Cons by auto
    show ?thesis
    proof (cases "q \<in> marked seen g")
      case True
      then have m: "q < length seen \<and> seen ! q = g" by (simp add: marked_def)
      have "set rest \<subseteq> {..<length states}" using "1.prems"(2) Cons by simp
      moreover have "\<forall>q q'. q \<in> marked seen g \<longrightarrow> eps_edge states L p q q' \<longrightarrow> q' \<in> marked seen g \<union> set rest"
        using "1.prems"(4) Cons True by auto
      ultimately obtain active' seen' where "closure_loop states g p L seen active rest = Some (active', seen')"
        and IH: "length seen' = length seen" "set seen' \<subseteq> insert g (set seen)" "marked seen g \<union> set rest \<subseteq> marked seen' g"
          "\<forall>q q'. q \<in> marked seen' g \<longrightarrow> eps_edge states L p q q' \<longrightarrow> q' \<in> marked seen' g"
          "\<forall>q \<in> marked seen' g. q \<in> marked seen g \<or> (\<exists>r \<in> set rest. (eps_edge states L p)\<^sup>*\<^sup>* r q)"
          "set active' = set active \<union> {q \<in> marked seen' g - marked seen g. is_active (states ! q)}"
        using "1.IH"(1) [OF Cons m "1.prems"(1) _ edges] by auto
      then have run: "closure_loop states g p L seen active stack = Some (active', seen')" using Cons m by (subst closure_loop.simps) simp
      show ?thesis
        by (intro exI conjI, rule run) (use IH True Cons in auto)
    next
      case False
      then have m: "\<not> (q < length seen \<and> seen ! q = g)" "\<not> (length states \<le> q \<or> length seen \<le> q)" using q by (auto simp: marked_def)
      let ?seen = "seen[q := g]" and ?outs = "state_outputs (states ! q) p L"
      define act where "act = (if is_active (states ! q) then active @ [q] else active)"
      define stk where "stk = (if is_active (states ! q) then rest else rev ?outs @ rest)"
      have stk: "set stk = set rest \<union> {q'. eps_edge states L p q q'}"
        using eps_edge_inactive [of states L p q] by (auto simp: stk_def eps_edge_iff)
      have len: "length ?seen = length states" using "1.prems"(1) by simp
      have sub: "set stk \<subseteq> {..<length states}" using "1.prems"(2) edges q Cons stk by auto
      have closed: "\<forall>q q'. q \<in> marked ?seen g \<longrightarrow> eps_edge states L p q q' \<longrightarrow> q' \<in> marked ?seen g \<union> set stk"
        using "1.prems"(4) q Cons stk by auto
      have IH0: "\<exists>active' seen'. closure_loop states g p L ?seen act stk = Some (active', seen') \<and>
          length seen' = length ?seen \<and> set seen' \<subseteq> insert g (set ?seen) \<and> marked ?seen g \<union> set stk \<subseteq> marked seen' g \<and>
          (\<forall>q q'. q \<in> marked seen' g \<longrightarrow> eps_edge states L p q q' \<longrightarrow> q' \<in> marked seen' g) \<and>
          (\<forall>q \<in> marked seen' g. q \<in> marked ?seen g \<or> (\<exists>r \<in> set stk. (eps_edge states L p)\<^sup>*\<^sup>* r q)) \<and>
          set active' = set act \<union> {q \<in> marked seen' g - marked ?seen g. is_active (states ! q)}"
      proof (cases "is_active (states ! q)")
        case True
        then show ?thesis using "1.IH"(2) [OF Cons m refl refl True len _ edges] sub closed by (simp add: act_def stk_def)
      next
        case False
        then show ?thesis using "1.IH"(3) [OF Cons m refl refl False len _ edges] sub closed by (simp add: act_def stk_def)
      qed
      then obtain active' seen' where run0: "closure_loop states g p L ?seen act stk = Some (active', seen')"
        and IH: "length seen' = length seen" "set seen' \<subseteq> insert g (set ?seen)" "marked ?seen g \<union> set stk \<subseteq> marked seen' g"
          "\<forall>q q'. q \<in> marked seen' g \<longrightarrow> eps_edge states L p q q' \<longrightarrow> q' \<in> marked seen' g"
          "\<forall>q \<in> marked seen' g. q \<in> marked ?seen g \<or> (\<exists>r \<in> set stk. (eps_edge states L p)\<^sup>*\<^sup>* r q)"
          "set active' = set act \<union> {q \<in> marked seen' g - marked ?seen g. is_active (states ! q)}"
        by auto
      have run: "closure_loop states g p L seen active stack = Some (active', seen')"
        using Cons m run0 by (subst closure_loop.simps) (auto simp: act_def stk_def Let_def split: if_splits)
      have reach: "\<exists>r \<in> set stack. (eps_edge states L p)\<^sup>*\<^sup>* r q'" if new: "q' \<in> marked seen' g" "q' \<notin> marked seen g" for q'
      proof -
        consider "q' = q" | r where "r \<in> set rest" "(eps_edge states L p)\<^sup>*\<^sup>* r q'" | r where "eps_edge states L p q r" "(eps_edge states L p)\<^sup>*\<^sup>* r q'"
          using bspec [OF IH(5) new(1)] new(2) q stk by auto
        then show ?thesis using Cons by cases (auto intro: converse_rtranclp_into_rtranclp)
      qed
      have active': "set active' = set active \<union> {q \<in> marked seen' g - marked seen g. is_active (states ! q)}"
        using IH(3,6) q False by (auto simp: act_def)
      have marks: "set seen' \<subseteq> insert g (set seen)" using IH(2) set_update_subset_insert [of seen q g] by auto
      show ?thesis
        by (intro exI conjI, rule run) (use IH(1,3,4) marks reach active' Cons q stk in auto)
    qed
  qed
qed

text \<open>Between calls no state carries a mark of a later generation.\<close>

definition matcher_ok :: "PatternState list \<Rightarrow> Matcher \<Rightarrow> bool" where
  "matcher_ok states m \<longleftrightarrow>
     length (ma_seen m) = length states \<and> (\<forall>s \<in> set (ma_seen m). s \<le> ma_generation m) \<and> ma_generation m < 0xffffffff"

lemma closure_spec:
  assumes "matcher_ok states m" "set seeds \<subseteq> {..<length states}"
    "\<forall>q q'. eps_edge states L p q q' \<longrightarrow> q < length states \<longrightarrow> q' < length states"
  shows "\<exists>active m'. closure states seeds p L m = Some (active, m') \<and> matcher_ok states m' \<and>
    set active = {q. is_active (states ! q) \<and> (\<exists>r \<in> set seeds. (eps_edge states L p)\<^sup>*\<^sup>* r q)}"
proof -
  define wrap where "wrap = (Suc (ma_generation m) = 0xffffffff)"
  define seen where "seen = (if wrap then map (\<lambda>_. 0) (ma_seen m) else ma_seen m)"
  define g where "g = (if wrap then 1 else Suc (ma_generation m))"
  have old: "ma_seen m ! q \<le> ma_generation m" if "q < length states" for q
    using assms(1) that nth_mem [of q "ma_seen m"] by (simp add: matcher_ok_def)
  have start: "length seen = length states" "marked seen g = {}" "\<forall>s \<in> set seen. s \<le> g" "g < 0xffffffff"
    using assms(1) by (auto simp: matcher_ok_def seen_def g_def wrap_def marked_def dest: old)
  have "set (rev seeds) \<subseteq> {..<length states}" using assms(2) by simp
  then obtain active seen' where run: "closure_loop states g p L seen [] (rev seeds) = Some (active, seen')"
    and res: "length seen' = length seen" "set seen' \<subseteq> insert g (set seen)" "set seeds \<subseteq> marked seen' g"
      "\<forall>q q'. q \<in> marked seen' g \<longrightarrow> eps_edge states L p q q' \<longrightarrow> q' \<in> marked seen' g"
      "\<forall>q \<in> marked seen' g. (\<exists>r \<in> set seeds. (eps_edge states L p)\<^sup>*\<^sup>* r q)"
      "set active = {q \<in> marked seen' g. is_active (states ! q)}"
    using closure_loop_spec [OF start(1), of "rev seeds" L p g "[]"] assms(3) start(2) by auto
  have "(eps_edge states L p)\<^sup>*\<^sup>* r q \<Longrightarrow> r \<in> marked seen' g \<Longrightarrow> q \<in> marked seen' g" for r q
    by (induction rule: rtranclp_induct) (use res(4) in auto)
  then have "set active = {q. is_active (states ! q) \<and> (\<exists>r \<in> set seeds. (eps_edge states L p)\<^sup>*\<^sup>* r q)}"
    using res(3,5,6) by auto
  moreover have "closure states seeds p L m = Some (active, \<lparr>ma_seen = seen', ma_generation = g\<rparr>)"
    using run by (cases wrap) (simp_all add: closure_def Let_def seen_def g_def wrap_def)
  moreover have "matcher_ok states \<lparr>ma_seen = seen', ma_generation = g\<rparr>" using res(1,2) start by (auto simp: matcher_ok_def)
  ultimately show ?thesis by blast
qed

text \<open>The states active at a position are those the automaton can be in there.\<close>

definition reached :: "PatternState list \<Rightarrow> code_unit list \<Rightarrow> nat \<Rightarrow> nat \<times> nat \<Rightarrow> bool" where
  "reached states input st c \<longleftrightarrow> (config_step states input)\<^sup>*\<^sup>* (st, 0) c"

lemma reached_next: "reached states input st c \<Longrightarrow> config_step states input c c' \<Longrightarrow> reached states input st c'"
  by (auto simp: reached_def intro: rtranclp.rtrancl_into_rtrancl)

lemma reached_silently:
  "(eps_edge states (length input) p)\<^sup>*\<^sup>* r q \<Longrightarrow> reached states input st (r, p) \<Longrightarrow> reached states input st (q, p)"
  by (induction rule: rtranclp_induct) (auto elim!: reached_next simp: config_step_def)

lemma reached_from:
  assumes "reached states input st (q, p)"
  shows "if p = 0 then (eps_edge states (length input) 0)\<^sup>*\<^sup>* st q
    else \<exists>a r. reached states input st (a, p - 1) \<and> p \<le> length input \<and> char_edge states (input ! (p - 1)) a r \<and>
      (eps_edge states (length input) p)\<^sup>*\<^sup>* r q"
proof -
  have "reached states input st c \<Longrightarrow> if snd c = 0 then (eps_edge states (length input) 0)\<^sup>*\<^sup>* st (fst c)
      else \<exists>a r. reached states input st (a, snd c - 1) \<and> snd c \<le> length input \<and> char_edge states (input ! (snd c - 1)) a r \<and>
        (eps_edge states (length input) (snd c))\<^sup>*\<^sup>* r (fst c)" for c
    unfolding reached_def
  proof (induction rule: rtranclp_induct)
    case (step c c')
    from step.hyps(2) consider
        "snd c' = snd c" "eps_edge states (length input) (snd c) (fst c) (fst c')"
      | "snd c' = Suc (snd c)" "snd c < length input" "char_edge states (input ! snd c) (fst c) (fst c')"
      by (auto simp: config_step_def)
    then show ?case
    proof cases
      case 1
      then show ?thesis using step.IH by (auto split: if_splits intro: rtranclp.rtrancl_into_rtrancl)
    next
      case 2
      then show ?thesis using step.hyps(1) by (cases c) auto
    qed
  qed simp
  from this [OF assms] show ?thesis by (cases p) simp_all
qed

definition active_at :: "PatternState list \<Rightarrow> code_unit list \<Rightarrow> nat \<Rightarrow> nat \<Rightarrow> nat set" where
  "active_at states input st p = {q. is_active (states ! q) \<and> reached states input st (q, p)}"

lemma active_start:
  "{q. is_active (states ! q) \<and> (\<exists>r \<in> set [st]. (eps_edge states (length input) 0)\<^sup>*\<^sup>* r q)} = active_at states input st 0"
proof -
  have "(eps_edge states (length input) 0)\<^sup>*\<^sup>* st q \<longleftrightarrow> reached states input st (q, 0)" for q
    using reached_from [of states input st q 0] reached_silently [of states input 0 st q st] by (auto simp: reached_def)
  then show ?thesis by (simp add: active_at_def)
qed

lemma active_next:
  assumes "set active = active_at states input st p" "p < length input"
  shows "{q. is_active (states ! q) \<and> (\<exists>r \<in> set (seeds_of states (input ! p) active).
      (eps_edge states (length input) (Suc p))\<^sup>*\<^sup>* r q)} = active_at states input st (Suc p)"
proof -
  have seeds: "r \<in> set (seeds_of states (input ! p) active) \<longleftrightarrow>
      (\<exists>a. reached states input st (a, p) \<and> char_edge states (input ! p) a r)" for r
    using assms(1) seeds_of_char_edge by (auto simp: seeds_of_iff active_at_def)
  have "reached states input st (q, Suc p)" if seed: "r \<in> set (seeds_of states (input ! p) active)"
      "(eps_edge states (length input) (Suc p))\<^sup>*\<^sup>* r q" for q r
  proof -
    obtain a where a: "reached states input st (a, p)" "char_edge states (input ! p) a r" using seed(1) by (auto simp: seeds)
    have "reached states input st (r, Suc p)" by (rule reached_next [OF a(1)]) (use a(2) assms(2) in \<open>simp add: config_step_def\<close>)
    then show ?thesis by (rule reached_silently [OF seed(2)])
  qed
  moreover have "\<exists>r \<in> set (seeds_of states (input ! p) active). (eps_edge states (length input) (Suc p))\<^sup>*\<^sup>* r q"
    if later: "reached states input st (q, Suc p)" for q
  proof -
    obtain a r where "reached states input st (a, p)" "char_edge states (input ! p) a r" "(eps_edge states (length input) (Suc p))\<^sup>*\<^sup>* r q"
      using reached_from [OF later] by auto
    then show ?thesis unfolding Bex_def seeds by blast
  qed
  ultimately show ?thesis by (auto simp: active_at_def)
qed

lemma active_in_table:
  assumes "\<forall>q q' p. eps_edge states (length input) p q q' \<longrightarrow> q < length states \<longrightarrow> q' < length states"
    "\<forall>c q q'. char_edge states c q q' \<longrightarrow> q < length states \<longrightarrow> q' < length states" "st < length states" "reached states input st c"
  shows "fst c < length states"
  using assms(4) unfolding reached_def
  by (induction rule: rtranclp_induct) (use assms(1,2,3) in \<open>auto simp: config_step_def\<close>)

lemma reached_none:
  assumes "\<And>q. \<not> reached states input st (q, p)" "p \<le> p'"
  shows "\<not> reached states input st (q, p')"
  using assms(2)
proof (induction p' arbitrary: q rule: dec_induct)
  case base
  show ?case by (rule assms(1))
next
  case (step p')
  then show ?case using reached_from [of states input st q "Suc p'"] by auto
qed

lemma match_loop_spec:
  assumes table: "\<forall>q q' p. eps_edge states (length input) p q q' \<longrightarrow> q < length states \<longrightarrow> q' < length states"
    "\<forall>c q q'. char_edge states c q q' \<longrightarrow> q < length states \<longrightarrow> q' < length states" "st < length states"
  shows "matcher_ok states m \<Longrightarrow> set active = active_at states input st p \<Longrightarrow> p \<le> length input \<Longrightarrow>
    \<exists>m'. match_loop states (length input) p (drop p input) active m =
        Some ((\<exists>q. ps_kind (states ! q) = MatchState \<and> reached states input st (q, length input)), m') \<and> matcher_ok states m'"
proof (induction "length input - p" arbitrary: p active m)
  case 0
  then have "p = length input" by simp
  then show ?case using "0.prems" by (auto simp: list_ex_iff active_at_def is_active_def)
next
  case (Suc n)
  then have p: "p < length input" by simp
  then have drop: "drop p input = input ! p # drop (Suc p) input" by (rule Cons_nth_drop_Suc [symmetric])
  note active = active_next [OF Suc.prems(2) p]
  let ?seeds = "seeds_of states (input ! p) active"
  show ?case
  proof (cases "?seeds = []")
    case True
    have "\<not> reached states input st (q, Suc p)" for q
      using reached_from [of states input st q "Suc p"] True Suc.prems(2) seeds_of_char_edge seeds_of_iff [of _ states "input ! p" active]
      by (fastforce simp: active_at_def)
    then have "\<not> reached states input st (q, length input)" for q by (rule reached_none) (use p in simp)
    then show ?thesis using True drop Suc.prems(1) by simp
  next
    case False
    have "set ?seeds \<subseteq> {..<length states}"
    proof
      fix r assume "r \<in> set ?seeds"
      then obtain a where "a \<in> set active" "char_edge states (input ! p) a r" by (auto simp: seeds_of_iff)
      then show "r \<in> {..<length states}" using active_in_table [OF table, of "(a, p)"] table(2) Suc.prems(2) by (auto simp: active_at_def)
    qed
    then obtain active' m' where next_active: "closure states ?seeds (Suc p) (length input) m = Some (active', m')" "matcher_ok states m'"
        "set active' = active_at states input st (Suc p)"
      using closure_spec [OF Suc.prems(1), of ?seeds "length input" "Suc p"] table(1) active by auto
    have "n = length input - Suc p" "Suc p \<le> length input" using Suc.hyps(2) p by simp_all
    from Suc.hyps(1) [OF this(1) next_active(2,3) this(2)] show ?thesis using False drop next_active(1) by simp
  qed
qed

section \<open>The compiled function decides the pattern\<close>

lemma patch_kind [simp]: "q < length states \<Longrightarrow> ps_kind (patch refs target states ! q) = ps_kind (states ! q)"
proof (induction refs arbitrary: states)
  case (Cons r refs)
  then show ?case by (cases "fst r = q") auto
qed simp

lemma no_match_state:
  "compile node states = (st, pending, states') \<Longrightarrow> length states \<le> q \<Longrightarrow> q < length states' \<Longrightarrow>
     ps_kind (states' ! q) \<noteq> MatchState"
proof (induction node arbitrary: states st pending states')
  case (Concatenate l r)
  obtain ls lp S1 where l: "compile l states = (ls, lp, S1)" by (cases "compile l states")
  obtain rs rp S2 where r: "compile r S1 = (rs, rp, S2)" by (cases "compile r S1")
  have "states' = patch lp rs S2" using Concatenate.prems(1) l r by auto
  then show ?case using Concatenate.IH(1) [OF l] Concatenate.IH(2) [OF r] Concatenate.prems compile_extends [OF r]
    by (cases "q < length S1") auto
next
  case (Alternate l r)
  obtain ls lp S1 where l: "compile l states = (ls, lp, S1)" by (cases "compile l states")
  obtain rs rp S2 where r: "compile r S1 = (rs, rp, S2)" by (cases "compile r S1")
  have "states' = S2 @ [(plain_state SplitState)\<lparr>ps_out := Some ls, ps_out1 := Some rs\<rparr>]"
    using Alternate.prems(1) l r by (auto simp: Let_def)
  then show ?case using Alternate.IH(1) [OF l] Alternate.IH(2) [OF r] Alternate.prems compile_extends [OF r]
    by (cases "q < length S1") (auto simp: nth_append plain_state_def)
next
  case (Repeat child minimum optional)
  obtain cs p S1 where c: "compile child states = (cs, p, S1)" by (cases "compile child states")
  let ?S = "S1 @ [(plain_state SplitState)\<lparr>ps_out := Some cs\<rparr>]"
  have "length states' = length ?S" "ps_kind (states' ! q) = ps_kind (?S ! q)"
    using Repeat.prems c by (auto simp: Let_def split: if_splits)
  then show ?case using Repeat.IH [OF c] Repeat.prems by (auto simp: nth_append plain_state_def)
qed (auto simp: nth_append plain_state_def)

text \<open>The states of the pattern lead from the start to the match state, which is the last one.\<close>

lemma pattern_fragment:
  assumes "compilePattern pattern = (st, table)"
  shows "\<exists>x. length table = Suc x \<and> fragment (config_step table input) {..<x} st x (node_matches input pattern) \<and>
    ps_kind (table ! x) = MatchState \<and> (\<forall>q < x. ps_kind (table ! q) \<noteq> MatchState)"
proof -
  obtain start pending S where c: "compile pattern [] = (start, pending, S)" by (cases "compile pattern []")
  note e = compile_extends [OF c]
  have t: "st = start" "table = patch pending (length S) (S @ [plain_state MatchState])"
    using assms c by (auto simp: compilePattern_def)
  have "fragment (config_step table input) {length ([] :: PatternState list)..<length S} start (length S) (node_matches input pattern)"
  proof (rule compile_fragment [OF c])
    show "\<forall>q. length [] \<le> q \<and> q < length S \<longrightarrow> table ! q = patch pending (length S) S ! q"
      unfolding t by (auto simp: nth_append intro!: patch_local)
  qed simp
  then show ?thesis
    using t no_match_state [OF c] e by (intro exI [of _ "length S"]) (auto simp: nth_append plain_state_def atLeast0LessThan)
qed

lemma match_no_step: "ps_kind (table ! x) = MatchState \<Longrightarrow> \<not> config_step table input (x, i) c"
  by (auto simp: config_step_def eps_edge_def char_edge_def state_outputs_def seeds_of_def)

lemma reached_match:
  assumes "fragment (config_step table input) {..<x} st x (node_matches input pattern)" "ps_kind (table ! x) = MatchState"
  shows "reached table input st (x, j) \<longleftrightarrow> node_matches input pattern 0 j"
proof -
  have "(inside {..<x} (config_step table input))\<^sup>*\<^sup>* (st, 0) c \<and> fst c \<le> x" if "reached table input st c" for c
    using that unfolding reached_def
  proof (induction rule: rtranclp_induct)
    case base
    then show ?case using fragment_in [OF assms(1)] by simp
  next
    case (step c c')
    have "fst c \<noteq> x" using step.hyps(2) match_no_step [OF assms(2), of input "snd c" c'] by (metis prod.collapse)
    then have "inside {..<x} (config_step table input) c c'" using step.IH step.hyps(2) by (simp add: inside_def)
    then show ?case using step.IH fragment_step [OF assms(1), of c c'] by (auto simp: inside_def intro: rtranclp.rtrancl_into_rtrancl)
  qed
  from this [of "(x, j)"] have "reached table input st (x, j) \<Longrightarrow> (inside {..<x} (config_step table input))\<^sup>*\<^sup>* (st, 0) (x, j)" by simp
  moreover have "(inside {..<x} (config_step table input))\<^sup>*\<^sup>* (st, 0) (x, j) \<Longrightarrow> reached table input st (x, j)"
    unfolding reached_def by (erule rtranclp_mono [THEN predicate2D, rotated]) (auto simp: inside_def)
  ultimately show ?thesis using fragment_paths [OF assms(1), of 0 j] by blast
qed

lemma table_closed:
  assumes "compilePattern pattern = (st, table)"
  shows "\<forall>q q' p. eps_edge table L p q q' \<longrightarrow> q < length table \<longrightarrow> q' < length table"
    "\<forall>c q q'. char_edge table c q q' \<longrightarrow> q < length table \<longrightarrow> q' < length table" "st < length table"
proof -
  have step: "q' < length table" if "config_step table input (q, i) (q', j)" "q < length table" for input q i q' j
  proof -
    obtain x where x: "length table = Suc x" "fragment (config_step table input) {..<x} st x (node_matches input pattern)"
        "ps_kind (table ! x) = MatchState" "\<forall>q < x. ps_kind (table ! q) \<noteq> MatchState"
      using pattern_fragment [OF assms, where input = input] by blast
    have "q \<noteq> x" using that(1) match_no_step [OF x(3)] by auto
    then show ?thesis using fragment_step [OF x(2), of "(q, i)" "(q', j)"] that x(1) by auto
  qed
  show "\<forall>q q' p. eps_edge table L p q q' \<longrightarrow> q < length table \<longrightarrow> q' < length table"
    using step [of "replicate L 0"] by (simp add: config_step_def) blast
  show "\<forall>c q q'. char_edge table c q q' \<longrightarrow> q < length table \<longrightarrow> q' < length table"
  proof (intro allI impI)
    fix c q q' assume "char_edge table c q q'" "q < length table"
    then show "q' < length table" using step [of "[c]" q 0 q' 1] by (simp add: config_step_def)
  qed
  obtain x where "length table = Suc x" "fragment (config_step table []) {..<x} st x (node_matches [] pattern)"
      "ps_kind (table ! x) = MatchState" "\<forall>q < x. ps_kind (table ! q) \<noteq> MatchState"
    using pattern_fragment [OF assms, where input = "[]"] by blast
  then show "st < length table" by (auto dest: fragment_in)
qed

lemma test_input_spec:
  assumes "compilePattern pattern = (st, table)" "matcher_ok table m"
  shows "\<exists>m'. test_input \<lparr>lr_start = st, lr_states = table, lr_max = limit\<rparr> m input =
    Some (length input \<le> limit \<and> node_matches input pattern 0 (length input), m') \<and> matcher_ok table m'"
proof (cases "length input \<le> limit")
  case True
  note closed = table_closed [OF assms(1)]
  obtain x where x: "length table = Suc x" "fragment (config_step table input) {..<x} st x (node_matches input pattern)"
      "ps_kind (table ! x) = MatchState" "\<forall>q < x. ps_kind (table ! q) \<noteq> MatchState"
    using pattern_fragment [OF assms(1), where input = input] by blast
  obtain active m' where start: "closure table [st] 0 (length input) m = Some (active, m')" "matcher_ok table m'"
      "set active = active_at table input st 0"
    using closure_spec [OF assms(2), of "[st]" "length input" 0] closed active_start [where states = table and input = input] by auto
  have only: "q = x" if "ps_kind (table ! q) = MatchState" "reached table input st (q, length input)" for q
    using active_in_table [OF closed that(2)] x(1,4) that(1) by (cases "q = x") auto
  have "(\<exists>q. ps_kind (table ! q) = MatchState \<and> reached table input st (q, length input)) \<longleftrightarrow>
      node_matches input pattern 0 (length input)"
    using reached_match [OF x(2,3)] x(3) only by metis
  then show ?thesis using match_loop_spec [OF closed start(2,3)] start(1) True by (auto simp: test_input_def)
qed (use assms in \<open>simp add: test_input_def\<close>)

text \<open>The compiled function called on one input after another.\<close>

fun test_all :: "LinearRegex \<Rightarrow> Matcher \<Rightarrow> code_unit list list \<Rightarrow> bool list option" where
  "test_all re m [] = Some []"
| "test_all re m (input # inputs) = Option.bind (test_input re m input) (\<lambda>(b, m). map_option ((#) b) (test_all re m inputs))"

lemma test_all_spec:
  "compilePattern pattern = (st, table) \<Longrightarrow> matcher_ok table m \<Longrightarrow>
   test_all \<lparr>lr_start = st, lr_states = table, lr_max = limit\<rparr> m inputs =
     Some (map (\<lambda>input. length input \<le> limit \<and> node_matches input pattern 0 (length input)) inputs)"
proof (induction inputs arbitrary: m)
  case (Cons input inputs)
  obtain m' where "test_input \<lparr>lr_start = st, lr_states = table, lr_max = limit\<rparr> m input =
      Some (length input \<le> limit \<and> node_matches input pattern 0 (length input), m')" "matcher_ok table m'"
    using test_input_spec [OF Cons.prems] by blast
  then show ?case using Cons.IH [OF Cons.prems(1)] by simp
qed simp

text \<open>C32: Compiling a pattern always ends. It throws exactly what the parser throws; otherwise the compiled function,
  called on any inputs one after another, never throws and answers exactly as the pattern denotes: true when the
  input is within the length limit and the whole of it matches.\<close>

theorem regex_exact:
  "\<exists>r. parse source = Some r \<and>
     (case r of Inl e \<Rightarrow> compileLinearWholeRegex source limit = Some (Inl e)
      | Inr pattern \<Rightarrow> \<exists>re m. compileLinearWholeRegex source limit = Some (Inr (re, m)) \<and>
          (\<forall>inputs. test_all re m inputs =
             Some (map (\<lambda>input. length input \<le> limit \<and> node_matches input pattern 0 (length input)) inputs)))"
proof -
  obtain r where r: "parse source = Some r" using parser_ends [of source] by blast
  show ?thesis
  proof (cases r)
    case (Inl e)
    then show ?thesis using r by (simp add: compileLinearWholeRegex_def and_then_def)
  next
    case (Inr pattern)
    obtain st table where c: "compilePattern pattern = (st, table)" by (cases "compilePattern pattern")
    have "matcher_ok table \<lparr>ma_seen = replicate (length table) 0, ma_generation = 0\<rparr>" by (auto simp: matcher_ok_def)
    from test_all_spec [OF c this] show ?thesis using r Inr c by (simp add: compileLinearWholeRegex_def and_then_def)
  qed
qed

text \<open>A pattern run: an anchored alternative and a nested repetition.\<close>

definition sample_pattern :: "code_unit list" where
  "sample_pattern = map of_char ''(?:ab*|^$)+''"

lemma sample_parses: "(case parse sample_pattern of Some (Inr _) \<Rightarrow> True | _ \<Rightarrow> False)"
  by code_simp

lemma sample_tests:
  "(case compileLinearWholeRegex sample_pattern 4 of
      Some (Inr (re, m)) \<Rightarrow> test_all re m (map (map of_char) [''abba'', '''', ''ba'', ''aaaaa'', ''ab'']) =
        Some [True, True, False, False, True]
    | _ \<Rightarrow> False)"
  by code_simp

end
