(* ===== verification/RegexSyntax.thy ===== *)
theory RegexSyntax
  imports LinearRegex
begin

text \<open>
  The notation of packages/shared/src/linear-regex.ts as a grammar of its own: escapes, character
  classes with single characters and ranges, groups, greedy and lazy quantifiers, sequences and
  alternatives, each with the text it is written as and what it denotes. Nothing here uses the parser
  but the last part, which proves that the parser reads every text of the grammar with its meaning.
\<close>

section \<open>The grammar\<close>

datatype escape =
    EDigit | ENonDigit | ESpace | ENonSpace | EWord | ENonWord
  | ENewline | EReturn | ETab | EFeed | EVertical | EBackspace | ENull
  | EHex code_unit code_unit
  | EUnicode code_unit code_unit code_unit code_unit
  | EItself code_unit

datatype class_character = Plain code_unit | Escaped escape

datatype class_item = Single class_character | Between class_character class_character

datatype repetition = ZeroOrMore | OneOrMore | ZeroOrOne

text \<open>A group is written with \<open>?:\<close> or without; a repetition is lazy or greedy.\<close>

datatype atom =
    Character code_unit
  | Escape escape
  | AnyCharacter
  | AtStart
  | AtEnd
  | CharacterClass bool "class_item list"
  | Group bool alternatives
  and piece = Once atom | Repeated atom repetition bool
  and pieces = NoPiece | Piece piece pieces
  and alternatives = Only pieces | Either pieces alternatives

section \<open>Writing\<close>

fun written_escape :: "escape \<Rightarrow> code_unit list" where
  "written_escape EDigit = [ch CHR ''d'']"
| "written_escape ENonDigit = [ch CHR ''D'']"
| "written_escape ESpace = [ch CHR ''s'']"
| "written_escape ENonSpace = [ch CHR ''S'']"
| "written_escape EWord = [ch CHR ''w'']"
| "written_escape ENonWord = [ch CHR ''W'']"
| "written_escape ENewline = [ch CHR ''n'']"
| "written_escape EReturn = [ch CHR ''r'']"
| "written_escape ETab = [ch CHR ''t'']"
| "written_escape EFeed = [ch CHR ''f'']"
| "written_escape EVertical = [ch CHR ''v'']"
| "written_escape EBackspace = [ch CHR ''b'']"
| "written_escape ENull = [ch CHR ''0'']"
| "written_escape (EHex a b) = [ch CHR ''x'', a, b]"
| "written_escape (EUnicode a b c d) = [ch CHR ''u'', a, b, c, d]"
| "written_escape (EItself c) = [c]"

fun written_character :: "class_character \<Rightarrow> code_unit list" where
  "written_character (Plain c) = [c]"
| "written_character (Escaped e) = ch CHR 0x5C # written_escape e"

fun written_item :: "class_item \<Rightarrow> code_unit list" where
  "written_item (Single x) = written_character x"
| "written_item (Between x y) = written_character x @ [ch CHR ''-''] @ written_character y"

definition written_items :: "class_item list \<Rightarrow> code_unit list" where
  "written_items items = concat (map written_item items)"

fun quantifier_sign :: "repetition \<Rightarrow> code_unit" where
  "quantifier_sign ZeroOrMore = ch CHR ''*''"
| "quantifier_sign OneOrMore = ch CHR ''+''"
| "quantifier_sign ZeroOrOne = ch CHR ''?''"

fun written_atom :: "atom \<Rightarrow> code_unit list"
  and written_piece :: "piece \<Rightarrow> code_unit list"
  and written_pieces :: "pieces \<Rightarrow> code_unit list"
  and written :: "alternatives \<Rightarrow> code_unit list" where
  "written_atom (Character c) = [c]"
| "written_atom (Escape e) = ch CHR 0x5C # written_escape e"
| "written_atom AnyCharacter = [ch CHR ''.'']"
| "written_atom AtStart = [ch CHR ''^'']"
| "written_atom AtEnd = [ch CHR ''$'']"
| "written_atom (CharacterClass negated items) =
     ch CHR ''['' # (if negated then [ch CHR ''^''] else []) @ written_items items @ [ch CHR '']'']"
| "written_atom (Group plain e) =
     ch CHR ''('' # (if plain then [] else [ch CHR ''?'', ch CHR '':'']) @ written e @ [ch CHR '')'']"
| "written_piece (Once a) = written_atom a"
| "written_piece (Repeated a r lazy) = written_atom a @ [quantifier_sign r] @ (if lazy then [ch CHR ''?''] else [])"
| "written_pieces NoPiece = []"
| "written_pieces (Piece p ps) = written_piece p @ written_pieces ps"
| "written (Only ps) = written_pieces ps"
| "written (Either ps e) = written_pieces ps @ [ch CHR ''|''] @ written e"

section \<open>Meaning\<close>

text \<open>The code units that \<open>\\s\<close> stands for in JavaScript, and those of a word.\<close>

definition spaces :: "code_unit set" where
  "spaces = {9..13} \<union> {32, 160, 5760} \<union> {8192..8202} \<union> {8232, 8233, 8239, 8287, 12288, 65279}"

definition digits :: "code_unit set" where
  "digits = {ch CHR ''0''..ch CHR ''9''}"

definition word_characters :: "code_unit set" where
  "word_characters = {ch CHR ''A''..ch CHR ''Z''} \<union> {ch CHR ''a''..ch CHR ''z''} \<union> digits \<union> {ch CHR ''_''}"

fun escape_literal :: "escape \<Rightarrow> code_unit option" where
  "escape_literal ENewline = Some 10"
| "escape_literal EReturn = Some 13"
| "escape_literal ETab = Some 9"
| "escape_literal EFeed = Some 12"
| "escape_literal EVertical = Some 11"
| "escape_literal EBackspace = Some 8"
| "escape_literal ENull = Some 0"
| "escape_literal (EHex a b) = Some (16 * hex_digit_value a + hex_digit_value b)"
| "escape_literal (EUnicode a b c d) =
     Some (4096 * hex_digit_value a + 256 * hex_digit_value b + 16 * hex_digit_value c + hex_digit_value d)"
| "escape_literal (EItself c) = Some c"
| "escape_literal _ = None"

fun escape_denotes :: "escape \<Rightarrow> code_unit set" where
  "escape_denotes EDigit = digits"
| "escape_denotes ENonDigit = - digits"
| "escape_denotes ESpace = spaces"
| "escape_denotes ENonSpace = - spaces"
| "escape_denotes EWord = word_characters"
| "escape_denotes ENonWord = - word_characters"
| "escape_denotes e = set_option (escape_literal e)"

fun character_literal :: "class_character \<Rightarrow> code_unit option" where
  "character_literal (Plain c) = Some c"
| "character_literal (Escaped e) = escape_literal e"

fun character_denotes :: "class_character \<Rightarrow> code_unit set" where
  "character_denotes (Plain c) = {c}"
| "character_denotes (Escaped e) = escape_denotes e"

fun item_denotes :: "class_item \<Rightarrow> code_unit set" where
  "item_denotes (Single x) = character_denotes x"
| "item_denotes (Between x y) =
     (case (character_literal x, character_literal y) of (Some lo, Some hi) \<Rightarrow> {lo..hi} | _ \<Rightarrow> {})"

definition class_denotes :: "bool \<Rightarrow> class_item list \<Rightarrow> code_unit set" where
  "class_denotes negated items =
     (let union = \<Union> (item_denotes ` set items) in if negated then - union else union)"

definition one_of :: "code_unit set \<Rightarrow> code_unit list \<Rightarrow> nat \<Rightarrow> nat \<Rightarrow> bool" where
  "one_of C input i j = (i < length input \<and> input ! i \<in> C \<and> j = Suc i)"

text \<open>
  An expression matches the part of the input from one position to another. Whether a quantifier is
  lazy makes no difference to that.
\<close>

fun atom_denotes :: "code_unit list \<Rightarrow> atom \<Rightarrow> nat \<Rightarrow> nat \<Rightarrow> bool"
  and piece_denotes :: "code_unit list \<Rightarrow> piece \<Rightarrow> nat \<Rightarrow> nat \<Rightarrow> bool"
  and pieces_denote :: "code_unit list \<Rightarrow> pieces \<Rightarrow> nat \<Rightarrow> nat \<Rightarrow> bool"
  and denotes :: "code_unit list \<Rightarrow> alternatives \<Rightarrow> nat \<Rightarrow> nat \<Rightarrow> bool" where
  "atom_denotes input (Character c) i j = one_of {c} input i j"
| "atom_denotes input (Escape e) i j = one_of (escape_denotes e) input i j"
| "atom_denotes input AnyCharacter i j = one_of UNIV input i j"
| "atom_denotes input AtStart i j = (i = j \<and> i = 0)"
| "atom_denotes input AtEnd i j = (i = j \<and> i = length input)"
| "atom_denotes input (CharacterClass negated items) i j = one_of (class_denotes negated items) input i j"
| "atom_denotes input (Group plain e) i j = denotes input e i j"
| "piece_denotes input (Once a) i j = atom_denotes input a i j"
| "piece_denotes input (Repeated a r lazy) i j =
     (case r of ZeroOrMore \<Rightarrow> (atom_denotes input a)\<^sup>*\<^sup>* i j | OneOrMore \<Rightarrow> (atom_denotes input a)\<^sup>+\<^sup>+ i j
      | ZeroOrOne \<Rightarrow> i = j \<or> atom_denotes input a i j)"
| "pieces_denote input NoPiece i j = (i = j)"
| "pieces_denote input (Piece p ps) i j = (\<exists>k. piece_denotes input p i k \<and> pieces_denote input ps k j)"
| "denotes input (Only ps) i j = pieces_denote input ps i j"
| "denotes input (Either ps e) i j = (pieces_denote input ps i j \<or> denotes input e i j)"

section \<open>Which expressions can be written\<close>

text \<open>
  The rest of the notation, what may stand where: \<open>\\b\<close> only in a class, hexadecimal digits after \<open>\\x\<close>
  and \<open>\\u\<close>, and no letter or digit that has no meaning of its own.
\<close>

definition is_digit :: "code_unit \<Rightarrow> bool" where
  "is_digit c = (c \<in> digits)"

definition is_hex :: "code_unit \<Rightarrow> bool" where
  "is_hex c = (c \<in> digits \<union> {ch CHR ''A''..ch CHR ''F''} \<union> {ch CHR ''a''..ch CHR ''f''})"

fun escape_ok :: "bool \<Rightarrow> escape \<Rightarrow> bool" where
  "escape_ok in_class EBackspace = in_class"
| "escape_ok in_class (EHex a b) = (is_hex a \<and> is_hex b)"
| "escape_ok in_class (EUnicode a b c d) = (is_hex a \<and> is_hex b \<and> is_hex c \<and> is_hex d)"
| "escape_ok in_class (EItself c) = (c \<notin> word_characters - {ch CHR ''_''})"
| "escape_ok in_class _ = True"

text \<open>\<open>\\0\<close> is not followed by a digit; \<open>after\<close> is the text behind an escape.\<close>

definition null_ok :: "escape \<Rightarrow> code_unit list \<Rightarrow> bool" where
  "null_ok e after = (e = ENull \<longrightarrow> after = [] \<or> hd after \<notin> digits)"

fun character_ok :: "class_character \<Rightarrow> code_unit list \<Rightarrow> bool" where
  "character_ok (Plain c) after = (c \<noteq> ch CHR 0x5C)"
| "character_ok (Escaped e) after = (escape_ok True e \<and> null_ok e after)"

text \<open>
  A single literal is not followed by a hyphen, unless the hyphen ends the class. A range has literal
  ends in order, and its upper end is not a plain closing bracket.
\<close>

fun item_ok :: "class_item \<Rightarrow> code_unit list \<Rightarrow> bool" where
  "item_ok (Single x) after =
     (character_ok x after \<and>
      (character_literal x \<noteq> None \<longrightarrow> take 1 after = [ch CHR ''-''] \<longrightarrow> after = [ch CHR ''-'', ch CHR '']'']))"
| "item_ok (Between x y) after =
     (character_ok x [ch CHR ''-''] \<and> character_ok y after \<and> y \<noteq> Plain (ch CHR '']'') \<and>
      (case (character_literal x, character_literal y) of (Some lo, Some hi) \<Rightarrow> lo \<le> hi | _ \<Rightarrow> False))"

text \<open>A plain closing bracket can only come first in a class.\<close>

fun items_ok :: "bool \<Rightarrow> class_item list \<Rightarrow> bool" where
  "items_ok first [] = True"
| "items_ok first (item # items) =
     (item_ok item (written_items items @ [ch CHR '']'']) \<and>
      (first \<or> hd (written_item item) \<noteq> ch CHR '']'') \<and> items_ok False items)"

definition class_ok :: "bool \<Rightarrow> class_item list \<Rightarrow> bool" where
  "class_ok negated items =
     (items \<noteq> [] \<and> items_ok True items \<and> (negated \<or> hd (written_items items) \<noteq> ch CHR ''^''))"

text \<open>The code units that have a meaning of their own outside classes.\<close>

definition special :: "code_unit set" where
  "special = ch ` set ''.^$[()|*+?{}'' \<union> {ch CHR 0x5C}"

fun atom_ok :: "atom \<Rightarrow> bool"
  and piece_ok :: "piece \<Rightarrow> bool"
  and pieces_ok :: "pieces \<Rightarrow> bool"
  and expression_ok :: "alternatives \<Rightarrow> bool" where
  "atom_ok (Character c) = (c \<notin> special)"
| "atom_ok (Escape e) = escape_ok False e"
| "atom_ok AnyCharacter = True"
| "atom_ok AtStart = True"
| "atom_ok AtEnd = True"
| "atom_ok (CharacterClass negated items) = class_ok negated items"
| "atom_ok (Group plain e) = expression_ok e"
| "piece_ok (Once a) = atom_ok a"
| "piece_ok (Repeated a r lazy) = atom_ok a"
| "pieces_ok NoPiece = True"
| "pieces_ok (Piece p ps) =
     (piece_ok p \<and> pieces_ok ps \<and> (p = Once (Escape ENull) \<longrightarrow> null_ok ENull (written_pieces ps)))"
| "expression_ok (Only ps) = pieces_ok ps"
| "expression_ok (Either ps e) = (pieces_ok ps \<and> expression_ok e)"

section \<open>More fuel changes nothing\<close>

definition extends :: "'a option \<Rightarrow> 'a option \<Rightarrow> bool" where
  "extends x x' \<longleftrightarrow> (\<forall>r. x = Some r \<longrightarrow> x' = Some r)"

lemma bind_extends:
  "extends x x' \<Longrightarrow> (\<And>y. extends (f y) (f' y)) \<Longrightarrow> extends (parsed_bind x f) (parsed_bind x' f')"
  by (auto simp: extends_def parsed_bind_def split: option.splits sum.splits)

lemma extends_refl [simp]: "extends x x"
  by (simp add: extends_def)

lemma parser_fuel:
  shows "extends (parseAlternation n source) (parseAlternation (Suc n) source)"
    and "extends (parseAlternatives n node source) (parseAlternatives (Suc n) node source)"
    and "extends (parseSequence n node source) (parseSequence (Suc n) node source)"
    and "extends (parseQuantifiedAtom n source) (parseQuantifiedAtom (Suc n) source)"
    and "extends (parseAtom n source) (parseAtom (Suc n) source)"
proof (induction n arbitrary: source node)
  case 0
  { case 1 show ?case by (simp add: extends_def) next case 2 show ?case by (simp add: extends_def) next
    case 3 show ?case by (simp add: extends_def) next case 4 show ?case by (simp add: extends_def) next
    case 5 show ?case by (simp add: extends_def) }
next
  case (Suc n)
  {
    case 1
    show ?case unfolding parseAlternation.simps(2) [of n source] parseAlternation.simps(2) [of "Suc n" source]
      by (auto intro!: bind_extends Suc.IH simp del: parseAlternatives.simps parseSequence.simps)
  next
    case 2
    show ?case unfolding parseAlternatives.simps(2) [of n node source] parseAlternatives.simps(2) [of "Suc n" node source]
      by (auto intro!: bind_extends Suc.IH simp del: parseAlternatives.simps parseSequence.simps)
  next
    case 3
    show ?case unfolding parseSequence.simps(2) [of n node source] parseSequence.simps(2) [of "Suc n" node source]
      by (auto intro!: bind_extends Suc.IH simp del: parseSequence.simps parseQuantifiedAtom.simps)
  next
    case 4
    show ?case unfolding parseQuantifiedAtom.simps(2) [of n source] parseQuantifiedAtom.simps(2) [of "Suc n" source]
      by (auto intro!: bind_extends Suc.IH simp del: parseAtom.simps)
  next
    case 5
    show ?case unfolding parseAtom.simps(2) [of n source] parseAtom.simps(2) [of "Suc n" source]
      by (cases source) (auto intro!: bind_extends Suc.IH simp del: parseAlternation.simps)
  }
qed

lemma fuel_le:
  assumes "n \<le> m"
  shows "parseAlternation n source = Some r \<Longrightarrow> parseAlternation m source = Some r"
    and "parseAlternatives n node source = Some r \<Longrightarrow> parseAlternatives m node source = Some r"
    and "parseSequence n node source = Some r \<Longrightarrow> parseSequence m node source = Some r"
    and "parseQuantifiedAtom n source = Some q \<Longrightarrow> parseQuantifiedAtom m source = Some q"
    and "parseAtom n source = Some q \<Longrightarrow> parseAtom m source = Some q"
  using assms parser_fuel by (induction m rule: dec_induct) (auto simp: extends_def)

section \<open>Reading escapes and classes\<close>

lemma peek_front: "peek (c # s) = Some c" "peek [] = None"
  by (simp_all add: peek_def)

lemma digits_iff: "c \<in> digits \<longleftrightarrow> is_ascii_digit c"
  by (auto simp: digits_def is_ascii_digit_def)

lemma word_iff: "c \<in> word_characters \<longleftrightarrow> ascii_word c"
  by (auto simp: word_characters_def digits_def ascii_word_def is_ascii_letter_def is_ascii_digit_def)

lemma spaces_iff: "c \<in> spaces \<longleftrightarrow> whitespace c"
  by (auto simp: spaces_def whitespace_def)

lemma hex_iff: "is_hex c \<longleftrightarrow> hex_digit c"
  by (auto simp: is_hex_def hex_digit_def digits_iff is_ascii_digit_def)

lemma letters_iff: "c \<notin> word_characters - {ch CHR ''_''} \<longleftrightarrow> \<not> is_ascii_letter c \<and> \<not> is_ascii_digit c"
  by (auto simp: word_iff ascii_word_def is_ascii_letter_def is_ascii_digit_def)

definition escape_atom :: "escape \<Rightarrow> ClassAtom" where
  "escape_atom e = \<lparr>ca_literal = escape_literal e, ca_matches = (\<lambda>c. c \<in> escape_denotes e)\<rparr>"

lemma escape_atom_literal: "escape_literal e = Some c \<Longrightarrow> escape_atom e = literalEscape c"
  by (cases e) (auto simp: escape_atom_def literalEscape_def)

lemma read_hex:
  "is_hex a \<Longrightarrow> is_hex b \<Longrightarrow> readHexEscape 2 (a # b # rest) = Inr (16 * hex_digit_value a + hex_digit_value b, rest)"
  "is_hex a \<Longrightarrow> is_hex b \<Longrightarrow> is_hex c \<Longrightarrow> is_hex d \<Longrightarrow> readHexEscape 4 (a # b # c # d # rest) =
     Inr (4096 * hex_digit_value a + 256 * hex_digit_value b + 16 * hex_digit_value c + hex_digit_value d, rest)"
  by (simp_all add: readHexEscape_def hex_iff Let_def)

lemma read_escape:
  assumes "escape_ok b e" and "null_ok e rest"
  shows "parseEscape b (written_escape e @ rest) = Inr (escape_atom e, rest)"
proof (cases e)
  case (EItself c)
  then have c: "\<not> is_ascii_letter c" "\<not> is_ascii_digit c" using assms(1) letters_iff by simp_all
  then have "c \<notin> ch ` set ''dDsSwWnrtfvbxu0''" by (auto simp: is_ascii_letter_def is_ascii_digit_def)
  with c show ?thesis using escape_atom_literal [of e c] by (simp add: EItself parseEscape_def)
next
  case ENull
  then have "case rest of c # _ \<Rightarrow> \<not> is_ascii_digit c | [] \<Rightarrow> True"
    using assms(2) by (auto simp: null_ok_def digits_iff split: list.split)
  then show ?thesis using escape_atom_literal [of e 0] by (auto simp: ENull parseEscape_def split: list.splits)
next
  case (EHex x y)
  then show ?thesis using assms(1) read_hex(1) [of x y rest] escape_atom_literal [of e]
    by (simp add: parseEscape_def and_then_def)
next
  case (EUnicode x y z w)
  then show ?thesis using assms(1) read_hex(2) [of x y z w rest] escape_atom_literal [of e]
    by (simp add: parseEscape_def and_then_def)
qed (use assms in \<open>auto simp: parseEscape_def escape_atom_def class_escape_def literalEscape_def fun_eq_iff digits_iff spaces_iff word_iff
    is_ascii_digit_def\<close>)

definition class_atom :: "class_character \<Rightarrow> ClassAtom" where
  "class_atom x = \<lparr>ca_literal = character_literal x, ca_matches = (\<lambda>c. c \<in> character_denotes x)\<rparr>"

lemma class_atom_fields [simp]:
  "ca_literal (class_atom x) = character_literal x" "ca_matches (class_atom x) = (\<lambda>c. c \<in> character_denotes x)"
  by (simp_all add: class_atom_def)

lemma read_character:
  assumes "character_ok x rest"
  shows "parseClassAtom (written_character x @ rest) = Inr (class_atom x, rest)"
proof (cases x)
  case (Plain c)
  then show ?thesis using assms by (simp add: parseClassAtom_def class_atom_def literalEscape_def)
next
  case (Escaped e)
  then show ?thesis using assms read_escape [of True e rest] by (simp add: parseClassAtom_def class_atom_def escape_atom_def)
qed

text \<open>What is allowed before the end of the class is allowed with any text behind it.\<close>

lemma character_ok_more: "character_ok x (after @ [e]) \<Longrightarrow> character_ok x (after @ e # rest)"
  by (cases x; cases after) (auto simp: null_ok_def)

definition item_matcher :: "class_item \<Rightarrow> character_matcher" where
  "item_matcher item = (\<lambda>c. c \<in> item_denotes item)"

lemma written_character_not_Nil [simp]: "written_character x \<noteq> []"
  by (cases x) simp_all

lemma written_item_not_Nil [simp]: "written_item item \<noteq> []"
  by (cases item) simp_all

lemma read_items:
  assumes "items_ok first items" "first \<longrightarrow> items \<noteq> []"
  shows "class_loop negate first matchers (written_items items @ ch CHR '']'' # rest) =
    Inr (CharacterNode (any_matcher negate (matchers @ map item_matcher items)), rest)"
  using assms
proof (induction items arbitrary: first matchers)
  case Nil
  then show ?case by (subst class_loop.simps) (simp add: peek_def written_items_def)
next
  case (Cons item items)
  let ?after = "written_items items @ ch CHR '']'' # rest" and ?bracket = "[ch CHR '']'']"
  have ok: "item_ok item (written_items items @ ?bracket)" "items_ok False items"
    and open_bracket: "first \<or> hd (written_item item) \<noteq> ch CHR '']''"
    using Cons.prems(1) by simp_all
  have src: "written_items (item # items) @ ch CHR '']'' # rest = written_item item @ ?after"
    by (simp add: written_items_def)
  have start: "\<not> (peek (written_item item @ ?after) = Some (ch CHR '']'') \<and> \<not> first)"
    using open_bracket by (cases "written_item item") (auto simp: peek_def)
  have "class_loop negate first matchers (written_item item @ ?after) =
      class_loop negate False (matchers @ [item_matcher item]) ?after"
  proof (cases item)
    case (Single x)
    have x: "character_ok x (written_items items @ ?bracket)" using ok(1) Single by simp
    have atom: "parseClassAtom (written_item item @ ?after) = Inr (class_atom x, ?after)"
      using read_character [OF character_ok_more [OF x]] Single by simp
    have "\<not> (ca_literal (class_atom x) \<noteq> None \<and> peek ?after = Some (ch CHR ''-'') \<and> peek (tl ?after) \<noteq> Some (ch CHR '']''))"
      using ok(1) Single by (cases "written_items items") (auto simp: peek_def)
    with start atom show ?thesis
      by (subst class_loop.simps) (auto simp: item_matcher_def Single)
  next
    case (Between x y)
    obtain lo hi where l: "character_literal x = Some lo" "character_literal y = Some hi" "lo \<le> hi"
      using ok(1) Between by (auto split: option.splits)
    have x: "parseClassAtom (written_item item @ ?after) = Inr (class_atom x, ch CHR ''-'' # written_character y @ ?after)"
      using read_character [of x "ch CHR ''-'' # written_character y @ ?after"] character_ok_more [of x "[]" "ch CHR ''-''"]
        ok(1) Between by simp
    have y: "parseClassAtom (written_character y @ ?after) = Inr (class_atom y, ?after)"
      using read_character [OF character_ok_more] ok(1) Between by simp
    have "hd (written_character y) \<noteq> ch CHR '']''" using ok(1) Between by (cases y) simp_all
    then have "peek (written_character y @ ?after) \<noteq> Some (ch CHR '']'')"
      by (cases "written_character y") (auto simp: peek_def)
    then show ?thesis using start x y l
      by (subst class_loop.simps) (auto simp: item_matcher_def Between peek_front)
  qed
  also have "\<dots> = Inr (CharacterNode (any_matcher negate ((matchers @ [item_matcher item]) @ map item_matcher items)), rest)"
    using ok(2) by (intro Cons.IH) simp_all
  finally show ?case unfolding src by simp
qed

lemma class_matches: "any_matcher negated (map item_matcher items) c \<longleftrightarrow> c \<in> class_denotes negated items"
  by (auto simp: any_matcher_def class_denotes_def item_matcher_def list_ex_iff Let_def)

section \<open>Reading pieces\<close>

definition same_meaning :: "pattern_node \<Rightarrow> (code_unit list \<Rightarrow> nat \<Rightarrow> nat \<Rightarrow> bool) \<Rightarrow> bool" where
  "same_meaning node denotation \<longleftrightarrow> (\<forall>input i j. node_matches input node i j = denotation input i j)"

text \<open>What may follow a piece: another one, or the end of the sequence.\<close>

definition quiet :: "code_unit list \<Rightarrow> bool" where
  "quiet rest \<longleftrightarrow> \<not> is_quantifier (peek rest) \<and> peek rest \<noteq> Some (ch CHR ''{'')"

definition starts_piece :: "code_unit list \<Rightarrow> bool" where
  "starts_piece s \<longleftrightarrow> s \<noteq> [] \<and> peek s \<notin> {Some (ch CHR '')''), Some (ch CHR ''|'')}"

definition sequence_end :: "code_unit list \<Rightarrow> bool" where
  "sequence_end rest \<longleftrightarrow> peek rest \<in> {None, Some (ch CHR '')''), Some (ch CHR ''|'')}"

definition expression_end :: "code_unit list \<Rightarrow> bool" where
  "expression_end rest \<longleftrightarrow> peek rest \<in> {None, Some (ch CHR '')'')}"

lemma expression_ends: "expression_end rest \<Longrightarrow> sequence_end rest \<and> peek rest \<noteq> Some (ch CHR ''|'')"
  by (auto simp: expression_end_def sequence_end_def)

lemma sequence_end_facts: "sequence_end rest \<Longrightarrow> quiet rest \<and> null_ok e rest"
  by (cases rest) (auto simp: sequence_end_def quiet_def is_quantifier_def peek_def null_ok_def digits_iff is_ascii_digit_def)

lemma atom_starts: "atom_ok a \<Longrightarrow> starts_piece (written_atom a @ rest) \<and> quiet (written_atom a @ rest)"
  by (cases a) (auto simp: starts_piece_def quiet_def peek_def is_quantifier_def special_def)

lemma piece_starts: "piece_ok p \<Longrightarrow> starts_piece (written_piece p @ rest) \<and> quiet (written_piece p @ rest)"
  using atom_starts by (cases p) auto

lemma group_starts: "expression_ok e \<Longrightarrow> peek (written e @ ch CHR '')'' # rest) \<noteq> Some (ch CHR ''?'')"
proof -
  have pieces: "pieces_ok ps \<Longrightarrow> peek s \<noteq> Some (ch CHR ''?'') \<Longrightarrow> peek (written_pieces ps @ s) \<noteq> Some (ch CHR ''?'')" for ps s
  proof (cases ps)
    case (Piece p ps')
    assume "pieces_ok ps"
    then show ?thesis using piece_starts [of p "written_pieces ps' @ s"] Piece by (auto simp: quiet_def is_quantifier_def)
  qed simp
  show "expression_ok e \<Longrightarrow> peek (written e @ ch CHR '')'' # rest) \<noteq> Some (ch CHR ''?'')"
    using pieces [of _ "ch CHR '')'' # rest"] pieces [of _ "ch CHR ''|'' # _"] by (cases e) (auto simp: peek_front)
qed

lemma read_plain: "c \<notin> special \<Longrightarrow> parseAtom (Suc n) (c # rest) = Some (Inr (CharacterNode (\<lambda>x. x = c), rest))"
  by (auto simp: special_def is_quantifier_def)

lemma read_escape_atom:
  assumes "escape_ok False e" and "null_ok e rest"
  shows "parseAtom (Suc n) (ch CHR 0x5C # written_escape e @ rest) = Some (Inr (CharacterNode (\<lambda>c. c \<in> escape_denotes e), rest))"
  using read_escape [OF assms] by (simp add: and_then_def is_quantifier_def escape_atom_def)

lemma read_class:
  assumes "class_ok negated items"
  shows "parseAtom (Suc n) (written_atom (CharacterClass negated items) @ rest) =
    Some (Inr (CharacterNode (any_matcher negated (map item_matcher items)), rest))"
proof -
  have "written_items items \<noteq> []" using assms by (cases items) (simp_all add: class_ok_def written_items_def)
  then have "peek (written_items items @ s) = Some (hd (written_items items))" for s
    by (cases "written_items items") (simp_all add: peek_def)
  then show ?thesis using assms read_items [of True items negated "[]" rest]
    by (cases negated) (auto simp: class_ok_def parseCharacterClass_def peek_front is_quantifier_def)
qed

lemma read_group:
  assumes "parseAlternation n (written e @ ch CHR '')'' # rest) = Some (Inr (node, ch CHR '')'' # rest))" "expression_ok e"
  shows "parseAtom (Suc n) (written_atom (Group plain e) @ rest) = Some (Inr (node, rest))"
  using assms group_starts [OF assms(2), of rest] by (cases plain) (simp_all add: parsed_bind_def peek_front)

lemma read_once:
  assumes "parseAtom n s = Some (Inr (node, rest))" "quiet rest"
  shows "parseQuantifiedAtom (Suc n) s = Some (Inr (node, rest))"
  using assms by (auto simp: parsed_bind_def quantify_def quiet_def)

lemma read_repeated:
  assumes "parseAtom n s = Some (Inr (node, quantifier_sign r # (if lazy then [ch CHR ''?''] else []) @ rest))" "quiet rest"
  shows "parseQuantifiedAtom (Suc n) s = Some (Inr (Repeat node (if r = OneOrMore then 1 else 0) (r = ZeroOrOne), rest))"
proof -
  have "quantify node (quantifier_sign r # (if lazy then [ch CHR ''?''] else []) @ rest) =
      Inr (Repeat node (if r = OneOrMore then 1 else 0) (r = ZeroOrOne), rest)"
    using assms(2) by (cases r; cases lazy) (auto simp: quantify_def quiet_def is_quantifier_def Let_def peek_front)
  then show ?thesis using assms(1) by (simp add: parsed_bind_def)
qed

section \<open>Reading sequences and alternatives\<close>

definition join :: "pattern_node \<Rightarrow> pattern_node \<Rightarrow> pattern_node" where
  "join node next_node = (case node of EmptyNode \<Rightarrow> next_node | _ \<Rightarrow> Concatenate node next_node)"

lemma join_matches: "node_matches input (join a b) i j \<longleftrightarrow> (\<exists>k. node_matches input a i k \<and> node_matches input b k j)"
  by (auto simp: join_def split: pattern_node.split)

definition reads_sequence :: "pattern_node \<Rightarrow> code_unit list \<Rightarrow> pattern_node \<Rightarrow> code_unit list \<Rightarrow> bool" where
  "reads_sequence node s result rest \<longleftrightarrow> (\<exists>n. parseSequence n node s = Some (Inr (result, rest)))"

lemma sequence_stops: "sequence_end rest \<Longrightarrow> reads_sequence node rest node rest"
  unfolding reads_sequence_def by (intro exI [of _ 1]) (auto simp: sequence_end_def peek_def split: list.splits)

lemma sequence_continues:
  assumes "parseQuantifiedAtom n s = Some (Inr (piece, r))" "starts_piece s" "reads_sequence (join node piece) r result rest"
  shows "reads_sequence node s result rest"
proof -
  obtain m where m: "parseSequence m (join node piece) r = Some (Inr (result, rest))" using assms(3) by (auto simp: reads_sequence_def)
  have "parseQuantifiedAtom (max n m) s = Some (Inr (piece, r))" by (rule fuel_le(4) [OF _ assms(1)]) simp
  moreover have "parseSequence (max n m) (join node piece) r = Some (Inr (result, rest))" by (rule fuel_le(3) [OF _ m]) simp
  ultimately have "parseSequence (Suc (max n m)) node s = Some (Inr (result, rest))"
    using assms(2) by (simp add: starts_piece_def parsed_bind_def join_def)
  then show ?thesis unfolding reads_sequence_def by blast
qed

lemma alternation_reads:
  assumes "reads_sequence EmptyNode s node r" "parseAlternatives n node r = Some x"
  shows "\<exists>m. parseAlternation m s = Some x"
proof -
  obtain k where k: "parseSequence k EmptyNode s = Some (Inr (node, r))" using assms(1) by (auto simp: reads_sequence_def)
  have "parseSequence (max n k) EmptyNode s = Some (Inr (node, r))" by (rule fuel_le(3) [OF _ k]) simp
  moreover have "parseAlternatives (max n k) node r = Some x" by (rule fuel_le(2) [OF _ assms(2)]) simp
  ultimately have "parseAlternation (Suc (max n k)) s = Some x" by (simp add: parsed_bind_def)
  then show ?thesis by blast
qed

lemma alternatives_read:
  assumes "reads_sequence EmptyNode s right r" "parseAlternatives n (Alternate left right) r = Some x"
  shows "\<exists>m. parseAlternatives m left (ch CHR ''|'' # s) = Some x"
proof -
  obtain k where k: "parseSequence k EmptyNode s = Some (Inr (right, r))" using assms(1) by (auto simp: reads_sequence_def)
  have "parseSequence (max n k) EmptyNode s = Some (Inr (right, r))" by (rule fuel_le(3) [OF _ k]) simp
  moreover have "parseAlternatives (max n k) (Alternate left right) r = Some x" by (rule fuel_le(2) [OF _ assms(2)]) simp
  ultimately have "parseAlternatives (Suc (max n k)) left (ch CHR ''|'' # s) = Some x"
    by (simp add: parsed_bind_def peek_def del: parseSequence.simps)
  then show ?thesis by blast
qed

lemma alternatives_stop: "peek rest \<noteq> Some (ch CHR ''|'') \<Longrightarrow> parseAlternatives 1 node rest = Some (Inr (node, rest))"
  by simp

text \<open>Each part of an expression is read with its meaning, whatever follows it.\<close>

lemma grammar_read:
  shows "atom_ok a \<Longrightarrow> (\<And>e. a = Escape e \<Longrightarrow> null_ok e rest) \<Longrightarrow>
      \<exists>n node. parseAtom n (written_atom a @ rest) = Some (Inr (node, rest)) \<and> same_meaning node (\<lambda>input. atom_denotes input a)"
    and "piece_ok p \<Longrightarrow> quiet rest \<Longrightarrow> (\<And>e. p = Once (Escape e) \<Longrightarrow> null_ok e rest) \<Longrightarrow>
      \<exists>n node. parseQuantifiedAtom n (written_piece p @ rest) = Some (Inr (node, rest)) \<and>
        same_meaning node (\<lambda>input. piece_denotes input p)"
    and "pieces_ok ps \<Longrightarrow> sequence_end rest \<Longrightarrow>
      \<exists>result. reads_sequence node (written_pieces ps @ rest) result rest \<and>
        same_meaning result (\<lambda>input i j. \<exists>k. node_matches input node i k \<and> pieces_denote input ps k j)"
    and "expression_ok e \<Longrightarrow> expression_end rest \<Longrightarrow>
      (\<exists>n result. parseAlternation n (written e @ rest) = Some (Inr (result, rest)) \<and> same_meaning result (\<lambda>input. denotes input e)) \<and>
      (\<forall>left. \<exists>n result. parseAlternatives n left (ch CHR ''|'' # written e @ rest) = Some (Inr (result, rest)) \<and>
         same_meaning result (\<lambda>input i j. node_matches input left i j \<or> denotes input e i j))"
proof (induction a and p and ps and e arbitrary: rest and rest and node rest and rest)
  case (Character c)
  then have "parseAtom 1 (written_atom (Character c) @ rest) = Some (Inr (CharacterNode (\<lambda>x. x = c), rest))"
    using read_plain [of c 0 rest] by simp
  then show ?case by (intro exI conjI) (assumption, auto simp: same_meaning_def one_of_def)
next
  case (Escape e)
  then have "parseAtom 1 (written_atom (Escape e) @ rest) = Some (Inr (CharacterNode (\<lambda>c. c \<in> escape_denotes e), rest))"
    using read_escape_atom [of e rest 0] by simp
  then show ?case by (intro exI conjI) (assumption, auto simp: same_meaning_def one_of_def)
next
  case AnyCharacter
  have "parseAtom 1 (written_atom AnyCharacter @ rest) = Some (Inr (CharacterNode (\<lambda>_. True), rest))" by simp
  then show ?case by (intro exI conjI) (assumption, auto simp: same_meaning_def one_of_def)
next
  case AtStart
  have "parseAtom 1 (written_atom AtStart @ rest) = Some (Inr (StartNode, rest))" by simp
  then show ?case by (intro exI conjI) (assumption, auto simp: same_meaning_def)
next
  case AtEnd
  have "parseAtom 1 (written_atom AtEnd @ rest) = Some (Inr (EndNode, rest))" by simp
  then show ?case by (intro exI conjI) (assumption, auto simp: same_meaning_def)
next
  case (CharacterClass negated items)
  then have "parseAtom 1 (written_atom (CharacterClass negated items) @ rest) =
      Some (Inr (CharacterNode (any_matcher negated (map item_matcher items)), rest))"
    using read_class [of negated items 0 rest] by simp
  then show ?case by (intro exI conjI) (assumption, auto simp: same_meaning_def one_of_def class_matches)
next
  case (Group plain e)
  have "expression_end (ch CHR '')'' # rest)" by (simp add: expression_end_def peek_def)
  moreover have ok: "expression_ok e" using Group.prems(1) by simp
  ultimately obtain n node where n: "parseAlternation n (written e @ ch CHR '')'' # rest) = Some (Inr (node, ch CHR '')'' # rest))"
    and m: "same_meaning node (\<lambda>input. denotes input e)" using Group.IH [of "ch CHR '')'' # rest"] by blast
  have "same_meaning node (\<lambda>input. atom_denotes input (Group plain e))" using m by (simp add: same_meaning_def)
  with read_group [OF n ok, of plain] show ?case by blast
next
  case (Once a)
  have "atom_ok a" "\<And>e. a = Escape e \<Longrightarrow> null_ok e rest" using Once.prems(1,3) by simp_all
  then obtain n node where n: "parseAtom n (written_atom a @ rest) = Some (Inr (node, rest))"
    and m: "same_meaning node (\<lambda>input. atom_denotes input a)" using Once.IH [of rest] by blast
  have "parseQuantifiedAtom (Suc n) (written_piece (Once a) @ rest) = Some (Inr (node, rest))"
    using read_once [OF n Once.prems(2)] by simp
  moreover have "same_meaning node (\<lambda>input. piece_denotes input (Once a))" using m by (simp add: same_meaning_def)
  ultimately show ?case by blast
next
  case (Repeated a r lazy)
  let ?rest = "quantifier_sign r # (if lazy then [ch CHR ''?''] else []) @ rest"
  have "null_ok e ?rest" for e by (cases r) (simp_all add: null_ok_def digits_iff is_ascii_digit_def)
  moreover have "atom_ok a" using Repeated.prems(1) by simp
  ultimately obtain n node where n: "parseAtom n (written_atom a @ ?rest) = Some (Inr (node, ?rest))"
    and m: "same_meaning node (\<lambda>input. atom_denotes input a)" using Repeated.IH [of ?rest] by blast
  have "parseQuantifiedAtom (Suc n) (written_piece (Repeated a r lazy) @ rest) =
      Some (Inr (Repeat node (if r = OneOrMore then 1 else 0) (r = ZeroOrOne), rest))"
    using read_repeated [OF n Repeated.prems(2)] by simp
  moreover have "node_matches input node = atom_denotes input a" for input using m by (intro ext) (simp add: same_meaning_def)
  then have "same_meaning (Repeat node (if r = OneOrMore then 1 else 0) (r = ZeroOrOne)) (\<lambda>input. piece_denotes input (Repeated a r lazy))"
    by (cases r) (simp_all add: same_meaning_def)
  ultimately show ?case by blast
next
  case NoPiece
  then have "reads_sequence node (written_pieces NoPiece @ rest) node rest" using sequence_stops by simp
  then show ?case by (intro exI conjI) (assumption, simp add: same_meaning_def)
next
  case (Piece p ps)
  let ?rest = "written_pieces ps @ rest"
  have ok: "piece_ok p" "pieces_ok ps" using Piece.prems(1) by simp_all
  have follows: "quiet ?rest \<and> (\<forall>e. p = Once (Escape e) \<longrightarrow> null_ok e ?rest)"
  proof (cases ps)
    case NoPiece
    then show ?thesis using sequence_end_facts [OF Piece.prems(2)] by simp
  next
    case (Piece p' ps')
    have "quiet ?rest" "?rest \<noteq> []" using piece_starts [of p' "written_pieces ps' @ rest"] ok(2) Piece by (auto simp: starts_piece_def)
    moreover have "written_pieces ps \<noteq> []"
      using piece_starts [of p' "written_pieces ps'"] ok(2) Piece by (auto simp: starts_piece_def)
    ultimately show ?thesis using \<open>pieces_ok (Piece p ps)\<close> by (auto simp: null_ok_def)
  qed
  then obtain n piece where n: "parseQuantifiedAtom n (written_piece p @ ?rest) = Some (Inr (piece, ?rest))"
    and m: "same_meaning piece (\<lambda>input. piece_denotes input p)" using Piece.IH(1) [OF ok(1), of ?rest] by blast
  obtain result where r: "reads_sequence (join node piece) ?rest result rest"
    and m': "same_meaning result (\<lambda>input i j. \<exists>k. node_matches input (join node piece) i k \<and> pieces_denote input ps k j)"
    using Piece.IH(2) [OF ok(2) Piece.prems(2)] by blast
  have "reads_sequence node (written_pieces (Piece p ps) @ rest) result rest"
    using sequence_continues [OF n _ r] piece_starts [OF ok(1)] by simp
  moreover have "same_meaning result (\<lambda>input i j. \<exists>k. node_matches input node i k \<and> pieces_denote input (Piece p ps) k j)"
    using m m' by (fastforce simp: same_meaning_def join_matches)
  ultimately show ?case by blast
next
  case (Only ps)
  note ends = expression_ends [OF Only.prems(2)]
  obtain node where n: "reads_sequence EmptyNode (written_pieces ps @ rest) node rest"
    and m: "same_meaning node (\<lambda>input. pieces_denote input ps)"
    using Only.IH [of rest EmptyNode] Only.prems(1) ends by (auto simp: same_meaning_def)
  have stop: "parseAlternatives 1 node rest = Some (Inr (node, rest))"
    "parseAlternatives 1 (Alternate left node) rest = Some (Inr (Alternate left node, rest))" for left
    using alternatives_stop ends by blast+
  have "same_meaning (Alternate left node) (\<lambda>input i j. node_matches input left i j \<or> denotes input (Only ps) i j)" for left
    using m by (simp add: same_meaning_def)
  moreover have "same_meaning node (\<lambda>input. denotes input (Only ps))" using m by (simp add: same_meaning_def)
  moreover have "\<exists>k. parseAlternation k (written (Only ps) @ rest) = Some (Inr (node, rest))"
    using alternation_reads [OF n stop(1)] by simp
  moreover have "\<exists>k. parseAlternatives k left (ch CHR ''|'' # written (Only ps) @ rest) = Some (Inr (Alternate left node, rest))" for left
    using alternatives_read [OF n stop(2)] by simp
  ultimately show ?case by blast
next
  case (Either ps e)
  let ?rest = "ch CHR ''|'' # written e @ rest"
  have "sequence_end ?rest" by (simp add: sequence_end_def peek_def)
  with Either obtain node where n: "reads_sequence EmptyNode (written_pieces ps @ ?rest) node ?rest"
    and m: "same_meaning node (\<lambda>input. pieces_denote input ps)"
    using Either.IH(1) [of ?rest EmptyNode] by (auto simp: same_meaning_def)
  have more: "\<exists>n result. parseAlternatives n left ?rest = Some (Inr (result, rest)) \<and>
      same_meaning result (\<lambda>input i j. node_matches input left i j \<or> denotes input e i j)" for left
    using Either.IH(2) Either.prems by simp
  obtain k result where k: "parseAlternatives k node ?rest = Some (Inr (result, rest))"
    and mk: "same_meaning result (\<lambda>input i j. node_matches input node i j \<or> denotes input e i j)" using more by blast
  have "\<exists>n result. parseAlternatives n left (ch CHR ''|'' # written_pieces ps @ ?rest) = Some (Inr (result, rest)) \<and>
      same_meaning result (\<lambda>input i j. node_matches input left i j \<or> denotes input (Either ps e) i j)" for left
  proof -
    obtain k result where k: "parseAlternatives k (Alternate left node) ?rest = Some (Inr (result, rest))"
      and mk: "same_meaning result (\<lambda>input i j. node_matches input (Alternate left node) i j \<or> denotes input e i j)" using more by blast
    from alternatives_read [OF n k] obtain l
      where "parseAlternatives l left (ch CHR ''|'' # written_pieces ps @ ?rest) = Some (Inr (result, rest))" by blast
    moreover have "same_meaning result (\<lambda>input i j. node_matches input left i j \<or> denotes input (Either ps e) i j)"
      using mk m by (auto simp: same_meaning_def)
    ultimately show ?thesis by blast
  qed
  moreover have "\<exists>m. parseAlternation m (written (Either ps e) @ rest) = Some (Inr (result, rest))"
    using alternation_reads [OF n k] by simp
  moreover have "same_meaning result (\<lambda>input. denotes input (Either ps e))" using mk m by (auto simp: same_meaning_def)
  ultimately show ?case by (simp del: denotes.simps) blast
qed

lemma parse_reads: "parseAlternation n source = Some (Inr (node, [])) \<Longrightarrow> parse source = Some (Inr node)"
proof -
  assume n: "parseAlternation n source = Some (Inr (node, []))"
  obtain r where r: "parseAlternation (parse_fuel source) source = Some r"
    using parser_returns(1) [of source "parse_fuel source"] by (auto simp: parse_fuel_def returns_def)
  let ?m = "max n (parse_fuel source)"
  have "parseAlternation ?m source = Some (Inr (node, []))" by (rule fuel_le(1) [OF _ n]) simp
  moreover have "parseAlternation ?m source = Some r" by (rule fuel_le(1) [OF _ r]) simp
  ultimately show ?thesis using r by (simp add: parse_def and_then_def)
qed

text \<open>C37: Whatever expression of the grammar is written, with every escape, classes of characters, escapes and ranges, plain
  and non-capturing groups, greedy and lazy quantifiers, sequences and alternatives without needless groups, the parser
  reads the text as a pattern that matches exactly what the expression denotes, between any two positions of any input.\<close>

theorem written_regex_read:
  assumes "expression_ok e"
  shows "\<exists>pattern. parse (written e) = Some (Inr pattern) \<and> (\<forall>input i j. node_matches input pattern i j = denotes input e i j)"
proof -
  have "expression_end []" by (simp add: expression_end_def peek_def)
  with grammar_read(4) [OF assms, of "[]"] obtain n node where "parseAlternation n (written e) = Some (Inr (node, []))"
    and "same_meaning node (\<lambda>input. denotes input e)" by auto
  then show ?thesis using parse_reads by (auto simp: same_meaning_def)
qed

text \<open>The expression \<open>(?:a|[^\d-])+?\s$|\0\.\x41\u0042?\<close>.\<close>

definition sample_expression :: alternatives where
  "sample_expression =
     Either
       (Piece (Repeated (Group False (Either (Piece (Once (Character 97)) NoPiece)
            (Only (Piece (Once (CharacterClass True [Single (Escaped EDigit), Single (Plain 45)])) NoPiece)))) OneOrMore True)
         (Piece (Once (Escape ESpace)) (Piece (Once AtEnd) NoPiece)))
       (Only (Piece (Once (Escape ENull)) (Piece (Once (Escape (EItself 46))) (Piece (Once (Escape (EHex 52 49)))
         (Piece (Repeated (Escape (EUnicode 48 48 52 50)) ZeroOrOne False) NoPiece)))))"

lemma written_regex_read_witness:
  "written sample_expression = map ch ''(?:a|[^'' @ [92, 100] @ map ch ''-])+?'' @ [92, 115] @ map ch ''$|'' @ [92, 48, 92, 46] @
     [92, 120, 52, 49, 92, 117, 48, 48, 52, 50] @ map ch ''?'' \<and>
   (\<exists>pattern. parse (written sample_expression) = Some (Inr pattern) \<and>
     (\<forall>input i j. node_matches input pattern i j = denotes input sample_expression i j))"
proof
  show "written sample_expression = map ch ''(?:a|[^'' @ [92, 100] @ map ch ''-])+?'' @ [92, 115] @ map ch ''$|'' @ [92, 48, 92, 46] @
     [92, 120, 52, 49, 92, 117, 48, 48, 52, 50] @ map ch ''?''" by code_simp
  have "expression_ok sample_expression" by code_simp
  from written_regex_read [OF this] show "\<exists>pattern. parse (written sample_expression) = Some (Inr pattern) \<and>
     (\<forall>input i j. node_matches input pattern i j = denotes input sample_expression i j)" .
qed

end
