(* ===== verification/ReconnectManager.thy ===== *)
theory ReconnectManager
  imports Prelude "HOL-Library.Code_Target_Nat"
begin

text \<open>
  The client's connection manager (packages/client/src/lib/connection/ConnectionManager.ts): when to
  reconnect, how often, and when to stop trying. Timers are a map from ids to what they do, any live one
  may fire at any moment; a reconnect attempt is a promise that settles by a later event, possibly after
  it has been superseded. What the manager calls and announces is recorded in order. Listeners do not
  call the manager back while they are told of an event. Whether an error is worth retrying, the clock,
  the random numbers and whether sending a ping throws are given with each event.
\<close>

section \<open>State\<close>

datatype ConnectionState = Connected | Reconnecting | Disconnected

record ReconnectConfig =
  cc_baseDelayMs :: rat
  cc_maxDelayMs :: rat
  cc_maxAttempts :: nat
  cc_recoveryDelayMs :: rat
  cc_jitterFactor :: rat
  cc_staleThresholdMs :: rat

text \<open>\<open>DEFAULT_CONFIG\<close>; the other two intervals only say when timers fire.\<close>

definition default_reconnect_config :: ReconnectConfig where
  "default_reconnect_config = \<lparr>cc_baseDelayMs = 1000, cc_maxDelayMs = 30000, cc_maxAttempts = 10, cc_recoveryDelayMs = 60000,
     cc_jitterFactor = 3 / 10, cc_staleThresholdMs = 45000\<rparr>"

datatype TimerKind = BackoffTimer rat | PongTimer nat | StaleInterval

datatype announcement =
    StateChange ConnectionState ConnectionState
  | ReconnectFailed nat
  | VisibilityRestored
  | CallReconnect nat nat
  | SendPing nat

record ReconnectManager =
  rm_state :: ConnectionState
  rm_reconnectAttempts :: nat
  rm_reconnectFn :: "nat option"
  rm_sendPing :: bool
  rm_driveReconnect :: bool
  rm_started :: bool
  rm_waitingForRecovery :: bool
  rm_lastRecoverySignal :: "rat option"
  rm_recoveryListener :: bool
  rm_lastEventTime :: rat
  rm_hasReceivedHeartbeat :: bool
  rm_staleCheckIntervalId :: "nat option"
  rm_hiddenSince :: "rat option"
  rm_visibilityListener :: bool
  rm_pendingPingId :: "nat option"
  rm_pongTimeoutId :: "nat option"
  rm_pingCounter :: nat
  rm_backoffTimerId :: "nat option"
  rm_reconnectPromise :: "nat option"
  rm_criticalOperationDepth :: nat
  rm_openOperations :: "nat list"
  rm_nextOperation :: nat
  rm_timers :: "nat \<Rightarrow> TimerKind option"
  rm_nextTimer :: nat
  rm_unsettled :: "nat list"
  rm_nextPromise :: nat
  rm_visible :: bool
  rm_announced :: "announcement list"

definition newReconnectManager :: "bool \<Rightarrow> ReconnectManager" where
  "newReconnectManager visible =
     \<lparr>rm_state = Disconnected, rm_reconnectAttempts = 0, rm_reconnectFn = None, rm_sendPing = False, rm_driveReconnect = True,
      rm_started = False, rm_waitingForRecovery = False, rm_lastRecoverySignal = None, rm_recoveryListener = False,
      rm_lastEventTime = 0, rm_hasReceivedHeartbeat = False, rm_staleCheckIntervalId = None, rm_hiddenSince = None,
      rm_visibilityListener = False, rm_pendingPingId = None, rm_pongTimeoutId = None, rm_pingCounter = 0,
      rm_backoffTimerId = None, rm_reconnectPromise = None, rm_criticalOperationDepth = 0, rm_openOperations = [],
      rm_nextOperation = 0, rm_timers = (\<lambda>_. None), rm_nextTimer = 0, rm_unsettled = [], rm_nextPromise = 0,
      rm_visible = visible, rm_announced = []\<rparr>"

text \<open>What the surroundings give with an event.\<close>

record surroundings =
  en_now :: rat
  en_random :: rat
  en_pingThrows :: bool
  en_nonRetryable :: "nat \<Rightarrow> bool"

section \<open>Timers and announcements\<close>

definition announce :: "announcement \<Rightarrow> ReconnectManager \<Rightarrow> ReconnectManager" where
  "announce a s = s\<lparr>rm_announced := rm_announced s @ [a]\<rparr>"

definition setTimer :: "TimerKind \<Rightarrow> ReconnectManager \<Rightarrow> ReconnectManager" where
  "setTimer kind s = s\<lparr>rm_timers := (rm_timers s)(rm_nextTimer s := Some kind), rm_nextTimer := Suc (rm_nextTimer s)\<rparr>"

definition clearTimer :: "nat \<Rightarrow> ReconnectManager \<Rightarrow> ReconnectManager" where
  "clearTimer i s = s\<lparr>rm_timers := (rm_timers s)(i := None)\<rparr>"

definition setState :: "ConnectionState \<Rightarrow> ReconnectManager \<Rightarrow> ReconnectManager" where
  "setState newState s =
     (if newState = rm_state s then s else announce (StateChange newState (rm_state s)) (s\<lparr>rm_state := newState\<rparr>))"

definition cancelBackoff :: "ReconnectManager \<Rightarrow> ReconnectManager" where
  "cancelBackoff s = (case rm_backoffTimerId s of None \<Rightarrow> s | Some i \<Rightarrow> (clearTimer i s)\<lparr>rm_backoffTimerId := None\<rparr>)"

definition cancelPongTimeout :: "ReconnectManager \<Rightarrow> ReconnectManager" where
  "cancelPongTimeout s = (case rm_pongTimeoutId s of None \<Rightarrow> s | Some i \<Rightarrow> (clearTimer i s)\<lparr>rm_pongTimeoutId := None\<rparr>)"

definition stopStaleCheck :: "ReconnectManager \<Rightarrow> ReconnectManager" where
  "stopStaleCheck s =
     (case rm_staleCheckIntervalId s of None \<Rightarrow> s | Some i \<Rightarrow> (clearTimer i s)\<lparr>rm_staleCheckIntervalId := None\<rparr>)"

definition startStaleCheck :: "surroundings \<Rightarrow> ReconnectManager \<Rightarrow> ReconnectManager" where
  "startStaleCheck env s =
     (let s = (stopStaleCheck s)\<lparr>rm_lastEventTime := en_now env\<rparr>
      in (setTimer StaleInterval s)\<lparr>rm_staleCheckIntervalId := Some (rm_nextTimer s)\<rparr>)"

definition startVisibilityListener :: "ReconnectManager \<Rightarrow> ReconnectManager" where
  "startVisibilityListener s = s\<lparr>rm_recoveryListener := True, rm_visibilityListener := True\<rparr>"

definition stopVisibilityListener :: "ReconnectManager \<Rightarrow> ReconnectManager" where
  "stopVisibilityListener s = s\<lparr>rm_recoveryListener := False, rm_visibilityListener := False\<rparr>"

section \<open>Reconnecting\<close>

definition getBackoffDelay :: "ReconnectConfig \<Rightarrow> surroundings \<Rightarrow> nat \<Rightarrow> rat" where
  "getBackoffDelay cfg env attempt =
     (let base = cc_baseDelayMs cfg * 2 ^ attempt; jitter = 1 + en_random env * cc_jitterFactor cfg
      in min (cc_maxDelayMs cfg) (base * jitter))"

definition armBackoff :: "rat \<Rightarrow> ReconnectManager \<Rightarrow> ReconnectManager" where
  "armBackoff delay s = (setTimer (BackoffTimer delay) s)\<lparr>rm_backoffTimerId := Some (rm_nextTimer s)\<rparr>"

definition scheduleReconnect :: "ReconnectConfig \<Rightarrow> surroundings \<Rightarrow> ReconnectManager \<Rightarrow> ReconnectManager" where
  "scheduleReconnect cfg env s =
     (if \<not> rm_started s \<or> rm_reconnectFn s = None then s
      else if \<not> rm_driveReconnect s then s
      else if rm_reconnectAttempts s \<ge> cc_maxAttempts cfg then
        (let s = cancelBackoff (s\<lparr>rm_waitingForRecovery := True\<rparr>)
         in if rm_visible s then armBackoff (cc_recoveryDelayMs cfg * (1 + en_random env * cc_jitterFactor cfg)) s else s)
      else
        armBackoff (getBackoffDelay cfg env (rm_reconnectAttempts s)) (s\<lparr>rm_reconnectAttempts := Suc (rm_reconnectAttempts s)\<rparr>))"

definition executeReconnect :: "ReconnectManager \<Rightarrow> ReconnectManager" where
  "executeReconnect s =
     (case rm_reconnectFn s of
        None \<Rightarrow> s
      | Some fn \<Rightarrow>
          if \<not> rm_started s then s
          else if rm_reconnectPromise s \<noteq> None then s
          else
            (announce (CallReconnect fn (rm_nextPromise s)) s)
              \<lparr>rm_reconnectPromise := Some (rm_nextPromise s), rm_unsettled := rm_unsettled s @ [rm_nextPromise s],
               rm_nextPromise := Suc (rm_nextPromise s)\<rparr>)"

definition startReconnecting :: "ReconnectConfig \<Rightarrow> surroundings \<Rightarrow> ReconnectManager \<Rightarrow> ReconnectManager" where
  "startReconnecting cfg env s =
     scheduleReconnect cfg env (setState Reconnecting ((cancelPongTimeout s)\<lparr>rm_pendingPingId := None\<rparr>))"

definition emitReconnectFailed :: "nat \<Rightarrow> ReconnectManager \<Rightarrow> ReconnectManager" where
  "emitReconnectFailed err s =
     announce (ReconnectFailed err) ((cancelBackoff (s\<lparr>rm_waitingForRecovery := False\<rparr>))\<lparr>rm_reconnectPromise := None\<rparr>)"

section \<open>The methods consumers call\<close>

definition start :: "surroundings \<Rightarrow> nat \<Rightarrow> bool \<Rightarrow> bool \<Rightarrow> ReconnectManager \<Rightarrow> ReconnectManager" where
  "start env fn sendPing drive s =
     (let s = s\<lparr>rm_reconnectFn := Some fn, rm_sendPing := sendPing, rm_driveReconnect := drive\<rparr>
      in if rm_started s then s
         else
           startVisibilityListener (startStaleCheck env (setState Connected
             (s\<lparr>rm_started := True, rm_waitingForRecovery := False, rm_lastRecoverySignal := None\<rparr>))))"

definition stop :: "ReconnectManager \<Rightarrow> ReconnectManager" where
  "stop s =
     (let s = s\<lparr>rm_started := False, rm_waitingForRecovery := False, rm_reconnectFn := None, rm_sendPing := False,
                rm_driveReconnect := True\<rparr>;
          s = cancelPongTimeout (cancelBackoff (stopVisibilityListener (stopStaleCheck s)))
      in setState Disconnected (s\<lparr>rm_reconnectPromise := None, rm_hasReceivedHeartbeat := False, rm_hiddenSince := None\<rparr>))"

definition recordEvent :: "surroundings \<Rightarrow> ReconnectManager \<Rightarrow> ReconnectManager" where
  "recordEvent env s = s\<lparr>rm_lastEventTime := en_now env\<rparr>"

definition recordHeartbeat :: "surroundings \<Rightarrow> ReconnectManager \<Rightarrow> ReconnectManager" where
  "recordHeartbeat env s = s\<lparr>rm_hasReceivedHeartbeat := True, rm_lastEventTime := en_now env\<rparr>"

text \<open>\<open>beginCriticalOperation\<close> and the callback it returns, which is known by a number.\<close>

definition beginCriticalOperation :: "ReconnectManager \<Rightarrow> ReconnectManager" where
  "beginCriticalOperation s =
     (let s = cancelPongTimeout (s\<lparr>rm_criticalOperationDepth := Suc (rm_criticalOperationDepth s), rm_pendingPingId := None\<rparr>)
      in s\<lparr>rm_openOperations := rm_openOperations s @ [rm_nextOperation s], rm_nextOperation := Suc (rm_nextOperation s)\<rparr>)"

definition endCriticalOperation :: "nat \<Rightarrow> ReconnectManager \<Rightarrow> ReconnectManager" where
  "endCriticalOperation operation s =
     (if operation \<notin> set (rm_openOperations s) then s
      else s\<lparr>rm_openOperations := removeAll operation (rm_openOperations s),
             rm_criticalOperationDepth := rm_criticalOperationDepth s - 1\<rparr>)"

definition markConnected :: "ReconnectManager \<Rightarrow> ReconnectManager" where
  "markConnected s =
     (if \<not> rm_started s then s
      else
        setState Connected (cancelBackoff
          (s\<lparr>rm_reconnectAttempts := 0, rm_waitingForRecovery := False, rm_reconnectPromise := None\<rparr>)))"

definition receivePong :: "nat \<Rightarrow> ReconnectManager \<Rightarrow> ReconnectManager" where
  "receivePong i s =
     (if Some i \<noteq> rm_pendingPingId s then s else (cancelPongTimeout s)\<lparr>rm_pendingPingId := None\<rparr>)"

definition handleError :: "ReconnectConfig \<Rightarrow> surroundings \<Rightarrow> nat \<Rightarrow> ReconnectManager \<Rightarrow> ReconnectManager" where
  "handleError cfg env err s =
     (if rm_state s = Reconnecting then s
      else if en_nonRetryable env err then emitReconnectFailed err (setState Disconnected s)
      else startReconnecting cfg env s)"

definition handleClose :: "ReconnectConfig \<Rightarrow> surroundings \<Rightarrow> nat option \<Rightarrow> ReconnectManager \<Rightarrow> ReconnectManager" where
  "handleClose cfg env err s =
     (if rm_state s = Reconnecting then s
      else
        (case err of
           Some e \<Rightarrow> if en_nonRetryable env e then emitReconnectFailed e (setState Disconnected s) else startReconnecting cfg env s
         | None \<Rightarrow> startReconnecting cfg env s))"

definition shouldSuppressHealthReconnect :: "string option \<Rightarrow> ReconnectManager \<Rightarrow> bool" where
  "shouldSuppressHealthReconnect reason s \<longleftrightarrow>
     rm_criticalOperationDepth s > 0 \<and> (reason = Some ''stale'' \<or> reason = Some ''ping-failed'' \<or> reason = Some ''pong-timeout'')"

definition forceReconnect :: "ReconnectConfig \<Rightarrow> surroundings \<Rightarrow> string option \<Rightarrow> ReconnectManager \<Rightarrow> ReconnectManager" where
  "forceReconnect cfg env reason s =
     (if shouldSuppressHealthReconnect reason s then s
      else if \<not> rm_started s then s
      else
        startReconnecting cfg env
          ((cancelBackoff (s\<lparr>rm_reconnectAttempts := 0, rm_waitingForRecovery := False\<rparr>))\<lparr>rm_reconnectPromise := None\<rparr>))"

section \<open>Timers, visibility and attempts that settle\<close>

definition checkStale :: "ReconnectConfig \<Rightarrow> surroundings \<Rightarrow> ReconnectManager \<Rightarrow> ReconnectManager" where
  "checkStale cfg env s =
     (if rm_state s \<noteq> Connected then s
      else if \<not> rm_hasReceivedHeartbeat s then s
      else if rm_criticalOperationDepth s > 0 then s
      else if en_now env - rm_lastEventTime s \<ge> cc_staleThresholdMs cfg then forceReconnect cfg env (Some ''stale'') s
      else s)"

definition requestRecovery :: "surroundings \<Rightarrow> ReconnectManager \<Rightarrow> ReconnectManager" where
  "requestRecovery env s =
     (if \<not> rm_started s \<or> \<not> rm_driveReconnect s \<or> \<not> rm_waitingForRecovery s \<or> rm_state s \<noteq> Reconnecting \<or>
         rm_reconnectPromise s \<noteq> None \<or> \<not> rm_visible s \<or>
         (case rm_lastRecoverySignal s of None \<Rightarrow> False | Some t \<Rightarrow> en_now env - t < 5000)
      then s
      else executeReconnect (cancelBackoff (s\<lparr>rm_lastRecoverySignal := Some (en_now env)\<rparr>)))"

definition sendWakePing :: "ReconnectConfig \<Rightarrow> surroundings \<Rightarrow> ReconnectManager \<Rightarrow> ReconnectManager" where
  "sendWakePing cfg env s =
     (let s = cancelPongTimeout s; pingId = Suc (rm_pingCounter s);
          s = announce (SendPing pingId) (s\<lparr>rm_pingCounter := pingId, rm_pendingPingId := Some pingId\<rparr>)
      in if en_pingThrows env then forceReconnect cfg env (Some ''ping-failed'') (s\<lparr>rm_pendingPingId := None\<rparr>)
         else (setTimer (PongTimer pingId) s)\<lparr>rm_pongTimeoutId := Some (rm_nextTimer s)\<rparr>)"

definition handleBecameVisible :: "ReconnectConfig \<Rightarrow> surroundings \<Rightarrow> ReconnectManager \<Rightarrow> ReconnectManager" where
  "handleBecameVisible cfg env s =
     (let s = s\<lparr>rm_hiddenSince := None\<rparr>
      in if rm_waitingForRecovery s then requestRecovery env (scheduleReconnect cfg env s)
         else if rm_state s \<noteq> Connected then s
         else
           (let s = announce VisibilityRestored s
            in if \<not> rm_sendPing s then s
               else if rm_criticalOperationDepth s > 0 then s
               else sendWakePing cfg env s))"

definition becameHidden :: "surroundings \<Rightarrow> ReconnectManager \<Rightarrow> ReconnectManager" where
  "becameHidden env s =
     (if rm_waitingForRecovery s then cancelBackoff s else s)\<lparr>rm_hiddenSince := Some (en_now env)\<rparr>"

definition visibilityChange :: "ReconnectConfig \<Rightarrow> surroundings \<Rightarrow> bool \<Rightarrow> ReconnectManager \<Rightarrow> ReconnectManager" where
  "visibilityChange cfg env visible s =
     (let s = s\<lparr>rm_visible := visible\<rparr>
      in if \<not> rm_visibilityListener s then s
         else if visible then handleBecameVisible cfg env s
         else becameHidden env s)"

text \<open>A timeout is gone when its callback runs, an interval is not.\<close>

definition pongTimedOut :: "ReconnectConfig \<Rightarrow> surroundings \<Rightarrow> nat \<Rightarrow> ReconnectManager \<Rightarrow> ReconnectManager" where
  "pongTimedOut cfg env pingId s =
     (let s = s\<lparr>rm_pongTimeoutId := None\<rparr>
      in if rm_pendingPingId s = Some pingId
         then forceReconnect cfg env (Some ''pong-timeout'') (s\<lparr>rm_pendingPingId := None\<rparr>)
         else s)"

definition fireTimer :: "ReconnectConfig \<Rightarrow> surroundings \<Rightarrow> nat \<Rightarrow> ReconnectManager \<Rightarrow> ReconnectManager" where
  "fireTimer cfg env i s =
     (case rm_timers s i of
        None \<Rightarrow> s
      | Some (BackoffTimer _) \<Rightarrow> executeReconnect ((clearTimer i s)\<lparr>rm_backoffTimerId := None\<rparr>)
      | Some (PongTimer pingId) \<Rightarrow> pongTimedOut cfg env pingId (clearTimer i s)
      | Some StaleInterval \<Rightarrow> checkStale cfg env s)"

definition reconnectResolved :: "nat \<Rightarrow> ReconnectManager \<Rightarrow> ReconnectManager" where
  "reconnectResolved promise s = (if rm_reconnectPromise s \<noteq> Some promise then s else markConnected s)"

definition reconnectRejected :: "ReconnectConfig \<Rightarrow> surroundings \<Rightarrow> nat \<Rightarrow> nat \<Rightarrow> ReconnectManager \<Rightarrow> ReconnectManager" where
  "reconnectRejected cfg env promise err s =
     (if rm_reconnectPromise s \<noteq> Some promise then s
      else
        (let s = s\<lparr>rm_reconnectPromise := None\<rparr>
         in if en_nonRetryable env err then emitReconnectFailed err (setState Disconnected s)
            else scheduleReconnect cfg env s))"

section \<open>Histories\<close>

datatype occurrence =
    Start nat bool bool
  | Stop
  | RecordEvent
  | RecordHeartbeat
  | BeginCritical
  | EndCritical nat
  | MarkConnected
  | ReceivePong nat
  | HandleError nat
  | HandleClose "nat option"
  | ForceReconnect "string option"
  | RequestRecovery
  | RecoveryOpportunity
  | VisibilityChange bool
  | FireTimer nat
  | Resolved nat
  | Rejected nat nat

definition occur :: "ReconnectConfig \<Rightarrow> surroundings \<times> occurrence \<Rightarrow> ReconnectManager \<Rightarrow> ReconnectManager" where
  "occur cfg e s =
     (let env = fst e
      in case snd e of
           Start fn ping drive \<Rightarrow> start env fn ping drive s
         | Stop \<Rightarrow> stop s
         | RecordEvent \<Rightarrow> recordEvent env s
         | RecordHeartbeat \<Rightarrow> recordHeartbeat env s
         | BeginCritical \<Rightarrow> beginCriticalOperation s
         | EndCritical operation \<Rightarrow> endCriticalOperation operation s
         | MarkConnected \<Rightarrow> markConnected s
         | ReceivePong i \<Rightarrow> receivePong i s
         | HandleError err \<Rightarrow> handleError cfg env err s
         | HandleClose err \<Rightarrow> handleClose cfg env err s
         | ForceReconnect reason \<Rightarrow> forceReconnect cfg env reason s
         | RequestRecovery \<Rightarrow> requestRecovery env s
         | RecoveryOpportunity \<Rightarrow> if rm_recoveryListener s then requestRecovery env s else s
         | VisibilityChange visible \<Rightarrow> visibilityChange cfg env visible s
         | FireTimer i \<Rightarrow> fireTimer cfg env i s
         | Resolved promise \<Rightarrow>
             if promise \<in> set (rm_unsettled s)
             then reconnectResolved promise (s\<lparr>rm_unsettled := removeAll promise (rm_unsettled s)\<rparr>) else s
         | Rejected promise err \<Rightarrow>
             if promise \<in> set (rm_unsettled s)
             then reconnectRejected cfg env promise err (s\<lparr>rm_unsettled := removeAll promise (rm_unsettled s)\<rparr>) else s)"

definition after_events :: "ReconnectConfig \<Rightarrow> bool \<Rightarrow> (surroundings \<times> occurrence) list \<Rightarrow> ReconnectManager" where
  "after_events cfg visible events = fold (occur cfg) events (newReconnectManager visible)"

section \<open>Methods as updates\<close>

text \<open>Each helper is one update of the record, whatever its branches.\<close>

definition drop_timer :: "nat option \<Rightarrow> (nat \<Rightarrow> TimerKind option) \<Rightarrow> nat \<Rightarrow> TimerKind option" where
  "drop_timer which timers = (case which of None \<Rightarrow> timers | Some i \<Rightarrow> timers(i := None))"

lemma drop_timer_Some: "drop_timer which timers i = Some k \<longleftrightarrow> timers i = Some k \<and> which \<noteq> Some i"
  by (auto simp: drop_timer_def split: option.splits)

lemma cancelBackoff_eq: "cancelBackoff s = s\<lparr>rm_timers := drop_timer (rm_backoffTimerId s) (rm_timers s), rm_backoffTimerId := None\<rparr>"
  by (cases s) (simp add: cancelBackoff_def clearTimer_def drop_timer_def split: option.split)

lemma cancelPongTimeout_eq: "cancelPongTimeout s = s\<lparr>rm_timers := drop_timer (rm_pongTimeoutId s) (rm_timers s), rm_pongTimeoutId := None\<rparr>"
  by (cases s) (simp add: cancelPongTimeout_def clearTimer_def drop_timer_def split: option.split)

lemma stopStaleCheck_eq:
  "stopStaleCheck s = s\<lparr>rm_timers := drop_timer (rm_staleCheckIntervalId s) (rm_timers s), rm_staleCheckIntervalId := None\<rparr>"
  by (cases s) (simp add: stopStaleCheck_def clearTimer_def drop_timer_def split: option.split)

lemma setState_eq:
  "setState newState s = s\<lparr>rm_state := newState,
     rm_announced := (if newState = rm_state s then rm_announced s else rm_announced s @ [StateChange newState (rm_state s)])\<rparr>"
  by (cases s) (simp add: setState_def announce_def)

lemmas as_update = cancelBackoff_eq cancelPongTimeout_eq stopStaleCheck_eq setState_eq announce_def setTimer_def clearTimer_def
  armBackoff_def startVisibilityListener_def stopVisibilityListener_def emitReconnectFailed_def

section \<open>The books of the manager\<close>

text \<open>Every live timer is the one its field names, the fields name live timers of their kind, and a live pong
  timer waits for the pending ping.\<close>

fun timer_at :: "TimerKind option \<Rightarrow> nat \<Rightarrow> nat option \<Rightarrow> nat option \<Rightarrow> nat option \<Rightarrow> nat option \<Rightarrow> bool" where
  "timer_at None i b g st pp \<longleftrightarrow> b \<noteq> Some i \<and> g \<noteq> Some i \<and> st \<noteq> Some i"
| "timer_at (Some (BackoffTimer _)) i b g st pp \<longleftrightarrow> b = Some i \<and> g \<noteq> Some i \<and> st \<noteq> Some i"
| "timer_at (Some (PongTimer p)) i b g st pp \<longleftrightarrow> b \<noteq> Some i \<and> g = Some i \<and> st \<noteq> Some i \<and> pp = Some p"
| "timer_at (Some StaleInterval) i b g st pp \<longleftrightarrow> b \<noteq> Some i \<and> g \<noteq> Some i \<and> st = Some i"

definition timer_books ::
    "(nat \<Rightarrow> TimerKind option) \<Rightarrow> nat \<Rightarrow> nat option \<Rightarrow> nat option \<Rightarrow> nat option \<Rightarrow> nat option \<Rightarrow> bool" where
  "timer_books timers n backoff pong stale pending \<longleftrightarrow>
     (\<forall>i. (n \<le> i \<longrightarrow> timers i = None) \<and> timer_at (timers i) i backoff pong stale pending)"

lemma timer_books_at: "timer_books m n b g st pp \<Longrightarrow> timer_at (m i) i b g st pp"
  and timer_books_beyond: "timer_books m n b g st pp \<Longrightarrow> n \<le> i \<Longrightarrow> m i = None"
  by (simp_all add: timer_books_def)

lemma timer_booksI:
  "(\<And>i. n \<le> i \<Longrightarrow> m i = None) \<Longrightarrow> (\<And>i. timer_at (m i) i b g st pp) \<Longrightarrow> timer_books m n b g st pp"
  by (simp add: timer_books_def)

lemma timer_at_drop:
  "timer_at k i b g st pp \<Longrightarrow> timer_at (if b = Some i then None else k) i None g st pp"
  "timer_at k i b g st pp \<Longrightarrow> timer_at (if g = Some i then None else k) i b None st pp'"
  "timer_at k i b g st pp \<Longrightarrow> timer_at (if st = Some i then None else k) i b g None pp"
  by (cases "(k, i, b, g, st, pp)" rule: timer_at.cases; auto)+

lemma drop_timer_at: "drop_timer which m i = (if which = Some i then None else m i)"
  by (auto simp: drop_timer_def split: option.splits)

lemma drop_beyond: "timer_books m n b g st pp \<Longrightarrow> n \<le> i \<Longrightarrow> drop_timer which m i = None"
  by (simp add: drop_timer_at timer_books_beyond)

lemma drop_backoff: "timer_books m n b g st pp \<Longrightarrow> timer_books (drop_timer b m) n None g st pp"
  by (rule timer_booksI, simp add: drop_beyond, subst drop_timer_at, rule timer_at_drop, erule timer_books_at)

lemma drop_pong: "timer_books m n b g st pp \<Longrightarrow> timer_books (drop_timer g m) n b None st pp'"
  by (rule timer_booksI, simp add: drop_beyond, subst drop_timer_at, rule timer_at_drop, erule timer_books_at)

lemma drop_stale: "timer_books m n b g st pp \<Longrightarrow> timer_books (drop_timer st m) n b g None pp"
  by (rule timer_booksI, simp add: drop_beyond, subst drop_timer_at, rule timer_at_drop, erule timer_books_at)

lemma timer_at_fresh:
  "timer_at k i None g st pp \<Longrightarrow> i \<noteq> j \<Longrightarrow> timer_at k i (Some j) g st pp"
  "timer_at k i b None st pp \<Longrightarrow> i \<noteq> j \<Longrightarrow> timer_at k i b (Some j) st pp'"
  "timer_at k i b g None pp \<Longrightarrow> i \<noteq> j \<Longrightarrow> timer_at k i b g (Some j) pp"
  by (cases "(k, i, b, g, st, pp)" rule: timer_at.cases; auto)+

lemma timer_books_fresh: "timer_books m n b g st pp \<Longrightarrow> b \<noteq> Some n \<and> g \<noteq> Some n \<and> st \<noteq> Some n"
  using timer_books_at [of m n b g st pp n] timer_books_beyond [of m n b g st pp n] by simp

lemma set_backoff:
  assumes "timer_books m n None g st pp"
  shows "timer_books (m(n := Some (BackoffTimer d))) (Suc n) (Some n) g st pp"
proof (rule timer_booksI)
  show "timer_at ((m(n := Some (BackoffTimer d))) i) i (Some n) g st pp" for i
    using timer_books_fresh [OF assms] timer_at_fresh(1) [OF timer_books_at [OF assms]] by simp
qed (simp add: timer_books_beyond [OF assms])

lemma set_pong:
  assumes "timer_books m n b None st pp"
  shows "timer_books (m(n := Some (PongTimer p))) (Suc n) b (Some n) st (Some p)"
proof (rule timer_booksI)
  show "timer_at ((m(n := Some (PongTimer p))) i) i b (Some n) st (Some p)" for i
    using timer_books_fresh [OF assms] timer_at_fresh(2) [OF timer_books_at [OF assms]] by simp
qed (simp add: timer_books_beyond [OF assms])

lemma set_stale:
  assumes "timer_books m n b g None pp"
  shows "timer_books (m(n := Some StaleInterval)) (Suc n) b g (Some n) pp"
proof (rule timer_booksI)
  show "timer_at ((m(n := Some StaleInterval)) i) i b g (Some n) pp" for i
    using timer_books_fresh [OF assms] timer_at_fresh(3) [OF timer_books_at [OF assms]] by simp
qed (simp add: timer_books_beyond [OF assms])

lemma no_pong: "timer_books m n b None st pp \<Longrightarrow> timer_books m n b None st pp'"
  using drop_pong [of m n b None st pp pp'] by (simp add: drop_timer_def)

lemma fired_backoff: "timer_books m n b g st pp \<Longrightarrow> m i = Some (BackoffTimer d) \<Longrightarrow> b = Some i"
  and fired_pong: "timer_books m n b g st pp \<Longrightarrow> m i = Some (PongTimer p) \<Longrightarrow> g = Some i \<and> pp = Some p"
  using timer_books_at [of m n b g st pp i] by simp_all

lemmas timer_rules = drop_backoff drop_pong drop_stale set_backoff set_pong set_stale

definition timers_ok :: "ReconnectManager \<Rightarrow> bool" where
  "timers_ok s \<longleftrightarrow> timer_books (rm_timers s) (rm_nextTimer s) (rm_backoffTimerId s) (rm_pongTimeoutId s)
     (rm_staleCheckIntervalId s) (rm_pendingPingId s)"

text \<open>What goes with which state.\<close>

definition phase_ok :: "ReconnectConfig \<Rightarrow> ReconnectManager \<Rightarrow> bool" where
  "phase_ok cfg s \<longleftrightarrow>
     (rm_reconnectFn s = None \<longleftrightarrow> \<not> rm_started s) \<and> (rm_staleCheckIntervalId s = None \<longleftrightarrow> \<not> rm_started s) \<and>
     (rm_visibilityListener s \<longleftrightarrow> rm_started s) \<and> (rm_recoveryListener s \<longleftrightarrow> rm_started s) \<and>
     (rm_started s \<or> rm_state s \<noteq> Connected \<and> rm_pongTimeoutId s = None \<and> rm_backoffTimerId s = None \<and>
        rm_reconnectPromise s = None \<and> \<not> rm_waitingForRecovery s) \<and>
     (rm_backoffTimerId s = None \<or> rm_state s = Reconnecting) \<and>
     (rm_waitingForRecovery s \<longrightarrow> rm_state s = Reconnecting \<and> rm_reconnectAttempts s \<ge> cc_maxAttempts cfg) \<and>
     (rm_pongTimeoutId s = None \<or> rm_state s \<noteq> Reconnecting \<and> rm_openOperations s = []) \<and>
     (rm_reconnectPromise s = None \<or> rm_state s = Reconnecting) \<and>
     (rm_reconnectPromise s = None \<or> rm_backoffTimerId s = None \<or> rm_waitingForRecovery s) \<and>
     rm_reconnectAttempts s \<le> cc_maxAttempts cfg \<and>
     rm_criticalOperationDepth s = length (rm_openOperations s)"

declare not_None_eq [simp del]

definition promises_ok :: "ReconnectManager \<Rightarrow> bool" where
  "promises_ok s \<longleftrightarrow>
     distinct (rm_unsettled s) \<and> (\<forall>p \<in> set (rm_unsettled s). p < rm_nextPromise s) \<and>
     (\<forall>p. rm_reconnectPromise s = Some p \<longrightarrow> p \<in> set (rm_unsettled s)) \<and>
     distinct (rm_openOperations s) \<and> (\<forall>p \<in> set (rm_openOperations s). p < rm_nextOperation s)"

definition manager_ok :: "ReconnectConfig \<Rightarrow> ReconnectManager \<Rightarrow> bool" where
  "manager_ok cfg s \<longleftrightarrow> timers_ok s \<and> phase_ok cfg s \<and> promises_ok s"

lemma schedule_timers:
  "timers_ok s \<Longrightarrow> rm_backoffTimerId s = None \<or> rm_reconnectAttempts s \<ge> cc_maxAttempts cfg \<Longrightarrow> timers_ok (scheduleReconnect cfg env s)"
  by (auto simp: timers_ok_def scheduleReconnect_def as_update Let_def intro: timer_rules)

lemma execute_timers: "timers_ok s \<Longrightarrow> timers_ok (executeReconnect s)"
  by (auto simp: timers_ok_def executeReconnect_def as_update split: option.splits)

lemma start_reconnecting_timers:
  assumes "timers_ok s" "rm_backoffTimerId s = None"
  shows "timers_ok (startReconnecting cfg env s)"
  unfolding startReconnecting_def
  by (rule schedule_timers) (use assms in \<open>auto simp: timers_ok_def as_update intro: drop_pong\<close>)

lemma force_timers: "timers_ok s \<Longrightarrow> timers_ok (forceReconnect cfg env reason s)"
  by (auto simp: forceReconnect_def intro!: start_reconnecting_timers) (auto simp: timers_ok_def as_update intro: timer_rules)

lemma mark_timers: "timers_ok s \<Longrightarrow> timers_ok (markConnected s)"
  by (auto simp: markConnected_def timers_ok_def as_update intro: drop_backoff)

lemma failed_timers: "timers_ok s \<Longrightarrow> timers_ok (emitReconnectFailed err (setState Disconnected s))"
  by (auto simp: timers_ok_def as_update intro: drop_backoff)

lemma recovery_timers: "timers_ok s \<Longrightarrow> timers_ok (requestRecovery env s)"
  by (auto simp: requestRecovery_def intro!: execute_timers) (auto simp: timers_ok_def as_update intro: drop_backoff)

lemma hidden_timers: "timers_ok s \<Longrightarrow> timers_ok (becameHidden env s)"
  by (auto simp: becameHidden_def timers_ok_def as_update intro: drop_backoff)

lemma become_visible_timers:
  assumes "timers_ok s" "phase_ok cfg s"
  shows "timers_ok (handleBecameVisible cfg env s)"
proof (cases "rm_waitingForRecovery s")
  case True
  have "timers_ok (scheduleReconnect cfg env (s\<lparr>rm_hiddenSince := None\<rparr>))"
    by (rule schedule_timers) (use assms True in \<open>auto simp: timers_ok_def phase_ok_def\<close>)
  then show ?thesis using True by (simp add: handleBecameVisible_def recovery_timers)
next
  case False
  have "timers_ok (sendWakePing cfg env t)" if "timers_ok t" for t
  proof (cases "en_pingThrows env")
    case True
    then show ?thesis using that
      by (auto simp: sendWakePing_def Let_def as_update intro!: force_timers) (auto simp: timers_ok_def intro: drop_pong)
  next
    case False
    then show ?thesis using that by (auto simp: sendWakePing_def Let_def as_update timers_ok_def intro!: set_pong intro: drop_pong)
  qed
  moreover have "timers_ok (announce VisibilityRestored (s\<lparr>rm_hiddenSince := None\<rparr>))"
    using assms(1) by (simp add: timers_ok_def announce_def)
  ultimately show ?thesis using assms(1) False by (simp add: handleBecameVisible_def Let_def timers_ok_def)
qed

lemma fire_timers:
  assumes "timers_ok s"
  shows "timers_ok (fireTimer cfg env i s)"
proof -
  note books = assms [unfolded timers_ok_def]
  consider "rm_timers s i = None" | d where "rm_timers s i = Some (BackoffTimer d)" | p where "rm_timers s i = Some (PongTimer p)"
    | "rm_timers s i = Some StaleInterval" by (cases "rm_timers s i") (auto, metis TimerKind.exhaust)
  then show ?thesis
  proof cases
    case 1
    then show ?thesis using assms by (simp add: fireTimer_def)
  next
    case 2
    have b: "rm_backoffTimerId s = Some i" by (rule fired_backoff [OF books 2])
    have "timers_ok ((clearTimer i s)\<lparr>rm_backoffTimerId := None\<rparr>)"
      using drop_backoff [OF books] b by (simp add: timers_ok_def clearTimer_def drop_timer_def)
    then show ?thesis using 2 by (simp add: fireTimer_def execute_timers)
  next
    case 3
    have g: "rm_pongTimeoutId s = Some i" using fired_pong [OF books 3] by simp
    have "timers_ok ((clearTimer i s)\<lparr>rm_pongTimeoutId := None, rm_pendingPingId := pp\<rparr>)" for pp
      using drop_pong [OF books] g by (simp add: timers_ok_def clearTimer_def drop_timer_def)
    moreover have "timers_ok ((clearTimer i s)\<lparr>rm_pongTimeoutId := None\<rparr>)"
      using drop_pong [OF books] g by (simp add: timers_ok_def clearTimer_def drop_timer_def)
    ultimately show ?thesis using 3 by (simp add: fireTimer_def pongTimedOut_def Let_def force_timers)
  next
    case 4
    then show ?thesis using assms by (simp add: fireTimer_def checkStale_def force_timers)
  qed
qed

lemma occur_timers:
  assumes "timers_ok s" "phase_ok cfg s"
  shows "timers_ok (occur cfg e s)"
proof -
  have idle: "rm_state s \<noteq> Reconnecting \<Longrightarrow> rm_backoffTimerId s = None" using assms(2) by (auto simp: phase_ok_def)
  show ?thesis
  proof (cases "snd e")
    case (Start fn ping drive)
    have "\<not> rm_started s \<Longrightarrow> rm_staleCheckIntervalId s = None" using assms(2) by (auto simp: phase_ok_def)
    then show ?thesis using Start assms(1)
      by (auto simp: occur_def start_def startStaleCheck_def as_update Let_def timers_ok_def drop_timer_def intro: set_stale)
  next
    case Stop
    then show ?thesis using drop_pong [OF drop_backoff [OF drop_stale [OF assms(1) [unfolded timers_ok_def]]]]
      by (auto simp: occur_def stop_def as_update Let_def timers_ok_def)
  next
    case BeginCritical
    then show ?thesis using assms(1) by (auto simp: occur_def beginCriticalOperation_def as_update Let_def timers_ok_def intro: drop_pong)
  next
    case MarkConnected
    then show ?thesis using assms(1) by (auto simp: occur_def mark_timers)
  next
    case (ReceivePong i)
    then show ?thesis using assms(1) by (auto simp: occur_def receivePong_def as_update Let_def timers_ok_def intro: drop_pong)
  next
    case (HandleError err)
    then show ?thesis using assms(1) idle
      by (auto simp: occur_def Let_def handleError_def start_reconnecting_timers failed_timers)
  next
    case (HandleClose err)
    then show ?thesis using assms(1) idle
      by (auto simp: occur_def Let_def handleClose_def start_reconnecting_timers failed_timers split: option.split)
  next
    case (VisibilityChange visible)
    have "timers_ok (s\<lparr>rm_visible := visible\<rparr>)" "phase_ok cfg (s\<lparr>rm_visible := visible\<rparr>)"
      using assms by (simp_all add: timers_ok_def phase_ok_def)
    then show ?thesis using VisibilityChange
      by (auto simp: occur_def visibilityChange_def Let_def become_visible_timers hidden_timers)
  next
    case (Resolved p)
    then show ?thesis using assms(1) by (auto simp: occur_def reconnectResolved_def intro!: mark_timers) (auto simp: timers_ok_def)
  next
    case (Rejected p err)
    let ?s = "s\<lparr>rm_unsettled := removeAll p (rm_unsettled s), rm_reconnectPromise := None\<rparr>"
    have ok: "timers_ok ?s" "timers_ok (s\<lparr>rm_unsettled := removeAll p (rm_unsettled s)\<rparr>)" using assms(1) by (simp_all add: timers_ok_def)
    have "rm_backoffTimerId s = None \<or> rm_reconnectAttempts s \<ge> cc_maxAttempts cfg" if "rm_reconnectPromise s = Some p"
      using assms(2) that by (auto simp: phase_ok_def)
    then have "timers_ok (scheduleReconnect cfg (fst e) ?s)" if "rm_reconnectPromise s = Some p"
      by (intro schedule_timers ok) (use that in simp)
    then show ?thesis using Rejected assms(1) ok failed_timers [OF ok(1)] by (auto simp: occur_def reconnectRejected_def Let_def)
  next
    case (ForceReconnect reason)
    then show ?thesis using assms(1) by (simp add: occur_def Let_def force_timers)
  next
    case RequestRecovery
    then show ?thesis using assms(1) by (simp add: occur_def Let_def recovery_timers)
  next
    case RecoveryOpportunity
    then show ?thesis using assms(1) by (simp add: occur_def Let_def recovery_timers)
  next
    case (FireTimer i)
    then show ?thesis by (simp add: occur_def Let_def fire_timers [OF assms(1)])
  qed (use assms(1) in \<open>auto simp: occur_def recordEvent_def recordHeartbeat_def endCriticalOperation_def timers_ok_def\<close>)
qed

lemma schedule_phase:
  assumes "phase_ok cfg s" "rm_state s = Reconnecting" "rm_reconnectPromise s = None \<or> rm_reconnectAttempts s \<ge> cc_maxAttempts cfg"
  shows "phase_ok cfg (scheduleReconnect cfg env s)"
  using assms by (auto simp: phase_ok_def scheduleReconnect_def as_update Let_def)

lemma execute_phase:
  assumes "phase_ok cfg s" "rm_state s = Reconnecting" "rm_backoffTimerId s = None"
  shows "phase_ok cfg (executeReconnect s)"
  using assms by (auto simp: phase_ok_def executeReconnect_def as_update split: option.split)

lemma start_reconnecting_phase:
  assumes "phase_ok cfg s" "rm_reconnectPromise s = None"
  shows "phase_ok cfg (startReconnecting cfg env s)"
  unfolding startReconnecting_def
  by (rule schedule_phase) (use assms in \<open>auto simp: phase_ok_def as_update\<close>)

lemma force_phase: "phase_ok cfg s \<Longrightarrow> phase_ok cfg (forceReconnect cfg env reason s)"
proof -
  assume "phase_ok cfg s"
  then have "phase_ok cfg ((cancelBackoff (s\<lparr>rm_reconnectAttempts := 0, rm_waitingForRecovery := False\<rparr>))\<lparr>rm_reconnectPromise := None\<rparr>)"
    by (auto simp: phase_ok_def as_update)
  from start_reconnecting_phase [OF this] show ?thesis using \<open>phase_ok cfg s\<close> by (simp add: forceReconnect_def)
qed

lemma mark_phase: "phase_ok cfg s \<Longrightarrow> phase_ok cfg (markConnected s)"
  by (auto simp: markConnected_def phase_ok_def as_update)

lemma failed_phase: "phase_ok cfg s \<Longrightarrow> phase_ok cfg (emitReconnectFailed err (setState Disconnected s))"
  by (auto simp: phase_ok_def as_update)

lemma recovery_phase: "phase_ok cfg s \<Longrightarrow> phase_ok cfg (requestRecovery env s)"
  by (auto simp: requestRecovery_def intro!: execute_phase) (auto simp: phase_ok_def as_update)

lemma hidden_phase: "phase_ok cfg s \<Longrightarrow> phase_ok cfg (becameHidden env s)"
  by (auto simp: becameHidden_def phase_ok_def as_update)

lemma become_visible_phase:
  assumes "phase_ok cfg s" "rm_started s"
  shows "phase_ok cfg (handleBecameVisible cfg env s)"
proof (cases "rm_waitingForRecovery s")
  case True
  have "phase_ok cfg (scheduleReconnect cfg env (s\<lparr>rm_hiddenSince := None\<rparr>))"
    by (rule schedule_phase) (use assms True in \<open>auto simp: phase_ok_def\<close>)
  then show ?thesis using True by (simp add: handleBecameVisible_def recovery_phase)
next
  case False
  have "phase_ok cfg (sendWakePing cfg env t)"
    if "phase_ok cfg t" "rm_state t = Connected" "rm_criticalOperationDepth t = 0" for t
  proof (cases "en_pingThrows env")
    case True
    then show ?thesis using that
      by (auto simp: sendWakePing_def Let_def as_update intro!: force_phase) (auto simp: phase_ok_def)
  next
    case False
    then show ?thesis using that by (auto simp: sendWakePing_def Let_def as_update phase_ok_def)
  qed
  moreover have "phase_ok cfg (announce VisibilityRestored (s\<lparr>rm_hiddenSince := None\<rparr>))" "phase_ok cfg (s\<lparr>rm_hiddenSince := None\<rparr>)"
    using assms(1) by (simp_all add: phase_ok_def announce_def)
  ultimately show ?thesis using False by (simp add: handleBecameVisible_def Let_def announce_def)
qed

lemma fire_phase:
  assumes "phase_ok cfg s" "timers_ok s"
  shows "phase_ok cfg (fireTimer cfg env i s)"
proof -
  note books = assms(2) [unfolded timers_ok_def]
  consider "rm_timers s i = None" | d where "rm_timers s i = Some (BackoffTimer d)" | p where "rm_timers s i = Some (PongTimer p)"
    | "rm_timers s i = Some StaleInterval" by (cases "rm_timers s i") (auto, metis TimerKind.exhaust)
  then show ?thesis
  proof cases
    case 1
    then show ?thesis using assms by (simp add: fireTimer_def)
  next
    case 2
    have "rm_backoffTimerId s = Some i" by (rule fired_backoff [OF books 2])
    then have "phase_ok cfg (executeReconnect ((clearTimer i s)\<lparr>rm_backoffTimerId := None\<rparr>))"
      by (intro execute_phase) (use assms(1) in \<open>auto simp: phase_ok_def clearTimer_def\<close>)
    then show ?thesis using 2 by (simp add: fireTimer_def)
  next
    case 3
    have "phase_ok cfg ((clearTimer i s)\<lparr>rm_pongTimeoutId := None, rm_pendingPingId := pp\<rparr>)"
      "phase_ok cfg ((clearTimer i s)\<lparr>rm_pongTimeoutId := None\<rparr>)" for pp
      using assms(1) by (auto simp: phase_ok_def clearTimer_def)
    then show ?thesis using 3 by (simp add: fireTimer_def pongTimedOut_def Let_def force_phase)
  next
    case 4
    then show ?thesis using assms by (simp add: fireTimer_def checkStale_def force_phase)
  qed
qed

lemma occur_phase:
  assumes "phase_ok cfg s" "timers_ok s" "promises_ok s"
  shows "phase_ok cfg (occur cfg e s)"
proof -
  have idle: "rm_state s \<noteq> Reconnecting \<Longrightarrow> rm_reconnectPromise s = None" using assms(1) by (auto simp: phase_ok_def)
  show ?thesis
  proof (cases "snd e")
    case (Start fn ping drive)
    then show ?thesis using assms(1)
      by (auto simp: occur_def start_def startStaleCheck_def as_update Let_def phase_ok_def)
  next
    case Stop
    then show ?thesis using assms(1) by (auto simp: occur_def stop_def as_update Let_def phase_ok_def)
  next
    case BeginCritical
    then show ?thesis using assms(1) by (auto simp: occur_def beginCriticalOperation_def as_update Let_def phase_ok_def)
  next
    case (EndCritical operation)
    have "length (removeAll operation (rm_openOperations s)) = length (rm_openOperations s) - 1" if "operation \<in> set (rm_openOperations s)"
      using assms(3) that by (simp add: promises_ok_def distinct_remove1_removeAll [symmetric] length_remove1)
    then show ?thesis using EndCritical assms(1)
      by (auto simp: occur_def endCriticalOperation_def phase_ok_def)
  next
    case MarkConnected
    then show ?thesis using assms(1) by (auto simp: occur_def mark_phase)
  next
    case (ReceivePong i)
    then show ?thesis using assms(1) by (auto simp: occur_def receivePong_def as_update Let_def phase_ok_def)
  next
    case (HandleError err)
    then show ?thesis using assms(1) idle
      by (auto simp: occur_def Let_def handleError_def start_reconnecting_phase failed_phase)
  next
    case (HandleClose err)
    then show ?thesis using assms(1) idle
      by (auto simp: occur_def Let_def handleClose_def start_reconnecting_phase failed_phase split: option.split)
  next
    case (VisibilityChange visible)
    have "phase_ok cfg (s\<lparr>rm_visible := visible\<rparr>)" using assms by (simp add: phase_ok_def)
    moreover have "rm_visibilityListener s \<Longrightarrow> rm_started s" using assms(1) by (simp add: phase_ok_def)
    ultimately show ?thesis using VisibilityChange
      by (auto simp: occur_def visibilityChange_def Let_def become_visible_phase hidden_phase)
  next
    case (Resolved p)
    then show ?thesis using assms(1) by (auto simp: occur_def reconnectResolved_def intro!: mark_phase) (auto simp: phase_ok_def)
  next
    case (Rejected p err)
    let ?s = "s\<lparr>rm_unsettled := removeAll p (rm_unsettled s), rm_reconnectPromise := None\<rparr>"
    have ok: "phase_ok cfg ?s" "phase_ok cfg (s\<lparr>rm_unsettled := removeAll p (rm_unsettled s)\<rparr>)"
      using assms(1) by (auto simp: phase_ok_def)
    have "rm_state s = Reconnecting" if "rm_reconnectPromise s = Some p"
      using assms(1) that by (auto simp: phase_ok_def)
    then have "phase_ok cfg (scheduleReconnect cfg (fst e) ?s)" if "rm_reconnectPromise s = Some p"
      by (intro schedule_phase ok) (use that in simp_all)
    then show ?thesis using Rejected assms(1) ok failed_phase [OF ok(1)] by (auto simp: occur_def reconnectRejected_def Let_def)
  next
    case (ForceReconnect reason)
    then show ?thesis using assms(1) by (simp add: occur_def Let_def force_phase)
  next
    case RequestRecovery
    then show ?thesis using assms(1) by (simp add: occur_def Let_def recovery_phase)
  next
    case RecoveryOpportunity
    then show ?thesis using assms(1) by (simp add: occur_def Let_def recovery_phase)
  next
    case (FireTimer i)
    then show ?thesis by (simp add: occur_def Let_def fire_phase [OF assms(1,2)])
  qed (use assms(1) in \<open>auto simp: occur_def recordEvent_def recordHeartbeat_def phase_ok_def\<close>)
qed

text \<open>Promises are only added by an attempt, and critical operations by their beginning.\<close>

definition ledger :: "ReconnectManager \<Rightarrow> nat list \<times> nat \<times> nat list \<times> nat" where
  "ledger s = (rm_unsettled s, rm_nextPromise s, rm_openOperations s, rm_nextOperation s)"

definition keeps_promises :: "ReconnectManager \<Rightarrow> ReconnectManager \<Rightarrow> bool" where
  "keeps_promises s t \<longleftrightarrow> ledger t = ledger s \<and> (rm_reconnectPromise t = None \<or> rm_reconnectPromise t = rm_reconnectPromise s)"

lemma keeps_promises_ok: "keeps_promises s t \<Longrightarrow> promises_ok s \<Longrightarrow> promises_ok t"
  by (auto simp: keeps_promises_def ledger_def promises_ok_def)

lemma schedule_keeps: "keeps_promises s t \<Longrightarrow> keeps_promises s (scheduleReconnect cfg env t)"
  by (auto simp: keeps_promises_def ledger_def scheduleReconnect_def as_update Let_def)

lemma start_reconnecting_keeps: "keeps_promises s t \<Longrightarrow> keeps_promises s (startReconnecting cfg env t)"
  unfolding startReconnecting_def by (rule schedule_keeps) (simp add: keeps_promises_def ledger_def as_update)

lemma force_keeps: "keeps_promises s t \<Longrightarrow> keeps_promises s (forceReconnect cfg env reason t)"
  by (auto simp: forceReconnect_def intro!: start_reconnecting_keeps) (auto simp: keeps_promises_def ledger_def as_update)

lemma mark_keeps: "keeps_promises s t \<Longrightarrow> keeps_promises s (markConnected t)"
  by (auto simp: keeps_promises_def ledger_def as_update markConnected_def)

lemma failed_keeps: "keeps_promises s t \<Longrightarrow> keeps_promises s (emitReconnectFailed err (setState Disconnected t))"
  by (auto simp: keeps_promises_def ledger_def as_update)

lemma execute_promises: "promises_ok s \<Longrightarrow> promises_ok (executeReconnect s)"
  by (auto simp: executeReconnect_def promises_ok_def as_update less_Suc_eq split: option.split)

lemma recovery_promises: "promises_ok s \<Longrightarrow> promises_ok (requestRecovery env s)"
  by (auto simp: requestRecovery_def intro!: execute_promises) (auto simp: promises_ok_def as_update)

lemma visible_promises:
  assumes "promises_ok s"
  shows "promises_ok (visibilityChange cfg env visible s)"
proof -
  have "keeps_promises s (scheduleReconnect cfg env (s\<lparr>rm_visible := visible, rm_hiddenSince := None\<rparr>))"
    by (rule schedule_keeps) (simp add: keeps_promises_def ledger_def)
  then have probe: "promises_ok (requestRecovery env (scheduleReconnect cfg env (s\<lparr>rm_visible := visible, rm_hiddenSince := None\<rparr>)))"
    by (rule recovery_promises [OF keeps_promises_ok [OF _ assms]])
  have "keeps_promises s (sendWakePing cfg env t)" if "keeps_promises s t" for t
    using that by (auto simp: sendWakePing_def Let_def intro!: force_keeps) (auto simp: keeps_promises_def ledger_def as_update)
  then have "keeps_promises s (sendWakePing cfg env (announce VisibilityRestored (s\<lparr>rm_visible := visible, rm_hiddenSince := None\<rparr>)))"
    by (simp add: keeps_promises_def ledger_def announce_def)
  then have ping: "promises_ok (sendWakePing cfg env (announce VisibilityRestored (s\<lparr>rm_visible := visible, rm_hiddenSince := None\<rparr>)))"
    using assms by (rule keeps_promises_ok)
  have "promises_ok (s\<lparr>rm_visible := visible\<rparr>)" "promises_ok (s\<lparr>rm_visible := visible, rm_hiddenSince := None\<rparr>)"
    "promises_ok (announce VisibilityRestored (s\<lparr>rm_visible := visible, rm_hiddenSince := None\<rparr>))"
    "promises_ok (becameHidden env (s\<lparr>rm_visible := visible\<rparr>))"
    using assms by (auto simp: promises_ok_def announce_def becameHidden_def cancelBackoff_eq)
  then show ?thesis using probe ping by (cases visible) (simp_all add: visibilityChange_def handleBecameVisible_def Let_def)
qed

lemma fire_promises:
  assumes "promises_ok s"
  shows "promises_ok (fireTimer cfg env i s)"
proof (cases "rm_timers s i")
  case (Some kind)
  show ?thesis
  proof (cases kind)
    case (BackoffTimer d)
    then show ?thesis using Some assms by (auto simp: fireTimer_def intro!: execute_promises) (simp add: promises_ok_def clearTimer_def)
  next
    case (PongTimer p)
    have "keeps_promises s (pongTimedOut cfg env p (clearTimer i s))"
      by (auto simp: pongTimedOut_def Let_def intro!: force_keeps) (auto simp: keeps_promises_def ledger_def clearTimer_def)
    then show ?thesis using Some PongTimer assms by (simp add: fireTimer_def keeps_promises_ok)
  next
    case StaleInterval
    have "keeps_promises s (checkStale cfg env s)"
      by (auto simp: checkStale_def intro!: force_keeps) (auto simp: keeps_promises_def)
    then show ?thesis using Some StaleInterval assms by (simp add: fireTimer_def keeps_promises_ok)
  qed
qed (simp add: fireTimer_def assms)

lemma occur_promises:
  assumes "phase_ok cfg s" "promises_ok s"
  shows "promises_ok (occur cfg e s)"
proof -
  have same: "keeps_promises s s" by (simp add: keeps_promises_def)
  note keep = keeps_promises_ok [OF _ assms(2)]
  show ?thesis
  proof (cases "snd e")
    case (Start fn ping drive)
    then show ?thesis by (auto simp: occur_def start_def startStaleCheck_def as_update Let_def keeps_promises_def ledger_def intro!: keep)
  next
    case Stop
    then show ?thesis by (auto simp: occur_def stop_def as_update Let_def keeps_promises_def ledger_def intro!: keep)
  next
    case BeginCritical
    then show ?thesis using assms(2)
      by (auto simp: occur_def beginCriticalOperation_def as_update Let_def promises_ok_def less_Suc_eq)
  next
    case MarkConnected
    then show ?thesis using keep [OF mark_keeps [OF same]] by (simp add: occur_def Let_def)
  next
    case (ReceivePong i)
    then show ?thesis by (auto simp: occur_def receivePong_def as_update Let_def keeps_promises_def ledger_def intro!: keep)
  next
    case (HandleError err)
    then show ?thesis using assms(2) keep [OF start_reconnecting_keeps [OF same]] keep [OF failed_keeps [OF same]]
      by (simp add: occur_def Let_def handleError_def)
  next
    case (HandleClose err)
    then show ?thesis using assms(2) keep [OF start_reconnecting_keeps [OF same]] keep [OF failed_keeps [OF same]]
      by (simp add: occur_def Let_def handleClose_def split: option.split)
  next
    case (ForceReconnect reason)
    then show ?thesis using keep [OF force_keeps [OF same]] by (simp add: occur_def Let_def)
  next
    case RequestRecovery
    then show ?thesis using assms(2) by (simp add: occur_def Let_def recovery_promises)
  next
    case RecoveryOpportunity
    then show ?thesis using assms(2) by (simp add: occur_def Let_def recovery_promises)
  next
    case (VisibilityChange visible)
    then show ?thesis using assms(2) by (simp add: occur_def Let_def visible_promises)
  next
    case (FireTimer i)
    then show ?thesis using assms(2) by (simp add: occur_def Let_def fire_promises)
  next
    case (Resolved p)
    let ?s = "s\<lparr>rm_unsettled := removeAll p (rm_unsettled s)\<rparr>"
    have "rm_started s" if "rm_reconnectPromise s = Some p" using assms(1) that by (auto simp: phase_ok_def)
    then have "promises_ok (reconnectResolved p ?s)"
      using assms(2) by (auto simp: reconnectResolved_def markConnected_def promises_ok_def as_update distinct_removeAll)
    then show ?thesis using Resolved assms(2) by (simp add: occur_def Let_def)
  next
    case (Rejected p err)
    let ?s = "s\<lparr>rm_unsettled := removeAll p (rm_unsettled s)\<rparr>" and ?t = "s\<lparr>rm_unsettled := removeAll p (rm_unsettled s), rm_reconnectPromise := None\<rparr>"
    have ok: "promises_ok ?t" using assms(2) by (auto simp: promises_ok_def distinct_removeAll)
    have t: "keeps_promises ?t ?t" by (simp add: keeps_promises_def)
    have "promises_ok (reconnectRejected cfg (fst e) p err ?s)"
    proof (cases "rm_reconnectPromise s = Some p")
      case True
      then show ?thesis using keeps_promises_ok [OF failed_keeps [OF t] ok] keeps_promises_ok [OF schedule_keeps [OF t] ok]
        by (simp add: reconnectRejected_def Let_def)
    next
      case False
      then show ?thesis using assms(2) by (auto simp: reconnectRejected_def promises_ok_def distinct_removeAll)
    qed
    then show ?thesis using Rejected assms(2) by (simp add: occur_def Let_def)
  qed (use assms(2) in \<open>auto simp: occur_def Let_def recordEvent_def recordHeartbeat_def endCriticalOperation_def promises_ok_def distinct_removeAll\<close>)
qed

lemma occur_ok: "manager_ok cfg s \<Longrightarrow> manager_ok cfg (occur cfg e s)"
  by (simp add: manager_ok_def occur_timers occur_phase occur_promises)

lemma fold_ok: "manager_ok cfg s \<Longrightarrow> manager_ok cfg (fold (occur cfg) events s)"
  by (induction events arbitrary: s) (simp_all add: occur_ok)

lemma new_ok: "manager_ok cfg (newReconnectManager visible)"
  by (simp add: manager_ok_def newReconnectManager_def timers_ok_def timer_books_def phase_ok_def promises_ok_def)

lemma reachable_ok: "manager_ok cfg (after_events cfg visible events)"
  unfolding after_events_def by (rule fold_ok [OF new_ok])

section \<open>Never stuck\<close>

text \<open>A started manager that is reconnecting has a timer set, an attempt under way, or waits for the page to be seen.\<close>

definition driven :: "ReconnectManager \<Rightarrow> bool" where
  "driven s \<longleftrightarrow> rm_driveReconnect s \<and>
     (rm_started s \<and> rm_state s = Reconnecting \<longrightarrow>
        rm_backoffTimerId s \<noteq> None \<or> rm_reconnectPromise s \<noteq> None \<or> rm_waitingForRecovery s \<and> \<not> rm_visible s)"

text \<open>In this repository every manager is started to drive its reconnects.\<close>

definition drives :: "surroundings \<times> occurrence \<Rightarrow> bool" where
  "drives e \<longleftrightarrow> (case snd e of Start _ _ drive \<Rightarrow> drive | _ \<Rightarrow> True)"

lemma schedule_driven: "phase_ok cfg s \<Longrightarrow> rm_driveReconnect s \<Longrightarrow> driven (scheduleReconnect cfg env s)"
  by (auto simp: driven_def scheduleReconnect_def as_update Let_def phase_ok_def)

lemma start_reconnecting_driven:
  assumes "phase_ok cfg s" "rm_reconnectPromise s = None" "rm_driveReconnect s"
  shows "driven (startReconnecting cfg env s)"
  unfolding startReconnecting_def
  by (rule schedule_driven) (use assms in \<open>auto simp: phase_ok_def as_update\<close>)

lemma execute_driven: "rm_driveReconnect s \<Longrightarrow> rm_reconnectFn s \<noteq> None \<Longrightarrow> driven (executeReconnect s)"
  by (auto simp: driven_def executeReconnect_def as_update split: option.split)

lemma force_driven:
  assumes "phase_ok cfg s" "driven s"
  shows "driven (forceReconnect cfg env reason s)"
proof -
  let ?s = "(cancelBackoff (s\<lparr>rm_reconnectAttempts := 0, rm_waitingForRecovery := False\<rparr>))\<lparr>rm_reconnectPromise := None\<rparr>"
  have "phase_ok cfg ?s" "rm_driveReconnect ?s" using assms by (auto simp: phase_ok_def driven_def as_update)
  then have "driven (startReconnecting cfg env ?s)" by (intro start_reconnecting_driven) simp_all
  then show ?thesis using assms(2) by (simp add: forceReconnect_def)
qed

lemma recovery_driven: "phase_ok cfg s \<Longrightarrow> driven s \<Longrightarrow> driven (requestRecovery env s)"
  by (auto simp: requestRecovery_def intro!: execute_driven) (auto simp: phase_ok_def driven_def as_update)

lemma visible_driven:
  assumes "phase_ok cfg s" "driven s"
  shows "driven (visibilityChange cfg env visible s)"
proof (cases "rm_started s")
  case False
  then show ?thesis using assms by (simp add: visibilityChange_def driven_def phase_ok_def)
next
  case True
  let ?s = "s\<lparr>rm_visible := True, rm_hiddenSince := None\<rparr>"
  have listener: "rm_visibilityListener s" using assms(1) True by (simp add: phase_ok_def)
  have phase: "phase_ok cfg ?s" and drive: "rm_driveReconnect ?s" using assms by (simp_all add: phase_ok_def driven_def)
  show ?thesis
  proof (cases visible)
    case False
    then show ?thesis using assms(2) listener by (auto simp: visibilityChange_def Let_def becameHidden_def driven_def as_update)
  next
    case visible: True
    show ?thesis
    proof (cases "rm_waitingForRecovery s")
      case True
      have "rm_state s = Reconnecting" "rm_reconnectAttempts s \<ge> cc_maxAttempts cfg" using assms(1) True by (auto simp: phase_ok_def)
      then have "phase_ok cfg (scheduleReconnect cfg env ?s)" by (intro schedule_phase phase) simp_all
      then have "driven (requestRecovery env (scheduleReconnect cfg env ?s))"
        using schedule_driven [OF phase drive] by (rule recovery_driven)
      then show ?thesis using True visible listener by (simp add: visibilityChange_def handleBecameVisible_def Let_def)
    next
      case waiting: False
      show ?thesis
      proof (cases "rm_state s = Connected")
        case False
        then show ?thesis using assms(2) waiting visible listener
          by (simp add: visibilityChange_def handleBecameVisible_def Let_def driven_def)
      next
        case connected: True
        have "driven (sendWakePing cfg env (announce VisibilityRestored ?s))"
        proof (cases "en_pingThrows env")
          case True
          then show ?thesis
            by (simp add: sendWakePing_def Let_def)
              (rule force_driven; use phase drive connected in \<open>auto simp: phase_ok_def driven_def as_update\<close>)
        next
          case False
          then show ?thesis using connected drive by (simp add: sendWakePing_def Let_def driven_def as_update)
        qed
        then show ?thesis using assms(2) waiting visible listener connected
          by (simp add: visibilityChange_def handleBecameVisible_def Let_def driven_def announce_def)
      qed
    qed
  qed
qed

lemma fire_driven:
  assumes "phase_ok cfg s" "driven s" "timers_ok s"
  shows "driven (fireTimer cfg env i s)"
proof -
  note books = assms(3) [unfolded timers_ok_def]
  consider "rm_timers s i = None" | d where "rm_timers s i = Some (BackoffTimer d)" | p where "rm_timers s i = Some (PongTimer p)"
    | "rm_timers s i = Some StaleInterval" by (cases "rm_timers s i") (auto, metis TimerKind.exhaust)
  then show ?thesis
  proof cases
    case 1
    then show ?thesis using assms by (simp add: fireTimer_def)
  next
    case 2
    have "rm_backoffTimerId s = Some i" by (rule fired_backoff [OF books 2])
    then have "rm_reconnectFn s \<noteq> None" using assms(1) by (auto simp: phase_ok_def)
    then have "driven (executeReconnect ((clearTimer i s)\<lparr>rm_backoffTimerId := None\<rparr>))"
      using assms(2) by (intro execute_driven) (simp_all add: clearTimer_def driven_def)
    then show ?thesis using 2 by (simp add: fireTimer_def)
  next
    case 3
    have "phase_ok cfg ((clearTimer i s)\<lparr>rm_pongTimeoutId := None, rm_pendingPingId := None\<rparr>)"
      "driven ((clearTimer i s)\<lparr>rm_pongTimeoutId := None, rm_pendingPingId := None\<rparr>)"
      "driven ((clearTimer i s)\<lparr>rm_pongTimeoutId := None\<rparr>)"
      using assms(1,2) by (auto simp: phase_ok_def clearTimer_def driven_def)
    then show ?thesis using 3 by (simp add: fireTimer_def pongTimedOut_def Let_def force_driven)
  next
    case 4
    then show ?thesis using assms by (simp add: fireTimer_def checkStale_def force_driven)
  qed
qed

lemma occur_driven:
  assumes "manager_ok cfg s" "driven s" "drives e"
  shows "driven (occur cfg e s)"
proof -
  have phase: "phase_ok cfg s" and timers: "timers_ok s" using assms(1) by (simp_all add: manager_ok_def)
  have drive: "rm_driveReconnect s" using assms(2) by (simp add: driven_def)
  have idle: "rm_state s \<noteq> Reconnecting \<Longrightarrow> rm_reconnectPromise s = None" using phase by (auto simp: phase_ok_def)
  have failed: "driven (emitReconnectFailed err (setState Disconnected t))" if "rm_driveReconnect t" for err t
    using that by (simp add: driven_def as_update)
  show ?thesis
  proof (cases "snd e")
    case (Start fn ping d)
    then show ?thesis using assms(2,3)
      by (auto simp: occur_def start_def startStaleCheck_def as_update Let_def driven_def drives_def)
  next
    case Stop
    then show ?thesis by (simp add: occur_def stop_def as_update Let_def driven_def)
  next
    case MarkConnected
    then show ?thesis using assms(2) by (auto simp: occur_def Let_def markConnected_def driven_def as_update)
  next
    case (HandleError err)
    then show ?thesis using assms(2) idle start_reconnecting_driven [OF phase _ drive] failed [OF drive]
      by (simp add: occur_def Let_def handleError_def)
  next
    case (HandleClose err)
    then show ?thesis using assms(2) idle start_reconnecting_driven [OF phase _ drive] failed [OF drive]
      by (simp add: occur_def Let_def handleClose_def split: option.split)
  next
    case (ForceReconnect reason)
    then show ?thesis using phase assms(2) by (simp add: occur_def Let_def force_driven)
  next
    case RequestRecovery
    then show ?thesis using recovery_driven [OF phase assms(2)] by (simp add: occur_def Let_def)
  next
    case RecoveryOpportunity
    then show ?thesis using recovery_driven [OF phase assms(2)] assms(2) by (simp add: occur_def Let_def)
  next
    case (VisibilityChange visible)
    then show ?thesis using visible_driven [OF phase assms(2)] by (simp add: occur_def Let_def)
  next
    case (FireTimer i)
    then show ?thesis using fire_driven [OF phase assms(2) timers] by (simp add: occur_def Let_def)
  next
    case (Resolved p)
    then show ?thesis using assms(2) by (auto simp: occur_def Let_def reconnectResolved_def markConnected_def driven_def as_update)
  next
    case (Rejected p err)
    let ?t = "s\<lparr>rm_unsettled := removeAll p (rm_unsettled s), rm_reconnectPromise := None\<rparr>"
    have "phase_ok cfg ?t" using phase by (auto simp: phase_ok_def)
    then have "driven (scheduleReconnect cfg env ?t)" for env using drive by (intro schedule_driven) simp_all
    moreover have "driven (s\<lparr>rm_unsettled := removeAll p (rm_unsettled s)\<rparr>)" using assms(2) by (simp add: driven_def)
    ultimately show ?thesis using Rejected assms(2) failed [of ?t] drive
      by (simp add: occur_def Let_def reconnectRejected_def)
  qed (use assms(2) in \<open>auto simp: occur_def Let_def recordEvent_def recordHeartbeat_def beginCriticalOperation_def endCriticalOperation_def
      receivePong_def driven_def as_update\<close>)
qed

lemma fold_driven:
  "manager_ok cfg s \<Longrightarrow> driven s \<Longrightarrow> list_all drives events \<Longrightarrow> driven (fold (occur cfg) events s)"
  by (induction events arbitrary: s) (simp_all add: occur_ok occur_driven)

lemma reachable_driven: "list_all drives events \<Longrightarrow> driven (after_events cfg visible events)"
  unfolding after_events_def by (rule fold_driven [OF new_ok]) (simp_all add: driven_def newReconnectManager_def)

section \<open>Delays\<close>

text \<open>What a live backoff timer was set to: the bounds of a slow probe, or those of the next rapid attempt.\<close>

definition delay_in_bounds :: "ReconnectConfig \<Rightarrow> ReconnectManager \<Rightarrow> rat \<Rightarrow> bool" where
  "delay_in_bounds cfg s d \<longleftrightarrow>
     (if rm_waitingForRecovery s
      then cc_recoveryDelayMs cfg \<le> d \<and> d \<le> cc_recoveryDelayMs cfg * (1 + cc_jitterFactor cfg)
      else 0 < rm_reconnectAttempts s \<and>
        min (cc_maxDelayMs cfg) (cc_baseDelayMs cfg * 2 ^ (rm_reconnectAttempts s - 1)) \<le> d \<and>
        d \<le> min (cc_maxDelayMs cfg) (cc_baseDelayMs cfg * 2 ^ (rm_reconnectAttempts s - 1) * (1 + cc_jitterFactor cfg)))"

definition delays_ok :: "ReconnectConfig \<Rightarrow> ReconnectManager \<Rightarrow> bool" where
  "delays_ok cfg s \<longleftrightarrow> (\<forall>i d. rm_timers s i = Some (BackoffTimer d) \<longrightarrow> delay_in_bounds cfg s d)"

definition sane_config :: "ReconnectConfig \<Rightarrow> bool" where
  "sane_config cfg \<longleftrightarrow> 0 \<le> cc_baseDelayMs cfg \<and> 0 \<le> cc_recoveryDelayMs cfg \<and> 0 \<le> cc_jitterFactor cfg"

text \<open>\<open>Math.random\<close> gives a number from 0 up to, but not including, 1.\<close>

definition proper_random :: "surroundings \<times> occurrence \<Rightarrow> bool" where
  "proper_random e \<longleftrightarrow> 0 \<le> en_random (fst e) \<and> en_random (fst e) < 1"

lemma jittered:
  assumes "0 \<le> (b :: rat)" "0 \<le> j" "0 \<le> r" "r < 1"
  shows "b \<le> b * (1 + r * j)" "b * (1 + r * j) \<le> b * (1 + j)"
proof -
  have "0 \<le> r * j" "r * j \<le> j" using assms by (simp_all add: mult_left_le_one_le)
  then show "b \<le> b * (1 + r * j)" "b * (1 + r * j) \<le> b * (1 + j)"
    using assms(1) by (simp_all add: mult_le_cancel_left1 mult_left_mono)
qed

lemma no_backoff_delays: "timers_ok s \<Longrightarrow> rm_backoffTimerId s = None \<Longrightarrow> delays_ok cfg s"
  by (auto simp: delays_ok_def timers_ok_def dest: fired_backoff)

definition same_backoff :: "ReconnectManager \<Rightarrow> ReconnectManager \<Rightarrow> bool" where
  "same_backoff s t \<longleftrightarrow>
     (\<forall>i d. rm_timers t i = Some (BackoffTimer d) \<longrightarrow> rm_timers s i = Some (BackoffTimer d)) \<and>
     rm_waitingForRecovery t = rm_waitingForRecovery s \<and> rm_reconnectAttempts t = rm_reconnectAttempts s"

lemma same_backoff_delays: "same_backoff s t \<Longrightarrow> delays_ok cfg s \<Longrightarrow> delays_ok cfg t"
proof -
  assume same: "same_backoff s t" and "delays_ok cfg s"
  have "delay_in_bounds cfg t d = delay_in_bounds cfg s d" for d using same by (simp add: same_backoff_def delay_in_bounds_def)
  then show ?thesis using same \<open>delays_ok cfg s\<close> unfolding same_backoff_def delays_ok_def by metis
qed

lemma arm_delays: "timers_ok s \<Longrightarrow> rm_backoffTimerId s = None \<Longrightarrow> delay_in_bounds cfg s d \<Longrightarrow> delays_ok cfg (armBackoff d s)"
  using fired_backoff by (fastforce simp: delays_ok_def delay_in_bounds_def armBackoff_def setTimer_def timers_ok_def)

lemma schedule_delays:
  assumes "timers_ok s" "phase_ok cfg s" "delays_ok cfg s" "sane_config cfg" "0 \<le> en_random env" "en_random env < 1"
    "rm_backoffTimerId s = None \<or> rm_reconnectAttempts s \<ge> cc_maxAttempts cfg"
  shows "delays_ok cfg (scheduleReconnect cfg env s)"
proof -
  have cfg: "0 \<le> cc_baseDelayMs cfg" "0 \<le> cc_recoveryDelayMs cfg" "0 \<le> cc_jitterFactor cfg" using assms(4) by (simp_all add: sane_config_def)
  consider "scheduleReconnect cfg env s = s" | "rm_reconnectAttempts s \<ge> cc_maxAttempts cfg" "rm_started s" "rm_reconnectFn s \<noteq> None" "rm_driveReconnect s"
    | "rm_reconnectAttempts s < cc_maxAttempts cfg" "rm_started s" "rm_reconnectFn s \<noteq> None" "rm_driveReconnect s"
  proof (cases "rm_started s \<and> rm_reconnectFn s \<noteq> None \<and> rm_driveReconnect s")
    case True
    then show ?thesis using that(2,3) linorder_le_less_linear [of "cc_maxAttempts cfg" "rm_reconnectAttempts s"] by auto
  next
    case False
    then show ?thesis by (intro that(1)) (auto simp: scheduleReconnect_def)
  qed
  then show ?thesis
  proof cases
    case 1
    then show ?thesis using assms(3) by simp
  next
    case 2
    let ?s = "cancelBackoff (s\<lparr>rm_waitingForRecovery := True\<rparr>)"
    have s: "timers_ok ?s" "rm_backoffTimerId ?s = None" "rm_waitingForRecovery ?s"
      using drop_backoff [OF assms(1) [unfolded timers_ok_def]] by (simp_all add: timers_ok_def as_update)
    have "delay_in_bounds cfg ?s (cc_recoveryDelayMs cfg * (1 + en_random env * cc_jitterFactor cfg))"
      using jittered [OF cfg(2,3) assms(5,6)] s(3) by (simp add: delay_in_bounds_def)
    from arm_delays [OF s(1,2) this] no_backoff_delays [OF s(1,2)] show ?thesis
      using 2 by (simp add: scheduleReconnect_def Let_def)
  next
    case 3
    let ?a = "rm_reconnectAttempts s" and ?s = "s\<lparr>rm_reconnectAttempts := Suc (rm_reconnectAttempts s)\<rparr>"
    have s: "timers_ok ?s" "rm_backoffTimerId ?s = None" "\<not> rm_waitingForRecovery ?s"
      using assms(1,2,7) 3(1) by (auto simp: timers_ok_def phase_ok_def)
    have "0 \<le> cc_baseDelayMs cfg * 2 ^ ?a" using cfg(1) by simp
    from jittered [OF this cfg(3) assms(5,6)] have "delay_in_bounds cfg ?s (getBackoffDelay cfg env ?a)"
      using s(3) by (auto simp: delay_in_bounds_def getBackoffDelay_def Let_def min_def)
    from arm_delays [OF s(1,2) this] show ?thesis using 3 by (simp add: scheduleReconnect_def)
  qed
qed

lemma start_reconnecting_delays:
  assumes "timers_ok s" "phase_ok cfg s" "sane_config cfg" "0 \<le> en_random env" "en_random env < 1"
    "rm_backoffTimerId s = None" "rm_reconnectPromise s = None"
  shows "delays_ok cfg (startReconnecting cfg env s)"
proof -
  let ?s = "setState Reconnecting ((cancelPongTimeout s)\<lparr>rm_pendingPingId := None\<rparr>)"
  have "timers_ok ?s" "rm_backoffTimerId ?s = None"
    using drop_pong [OF assms(1) [unfolded timers_ok_def]] assms(6) by (simp_all add: timers_ok_def as_update)
  moreover have "phase_ok cfg ?s" using assms(2,7) by (auto simp: phase_ok_def as_update)
  ultimately show ?thesis
    unfolding startReconnecting_def using assms(3,4,5) by (intro schedule_delays no_backoff_delays) auto
qed

lemma force_delays:
  assumes "timers_ok s" "phase_ok cfg s" "delays_ok cfg s" "sane_config cfg" "0 \<le> en_random env" "en_random env < 1"
  shows "delays_ok cfg (forceReconnect cfg env reason s)"
proof -
  let ?s = "(cancelBackoff (s\<lparr>rm_reconnectAttempts := 0, rm_waitingForRecovery := False\<rparr>))\<lparr>rm_reconnectPromise := None\<rparr>"
  have "timers_ok ?s" using drop_backoff [OF assms(1) [unfolded timers_ok_def]] by (simp add: timers_ok_def as_update)
  moreover have "phase_ok cfg ?s" using assms(2) by (auto simp: phase_ok_def as_update)
  ultimately have "delays_ok cfg (startReconnecting cfg env ?s)"
    using assms(4,5,6) by (intro start_reconnecting_delays) (simp_all add: as_update)
  then show ?thesis using assms(3) by (simp add: forceReconnect_def)
qed

lemma execute_delays: "delays_ok cfg s \<Longrightarrow> delays_ok cfg (executeReconnect s)"
  by (erule same_backoff_delays [rotated]) (simp add: executeReconnect_def same_backoff_def announce_def split: option.split)

lemma recovery_delays: "timers_ok s \<Longrightarrow> delays_ok cfg s \<Longrightarrow> delays_ok cfg (requestRecovery env s)"
proof -
  assume "timers_ok s" "delays_ok cfg s"
  then have "delays_ok cfg (executeReconnect (cancelBackoff (s\<lparr>rm_lastRecoverySignal := Some t\<rparr>)))" for t
    using drop_backoff [OF \<open>timers_ok s\<close> [unfolded timers_ok_def]]
    by (intro execute_delays no_backoff_delays) (simp_all add: timers_ok_def as_update)
  then show ?thesis using \<open>delays_ok cfg s\<close> by (simp add: requestRecovery_def)
qed

lemma visible_delays:
  assumes "timers_ok s" "phase_ok cfg s" "delays_ok cfg s" "sane_config cfg" "0 \<le> en_random env" "en_random env < 1"
  shows "delays_ok cfg (visibilityChange cfg env visible s)"
proof -
  let ?h = "s\<lparr>rm_visible := visible\<rparr>" and ?v = "s\<lparr>rm_visible := visible, rm_hiddenSince := None\<rparr>"
  have v: "timers_ok ?v" "phase_ok cfg ?v" "delays_ok cfg ?v" "delays_ok cfg ?h" "timers_ok ?h"
    using assms same_backoff_delays [of s ?v cfg] same_backoff_delays [of s ?h cfg]
    by (simp_all add: timers_ok_def phase_ok_def same_backoff_def)
  have "delays_ok cfg (becameHidden env ?h)"
  proof (cases "rm_waitingForRecovery s")
    case True
    then have "timers_ok (becameHidden env ?h)" "rm_backoffTimerId (becameHidden env ?h) = None"
      using hidden_timers [OF v(5)] by (simp_all add: becameHidden_def as_update)
    then show ?thesis by (rule no_backoff_delays)
  next
    case False
    have "same_backoff ?h (becameHidden env ?h)" using False by (simp add: becameHidden_def same_backoff_def)
    then show ?thesis using v(4) by (rule same_backoff_delays)
  qed
  moreover have "delays_ok cfg (requestRecovery env (scheduleReconnect cfg env ?v))" if "rm_waitingForRecovery s"
  proof -
    have "rm_backoffTimerId ?v = None \<or> rm_reconnectAttempts ?v \<ge> cc_maxAttempts cfg" using assms(2) that by (auto simp: phase_ok_def)
    then show ?thesis using v assms(4,5,6) by (intro recovery_delays schedule_timers schedule_delays)
  qed
  moreover have "delays_ok cfg (sendWakePing cfg env (announce VisibilityRestored ?v))" if "rm_state s = Connected"
  proof (cases "en_pingThrows env")
    case True
    have "delays_ok cfg (forceReconnect cfg env reason (cancelPongTimeout (announce VisibilityRestored ?v)
        \<lparr>rm_pingCounter := p, rm_announced := a, rm_pendingPingId := None\<rparr>))" for reason p a
    proof (rule force_delays [OF _ _ _ assms(4,5,6)])
      show "timers_ok (cancelPongTimeout (announce VisibilityRestored ?v)\<lparr>rm_pingCounter := p, rm_announced := a, rm_pendingPingId := None\<rparr>)"
        using drop_pong [OF assms(1) [unfolded timers_ok_def]] by (simp add: timers_ok_def as_update)
      show "phase_ok cfg (cancelPongTimeout (announce VisibilityRestored ?v)\<lparr>rm_pingCounter := p, rm_announced := a, rm_pendingPingId := None\<rparr>)"
        using assms(2) by (auto simp: phase_ok_def as_update)
      show "delays_ok cfg (cancelPongTimeout (announce VisibilityRestored ?v)\<lparr>rm_pingCounter := p, rm_announced := a, rm_pendingPingId := None\<rparr>)"
        by (rule same_backoff_delays [OF _ assms(3)]) (simp add: same_backoff_def as_update drop_timer_Some)
    qed
    then show ?thesis using True by (simp add: sendWakePing_def Let_def announce_def)
  next
    case False
    then have "same_backoff s (sendWakePing cfg env (announce VisibilityRestored ?v))"
      by (auto simp: sendWakePing_def Let_def same_backoff_def as_update drop_timer_Some split: if_splits)
    then show ?thesis using assms(3) by (rule same_backoff_delays)
  qed
  moreover have "delays_ok cfg (announce VisibilityRestored ?v)"
    by (rule same_backoff_delays [OF _ assms(3)]) (simp add: same_backoff_def announce_def)
  ultimately show ?thesis using v by (cases visible) (simp_all add: visibilityChange_def handleBecameVisible_def Let_def)
qed

lemma fire_delays:
  assumes "timers_ok s" "phase_ok cfg s" "delays_ok cfg s" "sane_config cfg" "0 \<le> en_random env" "en_random env < 1"
  shows "delays_ok cfg (fireTimer cfg env i s)"
proof -
  note books = assms(1) [unfolded timers_ok_def]
  consider "rm_timers s i = None" | d where "rm_timers s i = Some (BackoffTimer d)" | p where "rm_timers s i = Some (PongTimer p)"
    | "rm_timers s i = Some StaleInterval" by (cases "rm_timers s i") (auto, metis TimerKind.exhaust)
  then show ?thesis
  proof cases
    case 1
    then show ?thesis using assms(3) by (simp add: fireTimer_def)
  next
    case 2
    have "same_backoff s ((clearTimer i s)\<lparr>rm_backoffTimerId := None\<rparr>)" by (simp add: same_backoff_def clearTimer_def)
    then show ?thesis using 2 assms(3) by (simp add: fireTimer_def execute_delays same_backoff_delays)
  next
    case 3
    let ?t = "(clearTimer i s)\<lparr>rm_pongTimeoutId := None\<rparr>" and ?u = "(clearTimer i s)\<lparr>rm_pongTimeoutId := None, rm_pendingPingId := None\<rparr>"
    have g: "rm_pongTimeoutId s = Some i" using fired_pong [OF books 3] by simp
    have t: "timers_ok ?u" "phase_ok cfg ?u" using drop_pong [OF books] g assms(2)
      by (auto simp: timers_ok_def clearTimer_def drop_timer_def phase_ok_def)
    have "same_backoff s ?t" "same_backoff s ?u" by (simp_all add: same_backoff_def clearTimer_def)
    then have "delays_ok cfg ?t" "delays_ok cfg ?u" using assms(3) by (blast intro: same_backoff_delays)+
    then show ?thesis using 3 force_delays [OF t _ assms(4,5,6)] by (simp add: fireTimer_def pongTimedOut_def Let_def)
  next
    case 4
    then show ?thesis using assms(3) force_delays [OF assms] by (simp add: fireTimer_def checkStale_def)
  qed
qed

lemma occur_delays:
  assumes "manager_ok cfg s" "delays_ok cfg s" "sane_config cfg" "proper_random e"
  shows "delays_ok cfg (occur cfg e s)"
proof -
  have ok: "timers_ok s" "phase_ok cfg s" and ok': "timers_ok (occur cfg e s)"
    using assms(1) occur_ok [OF assms(1), of e] by (simp_all add: manager_ok_def)
  have r: "0 \<le> en_random (fst e)" "en_random (fst e) < 1" using assms(4) by (simp_all add: proper_random_def)
  note same = same_backoff_delays [OF _ assms(2)]
  have idle: "rm_state s \<noteq> Reconnecting \<Longrightarrow> rm_backoffTimerId s = None \<and> rm_reconnectPromise s = None"
    using ok(2) by (auto simp: phase_ok_def)
  have failed: "delays_ok cfg (emitReconnectFailed err (setState Disconnected t))" if "timers_ok t" for err t
    by (rule no_backoff_delays [OF failed_timers [OF that]]) (simp add: as_update)
  have mark: "delays_ok cfg (markConnected t)" if "timers_ok t" "delays_ok cfg t" for t
    using no_backoff_delays [OF mark_timers [OF that(1)]] that(2) by (cases "rm_started t") (simp_all add: markConnected_def as_update)
  show ?thesis
  proof (cases "snd e")
    case (Start fn ping drive)
    show ?thesis
    proof (cases "rm_started s")
      case True
      then show ?thesis using Start by (intro same) (simp add: occur_def start_def same_backoff_def)
    next
      case False
      then have "rm_backoffTimerId (occur cfg e s) = None" using ok(2) Start
        by (simp add: occur_def start_def startStaleCheck_def as_update Let_def phase_ok_def)
      then show ?thesis by (rule no_backoff_delays [OF ok'])
    qed
  next
    case Stop
    then have "rm_backoffTimerId (occur cfg e s) = None" by (simp add: occur_def stop_def as_update Let_def)
    then show ?thesis by (rule no_backoff_delays [OF ok'])
  next
    case MarkConnected
    then show ?thesis using mark [OF ok(1) assms(2)] by (simp add: occur_def Let_def)
  next
    case (HandleError err)
    then show ?thesis using assms(2) idle start_reconnecting_delays [OF ok assms(3) r] failed [OF ok(1)]
      by (simp add: occur_def Let_def handleError_def)
  next
    case (HandleClose err)
    then show ?thesis using assms(2) idle start_reconnecting_delays [OF ok assms(3) r] failed [OF ok(1)]
      by (simp add: occur_def Let_def handleClose_def split: option.split)
  next
    case (ForceReconnect reason)
    then show ?thesis using force_delays [OF ok assms(2,3) r] by (simp add: occur_def Let_def)
  next
    case RequestRecovery
    then show ?thesis using recovery_delays [OF ok(1) assms(2)] by (simp add: occur_def Let_def)
  next
    case RecoveryOpportunity
    then show ?thesis using recovery_delays [OF ok(1) assms(2)] assms(2) by (simp add: occur_def Let_def)
  next
    case (VisibilityChange visible)
    then show ?thesis using visible_delays [OF ok assms(2,3) r] by (simp add: occur_def Let_def)
  next
    case (FireTimer i)
    then show ?thesis using fire_delays [OF ok assms(2,3) r] by (simp add: occur_def Let_def)
  next
    case (Resolved p)
    let ?s = "s\<lparr>rm_unsettled := removeAll p (rm_unsettled s)\<rparr>"
    have "delays_ok cfg ?s" by (rule same) (simp add: same_backoff_def)
    moreover have "timers_ok ?s" using ok(1) by (simp add: timers_ok_def)
    ultimately show ?thesis using Resolved assms(2) mark by (simp add: occur_def Let_def reconnectResolved_def)
  next
    case (Rejected p err)
    let ?t = "s\<lparr>rm_unsettled := removeAll p (rm_unsettled s), rm_reconnectPromise := None\<rparr>" and ?s = "s\<lparr>rm_unsettled := removeAll p (rm_unsettled s)\<rparr>"
    have t: "timers_ok ?t" "phase_ok cfg ?t" "delays_ok cfg ?t" and s: "delays_ok cfg ?s"
      using ok same [of ?t] same [of ?s] by (auto simp: timers_ok_def phase_ok_def same_backoff_def)
    have "rm_backoffTimerId ?t = None \<or> rm_reconnectAttempts ?t \<ge> cc_maxAttempts cfg" if "rm_reconnectPromise s = Some p"
      using ok(2) that by (auto simp: phase_ok_def)
    then have "delays_ok cfg (scheduleReconnect cfg (fst e) ?t)" if "rm_reconnectPromise s = Some p"
      using schedule_delays [OF t assms(3) r] that by blast
    then show ?thesis using Rejected assms(2) s failed [OF t(1)] by (simp add: occur_def Let_def reconnectRejected_def)
  qed (auto intro!: same simp: occur_def Let_def recordEvent_def recordHeartbeat_def beginCriticalOperation_def endCriticalOperation_def
      receivePong_def as_update same_backoff_def drop_timer_Some)
qed

lemma reachable_delays:
  assumes "sane_config cfg" "list_all proper_random events"
  shows "delays_ok cfg (after_events cfg visible events)"
proof -
  have "manager_ok cfg s \<Longrightarrow> delays_ok cfg s \<Longrightarrow> delays_ok cfg (fold (occur cfg) events s)" for s
    using assms(2) by (induction events arbitrary: s) (simp_all add: occur_ok occur_delays [OF _ _ assms(1)])
  then show ?thesis using new_ok unfolding after_events_def by (simp add: delays_ok_def newReconnectManager_def)
qed

section \<open>Properties\<close>

text \<open>C34: After any history the manager's record is well formed: every live timer is the one its field names and every field
  names a live timer of its kind, so there is at most one of each; a stopped manager has no timers, listeners or
  attempt; a timer or an attempt under way belongs to the state reconnecting, slow probes to an exhausted budget; a
  pong timer waits for the pending ping and never runs during a critical operation; the current attempt has not
  settled, and the depth counts the critical operations not ended.\<close>

theorem manager_well_formed: "manager_ok cfg (after_events cfg visible events)"
  by (rule reachable_ok)

lemma probe_when_seen:
  assumes "phase_ok cfg s" "rm_driveReconnect s" "rm_started s" "rm_waitingForRecovery s"
  shows "rm_backoffTimerId (visibilityChange cfg env True s) \<noteq> None \<or> rm_reconnectPromise (visibilityChange cfg env True s) \<noteq> None"
  using assms
  by (auto simp: phase_ok_def visibilityChange_def handleBecameVisible_def Let_def requestRecovery_def scheduleReconnect_def
      executeReconnect_def as_update split: option.split)

lemma backoff_fires:
  assumes "manager_ok cfg s" "rm_timers s i = Some (BackoffTimer d)"
  shows "rm_reconnectPromise (fireTimer cfg env i s) \<noteq> None"
proof -
  have "rm_backoffTimerId s = Some i" using fired_backoff assms by (auto simp: manager_ok_def timers_ok_def)
  then have "rm_started s" "rm_reconnectFn s \<noteq> None" using assms(1) by (auto simp: manager_ok_def phase_ok_def)
  then show ?thesis using assms(2) by (auto simp: fireTimer_def executeReconnect_def as_update split: option.split)
qed

lemma backoff_live:
  assumes "manager_ok cfg s" "rm_backoffTimerId s = Some i"
  shows "\<exists>d. rm_timers s i = Some (BackoffTimer d)"
proof -
  have "timer_at (rm_timers s i) i (Some i) (rm_pongTimeoutId s) (rm_staleCheckIntervalId s) (rm_pendingPingId s)"
    using timer_books_at assms by (fastforce simp: manager_ok_def timers_ok_def)
  then show ?thesis by (cases "rm_timers s i"; simp) (metis TimerKind.exhaust timer_at.simps(3,4))
qed

text \<open>C33: A manager that drives its reconnects is never stuck: after any history in which it is started and reconnecting,
  a backoff timer is live and will start an attempt (or find one under way) when it fires, or an attempt has not yet
  settled, or the page is hidden, and as soon as it is seen there is a timer or an attempt.\<close>

theorem reconnecting_never_stuck:
  assumes "list_all drives events" and "s = after_events cfg visible events" and "rm_started s" and "rm_state s = Reconnecting"
  shows "(\<exists>i d. rm_backoffTimerId s = Some i \<and> rm_timers s i = Some (BackoffTimer d) \<and>
            (\<forall>env. rm_reconnectPromise (occur cfg (env, FireTimer i) s) \<noteq> None)) \<or>
         (\<exists>p. p \<in> set (rm_unsettled s) \<and> rm_reconnectPromise s = Some p) \<or>
         \<not> rm_visible s \<and>
           (\<forall>env. rm_backoffTimerId (occur cfg (env, VisibilityChange True) s) \<noteq> None \<or>
              rm_reconnectPromise (occur cfg (env, VisibilityChange True) s) \<noteq> None)"
proof -
  have ok: "manager_ok cfg s" and driven: "driven s" using reachable_ok reachable_driven [OF assms(1)] assms(2) by simp_all
  consider i where "rm_backoffTimerId s = Some i" | p where "rm_reconnectPromise s = Some p" | "rm_waitingForRecovery s" "\<not> rm_visible s"
    using driven assms(3,4) by (auto simp: driven_def)
  then show ?thesis
  proof cases
    case 1
    then obtain d where d: "rm_timers s i = Some (BackoffTimer d)" using backoff_live [OF ok] by blast
    then show ?thesis using 1 backoff_fires [OF ok d] by (simp add: occur_def)
  next
    case 2
    then show ?thesis using ok by (auto simp: manager_ok_def promises_ok_def)
  next
    case 3
    then show ?thesis using probe_when_seen ok driven assms(3) by (simp add: occur_def manager_ok_def driven_def)
  qed
qed

text \<open>C35: While a critical operation runs, no health check takes the connection down: whatever timer fires, whether the
  page is shown or hidden and a ping can be sent or not, a connected manager stays connected.\<close>

theorem critical_operation_undisturbed:
  assumes "s = after_events cfg visible events" and "rm_openOperations s \<noteq> []" and "rm_state s = Connected"
  shows "rm_state (occur cfg (env, FireTimer i) s) = Connected \<and> rm_state (occur cfg (env, VisibilityChange seen) s) = Connected"
proof -
  have ok: "timers_ok s" "phase_ok cfg s" using reachable_ok [of cfg visible events] assms(1) by (simp_all add: manager_ok_def)
  have idle: "rm_backoffTimerId s = None" "rm_pongTimeoutId s = None" "\<not> rm_waitingForRecovery s" "rm_criticalOperationDepth s > 0"
    using ok(2) assms(2,3) by (auto simp: phase_ok_def)
  have "rm_state (fireTimer cfg env i s) = Connected"
  proof (cases "rm_timers s i")
    case (Some kind)
    then have "kind = StaleInterval"
      using fired_backoff fired_pong ok(1) idle(1,2) by (cases kind) (fastforce simp: timers_ok_def)+
    then show ?thesis using Some idle(4) assms(3) by (simp add: fireTimer_def checkStale_def)
  qed (simp add: fireTimer_def assms(3))
  moreover have "rm_state (visibilityChange cfg env seen s) = Connected"
    using idle assms(3) by (simp add: visibilityChange_def handleBecameVisible_def becameHidden_def Let_def announce_def)
  ultimately show ?thesis by (simp add: occur_def)
qed

text \<open>The rapid attempts never exceed their budget, and every live backoff timer was set within bounds: doubling from
  the base delay with the attempts made, with at most the jitter on top and never above the maximum; or, once the
  budget is spent, at least the recovery delay.\<close>

theorem retry_delays_bounded:
  assumes "sane_config cfg" and "list_all proper_random events" and "s = after_events cfg visible events"
  shows "rm_reconnectAttempts s \<le> cc_maxAttempts cfg \<and>
    (rm_timers s i = Some (BackoffTimer d) \<longrightarrow> delay_in_bounds cfg s d)"
  using reachable_delays [OF assms(1,2), of visible] reachable_ok [of cfg visible events] assms(3)
  by (simp add: delays_ok_def manager_ok_def phase_ok_def)

definition sample_env :: "nat list \<Rightarrow> surroundings" where
  "sample_env terminal = \<lparr>en_now = 0, en_random = 0, en_pingThrows = False, en_nonRetryable = (\<lambda>e. e \<in> set terminal)\<rparr>"

definition wake_then_refused :: "(surroundings \<times> occurrence) list" where
  "wake_then_refused = map (Pair (sample_env [7])) [Start 0 True True, VisibilityChange True, HandleClose (Some 7)]"

text \<open>What holds while the answer to a ping is awaited.\<close>

lemma pong_awaited:
  assumes "manager_ok cfg s" and "rm_timers s i = Some (PongTimer p)"
  shows "rm_pongTimeoutId s = Some i" "rm_pendingPingId s = Some p" "rm_started s" "rm_reconnectFn s \<noteq> None"
    "rm_state s \<noteq> Reconnecting" "rm_backoffTimerId s = None" "rm_criticalOperationDepth s = 0"
proof -
  have books: "timers_ok s" and phase: "phase_ok cfg s" using assms(1) by (simp_all add: manager_ok_def)
  show g: "rm_pongTimeoutId s = Some i" "rm_pendingPingId s = Some p"
    using timer_books_at [OF books [unfolded timers_ok_def], of i] assms(2) by simp_all
  show "rm_started s" "rm_reconnectFn s \<noteq> None" "rm_state s \<noteq> Reconnecting" "rm_backoffTimerId s = None"
    "rm_criticalOperationDepth s = 0"
    using phase g(1) by (auto simp: phase_ok_def)
qed

lemma refused_while_pinging:
  assumes "manager_ok cfg s" and "rm_timers s i = Some (PongTimer p)"
    and "t = emitReconnectFailed err (setState Disconnected s)"
  shows "rm_state t = Disconnected \<and> last (rm_announced t) = ReconnectFailed err \<and> rm_timers t = rm_timers s \<and>
    rm_pendingPingId t = Some p \<and> rm_started t \<and> rm_reconnectFn t = rm_reconnectFn s \<and> rm_criticalOperationDepth t = 0 \<and>
    rm_backoffTimerId t = None \<and> rm_driveReconnect t = rm_driveReconnect s"
  using pong_awaited [OF assms(1,2)]
  by (simp add: assms(3) emitReconnectFailed_def cancelBackoff_def setState_def announce_def)

lemma pong_timeout_reconnects:
  assumes "rm_timers t i = Some (PongTimer p)" and "rm_pendingPingId t = Some p" and "rm_started t"
    and "rm_reconnectFn t \<noteq> None" and "rm_criticalOperationDepth t = 0" and "rm_backoffTimerId t = None"
    and "u = fireTimer cfg env i t"
  shows "rm_state u = Reconnecting"
    and "rm_driveReconnect t \<Longrightarrow> 0 < cc_maxAttempts cfg \<Longrightarrow> \<exists>j d. rm_timers u j = Some (BackoffTimer d) \<and>
      rm_reconnectPromise (fireTimer cfg env' j u) \<noteq> None"
proof -
  have u: "u = startReconnecting cfg env (t\<lparr>rm_timers := (rm_timers t)(i := None), rm_pongTimeoutId := None,
      rm_pendingPingId := None, rm_reconnectAttempts := 0, rm_waitingForRecovery := False, rm_reconnectPromise := None\<rparr>)"
    using assms by (simp add: fireTimer_def pongTimedOut_def forceReconnect_def shouldSuppressHealthReconnect_def
        clearTimer_def cancelBackoff_def)
  show "rm_state u = Reconnecting"
    by (auto simp: u startReconnecting_def scheduleReconnect_def armBackoff_def as_update Let_def)
  assume drive: "rm_driveReconnect t" "0 < cc_maxAttempts cfg"
  let ?d = "getBackoffDelay cfg env 0"
  have "rm_timers u (rm_nextTimer t) = Some (BackoffTimer ?d)" "rm_reconnectFn u = rm_reconnectFn t" "rm_started u"
    "rm_reconnectPromise u = None"
    using drive assms(3,4)
    by (auto simp: u startReconnecting_def scheduleReconnect_def armBackoff_def cancelPongTimeout_def setState_def
        announce_def setTimer_def)
  then show "\<exists>j d. rm_timers u j = Some (BackoffTimer d) \<and> rm_reconnectPromise (fireTimer cfg env' j u) \<noteq> None"
    using assms(4) by (intro exI conjI) (auto simp: fireTimer_def executeReconnect_def clearTimer_def announce_def)
qed

text \<open>C36: A refusal that is not worth retrying does not end a wake-up check. In any reachable state in which the answer to a
  ping is awaited, when the connection fails or closes with such an error, consumers are told that reconnecting failed for
  good and the manager is disconnected, but the pong timer stays live; when it fires next the manager reconnects all the same,
  and if it drives reconnection itself it sets a backoff timer that calls the reconnect function.\<close>

theorem terminal_error_overridden:
  assumes "s = after_events cfg visible events" and "rm_timers s i = Some (PongTimer p)"
    and "refusal = HandleError err \<or> refusal = HandleClose (Some err)" and "en_nonRetryable env err"
    and "t = occur cfg (env, refusal) s" and "u = occur cfg (env', FireTimer i) t"
  shows "rm_state t = Disconnected \<and> last (rm_announced t) = ReconnectFailed err \<and> rm_timers t i = Some (PongTimer p) \<and>
    rm_state u = Reconnecting \<and>
    (rm_driveReconnect s \<longrightarrow> 0 < cc_maxAttempts cfg \<longrightarrow>
       (\<exists>j d. rm_timers u j = Some (BackoffTimer d) \<and> rm_reconnectPromise (occur cfg (env'', FireTimer j) u) \<noteq> None))"
proof -
  have ok: "manager_ok cfg s" unfolding assms(1) by (rule reachable_ok)
  note awaited = pong_awaited [OF ok assms(2)]
  have "t = emitReconnectFailed err (setState Disconnected s)"
    using assms(3,4,5) awaited(5) by (auto simp: occur_def handleError_def handleClose_def)
  note t = refused_while_pinging [OF ok assms(2) this]
  have u: "u = fireTimer cfg env' i t" by (simp add: assms(6) occur_def)
  have "rm_timers t i = Some (PongTimer p)" "rm_reconnectFn t \<noteq> None" using t assms(2) awaited(4) by simp_all
  note v = pong_timeout_reconnects(1) [OF this(1) _ _ this(2) _ _ u]
    pong_timeout_reconnects(2) [OF this(1) _ _ this(2) _ _ u, where env' = env'']
  show ?thesis using t v assms(2) by (simp add: occur_def)
qed

lemma terminal_error_overridden_witness:
  "rm_announced (after_events default_reconnect_config True wake_then_refused) =
     [StateChange Connected Disconnected, VisibilityRestored, SendPing 1, StateChange Disconnected Connected, ReconnectFailed 7] \<and>
   rm_state (occur default_reconnect_config (sample_env [7], FireTimer 1)
     (after_events default_reconnect_config True wake_then_refused)) = Reconnecting"
proof -
  let ?s = "after_events default_reconnect_config True (take 2 wake_then_refused)"
  have "rm_timers ?s 1 = Some (PongTimer 1)" by code_simp
  moreover have "en_nonRetryable (sample_env [7]) 7" by code_simp
  ultimately have "rm_state (occur default_reconnect_config (sample_env [7], FireTimer 1)
      (occur default_reconnect_config (sample_env [7], HandleClose (Some 7)) ?s)) = Reconnecting"
    using terminal_error_overridden [OF refl _ disjI2 [OF refl] _ refl refl, of default_reconnect_config True "take 2 wake_then_refused" 1 1
        "sample_env [7]" 7] by blast
  moreover have "after_events default_reconnect_config True wake_then_refused =
      occur default_reconnect_config (sample_env [7], HandleClose (Some 7)) ?s"
    by (simp add: after_events_def wake_then_refused_def)
  moreover have "rm_announced (after_events default_reconnect_config True wake_then_refused) =
     [StateChange Connected Disconnected, VisibilityRestored, SendPing 1, StateChange Disconnected Connected, ReconnectFailed 7]"
    by code_simp
  ultimately show ?thesis by simp
qed

text \<open>A close that arrives after the manager was stopped leaves it in the state reconnecting with nothing to end it.\<close>

lemma stopped_manager_reconnecting:
  "(let s = after_events default_reconnect_config True (map (Pair (sample_env [])) [Start 0 True True, Stop, HandleClose (Some 1)])
    in rm_state s = Reconnecting \<and> \<not> rm_started s \<and> rm_backoffTimerId s = None \<and> rm_reconnectPromise s = None)"
  by code_simp

definition outage :: "(surroundings \<times> occurrence) list" where
  "outage = map (Pair (sample_env [])) [Start 0 True True, BeginCritical, HandleClose None]"

lemma reconnecting_never_stuck_witness:
  "\<exists>i d. rm_backoffTimerId (after_events default_reconnect_config True outage) = Some i \<and>
     rm_timers (after_events default_reconnect_config True outage) i = Some (BackoffTimer d) \<and>
     (\<forall>env. rm_reconnectPromise (occur default_reconnect_config (env, FireTimer i)
       (after_events default_reconnect_config True outage)) \<noteq> None)"
proof -
  have idle: "rm_reconnectPromise (after_events default_reconnect_config True outage) = None"
    "rm_visible (after_events default_reconnect_config True outage)" by code_simp+
  have "list_all drives outage" "rm_started (after_events default_reconnect_config True outage)"
    "rm_state (after_events default_reconnect_config True outage) = Reconnecting" by code_simp+
  from reconnecting_never_stuck [OF this(1) refl this(2,3)] idle show ?thesis by simp
qed

lemma critical_operation_undisturbed_witness:
  "rm_state (occur default_reconnect_config (sample_env [], FireTimer 0)
     (after_events default_reconnect_config True (take 2 outage))) = Connected"
proof -
  have "rm_openOperations (after_events default_reconnect_config True (take 2 outage)) \<noteq> []"
    "rm_state (after_events default_reconnect_config True (take 2 outage)) = Connected" by code_simp+
  from critical_operation_undisturbed [OF refl this] show ?thesis by blast
qed

lemma retry_delays_bounded_witness:
  "delay_in_bounds default_reconnect_config (after_events default_reconnect_config True outage) 1000"
proof -
  have "sane_config default_reconnect_config" "list_all proper_random outage"
    "rm_timers (after_events default_reconnect_config True outage) 1 = Some (BackoffTimer 1000)" by code_simp+
  from retry_delays_bounded [OF this(1,2) refl, of True 1 1000] this(3) show ?thesis by simp
qed

end
