(* ===== verification/MuxClient.thy ===== *)
theory MuxClient
  imports RelayMux "HOL-Library.Code_Target_Nat" "HOL-Library.Code_Target_Int"
begin

text \<open>
  The client's end of a multiplexed relay connection (packages/client/src/lib/connection/RelayMuxPool.ts,
  classes RelayMuxPhysicalConnection and RelayMuxCircuitSocket): one WebSocket to the relay carries many
  circuits. What the code sends, closes, settles or tells its owners is recorded in order, an exception
  that leaves a handler as \<open>Thrown\<close>. Every call of \<open>openCircuit\<close> has a number, which names its promise and
  its socket. The callbacks of owners do not call back.
\<close>

section \<open>State\<close>

definition CLIENT_QUEUE_BYTES_PER_CIRCUIT :: nat where "CLIENT_QUEUE_BYTES_PER_CIRCUIT = 2 * 1024 * 1024"
definition CLIENT_QUEUE_BYTES_PER_SOCKET :: nat where "CLIENT_QUEUE_BYTES_PER_SOCKET = 8 * 1024 * 1024"
definition CLIENT_BUFFERED_AMOUNT_HIGH_WATER :: nat where "CLIENT_BUFFERED_AMOUNT_HIGH_WATER = 1024 * 1024"

datatype ReadyState = WsConnecting | WsOpen | WsClosing | WsClosed

record CircuitSocket =
  cs_circuitId :: js_number
  cs_state :: ReadyState

datatype client_effect =
    WsText json
  | WsData bytes
  | WsClose "nat option" string
  | OnMessage nat bytes bool
  | OnClose nat nat string
  | OnError nat
  | Resolved nat
  | Rejected nat string
  | MuxConnected
  | ConnectFailed string
  | PhysicalClosed
  | Thrown string

record MuxClient =
  mp_ws :: ReadyState
  mp_settled :: bool
  mp_connected :: bool
  mp_readyTimer :: bool
  mp_sockets :: "(nat \<times> CircuitSocket) list"
  mp_nextCall :: nat
  mp_circuits :: "(js_number \<times> nat) list"
  mp_pending :: "(js_number \<times> nat) list"
  mp_timeouts :: "nat list"
  mp_abortable :: "nat list"
  mp_queues :: "(js_number \<times> bytes list) list"
  mp_queuedBytesByCircuit :: "(js_number \<times> int) list"
  mp_queuedBytes :: int
  mp_circuitOrder :: "js_number list"
  mp_drainCursor :: nat
  mp_drainScheduled :: bool
  mp_drainTimer :: bool
  mp_nextCircuitId :: nat
  mp_maxFrameBytes :: js_number
  mp_maxCircuits :: js_number
  mp_closed :: bool
  mp_trace :: "client_effect list"

definition newMuxClient :: MuxClient where
  "newMuxClient =
     \<lparr>mp_ws = WsConnecting, mp_settled = False, mp_connected = False, mp_readyTimer = True, mp_sockets = [], mp_nextCall = 0,
      mp_circuits = [], mp_pending = [], mp_timeouts = [], mp_abortable = [], mp_queues = [], mp_queuedBytesByCircuit = [],
      mp_queuedBytes = 0, mp_circuitOrder = [], mp_drainCursor = 0, mp_drainScheduled = False, mp_drainTimer = False,
      mp_nextCircuitId = 1, mp_maxFrameBytes = js_nat 0, mp_maxCircuits = js_nat 0, mp_closed = False, mp_trace = []\<rparr>"

definition emit :: "client_effect \<Rightarrow> MuxClient \<Rightarrow> MuxClient" where
  "emit e s = s\<lparr>mp_trace := mp_trace s @ [e]\<rparr>"

definition isOpen :: "MuxClient \<Rightarrow> bool" where
  "isOpen s \<longleftrightarrow> \<not> mp_closed s \<and> mp_ws s = WsOpen"

text \<open>\<open>sendControl\<close> and what its caller does next, which an exception skips.\<close>

definition sendControl :: "json \<Rightarrow> (MuxClient \<Rightarrow> MuxClient) \<Rightarrow> MuxClient \<Rightarrow> MuxClient" where
  "sendControl message continue s =
     (if \<not> isOpen s then emit (Thrown ''Relay mux is not connected'') s else continue (emit (WsText message) s))"

definition wsClose :: "nat option \<Rightarrow> string \<Rightarrow> MuxClient \<Rightarrow> MuxClient" where
  "wsClose code reason s =
     (emit (WsClose code reason) s)
       \<lparr>mp_ws := (if mp_ws s = WsConnecting \<or> mp_ws s = WsOpen then WsClosing else mp_ws s)\<rparr>"

definition mux_close :: "js_number \<Rightarrow> json" where
  "mux_close circuitId = JObj [(''type'', JStr ''mux_close''), (''circuitId'', JNum circuitId)]"

definition mux_open :: "js_number \<Rightarrow> string \<Rightarrow> string \<Rightarrow> json" where
  "mux_open circuitId username channel =
     JObj [(''type'', JStr ''mux_open''), (''circuitId'', JNum circuitId), (''username'', JStr username), (''channel'', JStr channel)]"

section \<open>Circuits\<close>

definition remoteClose :: "nat \<Rightarrow> nat \<Rightarrow> string \<Rightarrow> MuxClient \<Rightarrow> MuxClient" where
  "remoteClose call code reason s =
     (case map_of (mp_sockets s) call of
        None \<Rightarrow> s
      | Some socket \<Rightarrow>
          if cs_state socket = WsClosed then s
          else emit (OnClose call code reason)
            (s\<lparr>mp_sockets := AList.update call (socket\<lparr>cs_state := WsClosed\<rparr>) (mp_sockets s)\<rparr>))"

definition circuit_bytes :: "js_number \<Rightarrow> MuxClient \<Rightarrow> int" where
  "circuit_bytes circuitId s = (case map_of (mp_queuedBytesByCircuit s) circuitId of None \<Rightarrow> 0 | Some n \<Rightarrow> n)"

definition removeCircuit :: "js_number \<Rightarrow> nat \<Rightarrow> string \<Rightarrow> MuxClient \<Rightarrow> MuxClient" where
  "removeCircuit circuitId code reason s =
     (case map_of (mp_circuits s) circuitId of
        None \<Rightarrow> s
      | Some call \<Rightarrow>
          remoteClose call code reason
            (s\<lparr>mp_circuits := AList.delete circuitId (mp_circuits s),
               mp_queuedBytes := mp_queuedBytes s - circuit_bytes circuitId s,
               mp_queuedBytesByCircuit := AList.delete circuitId (mp_queuedBytesByCircuit s),
               mp_queues := AList.delete circuitId (mp_queues s),
               mp_circuitOrder := filter (\<lambda>i. i \<noteq> circuitId) (mp_circuitOrder s)\<rparr>))"

definition closeCircuit :: "js_number \<Rightarrow> string \<Rightarrow> MuxClient \<Rightarrow> MuxClient" where
  "closeCircuit circuitId reason s =
     (if map_of (mp_circuits s) circuitId = None then s
      else removeCircuit circuitId 1008 reason (if isOpen s then sendControl (mux_close circuitId) (\<lambda>s. s) s else s))"

definition fail :: "nat \<Rightarrow> string \<Rightarrow> MuxClient \<Rightarrow> MuxClient" where
  "fail call message s =
     (case map_of (mp_sockets s) call of
        None \<Rightarrow> s
      | Some socket \<Rightarrow>
          if cs_state socket = WsClosed then s else closeCircuit (cs_circuitId socket) message (emit (OnError call) s))"

definition receive :: "nat \<Rightarrow> bytes \<Rightarrow> bool \<Rightarrow> MuxClient \<Rightarrow> MuxClient" where
  "receive call payload isBinary s =
     (case map_of (mp_sockets s) call of
        None \<Rightarrow> s
      | Some socket \<Rightarrow> if cs_state socket \<noteq> WsOpen then s else emit (OnMessage call payload isBinary) s)"

text \<open>\<open>allocateCircuitId\<close>: the ids from the next one on, in a circle.\<close>

fun allocate :: "nat \<Rightarrow> nat \<Rightarrow> (nat \<Rightarrow> bool) \<Rightarrow> nat option \<times> nat" where
  "allocate 0 next_id used = (None, next_id)"
| "allocate (Suc attempts) next_id used =
     (let following = (if next_id = 0xffffffff then 1 else next_id + 1)
      in if \<not> used next_id then (Some next_id, following) else allocate attempts following used)"

definition allocateCircuitId :: "MuxClient \<Rightarrow> nat option \<times> MuxClient" where
  "allocateCircuitId s =
     (let (found, following) = allocate 0xffffffff (mp_nextCircuitId s)
        (\<lambda>candidate. map_of (mp_pending s) (js_nat candidate) \<noteq> None \<or> map_of (mp_circuits s) (js_nat candidate) \<noteq> None)
      in (found, s\<lparr>mp_nextCircuitId := following\<rparr>))"

section \<open>Opening a circuit\<close>

text \<open>The promise of a call is settled; its abort listener goes with it.\<close>

definition settle :: "nat \<Rightarrow> client_effect \<Rightarrow> MuxClient \<Rightarrow> MuxClient" where
  "settle call outcome s = emit outcome (s\<lparr>mp_abortable := removeAll call (mp_abortable s)\<rparr>)"

definition forget_pending :: "js_number \<Rightarrow> nat \<Rightarrow> MuxClient \<Rightarrow> MuxClient" where
  "forget_pending circuitId call s =
     s\<lparr>mp_pending := AList.delete circuitId (mp_pending s), mp_timeouts := removeAll call (mp_timeouts s)\<rparr>"

definition handleAbort :: "js_number \<Rightarrow> nat \<Rightarrow> MuxClient \<Rightarrow> MuxClient" where
  "handleAbort circuitId call s =
     sendControl (mux_close circuitId)
       (\<lambda>s. emit (Rejected call ''AbortError'') (remoteClose call 1000 ''Relay connection aborted'' s))
       (forget_pending circuitId call s)"

definition openCircuit :: "string \<Rightarrow> string \<Rightarrow> bool \<Rightarrow> bool \<Rightarrow> MuxClient \<Rightarrow> MuxClient" where
  "openCircuit username channel hasSignal aborted s =
     (let call = mp_nextCall s; s = s\<lparr>mp_nextCall := Suc call\<rparr>
      in if \<not> isOpen s then emit (Rejected call ''Relay mux is not connected'') s
         else if \<not> js_less (js_nat (length (mp_circuits s) + length (mp_pending s))) (mp_maxCircuits s)
         then emit (Rejected call ''circuit_limit'') s
         else
           (case allocateCircuitId s of
              (None, s) \<Rightarrow> emit (Rejected call ''Relay mux circuit ids exhausted'') s
            | (Some candidate, s) \<Rightarrow>
                let circuitId = js_nat candidate;
                    s = s\<lparr>mp_sockets := AList.update call \<lparr>cs_circuitId = circuitId, cs_state = WsConnecting\<rparr> (mp_sockets s),
                          mp_pending := AList.update circuitId call (mp_pending s), mp_timeouts := mp_timeouts s @ [call]\<rparr>
                in if hasSignal \<and> aborted then handleAbort circuitId call s
                   else sendControl (mux_open circuitId username channel) (\<lambda>s. s)
                     (if hasSignal then s\<lparr>mp_abortable := mp_abortable s @ [call]\<rparr> else s)))"

definition abort :: "nat \<Rightarrow> MuxClient \<Rightarrow> MuxClient" where
  "abort call s =
     (if call \<notin> set (mp_abortable s) then s
      else
        (case map_of (mp_sockets s) call of
           None \<Rightarrow> s
         | Some socket \<Rightarrow> handleAbort (cs_circuitId socket) call (s\<lparr>mp_abortable := removeAll call (mp_abortable s)\<rparr>)))"

definition openTimeout :: "nat \<Rightarrow> MuxClient \<Rightarrow> MuxClient" where
  "openTimeout call s =
     (if call \<notin> set (mp_timeouts s) then s
      else
        (case map_of (mp_sockets s) call of
           None \<Rightarrow> s
         | Some socket \<Rightarrow>
             sendControl (mux_close (cs_circuitId socket))
               (\<lambda>s. emit (Rejected call ''Waiting for relay circuit timed out'')
                  (remoteClose call 1006 ''Waiting for relay circuit timed out'' s))
               ((forget_pending (cs_circuitId socket) call s)\<lparr>mp_abortable := removeAll call (mp_abortable s)\<rparr>)))"

section \<open>Data to the relay\<close>

definition scheduleDrain :: "bool \<Rightarrow> MuxClient \<Rightarrow> MuxClient" where
  "scheduleDrain delayed s =
     (if mp_closed s \<or> mp_drainScheduled s \<or> mp_drainTimer s then s
      else if delayed then s\<lparr>mp_drainTimer := True\<rparr> else s\<lparr>mp_drainScheduled := True\<rparr>)"

text \<open>The frame is queued; a first frame puts the circuit at the end of the order.\<close>

definition enqueue :: "js_number \<Rightarrow> bytes \<Rightarrow> MuxClient \<Rightarrow> MuxClient" where
  "enqueue circuitId frame s =
     scheduleDrain False
       (s\<lparr>mp_queues := AList.update circuitId
            (case map_of (mp_queues s) circuitId of None \<Rightarrow> [frame] | Some queue \<Rightarrow> queue @ [frame]) (mp_queues s),
          mp_circuitOrder := (if map_of (mp_queues s) circuitId = None then mp_circuitOrder s @ [circuitId] else mp_circuitOrder s),
          mp_queuedBytesByCircuit :=
            AList.update circuitId (circuit_bytes circuitId s + int (length frame)) (mp_queuedBytesByCircuit s),
          mp_queuedBytes := mp_queuedBytes s + int (length frame)\<rparr>)"

definition sendCircuitData :: "js_number \<Rightarrow> bytes \<Rightarrow> bool \<Rightarrow> MuxClient \<Rightarrow> MuxClient" where
  "sendCircuitData circuitId payload isBinary s =
     (case map_of (mp_circuits s) circuitId of
        None \<Rightarrow> emit (Thrown ''InvalidStateError'') s
      | Some call \<Rightarrow>
          if \<not> isOpen s then emit (Thrown ''InvalidStateError'') s
          else if js_less (mp_maxFrameBytes s) (js_nat (length payload))
          then emit (Thrown ''QuotaExceededError'') (fail call ''Relay mux frame is too large'' s)
          else
            (case encodeRelayMuxDataFrame circuitId payload isBinary of
               Inl _ \<Rightarrow> emit (Thrown ''RelayMuxFrameError'') s
             | Inr frame \<Rightarrow>
                 if circuit_bytes circuitId s + int (length frame) > int CLIENT_QUEUE_BYTES_PER_CIRCUIT \<or>
                    mp_queuedBytes s + int (length frame) > int CLIENT_QUEUE_BYTES_PER_SOCKET
                 then emit (Thrown ''QuotaExceededError'') (fail call ''Relay mux queue overflow'' s)
                 else enqueue circuitId frame s))"

definition socket_send :: "nat \<Rightarrow> bytes \<Rightarrow> bool \<Rightarrow> MuxClient \<Rightarrow> MuxClient" where
  "socket_send call payload isBinary s =
     (case map_of (mp_sockets s) call of
        None \<Rightarrow> s
      | Some socket \<Rightarrow>
          if cs_state socket \<noteq> WsOpen then emit (Thrown ''InvalidStateError'') s
          else sendCircuitData (cs_circuitId socket) payload isBinary s)"

definition requestCircuitClose :: "js_number \<Rightarrow> MuxClient \<Rightarrow> MuxClient" where
  "requestCircuitClose circuitId s =
     (if map_of (mp_circuits s) circuitId = None then s
      else if \<not> isOpen s then removeCircuit circuitId 1006 ''Relay mux disconnected'' s
      else sendControl (mux_close circuitId) (\<lambda>s. s) s)"

definition socket_close :: "nat \<Rightarrow> MuxClient \<Rightarrow> MuxClient" where
  "socket_close call s =
     (case map_of (mp_sockets s) call of
        None \<Rightarrow> s
      | Some socket \<Rightarrow>
          if cs_state socket = WsClosing \<or> cs_state socket = WsClosed then s
          else requestCircuitClose (cs_circuitId socket)
            (s\<lparr>mp_sockets := AList.update call (socket\<lparr>cs_state := WsClosing\<rparr>) (mp_sockets s)\<rparr>))"

section \<open>Draining\<close>

definition has_queued :: "MuxClient \<Rightarrow> js_number \<Rightarrow> bool" where
  "has_queued s circuitId = (case map_of (mp_queues s) circuitId of None \<Rightarrow> False | Some queue \<Rightarrow> queue \<noteq> [])"

definition shift_frame :: "js_number \<Rightarrow> bytes list \<Rightarrow> MuxClient \<Rightarrow> MuxClient" where
  "shift_frame circuitId queue s =
     (let n = int (length (hd queue));
          remaining = (case map_of (mp_queuedBytesByCircuit s) circuitId of None \<Rightarrow> n | Some bytes \<Rightarrow> bytes) - n
      in s\<lparr>mp_queues := (if tl queue = [] then AList.delete circuitId (mp_queues s)
                         else AList.update circuitId (tl queue) (mp_queues s)),
           mp_circuitOrder := (if tl queue = [] then filter (\<lambda>i. i \<noteq> circuitId) (mp_circuitOrder s) else mp_circuitOrder s),
           mp_queuedBytesByCircuit := AList.update circuitId remaining (mp_queuedBytesByCircuit s),
           mp_queuedBytes := mp_queuedBytes s - n\<rparr>)"

definition nextQueuedFrame :: "MuxClient \<Rightarrow> bytes option \<times> MuxClient" where
  "nextQueuedFrame s =
     (let order = mp_circuitOrder s; n = length order in
      case List.find (\<lambda>offset. has_queued s (order ! ((mp_drainCursor s + offset) mod n))) [0..<n] of
        None \<Rightarrow> (None, s)
      | Some offset \<Rightarrow>
          let index = (mp_drainCursor s + offset) mod n; circuitId = order ! index
          in (case map_of (mp_queues s) circuitId of
                None \<Rightarrow> (None, s)
              | Some queue \<Rightarrow> (Some (hd queue), shift_frame circuitId queue (s\<lparr>mp_drainCursor := (index + 1) mod n\<rparr>))))"

definition queued_frames :: "MuxClient \<Rightarrow> nat" where
  "queued_frames s = sum_list (map (\<lambda>(_, queue). length queue) (mp_queues s))"

lemma find_around:
  assumes "List.find (\<lambda>offset. P (order ! ((cursor + offset) mod length order))) [0..<length order] = Some offset"
  shows "P (order ! ((cursor + offset) mod length order))" "order ! ((cursor + offset) mod length order) \<in> set order"
proof -
  from assms have "offset < length order" and p: "P (order ! ((cursor + offset) mod length order))"
    by (auto simp: find_Some_iff)
  then have "(cursor + offset) mod length order < length order" by (intro mod_less_divisor) auto
  with p show "P (order ! ((cursor + offset) mod length order))" "order ! ((cursor + offset) mod length order) \<in> set order"
    by auto
qed

lemma find_around_None:
  assumes "List.find (\<lambda>offset. P (order ! ((cursor + offset) mod length order))) [0..<length order] = None"
    and "x \<in> set order"
  shows "\<not> P x"
proof -
  obtain i where i: "i < length order" "order ! i = x" using assms(2) by (auto simp: in_set_conv_nth)
  let ?n = "length order"
  let ?off = "(i + ?n - cursor mod ?n) mod ?n"
  have le: "cursor mod ?n \<le> i + ?n" using i mod_less_divisor [of ?n cursor] by linarith
  have "(cursor + ?off) mod ?n = (cursor mod ?n + (i + ?n - cursor mod ?n)) mod ?n" by (metis mod_add_eq mod_mod_trivial)
  also have "\<dots> = i" using le i by simp
  finally have "order ! ((cursor + ?off) mod ?n) = x" using i by simp
  moreover have "0 < ?n" using i by linarith
  then have "?off \<in> set [0..<?n]" by simp
  ultimately show ?thesis using assms(1) by (auto simp: find_None_iff)
qed

definition next_offset :: "MuxClient \<Rightarrow> nat option" where
  "next_offset s =
     List.find (\<lambda>offset. has_queued s (mp_circuitOrder s ! ((mp_drainCursor s + offset) mod length (mp_circuitOrder s))))
       [0..<length (mp_circuitOrder s)]"

lemma nextQueuedFrame_alt:
  "nextQueuedFrame s =
     (case next_offset s of
        None \<Rightarrow> (None, s)
      | Some offset \<Rightarrow>
          let index = (mp_drainCursor s + offset) mod length (mp_circuitOrder s); circuitId = mp_circuitOrder s ! index
          in (case map_of (mp_queues s) circuitId of
                None \<Rightarrow> (None, s)
              | Some queue \<Rightarrow> (Some (hd queue),
                  shift_frame circuitId queue (s\<lparr>mp_drainCursor := (index + 1) mod length (mp_circuitOrder s)\<rparr>))))"
  by (simp only: nextQueuedFrame_def next_offset_def Let_def)

lemma next_offset_Some:
  assumes "next_offset s = Some offset"
  obtains queue where
    "map_of (mp_queues s) (mp_circuitOrder s ! ((mp_drainCursor s + offset) mod length (mp_circuitOrder s))) = Some queue"
    "queue \<noteq> []" "mp_circuitOrder s ! ((mp_drainCursor s + offset) mod length (mp_circuitOrder s)) \<in> set (mp_circuitOrder s)"
  using find_around [OF assms [unfolded next_offset_def]] by (auto simp: has_queued_def split: option.splits)

lemma nextQueuedFrame_Some:
  assumes "nextQueuedFrame s = (Some frame, s')"
  obtains circuitId queue k where "map_of (mp_queues s) circuitId = Some queue" "queue \<noteq> []" "frame = hd queue"
    "circuitId \<in> set (mp_circuitOrder s)" "s' = shift_frame circuitId queue (s\<lparr>mp_drainCursor := k\<rparr>)"
proof (cases "next_offset s")
  case None
  with assms show thesis by (simp add: nextQueuedFrame_alt)
next
  case (Some offset)
  from next_offset_Some [OF Some] obtain queue where
    "map_of (mp_queues s) (mp_circuitOrder s ! ((mp_drainCursor s + offset) mod length (mp_circuitOrder s))) = Some queue"
    "queue \<noteq> []" "mp_circuitOrder s ! ((mp_drainCursor s + offset) mod length (mp_circuitOrder s)) \<in> set (mp_circuitOrder s)" .
  with assms Some show thesis by (intro that) (auto simp: nextQueuedFrame_alt Let_def)
qed

lemma nextQueuedFrame_None:
  assumes "nextQueuedFrame s = (None, s')"
  shows "s' = s" "circuitId \<in> set (mp_circuitOrder s) \<Longrightarrow> \<not> has_queued s circuitId"
proof -
  have none: "next_offset s = None"
  proof (cases "next_offset s")
    case (Some offset)
    from next_offset_Some [OF this] obtain queue where
      "map_of (mp_queues s) (mp_circuitOrder s ! ((mp_drainCursor s + offset) mod length (mp_circuitOrder s))) = Some queue" .
    with assms show ?thesis by (simp add: nextQueuedFrame_alt Let_def Some)
  qed
  then show "s' = s" using assms by (simp add: nextQueuedFrame_alt)
  show "circuitId \<in> set (mp_circuitOrder s) \<Longrightarrow> \<not> has_queued s circuitId"
    using find_around_None [OF none [unfolded next_offset_def]] .
qed

lemma frames_update:
  "map_of m k = Some v \<Longrightarrow>
     sum_list (map (\<lambda>(_, queue). length queue) (AList.update k w m)) + length v =
     sum_list (map (\<lambda>(_, queue). length queue) m) + length w"
  by (rule sum_list_AList_update)

lemma frames_delete:
  "map_of m k = Some v \<Longrightarrow>
     sum_list (map (\<lambda>(_, queue). length queue) (AList.delete k m)) + length v
       \<le> sum_list (map (\<lambda>(_, queue). length queue) m)"
proof (induction m)
  case (Cons a m)
  have "sum_list (map (\<lambda>(_, queue). length queue) (AList.delete k m)) \<le> sum_list (map (\<lambda>(_, queue). length queue) m)"
    by (induction m) auto
  with Cons show ?case by (cases a) auto
qed simp

lemma nextQueuedFrame_decreases: "(Some frame, s') = nextQueuedFrame s \<Longrightarrow> queued_frames s' < queued_frames s"
proof -
  assume "(Some frame, s') = nextQueuedFrame s"
  then obtain circuitId queue k where q: "map_of (mp_queues s) circuitId = Some queue" "queue \<noteq> []"
    and s': "s' = shift_frame circuitId queue (s\<lparr>mp_drainCursor := k\<rparr>)" using nextQueuedFrame_Some by metis
  show ?thesis
    using frames_update [OF q(1), of "tl queue"] frames_delete [OF q(1)] q(2)
    by (auto simp: s' shift_frame_def queued_frames_def Let_def neq_Nil_conv)
qed

lemma queued_frames_emit: "queued_frames (emit e s) = queued_frames s"
  by (simp add: queued_frames_def emit_def)

text \<open>The loop of \<open>drain\<close>; \<open>buffered i\<close> is the \<open>bufferedAmount\<close> it reads in turn \<open>i\<close>.\<close>

function drain_loop :: "(nat \<Rightarrow> nat) \<Rightarrow> nat \<Rightarrow> MuxClient \<Rightarrow> MuxClient" where
  "drain_loop buffered i s =
     (if \<not> (mp_queuedBytes s > 0 \<and> buffered i \<le> CLIENT_BUFFERED_AMOUNT_HIGH_WATER) then s
      else
        case nextQueuedFrame s of
          (None, s) \<Rightarrow> s
        | (Some frame, s) \<Rightarrow> drain_loop buffered (i + 1) (emit (WsData frame) s))"
  by pat_completeness auto
termination
  by (relation "measure (\<lambda>(_, _, s). queued_frames s)") (simp, simp add: queued_frames_emit nextQueuedFrame_decreases)

declare drain_loop.simps [simp del]

definition drain :: "(nat \<Rightarrow> nat) \<Rightarrow> MuxClient \<Rightarrow> MuxClient" where
  "drain buffered s =
     (if \<not> isOpen s then s
      else (let s = drain_loop buffered 0 s in if mp_queuedBytes s > 0 then scheduleDrain True s else s))"

definition drainMicrotask :: "(nat \<Rightarrow> nat) \<Rightarrow> MuxClient \<Rightarrow> MuxClient" where
  "drainMicrotask buffered s = (if mp_drainScheduled s then drain buffered (s\<lparr>mp_drainScheduled := False\<rparr>) else s)"

definition drainTimeout :: "(nat \<Rightarrow> nat) \<Rightarrow> MuxClient \<Rightarrow> MuxClient" where
  "drainTimeout buffered s = (if mp_drainTimer s then drain buffered (s\<lparr>mp_drainTimer := False\<rparr>) else s)"

section \<open>Messages from the relay\<close>

definition circuit_field :: "json \<Rightarrow> js_number" where
  "circuit_field message = (case get_prop message ''circuitId'' of Some (JNum n) \<Rightarrow> n | _ \<Rightarrow> NaN)"

definition reason_field :: "json \<Rightarrow> string" where
  "reason_field message = (case get_prop message ''reason'' of Some (JStr r) \<Rightarrow> r | _ \<Rightarrow> [])"

definition limit_field :: "json \<Rightarrow> string \<Rightarrow> js_number" where
  "limit_field message name = (case get_prop message name of Some (JNum n) \<Rightarrow> n | _ \<Rightarrow> NaN)"

definition markOpen :: "nat \<Rightarrow> MuxClient \<Rightarrow> MuxClient" where
  "markOpen call s =
     (case map_of (mp_sockets s) call of
        None \<Rightarrow> s
      | Some socket \<Rightarrow>
          if cs_state socket = WsConnecting
          then s\<lparr>mp_sockets := AList.update call (socket\<lparr>cs_state := WsOpen\<rparr>) (mp_sockets s)\<rparr> else s)"

definition handleOpened :: "js_number \<Rightarrow> MuxClient \<Rightarrow> MuxClient" where
  "handleOpened circuitId s =
     (case map_of (mp_pending s) circuitId of
        None \<Rightarrow> sendControl (mux_close circuitId) (\<lambda>s. s) s
      | Some call \<Rightarrow>
          let s = markOpen call (forget_pending circuitId call s)
          in settle call (Resolved call) (s\<lparr>mp_circuits := AList.update circuitId call (mp_circuits s)\<rparr>))"

definition handleError :: "js_number \<Rightarrow> string \<Rightarrow> MuxClient \<Rightarrow> MuxClient" where
  "handleError circuitId reason s =
     (case map_of (mp_pending s) circuitId of
        None \<Rightarrow> s
      | Some call \<Rightarrow>
          settle call (Rejected call reason) (remoteClose call 1008 reason (forget_pending circuitId call s)))"

text \<open>A text frame is given as \<open>JSON.parse\<close> reads it, \<open>None\<close> where it throws.\<close>

definition handleText :: "json option \<Rightarrow> MuxClient \<Rightarrow> MuxClient" where
  "handleText parsed s =
     (case parsed of
        None \<Rightarrow> wsClose (Some 1008) ''Invalid relay mux control'' s
      | Some message \<Rightarrow>
          if isRelayMuxOpened message then handleOpened (circuit_field message) s
          else if isRelayMuxError message then handleError (circuit_field message) (reason_field message) s
          else if isRelayMuxClosed message then removeCircuit (circuit_field message) 1000 (reason_field message) s
          else if isRelayMuxReady message then s
          else wsClose (Some 1008) ''Unexpected relay mux control'' s)"

definition handleData :: "bytes \<Rightarrow> MuxClient \<Rightarrow> MuxClient" where
  "handleData data s =
     (case decodeRelayMuxDataFrame data of
        Inl _ \<Rightarrow> wsClose (Some 1008) ''Invalid relay mux data'' s
      | Inr frame \<Rightarrow>
          if js_less (mp_maxFrameBytes s) (js_nat (length (df_payload frame)))
          then closeCircuit (df_circuitId frame) ''Relay mux frame is too large'' s
          else
            (case map_of (mp_circuits s) (df_circuitId frame) of
               None \<Rightarrow> s
             | Some call \<Rightarrow> receive call (df_payload frame) (df_isBinary frame) s))"

section \<open>The physical connection\<close>

text \<open>The message handler of \<open>connect\<close>, until the relay has announced its limits.\<close>

definition connectText :: "json option \<Rightarrow> MuxClient \<Rightarrow> MuxClient" where
  "connectText parsed s =
     (if \<not> mp_settled s \<and> (case parsed of None \<Rightarrow> False | Some message \<Rightarrow> isRelayMuxReady message)
      then
        (case parsed of
           None \<Rightarrow> s
         | Some message \<Rightarrow>
             emit MuxConnected
               (s\<lparr>mp_settled := True, mp_connected := True, mp_readyTimer := False,
                  mp_maxFrameBytes := limit_field message ''maxFrameBytes'',
                  mp_maxCircuits := limit_field message ''maxCircuits''\<rparr>))
      else handleText parsed s)"

definition readyTimeout :: "MuxClient \<Rightarrow> MuxClient" where
  "readyTimeout s =
     (if \<not> mp_readyTimer s then s
      else if mp_settled s then s\<lparr>mp_readyTimer := False\<rparr>
      else emit (ConnectFailed ''Relay mux ready timeout'')
        (wsClose None '''' (s\<lparr>mp_settled := True, mp_readyTimer := False\<rparr>)))"

definition connectError :: "MuxClient \<Rightarrow> MuxClient" where
  "connectError s =
     (if mp_settled s then s
      else emit (ConnectFailed ''Failed to connect to relay mux'') (s\<lparr>mp_settled := True, mp_readyTimer := False\<rparr>))"

definition close_pending :: "nat \<Rightarrow> string \<Rightarrow> nat \<Rightarrow> MuxClient \<Rightarrow> MuxClient" where
  "close_pending code reason call s =
     settle call (Rejected call (if reason = [] then ''Relay mux disconnected'' else reason))
       (remoteClose call code reason (s\<lparr>mp_timeouts := removeAll call (mp_timeouts s)\<rparr>))"

definition close_circuit_of :: "nat \<Rightarrow> string \<Rightarrow> js_number \<Rightarrow> MuxClient \<Rightarrow> MuxClient" where
  "close_circuit_of code reason circuitId s =
     removeCircuit circuitId (if code = 0 then 1006 else code) (if reason = [] then ''Relay mux disconnected'' else reason) s"

definition handleClose :: "nat \<Rightarrow> string \<Rightarrow> MuxClient \<Rightarrow> MuxClient" where
  "handleClose code reason s =
     (if mp_closed s then s
      else
        let s = fold (close_pending code reason) (map snd (mp_pending s)) (s\<lparr>mp_closed := True, mp_drainTimer := False\<rparr>);
            s = s\<lparr>mp_pending := []\<rparr>
        in emit PhysicalClosed (fold (close_circuit_of code reason) (map fst (mp_circuits s)) s))"

definition connectClose :: "nat \<Rightarrow> string \<Rightarrow> MuxClient \<Rightarrow> MuxClient" where
  "connectClose code reason s =
     (let s = handleClose code reason (s\<lparr>mp_readyTimer := False\<rparr>)
      in if mp_settled s then s else emit (ConnectFailed ''Relay mux closed before ready'') (s\<lparr>mp_settled := True\<rparr>))"

definition disposeClose :: "MuxClient \<Rightarrow> MuxClient" where
  "disposeClose s = (if mp_closed s then s else wsClose (Some 1000) ''Mux pool disposed'' s)"

section \<open>Events\<close>

text \<open>
  \<open>SocketOpened\<close> and \<open>SocketClosing\<close> are what the browser does to the state of the socket between
  its events.
\<close>

datatype mux_client_op =
    SocketOpened
  | SocketClosing
  | TextFrame "json option"
  | DataFrame bytes
  | OtherFrame
  | SocketError
  | SocketClosed nat string
  | ReadyTimeout
  | OpenCircuit string string bool bool
  | Abort nat
  | OpenTimeout nat
  | Send nat bytes bool
  | CloseSocket nat
  | Microtask "nat \<Rightarrow> nat"
  | DrainTimer "nat \<Rightarrow> nat"
  | DisposePool

fun client_step :: "MuxClient \<Rightarrow> mux_client_op \<Rightarrow> MuxClient" where
  "client_step s SocketOpened = (if mp_ws s = WsConnecting then s\<lparr>mp_ws := WsOpen\<rparr> else s)"
| "client_step s SocketClosing = (if mp_ws s = WsConnecting \<or> mp_ws s = WsOpen then s\<lparr>mp_ws := WsClosing\<rparr> else s)"
| "client_step s (TextFrame parsed) = connectText parsed s"
| "client_step s (DataFrame data) = handleData data s"
| "client_step s OtherFrame = wsClose (Some 1008) ''Invalid relay mux data'' s"
| "client_step s SocketError = connectError s"
| "client_step s (SocketClosed code reason) = connectClose code reason (s\<lparr>mp_ws := WsClosed\<rparr>)"
| "client_step s ReadyTimeout = readyTimeout s"
| "client_step s (OpenCircuit username channel hasSignal aborted) = openCircuit username channel hasSignal aborted s"
| "client_step s (Abort call) = abort call s"
| "client_step s (OpenTimeout call) = openTimeout call s"
| "client_step s (Send call payload isBinary) = socket_send call payload isBinary s"
| "client_step s (CloseSocket call) = socket_close call s"
| "client_step s (Microtask buffered) = drainMicrotask buffered s"
| "client_step s (DrainTimer buffered) = drainTimeout buffered s"
| "client_step s DisposePool = disposeClose s"

section \<open>The fate of a call\<close>

fun settles :: "nat \<Rightarrow> client_effect \<Rightarrow> bool" where
  "settles call (Resolved c) = (c = call)"
| "settles call (Rejected c _) = (c = call)"
| "settles _ _ = False"

definition settlements :: "nat \<Rightarrow> MuxClient \<Rightarrow> nat" where
  "settlements call s = length (filter (settles call) (mp_trace s))"

definition pending_call :: "nat \<Rightarrow> MuxClient \<Rightarrow> bool" where
  "pending_call call s \<longleftrightarrow> call \<in> set (map snd (mp_pending s))"

text \<open>What a call of \<open>openCircuit\<close> depends on; most events leave it alone.\<close>

definition calls_view :: "MuxClient \<Rightarrow> (js_number \<times> nat) list \<times> nat list \<times> nat list \<times> nat \<times> bool \<times> js_number \<times> (nat \<Rightarrow> nat)" where
  "calls_view s =
     (mp_pending s, mp_timeouts s, mp_abortable s, mp_nextCall s, mp_closed s, mp_maxCircuits s, \<lambda>call. settlements call s)"

lemma settlements_emit: "settlements call (emit e s) = settlements call s + (if settles call e then 1 else 0)"
  by (simp add: settlements_def emit_def)

lemma settlements_more [simp]:
  "settlements call (s\<lparr>mp_sockets := a\<rparr>) = settlements call s"
  "settlements call (s\<lparr>mp_circuits := k\<rparr>) = settlements call s"
  "settlements call (s\<lparr>mp_nextCall := n\<rparr>) = settlements call s"
  "settlements call (s\<lparr>mp_abortable := l\<rparr>) = settlements call s"
  "settlements call (s\<lparr>mp_timeouts := l\<rparr>) = settlements call s"
  "settlements call (s\<lparr>mp_pending := k\<rparr>) = settlements call s"
  "settlements call (s\<lparr>mp_ws := w\<rparr>) = settlements call s"
  "settlements call (s\<lparr>mp_nextCircuitId := n\<rparr>) = settlements call s"
  "settlements call (s\<lparr>mp_drainTimer := b\<rparr>) = settlements call s"
  "settlements call (s\<lparr>mp_drainScheduled := b\<rparr>) = settlements call s"
  "settlements call (s\<lparr>mp_readyTimer := b\<rparr>) = settlements call s"
  "settlements call (s\<lparr>mp_settled := b\<rparr>) = settlements call s"
  "settlements call (s\<lparr>mp_connected := b\<rparr>) = settlements call s"
  "settlements call (s\<lparr>mp_closed := b\<rparr>) = settlements call s"
  "settlements call (s\<lparr>mp_drainCursor := n\<rparr>) = settlements call s"
  "settlements call (s\<lparr>mp_queues := q\<rparr>) = settlements call s"
  "settlements call (s\<lparr>mp_queuedBytes := i\<rparr>) = settlements call s"
  "settlements call (s\<lparr>mp_queuedBytesByCircuit := m\<rparr>) = settlements call s"
  "settlements call (s\<lparr>mp_circuitOrder := r\<rparr>) = settlements call s"
  "settlements call (s\<lparr>mp_maxFrameBytes := z\<rparr>) = settlements call s"
  "settlements call (s\<lparr>mp_maxCircuits := z\<rparr>) = settlements call s"
  by (simp_all add: settlements_def)

named_theorems view_simps

lemma view_emit [view_simps]: "\<forall>call. \<not> settles call e \<Longrightarrow> calls_view (emit e s) = calls_view s"
  by (simp add: calls_view_def settlements_emit) (simp add: emit_def)

lemma view_remoteClose [view_simps]: "calls_view (remoteClose call code reason s) = calls_view s"
  by (simp add: remoteClose_def view_simps split: option.splits) (simp add: calls_view_def)

lemma view_removeCircuit [view_simps]: "calls_view (removeCircuit circuitId code reason s) = calls_view s"
  by (simp add: removeCircuit_def view_simps split: option.splits) (simp add: calls_view_def)

lemma calls_view_sendControl [view_simps]: "calls_view (sendControl message (\<lambda>s. s) s) = calls_view s"
  by (simp add: sendControl_def view_simps)

lemma view_closeCircuit [view_simps]: "calls_view (closeCircuit circuitId reason s) = calls_view s"
  by (simp add: closeCircuit_def view_simps)

lemma view_fail [view_simps]: "calls_view (fail call message s) = calls_view s"
  by (simp add: fail_def view_simps split: option.splits)

lemma view_receive [view_simps]: "calls_view (receive call payload isBinary s) = calls_view s"
  by (simp add: receive_def view_simps split: option.splits)

lemma calls_view_scheduleDrain [view_simps]: "calls_view (scheduleDrain delayed s) = calls_view s"
  by (simp add: scheduleDrain_def calls_view_def)

lemma view_enqueue [view_simps]: "calls_view (enqueue circuitId frame s) = calls_view s"
  by (simp add: enqueue_def view_simps) (simp add: calls_view_def)

lemma view_sendCircuitData [view_simps]: "calls_view (sendCircuitData circuitId payload isBinary s) = calls_view s"
  by (simp add: sendCircuitData_def view_simps split: option.splits sum.splits)

lemma view_socket_send [view_simps]: "calls_view (socket_send call payload isBinary s) = calls_view s"
  by (simp add: socket_send_def view_simps split: option.splits)

lemma view_requestCircuitClose [view_simps]: "calls_view (requestCircuitClose circuitId s) = calls_view s"
  by (simp add: requestCircuitClose_def view_simps)

lemma view_socket_close [view_simps]: "calls_view (socket_close call s) = calls_view s"
  by (simp add: socket_close_def view_simps split: option.splits) (simp add: calls_view_def)

lemma view_wsClose [view_simps]: "calls_view (wsClose code reason s) = calls_view s"
proof -
  have "calls_view (s'\<lparr>mp_ws := w\<rparr>) = calls_view s'" for s' w by (simp add: calls_view_def)
  then show ?thesis by (simp add: wsClose_def view_simps)
qed

lemma view_shift_frame [view_simps]: "calls_view (shift_frame circuitId queue s) = calls_view s"
  by (simp add: shift_frame_def Let_def calls_view_def)

lemma view_nextQueuedFrame: "nextQueuedFrame s = (frame, s') \<Longrightarrow> calls_view s' = calls_view s"
proof -
  have "calls_view (s\<lparr>mp_drainCursor := k\<rparr>) = calls_view s" for k by (simp add: calls_view_def)
  then show "nextQueuedFrame s = (frame, s') \<Longrightarrow> calls_view s' = calls_view s"
    by (auto simp: nextQueuedFrame_alt Let_def view_simps split: option.splits)
qed

lemma view_drain_loop [view_simps]: "calls_view (drain_loop buffered i s) = calls_view s"
proof (induction buffered i s rule: drain_loop.induct)
  case (1 buffered i s)
  show ?case
  proof (cases "nextQueuedFrame s")
    case (Pair frame s')
    from view_nextQueuedFrame [OF Pair] 1 [OF _ Pair [symmetric]] show ?thesis
      by (subst drain_loop.simps) (auto simp: Pair view_simps split: option.splits)
  qed
qed

lemma view_drain [view_simps]: "calls_view (drain buffered s) = calls_view s"
  by (simp add: drain_def Let_def view_simps)

lemma view_drains [view_simps]:
  "calls_view (drainMicrotask buffered s) = calls_view s" "calls_view (drainTimeout buffered s) = calls_view s"
  by (simp_all add: drainMicrotask_def drainTimeout_def view_simps) (simp_all add: calls_view_def)

lemma view_handleData [view_simps]: "calls_view (handleData data s) = calls_view s"
  by (simp add: handleData_def view_simps split: option.splits sum.splits)

lemma view_markOpen [view_simps]: "calls_view (markOpen call s) = calls_view s"
  by (simp add: markOpen_def split: option.splits) (simp add: calls_view_def)

section \<open>Circuits, their ids and their sockets\<close>

type_synonym placement =
  "(js_number \<times> nat) list \<times> (js_number \<times> nat) list \<times> (nat \<times> CircuitSocket) list \<times> nat"

definition placement :: "MuxClient \<Rightarrow> placement" where
  "placement s = (mp_pending s, mp_circuits s, mp_sockets s, mp_nextCall s)"

fun well_placed :: "placement \<Rightarrow> bool" where
  "well_placed (pending, circuits, sockets, n) =
     ((\<forall>circuitId call. map_of pending circuitId = Some call \<or> map_of circuits circuitId = Some call \<longrightarrow>
         (\<exists>socket. map_of sockets call = Some socket \<and> cs_circuitId socket = circuitId \<and> cs_state socket \<noteq> WsClosed)) \<and>
      (\<forall>circuitId. map_of pending circuitId = None \<or> map_of circuits circuitId = None) \<and>
      distinct (map fst pending) \<and> distinct (map fst circuits) \<and>
      (\<forall>call. map_of sockets call \<noteq> None \<longrightarrow> call < n))"

declare well_placed.simps [simp del]

lemma well_placedI:
  assumes "\<And>circuitId call. map_of pending circuitId = Some call \<or> map_of circuits circuitId = Some call \<Longrightarrow>
      \<exists>socket. map_of sockets call = Some socket \<and> cs_circuitId socket = circuitId \<and> cs_state socket \<noteq> WsClosed"
    and "\<And>circuitId. map_of pending circuitId = None \<or> map_of circuits circuitId = None"
    and "distinct (map fst pending)" and "distinct (map fst circuits)"
    and "\<And>call. map_of sockets call \<noteq> None \<Longrightarrow> call < n"
  shows "well_placed (pending, circuits, sockets, n)"
  using assms by (simp add: well_placed.simps)

lemma well_placedD:
  assumes "well_placed (pending, circuits, sockets, n)"
  shows "map_of pending circuitId = Some call \<or> map_of circuits circuitId = Some call \<Longrightarrow>
      \<exists>socket. map_of sockets call = Some socket \<and> cs_circuitId socket = circuitId \<and> cs_state socket \<noteq> WsClosed"
    and "map_of pending circuitId = None \<or> map_of circuits circuitId = None"
    and "distinct (map fst pending)" and "distinct (map fst circuits)"
    and "map_of sockets call \<noteq> None \<Longrightarrow> call < n"
proof -
  note w = assms [unfolded well_placed.simps]
  show "map_of pending circuitId = Some call \<or> map_of circuits circuitId = Some call \<Longrightarrow>
      \<exists>socket. map_of sockets call = Some socket \<and> cs_circuitId socket = circuitId \<and> cs_state socket \<noteq> WsClosed"
    using w by blast
  show "map_of pending circuitId = None \<or> map_of circuits circuitId = None" using w by (elim conjE) (rule spec)
  show "distinct (map fst pending)" using w by (elim conjE)
  show "distinct (map fst circuits)" using w by (elim conjE)
  show "map_of sockets call \<noteq> None \<Longrightarrow> call < n" using w by (elim conjE) (drule spec, erule mp)
qed

lemma placed_one_id:
  assumes "well_placed (pending, circuits, sockets, n)"
    and "map_of pending i = Some call \<or> map_of circuits i = Some call"
    and "map_of pending j = Some call \<or> map_of circuits j = Some call"
  shows "i = j"
  using well_placedD(1) [OF assms(1,2)] well_placedD(1) [OF assms(1,3)] by auto

lemma placed_release:
  assumes w: "well_placed (pending, circuits, sockets, n)"
    and c: "map_of pending circuitId = Some call \<or> map_of circuits circuitId = Some call"
    and k: "map_of sockets call = Some socket"
  shows "well_placed (AList.delete circuitId pending, AList.delete circuitId circuits, AList.update call socket' sockets, n)"
proof (rule well_placedI)
  fix i d
  assume a: "map_of (AList.delete circuitId pending) i = Some d \<or> map_of (AList.delete circuitId circuits) i = Some d"
  then have b: "map_of pending i = Some d \<or> map_of circuits i = Some d" and "i \<noteq> circuitId"
    by (auto simp: omap_simps split: if_splits)
  with placed_one_id [OF w b, of circuitId] c have "d \<noteq> call" by auto
  with well_placedD(1) [OF w b] show "\<exists>socket. map_of (AList.update call socket' sockets) d = Some socket \<and>
      cs_circuitId socket = i \<and> cs_state socket \<noteq> WsClosed" by (simp add: omap_simps)
next
  show "map_of (AList.update call socket' sockets) d \<noteq> None \<Longrightarrow> d < n" for d
    using well_placedD(5) [OF w, of d] well_placedD(5) [OF w, of call] k by (auto simp: omap_simps split: if_splits)
qed (use well_placedD [OF w] in \<open>auto simp: omap_simps\<close>)

lemma placed_delete:
  assumes w: "well_placed (pending, circuits, sockets, n)"
  shows "well_placed (AList.delete circuitId pending, AList.delete circuitId circuits, sockets, n)"
proof (rule well_placedI)
  fix i d
  assume "map_of (AList.delete circuitId pending) i = Some d \<or> map_of (AList.delete circuitId circuits) i = Some d"
  then have "map_of pending i = Some d \<or> map_of circuits i = Some d" by (auto simp: omap_simps split: if_splits)
  from well_placedD(1) [OF w this] show "\<exists>socket. map_of sockets d = Some socket \<and>
      cs_circuitId socket = i \<and> cs_state socket \<noteq> WsClosed" .
qed (use well_placedD [OF w] in \<open>auto simp: omap_simps\<close>)

lemma placed_no_pending: "well_placed (pending, circuits, sockets, n) \<Longrightarrow> well_placed ([], circuits, sockets, n)"
  by (simp add: well_placed.simps)

lemma placed_touch:
  assumes w: "well_placed (pending, circuits, sockets, n)" and k: "map_of sockets call = Some socket"
    and "cs_circuitId socket' = cs_circuitId socket" and "cs_state socket' \<noteq> WsClosed"
  shows "well_placed (pending, circuits, AList.update call socket' sockets, n)"
proof (rule well_placedI)
  fix i d
  assume "map_of pending i = Some d \<or> map_of circuits i = Some d"
  from well_placedD(1) [OF w this] show "\<exists>socket. map_of (AList.update call socket' sockets) d = Some socket \<and>
      cs_circuitId socket = i \<and> cs_state socket \<noteq> WsClosed" using assms by (auto simp: omap_simps)
next
  show "map_of (AList.update call socket' sockets) d \<noteq> None \<Longrightarrow> d < n" for d
    using well_placedD(5) [OF w, of d] well_placedD(5) [OF w, of call] k by (auto simp: omap_simps split: if_splits)
qed (use well_placedD [OF w] in \<open>auto simp: omap_simps\<close>)

lemma placed_next: "well_placed (pending, circuits, sockets, n) \<Longrightarrow> well_placed (pending, circuits, sockets, Suc n)"
  by (auto simp: well_placed.simps)

lemma placed_new:
  assumes w: "well_placed (pending, circuits, sockets, n)"
    and free: "map_of pending circuitId = None" "map_of circuits circuitId = None"
    and "cs_circuitId socket = circuitId" and "cs_state socket \<noteq> WsClosed"
  shows "well_placed (AList.update circuitId n pending, circuits, AList.update n socket sockets, Suc n)"
proof (rule well_placedI)
  fix i d
  assume a: "map_of (AList.update circuitId n pending) i = Some d \<or> map_of circuits i = Some d"
  show "\<exists>socket'. map_of (AList.update n socket sockets) d = Some socket' \<and>
      cs_circuitId socket' = i \<and> cs_state socket' \<noteq> WsClosed"
  proof (cases "d = n")
    case True
    have "\<not> (map_of pending i = Some n \<or> map_of circuits i = Some n)"
    proof
      assume "map_of pending i = Some n \<or> map_of circuits i = Some n"
      from well_placedD(1) [OF w this] well_placedD(5) [OF w, of n] show False by auto
    qed
    with a True have "i = circuitId" by (auto simp: omap_simps split: if_splits)
    with True assms show ?thesis by (simp add: omap_simps)
  next
    case False
    with a have "map_of pending i = Some d \<or> map_of circuits i = Some d" by (auto simp: omap_simps split: if_splits)
    from well_placedD(1) [OF w this] False show ?thesis by (simp add: omap_simps)
  qed
next
  show "map_of (AList.update n socket sockets) d \<noteq> None \<Longrightarrow> d < Suc n" for d
    using well_placedD(5) [OF w, of d] by (cases "d = n") (auto simp: omap_simps)
  show "map_of (AList.update circuitId n pending) i = None \<or> map_of circuits i = None" for i
    using well_placedD(2) [OF w, of i] free by (auto simp: omap_simps)
qed (use well_placedD [OF w] in \<open>auto simp: omap_simps\<close>)

lemma placed_opened:
  assumes w: "well_placed (pending, circuits, sockets, n)" and "map_of pending circuitId = Some call"
  shows "well_placed (AList.delete circuitId pending, AList.update circuitId call circuits, sockets, n)"
proof (rule well_placedI)
  fix i d
  assume "map_of (AList.delete circuitId pending) i = Some d \<or> map_of (AList.update circuitId call circuits) i = Some d"
  then have "map_of pending i = Some d \<or> map_of circuits i = Some d" using assms(2) by (auto simp: omap_simps split: if_splits)
  from well_placedD(1) [OF w this] show "\<exists>socket. map_of sockets d = Some socket \<and>
      cs_circuitId socket = i \<and> cs_state socket \<noteq> WsClosed" .
next
  show "map_of (AList.delete circuitId pending) i = None \<or> map_of (AList.update circuitId call circuits) i = None" for i
    using well_placedD(2) [OF w, of i] by (auto simp: omap_simps)
qed (use well_placedD [OF w] in \<open>auto simp: omap_simps\<close>)

abbreviation placed :: "MuxClient \<Rightarrow> bool" where
  "placed s \<equiv> well_placed (placement s)"

named_theorems place_simps

lemma place_more [place_simps]:
  "placement (emit e s) = placement s"
  "placement (wsClose code reason s) = placement s"
  "placement (sendControl message (\<lambda>s. s) s) = placement s"
  "placement (scheduleDrain delayed s) = placement s"
  "placement (enqueue circuitId frame s) = placement s"
  "placement (receive call payload isBinary s) = placement s"
  "placement (shift_frame circuitId queue s) = placement s"
  by (simp_all add: placement_def emit_def wsClose_def sendControl_def scheduleDrain_def enqueue_def receive_def
      shift_frame_def Let_def split: option.splits)

lemma place_nextQueuedFrame: "nextQueuedFrame s = (frame, s') \<Longrightarrow> placement s' = placement s"
proof -
  have "placement (s\<lparr>mp_drainCursor := k\<rparr>) = placement s" for k by (simp add: placement_def)
  then show "nextQueuedFrame s = (frame, s') \<Longrightarrow> placement s' = placement s"
    by (auto simp: nextQueuedFrame_alt Let_def place_simps split: option.splits)
qed

lemma place_drain_loop [place_simps]: "placement (drain_loop buffered i s) = placement s"
proof (induction buffered i s rule: drain_loop.induct)
  case (1 buffered i s)
  show ?case
  proof (cases "nextQueuedFrame s")
    case (Pair frame s')
    from place_nextQueuedFrame [OF Pair] 1 [OF _ Pair [symmetric]] show ?thesis
      by (subst drain_loop.simps) (auto simp: Pair place_simps split: option.splits)
  qed
qed

lemma place_drain [place_simps]: "placement (drain buffered s) = placement s"
  by (simp add: drain_def Let_def place_simps)

lemma place_drains [place_simps]:
  "placement (drainMicrotask buffered s) = placement s" "placement (drainTimeout buffered s) = placement s"
  by (simp_all add: drainMicrotask_def drainTimeout_def place_simps) (simp_all add: placement_def)

text \<open>A circuit taken from its map, and its socket told.\<close>

lemma placement_remoteClose:
  "placement (remoteClose call code reason s) =
     (mp_pending s, mp_circuits s,
      (case map_of (mp_sockets s) call of
         None \<Rightarrow> mp_sockets s
       | Some socket \<Rightarrow>
           if cs_state socket = WsClosed then mp_sockets s
           else AList.update call (socket\<lparr>cs_state := WsClosed\<rparr>) (mp_sockets s)),
      mp_nextCall s)"
  by (simp add: remoteClose_def placement_def emit_def split: option.splits)

lemma placed_parts: "placed s \<Longrightarrow> well_placed (mp_pending s, mp_circuits s, mp_sockets s, mp_nextCall s)"
  by (simp add: placement_def)

lemma placed_circuit:
  assumes "placed s" and "map_of (mp_circuits s) circuitId = Some call"
  shows "map_of (mp_pending s) circuitId = None"
    "\<exists>socket. map_of (mp_sockets s) call = Some socket \<and> cs_circuitId socket = circuitId \<and> cs_state socket \<noteq> WsClosed"
  using well_placedD(1,2) [OF placed_parts [OF assms(1)], of circuitId] assms(2) by auto

lemma placed_pending:
  assumes "placed s" and "map_of (mp_pending s) circuitId = Some call"
  shows "map_of (mp_circuits s) circuitId = None"
    "\<exists>socket. map_of (mp_sockets s) call = Some socket \<and> cs_circuitId socket = circuitId \<and> cs_state socket \<noteq> WsClosed"
  using well_placedD(1,2) [OF placed_parts [OF assms(1)], of circuitId] assms(2) by auto

lemma placed_removeCircuit [place_simps]:
  assumes "placed s"
  shows "placed (removeCircuit circuitId code reason s)"
proof (cases "map_of (mp_circuits s) circuitId")
  case (Some call)
  from placed_circuit [OF assms Some] obtain socket where
    p: "map_of (mp_pending s) circuitId = None" and k: "map_of (mp_sockets s) call = Some socket" "cs_state socket \<noteq> WsClosed"
    by auto
  from placed_release [OF placed_parts [OF assms], of circuitId call socket "socket\<lparr>cs_state := WsClosed\<rparr>"] Some k(1)
  show ?thesis by (simp add: removeCircuit_def Some placement_remoteClose k delete_absent [OF p])
qed (simp add: removeCircuit_def assms)

lemma placed_closeCircuit [place_simps]: "placed s \<Longrightarrow> placed (closeCircuit circuitId reason s)"
  by (simp add: closeCircuit_def place_simps)

lemma placed_fail [place_simps]: "placed s \<Longrightarrow> placed (fail call message s)"
  by (simp add: fail_def place_simps split: option.splits)

lemma placed_sendCircuitData [place_simps]: "placed s \<Longrightarrow> placed (sendCircuitData circuitId payload isBinary s)"
  by (simp add: sendCircuitData_def place_simps split: option.splits sum.splits)

lemma placed_socket_send [place_simps]: "placed s \<Longrightarrow> placed (socket_send call payload isBinary s)"
  by (simp add: socket_send_def place_simps split: option.splits)

lemma placed_requestCircuitClose [place_simps]: "placed s \<Longrightarrow> placed (requestCircuitClose circuitId s)"
  by (simp add: requestCircuitClose_def place_simps)

lemma placed_socket_touch:
  assumes "placed s" and "map_of (mp_sockets s) call = Some socket" and "state \<noteq> WsClosed"
  shows "placed (s\<lparr>mp_sockets := AList.update call (socket\<lparr>cs_state := state\<rparr>) (mp_sockets s)\<rparr>)"
  using placed_touch [OF placed_parts [OF assms(1)] assms(2), of "socket\<lparr>cs_state := state\<rparr>"] assms(3) by (simp add: placement_def)

lemma placed_socket_close [place_simps]: "placed s \<Longrightarrow> placed (socket_close call s)"
  by (simp add: socket_close_def placed_requestCircuitClose placed_socket_touch split: option.splits)

lemma placed_handleData [place_simps]: "placed s \<Longrightarrow> placed (handleData data s)"
  by (simp add: handleData_def place_simps split: option.splits sum.splits)

lemma placed_markOpen [place_simps]: "placed s \<Longrightarrow> placed (markOpen call s)"
  by (simp add: markOpen_def placed_socket_touch split: option.splits)

section \<open>The books of the calls\<close>

type_synonym call_view = "(js_number \<times> nat) list \<times> nat list \<times> nat list \<times> nat \<times> bool \<times> js_number \<times> (nat \<Rightarrow> nat)"

text \<open>
  The ledger of calls: those pending, those with a timer, those listening for an abort, how many calls
  there were, whether the connection is closed, and how often each call was settled. A call is admitted
  or refused, it leaves the pending ones, or all leave together; the flag says that what leaves is settled.
\<close>

type_synonym ledger = "nat set \<times> nat set \<times> nat set \<times> nat \<times> bool \<times> (nat \<Rightarrow> nat)"

fun ledger_of :: "call_view \<Rightarrow> ledger" where
  "ledger_of (pending, timeouts, abortable, n, shut, limit, f) =
     (set (map snd pending), set timeouts, set abortable, n, shut, f)"

inductive ledger_move :: "bool \<Rightarrow> ledger \<Rightarrow> ledger \<Rightarrow> bool" where
  Stay: "ledger_move timely l l"
| Refuse: "ledger_move timely (P, T, A, n, b, f) (P, T, A, Suc n, b, f(n := f n + 1))"
| Admit: "\<not> b \<Longrightarrow> A' \<subseteq> insert n A \<Longrightarrow> ledger_move timely (P, T, A, n, b, f) (insert n P, insert n T, A', Suc n, b, f)"
| Leave: "c \<in> P \<Longrightarrow> k \<le> 1 \<Longrightarrow> (timely \<Longrightarrow> k = 1) \<Longrightarrow>
    ledger_move timely (P, T, A, n, b, f) (P - {c}, T - {c}, A - {c}, n, b, f(c := f c + k))"
| Shut: "ledger_move timely (P, T, A, n, b, f) ({}, T - P, A - P, n, True, \<lambda>c. f c + (if c \<in> P then 1 else 0))"

inductive_cases ledger_moveE: "ledger_move timely l m"

fun ledger_ok :: "ledger \<Rightarrow> bool" where
  "ledger_ok (P, T, A, n, b, f) =
     (T = P \<and> A \<subseteq> P \<and> P \<subseteq> {..<n} \<and> (b \<longrightarrow> P = {}) \<and>
      (\<forall>c. f c \<le> 1) \<and> (\<forall>c \<in> P. f c = 0) \<and> (\<forall>c. n \<le> c \<longrightarrow> f c = 0))"

fun ledger_balanced :: "ledger \<Rightarrow> bool" where
  "ledger_balanced (P, T, A, n, b, f) = (\<forall>c < n. c \<notin> P \<longrightarrow> f c = 1)"

lemma ledger_ok_move: "ledger_move timely l m \<Longrightarrow> ledger_ok l \<Longrightarrow> ledger_ok m"
  by (induction rule: ledger_move.induct) (auto simp: less_Suc_eq)

lemma ledger_balanced_move: "ledger_move True l m \<Longrightarrow> ledger_ok l \<Longrightarrow> ledger_balanced l \<Longrightarrow> ledger_balanced m"
  by (cases rule: ledger_moveE, assumption) (auto simp: less_Suc_eq)

text \<open>A call that is no longer pending has its last settlement behind it.\<close>

fun ledger_gone :: "nat \<Rightarrow> nat \<Rightarrow> ledger \<Rightarrow> bool" where
  "ledger_gone c k (P, T, A, n, b, f) = (c < n \<and> c \<notin> P \<and> f c = k)"

lemma ledger_gone_move: "ledger_move timely l m \<Longrightarrow> ledger_gone c k l \<Longrightarrow> ledger_gone c k m"
  by (induction rule: ledger_move.induct) auto

abbreviation books :: "MuxClient \<Rightarrow> ledger" where
  "books s \<equiv> ledger_of (calls_view s)"

text \<open>A call leaves the map of pending ones, with \<open>k\<close> settlements.\<close>

fun leave :: "js_number \<Rightarrow> nat \<Rightarrow> nat \<Rightarrow> call_view \<Rightarrow> call_view" where
  "leave circuitId call k (pending, timeouts, abortable, n, shut, limit, f) =
     (AList.delete circuitId pending, removeAll call timeouts, removeAll call abortable, n, shut, limit,
      \<lambda>c. f c + (if c = call then k else 0))"

lemma delete_calls:
  assumes "distinct (map fst m)" and "map_of m k = Some v" and "\<And>j. map_of m j = Some v \<Longrightarrow> j = k"
  shows "set (map snd (AList.delete k m)) = set (map snd m) - {v}"
proof
  show "set (map snd (AList.delete k m)) \<subseteq> set (map snd m) - {v}"
  proof
    fix w assume "w \<in> set (map snd (AList.delete k m))"
    then obtain j where j: "(j, w) \<in> set m" "j \<noteq> k" by (auto simp: AList.delete_eq)
    with assms(1,3) have "w \<noteq> v" by (metis map_of_is_SomeI)
    with j show "w \<in> set (map snd m) - {v}" by force
  qed
  show "set (map snd m) - {v} \<subseteq> set (map snd (AList.delete k m))"
  proof
    fix w assume "w \<in> set (map snd m) - {v}"
    then obtain j where j: "(j, w) \<in> set m" "w \<noteq> v" by auto
    with assms(1,2) have "j \<noteq> k" by (metis map_of_is_SomeI option.inject)
    with j show "w \<in> set (map snd (AList.delete k m))" by (force simp: AList.delete_eq)
  qed
qed

lemma placed_unique:
  assumes "placed s" and "map_of (mp_pending s) circuitId = Some call"
  shows "distinct (map fst (mp_pending s))" "\<And>j. map_of (mp_pending s) j = Some call \<Longrightarrow> j = circuitId"
  using well_placedD(3) [OF placed_parts [OF assms(1)]] placed_one_id [OF placed_parts [OF assms(1)]] assms(2) by blast+

lemma calls_left:
  assumes "placed s" and "map_of (mp_pending s) circuitId = Some call"
  shows "set (map snd (AList.delete circuitId (mp_pending s))) = set (map snd (mp_pending s)) - {call}"
  using delete_calls [OF placed_unique(1) [OF assms] assms(2) placed_unique(2) [OF assms]] .

lemma ledger_of_leave:
  assumes "placed s" and "map_of (mp_pending s) circuitId = Some call"
    and "k \<le> 1" and "timely \<Longrightarrow> k = 1"
  shows "ledger_move timely (books s) (ledger_of (leave circuitId call k (calls_view s)))"
proof -
  have "call \<in> set (map snd (mp_pending s))" using assms(2) by (force dest: map_of_SomeD)
  moreover have "(\<lambda>c. settlements c s + (if c = call then k else 0)) = (\<lambda>c. settlements c s)(call := settlements call s + k)"
    by auto
  ultimately show ?thesis
    using calls_left [OF assms(1,2)] Leave [of call "set (map snd (mp_pending s))" k timely] assms(3,4)
    by (simp add: calls_view_def del: set_map)
qed

lemma view_parts:
  "calls_view (s\<lparr>mp_sockets := x1\<rparr>) = calls_view s"
  "calls_view (s\<lparr>mp_circuits := x2\<rparr>) = calls_view s"
  "calls_view (s\<lparr>mp_ws := x3\<rparr>) = calls_view s"
  "calls_view (s\<lparr>mp_readyTimer := x4\<rparr>) = calls_view s"
  "calls_view (s\<lparr>mp_settled := x4\<rparr>) = calls_view s"
  "calls_view (s\<lparr>mp_nextCircuitId := x5\<rparr>) = calls_view s"
  by (simp_all add: calls_view_def)

lemma view_control:
  "(\<And>s. calls_view (continue s) = h (calls_view s)) \<Longrightarrow>
     calls_view (sendControl message continue s) = (if isOpen s then h (calls_view s) else calls_view s)"
  by (simp add: sendControl_def view_simps)

fun settle_view :: "nat \<Rightarrow> call_view \<Rightarrow> call_view" where
  "settle_view call (pending, timeouts, abortable, n, shut, limit, f) =
     (pending, timeouts, abortable, n, shut, limit, \<lambda>c. f c + (if c = call then 1 else 0))"

lemma view_settling: "(\<And>c. settles c e = (call = c)) \<Longrightarrow> calls_view (emit e s) = settle_view call (calls_view s)"
  by (auto simp: calls_view_def settlements_emit) (auto simp: emit_def)

lemma view_forget:
  "calls_view (forget_pending circuitId call s) =
     (AList.delete circuitId (mp_pending s), removeAll call (mp_timeouts s), mp_abortable s, mp_nextCall s, mp_closed s,
      mp_maxCircuits s, \<lambda>c. settlements c s)"
  by (simp add: forget_pending_def calls_view_def)

lemma isOpen_forget [simp]: "isOpen (forget_pending circuitId call s) = isOpen s"
  by (simp add: forget_pending_def isOpen_def)

lemma view_handleAbort:
  assumes "call \<notin> set (mp_abortable s)"
  shows "calls_view (handleAbort circuitId call s) = leave circuitId call (if isOpen s then 1 else 0) (calls_view s)"
proof -
  have "calls_view (handleAbort circuitId call s) =
      (if isOpen (forget_pending circuitId call s) then settle_view call (calls_view (forget_pending circuitId call s))
       else calls_view (forget_pending circuitId call s))"
    unfolding handleAbort_def by (rule view_control) (simp add: view_settling view_simps)
  then show ?thesis using assms unfolding view_forget isOpen_forget by (auto simp: calls_view_def [of s])
qed

lemma view_settle:
  "(\<And>c. settles c e = (call = c)) \<Longrightarrow> calls_view s = (p, t, a, n, b, m, f) \<Longrightarrow>
     calls_view (settle call e s) = (p, t, removeAll call a, n, b, m, \<lambda>c. f c + (if c = call then 1 else 0))"
  by (simp add: settle_def view_settling) (auto simp: calls_view_def)

lemma view_settle_forget:
  "(\<And>c. settles c e = (call = c)) \<Longrightarrow> calls_view s' = calls_view (forget_pending circuitId call s) \<Longrightarrow>
     calls_view (settle call e s') = leave circuitId call 1 (calls_view s)"
  by (subst view_settle [OF _ trans [OF _ view_forget]]) (auto simp: calls_view_def)

text \<open>What each event does to the books.\<close>

lemma view_openTimeout:
  assumes "placed s" and "map_of (mp_pending s) circuitId = Some call" and "call \<in> set (mp_timeouts s)"
  shows "calls_view (openTimeout call s) = leave circuitId call (if isOpen s then 1 else 0) (calls_view s)"
proof -
  obtain socket where k: "map_of (mp_sockets s) call = Some socket" "cs_circuitId socket = circuitId"
    using placed_pending(2) [OF assms(1,2)] by auto
  let ?s = "(forget_pending circuitId call s)\<lparr>mp_abortable := removeAll call (mp_abortable s)\<rparr>"
  have "openTimeout call s =
      sendControl (mux_close circuitId)
        (\<lambda>s. emit (Rejected call ''Waiting for relay circuit timed out'')
           (remoteClose call 1006 ''Waiting for relay circuit timed out'' s)) ?s"
    using k assms(3) by (simp add: openTimeout_def)
  then have "calls_view (openTimeout call s) =
      (if isOpen ?s then settle_view call (calls_view ?s) else calls_view ?s)"
    by (simp only:) (rule view_control, simp add: view_settling view_simps)
  moreover have "isOpen ?s = isOpen s" by (simp add: isOpen_def forget_pending_def)
  moreover have "calls_view ?s = leave circuitId call 0 (calls_view s)"
    by (simp add: calls_view_def forget_pending_def)
  ultimately show ?thesis by (auto simp: calls_view_def [of s])
qed

lemma view_abort:
  assumes "placed s" and "map_of (mp_pending s) circuitId = Some call" and "call \<in> set (mp_abortable s)"
  shows "calls_view (abort call s) = leave circuitId call (if isOpen s then 1 else 0) (calls_view s)"
proof -
  obtain socket where k: "map_of (mp_sockets s) call = Some socket" "cs_circuitId socket = circuitId"
    using placed_pending(2) [OF assms(1,2)] by auto
  let ?s = "s\<lparr>mp_abortable := removeAll call (mp_abortable s)\<rparr>"
  have "abort call s = handleAbort circuitId call ?s" using k assms(3) by (simp add: abort_def)
  then have "calls_view (abort call s) = leave circuitId call (if isOpen ?s then 1 else 0) (calls_view ?s)"
    by (simp only:) (rule view_handleAbort, simp)
  moreover have "isOpen ?s = isOpen s" by (simp add: isOpen_def)
  ultimately show ?thesis by (auto simp: calls_view_def)
qed

lemma view_handleOpened:
  "calls_view (handleOpened circuitId s) =
     (case map_of (mp_pending s) circuitId of None \<Rightarrow> calls_view s | Some call \<Rightarrow> leave circuitId call 1 (calls_view s))"
proof (cases "map_of (mp_pending s) circuitId")
  case (Some call)
  show ?thesis
    unfolding handleOpened_def Let_def Some option.case
    by (rule view_settle_forget) (simp_all add: view_simps view_parts)
qed (simp add: handleOpened_def view_simps)

lemma view_handleError:
  "calls_view (handleError circuitId reason s) =
     (case map_of (mp_pending s) circuitId of None \<Rightarrow> calls_view s | Some call \<Rightarrow> leave circuitId call 1 (calls_view s))"
proof (cases "map_of (mp_pending s) circuitId")
  case (Some call)
  show ?thesis
    unfolding handleError_def Let_def Some option.case
    by (rule view_settle_forget) (simp_all add: view_simps view_parts)
qed (simp add: handleError_def view_simps)

lemma allocate_free: "allocate n next_id free = (Some c, following) \<Longrightarrow> \<not> free c"
  by (induction n next_id free rule: allocate.induct) (auto simp: Let_def split: if_splits)

lemma allocateCircuitId_Some:
  assumes "allocateCircuitId s = (Some candidate, s')"
  shows "map_of (mp_pending s) (js_nat candidate) = None" "map_of (mp_circuits s) (js_nat candidate) = None"
    "\<exists>k. s' = s\<lparr>mp_nextCircuitId := k\<rparr>"
  using assms by (auto simp: allocateCircuitId_def split: prod.splits dest!: allocate_free)

lemma allocateCircuitId_None: "allocateCircuitId s = (None, s') \<Longrightarrow> \<exists>k. s' = s\<lparr>mp_nextCircuitId := k\<rparr>"
  by (auto simp: allocateCircuitId_def split: prod.splits)

lemma placed_forget:
  assumes "placed s" and "map_of (mp_pending s) circuitId = Some call"
  shows "placed (forget_pending circuitId call s)"
    and "placed (remoteClose call code reason (forget_pending circuitId call s))"
proof -
  obtain socket where k: "map_of (mp_sockets s) call = Some socket" "cs_state socket \<noteq> WsClosed"
    and c: "map_of (mp_circuits s) circuitId = None"
    using placed_pending [OF assms] by auto
  show "placed (forget_pending circuitId call s)"
    using placed_delete [OF placed_parts [OF assms(1)], of circuitId] c
    by (simp add: placement_def forget_pending_def delete_absent)
  show "placed (remoteClose call code reason (forget_pending circuitId call s))"
    using placed_release [OF placed_parts [OF assms(1)], of circuitId call socket "socket\<lparr>cs_state := WsClosed\<rparr>"] c k assms(2)
    by (simp add: placement_remoteClose forget_pending_def delete_absent)
qed

lemma place_unseen [place_simps]:
  "placement (s\<lparr>mp_abortable := l\<rparr>) = placement s"
  "placement (s\<lparr>mp_timeouts := l\<rparr>) = placement s"
  "placement (s\<lparr>mp_ws := w\<rparr>) = placement s"
  "placement (s\<lparr>mp_readyTimer := b\<rparr>) = placement s"
  "placement (s\<lparr>mp_settled := b\<rparr>) = placement s"
  "placement (s\<lparr>mp_nextCircuitId := i\<rparr>) = placement s"
  by (simp_all add: placement_def)

lemma place_settle [place_simps]: "placement (settle call e s) = placement s"
  by (simp add: settle_def place_simps)

lemma remoteClose_fields [simp]:
  "mp_pending (remoteClose call code reason s) = mp_pending s"
  "mp_timeouts (remoteClose call code reason s) = mp_timeouts s"
  "mp_closed (remoteClose call code reason s) = mp_closed s"
  "mp_circuits (remoteClose call code reason s) = mp_circuits s"
  by (simp_all add: remoteClose_def emit_def split: option.splits)

lemma placed_control:
  "placed s \<Longrightarrow> (\<And>s'. placement s' = placement s \<Longrightarrow> placed (continue s')) \<Longrightarrow> placed (sendControl message continue s)"
  by (simp add: sendControl_def place_simps)

lemma remoteClose_placement_cong:
  "placement s' = placement s \<Longrightarrow> placement (remoteClose call code reason s') = placement (remoteClose call code reason s)"
  by (simp add: placement_remoteClose) (simp add: placement_def split: option.splits)

lemma placed_handleAbort:
  assumes "placed s" and "map_of (mp_pending s) circuitId = Some call"
  shows "placed (handleAbort circuitId call s)"
  unfolding handleAbort_def
proof (rule placed_control [OF placed_forget(1) [OF assms]])
  fix s' assume "placement s' = placement (forget_pending circuitId call s)"
  from remoteClose_placement_cong [OF this] placed_forget(2) [OF assms]
  show "placed (emit (Rejected call ''AbortError'') (remoteClose call 1000 ''Relay connection aborted'' s'))"
    by (simp add: place_simps)
qed

lemma placed_abort:
  assumes "placed s" and "ledger_ok (books s)"
  shows "placed (abort call s)"
proof (cases "call \<in> set (mp_abortable s)")
  case True
  with assms(2) obtain circuitId where c: "(circuitId, call) \<in> set (mp_pending s)" by (auto simp: calls_view_def)
  then have p: "map_of (mp_pending s) circuitId = Some call"
    using well_placedD(3) [OF placed_parts [OF assms(1)]] by simp
  obtain socket where k: "map_of (mp_sockets s) call = Some socket" "cs_circuitId socket = circuitId"
    using placed_pending(2) [OF assms(1) p] by auto
  show ?thesis using True k p assms(1) by (simp add: abort_def placed_handleAbort place_simps)
qed (simp add: abort_def assms)

lemma pending_of_timeout:
  assumes "placed s" and "ledger_ok (books s)" and "call \<in> set (mp_timeouts s)"
  obtains circuitId where "map_of (mp_pending s) circuitId = Some call"
proof -
  from assms(2,3) obtain circuitId where c: "(circuitId, call) \<in> set (mp_pending s)" by (auto simp: calls_view_def)
  then have "map_of (mp_pending s) circuitId = Some call" using well_placedD(3) [OF placed_parts [OF assms(1)]] by simp
  then show thesis by (rule that)
qed

lemma placed_openTimeout:
  assumes "placed s" and "ledger_ok (books s)"
  shows "placed (openTimeout call s)"
proof (cases "call \<in> set (mp_timeouts s)")
  case True
  then obtain circuitId where p: "map_of (mp_pending s) circuitId = Some call" using pending_of_timeout [OF assms] by blast
  obtain socket where k: "map_of (mp_sockets s) call = Some socket" "cs_circuitId socket = circuitId"
    using placed_pending(2) [OF assms(1) p] by auto
  let ?s = "(forget_pending circuitId call s)\<lparr>mp_abortable := removeAll call (mp_abortable s)\<rparr>"
  have "placed (sendControl (mux_close circuitId)
      (\<lambda>s. emit (Rejected call ''Waiting for relay circuit timed out'')
         (remoteClose call 1006 ''Waiting for relay circuit timed out'' s)) ?s)"
  proof (rule placed_control)
    show "placed ?s" using placed_forget(1) [OF assms(1) p] by (simp add: place_simps)
    fix s' assume "placement s' = placement ?s"
    then have "placement s' = placement (forget_pending circuitId call s)" by (simp add: place_simps)
    from remoteClose_placement_cong [OF this] placed_forget(2) [OF assms(1) p]
    show "placed (emit (Rejected call ''Waiting for relay circuit timed out'')
        (remoteClose call 1006 ''Waiting for relay circuit timed out'' s'))" by (simp add: place_simps)
  qed
  then show ?thesis using True k by (simp add: openTimeout_def)
qed (simp add: openTimeout_def assms)

text \<open>The close of the connection settles whatever is pending.\<close>

lemma view_close_pending:
  "calls_view (close_pending code reason call s) =
     (mp_pending s, removeAll call (mp_timeouts s), removeAll call (mp_abortable s), mp_nextCall s, mp_closed s,
      mp_maxCircuits s, \<lambda>c. settlements c s + (if c = call then 1 else 0))"
  unfolding close_pending_def by (rule view_settle [OF _ trans [OF view_remoteClose]]) (simp_all add: calls_view_def)

lemma ledger_close_pendings:
  "ledger_of (calls_view (fold (close_pending code reason) calls s)) =
     (case books s of (P, T, A, n, b, f) \<Rightarrow>
        (P, T - set calls, A - set calls, n, b, \<lambda>c. f c + count_list calls c))"
proof (induction calls arbitrary: s)
  case Nil
  show ?case by (simp split: prod.split)
next
  case (Cons call calls)
  have "books (close_pending code reason call s) =
      (case books s of (P, T, A, n, b, f) \<Rightarrow> (P, T - {call}, A - {call}, n, b, \<lambda>c. f c + (if c = call then 1 else 0)))"
    by (simp add: view_close_pending) (simp add: calls_view_def)
  with Cons show ?case by (auto simp: fun_eq_iff split: prod.splits)
qed

lemma circuits_close_pending [simp]:
  "mp_circuits (close_pending code reason call s) = mp_circuits s"
  "mp_closed (close_pending code reason call s) = mp_closed s"
  "mp_pending (close_pending code reason call s) = mp_pending s"
  "mp_nextCall (close_pending code reason call s) = mp_nextCall s"
  by (simp_all add: close_pending_def settle_def emit_def remoteClose_def split: option.splits)

lemma placed_close_pendings:
  "well_placed (P, mp_circuits s, mp_sockets s, mp_nextCall s) \<Longrightarrow>
     (let s' = fold (close_pending code reason) (map snd P) s
      in well_placed ([], mp_circuits s', mp_sockets s', mp_nextCall s'))"
proof (induction P arbitrary: s)
  case (Cons e P)
  obtain circuitId call where e: "e = (circuitId, call)" by (cases e)
  have w: "well_placed ((circuitId, call) # P, mp_circuits s, mp_sockets s, mp_nextCall s)" using Cons.prems by (simp add: e)
  have absent: "map_of P circuitId = None" using well_placedD(3) [OF w] by (simp add: map_of_eq_None_iff)
  have none: "map_of (mp_circuits s) circuitId = None" using well_placedD(2) [OF w, of circuitId] by simp
  obtain socket where k: "map_of (mp_sockets s) call = Some socket" "cs_state socket \<noteq> WsClosed"
    using well_placedD(1) [OF w, of circuitId call] by auto
  have "mp_sockets (close_pending code reason call s) = AList.update call (socket\<lparr>cs_state := WsClosed\<rparr>) (mp_sockets s)"
    using k by (simp add: close_pending_def settle_def emit_def remoteClose_def)
  with placed_release [OF w, of circuitId call socket "socket\<lparr>cs_state := WsClosed\<rparr>"] k absent none
  have "well_placed (P, mp_circuits (close_pending code reason call s), mp_sockets (close_pending code reason call s),
      mp_nextCall (close_pending code reason call s))"
    by (simp add: delete_absent)
  from Cons.IH [OF this] show ?case by (simp add: e)
qed (simp add: Let_def)

lemma close_circuits_keep:
  "placed s \<Longrightarrow> placed (fold (close_circuit_of code reason) ids s)"
  "calls_view (fold (close_circuit_of code reason) ids s) = calls_view s"
  by (induction ids arbitrary: s) (simp_all add: close_circuit_of_def place_simps view_simps)

lemma fold_close_pending_pending [simp]:
  "mp_pending (fold (close_pending code reason) calls s) = mp_pending s"
  "mp_nextCall (fold (close_pending code reason) calls s) = mp_nextCall s"
  by (induction calls arbitrary: s) simp_all

lemma count_list_distinct: "distinct xs \<Longrightarrow> count_list xs c = (if c \<in> set xs then 1 else 0)"
  by (induction xs) auto

lemma distinct_calls:
  assumes "placed s"
  shows "distinct (map snd (mp_pending s))"
proof -
  have d: "distinct (map fst (mp_pending s))" using well_placedD(3) [OF placed_parts [OF assms]] .
  have "inj_on snd (set (mp_pending s))"
  proof (rule inj_onI)
    fix x y assume xy: "x \<in> set (mp_pending s)" "y \<in> set (mp_pending s)" "snd x = snd y"
    have "map_of (mp_pending s) (fst x) = Some (snd x)" "map_of (mp_pending s) (fst y) = Some (snd x)"
      using xy d by (metis map_of_is_SomeI prod.collapse)+
    then have "fst x = fst y" using placed_one_id [OF placed_parts [OF assms]] by blast
    with xy show "x = y" by (simp add: prod_eq_iff)
  qed
  then show ?thesis using d by (simp add: distinct_map)
qed

lemma handleClose_moves:
  assumes "placed s"
  shows "placed (handleClose code reason s)" "ledger_move timely (books s) (books (handleClose code reason s))"
proof -
  let ?s0 = "s\<lparr>mp_closed := True, mp_drainTimer := False\<rparr>"
  let ?s1 = "fold (close_pending code reason) (map snd (mp_pending s)) ?s0"
  let ?s2 = "?s1\<lparr>mp_pending := []\<rparr>"
  have closed: "handleClose code reason s =
      emit PhysicalClosed (fold (close_circuit_of code reason) (map fst (mp_circuits ?s2)) ?s2)" if "\<not> mp_closed s"
    using that by (simp add: handleClose_def Let_def)
  have "well_placed (mp_pending ?s0, mp_circuits ?s0, mp_sockets ?s0, mp_nextCall ?s0)" using assms by (simp add: placement_def)
  from placed_close_pendings [OF this, of code reason] have "placed ?s2" by (simp add: Let_def placement_def)
  then show "placed (handleClose code reason s)"
    using assms closed by (cases "mp_closed s") (simp add: handleClose_def, simp only: place_simps close_circuits_keep simp_thms)
  have count: "count_list (map snd (mp_pending s)) c = (if c \<in> set (map snd (mp_pending s)) then 1 else 0)" for c
    by (rule count_list_distinct [OF distinct_calls [OF assms]])
  have "books ?s1 = (set (map snd (mp_pending s)), set (mp_timeouts s) - set (map snd (mp_pending s)),
      set (mp_abortable s) - set (map snd (mp_pending s)), mp_nextCall s, True,
      \<lambda>c. settlements c s + (if c \<in> set (map snd (mp_pending s)) then 1 else 0))"
    unfolding ledger_close_pendings by (simp add: count calls_view_def settlements_def del: set_map)
  then have "books ?s2 = ({}, set (mp_timeouts s) - set (map snd (mp_pending s)),
      set (mp_abortable s) - set (map snd (mp_pending s)), mp_nextCall s, True,
      \<lambda>c. settlements c s + (if c \<in> set (map snd (mp_pending s)) then 1 else 0))"
    by (simp add: calls_view_def del: set_map)
  then have "ledger_move timely (books s) (books ?s2)" using Shut by (simp add: calls_view_def [of s] del: set_map)
  then show "ledger_move timely (books s) (books (handleClose code reason s))"
    using closed by (cases "mp_closed s") (simp add: handleClose_def Stay, simp add: view_simps close_circuits_keep)
qed

section \<open>Every event moves the ledger\<close>

text \<open>A timer or an abort that strikes while the socket cannot send is not timely.\<close>

fun timely :: "MuxClient \<Rightarrow> mux_client_op \<Rightarrow> bool" where
  "timely s (Abort _) = isOpen s"
| "timely s (OpenTimeout _) = isOpen s"
| "timely s _ = True"

lemma openCircuit_moves:
  assumes "placed s" and "ledger_ok (books s)"
  shows "placed (openCircuit username channel hasSignal aborted s)"
    "ledger_move True (books s) (books (openCircuit username channel hasSignal aborted s))"
proof -
  let ?n = "mp_nextCall s" and ?s1 = "s\<lparr>mp_nextCall := Suc (mp_nextCall s)\<rparr>"
  let ?r = "openCircuit username channel hasSignal aborted s"
  have "set (mp_timeouts s) \<subseteq> {..<?n}" "set (mp_abortable s) \<subseteq> {..<?n}"
    using assms(2) by (simp_all add: calls_view_def) (elim conjE, blast)
  then have fresh: "?n \<notin> set (mp_timeouts s)" "?n \<notin> set (mp_abortable s)" by auto
  have p1: "placed (?s1\<lparr>mp_nextCircuitId := k\<rparr>)" "placed ?s1" for k
    using placed_next [OF placed_parts [OF assms(1)]] by (simp_all add: placement_def)
  have refuse: "placed (emit (Rejected ?n m) s') \<and> ledger_move True (books s) (books (emit (Rejected ?n m) s'))"
    if "placed s'" "calls_view s' = calls_view ?s1" for m s'
  proof -
    have "books (emit (Rejected ?n m) s') = ledger_of (settle_view ?n (calls_view ?s1))"
      using that(2) view_settling [of "Rejected ?n m" ?n s'] by simp
    also have "\<dots> = (case books s of (P, T, A, n, b, f) \<Rightarrow> (P, T, A, Suc n, b, f(n := f n + 1)))"
      by (auto simp: calls_view_def fun_eq_iff)
    finally show ?thesis using that(1) Refuse by (auto simp: place_simps calls_view_def [of s])
  qed
  have "placed ?r \<and> ledger_move True (books s) (books ?r)"
  proof (cases "isOpen ?s1 \<and> js_less (js_nat (length (mp_circuits s) + length (mp_pending s))) (mp_maxCircuits s)")
    case False
    then have "\<exists>m. ?r = emit (Rejected ?n m) ?s1" by (auto simp: openCircuit_def Let_def)
    then show ?thesis using refuse [OF p1(2) refl] by auto
  next
    case guards: True
    then have nc: "\<not> mp_closed s" by (simp add: isOpen_def)
    obtain found s2 where alloc: "allocateCircuitId ?s1 = (found, s2)" by (cases "allocateCircuitId ?s1")
    show ?thesis
    proof (cases found)
      case None
      with alloc obtain k where s2: "s2 = ?s1\<lparr>mp_nextCircuitId := k\<rparr>" using allocateCircuitId_None by blast
      have "?r = emit (Rejected ?n ''Relay mux circuit ids exhausted'') s2"
        using guards alloc None by (simp add: openCircuit_def Let_def)
      with refuse [of s2 "''Relay mux circuit ids exhausted''"] p1(1) show ?thesis by (simp add: s2 calls_view_def)
    next
      case (Some candidate)
      define id where "id = js_nat candidate"
      from allocateCircuitId_Some [OF alloc [unfolded Some]] obtain k where
        free: "map_of (mp_pending s) id = None" "map_of (mp_circuits s) id = None" and s2: "s2 = ?s1\<lparr>mp_nextCircuitId := k\<rparr>"
        by (auto simp: id_def)
      define s3 where "s3 = s2\<lparr>mp_sockets := AList.update ?n \<lparr>cs_circuitId = id, cs_state = WsConnecting\<rparr> (mp_sockets s2),
          mp_pending := AList.update id ?n (mp_pending s2), mp_timeouts := mp_timeouts s2 @ [?n]\<rparr>"
      have r: "?r = (if hasSignal \<and> aborted then handleAbort id ?n s3
          else sendControl (mux_open id username channel) (\<lambda>s. s)
            (if hasSignal then s3\<lparr>mp_abortable := mp_abortable s3 @ [?n]\<rparr> else s3))"
        using guards alloc Some by (simp add: openCircuit_def Let_def id_def s3_def s2)
      have p3: "placed s3"
        using placed_new [OF placed_parts [OF assms(1)] free, of "\<lparr>cs_circuitId = id, cs_state = WsConnecting\<rparr>"]
        by (simp add: s3_def s2 placement_def)
      have pend: "mp_pending s3 = mp_pending s @ [(id, ?n)]" using free(1) by (simp add: s3_def s2 update_absent)
      show ?thesis
      proof (cases "hasSignal \<and> aborted")
        case True
        have m: "map_of (mp_pending s3) id = Some ?n" using free(1) by (simp add: pend map_add_Some_iff)
        have open3: "isOpen s3" using guards by (simp add: s3_def s2 isOpen_def)
        have eq: "?r = handleAbort id ?n s3" unfolding r using True by (rule if_P)
        have na: "?n \<notin> set (mp_abortable s3)" using fresh(2) by (simp add: s3_def s2)
        have "calls_view ?r = leave id ?n 1 (calls_view s3)"
          using view_handleAbort [of ?n s3 id, OF na] open3 by (simp only: eq if_True)
        also have "\<dots> = settle_view ?n (calls_view ?s1)"
        proof -
          have "AList.delete id (mp_pending s @ [(id, ?n)]) = mp_pending s"
            using delete_absent [OF free(1)] by (simp add: AList.delete_eq)
          then show ?thesis using fresh by (simp add: calls_view_def pend) (simp add: s3_def s2 fun_eq_iff)
        qed
        finally have "calls_view ?r = settle_view ?n (calls_view ?s1)" .
        then have "books ?r = (case books s of (P, T, A, n, b, f) \<Rightarrow> (P, T, A, Suc n, b, f(n := f n + 1)))"
          by (auto simp: calls_view_def [of s] calls_view_def [of ?s1] fun_eq_iff)
        with Refuse placed_handleAbort [OF p3 m] True r show ?thesis by (auto simp: calls_view_def [of s])
      next
        case False
        define s4 where "s4 = (if hasSignal then s3\<lparr>mp_abortable := mp_abortable s3 @ [?n]\<rparr> else s3)"
        have "books s4 = (insert ?n (set (map snd (mp_pending s))), insert ?n (set (mp_timeouts s)), set (mp_abortable s4),
            Suc ?n, mp_closed s, \<lambda>c. settlements c s)"
          by (simp add: calls_view_def s4_def pend) (simp add: s3_def s2 settlements_def)
        moreover have "set (mp_abortable s4) \<subseteq> insert ?n (set (mp_abortable s))" by (auto simp: s4_def s3_def s2)
        ultimately have "ledger_move True (books s) (books s4)"
          using Admit [OF nc] by (simp add: calls_view_def [of s] del: set_map)
        moreover have "placed s4" using p3 by (simp add: s4_def place_simps)
        ultimately show ?thesis using False r by (auto simp: s4_def [symmetric] view_simps place_simps)
      qed
    qed
  qed
  then show "placed ?r" "ledger_move True (books s) (books ?r)" by simp_all
qed

lemma placed_opened_error:
  assumes "placed s"
  shows "placed (handleOpened circuitId s)" "placed (handleError circuitId reason s)"
proof -
  show "placed (handleError circuitId reason s)"
    using assms placed_forget(2) [OF assms]
    by (cases "map_of (mp_pending s) circuitId") (simp_all add: handleError_def place_simps)
  show "placed (handleOpened circuitId s)"
  proof (cases "map_of (mp_pending s) circuitId")
    case (Some call)
    let ?s = "forget_pending circuitId call s"
    obtain socket where k: "map_of (mp_sockets s) call = Some socket" "cs_state socket \<noteq> WsClosed"
      using placed_pending(2) [OF assms Some] by auto
    let ?socket = "if cs_state socket = WsConnecting then socket\<lparr>cs_state := WsOpen\<rparr> else socket"
    have "well_placed (AList.delete circuitId (mp_pending s), AList.update circuitId call (mp_circuits s), mp_sockets s, mp_nextCall s)"
      using placed_opened [OF placed_parts [OF assms] Some] .
    from placed_touch [OF this k(1), of ?socket] this k(2) show ?thesis
      by (simp add: handleOpened_def Some Let_def place_simps)
        (auto simp: markOpen_def k forget_pending_def placement_def split: if_splits)
  qed (simp add: handleOpened_def assms place_simps)
qed

lemma handleText_moves:
  assumes "placed s"
  shows "placed (handleText parsed s)" "ledger_move True (books s) (books (handleText parsed s))"
proof -
  have leaves: "ledger_move True (books s) (books (handleOpened circuitId s))"
    "ledger_move True (books s) (books (handleError circuitId reason s))" for circuitId reason
    using ledger_of_leave [OF assms, of circuitId _ 1 True] Stay
    by (auto simp: view_handleOpened view_handleError split: option.splits)
  show "placed (handleText parsed s)"
    using assms by (auto simp: handleText_def place_simps placed_opened_error split: option.splits)
  show "ledger_move True (books s) (books (handleText parsed s))"
    using leaves by (auto simp: handleText_def view_simps Stay split: option.splits)
qed

lemma books_limits [simp]:
  "books (s\<lparr>mp_settled := a, mp_connected := b, mp_readyTimer := c, mp_maxFrameBytes := d, mp_maxCircuits := e\<rparr>) = books s"
  by (simp add: calls_view_def)

lemma placed_limits [simp]:
  "placement (s\<lparr>mp_settled := a, mp_connected := b, mp_readyTimer := c, mp_maxFrameBytes := d, mp_maxCircuits := e\<rparr>) = placement s"
  by (simp add: placement_def)

lemma step_moves:
  assumes "placed s" and "ledger_ok (books s)"
  shows "placed (client_step s op)" "ledger_move (timely s op) (books s) (books (client_step s op))"
proof -
  have out: "placed (openTimeout call s)" "ledger_move (isOpen s) (books s) (books (openTimeout call s))" for call
  proof -
    show "ledger_move (isOpen s) (books s) (books (openTimeout call s))"
    proof (cases "call \<in> set (mp_timeouts s)")
      case True
      then obtain circuitId where p: "map_of (mp_pending s) circuitId = Some call" using pending_of_timeout [OF assms] by blast
      show ?thesis unfolding view_openTimeout [OF assms(1) p True] by (rule ledger_of_leave [OF assms(1) p]) auto
    qed (simp add: openTimeout_def Stay)
  qed (rule placed_openTimeout [OF assms])
  have ab: "ledger_move (isOpen s) (books s) (books (abort call s))" for call
  proof (cases "call \<in> set (mp_abortable s)")
    case True
    with assms(2) have "call \<in> set (mp_timeouts s)" by (auto simp: calls_view_def)
    then obtain circuitId where p: "map_of (mp_pending s) circuitId = Some call" using pending_of_timeout [OF assms] by blast
    show ?thesis unfolding view_abort [OF assms(1) p True] by (rule ledger_of_leave [OF assms(1) p]) auto
  qed (simp add: abort_def Stay)
  have closed: "placed (connectClose code reason (s\<lparr>mp_ws := WsClosed\<rparr>))"
    "ledger_move True (books s) (books (connectClose code reason (s\<lparr>mp_ws := WsClosed\<rparr>)))" for code reason
  proof -
    let ?s = "s\<lparr>mp_ws := WsClosed, mp_readyTimer := False\<rparr>"
    have p: "placed ?s" and b: "books ?s = books s" using assms(1) by (simp_all add: place_simps view_parts)
    have c: "connectClose code reason (s\<lparr>mp_ws := WsClosed\<rparr>) =
        (let s = handleClose code reason ?s in if mp_settled s then s else emit (ConnectFailed ''Relay mux closed before ready'') (s\<lparr>mp_settled := True\<rparr>))"
      by (simp add: connectClose_def)
    show "placed (connectClose code reason (s\<lparr>mp_ws := WsClosed\<rparr>))"
      using handleClose_moves(1) [OF p, of code reason] by (simp add: c Let_def place_simps)
    show "ledger_move True (books s) (books (connectClose code reason (s\<lparr>mp_ws := WsClosed\<rparr>)))"
      using handleClose_moves(2) [OF p, of True code reason] by (simp add: c Let_def view_simps view_parts b)
  qed
  show "placed (client_step s op)"
    using assms openCircuit_moves(1) [OF assms] handleText_moves(1) [OF assms(1)] out closed placed_abort [OF assms]
    by (cases op) (simp_all add: connectText_def readyTimeout_def connectError_def disposeClose_def place_simps split: option.splits)
  show "ledger_move (timely s op) (books s) (books (client_step s op))"
    using openCircuit_moves(2) [OF assms] handleText_moves(2) [OF assms(1)] out ab closed
    by (cases op) (simp_all add: connectText_def readyTimeout_def connectError_def disposeClose_def view_simps view_parts Stay split: option.splits)
qed

interpretation mux_calls: invariant_machine client_step "\<lambda>_ _. True" newMuxClient "\<lambda>s. placed s \<and> ledger_ok (books s)"
proof unfold_locales
  show "placed newMuxClient \<and> ledger_ok (books newMuxClient)"
    by (simp add: newMuxClient_def placement_def well_placed.simps calls_view_def settlements_def)
qed (use step_moves ledger_ok_move in blast)

interpretation mux_settled: invariant_machine client_step timely newMuxClient
  "\<lambda>s. placed s \<and> ledger_ok (books s) \<and> ledger_balanced (books s)"
proof unfold_locales
  show "placed newMuxClient \<and> ledger_ok (books newMuxClient) \<and> ledger_balanced (books newMuxClient)"
    by (simp add: newMuxClient_def placement_def well_placed.simps calls_view_def settlements_def)
next
  fix s op
  assume s: "placed s \<and> ledger_ok (books s) \<and> ledger_balanced (books s)" and "timely s op"
  with step_moves [of s op] have m: "placed (client_step s op)" "ledger_move True (books s) (books (client_step s op))"
    by simp_all
  with s ledger_ok_move [OF m(2)] ledger_balanced_move [OF m(2)]
  show "placed (client_step s op) \<and> ledger_ok (books (client_step s op)) \<and> ledger_balanced (books (client_step s op))" by blast
qed

lemma gone_for_good:
  "placed s \<Longrightarrow> ledger_ok (books s) \<Longrightarrow> ledger_gone call k (books s) \<Longrightarrow>
     ledger_gone call k (books (foldl client_step s later))"
proof (induction later arbitrary: s)
  case (Cons op later)
  from step_moves [OF Cons.prems(1,2), of op] Cons.prems(2,3) have "placed (client_step s op)"
    "ledger_ok (books (client_step s op))" "ledger_gone call k (books (client_step s op))"
    by (blast intro: ledger_ok_move ledger_gone_move)+
  from Cons.IH [OF this] show ?case by simp
qed simp

lemma open_call_pending:
  assumes "placed s" and "ledger_ok (books s)" and "pending_call call s"
  obtains circuitId where "map_of (mp_pending s) circuitId = Some call" "call \<in> set (mp_timeouts s)" "call < mp_nextCall s"
    "\<not> mp_closed s" "settlements call s = 0"
proof -
  from assms(2,3) have c: "call \<in> set (mp_timeouts s)" "call < mp_nextCall s" "\<not> mp_closed s" "settlements call s = 0"
    by (auto simp: calls_view_def pending_call_def)
  from pending_of_timeout [OF assms(1,2) c(1)] that c show thesis by blast
qed

lemma openTimeout_settles:
  assumes "placed s" and "ledger_ok (books s)" and "pending_call call s"
  shows "settlements call (openTimeout call s) = (if isOpen s then 1 else 0)" "\<not> pending_call call (openTimeout call s)"
    "mp_nextCall (openTimeout call s) = mp_nextCall s"
proof -
  obtain circuitId where c: "map_of (mp_pending s) circuitId = Some call" "call \<in> set (mp_timeouts s)" "settlements call s = 0"
    using open_call_pending [OF assms] by blast
  have "calls_view (openTimeout call s) = leave circuitId call (if isOpen s then 1 else 0) (calls_view s)"
    using view_openTimeout [OF assms(1) c(1,2)] .
  then have "mp_pending (openTimeout call s) = AList.delete circuitId (mp_pending s)"
    "mp_nextCall (openTimeout call s) = mp_nextCall s"
    "(\<lambda>d. settlements d (openTimeout call s)) = (\<lambda>d. settlements d s + (if d = call then if isOpen s then 1 else 0 else 0))"
    by (simp_all only: calls_view_def leave.simps prod.inject)
  with c(3) calls_left [OF assms(1) c(1)]
  show "settlements call (openTimeout call s) = (if isOpen s then 1 else 0)" "\<not> pending_call call (openTimeout call s)"
    "mp_nextCall (openTimeout call s) = mp_nextCall s"
    by (simp_all add: fun_eq_iff pending_call_def del: set_map)
qed

text \<open>
  C38 A call of \<open>openCircuit\<close> is settled exactly once: as long as no timer and no abort strikes a socket that
  can no longer send, a call that is not pending was resolved or rejected once, and a pending one has a
  live timer, which settles it while the socket is open.
\<close>

theorem opens_settle:
  assumes "permitted client_step timely newMuxClient ops"
    and "call < mp_nextCall (foldl client_step newMuxClient ops)"
  shows "settlements call (foldl client_step newMuxClient ops) =
      (if pending_call call (foldl client_step newMuxClient ops) then 0 else 1) \<and>
    (pending_call call (foldl client_step newMuxClient ops) \<longrightarrow>
      call \<in> set (mp_timeouts (foldl client_step newMuxClient ops)) \<and> \<not> mp_closed (foldl client_step newMuxClient ops) \<and>
      settlements call (openTimeout call (foldl client_step newMuxClient ops)) =
        (if isOpen (foldl client_step newMuxClient ops) then 1 else 0))"
proof -
  let ?s = "foldl client_step newMuxClient ops"
  from mux_settled.inv_run [OF assms(1)] have i: "placed ?s" "ledger_ok (books ?s)" "ledger_balanced (books ?s)" by blast+
  then have "settlements call ?s = (if pending_call call ?s then 0 else 1)"
    using assms(2) by (auto simp: calls_view_def pending_call_def)
  moreover have "call \<in> set (mp_timeouts ?s) \<and> \<not> mp_closed ?s \<and> settlements call (openTimeout call ?s) = (if isOpen ?s then 1 else 0)"
    if p: "pending_call call ?s"
  proof -
    obtain circuitId where "call \<in> set (mp_timeouts ?s)" "\<not> mp_closed ?s" using open_call_pending [OF i(1,2) p] by blast
    with openTimeout_settles(1) [OF i(1,2) p] show ?thesis by simp
  qed
  ultimately show ?thesis by blast
qed

text \<open>
  C40 A call whose timer strikes while the WebSocket is closing is never settled: the entry is forgotten,
  the exception of \<open>sendControl\<close> keeps the rejection from happening, and no later event, the close of
  the connection included, makes up for it.
\<close>

theorem open_lost_while_closing:
  assumes "pending_call call (foldl client_step newMuxClient ops)" and "\<not> isOpen (foldl client_step newMuxClient ops)"
  shows "settlements call (foldl client_step newMuxClient (ops @ OpenTimeout call # later)) = 0 \<and>
    \<not> pending_call call (foldl client_step newMuxClient (ops @ OpenTimeout call # later))"
proof -
  let ?s = "foldl client_step newMuxClient ops" and ?t = "client_step (foldl client_step newMuxClient ops) (OpenTimeout call)"
  from mux_calls.inv_run [of ops] have i: "placed ?s" "ledger_ok (books ?s)" by simp_all
  obtain circuitId where "call < mp_nextCall ?s" using open_call_pending [OF i assms(1)] by blast
  with openTimeout_settles [OF i assms(1)] assms(2) have "ledger_gone call 0 (books ?t)"
    by (simp add: calls_view_def pending_call_def)
  with step_moves [OF i, of "OpenTimeout call"] i(2) ledger_ok_move
  have "placed ?t \<and> ledger_ok (books ?t) \<and> ledger_gone call 0 (books ?t)" by blast
  then have "ledger_gone call 0 (books (foldl client_step ?t later))" using gone_for_good by blast
  then show ?thesis by (simp add: calls_view_def pending_call_def)
qed

section \<open>Witnesses\<close>

definition ready_message :: json where
  "ready_message = JObj [(''type'', JStr ''mux_ready''), (''protocolVersion'', JNum (js_nat 1)),
     (''maxCircuits'', JNum (js_nat 4)), (''maxFrameBytes'', JNum (js_nat 100))]"

definition opened_message :: "nat \<Rightarrow> json" where
  "opened_message circuitId = JObj [(''type'', JStr ''mux_opened''), (''circuitId'', JNum (js_nat circuitId))]"

definition sample_opens :: "mux_client_op list" where
  "sample_opens =
     [SocketOpened, TextFrame (Some ready_message), OpenCircuit ''home'' ''app'' False False,
      OpenCircuit ''office'' ''app'' True False, TextFrame (Some (opened_message 1)), Send 0 [1, 2, 3] True]"

lemma sample_opens_permitted: "permitted client_step timely newMuxClient sample_opens"
  by code_simp

lemma sample_opens_next: "mp_nextCall (foldl client_step newMuxClient sample_opens) = 2"
  by code_simp

lemma sample_opens_pending: "pending_call 1 (foldl client_step newMuxClient sample_opens)"
  by code_simp

lemma sample_opens_settled: "\<not> pending_call 0 (foldl client_step newMuxClient sample_opens)"
  by code_simp

lemma sample_opens_open: "isOpen (foldl client_step newMuxClient sample_opens)"
  by code_simp

lemma sample_closing_pending: "pending_call 1 (foldl client_step newMuxClient (sample_opens @ [SocketClosing]))"
  by code_simp

lemma sample_closing_shut: "\<not> isOpen (foldl client_step newMuxClient (sample_opens @ [SocketClosing]))"
  by code_simp

lemma opens_settle_witness:
  "settlements 0 (foldl client_step newMuxClient sample_opens) = 1 \<and>
   settlements 1 (foldl client_step newMuxClient sample_opens) = 0 \<and>
   settlements 1 (openTimeout 1 (foldl client_step newMuxClient sample_opens)) = 1"
  using opens_settle [OF sample_opens_permitted, of 0] opens_settle [OF sample_opens_permitted, of 1]
    sample_opens_next sample_opens_pending sample_opens_settled sample_opens_open by simp

lemma open_lost_while_closing_witness:
  "settlements 1 (foldl client_step newMuxClient
     ((sample_opens @ [SocketClosing]) @ [OpenTimeout 1, SocketClosed 1006 [], OpenTimeout 1])) = 0"
  using open_lost_while_closing [OF sample_closing_pending sample_closing_shut] by blast

end
