(* ===== verification/MuxClientQueues.thy ===== *)
theory MuxClientQueues
  imports MuxClient
begin

text \<open>
  The queues of the client's end of a relay connection: what the counters of MuxClient promise about the
  frames that wait, the limits they keep, the drains that empty them, and the room for circuits.
\<close>

section \<open>The counters and the queues\<close>

definition frame_bytes :: "bytes list \<Rightarrow> int" where
  "frame_bytes queue = int (sum_list (map length queue))"

definition waiting_bytes :: "js_number \<Rightarrow> (js_number \<times> bytes list) list \<Rightarrow> int" where
  "waiting_bytes circuitId queues = (case map_of queues circuitId of None \<Rightarrow> 0 | Some queue \<Rightarrow> frame_bytes queue)"

definition all_bytes :: "(js_number \<times> bytes list) list \<Rightarrow> int" where
  "all_bytes queues = sum_list (map (\<lambda>(_, queue). frame_bytes queue) queues)"

text \<open>The queues with the order of their circuits, the counters, and the circuits that may queue.\<close>

definition queues_ok ::
  "(js_number \<times> bytes list) list \<Rightarrow> js_number list \<Rightarrow> (js_number \<times> int) list \<Rightarrow> int \<Rightarrow> js_number set \<Rightarrow> bool" where
  "queues_ok queues order counts amount ids \<longleftrightarrow>
     distinct (map fst queues) \<and> distinct order \<and> distinct (map fst counts) \<and> set order = dom (map_of queues) \<and>
     dom (map_of queues) \<subseteq> ids \<and> (\<forall>circuitId. map_of queues circuitId \<noteq> Some []) \<and>
     (\<forall>circuitId. (case map_of counts circuitId of None \<Rightarrow> 0 | Some n \<Rightarrow> n) = waiting_bytes circuitId queues) \<and>
     (\<forall>circuitId. waiting_bytes circuitId queues \<le> int CLIENT_QUEUE_BYTES_PER_CIRCUIT) \<and>
     amount = all_bytes queues \<and> amount \<le> int CLIENT_QUEUE_BYTES_PER_SOCKET"

lemma frame_bytes_nonneg [simp]: "0 \<le> frame_bytes queue"
  by (simp add: frame_bytes_def)

lemma frame_bytes_simps [simp]:
  "frame_bytes [] = 0" "frame_bytes (frame # queue) = int (length frame) + frame_bytes queue"
  "frame_bytes (queue @ later) = frame_bytes queue + frame_bytes later"
  by (simp_all add: frame_bytes_def)

lemma waiting_bytes_nonneg [simp]: "0 \<le> waiting_bytes circuitId queues"
  by (simp add: waiting_bytes_def split: option.split)

lemma all_bytes_nonneg [simp]: "0 \<le> all_bytes queues"
  unfolding all_bytes_def by (rule sum_list_nonneg) auto

lemma all_bytes_delete:
  "distinct (map fst queues) \<Longrightarrow> all_bytes (AList.delete circuitId queues) = all_bytes queues - waiting_bytes circuitId queues"
  using sum_list_AList_delete [of queues circuitId _ frame_bytes]
  by (cases "map_of queues circuitId") (auto simp: all_bytes_def waiting_bytes_def delete_absent)

lemma all_bytes_update:
  "all_bytes (AList.update circuitId queue queues) = all_bytes queues - waiting_bytes circuitId queues + frame_bytes queue"
proof (cases "map_of queues circuitId")
  case None
  then show ?thesis by (simp add: all_bytes_def waiting_bytes_def update_absent)
next
  case (Some old)
  from sum_list_AList_update [OF this, of frame_bytes queue] Some show ?thesis
    by (simp add: all_bytes_def waiting_bytes_def)
qed

lemma waiting_bytes_update:
  "waiting_bytes i (AList.update circuitId queue queues) = (if i = circuitId then frame_bytes queue else waiting_bytes i queues)"
  by (simp add: waiting_bytes_def omap_simps)

lemma waiting_bytes_delete:
  "waiting_bytes i (AList.delete circuitId queues) = (if i = circuitId then 0 else waiting_bytes i queues)"
  by (simp add: waiting_bytes_def omap_simps)

lemma queues_remove:
  assumes "queues_ok queues order counts amount ids"
  shows "queues_ok (AList.delete circuitId queues) (filter (\<lambda>i. i \<noteq> circuitId) order) (AList.delete circuitId counts)
      (amount - (case map_of counts circuitId of None \<Rightarrow> 0 | Some n \<Rightarrow> n)) (ids - {circuitId})"
proof -
  have w: "(case map_of counts i of None \<Rightarrow> 0 | Some n \<Rightarrow> n) = waiting_bytes i queues" for i
    using assms by (simp add: queues_ok_def)
  have "all_bytes queues \<le> int CLIENT_QUEUE_BYTES_PER_SOCKET" using assms by (simp add: queues_ok_def)
  then have "all_bytes queues - waiting_bytes circuitId queues \<le> int CLIENT_QUEUE_BYTES_PER_SOCKET"
    using waiting_bytes_nonneg [of circuitId queues] by linarith
  with w show ?thesis
    using assms
    by (auto simp: queues_ok_def all_bytes_delete waiting_bytes_delete omap_simps)
qed

lemma queues_more: "queues_ok queues order counts amount ids \<Longrightarrow> ids \<subseteq> ids' \<Longrightarrow> queues_ok queues order counts amount ids'"
  by (auto simp: queues_ok_def)

lemma queues_push:
  assumes q: "queues_ok queues order counts amount ids" and "circuitId \<in> ids"
    and "waiting_bytes circuitId queues + int (length frame) \<le> int CLIENT_QUEUE_BYTES_PER_CIRCUIT"
    and "amount + int (length frame) \<le> int CLIENT_QUEUE_BYTES_PER_SOCKET"
  shows "queues_ok
      (AList.update circuitId (case map_of queues circuitId of None \<Rightarrow> [frame] | Some queue \<Rightarrow> queue @ [frame]) queues)
      (if map_of queues circuitId = None then order @ [circuitId] else order)
      (AList.update circuitId (waiting_bytes circuitId queues + int (length frame)) counts) (amount + int (length frame)) ids"
proof -
  define queue where "queue = (case map_of queues circuitId of None \<Rightarrow> [frame] | Some queue \<Rightarrow> queue @ [frame])"
  have b: "frame_bytes queue = waiting_bytes circuitId queues + int (length frame)"
    by (simp add: queue_def waiting_bytes_def split: option.split)
  have ne: "queue \<noteq> []" by (simp add: queue_def split: option.split)
  have "circuitId \<notin> set order" if "map_of queues circuitId = None" using q that by (auto simp: queues_ok_def)
  then show ?thesis
    using assms ne unfolding queue_def [symmetric]
    by (auto simp: queues_ok_def all_bytes_update waiting_bytes_update b omap_simps domIff)
qed

lemma queues_shift:
  assumes q: "queues_ok queues order counts amount ids" and k: "map_of queues circuitId = Some queue"
  shows "queues_ok
      (if tl queue = [] then AList.delete circuitId queues else AList.update circuitId (tl queue) queues)
      (if tl queue = [] then filter (\<lambda>i. i \<noteq> circuitId) order else order)
      (AList.update circuitId (waiting_bytes circuitId queues - int (length (hd queue))) counts)
      (amount - int (length (hd queue))) ids"
proof -
  obtain frame rest where queue: "queue = frame # rest" using q k by (cases queue) (auto simp: queues_ok_def)
  have w: "waiting_bytes circuitId queues = int (length frame) + frame_bytes rest" using k queue by (simp add: waiting_bytes_def)
  have le: "waiting_bytes circuitId queues \<le> int CLIENT_QUEUE_BYTES_PER_CIRCUIT" using q by (simp add: queues_ok_def)
  show ?thesis
  proof (cases "rest = []")
    case True
    then show ?thesis
      using q w queue by (auto simp: queues_ok_def all_bytes_delete waiting_bytes_delete omap_simps)
  next
    case False
    then show ?thesis
      using q w queue k le by (auto simp: queues_ok_def all_bytes_update waiting_bytes_update omap_simps domIff)
  qed
qed

section \<open>The queues of a connection\<close>

text \<open>Frames that wait have a drain to come, as long as the socket can send.\<close>

definition drain_due :: "MuxClient \<Rightarrow> bool" where
  "drain_due s \<longleftrightarrow> (0 < mp_queuedBytes s \<and> isOpen s \<longrightarrow> mp_drainScheduled s \<or> mp_drainTimer s)"

definition counted :: "MuxClient \<Rightarrow> bool" where
  "counted s \<longleftrightarrow>
     queues_ok (mp_queues s) (mp_circuitOrder s) (mp_queuedBytesByCircuit s) (mp_queuedBytes s) (dom (map_of (mp_circuits s)))"

definition queue_view ::
  "MuxClient \<Rightarrow> (js_number \<times> bytes list) list \<times> js_number list \<times> (js_number \<times> int) list \<times> int \<times> (js_number \<times> nat) list \<times> bool \<times> bool" where
  "queue_view s =
     (mp_queues s, mp_circuitOrder s, mp_queuedBytesByCircuit s, mp_queuedBytes s, mp_circuits s, mp_drainScheduled s, mp_drainTimer s)"

definition queues_kept :: "MuxClient \<Rightarrow> MuxClient \<Rightarrow> bool" where
  "queues_kept s s' \<longleftrightarrow> queue_view s' = queue_view s \<and> (isOpen s' \<longrightarrow> isOpen s)"

lemma queues_keptD: "queues_kept s s' \<Longrightarrow> counted s \<Longrightarrow> counted s'" "queues_kept s s' \<Longrightarrow> drain_due s \<Longrightarrow> drain_due s'"
  by (auto simp: queues_kept_def queue_view_def counted_def drain_due_def)

lemma queues_kept_trans [trans]: "queues_kept s s' \<Longrightarrow> queues_kept s' s'' \<Longrightarrow> queues_kept s s''"
  by (auto simp: queues_kept_def)

named_theorems kept

lemma kept_basic [kept]:
  "queues_kept s s"
  "queues_kept s (emit e s)"
  "queues_kept s (wsClose wcode reason s)"
  "queues_kept s (remoteClose call code reason s)"
  "queues_kept s (receive call payload isBinary s)"
  "queues_kept s (markOpen call s)"
  "queues_kept s (settle call e s)"
  "queues_kept s (forget_pending circuitId call s)"
  "queues_kept s (s\<lparr>mp_sockets := a\<rparr>)"
  "queues_kept s (s\<lparr>mp_abortable := l\<rparr>)"
  "queues_kept s (s\<lparr>mp_readyTimer := b\<rparr>)"
  "queues_kept s (s\<lparr>mp_settled := b\<rparr>)"
  by (simp_all add: queues_kept_def queue_view_def emit_def wsClose_def remoteClose_def receive_def markOpen_def settle_def
      forget_pending_def isOpen_def split: option.splits)

lemma kept_after:
  "queues_kept s (emit e s') = queues_kept s s'"
  "queues_kept s (settle call e s') = queues_kept s s'"
  "queues_kept s (remoteClose call code reason s') = queues_kept s s'"
  "queues_kept s (forget_pending circuitId call s') = queues_kept s s'"
  "queues_kept s (s'\<lparr>mp_abortable := l\<rparr>) = queues_kept s s'"
  by (simp_all add: queues_kept_def queue_view_def emit_def remoteClose_def settle_def forget_pending_def isOpen_def split: option.splits)

lemma kept_control:
  "queues_kept s s' \<Longrightarrow> (\<And>s'. queues_kept s s' \<Longrightarrow> queues_kept s (continue s')) \<Longrightarrow>
     queues_kept s (sendControl message continue s')"
  by (simp add: sendControl_def kept_after)

lemma kept_handleAbort: "queues_kept s s' \<Longrightarrow> queues_kept s (handleAbort circuitId call s')"
  by (simp add: handleAbort_def kept_control kept_after)

lemma kept_calls [kept]:
  "queues_kept s (abort call s)" "queues_kept s (openTimeout call s)" "queues_kept s (handleError circuitId reason s)"
  by (simp_all add: abort_def openTimeout_def handleError_def kept kept_after kept_handleAbort kept_control split: option.split)

lemma kept_openCircuit [kept]: "queues_kept s (openCircuit username channel hasSignal aborted s)"
proof -
  have "queues_kept s s'" if "allocateCircuitId (s\<lparr>mp_nextCall := n\<rparr>) = (found, s')" for found s' n
    using that by (auto simp: allocateCircuitId_def queues_kept_def queue_view_def isOpen_def split: prod.splits)
  moreover have "queues_kept s (s\<lparr>mp_nextCall := n\<rparr>)" for n by (simp add: queues_kept_def queue_view_def isOpen_def)
  moreover have "queues_kept s (s'\<lparr>mp_sockets := a, mp_pending := p, mp_timeouts := t\<rparr>)" if "queues_kept s s'" for s' a p t
    using that by (simp add: queues_kept_def queue_view_def isOpen_def)
  ultimately show ?thesis
    by (auto simp: openCircuit_def Let_def kept_after intro!: kept_handleAbort kept_control split: option.splits prod.splits)
qed

text \<open>A circuit leaves with its queue.\<close>

lemma isOpen_removeCircuit [simp]: "isOpen (removeCircuit circuitId code reason s) = isOpen s"
  by (simp add: removeCircuit_def isOpen_def remoteClose_def emit_def split: option.splits)

lemma removeCircuit_counted:
  assumes "counted s"
  shows "counted (removeCircuit circuitId code reason s)" "drain_due s \<Longrightarrow> drain_due (removeCircuit circuitId code reason s)"
proof -
  let ?s = "s\<lparr>mp_circuits := AList.delete circuitId (mp_circuits s),
      mp_queuedBytes := mp_queuedBytes s - circuit_bytes circuitId s,
      mp_queuedBytesByCircuit := AList.delete circuitId (mp_queuedBytesByCircuit s),
      mp_queues := AList.delete circuitId (mp_queues s),
      mp_circuitOrder := filter (\<lambda>i. i \<noteq> circuitId) (mp_circuitOrder s)\<rparr>"
  have r: "removeCircuit circuitId code reason s = (case map_of (mp_circuits s) circuitId of None \<Rightarrow> s | Some call \<Rightarrow> remoteClose call code reason ?s)"
    by (simp add: removeCircuit_def)
  have "dom (map_of (mp_circuits s)) - {circuitId} = dom (map_of (AList.delete circuitId (mp_circuits s)))"
    by (auto simp: omap_simps)
  with queues_remove [OF assms [unfolded counted_def], of circuitId] have c: "counted ?s"
    by (simp add: counted_def circuit_bytes_def)
  have nonneg: "0 \<le> circuit_bytes circuitId s"
    using assms waiting_bytes_nonneg [of circuitId "mp_queues s"] by (simp add: counted_def queues_ok_def circuit_bytes_def)
  show "counted (removeCircuit circuitId code reason s)"
    unfolding r using c assms by (auto split: option.split intro: queues_keptD(1) [OF kept_basic(4)])
  assume d: "drain_due s"
  then have "drain_due ?s" using nonneg by (auto simp: drain_due_def isOpen_def)
  then show "drain_due (removeCircuit circuitId code reason s)"
    unfolding r using d by (auto split: option.split intro: queues_keptD(2) [OF kept_basic(4)])
qed

definition tended :: "MuxClient \<Rightarrow> bool" where
  "tended s \<longleftrightarrow> counted s \<and> drain_due s"

lemma tended_kept: "queues_kept s s' \<Longrightarrow> tended s \<Longrightarrow> tended s'"
  by (auto simp: tended_def intro: queues_keptD)

lemma tended_removeCircuit: "tended s \<Longrightarrow> tended (removeCircuit circuitId code reason s)"
  by (simp add: tended_def removeCircuit_counted)

lemma tended_emit [simp]: "tended (emit e s) = tended s"
  by (simp add: tended_def counted_def drain_due_def emit_def isOpen_def)

lemma tended_control: "tended s \<Longrightarrow> tended (sendControl message (\<lambda>s. s) s)"
  by (simp add: sendControl_def)

lemma tended_closeCircuit: "tended s \<Longrightarrow> tended (closeCircuit circuitId reason s)"
  by (simp add: closeCircuit_def tended_removeCircuit tended_control)

lemma tended_fail: "tended s \<Longrightarrow> tended (fail call message s)"
  by (simp add: fail_def tended_closeCircuit split: option.split)

lemma tended_requestCircuitClose: "tended s \<Longrightarrow> tended (requestCircuitClose circuitId s)"
  by (simp add: requestCircuitClose_def tended_removeCircuit tended_control)

lemma tended_socket_close: "tended s \<Longrightarrow> tended (socket_close call s)"
  by (auto simp: socket_close_def intro!: tended_requestCircuitClose tended_kept [OF kept_basic(9)] split: option.split)

lemma tended_enqueue:
  assumes "tended s" and "map_of (mp_circuits s) circuitId \<noteq> None"
    and "circuit_bytes circuitId s + int (length frame) \<le> int CLIENT_QUEUE_BYTES_PER_CIRCUIT"
    and "mp_queuedBytes s + int (length frame) \<le> int CLIENT_QUEUE_BYTES_PER_SOCKET"
  shows "tended (enqueue circuitId frame s)"
proof -
  have q: "queues_ok (mp_queues s) (mp_circuitOrder s) (mp_queuedBytesByCircuit s) (mp_queuedBytes s) (dom (map_of (mp_circuits s)))"
    using assms(1) by (simp add: tended_def counted_def)
  then have "circuit_bytes circuitId s = waiting_bytes circuitId (mp_queues s)" by (simp add: queues_ok_def circuit_bytes_def)
  moreover have "circuitId \<in> dom (map_of (mp_circuits s))" using assms(2) by (simp add: domIff)
  ultimately have "counted (enqueue circuitId frame s)"
    using queues_push [OF q, of circuitId frame] assms(3,4) by (simp add: counted_def enqueue_def scheduleDrain_def)
  moreover have "drain_due (enqueue circuitId frame s)" by (simp add: drain_due_def enqueue_def scheduleDrain_def isOpen_def)
  ultimately show ?thesis by (simp add: tended_def)
qed

lemma tended_sendCircuitData: "tended s \<Longrightarrow> tended (sendCircuitData circuitId payload isBinary s)"
  by (auto simp: sendCircuitData_def intro: tended_fail tended_enqueue split: option.split sum.split)

lemma tended_socket_send: "tended s \<Longrightarrow> tended (socket_send call payload isBinary s)"
  by (simp add: socket_send_def tended_sendCircuitData split: option.split)

lemma tended_handleData: "tended s \<Longrightarrow> tended (handleData data s)"
  by (auto simp: handleData_def intro: tended_closeCircuit tended_kept [OF kept_basic(3)] tended_kept [OF kept_basic(5)]
      split: option.split sum.split)

lemma tended_circuit: "tended s \<Longrightarrow> tended (s\<lparr>mp_circuits := AList.update circuitId call (mp_circuits s)\<rparr>)"
  by (auto simp: tended_def counted_def drain_due_def isOpen_def omap_simps intro: queues_more)

lemma tended_handleOpened: "tended s \<Longrightarrow> tended (handleOpened circuitId s)"
  by (auto simp: handleOpened_def Let_def split: option.split
      intro!: tended_kept [OF kept_basic(7)] tended_circuit tended_kept [OF kept_basic(6)] tended_kept [OF kept_basic(8)] tended_control)

lemma tended_handleText: "tended s \<Longrightarrow> tended (handleText parsed s)"
  by (auto simp: handleText_def split: option.split
      intro: tended_kept [OF kept_basic(3)] tended_handleOpened tended_kept [OF kept_calls(3)] tended_removeCircuit)

section \<open>Drains\<close>

lemma counted_shift:
  assumes "counted s" and "map_of (mp_queues s) circuitId = Some queue"
  shows "counted (shift_frame circuitId queue (s\<lparr>mp_drainCursor := k\<rparr>))"
proof -
  have q: "queues_ok (mp_queues s) (mp_circuitOrder s) (mp_queuedBytesByCircuit s) (mp_queuedBytes s) (dom (map_of (mp_circuits s)))"
    using assms(1) by (simp add: counted_def)
  have "(case map_of (mp_queuedBytesByCircuit s) circuitId of None \<Rightarrow> int (length (hd queue)) | Some n \<Rightarrow> n) =
      waiting_bytes circuitId (mp_queues s)"
  proof (cases "map_of (mp_queuedBytesByCircuit s) circuitId")
    case None
    then have zero: "waiting_bytes circuitId (mp_queues s) = 0" using q by (auto simp: queues_ok_def dest: spec [of _ circuitId])
    obtain frame rest where queue: "queue = frame # rest" using q assms(2) by (cases queue) (auto simp: queues_ok_def)
    with zero assms(2) have "int (length frame) + frame_bytes rest = 0" by (simp add: waiting_bytes_def)
    with frame_bytes_nonneg [of rest] have "int (length frame) = 0" by linarith
    with None zero queue show ?thesis by simp
  next
    case (Some n)
    then show ?thesis using q by (auto simp: queues_ok_def dest: spec [of _ circuitId])
  qed
  with queues_shift [OF q assms(2)] show ?thesis
    by (cases "tl queue = []") (simp_all add: counted_def shift_frame_def Let_def)
qed

lemma counted_nextQueuedFrame: "counted s \<Longrightarrow> nextQueuedFrame s = (found, s') \<Longrightarrow> counted s'"
  by (cases found) (auto dest: nextQueuedFrame_None elim!: nextQueuedFrame_Some intro: counted_shift)

lemma counted_drain_loop: "counted s \<Longrightarrow> counted (drain_loop buffered i s)"
proof (induction buffered i s rule: drain_loop.induct)
  case (1 buffered i s)
  show ?case
  proof (cases "nextQueuedFrame s")
    case (Pair found s')
    with counted_nextQueuedFrame [OF 1(2) Pair] 1 show ?thesis
      by (subst drain_loop.simps) (auto simp: counted_def emit_def split: option.split)
  qed
qed

lemma tended_drain: "counted s \<Longrightarrow> tended (drain buffered s)"
  using counted_drain_loop [of s buffered 0]
  by (auto simp: drain_def Let_def tended_def drain_due_def counted_def scheduleDrain_def isOpen_def)

lemma tended_drains: "tended s \<Longrightarrow> tended (drainMicrotask buffered s)" "tended s \<Longrightarrow> tended (drainTimeout buffered s)"
proof -
  have "counted (s\<lparr>mp_drainScheduled := b\<rparr>) = counted s" "counted (s\<lparr>mp_drainTimer := b\<rparr>) = counted s" for b
    by (simp_all add: counted_def)
  then show "tended s \<Longrightarrow> tended (drainMicrotask buffered s)" "tended s \<Longrightarrow> tended (drainTimeout buffered s)"
    by (auto simp: drainMicrotask_def drainTimeout_def intro!: tended_drain) (simp_all add: tended_def)
qed

section \<open>Room for circuits\<close>

definition room :: "MuxClient \<Rightarrow> bool" where
  "room s \<longleftrightarrow>
     (\<exists>m. mp_maxCircuits s = js_nat m \<and> length (mp_pending s) + length (mp_circuits s) \<le> m) \<and>
     (\<not> mp_settled s \<longrightarrow> mp_maxCircuits s = js_nat 0) \<and>
     (mp_ws s = WsConnecting \<longrightarrow> mp_pending s = [] \<and> mp_circuits s = [])"

text \<open>Most events make no circuit.\<close>

definition no_more :: "MuxClient \<Rightarrow> MuxClient \<Rightarrow> bool" where
  "no_more s s' \<longleftrightarrow>
     length (mp_pending s') + length (mp_circuits s') \<le> length (mp_pending s) + length (mp_circuits s) \<and>
     mp_maxCircuits s' = mp_maxCircuits s \<and> (mp_settled s \<longrightarrow> mp_settled s') \<and> (mp_ws s' = WsConnecting \<longrightarrow> mp_ws s = WsConnecting)"

lemma room_no_more: "no_more s s' \<Longrightarrow> room s \<Longrightarrow> room s'"
proof -
  assume n: "no_more s s'" and r: "room s"
  have "length (mp_pending s') + length (mp_circuits s') = 0" if "mp_ws s' = WsConnecting"
    using n r that by (simp add: no_more_def room_def)
  then show "room s'" using n r by (force simp: no_more_def room_def)
qed

lemma no_more_refl [simp]: "no_more s s"
  by (simp add: no_more_def)

lemma no_more_trans [trans]: "no_more s s' \<Longrightarrow> no_more s' s'' \<Longrightarrow> no_more s s''"
  by (auto simp: no_more_def)

lemma length_delete: "length (AList.delete k m) \<le> length m"
  by (simp add: AList.delete_eq)

lemma no_more_after:
  "no_more s (emit e s') = no_more s s'"
  "no_more s (settle call e s') = no_more s s'"
  "no_more s (remoteClose call code reason s') = no_more s s'"
  "no_more s (scheduleDrain delayed s') = no_more s s'"
  "no_more s (enqueue circuitId frame s') = no_more s s'"
  "no_more s (shift_frame circuitId queue s') = no_more s s'"
  "no_more s (markOpen call s') = no_more s s'"
  "no_more s (receive call payload isBinary s') = no_more s s'"
  "no_more s (s'\<lparr>mp_abortable := l\<rparr>) = no_more s s'"
  "no_more s (s'\<lparr>mp_sockets := a\<rparr>) = no_more s s'"
  "no_more s (s'\<lparr>mp_drainCursor := k\<rparr>) = no_more s s'"
  "no_more s (s'\<lparr>mp_drainScheduled := b\<rparr>) = no_more s s'"
  "no_more s (s'\<lparr>mp_drainTimer := b\<rparr>) = no_more s s'"
  "no_more s (s'\<lparr>mp_readyTimer := b\<rparr>) = no_more s s'"
  by (simp_all add: no_more_def emit_def settle_def remoteClose_def scheduleDrain_def enqueue_def shift_frame_def Let_def
      markOpen_def receive_def split: option.split)

lemma no_more_some:
  "no_more s s' \<Longrightarrow> no_more s (wsClose wcode reason s')"
  "no_more s s' \<Longrightarrow> no_more s (forget_pending circuitId call s')"
  "no_more s s' \<Longrightarrow> no_more s (removeCircuit circuitId code reason s')"
  "no_more s s' \<Longrightarrow> no_more s (s'\<lparr>mp_settled := True\<rparr>)"
  "no_more s s' \<Longrightarrow> no_more s (s'\<lparr>mp_pending := []\<rparr>)"
  "no_more s s' \<Longrightarrow> no_more s (s'\<lparr>mp_ws := WsClosed\<rparr>)"
  using length_delete [of circuitId "mp_pending s'"] length_delete [of circuitId "mp_circuits s'"]
  by (auto simp: no_more_def wsClose_def forget_pending_def removeCircuit_def emit_def remoteClose_def split: option.split)

lemma no_more_control:
  "no_more s s' \<Longrightarrow> (\<And>s'. no_more s s' \<Longrightarrow> no_more s (continue s')) \<Longrightarrow> no_more s (sendControl message continue s')"
  by (simp add: sendControl_def no_more_after)

lemma no_more_calls:
  "no_more s s' \<Longrightarrow> no_more s (handleAbort circuitId call s')"
  "no_more s (abort call s)"
  "no_more s (openTimeout call s)"
  "no_more s (handleError circuitId reason s)"
proof -
  show h: "no_more s s' \<Longrightarrow> no_more s (handleAbort circuitId call s')" for s' circuitId
    by (auto simp: handleAbort_def no_more_after intro!: no_more_control no_more_some)
  show "no_more s (abort call s)" by (auto simp: abort_def no_more_after intro!: h split: option.split)
  show "no_more s (openTimeout call s)"
    by (auto simp: openTimeout_def no_more_after intro!: no_more_control no_more_some split: option.split)
  show "no_more s (handleError circuitId reason s)"
    by (auto simp: handleError_def no_more_after intro!: no_more_some split: option.split)
qed

lemma no_more_closeCircuit: "no_more s s' \<Longrightarrow> no_more s (closeCircuit circuitId reason s')"
  by (auto simp: closeCircuit_def intro!: no_more_some no_more_control)

lemma no_more_fail: "no_more s (fail call message s)"
  by (auto simp: fail_def no_more_after intro!: no_more_closeCircuit split: option.split)

lemma no_more_sends:
  "no_more s (socket_send call payload isBinary s)" "no_more s (socket_close call s)" "no_more s (handleData data s)"
proof -
  show "no_more s (socket_send call payload isBinary s)"
    by (auto simp: socket_send_def sendCircuitData_def no_more_after no_more_fail split: option.split sum.split)
  show "no_more s (socket_close call s)"
    by (auto simp: socket_close_def requestCircuitClose_def no_more_after intro!: no_more_some no_more_control split: option.split)
  show "no_more s (handleData data s)"
    by (auto simp: handleData_def no_more_after intro!: no_more_some no_more_closeCircuit split: option.split sum.split)
qed

lemma no_more_handleOpened:
  assumes "distinct (map fst (mp_pending s))"
  shows "no_more s (handleOpened circuitId s)"
proof (cases "map_of (mp_pending s) circuitId")
  case None
  then show ?thesis by (simp add: handleOpened_def no_more_control)
next
  case (Some call)
  let ?s = "markOpen call (forget_pending circuitId call s)"
  have "length (AList.delete circuitId (mp_pending s)) + 1 = length (mp_pending s)"
    using AList_delete_length [OF Some assms] .
  moreover have "length (AList.update circuitId call (mp_circuits s)) \<le> length (mp_circuits s) + 1"
    by (simp add: length_update)
  ultimately have "no_more s (?s\<lparr>mp_circuits := AList.update circuitId call (mp_circuits ?s)\<rparr>)"
    by (simp add: no_more_def markOpen_def forget_pending_def split: option.split)
  then show ?thesis by (simp add: handleOpened_def Some Let_def no_more_after)
qed

lemma no_more_handleText: "distinct (map fst (mp_pending s)) \<Longrightarrow> no_more s (handleText parsed s)"
  by (auto simp: handleText_def intro!: no_more_some no_more_handleOpened no_more_calls split: option.split)

lemma no_more_nextQueuedFrame: "nextQueuedFrame s' = (found, s'') \<Longrightarrow> no_more s s' \<Longrightarrow> no_more s s''"
  by (cases found) (auto dest: nextQueuedFrame_None elim!: nextQueuedFrame_Some simp: no_more_after)

lemma no_more_drain_loop: "no_more s s' \<Longrightarrow> no_more s (drain_loop buffered i s')"
proof (induction buffered i s' rule: drain_loop.induct)
  case (1 buffered i s')
  show ?case
  proof (cases "nextQueuedFrame s'")
    case (Pair found s'')
    with no_more_nextQueuedFrame [OF Pair] 1 show ?thesis
      by (subst drain_loop.simps) (auto simp: no_more_after split: option.split)
  qed
qed

lemma no_more_drains: "no_more s (drainMicrotask buffered s)" "no_more s (drainTimeout buffered s)"
  by (auto simp: drainMicrotask_def drainTimeout_def drain_def Let_def no_more_after intro!: no_more_drain_loop)

lemma fold_keeps: "(\<And>x s. Q s \<Longrightarrow> Q (f x s)) \<Longrightarrow> Q s \<Longrightarrow> Q (fold f xs s)"
  by (induction xs arbitrary: s) auto

lemma no_more_handleClose: "no_more s s' \<Longrightarrow> no_more s (handleClose code reason s')"
proof -
  assume n: "no_more s s'"
  have "no_more s (s'\<lparr>mp_closed := True, mp_drainTimer := False\<rparr>)" using n by (simp add: no_more_def)
  then have "no_more s (fold (close_pending code reason) (map snd (mp_pending s')) (s'\<lparr>mp_closed := True, mp_drainTimer := False\<rparr>))"
    by (rule fold_keeps [rotated]) (simp add: close_pending_def no_more_after, simp add: no_more_def)
  then show ?thesis using n
    by (auto simp: handleClose_def Let_def no_more_after close_circuit_of_def intro!: fold_keeps [where Q = "no_more s"] no_more_some)
qed

lemma no_more_connectClose: "no_more s (connectClose code reason (s\<lparr>mp_ws := WsClosed\<rparr>))"
  by (auto simp: connectClose_def Let_def no_more_after intro!: no_more_some no_more_handleClose)

section \<open>Every event\<close>

lemma tended_handleClose: "tended s \<Longrightarrow> tended (handleClose code reason s)"
proof -
  assume "tended s"
  then have "tended (s\<lparr>mp_closed := True, mp_drainTimer := False\<rparr>)"
    by (auto simp: tended_def counted_def drain_due_def isOpen_def)
  then have "tended (fold (close_pending code reason) calls (s\<lparr>mp_closed := True, mp_drainTimer := False\<rparr>))" for calls
  proof (rule fold_keeps [rotated])
    fix call s' assume t: "tended s'"
    have "queues_kept s' (close_pending code reason call s')"
      by (simp add: close_pending_def kept_after) (simp add: queues_kept_def queue_view_def isOpen_def)
    from tended_kept [OF this t] show "tended (close_pending code reason call s')" .
  qed
  moreover have "tended (s'\<lparr>mp_pending := []\<rparr>) = tended s'" for s'
    by (simp add: tended_def counted_def drain_due_def isOpen_def)
  ultimately show ?thesis using \<open>tended s\<close>
    by (auto simp: handleClose_def Let_def close_circuit_of_def intro!: fold_keeps [where Q = tended] tended_removeCircuit)
qed

lemma tended_connectClose: "tended s \<Longrightarrow> tended (connectClose code reason (s\<lparr>mp_ws := WsClosed\<rparr>))"
proof -
  assume "tended s"
  then have "tended (s\<lparr>mp_ws := WsClosed, mp_readyTimer := False\<rparr>)"
    by (auto simp: tended_def counted_def drain_due_def isOpen_def)
  from tended_handleClose [OF this] show ?thesis
    by (auto simp: connectClose_def Let_def intro: tended_kept [OF kept_basic(12)])
qed

lemma opened_socket:
  assumes "tended s" and "room s"
  shows "tended (client_step s SocketOpened)" "room (client_step s SocketOpened)"
proof -
  show "tended (client_step s SocketOpened)"
  proof (cases "mp_ws s = WsConnecting")
    case True
    then have "mp_circuits s = []" using assms(2) by (simp add: room_def)
    then have "mp_queues s = []" using assms(1) by (auto simp: tended_def counted_def queues_ok_def)
    then have "mp_queuedBytes s = 0" using assms(1) by (simp add: tended_def counted_def queues_ok_def all_bytes_def)
    then show ?thesis using assms(1) True by (simp add: tended_def counted_def drain_due_def)
  qed (simp add: assms)
  show "room (client_step s SocketOpened)" using assms(2) by (auto simp: room_def)
qed

lemma is_ready_limit: "isRelayMuxReady message \<Longrightarrow> \<exists>m. limit_field message ''maxCircuits'' = js_nat m"
  unfolding isRelayMuxReady_def limit_field_def
  by (cases "get_prop message ''maxCircuits''" rule: is_positive_safe_integer.cases) (auto dest: js_safe_nat)

lemma connected:
  assumes "tended s" and "room s" and "distinct (map fst (mp_pending s))"
  shows "tended (connectText parsed s)" "room (connectText parsed s)"
proof -
  have ready: "tended s' \<and> room s'"
    if "\<not> mp_settled s" "isRelayMuxReady message"
      and s': "s' = s\<lparr>mp_settled := True, mp_connected := True, mp_readyTimer := False,
          mp_maxFrameBytes := limit_field message ''maxFrameBytes'', mp_maxCircuits := limit_field message ''maxCircuits''\<rparr>"
    for message s'
  proof
    show "tended s'" using assms(1) by (simp add: s' tended_def counted_def drain_due_def isOpen_def)
    have "mp_pending s = []" "mp_circuits s = []" using assms(2) that(1) by (auto simp: room_def)
    then show "room s'" using is_ready_limit [OF that(2)] by (auto simp: s' room_def)
  qed
  have room_emit: "room (emit e s') = room s'" for e s' by (simp add: room_def emit_def)
  show "tended (connectText parsed s)" "room (connectText parsed s)"
    using ready tended_handleText [OF assms(1)] room_no_more [OF no_more_handleText [OF assms(3)] assms(2)]
    by (auto simp: connectText_def room_emit split: option.splits)
qed

lemma room_openCircuit:
  assumes "room s"
  shows "room (openCircuit username channel hasSignal aborted s)"
proof -
  let ?n = "mp_nextCall s" and ?s1 = "s\<lparr>mp_nextCall := Suc (mp_nextCall s)\<rparr>"
  let ?r = "openCircuit username channel hasSignal aborted s"
  have r1: "room ?s1" "room (emit e ?s1)" "room (emit e (?s1\<lparr>mp_nextCircuitId := k\<rparr>))" for e k
    using assms by (simp_all add: room_def emit_def)
  show ?thesis
  proof (cases "isOpen ?s1 \<and> js_less (js_nat (length (mp_circuits s) + length (mp_pending s))) (mp_maxCircuits s)")
    case False
    then have "\<exists>m. ?r = emit (Rejected ?n m) ?s1" by (auto simp: openCircuit_def Let_def)
    then show ?thesis using r1(2) by auto
  next
    case guards: True
    obtain found s2 where alloc: "allocateCircuitId ?s1 = (found, s2)" by (cases "allocateCircuitId ?s1")
    show ?thesis
    proof (cases found)
      case None
      with alloc obtain k where s2: "s2 = ?s1\<lparr>mp_nextCircuitId := k\<rparr>" using allocateCircuitId_None by blast
      have "?r = emit (Rejected ?n ''Relay mux circuit ids exhausted'') s2"
        using guards alloc None by (simp add: openCircuit_def Let_def)
      then show ?thesis using r1(3) by (simp add: s2)
    next
      case (Some candidate)
      define id where "id = js_nat candidate"
      from allocateCircuitId_Some [OF alloc [unfolded Some]] obtain k where
        free: "map_of (mp_pending s) id = None" and s2: "s2 = ?s1\<lparr>mp_nextCircuitId := k\<rparr>" by (auto simp: id_def)
      define s3 where "s3 = s2\<lparr>mp_sockets := AList.update ?n \<lparr>cs_circuitId = id, cs_state = WsConnecting\<rparr> (mp_sockets s2),
          mp_pending := AList.update id ?n (mp_pending s2), mp_timeouts := mp_timeouts s2 @ [?n]\<rparr>"
      have r: "?r = (if hasSignal \<and> aborted then handleAbort id ?n s3
          else sendControl (mux_open id username channel) (\<lambda>s. s)
            (if hasSignal then s3\<lparr>mp_abortable := mp_abortable s3 @ [?n]\<rparr> else s3))"
        using guards alloc Some by (simp add: openCircuit_def Let_def id_def s3_def s2)
      have "room s3"
        using assms guards free by (auto simp: room_def s3_def s2 length_update js_simps isOpen_def)
      moreover have "no_more s3 ?r"
        unfolding r by (auto simp: no_more_after intro!: no_more_calls no_more_control)
      ultimately show ?thesis by (rule room_no_more [rotated])
    qed
  qed
qed

lemma step_tended:
  assumes "placed s" and "tended s" and "room s"
  shows "tended (client_step s op)" "room (client_step s op)"
proof -
  have d: "distinct (map fst (mp_pending s))" using well_placedD(3) [OF placed_parts [OF assms(1)]] .
  have closing: "tended (s\<lparr>mp_ws := WsClosing\<rparr>)" "no_more s (s\<lparr>mp_ws := WsClosing\<rparr>)"
    using assms(2) by (auto simp: tended_def counted_def drain_due_def isOpen_def no_more_def)
  have failed: "tended (s\<lparr>mp_settled := True, mp_readyTimer := False\<rparr>)" "no_more s (s\<lparr>mp_settled := True, mp_readyTimer := False\<rparr>)"
    using assms(2) by (auto simp: tended_def counted_def drain_due_def isOpen_def no_more_def)
  show "tended (client_step s op)"
    using assms connected(1) [OF assms(2,3) d] opened_socket(1) [OF assms(2,3)] closing failed
    by (cases op) (auto simp: readyTimeout_def connectError_def disposeClose_def tended_handleData tended_connectClose
        tended_socket_send tended_socket_close tended_drains
        intro: tended_kept [OF kept_basic(3)] tended_kept [OF kept_basic(11)] tended_kept [OF kept_calls(1)]
          tended_kept [OF kept_calls(2)] tended_kept [OF kept_openCircuit])
  have more: "room s'" if "no_more s s'" for s' using room_no_more [OF that assms(3)] .
  have rest: "no_more s (readyTimeout s)" "no_more s (connectError s)" "no_more s (disposeClose s)"
    using failed(2) by (auto simp: readyTimeout_def connectError_def disposeClose_def no_more_after intro: no_more_some)
  show "room (client_step s op)"
    using connected(2) [OF assms(2,3) d] opened_socket(2) [OF assms(2,3)]
    by (cases op) (simp_all add: assms(3) room_openCircuit more closing(2) rest no_more_some(1) no_more_sends no_more_drains
        no_more_calls(2,3) no_more_connectClose)
qed

interpretation mux_queues: invariant_machine client_step "\<lambda>_ _. True" newMuxClient
  "\<lambda>s. placed s \<and> ledger_ok (books s) \<and> tended s \<and> room s"
proof unfold_locales
  have "placed newMuxClient \<and> ledger_ok (books newMuxClient)" using mux_calls.inv_init .
  moreover have "tended newMuxClient"
    by (simp add: newMuxClient_def tended_def counted_def drain_due_def queues_ok_def waiting_bytes_def all_bytes_def)
  moreover have "room newMuxClient" by (simp add: newMuxClient_def room_def)
  ultimately show "placed newMuxClient \<and> ledger_ok (books newMuxClient) \<and> tended newMuxClient \<and> room newMuxClient" by blast
next
  fix s op
  assume "placed s \<and> ledger_ok (books s) \<and> tended s \<and> room s"
  with step_moves [of s op] step_tended [of s op] ledger_ok_move
  show "placed (client_step s op) \<and> ledger_ok (books (client_step s op)) \<and> tended (client_step s op) \<and> room (client_step s op)"
    by blast
qed

text \<open>
  C39 Whatever happens, the bytes the connection counts are the bytes of the frames that wait, per circuit and
  in total, within the limits of 2 MiB and 8 MiB, only live circuits have frames waiting, a drain is to
  come as long as frames wait and the socket can send, and the circuits and the calls for one are never
  more than the relay announced.
\<close>

theorem client_queues_bounded:
  "mp_queuedBytes (foldl client_step newMuxClient ops) = all_bytes (mp_queues (foldl client_step newMuxClient ops)) \<and>
   mp_queuedBytes (foldl client_step newMuxClient ops) \<le> int CLIENT_QUEUE_BYTES_PER_SOCKET \<and>
   (\<forall>circuitId. circuit_bytes circuitId (foldl client_step newMuxClient ops) =
        waiting_bytes circuitId (mp_queues (foldl client_step newMuxClient ops)) \<and>
      circuit_bytes circuitId (foldl client_step newMuxClient ops) \<le> int CLIENT_QUEUE_BYTES_PER_CIRCUIT) \<and>
   dom (map_of (mp_queues (foldl client_step newMuxClient ops))) \<subseteq>
     dom (map_of (mp_circuits (foldl client_step newMuxClient ops))) \<and>
   drain_due (foldl client_step newMuxClient ops) \<and>
   (\<exists>m. mp_maxCircuits (foldl client_step newMuxClient ops) = js_nat m \<and>
      length (mp_pending (foldl client_step newMuxClient ops)) + length (mp_circuits (foldl client_step newMuxClient ops)) \<le> m)"
proof -
  let ?s = "foldl client_step newMuxClient ops"
  from mux_queues.inv_run [of ops] have i: "tended ?s" "room ?s" by simp_all
  from i(1) have q: "queues_ok (mp_queues ?s) (mp_circuitOrder ?s) (mp_queuedBytesByCircuit ?s) (mp_queuedBytes ?s)
      (dom (map_of (mp_circuits ?s)))" and d: "drain_due ?s"
    by (simp_all add: tended_def counted_def)
  from q have c: "\<forall>circuitId. circuit_bytes circuitId ?s = waiting_bytes circuitId (mp_queues ?s) \<and>
      circuit_bytes circuitId ?s \<le> int CLIENT_QUEUE_BYTES_PER_CIRCUIT"
    by (simp add: queues_ok_def circuit_bytes_def)
  from i(2) have "\<exists>m. mp_maxCircuits ?s = js_nat m \<and> length (mp_pending ?s) + length (mp_circuits ?s) \<le> m"
    by (simp add: room_def)
  with c d show ?thesis using q by (simp add: queues_ok_def)
qed

text \<open>
  A drain of a socket that takes everything leaves nothing waiting: the loop only stops when the total is
  zero or no circuit has a frame, and then the total is zero.
\<close>

lemma nothing_queued:
  assumes "counted s" and "nextQueuedFrame s = (None, s')"
  shows "mp_queuedBytes s = 0"
proof -
  have "mp_queues s = []"
  proof (rule ccontr)
    assume "mp_queues s \<noteq> []"
    then obtain e rest where "mp_queues s = e # rest" by (cases "mp_queues s") auto
    then have "map_of (mp_queues s) (fst e) = Some (snd e)" by simp
    then obtain circuitId queue where "map_of (mp_queues s) circuitId = Some queue" by blast
    moreover from this have "circuitId \<in> set (mp_circuitOrder s)" "queue \<noteq> []"
      using assms(1) unfolding counted_def queues_ok_def by (metis domI, metis)
    ultimately show False using nextQueuedFrame_None(2) [OF assms(2), of circuitId] by (simp add: has_queued_def)
  qed
  with assms(1) show ?thesis by (simp add: counted_def queues_ok_def all_bytes_def)
qed

lemma drain_loop_empties:
  "counted s \<Longrightarrow> (\<And>j. buffered j \<le> CLIENT_BUFFERED_AMOUNT_HIGH_WATER) \<Longrightarrow> mp_queuedBytes (drain_loop buffered i s) \<le> 0"
proof (induction buffered i s rule: drain_loop.induct)
  case (1 buffered i s)
  show ?case
  proof (cases "nextQueuedFrame s")
    case (Pair found s')
    have "counted (emit (WsData frame) s')" for frame
      using counted_nextQueuedFrame [OF 1(2) Pair] by (simp add: counted_def emit_def)
    with 1 Pair show ?thesis
      by (subst drain_loop.simps) (auto dest: nextQueuedFrame_None nothing_queued split: option.split)
  qed
qed

lemma drain_empties:
  assumes "isOpen (foldl client_step newMuxClient ops)" and "\<And>j. buffered j \<le> CLIENT_BUFFERED_AMOUNT_HIGH_WATER"
  shows "mp_queuedBytes (drain buffered (foldl client_step newMuxClient ops)) = 0"
proof -
  let ?s = "foldl client_step newMuxClient ops"
  have c: "counted ?s" using mux_queues.inv_run [of ops] by (simp add: tended_def)
  from drain_loop_empties [OF c assms(2)] have le: "mp_queuedBytes (drain_loop buffered 0 ?s) \<le> 0" .
  moreover have "0 \<le> mp_queuedBytes (drain_loop buffered 0 ?s)"
    using counted_drain_loop [OF c] by (simp add: counted_def queues_ok_def)
  ultimately show ?thesis using assms(1) by (simp add: drain_def Let_def)
qed

text \<open>A frame of the size the relay announces by default does not fit an empty queue: its header is counted.\<close>

lemma largest_frame_closes:
  assumes "map_of (mp_circuits s) (js_nat n) = Some call" and "isOpen s" and "0 < n" "n < 2 ^ 32"
    and "map_of (mp_sockets s) call = Some \<lparr>cs_circuitId = js_nat n, cs_state = WsOpen\<rparr>"
    and "mp_maxFrameBytes s = js_nat CLIENT_QUEUE_BYTES_PER_CIRCUIT"
    and "length payload = CLIENT_QUEUE_BYTES_PER_CIRCUIT" and "circuit_bytes (js_nat n) s = 0"
  shows "map_of (mp_circuits (sendCircuitData (js_nat n) payload isBinary s)) (js_nat n) = None"
proof -
  have valid: "isRelayMuxCircuitId (Some (JNum (js_nat n)))" using assms(3,4) circuit_id_iff by blast
  then obtain frame where frame: "encodeRelayMuxDataFrame (js_nat n) payload isBinary = Inr frame"
    "length frame = CLIENT_QUEUE_BYTES_PER_CIRCUIT + 6"
    using assms(7) by (simp add: encodeRelayMuxDataFrame_def del: isRelayMuxCircuitId.simps)
  then show ?thesis
    using assms by (simp add: sendCircuitData_def js_simps fail_def closeCircuit_def sendControl_def removeCircuit_def
        remoteClose_def emit_def isOpen_def omap_simps split: option.split)
qed

end
