(* ===== verification/Spec2Isabelle.thy ===== *)
theory Spec2Isabelle
  imports BinaryFraming RelayMux MuxHandlerLaws Limiters IdentityLimits ParentChain SessionDag WorkerPool
    ClientIp OriginPolicy Pagination GlossaryMatcher BlockedBloom SingleFlight RegexSyntax ReconnectManager MuxClientQueues
begin

text \<open>
  A verification of the routing, admission and transcript core of Yep Anywhere, a server that runs
  coding agents and lets browsers and phones watch and steer them, directly or through a relay.

  The parts and how they interact. A server keeps a WebSocket to the relay, under a user name that the
  relay's registry binds to its installation. A client asks the relay for that name; the connection
  manager pairs the two sockets and from then on forwards what one sends to the other. A client that
  speaks the multiplexed protocol opens many such circuits over one socket. Who may connect is decided
  before: by the origin policy, by the address of the peer (behind trusted proxies that of the client)
  and by limiters. Behind the relay the server's messages travel in binary frames, large ones cut into
  chunks. On the server a supervisor starts agent sessions up to a limit of workers, queueing what
  does not fit, and the transcripts that the agents write are read back as a graph, of which the active
  branch is put in order and cut into pages for the client.

  Theories and sources (under src/packages):
  \<^item> \<open>Prelude\<close>: JSON values, JavaScript maps as association lists and their lemmas, shared by all.
  \<^item> \<open>JsStrings\<close>: the string functions of JavaScript the sources use (trim, split, join, parseInt).
  \<^item> \<open>BinaryFraming\<close> (shared/src/binary-framing.ts): frames, envelopes, chunks; the reassembler is a
    record and \<open>accept\<close>, \<open>acceptFrame\<close> are its methods. Round trips, canonicity, and that reassembly
    gives a message back unchanged.
  \<^item> \<open>RelayMux\<close> (shared/src/relay-mux.ts), \<open>RelayProtocol\<close> (shared/src/relay-protocol.ts): guards of the
    relay's messages and the frame codec of the multiplexed protocol.
  \<^item> \<open>UsernameRegistry\<close> (relay/src/registry.ts): the table of user names as a list of rows.
  \<^item> \<open>Connections\<close>, \<open>ConnectionLinks\<close>, \<open>ConnectionLaws\<close> (relay/src/connections.ts): the manager's maps as a
    record, its methods as functions that return the effects on sockets; a step relation over sockets
    that play one role each, its invariant, isolation of pairs, and accounting.
  \<^item> \<open>WsHandler\<close>, \<open>WsHandlerLaws\<close> (relay/src/ws-handler.ts): the handlers of a relay socket on a heap of
    connection states, ping timers included.
  \<^item> \<open>MuxHandler\<close>, \<open>MuxHandlerLaws\<close> (relay/src/mux-handler.ts): sessions and circuits of the multiplexed
    protocol, limits, queues and timers; the bounds hold in every reachable state.
  \<^item> \<open>Limiters\<close> (relay/src/unauthenticated-limiter.ts, push-broker/src/rate-limiter.ts) and
    \<open>IdentityLimits\<close> (server/src/identity-service/limits.ts): caps, fixed windows, token buckets, the bounded
    reader of request bodies.
  \<^item> \<open>ClientIp\<close>, \<open>OriginPolicy\<close> (relay/src/client-ip.ts, origin-policy.ts): which address and which origin
    counts, against a specification by leading bits and by proper subdomains.
  \<^item> \<open>ParentChain\<close> (shared/src/dag.ts), \<open>SessionDag\<close> (server/src/sessions/dag.ts), \<open>Pagination\<close>
    (server/src/sessions/pagination.ts): ordering of rows, the active branch with its tool calls and
    sibling branches, pages.
  \<^item> \<open>WorkerQueue\<close>, \<open>WorkerPool\<close> (server/src/supervisor/WorkerQueue.ts, Supervisor.ts): the queue, which
    refines a first-in first-out contract stated as a locale, and the admission of sessions as a machine
    of suspended invocations, because the code awaits between its checks and its updates; the copying
    of a transcript, which takes a slot for starting sessions unasked, is one of its calls.

  \<^item> \<open>GlossaryTrie\<close>, \<open>SpanIndex\<close>, \<open>GlossaryMatcher\<close> (shared/src/glossary/compiler.ts, matcher.ts,
    normalization.ts): the Aho-Corasick automaton of a glossary, the Fenwick tree of the text already
    taken, and the matcher over them. Unicode tables are the record \<open>unicode\<close>.
  \<^item> \<open>BlockedBloom\<close> (server/src/services/voice/blocked-bloom.ts): the filter of counted messages and its
    file, with a crash possible between any two writes.
  \<^item> \<open>SingleFlight\<close> (server/src/lib/sourceVersionedSingleFlight.ts): the cache of computed values; the
    continuations of its promises are steps of their own, over a heap of entries.
  \<^item> \<open>LinearRegexParser\<close>, \<open>LinearRegex\<close> (shared/src/linear-regex.ts): the parser of the supported regular
    expressions, the automaton built from a pattern, and its simulation, exact for what the pattern
    denotes; the states marked by earlier calls never confuse a later one. \<open>RegexSyntax\<close> is a
    grammar of the notation, with escapes, classes, lazy quantifiers and alternatives, and shows that the parser
    reads every text of it with its meaning.
  \<^item> \<open>ReconnectManager\<close> (client/src/lib/connection/ConnectionManager.ts): the client's connection manager,
    with its timers, attempts that settle late, visibility and critical operations.
  \<^item> \<open>MuxClient\<close>, \<open>MuxClientQueues\<close> (client/src/lib/connection/RelayMuxPool.ts): the client's end of a
    multiplexed relay connection. The calls of \<open>openCircuit\<close> refine a ledger in which each is settled once;
    the counters of the queues are exact and within their limits.

  Interfaces. Each component that another relies on promises laws stated as a locale, which the theory
  of the provider interprets on the model of the code (see \<open>WorkerQueue\<close>, \<open>Connections\<close>, \<open>Limiters\<close>).

  Parameters. JSON and UTF-8 codecs, gzip, \<open>new URL\<close> and \<open>Date.parse\<close> are arguments of the definitions that
  use them, as are Unicode's tables, clocks, fresh ids and the outcome of starting an agent. Strings hold code units
  below 256. Token counts are rational numbers where the code has doubles.

  Termination and fuel. Loops over links between rows (parents, groups, branches) are functions with
  their termination proofs, by the rows not yet visited. The loops of the glossary that the code could
  run forever are partial functions, proved to return. Fuel is used twice: by \<open>load_older\<close>, a
  reader which asks for page after page, where the number of rows plus two is proved enough, and by the
  recursive descent of \<open>parse\<close>, where five calls for each code unit and five more are proved enough.

  Not modelled, and why: HTTP routes, middleware and the set-up of the servers, which only connect the
  components; the provider adapters and the live agent processes, whose behaviour is that of SDKs and
  programs that are not in the repository; cryptography (SRP, NaCl) and the transports that rest on it;
  services over SQLite, the file system and the operating system (notifications, voice, project
  queues, indexes), where nearly every step is such a call; the React components and hooks of the web
  client; the counters and log lines of the relay's statistics; Markdown tables of the glossary; and
  everything that is not TypeScript.
\<close>

end
